(* ===== verification/Prelude.thy ===== *)
theory Prelude
  imports Main "HOL-Library.Multiset"
begin

section \<open>Shared notions of the development\<close>

text \<open>
  This theory holds what the component theories share: the exceptions of the Python sources as
  a datatype, results that carry them, the Python list operations the sources use (slices,
  negative indices, \<^verbatim>\<open>setdefault\<close> padding), rectangular batches as lists of rows, integer
  ceiling division, and the list and multiset lemmas that carry the component proofs.

  Tensors of rank one are lists, tensors of rank two are lists of rows. Lengths, sizes and
  offsets that are never negative are natural numbers; everything that can be negative
  (response anchors, KV cache locations with the sentinel \<open>-1\<close>) is an integer.
\<close>

subsection \<open>Exceptions and results\<close>

text \<open>An exception keeps its Python class; messages are not modelled. \<open>OutOfFuel\<close> is not an exception of the
  code: it is the value of a loop of the model whose bound on the number of rounds is used up. Nor is \<open>NonFinite\<close>: it is
  the value of a tensor division by zero, which is infinite or not a number and makes every loss computed from it so.\<close>

datatype py_exn =
    ValueError
  | RuntimeError
  | AssertionError
  | IndexError
  | KeyError
  | NotImplementedError
  | TypeError
  | ZeroDivisionError
  | AttributeError
  | OutOfFuel
  | NonFinite

type_synonym 'a res = "py_exn + 'a"

definition rbind :: "'a res \<Rightarrow> ('a \<Rightarrow> 'b res) \<Rightarrow> 'b res" where
  "rbind r f = (case r of Inl e \<Rightarrow> Inl e | Inr x \<Rightarrow> f x)"

definition require :: "bool \<Rightarrow> py_exn \<Rightarrow> unit res" where
  "require c e = (if c then Inr () else Inl e)"

named_theorems res_simps "rewriting of results that may carry an exception"

lemma rbind_Inl [simp, res_simps]: "rbind (Inl e) f = Inl e"
  by (simp add: rbind_def)

lemma rbind_Inr [simp, res_simps]: "rbind (Inr x) f = f x"
  by (simp add: rbind_def)

lemma rbind_eq_Inr [res_simps]: "rbind r f = Inr y \<longleftrightarrow> (\<exists>x. r = Inr x \<and> f x = Inr y)"
  by (cases r) auto

lemma rbind_eq_Inl: "rbind r f = Inl e \<longleftrightarrow> r = Inl e \<or> (\<exists>x. r = Inr x \<and> f x = Inl e)"
  by (cases r) auto

lemma rbind_cong [fundef_cong]:
  "r = r' \<Longrightarrow> (\<And>x. r' = Inr x \<Longrightarrow> f x = g x) \<Longrightarrow> rbind r f = rbind r' g"
  by (cases r') auto

lemma require_eq_Inr [simp, res_simps]: "require c e = Inr u \<longleftrightarrow> c"
  by (simp add: require_def)

lemma require_eq_Inl [simp]: "require c e = Inl e' \<longleftrightarrow> \<not> c \<and> e' = e"
  by (auto simp: require_def)

lemma require_True [simp]: "require True e = Inr ()"
  by (simp add: require_def)

lemma require_False [simp]: "require False e = Inl e"
  by (simp add: require_def)

text \<open>Running an operation over a list, stopping at the first exception.\<close>

fun rfold :: "('s \<Rightarrow> 'a \<Rightarrow> 's res) \<Rightarrow> 's \<Rightarrow> 'a list \<Rightarrow> 's res" where
  "rfold f s [] = Inr s"
| "rfold f s (x # xs) = rbind (f s x) (\<lambda>s'. rfold f s' xs)"

fun rmap :: "('a \<Rightarrow> 'b res) \<Rightarrow> 'a list \<Rightarrow> 'b list res" where
  "rmap f [] = Inr []"
| "rmap f (x # xs) = rbind (f x) (\<lambda>y. rbind (rmap f xs) (\<lambda>ys. Inr (y # ys)))"

lemma rfold_append: "rfold f s (xs @ ys) = rbind (rfold f s xs) (\<lambda>s'. rfold f s' ys)"
  by (induction xs arbitrary: s) (auto simp: rbind_def split: sum.splits)

lemma rfold_invariant:
  assumes "rfold f s xs = Inr t" and "I s"
    and "\<And>u x v. x \<in> set xs \<Longrightarrow> I u \<Longrightarrow> f u x = Inr v \<Longrightarrow> I v"
  shows "I t"
  using assms
proof (induction xs arbitrary: s)
  case Nil
  then show ?case by simp
next
  case (Cons x xs)
  from Cons.prems(1) obtain v where v: "f s x = Inr v" "rfold f v xs = Inr t"
    by (auto simp: rbind_eq_Inr)
  have "I v" using Cons.prems(2,3) v(1) by auto
  then show ?case using Cons.IH [OF v(2)] Cons.prems(3) by auto
qed

lemma rmap_eq_Inr: "rmap f xs = Inr ys \<longleftrightarrow> list_all2 (\<lambda>x y. f x = Inr y) xs ys"
  by (induction xs arbitrary: ys) (auto simp: rbind_eq_Inr list_all2_Cons1)

lemma rmap_total: "(\<And>x. x \<in> set xs \<Longrightarrow> \<exists>y. f x = Inr y) \<Longrightarrow> \<exists>ys. rmap f xs = Inr ys"
proof (induction xs)
  case Nil
  then show ?case by simp
next
  case (Cons x xs)
  then obtain y ys where "f x = Inr y" "rmap f xs = Inr ys" by (metis list.set_intros)
  then show ?case by simp
qed

lemma rmap_Inr: "(\<And>x. x \<in> set xs \<Longrightarrow> f x = Inr (g x)) \<Longrightarrow> rmap f xs = Inr (map g xs)"
  by (induction xs) auto

lemma rmap_nth: "rmap f xs = Inr ys \<Longrightarrow> i < length xs \<Longrightarrow> f (xs ! i) = Inr (ys ! i)"
  by (simp add: rmap_eq_Inr list_all2_conv_all_nth)

lemma rmap_length: "rmap f xs = Inr ys \<Longrightarrow> length ys = length xs"
  by (simp add: rmap_eq_Inr list_all2_lengthD)

subsection \<open>Python lists\<close>

text \<open>\<^verbatim>\<open>xs[i:j]\<close> for indices that are not negative: Python truncates out-of-range slices.\<close>

definition slice :: "nat \<Rightarrow> nat \<Rightarrow> 'a list \<Rightarrow> 'a list" where
  "slice i j xs = take (j - i) (drop i xs)"

text \<open>\<^verbatim>\<open>xs.extend([d] * (n - len(xs)))\<close> guarded by \<^verbatim>\<open>len(xs) < n\<close>.\<close>

definition pad_to :: "nat \<Rightarrow> 'a \<Rightarrow> 'a list \<Rightarrow> 'a list" where
  "pad_to n d xs = xs @ replicate (n - length xs) d"

text \<open>\<^verbatim>\<open>xs[-1] = v\<close>; an empty list raises IndexError.\<close>

definition set_last :: "'a list \<Rightarrow> 'a \<Rightarrow> 'a list res" where
  "set_last xs v = (if xs = [] then Inl IndexError else Inr (xs[length xs - 1 := v]))"

lemma length_slice [simp]: "length (slice i j xs) = min (j - i) (length xs - i)"
  by (simp add: slice_def)

lemma nth_slice: "k < j - i \<Longrightarrow> i + k < length xs \<Longrightarrow> slice i j xs ! k = xs ! (i + k)"
  by (simp add: slice_def)

lemma set_slice_subset: "set (slice i j xs) \<subseteq> set xs"
  unfolding slice_def by (meson dual_order.trans set_drop_subset set_take_subset)

lemma slice_0 [simp]: "slice 0 j xs = take j xs"
  by (simp add: slice_def)

lemma slice_append_left: "j \<le> length xs \<Longrightarrow> slice i j (xs @ ys) = slice i j xs"
  by (simp add: slice_def)

lemma slice_append_slice:
  "i \<le> j \<Longrightarrow> j \<le> k \<Longrightarrow> slice i j xs @ slice j k xs = slice i k xs"
proof -
  assume le: "i \<le> j" "j \<le> k"
  have "take (k - i) (drop i xs) = take (j - i) (drop i xs) @ take (k - j) (drop (j - i) (drop i xs))"
    using le take_add [of "j - i" "k - j" "drop i xs"] by simp
  then show ?thesis using le by (simp add: slice_def)
qed

lemma mset_take_drop: "mset (take n xs) + mset (drop n xs) = mset xs"
  by (metis append_take_drop_id mset_append)

lemma length_pad_to [simp]: "length (pad_to n d xs) = max n (length xs)"
  by (simp add: pad_to_def)

lemma pad_to_id: "n \<le> length xs \<Longrightarrow> pad_to n d xs = xs"
  by (simp add: pad_to_def)

lemma nth_pad_to:
  "i < max n (length xs) \<Longrightarrow> pad_to n d xs ! i = (if i < length xs then xs ! i else d)"
  by (auto simp: pad_to_def nth_append)

lemma update_last_append [simp]: "(xs @ [x])[length xs := v] = xs @ [v]"
  by (simp add: list_update_append)

lemma set_last_snoc [simp]: "set_last (xs @ [x]) v = Inr (xs @ [v])"
  by (simp add: set_last_def)

lemma replicate_Suc_snoc: "replicate (Suc n) x = replicate n x @ [x]"
  by (simp add: replicate_append_same)

lemma set_last_replicate:
  "0 < n \<Longrightarrow> set_last (xs @ replicate n x) v = Inr (xs @ replicate (n - 1) x @ [v])"
proof -
  assume "0 < n"
  then obtain m where n: "n = Suc m" by (cases n) auto
  have "xs @ replicate n x = (xs @ replicate m x) @ [x]"
    by (simp add: n replicate_append_same)
  then show ?thesis by (simp only: set_last_snoc) (simp add: n)
qed

lemma upt_split: "a \<le> b \<Longrightarrow> b \<le> c \<Longrightarrow> [a..<c] = [a..<b] @ [b..<c]"
  using upt_add_eq_append [of a b "c - b"] by simp

lemma map_upt_shift: "a \<le> b \<Longrightarrow> map f [a..<b] = map (\<lambda>j. f (a + j)) [0..<b - a]"
  by (rule nth_equalityI) auto

subsection \<open>Masks\<close>

text \<open>\<^verbatim>\<open>xs[mask]\<close> for a boolean mask of the same length: the selected elements in order.\<close>

definition select :: "bool list \<Rightarrow> 'a list \<Rightarrow> 'a list" where
  "select ms xs = map snd (filter fst (zip ms xs))"

text \<open>The positions at which a mask holds.\<close>

definition true_indices :: "bool list \<Rightarrow> nat list" where
  "true_indices ms = filter (\<lambda>i. ms ! i) [0..<length ms]"

lemma select_Nil [simp]: "select [] xs = []" "select ms [] = []"
  by (simp_all add: select_def)

lemma select_Cons [simp]: "select (m # ms) (x # xs) = (if m then x # select ms xs else select ms xs)"
  by (simp add: select_def)

lemma select_append:
  "length ms = length xs \<Longrightarrow> select (ms @ ns) (xs @ ys) = select ms xs @ select ns ys"
  by (simp add: select_def)

lemma set_select_subset: "set (select ms xs) \<subseteq> set xs"
  by (auto simp: select_def dest: set_zip_rightD)

lemma select_mset_split:
  "length ms = length xs \<Longrightarrow> mset (select ms xs) + mset (select (map Not ms) xs) = mset xs"
  by (induction ms xs rule: list_induct2) auto

lemma length_select: "length ms = length xs \<Longrightarrow> length (select ms xs) = count_list ms True"
  by (induction ms xs rule: list_induct2) auto

lemma select_less_row: "select (map (\<lambda>j. j < n) [0..<length xs]) xs = take n xs"
proof (induction xs rule: rev_induct)
  case Nil
  then show ?case by simp
next
  case (snoc x xs)
  then show ?case by (simp add: select_append)
qed

lemma select_ge_row: "select (map (\<lambda>j. n \<le> j) [0..<length xs]) xs = drop n xs"
proof (induction xs rule: rev_induct)
  case Nil
  then show ?case by simp
next
  case (snoc x xs)
  then show ?case by (simp add: select_append)
qed

lemma set_true_indices: "set (true_indices ms) = {i. i < length ms \<and> ms ! i}"
  by (auto simp: true_indices_def)

lemma true_indices_append:
  "true_indices (xs @ ys) = true_indices xs @ map (\<lambda>i. i + length xs) (true_indices ys)"
proof -
  have up: "[0..<length xs + length ys] = [0..<length xs] @ map (\<lambda>i. i + length xs) [0..<length ys]"
    by (subst upt_add_eq_append) (simp_all add: map_add_upt add.commute)
  have "filter (\<lambda>i. (xs @ ys) ! i) [0..<length xs] = filter (\<lambda>i. xs ! i) [0..<length xs]"
    by (rule filter_cong) (auto simp: nth_append)
  moreover have "filter (\<lambda>i. (xs @ ys) ! i) (map (\<lambda>i. i + length xs) [0..<length ys])
      = map (\<lambda>i. i + length xs) (filter (\<lambda>i. ys ! i) [0..<length ys])"
    by (simp add: filter_map comp_def nth_append)
  ultimately show ?thesis
    unfolding true_indices_def length_append up filter_append by simp
qed

lemma true_indices_replicate_False [simp]: "true_indices (replicate n False) = []"
  by (auto simp: true_indices_def filter_empty_conv)

lemma true_indices_single [simp]: "true_indices [True] = [0]" "true_indices [False] = []"
  by (simp_all add: true_indices_def)

lemma true_indices_Nil [simp]: "true_indices [] = []"
  by (simp add: true_indices_def)

lemma sorted_true_indices: "sorted (true_indices ms)" "distinct (true_indices ms)"
  by (simp_all add: true_indices_def sorted_filter [of id, simplified])

lemma select_concat:
  "list_all2 (\<lambda>m r. length m = length r) ms rs \<Longrightarrow>
    select (concat ms) (concat rs) = concat (map2 select ms rs)"
  by (induction rule: list_all2_induct) (auto simp: select_append)

subsection \<open>Chunks of fixed width\<close>

text \<open>\<^verbatim>\<open>t.view(bs, w)\<close>: a flat list as rows of width \<open>w\<close>.\<close>

fun rows :: "nat \<Rightarrow> nat \<Rightarrow> 'a list \<Rightarrow> 'a list list" where
  "rows 0 w xs = []"
| "rows (Suc n) w xs = take w xs # rows n w (drop w xs)"

lemma length_rows [simp]: "length (rows n w xs) = n"
  by (induction n arbitrary: xs) auto

lemma concat_rows: "length xs = n * w \<Longrightarrow> concat (rows n w xs) = xs"
  by (induction n arbitrary: xs) auto

lemma rows_width: "length xs = n * w \<Longrightarrow> r \<in> set (rows n w xs) \<Longrightarrow> length r = w"
proof (induction n arbitrary: xs)
  case 0
  then show ?case by simp
next
  case (Suc n)
  have "length (drop w xs) = n * w" using Suc.prems(1) by simp
  then show ?case using Suc.IH [of "drop w xs"] Suc.prems by auto
qed

lemma rows_concat:
  "(\<And>r. r \<in> set rs \<Longrightarrow> length r = w) \<Longrightarrow> rows (length rs) w (concat rs) = rs"
  by (induction rs) auto

lemma nth_rows: "i < n \<Longrightarrow> rows n w xs ! i = take w (drop (i * w) xs)"
proof (induction n arbitrary: xs i)
  case 0
  then show ?case by simp
next
  case (Suc n)
  then show ?case by (cases i) (auto simp: add.commute)
qed

subsection \<open>Integer arithmetic of the sources\<close>

text \<open>\<^verbatim>\<open>ceil_div\<close> and \<^verbatim>\<open>ceil_align\<close> of \<^verbatim>\<open>srt/utils/common.py\<close>.\<close>

definition ceil_div :: "nat \<Rightarrow> nat \<Rightarrow> nat" where
  "ceil_div x y = (x + y - 1) div y"

definition ceil_align :: "nat \<Rightarrow> nat \<Rightarrow> nat" where
  "ceil_align x y = ceil_div x y * y"

lemma ceil_div_bounds:
  assumes "0 < y" shows "x \<le> ceil_div x y * y" "ceil_div x y * y < x + y"
proof -
  have eq: "ceil_div x y * y + (x + y - 1) mod y = x + y - 1"
    by (simp add: ceil_div_def)
  have lt: "(x + y - 1) mod y < y" using assms by simp
  show "x \<le> ceil_div x y * y" "ceil_div x y * y < x + y" using eq lt assms by linarith+
qed

lemma ceil_align_ge: "0 < y \<Longrightarrow> x \<le> ceil_align x y"
  by (simp add: ceil_align_def ceil_div_bounds)

lemma ceil_align_less: "0 < y \<Longrightarrow> ceil_align x y < x + y"
  by (simp add: ceil_align_def ceil_div_bounds)

lemma ceil_align_dvd: "y dvd ceil_align x y"
  by (simp add: ceil_align_def)

lemma ceil_div_mono: "x \<le> x' \<Longrightarrow> ceil_div x y \<le> ceil_div x' y"
  by (simp add: ceil_div_def div_le_mono)

lemma ceil_div_least:
  assumes "0 < y" "x \<le> n * y" shows "ceil_div x y \<le> n"
proof (rule ccontr)
  assume "\<not> ceil_div x y \<le> n"
  then have "Suc n * y \<le> ceil_div x y * y" by (intro mult_le_mono) auto
  then show False using ceil_div_bounds(2) [OF assms(1), of x] assms by simp
qed

lemma ceil_align_least:
  assumes "0 < y" "x \<le> z" "y dvd z" shows "ceil_align x y \<le> z"
proof -
  from assms(3) obtain n where "z = n * y" by (metis dvd_def mult.commute)
  then show ?thesis using ceil_div_least [OF assms(1), of x n] assms(2)
    by (simp add: ceil_align_def)
qed

lemma ceil_align_id: "0 < y \<Longrightarrow> y dvd x \<Longrightarrow> ceil_align x y = x"
  by (metis ceil_align_ge ceil_align_least le_antisym order_refl)

text \<open>\<^verbatim>\<open>torch.cumsum\<close> shifted by one: the start offset of every segment.\<close>

fun starts :: "nat \<Rightarrow> nat list \<Rightarrow> nat list" where
  "starts k [] = []"
| "starts k (n # ns) = k # starts (k + n) ns"

lemma length_starts [simp]: "length (starts k ns) = length ns"
  by (induction ns arbitrary: k) auto

lemma nth_starts: "i < length ns \<Longrightarrow> starts k ns ! i = k + sum_list (take i ns)"
proof (induction ns arbitrary: k i)
  case Nil
  then show ?case by simp
next
  case (Cons n ns)
  then show ?case by (cases i) auto
qed

lemma sum_list_take_mono: "i \<le> j \<Longrightarrow> sum_list (take i (ns :: nat list)) \<le> sum_list (take j ns)"
proof -
  assume "i \<le> j"
  then have "take j ns = take i ns @ take (j - i) (drop i ns)"
    by (metis le_add_diff_inverse take_add)
  then show ?thesis by simp
qed

lemma sum_list_take_le: "sum_list (take i (ns :: nat list)) \<le> sum_list ns"
  using sum_list_take_mono [of i "max i (length ns)" ns] by simp

end
