(* ===== verification/Customized_Info.thy ===== *)
theory Customized_Info
  imports Prelude Complex_Main "HOL-Library.AList"
begin

section \<open>Per-request DFLASH metadata (customized info)\<close>

text \<open>
  Model of \<^verbatim>\<open>srt/managers/customized_info_utils.py\<close> and of the lines of
  \<^verbatim>\<open>srt/managers/scheduler_output_processor_mixin.py\<close> that slice the metadata of a request by
  output-token offset and ship it to the tokenizer process.

  A Python dictionary is an association list in insertion order with distinct keys, updated by
  \<^const>\<open>AList.update\<close>. The values that travel in the metadata are \<open>pyval\<close>s, because
  \<^verbatim>\<open>_as_list\<close> distinguishes them by their Python class. A request carries here only the fields
  this component touches; the theory \<open>Req_State\<close> extends the record.
\<close>

subsection \<open>Values and dictionaries\<close>

datatype pyval =
    VNone
  | VBool bool
  | VInt int
  | VFloat real
  | VStr string
  | VList "pyval list"
  | VTuple "pyval list"
  | VIter "pyval list"
  | VTensor pyval

type_synonym 'v dict = "(string \<times> 'v) list"

type_synonym cinfo = "pyval list dict"

definition get_list :: "'v list dict \<Rightarrow> string \<Rightarrow> 'v list" where
  "get_list d k = (case map_of d k of None \<Rightarrow> [] | Some v \<Rightarrow> v)"

record req_meta =
  output_ids :: "int list"
  customized_info :: "cinfo option"
  send_token_offset :: nat
  finished_len :: "nat option"

definition info_of :: "'a req_meta_scheme \<Rightarrow> cinfo" where
  "info_of r = (case customized_info r of None \<Rightarrow> [] | Some d \<Rightarrow> d)"

definition reject_mask_key :: string where
  "reject_mask_key = ''dflash_reject_token_mask''"

definition rejected_keys :: "string list" where
  "rejected_keys = [''dflash_rejected_draft_anchor_indices'', ''dflash_rejected_draft_offsets'',
     ''dflash_rejected_draft_token_ids'', ''dflash_rejected_draft_teacher_logprobs'']"

definition replay_keys :: "string list" where
  "replay_keys = [''dflash_replay_block_anchor_indices'', ''dflash_replay_block_accepted_lengths'',
     ''dflash_replay_block_drafted_lengths'']"

definition DFLASH_REJECTED_DRAFT_META_KEYS :: "string list" where
  "DFLASH_REJECTED_DRAFT_META_KEYS = rejected_keys @ replay_keys"

subsection \<open>Flattening and accumulating chunks\<close>

definition tolist :: "pyval \<Rightarrow> pyval" where
  "tolist v = (case v of VTensor w \<Rightarrow> w | _ \<Rightarrow> v)"

definition as_list :: "pyval \<Rightarrow> pyval list" where
  "as_list v = (if v = VNone then [] else
     (case tolist v of VList xs \<Rightarrow> xs | VTuple xs \<Rightarrow> xs | VIter xs \<Rightarrow> xs | w \<Rightarrow> [w]))"

definition flatten_dflash_rejected_draft_chunk :: "pyval \<Rightarrow> pyval list" where
  "flatten_dflash_rejected_draft_chunk chunk =
     concat (map as_list (filter (\<lambda>item. item \<noteq> VNone) (as_list chunk)))"

definition extend_customized_info_chunk :: "cinfo \<Rightarrow> string \<Rightarrow> pyval \<Rightarrow> cinfo" where
  "extend_customized_info_chunk info key chunk =
     (if chunk = VNone then info
      else let values = get_list info key;
               more = (if key \<in> set DFLASH_REJECTED_DRAFT_META_KEYS
                       then flatten_dflash_rejected_draft_chunk chunk
                       else (case chunk of
                               VList xs \<Rightarrow> xs
                             | VTuple xs \<Rightarrow> xs
                             | VTensor w \<Rightarrow> (case w of VList xs \<Rightarrow> xs | _ \<Rightarrow> [w])
                             | _ \<Rightarrow> [chunk]))
           in AList.update key (values @ more) info)"

text \<open>
  One round of \<^verbatim>\<open>update_customized_info_meta\<close> works on \<^verbatim>\<open>meta_info\<close> and on
  \<^verbatim>\<open>state.customized_info\<close>; \<^verbatim>\<open>value_by_req[recv_index]\<close> raises IndexError out of range.
\<close>

definition update_meta_item ::
  "bool \<Rightarrow> nat \<Rightarrow> pyval dict \<times> cinfo \<Rightarrow> string \<times> pyval list \<Rightarrow> (pyval dict \<times> cinfo) res" where
  "update_meta_item use_stream_output recv_index st kv =
     (case st of (meta, info) \<Rightarrow> (case kv of (key, value_by_req) \<Rightarrow>
       if recv_index < length value_by_req then
         (let chunk = value_by_req ! recv_index in
          if use_stream_output then
            (if key \<in> set DFLASH_REJECTED_DRAFT_META_KEYS
             then Inr (AList.update key (VList (flatten_dflash_rejected_draft_chunk chunk)) meta, info)
             else Inr (AList.update key chunk meta, info))
          else Inr (meta, extend_customized_info_chunk info key chunk))
       else Inl IndexError))"

definition update_customized_info_meta ::
  "pyval dict \<Rightarrow> cinfo \<Rightarrow> cinfo option \<Rightarrow> nat \<Rightarrow> bool \<Rightarrow> bool \<Rightarrow> (pyval dict \<times> cinfo) res" where
  "update_customized_info_meta meta info recv recv_index use_stream_output emit_accumulated =
     rbind (case recv of None \<Rightarrow> Inr (meta, info)
            | Some items \<Rightarrow> rfold (update_meta_item use_stream_output recv_index) (meta, info) items)
       (\<lambda>(meta1, info1).
          if \<not> use_stream_output \<and> emit_accumulated
          then Inr (fold (\<lambda>(k, vs) m. AList.update k (VList vs) m) info1 meta1, info1)
          else Inr (meta1, info1))"

subsection \<open>Appending the metadata of one verified block\<close>

text \<open>The number of output tokens before the block: \<^verbatim>\<open>prefix_len\<close>.\<close>

definition prefix_len :: "'a req_meta_scheme \<Rightarrow> int \<Rightarrow> bool \<Rightarrow> nat" where
  "prefix_len req committed updated =
     nat (max 0 (int (length (output_ids req)) - (if updated then committed else 0)))"

text \<open>
  The list discipline the three functions share: pad to the prefix, append one entry per
  committed token, overwrite the last one.
\<close>

definition append_block :: "'v \<Rightarrow> nat \<Rightarrow> nat \<Rightarrow> 'v \<Rightarrow> 'v list \<Rightarrow> 'v list" where
  "append_block d prefix n v vs =
     (let padded = pad_to prefix d vs @ replicate n d in padded[length padded - 1 := v])"

definition append_dflash_reject_token_mask ::
  "'a req_meta_scheme \<Rightarrow> int \<Rightarrow> bool \<Rightarrow> 'a req_meta_scheme" where
  "append_dflash_reject_token_mask req committed updated =
     (if committed \<le> 0 then req
      else let info = info_of req;
               mask = append_block (VBool False) (prefix_len req committed updated) (nat committed)
                        (VBool True) (get_list info reject_mask_key)
           in req\<lparr>customized_info := Some (AList.update reject_mask_key mask info)\<rparr>)"

definition append_chunks ::
  "nat \<Rightarrow> nat \<Rightarrow> (string \<times> pyval list) list \<Rightarrow> cinfo \<Rightarrow> cinfo" where
  "append_chunks prefix n chunks info =
     fold (\<lambda>(key, chunk) d.
       AList.update key (append_block (VList []) prefix n (VList chunk) (get_list d key)) d)
       chunks info"

definition append_dflash_rejected_draft_metadata ::
  "'a req_meta_scheme \<Rightarrow> int \<Rightarrow> int \<Rightarrow> int list \<Rightarrow> int list \<Rightarrow> real list \<Rightarrow> bool
     \<Rightarrow> 'a req_meta_scheme res" where
  "append_dflash_rejected_draft_metadata req committed anchor_index offsets token_ids
       teacher_logprobs updated =
     (if offsets = [] then Inr req
      else if \<not> (length offsets = length token_ids \<and> length token_ids = length teacher_logprobs)
      then Inl ValueError
      else if committed \<le> 0 then Inr req
      else let chunks =
             [(''dflash_rejected_draft_anchor_indices'', map VInt (replicate (length offsets) anchor_index)),
              (''dflash_rejected_draft_offsets'', map VInt offsets),
              (''dflash_rejected_draft_token_ids'', map VInt token_ids),
              (''dflash_rejected_draft_teacher_logprobs'', map VFloat teacher_logprobs)]
           in Inr (req\<lparr>customized_info := Some
                (append_chunks (prefix_len req committed updated) (nat committed) chunks (info_of req))\<rparr>))"

definition append_dflash_replay_block_metadata ::
  "'a req_meta_scheme \<Rightarrow> int \<Rightarrow> int \<Rightarrow> int \<Rightarrow> int \<Rightarrow> bool \<Rightarrow> 'a req_meta_scheme res" where
  "append_dflash_replay_block_metadata req committed anchor_index accepted_length drafted_length
       updated =
     (if committed \<le> 0 \<or> drafted_length \<le> 0 then Inr req
      else if accepted_length < 0 \<or> drafted_length < accepted_length then Inl ValueError
      else let chunks =
             [(''dflash_replay_block_anchor_indices'', [VInt anchor_index]),
              (''dflash_replay_block_accepted_lengths'', [VInt accepted_length]),
              (''dflash_replay_block_drafted_lengths'', [VInt drafted_length])]
           in Inr (req\<lparr>customized_info := Some
                (append_chunks (prefix_len req committed updated) (nat committed) chunks (info_of req))\<rparr>))"

subsection \<open>Shipping the metadata to the tokenizer\<close>

definition output_ids_through_stop :: "'a req_meta_scheme \<Rightarrow> int list" where
  "output_ids_through_stop req =
     (case finished_len req of None \<Rightarrow> output_ids req | Some n \<Rightarrow> take n (output_ids req))"

text \<open>
  The part of \<^verbatim>\<open>stream_output_generation\<close> that collects customized info: for every request that
  is output, its slices are appended under every key the request has.
\<close>

definition collect_customized_info :: "cinfo \<Rightarrow> 'a req_meta_scheme \<Rightarrow> cinfo" where
  "collect_customized_info acc req =
     (case customized_info req of None \<Rightarrow> acc
      | Some d \<Rightarrow> fold (\<lambda>(k, v) a.
          AList.update k (get_list a k @ [VList (drop (send_token_offset req) v)]) a) d acc)"

definition stream_output :: "'a req_meta_scheme list \<Rightarrow> cinfo \<times> 'a req_meta_scheme list" where
  "stream_output reqs =
     (fold (\<lambda>r acc. collect_customized_info acc r) reqs [],
      map (\<lambda>r. r\<lparr>send_token_offset := length (output_ids_through_stop r)\<rparr>) reqs)"


subsection \<open>Lemmas on dictionaries and blocks\<close>

named_theorems cinfo_simps "how each operation changes the list stored under a key"

lemma get_list_update [simp]:
  "get_list (AList.update k v d) k' = (if k' = k then v else get_list d k')"
  by (simp add: get_list_def update_conv')

lemma get_list_Nil [simp]: "get_list [] k = []"
  by (simp add: get_list_def)

lemma info_of_update [simp]: "info_of (r\<lparr>customized_info := Some d\<rparr>) = d"
  by (simp add: info_of_def)

lemma info_of_output [simp]: "info_of (r\<lparr>output_ids := xs\<rparr>) = info_of r"
  by (simp add: info_of_def)

lemma info_of_offset [simp]: "info_of (r\<lparr>send_token_offset := n\<rparr>) = info_of r"
  by (simp add: info_of_def)

lemma append_block_eq:
  "0 < n \<Longrightarrow> append_block d p n v vs = pad_to p d vs @ replicate (n - 1) d @ [v]"
proof -
  assume "0 < n"
  then obtain m where n: "n = Suc m" by (cases n) auto
  have "pad_to p d vs @ replicate n d = (pad_to p d vs @ replicate m d) @ [d]"
    by (simp add: n replicate_append_same)
  then show ?thesis
    unfolding append_block_def Let_def
    by (simp only: length_append_singleton diff_Suc_1 update_last_append) (simp add: n)
qed

lemma length_append_block [simp]: "length (append_block d p n v vs) = max p (length vs) + n"
  by (simp add: append_block_def Let_def)

lemma append_chunks_get [cinfo_simps]:
  assumes "distinct (map fst chunks)"
  shows "get_list (append_chunks p n chunks d) k =
     (case map_of chunks k of None \<Rightarrow> get_list d k
      | Some ch \<Rightarrow> append_block (VList []) p n (VList ch) (get_list d k))"
  using assms
proof (induction chunks arbitrary: d)
  case Nil
  then show ?case by (simp add: append_chunks_def)
next
  case (Cons c cs)
  obtain key ch where c: "c = (key, ch)" by (cases c)
  have none: "map_of cs key = None" using Cons.prems by (simp add: c map_of_eq_None_iff)
  have "get_list (append_chunks p n (c # cs) d) k = get_list (append_chunks p n cs
      (AList.update key (append_block (VList []) p n (VList ch) (get_list d key)) d)) k"
    by (simp add: append_chunks_def c)
  then show ?case using Cons none by (auto simp: c split: option.split)
qed

lemma append_chunks_distinct:
  "distinct (map fst d) \<Longrightarrow> distinct (map fst (append_chunks p n chunks d))"
  unfolding append_chunks_def
  by (induction chunks arbitrary: d) (auto simp: distinct_update)

lemma prefix_len_updated:
  "prefix_len (r\<lparr>output_ids := output_ids r @ toks\<rparr>) (int (length toks)) True = length (output_ids r)"
  by (simp add: prefix_len_def)

lemma prefix_len_not_updated: "prefix_len r c False = length (output_ids r)"
  by (simp add: prefix_len_def)

subsection \<open>The reject mask marks the last token of every committed block\<close>

definition mask_of :: "'a req_meta_scheme \<Rightarrow> pyval list" where
  "mask_of r = get_list (info_of r) reject_mask_key"

definition block_mask :: "'b list \<Rightarrow> bool list" where
  "block_mask toks = replicate (length toks - 1) False @ [True]"

text \<open>The way \<^verbatim>\<open>DFlashVerifyInput.verify\<close> commits a block: tokens first, then the mask.\<close>

definition commit_mask :: "int list \<Rightarrow> 'a req_meta_scheme \<Rightarrow> 'a req_meta_scheme" where
  "commit_mask toks r =
     append_dflash_reject_token_mask (r\<lparr>output_ids := output_ids r @ toks\<rparr>) (int (length toks)) True"

lemma commit_mask_output [simp]: "output_ids (commit_mask toks r) = output_ids r @ toks"
  by (simp add: commit_mask_def append_dflash_reject_token_mask_def Let_def)

lemma mask_of_commit:
  assumes "toks \<noteq> []"
  shows "mask_of (commit_mask toks r) =
    pad_to (length (output_ids r)) (VBool False) (mask_of r) @ map VBool (block_mask toks)"
  using assms
  by (simp add: mask_of_def commit_mask_def append_dflash_reject_token_mask_def Let_def
      append_block_eq prefix_len_updated block_mask_def)

lemma mask_of_commits:
  assumes "\<forall>b\<in>set blocks. b \<noteq> []" "length (mask_of r) \<le> length (output_ids r)" "blocks \<noteq> []"
  shows "mask_of (fold commit_mask blocks r) =
    pad_to (length (output_ids r)) (VBool False) (mask_of r)
      @ map VBool (concat (map block_mask blocks))"
  using assms
proof (induction blocks rule: rev_induct)
  case Nil
  then show ?case by simp
next
  case (snoc b bs)
  have out: "length (output_ids (fold commit_mask bs r)) = length (output_ids r) + length (concat bs)"
    by (induction bs arbitrary: r) auto
  have len: "length (concat (map block_mask bs)) = length (concat bs)"
    using snoc.prems(1) by (induction bs) (auto simp: block_mask_def)
  show ?case
  proof (cases "bs = []")
    case True
    then show ?thesis using snoc.prems by (simp add: mask_of_commit)
  next
    case False
    then have "mask_of (fold commit_mask bs r) =
        pad_to (length (output_ids r)) (VBool False) (mask_of r)
          @ map VBool (concat (map block_mask bs))"
      using snoc by auto
    then show ?thesis using snoc.prems out len by (simp add: mask_of_commit pad_to_id)
  qed
qed

text \<open>After any sequence of verified blocks on a fresh request the reject mask has exactly one
  entry per output token: False for the tokens present before speculation, and for every block
  False on all its tokens but the last, which is the correction or bonus token.\<close>

theorem reject_mask_blocks:
  assumes "customized_info r = None" "blocks \<noteq> []" "\<forall>b\<in>set blocks. b \<noteq> []"
  shows "mask_of (fold commit_mask blocks r) =
      map VBool (replicate (length (output_ids r)) False @ concat (map block_mask blocks))
    \<and> length (mask_of (fold commit_mask blocks r)) = length (output_ids (fold commit_mask blocks r))"
proof -
  have m0: "mask_of r = []" using assms(1) by (simp add: mask_of_def info_of_def)
  have out: "length (output_ids (fold commit_mask blocks r))
      = length (output_ids r) + length (concat blocks)"
    by (induction blocks arbitrary: r) auto
  have len: "length (concat (map block_mask blocks)) = length (concat blocks)"
    using assms(3) by (induction blocks) (auto simp: block_mask_def)
  show ?thesis using mask_of_commits [OF assms(3), of r] assms(2) m0 out len
    by (simp add: pad_to_def)
qed

theorem reject_mask_blocks_witness:
  "mask_of (fold commit_mask [[7, 8, 9], [4]]
      \<lparr>output_ids = [5], customized_info = None, send_token_offset = 0, finished_len = None\<rparr>)
   = map VBool [False, False, False, True, True]"
  using reject_mask_blocks [of "\<lparr>output_ids = [5], customized_info = None, send_token_offset = 0,
      finished_len = None\<rparr>" "[[7, 8, 9], [4]]"]
  by (simp add: block_mask_def numeral_eq_Suc)

text \<open>The two call conventions agree: appending the mask after the block's tokens are in
  \<^verbatim>\<open>output_ids\<close> (the synchronous worker) and before (the overlap scheduler) store the same
  metadata.\<close>

theorem reject_mask_conventions_agree:
  "customized_info (append_dflash_reject_token_mask (r\<lparr>output_ids := output_ids r @ toks\<rparr>)
      (int (length toks)) True)
   = customized_info (append_dflash_reject_token_mask r (int (length toks)) False)"
  by (simp add: append_dflash_reject_token_mask_def Let_def prefix_len_updated prefix_len_not_updated)


subsection \<open>What the three functions change\<close>

text \<open>Only \<open>customized_info\<close> changes, and only the reject mask function touches the mask.\<close>

lemma reject_mask_frame: "\<exists>ci. append_dflash_reject_token_mask r c u = r\<lparr>customized_info := ci\<rparr>"
proof (cases "c \<le> 0")
  case True
  then have "append_dflash_reject_token_mask r c u = r\<lparr>customized_info := customized_info r\<rparr>"
    by (simp add: append_dflash_reject_token_mask_def)
  then show ?thesis by blast
next
  case False
  then show ?thesis by (auto simp: append_dflash_reject_token_mask_def Let_def)
qed

lemma append_chunks_other_key:
  assumes "k \<notin> fst ` set chunks" shows "get_list (append_chunks p n chunks d) k = get_list d k"
  using assms unfolding append_chunks_def by (induction chunks arbitrary: d) auto

lemma rejected_metadata_frame:
  assumes "append_dflash_rejected_draft_metadata r c a offs ids lps u = Inr r'"
  shows "\<exists>ci. r' = r\<lparr>customized_info := ci\<rparr>" "mask_of r' = mask_of r"
proof -
  have "r' = r \<or> (\<exists>ci. r' = r\<lparr>customized_info := ci\<rparr>)"
    using assms by (auto simp: append_dflash_rejected_draft_metadata_def Let_def split: if_splits)
  moreover have "r = r\<lparr>customized_info := customized_info r\<rparr>" by simp
  ultimately show "\<exists>ci. r' = r\<lparr>customized_info := ci\<rparr>" by blast
  show "mask_of r' = mask_of r"
    using assms by (auto simp: append_dflash_rejected_draft_metadata_def Let_def mask_of_def
        append_chunks_other_key reject_mask_key_def split: if_splits)
qed

lemma replay_metadata_frame:
  assumes "append_dflash_replay_block_metadata r c a acc drafted u = Inr r'"
  shows "\<exists>ci. r' = r\<lparr>customized_info := ci\<rparr>" "mask_of r' = mask_of r"
proof -
  have "r' = r \<or> (\<exists>ci. r' = r\<lparr>customized_info := ci\<rparr>)"
    using assms by (auto simp: append_dflash_replay_block_metadata_def Let_def split: if_splits)
  moreover have "r = r\<lparr>customized_info := customized_info r\<rparr>" by simp
  ultimately show "\<exists>ci. r' = r\<lparr>customized_info := ci\<rparr>" by blast
  show "mask_of r' = mask_of r"
    using assms by (auto simp: append_dflash_replay_block_metadata_def Let_def mask_of_def
        append_chunks_other_key reject_mask_key_def split: if_splits)
qed

lemma rejected_metadata_total:
  "length offs = length ids \<Longrightarrow> length ids = length lps \<Longrightarrow>
    \<exists>r'. append_dflash_rejected_draft_metadata r c a offs ids lps u = Inr r'"
  by (simp add: append_dflash_rejected_draft_metadata_def Let_def)

lemma replay_metadata_total:
  "0 \<le> acc \<Longrightarrow> acc \<le> drafted \<Longrightarrow>
    \<exists>r'. append_dflash_replay_block_metadata r c a acc drafted u = Inr r'"
  by (auto simp: append_dflash_replay_block_metadata_def Let_def)

lemma mask_of_append:
  assumes "0 < n" "n \<le> length (output_ids r)"
  shows "mask_of (append_dflash_reject_token_mask r (int n) True) =
    pad_to (length (output_ids r) - n) (VBool False) (mask_of r) @ replicate (n - 1) (VBool False) @ [VBool True]"
proof -
  have "prefix_len r (int n) True = length (output_ids r) - n" using assms(2) by (simp add: prefix_len_def)
  then show ?thesis using assms(1)
    by (simp add: mask_of_def append_dflash_reject_token_mask_def Let_def append_block_eq)
qed

subsection \<open>Slicing by token offset and flattening lose nothing\<close>

abbreviation flat :: "pyval list \<Rightarrow> pyval list" where
  "flat vs \<equiv> flatten_dflash_rejected_draft_chunk (VList vs)"

lemma as_list_VList [simp]: "as_list (VList xs) = xs"
  by (simp add: as_list_def tolist_def)

lemma flat_append [simp]: "flat (xs @ ys) = flat xs @ flat ys"
  by (simp add: flatten_dflash_rejected_draft_chunk_def)

lemma flat_Nil [simp]: "flat [] = []"
  by (simp add: flatten_dflash_rejected_draft_chunk_def)

lemma flat_single [simp]: "flat [VList xs] = xs"
  by (simp add: flatten_dflash_rejected_draft_chunk_def)

lemma flat_replicate [simp]: "flat (replicate n (VList [])) = []"
  by (simp add: flatten_dflash_rejected_draft_chunk_def filter_replicate map_replicate_const)

lemma flat_append_block:
  assumes "0 < n" "length vs \<le> p"
  shows "flat (append_block (VList []) p n (VList ch) vs) = flat vs @ ch"
  using assms by (simp add: append_block_eq pad_to_def flat_append [symmetric])

lemma flat_take_append_block:
  assumes "0 < n" "length vs \<le> p" "off \<le> p"
  shows "flat (take off (append_block (VList []) p n (VList ch) vs)) = flat (take off vs)"
  using assms by (simp add: append_block_eq pad_to_def)

lemma fold_collect_map_of:
  assumes "distinct (map fst d)"
  shows "map_of (fold (\<lambda>(k, v) a. AList.update k (get_list a k @ [VList (drop off v)]) a) d acc) k
    = (case map_of d k of None \<Rightarrow> map_of acc k | Some v \<Rightarrow> Some (get_list acc k @ [VList (drop off v)]))"
  using assms
proof (induction d arbitrary: acc)
  case Nil
  then show ?case by simp
next
  case (Cons x d)
  obtain k' v' where x: "x = (k', v')" by (cases x)
  have "map_of d k' = None" using Cons.prems by (simp add: x map_of_eq_None_iff)
  then show ?case using Cons by (auto simp: x update_conv' split: option.split)
qed

definition dict_ok :: "'a req_meta_scheme \<Rightarrow> bool" where
  "dict_ok r = distinct (map fst (info_of r))"

lemma collect_map_of:
  assumes "dict_ok r"
  shows "map_of (collect_customized_info acc r) k = (case map_of (info_of r) k of
      None \<Rightarrow> map_of acc k | Some v \<Rightarrow> Some (get_list acc k @ [VList (drop (send_token_offset r) v)]))"
  using assms
  by (auto simp: collect_customized_info_def dict_ok_def info_of_def fold_collect_map_of
      split: option.splits)

lemma collect_get [cinfo_simps]:
  assumes "dict_ok r"
  shows "get_list (collect_customized_info acc r) k = get_list acc k @
    (case map_of (info_of r) k of None \<Rightarrow> [] | Some v \<Rightarrow> [VList (drop (send_token_offset r) v)])"
  by (simp add: get_list_def collect_map_of [OF assms] split: option.split)

lemma collect_distinct:
  "distinct (map fst acc) \<Longrightarrow> distinct (map fst (collect_customized_info acc r))"
proof -
  have "distinct (map fst a) \<Longrightarrow> distinct (map fst (fold
      (\<lambda>(k, v) a. AList.update k (get_list a k @ [VList (drop off v)]) a) d a))" for d off and a :: cinfo
    by (induction d arbitrary: a) (auto simp: distinct_update)
  then show "distinct (map fst acc) \<Longrightarrow> ?thesis"
    by (auto simp: collect_customized_info_def split: option.split)
qed

lemma stream_output_get:
  assumes "\<forall>r\<in>set reqs. dict_ok r"
  shows "get_list (fst (stream_output reqs)) k = concat (map (\<lambda>r. case map_of (info_of r) k of
      None \<Rightarrow> [] | Some v \<Rightarrow> [VList (drop (send_token_offset r) v)]) reqs)"
proof -
  have "get_list (fold (\<lambda>r acc. collect_customized_info acc r) reqs acc) k = get_list acc k @
      concat (map (\<lambda>r. case map_of (info_of r) k of
        None \<Rightarrow> [] | Some v \<Rightarrow> [VList (drop (send_token_offset r) v)]) reqs)" for acc
    using assms by (induction reqs arbitrary: acc) (auto simp: collect_get)
  then show ?thesis by (simp add: stream_output_def)
qed

lemma extend_chunk_get [cinfo_simps]:
  assumes "k \<in> set DFLASH_REJECTED_DRAFT_META_KEYS"
  shows "get_list (extend_customized_info_chunk info key chunk) k =
    (if key = k then get_list info k @ flatten_dflash_rejected_draft_chunk chunk else get_list info k)"
  using assms
  by (auto simp: extend_customized_info_chunk_def Let_def flatten_dflash_rejected_draft_chunk_def
      as_list_def)

lemma update_meta_item_accumulate:
  "update_meta_item False i (meta, info) (key, vs) =
    (if i < length vs then Inr (meta, extend_customized_info_chunk info key (vs ! i)) else Inl IndexError)"
  by (simp add: update_meta_item_def Let_def)

lemma update_items_get:
  assumes "rfold (update_meta_item False i) (meta, info) items = Inr (meta', info')"
    and "distinct (map fst items)" "k \<in> set DFLASH_REJECTED_DRAFT_META_KEYS"
  shows "get_list info' k = get_list info k @ (case map_of items k of None \<Rightarrow> []
    | Some vs \<Rightarrow> flatten_dflash_rejected_draft_chunk (vs ! i))"
  using assms(1,2)
proof (induction items arbitrary: meta info)
  case Nil
  then show ?case by simp
next
  case (Cons x items)
  obtain key vs where x: "x = (key, vs)" by (cases x)
  from Cons.prems(1) have "i < length vs"
    and run: "rfold (update_meta_item False i)
        (meta, extend_customized_info_chunk info key (vs ! i)) items = Inr (meta', info')"
    by (auto simp: x update_meta_item_accumulate split: if_splits)
  moreover have "map_of items key = None" using Cons.prems(2) by (simp add: x map_of_eq_None_iff)
  ultimately show ?case using Cons.IH [OF run] Cons.prems(2) assms(3)
    by (auto simp: x extend_chunk_get split: option.split)
qed

lemma update_meta_get [cinfo_simps]:
  assumes "update_customized_info_meta meta info (Some items) i False emit = Inr (meta', info')"
    and "distinct (map fst items)" "k \<in> set DFLASH_REJECTED_DRAFT_META_KEYS"
  shows "get_list info' k = get_list info k @ (case map_of items k of None \<Rightarrow> []
    | Some vs \<Rightarrow> flatten_dflash_rejected_draft_chunk (vs ! i))"
  using assms update_items_get [of i meta info items _ info' k]
  by (fastforce simp: update_customized_info_meta_def rbind_eq_Inr split: if_splits)

text \<open>Routing: when every request of the batch carries a key, position \<open>i\<close> of the batch message
  holds the slice of request \<open>i\<close>, so the tokenizer's \<^verbatim>\<open>value_by_req[recv_index]\<close> reads its own
  request's chunk.\<close>

theorem stream_output_routes:
  assumes "\<forall>r\<in>set reqs. dict_ok r" "\<forall>r\<in>set reqs. k \<in> fst ` set (info_of r)" "i < length reqs"
  shows "length (get_list (fst (stream_output reqs)) k) = length reqs
    \<and> get_list (fst (stream_output reqs)) k ! i =
       VList (drop (send_token_offset (reqs ! i)) (get_list (info_of (reqs ! i)) k))"
proof -
  have some: "\<exists>v. map_of (info_of r) k = Some v" if "r \<in> set reqs" for r
    using assms(2) that by (metis map_of_eq_None_iff option.exhaust)
  have "(case map_of (info_of r) k of None \<Rightarrow> [] | Some v \<Rightarrow> [VList (drop (send_token_offset r) v)])
      = [VList (drop (send_token_offset r) (get_list (info_of r) k))]" if "r \<in> set reqs" for r
    using some [OF that] by (auto simp: get_list_def)
  then have "map (\<lambda>r. case map_of (info_of r) k of
        None \<Rightarrow> [] | Some v \<Rightarrow> [VList (drop (send_token_offset r) v)]) reqs
      = map (\<lambda>x. [x]) (map (\<lambda>r. VList (drop (send_token_offset r) (get_list (info_of r) k))) reqs)"
    by simp
  then have "get_list (fst (stream_output reqs)) k
      = map (\<lambda>r. VList (drop (send_token_offset r) (get_list (info_of r) k))) reqs"
    by (simp only: stream_output_get [OF assms(1)] concat_map_singleton) simp
  then show ?thesis using assms(3) by simp
qed

lemma stream_output_distinct: "distinct (map fst (fst (stream_output reqs)))"
proof -
  have "distinct (map fst acc) \<Longrightarrow> distinct (map fst (fold (\<lambda>r acc. collect_customized_info acc r) reqs acc))" for acc
    by (induction reqs arbitrary: acc) (simp_all add: collect_distinct)
  then show ?thesis by (simp add: stream_output_def)
qed

lemma stream_output_keys:
  assumes "\<forall>r\<in>set reqs. dict_ok r"
  shows "map_of (fst (stream_output reqs)) k = None \<longleftrightarrow> (\<forall>r\<in>set reqs. k \<notin> fst ` set (info_of r))"
proof -
  have "map_of (fold (\<lambda>r acc. collect_customized_info acc r) reqs acc) k = None
      \<longleftrightarrow> map_of acc k = None \<and> (\<forall>r\<in>set reqs. map_of (info_of r) k = None)" for acc
    using assms by (induction reqs arbitrary: acc) (auto simp: collect_map_of split: option.split)
  then show ?thesis by (simp add: stream_output_def map_of_eq_None_iff)
qed

lemma stream_output_reqs: "i < length reqs \<Longrightarrow>
    snd (stream_output reqs) ! i = (reqs ! i)\<lparr>send_token_offset := length (output_ids_through_stop (reqs ! i))\<rparr>"
  by (simp add: stream_output_def)

subsection \<open>Streaming a request's rejected drafts\<close>

text \<open>
  One request, its scheduler side and its tokenizer side: blocks are committed with the metadata
  of their rejected draft tokens, and at any moment the slices since the last send are shipped in a
  message of a batch that holds the request at some index, among any other requests. The batch is
  uniform: each of the rejected draft keys is carried by all of its requests or by none. The last argument collects the records \<open>(anchor, offset, token id, teacher log-probability)\<close> in
  the order in which they were produced.
\<close>

type_synonym rejected_record = "int \<times> int \<times> int \<times> real"

definition uniform_keys :: "'a req_meta_scheme list \<Rightarrow> bool" where
  "uniform_keys reqs \<longleftrightarrow> list_all dict_ok reqs \<and> list_all (\<lambda>k. list_all (\<lambda>q. k \<in> fst ` set (info_of q)) reqs
     \<or> list_all (\<lambda>q. k \<notin> fst ` set (info_of q)) reqs) DFLASH_REJECTED_DRAFT_META_KEYS"

inductive stream_reach :: "req_meta \<Rightarrow> cinfo \<Rightarrow> rejected_record list \<Rightarrow> bool" where
  init: "customized_info r = None \<Longrightarrow> send_token_offset r = 0 \<Longrightarrow> finished_len r = None
    \<Longrightarrow> stream_reach r [] []"
| commit: "stream_reach r c xs \<Longrightarrow> toks \<noteq> []
    \<Longrightarrow> append_dflash_rejected_draft_metadata (r\<lparr>output_ids := output_ids r @ toks\<rparr>)
          (int (length toks)) anchor offs ids lps True = Inr r'
    \<Longrightarrow> stream_reach r' c (xs @ map (\<lambda>(q, t, l). (anchor, q, t, l)) (zip offs (zip ids lps)))"
| send: "stream_reach r c xs \<Longrightarrow> i < length reqs \<Longrightarrow> reqs ! i = r \<Longrightarrow> uniform_keys reqs
    \<Longrightarrow> stream_output reqs = (recv, reqs')
    \<Longrightarrow> update_customized_info_meta meta c (Some recv) i False emit = Inr (meta', c')
    \<Longrightarrow> stream_reach (reqs' ! i) c' xs"

definition record_fields :: "(string \<times> (rejected_record \<Rightarrow> pyval)) list" where
  "record_fields =
     [(''dflash_rejected_draft_anchor_indices'', \<lambda>(a, q, t, l). VInt a),
      (''dflash_rejected_draft_offsets'', \<lambda>(a, q, t, l). VInt q),
      (''dflash_rejected_draft_token_ids'', \<lambda>(a, q, t, l). VInt t),
      (''dflash_rejected_draft_teacher_logprobs'', \<lambda>(a, q, t, l). VFloat l)]"

definition stream_inv :: "req_meta \<Rightarrow> cinfo \<Rightarrow> rejected_record list \<Rightarrow> bool" where
  "stream_inv r c xs \<longleftrightarrow> dict_ok r \<and> finished_len r = None
     \<and> send_token_offset r \<le> length (output_ids r)
     \<and> (\<forall>(k, f) \<in> set record_fields.
          length (get_list (info_of r) k) \<le> length (output_ids r)
        \<and> flat (get_list (info_of r) k) = map f xs
        \<and> get_list c k = flat (take (send_token_offset r) (get_list (info_of r) k)))"

lemma record_fields_meta: "(k, f) \<in> set record_fields \<Longrightarrow> k \<in> set DFLASH_REJECTED_DRAFT_META_KEYS"
  by (auto simp: record_fields_def DFLASH_REJECTED_DRAFT_META_KEYS_def rejected_keys_def)

text \<open>The chunks one call of \<^verbatim>\<open>append_dflash_rejected_draft_metadata\<close> stores.\<close>

definition chunks_of :: "int \<Rightarrow> int list \<Rightarrow> int list \<Rightarrow> real list \<Rightarrow> (string \<times> pyval list) list" where
  "chunks_of anchor offs ids lps =
     [(''dflash_rejected_draft_anchor_indices'', map VInt (replicate (length offs) anchor)),
      (''dflash_rejected_draft_offsets'', map VInt offs),
      (''dflash_rejected_draft_token_ids'', map VInt ids),
      (''dflash_rejected_draft_teacher_logprobs'', map VFloat lps)]"

lemma chunks_of_records:
  assumes "length offs = length ids" "length ids = length lps" "(k, f) \<in> set record_fields"
  shows "map_of (chunks_of anchor offs ids lps) k =
    Some (map f (map (\<lambda>(q, t, l). (anchor, q, t, l)) (zip offs (zip ids lps))))"
proof -
  let ?rs = "map (\<lambda>(q, t, l). (anchor, q, t, l)) (zip offs (zip ids lps))"
  have "map (\<lambda>(a, q, t, l). VInt a) ?rs = map VInt (replicate (length offs) anchor)"
    "map (\<lambda>(a, q, t, l). VInt q) ?rs = map VInt offs"
    "map (\<lambda>(a, q, t, l). VInt t) ?rs = map VInt ids"
    "map (\<lambda>(a, q, t, l). VFloat l) ?rs = map VFloat lps"
    using assms(1,2) by (induction offs ids lps rule: list_induct3) auto
  then have "\<forall>(k, f) \<in> set record_fields. map_of (chunks_of anchor offs ids lps) k = Some (map f ?rs)"
    unfolding record_fields_def chunks_of_def by simp
  then show ?thesis using assms(3) by blast
qed

lemma chunks_of_distinct: "distinct (map fst (chunks_of anchor offs ids lps))"
  by (simp add: chunks_of_def)

lemma append_rejected_cases:
  assumes "append_dflash_rejected_draft_metadata r (int n) anchor offs ids lps u = Inr r'" "0 < n"
  obtains (empty) "offs = []" "r' = r"
  | (stored) "length offs = length ids" "length ids = length lps"
      "r' = r\<lparr>customized_info := Some (append_chunks (prefix_len r (int n) u) n
         (chunks_of anchor offs ids lps) (info_of r))\<rparr>"
  using assms
  by (auto simp: append_dflash_rejected_draft_metadata_def chunks_of_def Let_def split: if_splits)

lemma stream_inv_commit:
  assumes inv: "stream_inv r c xs" and toks: "toks \<noteq> []"
    and step: "append_dflash_rejected_draft_metadata (r\<lparr>output_ids := output_ids r @ toks\<rparr>)
          (int (length toks)) anchor offs ids lps True = Inr r'"
  shows "stream_inv r' c (xs @ map (\<lambda>(q, t, l). (anchor, q, t, l)) (zip offs (zip ids lps)))"
proof -
  from toks have pos: "0 < length toks" by simp
  from step pos show ?thesis
  proof (cases rule: append_rejected_cases)
    case empty
    then show ?thesis using inv by (fastforce simp: stream_inv_def dict_ok_def)
  next
    case stored
    let ?p = "length (output_ids r)" and ?n = "length toks"
    have info: "info_of r' = append_chunks ?p ?n (chunks_of anchor offs ids lps) (info_of r)"
      by (simp add: stored(3) prefix_len_updated)
    have get: "get_list (info_of r') k = append_block (VList []) ?p ?n
        (VList (map f (map (\<lambda>(q, t, l). (anchor, q, t, l)) (zip offs (zip ids lps)))))
        (get_list (info_of r) k)" if "(k, f) \<in> set record_fields" for k f
      using append_chunks_get [OF chunks_of_distinct] chunks_of_records [OF stored(1,2) that]
      by (simp add: info)
    have "dict_ok r'" using inv by (simp add: dict_ok_def info append_chunks_distinct stream_inv_def)
    moreover have "finished_len r' = None" "send_token_offset r' = send_token_offset r"
      "output_ids r' = output_ids r @ toks" "send_token_offset r \<le> ?p"
      using inv by (simp_all add: stored(3) stream_inv_def)
    ultimately show ?thesis using inv pos
      by (auto simp: stream_inv_def get flat_append_block flat_take_append_block)
  qed
qed

lemma uniform_chunk:
  assumes "uniform_keys reqs" "i < length reqs" "k \<in> set DFLASH_REJECTED_DRAFT_META_KEYS"
  shows "(case map_of (fst (stream_output reqs)) k of None \<Rightarrow> [] | Some vs \<Rightarrow> flatten_dflash_rejected_draft_chunk (vs ! i))
    = flat (drop (send_token_offset (reqs ! i)) (get_list (info_of (reqs ! i)) k))"
proof -
  have ok: "\<forall>r\<in>set reqs. dict_ok r" using assms(1) by (simp add: uniform_keys_def list_all_iff)
  consider (all) "\<forall>r\<in>set reqs. k \<in> fst ` set (info_of r)" | (none) "\<forall>r\<in>set reqs. k \<notin> fst ` set (info_of r)"
    using assms(1,3) by (auto simp: uniform_keys_def list_all_iff)
  then show ?thesis
  proof cases
    case all
    note r = stream_output_routes [OF ok all assms(2)]
    have "k \<in> fst ` set (info_of (reqs ! i))" using all nth_mem [OF assms(2)] by blast
    then have "map_of (fst (stream_output reqs)) k \<noteq> None" using stream_output_keys [OF ok, of k] nth_mem [OF assms(2)] by blast
    then show ?thesis using r by (auto simp: get_list_def [of "fst (stream_output reqs)"])
  next
    case none
    then have "map_of (info_of (reqs ! i)) k = None" using assms(2) by (simp add: map_of_eq_None_iff)
    then show ?thesis using stream_output_keys [OF ok, of k] none by (simp add: get_list_def)
  qed
qed

lemma stream_inv_send:
  assumes inv: "stream_inv r c xs" and i: "i < length reqs" "reqs ! i = r" and uni: "uniform_keys reqs"
    and out: "stream_output reqs = (recv, reqs')"
    and upd: "update_customized_info_meta meta c (Some recv) i False emit = Inr (meta', c')"
  shows "stream_inv (reqs' ! i) c' xs"
proof -
  have fin: "finished_len r = None" using inv by (auto simp: stream_inv_def)
  have r': "reqs' ! i = r\<lparr>send_token_offset := length (output_ids r)\<rparr>"
    using stream_output_reqs [OF i(1)] i(2) fin by (simp add: out output_ids_through_stop_def)
  have dist: "distinct (map fst recv)" using stream_output_distinct [of reqs] by (simp add: out)
  have "get_list c' k = flat (take (length (output_ids r)) (get_list (info_of r) k))"
    if kf: "(k, f) \<in> set record_fields" for k f
  proof -
    let ?v = "get_list (info_of r) k"
    have len: "length ?v \<le> length (output_ids r)" and c: "get_list c k = flat (take (send_token_offset r) ?v)"
      using inv kf by (auto simp: stream_inv_def)
    have "get_list c' k = get_list c k @ flat (drop (send_token_offset r) ?v)"
      using update_meta_get [OF upd dist record_fields_meta [OF kf]] uniform_chunk [OF uni i(1) record_fields_meta [OF kf]]
      by (simp add: out i(2))
    also have "\<dots> = flat (take (send_token_offset r) ?v @ drop (send_token_offset r) ?v)"
      by (simp only: c flat_append)
    finally show ?thesis using len by simp
  qed
  then show ?thesis using inv by (auto simp: stream_inv_def r' dict_ok_def)
qed

lemma stream_reach_inv: "stream_reach r c xs \<Longrightarrow> stream_inv r c xs"
proof (induction rule: stream_reach.induct)
  case (init r)
  then show ?case by (auto simp: stream_inv_def dict_ok_def info_of_def record_fields_def)
next
  case (commit r c xs toks anchor offs ids lps r')
  then show ?case using stream_inv_commit by blast
next
  case (send r c xs i reqs recv reqs' meta emit meta' c')
  show ?case by (rule stream_inv_send [OF send.IH send.hyps(2-6)])
qed

text \<open>C21 The contract stated in \<^verbatim>\<open>append_dflash_rejected_draft_metadata\<close>, for messages of uniform batches: however
  commits and sends are interleaved, at whatever index of whatever uniform batch the request is sent, once everything
  has been sent the four flat lists at the tokenizer hold exactly the rejected draft tokens of the request, in order,
  and stay parallel.\<close>

theorem rejected_drafts_streamed:
  assumes "stream_reach r c xs" "send_token_offset r = length (output_ids r)"
  shows "get_list c ''dflash_rejected_draft_anchor_indices'' = map (\<lambda>(a, q, t, l). VInt a) xs
    \<and> get_list c ''dflash_rejected_draft_offsets'' = map (\<lambda>(a, q, t, l). VInt q) xs
    \<and> get_list c ''dflash_rejected_draft_token_ids'' = map (\<lambda>(a, q, t, l). VInt t) xs
    \<and> get_list c ''dflash_rejected_draft_teacher_logprobs'' = map (\<lambda>(a, q, t, l). VFloat l) xs"
proof -
  have "get_list c k = map f xs" if "(k, f) \<in> set record_fields" for k f
    using stream_reach_inv [OF assms(1)] assms(2) that by (auto simp: stream_inv_def)
  then show ?thesis by (simp add: record_fields_def)
qed

text \<open>A request before speculation, used by the concrete examples.\<close>

definition fresh_req :: "int list \<Rightarrow> req_meta" where
  "fresh_req ids = \<lparr>output_ids = ids, customized_info = None, send_token_offset = 0, finished_len = None\<rparr>"

definition example_req :: "int list \<Rightarrow> req_meta" where
  "example_req rejected = projr (append_dflash_rejected_draft_metadata (fresh_req [5, 7, 8]) 2 0
     (map int [2..<2 + length rejected]) rejected (replicate (length rejected) (-1)) True)"

lemma example_req_value: "example_req [t] = \<lparr>output_ids = [5, 7, 8], customized_info = Some
    (append_chunks 1 2 (chunks_of 0 [2] [t] [-1]) []), send_token_offset = 0, finished_len = None\<rparr>"
  by (simp add: example_req_def fresh_req_def append_dflash_rejected_draft_metadata_def prefix_len_def info_of_def chunks_of_def)

lemma example_req_keys: "fst ` set (info_of (example_req [t])) = fst ` set (info_of (example_req [9]))" "dict_ok (example_req [t])"
proof -
  have "fst ` set (append_chunks 1 2 (chunks_of 0 [2] [u] [-1]) []) = set rejected_keys" for u
    by (simp add: append_chunks_def chunks_of_def dom_update rejected_keys_def insert_commute)
  then show "fst ` set (info_of (example_req [t])) = fst ` set (info_of (example_req [9]))" by (simp add: example_req_value info_of_def)
  show "dict_ok (example_req [t])" by (simp add: dict_ok_def info_of_def example_req_value append_chunks_distinct)
qed

text \<open>The example request is sent as the second of a batch of two.\<close>

lemma example_stream:
  obtains c where "stream_reach ((example_req [9])\<lparr>send_token_offset := 3\<rparr>) c [(0, 2, 9, -1)]"
proof -
  let ?r = "example_req [9]" and ?reqs = "[example_req [4], example_req [9]]"
  have "append_dflash_rejected_draft_metadata
      ((fresh_req [5])\<lparr>output_ids := output_ids (fresh_req [5]) @ [7, 8]\<rparr>) (int (length [7, 8 :: int]))
      0 [2] [9] [-1] True = Inr ?r"
    by (simp add: example_req_value fresh_req_def append_dflash_rejected_draft_metadata_def prefix_len_def
        info_of_def chunks_of_def)
  from stream_reach.commit [OF stream_reach.init _ this]
  have reach: "stream_reach ?r [] [(0, 2, 9, -1)]" by (simp add: fresh_req_def)
  obtain recv reqs' where out: "stream_output ?reqs = (recv, reqs')" by (cases "stream_output ?reqs")
  have two: "reqs' ! 1 = ?r\<lparr>send_token_offset := 3\<rparr>"
  proof -
    have "reqs' ! 1 = (?reqs ! 1)\<lparr>send_token_offset := length (output_ids_through_stop (?reqs ! 1))\<rparr>"
      using stream_output_reqs [of 1 ?reqs] unfolding out by simp
    then show ?thesis by (simp add: output_ids_through_stop_def example_req_value)
  qed
  have uni: "uniform_keys ?reqs" using example_req_keys(1) [of 4] by (simp add: uniform_keys_def list_all_iff example_req_keys(2))
  have ok: "\<forall>r\<in>set ?reqs. dict_ok r" by (simp add: example_req_keys(2))
  have ne: "1 < length vs" if "(k, vs) \<in> set recv" for k vs
  proof -
    have m: "map_of recv k = Some vs" using that stream_output_distinct [of ?reqs] by (simp add: out)
    then have "\<exists>r\<in>set ?reqs. k \<in> fst ` set (info_of r)" using stream_output_keys [OF ok, of k] by (auto simp: out)
    then have "\<forall>r\<in>set ?reqs. k \<in> fst ` set (info_of r)" using example_req_keys(1) [of 4] by auto
    from stream_output_routes [OF ok this, of 1] show ?thesis using m by (simp add: out get_list_def)
  qed
  then have "\<forall>kv\<in>set recv. 1 < length (snd kv)" by fastforce
  then have "\<exists>s. rfold (update_meta_item False 1) (meta, info) recv = Inr s" for meta info
    by (induction recv arbitrary: meta info) (auto simp: update_meta_item_accumulate)
  then obtain m1 c1 where "rfold (update_meta_item False 1) ([], []) recv = Inr (m1, c1)"
    by (metis surj_pair)
  then have "update_customized_info_meta [] [] (Some recv) 1 False False = Inr (m1, c1)"
    by (simp add: update_customized_info_meta_def)
  from stream_reach.send [OF reach _ _ uni out this] have "stream_reach (reqs' ! 1) c1 [(0, 2, 9, -1)]" by simp
  then show ?thesis unfolding two by (rule that)
qed

theorem rejected_drafts_streamed_witness:
  "\<exists>r c. stream_reach r c [(0, 2, 9, -1)]
     \<and> get_list c ''dflash_rejected_draft_token_ids'' = [VInt 9]
     \<and> get_list c ''dflash_rejected_draft_offsets'' = [VInt 2]"
proof -
  obtain c where c: "stream_reach ((example_req [9])\<lparr>send_token_offset := 3\<rparr>) c [(0, 2, 9, -1)]"
    by (rule example_stream)
  moreover have "length (output_ids (example_req [9])) = 3"
    by (simp add: example_req_def fresh_req_def append_dflash_rejected_draft_metadata_def Let_def)
  ultimately show ?thesis using rejected_drafts_streamed [OF c] by auto
qed

text \<open>C22 The batch message drops absent keys instead of padding them: when the first of two requests
  has no entry for a key (no draft token of it was rejected so far) and the second has one, index 0
  delivers the second request's chunk to the first, and the second request's index raises
  IndexError in the tokenizer.\<close>

theorem stream_output_misroutes:
  assumes "dict_ok a" "dict_ok b" "k \<notin> fst ` set (info_of a)" "k \<in> fst ` set (info_of b)"
  shows "get_list (fst (stream_output [a, b])) k =
      [VList (drop (send_token_offset b) (get_list (info_of b) k))]
    \<and> update_meta_item False 1 st (k, get_list (fst (stream_output [a, b])) k) = Inl IndexError"
proof -
  have a: "map_of (info_of a) k = None" using assms(3) by (simp add: map_of_eq_None_iff)
  obtain v where b: "map_of (info_of b) k = Some v"
    using assms(4) by (metis map_of_eq_None_iff option.exhaust)
  have "get_list (fst (stream_output [a, b])) k =
      [VList (drop (send_token_offset b) (get_list (info_of b) k))]"
    using assms(1,2) a b stream_output_get [of "[a, b]" k] by (simp add: get_list_def [of "info_of b"])
  then show ?thesis by (cases st) (simp add: update_meta_item_accumulate)
qed

lemma fresh_req_info: "info_of (fresh_req ids) = []" "dict_ok (fresh_req ids)"
  by (simp_all add: info_of_def fresh_req_def dict_ok_def)

lemma example_req_info:
  "info_of (example_req [9]) = append_chunks 1 2 (chunks_of 0 [2] [9] [-1]) []"
  by (simp add: example_req_def fresh_req_def append_dflash_rejected_draft_metadata_def
      prefix_len_def info_of_def chunks_of_def)

lemma example_req_token_ids:
  "get_list (info_of (example_req [9])) ''dflash_rejected_draft_token_ids''
     = [VList [], VList [], VList [VInt 9]]"
  "''dflash_rejected_draft_token_ids'' \<in> fst ` set (info_of (example_req [9]))"
  "dict_ok (example_req [9])"
proof -
  show g: "get_list (info_of (example_req [9])) ''dflash_rejected_draft_token_ids''
     = [VList [], VList [], VList [VInt 9]]"
    by (simp add: example_req_info append_chunks_get chunks_of_distinct)
       (simp add: chunks_of_def append_block_eq pad_to_def numeral_eq_Suc)
  then have "map_of (info_of (example_req [9])) ''dflash_rejected_draft_token_ids'' \<noteq> None"
    unfolding get_list_def by (metis list.distinct(1) option.simps(4))
  then show "''dflash_rejected_draft_token_ids'' \<in> fst ` set (info_of (example_req [9]))"
    by (metis map_of_eq_None_iff)
  show "dict_ok (example_req [9])" by (simp add: dict_ok_def example_req_info append_chunks_distinct)
qed

theorem stream_output_routes_witness:
  "get_list (fst (stream_output [example_req [9], example_req [9]])) ''dflash_rejected_draft_token_ids'' ! 1
     = VList [VList [], VList [], VList [VInt 9]]"
proof -
  have "send_token_offset (example_req [9]) = 0"
    by (simp add: example_req_def fresh_req_def append_dflash_rejected_draft_metadata_def Let_def)
  then show ?thesis
    using stream_output_routes [of "[example_req [9], example_req [9]]" "''dflash_rejected_draft_token_ids''" 1]
    by (simp add: example_req_token_ids)
qed

theorem stream_output_misroutes_witness:
  "get_list (fst (stream_output [fresh_req [5], example_req [9]])) ''dflash_rejected_draft_token_ids''
     = [VList [VList [], VList [], VList [VInt 9]]]"
proof -
  have "send_token_offset (example_req [9]) = 0"
    by (simp add: example_req_def fresh_req_def append_dflash_rejected_draft_metadata_def Let_def)
  then show ?thesis
    using stream_output_misroutes [of "fresh_req [5]" "example_req [9]" "''dflash_rejected_draft_token_ids''"]
    by (simp add: example_req_token_ids fresh_req_info)
qed

end
