(* ===== verification/Kv_Allocator.thy ===== *)
theory Kv_Allocator
  imports Prelude
begin

section \<open>The KV cache slot allocators\<close>

text \<open>
  Model of \<^verbatim>\<open>srt/mem_cache/allocator.py\<close>: the token allocator (page size 1), the paged allocator,
  the two Triton kernels that lay out the slots of a batch, the loop \<^verbatim>\<open>alloc_extend_naive\<close> they
  replace, and \<^verbatim>\<open>get_num_new_pages\<close> of \<^verbatim>\<open>srt/utils/common.py\<close>.

  Slots and page numbers are integers (the predecessor slot of an empty prefix is \<open>-1\<close>), lengths
  and counts are natural numbers. The kernels run before the allocator checks that enough pages are
  free, so they may read past the end of \<^verbatim>\<open>free_pages\<close>: such a read gives the value of the
  parameter \<open>oob\<close>. Lanes that a masked load switches off contribute nothing to a sum. The programs
  of one kernel launch write disjoint segments of \<^verbatim>\<open>out_indices\<close>; they are run in the order of
  their program ids; \<^verbatim>\<open>torch.empty\<close> is a vector of the arbitrary values \<open>garbage\<close>. Lengths satisfy
  \<open>prefix \<le> seq\<close> in every theorem, so that differences of lengths are the code's differences.
\<close>

record kv_alloc =
  pool_size :: nat
  page_size :: nat
  need_sort :: bool
  debug_mode :: bool
  free_pages :: "int list"
  release_pages :: "int list"
  is_not_in_free_group :: bool
  free_group :: "int list list"

subsection \<open>Operations of the base class\<close>

definition available_size :: "kv_alloc \<Rightarrow> nat" where
  "available_size s = (length (free_pages s) + length (release_pages s)) * page_size s"

definition restore_state :: "kv_alloc \<Rightarrow> int list \<times> int list \<Rightarrow> kv_alloc" where
  "restore_state s st = s\<lparr>free_pages := fst st, release_pages := snd st\<rparr>"

definition backup_state :: "kv_alloc \<Rightarrow> int list \<times> int list" where
  "backup_state s = (free_pages s, release_pages s)"

definition free_group_begin :: "kv_alloc \<Rightarrow> kv_alloc" where
  "free_group_begin s = s\<lparr>is_not_in_free_group := False, free_group := []\<rparr>"

definition free_group_end :: "(kv_alloc \<Rightarrow> int list \<Rightarrow> 'r) \<Rightarrow> (kv_alloc \<Rightarrow> 'r) \<Rightarrow> kv_alloc \<Rightarrow> 'r" where
  "free_group_end free done s =
     (let s1 = s\<lparr>is_not_in_free_group := True\<rparr> in
      if free_group s1 \<noteq> [] then free s1 (concat (free_group s1)) else done s1)"

definition merge_and_sort_free :: "kv_alloc \<Rightarrow> kv_alloc" where
  "merge_and_sort_free s =
     (if release_pages s \<noteq> []
      then s\<lparr>free_pages := sort (free_pages s @ release_pages s), release_pages := []\<rparr> else s)"

subsection \<open>The token allocator\<close>

definition token_clear :: "kv_alloc \<Rightarrow> kv_alloc" where
  "token_clear s = s\<lparr>free_pages := map int [1..<pool_size s + 1], is_not_in_free_group := True,
     free_group := [], release_pages := []\<rparr>"

definition token_init :: "nat \<Rightarrow> bool \<Rightarrow> kv_alloc" where
  "token_init sz nsort = token_clear \<lparr>pool_size = sz, page_size = 1, need_sort = nsort,
     debug_mode = False, free_pages = [], release_pages = [], is_not_in_free_group = True,
     free_group = []\<rparr>"

definition token_available_size :: "kv_alloc \<Rightarrow> nat" where
  "token_available_size s = length (free_pages s) + length (release_pages s)"

definition token_alloc :: "kv_alloc \<Rightarrow> nat \<Rightarrow> kv_alloc \<times> int list option" where
  "token_alloc s need =
     (let s1 = (if need_sort s \<and> length (free_pages s) < need then merge_and_sort_free s else s) in
      if length (free_pages s1) < need then (s1, None)
      else (s1\<lparr>free_pages := drop need (free_pages s1)\<rparr>, Some (take need (free_pages s1))))"

definition token_free :: "kv_alloc \<Rightarrow> int list \<Rightarrow> kv_alloc" where
  "token_free s idx =
     (if idx = [] then s
      else if is_not_in_free_group s then
        (if need_sort s then s\<lparr>release_pages := release_pages s @ idx\<rparr>
         else s\<lparr>free_pages := free_pages s @ idx\<rparr>)
      else s\<lparr>free_group := free_group s @ [idx]\<rparr>)"

subsection \<open>Counting pages\<close>

definition get_num_new_pages ::
  "nat list \<Rightarrow> nat \<Rightarrow> nat list option \<Rightarrow> bool \<Rightarrow> nat res" where
  "get_num_new_pages seq_lens ps prefix_lens decode =
     (if prefix_lens = None \<or> decode
      then (if decode then Inr (length (filter (\<lambda>n. n mod ps = 1) seq_lens)) else Inl AssertionError)
      else Inr (sum_list (map2 (\<lambda>s p. ceil_div s ps - ceil_div p ps) seq_lens (the prefix_lens))))"

subsection \<open>The kernels\<close>

text \<open>\<^verbatim>\<open>tl.store\<close> of consecutive values starting at an offset.\<close>

definition store :: "nat \<Rightarrow> 'a list \<Rightarrow> 'a list \<Rightarrow> 'a list" where
  "store off vs out =
     map (\<lambda>i. if off \<le> i \<and> i < off + length vs then vs ! (i - off) else out ! i) [0..<length out]"

definition load_page :: "(nat \<Rightarrow> int) \<Rightarrow> int list \<Rightarrow> nat \<Rightarrow> int" where
  "load_page oob pages i = (if i < length pages then pages ! i else oob i)"

definition BLOCK_EXTEND :: nat where
  "BLOCK_EXTEND = 4096"

text \<open>The dynamic blocked loop of part 2: block \<open>b\<close> writes the offsets below \<^verbatim>\<open>num_part2\<close>.\<close>

definition fill_full_pages ::
  "nat \<Rightarrow> (nat \<Rightarrow> int) \<Rightarrow> nat \<Rightarrow> nat \<Rightarrow> int list \<Rightarrow> int list" where
  "fill_full_pages ps page_at base num_part2 out =
     fold (\<lambda>b o'. store (base + b * BLOCK_EXTEND)
         (map (\<lambda>x. page_at (x div ps) * int ps + int (x mod ps))
            [b * BLOCK_EXTEND..<min ((b + 1) * BLOCK_EXTEND) num_part2]) o')
       [0..<(num_part2 + BLOCK_EXTEND - 1) div BLOCK_EXTEND] out"

definition alloc_extend_program ::
  "nat \<Rightarrow> (nat \<Rightarrow> int) \<Rightarrow> nat list \<Rightarrow> nat list \<Rightarrow> int list \<Rightarrow> int list \<Rightarrow> nat \<Rightarrow> int list \<Rightarrow> int list" where
  "alloc_extend_program ps oob pre_lens seq_lens last_locs free pid out =
     (let seq_len = seq_lens ! pid; pre_len = pre_lens ! pid;
          extend_len = seq_len - pre_len;
          sum_extend_lens = sum_list (take (pid + 1) (map2 (-) seq_lens pre_lens));
          output_start_loc = sum_extend_lens - extend_len;
          num_page_self = ceil_div seq_len ps - ceil_div pre_len ps;
          sum_num_new_pages =
            sum_list (take (pid + 1) (map2 (\<lambda>s p. ceil_div s ps - ceil_div p ps) seq_lens pre_lens));
          new_page_start_loc = sum_num_new_pages - num_page_self;
          num_part1 = min seq_len (ceil_div pre_len ps * ps) - pre_len;
          out1 = store output_start_loc (map (\<lambda>j. last_locs ! pid + 1 + int j) [0..<num_part1]) out
      in if pre_len + num_part1 = seq_len then out1
      else
        let num_part2 = seq_len div ps * ps - ceil_div pre_len ps * ps;
            out2 = fill_full_pages ps (\<lambda>k. load_page oob free (new_page_start_loc + k))
                     (output_start_loc + num_part1) num_part2 out1
        in if pre_len + num_part1 + num_part2 = seq_len then out2
        else
          let num_part3 = seq_len - seq_len div ps * ps;
              start_loc = load_page oob free (new_page_start_loc + num_page_self - 1)
          in store (output_start_loc + num_part1 + num_part2)
               (map (\<lambda>j. start_loc * int ps + int j) [0..<num_part3]) out2)"

definition alloc_extend_kernel ::
  "nat \<Rightarrow> (nat \<Rightarrow> int) \<Rightarrow> nat list \<Rightarrow> nat list \<Rightarrow> int list \<Rightarrow> int list \<Rightarrow> int list \<Rightarrow> int list" where
  "alloc_extend_kernel ps oob pre_lens seq_lens last_locs free out =
     fold (alloc_extend_program ps oob pre_lens seq_lens last_locs free) [0..<length pre_lens] out"

definition alloc_decode_program ::
  "nat \<Rightarrow> (nat \<Rightarrow> int) \<Rightarrow> nat list \<Rightarrow> int list \<Rightarrow> int list \<Rightarrow> nat \<Rightarrow> int list \<Rightarrow> int list" where
  "alloc_decode_program ps oob seq_lens last_locs free pid out =
     (let seq_len = seq_lens ! pid; pre_len = seq_len - 1;
          num_page_self = ceil_div seq_len ps - ceil_div pre_len ps;
          sum_num_new_pages =
            sum_list (take (pid + 1) (map (\<lambda>s. ceil_div s ps - ceil_div (s - 1) ps) seq_lens));
          new_page_start_loc = sum_num_new_pages - num_page_self
      in if num_page_self = 0 then store pid [last_locs ! pid + 1] out
      else store pid [load_page oob free new_page_start_loc * int ps] out)"

definition alloc_decode_kernel ::
  "nat \<Rightarrow> (nat \<Rightarrow> int) \<Rightarrow> nat list \<Rightarrow> int list \<Rightarrow> int list \<Rightarrow> int list \<Rightarrow> int list" where
  "alloc_decode_kernel ps oob seq_lens last_locs free out =
     fold (alloc_decode_program ps oob seq_lens last_locs free) [0..<length seq_lens] out"

text \<open>
  The reference loop. \<^verbatim>\<open>free_pages[a:b]\<close> truncates, and assigning a slice of the wrong length
  raises RuntimeError; \<^verbatim>\<open>free_pages[k]\<close> out of range raises IndexError.
\<close>

definition assign_slice :: "nat \<Rightarrow> nat \<Rightarrow> 'a list \<Rightarrow> 'a list \<Rightarrow> 'a list res" where
  "assign_slice off n vs out = (if length vs = n then Inr (store off vs out) else Inl RuntimeError)"

definition alloc_extend_naive_step ::
  "nat \<Rightarrow> nat list \<Rightarrow> nat list \<Rightarrow> int list \<Rightarrow> int list \<Rightarrow> int list \<Rightarrow> nat \<Rightarrow> int list res" where
  "alloc_extend_naive_step ps prefix_lens seq_lens last_loc free out i =
     (let extend_lens = map2 (-) seq_lens prefix_lens;
          end_pos = sum_list (take (i + 1) extend_lens);
          start_pos = end_pos - extend_lens ! i;
          num_new_pages = map2 (\<lambda>s p. ceil_div s ps - ceil_div p ps) seq_lens prefix_lens;
          num_full_new_pages = seq_lens ! i div ps - ceil_div (prefix_lens ! i) ps;
          need_page = num_new_pages ! i - num_full_new_pages;
          end_new_pages = sum_list (take (i + 1) num_new_pages);
          start_new_pages = end_new_pages - num_new_pages ! i;
          num1 = min (seq_lens ! i) (ceil_div (prefix_lens ! i) ps * ps) - prefix_lens ! i
      in rbind (if num1 \<noteq> 0
                then assign_slice start_pos num1 (map (\<lambda>j. last_loc ! i + 1 + int j) [0..<num1]) out
                else Inr out)
         (\<lambda>out1. if prefix_lens ! i + num1 = seq_lens ! i then Inr out1
          else let num2 = (seq_lens ! i div ps - ceil_div (prefix_lens ! i) ps) * ps in
          rbind (if num2 \<noteq> 0
                 then assign_slice (start_pos + num1) num2
                        (concat (map (\<lambda>g. map (\<lambda>j. g * int ps + int j) [0..<ps])
                           (slice start_new_pages (end_new_pages - need_page) free))) out1
                 else Inr out1)
          (\<lambda>out2. if prefix_lens ! i + num1 + num2 = seq_lens ! i then Inr out2
           else let num3 = seq_lens ! i - seq_lens ! i div ps * ps in
           if num3 \<noteq> 0
           then (if end_new_pages - 1 < length free
                 then assign_slice (end_pos - num3) num3
                        (map (\<lambda>j. free ! (end_new_pages - 1) * int ps + int j) [0..<num3]) out2
                 else Inl IndexError)
           else Inr out2)))"

definition alloc_extend_naive ::
  "nat \<Rightarrow> nat list \<Rightarrow> nat list \<Rightarrow> int list \<Rightarrow> int list \<Rightarrow> int list \<Rightarrow> int list res" where
  "alloc_extend_naive ps prefix_lens seq_lens last_loc free out =
     rfold (alloc_extend_naive_step ps prefix_lens seq_lens last_loc free) out
       [0..<length prefix_lens]"

subsection \<open>The paged allocator\<close>

definition paged_clear :: "kv_alloc \<Rightarrow> kv_alloc" where
  "paged_clear s = s\<lparr>free_pages := map int [1..<pool_size s div page_size s + 1],
     is_not_in_free_group := True, free_group := [], release_pages := []\<rparr>"

definition paged_init :: "nat \<Rightarrow> nat \<Rightarrow> bool \<Rightarrow> bool \<Rightarrow> kv_alloc" where
  "paged_init sz ps nsort dbg = paged_clear \<lparr>pool_size = sz, page_size = ps, need_sort = nsort,
     debug_mode = dbg, free_pages = [], release_pages = [], is_not_in_free_group = True,
     free_group = []\<rparr>"

definition expand_pages :: "nat \<Rightarrow> int list \<Rightarrow> int list" where
  "expand_pages ps pages = concat (map (\<lambda>g. map (\<lambda>j. g * int ps + int j) [0..<ps]) pages)"

definition paged_alloc :: "kv_alloc \<Rightarrow> nat \<Rightarrow> (kv_alloc \<times> int list option) res" where
  "paged_alloc s need =
     rbind (require (\<not> debug_mode s \<or> need mod page_size s = 0) AssertionError) (\<lambda>_.
       let n = need div page_size s;
           s1 = (if need_sort s \<and> length (free_pages s) < n then merge_and_sort_free s else s) in
       if length (free_pages s1) < n then Inr (s1, None)
       else Inr (s1\<lparr>free_pages := drop n (free_pages s1)\<rparr>,
                 Some (expand_pages (page_size s1) (take n (free_pages s1)))))"

definition paged_alloc_extend ::
  "(nat \<Rightarrow> int) \<Rightarrow> (nat \<Rightarrow> int) \<Rightarrow> kv_alloc \<Rightarrow> nat list \<Rightarrow> nat list \<Rightarrow> int list \<Rightarrow> nat
     \<Rightarrow> (kv_alloc \<times> int list option) res" where
  "paged_alloc_extend oob garbage s prefix_lens seq_lens last_loc extend_num_tokens =
     rbind (require (\<not> debug_mode s \<or>
         list_all2 (\<lambda>l p. (l + 1) mod int (page_size s) = int p mod int (page_size s)) last_loc prefix_lens)
       AssertionError) (\<lambda>_.
     let bs = length prefix_lens;
         s1 = (if need_sort s \<and> length (free_pages s) < extend_num_tokens div page_size s + bs + 1
               then merge_and_sort_free s else s);
         out = alloc_extend_kernel (page_size s1) oob prefix_lens seq_lens last_loc (free_pages s1)
                 (map garbage [0..<extend_num_tokens])
     in rbind (require (\<not> debug_mode s1 \<or> distinct out) AssertionError) (\<lambda>_.
        rbind (get_num_new_pages seq_lens (page_size s1) (Some prefix_lens) False) (\<lambda>n.
        if length (free_pages s1) < n then Inr (s1, None)
        else Inr (s1\<lparr>free_pages := drop n (free_pages s1)\<rparr>, Some out))))"

definition paged_alloc_decode ::
  "(nat \<Rightarrow> int) \<Rightarrow> (nat \<Rightarrow> int) \<Rightarrow> kv_alloc \<Rightarrow> nat list \<Rightarrow> int list \<Rightarrow> (kv_alloc \<times> int list option) res" where
  "paged_alloc_decode oob garbage s seq_lens last_loc =
     rbind (require (\<not> debug_mode s \<or>
         list_all2 (\<lambda>l n. (l + 2) mod int (page_size s) = int n mod int (page_size s)) last_loc seq_lens)
       AssertionError) (\<lambda>_.
     let bs = length seq_lens;
         s1 = (if need_sort s \<and> length (free_pages s) < bs then merge_and_sort_free s else s);
         out = alloc_decode_kernel (page_size s1) oob seq_lens last_loc (free_pages s1)
                 (map garbage [0..<bs])
     in rbind (require (\<not> debug_mode s1 \<or> distinct out) AssertionError) (\<lambda>_.
        rbind (get_num_new_pages seq_lens (page_size s1) None True) (\<lambda>n.
        if length (free_pages s1) < n then Inr (s1, None)
        else Inr (s1\<lparr>free_pages := drop n (free_pages s1)\<rparr>, Some out))))"

text \<open>\<^verbatim>\<open>torch.unique\<close> returns the distinct values sorted.\<close>

definition unique :: "int list \<Rightarrow> int list" where
  "unique xs = sort (remdups xs)"

definition paged_free :: "kv_alloc \<Rightarrow> int list \<Rightarrow> kv_alloc res" where
  "paged_free s idx =
     (if idx = [] then Inr s
      else
        let s1 = (if is_not_in_free_group s then
                    (let g = unique (map (\<lambda>x. x div int (page_size s)) idx) in
                     if need_sort s then s\<lparr>release_pages := g @ release_pages s\<rparr>
                     else s\<lparr>free_pages := g @ free_pages s\<rparr>)
                  else s\<lparr>free_group := free_group s @ [idx]\<rparr>)
        in rbind (require (\<not> debug_mode s1 \<or> distinct (free_pages s1)) AssertionError) (\<lambda>_. Inr s1))"


subsection \<open>Lemmas on stores and pages\<close>

lemma length_store [simp]: "length (store off vs out) = length out"
  by (simp add: store_def)

lemma store_Nil [simp]: "store off [] out = out"
  by (rule nth_equalityI) (auto simp: store_def)

lemma store_append: "store (off + length xs) ys (store off xs out) = store off (xs @ ys) out"
  by (rule nth_equalityI) (auto simp: store_def nth_append)

lemma store_segment:
  assumes "length vs \<le> length rest"
  shows "store (length pre) vs (pre @ rest) = pre @ vs @ drop (length vs) rest"
  using assms by (intro nth_equalityI) (auto simp: store_def nth_append)

lemma ceil_div_alt: "0 < y \<Longrightarrow> ceil_div x y = x div y + (if x mod y = 0 then 0 else 1)"
proof -
  assume y: "0 < y"
  have eq: "x + y - 1 = (x mod y + y - 1) + x div y * y"
    using y div_mult_mod_eq [of x y] by linarith
  have "ceil_div x y = x div y + (x mod y + y - 1) div y"
    unfolding ceil_div_def eq using y by (subst div_mult_self1) simp_all
  moreover have "(x mod y + y - 1) div y = (if x mod y = 0 then 0 else 1)"
    using y mod_less_divisor [OF y, of x] by (auto simp: div_eq_0_iff div_if)
  ultimately show ?thesis by simp
qed

lemma ceil_div_Suc_diff: "0 < y \<Longrightarrow> ceil_div (Suc n) y - ceil_div n y = (if n mod y = 0 then 1 else 0)"
  by (auto simp: ceil_div_alt mod_Suc div_Suc)

text \<open>A loop over blocks of \<open>B\<close> offsets writes what one store would write.\<close>

lemma fold_store_blocks:
  assumes "0 < B"
  shows "fold (\<lambda>b. store (base + b * B) (map f [b * B..<min ((b + 1) * B) n])) [0..<ceil_div n B] out
    = store base (map f [0..<n]) out"
proof -
  have "fold (\<lambda>b. store (base + b * B) (map f [b * B..<min ((b + 1) * B) n])) [0..<k] out
      = store base (map f [0..<min (k * B) n]) out" for k
  proof (induction k)
    case 0
    then show ?case by simp
  next
    case (Suc k)
    show ?case
    proof (cases "k * B \<le> n")
      case True
      then have split: "[0..<min ((k + 1) * B) n] = [0..<k * B] @ [k * B..<min ((k + 1) * B) n]"
        by (intro upt_split) auto
      show ?thesis using Suc True store_append [of base "map f [0..<k * B]"]
        by (simp add: split [simplified] min_absorb1)
    next
      case False
      then show ?thesis using Suc by (simp add: min_def)
    qed
  qed
  moreover have "n \<le> ceil_div n B * B" using assms by (rule ceil_div_bounds)
  ultimately show ?thesis by (simp add: min_absorb2)
qed

lemma fill_full_pages_eq:
  "fill_full_pages ps page_at base n out =
     store base (map (\<lambda>x. page_at (x div ps) * int ps + int (x mod ps)) [0..<n]) out"
  using fold_store_blocks [of BLOCK_EXTEND base "\<lambda>x. page_at (x div ps) * int ps + int (x mod ps)" n out]
  by (simp add: fill_full_pages_def ceil_div_def BLOCK_EXTEND_def)

subsection \<open>What the kernels compute\<close>

text \<open>The slot of position \<open>p\<close>: the rest of the last page of the prefix, then whole new pages.\<close>

definition slot_at :: "nat \<Rightarrow> (nat \<Rightarrow> int) \<Rightarrow> nat \<Rightarrow> int \<Rightarrow> nat \<Rightarrow> int" where
  "slot_at ps page_at pre lst p =
     (if p < ceil_align pre ps then lst + 1 + int (p - pre)
      else page_at (p div ps - ceil_div pre ps) * int ps + int (p mod ps))"

definition new_pages :: "nat \<Rightarrow> nat \<Rightarrow> nat \<Rightarrow> nat" where
  "new_pages ps pre seq = ceil_div seq ps - ceil_div pre ps"

lemma slots_part1:
  "seq \<le> ceil_align pre ps \<Longrightarrow> pre \<le> seq \<Longrightarrow>
     map (slot_at ps page_at pre lst) [pre..<seq] = map (\<lambda>j. lst + 1 + int j) [0..<seq - pre]"
  by (subst map_upt_shift) (auto simp: slot_at_def)

lemma slots_part2:
  assumes "0 < ps"
  shows "map (slot_at ps page_at pre lst) [ceil_align pre ps..<ceil_align pre ps + n]
    = map (\<lambda>x. page_at (x div ps) * int ps + int (x mod ps)) [0..<n]"
  using assms by (subst map_upt_shift) (auto simp: slot_at_def ceil_align_def)

lemma slots_part3:
  assumes "0 < ps" "ceil_align pre ps \<le> seq div ps * ps"
  shows "map (slot_at ps page_at pre lst) [seq div ps * ps..<seq]
    = map (\<lambda>j. page_at (seq div ps - ceil_div pre ps) * int ps + int j) [0..<seq mod ps]"
proof -
  have "slot_at ps page_at pre lst (seq div ps * ps + j)
      = page_at (seq div ps - ceil_div pre ps) * int ps + int j" if "j < seq mod ps" for j
  proof -
    have "j < ps" using that mod_less_divisor [OF assms(1), of seq] by linarith
    then show ?thesis using assms by (simp add: slot_at_def)
  qed
  then show ?thesis
    by (subst map_upt_shift) (auto simp: minus_div_mult_eq_mod)
qed

lemma sum_take_Suc_diff:
  "i < length ns \<Longrightarrow> sum_list (take (i + 1) ns) - ns ! i = sum_list (take i (ns :: nat list))"
  by (simp add: take_Suc_conv_app_nth)

definition page_offset :: "nat \<Rightarrow> nat list \<Rightarrow> nat list \<Rightarrow> nat \<Rightarrow> nat" where
  "page_offset ps pre_lens seq_lens i =
     sum_list (take i (map2 (\<lambda>s p. ceil_div s ps - ceil_div p ps) seq_lens pre_lens))"

definition out_offset :: "nat list \<Rightarrow> nat list \<Rightarrow> nat \<Rightarrow> nat" where
  "out_offset pre_lens seq_lens i = sum_list (take i (map2 (-) seq_lens pre_lens))"

lemma alloc_extend_program_eq:
  assumes "0 < ps" "length pre_lens = length seq_lens" "i < length pre_lens" "pre_lens ! i \<le> seq_lens ! i"
  shows "alloc_extend_program ps oob pre_lens seq_lens last_locs free i out =
    store (out_offset pre_lens seq_lens i)
      (map (slot_at ps (\<lambda>k. load_page oob free (page_offset ps pre_lens seq_lens i + k))
              (pre_lens ! i) (last_locs ! i)) [pre_lens ! i..<seq_lens ! i]) out"
proof -
  let ?pre = "pre_lens ! i" and ?seq = "seq_lens ! i" and ?c = "ceil_align (pre_lens ! i) ps"
  let ?pg = "\<lambda>k. load_page oob free (page_offset ps pre_lens seq_lens i + k)"
  let ?sl = "slot_at ps ?pg ?pre (last_locs ! i)" and ?o = "out_offset pre_lens seq_lens i"
  have o: "sum_list (take (i + 1) (map2 (-) seq_lens pre_lens)) - (?seq - ?pre) = ?o"
    using sum_take_Suc_diff [of i "map2 (-) seq_lens pre_lens"] assms(2,3)
    by (simp add: out_offset_def)
  have g: "sum_list (take (i + 1) (map2 (\<lambda>s p. ceil_div s ps - ceil_div p ps) seq_lens pre_lens))
      - (ceil_div ?seq ps - ceil_div ?pre ps) = page_offset ps pre_lens seq_lens i"
    using sum_take_Suc_diff [of i "map2 (\<lambda>s p. ceil_div s ps - ceil_div p ps) seq_lens pre_lens"] assms(2,3)
    by (simp add: page_offset_def)
  have cpre: "?pre \<le> ?c" using assms(1) by (rule ceil_align_ge)
  have c: "ceil_div ?pre ps * ps = ?c" by (simp add: ceil_align_def)
  show ?thesis
  proof (cases "?seq \<le> ?c")
    case True
    then show ?thesis using slots_part1 [OF True assms(4)] assms(4)
      by (simp add: alloc_extend_program_def Let_def o [simplified] c min_absorb1)
  next
    case False
    have cle: "?c \<le> ?seq div ps * ps"
      using False assms(1) c by (metis div_le_mono div_mult_self_is_m less_imp_le_nat linorder_not_le mult_le_mono1)
    have "?seq div ps * ps \<le> ?seq" by simp
    let ?f = "?seq div ps * ps"
    have p1: "map ?sl [?pre..<?c] = map (\<lambda>j. last_locs ! i + 1 + int j) [0..<?c - ?pre]"
      by (rule slots_part1) (simp_all add: cpre)
    have p2: "map ?sl [?c..<?f] = map (\<lambda>x. ?pg (x div ps) * int ps + int (x mod ps)) [0..<?f - ?c]"
      using slots_part2 [OF assms(1), of ?pg ?pre "last_locs ! i" "?f - ?c"] cle by simp
    have p3: "map ?sl [?f..<?seq] = map (\<lambda>j. ?pg (?seq div ps - ceil_div ?pre ps) * int ps + int j) [0..<?seq mod ps]"
      by (rule slots_part3 [OF assms(1) cle])
    have all: "[?pre..<?seq] = [?pre..<?c] @ [?c..<?f] @ [?f..<?seq]"
      using cpre cle False upt_split [of ?pre ?c ?seq] upt_split [of ?c ?f ?seq] by simp
    have m: "?seq - ?f = ?seq mod ps" by (simp add: minus_div_mult_eq_mod)
    then have md: "?f \<noteq> ?seq \<Longrightarrow> ?seq mod ps \<noteq> 0" using div_mult_mod_eq [of ?seq ps] by linarith
    have self: "?f \<noteq> ?seq \<Longrightarrow> page_offset ps pre_lens seq_lens i + (ceil_div ?seq ps - ceil_div ?pre ps) - 1
        = page_offset ps pre_lens seq_lens i + (?seq div ps - ceil_div ?pre ps)"
      using cle assms(1) md by (simp add: ceil_div_alt [of ps ?seq] ceil_align_def)
    have st: "store (?o + (?c - ?pre) + (?f - ?c)) zs (store (?o + (?c - ?pre)) ys (store ?o xs out))
        = store ?o (xs @ ys @ zs) out" if "length xs = ?c - ?pre" "length ys = ?f - ?c" for xs ys zs
      using that store_append [of ?o "xs @ ys" zs out] store_append [of ?o xs ys out]
      by (simp add: add.assoc)
    have main: "alloc_extend_program ps oob pre_lens seq_lens last_locs free i out =
        (let out2 = store (?o + (?c - ?pre)) (map ?sl [?c..<?f]) (store ?o (map ?sl [?pre..<?c]) out)
         in if ?f = ?seq then out2 else store (?o + (?c - ?pre) + (?f - ?c)) (map ?sl [?f..<?seq]) out2)"
      using False cpre cle self m unfolding p1 p2 p3
      by (auto simp: alloc_extend_program_def Let_def o [simplified] g [simplified] c fill_full_pages_eq)
    show ?thesis
    proof (cases "?f = ?seq")
      case True
      then show ?thesis using main st [of "map ?sl [?pre..<?c]" "map ?sl [?c..<?f]" "[]"] all
        by (simp add: Let_def)
    next
      case False
      then show ?thesis using main st [of "map ?sl [?pre..<?c]" "map ?sl [?c..<?f]" "map ?sl [?f..<?seq]"] all
        by (simp add: Let_def)
    qed
  qed
qed


lemma fold_store_segments:
  assumes "\<And>i. i < n \<Longrightarrow> length (seg i) = ls ! i" "n \<le> length ls" "sum_list (take n ls) \<le> length out"
  shows "fold (\<lambda>i. store (sum_list (take i ls)) (seg i)) [0..<n] out
    = concat (map seg [0..<n]) @ drop (sum_list (take n ls)) out"
  using assms
proof (induction n)
  case 0
  then show ?case by simp
next
  case (Suc n)
  have len: "length (concat (map seg [0..<n])) = sum_list (take n ls)"
    using Suc.prems(1,2) by (induction n) (auto simp: take_Suc_conv_app_nth)
  have tk: "sum_list (take (Suc n) ls) = sum_list (take n ls) + length (seg n)"
    using Suc.prems(1,2) by (simp add: take_Suc_conv_app_nth)
  have "fold (\<lambda>i. store (sum_list (take i ls)) (seg i)) [0..<n] out
      = concat (map seg [0..<n]) @ drop (sum_list (take n ls)) out"
    using Suc.IH Suc.prems tk by simp
  moreover have "length (seg n) \<le> length (drop (sum_list (take n ls)) out)"
    using Suc.prems(3) tk by simp
  ultimately show ?case
    using store_segment [of "seg n" "drop (sum_list (take n ls)) out" "concat (map seg [0..<n])"] len tk
    by (simp add: add.commute)
qed

lemma fold_upt_cong: "(\<And>i x. i < n \<Longrightarrow> f i x = g i x) \<Longrightarrow> fold f [0..<n] x = fold g [0..<n] x"
  by (intro fold_cong) auto

text \<open>A batch whose lengths fit together.\<close>

definition batch_ok :: "nat \<Rightarrow> nat list \<Rightarrow> nat list \<Rightarrow> int list \<Rightarrow> bool" where
  "batch_ok ps pre_lens seq_lens last_locs \<longleftrightarrow> 0 < ps \<and> length pre_lens = length seq_lens
     \<and> length last_locs = length seq_lens \<and> list_all2 (\<le>) pre_lens seq_lens"

lemma batch_okD:
  assumes "batch_ok ps pre_lens seq_lens last_locs"
  shows "0 < ps" "length pre_lens = length seq_lens" "length last_locs = length seq_lens"
    "i < length pre_lens \<Longrightarrow> pre_lens ! i \<le> seq_lens ! i"
  using assms by (auto simp: batch_ok_def list_all2_conv_all_nth)

definition total_new_tokens :: "nat list \<Rightarrow> nat list \<Rightarrow> nat" where
  "total_new_tokens pre_lens seq_lens = sum_list (map2 (-) seq_lens pre_lens)"

definition total_new_pages :: "nat \<Rightarrow> nat list \<Rightarrow> nat list \<Rightarrow> nat" where
  "total_new_pages ps pre_lens seq_lens =
     sum_list (map2 (\<lambda>s p. ceil_div s ps - ceil_div p ps) seq_lens pre_lens)"

definition extend_segment ::
  "nat \<Rightarrow> (nat \<Rightarrow> int) \<Rightarrow> nat list \<Rightarrow> nat list \<Rightarrow> int list \<Rightarrow> nat \<Rightarrow> int list" where
  "extend_segment ps page_at pre_lens seq_lens last_locs i =
     map (slot_at ps (\<lambda>k. page_at (page_offset ps pre_lens seq_lens i + k)) (pre_lens ! i) (last_locs ! i))
       [pre_lens ! i..<seq_lens ! i]"

definition extend_layout ::
  "nat \<Rightarrow> (nat \<Rightarrow> int) \<Rightarrow> nat list \<Rightarrow> nat list \<Rightarrow> int list \<Rightarrow> int list" where
  "extend_layout ps page_at pre_lens seq_lens last_locs =
     concat (map (extend_segment ps page_at pre_lens seq_lens last_locs) [0..<length pre_lens])"

lemma alloc_extend_kernel_eq:
  assumes "batch_ok ps pre_lens seq_lens last_locs" "length out = total_new_tokens pre_lens seq_lens"
  shows "alloc_extend_kernel ps oob pre_lens seq_lens last_locs free out =
    extend_layout ps (load_page oob free) pre_lens seq_lens last_locs"
proof -
  note ok = batch_okD [OF assms(1)]
  let ?ls = "map2 (-) seq_lens pre_lens" and ?n = "length pre_lens"
  let ?seg = "extend_segment ps (load_page oob free) pre_lens seq_lens last_locs"
  have len: "length (?seg i) = ?ls ! i" if "i < ?n" for i
    using that ok(2) by (simp add: extend_segment_def)
  have "alloc_extend_kernel ps oob pre_lens seq_lens last_locs free out
      = fold (\<lambda>i. store (sum_list (take i ?ls)) (?seg i)) [0..<?n] out"
    unfolding alloc_extend_kernel_def
    by (rule fold_upt_cong)
      (use ok alloc_extend_program_eq [of ps pre_lens seq_lens] in
        \<open>simp add: out_offset_def extend_segment_def\<close>)
  also have "\<dots> = concat (map ?seg [0..<?n]) @ drop (sum_list (take ?n ?ls)) out"
    by (rule fold_store_segments) (use ok(2) len assms(2) in \<open>auto simp: total_new_tokens_def\<close>)
  also have "drop (sum_list (take ?n ?ls)) out = []"
    using ok(2) assms(2) by (simp add: total_new_tokens_def)
  finally show ?thesis by (simp add: extend_layout_def)
qed

subsection \<open>The reference loop\<close>

lemma expand_pages_nth:
  assumes "0 < ps"
  shows "expand_pages ps pages = map (\<lambda>x. pages ! (x div ps) * int ps + int (x mod ps)) [0..<length pages * ps]"
proof (induction pages rule: rev_induct)
  case Nil
  then show ?case by (simp add: expand_pages_def)
next
  case (snoc g gs)
  let ?f = "\<lambda>x. (gs @ [g]) ! (x div ps) * int ps + int (x mod ps)"
  have "[0..<length (gs @ [g]) * ps] = [0..<length gs * ps] @ [length gs * ps..<length gs * ps + ps]"
    by (subst upt_split [of 0 "length gs * ps"]) (auto simp: add.commute)
  moreover have "map ?f [0..<length gs * ps] = map (\<lambda>x. gs ! (x div ps) * int ps + int (x mod ps)) [0..<length gs * ps]"
    using assms by (auto simp: nth_append less_mult_imp_div_less)
  moreover have "map ?f [length gs * ps..<length gs * ps + ps] = map (\<lambda>j. g * int ps + int j) [0..<ps]"
    using assms by (subst map_upt_shift) (auto simp: nth_append)
  ultimately have "map ?f [0..<length (gs @ [g]) * ps] = expand_pages ps gs @ map (\<lambda>j. g * int ps + int j) [0..<ps]"
    using snoc by (simp only: map_append)
  then show ?case by (simp add: expand_pages_def)
qed

lemma page_offset_Suc:
  assumes "length pre_lens = length seq_lens" "i < length pre_lens"
  shows "page_offset ps pre_lens seq_lens (Suc i)
    = page_offset ps pre_lens seq_lens i + new_pages ps (pre_lens ! i) (seq_lens ! i)"
  using assms by (simp add: page_offset_def new_pages_def take_Suc_conv_app_nth)

lemma page_offset_mono: "i \<le> j \<Longrightarrow> page_offset ps pre_lens seq_lens i \<le> page_offset ps pre_lens seq_lens j"
  by (simp add: page_offset_def sum_list_take_mono)

lemma page_offset_total: "page_offset ps pre_lens seq_lens i \<le> total_new_pages ps pre_lens seq_lens"
  by (simp add: page_offset_def total_new_pages_def sum_list_take_le)

lemma assign_slice_guarded:
  "length vs = n \<Longrightarrow> (if n \<noteq> 0 then assign_slice off n vs out else Inr out) = Inr (store off vs out)"
  by (auto simp: assign_slice_def)

text \<open>With enough free pages, one round of the reference loop does what one program does.\<close>

lemma naive_step_eq_program:
  assumes "0 < ps" "length pre_lens = length seq_lens" "i < length pre_lens" "pre_lens ! i \<le> seq_lens ! i"
    and enough: "page_offset ps pre_lens seq_lens (Suc i) \<le> length free"
  shows "alloc_extend_naive_step ps pre_lens seq_lens last_locs free out i
    = Inr (alloc_extend_program ps oob pre_lens seq_lens last_locs free i out)"
proof -
  let ?pre = "pre_lens ! i" and ?seq = "seq_lens ! i" and ?np = "map2 (\<lambda>s p. ceil_div s ps - ceil_div p ps) seq_lens pre_lens"
  let ?k = "ceil_div ?pre ps" and ?po = "page_offset ps pre_lens seq_lens i"
  have np: "?np ! i = ceil_div ?seq ps - ?k" and ext: "map2 (-) seq_lens pre_lens ! i = ?seq - ?pre"
    using assms(2,3) by simp_all
  have st: "sum_list (take (i + 1) ?np) = ?po + (ceil_div ?seq ps - ?k)"
    using assms(2,3) by (simp add: page_offset_def take_Suc_conv_app_nth)
  have en: "?po + (ceil_div ?seq ps - ?k) \<le> length free"
    using enough assms(2,3) by (simp add: page_offset_Suc new_pages_def)
  have so: "sum_list (take (i + 1) (map2 (-) seq_lens pre_lens)) = out_offset pre_lens seq_lens i + (?seq - ?pre)"
    using assms(2,3) by (simp add: out_offset_def take_Suc_conv_app_nth)
  show ?thesis
  proof (cases "?seq \<le> ?k * ps")
    case True
    then show ?thesis using assms(4)
      by (simp add: alloc_extend_naive_step_def alloc_extend_program_def Let_def assign_slice_def np ext
          st [simplified] so [simplified] min_absorb1)
  next
    case False
    have pk: "?pre \<le> ?k * ps" using assms(1) by (simp add: ceil_div_bounds)
    have kf: "?k \<le> ?seq div ps" using False assms(1) by (simp add: less_eq_div_iff_mult_less_eq)
    have fc: "?seq div ps \<le> ceil_div ?seq ps" using assms(1) by (simp add: ceil_div_alt)
    have nf: "ceil_div ?seq ps - ?k - (ceil_div ?seq ps - ?k - (?seq div ps - ?k)) = ?seq div ps - ?k"
      using fc kf by simp
    let ?pages = "slice ?po (?po + (?seq div ps - ?k)) free"
    have lp: "length ?pages = ?seq div ps - ?k" using en fc kf by simp
    have pages: "concat (map (\<lambda>g. map (\<lambda>j. g * int ps + int j) [0..<ps]) ?pages)
        = map (\<lambda>x. load_page oob free (?po + x div ps) * int ps + int (x mod ps)) [0..<(?seq div ps - ?k) * ps]"
      unfolding expand_pages_def [symmetric] expand_pages_nth [OF assms(1)] lp
    proof (rule map_cong [OF refl])
      fix x assume "x \<in> set [0..<(?seq div ps - ?k) * ps]"
      then have x: "x div ps < ?seq div ps - ?k" by (simp add: less_mult_imp_div_less)
      then have "?po + x div ps < length free" using en fc by linarith
      then show "?pages ! (x div ps) * int ps + int (x mod ps)
          = load_page oob free (?po + x div ps) * int ps + int (x mod ps)"
        using x by (simp add: slice_def load_page_def)
    qed
    have upto: "?po + (ceil_div ?seq ps - ?k) - (ceil_div ?seq ps - ?k - (?seq div ps - ?k)) = ?po + (?seq div ps - ?k)"
      using fc kf by simp
    have lastp: "?seq div ps * ps \<noteq> ?seq \<Longrightarrow> ?po + (ceil_div ?seq ps - ?k) - 1 < length free"
    proof -
      assume "?seq div ps * ps \<noteq> ?seq"
      then have "?seq mod ps \<noteq> 0" using div_mult_mod_eq [of ?seq ps] by linarith
      then show ?thesis using en kf assms(1) by (simp add: ceil_div_alt [of ps ?seq])
    qed
    have num2: "?seq div ps * ps - ?k * ps = (?seq div ps - ?k) * ps" by (simp add: diff_mult_distrib)
    have f: "?k * ps + (?seq div ps - ?k) * ps = ?seq div ps * ps"
      using kf by (simp add: add_mult_distrib [symmetric])
    have offs: "out_offset pre_lens seq_lens i + (?seq - ?pre) - (?seq - ?seq div ps * ps)
        = out_offset pre_lens seq_lens i + (?k * ps - ?pre) + (?seq div ps - ?k) * ps"
      using f pk False div_mult_mod_eq [of ?seq ps] by linarith
    have mn: "min ?seq (?k * ps) = ?k * ps" using False by simp
    have b1: "?pre + (?k * ps - ?pre) \<noteq> ?seq" using False pk by simp
    have b2: "?pre + (?k * ps - ?pre) + (?seq div ps - ?k) * ps = ?seq \<longleftrightarrow> ?seq div ps * ps = ?seq"
      using pk f by simp
    have cancel: "x + y - y = x" for x y :: nat by simp
    show ?thesis
    proof (cases "?seq div ps * ps = ?seq")
      case True
      show ?thesis
        unfolding alloc_extend_naive_step_def alloc_extend_program_def Let_def np ext st so mn cancel
          upto num2 b2 pages fill_full_pages_eq
        by (simp only: assign_slice_guarded length_map length_upt diff_zero b1 True if_False if_True rbind_Inr simp_thms)
    next
      case neq: False
      have ld: "load_page oob free (?po + (ceil_div ?seq ps - ?k) - 1) = free ! (?po + (ceil_div ?seq ps - ?k) - 1)"
        using lastp [OF neq] by (simp add: load_page_def)
      show ?thesis
        unfolding alloc_extend_naive_step_def alloc_extend_program_def Let_def np ext st so mn cancel
          upto num2 b2 pages fill_full_pages_eq
        by (simp only: assign_slice_guarded length_map length_upt diff_zero b1 neq if_False if_True rbind_Inr
            lastp offs ld not_False_eq_True simp_thms)
    qed
  qed
qed

lemma naive_rounds:
  assumes "batch_ok ps pre_lens seq_lens last_locs"
    "page_offset ps pre_lens seq_lens n \<le> length free" "n \<le> length pre_lens"
  shows "rfold (alloc_extend_naive_step ps pre_lens seq_lens last_locs free) out [0..<n]
    = Inr (fold (alloc_extend_program ps oob pre_lens seq_lens last_locs free) [0..<n] out)"
  using assms(2,3)
proof (induction n)
  case 0
  then show ?case by simp
next
  case (Suc n)
  note ok = batch_okD [OF assms(1)]
  have "page_offset ps pre_lens seq_lens n \<le> length free"
    using page_offset_mono [of n "Suc n" ps pre_lens seq_lens] Suc.prems(1) by simp
  then show ?case
    using Suc naive_step_eq_program [OF ok(1,2) _ ok(4), of n free last_locs _ oob]
    by (simp add: rfold_append)
qed

text \<open>C20 The Triton kernel and the Python loop it replaces write the same slots whenever enough pages
  are free, whatever an out-of-range load would return.\<close>

theorem alloc_extend_kernel_eq_naive:
  assumes "batch_ok ps pre_lens seq_lens last_locs" "total_new_pages ps pre_lens seq_lens \<le> length free"
  shows "alloc_extend_naive ps pre_lens seq_lens last_locs free out
    = Inr (alloc_extend_kernel ps oob pre_lens seq_lens last_locs free out)"
  unfolding alloc_extend_naive_def alloc_extend_kernel_def
  by (rule naive_rounds [OF assms(1)])
    (use page_offset_total [of ps pre_lens seq_lens "length pre_lens"] assms(2) in auto)

theorem alloc_extend_kernel_eq_naive_witness:
  "alloc_extend_naive 2 [3, 0] [6, 1] [4, -1] [7, 9, 1] [0, 0, 0, 0]
     = Inr (alloc_extend_kernel 2 (\<lambda>_. 99) [3, 0] [6, 1] [4, -1] [7, 9, 1] [0, 0, 0, 0])"
  by (rule alloc_extend_kernel_eq_naive)
    (simp_all add: batch_ok_def total_new_pages_def ceil_div_def)

subsection \<open>Decoding is extending by one token\<close>

lemma decode_program_eq:
  assumes "0 < ps" "i < length seq_lens" "\<forall>n\<in>set seq_lens. 0 < n"
  shows "alloc_decode_program ps oob seq_lens last_locs free i out
    = alloc_extend_program ps oob (map (\<lambda>s. s - 1) seq_lens) seq_lens last_locs free i out"
proof -
  let ?pre = "map (\<lambda>s. s - 1) seq_lens" and ?s = "seq_lens ! i"
  have pos: "0 < ?s" using assms(2,3) by simp
  then obtain m where m: "?s = Suc m" by (cases ?s) auto
  have zip: "map2 f seq_lens ?pre = map (\<lambda>s. f s (s - 1)) seq_lens" for f :: "nat \<Rightarrow> nat \<Rightarrow> nat"
    by (induction seq_lens) auto
  have "map (\<lambda>s. s - (s - 1)) seq_lens = map (\<lambda>s. 1) seq_lens"
    using assms(3) by (intro map_cong) auto
  then have oo: "out_offset ?pre seq_lens i = i"
    using assms(2) unfolding out_offset_def zip by (simp add: map_replicate_const sum_list_replicate)
  have po: "page_offset ps ?pre seq_lens i = sum_list (take i (map (\<lambda>s. ceil_div s ps - ceil_div (s - 1) ps) seq_lens))"
    unfolding page_offset_def zip ..
  have psd: "sum_list (take (i + 1) (map (\<lambda>s. ceil_div s ps - ceil_div (s - 1) ps) seq_lens))
      - (ceil_div ?s ps - ceil_div (?s - 1) ps) = page_offset ps ?pre seq_lens i"
    using sum_take_Suc_diff [of i "map (\<lambda>s. ceil_div s ps - ceil_div (s - 1) ps) seq_lens"] assms(2) po
    by simp
  have c: "m < ceil_align m ps \<longleftrightarrow> m mod ps \<noteq> 0"
  proof -
    have "m < m div ps * ps + ps"
      using mod_less_divisor [OF assms(1), of m] div_mult_mod_eq [of m ps] by linarith
    then show ?thesis by (auto simp: ceil_align_def ceil_div_alt [OF assms(1)] add_mult_distrib add.commute)
  qed
  have sl: "slot_at ps pg m l m = (if m mod ps = 0 then pg 0 * int ps else l + 1)" for pg l
    using c by (auto simp: slot_at_def ceil_div_alt [OF assms(1)])
  have "alloc_extend_program ps oob ?pre seq_lens last_locs free i out
      = store i [slot_at ps (\<lambda>k. load_page oob free (page_offset ps ?pre seq_lens i + k)) m (last_locs ! i) m] out"
    using alloc_extend_program_eq [OF assms(1), of ?pre seq_lens i oob last_locs free out] assms(2) m oo
    by simp
  also have "\<dots> = alloc_decode_program ps oob seq_lens last_locs free i out"
    using ceil_div_Suc_diff [OF assms(1), of m] psd m
    by (cases "m mod ps = 0") (auto simp: alloc_decode_program_def Let_def sl)
  finally show ?thesis by simp
qed

text \<open>The decode kernel is the extend kernel for one new token per request.\<close>

theorem decode_kernel_eq_extend:
  assumes "0 < ps" "\<forall>n\<in>set seq_lens. 0 < n"
  shows "alloc_decode_kernel ps oob seq_lens last_locs free out
    = alloc_extend_kernel ps oob (map (\<lambda>s. s - 1) seq_lens) seq_lens last_locs free out"
  unfolding alloc_decode_kernel_def alloc_extend_kernel_def length_map
  by (rule fold_upt_cong) (use decode_program_eq assms in auto)

theorem decode_kernel_eq_extend_witness:
  "alloc_decode_kernel 2 (\<lambda>_. 99) [5, 4] [3, 6] [8] [0, 0]
     = alloc_extend_kernel 2 (\<lambda>_. 99) [4, 3] [5, 4] [3, 6] [8] [0, 0]"
  using decode_kernel_eq_extend [of 2 "[5, 4]" "\<lambda>_. 99" "[3, 6]" "[8]" "[0, 0]"] by simp

lemma num_new_pages_decode:
  assumes "2 \<le> ps" "\<forall>n\<in>set seq_lens. 0 < n"
  shows "get_num_new_pages seq_lens ps None True
    = get_num_new_pages seq_lens ps (Some (map (\<lambda>s. s - 1) seq_lens)) False"
proof -
  have one: "(if n mod ps = 1 then 1 else 0 :: nat) = ceil_div n ps - ceil_div (n - 1) ps" if "0 < n" for n
    using that assms(1) ceil_div_Suc_diff [of ps "n - 1"] by (cases n) (auto simp: mod_Suc)
  have "length (filter (\<lambda>n. n mod ps = 1) seq_lens) = sum_list (map (\<lambda>n. if n mod ps = 1 then 1 else 0) seq_lens)"
    by (induction seq_lens) auto
  also have "\<dots> = sum_list (map (\<lambda>n. ceil_div n ps - ceil_div (n - 1) ps) seq_lens)"
    using one assms(2) by (intro arg_cong [where f = sum_list] map_cong) auto
  also have "\<dots> = sum_list (map2 (\<lambda>s p. ceil_div s ps - ceil_div p ps) seq_lens (map (\<lambda>s. s - 1) seq_lens))"
    by (induction seq_lens) auto
  finally show ?thesis by (simp add: get_num_new_pages_def)
qed


subsection \<open>Slots are page-aligned and distinct\<close>

text \<open>The page of position \<open>p\<close>: the page of the last slot of the prefix, or a new one.\<close>

definition page_of :: "nat \<Rightarrow> (nat \<Rightarrow> int) \<Rightarrow> nat \<Rightarrow> int \<Rightarrow> nat \<Rightarrow> int" where
  "page_of ps page_at pre lst p =
     (if p < ceil_align pre ps then lst div int ps else page_at (p div ps - ceil_div pre ps))"

lemma below_ceil_align:
  assumes "0 < ps" "pre \<le> p" "p < ceil_align pre ps"
  shows "p div ps = pre div ps" "pre mod ps \<noteq> 0"
proof -
  have m: "pre mod ps \<noteq> 0"
  proof
    assume "pre mod ps = 0"
    then show False using assms ceil_align_id [OF assms(1), of pre] by (simp add: mod_eq_0_iff_dvd)
  qed
  then have c: "ceil_align pre ps = (pre div ps + 1) * ps"
    using assms(1) by (simp add: ceil_align_def ceil_div_alt)
  have "p div ps < pre div ps + 1" using assms(3) c by (simp add: div_less_iff_less_mult [OF assms(1)])
  moreover have "pre div ps \<le> p div ps" using assms(2) by (rule div_le_mono)
  ultimately show "p div ps = pre div ps" "pre mod ps \<noteq> 0" using m by simp_all
qed

lemma slot_at_page:
  assumes "0 < ps" "pre \<le> p" "(lst + 1) mod int ps = int pre mod int ps"
  shows "slot_at ps page_at pre lst p = page_of ps page_at pre lst p * int ps + int (p mod ps)"
proof (cases "p < ceil_align pre ps")
  case True
  note b = below_ceil_align [OF assms(1,2) True]
  have lt: "p mod ps < ps" using assms(1) by simp
  have p: "p = pre div ps * ps + p mod ps" using b(1) div_mult_mod_eq [of p ps] by simp
  have d: "int (p - pre) = int (p mod ps) - int (pre mod ps)"
    using p assms(2) div_mult_mod_eq [of pre ps] by linarith
  have "lst mod int ps = int (pre mod ps) - 1"
  proof -
    have "(lst + 1) mod int ps = int (pre mod ps)" using assms(3) by (simp add: zmod_int)
    moreover have "0 < int (pre mod ps)" using b(2) by simp
    moreover have "int (pre mod ps) < int ps" using assms(1) by simp
    moreover have "lst mod int ps = ((lst + 1) mod int ps - 1) mod int ps" by (simp add: mod_simps)
    ultimately show ?thesis by simp
  qed
  then have "lst + 1 + int (p - pre) = lst div int ps * int ps + int (p mod ps)"
    using d div_mult_mod_eq [of lst "int ps"] by linarith
  then show ?thesis using True by (simp add: slot_at_def page_of_def)
next
  case False
  then show ?thesis by (simp add: slot_at_def page_of_def)
qed

lemma slot_at_div_mod:
  assumes "0 < ps" "pre \<le> p" "(lst + 1) mod int ps = int pre mod int ps"
  shows "slot_at ps page_at pre lst p div int ps = page_of ps page_at pre lst p"
    "slot_at ps page_at pre lst p mod int ps = int (p mod ps)"
proof -
  have lt: "int (p mod ps) < int ps" using assms(1) by simp
  show "slot_at ps page_at pre lst p div int ps = page_of ps page_at pre lst p"
    using lt by (simp add: slot_at_page [OF assms] del: of_nat_mod)
  show "slot_at ps page_at pre lst p mod int ps = int (p mod ps)"
    using lt by (simp add: slot_at_page [OF assms] del: of_nat_mod)
qed

lemma new_page_index:
  assumes "0 < ps" "p < seq" "ceil_align pre ps \<le> p"
  shows "p div ps - ceil_div pre ps < new_pages ps pre seq" "ceil_div pre ps \<le> p div ps"
proof -
  have "p div ps * ps < ceil_div seq ps * ps"
    using assms(2) ceil_div_bounds(1) [OF assms(1), of seq] div_mult_mod_eq [of p ps] by linarith
  then have lt: "p div ps < ceil_div seq ps" by simp
  show ge: "ceil_div pre ps \<le> p div ps"
    using assms(1,3) by (simp add: ceil_align_def less_eq_div_iff_mult_less_eq)
  then show "p div ps - ceil_div pre ps < new_pages ps pre seq" using lt by (simp add: new_pages_def)
qed

text \<open>The last slots of the prefixes continue them, and no partly filled page is shared or free.\<close>

definition tails_ok :: "nat \<Rightarrow> int list \<Rightarrow> nat list \<Rightarrow> int list \<Rightarrow> bool" where
  "tails_ok ps free pre_lens last_locs \<longleftrightarrow>
     (\<forall>i<length pre_lens. (last_locs ! i + 1) mod int ps = int (pre_lens ! i) mod int ps)
   \<and> (\<forall>i<length pre_lens. pre_lens ! i mod ps \<noteq> 0 \<longrightarrow> last_locs ! i div int ps \<notin> set free)
   \<and> (\<forall>i<length pre_lens. \<forall>j<length pre_lens. i \<noteq> j \<longrightarrow> pre_lens ! i mod ps \<noteq> 0 \<longrightarrow>
        pre_lens ! j mod ps \<noteq> 0 \<longrightarrow> last_locs ! i div int ps \<noteq> last_locs ! j div int ps)"

lemma extend_layout_pairs:
  "extend_layout ps page_at pre_lens seq_lens last_locs =
    map (\<lambda>(i, p). slot_at ps (\<lambda>k. page_at (page_offset ps pre_lens seq_lens i + k)) (pre_lens ! i) (last_locs ! i) p)
      (concat (map (\<lambda>i. map (Pair i) [pre_lens ! i..<seq_lens ! i]) [0..<length pre_lens]))"
  by (simp add: extend_layout_def extend_segment_def [abs_def] map_concat comp_def)

lemma distinct_pairs: "distinct (concat (map (\<lambda>i. map (Pair i) [f i..<g i]) [0..<(n :: nat)]))"
  by (induction n) (auto simp: distinct_map inj_on_def)

lemma new_page_position:
  assumes ok: "batch_ok ps pre_lens seq_lens last_locs"
    and p: "i < length pre_lens" "p < seq_lens ! i" "ceil_align (pre_lens ! i) ps \<le> p"
  shows "page_offset ps pre_lens seq_lens i + (p div ps - ceil_div (pre_lens ! i) ps)
    < page_offset ps pre_lens seq_lens (Suc i)"
  using new_page_index [OF batch_okD(1) [OF ok] p(2,3)] page_offset_Suc [OF batch_okD(2) [OF ok] p(1), of ps]
  by simp

text \<open>Two positions that land on the same slot are the same position.\<close>

lemma slot_at_inj:
  assumes ok: "batch_ok ps pre_lens seq_lens last_locs" and tails: "tails_ok ps free pre_lens last_locs"
    and dist: "distinct free" and enough: "total_new_pages ps pre_lens seq_lens \<le> length free"
    and i: "i < length pre_lens" "pre_lens ! i \<le> p" "p < seq_lens ! i"
    and j: "j < length pre_lens" "pre_lens ! j \<le> q" "q < seq_lens ! j"
    and eq: "slot_at ps (\<lambda>k. free ! (page_offset ps pre_lens seq_lens i + k)) (pre_lens ! i) (last_locs ! i) p
           = slot_at ps (\<lambda>k. free ! (page_offset ps pre_lens seq_lens j + k)) (pre_lens ! j) (last_locs ! j) q"
  shows "i = j \<and> p = q"
proof -
  note ps = batch_okD(1) [OF ok]
  let ?po = "page_offset ps pre_lens seq_lens"
  let ?ki = "p div ps - ceil_div (pre_lens ! i) ps" and ?kj = "q div ps - ceil_div (pre_lens ! j) ps"
  have al: "(last_locs ! i + 1) mod int ps = int (pre_lens ! i) mod int ps"
    "(last_locs ! j + 1) mod int ps = int (pre_lens ! j) mod int ps"
    using tails i(1) j(1) by (simp_all add: tails_ok_def)
  have pg: "page_of ps (\<lambda>k. free ! (?po i + k)) (pre_lens ! i) (last_locs ! i) p
      = page_of ps (\<lambda>k. free ! (?po j + k)) (pre_lens ! j) (last_locs ! j) q"
    and md: "p mod ps = q mod ps"
    using slot_at_div_mod [OF ps i(2) al(1)] slot_at_div_mod [OF ps j(2) al(2)] eq by (metis, metis of_nat_eq_iff)
  have tail: "x < length pre_lens \<Longrightarrow> pre_lens ! x \<le> r \<Longrightarrow> r < ceil_align (pre_lens ! x) ps \<Longrightarrow>
      last_locs ! x div int ps \<notin> set free" for x r
    using tails below_ceil_align(2) [OF ps] unfolding tails_ok_def by blast
  have fresh: "x < length pre_lens \<Longrightarrow> r < seq_lens ! x \<Longrightarrow> ceil_align (pre_lens ! x) ps \<le> r \<Longrightarrow>
      ?po x + (r div ps - ceil_div (pre_lens ! x) ps) < length free" for x r
    using new_page_position [OF ok] page_offset_total [of ps pre_lens seq_lens "Suc x"] enough
    by (meson less_le_trans order_trans)
  have divs: "i = j \<and> p div ps = q div ps"
  proof (cases "p < ceil_align (pre_lens ! i) ps")
    case pt: True
    have qt: "q < ceil_align (pre_lens ! j) ps"
      using pg tail [OF i(1,2) pt] fresh [OF j(1,3)] pt
      by (rule_tac ccontr) (auto simp: page_of_def split: if_splits)
    have "i = j"
      using tails i(1) j(1) pg pt qt below_ceil_align(2) [OF ps i(2) pt] below_ceil_align(2) [OF ps j(2) qt]
      unfolding tails_ok_def page_of_def by auto
    then show ?thesis using below_ceil_align(1) [OF ps i(2) pt] below_ceil_align(1) [OF ps j(2) qt] by simp
  next
    case pn: False
    have qn: "\<not> q < ceil_align (pre_lens ! j) ps"
      using pg tail [OF j(1,2)] fresh [OF i(1,3)] pn
      by (rule_tac notI) (simp add: page_of_def, metis nth_mem)
    have idx: "?po i + ?ki = ?po j + ?kj"
      using pg pn qn fresh [OF i(1,3)] fresh [OF j(1,3)] dist by (simp add: page_of_def nth_eq_iff_index_eq)
    have bi: "?po i + ?ki < ?po (Suc i)" and bj: "?po j + ?kj < ?po (Suc j)"
      using new_page_position [OF ok] i j pn qn by simp_all
    have ij: "i = j"
    proof (rule ccontr)
      assume "i \<noteq> j"
      then consider "Suc i \<le> j" | "Suc j \<le> i" by linarith
      then show False
        using page_offset_mono [of "Suc i" j ps pre_lens seq_lens] page_offset_mono [of "Suc j" i ps pre_lens seq_lens]
          bi bj idx by cases auto
    qed
    moreover have "ceil_div (pre_lens ! i) ps \<le> p div ps" "ceil_div (pre_lens ! j) ps \<le> q div ps"
      using new_page_index(2) [OF ps] i(3) j(3) pn qn by (meson not_less)+
    ultimately show ?thesis using idx by simp
  qed
  then show ?thesis using md div_mult_mod_eq [of p ps] div_mult_mod_eq [of q ps] by metis
qed

lemma extend_layout_distinct:
  assumes "batch_ok ps pre_lens seq_lens last_locs" "tails_ok ps free pre_lens last_locs"
    "distinct free" "total_new_pages ps pre_lens seq_lens \<le> length free"
  shows "distinct (extend_layout ps ((!) free) pre_lens seq_lens last_locs)"
  unfolding extend_layout_pairs distinct_map
  using slot_at_inj [OF assms] distinct_pairs by (fastforce simp: inj_on_def)


subsection \<open>What an allocation takes from the pool\<close>

definition avail :: "kv_alloc \<Rightarrow> int multiset" where
  "avail s = mset (free_pages s) + mset (release_pages s)"

lemma avail_merge [simp]: "avail (merge_and_sort_free s) = avail s"
  by (simp add: avail_def merge_and_sort_free_def)

lemma merge_fields [simp]:
  "page_size (merge_and_sort_free s) = page_size s" "debug_mode (merge_and_sort_free s) = debug_mode s"
  "need_sort (merge_and_sort_free s) = need_sort s"
  "is_not_in_free_group (merge_and_sort_free s) = is_not_in_free_group s"
  "free_group (merge_and_sort_free s) = free_group s" "pool_size (merge_and_sort_free s) = pool_size s"
  by (simp_all add: merge_and_sort_free_def)

lemma merge_all_free: "avail (merge_and_sort_free s) = mset (free_pages (merge_and_sort_free s))"
  by (simp add: avail_def merge_and_sort_free_def)

lemma avail_drop:
  "mset (take n (free_pages s)) + avail (s\<lparr>free_pages := drop n (free_pages s)\<rparr>) = avail s"
  by (simp add: avail_def add.assoc [symmetric] mset_take_drop)

lemma extend_layout_cong:
  assumes ok: "batch_ok ps pre_lens seq_lens last_locs"
    and same: "\<And>k. k < total_new_pages ps pre_lens seq_lens \<Longrightarrow> f k = g k"
  shows "extend_layout ps f pre_lens seq_lens last_locs = extend_layout ps g pre_lens seq_lens last_locs"
proof -
  have "slot_at ps (\<lambda>k. f (page_offset ps pre_lens seq_lens i + k)) (pre_lens ! i) l p
      = slot_at ps (\<lambda>k. g (page_offset ps pre_lens seq_lens i + k)) (pre_lens ! i) l p"
    if "i < length pre_lens" "p < seq_lens ! i" for i p l
  proof (cases "p < ceil_align (pre_lens ! i) ps")
    case True
    then show ?thesis by (simp add: slot_at_def)
  next
    case False
    then have "page_offset ps pre_lens seq_lens i + (p div ps - ceil_div (pre_lens ! i) ps)
        < total_new_pages ps pre_lens seq_lens"
      using new_page_position [OF ok that(1,2)] page_offset_total [of ps pre_lens seq_lens "Suc i"] by simp
    then show ?thesis using same by (simp add: slot_at_def)
  qed
  then show ?thesis unfolding extend_layout_def extend_segment_def
    by (intro arg_cong [where f = concat] map_cong refl) simp
qed

text \<open>The state in which the pages of an extension are taken: sorted first if they may not suffice.\<close>

definition extend_state :: "kv_alloc \<Rightarrow> nat \<Rightarrow> nat \<Rightarrow> kv_alloc" where
  "extend_state s bs extend_num_tokens =
     (if need_sort s \<and> length (free_pages s) < extend_num_tokens div page_size s + bs + 1
      then merge_and_sort_free s else s)"

lemma paged_alloc_extend_eq:
  assumes "batch_ok (page_size s) pre_lens seq_lens last_locs"
    "extend_num_tokens = total_new_tokens pre_lens seq_lens" "\<not> debug_mode s"
  shows "paged_alloc_extend oob garbage s pre_lens seq_lens last_locs extend_num_tokens =
    (let s1 = extend_state s (length pre_lens) extend_num_tokens;
         n = total_new_pages (page_size s) pre_lens seq_lens in
     if length (free_pages s1) < n then Inr (s1, None)
     else Inr (s1\<lparr>free_pages := drop n (free_pages s1)\<rparr>,
       Some (extend_layout (page_size s) ((!) (take n (free_pages s1))) pre_lens seq_lens last_locs)))"
proof -
  let ?s1 = "extend_state s (length pre_lens) extend_num_tokens"
  let ?n = "total_new_pages (page_size s) pre_lens seq_lens"
  have f: "page_size ?s1 = page_size s" "debug_mode ?s1 = debug_mode s" by (simp_all add: extend_state_def)
  have k: "alloc_extend_kernel (page_size s) oob pre_lens seq_lens last_locs free (map garbage [0..<extend_num_tokens])
      = extend_layout (page_size s) (load_page oob free) pre_lens seq_lens last_locs" for free
    using assms(1,2) by (intro alloc_extend_kernel_eq) simp_all
  have l: "extend_layout (page_size s) (load_page oob (free_pages ?s1)) pre_lens seq_lens last_locs
      = extend_layout (page_size s) ((!) (take ?n (free_pages ?s1))) pre_lens seq_lens last_locs"
    if "?n \<le> length (free_pages ?s1)"
    by (rule extend_layout_cong [OF assms(1)]) (use that in \<open>simp add: load_page_def\<close>)
  show ?thesis
    using assms(3) f k l
    unfolding paged_alloc_extend_def Let_def extend_state_def [symmetric]
    by (simp add: get_num_new_pages_def total_new_pages_def [symmetric])
qed

text \<open>An extension of a batch either fails and leaves the pool as it was, exactly when fewer pages
  are free than the batch needs, or takes that many pages out of the pool and lays the new positions
  out on them; the slots do not depend on what the kernel read out of range or found in the
  uninitialised output.\<close>

theorem paged_alloc_extend_spec:
  assumes "batch_ok (page_size s) pre_lens seq_lens last_locs" "\<not> debug_mode s"
  shows "\<exists>s' r. paged_alloc_extend oob garbage s pre_lens seq_lens last_locs
        (total_new_tokens pre_lens seq_lens) = Inr (s', r)
    \<and> (case r of
         None \<Rightarrow> avail s' = avail s \<and> length (free_pages s') < total_new_pages (page_size s) pre_lens seq_lens
       | Some out \<Rightarrow> \<exists>pages. length pages = total_new_pages (page_size s) pre_lens seq_lens
           \<and> mset pages + avail s' = avail s
           \<and> out = extend_layout (page_size s) ((!) pages) pre_lens seq_lens last_locs)"
proof -
  let ?s1 = "extend_state s (length pre_lens) (total_new_tokens pre_lens seq_lens)"
  let ?n = "total_new_pages (page_size s) pre_lens seq_lens"
  have av: "avail ?s1 = avail s" by (simp add: extend_state_def)
  show ?thesis
  proof (cases "length (free_pages ?s1) < ?n")
    case True
    then show ?thesis using paged_alloc_extend_eq [OF assms(1) refl assms(2)] av by (simp add: Let_def)
  next
    case False
    let ?s2 = "?s1\<lparr>free_pages := drop ?n (free_pages ?s1)\<rparr>" and ?pg = "take ?n (free_pages ?s1)"
    have ms: "mset ?pg + avail ?s2 = avail s" using avail_drop [of ?n ?s1] av by simp
    have eq: "paged_alloc_extend oob garbage s pre_lens seq_lens last_locs (total_new_tokens pre_lens seq_lens)
        = Inr (?s2, Some (extend_layout (page_size s) ((!) ?pg) pre_lens seq_lens last_locs))"
      using paged_alloc_extend_eq [OF assms(1) refl assms(2), of oob garbage] False by (simp add: Let_def)
    have "length ?pg = ?n" using False by simp
    then have "\<exists>pages. length pages = ?n \<and> mset pages + avail ?s2 = avail s
        \<and> extend_layout (page_size s) ((!) ?pg) pre_lens seq_lens last_locs
          = extend_layout (page_size s) ((!) pages) pre_lens seq_lens last_locs"
      using ms by blast
    then show ?thesis unfolding eq by simp
  qed
qed

definition example_pool :: kv_alloc where
  "example_pool = paged_init 8 2 False False"

theorem paged_alloc_extend_spec_witness:
  "\<exists>s' out pages. paged_alloc_extend (\<lambda>_. 99) (\<lambda>_. 7) example_pool [3] [6] [4] 3 = Inr (s', Some out)
     \<and> length pages = 1 \<and> out = extend_layout 2 ((!) pages) [3] [6] [4]"
proof -
  have ok: "batch_ok (page_size example_pool) [3] [6] [4]" "\<not> debug_mode example_pool"
    "total_new_tokens [3] [6] = 3" "total_new_pages (page_size example_pool) [3] [6] = 1"
    "page_size example_pool = 2"
    by (simp_all add: example_pool_def paged_init_def paged_clear_def batch_ok_def total_new_tokens_def
        total_new_pages_def ceil_div_def)
  have free: "length (free_pages (extend_state example_pool 1 3)) = 4"
    by (simp add: extend_state_def example_pool_def paged_init_def paged_clear_def)
  show ?thesis
    using paged_alloc_extend_spec [OF ok(1,2), of "\<lambda>_. 99" "\<lambda>_. 7"] free ok(3,4,5)
      paged_alloc_extend_eq [OF ok(1) refl ok(2), of "\<lambda>_. 99" "\<lambda>_. 7"]
    by (auto simp: Let_def)
qed

text \<open>The slots of an extension are pairwise different and every position sits at its own offset
  within a page, provided the prefixes end where their last slots say and their partly filled pages
  are neither shared nor free.\<close>

theorem extend_layout_aligned_distinct:
  assumes "batch_ok ps pre_lens seq_lens last_locs" "tails_ok ps pages pre_lens last_locs"
    "distinct pages" "length pages = total_new_pages ps pre_lens seq_lens"
  shows "distinct (extend_layout ps ((!) pages) pre_lens seq_lens last_locs)
    \<and> (\<forall>i<length pre_lens. map (\<lambda>x. x mod int ps) (extend_segment ps ((!) pages) pre_lens seq_lens last_locs i)
         = map (\<lambda>p. int (p mod ps)) [pre_lens ! i..<seq_lens ! i])"
proof
  show "distinct (extend_layout ps ((!) pages) pre_lens seq_lens last_locs)"
    using extend_layout_distinct [OF assms(1,2,3)] assms(4) by simp
  have "slot_at ps pg (pre_lens ! i) (last_locs ! i) p mod int ps = int (p mod ps)"
    if "i < length pre_lens" "pre_lens ! i \<le> p" for i p pg
    using slot_at_div_mod(2) [OF batch_okD(1) [OF assms(1)] that(2)] assms(2) that(1)
    unfolding tails_ok_def by blast
  then show "\<forall>i<length pre_lens. map (\<lambda>x. x mod int ps) (extend_segment ps ((!) pages) pre_lens seq_lens last_locs i)
         = map (\<lambda>p. int (p mod ps)) [pre_lens ! i..<seq_lens ! i]"
    by (simp add: extend_segment_def)
qed

theorem extend_layout_aligned_distinct_witness:
  "distinct (extend_layout 2 ((!) [7, 9]) [3, 0] [6, 1] [4, -1])"
proof -
  have "tails_ok 2 [7, 9] [3, 0] [4, -1]" by (auto simp: tails_ok_def less_Suc_eq numeral_eq_Suc)
  then show ?thesis
    using extend_layout_aligned_distinct [of 2 "[3, 0]" "[6, 1]" "[4, -1]" "[7, 9]"]
    by (simp add: batch_ok_def total_new_pages_def ceil_div_def)
qed


subsection \<open>The contract of a slot pool\<close>

text \<open>
  The clients of an allocator (batch preparation, verification, request release) see a pool that
  hands out slots and takes them back. \<open>blocks\<close> says which allocation units a list of slots
  occupies: the slots themselves for the token allocator, their pages for the paged one. A history
  of calls keeps the units a client holds.
\<close>

inductive pool_reach ::
  "('s \<Rightarrow> nat \<Rightarrow> 's \<times> int list option) \<Rightarrow> ('s \<Rightarrow> int list \<Rightarrow> 's) \<Rightarrow> (int list \<Rightarrow> int multiset)
     \<Rightarrow> 's \<Rightarrow> 's \<Rightarrow> int multiset \<Rightarrow> bool"
  for alloc :: "'s \<Rightarrow> nat \<Rightarrow> 's \<times> int list option" and free :: "'s \<Rightarrow> int list \<Rightarrow> 's"
    and blocks :: "int list \<Rightarrow> int multiset" and s0 :: 's where
  start: "pool_reach alloc free blocks s0 s0 {#}"
| take: "pool_reach alloc free blocks s0 s held \<Longrightarrow> alloc s n = (s', Some xs)
    \<Longrightarrow> pool_reach alloc free blocks s0 s' (held + blocks xs)"
| refuse: "pool_reach alloc free blocks s0 s held \<Longrightarrow> alloc s n = (s', None)
    \<Longrightarrow> pool_reach alloc free blocks s0 s' held"
| give: "pool_reach alloc free blocks s0 s held \<Longrightarrow> blocks xs \<subseteq># held
    \<Longrightarrow> pool_reach alloc free blocks s0 (free s xs) (held - blocks xs)"

definition simple_mset :: "'a multiset \<Rightarrow> bool" where
  "simple_mset M \<longleftrightarrow> (\<forall>x. count M x \<le> 1)"

lemma simple_mset_union:
  "simple_mset (M + N) \<longleftrightarrow> simple_mset M \<and> simple_mset N \<and> set_mset M \<inter> set_mset N = {}"
proof -
  have "count (M + N) x \<le> 1 \<longleftrightarrow> count M x \<le> 1 \<and> count N x \<le> 1 \<and> \<not> (x \<in># M \<and> x \<in># N)" for x
    unfolding count_union count_greater_zero_iff [symmetric] by linarith
  then show ?thesis unfolding simple_mset_def by blast
qed

lemma simple_mset_mono: "simple_mset N \<Longrightarrow> M \<subseteq># N \<Longrightarrow> simple_mset M"
  unfolding simple_mset_def by (meson mset_subset_eq_count order_trans)

lemma simple_mset_mset [simp]: "simple_mset (mset xs) \<longleftrightarrow> distinct xs"
proof (induction xs)
  case Nil
  then show ?case by (simp add: simple_mset_def)
next
  case (Cons x xs)
  have "simple_mset (mset (x # xs)) \<longleftrightarrow> simple_mset ({#x#} + mset xs)" by simp
  also have "\<dots> \<longleftrightarrow> simple_mset (mset xs) \<and> x \<notin> set xs"
    unfolding simple_mset_union by (auto simp: simple_mset_def)
  finally show ?case using Cons by auto
qed

locale slot_pool =
  fixes alloc :: "'s \<Rightarrow> nat \<Rightarrow> 's \<times> int list option" and free :: "'s \<Rightarrow> int list \<Rightarrow> 's"
    and blocks :: "int list \<Rightarrow> int multiset" and units :: "'s \<Rightarrow> int multiset" and ok :: "'s \<Rightarrow> bool"
  assumes ok_simple: "ok s \<Longrightarrow> simple_mset (units s)"
    and alloc_Some: "ok s \<Longrightarrow> alloc s n = (s', Some xs) \<Longrightarrow> ok s' \<and> blocks xs + units s' = units s"
    and alloc_None: "ok s \<Longrightarrow> alloc s n = (s', None) \<Longrightarrow> ok s' \<and> units s' = units s"
    and free_units: "ok s \<Longrightarrow> simple_mset (units s + blocks xs) \<Longrightarrow>
      ok (free s xs) \<and> units (free s xs) = units s + blocks xs"
begin

lemma conservation:
  assumes "pool_reach alloc free blocks s0 s held" "ok s0"
  shows "ok s \<and> units s + held = units s0"
  using assms
proof (induction rule: pool_reach.induct)
  case start
  then show ?case by simp
next
  case (take s held n s' xs)
  then show ?case using alloc_Some [of s n s' xs] by (simp add: ac_simps)
next
  case (refuse s held n s')
  then show ?case using alloc_None [of s n s'] by simp
next
  case (give s held xs)
  then have s: "ok s" "units s + held = units s0" by auto
  have h: "held = blocks xs + (held - blocks xs)" using give.hyps(2) by simp
  have "simple_mset (units s + blocks xs + (held - blocks xs))"
    using s(2) ok_simple [OF give.prems] h by (metis add.assoc)
  then have "simple_mset (units s + blocks xs)" by (simp add: simple_mset_union)
  from free_units [OF s(1) this] s(2) h show ?case by (metis add.assoc)
qed

lemma no_double_handout:
  assumes "pool_reach alloc free blocks s0 s held" "ok s0" "alloc s n = (s', Some xs)"
  shows "set_mset (blocks xs) \<inter> set_mset held = {} \<and> simple_mset (held + blocks xs)"
proof -
  have c: "ok s' \<and> units s' + (held + blocks xs) = units s0"
    using conservation [OF pool_reach.take [OF assms(1,3)] assms(2)] .
  then have "simple_mset (held + blocks xs)" using ok_simple [OF assms(2)] by (metis simple_mset_union)
  then show ?thesis by (auto simp: simple_mset_union)
qed

end

subsection \<open>Both allocators are slot pools\<close>

definition token_ok :: "kv_alloc \<Rightarrow> bool" where
  "token_ok s \<longleftrightarrow> is_not_in_free_group s \<and> simple_mset (avail s)"

lemma token_alloc_Some:
  assumes "token_alloc s n = (s', Some xs)"
  shows "mset xs + avail s' = avail s" "length xs = n" "is_not_in_free_group s' = is_not_in_free_group s"
proof -
  let ?s1 = "if need_sort s \<and> length (free_pages s) < n then merge_and_sort_free s else s"
  have s': "s' = ?s1\<lparr>free_pages := drop n (free_pages ?s1)\<rparr>" "xs = take n (free_pages ?s1)"
    "n \<le> length (free_pages ?s1)"
    using assms by (auto simp: token_alloc_def Let_def split: if_splits)
  show "mset xs + avail s' = avail s" using avail_drop [of n ?s1] unfolding s'(1,2) by simp
  show "length xs = n" "is_not_in_free_group s' = is_not_in_free_group s" using s' by simp_all
qed

lemma token_alloc_None:
  assumes "token_alloc s n = (s', None)"
  shows "avail s' = avail s" "is_not_in_free_group s' = is_not_in_free_group s"
    "length (free_pages s') < n"
  using assms by (auto simp: token_alloc_def Let_def split: if_splits)

lemma token_free_avail:
  "is_not_in_free_group s \<Longrightarrow> avail (token_free s xs) = avail s + mset xs"
  "is_not_in_free_group (token_free s xs) = is_not_in_free_group s"
  by (auto simp: token_free_def avail_def)

interpretation tp: slot_pool token_alloc token_free mset avail token_ok
proof unfold_locales
  show "simple_mset (avail s)" if "token_ok s" for s using that by (simp add: token_ok_def)
  show "token_ok s' \<and> mset xs + avail s' = avail s"
    if "token_ok s" "token_alloc s n = (s', Some xs)" for s n s' xs
    using that(1) token_alloc_Some [OF that(2)] by (metis simple_mset_union token_ok_def)
  show "token_ok s' \<and> avail s' = avail s" if "token_ok s" "token_alloc s n = (s', None)" for s n s'
    using that(1) token_alloc_None [OF that(2)] by (simp add: token_ok_def)
  show "token_ok (token_free s xs) \<and> avail (token_free s xs) = avail s + mset xs"
    if "token_ok s" "simple_mset (avail s + mset xs)" for s xs
    using that token_free_avail by (simp add: token_ok_def)
qed

definition page_blocks :: "nat \<Rightarrow> int list \<Rightarrow> int multiset" where
  "page_blocks ps xs = mset (unique (map (\<lambda>x. x div int ps) xs))"

text \<open>The paged allocator without debug assertions, which is how it is deployed.\<close>

definition paged_alloc_release :: "kv_alloc \<Rightarrow> nat \<Rightarrow> kv_alloc \<times> int list option" where
  "paged_alloc_release s need = (case paged_alloc s need of Inr r \<Rightarrow> r | Inl _ \<Rightarrow> (s, None))"

definition paged_free_release :: "kv_alloc \<Rightarrow> int list \<Rightarrow> kv_alloc" where
  "paged_free_release s idx = (case paged_free s idx of Inr r \<Rightarrow> r | Inl _ \<Rightarrow> s)"

definition paged_ok :: "nat \<Rightarrow> kv_alloc \<Rightarrow> bool" where
  "paged_ok ps s \<longleftrightarrow> 0 < ps \<and> page_size s = ps \<and> \<not> debug_mode s \<and> is_not_in_free_group s \<and> simple_mset (avail s)"

lemma expand_pages_blocks:
  assumes "0 < ps" "distinct pages"
  shows "page_blocks ps (expand_pages ps pages) = mset pages"
proof -
  have "map (\<lambda>x. x div int ps) (expand_pages ps pages) = concat (map (replicate ps) pages)"
    using assms(1) unfolding expand_pages_def
    by (auto simp: map_concat comp_def map_replicate_trivial [symmetric] intro!: arg_cong [where f = concat])
  moreover have "set (concat (map (replicate ps) pages)) = set pages" using assms(1) by auto
  ultimately have "set_mset (page_blocks ps (expand_pages ps pages)) = set pages"
    by (simp add: page_blocks_def unique_def)
  moreover have "page_blocks ps xs = mset_set (set_mset (page_blocks ps xs))" for xs
    using mset_set_set [of "unique (map (\<lambda>x. x div int ps) xs)"] by (simp add: page_blocks_def unique_def)
  ultimately show ?thesis using assms(2) by (metis mset_set_set)
qed

lemma paged_alloc_release_eq:
  "\<not> debug_mode s \<Longrightarrow> paged_alloc_release s need =
    (let n = need div page_size s;
         s1 = (if need_sort s \<and> length (free_pages s) < n then merge_and_sort_free s else s) in
     if length (free_pages s1) < n then (s1, None)
     else (s1\<lparr>free_pages := drop n (free_pages s1)\<rparr>, Some (expand_pages (page_size s1) (take n (free_pages s1)))))"
  by (simp add: paged_alloc_release_def paged_alloc_def Let_def)

lemma paged_alloc_release_Some:
  assumes "paged_ok ps s" "paged_alloc_release s need = (s', Some xs)"
  shows "paged_ok ps s' \<and> page_blocks ps xs + avail s' = avail s"
proof -
  let ?n = "need div page_size s"
  let ?s1 = "if need_sort s \<and> length (free_pages s) < ?n then merge_and_sort_free s else s"
  have dbg: "\<not> debug_mode s" using assms(1) by (simp add: paged_ok_def)
  have s': "s' = ?s1\<lparr>free_pages := drop ?n (free_pages ?s1)\<rparr>" "xs = expand_pages (page_size ?s1) (take ?n (free_pages ?s1))"
    using assms(2) unfolding paged_alloc_release_eq [OF dbg] by (auto simp: Let_def split: if_splits)
  have sum: "mset (take ?n (free_pages ?s1)) + avail s' = avail s"
    using avail_drop [of ?n ?s1] unfolding s'(1) by simp
  then have "simple_mset (mset (take ?n (free_pages ?s1))) \<and> simple_mset (avail s')"
    using assms(1) unfolding paged_ok_def by (metis simple_mset_union)
  then show ?thesis using assms(1) sum expand_pages_blocks [of ps "take ?n (free_pages ?s1)"]
    unfolding s'(2) by (auto simp: paged_ok_def s'(1))
qed

lemma paged_free_release_avail:
  assumes "paged_ok ps s" "simple_mset (avail s + page_blocks ps xs)"
  shows "paged_ok ps (paged_free_release s xs) \<and> avail (paged_free_release s xs) = avail s + page_blocks ps xs"
proof (cases "xs = []")
  case True
  then show ?thesis using assms(1) by (simp add: paged_free_release_def paged_free_def page_blocks_def unique_def)
next
  case False
  let ?g = "unique (map (\<lambda>x. x div int ps) xs)"
  have eq: "paged_free_release s xs = (if need_sort s then s\<lparr>release_pages := ?g @ release_pages s\<rparr>
      else s\<lparr>free_pages := ?g @ free_pages s\<rparr>)"
    using assms(1) False by (simp add: paged_free_release_def paged_free_def Let_def paged_ok_def)
  then have av: "avail (paged_free_release s xs) = avail s + page_blocks ps xs"
    by (simp add: avail_def page_blocks_def ac_simps)
  then show ?thesis using assms eq unfolding paged_ok_def av by simp
qed

lemma paged_pool: "slot_pool paged_alloc_release paged_free_release (page_blocks ps) avail (paged_ok ps)"
proof unfold_locales
  show "simple_mset (avail s)" if "paged_ok ps s" for s using that by (simp add: paged_ok_def)
  show "paged_ok ps s' \<and> page_blocks ps xs + avail s' = avail s"
    if "paged_ok ps s" "paged_alloc_release s n = (s', Some xs)" for s n s' xs
    by (rule paged_alloc_release_Some [OF that])
  show "paged_ok ps s' \<and> avail s' = avail s"
    if "paged_ok ps s" "paged_alloc_release s n = (s', None)" for s n s'
  proof -
    have "\<not> debug_mode s" using that(1) by (simp add: paged_ok_def)
    then show ?thesis using that by (auto simp: paged_alloc_release_eq Let_def paged_ok_def split: if_splits)
  qed
  show "paged_ok ps (paged_free_release s xs) \<and> avail (paged_free_release s xs) = avail s + page_blocks ps xs"
    if "paged_ok ps s" "simple_mset (avail s + page_blocks ps xs)" for s xs
    by (rule paged_free_release_avail [OF that])
qed

interpretation pp: slot_pool paged_alloc_release paged_free_release "page_blocks ps" avail "paged_ok ps" for ps
  by (rule paged_pool)


subsection \<open>Properties of the pools\<close>

definition all_units :: "nat \<Rightarrow> int list" where
  "all_units n = map int [1..<n + 1]"

lemma all_units_simple: "simple_mset (mset (all_units n))"
  unfolding simple_mset_mset by (simp add: all_units_def distinct_map)

lemma set_all_units: "set (all_units n) = int ` {1..n}"
  unfolding all_units_def by (simp del: upt_Suc) auto

lemma token_init_ok: "token_ok (token_init n srt)" "avail (token_init n srt) = mset (all_units n)"
proof -
  show "avail (token_init n srt) = mset (all_units n)"
    by (simp add: token_init_def token_clear_def avail_def all_units_def)
  then show "token_ok (token_init n srt)" using all_units_simple
    by (simp add: token_ok_def) (simp add: token_init_def token_clear_def)
qed

lemma paged_init_ok:
  assumes "0 < ps"
  shows "paged_ok ps (paged_init n ps srt False)"
    "avail (paged_init n ps srt False) = mset (all_units (n div ps))"
proof -
  show "avail (paged_init n ps srt False) = mset (all_units (n div ps))"
    by (simp add: paged_init_def paged_clear_def avail_def all_units_def)
  then show "paged_ok ps (paged_init n ps srt False)" using all_units_simple assms
    by (simp add: paged_ok_def) (simp add: paged_init_def paged_clear_def)
qed

text \<open>C9 No KV slot of the token allocator is lost or duplicated: after any history of allocations and
  releases, the free slots together with the slots in use are exactly the slots \<open>1..size\<close> the
  allocator started with; the padding slot 0 is never handed out.\<close>

theorem token_pool_conserves_slots:
  assumes "pool_reach token_alloc token_free mset (token_init n srt) s held"
  shows "mset (free_pages s) + mset (release_pages s) + held = mset (all_units n)
    \<and> set_mset held \<subseteq> int ` {1..n} \<and> simple_mset held"
proof -
  have c: "avail s + held = mset (all_units n)"
    using tp.conservation [OF assms token_init_ok(1)] token_init_ok(2) by simp
  then have sub: "held \<subseteq># mset (all_units n)" by (metis mset_subset_eq_add_right)
  then have "simple_mset held" using all_units_simple simple_mset_mono by blast
  moreover have "set_mset held \<subseteq> int ` {1..n}" using set_mset_mono [OF sub] by (simp add: set_all_units)
  ultimately show ?thesis using c by (simp add: avail_def)
qed

text \<open>C19 An allocation that succeeds never returns a page that is still in use, whatever the history
  of the paged allocator.\<close>

theorem paged_pool_no_double_handout:
  assumes "0 < ps" "pool_reach paged_alloc_release paged_free_release (page_blocks ps) (paged_init n ps srt False) s held"
    "paged_alloc_release s need = (s', Some xs)"
  shows "set_mset (page_blocks ps xs) \<inter> set_mset held = {}
    \<and> set_mset (page_blocks ps xs) \<subseteq> int ` {1..n div ps}"
proof -
  note ok = paged_init_ok [OF assms(1), of n srt]
  have "page_blocks ps xs + (avail s' + held) = mset (all_units (n div ps))"
    using pp.conservation [OF pool_reach.take [OF assms(2,3)] ok(1)] ok(2) by (simp add: ac_simps)
  then have "set_mset (page_blocks ps xs) \<subseteq> set (all_units (n div ps))"
    by (metis mset_subset_eq_add_left set_mset_mono set_mset_mset)
  then show ?thesis using pp.no_double_handout [OF assms(2) ok(1) assms(3)] by (simp add: set_all_units)
qed

text \<open>Grouped frees: everything freed between \<^verbatim>\<open>free_group_begin\<close> and \<^verbatim>\<open>free_group_end\<close> is
  returned at the end, in one step, exactly as if the concatenation had been freed at once.\<close>

theorem token_free_group:
  assumes "is_not_in_free_group s" "free_group s = []"
  shows "free_group_end token_free id (fold (\<lambda>xs st. token_free st xs) xss (free_group_begin s))
    = (token_free s (concat xss))\<lparr>free_group := filter (\<lambda>xs. xs \<noteq> []) xss\<rparr>"
proof -
  have "fold (\<lambda>xs st. token_free st xs) xss (s\<lparr>is_not_in_free_group := False, free_group := g\<rparr>)
      = s\<lparr>is_not_in_free_group := False, free_group := g @ filter (\<lambda>xs. xs \<noteq> []) xss\<rparr>" for g
    by (induction xss arbitrary: g) (auto simp: token_free_def)
  moreover have "concat (filter (\<lambda>xs. xs \<noteq> []) xss) = concat xss"
    by (induction xss) auto
  moreover have "filter (\<lambda>xs. xs \<noteq> []) xss = [] \<longleftrightarrow> concat xss = []"
    by (induction xss) auto
  ultimately show ?thesis using assms
    by (simp add: free_group_end_def free_group_begin_def Let_def token_free_def)
qed

lemma token_alloc_example:
  "token_alloc (token_init 4 False) 2 =
     ((token_init 4 False)\<lparr>free_pages := [3, 4]\<rparr>, Some [1, 2])"
  by (simp add: token_alloc_def token_init_def token_clear_def upt_rec numeral_eq_Suc)

theorem token_pool_conserves_slots_witness:
  "mset (free_pages ((token_init 4 False)\<lparr>free_pages := [3, 4]\<rparr>)) + {#1, 2#} = mset (all_units 4)"
proof -
  have "pool_reach token_alloc token_free mset (token_init 4 False)
      ((token_init 4 False)\<lparr>free_pages := [3, 4]\<rparr>) ({#} + mset [1, 2])"
    by (rule pool_reach.take, rule pool_reach.start, rule token_alloc_example)
  from token_pool_conserves_slots [OF this] show ?thesis
    by (simp add: token_init_def token_clear_def)
qed

lemma paged_alloc_example:
  "paged_alloc_release (paged_init 6 2 False False) 2 =
     ((paged_init 6 2 False False)\<lparr>free_pages := [2, 3]\<rparr>, Some [2, 3])"
  by code_simp

lemma paged_alloc_example2:
  "paged_alloc_release ((paged_init 6 2 False False)\<lparr>free_pages := [2, 3]\<rparr>) 4 =
     ((paged_init 6 2 False False)\<lparr>free_pages := []\<rparr>, Some [4, 5, 6, 7])"
  by code_simp

theorem paged_pool_no_double_handout_witness:
  "set_mset (page_blocks 2 [4, 5, 6, 7]) \<inter> set_mset (page_blocks 2 [2, 3]) = {}"
proof -
  have "pool_reach paged_alloc_release paged_free_release (page_blocks 2) (paged_init 6 2 False False)
      ((paged_init 6 2 False False)\<lparr>free_pages := [2, 3]\<rparr>) ({#} + page_blocks 2 [2, 3])"
    by (rule pool_reach.take, rule pool_reach.start, rule paged_alloc_example)
  from paged_pool_no_double_handout [OF _ this paged_alloc_example2] show ?thesis by simp
qed

theorem token_free_group_witness:
  "free_group_end token_free id (fold (\<lambda>xs st. token_free st xs) [[5], [], [6, 7]] (free_group_begin (token_init 4 False)))
    = (token_free (token_init 4 False) [5, 6, 7])\<lparr>free_group := [[5], [6, 7]]\<rparr>"
  using token_free_group [of "token_init 4 False" "[[5], [], [6, 7]]"]
  by (simp add: token_init_def token_clear_def)

end
