(* ===== verification/Dflash_Config.thy ===== *)
theory Dflash_Config
  imports Prelude Complex_Main "HOL-Library.AList"
begin

section \<open>DFLASH sizing and configuration\<close>

text \<open>
  Model of the first half of \<^verbatim>\<open>srt/speculative/dflash_utils.py\<close>: the memory plan for the target
  and draft KV pools, the choice of target layers, and the parsing and validation of the draft
  model's configuration. Bytes and counts are integers (the code tests their sign), gigabytes are
  reals. The environment variable that bounds the estimated decode length is a parameter.
\<close>

subsection \<open>Memory plan\<close>

definition scale_kv_cell_size_per_token_for_dflash ::
  "int \<Rightarrow> int \<Rightarrow> int \<Rightarrow> int option \<Rightarrow> int res" where
  "scale_kv_cell_size_per_token_for_dflash target_cell target_layers draft_layers draft_cell =
     (if target_cell \<le> 0 then Inl ValueError
      else case draft_cell of
        Some d \<Rightarrow> if d \<le> 0 then Inl ValueError else Inr (target_cell + d)
      | None \<Rightarrow>
          if target_layers \<le> 0 \<or> draft_layers \<le> 0 then Inr target_cell
          else Inr ((target_cell * (target_layers + draft_layers) + target_layers - 1) div target_layers))"

record dflash_memory_plan =
  max_mamba_cache_size :: int
  min_required_tokens :: int
  required_rest_memory_gb :: real

definition resolve_dflash_concurrency_required_tokens ::
  "int \<Rightarrow> int \<Rightarrow> int \<Rightarrow> int \<Rightarrow> int res" where
  "resolve_dflash_concurrency_required_tokens clip_estimate max_running page draft_tokens =
     (if max_running \<le> 0 then Inl ValueError
      else if page \<le> 0 then Inl ValueError
      else if draft_tokens < 0 then Inl ValueError
      else Inr (max_running * (page + page + max clip_estimate (2 * draft_tokens))))"

definition resolve_dflash_max_mamba_cache_size :: "int \<Rightarrow> int \<Rightarrow> int option \<Rightarrow> int res" where
  "resolve_dflash_max_mamba_cache_size max_running mamba_ratio explicit =
     (if max_running \<le> 0 then Inl ValueError
      else if mamba_ratio \<le> 0 then Inl ValueError
      else case explicit of
        Some e \<Rightarrow> if e \<le> 0 then Inl ValueError else Inr e
      | None \<Rightarrow> Inr (max_running * mamba_ratio))"

definition resolve_dflash_auto_memory_plan ::
  "int \<Rightarrow> real \<Rightarrow> real \<Rightarrow> int \<Rightarrow> int \<Rightarrow> int \<Rightarrow> int \<Rightarrow> int option \<Rightarrow> int \<Rightarrow> int \<Rightarrow> int \<Rightarrow> int option
     \<Rightarrow> dflash_memory_plan res" where
  "resolve_dflash_auto_memory_plan clip_estimate rest_gb post_load_gb cell_size max_running
       mamba_per_req draft_tokens chunked_prefill max_prefill page mamba_ratio explicit =
     (if cell_size \<le> 0 then Inl ValueError
      else if mamba_per_req \<le> 0 then Inl ValueError
      else if draft_tokens < 0 then Inl ValueError
      else if max_prefill \<le> 0 then Inl ValueError
      else if page \<le> 0 then Inl ValueError
      else rbind (resolve_dflash_max_mamba_cache_size max_running mamba_ratio explicit) (\<lambda>mamba_size.
        let min1 = (case chunked_prefill of Some c \<Rightarrow> if 0 < c then c else max_prefill | None \<Rightarrow> max_prefill);
            min2 = max min1 page in
        rbind (resolve_dflash_concurrency_required_tokens clip_estimate max_running page draft_tokens) (\<lambda>conc.
        let min3 = max min2 conc;
            linear_state_bytes = mamba_per_req * (mamba_size + max_running * draft_tokens);
            required_gb = real_of_int (linear_state_bytes + min3 * cell_size) / 2 ^ 30 in
        if post_load_gb < required_gb then Inl RuntimeError
        else Inr \<lparr>max_mamba_cache_size = mamba_size, min_required_tokens = min3,
                  required_rest_memory_gb = max rest_gb required_gb\<rparr>)))"

subsection \<open>Choosing the target layers\<close>

text \<open>Python's \<^verbatim>\<open>round\<close> of the quotient \<open>a / b\<close> with \<open>0 < b\<close>: to nearest, ties to even.\<close>

definition round_half_even :: "int \<Rightarrow> int \<Rightarrow> int" where
  "round_half_even a b =
     (let q = (2 * a + b) div (2 * b) in
      if (2 * a + b) mod (2 * b) = 0 \<and> odd q then q - 1 else q)"

definition build_target_layer_ids :: "int \<Rightarrow> int \<Rightarrow> int list res" where
  "build_target_layer_ids num_target num_draft =
     (if num_target \<le> 0 then Inl ValueError
      else if num_draft \<le> 0 then Inl ValueError
      else if num_draft = 1 then Inr [num_target div 2]
      else let start = 1; last_id = num_target - 3 in
        if last_id < start then Inl ValueError
        else let span = last_id - start in
          Inr (map (\<lambda>i. round_half_even (start * (num_draft - 1) + int i * span) (num_draft - 1))
                 [0..<nat num_draft]))"

subsection \<open>Configuration values\<close>

text \<open>
  A configuration is a dictionary or an object with attributes; an object may have a method
  \<^verbatim>\<open>get_text_config\<close>, whose result is kept with it (\<^const>\<open>None\<close> when there is no such method or
  calling it without arguments raises TypeError).
\<close>

datatype cval =
    CNone
  | CBool bool
  | CInt int
  | CStr string
  | CList "cval list"
  | CTuple "cval list"
  | CDict "(string \<times> cval) list"
  | CObj "(string \<times> cval) list" "cval option"

definition attr :: "(string \<times> cval) list \<Rightarrow> string \<Rightarrow> cval \<Rightarrow> cval" where
  "attr d k dflt = (case map_of d k of None \<Rightarrow> dflt | Some v \<Rightarrow> v)"

definition cfg_get :: "cval \<Rightarrow> string \<Rightarrow> cval \<Rightarrow> cval" where
  "cfg_get config key dflt =
     (case config of CDict d \<Rightarrow> attr d key dflt | CObj d _ \<Rightarrow> attr d key dflt | _ \<Rightarrow> dflt)"

definition get_text_config :: "cval \<Rightarrow> cval" where
  "get_text_config config =
     (case config of
        CNone \<Rightarrow> CNone
      | CDict d \<Rightarrow> attr d ''text_config'' config
      | CObj d meth \<Rightarrow>
          (if attr d ''text_config'' CNone \<noteq> CNone then attr d ''text_config'' CNone
           else case meth of
             Some resolved \<Rightarrow> if resolved \<noteq> CNone then resolved else config
           | None \<Rightarrow> config)
      | _ \<Rightarrow> config)"

text \<open>\<^verbatim>\<open>dict(cfg)\<close> of a sequence of pairs; anything that is not one yields the empty dictionary.\<close>

definition pair_of :: "cval \<Rightarrow> (string \<times> cval) option" where
  "pair_of v = (case v of
       CList [CStr k, x] \<Rightarrow> Some (k, x)
     | CTuple [CStr k, x] \<Rightarrow> Some (k, x)
     | CStr [a, b] \<Rightarrow> Some ([a], CStr [b])
     | _ \<Rightarrow> None)"

definition dict_of :: "cval list \<Rightarrow> (string \<times> cval) list" where
  "dict_of vs = (if None \<in> set (map pair_of vs) then []
     else fold (\<lambda>v d. AList.update (fst (the (pair_of v))) (snd (the (pair_of v))) d) vs [])"

definition get_dflash_config :: "cval \<Rightarrow> (string \<times> cval) list" where
  "get_dflash_config config =
     (case cfg_get config ''dflash_config'' CNone of
        CNone \<Rightarrow> [] | CDict d \<Rightarrow> d | CList vs \<Rightarrow> dict_of vs | CTuple vs \<Rightarrow> dict_of vs | _ \<Rightarrow> [])"

text \<open>\<^verbatim>\<open>int(value)\<close>: a decimal string may have blanks around it and a sign.\<close>

definition is_blank :: "char \<Rightarrow> bool" where
  "is_blank c \<longleftrightarrow> c \<in> set [CHR '' '', CHR 0x09, CHR 0x0A, CHR 0x0B, CHR 0x0C, CHR 0x0D]"

definition strip :: "string \<Rightarrow> string" where
  "strip s = rev (dropWhile is_blank (rev (dropWhile is_blank s)))"

definition digit :: "char \<Rightarrow> int option" where
  "digit c = (let n = (of_char c :: int) in if 48 \<le> n \<and> n \<le> 57 then Some (n - 48) else None)"

text \<open>Underscores may separate digits.\<close>

fun digits :: "int \<Rightarrow> string \<Rightarrow> int option" where
  "digits acc [] = Some acc"
| "digits acc (c # cs) =
     (case digit c of
        Some d \<Rightarrow> digits (10 * acc + d) cs
      | None \<Rightarrow> if c = CHR ''_'' then (case cs of [] \<Rightarrow> None
                   | c' # cs' \<Rightarrow> (case digit c' of None \<Rightarrow> None | Some d \<Rightarrow> digits (10 * acc + d) cs'))
                else None)"

definition unsigned_int :: "string \<Rightarrow> int option" where
  "unsigned_int s = (case s of [] \<Rightarrow> None | c # cs \<Rightarrow>
     (case digit c of None \<Rightarrow> None | Some d \<Rightarrow> digits d cs))"

definition int_of_string :: "string \<Rightarrow> int option" where
  "int_of_string s = (case strip s of
       [] \<Rightarrow> None
     | c # cs \<Rightarrow> if c = CHR ''-'' then map_option uminus (unsigned_int cs)
                else if c = CHR ''+'' then unsigned_int cs else unsigned_int (c # cs))"

definition py_int :: "cval \<Rightarrow> int res" where
  "py_int v = (case v of
       CInt i \<Rightarrow> Inr i
     | CBool b \<Rightarrow> Inr (if b then 1 else 0)
     | CStr s \<Rightarrow> (case int_of_string s of Some i \<Rightarrow> Inr i | None \<Rightarrow> Inl ValueError)
     | _ \<Rightarrow> Inl TypeError)"

definition parse_optional_int :: "cval \<Rightarrow> int option \<Rightarrow> int option res" where
  "parse_optional_int v min_value =
     (if v = CNone then Inr None
      else case py_int v of
        Inl _ \<Rightarrow> Inl ValueError
      | Inr parsed \<Rightarrow>
          (case min_value of
             Some m \<Rightarrow> if parsed < m then Inl ValueError else Inr (Some parsed)
           | None \<Rightarrow> Inr (Some parsed)))"

subsection \<open>The draft configuration\<close>

record dflash_draft_config =
  num_hidden_layers :: "int option"
  num_target_layers :: "int option"
  block_size :: "int option"
  target_layer_ids :: "int list option"
  mask_token :: string
  mask_token_id :: "int option"

definition DEFAULT_DFLASH_MASK_TOKEN :: string where
  "DEFAULT_DFLASH_MASK_TOKEN = ''<|MASK|>''"

definition require_num_layers :: "dflash_draft_config \<Rightarrow> int res" where
  "require_num_layers c = (case num_hidden_layers c of None \<Rightarrow> Inl ValueError | Some n \<Rightarrow> Inr n)"

definition resolve_block_size :: "dflash_draft_config \<Rightarrow> int option \<Rightarrow> int option" where
  "resolve_block_size c dflt = (if block_size c \<noteq> None then block_size c else dflt)"

definition resolve_target_layer_ids ::
  "dflash_draft_config \<Rightarrow> int \<Rightarrow> int option \<Rightarrow> int list res" where
  "resolve_target_layer_ids c target_num_layers draft_num_layers =
     (if target_num_layers \<le> 0 then Inl ValueError
      else case target_layer_ids c of
        None \<Rightarrow> rbind (case draft_num_layers of None \<Rightarrow> require_num_layers c | Some n \<Rightarrow> Inr n)
                  (\<lambda>n. build_target_layer_ids target_num_layers n)
      | Some resolved \<Rightarrow>
          (if length resolved \<le> 0 then Inl ValueError
           else if \<exists>v\<in>set resolved. v < 0 \<or> target_num_layers \<le> v then Inl ValueError
           else Inr resolved))"

definition parse_layer_ids :: "cval \<Rightarrow> int list option res" where
  "parse_layer_ids v =
     (case v of
        CNone \<Rightarrow> Inr None
      | CList xs \<Rightarrow> rbind (rmap py_int xs) (\<lambda>ids. if ids = [] then Inl ValueError else Inr (Some ids))
      | CTuple xs \<Rightarrow> rbind (rmap py_int xs) (\<lambda>ids. if ids = [] then Inl ValueError else Inr (Some ids))
      | _ \<Rightarrow> Inl ValueError)"

definition parse_mask_token :: "cval \<Rightarrow> string res" where
  "parse_mask_token v =
     (case (if v = CNone then CStr DEFAULT_DFLASH_MASK_TOKEN else v) of
        CStr s \<Rightarrow> if s = [] then Inl ValueError else Inr s
      | _ \<Rightarrow> Inl ValueError)"

definition parse_mask_token_id :: "cval \<Rightarrow> int option res" where
  "parse_mask_token_id v =
     (case v of
        CNone \<Rightarrow> Inr None
      | CInt i \<Rightarrow> if i < 0 then Inl ValueError else Inr (Some i)
      | _ \<Rightarrow> Inl ValueError)"

definition parse_dflash_draft_config :: "cval \<Rightarrow> dflash_draft_config res" where
  "parse_dflash_draft_config config =
     (let cfg = get_dflash_config config; text_cfg = get_text_config config in
      rbind (parse_optional_int (cfg_get text_cfg ''num_hidden_layers'' CNone) (Some 1)) (\<lambda>hidden.
      rbind (parse_optional_int (attr cfg ''num_target_layers'' (cfg_get config ''num_target_layers'' CNone)) (Some 1)) (\<lambda>target.
      rbind (parse_optional_int (attr cfg ''block_size'' (cfg_get config ''block_size'' CNone)) (Some 1)) (\<lambda>block.
      rbind (parse_layer_ids (attr cfg ''target_layer_ids'' (cfg_get config ''target_layer_ids'' CNone))) (\<lambda>ids.
      rbind (parse_mask_token (attr cfg ''mask_token'' CNone)) (\<lambda>tok.
      rbind (parse_mask_token_id (attr cfg ''mask_token_id'' CNone)) (\<lambda>tok_id.
        Inr \<lparr>num_hidden_layers = hidden, num_target_layers = target, block_size = block,
             target_layer_ids = ids, mask_token = tok, mask_token_id = tok_id\<rparr>)))))))"

subsection \<open>Attention backends and projections\<close>

datatype attn_backend = Backend string "attn_backend option"

fun unwrap_backend :: "nat \<Rightarrow> attn_backend \<Rightarrow> attn_backend" where
  "unwrap_backend 0 b = b"
| "unwrap_backend (Suc n) (Backend nm full) =
     (case full of None \<Rightarrow> Backend nm full | Some b \<Rightarrow> unwrap_backend n b)"

definition backend_name :: "attn_backend \<Rightarrow> string" where
  "backend_name b = (case b of Backend nm _ \<Rightarrow> nm)"

definition DFLASH_VERIFY_SKIP_CUSTOM_MASK_BACKENDS :: "string list" where
  "DFLASH_VERIFY_SKIP_CUSTOM_MASK_BACKENDS =
     [''FlashInferAttnBackend'', ''FlashInferMLAAttnBackend'', ''FlashAttentionBackend'',
      ''TRTLLMHAAttnBackend'', ''TRTLLMMLABackend'']"

definition resolve_dflash_verify_mask_policy :: "attn_backend \<Rightarrow> string \<times> bool" where
  "resolve_dflash_verify_mask_policy b =
     (let nm = backend_name (unwrap_backend 4 b) in
      (nm, nm \<notin> set DFLASH_VERIFY_SKIP_CUSTOM_MASK_BACKENDS))"

record qkv_layer =
  quant_method_unquantized :: bool
  has_weight :: bool
  has_bias :: bool

datatype qkv_reason = Eligible | Quantized | WeightMissing | BiasUnsupported

definition can_dflash_slice_qkv_weight :: "qkv_layer \<Rightarrow> bool \<times> qkv_reason" where
  "can_dflash_slice_qkv_weight l =
     (if \<not> quant_method_unquantized l then (False, Quantized)
      else if \<not> has_weight l then (False, WeightMissing) else (True, Eligible))"

definition can_dflash_use_fused_qkv_proj :: "qkv_layer \<Rightarrow> bool \<times> qkv_reason" where
  "can_dflash_use_fused_qkv_proj l =
     (let (eligible, reason) = can_dflash_slice_qkv_weight l in
      if \<not> eligible then (False, reason)
      else if has_bias l then (False, BiasUnsupported) else (True, Eligible))"


subsection \<open>Properties of the memory plan\<close>

text \<open>The scaled cell size is the least integer budget per token that covers the target's bytes
  per layer for all target and draft layers.\<close>

theorem scale_kv_cell_size_least:
  assumes "0 < target_layers" "0 < draft_layers"
    "scale_kv_cell_size_per_token_for_dflash cell target_layers draft_layers None = Inr r"
  shows "cell * (target_layers + draft_layers) \<le> r * target_layers
    \<and> (\<forall>b. cell * (target_layers + draft_layers) \<le> b * target_layers \<longrightarrow> r \<le> b)"
proof -
  let ?x = "cell * (target_layers + draft_layers)"
  have r: "r = (?x + target_layers - 1) div target_layers"
    using assms by (auto simp: scale_kv_cell_size_per_token_for_dflash_def split: if_splits)
  have eq: "r * target_layers + (?x + target_layers - 1) mod target_layers = ?x + target_layers - 1"
    unfolding r by simp
  have lt: "(?x + target_layers - 1) mod target_layers < target_layers"
    "0 \<le> (?x + target_layers - 1) mod target_layers" using assms(1) by simp_all
  have "r \<le> b" if "?x \<le> b * target_layers" for b
  proof -
    have "r * target_layers < (b + 1) * target_layers"
      using that eq lt by (simp add: distrib_right)
    then show ?thesis using assms(1) by simp
  qed
  moreover have "?x \<le> r * target_layers" using eq lt by linarith
  ultimately show ?thesis by blast
qed

theorem scale_kv_cell_size_least_witness:
  "scale_kv_cell_size_per_token_for_dflash 100 36 5 None = Inr 114 \<and> 100 * (36 + 5) \<le> (114 :: int) * 36"
proof -
  have r: "scale_kv_cell_size_per_token_for_dflash 100 36 5 None = Inr 114"
    by (simp add: scale_kv_cell_size_per_token_for_dflash_def)
  then show ?thesis using scale_kv_cell_size_least [OF _ _ r] by simp
qed

text \<open>A memory plan is only returned when it fits: the recurrent state of every cached and
  speculated request plus the KV bytes of the required tokens stay within the memory left after the
  weights are loaded, and the token budget lets every running request hold two pages and two draft
  blocks at once.\<close>

theorem auto_memory_plan_fits:
  assumes "resolve_dflash_auto_memory_plan clip rest post cell running mamba draft chunked prefill page ratio explicit
    = Inr plan"
  shows "running * (2 * page + 2 * draft) \<le> min_required_tokens plan
    \<and> page \<le> min_required_tokens plan
    \<and> real_of_int (mamba * (max_mamba_cache_size plan + running * draft)
        + min_required_tokens plan * cell) \<le> post * 2 ^ 30
    \<and> real_of_int (mamba * (max_mamba_cache_size plan + running * draft)
        + min_required_tokens plan * cell) \<le> required_rest_memory_gb plan * 2 ^ 30"
proof -
  from assms obtain mm conc where mm: "resolve_dflash_max_mamba_cache_size running ratio explicit = Inr mm"
    and conc: "resolve_dflash_concurrency_required_tokens clip running page draft = Inr conc"
    unfolding resolve_dflash_auto_memory_plan_def
    by (auto simp: rbind_eq_Inr Let_def split: if_splits)
  define mn where "mn = max (max (case chunked of Some c \<Rightarrow> if 0 < c then c else prefill | None \<Rightarrow> prefill) page) conc"
  define rq where "rq = real_of_int (mamba * (mm + running * draft) + mn * cell) / 2 ^ 30"
  have plan: "plan = \<lparr>max_mamba_cache_size = mm, min_required_tokens = mn,
      required_rest_memory_gb = max rest rq\<rparr>" and fit: "rq \<le> post"
    using assms mm conc unfolding resolve_dflash_auto_memory_plan_def mn_def rq_def
    by (auto simp: Let_def split: if_splits)
  have pos: "0 < running" and cv: "conc = running * (page + page + max clip (2 * draft))"
    using conc by (auto simp: resolve_dflash_concurrency_required_tokens_def split: if_splits)
  have "running * (2 * page + 2 * draft) \<le> conc" unfolding cv using pos by (intro mult_left_mono) auto
  moreover have "conc \<le> mn" "page \<le> mn" by (simp_all add: mn_def)
  moreover have "real_of_int (mamba * (mm + running * draft) + mn * cell) = rq * 2 ^ 30" by (simp add: rq_def)
  ultimately show ?thesis using fit unfolding plan by simp
qed

theorem auto_memory_plan_fits_witness:
  "\<exists>plan. resolve_dflash_auto_memory_plan 16 1 2 8 2 4 8 None 64 1 2 None = Inr plan
     \<and> 2 * (2 * 1 + 2 * 8) \<le> min_required_tokens plan"
proof -
  obtain plan where p: "resolve_dflash_auto_memory_plan 16 1 2 8 2 4 8 None 64 1 2 None = Inr plan"
    by (simp add: resolve_dflash_auto_memory_plan_def resolve_dflash_max_mamba_cache_size_def
        resolve_dflash_concurrency_required_tokens_def)
  then show ?thesis using auto_memory_plan_fits [OF p] by auto
qed

subsection \<open>Properties of the layer selection\<close>

lemma round_half_even_mono:
  assumes "0 < b" "a \<le> a'" shows "round_half_even a b \<le> round_half_even a' b"
proof -
  let ?q = "(2 * a + b) div (2 * b)" and ?q' = "(2 * a' + b) div (2 * b)"
  have le: "?q \<le> ?q'" using assms by (intro zdiv_mono1) auto
  show ?thesis
  proof (cases "?q = ?q' \<and> (2 * a' + b) mod (2 * b) = 0")
    case True
    then have "2 * a' + b = ?q * (2 * b)" by (metis add.right_neutral div_mult_mod_eq)
    moreover have "?q * (2 * b) \<le> 2 * a + b"
      using div_mult_mod_eq [of "2 * a + b" "2 * b"] pos_mod_sign [of "2 * b" "2 * a + b"] assms(1) by linarith
    ultimately have "a' = a" using assms(2) by linarith
    then show ?thesis by simp
  next
    case False
    then show ?thesis using le by (auto simp: round_half_even_def Let_def)
  qed
qed

lemma round_half_even_exact: "0 < b \<Longrightarrow> round_half_even (k * b) b = k"
proof -
  assume b: "0 < b"
  have "(2 * (k * b) + b) div (2 * b) = k" "(2 * (k * b) + b) mod (2 * b) = b"
    using b int_div_pos_eq [of "2 * (k * b) + b" "2 * b" k b] int_mod_pos_eq [of "2 * (k * b) + b" "2 * b" k b]
    by (simp_all add: algebra_simps)
  then show ?thesis using b by (simp add: round_half_even_def)
qed

lemma round_half_even_bounds:
  assumes "0 < b" "k * b \<le> a" "a \<le> m * b"
  shows "k \<le> round_half_even a b" "round_half_even a b \<le> m"
  using round_half_even_mono [OF assms(1,2)] round_half_even_mono [OF assms(1,3)]
  by (simp_all add: round_half_even_exact [OF assms(1)])

text \<open>The selected target layers: as many as the draft has layers, in ascending order, all of them
  layers of the target; with two or more draft layers they run from layer 1 to layer \<open>n - 3\<close>.\<close>

theorem build_target_layer_ids_valid:
  assumes "build_target_layer_ids t d = Inr ids"
  shows "length ids = nat d \<and> sorted ids \<and> (\<forall>i\<in>set ids. 0 \<le> i \<and> i < t)
    \<and> (2 \<le> d \<longrightarrow> hd ids = 1 \<and> List.last ids = t - 3)"
proof (cases "d = 1")
  case True
  then show ?thesis using assms by (auto simp: build_target_layer_ids_def split: if_splits)
next
  case False
  let ?f = "\<lambda>i. round_half_even ((d - 1) + int i * (t - 4)) (d - 1)"
  have d: "2 \<le> d" "4 \<le> t" and ids: "ids = map ?f [0..<nat d]"
    using assms False by (auto simp: build_target_layer_ids_def Let_def split: if_splits)
  have b: "0 < d - 1" using d by simp
  have mono: "sorted ids" unfolding ids
    using d b by (auto simp: sorted_iff_nth_mono intro!: round_half_even_mono mult_right_mono)
  have rng: "1 \<le> ?f i \<and> ?f i \<le> t - 3" if "i < nat d" for i
  proof -
    have "int i * (t - 4) \<le> (d - 1) * (t - 4)" using that d by (intro mult_right_mono) auto
    then have "(d - 1) + int i * (t - 4) \<le> (t - 3) * (d - 1)" by (simp add: algebra_simps)
    moreover have "1 * (d - 1) \<le> (d - 1) + int i * (t - 4)" using d by simp
    ultimately show ?thesis using round_half_even_bounds [OF b, of 1 _ "t - 3"] by simp
  qed
  have hd: "hd ids = 1" using d round_half_even_exact [OF b, of 1] by (simp add: ids hd_map)
  have "List.last ids = ?f (nat d - 1)" using d by (simp add: ids last_map)
  also have "\<dots> = round_half_even ((t - 3) * (d - 1)) (d - 1)"
    using d by (intro arg_cong2 [where f = round_half_even]) (auto simp: algebra_simps)
  finally have lst: "List.last ids = t - 3" by (simp add: round_half_even_exact [OF b])
  have "\<forall>i\<in>set ids. 0 \<le> i \<and> i < t"
  proof
    fix x assume "x \<in> set ids"
    then obtain i where "i < nat d" "x = ?f i" by (auto simp: ids)
    then show "0 \<le> x \<and> x < t" using rng [of i] by linarith
  qed
  then show ?thesis using mono hd lst by (simp add: ids)
qed

theorem build_target_layer_ids_valid_witness:
  "build_target_layer_ids 36 5 = Inr [1, 9, 17, 25, 33] \<and> sorted [1, 9, 17, 25, 33 :: int]"
proof -
  have b: "build_target_layer_ids 36 5 = Inr [1, 9, 17, 25, 33]" by code_simp
  then show ?thesis using build_target_layer_ids_valid [OF b] by simp
qed

text \<open>Whatever a checkpoint's configuration says, the layer ids the runtime works with are
  non-empty and name layers of the target model; everything else is rejected with ValueError.\<close>

theorem resolve_target_layer_ids_valid:
  "case resolve_target_layer_ids c t d of
     Inl e \<Rightarrow> e = ValueError
   | Inr ids \<Rightarrow> ids \<noteq> [] \<and> list_all (\<lambda>i. 0 \<le> i \<and> i < t) ids"
proof (cases "target_layer_ids c")
  case None
  show ?thesis
  proof (cases "resolve_target_layer_ids c t d")
    case (Inl e)
    then show ?thesis using None
      by (auto simp: resolve_target_layer_ids_def require_num_layers_def build_target_layer_ids_def Let_def
          rbind_eq_Inl split: option.splits if_splits)
  next
    case (Inr ids)
    then obtain n where b: "build_target_layer_ids t n = Inr ids"
      using None by (auto simp: resolve_target_layer_ids_def rbind_eq_Inr split: if_splits)
    then have "0 < n" by (auto simp: build_target_layer_ids_def split: if_splits)
    then show ?thesis using build_target_layer_ids_valid [OF b] Inr by (auto simp: list_all_iff)
  qed
next
  case (Some ids)
  then show ?thesis by (auto simp: resolve_target_layer_ids_def list_all_iff)
qed

subsection \<open>Properties of the parser\<close>

lemma parse_optional_int_min:
  "parse_optional_int v (Some m) = Inr (Some n) \<Longrightarrow> m \<le> n"
  by (auto simp: parse_optional_int_def split: if_splits sum.splits)

definition config_valid :: "dflash_draft_config \<Rightarrow> bool" where
  "config_valid c \<longleftrightarrow>
     (\<forall>n\<in>set_option (num_hidden_layers c). 1 \<le> n) \<and> (\<forall>n\<in>set_option (num_target_layers c). 1 \<le> n)
   \<and> (\<forall>n\<in>set_option (block_size c). 1 \<le> n) \<and> target_layer_ids c \<noteq> Some [] \<and> mask_token c \<noteq> []
   \<and> (\<forall>n\<in>set_option (mask_token_id c). 0 \<le> n)"

text \<open>A parsed draft configuration is well formed: sizes are positive, the layer list is not empty,
  the mask token is a non-empty string and its id, when present, is not negative.\<close>

theorem parse_dflash_draft_config_valid:
  assumes "parse_dflash_draft_config config = Inr c" shows "config_valid c"
proof -
  have ids: "parse_layer_ids v \<noteq> Inr (Some [])" for v
    by (auto simp: parse_layer_ids_def rbind_eq_Inr split: cval.splits if_splits)
  have tok: "parse_mask_token v \<noteq> Inr []" for v
    by (auto simp: parse_mask_token_def split: cval.splits if_splits)
  have tid: "parse_mask_token_id v = Inr (Some n) \<Longrightarrow> 0 \<le> n" for v n
    by (auto simp: parse_mask_token_id_def split: cval.splits if_splits)
  show ?thesis using assms parse_optional_int_min ids tok tid
    unfolding parse_dflash_draft_config_def config_valid_def Let_def rbind_eq_Inr
    by (auto simp: elem_set)
qed

theorem parse_dflash_draft_config_valid_witness:
  "\<exists>c. parse_dflash_draft_config (CDict [(''num_hidden_layers'', CInt 5), (''block_size'', CStr ''16'')]) = Inr c
     \<and> block_size c = Some 16 \<and> config_valid c"
proof -
  let ?c = "\<lparr>num_hidden_layers = Some 5, num_target_layers = None, block_size = Some 16,
      target_layer_ids = None, mask_token = ''<|MASK|>'', mask_token_id = None\<rparr>"
  have c: "parse_dflash_draft_config (CDict [(''num_hidden_layers'', CInt 5), (''block_size'', CStr ''16'')]) = Inr ?c"
    by code_simp
  show ?thesis using parse_dflash_draft_config_valid [OF c] c by (intro exI [of _ ?c]) simp
qed

end
