(* ===== verification/Dflash_Accept.thy ===== *)
theory Dflash_Accept
  imports Prelude Complex_Main "HOL-Library.AList"
begin

section \<open>Accepting draft tokens\<close>

text \<open>
  Model of the second half of \<^verbatim>\<open>srt/speculative/dflash_utils.py\<close>: the logit adjustments before
  verification, the greedy and the sampling acceptance rules, the cached chain buffers and the
  teacher log-probabilities of the draft candidates.

  A tensor of rank two is a list of rows; a rank-two tensor of logits has one row per draft
  position, \<open>draft_token_num\<close> rows per request. Floating-point numbers are reals. The CUDA kernels
  of \<^verbatim>\<open>sgl_kernel\<close> and \<^verbatim>\<open>torch.topk\<close>, whose order of equal elements is not specified, are fields
  of the parameter \<open>kernels\<close>; the penalizer, the grammar mask and the custom logit processors are
  functions stored in the sampling info.
\<close>

type_synonym matrix = "real list list"

record sampling_info =
  temperatures :: "real list"
  top_ks :: "int list"
  top_ps :: "real list"
  is_all_greedy :: bool
  need_top_k_sampling :: bool
  need_top_p_sampling :: bool
  has_custom_logit_processor :: bool
  custom_logit_processor :: "((matrix \<Rightarrow> nat list \<Rightarrow> matrix) \<times> bool list) list"
  acc_linear_penalties :: "matrix option"
  penalizer_orchestrator :: "(bool \<times> (matrix \<Rightarrow> matrix)) option"
  vocab_mask :: "(matrix \<Rightarrow> matrix) option"
  logit_bias :: "matrix option"

subsection \<open>Logit adjustments\<close>

definition repeat_interleave :: "nat \<Rightarrow> 'a list \<Rightarrow> 'a list" where
  "repeat_interleave n xs = concat (map (replicate n) xs)"

definition add_rows :: "matrix \<Rightarrow> matrix \<Rightarrow> matrix" where
  "add_rows A B = map2 (map2 (+)) A B"

text \<open>\<^verbatim>\<open>logits[mask] = rows\<close>.\<close>

fun masked_assign :: "bool list \<Rightarrow> 'a list \<Rightarrow> 'a list \<Rightarrow> 'a list" where
  "masked_assign (True # ms) (v # vs) (x # xs) = v # masked_assign ms vs xs"
| "masked_assign (False # ms) vs (x # xs) = x # masked_assign ms vs xs"
| "masked_assign ms vs xs = xs"

definition apply_processor ::
  "nat \<Rightarrow> nat \<Rightarrow> matrix \<Rightarrow> (matrix \<Rightarrow> nat list \<Rightarrow> matrix) \<times> bool list \<Rightarrow> matrix res" where
  "apply_processor bs n logits pm =
     (case pm of (processor, batch_mask) \<Rightarrow>
        if length batch_mask \<noteq> bs then Inl AssertionError
        else let mask = repeat_interleave n batch_mask in
          Inr (masked_assign mask (processor (select mask logits) (true_indices batch_mask)) logits))"

definition apply_custom_logit_processor :: "matrix \<Rightarrow> sampling_info \<Rightarrow> nat \<Rightarrow> matrix res" where
  "apply_custom_logit_processor logits si n =
     (let bs = length (temperatures si) in
      if length logits \<noteq> bs * n then Inl AssertionError
      else rfold (apply_processor bs n) logits (custom_logit_processor si))"

definition penalizer_required :: "sampling_info \<Rightarrow> bool" where
  "penalizer_required si = (case penalizer_orchestrator si of None \<Rightarrow> False | Some (req, _) \<Rightarrow> req)"

definition apply_logits_bias :: "sampling_info \<Rightarrow> matrix \<Rightarrow> matrix" where
  "apply_logits_bias si logits =
     (let l1 = (case acc_linear_penalties si of None \<Rightarrow> logits | Some p \<Rightarrow> add_rows logits p);
          l2 = (case penalizer_orchestrator si of None \<Rightarrow> l1 | Some (req, f) \<Rightarrow> if req then f l1 else l1);
          l3 = (case vocab_mask si of None \<Rightarrow> l2 | Some f \<Rightarrow> f l2)
      in case logit_bias si of None \<Rightarrow> l3 | Some b \<Rightarrow> add_rows l3 b)"

definition row_width :: "matrix \<Rightarrow> nat" where
  "row_width m = (case m of [] \<Rightarrow> 0 | r # _ \<Rightarrow> length r)"

definition apply_dflash_verify_logits_adjustments ::
  "matrix \<Rightarrow> sampling_info option \<Rightarrow> int \<Rightarrow> matrix res" where
  "apply_dflash_verify_logits_adjustments logits sinfo draft_token_num =
     (case sinfo of None \<Rightarrow> Inr logits
      | Some si \<Rightarrow>
        if draft_token_num \<le> 0 then Inl ValueError
        else let bs = length (temperatures si); n = nat draft_token_num in
        if length logits \<noteq> bs * n then Inl ValueError
        else rbind (if has_custom_logit_processor si then apply_custom_logit_processor logits si n
                    else Inr logits) (\<lambda>l0.
          if (penalizer_required si \<and> acc_linear_penalties si = None) \<or> vocab_mask si \<noteq> None
          then let linear_penalty = apply_logits_bias si (replicate bs (replicate (row_width logits) 0))
               in Inr (add_rows l0 (repeat_interleave n linear_penalty))
          else let l1 = (case acc_linear_penalties si of None \<Rightarrow> l0
                         | Some p \<Rightarrow> add_rows l0 (repeat_interleave n p))
               in Inr (case logit_bias si of None \<Rightarrow> l1
                       | Some b \<Rightarrow> add_rows l1 (repeat_interleave n b))))"

subsection \<open>The chain buffers\<close>

record chain_buffers =
  cap_bs :: nat
  retrieve_index :: "int list list"
  retrieve_next_token :: "int list list"
  retrieve_next_sibling :: "int list list"
  predicts :: "int list"
  accept_index :: "int list list"
  accept_token_num :: "int list"

type_synonym chain_cache = "((int option \<times> nat) \<times> chain_buffers) list"

definition new_chain_buffers :: "(nat \<Rightarrow> int) \<Rightarrow> nat \<Rightarrow> nat \<Rightarrow> chain_buffers" where
  "new_chain_buffers garbage cap n =
     \<lparr>cap_bs = cap,
      retrieve_index = rows cap n (map int [0..<cap * n]),
      retrieve_next_token = replicate cap ((map int [1..<n + 1])[n - 1 := -1]),
      retrieve_next_sibling = replicate cap (replicate n (-1)),
      predicts = map garbage [0..<cap * n],
      accept_index = rows cap n (map garbage [0..<cap * n]),
      accept_token_num = map garbage [0..<cap]\<rparr>"

definition get_or_create_chain_verify_buffers ::
  "(nat \<Rightarrow> int) \<Rightarrow> chain_cache \<Rightarrow> nat \<Rightarrow> nat \<Rightarrow> int option \<Rightarrow> (chain_cache \<times> chain_buffers) res" where
  "get_or_create_chain_verify_buffers garbage cache bs draft_token_num device =
     (let key = (device, draft_token_num);
          cached = map_of cache key;
          cap = (case cached of None \<Rightarrow> 0 | Some b \<Rightarrow> cap_bs b)
      in rbind
          (if cap < bs
           then (if draft_token_num = 0 then Inl IndexError
                 else let new_cap = max bs (if 0 < cap then cap * 2 else bs);
                          b = new_chain_buffers garbage new_cap draft_token_num
                      in Inr (AList.update key b cache, Some b))
           else Inr (cache, cached))
          (\<lambda>(cache', b). case b of
             None \<Rightarrow> Inl AssertionError
           | Some c \<Rightarrow> Inr (cache',
               \<lparr>cap_bs = cap_bs c, retrieve_index = take bs (retrieve_index c),
                retrieve_next_token = take bs (retrieve_next_token c),
                retrieve_next_sibling = take bs (retrieve_next_sibling c),
                predicts = take (bs * draft_token_num) (predicts c),
                accept_index = take bs (accept_index c),
                accept_token_num = take bs (accept_token_num c)\<rparr>)))"

subsection \<open>The greedy rule\<close>

text \<open>\<^verbatim>\<open>cumprod\<close> along a row.\<close>

fun cumprod :: "'a::times \<Rightarrow> 'a list \<Rightarrow> 'a list" where
  "cumprod p [] = []"
| "cumprod p (x # xs) = p * x # cumprod (p * x) xs"

definition row_matches :: "int list \<Rightarrow> int list \<Rightarrow> bool list" where
  "row_matches cand target = map2 (=) (tl cand) (butlast target)"

definition row_accept_len :: "int list \<Rightarrow> int list \<Rightarrow> nat" where
  "row_accept_len cand target =
     nat (sum_list (cumprod 1 (map (\<lambda>b. if b then 1 else 0) (row_matches cand target))))"

definition compute_dflash_accept_len_and_bonus ::
  "int list list \<Rightarrow> int list list \<Rightarrow> (nat list \<times> int list) res" where
  "compute_dflash_accept_len_and_bonus candidates target_predict =
     (if map length target_predict \<noteq> map length candidates then Inl ValueError
      else if candidates = [] then Inl ValueError
      else if length (hd candidates) = 0 then Inl ValueError
      else let accept_len = map2 row_accept_len candidates target_predict
           in Inr (accept_len, map2 (!) target_predict accept_len))"

subsection \<open>Log-probabilities of the candidates\<close>

record kernels =
  top_k_renorm_prob :: "matrix \<Rightarrow> int list \<Rightarrow> matrix"
  top_p_renorm_prob :: "matrix \<Rightarrow> real list \<Rightarrow> matrix"
  topk :: "nat \<Rightarrow> real list \<Rightarrow> (real \<times> nat) list"
  tree_speculative_sampling_target_only ::
    "int list list \<Rightarrow> chain_buffers \<Rightarrow> matrix \<Rightarrow> real list \<Rightarrow> matrix list \<Rightarrow> matrix list \<Rightarrow> real \<Rightarrow> real
       \<Rightarrow> int list \<times> int list list \<times> int list"

definition softmax :: "real list \<Rightarrow> real list" where
  "softmax xs = map (\<lambda>x. exp x / (\<Sum>y\<leftarrow>xs. exp y)) xs"

definition log_softmax :: "real list \<Rightarrow> real list" where
  "log_softmax xs = map (\<lambda>x. x - ln (\<Sum>y\<leftarrow>xs. exp y)) xs"

definition scale_rows :: "matrix \<Rightarrow> real list \<Rightarrow> matrix" where
  "scale_rows logits temps = map2 (\<lambda>row t. map (\<lambda>x. x / t) row) logits temps"

text \<open>\<^verbatim>\<open>gather\<close> of one entry per row; an index outside the vocabulary raises IndexError.\<close>

definition gather1 :: "real list \<Rightarrow> int \<Rightarrow> real res" where
  "gather1 row i = (if 0 \<le> i \<and> nat i < length row then Inr (row ! nat i) else Inl IndexError)"

definition gather_rows :: "matrix \<Rightarrow> int list \<Rightarrow> real list res" where
  "gather_rows rs is = rmap (\<lambda>(r, i). gather1 r i) (zip rs is)"

definition compute_dflash_candidate_logprobs ::
  "kernels option \<Rightarrow> real \<Rightarrow> int list list \<Rightarrow> nat \<Rightarrow> matrix \<Rightarrow> sampling_info option \<Rightarrow> bool \<Rightarrow> matrix res" where
  "compute_dflash_candidate_logprobs kern tiny candidates n logits sinfo use_sampling =
     (let bs = length candidates in
      if length logits \<noteq> bs * n then Inl ValueError
      else if n \<le> 1 then Inr (replicate bs [])
      else rbind
        (if use_sampling then
           (case sinfo of None \<Rightarrow> Inl ValueError
            | Some si \<Rightarrow> (case kern of None \<Rightarrow> Inl RuntimeError
              | Some k \<Rightarrow>
                let p0 = map softmax (scale_rows logits (repeat_interleave n (temperatures si)));
                    p1 = (if need_top_k_sampling si
                          then top_k_renorm_prob k p0 (repeat_interleave n (top_ks si)) else p0);
                    p2 = (if need_top_p_sampling si
                          then top_p_renorm_prob k p1 (repeat_interleave n (top_ps si)) else p1)
                in Inr (map (map (\<lambda>p. ln (max p tiny))) p2)))
         else Inr (map log_softmax logits))
        (\<lambda>lp. rmap (\<lambda>(c, rs). gather_rows (butlast rs) (tl c)) (zip candidates (rows bs n lp))))"


subsection \<open>The sampling rule\<close>

text \<open>Softmax of a row in which the entries that are not valid are minus infinity.\<close>

definition masked_softmax :: "bool list \<Rightarrow> real list \<Rightarrow> real list" where
  "masked_softmax vs xs =
     map2 (\<lambda>v x. if v then exp x / (\<Sum>y\<leftarrow>select vs xs. exp y) else 0) vs xs"

definition scatter_row :: "nat \<Rightarrow> nat list \<Rightarrow> real list \<Rightarrow> real list" where
  "scatter_row vocab idx ps = fold (\<lambda>(i, p) row. row[i := p]) (zip idx ps) (replicate vocab 0)"

text \<open>Python's \<^verbatim>\<open>xs[i]\<close> with negative indices counted from the end.\<close>

definition py_index :: "'a list \<Rightarrow> int \<Rightarrow> 'a res" where
  "py_index xs i =
     (if 0 \<le> i \<and> nat i < length xs then Inr (xs ! nat i)
      else if i < 0 \<and> - int (length xs) \<le> i then Inr (xs ! nat (int (length xs) + i))
      else Inl IndexError)"

text \<open>The target distribution over all verify rows: sparse top-k first when it applies, else dense.\<close>

definition target_distribution ::
  "kernels \<Rightarrow> matrix \<Rightarrow> nat \<Rightarrow> sampling_info \<Rightarrow> int option \<Rightarrow> int option \<Rightarrow> bool \<Rightarrow> matrix" where
  "target_distribution k logits n si max_top_k uniform_top_k use_sparse =
     (let scaled = scale_rows logits (repeat_interleave n (temperatures si));
          vocab = row_width scaled;
          rep_ks = map (\<lambda>x. min (max x 1) (int vocab)) (repeat_interleave n (top_ks si));
          m0 = (case max_top_k of None \<Rightarrow> Max (set rep_ks) | Some m \<Rightarrow> m);
          m = (if m0 < 1 then 1 else if int vocab < m0 then int vocab else m0)
      in if use_sparse \<and> need_top_k_sampling si \<and> 0 < m \<and> m < int vocab then
           let top = map (topk k (nat m)) scaled;
               valid = map (\<lambda>rk. if uniform_top_k = Some m then replicate (nat m) True
                                 else map (\<lambda>r. int r < rk) [0..<nat m]) rep_ks;
               p0 = map2 (\<lambda>v row. masked_softmax v (map fst row)) valid top;
               p1 = (if need_top_p_sampling si
                     then top_p_renorm_prob k p0 (repeat_interleave n (top_ps si)) else p0)
           in map2 (\<lambda>row ps. scatter_row vocab (map snd row) ps) top p1
         else
           let p0 = map softmax scaled;
               p1 = (if need_top_k_sampling si
                     then top_k_renorm_prob k p0 (repeat_interleave n (top_ks si)) else p0)
           in if need_top_p_sampling si
              then top_p_renorm_prob k p1 (repeat_interleave n (top_ps si)) else p1)"

definition compute_dflash_sampling_accept_len_and_bonus ::
  "kernels option \<Rightarrow> (nat \<Rightarrow> int) \<Rightarrow> chain_cache \<Rightarrow> int option \<Rightarrow> real \<Rightarrow> real \<Rightarrow> matrix \<Rightarrow> real list
     \<Rightarrow> int list list \<Rightarrow> nat \<Rightarrow> matrix \<Rightarrow> sampling_info \<Rightarrow> int option \<Rightarrow> int option \<Rightarrow> bool
     \<Rightarrow> (chain_cache \<times> int list \<times> int list) res" where
  "compute_dflash_sampling_accept_len_and_bonus kern garbage cache device threshold_single threshold_acc
       uniform uniform_final candidates n logits si max_top_k uniform_top_k use_sparse =
     (case kern of None \<Rightarrow> Inl RuntimeError
      | Some k \<Rightarrow>
        let bs = length candidates in
        if bs \<le> 0 then Inl ValueError
        else if n \<le> 0 then Inl ValueError
        else if length logits \<noteq> bs * n then Inl ValueError
        else if map length uniform \<noteq> replicate bs n then Inl ValueError
        else if length uniform_final \<noteq> bs then Inl ValueError
        else
          let probs = target_distribution k logits n si max_top_k uniform_top_k use_sparse;
              target_probs = rows bs n probs;
              draft_probs = map (map (map (\<lambda>_. 0))) target_probs in
          rbind (get_or_create_chain_verify_buffers garbage cache bs n device) (\<lambda>(cache', bufs).
          let (pred, acc_idx, acc_num) = tree_speculative_sampling_target_only k candidates bufs uniform
                uniform_final target_probs draft_probs threshold_single (max threshold_acc (1 / 10 ^ 9)) in
          rbind (rmap (\<lambda>(r, a). py_index r a) (zip acc_idx acc_num)) (\<lambda>accept_pos.
          rbind (rmap (py_index pred) accept_pos) (\<lambda>bonus.
          Inr (cache', acc_num, bonus)))))"

subsection \<open>The greedy rule accepts the longest matching prefix\<close>

lemma cumprod_0: "sum_list (cumprod (0 :: int) xs) = 0"
  by (induction xs) auto

lemma sum_cumprod: "sum_list (cumprod (1 :: int) (map (\<lambda>b. if b then 1 else 0) bs)) = int (length (takeWhile id bs))"
  by (induction bs) (auto simp: cumprod_0)

lemma row_accept_len_takeWhile: "row_accept_len c t = length (takeWhile id (row_matches c t))"
  by (simp add: row_accept_len_def sum_cumprod)

lemma length_row_matches: "length t = length c \<Longrightarrow> length (row_matches c t) = length c - 1"
  by (simp add: row_matches_def)

lemma nth_row_matches:
  "length t = length c \<Longrightarrow> j < length c - 1 \<Longrightarrow> row_matches c t ! j \<longleftrightarrow> c ! Suc j = t ! j"
  by (simp add: row_matches_def nth_tl nth_butlast)

lemma row_accept_len_bound:
  assumes "length t = length c" "c \<noteq> []" shows "row_accept_len c t < length c"
proof -
  have "row_accept_len c t \<le> length c - 1"
    using length_takeWhile_le [of id "row_matches c t"] length_row_matches [OF assms(1)]
    by (simp add: row_accept_len_takeWhile)
  then show ?thesis using assms(2) by (cases c) auto
qed

lemma row_accept_len_matches:
  assumes "length t = length c" "j < row_accept_len c t" shows "c ! Suc j = t ! j"
proof -
  have j: "j < length (takeWhile id (row_matches c t))" using assms(2) by (simp add: row_accept_len_takeWhile)
  then have "takeWhile id (row_matches c t) ! j" using nth_mem set_takeWhileD by fastforce
  then have "row_matches c t ! j" using takeWhile_nth [OF j] by simp
  moreover have "j < length c - 1"
    using j length_takeWhile_le [of id "row_matches c t"] length_row_matches [OF assms(1)] by linarith
  ultimately show ?thesis using nth_row_matches [OF assms(1)] by blast
qed

lemma row_accept_len_maximal:
  assumes "length t = length c" "Suc (row_accept_len c t) < length c"
  shows "c ! Suc (row_accept_len c t) \<noteq> t ! row_accept_len c t"
proof -
  have "row_accept_len c t < length (row_matches c t)" using assms by (simp add: length_row_matches)
  then have "\<not> row_matches c t ! row_accept_len c t"
    using nth_length_takeWhile [of id "row_matches c t"] by (simp add: row_accept_len_takeWhile)
  then show ?thesis using nth_row_matches [OF assms(1)] assms(2) by simp
qed

lemma accept_result:
  assumes "compute_dflash_accept_len_and_bonus cands targets = Inr (acc, bonus)" "i < length cands"
  shows "length acc = length cands" "length bonus = length cands" "acc ! i = row_accept_len (cands ! i) (targets ! i)"
    "bonus ! i = targets ! i ! (acc ! i)" "length (targets ! i) = length (cands ! i)"
    "length targets = length cands"
proof -
  have len: "map length targets = map length cands"
    using assms(1) by (auto simp: compute_dflash_accept_len_and_bonus_def split: if_splits)
  then have n: "length targets = length cands" by (metis length_map)
  have r: "acc = map2 row_accept_len cands targets" "bonus = map2 (!) targets acc"
    using assms(1) by (auto simp: compute_dflash_accept_len_and_bonus_def Let_def split: if_splits)
  show "length acc = length cands" "length bonus = length cands" "length targets = length cands"
    "acc ! i = row_accept_len (cands ! i) (targets ! i)" "bonus ! i = targets ! i ! (acc ! i)"
    using n assms(2) by (simp_all add: r)
  show "length (targets ! i) = length (cands ! i)" using len assms(2) n by (metis nth_map)
qed

text \<open>For every request the greedy rule accepts the longest run of draft tokens that agree with the
  target's predictions, the bonus token is the target's prediction after that run, and the number of
  committed tokens is between 1 and the block size.\<close>

theorem greedy_accepts_longest_prefix:
  assumes "compute_dflash_accept_len_and_bonus cands targets = Inr (acc, bonus)" "i < length cands"
    "cands ! i \<noteq> []"
  shows "acc ! i + 1 \<le> length (cands ! i)
    \<and> (\<forall>j<acc ! i. cands ! i ! (j + 1) = targets ! i ! j)
    \<and> (acc ! i + 1 < length (cands ! i) \<longrightarrow> cands ! i ! (acc ! i + 1) \<noteq> targets ! i ! (acc ! i))
    \<and> bonus ! i = targets ! i ! (acc ! i)"
  using accept_result [OF assms(1,2)] row_accept_len_bound [OF accept_result(5) [OF assms(1,2)] assms(3)]
    row_accept_len_matches [OF accept_result(5) [OF assms(1,2)]]
    row_accept_len_maximal [OF accept_result(5) [OF assms(1,2)]]
  by simp

theorem greedy_accepts_longest_prefix_witness:
  "compute_dflash_accept_len_and_bonus [[5, 7, 8, 9]] [[7, 8, 1, 2]] = Inr ([2], [1])
     \<and> [5, 7, 8, 9 :: int] ! (1 + 1) = [7, 8, 1, 2] ! 1 \<and> [5, 7, 8, 9 :: int] ! 3 \<noteq> 1"
proof -
  have r: "compute_dflash_accept_len_and_bonus [[5, 7, 8, 9]] [[7, 8, 1, 2]] = Inr ([2], [1])" by code_simp
  show ?thesis using greedy_accepts_longest_prefix [OF r, of 0] r by (auto simp: numeral_eq_Suc)
qed

text \<open>Greedy decoding of a deterministic target model.\<close>

fun greedy_decode :: "(int list \<Rightarrow> int) \<Rightarrow> int list \<Rightarrow> nat \<Rightarrow> int list" where
  "greedy_decode next ctx 0 = []"
| "greedy_decode next ctx (Suc n) = next ctx # greedy_decode next (ctx @ [next ctx]) n"

lemma greedy_decode_prefix:
  assumes "\<And>j. j < n \<Longrightarrow> xs ! j = next (ctx @ take j xs)" "n \<le> length xs"
  shows "greedy_decode next ctx n = take n xs"
  using assms
proof (induction n arbitrary: ctx xs)
  case 0
  then show ?case by simp
next
  case (Suc n)
  then obtain y ys where xs: "xs = y # ys" by (cases xs) auto
  have y: "y = next ctx" using Suc.prems(1) [of 0] by (simp add: xs)
  have "ys ! j = next ((ctx @ [y]) @ take j ys)" if "j < n" for j
    using Suc.prems(1) [of "Suc j"] that by (simp add: xs)
  then have "greedy_decode next (ctx @ [y]) n = take n ys"
    using Suc.IH [of ys "ctx @ [y]"] Suc.prems(2) by (simp add: xs)
  then show ?case by (simp add: xs y [symmetric])
qed

text \<open>One row: the accepted drafts and the bonus token are what greedy decoding produces.\<close>

lemma row_lossless:
  assumes len: "length t = length c" and ne: "c \<noteq> []"
    and forward: "\<forall>j<length c. t ! j = next (ctx @ take (j + 1) c)"
  shows "slice 1 (row_accept_len c t + 1) c @ [t ! row_accept_len c t]
    = greedy_decode next (ctx @ [c ! 0]) (row_accept_len c t + 1)"
proof -
  let ?a = "row_accept_len c t"
  have bound: "?a + 1 \<le> length c" using row_accept_len_bound [OF len ne] by simp
  have same: "slice 1 (?a + 1) c = take ?a t"
    using bound len row_accept_len_matches [OF len] by (intro nth_equalityI) (auto simp: slice_def)
  let ?xs = "take (?a + 1) t"
  have xs: "?xs = slice 1 (?a + 1) c @ [t ! ?a]"
    using same bound len by (simp add: take_Suc_conv_app_nth)
  have "?xs ! j = next ((ctx @ [c ! 0]) @ take j ?xs)" if "j < ?a + 1" for j
  proof -
    have "take (j + 1) c = c ! 0 # take j (tl c)" using ne by (cases c) auto
    moreover have "take j (tl c) = take j (slice 1 (?a + 1) c)"
      using that by (simp add: slice_def drop_Suc)
    moreover have "take j ?xs = take j (slice 1 (?a + 1) c)"
      using that same by (simp add: xs)
    ultimately show ?thesis using forward that bound by simp
  qed
  then have "greedy_decode next (ctx @ [c ! 0]) (?a + 1) = take (?a + 1) ?xs"
    by (intro greedy_decode_prefix) (use bound len in auto)
  then show ?thesis using xs by simp
qed

text \<open>Greedy speculative decoding is lossless: if the verify forward pass predicts every position
  from the context and the block up to it, the tokens a request commits are exactly the tokens that
  plain greedy decoding of the target would have produced next, one more than were accepted.\<close>

theorem greedy_verify_lossless:
  assumes "compute_dflash_accept_len_and_bonus cands targets = Inr (acc, bonus)" "i < length cands"
    and "\<forall>j<length (cands ! i). targets ! i ! j = next (ctx @ take (j + 1) (cands ! i))"
    and "cands ! i \<noteq> []"
  shows "slice 1 (acc ! i + 1) (cands ! i) @ [bonus ! i]
    = greedy_decode next (ctx @ [cands ! i ! 0]) (acc ! i + 1)"
  using accept_result [OF assms(1,2)] row_lossless [of "targets ! i" "cands ! i" "next" ctx] assms(3,4) by simp

theorem greedy_verify_lossless_witness:
  "slice 1 3 [5, 6, 7, 9 :: int] @ [8] = greedy_decode (\<lambda>xs. List.last xs + 1) ([4] @ [5]) 3"
proof -
  have r: "compute_dflash_accept_len_and_bonus [[5, 6, 7, 9]] [[6, 7, 8, 10]] = Inr ([2], [8])" by code_simp
  show ?thesis
    using greedy_verify_lossless [OF r, of 0 "\<lambda>xs. List.last xs + 1" "[4]"]
    by (simp add: less_Suc_eq numeral_eq_Suc)
qed


subsection \<open>The chain buffers do not depend on the history of the cache\<close>

definition chain_cache_ok :: "chain_cache \<Rightarrow> bool" where
  "chain_cache_ok cache \<longleftrightarrow> (\<forall>dev n b. map_of cache (dev, n) = Some b \<longrightarrow> 0 < n \<and> 0 < cap_bs b \<and>
     (\<exists>g. b = new_chain_buffers g (cap_bs b) n
        \<or> b\<lparr>predicts := [], accept_index := [], accept_token_num := []\<rparr>
            = (new_chain_buffers g (cap_bs b) n)\<lparr>predicts := [], accept_index := [], accept_token_num := []\<rparr>
          \<and> length (predicts b) = cap_bs b * n \<and> length (accept_index b) = cap_bs b
          \<and> length (accept_token_num b) = cap_bs b))"

definition chain_shape :: "nat \<Rightarrow> nat \<Rightarrow> chain_buffers \<Rightarrow> bool" where
  "chain_shape bs n b \<longleftrightarrow>
     retrieve_index b = map (\<lambda>i. map int [i * n..<(i + 1) * n]) [0..<bs]
   \<and> retrieve_next_token b = replicate bs (map int [1..<n] @ [-1])
   \<and> retrieve_next_sibling b = replicate bs (replicate n (-1))
   \<and> length (predicts b) = bs * n \<and> length (accept_index b) = bs \<and> length (accept_token_num b) = bs"

lemma take_rows_upt:
  assumes "bs \<le> cap"
  shows "take bs (rows cap n (map int [0..<cap * n])) = map (\<lambda>i. map int [i * n..<(i + 1) * n]) [0..<bs]"
proof (rule nth_equalityI)
  show "length (take bs (rows cap n (map int [0..<cap * n]))) = length (map (\<lambda>i. map int [i * n..<(i + 1) * n]) [0..<bs])"
    using assms by simp
  fix i assume "i < length (take bs (rows cap n (map int [0..<cap * n])))"
  then have i: "i < bs" by simp
  have "(i + 1) * n \<le> cap * n" using i assms by (intro mult_le_mono1) simp
  then show "take bs (rows cap n (map int [0..<cap * n])) ! i = map (\<lambda>i. map int [i * n..<(i + 1) * n]) [0..<bs] ! i"
    using i assms by (simp add: nth_rows drop_map take_map add.commute)
qed

lemma row_next: "0 < n \<Longrightarrow> (map int [1..<n + 1])[n - 1 := -1] = map int [1..<n] @ [-1]"
  by (cases n) (simp_all add: list_update_append)

lemma chain_entry_shape:
  assumes "chain_cache_ok cache" "map_of cache (dev, n) = Some b" "bs \<le> cap_bs b"
  shows "chain_shape bs n \<lparr>cap_bs = cap_bs b, retrieve_index = take bs (retrieve_index b),
                retrieve_next_token = take bs (retrieve_next_token b),
                retrieve_next_sibling = take bs (retrieve_next_sibling b),
                predicts = take (bs * n) (predicts b),
                accept_index = take bs (accept_index b),
                accept_token_num = take bs (accept_token_num b)\<rparr>"
proof -
  from assms(1,2) obtain g where n: "0 < n"
    and g: "retrieve_index b = rows (cap_bs b) n (map int [0..<cap_bs b * n])"
      "retrieve_next_token b = replicate (cap_bs b) ((map int [1..<n + 1])[n - 1 := -1])"
      "retrieve_next_sibling b = replicate (cap_bs b) (replicate n (-1))"
      "length (predicts b) = cap_bs b * n" "length (accept_index b) = cap_bs b"
      "length (accept_token_num b) = cap_bs b"
    unfolding chain_cache_ok_def new_chain_buffers_def
    by (cases b) (fastforce simp: chain_buffers.defs)
  have "bs * n \<le> cap_bs b * n" using assms(3) by simp
  then show ?thesis using g n assms(3) take_rows_upt [OF assms(3), of n] row_next [OF n]
    by (simp add: chain_shape_def min_absorb1)
qed

lemma chain_cache_ok_update:
  assumes "chain_cache_ok cache" "0 < n" "0 < cap"
  shows "chain_cache_ok (AList.update (dev, n) (new_chain_buffers g cap n) cache)"
proof -
  have "cap_bs (new_chain_buffers g cap n) = cap" by (simp add: new_chain_buffers_def)
  then show ?thesis using assms unfolding chain_cache_ok_def by (auto simp: update_conv')
qed

text \<open>The buffers handed to the sampling kernel describe one chain per request (row \<open>i\<close> holds the
  indices of its \<open>n\<close> positions, every position is followed by the next one, nothing has a sibling),
  whatever batch sizes the cache has served before, and the cache stays well formed.\<close>

theorem chain_buffers_correct:
  assumes "chain_cache_ok cache" "0 < bs" "0 < n"
  shows "\<exists>cache' b. get_or_create_chain_verify_buffers g cache bs n dev = Inr (cache', b)
    \<and> chain_cache_ok cache' \<and> chain_shape bs n b"
proof -
  let ?cap = "case map_of cache (dev, n) of None \<Rightarrow> 0 | Some b \<Rightarrow> cap_bs b"
  show ?thesis
  proof (cases "?cap < bs")
    case True
    let ?nc = "max bs (if 0 < ?cap then ?cap * 2 else bs)"
    let ?b = "new_chain_buffers g ?nc n" and ?c' = "AList.update (dev, n) (new_chain_buffers g ?nc n) cache"
    have ok: "chain_cache_ok ?c'" using assms by (intro chain_cache_ok_update) auto
    have "map_of ?c' (dev, n) = Some ?b" by (simp add: update_conv')
    moreover have "bs \<le> cap_bs ?b" by (simp add: new_chain_buffers_def)
    ultimately show ?thesis using chain_entry_shape [OF ok, of dev n ?b bs] ok True assms(3)
      by (simp add: get_or_create_chain_verify_buffers_def Let_def)
  next
    case False
    then obtain b where b: "map_of cache (dev, n) = Some b" "bs \<le> cap_bs b"
      using assms(2) by (cases "map_of cache (dev, n)") auto
    then show ?thesis using chain_entry_shape [OF assms(1) b] assms(1)
      by (simp add: get_or_create_chain_verify_buffers_def Let_def)
  qed
qed

lemma chain_cache_ok_Nil: "chain_cache_ok []"
  by (simp add: chain_cache_ok_def)

theorem chain_buffers_correct_witness:
  "\<exists>cache' b. get_or_create_chain_verify_buffers (\<lambda>_. 0) [] 2 3 None = Inr (cache', b)
     \<and> retrieve_next_token b = [[1, 2, -1], [1, 2, -1]]"
proof -
  obtain c b where cb: "get_or_create_chain_verify_buffers (\<lambda>_. 0) [] 2 3 None = Inr (c, b)" "chain_shape 2 3 b"
    using chain_buffers_correct [OF chain_cache_ok_Nil, of 2 3 "\<lambda>_. 0" None] by auto
  then have "retrieve_next_token b = [[1, 2, -1], [1, 2, -1]]"
    by (simp add: chain_shape_def upt_rec numeral_eq_Suc)
  then show ?thesis using cb by blast
qed

subsection \<open>The fast path of the logit adjustments\<close>

definition matrix_shape :: "nat \<Rightarrow> nat \<Rightarrow> matrix \<Rightarrow> bool" where
  "matrix_shape r v m \<longleftrightarrow> length m = r \<and> (\<forall>row\<in>set m. length row = v)"

lemma add_rows_zeros:
  assumes "matrix_shape r v m" shows "add_rows (replicate r (replicate v 0)) m = m"
proof -
  have "map2 (+) (replicate v (0 :: real)) row = row" if "length row = v" for row
    using that by (intro nth_equalityI) auto
  then show ?thesis using assms unfolding add_rows_def matrix_shape_def
    by (intro nth_equalityI) auto
qed

lemma add_rows_assoc:
  assumes "matrix_shape r v a" "matrix_shape r v b" "matrix_shape r v c"
  shows "add_rows (add_rows a b) c = add_rows a (add_rows b c)"
proof (rule nth_equalityI)
  show "length (add_rows (add_rows a b) c) = length (add_rows a (add_rows b c))"
    by (simp add: add_rows_def)
  fix i assume "i < length (add_rows (add_rows a b) c)"
  then have i: "i < r" using assms by (simp add: add_rows_def matrix_shape_def)
  then have "length (a ! i) = v" "length (b ! i) = v" "length (c ! i) = v"
    using assms by (auto simp: matrix_shape_def)
  then show "add_rows (add_rows a b) c ! i = add_rows a (add_rows b c) ! i"
    using i assms by (auto simp: add_rows_def matrix_shape_def intro!: nth_equalityI)
qed

lemma repeat_interleave_add_rows:
  assumes "length a = length b"
  shows "repeat_interleave n (add_rows a b) = add_rows (repeat_interleave n a) (repeat_interleave n b)"
proof -
  have "map2 f (replicate n x @ xs) (replicate n y @ ys) = replicate n (f x y) @ map2 f xs ys"
    for f :: "real list \<Rightarrow> real list \<Rightarrow> real list" and x y xs ys
    by (simp add: zip_append zip_replicate)
  note rep = this
  show ?thesis using assms unfolding repeat_interleave_def add_rows_def
    by (induction a b rule: list_induct2) (auto simp: rep)
qed

lemma matrix_shape_repeat:
  "matrix_shape r v m \<Longrightarrow> matrix_shape (r * n) v (repeat_interleave n m)"
  by (auto simp: matrix_shape_def repeat_interleave_def length_concat comp_def sum_list_triv)

lemma matrix_shape_add: "matrix_shape r v a \<Longrightarrow> matrix_shape r v b \<Longrightarrow> matrix_shape r v (add_rows a b)"
  by (force simp: matrix_shape_def add_rows_def in_set_zip)

text \<open>The cheap path for precomputed penalties and biases adds to every position of a request's
  block exactly the bias that the dense fallback, \<^verbatim>\<open>apply_logits_bias\<close> on a zero matrix broadcast
  over the block, would add.\<close>

theorem verify_logits_fast_path:
  assumes "matrix_shape (bs * n) v logits" "length (temperatures si) = bs" "0 < n"
    "\<not> has_custom_logit_processor si" "\<not> penalizer_required si" "vocab_mask si = None"
    "pred_option (matrix_shape bs v) (acc_linear_penalties si)" "pred_option (matrix_shape bs v) (logit_bias si)"
  shows "apply_dflash_verify_logits_adjustments logits (Some si) (int n) =
    Inr (if acc_linear_penalties si = None \<and> logit_bias si = None then logits
         else add_rows logits (repeat_interleave n (apply_logits_bias si (replicate bs (replicate v 0)))))"
proof -
  have pen: "(case penalizer_orchestrator si of None \<Rightarrow> m | Some (req, f) \<Rightarrow> if req then f m else m) = m" for m
    using assms(5) by (auto simp: penalizer_required_def split: option.splits)
  note sh = matrix_shape_repeat [of bs v _ n]
  have base: "apply_dflash_verify_logits_adjustments logits (Some si) (int n) =
      Inr (let l1 = (case acc_linear_penalties si of None \<Rightarrow> logits
                     | Some p \<Rightarrow> add_rows logits (repeat_interleave n p))
           in case logit_bias si of None \<Rightarrow> l1 | Some b \<Rightarrow> add_rows l1 (repeat_interleave n b))"
    using assms(1-6) by (simp add: apply_dflash_verify_logits_adjustments_def matrix_shape_def Let_def)
  have bias: "apply_logits_bias si z =
      (let l1 = (case acc_linear_penalties si of None \<Rightarrow> z | Some p \<Rightarrow> add_rows z p)
       in case logit_bias si of None \<Rightarrow> l1 | Some b \<Rightarrow> add_rows l1 b)" for z
    using assms(6) by (simp add: apply_logits_bias_def pen Let_def)
  show ?thesis
  proof (cases "acc_linear_penalties si")
    case None
    then show ?thesis using base bias assms(8) by (cases "logit_bias si") (simp_all add: add_rows_zeros)
  next
    case (Some p)
    then have p: "matrix_shape bs v p" using assms(7) by simp
    show ?thesis
    proof (cases "logit_bias si")
      case None
      then show ?thesis using base bias Some p by (simp add: add_rows_zeros)
    next
      case b: (Some b)
      then have bs: "matrix_shape bs v b" using assms(8) by simp
      have "length p = length b" using p bs by (simp add: matrix_shape_def)
      then show ?thesis
        using base bias Some b p add_rows_assoc [OF assms(1) sh [OF p] sh [OF bs]]
        by (simp add: add_rows_zeros repeat_interleave_add_rows)
    qed
  qed
qed

definition example_sampling_info :: sampling_info where
  "example_sampling_info = \<lparr>temperatures = [1], top_ks = [1], top_ps = [1], is_all_greedy = False, need_top_k_sampling = True,
     need_top_p_sampling = False, has_custom_logit_processor = False, custom_logit_processor = [],
     acc_linear_penalties = Some [[1, 2]], penalizer_orchestrator = None, vocab_mask = None,
     logit_bias = Some [[10, 0]]\<rparr>"

theorem verify_logits_fast_path_witness:
  "apply_dflash_verify_logits_adjustments [[0, 0], [5, 5]] (Some example_sampling_info) 2
     = Inr [[11, 2], [16, 7]]"
  using verify_logits_fast_path [of 1 2 2 "[[0, 0], [5, 5]]" example_sampling_info]
  by (simp add: matrix_shape_def example_sampling_info_def penalizer_required_def apply_logits_bias_def
      add_rows_def repeat_interleave_def numeral_eq_Suc)

subsection \<open>Teacher log-probabilities\<close>

lemma log_softmax_nonpos:
  assumes "x \<in> set (log_softmax xs)" shows "x \<le> 0"
proof -
  from assms obtain y where y: "y \<in> set xs" "x = y - ln (\<Sum>z\<leftarrow>xs. exp z)" by (auto simp: log_softmax_def)
  have "exp y \<in> set (map exp xs)" using y(1) by simp
  then have "exp y \<le> (\<Sum>z\<leftarrow>xs. exp z)" by (rule member_le_sum_list) auto
  then have "y \<le> ln (\<Sum>z\<leftarrow>xs. exp z)" by (metis exp_gt_zero ln_exp ln_le_cancel_iff order_less_le_trans)
  then show ?thesis using y(2) by simp
qed

lemma gather_rows_eq:
  assumes "gather_rows rs is = Inr xs" "length rs = length is" "j < length is"
  shows "length xs = length is" "0 \<le> is ! j" "nat (is ! j) < length (rs ! j)" "xs ! j = rs ! j ! nat (is ! j)"
proof -
  from assms(1) have l2: "list_all2 (\<lambda>x y. (case x of (r, i) \<Rightarrow> gather1 r i) = Inr y) (zip rs is) xs"
    by (simp add: gather_rows_def rmap_eq_Inr)
  from list_all2_lengthD [OF l2] show "length xs = length is" using assms(2) by simp
  have "gather1 (rs ! j) (is ! j) = Inr (xs ! j)" using list_all2_nthD [OF l2, of j] assms(2,3) by simp
  then show "0 \<le> is ! j" "nat (is ! j) < length (rs ! j)" "xs ! j = rs ! j ! nat (is ! j)"
    by (auto simp: gather1_def split: if_splits)
qed

lemma candidate_logprobs_total:
  assumes "length logits = length cands * n" "\<forall>c\<in>set cands. length c = n"
    "\<forall>row\<in>set logits. length row = vocab" "\<forall>c\<in>set cands. \<forall>t\<in>set c. 0 \<le> t \<and> t < int vocab"
  shows "\<exists>lps. compute_dflash_candidate_logprobs kern tiny cands n logits si False = Inr lps
    \<and> length lps = length cands \<and> (\<forall>i<length cands. length (lps ! i) = n - 1)"
proof (cases "n \<le> 1")
  case True
  then show ?thesis using assms(1) by (simp add: compute_dflash_candidate_logprobs_def)
next
  case False
  let ?rs = "rows (length cands) n (map log_softmax logits)"
  let ?f = "\<lambda>(c, rs). gather_rows (butlast rs) (tl c)"
  have lrs: "length ?rs = length cands" by simp
  have row: "length r = n" "\<forall>x\<in>set r. length x = vocab" if "r \<in> set ?rs" for r
  proof -
    have lm: "length (map log_softmax logits) = length cands * n" using assms(1) by simp
    show "length r = n" using rows_width [OF lm that] .
    have "set r \<subseteq> set (map log_softmax logits)"
      using that concat_rows [OF lm] by (metis UN_upper set_concat)
    then show "\<forall>x\<in>set r. length x = vocab" using assms(3) by (auto simp: log_softmax_def)
  qed
  have one: "\<exists>y. ?f x = Inr y" if x: "x \<in> set (zip cands ?rs)" for x
  proof -
    obtain c r where cr: "x = (c, r)" "c \<in> set cands" "r \<in> set ?rs"
      using x by (metis set_zip_leftD set_zip_rightD surj_pair)
    have "\<exists>y. gather1 (fst z) (snd z) = Inr y" if z: "z \<in> set (zip (butlast r) (tl c))" for z
    proof -
      have "fst z \<in> set r" "snd z \<in> set c" using z
        by (metis in_set_butlastD prod.collapse set_zip_leftD, metis list.set_sel(2) prod.collapse set_zip_rightD tl_Nil list.set(1) emptyE)
      then have "length (fst z) = vocab" "0 \<le> snd z" "snd z < int vocab"
        using row(2) [OF cr(3)] cr(2) assms(4) by auto
      then show ?thesis by (simp add: gather1_def nat_less_iff)
    qed
    then show ?thesis unfolding cr(1) split_conv gather_rows_def by (intro rmap_total) (auto simp: case_prod_beta)
  qed
  then obtain lps where lps: "rmap ?f (zip cands ?rs) = Inr lps" using rmap_total [of "zip cands ?rs" ?f] by blast
  have len: "length lps = length cands" using rmap_length [OF lps] by simp
  have "length (lps ! i) = n - 1" if i: "i < length cands" for i
  proof -
    have "gather_rows (butlast (?rs ! i)) (tl (cands ! i)) = Inr (lps ! i)"
      using rmap_nth [OF lps, of i] i by simp
    from rmap_length [OF this [unfolded gather_rows_def]] show ?thesis
      using row(1) [OF nth_mem [of i ?rs]] i assms(2) by simp
  qed
  then show ?thesis using lps len False assms(1) by (simp add: compute_dflash_candidate_logprobs_def Let_def)
qed

text \<open>Under greedy decoding the reported teacher log-probability of the draft token at offset
  \<open>j + 1\<close> of request \<open>i\<close> is the log-softmax of the target logits at position \<open>j\<close> of its block, read
  at that token; it is never positive.\<close>

theorem candidate_logprobs_spec:
  assumes "compute_dflash_candidate_logprobs kern tiny cands n logits si False = Inr lps"
    "\<forall>c\<in>set cands. length c = n" "i < length cands" "j + 1 < n"
  shows "lps ! i ! j = log_softmax (logits ! (i * n + j)) ! nat (cands ! i ! (j + 1)) \<and> lps ! i ! j \<le> 0"
proof -
  have n: "\<not> n \<le> 1" and len: "length logits = length cands * n"
    using assms by (auto simp: compute_dflash_candidate_logprobs_def Let_def split: if_splits)
  let ?rs = "rows (length cands) n (map log_softmax logits)"
  have run: "rmap (\<lambda>(c, rs). gather_rows (butlast rs) (tl c)) (zip cands ?rs) = Inr lps"
    using assms(1) n len by (simp add: compute_dflash_candidate_logprobs_def Let_def)
  then have g: "gather_rows (butlast (?rs ! i)) (tl (cands ! i)) = Inr (lps ! i)"
    using assms(3) list_all2_nthD [of _ "zip cands ?rs" lps i] by (fastforce simp: rmap_eq_Inr)
  have le: "i * n + n \<le> length logits" using len assms(3)
    by (metis Suc_leI add.commute mult_Suc mult_le_mono1)
  have row: "?rs ! i = map log_softmax (take n (drop (i * n) logits))"
    using assms(3) by (simp add: nth_rows take_map drop_map)
  have ci: "length (cands ! i) = n" using assms(2,3) by simp
  have lens: "length (butlast (?rs ! i)) = length (tl (cands ! i))" "j < length (tl (cands ! i))"
    using le ci assms(4) by (simp_all add: row)
  note gr = gather_rows_eq [OF g lens]
  have at: "butlast (?rs ! i) ! j = log_softmax (logits ! (i * n + j))"
    using le assms(4) by (simp add: row nth_butlast)
  have tok: "tl (cands ! i) ! j = cands ! i ! (j + 1)" using lens(2) by (simp add: nth_tl)
  have eq: "lps ! i ! j = log_softmax (logits ! (i * n + j)) ! nat (cands ! i ! (j + 1))"
    and mem: "nat (cands ! i ! (j + 1)) < length (log_softmax (logits ! (i * n + j)))"
    using gr(3,4) at tok by simp_all
  show ?thesis using eq log_softmax_nonpos [OF nth_mem [OF mem]] by simp
qed

theorem candidate_logprobs_spec_witness:
  "compute_dflash_candidate_logprobs None 0 [[0, 1]] 2 [[0, 0], [0, 0]] None False
     = Inr [[log_softmax [0, 0] ! 1]] \<and> log_softmax [0, 0] ! 1 \<le> 0"
proof -
  have r: "compute_dflash_candidate_logprobs None 0 [[0, 1]] 2 [[0, 0], [0, 0]] None False
      = Inr [[log_softmax [0, 0] ! 1]]"
    by (simp add: compute_dflash_candidate_logprobs_def gather_rows_def gather1_def numeral_eq_Suc
        log_softmax_def)
  then show ?thesis using candidate_logprobs_spec [OF r, of 0 0] by simp
qed


subsection \<open>The sampling rule returns a valid index for every request\<close>

text \<open>
  What the code relies on from the chain verification kernel: per request it reports how many draft
  tokens it accepted (fewer than the block has positions), and the position in \<^verbatim>\<open>predicts\<close> of the
  token it emitted at every accepted depth.
\<close>

definition chain_kernel_ok :: "kernels \<Rightarrow> bool" where
  "chain_kernel_ok k \<longleftrightarrow> (\<forall>cands bufs u uf tp dp ts ta bs n pred idx num.
     0 < n \<longrightarrow> length cands = bs \<longrightarrow> chain_shape bs n bufs \<longrightarrow>
     tree_speculative_sampling_target_only k cands bufs u uf tp dp ts ta = (pred, idx, num) \<longrightarrow>
     length pred = bs * n \<and> length idx = bs \<and> length num = bs
     \<and> (\<forall>i<bs. length (idx ! i) = n \<and> 0 \<le> num ! i \<and> num ! i < int n
          \<and> 0 \<le> idx ! i ! nat (num ! i) \<and> idx ! i ! nat (num ! i) < int (bs * n)))"

text \<open>With such a kernel the sampling rule never fails on well-shaped inputs: it returns one
  accept length in \<open>0..n - 1\<close> and one bonus token per request and keeps the buffer cache well
  formed.\<close>

theorem sampling_accept_total:
  assumes "chain_kernel_ok k" "chain_cache_ok cache" "cands \<noteq> []" "0 < n" "length logits = length cands * n"
    "map length u = replicate (length cands) n" "length uf = length cands"
  shows "\<exists>cache' acc bonus. compute_dflash_sampling_accept_len_and_bonus (Some k) g cache dev ts ta u uf
        cands n logits si mk uk sp = Inr (cache', acc, bonus)
    \<and> chain_cache_ok cache' \<and> length acc = length cands \<and> length bonus = length cands
    \<and> (\<forall>a\<in>set acc. 0 \<le> a \<and> a < int n)"
proof -
  let ?bs = "length cands"
  have bs: "0 < ?bs" using assms(3) by simp
  obtain cache' b where buf: "get_or_create_chain_verify_buffers g cache ?bs n dev = Inr (cache', b)"
    "chain_cache_ok cache'" "chain_shape ?bs n b"
    using chain_buffers_correct [OF assms(2) bs assms(4)] by blast
  let ?tp = "rows ?bs n (target_distribution k logits n si mk uk sp)"
  obtain pred idx num where t: "tree_speculative_sampling_target_only k cands b u uf ?tp
      (map (map (map (\<lambda>_. 0))) ?tp) ts (max ta (1 / 10 ^ 9)) = (pred, idx, num)"
    by (metis prod_cases3)
  have ker: "length pred = ?bs * n" "length idx = ?bs" "length num = ?bs"
    "\<And>i. i < ?bs \<Longrightarrow> length (idx ! i) = n \<and> 0 \<le> num ! i \<and> num ! i < int n
       \<and> 0 \<le> idx ! i ! nat (num ! i) \<and> idx ! i ! nat (num ! i) < int (?bs * n)"
    using assms(1) assms(4) buf(3) t unfolding chain_kernel_ok_def by (blast, blast, blast, blast)
  have pos_ok: "py_index (idx ! i) (num ! i) = Inr (idx ! i ! nat (num ! i))" if "i < ?bs" for i
    using ker(4) [OF that] by (auto simp: py_index_def)
  have "rmap (\<lambda>(r, a). py_index r a) (zip idx num) = Inr (map (\<lambda>i. idx ! i ! nat (num ! i)) [0..<?bs])"
    using pos_ok ker(2,3) by (auto simp: rmap_eq_Inr list_all2_conv_all_nth)
  note pos = this
  have "\<exists>y. py_index pred p = Inr y" if "p \<in> set (map (\<lambda>i. idx ! i ! nat (num ! i)) [0..<?bs])" for p
  proof -
    from that obtain i where "i < ?bs" "p = idx ! i ! nat (num ! i)" by auto
    then have "0 \<le> p" "p < int (length pred)" using ker(1,4) by (metis, metis)
    then show ?thesis by (simp add: py_index_def nat_less_iff)
  qed
  then obtain bonus where bonus: "rmap (py_index pred) (map (\<lambda>i. idx ! i ! nat (num ! i)) [0..<?bs]) = Inr bonus"
    using rmap_total [of "map (\<lambda>i. idx ! i ! nat (num ! i)) [0..<?bs]" "py_index pred"] by blast
  have "compute_dflash_sampling_accept_len_and_bonus (Some k) g cache dev ts ta u uf
        cands n logits si mk uk sp = Inr (cache', num, bonus)"
    using assms(3-7) buf(1) t pos bonus by (simp add: compute_dflash_sampling_accept_len_and_bonus_def Let_def)
  moreover have "\<forall>a\<in>set num. 0 \<le> a \<and> a < int n" using ker(3,4) by (metis in_set_conv_nth)
  ultimately show ?thesis using buf(2) ker(3) rmap_length [OF bonus] by auto
qed

text \<open>A kernel that accepts nothing and emits token 0 meets the contract.\<close>

definition reject_all :: kernels where
  "reject_all = \<lparr>top_k_renorm_prob = \<lambda>p _. p, top_p_renorm_prob = \<lambda>p _. p,
     topk = \<lambda>k xs. take k (zip xs [0..<length xs]),
     tree_speculative_sampling_target_only = \<lambda>cands bufs u uf tp dp ts ta.
       (map (\<lambda>_. 0) (predicts bufs), retrieve_index bufs, map (\<lambda>_. 0) cands)\<rparr>"

lemma reject_all_ok: "chain_kernel_ok reject_all"
  unfolding chain_kernel_ok_def
proof (intro allI impI)
  fix cands bufs u uf tp dp ts ta pred idx num and bs n :: nat
  assume n: "0 < n" and c: "length cands = bs" and sh: "chain_shape bs n bufs"
    and t: "tree_speculative_sampling_target_only reject_all cands bufs u uf tp dp ts ta = (pred, idx, num)"
  have e: "pred = map (\<lambda>_. 0) (predicts bufs)" "idx = retrieve_index bufs" "num = map (\<lambda>_. 0) cands"
    using t by (auto simp: reject_all_def)
  have "i * n < bs * n" if "i < bs" for i using that n by simp
  then have "int (i * n) < int (bs * n)" if "i < bs" for i using that by (metis of_nat_less_iff)
  then show "length pred = bs * n \<and> length idx = bs \<and> length num = bs
     \<and> (\<forall>i<bs. length (idx ! i) = n \<and> 0 \<le> num ! i \<and> num ! i < int n
          \<and> 0 \<le> idx ! i ! nat (num ! i) \<and> idx ! i ! nat (num ! i) < int (bs * n))"
    using n c sh by (auto simp: e chain_shape_def)
qed

theorem sampling_accept_total_witness:
  "\<exists>cache' acc bonus. compute_dflash_sampling_accept_len_and_bonus (Some reject_all) (\<lambda>_. 0) [] None 1 1
      [[0, 0]] [0] [[3, 4]] 2 [[0, 1], [1, 0]] example_sampling_info None None True = Inr (cache', acc, bonus)
     \<and> length acc = 1"
  using sampling_accept_total [OF reject_all_ok chain_cache_ok_Nil, of "[[3, 4]]" 2 "[[0, 1], [1, 0]]" "[[0, 0]]" "[0]"
      "\<lambda>_. 0" None 1 1 example_sampling_info None None True]
  by (auto simp: numeral_eq_Suc)

end
