(* ===== verification/Req_State.thy ===== *)
theory Req_State
  imports Customized_Info
begin

section \<open>The state of a request\<close>

text \<open>
  Model of the parts of \<^verbatim>\<open>Req\<close> (\<^verbatim>\<open>srt/managers/schedule_batch.py\<close>) that speculative decoding
  reads and writes: the finish conditions, the KV accounting of a request, the acceptance
  statistics and the reset on retraction.

  Detokenisation and regular expressions are outside the model: \<open>env\<close> carries the function that
  decodes the tail of a request and the regular expression search. A grammar is the predicate
  that says after which accepted tokens it has terminated, together with those tokens. A set of
  token ids is a list; \<^verbatim>\<open>next(iter(s))\<close> is its first element.
\<close>

datatype finish_reason =
    FINISH_MATCHED_TOKEN int
  | FINISH_MATCHED_STR string
  | FINISHED_MATCHED_REGEX string
  | FINISH_LENGTH nat
  | FINISH_ABORT string

record sampling_params =
  max_new_tokens :: nat
  ignore_eos :: bool
  stop_token_ids :: "int list"
  stop_strs :: "string list"
  stop_regex_strs :: "string list"
  sp_top_k :: int
  use_replay_dis :: bool

record tokenizer =
  eos_token_id :: int
  additional_stop_token_ids :: "int list"

record req = req_meta +
  origin_input_ids :: "int list"
  sampling_params :: sampling_params
  eos_token_ids :: "int list"
  req_tokenizer :: "tokenizer option"
  vocab_size :: int
  decoded_text :: string
  grammar :: "((int list \<Rightarrow> bool) \<times> int list) option"
  finished_reason :: "finish_reason option"
  to_finish :: "finish_reason option"
  req_pool_idx :: "nat option"
  is_chunked :: nat
  prefix_indices :: "int list"
  extend_input_len :: nat
  kv_committed_len :: nat
  kv_allocated_len :: nat
  kv_committed_freed :: bool
  kv_overallocated_freed :: bool
  spec_verify_ct :: nat
  spec_accepted_tokens :: nat
  spec_acceptance_histogram :: "nat list"
  retraction_count :: nat
  is_retracted :: bool
  fill_ids :: "int list"
  req_extra_key :: "string option"
  req_priority :: "int option"
  last_node :: "nat option"
  cache_protected_len :: nat
  return_logprob :: bool
  logprob_start_len :: int
  extend_logprob_start_len :: int

record env =
  tail_str :: "req \<Rightarrow> string"
  re_search :: "string \<Rightarrow> string \<Rightarrow> bool"

subsection \<open>KV accounting\<close>

definition pop_committed_kv_cache :: "req \<Rightarrow> (req \<times> nat) res" where
  "pop_committed_kv_cache r =
     (if kv_committed_freed r then Inl AssertionError
      else Inr (r\<lparr>kv_committed_freed := True\<rparr>, kv_committed_len r))"

definition pop_overallocated_kv_cache :: "req \<Rightarrow> (req \<times> nat \<times> nat) res" where
  "pop_overallocated_kv_cache r =
     (if kv_overallocated_freed r then Inl AssertionError
      else Inr (r\<lparr>kv_overallocated_freed := True\<rparr>, kv_committed_len r, kv_allocated_len r))"

definition bump :: "nat \<Rightarrow> nat list \<Rightarrow> nat list" where
  "bump k h = (let h' = (if length h \<le> k then h @ replicate (k - length h + 1) 0 else h)
     in h'[k := h' ! k + 1])"

definition update_spec_acceptance_histogram :: "nat \<Rightarrow> req \<Rightarrow> req" where
  "update_spec_acceptance_histogram accepted r =
     r\<lparr>spec_acceptance_histogram := bump accepted (spec_acceptance_histogram r)\<rparr>"

definition reset_for_retract :: "req \<Rightarrow> req" where
  "reset_for_retract r = r\<lparr>retraction_count := retraction_count r + 1, prefix_indices := [], last_node := None,
     extend_input_len := 0, is_retracted := True, extend_logprob_start_len := 0, is_chunked := 0, kv_allocated_len := 0,
     kv_committed_len := 0, kv_committed_freed := False, kv_overallocated_freed := False\<rparr>"

subsection \<open>Finish conditions\<close>

definition finished :: "req \<Rightarrow> bool" where
  "finished r \<longleftrightarrow> finished_reason r \<noteq> None"

definition is_stop_token :: "req \<Rightarrow> int \<Rightarrow> bool" where
  "is_stop_token r t \<longleftrightarrow>
     (stop_token_ids (sampling_params r) \<noteq> [] \<and> t \<in> set (stop_token_ids (sampling_params r)))
   \<or> (eos_token_ids r \<noteq> [] \<and> t \<in> set (eos_token_ids r))
   \<or> (case req_tokenizer r of None \<Rightarrow> False
      | Some tk \<Rightarrow> t = eos_token_id tk
          \<or> (additional_stop_token_ids tk \<noteq> [] \<and> t \<in> set (additional_stop_token_ids tk)))"

text \<open>The loop of \<^verbatim>\<open>_check_token_based_finish\<close>: \<open>i\<close> counts the tokens looked at.\<close>

fun token_loop :: "nat \<Rightarrow> nat \<Rightarrow> int list \<Rightarrow> req \<Rightarrow> req \<times> bool" where
  "token_loop n i [] r = (r, False)"
| "token_loop n i (t # ts) r =
     (if is_stop_token r t
      then (r\<lparr>finished_reason := Some (FINISH_MATCHED_TOKEN t),
              finished_len := Some (length (output_ids r) - n + i + 1)\<rparr>, True)
      else token_loop n (i + 1) ts r)"

definition check_token_based_finish :: "int list \<Rightarrow> req \<Rightarrow> req \<times> bool" where
  "check_token_based_finish new r =
     (if ignore_eos (sampling_params r) then (r, False) else token_loop (length new) 0 new r)"

definition out_of_vocab :: "req \<Rightarrow> int \<Rightarrow> bool" where
  "out_of_vocab r t \<longleftrightarrow> vocab_size r < t \<or> t < 0"

fun vocab_loop :: "nat \<Rightarrow> nat \<Rightarrow> int list \<Rightarrow> req \<Rightarrow> req \<times> bool" where
  "vocab_loop n i [] r = (r, False)"
| "vocab_loop n i (t # ts) r =
     (if out_of_vocab r t
      then let off = length (output_ids r) - n + i;
               o1 = (if stop_token_ids (sampling_params r) \<noteq> []
                     then (output_ids r)[off := hd (stop_token_ids (sampling_params r))] else output_ids r);
               o2 = (if eos_token_ids r \<noteq> [] then o1[off := hd (eos_token_ids r)] else o1)
           in (r\<lparr>output_ids := o2, finished_reason := Some (FINISH_MATCHED_STR ''NaN happened''),
                 finished_len := Some (off + 1)\<rparr>, True)
      else vocab_loop n (i + 1) ts r)"

definition check_vocab_boundary_finish :: "int list \<Rightarrow> req \<Rightarrow> req \<times> bool" where
  "check_vocab_boundary_finish new r = vocab_loop (length new) 0 new r"

text \<open>\<^verbatim>\<open>s in t\<close> on strings.\<close>

fun substring :: "string \<Rightarrow> string \<Rightarrow> bool" where
  "substring s [] = (s = [])"
| "substring s (c # cs) = (take (length s) (c # cs) = s \<or> substring s cs)"

definition check_str_based_finish :: "env \<Rightarrow> req \<Rightarrow> req \<times> bool" where
  "check_str_based_finish e r =
     (let sp = sampling_params r in
      if stop_strs sp \<noteq> [] \<or> stop_regex_strs sp \<noteq> [] then
        let tail = tail_str e r in
        case find (\<lambda>s. substring s tail \<or> substring s (decoded_text r)) (stop_strs sp) of
          Some s \<Rightarrow> (r\<lparr>finished_reason := Some (FINISH_MATCHED_STR s)\<rparr>, True)
        | None \<Rightarrow>
            (case find (\<lambda>s. re_search e s tail) (stop_regex_strs sp) of
               Some s \<Rightarrow> (r\<lparr>finished_reason := Some (FINISHED_MATCHED_REGEX s)\<rparr>, True)
             | None \<Rightarrow> (r, False))
      else (r, False))"

text \<open>\<^verbatim>\<open>xs[-n:]\<close>, which is the whole list for \<open>n = 0\<close>.\<close>

definition last_n :: "nat \<Rightarrow> 'a list \<Rightarrow> 'a list" where
  "last_n n xs = (if n = 0 then xs else drop (length xs - n) xs)"

definition check_finished :: "env \<Rightarrow> nat \<Rightarrow> req \<Rightarrow> req" where
  "check_finished e new_accepted_len r =
     (if finished r then r
      else if to_finish r \<noteq> None then r\<lparr>finished_reason := to_finish r, to_finish := None\<rparr>
      else if max_new_tokens (sampling_params r) \<le> length (output_ids r)
      then r\<lparr>finished_reason := Some (FINISH_LENGTH (max_new_tokens (sampling_params r))),
             finished_len := Some (max_new_tokens (sampling_params r))\<rparr>
      else case (case grammar r of None \<Rightarrow> False | Some (term, toks) \<Rightarrow> term toks) of
        True \<Rightarrow> r\<lparr>finished_reason := Some (FINISH_MATCHED_TOKEN (last (output_ids r)))\<rparr>
      | False \<Rightarrow>
        (let new = last_n new_accepted_len (output_ids r);
             (r1, b1) = check_token_based_finish new r in
         if b1 then r1
         else let (r2, b2) = check_vocab_boundary_finish new r1 in
         if b2 then r2 else fst (check_str_based_finish e r2)))"

subsection \<open>What the finish check changes\<close>

named_theorems finish_simps "the finish checks touch only the finish fields and one output token"

lemma token_loop_cases:
  "token_loop n i ts r = (r, False) \<and> (\<forall>t\<in>set ts. \<not> is_stop_token r t)
   \<or> (\<exists>k<length ts. is_stop_token r (ts ! k) \<and> (\<forall>j<k. \<not> is_stop_token r (ts ! j))
        \<and> token_loop n i ts r = (r\<lparr>finished_reason := Some (FINISH_MATCHED_TOKEN (ts ! k)),
              finished_len := Some (length (output_ids r) - n + i + k + 1)\<rparr>, True))"
proof (induction ts arbitrary: i)
  case Nil
  then show ?case by simp
next
  case (Cons t ts)
  show ?case
  proof (cases "is_stop_token r t")
    case True
    then show ?thesis by (intro disjI2 exI [of _ 0]) simp
  next
    case False
    from Cons.IH [of "i + 1"] show ?thesis
    proof (elim disjE exE conjE)
      assume "token_loop n (i + 1) ts r = (r, False)" "\<forall>t\<in>set ts. \<not> is_stop_token r t"
      then show ?thesis using False by simp
    next
      fix k assume "k < length ts" "is_stop_token r (ts ! k)" "\<forall>j<k. \<not> is_stop_token r (ts ! j)"
        "token_loop n (i + 1) ts r = (r\<lparr>finished_reason := Some (FINISH_MATCHED_TOKEN (ts ! k)),
              finished_len := Some (length (output_ids r) - n + (i + 1) + k + 1)\<rparr>, True)"
      then show ?thesis using False
        by (intro disjI2 exI [of _ "Suc k"]) (auto simp: less_Suc_eq_0_disj)
    qed
  qed
qed

lemma vocab_loop_cases:
  "vocab_loop n i ts r = (r, False) \<and> (\<forall>t\<in>set ts. \<not> out_of_vocab r t)
   \<or> (\<exists>k<length ts. \<exists>o'. length o' = length (output_ids r)
        \<and> (\<forall>j. j \<noteq> length (output_ids r) - n + i + k \<longrightarrow> o' ! j = output_ids r ! j)
        \<and> vocab_loop n i ts r = (r\<lparr>output_ids := o', finished_reason := Some (FINISH_MATCHED_STR ''NaN happened''),
              finished_len := Some (length (output_ids r) - n + i + k + 1)\<rparr>, True))"
proof (induction ts arbitrary: i)
  case Nil
  then show ?case by simp
next
  case (Cons t ts)
  show ?case
  proof (cases "out_of_vocab r t")
    case True
    let ?off = "length (output_ids r) - n + i"
    let ?o1 = "if stop_token_ids (sampling_params r) \<noteq> []
      then (output_ids r)[?off := hd (stop_token_ids (sampling_params r))] else output_ids r"
    let ?o2 = "if eos_token_ids r \<noteq> [] then ?o1[?off := hd (eos_token_ids r)] else ?o1"
    have "length ?o2 = length (output_ids r) \<and> (\<forall>j. j \<noteq> ?off \<longrightarrow> ?o2 ! j = output_ids r ! j)" by simp
    moreover have "vocab_loop n i (t # ts) r = (r\<lparr>output_ids := ?o2,
        finished_reason := Some (FINISH_MATCHED_STR ''NaN happened''), finished_len := Some (?off + 0 + 1)\<rparr>, True)"
      using True by (simp only: vocab_loop.simps if_True Let_def add_0_right)
    ultimately show ?thesis by (intro disjI2 exI [of _ 0]) auto
  next
    case False
    from Cons.IH [of "i + 1"] show ?thesis
    proof (elim disjE exE conjE)
      assume "vocab_loop n (i + 1) ts r = (r, False)" "\<forall>t\<in>set ts. \<not> out_of_vocab r t"
      then show ?thesis using False by simp
    next
      fix k o' assume "k < length ts" "length o' = length (output_ids r)"
        "\<forall>j. j \<noteq> length (output_ids r) - n + (i + 1) + k \<longrightarrow> o' ! j = output_ids r ! j"
        "vocab_loop n (i + 1) ts r = (r\<lparr>output_ids := o', finished_reason := Some (FINISH_MATCHED_STR ''NaN happened''),
              finished_len := Some (length (output_ids r) - n + (i + 1) + k + 1)\<rparr>, True)"
      then show ?thesis using False
        by (intro disjI2 exI [of _ "Suc k"]) (auto intro!: exI [of _ o'])
    qed
  qed
qed


text \<open>Everything but the finish fields and one output token is left alone.\<close>

definition finish_frame :: "req \<Rightarrow> req \<Rightarrow> bool" where
  "finish_frame r r' \<longleftrightarrow>
     r' = r\<lparr>output_ids := output_ids r', finished_reason := finished_reason r',
            to_finish := to_finish r', finished_len := finished_len r'\<rparr>
   \<and> length (output_ids r') = length (output_ids r)"

lemma finish_frame_refl [simp]: "finish_frame r r"
  by (simp add: finish_frame_def)

lemma token_finish_frame: "finish_frame r (fst (check_token_based_finish new r))"
  using token_loop_cases [of "length new" 0 new r]
  by (auto simp: check_token_based_finish_def finish_frame_def)

lemma vocab_finish_frame: "finish_frame r (fst (check_vocab_boundary_finish new r))"
  using vocab_loop_cases [of "length new" 0 new r]
  by (auto simp: check_vocab_boundary_finish_def finish_frame_def)

lemma str_finish_frame:
  "finish_frame r (fst (check_str_based_finish e r))"
  "output_ids (fst (check_str_based_finish e r)) = output_ids r"
  "finished_len (fst (check_str_based_finish e r)) = finished_len r"
  by (auto simp: check_str_based_finish_def finish_frame_def Let_def split: option.splits)

lemma check_token_False: "check_token_based_finish new r = (r', False) \<Longrightarrow> r' = r"
  using token_loop_cases [of "length new" 0 new r]
  by (auto simp: check_token_based_finish_def split: if_splits)

lemma check_vocab_False: "check_vocab_boundary_finish new r = (r', False) \<Longrightarrow> r' = r"
  using vocab_loop_cases [of "length new" 0 new r] by (auto simp: check_vocab_boundary_finish_def)

text \<open>The check as a chain of alternatives.\<close>

lemma check_finished_alt:
  assumes "\<not> finished r" "to_finish r = None" "length (output_ids r) < max_new_tokens (sampling_params r)"
    "\<not> (case grammar r of None \<Rightarrow> False | Some (term, toks) \<Rightarrow> term toks)"
  shows "check_finished e n r =
    (let new = last_n n (output_ids r) in
     if snd (check_token_based_finish new r) then fst (check_token_based_finish new r)
     else if snd (check_vocab_boundary_finish new r) then fst (check_vocab_boundary_finish new r)
     else fst (check_str_based_finish e r))"
proof -
  have g: "(case grammar r of None \<Rightarrow> False | Some (term, toks) \<Rightarrow> term toks) = False" using assms(4) by simp
  let ?new = "last_n n (output_ids r)"
  obtain r1 b1 where t: "check_token_based_finish ?new r = (r1, b1)" by (metis surj_pair)
  obtain r2 b2 where v: "check_vocab_boundary_finish ?new r = (r2, b2)" by (metis surj_pair)
  have "\<not> b1 \<Longrightarrow> r1 = r" "\<not> b2 \<Longrightarrow> r2 = r" using check_token_False [of ?new r r1] check_vocab_False [of ?new r r2] t v by auto
  then show ?thesis
    using assms(1-3) t v unfolding check_finished_def g by (cases b1; cases b2) (simp_all add: Let_def)
qed

lemma check_finished_frame: "finish_frame r (check_finished e n r)"
proof (cases "finished r \<or> to_finish r \<noteq> None \<or> max_new_tokens (sampling_params r) \<le> length (output_ids r)
    \<or> (case grammar r of None \<Rightarrow> False | Some (term, toks) \<Rightarrow> term toks)")
  case True
  then show ?thesis by (auto simp: check_finished_def finish_frame_def split: bool.split)
next
  case False
  then show ?thesis using check_finished_alt [of r e n] token_finish_frame vocab_finish_frame str_finish_frame(1)
    by (auto simp: Let_def not_le)
qed

lemma check_finished_length [simp]: "length (output_ids (check_finished e n r)) = length (output_ids r)"
  using check_finished_frame [of r e n] by (simp add: finish_frame_def)

lemma last_n_split: "n \<le> length xs \<Longrightarrow> 0 < n \<Longrightarrow> xs = take (length xs - n) xs @ last_n n xs \<and> length (last_n n xs) = n"
  by (simp add: last_n_def)

text \<open>When a stop token is among the newly accepted tokens, the request finishes at the first one:
  what it outputs is everything before the new tokens, the new tokens up to it, and the stop token
  itself; tokens accepted after it are cut off.\<close>

theorem stop_at_first_stop_token:
  assumes "\<not> finished r" "to_finish r = None" "length (output_ids r) < max_new_tokens (sampling_params r)"
    "grammar r = None" "\<not> ignore_eos (sampling_params r)" "0 < n" "n \<le> length (output_ids r)"
    "\<exists>t\<in>set (last_n n (output_ids r)). is_stop_token r t"
  shows "\<exists>t. is_stop_token r t \<and> finished_reason (check_finished e n r) = Some (FINISH_MATCHED_TOKEN t)
    \<and> output_ids_through_stop (check_finished e n r) = take (length (output_ids r) - n) (output_ids r)
        @ takeWhile (\<lambda>x. \<not> is_stop_token r x) (last_n n (output_ids r)) @ [t]"
proof -
  let ?new = "last_n n (output_ids r)" and ?old = "take (length (output_ids r) - n) (output_ids r)"
  note sp = last_n_split [OF assms(7,6)]
  from token_loop_cases [of "length ?new" 0 ?new r] assms(8)
  obtain k where k: "k < length ?new" "is_stop_token r (?new ! k)" "\<forall>j<k. \<not> is_stop_token r (?new ! j)"
    and run: "token_loop (length ?new) 0 ?new r = (r\<lparr>finished_reason := Some (FINISH_MATCHED_TOKEN (?new ! k)),
              finished_len := Some (length (output_ids r) - length ?new + k + 1)\<rparr>, True)"
    by auto
  have eq: "check_finished e n r = r\<lparr>finished_reason := Some (FINISH_MATCHED_TOKEN (?new ! k)),
              finished_len := Some (length (output_ids r) - length ?new + k + 1)\<rparr>"
    using check_finished_alt [of r e n] assms(1-5) run by (simp add: check_token_based_finish_def Let_def)
  have tw: "takeWhile (\<lambda>x. \<not> is_stop_token r x) ?new = take k ?new"
    using k by (intro takeWhile_eq_take_P_nth) auto
  have "take (length (output_ids r) - n + k + 1) (output_ids r) = ?old @ take (k + 1) ?new"
    using sp assms(7) by (metis add.assoc add_diff_cancel_left' append_eq_conv_conj diff_diff_cancel
        length_take min.absorb2 diff_le_self take_add)
  then have "output_ids_through_stop (check_finished e n r) = ?old @ take k ?new @ [?new ! k]"
    using k(1) sp by (simp add: eq output_ids_through_stop_def take_Suc_conv_app_nth)
  then show ?thesis using k(2) tw by (intro exI [of _ "?new ! k"]) (simp add: eq)
qed

lemma check_finished_early:
  assumes "finished r \<or> to_finish r \<noteq> None \<or> max_new_tokens (sampling_params r) \<le> length (output_ids r)
    \<or> (case grammar r of None \<Rightarrow> False | Some (term, toks) \<Rightarrow> term toks)"
  shows "finished (check_finished e n r) \<and> output_ids (check_finished e n r) = output_ids r"
proof -
  consider "finished r" | "\<not> finished r" "to_finish r \<noteq> None"
    | "\<not> finished r" "to_finish r = None" "max_new_tokens (sampling_params r) \<le> length (output_ids r)"
    | "\<not> finished r" "to_finish r = None" "\<not> max_new_tokens (sampling_params r) \<le> length (output_ids r)"
      "(case grammar r of None \<Rightarrow> False | Some (term, toks) \<Rightarrow> term toks) = True"
    using assms by blast
  then show ?thesis
  proof cases
    case 4
    then show ?thesis unfolding check_finished_def by (simp only: if_False bool.case simp_thms) (simp add: finished_def)
  qed (simp_all add: check_finished_def finished_def)
qed

lemma check_finished_unfinished: "\<not> finished (check_finished e n r) \<Longrightarrow> check_finished e n r = r"
proof (cases "finished r \<or> to_finish r \<noteq> None \<or> max_new_tokens (sampling_params r) \<le> length (output_ids r)
    \<or> (case grammar r of None \<Rightarrow> False | Some (term, toks) \<Rightarrow> term toks)")
  case True
  then show "\<not> finished (check_finished e n r) \<Longrightarrow> check_finished e n r = r"
    using check_finished_early by blast
next
  case False
  let ?new = "last_n n (output_ids r)"
  assume u: "\<not> finished (check_finished e n r)"
  have "snd (check_token_based_finish ?new r) \<Longrightarrow> finished (fst (check_token_based_finish ?new r))"
    using token_loop_cases [of "length ?new" 0 ?new r] by (auto simp: check_token_based_finish_def finished_def)
  moreover have "snd (check_vocab_boundary_finish ?new r) \<Longrightarrow> finished (fst (check_vocab_boundary_finish ?new r))"
    using vocab_loop_cases [of "length ?new" 0 ?new r] by (auto simp: check_vocab_boundary_finish_def finished_def)
  moreover have "finished (fst (check_str_based_finish e r)) \<or> fst (check_str_based_finish e r) = r"
    by (auto simp: check_str_based_finish_def finished_def Let_def split: option.splits)
  moreover have "check_finished e n r = (if snd (check_token_based_finish ?new r)
      then fst (check_token_based_finish ?new r)
      else if snd (check_vocab_boundary_finish ?new r) then fst (check_vocab_boundary_finish ?new r)
      else fst (check_str_based_finish e r))"
    using False by (intro check_finished_alt [unfolded Let_def]) (simp_all only: de_Morgan_disj not_le not_not simp_thms)
  ultimately show "check_finished e n r = r" using u by metis
qed

text \<open>Checking after one token can only touch that token.\<close>

lemma check_finished_butlast:
  assumes "output_ids r \<noteq> []"
  shows "butlast (output_ids (check_finished e 1 r)) = butlast (output_ids r)"
proof -
  have new: "last_n 1 (output_ids r) = [last (output_ids r)]"
    using assms by (cases "output_ids r" rule: rev_cases) (simp_all add: last_n_def)
  have tok: "output_ids (fst (check_token_based_finish xs r)) = output_ids r" for xs
    using token_loop_cases [of "length xs" 0 xs r] by (auto simp: check_token_based_finish_def)
  have "butlast (output_ids (fst (check_vocab_boundary_finish [t] r))) = butlast (output_ids r)" for t
    using vocab_loop_cases [of 1 0 "[t]" r]
    by (auto simp: check_vocab_boundary_finish_def nth_butlast intro!: nth_equalityI)
  note voc = this
  show ?thesis
  proof (cases "finished r \<or> to_finish r \<noteq> None \<or> max_new_tokens (sampling_params r) \<le> length (output_ids r)
      \<or> (case grammar r of None \<Rightarrow> False | Some (term, toks) \<Rightarrow> term toks)")
    case True
    then show ?thesis using check_finished_early by simp
  next
    case False
    have "check_finished e 1 r = (if snd (check_token_based_finish [last (output_ids r)] r)
        then fst (check_token_based_finish [last (output_ids r)] r)
        else if snd (check_vocab_boundary_finish [last (output_ids r)] r)
        then fst (check_vocab_boundary_finish [last (output_ids r)] r) else fst (check_str_based_finish e r))"
      using False unfolding new [symmetric]
      by (intro check_finished_alt [unfolded Let_def]) (simp_all only: de_Morgan_disj not_le not_not simp_thms)
    then show ?thesis using tok voc str_finish_frame(2) by metis
  qed
qed

subsection \<open>The acceptance histogram\<close>

definition weighted :: "nat list \<Rightarrow> nat" where
  "weighted h = sum_list (map2 (*) [0..<length h] h)"

lemma sum_list_update_add: "k < length h \<Longrightarrow> sum_list (h[k := h ! k + c]) = sum_list h + (c :: nat)"
  by (simp add: sum_list_update)

lemma weighted_pad: "weighted (h @ replicate n 0) = weighted h"
proof -
  have "map2 (*) [0..<length h + n] (h @ replicate n 0) = map2 (*) [0..<length h] h @ replicate n 0"
    by (rule nth_equalityI) (auto simp: nth_append)
  then show ?thesis by (simp add: weighted_def)
qed

lemma bump_padded:
  assumes "k < length h"
  shows "sum_list (h[k := h ! k + 1]) = sum_list h + 1" "weighted (h[k := h ! k + 1]) = weighted h + k"
proof -
  show "sum_list (h[k := h ! k + 1]) = sum_list h + 1" by (rule sum_list_update_add [OF assms])
  let ?w = "map2 (*) [0..<length h] h"
  have "map2 (*) [0..<length (h[k := h ! k + 1])] (h[k := h ! k + 1]) = ?w[k := ?w ! k + k]"
    using assms by (intro nth_equalityI) (auto simp: nth_list_update)
  then show "weighted (h[k := h ! k + 1]) = weighted h + k"
    using sum_list_update_add [of k ?w k] assms by (simp add: weighted_def)
qed

lemma bump_sums: "sum_list (bump k h) = sum_list h + 1" "weighted (bump k h) = weighted h + k"
proof -
  let ?h = "if length h \<le> k then h @ replicate (k - length h + 1) 0 else h"
  have b: "bump k h = ?h[k := ?h ! k + 1]" by (simp only: bump_def Let_def)
  have len: "k < length ?h" by auto
  have s: "sum_list ?h = sum_list h" "weighted ?h = weighted h" by (simp_all add: weighted_pad del: replicate_Suc)
  show "sum_list (bump k h) = sum_list h + 1" "weighted (bump k h) = weighted h + k"
    unfolding b using bump_padded [OF len] s by simp_all
qed

text \<open>The statistics of a request agree with each other.\<close>

definition spec_stats_ok :: "req \<Rightarrow> bool" where
  "spec_stats_ok r \<longleftrightarrow> sum_list (spec_acceptance_histogram r) = spec_verify_ct r
     \<and> weighted (spec_acceptance_histogram r) = spec_accepted_tokens r"

subsection \<open>A concrete request\<close>

definition example_params :: sampling_params where
  "example_params = \<lparr>max_new_tokens = 100, ignore_eos = False, stop_token_ids = [2], stop_strs = [],
     stop_regex_strs = [], sp_top_k = 1, use_replay_dis = False\<rparr>"

definition example_req :: "int list \<Rightarrow> int list \<Rightarrow> req" where
  "example_req prompt out = \<lparr>output_ids = out, customized_info = None, send_token_offset = 0, finished_len = None,
     origin_input_ids = prompt, sampling_params = example_params, eos_token_ids = [2], req_tokenizer = None,
     vocab_size = 50, decoded_text = [], grammar = None, finished_reason = None, to_finish = None,
     req_pool_idx = Some 0, is_chunked = 0, prefix_indices = [], extend_input_len = 0, kv_committed_len = 4,
     kv_allocated_len = 4, kv_committed_freed = False, kv_overallocated_freed = False, spec_verify_ct = 0,
     spec_accepted_tokens = 0, spec_acceptance_histogram = [], retraction_count = 0, is_retracted = False,
     fill_ids = [], req_extra_key = None, req_priority = None, last_node = None, cache_protected_len = 0,
     return_logprob = False, logprob_start_len = -1, extend_logprob_start_len = 0\<rparr>"

definition example_env :: env where
  "example_env = \<lparr>tail_str = (\<lambda>_. []), re_search = (\<lambda>_ _. False)\<rparr>"

theorem stop_at_first_stop_token_witness:
  "output_ids_through_stop (check_finished example_env 3 (example_req [9] [7, 8, 2, 6])) = [7, 8, 2]"
proof -
  have new: "last_n 3 [7, 8, 2, 6 :: int] = [8, 2, 6]" by code_simp
  have stop: "is_stop_token (example_req [9] [7, 8, 2, 6]) t \<longleftrightarrow> t = 2" for t
    by (auto simp: is_stop_token_def example_req_def example_params_def)
  show ?thesis
    using stop_at_first_stop_token [of "example_req [9] [7, 8, 2, 6]" 3 example_env] new stop
    by (simp add: example_req_def example_params_def finished_def)
qed

end
