(* ===== verification/Kv_Manager.thy ===== *)
theory Kv_Manager
  imports Kv_Allocator Req_State
begin

section \<open>Mapping requests to KV slots\<close>

text \<open>
  Model of \<^verbatim>\<open>ReqToTokenPool\<close> (\<^verbatim>\<open>srt/mem_cache/memory_pool.py\<close>), of the allocation helpers of
  \<^verbatim>\<open>srt/mem_cache/common.py\<close> and of the kernel \<^verbatim>\<open>assign_req_to_token_pool\<close> of
  \<^verbatim>\<open>srt/speculative/spec_utils.py\<close>.

  \<^verbatim>\<open>req_to_token\<close> is a list of rows, one per request slot. The kernels address it as flat memory,
  so a row that is too short would spill into the next one: the kernel model works on the
  concatenation of the rows. The prefix cache is a parameter: its state \<open>'c\<close>, its eviction, and
  what it does with a finished request. Sliding-window and Mamba pools are not modelled.
\<close>

record req_pool =
  req_to_token :: "int list list"
  max_context_len :: nat
  free_slots :: "nat list"

record 'c mem_state =
  cache :: 'c
  kv :: kv_alloc
  pool :: req_pool

record 'c cache_ops =
  cache_evict :: "'c \<Rightarrow> kv_alloc \<Rightarrow> nat \<Rightarrow> ('c \<times> kv_alloc) res"
  is_chunk_cache :: bool
  cache_finished :: "'c mem_state \<Rightarrow> req \<Rightarrow> bool \<Rightarrow> ('c mem_state \<times> req) res"

subsection \<open>Request slots\<close>

definition pool_init :: "nat \<Rightarrow> nat \<Rightarrow> req_pool" where
  "pool_init n ctx = \<lparr>req_to_token = replicate n (replicate ctx 0), max_context_len = ctx,
     free_slots = [0..<n]\<rparr>"

fun assign_slots :: "nat list \<Rightarrow> req list \<Rightarrow> req list" where
  "assign_slots sel [] = []"
| "assign_slots sel (r # rs) =
     (case req_pool_idx r of
        Some _ \<Rightarrow> r # assign_slots sel rs
      | None \<Rightarrow> (case sel of
            [] \<Rightarrow> r # assign_slots [] rs
          | s # ss \<Rightarrow> r\<lparr>req_pool_idx := Some s\<rparr> # assign_slots ss rs))"

definition pool_alloc :: "bool \<Rightarrow> req_pool \<Rightarrow> req list \<Rightarrow> (req_pool \<times> req list \<times> nat list option) res" where
  "pool_alloc any_dllm p reqs =
     (let reusing = filter (\<lambda>r. req_pool_idx r \<noteq> None) reqs in
      if \<not> any_dllm \<and> 1 < length (filter (\<lambda>r. 0 < is_chunked r) reusing) then Inl AssertionError
      else if \<not> (\<forall>r\<in>set reusing. 0 < is_chunked r \<or> 0 < kv_committed_len r) then Inl AssertionError
      else let need = length reqs - length reusing in
      if length (free_slots p) < need then Inr (p, reqs, None)
      else let reqs' = assign_slots (take need (free_slots p)) reqs in
        Inr (p\<lparr>free_slots := drop need (free_slots p)\<rparr>, reqs', Some (map (\<lambda>r. the (req_pool_idx r)) reqs')))"

definition pool_free :: "req_pool \<Rightarrow> req \<Rightarrow> (req_pool \<times> req) res" where
  "pool_free p r =
     (case req_pool_idx r of
        None \<Rightarrow> Inl AssertionError
      | Some i \<Rightarrow> Inr (p\<lparr>free_slots := free_slots p @ [i]\<rparr>, r\<lparr>req_pool_idx := None\<rparr>))"

text \<open>\<^verbatim>\<open>req_to_token[i, a:b] = values\<close>.\<close>

definition pool_write :: "req_pool \<Rightarrow> nat \<Rightarrow> nat \<Rightarrow> nat \<Rightarrow> int list \<Rightarrow> req_pool res" where
  "pool_write p i a b vs =
     (if length (req_to_token p) \<le> i then Inl IndexError
      else let row = req_to_token p ! i in
        if min b (length row) - min a (length row) \<noteq> length vs then Inl RuntimeError
        else Inr (p\<lparr>req_to_token := (req_to_token p)[i := store a vs row]\<rparr>))"

text \<open>\<^verbatim>\<open>req_to_token[i, n] = v\<close> and \<^verbatim>\<open>req_to_token[i, n - 1]\<close>, where \<open>-1\<close> is the last column.\<close>

definition pool_write1 :: "req_pool \<Rightarrow> nat \<times> nat \<times> int \<Rightarrow> req_pool res" where
  "pool_write1 p w =
     (case w of (i, n, v) \<Rightarrow>
        if length (req_to_token p) \<le> i \<or> length (req_to_token p ! i) \<le> n then Inl IndexError
        else Inr (p\<lparr>req_to_token := (req_to_token p)[i := (req_to_token p ! i)[n := v]]\<rparr>))"

definition pool_read_before :: "req_pool \<Rightarrow> nat \<times> nat \<Rightarrow> int res" where
  "pool_read_before p w =
     (case w of (i, n) \<Rightarrow>
        if length (req_to_token p) \<le> i \<or> length (req_to_token p ! i) < n \<or> req_to_token p ! i = []
        then Inl IndexError
        else Inr (if 0 < n then req_to_token p ! i ! (n - 1) else last (req_to_token p ! i)))"

subsection \<open>The assignment kernel\<close>

definition BLOCK_SIZE :: nat where
  "BLOCK_SIZE = 32"

text \<open>The loop both copy kernels run: \<open>n\<close> entries in blocks of \<open>B\<close>, the last one masked.\<close>

definition copy_blocks :: "nat \<Rightarrow> (nat \<Rightarrow> int) \<Rightarrow> nat \<Rightarrow> nat \<Rightarrow> int list \<Rightarrow> int list" where
  "copy_blocks B src base n mem =
     fold (\<lambda>b m. store (base + b * B) (map src [b * B..<min ((b + 1) * B) n]) m) [0..<ceil_div n B] mem"

definition assign_program ::
  "(nat \<Rightarrow> int) \<Rightarrow> nat \<Rightarrow> nat list \<Rightarrow> nat list \<Rightarrow> nat list \<Rightarrow> int list \<Rightarrow> nat \<Rightarrow> int list \<Rightarrow> int list" where
  "assign_program oob pool_len req_idx start_offset end_offset out_cache_loc pid mem =
     (let kv_start = start_offset ! pid; kv_end = end_offset ! pid;
          out_off = sum_list (take pid (map2 (-) end_offset start_offset))
      in copy_blocks BLOCK_SIZE (\<lambda>k. load_page oob out_cache_loc (out_off + k))
           (req_idx ! pid * pool_len + kv_start) (kv_end - kv_start) mem)"

definition assign_req_to_token_pool ::
  "(nat \<Rightarrow> int) \<Rightarrow> req_pool \<Rightarrow> nat list \<Rightarrow> nat list \<Rightarrow> nat list \<Rightarrow> int list \<Rightarrow> req_pool" where
  "assign_req_to_token_pool oob p req_idx start_offset end_offset out_cache_loc =
     p\<lparr>req_to_token := rows (length (req_to_token p)) (max_context_len p)
        (fold (assign_program oob (max_context_len p) req_idx start_offset end_offset out_cache_loc)
           [0..<length req_idx] (concat (req_to_token p)))\<rparr>"

text \<open>\<^verbatim>\<open>create_flashinfer_kv_indices_triton\<close> without a start index: the slots of every request's
  first \<open>lens ! pid\<close> positions, gathered behind each other.\<close>

definition kv_indices_program ::
  "(nat \<Rightarrow> int) \<Rightarrow> req_pool \<Rightarrow> nat list \<Rightarrow> nat list \<Rightarrow> nat list \<Rightarrow> nat \<Rightarrow> int list \<Rightarrow> int list" where
  "kv_indices_program oob p req_idx lens indptr pid out =
     copy_blocks 512 (\<lambda>k. load_page oob (concat (req_to_token p)) (req_idx ! pid * max_context_len p + k))
       (indptr ! pid) (lens ! pid) out"

definition create_flashinfer_kv_indices ::
  "(nat \<Rightarrow> int) \<Rightarrow> req_pool \<Rightarrow> nat list \<Rightarrow> nat list \<Rightarrow> nat list \<Rightarrow> int list \<Rightarrow> int list" where
  "create_flashinfer_kv_indices oob p req_idx lens indptr out =
     fold (kv_indices_program oob p req_idx lens indptr) [0..<length req_idx] out"

subsection \<open>The last slot of a prefix\<close>

definition get_last_loc_torch :: "req_pool \<Rightarrow> nat list \<Rightarrow> nat list \<Rightarrow> int list res" where
  "get_last_loc_torch p req_idx prefix_lens =
     rmap (\<lambda>(i, n). if length (req_to_token p) \<le> i \<or> max_context_len p < n then Inl IndexError
             else Inr (if 0 < n then req_to_token p ! i ! (n - 1) else -1)) (zip req_idx prefix_lens)"

definition get_last_loc_kernel :: "(nat \<Rightarrow> int) \<Rightarrow> req_pool \<Rightarrow> nat list \<Rightarrow> nat list \<Rightarrow> int list" where
  "get_last_loc_kernel oob p req_idx prefix_lens =
     map2 (\<lambda>i n. if 0 < n then load_page oob (concat (req_to_token p)) (i * max_context_len p + (n - 1))
                 else -1) req_idx prefix_lens"

subsection \<open>Allocating slots for a batch\<close>

definition evict_from_tree_cache :: "'c cache_ops \<Rightarrow> 'c mem_state \<Rightarrow> nat \<Rightarrow> 'c mem_state res" where
  "evict_from_tree_cache ops m num_tokens =
     (if is_chunk_cache ops then Inr m
      else if available_size (kv m) < num_tokens
      then rbind (cache_evict ops (cache m) (kv m) num_tokens) (\<lambda>(c', a'). Inr (m\<lparr>cache := c', kv := a'\<rparr>))
      else Inr m)"

definition alloc_token_slots :: "'c cache_ops \<Rightarrow> 'c mem_state \<Rightarrow> nat \<Rightarrow> ('c mem_state \<times> int list) res" where
  "alloc_token_slots ops m num_tokens =
     rbind (evict_from_tree_cache ops m num_tokens) (\<lambda>m1.
       case token_alloc (kv m1) num_tokens of
         (a', None) \<Rightarrow> Inl RuntimeError
       | (a', Some locs) \<Rightarrow> Inr (m1\<lparr>kv := a'\<rparr>, locs))"

definition alloc_paged_token_slots_extend ::
  "(nat \<Rightarrow> int) \<Rightarrow> (nat \<Rightarrow> int) \<Rightarrow> 'c cache_ops \<Rightarrow> 'c mem_state \<Rightarrow> nat list \<Rightarrow> nat list \<Rightarrow> int list \<Rightarrow> nat
     \<Rightarrow> ('c mem_state \<times> int list) res" where
  "alloc_paged_token_slots_extend oob garbage ops m prefix_lens seq_lens last_loc extend_num_tokens =
     rbind (evict_from_tree_cache ops m (extend_num_tokens + length seq_lens * page_size (kv m))) (\<lambda>m1.
      rbind (paged_alloc_extend oob garbage (kv m1) prefix_lens seq_lens last_loc extend_num_tokens)
        (\<lambda>(a', out). case out of None \<Rightarrow> Inl RuntimeError | Some locs \<Rightarrow> Inr (m1\<lparr>kv := a'\<rparr>, locs)))"

definition alloc_paged_token_slots_decode ::
  "(nat \<Rightarrow> int) \<Rightarrow> (nat \<Rightarrow> int) \<Rightarrow> 'c cache_ops \<Rightarrow> 'c mem_state \<Rightarrow> nat list \<Rightarrow> int list
     \<Rightarrow> ('c mem_state \<times> int list) res" where
  "alloc_paged_token_slots_decode oob garbage ops m seq_lens last_loc =
     rbind (evict_from_tree_cache ops m (length seq_lens * page_size (kv m))) (\<lambda>m1.
      rbind (paged_alloc_decode oob garbage (kv m1) seq_lens last_loc)
        (\<lambda>(a', out). case out of None \<Rightarrow> Inl RuntimeError | Some locs \<Rightarrow> Inr (m1\<lparr>kv := a'\<rparr>, locs)))"

definition alloc_req_slots :: "bool \<Rightarrow> req_pool \<Rightarrow> req list \<Rightarrow> (req_pool \<times> req list \<times> nat list) res" where
  "alloc_req_slots any_dllm p reqs =
     rbind (pool_alloc any_dllm p reqs) (\<lambda>(p', reqs', idx).
       case idx of None \<Rightarrow> Inl RuntimeError | Some is \<Rightarrow> Inr (p', reqs', is))"

text \<open>
  The loop of \<^verbatim>\<open>write_cache_indices\<close>: the cached prefix and then the new slots of every request.
\<close>

fun write_cache_indices ::
  "int list \<Rightarrow> (nat \<times> int list \<times> nat \<times> nat) list \<Rightarrow> req_pool \<Rightarrow> req_pool res" where
  "write_cache_indices out [] p = Inr p"
| "write_cache_indices out ((i, prefix, seq_len, extend_len) # rest) p =
     rbind (pool_write p i 0 (length prefix) prefix) (\<lambda>p1.
     rbind (pool_write p1 i (length prefix) seq_len (take extend_len out)) (\<lambda>p2.
     write_cache_indices (drop extend_len out) rest p2))"

definition alloc_for_extend ::
  "(nat \<Rightarrow> int) \<Rightarrow> (nat \<Rightarrow> int) \<Rightarrow> bool \<Rightarrow> 'c cache_ops \<Rightarrow> 'c mem_state \<Rightarrow> req list \<Rightarrow> nat list \<Rightarrow> nat list
     \<Rightarrow> ('c mem_state \<times> req list \<times> int list \<times> nat list) res" where
  "alloc_for_extend oob garbage any_dllm ops m reqs seq_lens extend_lens =
     (let prefix = map prefix_indices reqs; extend_num_tokens = sum_list extend_lens in
      rbind (alloc_req_slots any_dllm (pool m) reqs) (\<lambda>(p', reqs', idx).
      let m0 = m\<lparr>pool := p'\<rparr> in
      rbind (if page_size (kv m) = 1 then alloc_token_slots ops m0 extend_num_tokens
             else alloc_paged_token_slots_extend oob garbage ops m0 (map length prefix) seq_lens
                    (map (\<lambda>t. if t \<noteq> [] then last t else -1) prefix) extend_num_tokens)
        (\<lambda>(m1, out).
          rbind (write_cache_indices out (zip idx (zip prefix (zip seq_lens extend_lens))) (pool m1))
            (\<lambda>p2. Inr (m1\<lparr>pool := p2\<rparr>, reqs', out, idx)))))"

definition alloc_for_decode ::
  "(nat \<Rightarrow> int) \<Rightarrow> (nat \<Rightarrow> int) \<Rightarrow> 'c cache_ops \<Rightarrow> 'c mem_state \<Rightarrow> nat list \<Rightarrow> nat list \<Rightarrow> nat
     \<Rightarrow> ('c mem_state \<times> int list) res" where
  "alloc_for_decode oob garbage ops m req_idx seq_lens token_per_req =
     rbind (if page_size (kv m) = 1
            then alloc_token_slots ops m (length seq_lens * token_per_req)
            else rbind (rmap (pool_read_before (pool m)) (zip req_idx seq_lens)) (\<lambda>last_loc.
                 alloc_paged_token_slots_decode oob garbage ops m (map (\<lambda>n. n + token_per_req) seq_lens) last_loc))
       (\<lambda>(m1, out).
          if length out \<noteq> length req_idx then Inl RuntimeError
          else rbind (rfold pool_write1 (pool m1) (zip req_idx (zip seq_lens out)))
            (\<lambda>p2. Inr (m1\<lparr>pool := p2\<rparr>, out)))"

subsection \<open>Releasing a request\<close>

text \<open>
  \<^verbatim>\<open>release_kv_cache\<close> with the token allocator or, when \<open>page > 1\<close>, the paged one; \<open>spec\<close> says
  whether speculative decoding is on.
\<close>

definition release_kv_cache ::
  "'c cache_ops \<Rightarrow> nat \<Rightarrow> bool \<Rightarrow> 'c mem_state \<Rightarrow> req \<Rightarrow> bool \<Rightarrow> ('c mem_state \<times> req) res" where
  "release_kv_cache ops page spec m r is_insert =
     (if req_pool_idx r = None then Inl AssertionError
      else rbind (cache_finished ops m r is_insert) (\<lambda>(m1, r1).
        case req_pool_idx r1 of
          None \<Rightarrow> Inr (m1, r1)
        | Some i \<Rightarrow>
          rbind (pop_overallocated_kv_cache r1) (\<lambda>(r2, start_p, end_p).
          if \<not> spec \<and> start_p \<noteq> end_p then Inl AssertionError
          else let start_a = (if 1 < page then ceil_align start_p page else start_p) in
          rbind (if start_a < end_p
                 then (if length (req_to_token (pool m1)) \<le> i then Inl IndexError
                       else let idx = slice start_a end_p (req_to_token (pool m1) ! i) in
                         rbind (if 1 < page then paged_free (kv m1) idx else Inr (token_free (kv m1) idx))
                           (\<lambda>a'. Inr (m1\<lparr>kv := a'\<rparr>)))
                 else Inr m1) (\<lambda>m2.
          rbind (pool_free (pool m2) r2) (\<lambda>(p', r3). Inr (m2\<lparr>pool := p'\<rparr>, r3))))))"


subsection \<open>Flat memory and rows\<close>

definition uniform :: "nat \<Rightarrow> 'a list list \<Rightarrow> bool" where
  "uniform w m \<longleftrightarrow> (\<forall>row\<in>set m. length row = w)"

lemma length_concat_uniform: "uniform w m \<Longrightarrow> length (concat m) = length m * w"
  by (induction m) (auto simp: uniform_def)

lemma nth_concat_uniform:
  assumes "uniform w m" "k < length m * w" shows "concat m ! k = m ! (k div w) ! (k mod w)"
  using assms
proof (induction m arbitrary: k)
  case Nil
  then show ?case by simp
next
  case (Cons row m)
  then have w: "0 < w" "length row = w" by (auto simp: uniform_def intro: Suc_leI)
  show ?case
  proof (cases "k < w")
    case True
    then show ?thesis using w by (simp add: nth_append)
  next
    case False
    then have "concat m ! (k - w) = m ! ((k - w) div w) ! ((k - w) mod w)"
      using Cons w by (intro Cons.IH) (auto simp: uniform_def)
    then show ?thesis using False w by (simp add: nth_append le_div_geq le_mod_geq)
  qed
qed

lemma uniform_update: "uniform w m \<Longrightarrow> length row = w \<Longrightarrow> uniform w (m[i := row])"
  unfolding uniform_def using set_update_subset_insert by fastforce

lemma rows_concat_uniform: "uniform w m \<Longrightarrow> rows (length m) w (concat m) = m"
  by (intro rows_concat) (auto simp: uniform_def)

text \<open>A store inside one row of flat memory.\<close>

lemma store_in_row:
  assumes u: "uniform w m" and i: "i < length m" and fit: "a + length vs \<le> w"
  shows "store (i * w + a) vs (concat m) = concat (m[i := store a vs (m ! i)])"
proof (rule nth_equalityI)
  have lm: "length (m ! i) = w" using u i by (simp add: uniform_def)
  have u': "uniform w (m[i := store a vs (m ! i)])" using u lm by (simp add: uniform_update)
  show len: "length (store (i * w + a) vs (concat m)) = length (concat (m[i := store a vs (m ! i)]))"
    using length_concat_uniform [OF u] length_concat_uniform [OF u'] by simp
  fix k assume "k < length (store (i * w + a) vs (concat m))"
  then have k: "k < length m * w" using length_concat_uniform [OF u] by simp
  then have w: "0 < w" by (cases w) auto
  have d: "k div w < length m" using k w by (simp add: div_less_iff_less_mult)
  have e: "k = k div w * w + k mod w" by simp
  have md: "k mod w < w" using w by simp
  have "concat (m[i := store a vs (m ! i)]) ! k = (m[i := store a vs (m ! i)]) ! (k div w) ! (k mod w)"
    using nth_concat_uniform [OF u', of k] k by simp
  also have "\<dots> = store (i * w + a) vs (concat m) ! k"
  proof (cases "k div w = i")
    case True
    then have ki: "k = i * w + k mod w" using e by simp
    then have "i * w + a \<le> k \<longleftrightarrow> a \<le> k mod w" "k < i * w + a + length vs \<longleftrightarrow> k mod w < a + length vs"
      "k - (i * w + a) = k mod w - a" by linarith+
    then show ?thesis using True k d i lm md nth_concat_uniform [OF u k] length_concat_uniform [OF u]
      by (simp add: store_def)
  next
    case False
    have "\<not> (i * w + a \<le> k \<and> k < i * w + a + length vs)"
    proof
      assume h: "i * w + a \<le> k \<and> k < i * w + a + length vs"
      then have "i * w \<le> k" "k < (i + 1) * w" using fit by auto
      then have "k div w = i" using w by (intro div_nat_eqI) (auto simp: mult.commute)
      then show False using False by simp
    qed
    then show ?thesis using False d k nth_concat_uniform [OF u k] length_concat_uniform [OF u]
      by (auto simp: store_def)
  qed
  finally show "store (i * w + a) vs (concat m) ! k = concat (m[i := store a vs (m ! i)]) ! k" by simp
qed

subsection \<open>What the assignment kernel writes\<close>

lemma copy_blocks_eq: "0 < B \<Longrightarrow> copy_blocks B src base n mem = store base (map src [0..<n]) mem"
  unfolding copy_blocks_def by (rule fold_store_blocks)

text \<open>A batch whose ranges fit in the rows of different requests.\<close>

definition ranges_ok :: "req_pool \<Rightarrow> nat list \<Rightarrow> nat list \<Rightarrow> nat list \<Rightarrow> int list \<Rightarrow> bool" where
  "ranges_ok p req_idx starts_l ends out \<longleftrightarrow> uniform (max_context_len p) (req_to_token p)
     \<and> length starts_l = length req_idx \<and> length ends = length req_idx \<and> distinct req_idx
     \<and> (\<forall>i<length req_idx. req_idx ! i < length (req_to_token p) \<and> starts_l ! i \<le> ends ! i
          \<and> ends ! i \<le> max_context_len p)
     \<and> length out = sum_list (map2 (-) ends starts_l)"

definition segment :: "nat list \<Rightarrow> nat list \<Rightarrow> int list \<Rightarrow> nat \<Rightarrow> int list" where
  "segment starts_l ends out i =
     take (ends ! i - starts_l ! i) (drop (sum_list (take i (map2 (-) ends starts_l))) out)"

lemma segment_loads:
  assumes "ranges_ok p req_idx starts_l ends out" "i < length req_idx"
  shows "map (\<lambda>k. load_page oob out (sum_list (take i (map2 (-) ends starts_l)) + k)) [0..<ends ! i - starts_l ! i]
    = segment starts_l ends out i"
proof -
  let ?ls = "map2 (-) ends starts_l"
  have "sum_list (take i ?ls) + (ends ! i - starts_l ! i) = sum_list (take (Suc i) ?ls)"
    using assms by (simp add: ranges_ok_def take_Suc_conv_app_nth)
  also have "\<dots> \<le> length out" using assms(1) sum_list_take_le [of "Suc i" ?ls] by (simp add: ranges_ok_def)
  finally have le: "sum_list (take i ?ls) + (ends ! i - starts_l ! i) \<le> length out" .
  show ?thesis unfolding segment_def using le by (intro nth_equalityI) (auto simp: load_page_def)
qed

definition assign_rows :: "nat list \<Rightarrow> nat list \<Rightarrow> nat list \<Rightarrow> int list \<Rightarrow> nat \<Rightarrow> int list list \<Rightarrow> int list list" where
  "assign_rows req_idx starts_l ends out i m =
     m[req_idx ! i := store (starts_l ! i) (segment starts_l ends out i) (m ! (req_idx ! i))]"

lemma assign_flat:
  assumes ok: "ranges_ok p req_idx starts_l ends out" and n: "n \<le> length req_idx"
  shows "fold (assign_program oob (max_context_len p) req_idx starts_l ends out) [0..<n] (concat (req_to_token p))
      = concat (fold (assign_rows req_idx starts_l ends out) [0..<n] (req_to_token p))
    \<and> uniform (max_context_len p) (fold (assign_rows req_idx starts_l ends out) [0..<n] (req_to_token p))
    \<and> length (fold (assign_rows req_idx starts_l ends out) [0..<n] (req_to_token p)) = length (req_to_token p)"
  using n
proof (induction n)
  case 0
  then show ?case using ok by (simp add: ranges_ok_def)
next
  case (Suc n)
  let ?m = "fold (assign_rows req_idx starts_l ends out) [0..<n] (req_to_token p)"
  have IH: "fold (assign_program oob (max_context_len p) req_idx starts_l ends out) [0..<n] (concat (req_to_token p))
      = concat ?m" "uniform (max_context_len p) ?m" "length ?m = length (req_to_token p)"
    using Suc by auto
  have rng: "req_idx ! n < length (req_to_token p)" "starts_l ! n \<le> ends ! n" "ends ! n \<le> max_context_len p"
    using ok Suc.prems by (auto simp: ranges_ok_def)
  have len: "length (segment starts_l ends out n) \<le> ends ! n - starts_l ! n" by (simp add: segment_def)
  have fit: "req_idx ! n < length ?m" "starts_l ! n + length (segment starts_l ends out n) \<le> max_context_len p"
    using rng len IH(3) by linarith+
  have row: "length (?m ! (req_idx ! n)) = max_context_len p" using IH(2) fit(1) by (simp add: uniform_def)
  have "assign_program oob (max_context_len p) req_idx starts_l ends out n (concat ?m)
      = store (req_idx ! n * max_context_len p + starts_l ! n) (segment starts_l ends out n) (concat ?m)"
    using segment_loads [OF ok, of n oob] Suc.prems by (simp add: assign_program_def Let_def copy_blocks_eq BLOCK_SIZE_def)
  also have "\<dots> = concat (assign_rows req_idx starts_l ends out n ?m)"
    using store_in_row [OF IH(2) fit] by (simp only: assign_rows_def [of req_idx starts_l ends out n])
  finally show ?case
    using IH row by (simp add: assign_rows_def [of req_idx starts_l ends out n] uniform_update)
qed

lemma fold_assign_rows:
  assumes "distinct req_idx" "n \<le> length req_idx" "\<forall>i<length req_idx. req_idx ! i < length m"
  shows "(\<forall>i<n. fold (assign_rows req_idx starts_l ends out) [0..<n] m ! (req_idx ! i)
        = store (starts_l ! i) (segment starts_l ends out i) (m ! (req_idx ! i)))
    \<and> (\<forall>r. r \<notin> set (take n req_idx) \<longrightarrow> fold (assign_rows req_idx starts_l ends out) [0..<n] m ! r = m ! r)
    \<and> length (fold (assign_rows req_idx starts_l ends out) [0..<n] m) = length m"
  using assms(2)
proof (induction n)
  case 0
  then show ?case by simp
next
  case (Suc n)
  have new: "req_idx ! n \<notin> set (take n req_idx)"
    using assms(1) Suc.prems by (metis Suc_le_lessD distinct_conv_nth in_set_conv_nth length_take min.absorb4
        nat_neq_iff nth_take order_less_trans)
  have ne: "req_idx ! i \<noteq> req_idx ! n" if "i < n" for i
    using assms(1) Suc.prems that by (simp add: nth_eq_iff_index_eq)
  let ?f = "fold (assign_rows req_idx starts_l ends out) [0..<n] m"
  have IH: "\<And>i. i < n \<Longrightarrow> ?f ! (req_idx ! i) = store (starts_l ! i) (segment starts_l ends out i) (m ! (req_idx ! i))"
    "\<And>r. r \<notin> set (take n req_idx) \<Longrightarrow> ?f ! r = m ! r" "length ?f = length m"
    using Suc by auto
  have step: "fold (assign_rows req_idx starts_l ends out) [0..<Suc n] m =
      ?f[req_idx ! n := store (starts_l ! n) (segment starts_l ends out n) (m ! (req_idx ! n))]"
    using IH(2) [OF new] by (simp add: assign_rows_def)
  have inr: "req_idx ! n < length ?f" using assms(3) Suc.prems IH(3) by simp
  have "i < Suc n \<Longrightarrow> fold (assign_rows req_idx starts_l ends out) [0..<Suc n] m ! (req_idx ! i)
      = store (starts_l ! i) (segment starts_l ends out i) (m ! (req_idx ! i))" for i
    unfolding step using inr ne [of i] IH(1) [of i] by (cases "i = n") auto
  moreover have "r \<notin> set (take (Suc n) req_idx) \<Longrightarrow>
      fold (assign_rows req_idx starts_l ends out) [0..<Suc n] m ! r = m ! r" for r
    unfolding step using Suc.prems IH(2) [of r] by (simp add: take_Suc_conv_app_nth)
  ultimately show ?case using step IH(3) by simp
qed

text \<open>The blocked copy kernel installs the slots of every request in its own row at the positions
  \<open>start..<end\<close> and leaves everything else of \<^verbatim>\<open>req_to_token\<close> untouched.\<close>

theorem assign_req_to_token_pool_spec:
  assumes "ranges_ok p req_idx starts_l ends out"
  shows "(\<forall>i<length req_idx. req_to_token (assign_req_to_token_pool oob p req_idx starts_l ends out) ! (req_idx ! i)
        = store (starts_l ! i) (segment starts_l ends out i) (req_to_token p ! (req_idx ! i)))
    \<and> (\<forall>r<length (req_to_token p). r \<notin> set req_idx \<longrightarrow>
          req_to_token (assign_req_to_token_pool oob p req_idx starts_l ends out) ! r = req_to_token p ! r)"
proof -
  let ?m = "fold (assign_rows req_idx starts_l ends out) [0..<length req_idx] (req_to_token p)"
  have "fold (assign_program oob (max_context_len p) req_idx starts_l ends out) [0..<length req_idx]
      (concat (req_to_token p)) = concat ?m" "uniform (max_context_len p) ?m" "length ?m = length (req_to_token p)"
    using assign_flat [OF assms order_refl] by auto
  then have "req_to_token (assign_req_to_token_pool oob p req_idx starts_l ends out) = ?m"
    using rows_concat_uniform [of "max_context_len p" ?m] by (simp add: assign_req_to_token_pool_def)
  then show ?thesis using assms fold_assign_rows [of req_idx "length req_idx" "req_to_token p" starts_l ends out]
    by (simp add: ranges_ok_def)
qed

theorem assign_req_to_token_pool_spec_witness:
  "req_to_token (assign_req_to_token_pool (\<lambda>_. 0) (pool_init 3 4) [2, 0] [1, 0] [3, 2] [7, 8, 9, 10]) ! 2
     = [0, 7, 8, 0]"
proof -
  have "ranges_ok (pool_init 3 4) [2, 0] [1, 0] [3, 2] [7, 8, 9, 10]"
    by (auto simp: ranges_ok_def pool_init_def uniform_def less_Suc_eq numeral_eq_Suc)
  from assign_req_to_token_pool_spec [OF this, of "\<lambda>_. 0"]
  have "req_to_token (assign_req_to_token_pool (\<lambda>_. 0) (pool_init 3 4) [2, 0] [1, 0] [3, 2] [7, 8, 9, 10]) ! 2
      = store 1 (segment [1, 0] [3, 2] [7, 8, 9, 10] 0) (req_to_token (pool_init 3 4) ! 2)" by auto
  also have "\<dots> = [0, 7, 8, 0]" by code_simp
  finally show ?thesis .
qed


subsection \<open>Gathering KV indices\<close>

text \<open>The gather kernel concatenates, request by request, the leading slots of its row.\<close>

lemma create_flashinfer_kv_indices_eq:
  assumes u: "uniform (max_context_len p) (req_to_token p)" and l: "length lens = length req_idx"
    and ix: "\<And>i. i < length req_idx \<Longrightarrow> req_idx ! i < length (req_to_token p) \<and> lens ! i \<le> max_context_len p"
    and ptr: "indptr = map (\<lambda>i. sum_list (take i lens)) [0..<length req_idx + 1]"
    and out: "length out = sum_list lens"
  shows "create_flashinfer_kv_indices oob p req_idx lens indptr out
    = concat (map (\<lambda>i. take (lens ! i) (req_to_token p ! (req_idx ! i))) [0..<length req_idx])"
proof -
  let ?w = "max_context_len p" and ?seg = "\<lambda>i. take (lens ! i) (req_to_token p ! (req_idx ! i))"
  have row: "length (req_to_token p ! (req_idx ! i)) = ?w" if "i < length req_idx" for i
    using u ix [OF that] by (simp add: uniform_def)
  have seg: "map (\<lambda>k. load_page oob (concat (req_to_token p)) (req_idx ! i * ?w + k)) [0..<lens ! i] = ?seg i"
    if i: "i < length req_idx" for i
  proof (rule nth_equalityI)
    show "length (map (\<lambda>k. load_page oob (concat (req_to_token p)) (req_idx ! i * ?w + k)) [0..<lens ! i]) = length (?seg i)"
      using row [OF i] ix [OF i] by simp
    fix k assume "k < length (map (\<lambda>k. load_page oob (concat (req_to_token p)) (req_idx ! i * ?w + k)) [0..<lens ! i])"
    then have k: "k < lens ! i" "k < ?w" using ix [OF i] by auto
    have "req_idx ! i * ?w + k < (req_idx ! i + 1) * ?w" using k(2) by simp
    also have "\<dots> \<le> length (req_to_token p) * ?w" using ix [OF i] by (intro mult_le_mono1) simp
    finally have lt: "req_idx ! i * ?w + k < length (req_to_token p) * ?w" .
    then show "map (\<lambda>k. load_page oob (concat (req_to_token p)) (req_idx ! i * ?w + k)) [0..<lens ! i] ! k = ?seg i ! k"
      using nth_concat_uniform [OF u lt] length_concat_uniform [OF u] k by (simp add: load_page_def)
  qed
  have "create_flashinfer_kv_indices oob p req_idx lens indptr out
      = fold (\<lambda>i. store (sum_list (take i lens)) (?seg i)) [0..<length req_idx] out"
    unfolding create_flashinfer_kv_indices_def
    by (rule fold_upt_cong) (simp add: kv_indices_program_def copy_blocks_eq seg ptr nth_append del: upt_Suc)
  also have "\<dots> = concat (map ?seg [0..<length req_idx]) @ drop (sum_list (take (length req_idx) lens)) out"
    by (rule fold_store_segments) (use l row ix out in \<open>auto simp: min_absorb2\<close>)
  finally show ?thesis using l out by simp
qed

subsection \<open>Lookups agree\<close>

text \<open>The Triton lookup and the torch expression it replaces agree on valid indices.\<close>

lemma get_last_loc_agree:
  assumes "uniform (max_context_len p) (req_to_token p)" "length prefix_lens = length req_idx"
    "\<forall>i\<in>set req_idx. i < length (req_to_token p)" "\<forall>n\<in>set prefix_lens. n \<le> max_context_len p"
  shows "get_last_loc_torch p req_idx prefix_lens = Inr (get_last_loc_kernel oob p req_idx prefix_lens)"
proof -
  have "(if length (req_to_token p) \<le> i \<or> max_context_len p < n then Inl IndexError
        else Inr (if 0 < n then req_to_token p ! i ! (n - 1) else -1))
      = Inr (if 0 < n then load_page oob (concat (req_to_token p)) (i * max_context_len p + (n - 1)) else -1)"
    if "i < length (req_to_token p)" "n \<le> max_context_len p" for i n
  proof (cases n)
    case (Suc k)
    let ?w = "max_context_len p"
    have k: "k < ?w" using that(2) Suc by simp
    have "i * ?w + k < (i + 1) * ?w" using k by simp
    also have "\<dots> \<le> length (req_to_token p) * ?w" using that(1) by (intro mult_le_mono1) simp
    finally have lt: "i * ?w + k < length (req_to_token p) * ?w" .
    then have "load_page oob (concat (req_to_token p)) (i * ?w + k) = req_to_token p ! i ! k"
      using nth_concat_uniform [OF assms(1) lt] length_concat_uniform [OF assms(1)] k
      by (simp add: load_page_def)
    then show ?thesis using that Suc by simp
  qed (use that in simp)
  note cell = this
  show ?thesis unfolding get_last_loc_torch_def get_last_loc_kernel_def rmap_eq_Inr
    using assms(2-4) by (auto simp: list_all2_conv_all_nth cell)
qed

subsection \<open>Request slots are never shared\<close>

definition used_slots :: "req list \<Rightarrow> nat list" where
  "used_slots reqs = map (\<lambda>r. the (req_pool_idx r)) (filter (\<lambda>r. req_pool_idx r \<noteq> None) reqs)"

lemma assign_slots_used:
  assumes "length sel = length (filter (\<lambda>r. req_pool_idx r = None) reqs)"
  shows "mset (map (\<lambda>r. the (req_pool_idx r)) (assign_slots sel reqs)) = mset (used_slots reqs) + mset sel
    \<and> (\<forall>r\<in>set (assign_slots sel reqs). req_pool_idx r \<noteq> None)"
  using assms
proof (induction reqs arbitrary: sel)
  case Nil
  then show ?case by (simp add: used_slots_def)
next
  case (Cons r rs)
  show ?case
  proof (cases "req_pool_idx r")
    case None
    then obtain s ss where sel: "sel = s # ss" using Cons.prems by (cases sel) auto
    then have "mset (map (\<lambda>r. the (req_pool_idx r)) (assign_slots ss rs)) = mset (used_slots rs) + mset ss
        \<and> (\<forall>r\<in>set (assign_slots ss rs). req_pool_idx r \<noteq> None)"
      using Cons None by simp
    then show ?thesis using None by (simp add: sel used_slots_def)
  next
    case (Some i)
    then show ?thesis using Cons by (simp add: used_slots_def)
  qed
qed

text \<open>Request slots: after a successful allocation every request of the batch has a slot, requests
  that had one keep it, no two requests share a slot, and the slots left free are free of all of
  them.\<close>

theorem pool_alloc_distinct:
  assumes "distinct (free_slots p @ used_slots reqs)"
    "pool_alloc dllm p reqs = Inr (p', reqs', Some idx)"
  shows "idx = map (\<lambda>r. the (req_pool_idx r)) reqs' \<and> length idx = length reqs
    \<and> distinct (free_slots p' @ idx) \<and> mset (free_slots p' @ idx) = mset (free_slots p @ used_slots reqs)"
proof -
  let ?need = "length reqs - length (filter (\<lambda>r. req_pool_idx r \<noteq> None) reqs)"
  have cnt: "?need = length (filter (\<lambda>r. req_pool_idx r = None) reqs)"
    using sum_length_filter_compl [of "\<lambda>r. req_pool_idx r \<noteq> None" reqs] by simp
  from assms(2) have le: "?need \<le> length (free_slots p)"
    and p': "free_slots p' = drop ?need (free_slots p)"
    and r': "reqs' = assign_slots (take ?need (free_slots p)) reqs"
    and idx: "idx = map (\<lambda>r. the (req_pool_idx r)) reqs'"
    by (auto simp: pool_alloc_def Let_def split: if_splits)
  have "length (take ?need (free_slots p)) = length (filter (\<lambda>r. req_pool_idx r = None) reqs)"
    unfolding length_take min_absorb2 [OF le] by (rule cnt)
  then have "mset idx = mset (used_slots reqs) + mset (take ?need (free_slots p))"
    unfolding idx r' using assign_slots_used by blast
  then have "mset (free_slots p' @ idx)
      = mset (take ?need (free_slots p)) + mset (drop ?need (free_slots p)) + mset (used_slots reqs)"
    by (simp add: p' ac_simps)
  also have "\<dots> = mset (free_slots p @ used_slots reqs)"
    by (simp only: mset_take_drop mset_append)
  finally have ms: "mset (free_slots p' @ idx) = mset (free_slots p @ used_slots reqs)" .
  then have "distinct (free_slots p' @ idx)" using assms(1) by (metis mset_eq_imp_distinct_iff)
  moreover have "length (assign_slots sel reqs) = length reqs" for sel
    by (induction reqs arbitrary: sel) (auto split: option.split list.split)
  ultimately show ?thesis using idx r' ms by simp
qed

theorem pool_alloc_distinct_witness:
  "\<exists>p' rs idx. pool_alloc False (pool_init 3 8) [(example_req [1] [])\<lparr>req_pool_idx := None\<rparr>] = Inr (p', rs, Some idx)
     \<and> distinct (free_slots p' @ idx)"
proof -
  let ?rs = "[(example_req [1] [])\<lparr>req_pool_idx := None\<rparr>]"
  have d: "distinct (free_slots (pool_init 3 8) @ used_slots ?rs)" by (simp add: pool_init_def used_slots_def)
  obtain p' rs idx where r: "pool_alloc False (pool_init 3 8) ?rs = Inr (p', rs, Some idx)"
    by (simp add: pool_alloc_def Let_def pool_init_def)
  show ?thesis using pool_alloc_distinct [OF d r] r by blast
qed

end
