(* ===== verification/Dflash_Info.thy ===== *)
theory Dflash_Info
  imports Kv_Manager Dflash_Accept
begin

section \<open>Draft state and verification of a batch\<close>

text \<open>
  Model of \<^verbatim>\<open>srt/speculative/dflash_info.py\<close>: the draft state kept between decode iterations
  (\<open>draft_input\<close>), the preparation of the verify forward pass and the whole of
  \<^verbatim>\<open>DFlashVerifyInput.verify\<close>, request by request and then for the batch: committing tokens,
  recording metadata, freeing the slots of rejected tokens, updating the slot mapping and cutting
  the hidden states of the committed tokens.

  A hidden state is one element of type \<open>'h\<close>; the target model's forward pass is outside the
  model, its logits and hidden states are arguments. \<open>verify_env\<close> holds what the runtime supplies:
  detokenisation, the sampling kernels and their random numbers, thresholds, and the contents of
  uninitialised memory.
\<close>

subsection \<open>The draft state\<close>

record 'h draft_input =
  verified_id :: "int list"
  target_hidden :: "'h list"
  ctx_lens :: "nat list"
  draft_seq_lens :: "nat list"

definition gather :: "'a list \<Rightarrow> nat list \<Rightarrow> 'a list res" where
  "gather xs is = (if \<forall>i\<in>set is. i < length xs then Inr (map ((!) xs) is) else Inl IndexError)"

definition filter_positions :: "nat list \<Rightarrow> nat list \<Rightarrow> nat \<Rightarrow> nat list" where
  "filter_positions seg_start seg_lens max_len =
     concat (map2 (\<lambda>st ln. map (\<lambda>r. st + r) (filter (\<lambda>r. r < ln) [0..<max_len])) seg_start seg_lens)"

definition filter_batch :: "'h draft_input \<Rightarrow> nat list \<Rightarrow> 'h draft_input res" where
  "filter_batch d new_indices =
     rbind (gather (verified_id d) new_indices) (\<lambda>v.
     rbind (gather (ctx_lens d) new_indices) (\<lambda>c.
     rbind (gather (draft_seq_lens d) new_indices) (\<lambda>s.
     let d1 = d\<lparr>verified_id := v, ctx_lens := c, draft_seq_lens := s\<rparr> in
     if target_hidden d = [] then Inr d1
     else rbind (gather (starts 0 (ctx_lens d)) new_indices) (\<lambda>seg_start.
       let max_len = (if c \<noteq> [] then Max (set c) else 0) in
       if max_len \<le> 0 then Inr (d1\<lparr>target_hidden := []\<rparr>)
       else let flat_pos = filter_positions seg_start c max_len in
         if flat_pos \<noteq> [] then rbind (gather (target_hidden d) flat_pos) (\<lambda>h. Inr (d1\<lparr>target_hidden := h\<rparr>))
         else Inr (d1\<lparr>target_hidden := []\<rparr>)))))"

definition merge_batch :: "'h draft_input \<Rightarrow> 'h draft_input \<Rightarrow> 'h draft_input" where
  "merge_batch d e =
     d\<lparr>verified_id := verified_id d @ verified_id e, ctx_lens := ctx_lens d @ ctx_lens e,
       draft_seq_lens := draft_seq_lens d @ draft_seq_lens e,
       target_hidden := (if target_hidden d = [] then target_hidden e
                         else if target_hidden e \<noteq> [] then target_hidden d @ target_hidden e
                         else target_hidden d)\<rparr>"

subsection \<open>Which slots of a block stay allocated\<close>

definition compute_paged_keep_slots :: "nat list \<Rightarrow> nat list \<Rightarrow> nat \<Rightarrow> nat \<Rightarrow> nat list res" where
  "compute_paged_keep_slots prefix_lens commit_lens draft_token_num page =
     (if page \<le> 1 then Inl ValueError
      else Inr (map2 (\<lambda>p c.
        let extended = p + draft_token_num; new_len = p + c;
            aligned = (new_len + page - 1) div page * page;
            keep_len = min aligned extended
        in min (keep_len - p) draft_token_num) prefix_lens commit_lens))"

subsection \<open>The batch and the verify input\<close>

record 'c batch =
  is_idle :: bool
  reqs :: "req list"
  input_ids :: "int list"
  out_cache_loc :: "int list"
  seq_lens :: "nat list"
  seq_lens_sum :: nat
  req_pool_indices :: "nat list"
  batch_sampling_info :: "sampling_info option"
  mem :: "'c mem_state"

record verify_input =
  draft_token :: "int list"
  draft_token_num :: nat
  custom_mask :: "bool list option"

record verify_env =
  detok :: env
  sampling_kernels :: "kernels option"
  chain_cache_in :: chain_cache
  device_index :: "int option"
  threshold_single :: real
  threshold_acc :: real
  rand_uniform :: matrix
  rand_final :: "real list"
  float_tiny :: real
  garbage_val :: "nat \<Rightarrow> int"
  oob_val :: "nat \<Rightarrow> int"

definition causal_rows :: "nat \<Rightarrow> nat \<Rightarrow> bool list" where
  "causal_rows plen q_len =
     concat (map (\<lambda>q. map (\<lambda>k. k \<le> plen + q) [0..<plen + q_len]) [0..<q_len])"

definition prepare_for_verify ::
  "verify_env \<Rightarrow> 'c cache_ops \<Rightarrow> verify_input \<Rightarrow> 'c batch \<Rightarrow> nat \<Rightarrow> bool
     \<Rightarrow> (verify_input \<times> 'c batch) res" where
  "prepare_for_verify e ops v b page build_custom_mask =
     (if is_idle b then Inr (v, b)
      else
        let n = draft_token_num v; b1 = b\<lparr>input_ids := draft_token v\<rparr>;
            end_offset = map (\<lambda>s. s + n) (seq_lens b1) in
        rbind (if page = 1 then alloc_token_slots ops (mem b1) (length (input_ids b1))
               else rbind (get_last_loc_torch (pool (mem b1)) (req_pool_indices b1) (seq_lens b1)) (\<lambda>last_loc.
                 alloc_paged_token_slots_extend (oob_val e) (garbage_val e) ops (mem b1) (seq_lens b1) end_offset
                   last_loc (length (input_ids b1)))) (\<lambda>(m1, locs).
        let p' = assign_req_to_token_pool (oob_val e) (pool m1) (req_pool_indices b1) (seq_lens b1) end_offset locs;
            b2 = b1\<lparr>out_cache_loc := locs, mem := m1\<lparr>pool := p'\<rparr>\<rparr> in
        if \<not> build_custom_mask then Inr (v\<lparr>custom_mask := None\<rparr>, b2)
        else if n \<le> 0 then Inl ValueError
        else Inr (v\<lparr>custom_mask := Some (concat (map (\<lambda>pl. causal_rows pl n) (seq_lens b2)))\<rparr>, b2)))"

definition generate_attn_arg_prefill ::
  "verify_env \<Rightarrow> verify_input \<Rightarrow> req_pool \<Rightarrow> nat list \<Rightarrow> nat list \<Rightarrow> nat
     \<Rightarrow> verify_input \<times> int list \<times> nat list \<times> nat list \<times> bool list option" where
  "generate_attn_arg_prefill e v p req_idx kernel_lens kernel_lens_sum =
     (let n = draft_token_num v; bs = length req_idx;
          qo_indptr = map (\<lambda>i. i * n) [0..<bs + 1];
          lens = map (\<lambda>l. l + n) kernel_lens;
          cum_kv = map (\<lambda>i. sum_list (take i lens)) [0..<bs + 1];
          kv_indices = create_flashinfer_kv_indices (oob_val e) p req_idx lens cum_kv
                         (map (garbage_val e) [0..<kernel_lens_sum + n * bs])
      in case custom_mask v of
           None \<Rightarrow> (v, kv_indices, cum_kv, qo_indptr, None)
         | Some cm \<Rightarrow>
             let mask_numel = kernel_lens_sum * n + n ^ 2 * bs;
                 cm' = (if length cm < mask_numel
                        then cm @ replicate (mask_numel - length cm) True else cm)
             in (v\<lparr>custom_mask := Some cm'\<rparr>, kv_indices, cum_kv, qo_indptr, Some cm'))"

subsection \<open>Verifying one request\<close>

text \<open>The inner loop: append tokens until the request finishes.\<close>

fun commit_tokens :: "env \<Rightarrow> int list \<Rightarrow> nat \<Rightarrow> req \<Rightarrow> req \<times> nat" where
  "commit_tokens e [] appended r = (r, appended)"
| "commit_tokens e (t # ts) appended r =
     (let r1 = check_finished e 1 (r\<lparr>output_ids := output_ids r @ [t]\<rparr>) in
      if finished r1 then (r1, appended + 1)
      else commit_tokens e ts (appended + 1)
             (r1\<lparr>grammar := map_option (\<lambda>(term, toks). (term, toks @ [t])) (grammar r1)\<rparr>))"

record req_outcome =
  committed :: nat
  new_verified :: int
  accepted :: nat

text \<open>
  One round of the per-request loop. \<open>packed\<close> is the row copied from the device: the candidates
  after the first, the accept length and the bonus token.
\<close>

definition verify_req ::
  "env \<Rightarrow> nat \<Rightarrow> int list \<Rightarrow> real list \<Rightarrow> req \<Rightarrow> (req \<times> req_outcome) res" where
  "verify_req e draft_num packed teacher_lps r =
     (let max_acc = draft_num - 1;
          acc_len = nat (packed ! max_acc);
          proposed = take acc_len packed @ [packed ! (max_acc + 1)];
          (r1, appended) = commit_tokens e proposed 0 r
      in rbind (if output_ids r1 \<noteq> [] then Inr (last (output_ids r1))
                else if origin_input_ids r1 \<noteq> [] then Inr (last (origin_input_ids r1))
                else Inl RuntimeError) (\<lambda>new_tok.
         let acc = appended - 1;
             r2 = update_spec_acceptance_histogram acc
                    (r1\<lparr>spec_verify_ct := spec_verify_ct r1 + 1,
                        spec_accepted_tokens := spec_accepted_tokens r1 + acc\<rparr>);
             r3 = append_dflash_reject_token_mask r2 (int appended) True;
             reached = (acc_len + 1 \<le> appended);
             anchor = int (length (output_ids r3)) - int appended - 1;
             drafted = (if reached then max_acc
                        else if max_acc \<le> acc_len \<and> max_acc \<le> appended then max_acc else acc)
         in rbind (if use_replay_dis (sampling_params r3)
                   then append_dflash_replay_block_metadata r3 (int appended) anchor (int acc) (int drafted) True
                   else Inr r3) (\<lambda>r4.
            rbind (if reached \<and> acc_len < max_acc
                   then append_dflash_rejected_draft_metadata r4 (int appended) anchor
                          (map int [acc_len + 1..<draft_num]) (slice acc_len max_acc packed)
                          (slice acc_len max_acc teacher_lps) True
                   else Inr r4) (\<lambda>r5.
            Inr (r5, \<lparr>committed = appended, new_verified = new_tok, accepted = acc\<rparr>)))))"

subsection \<open>Verifying a batch\<close>

fun argmax_from :: "nat \<Rightarrow> nat \<Rightarrow> real \<Rightarrow> real list \<Rightarrow> nat" where
  "argmax_from i best v [] = best"
| "argmax_from i best v (x # xs) =
     (if v < x then argmax_from (i + 1) i x xs else argmax_from (i + 1) best v xs)"

definition torch_argmax :: "real list \<Rightarrow> int" where
  "torch_argmax xs = (case xs of [] \<Rightarrow> 0 | x # ys \<Rightarrow> int (argmax_from 1 0 x ys))"

definition accept_batch ::
  "verify_env \<Rightarrow> verify_input \<Rightarrow> 'c batch \<Rightarrow> matrix \<Rightarrow> bool \<Rightarrow> (nat list \<times> int list) res" where
  "accept_batch e v b logits use_sampling =
     (let bs = length (reqs b); n = draft_token_num v; candidates = rows bs n (draft_token v) in
      if use_sampling then
        let ks = map (\<lambda>r. sp_top_k (sampling_params r)) (reqs b);
            max_k = (if ks \<noteq> [] then max (Max (set ks)) 1 else 1);
            uni = (if ks \<noteq> [] \<and> (\<forall>k\<in>set ks. k = hd ks) then Some (hd ks) else None)
        in rbind (compute_dflash_sampling_accept_len_and_bonus (sampling_kernels e) (garbage_val e)
             (chain_cache_in e) (device_index e) (threshold_single e) (threshold_acc e) (rand_uniform e)
             (rand_final e) candidates n logits (the (batch_sampling_info b)) (Some max_k) uni True)
           (\<lambda>(c, acc, bonus). Inr (map nat acc, bonus))
      else compute_dflash_accept_len_and_bonus candidates (rows bs n (map torch_argmax logits)))"

text \<open>Freeing the uncommitted slots; the second component is the compacted \<^verbatim>\<open>out_cache_loc\<close>.\<close>

definition free_uncommitted ::
  "nat \<Rightarrow> nat \<Rightarrow> nat list \<Rightarrow> nat list \<Rightarrow> int list \<Rightarrow> kv_alloc \<Rightarrow> (kv_alloc \<times> int list) res" where
  "free_uncommitted page n prefix_lens commit_lens locs a =
     (let loc_rows = rows (length commit_lens) n locs;
          keep = concat (map (\<lambda>c. map (\<lambda>j. j < c) [0..<n]) commit_lens) in
      if page = 1 then
        Inr (token_free a (select (map Not keep) (concat loc_rows)), select keep (concat loc_rows))
      else rbind (compute_paged_keep_slots prefix_lens commit_lens n page) (\<lambda>keep_slots.
        let free_mask = concat (map (\<lambda>k. map (\<lambda>j. k \<le> j) [0..<n]) keep_slots) in
        rbind (paged_free a (select free_mask (concat loc_rows))) (\<lambda>a'.
          Inr (a', select keep (concat loc_rows)))))"

definition hidden_segments :: "nat \<Rightarrow> nat list \<Rightarrow> 'h list \<Rightarrow> 'h list" where
  "hidden_segments n commit_lens hidden =
     concat (map2 (\<lambda>ln row. take ln row) commit_lens (rows (length commit_lens) n hidden))"

record 'h verify_result =
  new_verified_id :: "int list"
  commit_lens :: "nat list"
  next_target_hidden :: "'h list"
  accept_length_per_req :: "nat list"

definition verify ::
  "verify_env \<Rightarrow> verify_input \<Rightarrow> 'c batch \<Rightarrow> matrix \<Rightarrow> 'h list option \<Rightarrow> nat
     \<Rightarrow> ('c batch \<times> 'h verify_result) res" where
  "verify e v b logits hidden page =
     (if is_idle b
      then Inr (b, \<lparr>new_verified_id = [], commit_lens = [], next_target_hidden = [], accept_length_per_req = []\<rparr>)
      else
        let bs = length (reqs b); n = draft_token_num v; candidates = rows bs n (draft_token v) in
        rbind (case batch_sampling_info b of
                 None \<Rightarrow> Inr logits
               | Some si \<Rightarrow> if length (temperatures si) \<noteq> bs then Inl RuntimeError
                           else apply_dflash_verify_logits_adjustments logits (Some si) (int n)) (\<lambda>lg.
        let use_sampling = (case batch_sampling_info b of None \<Rightarrow> False
                            | Some si \<Rightarrow> \<not> is_all_greedy si \<and> sampling_kernels e \<noteq> None) in
        rbind (accept_batch e v b lg use_sampling) (\<lambda>(accept_len, bonus).
        rbind (compute_dflash_candidate_logprobs (sampling_kernels e) (float_tiny e) candidates n lg
                 (batch_sampling_info b) use_sampling) (\<lambda>lps.
        let packed = map2 (\<lambda>c (a, t). tl c @ [int a, t]) candidates (zip accept_len bonus) in
        rbind (rmap (\<lambda>(r, p, l). verify_req (detok e) n p l r) (zip (reqs b) (zip packed lps))) (\<lambda>outs.
        let commits = map (\<lambda>o'. committed (snd o')) outs in
        rbind (free_uncommitted page n (seq_lens b) commits (out_cache_loc b) (kv (mem b))) (\<lambda>(a', locs).
        let reqs' = map (\<lambda>(r, o'). r\<lparr>kv_committed_len := kv_committed_len r + committed o',
                                     kv_allocated_len := kv_committed_len r + committed o'\<rparr>) outs;
            end_offset = map2 (+) (seq_lens b) commits;
            p' = assign_req_to_token_pool (oob_val e) (pool (mem b)) (req_pool_indices b) (seq_lens b) end_offset locs;
            b' = b\<lparr>reqs := reqs', out_cache_loc := locs, mem := (mem b)\<lparr>kv := a', pool := p'\<rparr>,
                   seq_lens := end_offset, seq_lens_sum := seq_lens_sum b + sum_list commits\<rparr>
        in case hidden of
             None \<Rightarrow> Inl RuntimeError
           | Some h \<Rightarrow> Inr (b', \<lparr>new_verified_id = map (\<lambda>o'. new_verified (snd o')) outs, commit_lens = commits,
               next_target_hidden = hidden_segments n commits h,
               accept_length_per_req = map (\<lambda>o'. accepted (snd o')) outs\<rparr>)))))))"


subsection \<open>Filtering and merging the draft state\<close>

text \<open>The context features of every request: \<open>target_hidden\<close> cut by \<open>ctx_lens\<close>.\<close>

definition split_by :: "nat list \<Rightarrow> 'a list \<Rightarrow> 'a list list" where
  "split_by lens xs = map2 (\<lambda>st ln. take ln (drop st xs)) (starts 0 lens) lens"

definition draft_ok :: "'h draft_input \<Rightarrow> bool" where
  "draft_ok d \<longleftrightarrow> length (verified_id d) = length (ctx_lens d)
     \<and> length (draft_seq_lens d) = length (ctx_lens d) \<and> length (target_hidden d) = sum_list (ctx_lens d)"

definition features :: "'h draft_input \<Rightarrow> 'h list list" where
  "features d = split_by (ctx_lens d) (target_hidden d)"

lemma split_by_concat_gen:
  "map2 (\<lambda>st ln. take ln (drop st (pre @ concat S))) (starts (length pre) (map length S)) (map length S) = S"
proof (induction S arbitrary: pre)
  case Nil
  then show ?case by simp
next
  case (Cons s S)
  then show ?case using Cons.IH [of "pre @ s"] by simp
qed

lemma split_by_concat: "split_by (map length S) (concat S) = S"
  using split_by_concat_gen [of "[]" S] by (simp add: split_by_def)

lemma length_split_by [simp]: "length (split_by lens xs) = length lens"
  by (simp add: split_by_def)

lemma split_by_nth:
  "i < length lens \<Longrightarrow> split_by lens xs ! i = take (lens ! i) (drop (sum_list (take i lens)) xs)"
  by (simp add: split_by_def nth_starts)

lemma split_by_lengths:
  assumes "sum_list lens = length xs" shows "map length (split_by lens xs) = lens"
proof (rule nth_equalityI)
  fix i assume "i < length (map length (split_by lens xs))"
  then have i: "i < length lens" by simp
  then have "sum_list (take i lens) + lens ! i \<le> length xs"
    using sum_list_take_le [of "Suc i" lens] assms by (simp add: take_Suc_conv_app_nth)
  then show "map length (split_by lens xs) ! i = lens ! i" using i by (simp add: split_by_nth)
qed simp

lemma split_concat_exists: "sum_list lens = length xs \<Longrightarrow> \<exists>S. concat S = xs \<and> map length S = lens"
proof (induction lens arbitrary: xs)
  case Nil
  then show ?case by simp
next
  case (Cons n lens)
  then have "sum_list lens = length (drop n xs)" by simp
  from Cons.IH [OF this] obtain S where "concat S = drop n xs" "map length S = lens" by blast
  then show ?case using Cons.prems by (intro exI [of _ "take n xs # S"]) simp
qed

lemma concat_split_by: "sum_list lens = length xs \<Longrightarrow> concat (split_by lens xs) = xs"
  using split_concat_exists [of lens xs] split_by_concat by metis

lemma map_nth_segment:
  "st + k \<le> length xs \<Longrightarrow> map ((!) xs) (map (\<lambda>r. st + r) [0..<k]) = take k (drop st xs)"
  by (rule nth_equalityI) auto

lemma filter_less_upt: "k \<le> m \<Longrightarrow> filter (\<lambda>r. r < k) [0..<m] = [0..<k]"
proof -
  assume "k \<le> m"
  then have "[0..<m] = [0..<k] @ [k..<m]" by (intro upt_split) auto
  then show ?thesis by (simp add: filter_empty_conv)
qed

lemma gather_positions:
  assumes ok: "draft_ok d" and idx: "\<forall>i\<in>set is. i < length (ctx_lens d)"
    and m: "\<forall>i\<in>set is. ctx_lens d ! i \<le> m"
  shows "gather (target_hidden d)
      (filter_positions (map ((!) (starts 0 (ctx_lens d))) is) (map ((!) (ctx_lens d)) is) m)
    = Inr (concat (map ((!) (features d)) is))"
proof -
  let ?h = "target_hidden d" and ?c = "ctx_lens d"
  have fit: "starts 0 ?c ! i + ?c ! i \<le> length ?h" if "i < length ?c" for i
    using that ok sum_list_take_le [of "Suc i" ?c]
    by (simp add: draft_ok_def nth_starts take_Suc_conv_app_nth)
  let ?pos = "\<lambda>i. map (\<lambda>r. starts 0 ?c ! i + r) [0..<?c ! i]"
  have fp: "filter_positions (map ((!) (starts 0 ?c)) is) (map ((!) ?c) is) m = concat (map ?pos is)"
    using m by (induction "is") (auto simp: filter_positions_def filter_less_upt)
  have "x < length ?h" if x: "x \<in> set (concat (map ?pos is))" for x
  proof -
    from x obtain i where i: "i \<in> set is" "x < ?c ! i + starts 0 ?c ! i" by auto
    have "i < length ?c" using idx i(1) by blast
    then have "starts 0 ?c ! i + ?c ! i \<le> length ?h" by (rule fit)
    then show ?thesis using i(2) by linarith
  qed
  then have "gather ?h (concat (map ?pos is)) = Inr (map ((!) ?h) (concat (map ?pos is)))"
    by (simp add: gather_def)
  also have "map ((!) ?h) (concat (map ?pos is)) = concat (map (\<lambda>i. map ((!) ?h) (?pos i)) is)"
    by (simp add: map_concat comp_def)
  also have "\<dots> = concat (map ((!) (features d)) is)"
    using fit idx map_nth_segment [where xs = ?h]
    by (intro arg_cong [where f = concat] map_cong refl)
       (simp add: features_def split_by_def)
  finally show ?thesis using fp by simp
qed

text \<open>Filtering a draft state keeps, for exactly the chosen requests and in the chosen order, the
  current token, the lengths and the context features that belong to each of them.\<close>

theorem filter_batch_features:
  assumes ok: "draft_ok d" and idx: "\<forall>i\<in>set is. i < length (ctx_lens d)"
  shows "\<exists>d'. filter_batch d is = Inr d' \<and> draft_ok d'
    \<and> verified_id d' = map ((!) (verified_id d)) is \<and> draft_seq_lens d' = map ((!) (draft_seq_lens d)) is
    \<and> ctx_lens d' = map ((!) (ctx_lens d)) is \<and> features d' = map ((!) (features d)) is"
proof -
  let ?S = "map ((!) (features d)) is" and ?c = "map ((!) (ctx_lens d)) is"
  let ?d1 = "d\<lparr>verified_id := map ((!) (verified_id d)) is, ctx_lens := ?c,
      draft_seq_lens := map ((!) (draft_seq_lens d)) is\<rparr>"
  have lens: "map length (features d) = ctx_lens d"
    using ok by (simp add: features_def draft_ok_def split_by_lengths)
  have c: "map length ?S = ?c"
    using idx lens by (auto simp: features_def) (metis length_split_by nth_map)
  have g: "gather (verified_id d) is = Inr (map ((!) (verified_id d)) is)"
    "gather (ctx_lens d) is = Inr ?c"
    "gather (draft_seq_lens d) is = Inr (map ((!) (draft_seq_lens d)) is)"
    "gather (starts 0 (ctx_lens d)) is = Inr (map ((!) (starts 0 (ctx_lens d))) is)"
    using ok idx by (auto simp: gather_def draft_ok_def)
  have zero: "concat ?S = []" if z: "\<forall>x\<in>set ?c. x = 0"
  proof -
    have "sum_list (map length ?S) = 0" unfolding c using z by (simp only: sum_list_eq_0_iff)
    then show ?thesis by (metis length_0_conv length_concat)
  qed
  have run: "filter_batch d is = Inr (?d1\<lparr>target_hidden := concat ?S\<rparr>)"
  proof (cases "target_hidden d = []")
    case True
    then have "\<forall>x\<in>set (ctx_lens d). x = 0" using ok by (simp add: draft_ok_def sum_list_eq_0_iff)
    then have "concat ?S = []" using idx by (intro zero) auto
    then show ?thesis using True g by (simp add: filter_batch_def Let_def)
  next
    case False
    let ?m = "if ?c \<noteq> [] then Max (set ?c) else 0"
    show ?thesis
    proof (cases "?m \<le> 0")
      case True
      have "x \<le> ?m" if "x \<in> set ?c" for x
      proof -
        have "?c \<noteq> []" using that by auto
        then show ?thesis using Max_ge [of "set ?c" x] that by simp
      qed
      then have "\<forall>x\<in>set ?c. x = 0" using True by fastforce
      then have "concat ?S = []" by (rule zero)
      then show ?thesis using True False g by (simp add: filter_batch_def Let_def)
    next
      case m: False
      have "\<forall>i\<in>set is. ctx_lens d ! i \<le> ?m" by (auto intro: Max_ge)
      from gather_positions [OF ok idx this] m False g show ?thesis
        by (auto simp: filter_batch_def Let_def gather_def split: if_splits)
    qed
  qed
  let ?d' = "?d1\<lparr>target_hidden := concat ?S\<rparr>"
  have "features ?d' = split_by (map length ?S) (concat ?S)" unfolding c by (simp add: features_def)
  then have f: "features ?d' = ?S" by (simp only: split_by_concat)
  have "sum_list ?c = length (concat ?S)" unfolding c [symmetric] by (simp add: length_concat)
  then have "draft_ok ?d'" by (simp add: draft_ok_def)
  then show ?thesis using run f by auto
qed

text \<open>Merging two draft states appends the features of the second batch to those of the first.\<close>

theorem merge_batch_features:
  assumes "draft_ok d" "draft_ok e"
  shows "draft_ok (merge_batch d e) \<and> features (merge_batch d e) = features d @ features e"
proof -
  have th: "target_hidden (merge_batch d e) = target_hidden d @ target_hidden e" by (simp add: merge_batch_def)
  have c: "ctx_lens (merge_batch d e) = ctx_lens d @ ctx_lens e" by (simp add: merge_batch_def)
  have f: "concat (features x) = target_hidden x" "map length (features x) = ctx_lens x"
    if "draft_ok x" for x :: "'a draft_input"
    using that by (simp_all add: features_def draft_ok_def concat_split_by split_by_lengths)
  have "features (merge_batch d e) = split_by (map length (features d @ features e)) (concat (features d @ features e))"
    using f [OF assms(1)] f [OF assms(2)] by (simp add: features_def [of "merge_batch d e"] th c)
  then have "features (merge_batch d e) = features d @ features e" by (simp only: split_by_concat)
  moreover have "draft_ok (merge_batch d e)"
    using assms th c by (simp add: draft_ok_def) (simp add: merge_batch_def)
  ultimately show ?thesis by simp
qed

definition example_draft :: "nat draft_input" where
  "example_draft = \<lparr>verified_id = [5, 6, 7], target_hidden = [10, 20, 21, 22], ctx_lens = [1, 0, 3],
     draft_seq_lens = [4, 5, 6]\<rparr>"

lemma example_draft_ok: "draft_ok example_draft"
  by (simp add: draft_ok_def example_draft_def)

theorem filter_batch_features_witness:
  "\<exists>d'. filter_batch example_draft [2, 0] = Inr d' \<and> features d' = [[20, 21, 22], [10]]"
proof -
  have "\<forall>i\<in>set [2, 0 :: nat]. i < length (ctx_lens example_draft)" by (simp add: example_draft_def)
  from filter_batch_features [OF example_draft_ok this]
  obtain d' where "filter_batch example_draft [2, 0] = Inr d'"
    "features d' = map ((!) (features example_draft)) [2, 0]" by blast
  moreover have "map ((!) (features example_draft)) [2, 0] = [[20, 21, 22], [10]]" by code_simp
  ultimately show ?thesis by simp
qed

theorem merge_batch_features_witness:
  "features (merge_batch example_draft example_draft) = [[10], [], [20, 21, 22], [10], [], [20, 21, 22]]"
proof -
  have "features example_draft = [[10], [], [20, 21, 22]]" by code_simp
  then show ?thesis using merge_batch_features [OF example_draft_ok example_draft_ok] by simp
qed

subsection \<open>Keeping pages\<close>

text \<open>Freeing at page granularity is safe: at least the committed slots and at most the whole block
  of a request stay allocated, and no page that holds a freed position holds a position of the
  prefix or a committed one.\<close>

theorem paged_keep_slots_safe:
  assumes "1 < page" "length commits = length prefixes" "i < length prefixes" "commits ! i \<le> n"
  shows "\<exists>keep. compute_paged_keep_slots prefixes commits n page = Inr keep
    \<and> commits ! i \<le> keep ! i \<and> keep ! i \<le> n
    \<and> (\<forall>p q. prefixes ! i + keep ! i \<le> p \<longrightarrow> p < prefixes ! i + n \<longrightarrow> q < prefixes ! i + commits ! i
         \<longrightarrow> q div page < p div page)"
proof -
  let ?p = "prefixes ! i" and ?c = "commits ! i"
  let ?al = "ceil_align (prefixes ! i + commits ! i) page"
  have pg: "0 < page" using assms(1) by simp
  define keep where "keep = map2 (\<lambda>p c. let extended = p + n; new_len = p + c;
      aligned = (new_len + page - 1) div page * page; keep_len = min aligned extended
    in min (keep_len - p) n) prefixes commits"
  have k: "keep ! i = min ?al (?p + n) - ?p"
    using assms(2,3) unfolding keep_def ceil_align_def ceil_div_def by (simp add: Let_def)
  have ge: "?p + ?c \<le> ?al" using pg by (rule ceil_align_ge)
  have "q div page < p div page" if h: "?p + keep ! i \<le> p" "p < ?p + n" "q < ?p + ?c" for p q
  proof -
    have "?al \<le> p" using h(1,2) k ge by (auto simp: min_def split: if_splits)
    then have "ceil_div (?p + ?c) page \<le> p div page"
      using pg by (simp add: ceil_align_def less_eq_div_iff_mult_less_eq)
    moreover have "q div page < ceil_div (?p + ?c) page"
      using h(3) ge pg by (simp add: ceil_align_def div_less_iff_less_mult)
    ultimately show ?thesis by linarith
  qed
  moreover have "?c \<le> keep ! i" "keep ! i \<le> n" using k ge assms(4) by auto
  moreover have "compute_paged_keep_slots prefixes commits n page = Inr keep"
    using assms(1) by (simp add: compute_paged_keep_slots_def keep_def)
  ultimately show ?thesis by blast
qed

theorem paged_keep_slots_safe_witness:
  "compute_paged_keep_slots [5] [2] 8 4 = Inr [3]
     \<and> (\<exists>keep. compute_paged_keep_slots [5] [2] 8 4 = Inr keep \<and> 2 \<le> keep ! 0 \<and> keep ! 0 \<le> 8)"
proof -
  have "compute_paged_keep_slots [5] [2] 8 4 = Inr [3]" by code_simp
  then show ?thesis using paged_keep_slots_safe [of 4 "[2]" "[5]" 0 8] by auto
qed


subsection \<open>Committing the tokens of one request\<close>

text \<open>What committing tokens leaves alone.\<close>

definition commit_frame :: "req \<Rightarrow> req \<Rightarrow> bool" where
  "commit_frame r r' \<longleftrightarrow> (\<exists>out fr tf fl g. r' = r\<lparr>output_ids := out, finished_reason := fr,
     to_finish := tf, finished_len := fl, grammar := g\<rparr>)"

lemma commit_frame_fields:
  assumes "commit_frame r r'"
  shows "customized_info r' = customized_info r" "sampling_params r' = sampling_params r"
    "origin_input_ids r' = origin_input_ids r" "spec_verify_ct r' = spec_verify_ct r"
    "spec_accepted_tokens r' = spec_accepted_tokens r"
    "spec_acceptance_histogram r' = spec_acceptance_histogram r"
    "kv_committed_len r' = kv_committed_len r" "kv_allocated_len r' = kv_allocated_len r"
    "req_pool_idx r' = req_pool_idx r" "send_token_offset r' = send_token_offset r"
  using assms unfolding commit_frame_def by auto

lemma commit_frame_refl: "commit_frame r r"
proof -
  have "r = r\<lparr>output_ids := output_ids r, finished_reason := finished_reason r,
     to_finish := to_finish r, finished_len := finished_len r, grammar := grammar r\<rparr>" by simp
  then show ?thesis unfolding commit_frame_def by blast
qed

lemma commit_frame_trans: "commit_frame r s \<Longrightarrow> commit_frame s t \<Longrightarrow> commit_frame r t"
  unfolding commit_frame_def by (elim exE) (simp, blast)

lemma commit_frame_grammar: "commit_frame r (r\<lparr>output_ids := out, grammar := g\<rparr>)"
proof -
  have "r\<lparr>output_ids := out, grammar := g\<rparr> = r\<lparr>output_ids := out, finished_reason := finished_reason r,
     to_finish := to_finish r, finished_len := finished_len r, grammar := g\<rparr>" by simp
  then show ?thesis unfolding commit_frame_def by blast
qed

lemma commit_frame_output: "commit_frame r (r\<lparr>output_ids := out\<rparr>)"
  using commit_frame_grammar [where r = r and out = out and g = "grammar r"] by simp

lemma commit_frame_check: "commit_frame r (check_finished e n r)"
proof -
  let ?r = "check_finished e n r"
  have "?r = r\<lparr>output_ids := output_ids ?r, finished_reason := finished_reason ?r,
            to_finish := to_finish ?r, finished_len := finished_len ?r\<rparr>"
    using check_finished_frame [of r e n] by (simp only: finish_frame_def)
  also have "\<dots> = r\<lparr>output_ids := output_ids ?r, finished_reason := finished_reason ?r,
            to_finish := to_finish ?r, finished_len := finished_len ?r, grammar := grammar r\<rparr>" by simp
  finally show ?thesis unfolding commit_frame_def by blast
qed

text \<open>
  How many tokens are committed, and which. Only the token at which a request finishes can differ
  from the proposed one: a token outside the vocabulary is replaced by a stop token.
\<close>

lemma commit_tokens_spec:
  assumes "commit_tokens e ts k r = (r', k')"
  shows "\<exists>m. k' = k + m \<and> m \<le> length ts \<and> (ts \<noteq> [] \<longrightarrow> 0 < m)
    \<and> length (output_ids r') = length (output_ids r) + m
    \<and> (0 < m \<longrightarrow> butlast (output_ids r') = output_ids r @ take (m - 1) ts)
    \<and> (\<not> finished r' \<longrightarrow> m = length ts \<and> output_ids r' = output_ids r @ ts)
    \<and> commit_frame r r'"
  using assms
proof (induction ts arbitrary: k r)
  case Nil
  then show ?case by (auto simp: commit_frame_refl)
next
  case (Cons t ts)
  let ?r0 = "r\<lparr>output_ids := output_ids r @ [t]\<rparr>"
  let ?r1 = "check_finished e 1 ?r0"
  have f1: "commit_frame r ?r1" using commit_frame_trans [OF commit_frame_output commit_frame_check] .
  show ?case
  proof (cases "finished ?r1")
    case True
    then have "r' = ?r1" "k' = k + 1" using Cons.prems by (simp_all add: Let_def)
    moreover have "butlast (output_ids ?r1) = output_ids r"
      using check_finished_butlast [of ?r0 e] by simp
    ultimately show ?thesis using True f1 by (intro exI [of _ 1]) simp
  next
    case False
    then have r1: "?r1 = ?r0" by (rule check_finished_unfinished)
    let ?r2 = "?r0\<lparr>grammar := map_option (\<lambda>(term, toks). (term, toks @ [t])) (grammar ?r0)\<rparr>"
    have "commit_tokens e ts (k + 1) ?r2 = (r', k')"
      using Cons.prems False unfolding commit_tokens.simps Let_def r1 by simp
    from Cons.IH [OF this] obtain m where m: "k' = k + 1 + m" "m \<le> length ts" "ts \<noteq> [] \<longrightarrow> 0 < m"
      "length (output_ids r') = length (output_ids r) + 1 + m"
      "0 < m \<longrightarrow> butlast (output_ids r') = (output_ids r @ [t]) @ take (m - 1) ts"
      "\<not> finished r' \<longrightarrow> m = length ts \<and> output_ids r' = (output_ids r @ [t]) @ ts" "commit_frame ?r2 r'"
      by auto
    have fr: "commit_frame r r'" by (rule commit_frame_trans [OF commit_frame_grammar m(7), unfolded req.simps]) 
    have bl: "butlast (output_ids r') = output_ids r @ take m (t # ts)"
    proof (cases m)
      case 0
      then have "ts = []" using m(3) by simp
      then have "r' = ?r2" using \<open>commit_tokens e ts (k + 1) ?r2 = (r', k')\<close> by simp
      then show ?thesis using 0 by simp
    next
      case (Suc j)
      then show ?thesis using m(5) by simp
    qed
    show ?thesis using m fr bl by (intro exI [of _ "m + 1"]) simp
  qed
qed


subsection \<open>Verifying one request\<close>

definition packed_ok :: "nat \<Rightarrow> int list \<Rightarrow> real list \<Rightarrow> bool" where
  "packed_ok n packed lps \<longleftrightarrow> 0 < n \<and> length packed = n + 1 \<and> 0 \<le> packed ! (n - 1)
     \<and> packed ! (n - 1) \<le> int (n - 1) \<and> length lps = n - 1"

lemma packed_reject_lengths:
  assumes "packed_ok n packed lps" "a \<le> n - 1"
  shows "length (map int [a + 1..<n]) = length (slice a (n - 1) packed)"
    "length (slice a (n - 1) packed) = length (slice a (n - 1) lps)"
proof -
  have "length packed = n + 1" "length lps = n - 1" using assms(1) by (auto simp: packed_ok_def)
  then show "length (map int [a + 1..<n]) = length (slice a (n - 1) packed)"
    "length (slice a (n - 1) packed) = length (slice a (n - 1) lps)"
    using assms(2) unfolding length_map length_upt length_slice min_def by auto
qed

lemma stats_step:
  assumes "spec_stats_ok r" "commit_frame r r1"
  shows "spec_stats_ok (update_spec_acceptance_histogram a
    (r1\<lparr>spec_verify_ct := spec_verify_ct r1 + 1, spec_accepted_tokens := spec_accepted_tokens r1 + a\<rparr>))"
  using assms(1) commit_frame_fields [OF assms(2)]
  by (simp add: spec_stats_ok_def update_spec_acceptance_histogram_def bump_sums)

lemma verify_req_result:
  assumes "packed_ok n packed lps"
  shows "\<exists>r' out. verify_req e n packed lps r = Inr (r', out)
    \<and> 1 \<le> committed out \<and> committed out \<le> nat (packed ! (n - 1)) + 1 \<and> accepted out = committed out - 1
    \<and> length (output_ids r') = length (output_ids r) + committed out
    \<and> butlast (output_ids r') = output_ids r @ take (committed out - 1) packed
    \<and> (\<not> finished r' \<longrightarrow> output_ids r' = output_ids r @ take (nat (packed ! (n - 1))) packed @ [packed ! n])
    \<and> new_verified out = last (output_ids r')
    \<and> mask_of r' = pad_to (length (output_ids r)) (VBool False) (mask_of r)
        @ replicate (committed out - 1) (VBool False) @ [VBool True]
    \<and> (spec_stats_ok r \<longrightarrow> spec_stats_ok r') \<and> origin_input_ids r' = origin_input_ids r"
proof -
  let ?a = "nat (packed ! (n - 1))"
  let ?todo = "take ?a packed @ [packed ! (n - 1 + 1)]"
  have n: "0 < n" "n - 1 + 1 = n" and al: "?a \<le> n - 1" using assms by (auto simp: packed_ok_def)
  obtain r1 c where run: "commit_tokens e ?todo 0 r = (r1, c)" by (metis surj_pair)
  have lt: "length ?todo = ?a + 1" using assms al by (simp add: packed_ok_def)
  from commit_tokens_spec [OF run] lt have c: "c \<le> ?a + 1" "0 < c"
    and out: "length (output_ids r1) = length (output_ids r) + c"
      "butlast (output_ids r1) = output_ids r @ take (c - 1) ?todo"
      "\<not> finished r1 \<longrightarrow> output_ids r1 = output_ids r @ ?todo" and fr: "commit_frame r r1" by auto
  have tk: "take (c - 1) ?todo = take (c - 1) packed" using c al assms by (simp add: packed_ok_def)
  have ne: "output_ids r1 \<noteq> []" using out(1) c(2) by auto
  let ?r2 = "update_spec_acceptance_histogram (c - 1) (r1\<lparr>spec_verify_ct := spec_verify_ct r1 + 1,
      spec_accepted_tokens := spec_accepted_tokens r1 + (c - 1)\<rparr>)"
  let ?r3 = "append_dflash_reject_token_mask ?r2 (int c) True"
  obtain ci where ci: "?r3 = ?r2\<lparr>customized_info := ci\<rparr>" using reject_mask_frame by blast
  have r2: "output_ids ?r2 = output_ids r1" "mask_of ?r2 = mask_of r" "finished ?r2 = finished r1"
    "sampling_params ?r2 = sampling_params r1"
    using commit_frame_fields(1) [OF fr]
    by (simp_all add: update_spec_acceptance_histogram_def mask_of_def info_of_def finished_def)
  have mask3: "mask_of ?r3 = pad_to (length (output_ids r)) (VBool False) (mask_of r)
      @ replicate (c - 1) (VBool False) @ [VBool True]"
    using mask_of_append [of c ?r2] c(2) out(1) r2 by simp
  let ?anchor = "int (length (output_ids ?r3)) - int c - 1"
  let ?drafted = "if ?a + 1 \<le> c then n - 1 else if n - 1 \<le> ?a \<and> n - 1 \<le> c then n - 1 else c - 1"
  have "c - 1 \<le> ?drafted" using c al by auto
  then obtain r4 where r4: "(if use_replay_dis (sampling_params ?r3)
      then append_dflash_replay_block_metadata ?r3 (int c) ?anchor (int (c - 1)) (int ?drafted) True
      else Inr ?r3) = Inr r4"
    using replay_metadata_total [of "int (c - 1)" "int ?drafted" ?r3] by fastforce
  have r3_self: "?r3 = ?r3\<lparr>customized_info := customized_info ?r3\<rparr>" by simp
  have f4: "\<exists>ci. r4 = ?r3\<lparr>customized_info := ci\<rparr>" "mask_of r4 = mask_of ?r3"
    using r4 replay_metadata_frame r3_self by (metis Inr_inject)+
  obtain r5 where r5: "(if ?a + 1 \<le> c \<and> ?a < n - 1
      then append_dflash_rejected_draft_metadata r4 (int c) ?anchor (map int [?a + 1..<n])
             (slice ?a (n - 1) packed) (slice ?a (n - 1) lps) True
      else Inr r4) = Inr r5"
    using rejected_metadata_total [OF packed_reject_lengths [OF assms al], of r4 "int c" ?anchor True]
    by (cases "?a + 1 \<le> c \<and> ?a < n - 1") auto
  have r4_self: "r4 = r4\<lparr>customized_info := customized_info r4\<rparr>" by simp
  have f5: "\<exists>ci. r5 = r4\<lparr>customized_info := ci\<rparr>" "mask_of r5 = mask_of r4"
    using r5 rejected_metadata_frame r4_self by (metis Inr_inject)+
  obtain ci5 where ci5: "r5 = ?r2\<lparr>customized_info := ci5\<rparr>" using ci f4(1) f5(1) by auto
  have eq: "verify_req e n packed lps r = Inr (r5, \<lparr>committed = c, new_verified = last (output_ids r1), accepted = c - 1\<rparr>)"
    unfolding verify_req_def Let_def run split_conv using ne r4 r5 by simp
  have "spec_stats_ok r5" if "spec_stats_ok r"
    using stats_step [OF that fr, of "c - 1"] by (simp add: ci5 spec_stats_ok_def)
  moreover have "output_ids r5 = output_ids r1" "finished r5 = finished r1" "mask_of r5 = mask_of ?r3"
    using r2 f4(2) f5(2) by (simp_all add: ci5 finished_def)
  moreover have "origin_input_ids r5 = origin_input_ids r"
    using commit_frame_fields(3) [OF fr] by (simp add: ci5 update_spec_acceptance_histogram_def)
  ultimately show ?thesis using eq c out tk mask3 n by auto
qed


text \<open>The whole sequence of a request: prompt and output.\<close>

definition full_seq :: "req \<Rightarrow> int list" where
  "full_seq r = origin_input_ids r @ output_ids r"

lemma verify_req_spec_total:
  assumes "packed_ok n packed lps" shows "\<exists>y. verify_req e n packed lps r = Inr y"
  using verify_req_result [OF assms] by blast

text \<open>C13 Verifying one request never raises on a well-formed row. It commits at least one and at most
  \<open>accept_len + 1\<close> tokens, all of them if the request goes on; the committed tokens are the accepted
  drafts followed by the bonus token (only the token that finishes the request may have been
  replaced); the reject mask grows by exactly the committed block, and the acceptance statistics
  stay consistent.\<close>

theorem verify_req_spec:
  assumes "packed_ok n packed lps"
  shows "\<exists>r' out. verify_req e n packed lps r = Inr (r', out)
    \<and> 1 \<le> committed out \<and> committed out \<le> nat (packed ! (n - 1)) + 1 \<and> accepted out = committed out - 1
    \<and> length (output_ids r') = length (output_ids r) + committed out
    \<and> butlast (output_ids r') = output_ids r @ take (committed out - 1) packed
    \<and> (\<not> finished r' \<longrightarrow> output_ids r' = output_ids r @ take (nat (packed ! (n - 1))) packed @ [packed ! n])
    \<and> new_verified out = last (output_ids r')
    \<and> mask_of r' = pad_to (length (output_ids r)) (VBool False) (mask_of r)
        @ replicate (committed out - 1) (VBool False) @ [VBool True]
    \<and> (spec_stats_ok r \<longrightarrow> spec_stats_ok r')"
  using verify_req_result [OF assms, of e r] by blast

subsection \<open>Freeing the slots of rejected tokens\<close>

lemma keep_rows:
  assumes "length locs = length commits * n"
  shows "list_all2 (\<lambda>m r. length m = length r) (map (\<lambda>c. map (\<lambda>j. P c j) [0..<n]) commits) (rows (length commits) n locs)"
    "length (concat (map (\<lambda>c. map (\<lambda>j. P c j) [0..<n]) commits)) = length locs"
proof -
  show "list_all2 (\<lambda>m r. length m = length r) (map (\<lambda>c. map (\<lambda>j. P c j) [0..<n]) commits) (rows (length commits) n locs)"
    using rows_width [OF assms] by (auto simp: list_all2_conv_all_nth)
  show "length (concat (map (\<lambda>c. map (\<lambda>j. P c j) [0..<n]) commits)) = length locs"
    using assms by (simp add: length_concat comp_def sum_list_triv)
qed

lemma kept_slots:
  assumes "length locs = length commits * n"
  shows "select (concat (map (\<lambda>c. map (\<lambda>j. j < c) [0..<n]) commits)) (concat (rows (length commits) n locs))
    = concat (map2 take commits (rows (length commits) n locs))"
proof -
  have w: "length r = n" if "r \<in> set (rows (length commits) n locs)" for r using rows_width [OF assms that] .
  have "map2 select (map (\<lambda>c. map (\<lambda>j. j < c) [0..<n]) commits) (rows (length commits) n locs)
      = map2 take commits (rows (length commits) n locs)"
    using w by (auto intro!: nth_equalityI simp: select_less_row [symmetric])
  then show ?thesis by (simp add: select_concat [OF keep_rows(1) [OF assms]])
qed

lemma free_uncommitted_token:
  assumes "length locs = length commits * n"
  shows "\<exists>freed. free_uncommitted 1 n prefixes commits locs a
      = Inr (token_free a freed, concat (map2 take commits (rows (length commits) n locs)))
    \<and> mset (concat (map2 take commits (rows (length commits) n locs))) + mset freed = mset locs"
proof -
  let ?keep = "concat (map (\<lambda>c. map (\<lambda>j. j < c) [0..<n]) commits)"
  have "length ?keep = length locs" using keep_rows(2) [OF assms] .
  from select_mset_split [OF this] show ?thesis
    using kept_slots [OF assms] concat_rows [OF assms]
    by (intro exI [of _ "select (map Not ?keep) locs"]) (simp add: free_uncommitted_def Let_def)
qed

lemma length_kept:
  assumes "length locs = length commits * n" "\<forall>c\<in>set commits. c \<le> n"
  shows "length (concat (map2 take commits (rows (length commits) n locs))) = sum_list commits"
proof -
  have "map length (map2 take commits (rows (length commits) n locs)) = commits"
    using assms rows_width [OF assms(1)] by (intro nth_equalityI) (auto simp: min_absorb2)
  then show ?thesis by (simp add: length_concat)
qed

subsection \<open>Verifying a batch\<close>

lemma verify_unfold:
  assumes "verify e v b logits hidden page = Inr (b', res)" "\<not> is_idle b"
  obtains lg acc bonus lps outs a' locs h where
    "hidden = Some h"
    "rmap (\<lambda>(r, p, l). verify_req (detok e) (draft_token_num v) p l r)
       (zip (reqs b) (zip (map2 (\<lambda>c (a, t). tl c @ [int a, t])
          (rows (length (reqs b)) (draft_token_num v) (draft_token v)) (zip acc bonus)) lps)) = Inr outs"
    "free_uncommitted page (draft_token_num v) (seq_lens b) (map (\<lambda>o'. committed (snd o')) outs)
       (out_cache_loc b) (kv (mem b)) = Inr (a', locs)"
    "commit_lens res = map (\<lambda>o'. committed (snd o')) outs" "out_cache_loc b' = locs" "kv (mem b') = a'"
    "seq_lens b' = map2 (+) (seq_lens b) (commit_lens res)"
    "seq_lens_sum b' = seq_lens_sum b + sum_list (commit_lens res)"
    "next_target_hidden res = hidden_segments (draft_token_num v) (commit_lens res) h"
    "reqs b' = map (\<lambda>(r, o'). r\<lparr>kv_committed_len := kv_committed_len r + committed o',
                                kv_allocated_len := kv_committed_len r + committed o'\<rparr>) outs"
    "new_verified_id res = map (\<lambda>o'. new_verified (snd o')) outs"
    "accept_length_per_req res = map (\<lambda>o'. accepted (snd o')) outs"
  using assms unfolding verify_def Let_def
  by (auto simp: rbind_eq_Inr split: option.splits)

text \<open>C5 No KV slot leaks in a verify step with page size 1: the slots that stay with the requests are
  the first \<open>commit_len\<close> of every request's block, and together with the free slots of the pool they
  are exactly the slots there were before.\<close>

theorem verify_no_slot_leak:
  assumes "verify e v b logits hidden 1 = Inr (b', res)" "\<not> is_idle b" "is_not_in_free_group (kv (mem b))"
    "length (out_cache_loc b) = length (commit_lens res) * draft_token_num v"
  shows "mset (out_cache_loc b') + avail (kv (mem b')) = mset (out_cache_loc b) + avail (kv (mem b))
    \<and> out_cache_loc b' = concat (map2 take (commit_lens res)
        (rows (length (commit_lens res)) (draft_token_num v) (out_cache_loc b)))"
proof (rule verify_unfold [OF assms(1,2)])
  fix lg acc bonus lps outs a' locs h
  assume fr: "free_uncommitted 1 (draft_token_num v) (seq_lens b) (map (\<lambda>o'. committed (snd o')) outs)
       (out_cache_loc b) (kv (mem b)) = Inr (a', locs)"
    and cl: "commit_lens res = map (\<lambda>o'. committed (snd o')) outs"
    and out: "out_cache_loc b' = locs" "kv (mem b') = a'"
  from free_uncommitted_token [OF assms(4), of "seq_lens b" "kv (mem b)"] fr
  obtain freed where f: "a' = token_free (kv (mem b)) freed"
    "locs = concat (map2 take (commit_lens res) (rows (length (commit_lens res)) (draft_token_num v) (out_cache_loc b)))"
    "mset locs + mset freed = mset (out_cache_loc b)"
    unfolding cl by auto
  then have "avail a' = avail (kv (mem b)) + mset freed" using assms(3) by (simp add: token_free_avail)
  then show ?thesis using out f(2) f(3) [symmetric] by (simp add: ac_simps)
qed


subsection \<open>Greedy verification of a batch succeeds and is lossless\<close>

text \<open>A batch that is decoded greedily, with the shapes the worker builds: \<open>lg\<close> are the logits after the
  adjustments (penalties and biases) of the batch's sampling information, when it has any.\<close>

definition adjusted_greedily :: "verify_env \<Rightarrow> verify_input \<Rightarrow> 'c batch \<Rightarrow> matrix \<Rightarrow> matrix \<Rightarrow> bool" where
  "adjusted_greedily e v b logits lg \<longleftrightarrow> (case batch_sampling_info b of
       None \<Rightarrow> lg = logits
     | Some si \<Rightarrow> (is_all_greedy si \<or> sampling_kernels e = None) \<and> length (temperatures si) = length (reqs b)
         \<and> apply_dflash_verify_logits_adjustments logits (Some si) (int (draft_token_num v)) = Inr lg)"

definition greedy_batch_ok ::
  "verify_env \<Rightarrow> verify_input \<Rightarrow> 'c batch \<Rightarrow> matrix \<Rightarrow> matrix \<Rightarrow> nat \<Rightarrow> nat \<Rightarrow> bool" where
  "greedy_batch_ok e v b logits lg vocab page \<longleftrightarrow> \<not> is_idle b \<and> adjusted_greedily e v b logits lg
     \<and> 0 < draft_token_num v \<and> reqs b \<noteq> []
     \<and> length (draft_token v) = length (reqs b) * draft_token_num v
     \<and> length lg = length (reqs b) * draft_token_num v
     \<and> (\<forall>row\<in>set lg. length row = vocab) \<and> (\<forall>t\<in>set (draft_token v). 0 \<le> t \<and> t < int vocab)
     \<and> (page = 1 \<or> 1 < page \<and> \<not> debug_mode (kv (mem b)))"

lemma adjusted_greedily_run:
  assumes "adjusted_greedily e v b logits lg"
  shows "(case batch_sampling_info b of None \<Rightarrow> Inr logits
       | Some si \<Rightarrow> if length (temperatures si) \<noteq> length (reqs b) then Inl RuntimeError
                   else apply_dflash_verify_logits_adjustments logits (Some si) (int (draft_token_num v))) = Inr lg"
    "(case batch_sampling_info b of None \<Rightarrow> False
       | Some si \<Rightarrow> \<not> is_all_greedy si \<and> sampling_kernels e \<noteq> None) = False"
  using assms by (auto simp: adjusted_greedily_def split: option.splits)

lemma free_uncommitted_total:
  assumes "page = 1 \<or> 1 < page \<and> \<not> debug_mode a"
  shows "\<exists>a' locs'. free_uncommitted page n prefixes commits locs a = Inr (a', locs')"
  using assms by (auto simp: free_uncommitted_def compute_paged_keep_slots_def paged_free_def Let_def)

text \<open>The block of request \<open>i\<close>, the target's predictions for it, and its row of the packed tensor.\<close>

definition block_of :: "verify_input \<Rightarrow> 'c batch \<Rightarrow> nat \<Rightarrow> int list" where
  "block_of v b i = rows (length (reqs b)) (draft_token_num v) (draft_token v) ! i"

definition predictions_of :: "verify_input \<Rightarrow> 'c batch \<Rightarrow> matrix \<Rightarrow> nat \<Rightarrow> int list" where
  "predictions_of v b logits i = rows (length (reqs b)) (draft_token_num v) (map torch_argmax logits) ! i"

definition packed_row :: "int list \<Rightarrow> int list \<Rightarrow> int list" where
  "packed_row c t = tl c @ [int (row_accept_len c t), t ! row_accept_len c t]"

lemma verify_greedy_run:
  assumes "greedy_batch_ok e v b logits lg vocab page"
  shows "\<exists>b' res outs lps. verify e v b logits (Some h) page = Inr (b', res) \<and> length outs = length (reqs b)
    \<and> commit_lens res = map (\<lambda>o'. committed (snd o')) outs
    \<and> reqs b' = map (\<lambda>(r, o'). r\<lparr>kv_committed_len := kv_committed_len r + committed o',
                                kv_allocated_len := kv_committed_len r + committed o'\<rparr>) outs
    \<and> seq_lens b' = map2 (+) (seq_lens b) (commit_lens res) \<and> new_verified_id res = map (\<lambda>o'. new_verified (snd o')) outs
    \<and> (\<forall>i<length (reqs b). length (block_of v b i) = draft_token_num v
         \<and> length (predictions_of v b lg i) = draft_token_num v
         \<and> packed_ok (draft_token_num v) (packed_row (block_of v b i) (predictions_of v b lg i)) (lps ! i)
         \<and> verify_req (detok e) (draft_token_num v) (packed_row (block_of v b i) (predictions_of v b lg i))
             (lps ! i) (reqs b ! i) = Inr (outs ! i))"
proof -
  let ?bs = "length (reqs b)" and ?n = "draft_token_num v"
  let ?c = "rows ?bs ?n (draft_token v)" and ?t = "rows ?bs ?n (map torch_argmax lg)"
  have ok: "0 < ?n" "0 < ?bs" "length (draft_token v) = ?bs * ?n" "length (map torch_argmax lg) = ?bs * ?n"
    "\<not> is_idle b" "adjusted_greedily e v b logits lg" "page = 1 \<or> 1 < page \<and> \<not> debug_mode (kv (mem b))"
    using assms by (auto simp: greedy_batch_ok_def)
  have wc: "length c = ?n" if "c \<in> set ?c" for c using rows_width [OF ok(3) that] .
  have wt: "length t = ?n" if "t \<in> set ?t" for t using rows_width [OF ok(4) that] .
  have "map length ?c = map (\<lambda>_. ?n) ?c" using wc by (rule map_cong [OF refl])
  moreover have "map length ?t = map (\<lambda>_. ?n) ?t" using wt by (rule map_cong [OF refl])
  ultimately have len: "map length ?t = map length ?c" by (simp add: map_replicate_const)
  have ne: "?c \<noteq> []" using ok(2) length_rows [of ?bs ?n "draft_token v"] by fastforce
  have hd: "?c \<noteq> []" "length (hd ?c) \<noteq> 0" using wc [OF hd_in_set [OF ne]] ok(1) ne by simp_all
  let ?acc = "map2 row_accept_len ?c ?t"
  let ?bonus = "map2 (!) ?t ?acc"
  have acc: "accept_batch e v b lg False = Inr (?acc, ?bonus)"
    using len hd by (simp add: accept_batch_def Let_def compute_dflash_accept_len_and_bonus_def)
  have sub: "set c \<subseteq> set (draft_token v)" if "c \<in> set ?c" for c
    using that concat_rows [OF ok(3)] by (metis UN_upper set_concat)
  have g: "\<forall>row\<in>set lg. length row = vocab" "\<forall>t\<in>set (draft_token v). 0 \<le> t \<and> t < int vocab"
    using assms by (simp_all add: greedy_batch_ok_def)
  have lok: "length lg = length ?c * ?n" "\<forall>c\<in>set ?c. length c = ?n" "\<forall>row\<in>set lg. length row = vocab"
    "\<forall>c\<in>set ?c. \<forall>t\<in>set c. 0 \<le> t \<and> t < int vocab"
    using ok(4) wc g sub by (simp, blast+)
  obtain lps where lps: "compute_dflash_candidate_logprobs (sampling_kernels e) (float_tiny e) ?c ?n lg
      (batch_sampling_info b) False = Inr lps" "length lps = ?bs" "\<forall>i<?bs. length (lps ! i) = ?n - 1"
    using candidate_logprobs_total [OF lok] by (metis length_rows)
  let ?packed = "map2 (\<lambda>c (a, t). tl c @ [int a, t]) ?c (zip ?acc ?bonus)"
  have pk: "?packed ! i = packed_row (?c ! i) (?t ! i)" if "i < ?bs" for i
    using that by (simp add: packed_row_def)
  have po: "packed_ok ?n (packed_row (?c ! i) (?t ! i)) (lps ! i)" if i: "i < ?bs" for i
  proof -
    have l: "length (?c ! i) = ?n" "length (?t ! i) = ?n" using wc wt i by simp_all
    have "row_accept_len (?c ! i) (?t ! i) < ?n" using row_accept_len_bound [of "?t ! i" "?c ! i"] l ok(1) by fastforce
    then show ?thesis using l ok(1) lps(3) i by (auto simp: packed_ok_def packed_row_def nth_append)
  qed
  let ?zip = "zip (reqs b) (zip ?packed lps)" and ?f = "\<lambda>(r, p, l). verify_req (detok e) ?n p l r"
  have zl: "length ?zip = ?bs" using lps(2) by simp
  have zi: "?zip ! i = (reqs b ! i, packed_row (?c ! i) (?t ! i), lps ! i)" if "i < ?bs" for i
    using that lps(2) pk by simp
  have "\<exists>y. ?f x = Inr y" if "x \<in> set ?zip" for x
  proof -
    from that obtain i where "i < length ?zip" and x: "?zip ! i = x" unfolding in_set_conv_nth by blast
    then have i: "i < ?bs" using zl by simp
    show ?thesis using verify_req_spec_total [OF po [OF i]] zi [OF i] x by auto
  qed
  then obtain outs where outs: "rmap ?f ?zip = Inr outs" using rmap_total [of ?zip ?f] by blast
  have lo: "length outs = ?bs" using rmap_length [OF outs] zl by simp
  have each: "verify_req (detok e) ?n (packed_row (?c ! i) (?t ! i)) (lps ! i) (reqs b ! i) = Inr (outs ! i)"
    if "i < ?bs" for i using rmap_nth [OF outs, of i] zl zi [OF that] that by simp
  obtain a' locs where fu: "free_uncommitted page ?n (seq_lens b) (map (\<lambda>o'. committed (snd o')) outs)
      (out_cache_loc b) (kv (mem b)) = Inr (a', locs)" using free_uncommitted_total [OF ok(7)] by blast
  let ?commits = "map (\<lambda>o'. committed (snd o')) outs"
  let ?reqs = "map (\<lambda>(r, o'). r\<lparr>kv_committed_len := kv_committed_len r + committed o',
                                kv_allocated_len := kv_committed_len r + committed o'\<rparr>) outs"
  let ?ends = "map2 (+) (seq_lens b) ?commits"
  let ?b' = "b\<lparr>reqs := ?reqs, out_cache_loc := locs, mem := (mem b)\<lparr>kv := a', pool :=
      assign_req_to_token_pool (oob_val e) (pool (mem b)) (req_pool_indices b) (seq_lens b) ?ends locs\<rparr>,
      seq_lens := ?ends, seq_lens_sum := seq_lens_sum b + sum_list ?commits\<rparr>"
  let ?res = "\<lparr>new_verified_id = map (\<lambda>o'. new_verified (snd o')) outs, commit_lens = ?commits,
      next_target_hidden = hidden_segments ?n ?commits h, accept_length_per_req = map (\<lambda>o'. accepted (snd o')) outs\<rparr>"
  have idle: "is_idle b = False" using ok(5) by simp
  have run: "verify e v b logits (Some h) page = Inr (?b', ?res)"
    unfolding verify_def Let_def idle adjusted_greedily_run [OF ok(6)] if_False option.case rbind_Inr acc split_conv
      lps(1) outs fu ..
  have br: "commit_lens ?res = ?commits" "reqs ?b' = ?reqs" "seq_lens ?b' = map2 (+) (seq_lens b) (commit_lens ?res)"
    "new_verified_id ?res = map (\<lambda>o'. new_verified (snd o')) outs" by simp_all
  have "length (?c ! i) = ?n" "length (?t ! i) = ?n" if "i < ?bs" for i using that wc wt by simp_all
  then have "\<forall>i<?bs. length (block_of v b i) = ?n \<and> length (predictions_of v b lg i) = ?n
      \<and> packed_ok ?n (packed_row (block_of v b i) (predictions_of v b lg i)) (lps ! i)
      \<and> verify_req (detok e) ?n (packed_row (block_of v b i) (predictions_of v b lg i))
          (lps ! i) (reqs b ! i) = Inr (outs ! i)"
    unfolding block_of_def predictions_of_def using each po by blast
  then show ?thesis using run br lo by blast
qed


lemma verify_greedy_row:
  assumes "greedy_batch_ok e v b logits lg vocab page" "i < length (reqs b)"
    and cur: "block_of v b i ! 0 = last (full_seq (reqs b ! i))" "full_seq (reqs b ! i) \<noteq> []"
    and forward: "\<forall>j<draft_token_num v. predictions_of v b lg i ! j
        = next (full_seq (reqs b ! i) @ slice 1 (j + 1) (block_of v b i))"
  shows "\<exists>b' res. verify e v b logits (Some h) page = Inr (b', res)
    \<and> 1 \<le> commit_lens res ! i \<and> commit_lens res ! i \<le> draft_token_num v
    \<and> (\<not> finished (reqs b' ! i) \<longrightarrow>
         full_seq (reqs b' ! i) = full_seq (reqs b ! i) @ greedy_decode next (full_seq (reqs b ! i)) (commit_lens res ! i))
    \<and> new_verified_id res ! i = last (full_seq (reqs b' ! i))"
proof -
  let ?n = "draft_token_num v" and ?c = "block_of v b i" and ?t = "predictions_of v b lg i" and ?r = "reqs b ! i"
  let ?a = "row_accept_len ?c ?t"
  obtain b' res outs lps where run: "verify e v b logits (Some h) page = Inr (b', res)" "length outs = length (reqs b)"
    and cl: "commit_lens res = map (\<lambda>o'. committed (snd o')) outs"
    and rq: "reqs b' = map (\<lambda>(r, o'). r\<lparr>kv_committed_len := kv_committed_len r + committed o',
                                kv_allocated_len := kv_committed_len r + committed o'\<rparr>) outs"
    and nv: "new_verified_id res = map (\<lambda>o'. new_verified (snd o')) outs"
    and all: "\<forall>i<length (reqs b). length (block_of v b i) = ?n \<and> length (predictions_of v b lg i) = ?n
         \<and> packed_ok ?n (packed_row (block_of v b i) (predictions_of v b lg i)) (lps ! i)
         \<and> verify_req (detok e) ?n (packed_row (block_of v b i) (predictions_of v b lg i))
             (lps ! i) (reqs b ! i) = Inr (outs ! i)"
    using verify_greedy_run [OF assms(1), of h] by blast
  have l: "length ?c = ?n" "length ?t = ?n" and po: "packed_ok ?n (packed_row ?c ?t) (lps ! i)"
    and vr: "verify_req (detok e) ?n (packed_row ?c ?t) (lps ! i) ?r = Inr (outs ! i)"
    using all assms(2) by auto
  have n: "0 < ?n" using assms(1) by (simp add: greedy_batch_ok_def)
  have ab: "?a < ?n" using row_accept_len_bound [of ?t ?c] l n by fastforce
  have pk: "packed_row ?c ?t ! (?n - 1) = int ?a" "packed_row ?c ?t ! ?n = ?t ! ?a"
    "take ?a (packed_row ?c ?t) = slice 1 (?a + 1) ?c"
    using l ab by (auto simp: packed_row_def nth_append slice_def drop_Suc)
  obtain r' out where o: "outs ! i = (r', out)" by (metis surj_pair)
  from verify_req_result [OF po, of "detok e" ?r] vr o pk have
    c: "1 \<le> committed out" "committed out \<le> ?a + 1" and len: "length (output_ids r') = length (output_ids ?r) + committed out"
    and go: "\<not> finished r' \<longrightarrow> output_ids r' = output_ids ?r @ slice 1 (?a + 1) ?c @ [?t ! ?a]"
    and org: "origin_input_ids r' = origin_input_ids ?r" and lv: "new_verified out = last (output_ids r')"
    by auto
  have ci: "commit_lens res ! i = committed out" using cl o run(2) assms(2) by simp
  have ri: "output_ids (reqs b' ! i) = output_ids r'" "finished (reqs b' ! i) = finished r'"
    "origin_input_ids (reqs b' ! i) = origin_input_ids r'"
    using rq o run(2) assms(2) by (simp_all add: finished_def)
  have bl: "butlast (full_seq ?r) @ last (full_seq ?r) # xs = full_seq ?r @ xs" for xs
    using cur(2) by (metis append.assoc append_Cons append_Nil append_butlast_last_id)
  have fw: "\<forall>j<length ?c. ?t ! j = next (butlast (full_seq ?r) @ take (j + 1) ?c)"
  proof (intro allI impI)
    fix j assume "j < length ?c"
    then have "?t ! j = next (full_seq ?r @ slice 1 (j + 1) ?c)" using forward l by simp
    moreover have tk: "take (j + 1) ?c = last (full_seq ?r) # slice 1 (j + 1) ?c"
      using l n cur(1) by (cases ?c) (auto simp: slice_def)
    ultimately show "?t ! j = next (butlast (full_seq ?r) @ take (j + 1) ?c)" by (simp only: bl tk)
  qed
  have ne: "?c \<noteq> []" using l n by auto
  have "slice 1 (?a + 1) ?c @ [?t ! ?a] = greedy_decode next (butlast (full_seq ?r) @ [?c ! 0]) (?a + 1)"
    using row_lossless [OF _ ne fw] l by simp
  then have dec: "slice 1 (?a + 1) ?c @ [?t ! ?a] = greedy_decode next (full_seq ?r) (?a + 1)"
    using cur by simp
  have "length (slice 1 (?a + 1) ?c) = ?a" using l ab by simp
  then have "\<not> finished r' \<longrightarrow> committed out = ?a + 1" using go len by auto
  then have "\<not> finished (reqs b' ! i) \<longrightarrow>
      full_seq (reqs b' ! i) = full_seq ?r @ greedy_decode next (full_seq ?r) (commit_lens res ! i)"
    using go dec ri org ci by (simp add: full_seq_def)
  moreover have "output_ids r' \<noteq> []" using len c(1) by auto
  then have "new_verified_id res ! i = last (full_seq (reqs b' ! i))" using nv lv o run(2) assms(2) ri by (simp add: full_seq_def)
  ultimately show ?thesis using run(1) c ab ci by auto
qed

text \<open>C3 A greedy verify step always succeeds on a well-shaped batch, commits between one and
  \<open>draft_token_num\<close> tokens per request, and is lossless end to end: if the adjusted logits of the forward
  pass are the target's logits for the sequence so far followed by the block, every request that goes on
  has been extended by exactly the tokens greedy decoding of the target produces.\<close>

theorem verify_greedy_batch_lossless:
  assumes "greedy_batch_ok e v b logits lg vocab page" "i < length (reqs b)"
    and cur: "block_of v b i ! 0 = last (full_seq (reqs b ! i))" "full_seq (reqs b ! i) \<noteq> []"
    and forward: "\<forall>j<draft_token_num v. predictions_of v b lg i ! j
        = next (full_seq (reqs b ! i) @ slice 1 (j + 1) (block_of v b i))"
  shows "\<exists>b' res. verify e v b logits (Some h) page = Inr (b', res)
    \<and> 1 \<le> commit_lens res ! i \<and> commit_lens res ! i \<le> draft_token_num v
    \<and> (\<not> finished (reqs b' ! i) \<longrightarrow>
         full_seq (reqs b' ! i) = full_seq (reqs b ! i) @ greedy_decode next (full_seq (reqs b ! i)) (commit_lens res ! i))"
  using verify_greedy_row [OF assms] by blast

subsection \<open>A concrete verify step\<close>

theorem verify_req_spec_witness:
  "\<exists>r' out. verify_req example_env 3 [8, 9, 1, 5] [-1, -2] (example_req [3] [4]) = Inr (r', out)
     \<and> 1 \<le> committed out \<and> committed out \<le> 2 \<and> butlast (output_ids r') = [4] @ take (committed out - 1) [8, 9, 1, 5]"
proof -
  have "packed_ok 3 [8, 9, 1, 5] [-1, -2]" by (simp add: packed_ok_def)
  from verify_req_spec [OF this, of example_env "example_req [3] [4]"] show ?thesis
    by (fastforce simp: example_req_def)
qed

definition example_verify_env :: verify_env where
  "example_verify_env = \<lparr>detok = example_env, sampling_kernels = None, chain_cache_in = [], device_index = None,
     threshold_single = 1, threshold_acc = 1, rand_uniform = [], rand_final = [], float_tiny = 1,
     garbage_val = (\<lambda>_. 0), oob_val = (\<lambda>_. 0)\<rparr>"

definition example_verify_input :: verify_input where
  "example_verify_input = \<lparr>draft_token = [0, 1], draft_token_num = 2, custom_mask = None\<rparr>"

definition example_batch :: "unit batch" where
  "example_batch = \<lparr>is_idle = False, reqs = [example_req [1] [0]], input_ids = [0, 1], out_cache_loc = [5, 6],
     seq_lens = [4], seq_lens_sum = 4, req_pool_indices = [0], batch_sampling_info = None,
     mem = \<lparr>cache = (), kv = token_init 8 False, pool = pool_init 1 8\<rparr>\<rparr>"

definition example_logits :: matrix where
  "example_logits = [[0, 1, 0], [1, 0, 0]]"

lemmas example_verify_defs = example_verify_input_def example_batch_def example_logits_def

lemma example_batch_ok:
  "greedy_batch_ok example_verify_env example_verify_input example_batch example_logits example_logits 3 1"
  by (simp add: greedy_batch_ok_def adjusted_greedily_def example_verify_defs)

theorem verify_greedy_batch_lossless_witness:
  "\<exists>b' res. verify example_verify_env example_verify_input example_batch example_logits (Some [(), ()]) 1
       = Inr (b', res) \<and> 1 \<le> commit_lens res ! 0 \<and> commit_lens res ! 0 \<le> 2
     \<and> (finished (reqs b' ! 0)
        \<or> full_seq (reqs b' ! 0) = [1, 0] @ greedy_decode (\<lambda>xs. (last xs + 1) mod 2) [1, 0] (commit_lens res ! 0))"
proof -
  have bo: "block_of example_verify_input example_batch 0 = [0, 1]"
    "predictions_of example_verify_input example_batch example_logits 0 = [1, 0]"
    by (simp_all add: block_of_def predictions_of_def example_verify_defs slice_def torch_argmax_def numeral_2_eq_2)
  have fs: "full_seq (reqs example_batch ! 0) = [1, 0]" "draft_token_num example_verify_input = 2"
    "0 < length (reqs example_batch)"
    by (simp_all add: full_seq_def example_verify_defs example_req_def)
  have fw: "\<forall>j<draft_token_num example_verify_input. predictions_of example_verify_input example_batch example_logits 0 ! j
      = (last (full_seq (reqs example_batch ! 0) @ slice 1 (j + 1) (block_of example_verify_input example_batch 0)) + 1) mod 2"
    unfolding bo fs by (auto simp: less_2_cases_iff slice_def)
  show ?thesis
    using verify_greedy_batch_lossless [OF example_batch_ok fs(3) _ _ fw, of "[(), ()]"] bo fs by auto
qed

theorem verify_no_slot_leak_witness:
  "\<exists>b' res. verify example_verify_env example_verify_input example_batch example_logits (Some [(), ()]) 1
       = Inr (b', res)
     \<and> mset (out_cache_loc b') + avail (kv (mem b')) = mset [5, 6] + avail (token_init 8 False)"
proof -
  obtain b' res and outs :: "(req \<times> req_outcome) list" where run: "verify example_verify_env example_verify_input example_batch example_logits
      (Some [(), ()]) 1 = Inr (b', res)" and "length outs = length (reqs example_batch)"
    "commit_lens res = map (\<lambda>o'. committed (snd o')) outs"
    using verify_greedy_run [OF example_batch_ok, of "[(), ()]"] by blast
  then have "length (commit_lens res) = 1" by (simp add: example_batch_def)
  then show ?thesis using verify_no_slot_leak [OF run] run by (auto simp: example_verify_defs token_init_def token_clear_def)
qed

end
