(* ===== verification/Opd_Anchor.thy ===== *)
theory Opd_Anchor
  imports Dflash_Accept
begin

section \<open>Anchor plans of the draft trainer\<close>

text \<open>
  Model of the planning part of \<^verbatim>\<open>ComposedDFlashStudentForCausalLM\<close>
  (\<^verbatim>\<open>verl/models/transformers/dflash_student.py\<close>): the attention masks of the draft forward, its
  position and noise ids, the choice of attention implementation with its fallbacks, and the plans
  that turn rollout metadata into draft blocks (response anchors, randomised response anchors,
  rejected drafts, replayed blocks).

  A batch tensor is a list of rows. Lengths and positions read from tensors are integers, because
  anchors may be \<open>-1\<close> and the code tests for negative positions. Python's \<^verbatim>\<open>random.Random\<close> is the
  record \<open>rng\<close>: what \<^verbatim>\<open>shuffle\<close> does to a list and the sequence of \<^verbatim>\<open>randrange\<close> results, as a
  function of the seed. The draft network is an argument.
\<close>

subsection \<open>Attention masks\<close>

definition create_dflash_sdpa_mask ::
  "int list list \<Rightarrow> bool list list \<Rightarrow> nat \<Rightarrow> nat \<Rightarrow> bool list list list" where
  "create_dflash_sdpa_mask anchor_positions block_keep_mask seq_len block_size =
     map2 (\<lambda>anchors keep.
       let q_len = length anchors * block_size; kv_len = seq_len + q_len;
           anchor_expanded = repeat_interleave block_size anchors;
           valid_block = repeat_interleave block_size keep
       in map (\<lambda>q. map (\<lambda>kv.
            (kv < seq_len \<and> int kv < anchor_expanded ! q
               \<or> seq_len \<le> kv \<and> q div block_size = (kv - seq_len) div block_size)
            \<and> valid_block ! q) [0..<kv_len]) [0..<q_len]) anchor_positions block_keep_mask"

definition dflash_mask_mod ::
  "int list list \<Rightarrow> bool list list \<Rightarrow> nat \<Rightarrow> nat \<Rightarrow> nat \<Rightarrow> nat \<Rightarrow> nat \<Rightarrow> nat \<Rightarrow> bool" where
  "dflash_mask_mod anchor_positions block_keep_mask num_blocks seq_len block_size b q_idx kv_idx =
     (let q_block_id = q_idx div block_size;
          safe = min q_block_id (num_blocks - 1);
          anchor_pos = anchor_positions ! b ! safe;
          mask_context = (kv_idx < seq_len \<and> int kv_idx < anchor_pos);
          mask_draft = (seq_len \<le> kv_idx \<and> q_block_id = (kv_idx - seq_len) div block_size)
      in (mask_context \<or> mask_draft) \<and> block_keep_mask ! b ! safe \<and> q_block_id < num_blocks)"

text \<open>The block mask of flex attention stands for the dense mask its predicate describes.\<close>

definition create_dflash_block_mask ::
  "bool \<Rightarrow> int list list \<Rightarrow> bool list list \<Rightarrow> nat \<Rightarrow> nat \<Rightarrow> bool list list list res" where
  "create_dflash_block_mask flex_available anchor_positions block_keep_mask seq_len block_size =
     (if \<not> flex_available then Inl RuntimeError
      else let num_blocks = (case anchor_positions of [] \<Rightarrow> 0 | r # _ \<Rightarrow> length r);
               q_len = num_blocks * block_size
           in Inr (map (\<lambda>b. map (\<lambda>q. map (\<lambda>kv.
                dflash_mask_mod anchor_positions block_keep_mask num_blocks seq_len block_size b q kv)
                  [0..<seq_len + q_len]) [0..<q_len]) [0..<length anchor_positions]))"

subsection \<open>The draft forward\<close>

definition create_position_ids_for_anchors :: "int list list \<Rightarrow> nat \<Rightarrow> int list list" where
  "create_position_ids_for_anchors anchor_positions block_size =
     map (\<lambda>anchors. concat (map (\<lambda>a. map (\<lambda>k. a + int k) [0..<block_size]) anchors)) anchor_positions"

text \<open>The noise ids of one row: the mask token everywhere, the anchor token at the start of every
  kept block. The embedding of the ids is left to the network.\<close>

definition clamp :: "int \<Rightarrow> int \<Rightarrow> int \<Rightarrow> int" where
  "clamp lo hi x = min hi (max lo x)"

definition noise_row :: "int \<Rightarrow> nat \<Rightarrow> int list \<Rightarrow> int list \<Rightarrow> bool list \<Rightarrow> int list" where
  "noise_row mask_token_id block_size ids anchors keep =
     fold (\<lambda>j row. row[j * block_size :=
        (if keep ! j then ids ! nat (clamp 0 (int (length ids) - 1) (anchors ! j)) else mask_token_id)])
       [0..<length anchors] (replicate (length anchors * block_size) mask_token_id)"

definition create_noise_ids_for_anchors ::
  "int option \<Rightarrow> int list list \<Rightarrow> int list list \<Rightarrow> bool list list \<Rightarrow> nat \<Rightarrow> int list list res" where
  "create_noise_ids_for_anchors mask_token_id input_ids anchor_positions block_keep_mask block_size =
     (case mask_token_id of
        None \<Rightarrow> Inl ValueError
      | Some m \<Rightarrow>
          if \<exists>r\<in>set input_ids. r = [] then Inl RuntimeError
          else Inr (map2 (\<lambda>ids (anchors, keep). noise_row m block_size ids anchors keep)
                 input_ids (zip anchor_positions block_keep_mask)))"

type_synonym 'd draft_net =
  "string \<Rightarrow> int list list \<Rightarrow> bool list list list \<Rightarrow> int list list \<Rightarrow> 'd res"

text \<open>\<^verbatim>\<open>_run_dflash_draft_forward\<close>: \<open>net\<close> reads the attention implementation from its configuration,
  which the fallbacks change; \<open>is_oom\<close> recognises an out-of-memory error. The result carries the
  implementation the configuration ends up with.\<close>

definition run_dflash_draft_forward ::
  "bool \<Rightarrow> (py_exn \<Rightarrow> bool) \<Rightarrow> 'd draft_net \<Rightarrow> string \<Rightarrow> int option \<Rightarrow> int list list \<Rightarrow> int list list
     \<Rightarrow> bool list list \<Rightarrow> nat \<Rightarrow> ('d \<times> string) res" where
  "run_dflash_draft_forward flex_available is_oom net attn_impl mask_token_id input_ids
     anchor_positions block_keep_mask block_size =
     rbind (create_noise_ids_for_anchors mask_token_id input_ids anchor_positions block_keep_mask block_size) (\<lambda>noise.
     let seq_len = (case input_ids of [] \<Rightarrow> 0 | r # _ \<Rightarrow> length r);
         context = map int [0..<seq_len];
         pos = map (\<lambda>r. context @ r) (create_position_ids_for_anchors anchor_positions block_size);
         sdpa = create_dflash_sdpa_mask anchor_positions block_keep_mask seq_len block_size;
         (mask, impl) = (if attn_impl = ''flex_attention''
           then (case create_dflash_block_mask flex_available anchor_positions block_keep_mask seq_len block_size of
                   Inr m \<Rightarrow> (m, attn_impl) | Inl e \<Rightarrow> (sdpa, ''sdpa''))
           else (sdpa, attn_impl))
     in case net impl pos mask noise of
          Inr h \<Rightarrow> Inr (h, impl)
        | Inl e \<Rightarrow>
            if e \<noteq> RuntimeError \<or> impl \<noteq> ''flex_attention'' \<or> is_oom e then Inl e
            else rbind (net ''sdpa'' pos sdpa noise) (\<lambda>h. Inr (h, ''sdpa'')))"

subsection \<open>Rollout metadata\<close>

record rejected_meta =
  rd_anchors :: "int list list option"
  rd_offsets :: "int list list option"
  rd_tokens :: "int list list option"
  rd_teacher :: "real list list option"
  rd_mask :: "bool list list option"

definition full_anchor_of :: "int \<Rightarrow> int \<Rightarrow> int" where
  "full_anchor_of prompt_len anchor_resp = (if anchor_resp < 0 then prompt_len - 1 else prompt_len + anchor_resp)"

definition valid_seq_lens_of :: "int list list option \<Rightarrow> int list list \<Rightarrow> int list" where
  "valid_seq_lens_of attention_mask input_ids =
     (case attention_mask of
        Some am \<Rightarrow> map sum_list am
      | None \<Rightarrow> map (\<lambda>r. int (length r)) input_ids)"

subsection \<open>Replayed blocks\<close>

record replay_plan =
  rp_anchor_positions :: "int list list"
  rp_accepted_lengths :: "int list list"
  rp_drafted_lengths :: "int list list"
  rp_block_keep_mask :: "bool list list"
  rp_valid_seq_lens :: "int list"

definition replay_item :: "int \<Rightarrow> int \<Rightarrow> int \<Rightarrow> bool \<times> int \<times> int \<times> int \<Rightarrow> (int \<times> int \<times> int) option" where
  "replay_item prompt_len valid_len draft_block_size item =
     (case item of (m, anchor_resp, accepted_len, drafted_len) \<Rightarrow>
        if \<not> m then None
        else if drafted_len \<le> 0 then None
        else let drafted = min drafted_len (draft_block_size - 1);
                 accepted = max 0 (min accepted_len drafted);
                 full_anchor = full_anchor_of prompt_len anchor_resp
             in if full_anchor < 0 \<or> valid_len \<le> full_anchor then None
                else Some (full_anchor, accepted, drafted))"

definition replay_row ::
  "int \<Rightarrow> int \<Rightarrow> int \<Rightarrow> int \<Rightarrow> (bool \<times> int \<times> int \<times> int) list \<Rightarrow> (int \<times> int \<times> int) option list" where
  "replay_row seq_len draft_block_size prompt_len response_len items =
     map (replay_item prompt_len (min (prompt_len + response_len) seq_len) draft_block_size) items"

definition build_replay_dis_anchor_plan ::
  "int list list \<Rightarrow> int list list option \<Rightarrow> int list \<Rightarrow> int list \<Rightarrow> int list list \<Rightarrow> int list list \<Rightarrow> int list list
     \<Rightarrow> bool list list \<Rightarrow> int \<Rightarrow> replay_plan" where
  "build_replay_dis_anchor_plan input_ids attention_mask prompt_lengths response_lengths
     anchor_indices accepted_lengths drafted_lengths block_mask draft_block_size =
     (let seq_len = (case input_ids of [] \<Rightarrow> 0 | r # _ \<Rightarrow> int (length r));
          rws = map2 (\<lambda>(p, r) (m, a, c, d). replay_row seq_len draft_block_size p r (zip m (zip a (zip c d))))
                  (zip prompt_lengths response_lengths)
                  (zip block_mask (zip anchor_indices (zip accepted_lengths drafted_lengths)));
          pick = (\<lambda>f z. map (map (\<lambda>it. case it of None \<Rightarrow> z | Some x \<Rightarrow> f x)) rws)
      in \<lparr>rp_anchor_positions = pick fst 0, rp_accepted_lengths = pick (fst \<circ> snd) 0,
          rp_drafted_lengths = pick (snd \<circ> snd) 0,
          rp_block_keep_mask = map (map (\<lambda>it. it \<noteq> None)) rws,
          rp_valid_seq_lens = valid_seq_lens_of attention_mask input_ids\<rparr>)"

subsection \<open>Randomised response anchors\<close>

record rng =
  rng_shuffle :: "int list \<Rightarrow> int list"
  rng_randrange :: "nat \<Rightarrow> nat \<Rightarrow> nat"

fun lay_out :: "int \<Rightarrow> int list \<Rightarrow> int list \<Rightarrow> int list" where
  "lay_out cursor (l # ls) (g # gs) = (cursor - 1) # lay_out (cursor + l + g) ls gs"
| "lay_out cursor _ _ = []"

definition spread_gaps :: "(nat \<Rightarrow> nat \<Rightarrow> nat) \<Rightarrow> nat \<Rightarrow> nat \<Rightarrow> int list" where
  "spread_gaps draw slots n =
     fold (\<lambda>i gaps. let k = draw i (length gaps) in gaps[k := gaps ! k + 1]) [0..<n] (replicate slots 0)"

text \<open>The products and their sum are 64-bit integers, which wrap around.\<close>

definition token_hash :: "int list \<Rightarrow> int" where
  "token_hash ids = (sum_list (map2 (*) ids (map (\<lambda>k. int k + 1) [0..<length ids])) + 2 ^ 63) mod 2 ^ 64 - 2 ^ 63"

definition build_random_response_anchor_plan ::
  "(int \<Rightarrow> rng) \<Rightarrow> int list \<Rightarrow> nat \<Rightarrow> int \<Rightarrow> int \<Rightarrow> int list \<Rightarrow> int \<Rightarrow> (int list \<times> int list) res" where
  "build_random_response_anchor_plan random_of ids batch_idx prompt_len response_len segment_lens seed =
     (if response_len \<le> 0 \<or> segment_lens = [] then Inr ([], [])
      else let lens = filter (\<lambda>l. 0 < l) segment_lens in
        if lens = [] then Inr ([], [])
        else if response_len < sum_list lens then Inl ValueError
        else let valid_len = max 0 (min (prompt_len + response_len) (int (length ids)));
                 g = random_of (seed + int batch_idx * 1000003 + token_hash (take (nat valid_len) ids));
                 shuffled = rng_shuffle g lens;
                 gaps = spread_gaps (rng_randrange g) (length shuffled + 1) (nat (response_len - sum_list lens))
             in Inr (lay_out (hd gaps) shuffled (tl gaps), shuffled))"

subsection \<open>Response anchors\<close>

record opd_config =
  draft_block_size :: int
  response_anchor_stride :: nat
  random_enabled :: bool
  random_seed :: int
  include_rejected :: bool

definition valid_rejects :: "int \<Rightarrow> int list \<Rightarrow> int list" where
  "valid_rejects response_len raw = sort (remdups (filter (\<lambda>i. 0 \<le> i \<and> i < response_len) raw))"

definition anchors_boundaries :: "int \<Rightarrow> int list \<Rightarrow> int list \<times> int list" where
  "anchors_boundaries response_len raw =
     (if response_len \<le> 0 then ([], [])
      else let rejects = valid_rejects response_len raw in
        if rejects = [] then ([], [])
        else if last rejects < response_len - 1
        then let rejects' = rejects @ [response_len - 1] in (-1 # rejects', rejects')
        else (-1 # rejects, rejects))"

definition stride_pairs :: "nat \<Rightarrow> (int \<times> int) list \<Rightarrow> (int \<times> int) list" where
  "stride_pairs stride pairs =
     map fst (filter (\<lambda>(_, k). k mod stride = 0 \<or> k = length pairs - 1) (zip pairs [0..<length pairs]))"

text \<open>The anchor/boundary pairs of one sample after striding.\<close>

definition anchor_pairs :: "nat \<Rightarrow> int \<Rightarrow> int list \<Rightarrow> (int \<times> int) list" where
  "anchor_pairs stride response_len raw =
     (let (anchors, boundaries) = anchors_boundaries response_len raw in
      if 1 < stride \<and> anchors \<noteq> [] then stride_pairs stride (zip anchors boundaries)
      else zip anchors boundaries)"

fun response_segments :: "int \<Rightarrow> int \<Rightarrow> int \<Rightarrow> (int \<times> int) list \<Rightarrow> (int \<times> int) list" where
  "response_segments seq_len bs prompt_len [] = []"
| "response_segments seq_len bs prompt_len ((anchor_resp, boundary_resp) # rest) =
     (let full_anchor = full_anchor_of prompt_len anchor_resp; segment_len = boundary_resp - anchor_resp in
      if segment_len \<le> 0 \<or> full_anchor < 0 \<or> seq_len - 1 \<le> full_anchor
      then response_segments seq_len bs prompt_len rest
      else (anchor_resp, min segment_len (bs - 1)) # response_segments seq_len bs prompt_len rest)"

definition place_segments :: "int \<Rightarrow> int \<Rightarrow> (int \<times> int) list \<Rightarrow> (int \<times> int) list" where
  "place_segments seq_len prompt_len segs =
     map (\<lambda>(a, l). (full_anchor_of prompt_len a, l))
       (filter (\<lambda>(a, l). \<not> (full_anchor_of prompt_len a < 0 \<or> seq_len - 1 \<le> full_anchor_of prompt_len a)) segs)"

text \<open>Anchors of rejected drafts, appended with an empty segment when they are not anchors yet.\<close>

definition add_rejected_anchor ::
  "int \<Rightarrow> int \<Rightarrow> int \<Rightarrow> int \<Rightarrow> bool \<times> int \<times> int \<Rightarrow> (int \<times> int) list \<Rightarrow> (int \<times> int) list" where
  "add_rejected_anchor seq_len bs prompt_len response_len item plan =
     (case item of (m, off, anchor_resp) \<Rightarrow>
        if \<not> m then plan
        else if off \<le> 0 \<or> bs \<le> off then plan
        else let full_anchor = full_anchor_of prompt_len anchor_resp in
          if full_anchor < 0 \<or> min (prompt_len + response_len) seq_len \<le> full_anchor then plan
          else if full_anchor \<in> fst ` set plan then plan
          else plan @ [(full_anchor, 0)])"

record sample_plan =
  sp_blocks :: "(int \<times> int) list"
  sp_response_count :: nat
  sp_reject_count :: nat
  sp_empty_reject :: bool
  sp_skipped :: bool

definition opd_sample_plan ::
  "(int \<Rightarrow> rng) \<Rightarrow> opd_config \<Rightarrow> int \<Rightarrow> int list \<Rightarrow> nat \<Rightarrow> int \<Rightarrow> int \<Rightarrow> int list
     \<Rightarrow> (bool \<times> int \<times> int) list option \<Rightarrow> sample_plan res" where
  "opd_sample_plan random_of cfg seq_len ids batch_idx prompt_len response_len raw rejected =
     (let bs = draft_block_size cfg;
          segs = response_segments seq_len bs prompt_len (anchor_pairs (response_anchor_stride cfg) response_len raw)
      in rbind (if random_enabled cfg \<and> 0 < response_len \<and> segs \<noteq> []
                then rbind (build_random_response_anchor_plan random_of ids batch_idx prompt_len response_len
                       (map snd segs) (random_seed cfg)) (\<lambda>(a, l). Inr (zip a l))
                else Inr segs) (\<lambda>segs'.
         let response = place_segments seq_len prompt_len segs';
             blocks = (case rejected of
                 Some items \<Rightarrow> if include_rejected cfg
                   then fold (add_rejected_anchor seq_len bs prompt_len response_len) items response else response
               | None \<Rightarrow> response)
         in Inr \<lparr>sp_blocks = blocks, sp_response_count = length response,
              sp_reject_count = (if response_len \<le> 0 then 0 else length (valid_rejects response_len raw)),
              sp_empty_reject = (0 < response_len \<and> valid_rejects response_len raw = []),
              sp_skipped = (0 < response_len \<and> response = [])\<rparr>))"

record opd_plan =
  anchor_positions :: "int list list"
  segment_lens :: "int list list"
  row_starts :: "int list list"
  block_keep_mask :: "bool list list"
  valid_seq_lens :: "int list"
  valid_anchor_count :: nat
  skipped_sample_count :: nat
  empty_reject_sample_count :: nat
  total_reject_count :: nat
  sample_count :: nat

definition rejected_rows :: "rejected_meta \<Rightarrow> nat \<Rightarrow> (bool \<times> int \<times> int) list option" where
  "rejected_rows rej b =
     (case (rd_anchors rej, rd_offsets rej, rd_mask rej) of
        (Some a, Some f, Some m) \<Rightarrow> Some (zip (m ! b) (zip (f ! b) (a ! b)))
      | _ \<Rightarrow> None)"

definition assemble_plan :: "int list \<Rightarrow> sample_plan list \<Rightarrow> opd_plan" where
  "assemble_plan valid_lens samples =
     (let n = max (fold max (map (length \<circ> sp_blocks) samples) 0) 1;
          col = (\<lambda>f. map (\<lambda>s. pad_to n 0 (map f (sp_blocks s))) samples)
      in \<lparr>anchor_positions = col fst, segment_lens = col snd, row_starts = col fst,
          block_keep_mask = map (\<lambda>s. pad_to n False (map (\<lambda>_. True) (sp_blocks s))) samples,
          valid_seq_lens = valid_lens,
          valid_anchor_count = sum_list (map sp_response_count samples),
          skipped_sample_count = length (filter sp_skipped samples),
          empty_reject_sample_count = length (filter sp_empty_reject samples),
          total_reject_count = sum_list (map sp_reject_count samples),
          sample_count = length samples\<rparr>)"

definition build_opd_anchor_plan ::
  "(int \<Rightarrow> rng) \<Rightarrow> opd_config \<Rightarrow> int list list \<Rightarrow> int list list option \<Rightarrow> int list \<Rightarrow> int list \<Rightarrow> int list list
     \<Rightarrow> rejected_meta \<Rightarrow> opd_plan res" where
  "build_opd_anchor_plan random_of cfg input_ids attention_mask prompt_lengths response_lengths reject_token_indices rej =
     (let seq_len = (case input_ids of [] \<Rightarrow> 0 | r # _ \<Rightarrow> int (length r)) in
      rbind (rmap (\<lambda>b. opd_sample_plan random_of cfg seq_len (input_ids ! b) b (prompt_lengths ! b)
               (response_lengths ! b) (reject_token_indices ! b) (rejected_rows rej b)) [0..<length input_ids])
        (\<lambda>samples. Inr (assemble_plan (valid_seq_lens_of attention_mask input_ids) samples)))"

subsection \<open>Rejected drafts\<close>

text \<open>One sample of \<^verbatim>\<open>_build_rejected_draft_anchor_plan\<close>: the anchors so far and the number of
  selected tokens.\<close>

definition rejected_item_ok :: "int \<Rightarrow> int \<Rightarrow> int \<Rightarrow> bool \<times> int \<times> int \<times> int \<Rightarrow> bool" where
  "rejected_item_ok bs prompt_len valid_len item =
     (case item of (m, off, tok, anchor_resp) \<Rightarrow>
        m \<and> \<not> (off \<le> 0 \<or> bs \<le> off \<or> tok < 0)
        \<and> \<not> (full_anchor_of prompt_len anchor_resp < 0 \<or> valid_len \<le> full_anchor_of prompt_len anchor_resp))"

fun rejected_anchors ::
  "int \<Rightarrow> nat option \<Rightarrow> int \<Rightarrow> int \<Rightarrow> (bool \<times> int \<times> int \<times> int) list \<Rightarrow> nat \<Rightarrow> int list \<Rightarrow> int list" where
  "rejected_anchors bs cap prompt_len valid_len [] selected anchors = anchors"
| "rejected_anchors bs cap prompt_len valid_len ((m, off, tok, anchor_resp) # items) selected anchors =
     (if \<not> m then rejected_anchors bs cap prompt_len valid_len items selected anchors
      else if cap \<noteq> None \<and> the cap \<le> selected then rejected_anchors bs cap prompt_len valid_len items selected anchors
      else if off \<le> 0 \<or> bs \<le> off \<or> tok < 0 then rejected_anchors bs cap prompt_len valid_len items selected anchors
      else let full_anchor = full_anchor_of prompt_len anchor_resp in
        if full_anchor < 0 \<or> valid_len \<le> full_anchor
        then rejected_anchors bs cap prompt_len valid_len items selected anchors
        else rejected_anchors bs cap prompt_len valid_len items (selected + 1)
               (if full_anchor \<in> set anchors then anchors else anchors @ [full_anchor]))"

definition rejected_items :: "rejected_meta \<Rightarrow> nat \<Rightarrow> (bool \<times> int \<times> int \<times> int) list option" where
  "rejected_items rej b =
     (case (rd_anchors rej, rd_offsets rej, rd_tokens rej, rd_mask rej) of
        (Some a, Some f, Some t, Some m) \<Rightarrow>
          if \<exists>r\<in>set m. \<exists>x\<in>set r. x then Some (zip (m ! b) (zip (f ! b) (zip (t ! b) (a ! b)))) else None
      | _ \<Rightarrow> None)"

definition build_rejected_draft_anchor_plan ::
  "int list list \<Rightarrow> int list \<Rightarrow> int list \<Rightarrow> int \<Rightarrow> nat option \<Rightarrow> rejected_meta \<Rightarrow> int list list \<times> bool list list" where
  "build_rejected_draft_anchor_plan input_ids prompt_lengths response_lengths bs cap rej =
     (let seq_len = (case input_ids of [] \<Rightarrow> 0 | r # _ \<Rightarrow> int (length r));
          all = map (\<lambda>b. case rejected_items rej b of
             None \<Rightarrow> []
           | Some items \<Rightarrow> rejected_anchors bs cap (prompt_lengths ! b)
               (min (prompt_lengths ! b + response_lengths ! b) seq_len) items 0 []) [0..<length input_ids];
          n = max (fold max (map length all) 0) 1
      in (map (pad_to n 0) all, map (\<lambda>a. pad_to n False (map (\<lambda>_. True) a)) all))"

subsection \<open>The two attention masks agree\<close>

definition grid :: "nat \<Rightarrow> 'a list list \<Rightarrow> bool" where
  "grid n rws \<longleftrightarrow> (\<forall>r\<in>set rws. length r = n)"

lemma length_repeat_interleave [simp]: "length (repeat_interleave n xs) = length xs * n"
  by (induction xs) (auto simp: repeat_interleave_def)

lemma nth_repeat_interleave:
  "q < length xs * n \<Longrightarrow> repeat_interleave n xs ! q = xs ! (q div n)"
proof (induction xs arbitrary: q)
  case (Cons x xs)
  show ?case
  proof (cases "q < n")
    case True
    then show ?thesis by (simp add: repeat_interleave_def nth_append)
  next
    case False
    then have q: "q - n < length xs * n" "0 < n" using Cons.prems by (cases n; auto)+
    have "repeat_interleave n (x # xs) ! q = repeat_interleave n xs ! (q - n)"
      using False by (simp add: repeat_interleave_def nth_append)
    moreover have "q div n = Suc ((q - n) div n)" using False q(2) by (simp add: le_div_geq)
    ultimately show ?thesis using Cons.IH [OF q(1)] by simp
  qed
qed simp

lemma block_of_query: "q < n * bs \<Longrightarrow> q div bs < (n :: nat)"
  by (simp add: less_mult_imp_div_less)

lemma mask_mod_eq_sdpa:
  assumes "b < length anchors" "grid n anchors" "grid n keep" "length keep = length anchors"
    "q < n * bs" "kv < seq_len + n * bs"
  shows "create_dflash_sdpa_mask anchors keep seq_len bs ! b ! q ! kv
    = dflash_mask_mod anchors keep n seq_len bs b q kv"
proof -
  have row: "length (anchors ! b) = n" "length (keep ! b) = n" using assms by (auto simp: grid_def)
  have q: "q div bs < n" using block_of_query [OF assms(5)] .
  have "create_dflash_sdpa_mask anchors keep seq_len bs ! b ! q ! kv
      = ((kv < seq_len \<and> int kv < anchors ! b ! (q div bs)
          \<or> seq_len \<le> kv \<and> q div bs = (kv - seq_len) div bs) \<and> keep ! b ! (q div bs))"
    using assms row by (simp add: create_dflash_sdpa_mask_def Let_def nth_repeat_interleave)
  then show ?thesis using q by (simp add: dflash_mask_mod_def Let_def min_absorb1)
qed

text \<open>The flex-attention block mask and the dense SDPA mask are the same mask.\<close>

lemma block_mask_eq_sdpa_mask:
  assumes "grid n anchors" "grid n keep" "length keep = length anchors" "anchors \<noteq> []"
  shows "create_dflash_block_mask True anchors keep seq_len bs = Inr (create_dflash_sdpa_mask anchors keep seq_len bs)"
proof -
  have n: "(case anchors of [] \<Rightarrow> 0 | r # _ \<Rightarrow> length r) = n" using assms by (cases anchors) (auto simp: grid_def)
  let ?sdpa = "create_dflash_sdpa_mask anchors keep seq_len bs"
  have shape: "length ?sdpa = length anchors" "b < length anchors \<Longrightarrow> length (?sdpa ! b) = n * bs"
    "b < length anchors \<Longrightarrow> q < n * bs \<Longrightarrow> length (?sdpa ! b ! q) = seq_len + n * bs" for b q
    using assms by (auto simp: create_dflash_sdpa_mask_def Let_def grid_def)
  show ?thesis unfolding create_dflash_block_mask_def n Let_def
    by (simp, intro nth_equalityI) (use assms shape in \<open>simp_all add: mask_mod_eq_sdpa\<close>)
qed

definition sdpa_forward ::
  "'d draft_net \<Rightarrow> int option \<Rightarrow> int list list \<Rightarrow> int list list \<Rightarrow> bool list list \<Rightarrow> nat \<Rightarrow> 'd res" where
  "sdpa_forward net mask_token_id input_ids anchors keep bs =
     rbind (create_noise_ids_for_anchors mask_token_id input_ids anchors keep bs) (\<lambda>noise.
       net ''sdpa'' (map (\<lambda>r. map int [0..<length (hd input_ids)] @ r) (create_position_ids_for_anchors anchors bs))
         (create_dflash_sdpa_mask anchors keep (length (hd input_ids)) bs) noise)"

text \<open>The draft forward does not depend on flex attention: if on every input the flex kernel either
  computes what the SDPA kernel computes or fails with an error that is not out-of-memory, then the
  forward returns the SDPA result whether or not flex attention is available or works, because the
  flex block mask and the dense mask are the same.\<close>

theorem draft_forward_fallback:
  assumes "grid n anchors" "grid n keep" "length keep = length anchors" "anchors \<noteq> []" "input_ids \<noteq> []"
    and flex: "\<And>pos m ids. net ''flex_attention'' pos m ids = net ''sdpa'' pos m ids
      \<or> net ''flex_attention'' pos m ids = Inl RuntimeError"
    and "\<not> is_oom RuntimeError" "impl = ''flex_attention'' \<or> impl = ''sdpa''"
  shows "rbind (run_dflash_draft_forward avail is_oom net impl mask_token_id input_ids anchors keep bs) (\<lambda>(h, _). Inr h)
    = sdpa_forward net mask_token_id input_ids anchors keep bs"
proof -
  let ?L = "length (hd input_ids)"
  have L: "(case input_ids of [] \<Rightarrow> 0 | r # _ \<Rightarrow> length r) = ?L" using assms(5) by (cases input_ids) auto
  have bm: "create_dflash_block_mask avail anchors keep ?L bs
      = (if avail then Inr (create_dflash_sdpa_mask anchors keep ?L bs) else Inl RuntimeError)"
    using block_mask_eq_sdpa_mask [OF assms(1-4)] by (auto simp: create_dflash_block_mask_def)
  show ?thesis
  proof (cases "create_noise_ids_for_anchors mask_token_id input_ids anchors keep bs")
    case (Inl e)
    then show ?thesis by (simp add: run_dflash_draft_forward_def sdpa_forward_def)
  next
    case (Inr noise)
    let ?pos = "map (\<lambda>r. map int [0..<?L] @ r) (create_position_ids_for_anchors anchors bs)"
    let ?m = "create_dflash_sdpa_mask anchors keep ?L bs"
    have run: "run_dflash_draft_forward avail is_oom net impl mask_token_id input_ids anchors keep bs
        = (let impl' = (if impl = ''flex_attention'' \<and> \<not> avail then ''sdpa'' else impl) in
           case net impl' ?pos ?m noise of
             Inr h \<Rightarrow> Inr (h, impl')
           | Inl e \<Rightarrow> if e \<noteq> RuntimeError \<or> impl' \<noteq> ''flex_attention'' \<or> is_oom e then Inl e
                      else rbind (net ''sdpa'' ?pos ?m noise) (\<lambda>h. Inr (h, ''sdpa'')))"
      unfolding run_dflash_draft_forward_def Inr rbind_Inr L bm Let_def
      by (cases "impl = ''flex_attention''"; cases avail) (simp_all only: if_True if_False sum.case split_conv simp_thms)
    have sd: "sdpa_forward net mask_token_id input_ids anchors keep bs = net ''sdpa'' ?pos ?m noise"
      by (simp add: sdpa_forward_def Inr)
    show ?thesis
    proof (cases "impl = ''flex_attention'' \<and> avail")
      case True
      then show ?thesis using flex [of ?pos ?m noise] assms(7) unfolding sd run Let_def
        by (cases "net ''sdpa'' ?pos ?m noise") auto
    next
      case False
      then have "(if impl = ''flex_attention'' \<and> \<not> avail then ''sdpa'' else impl) = ''sdpa''" using assms(8) by auto
      then show ?thesis unfolding sd run Let_def by (cases "net ''sdpa'' ?pos ?m noise") simp_all
    qed
  qed
qed

theorem draft_forward_fallback_witness:
  "rbind (run_dflash_draft_forward True (\<lambda>_. False)
      (\<lambda>impl pos m ids. if impl = ''flex_attention'' then Inl RuntimeError else Inr (pos, ids))
      ''flex_attention'' (Some 99) [[7, 8, 9, 10]] [[1, 2]] [[True, False]] 2) (\<lambda>(h, _). Inr h)
   = Inr ([[0, 1, 2, 3, 1, 2, 2, 3]], [[8, 99, 99, 99]])"
proof -
  let ?net = "\<lambda>impl pos (m :: bool list list list) ids. if impl = ''flex_attention'' then Inl RuntimeError
      else Inr (pos :: int list list, ids :: int list list) :: (int list list \<times> int list list) res"
  have "sdpa_forward ?net (Some 99) [[7, 8, 9, 10]] [[1, 2]] [[True, False]] 2
      = Inr ([[0, 1, 2, 3, 1, 2, 2, 3]], [[8, 99, 99, 99]])" by code_simp
  then show ?thesis
    using draft_forward_fallback [of 2 "[[1, 2]]" "[[True, False]]" "[[7, 8, 9, 10]]" ?net "\<lambda>_. False" "''flex_attention''"
        True "Some 99" 2] by (simp add: grid_def)
qed

subsection \<open>Blocks of a response are ordered and disjoint\<close>

text \<open>A list of blocks (anchor, number of predicted tokens), the next one starting where or after the
  previous one ends, all anchors at least \<open>lo\<close> and all predicted tokens below \<open>n\<close>.\<close>

definition before :: "int \<times> int \<Rightarrow> int \<times> int \<Rightarrow> bool" where
  "before x y \<longleftrightarrow> fst x + snd x \<le> fst y"

definition blocks_ok :: "int \<Rightarrow> int \<Rightarrow> int \<Rightarrow> (int \<times> int) list \<Rightarrow> bool" where
  "blocks_ok lo n bs xs \<longleftrightarrow> sorted_wrt before xs
     \<and> (\<forall>(a, l)\<in>set xs. lo \<le> a \<and> 1 \<le> l \<and> l \<le> bs - 1 \<and> a + l < n)"

lemma blocks_ok_Nil [simp]: "blocks_ok lo n bs []"
  by (simp add: blocks_ok_def)

lemma blocks_ok_Cons: "blocks_ok lo n bs ((a, l) # xs) \<longleftrightarrow>
    lo \<le> a \<and> 1 \<le> l \<and> l \<le> bs - 1 \<and> a + l < n \<and> (\<forall>y\<in>set xs. a + l \<le> fst y) \<and> blocks_ok lo n bs xs"
  by (auto simp: blocks_ok_def before_def)

lemma blocks_ok_filter: "blocks_ok lo n bs xs \<Longrightarrow> blocks_ok lo n bs (filter P xs)"
  by (auto simp: blocks_ok_def sorted_wrt_filter)

lemma blocks_ok_sum:
  assumes "blocks_ok lo n bs xs" "lo < n"
  shows "sum_list (map snd xs) \<le> n - 1 - lo"
  using assms
proof (induction xs arbitrary: lo)
  case (Cons x xs)
  obtain a l where x: "x = (a, l)" by (cases x)
  from Cons.prems have h: "lo \<le> a" "a + l < n" and t: "\<forall>y\<in>set xs. a + l \<le> fst y" "blocks_ok lo n bs xs"
    by (auto simp: x blocks_ok_Cons)
  from t have "blocks_ok (a + l) n bs xs" by (auto simp: blocks_ok_def)
  from Cons.IH [OF this h(2)] show ?case using h by (simp add: x)
qed simp

lemma blocks_ok_distinct: "blocks_ok lo n bs xs \<Longrightarrow> distinct (map fst xs)"
  by (induction xs) (force simp: blocks_ok_Cons)+

lemma set_subsequence: "set (map fst (filter Q (zip xs ys))) \<subseteq> set xs"
  by (auto dest: set_zip_leftD)

lemma sorted_wrt_subsequence: "sorted_wrt P xs \<Longrightarrow> sorted_wrt P (map fst (filter Q (zip xs ys)))"
proof (induction xs arbitrary: ys)
  case (Cons x xs)
  show ?case
  proof (cases ys)
    case (Cons y ys')
    then show ?thesis using Cons.IH [of ys'] Cons.prems set_subsequence [of Q xs ys'] by auto
  qed simp
qed simp

subsection \<open>The pairs of a sample\<close>

definition pairs_ok :: "int \<Rightarrow> (int \<times> int) list \<Rightarrow> bool" where
  "pairs_ok n ps \<longleftrightarrow> sorted_wrt (\<lambda>x y. snd x \<le> fst y) ps \<and> (\<forall>(a, b)\<in>set ps. -1 \<le> a \<and> a < b \<and> b < n)"

lemma pairs_ok_Cons: "pairs_ok n ((a, b) # ps) \<longleftrightarrow>
    -1 \<le> a \<and> a < b \<and> b < n \<and> (\<forall>y\<in>set ps. b \<le> fst y) \<and> pairs_ok n ps"
  by (auto simp: pairs_ok_def)

lemma zip_shifted_ok:
  assumes "sorted_wrt (<) rs" "\<forall>r\<in>set rs. a < r \<and> r < n" "-1 \<le> a"
  shows "pairs_ok n (zip (a # rs) rs) \<and> (\<forall>y\<in>set (zip (a # rs) rs). a \<le> fst y)"
  using assms
proof (induction rs arbitrary: a)
  case (Cons r rs)
  have "pairs_ok n (zip (r # rs) rs) \<and> (\<forall>y\<in>set (zip (r # rs) rs). r \<le> fst y)"
    using Cons.prems by (intro Cons.IH) auto
  then show ?case using Cons.prems by (auto simp: pairs_ok_Cons)
qed (simp add: pairs_ok_def)

lemma valid_rejects_ok: "sorted_wrt (<) (valid_rejects n raw)" "\<forall>r\<in>set (valid_rejects n raw). 0 \<le> r \<and> r < n"
  by (auto simp: valid_rejects_def strict_sorted_iff)

definition boundaries_of :: "int \<Rightarrow> int list \<Rightarrow> int list" where
  "boundaries_of n raw = (let rs = valid_rejects n raw in
     if rs \<noteq> [] \<and> last rs < n - 1 then rs @ [n - 1] else rs)"

lemma boundaries_ok: "sorted_wrt (<) (boundaries_of n raw)" "\<forall>r\<in>set (boundaries_of n raw). 0 \<le> r \<and> r < n"
proof -
  let ?rs = "valid_rejects n raw"
  have all: "\<forall>r\<in>set ?rs. r \<le> last ?rs" if "?rs \<noteq> []"
    using that valid_rejects_ok(1) [of n raw] by (cases ?rs rule: rev_cases) (auto simp: sorted_wrt_append)
  show "sorted_wrt (<) (boundaries_of n raw)"
    using valid_rejects_ok(1) [of n raw] all by (fastforce simp: boundaries_of_def Let_def sorted_wrt_append)
  show "\<forall>r\<in>set (boundaries_of n raw). 0 \<le> r \<and> r < n"
  proof (cases "?rs = []")
    case False
    then have "0 < n" using valid_rejects_ok(2) [of n raw] last_in_set [of ?rs] by (meson dual_order.strict_trans2)
    then show ?thesis using valid_rejects_ok(2) [of n raw] False by (auto simp: boundaries_of_def Let_def)
  qed (simp add: boundaries_of_def)
qed

lemma anchors_boundaries_eq:
  "zip (fst (anchors_boundaries n raw)) (snd (anchors_boundaries n raw))
     = (if n \<le> 0 then [] else zip (-1 # boundaries_of n raw) (boundaries_of n raw))"
  by (auto simp: anchors_boundaries_def boundaries_of_def Let_def)

lemma anchor_pairs_ok: "pairs_ok n (anchor_pairs stride n raw)"
proof -
  obtain as bs where ab: "anchors_boundaries n raw = (as, bs)" by (cases "anchors_boundaries n raw")
  have "pairs_ok n (zip (-1 # boundaries_of n raw) (boundaries_of n raw))"
    using zip_shifted_ok [OF boundaries_ok(1), of n raw "-1" n] boundaries_ok(2) [of n raw] by fastforce
  then have z: "pairs_ok n (zip as bs)" using anchors_boundaries_eq [of n raw] ab by (auto simp: pairs_ok_def)
  have "pairs_ok n (stride_pairs stride (zip as bs))"
  proof -
    have "set (stride_pairs stride (zip as bs)) \<subseteq> set (zip as bs)"
      unfolding stride_pairs_def by (rule set_subsequence)
    then show ?thesis using z sorted_wrt_subsequence unfolding pairs_ok_def stride_pairs_def by blast
  qed
  then show ?thesis using z by (auto simp: anchor_pairs_def ab)
qed

lemma response_segments_ok:
  assumes "pairs_ok n ps" "2 \<le> bs"
  shows "blocks_ok (-1) n bs (response_segments seq_len bs p ps)
    \<and> fst ` set (response_segments seq_len bs p ps) \<subseteq> fst ` set ps"
  using assms
proof (induction ps)
  case (Cons x ps)
  obtain a b where x: "x = (a, b)" by (cases x)
  have p: "pairs_ok n ps" "-1 \<le> a" "a < b" "b < n" and t: "\<forall>y\<in>set ps. b \<le> fst y"
    using Cons.prems by (auto simp: x pairs_ok_Cons)
  have ih: "blocks_ok (-1) n bs (response_segments seq_len bs p ps)"
    "fst ` set (response_segments seq_len bs p ps) \<subseteq> fst ` set ps"
    using Cons.IH [OF p(1) Cons.prems(2)] by auto
  have later: "a + min (b - a) (bs - 1) \<le> fst y" if "y \<in> set (response_segments seq_len bs p ps)" for y
  proof -
    from that ih(2) have "fst y \<in> fst ` set ps" by auto
    then have "b \<le> fst y" using t by auto
    then show ?thesis by linarith
  qed
  have "blocks_ok (-1) n bs (response_segments seq_len bs p (x # ps))"
    using ih(1) later p Cons.prems(2) by (auto simp: x Let_def blocks_ok_Cons)
  moreover have "fst ` set (response_segments seq_len bs p (x # ps)) \<subseteq> fst ` set (x # ps)"
    using ih(2) by (auto simp: x Let_def)
  ultimately show ?case ..
qed simp

subsection \<open>Randomised anchors\<close>

text \<open>What the code relies on of \<^verbatim>\<open>random.Random\<close>: \<^verbatim>\<open>shuffle\<close> permutes its argument and
  \<^verbatim>\<open>randrange(n)\<close> is below \<open>n\<close>.\<close>

definition rng_ok :: "rng \<Rightarrow> bool" where
  "rng_ok g \<longleftrightarrow> (\<forall>xs. mset (rng_shuffle g xs) = mset xs) \<and> (\<forall>i n. 0 < n \<longrightarrow> rng_randrange g i n < n)"

lemma sum_list_update_Suc:
  "k < length xs \<Longrightarrow> sum_list (xs[k := xs ! k + 1]) = sum_list xs + (1 :: int)"
  by (induction xs arbitrary: k) (auto simp: nth_Cons split: nat.splits)

lemma spread_gaps_ok:
  assumes "\<And>i n. 0 < n \<Longrightarrow> draw i n < n" "0 < slots"
  shows "length (spread_gaps draw slots n) = slots \<and> (\<forall>g\<in>set (spread_gaps draw slots n). 0 \<le> g)
    \<and> sum_list (spread_gaps draw slots n) = int n"
proof (induction n)
  case 0
  have "sum_list (replicate slots (0 :: int)) = 0" by (induction slots) auto
  then show ?case by (simp add: spread_gaps_def)
next
  case (Suc n)
  let ?g = "spread_gaps draw slots n"
  have k: "draw n (length ?g) < length ?g" using assms Suc by simp
  have "spread_gaps draw slots (Suc n) = ?g[draw n (length ?g) := ?g ! draw n (length ?g) + 1]"
    by (simp add: spread_gaps_def Let_def)
  then show ?case using Suc k sum_list_update_Suc [OF k] nth_mem [OF k]
    by (auto dest!: subsetD [OF set_update_subset_insert])
qed

lemma lay_out_ok:
  assumes "length gs = length ls" "\<forall>g\<in>set gs. 0 \<le> g" "\<forall>l\<in>set ls. 1 \<le> l \<and> l \<le> bs - 1"
  shows "length (lay_out c ls gs) = length ls
    \<and> blocks_ok (c - 1) (c + sum_list ls + sum_list gs) bs (zip (lay_out c ls gs) ls)"
  using assms
proof (induction ls gs arbitrary: c rule: list_induct2')
  case (4 l ls g gs)
  let ?n = "c + sum_list (l # ls) + sum_list (g # gs)"
  have ih: "length (lay_out (c + l + g) ls gs) = length ls"
    "blocks_ok (c + l + g - 1) (c + l + g + sum_list ls + sum_list gs) bs (zip (lay_out (c + l + g) ls gs) ls)"
    using "4.IH" [of "c + l + g"] "4.prems" by auto
  have n: "c + l + g + sum_list ls + sum_list gs = ?n" by simp
  have nn: "0 \<le> sum_list gs" "0 \<le> sum_list ls" using "4.prems" by (auto intro!: sum_list_nonneg)
  from ih(2) have "\<forall>y\<in>set (zip (lay_out (c + l + g) ls gs) ls). c + l + g - 1 \<le> fst y"
    by (auto simp: blocks_ok_def)
  moreover have "0 \<le> g" "1 \<le> l" "l \<le> bs - 1" using "4.prems" by auto
  ultimately show ?case using ih(1) ih(2) nn unfolding n blocks_ok_def before_def by force
qed (simp_all add: blocks_ok_def)

lemma random_lay_out_ok:
  fixes lens :: "int list"
  assumes "rng_ok g" "\<forall>l\<in>set lens. 1 \<le> l \<and> l \<le> bs - 1" "sum_list lens + int k = n"
    and sh: "sh = rng_shuffle g lens" and gaps: "gaps = spread_gaps (rng_randrange g) (length sh + 1) k"
  shows "mset sh = mset lens \<and> length (lay_out (hd gaps) sh (tl gaps)) = length sh
    \<and> blocks_ok (-1) n bs (zip (lay_out (hd gaps) sh (tl gaps)) sh)"
proof -
  have m: "mset sh = mset lens" using assms(1) sh by (simp add: rng_ok_def)
  have set: "\<forall>l\<in>set sh. 1 \<le> l \<and> l \<le> bs - 1" using assms(2) unfolding mset_eq_setD [OF m] by auto
  have sum: "sum_list sh = sum_list lens" unfolding sum_mset_sum_list [symmetric] m ..
  have dr: "\<And>i n. 0 < n \<Longrightarrow> rng_randrange g i n < n" using assms(1) by (simp add: rng_ok_def)
  have g: "length gaps = length sh + 1 \<and> (\<forall>g\<in>set gaps. 0 \<le> g) \<and> sum_list gaps = int k"
    unfolding gaps by (rule spread_gaps_ok [OF dr]) simp_all
  then obtain g0 gs where gs: "gaps = g0 # gs" by (cases gaps) auto
  have lo: "length (lay_out g0 sh gs) = length sh"
    "blocks_ok (g0 - 1) (g0 + sum_list sh + sum_list gs) bs (zip (lay_out g0 sh gs) sh)"
    using lay_out_ok [of gs sh bs g0] g gs set by auto
  have "0 \<le> g0" "g0 + sum_list sh + sum_list gs = n" using g gs sum assms(3) by auto
  then have "blocks_ok (-1) n bs (zip (lay_out g0 sh gs) sh)" using lo(2) by (auto simp: blocks_ok_def)
  then show ?thesis using lo(1) m gs by simp
qed

lemma random_plan_ok:
  assumes "\<forall>s. rng_ok (random_of s)" "\<forall>l\<in>set lens. l \<le> bs - 1" "sum_list (filter (\<lambda>l. 0 < l) lens) \<le> n"
  shows "\<exists>a l. build_random_response_anchor_plan random_of ids b p n lens seed = Inr (a, l)
    \<and> length a = length l \<and> (0 < n \<longrightarrow> mset l = mset (filter (\<lambda>l. 0 < l) lens)) \<and> blocks_ok (-1) n bs (zip a l)"
proof (cases "n \<le> 0 \<or> filter (\<lambda>l. 0 < l) lens = []")
  case True
  then show ?thesis by (auto simp: build_random_response_anchor_plan_def Let_def filter_empty_conv)
next
  case False
  define ls where "ls = filter (\<lambda>l. 0 < l) lens"
  define g where "g = random_of (seed + int b * 1000003 + token_hash (take (nat (max 0 (min (p + n) (int (length ids))))) ids))"
  define k where "k = nat (n - sum_list ls)"
  have k: "sum_list ls + int k = n" using assms(3) by (simp add: k_def ls_def)
  have l: "\<forall>l\<in>set ls. 1 \<le> l \<and> l \<le> bs - 1" using assms(2) by (auto simp: ls_def)
  have "\<not> n \<le> 0" "lens \<noteq> []" "ls \<noteq> []" "\<not> n < sum_list ls" using False assms(3) by (auto simp: ls_def)
  then have run: "build_random_response_anchor_plan random_of ids b p n lens seed = Inr
      (lay_out (hd (spread_gaps (rng_randrange g) (length (rng_shuffle g ls) + 1) k)) (rng_shuffle g ls)
        (tl (spread_gaps (rng_randrange g) (length (rng_shuffle g ls) + 1) k)), rng_shuffle g ls)"
    unfolding build_random_response_anchor_plan_def Let_def ls_def [symmetric] g_def [symmetric] k_def [symmetric] by simp
  have "rng_ok g" using assms(1) by (simp add: g_def)
  from random_lay_out_ok [OF this l k refl refl] show ?thesis unfolding run ls_def [symmetric] by blast
qed

subsection \<open>The plan of a sample\<close>

lemma place_segments_ok:
  assumes "blocks_ok (-1) n bs segs"
  shows "blocks_ok (p - 1) (p + n) bs (place_segments seq_len p segs)
    \<and> (\<forall>(a, l)\<in>set (place_segments seq_len p segs). 0 \<le> a \<and> a < seq_len - 1)"
proof -
  have shift: "full_anchor_of p a = p + a" if "-1 \<le> a" for a using that by (auto simp: full_anchor_of_def)
  have r: "-1 \<le> a" if "(a, l) \<in> set segs" for a l using assms that by (auto simp: blocks_ok_def)
  let ?keep = "filter (\<lambda>(a, l). \<not> (full_anchor_of p a < 0 \<or> seq_len - 1 \<le> full_anchor_of p a)) segs"
  have eq: "place_segments seq_len p segs = map (\<lambda>(a, l). (p + a, l)) ?keep"
    unfolding place_segments_def using r shift by (auto intro!: map_cong)
  have "blocks_ok (-1) n bs ?keep" using blocks_ok_filter [OF assms] .
  then have "blocks_ok (p - 1) (p + n) bs (map (\<lambda>(a, l). (p + a, l)) ?keep)"
    by (auto simp: blocks_ok_def sorted_wrt_map before_def [abs_def] case_prod_unfold)
  moreover have "\<forall>(a, l)\<in>set (place_segments seq_len p segs). 0 \<le> a \<and> a < seq_len - 1"
    by (auto simp: place_segments_def)
  ultimately show ?thesis unfolding eq by blast
qed

lemma add_rejected_keeps:
  "\<exists>more. fold (add_rejected_anchor seq_len bs p n) items plan = plan @ more
     \<and> (distinct (map fst plan) \<longrightarrow> distinct (map fst (plan @ more)))
     \<and> (\<forall>(a, l)\<in>set more. l = 0 \<and> 0 \<le> a \<and> a < min (p + n) seq_len)"
proof (induction items arbitrary: plan)
  case (Cons it items)
  obtain m off ar where it: "it = (m, off, ar)" by (cases it)
  let ?plan = "add_rejected_anchor seq_len bs p n it plan"
  have one: "\<exists>d. ?plan = plan @ d \<and> (distinct (map fst plan) \<longrightarrow> distinct (map fst (plan @ d)))
      \<and> (\<forall>(a, l)\<in>set d. l = 0 \<and> 0 \<le> a \<and> a < min (p + n) seq_len)"
    by (auto simp: add_rejected_anchor_def it Let_def not_le not_less image_iff)
  then obtain d where d: "?plan = plan @ d" "distinct (map fst plan) \<longrightarrow> distinct (map fst (plan @ d))"
    "\<forall>(a, l)\<in>set d. l = 0 \<and> 0 \<le> a \<and> a < min (p + n) seq_len" by blast
  from Cons.IH [of "plan @ d"] obtain more where
    "fold (add_rejected_anchor seq_len bs p n) items (plan @ d) = (plan @ d) @ more"
    "distinct (map fst (plan @ d)) \<longrightarrow> distinct (map fst ((plan @ d) @ more))"
    "\<forall>(a, l)\<in>set more. l = 0 \<and> 0 \<le> a \<and> a < min (p + n) seq_len" by blast
  then show ?case using d by (intro exI [of _ "d @ more"]) auto
qed simp

text \<open>What a block list of a sample satisfies: first the response blocks, then anchors of rejected
  drafts without predicted response tokens.\<close>

definition sample_ok :: "int \<Rightarrow> int \<Rightarrow> int \<Rightarrow> int \<Rightarrow> nat \<Rightarrow> (int \<times> int) list \<Rightarrow> bool" where
  "sample_ok seq_len bs p n k blocks \<longleftrightarrow> k \<le> length blocks \<and> distinct (map fst blocks)
     \<and> blocks_ok (p - 1) (p + n) bs (take k blocks) \<and> (\<forall>(a, l)\<in>set (take k blocks). 0 \<le> a \<and> a < seq_len - 1)
     \<and> (\<forall>(a, l)\<in>set (drop k blocks). l = 0 \<and> 0 \<le> a \<and> a < min (p + n) seq_len)"

lemma opd_sample_plan_ok:
  assumes "\<forall>s. rng_ok (random_of s)" "2 \<le> draft_block_size cfg"
  shows "\<exists>sp. opd_sample_plan random_of cfg seq_len ids b p n raw rejected = Inr sp
    \<and> sample_ok seq_len (draft_block_size cfg) p n (sp_response_count sp) (sp_blocks sp)"
proof -
  let ?bs = "draft_block_size cfg"
  let ?segs = "response_segments seq_len ?bs p (anchor_pairs (response_anchor_stride cfg) n raw)"
  have segs: "blocks_ok (-1) n ?bs ?segs" using response_segments_ok [OF anchor_pairs_ok assms(2)] by blast
  let ?pick = "if random_enabled cfg \<and> 0 < n \<and> ?segs \<noteq> []
      then rbind (build_random_response_anchor_plan random_of ids b p n (map snd ?segs) (random_seed cfg))
        (\<lambda>(a, l). Inr (zip a l)) else Inr ?segs"
  have "\<exists>segs'. ?pick = Inr segs' \<and> blocks_ok (-1) n ?bs segs'"
  proof (cases "random_enabled cfg \<and> 0 < n \<and> ?segs \<noteq> []")
    case True
    have pos: "filter (\<lambda>l. 0 < l) (map snd ?segs) = map snd ?segs" "\<forall>l\<in>set (map snd ?segs). l \<le> ?bs - 1"
      using segs by (auto simp: blocks_ok_def filter_id_conv)
    have "sum_list (map snd ?segs) \<le> n" using blocks_ok_sum [OF segs] True by simp
    with random_plan_ok [where lens = "map snd ?segs" and bs = ?bs and n = n and random_of = random_of
        and seed = "random_seed cfg" and b = b and p = p and ids = ids] assms(1) pos
    show ?thesis using True by auto
  qed (use segs in auto)
  then obtain segs' where s: "?pick = Inr segs'" "blocks_ok (-1) n ?bs segs'" by blast
  let ?resp = "place_segments seq_len p segs'"
  let ?blocks = "case rejected of
      Some items \<Rightarrow> if include_rejected cfg then fold (add_rejected_anchor seq_len ?bs p n) items ?resp else ?resp
    | None \<Rightarrow> ?resp"
  have resp: "blocks_ok (p - 1) (p + n) ?bs ?resp" "\<forall>(a, l)\<in>set ?resp. 0 \<le> a \<and> a < seq_len - 1"
    using place_segments_ok [OF s(2), of p seq_len] by auto
  have "\<exists>more. ?blocks = ?resp @ more \<and> (distinct (map fst ?resp) \<longrightarrow> distinct (map fst (?resp @ more)))
      \<and> (\<forall>(a, l)\<in>set more. l = 0 \<and> 0 \<le> a \<and> a < min (p + n) seq_len)"
    using add_rejected_keeps [of seq_len ?bs p n _ ?resp] by (cases rejected) auto
  then have "sample_ok seq_len ?bs p n (length ?resp) ?blocks"
    using resp blocks_ok_distinct [OF resp(1)] by (auto simp: sample_ok_def)
  then show ?thesis unfolding opd_sample_plan_def Let_def s(1) rbind_Inr by simp
qed

subsection \<open>The plan of a batch\<close>

definition kept_blocks :: "opd_plan \<Rightarrow> nat \<Rightarrow> (int \<times> int) list" where
  "kept_blocks plan b = select (block_keep_mask plan ! b) (zip (anchor_positions plan ! b) (segment_lens plan ! b))"

definition response_blocks :: "opd_plan \<Rightarrow> nat \<Rightarrow> (int \<times> int) list" where
  "response_blocks plan b = filter (\<lambda>(a, l). 0 < l) (kept_blocks plan b)"

lemma select_True: "select (replicate (length xs) True) xs = xs"
  by (induction xs) auto

lemma select_False: "select (replicate n False) xs = []"
  by (auto simp: select_def filter_empty_conv dest: set_zip_leftD)

lemma kept_blocks_assemble:
  assumes "b < length samples"
  shows "kept_blocks (assemble_plan valid samples) b = sp_blocks (samples ! b)"
proof -
  let ?xs = "sp_blocks (samples ! b)"
  let ?n = "max (fold max (map (length \<circ> sp_blocks) samples) 0) 1"
  let ?k = "?n - length ?xs"
  have kb: "block_keep_mask (assemble_plan valid samples) ! b = replicate (length ?xs) True @ replicate ?k False"
    using assms by (simp add: assemble_plan_def Let_def pad_to_def map_replicate_const)
  have za: "zip (anchor_positions (assemble_plan valid samples) ! b) (segment_lens (assemble_plan valid samples) ! b)
      = ?xs @ replicate ?k (0, 0)"
    using assms by (simp add: assemble_plan_def Let_def pad_to_def zip_replicate zip_map_fst_snd)
  show ?thesis unfolding kept_blocks_def kb za by (subst select_append) (simp_all add: select_True select_False)
qed

definition seq_len_of :: "int list list \<Rightarrow> int" where
  "seq_len_of input_ids = (case input_ids of [] \<Rightarrow> 0 | r # _ \<Rightarrow> int (length r))"

lemma build_opd_anchor_plan_ok:
  assumes "\<forall>s. rng_ok (random_of s)" "2 \<le> draft_block_size cfg"
  shows "\<exists>samples. build_opd_anchor_plan random_of cfg input_ids am ps rs rejects rej
      = Inr (assemble_plan (valid_seq_lens_of am input_ids) samples) \<and> length samples = length input_ids
    \<and> (\<forall>b<length input_ids. opd_sample_plan random_of cfg (seq_len_of input_ids) (input_ids ! b) b (ps ! b) (rs ! b)
          (rejects ! b) (rejected_rows rej b) = Inr (samples ! b)
        \<and> sample_ok (seq_len_of input_ids) (draft_block_size cfg) (ps ! b) (rs ! b)
          (sp_response_count (samples ! b)) (sp_blocks (samples ! b)))"
proof -
  let ?f = "\<lambda>b. opd_sample_plan random_of cfg (seq_len_of input_ids) (input_ids ! b) b (ps ! b) (rs ! b)
      (rejects ! b) (rejected_rows rej b)"
  have "\<exists>samples. rmap ?f [0..<length input_ids] = Inr samples"
    using opd_sample_plan_ok [OF assms] by (intro rmap_total) blast
  then obtain samples where r: "rmap ?f [0..<length input_ids] = Inr samples" ..
  have each: "?f b = Inr (samples ! b)" if "b < length input_ids" for b using rmap_nth [OF r, of b] that by simp
  have len: "length samples = length input_ids" using rmap_length [OF r] by simp
  have "build_opd_anchor_plan random_of cfg input_ids am ps rs rejects rej
      = Inr (assemble_plan (valid_seq_lens_of am input_ids) samples)"
    unfolding build_opd_anchor_plan_def seq_len_of_def [symmetric] Let_def r by simp
  moreover have "sample_ok (seq_len_of input_ids) (draft_block_size cfg) (ps ! b) (rs ! b)
      (sp_response_count (samples ! b)) (sp_blocks (samples ! b))" if "b < length input_ids" for b
    using opd_sample_plan_ok [OF assms, of "seq_len_of input_ids" "input_ids ! b" b "ps ! b" "rs ! b" "rejects ! b"
        "rejected_rows rej b"] each [OF that] by auto
  ultimately show ?thesis using len each by blast
qed

lemma filter_take_drop:
  assumes "\<forall>x\<in>set (take k xs). P x" "\<forall>x\<in>set (drop k xs). \<not> P x"
  shows "filter P xs = take k xs"
proof -
  have "filter P (take k xs @ drop k xs) = take k xs" using assms unfolding filter_append by (simp add: filter_id_conv)
  then show ?thesis by simp
qed

lemma sample_ok_response:
  assumes "sample_ok L bs p n k blocks"
  shows "filter (\<lambda>(a, l). 0 < l) blocks = take k blocks" "\<forall>(a, l)\<in>set blocks. 0 \<le> a \<and> a < L"
proof -
  show "filter (\<lambda>(a, l). 0 < l) blocks = take k blocks"
    using assms by (intro filter_take_drop) (auto simp: sample_ok_def blocks_ok_def)
  have "set blocks = set (take k blocks) \<union> set (drop k blocks)" by (metis append_take_drop_id set_append)
  then show "\<forall>(a, l)\<in>set blocks. 0 \<le> a \<and> a < L" using assms by (auto simp: sample_ok_def)
qed

text \<open>C16 Anchor planning never fails, with or without striding and randomisation, and for every sample
  the planned blocks have distinct anchors inside the sequence, while the blocks that predict
  response tokens predict between one and \<open>block_size - 1\<close> tokens each, follow each other without
  overlap and stay inside the response.\<close>

theorem opd_plan_blocks:
  assumes "\<forall>s. rng_ok (random_of s)" "2 \<le> draft_block_size cfg"
  shows "\<exists>plan. build_opd_anchor_plan random_of cfg input_ids am ps rs rejects rej = Inr plan
    \<and> (\<forall>b<length input_ids. distinct (map fst (kept_blocks plan b))
        \<and> (\<forall>(a, l)\<in>set (kept_blocks plan b). 0 \<le> a \<and> a < seq_len_of input_ids)
        \<and> blocks_ok (ps ! b - 1) (ps ! b + rs ! b) (draft_block_size cfg) (response_blocks plan b))"
proof -
  obtain samples where s: "build_opd_anchor_plan random_of cfg input_ids am ps rs rejects rej
      = Inr (assemble_plan (valid_seq_lens_of am input_ids) samples)" "length samples = length input_ids"
    "\<forall>b<length input_ids. sample_ok (seq_len_of input_ids) (draft_block_size cfg) (ps ! b) (rs ! b)
          (sp_response_count (samples ! b)) (sp_blocks (samples ! b))"
    using build_opd_anchor_plan_ok [OF assms] by blast
  have "distinct (map fst (kept_blocks (assemble_plan v samples) b))
      \<and> (\<forall>(a, l)\<in>set (kept_blocks (assemble_plan v samples) b). 0 \<le> a \<and> a < seq_len_of input_ids)
      \<and> blocks_ok (ps ! b - 1) (ps ! b + rs ! b) (draft_block_size cfg) (response_blocks (assemble_plan v samples) b)"
    if b: "b < length input_ids" for b v
  proof -
    have ok: "sample_ok (seq_len_of input_ids) (draft_block_size cfg) (ps ! b) (rs ! b)
        (sp_response_count (samples ! b)) (sp_blocks (samples ! b))" using s(3) b by blast
    have k: "kept_blocks (assemble_plan v samples) b = sp_blocks (samples ! b)"
      using kept_blocks_assemble b s(2) by simp
    show ?thesis unfolding response_blocks_def k sample_ok_response(1) [OF ok]
      using sample_ok_response(2) [OF ok] ok by (simp add: sample_ok_def)
  qed
  then show ?thesis using s(1) by blast
qed

definition plain_config :: "int \<Rightarrow> opd_config" where
  "plain_config bs = \<lparr>draft_block_size = bs, response_anchor_stride = 1, random_enabled = False, random_seed = 0,
     include_rejected = True\<rparr>"

definition no_rejected :: rejected_meta where
  "no_rejected = \<lparr>rd_anchors = None, rd_offsets = None, rd_tokens = None, rd_teacher = None, rd_mask = None\<rparr>"

definition fixed_rng :: "int \<Rightarrow> rng" where
  "fixed_rng s = \<lparr>rng_shuffle = rev, rng_randrange = (\<lambda>i n. i mod n)\<rparr>"

lemma fixed_rng_ok: "\<forall>s. rng_ok (fixed_rng s)"
  by (simp add: rng_ok_def fixed_rng_def)

theorem opd_plan_blocks_witness:
  "\<exists>plan. build_opd_anchor_plan fixed_rng ((plain_config 4)\<lparr>random_enabled := True\<rparr>) [[1, 2, 3, 4, 5, 6, 7, 8]] None
       [3] [5] [[1, 3]] no_rejected = Inr plan
     \<and> distinct (map fst (kept_blocks plan 0)) \<and> blocks_ok 2 8 4 (response_blocks plan 0)"
proof -
  have "2 \<le> draft_block_size ((plain_config 4)\<lparr>random_enabled := True\<rparr>)" by (simp add: plain_config_def)
  from opd_plan_blocks [OF fixed_rng_ok this, of "[[1, 2, 3, 4, 5, 6, 7, 8]]" None "[3]" "[5]" "[[1, 3]]" no_rejected]
  show ?thesis by (auto simp: plain_config_def)
qed

subsection \<open>Without striding and randomisation the blocks tile the response\<close>

lemma response_segments_exact:
  assumes "pairs_ok n ps" "1 \<le> p" "p + n \<le> L"
  shows "response_segments L bs p ps = map (\<lambda>(a, b). (a, min (b - a) (bs - 1))) ps"
  using assms
proof (induction ps)
  case (Cons x ps)
  obtain a b where x: "x = (a, b)" by (cases x)
  have "-1 \<le> a" "a < b" "b < n" "pairs_ok n ps" using Cons.prems by (auto simp: x pairs_ok_Cons)
  then show ?case using Cons.IH Cons.prems(2,3) by (auto simp: x Let_def full_anchor_of_def)
qed simp

lemma place_segments_exact:
  assumes "\<forall>(a, l)\<in>set segs. -1 \<le> a \<and> a < n - 1" "1 \<le> p" "p + n \<le> L"
  shows "place_segments L p segs = map (\<lambda>(a, l). (p + a, l)) segs"
  using assms by (induction segs) (auto simp: place_segments_def full_anchor_of_def split: if_splits)

lemma add_rejected_extends:
  "\<exists>more. (case rejected of Some items \<Rightarrow> if inc then fold (add_rejected_anchor L bs p n) items resp else resp
     | None \<Rightarrow> resp) = resp @ more"
proof (cases rejected)
  case (Some items)
  then show ?thesis using add_rejected_keeps [of L bs p n items resp] by (cases inc) auto
qed simp

lemma opd_sample_plan_exact:
  assumes "\<not> random_enabled cfg" "response_anchor_stride cfg \<le> 1" "1 \<le> p" "p + n \<le> L" "0 < n"
    and run: "opd_sample_plan random_of cfg L ids b p n raw rejected = Inr sp"
  shows "take (sp_response_count sp) (sp_blocks sp)
    = map (\<lambda>(a, c). (p + a, min (c - a) (draft_block_size cfg - 1))) (zip (-1 # boundaries_of n raw) (boundaries_of n raw))"
proof -
  let ?bs = "draft_block_size cfg"
  let ?ps = "zip (-1 # boundaries_of n raw) (boundaries_of n raw)"
  let ?segs = "map (\<lambda>(a, c). (a, min (c - a) (?bs - 1))) ?ps"
  have ps: "anchor_pairs (response_anchor_stride cfg) n raw = ?ps"
    using assms(2,5) anchors_boundaries_eq [of n raw] by (auto simp: anchor_pairs_def split: prod.splits)
  have ok: "pairs_ok n ?ps" using anchor_pairs_ok [of n "response_anchor_stride cfg" raw] ps by simp
  have segs: "response_segments L ?bs p ?ps = ?segs" using response_segments_exact [OF ok assms(3,4)] .
  have "\<forall>(a, l)\<in>set ?segs. -1 \<le> a \<and> a < n - 1" using ok by (fastforce simp: pairs_ok_def)
  then have resp: "place_segments L p ?segs = map (\<lambda>(a, c). (p + a, min (c - a) (?bs - 1))) ?ps"
    using place_segments_exact [OF _ assms(3,4), of ?segs] by (simp add: comp_def case_prod_unfold)
  let ?resp = "place_segments L p ?segs"
  let ?blocks = "case rejected of
      Some items \<Rightarrow> if include_rejected cfg then fold (add_rejected_anchor L ?bs p n) items ?resp else ?resp
    | None \<Rightarrow> ?resp"
  have sp: "sp_blocks sp = ?blocks" "sp_response_count sp = length ?resp"
    using run assms(1) unfolding opd_sample_plan_def Let_def ps segs by auto
  obtain more where "?blocks = ?resp @ more" using add_rejected_extends by blast
  then show ?thesis unfolding sp resp [symmetric] by simp
qed

end
