(* ===== verification/Opd_Tv.thy ===== *)
theory Opd_Tv
  imports Opd_Anchor "HOL-Library.AList"
begin

section \<open>Losses of the draft trainer over a plan\<close>

text \<open>
  Model of the part of \<^verbatim>\<open>ComposedDFlashStudentForCausalLM\<close> that turns an anchor plan into training
  signals: the total-variation plan over speculative positions, the teacher's hidden states on
  rejected branches, the chunked language-model head, the end-to-end TV loss, the log-probabilities
  of rejected drafts and of response tokens, and the replay mismatch.

  A hidden state is an element of type \<open>'h\<close>, the language-model head a function from hidden states to
  logits, the main model a function from token ids to the hidden states of its last layer; gradients
  and device placement are not modelled. A Python dict is an association list in insertion order.
\<close>

subsection \<open>The chunked head\<close>

definition chunk_ranges :: "nat \<Rightarrow> nat \<Rightarrow> (nat \<times> nat) list" where
  "chunk_ranges n c = map (\<lambda>k. (k * c, min (k * c + c) n)) [0..<ceil_div n c]"

definition chunked :: "nat \<Rightarrow> ('a list \<Rightarrow> 'b list res) \<Rightarrow> 'a list \<Rightarrow> 'b list res" where
  "chunked c f xs = rbind (rmap (\<lambda>(i, j). f (slice i j xs)) (chunk_ranges (length xs) c)) (\<lambda>ys. Inr (concat ys))"

definition hidden_at :: "'h list list \<Rightarrow> nat \<times> nat \<Rightarrow> 'h res" where
  "hidden_at h w = (case w of (b, d) \<Rightarrow>
     if b < length h \<and> d < length (h ! b) then Inr (h ! b ! d) else Inl IndexError)"

definition token_log_prob :: "('h \<Rightarrow> real list) \<Rightarrow> 'h \<times> int \<Rightarrow> (real \<times> real) res" where
  "token_log_prob lm w = (case w of (x, t) \<Rightarrow>
     let lp = log_softmax (lm x) in
     if 0 \<le> t \<and> t < int (length lp)
     then Inr (lp ! nat t, - sum_list (map (\<lambda>l. exp l * l) lp)) else Inl RuntimeError)"

text \<open>The first components of the result are the log-probabilities, the second the entropies.\<close>

definition compute_selected_lm_log_probs ::
  "'h list list \<Rightarrow> ('h \<Rightarrow> real list) \<Rightarrow> (nat \<times> nat) list \<Rightarrow> int list \<Rightarrow> nat \<Rightarrow> (real \<times> real) list res" where
  "compute_selected_lm_log_probs draft_hidden lm positions token_ids chunk_size =
     (if positions = [] then Inr []
      else rbind (rmap (hidden_at draft_hidden) positions) (\<lambda>selected.
        chunked chunk_size (rmap (token_log_prob lm)) (zip selected token_ids)))"

definition reverse_kl :: "('h \<Rightarrow> real list) \<Rightarrow> 'h \<times> 'h \<Rightarrow> real" where
  "reverse_kl lm qp = (case qp of (q, p) \<Rightarrow>
     sum_list (map2 (\<lambda>x y. exp x * (x - y)) (log_softmax (lm q)) (log_softmax (lm p))))"

definition compute_reverse_kl_sums :: "('h \<Rightarrow> real list) \<Rightarrow> ('h \<times> 'h) list \<Rightarrow> nat \<Rightarrow> real \<times> real" where
  "compute_reverse_kl_sums lm pairs chunk_size =
     fold (\<lambda>(i, j) (sum_kl, num). let kl = map (reverse_kl lm) (slice i j pairs) in
        (sum_kl + sum_list kl, num + real (length kl))) (chunk_ranges (length pairs) chunk_size) (0, 0)"

definition full_vocab_tv_distance :: "real list \<Rightarrow> real list \<Rightarrow> real res" where
  "full_vocab_tv_distance draft_logits target_logits =
     (if length draft_logits \<noteq> length target_logits then Inl ValueError
      else Inr (1 / 2 * sum_list (map2 (\<lambda>p q. \<bar>p - q\<bar>) (softmax draft_logits) (softmax target_logits))))"

text \<open>The head is applied without gradients: a linear layer is detached, any other head must have no trainable parameter.\<close>

definition compute_full_vocab_tv_from_hidden ::
  "bool \<Rightarrow> bool \<Rightarrow> ('h \<Rightarrow> real list) \<Rightarrow> 'h list \<Rightarrow> 'h list \<Rightarrow> nat \<Rightarrow> real list res" where
  "compute_full_vocab_tv_from_hidden is_linear trainable lm draft_hidden target_hidden chunk_size =
     (if length draft_hidden \<noteq> length target_hidden then Inl ValueError
      else if draft_hidden = [] then Inr []
      else if \<not> is_linear \<and> trainable then Inl RuntimeError
      else chunked chunk_size (rmap (\<lambda>(d, t). full_vocab_tv_distance (lm d) (lm t))) (zip draft_hidden target_hidden))"

subsection \<open>The end-to-end TV loss of the blocks\<close>

definition clamp01 :: "real \<Rightarrow> real" where
  "clamp01 x = min 1 (max 0 x)"

definition e2e_block :: "real list \<Rightarrow> (real \<times> real) res" where
  "e2e_block block_tv =
     (if block_tv = [] then Inl RuntimeError
      else let expected = sum_list (cumprod 1 (map (\<lambda>tv. clamp01 (1 - tv)) block_tv))
           in Inr (1 - expected / real (length block_tv), expected))"

definition compute_e2e_tv_block_outputs :: "real list \<Rightarrow> nat list \<Rightarrow> nat \<Rightarrow> (real \<times> real) list res" where
  "compute_e2e_tv_block_outputs tv_distances block_indices block_count =
     rmap (\<lambda>k. e2e_block (select (map (\<lambda>i. i = k) block_indices) tv_distances)) [0..<block_count]"

subsection \<open>Rejected drafts keyed by anchor and offset\<close>

type_synonym by_offset = "(int \<times> int) list"
type_synonym by_anchor = "(int \<times> by_offset) list"

definition get_offsets :: "by_anchor \<Rightarrow> int \<Rightarrow> by_offset" where
  "get_offsets m a = (case map_of m a of None \<Rightarrow> [] | Some o' \<Rightarrow> o')"

definition add_rejected ::
  "int \<Rightarrow> int \<Rightarrow> int \<Rightarrow> by_anchor \<Rightarrow> bool \<times> int \<times> int \<times> int \<Rightarrow> by_anchor res" where
  "add_rejected bs prompt_len valid_len m item =
     (case item of (msk, off, tok, anchor_resp) \<Rightarrow>
        if \<not> msk then Inr m
        else let full_anchor = full_anchor_of prompt_len anchor_resp in
          if full_anchor < 0 \<or> valid_len \<le> full_anchor then Inl ValueError
          else if off \<le> 0 \<or> bs \<le> off then Inl ValueError
          else if tok < 0 then Inl ValueError
          else let offs = get_offsets m full_anchor in
            case map_of offs off of
              Some t \<Rightarrow> if t \<noteq> tok then Inl ValueError
                        else Inr (AList.update full_anchor (AList.update off tok offs) m)
            | None \<Rightarrow> Inr (AList.update full_anchor (AList.update off tok offs) m))"

definition check_suffix :: "int \<Rightarrow> int \<times> by_offset \<Rightarrow> unit res" where
  "check_suffix valid_len entry =
     (case entry of (full_anchor, offs) \<Rightarrow>
        let sorted_offsets = sort (map fst offs) in
        if sorted_offsets \<noteq> [hd sorted_offsets..last sorted_offsets] then Inl ValueError
        else if valid_len \<le> full_anchor + hd sorted_offsets - 1 then Inl ValueError
        else Inr ())"

subsection \<open>The position plan\<close>

record tv_pos =
  tp_batch :: nat
  tp_draft :: int
  tp_row :: int
  tp_block :: nat
  tp_offset :: int

record branch_spec =
  br_sample :: nat
  br_anchor :: int
  br_first :: int
  br_tokens :: "int list"
  br_flat :: "nat list"
  br_suffix :: "int list"

record tv_plan =
  tv_positions :: "tv_pos list"
  tv_branches :: "branch_spec list"
  tv_block_count :: nat

definition selected_offsets_of :: "bool \<Rightarrow> by_offset \<Rightarrow> int \<Rightarrow> int list" where
  "selected_offsets_of first_token_only offs segment_len =
     (if offs \<noteq> []
      then let rejected_offsets = sort (map fst offs) in
        [1..hd rejected_offsets - 1] @ (if first_token_only then take 1 rejected_offsets else rejected_offsets)
      else [1..segment_len])"

definition is_later_reject :: "by_offset \<Rightarrow> int \<Rightarrow> bool" where
  "is_later_reject offs off \<longleftrightarrow> offs \<noteq> [] \<and> Min (set (map fst offs)) < off \<and> off \<in> set (map fst offs)"

definition tv_position ::
  "int \<Rightarrow> int \<Rightarrow> nat \<Rightarrow> nat \<Rightarrow> int \<Rightarrow> by_offset \<Rightarrow> nat \<Rightarrow> int \<Rightarrow> tv_pos res" where
  "tv_position bs valid_len b j full_anchor offs blk off =
     (let later = is_later_reject offs off; target_row = full_anchor + off - 1 in
      if \<not> later \<and> valid_len \<le> target_row then Inl ValueError
      else Inr \<lparr>tp_batch = b, tp_draft = int j * bs + off, tp_row = (if later then -1 else target_row),
                tp_block = blk, tp_offset = off\<rparr>)"

definition branch_of ::
  "bool \<Rightarrow> nat \<Rightarrow> int \<Rightarrow> by_offset \<Rightarrow> nat \<Rightarrow> int list \<Rightarrow> branch_spec option" where
  "branch_of first_token_only b full_anchor offs flat0 selected =
     (let rejected_offsets = sort (map fst offs) in
      if offs \<noteq> [] \<and> \<not> first_token_only \<and> 1 < length rejected_offsets
      then let later = filter (\<lambda>(k, off). is_later_reject offs off) (zip [0..<length selected] selected) in
        Some \<lparr>br_sample = b, br_anchor = full_anchor, br_first = hd rejected_offsets,
              br_tokens = map (\<lambda>off. the (map_of offs off)) rejected_offsets,
              br_flat = map (\<lambda>(k, _). flat0 + k) later,
              br_suffix = map (\<lambda>(_, off). off - hd rejected_offsets) later\<rparr>
      else None)"

record tv_state =
  st_positions :: "tv_pos list"
  st_branches :: "branch_spec list"
  st_seen :: "(nat \<times> int) list"
  st_blocks :: nat

text \<open>One anchor of the plan. The assertion that a later rejected offset has a branch is written out.\<close>

definition tv_anchor ::
  "int \<Rightarrow> bool \<Rightarrow> (nat \<Rightarrow> by_anchor) \<Rightarrow> (nat \<Rightarrow> int) \<Rightarrow> tv_state \<Rightarrow> nat \<times> nat \<times> bool \<times> int \<times> int \<Rightarrow> tv_state res" where
  "tv_anchor bs first_token_only rejected valid_len s item =
     (case item of (b, j, keep, full_anchor, segment_len) \<Rightarrow>
        if \<not> keep then Inr s
        else if (b, full_anchor) \<in> set (st_seen s) then Inl ValueError
        else let offs = get_offsets (rejected b) full_anchor;
                 selected = selected_offsets_of first_token_only offs segment_len;
                 branch = branch_of first_token_only b full_anchor offs (length (st_positions s)) selected;
                 s1 = s\<lparr>st_seen := st_seen s @ [(b, full_anchor)]\<rparr> in
          if selected = [] then Inr s1
          else rbind (rmap (\<lambda>off.
                 rbind (tv_position bs (valid_len b) b j full_anchor offs (st_blocks s) off) (\<lambda>p.
                   if is_later_reject offs off \<and> branch = None then Inl AssertionError else Inr p)) selected)
            (\<lambda>ps. Inr (s1\<lparr>st_positions := st_positions s @ ps,
                 st_branches := st_branches s @ (case branch of None \<Rightarrow> [] | Some br \<Rightarrow> [br]),
                 st_blocks := st_blocks s + 1\<rparr>)))"

definition plan_anchors :: "int list list \<Rightarrow> int list list \<Rightarrow> bool list list \<Rightarrow> (nat \<times> nat \<times> bool \<times> int \<times> int) list" where
  "plan_anchors anchors segs keep =
     concat (map (\<lambda>b. map (\<lambda>j. (b, j, keep ! b ! j, anchors ! b ! j, segs ! b ! j)) [0..<length (anchors ! b)])
       [0..<length anchors])"

definition tv_rejected_items :: "rejected_meta \<Rightarrow> nat \<Rightarrow> (bool \<times> int \<times> int \<times> int) list" where
  "tv_rejected_items rej b =
     (case (rd_anchors rej, rd_offsets rej, rd_tokens rej, rd_mask rej) of
        (Some a, Some f, Some t, Some m) \<Rightarrow> zip (m ! b) (zip (f ! b) (zip (t ! b) (a ! b)))
      | _ \<Rightarrow> [])"

definition check_rejected_meta :: "rejected_meta \<Rightarrow> unit res" where
  "check_rejected_meta rej =
     (case (rd_anchors rej, rd_offsets rej, rd_tokens rej, rd_mask rej) of
        (None, None, None, None) \<Rightarrow> Inr ()
      | (Some a, Some f, Some t, Some m) \<Rightarrow>
          require (map length a = map length m \<and> map length f = map length m \<and> map length t = map length m) ValueError
      | _ \<Rightarrow> Inl ValueError)"

definition build_tv_position_plan ::
  "int list \<Rightarrow> int list list \<Rightarrow> int list list \<Rightarrow> bool list list \<Rightarrow> int list \<Rightarrow> int \<Rightarrow> rejected_meta \<Rightarrow> bool \<Rightarrow> tv_plan res" where
  "build_tv_position_plan prompt_lengths anchors segs keep valid_lens bs rej first_token_only =
     rbind (check_rejected_meta rej) (\<lambda>_.
     rbind (rmap (\<lambda>b. rfold (add_rejected bs (prompt_lengths ! b) (valid_lens ! b)) [] (tv_rejected_items rej b))
              [0..<length prompt_lengths]) (\<lambda>rejected.
     rbind (rmap (\<lambda>b. rmap (check_suffix (valid_lens ! b)) (rejected ! b)) [0..<length prompt_lengths]) (\<lambda>_.
     rbind (rfold (tv_anchor bs first_token_only (\<lambda>b. rejected ! b) (\<lambda>b. valid_lens ! b))
              \<lparr>st_positions = [], st_branches = [], st_seen = [], st_blocks = 0\<rparr> (plan_anchors anchors segs keep)) (\<lambda>s.
     rbind (require (\<forall>b\<in>set [0..<length prompt_lengths]. \<forall>a\<in>set (map fst (rejected ! b)). (b, a) \<in> set (st_seen s)) ValueError) (\<lambda>_.
     Inr \<lparr>tv_positions = st_positions s, tv_branches = st_branches s, tv_block_count = st_blocks s\<rparr>)))))"

subsection \<open>The teacher on rejected branches\<close>

definition assign_row :: "'h list \<Rightarrow> 'h list \<Rightarrow> nat \<times> int \<Rightarrow> 'h list res" where
  "assign_row branch_hidden selected w =
     (case w of (i, row) \<Rightarrow>
        if i < length selected \<and> 0 \<le> row \<and> row < int (length branch_hidden)
        then Inr (selected[i := branch_hidden ! nat row]) else Inl IndexError)"

definition apply_branch ::
  "(int list \<Rightarrow> 'h list res) \<Rightarrow> nat option \<Rightarrow> int list list \<Rightarrow> 'h list \<Rightarrow> branch_spec \<Rightarrow> 'h list res" where
  "apply_branch main_net position_dim input_ids selected br =
     (let prefix_len = br_anchor br + br_first br;
          branch_ids = take (nat prefix_len) (input_ids ! br_sample br) @ br_tokens br in
      if position_dim \<noteq> None \<and> position_dim \<noteq> Some 2 then Inl NotImplementedError
      else rbind (main_net branch_ids) (\<lambda>branch_hidden.
        rfold (assign_row branch_hidden) selected
          (zip (br_flat br) (map (\<lambda>sfx. prefix_len - 1 + sfx) (br_suffix br)))))"

definition compute_tv_teacher_branch_hidden ::
  "(int list \<Rightarrow> 'h list res) \<Rightarrow> nat option \<Rightarrow> int list list \<Rightarrow> 'h list list \<Rightarrow> tv_plan \<Rightarrow> ('h list \<times> nat) res" where
  "compute_tv_teacher_branch_hidden main_net position_dim input_ids target_lm_hidden plan =
     (if tv_positions plan = [] then Inr ([], 0)
      else rbind (rmap (\<lambda>p. hidden_at target_lm_hidden (tp_batch p, nat (max 0 (tp_row p)))) (tv_positions plan)) (\<lambda>selected.
        rbind (rfold (apply_branch main_net position_dim input_ids) selected (tv_branches plan)) (\<lambda>selected'.
          Inr (selected', sum_list (map (\<lambda>br. length (br_flat br)) (tv_branches plan))))))"

subsection \<open>Log-probabilities of rejected drafts\<close>

definition block_index :: "(int \<times> bool) list \<Rightarrow> int \<Rightarrow> nat option" where
  "block_index blocks full_anchor =
     (let is = true_indices (map (\<lambda>(a, k). a = full_anchor \<and> k) blocks) in
      if is = [] then None else Some (hd is))"

text \<open>The items of one sample that are selected: item index, draft index, token.\<close>

fun collect_items ::
  "int \<Rightarrow> nat option \<Rightarrow> int \<Rightarrow> int \<Rightarrow> (int \<times> bool) list \<Rightarrow> nat \<Rightarrow> (bool \<times> int \<times> int \<times> int) list \<Rightarrow> nat
     \<Rightarrow> (nat \<times> nat \<times> int) list" where
  "collect_items bs cap prompt_len valid_len blocks i [] selected = []"
| "collect_items bs cap prompt_len valid_len blocks i ((m, off, tok, anchor_resp) # items) selected =
     (let rest = collect_items bs cap prompt_len valid_len blocks (i + 1) items in
      if \<not> m then rest selected
      else if cap \<noteq> None \<and> the cap \<le> selected then rest selected
      else if off \<le> 0 \<or> bs \<le> off \<or> tok < 0 then rest selected
      else let full_anchor = full_anchor_of prompt_len anchor_resp in
        if full_anchor < 0 \<or> valid_len \<le> full_anchor then rest selected
        else case block_index blocks full_anchor of
          None \<Rightarrow> rest selected
        | Some k \<Rightarrow> (i, k * nat bs + nat off, tok) # rest (selected + 1))"

definition scatter :: "'a list list \<Rightarrow> (nat \<times> nat) list \<Rightarrow> 'a list \<Rightarrow> 'a list list res" where
  "scatter t ws vs = rfold (\<lambda>t ((b, r), v).
     if b < length t \<and> r < length (t ! b) then Inr (t[b := (t ! b)[r := v]]) else Inl IndexError) t (zip ws vs)"

record rejected_logps =
  rl_student :: "real list list"
  rl_teacher :: "real list list"
  rl_mask :: "bool list list"

definition rejected_width_of :: "rejected_meta \<Rightarrow> nat" where
  "rejected_width_of rej =
     (case rd_anchors rej of Some (r # _) \<Rightarrow> max 1 (length r) | _ \<Rightarrow> 1)"

definition no_rejected_logps :: "nat \<Rightarrow> nat \<Rightarrow> rejected_logps" where
  "no_rejected_logps n w = \<lparr>rl_student = replicate n (replicate w 0), rl_teacher = replicate n (replicate w 0),
     rl_mask = replicate n (replicate w False)\<rparr>"

definition collect_rejected_draft_log_probs ::
  "'h list list \<Rightarrow> ('h \<Rightarrow> real list) \<Rightarrow> int list \<Rightarrow> int list \<Rightarrow> int list list \<Rightarrow> bool list list \<Rightarrow> int \<Rightarrow> nat
     \<Rightarrow> nat option \<Rightarrow> rejected_meta \<Rightarrow> rejected_logps res" where
  "collect_rejected_draft_log_probs draft_hidden lm prompt_lengths response_lengths anchors keep bs chunk_size cap rej =
     (let n = length prompt_lengths; z = no_rejected_logps n (rejected_width_of rej) in
      case rd_teacher rej of
        None \<Rightarrow> Inr z
      | Some teacher \<Rightarrow>
          if n = 0 \<or> rejected_items rej 0 = None then Inr z
          else let sel = concat (map (\<lambda>b. map (\<lambda>(i, d, tok). (b, i, d, tok))
                 (collect_items bs cap (prompt_lengths ! b) (prompt_lengths ! b + response_lengths ! b)
                    (zip (anchors ! b) (keep ! b)) 0 (the (rejected_items rej b)) 0)) [0..<n]);
                 cells = map (\<lambda>(b, i, d, tok). (b, i)) sel in
            rbind (scatter (rl_teacher z) cells (map (\<lambda>(b, i). teacher ! b ! i) cells)) (\<lambda>tt.
            rbind (scatter (rl_mask z) cells (map (\<lambda>_. True) cells)) (\<lambda>mm.
            rbind (compute_selected_lm_log_probs draft_hidden lm (map (\<lambda>(b, i, d, tok). (b, d)) sel)
                     (map (\<lambda>(b, i, d, tok). tok) sel) chunk_size) (\<lambda>lps.
            rbind (scatter (rl_student z) cells (map fst lps)) (\<lambda>ss.
              Inr \<lparr>rl_student = ss, rl_teacher = tt, rl_mask = mm\<rparr>)))))"

subsection \<open>Response tokens\<close>

record response_pos =
  rs_batch :: nat
  rs_draft :: nat
  rs_row :: nat
  rs_label :: int
  rs_offset :: nat

definition active_blocks :: "opd_plan \<Rightarrow> nat \<Rightarrow> (nat \<times> nat) list" where
  "active_blocks plan off =
     filter (\<lambda>(b, j). block_keep_mask plan ! b ! j \<and> int off \<le> segment_lens plan ! b ! j)
       (concat (map (\<lambda>b. map (\<lambda>j. (b, j)) [0..<length (anchor_positions plan ! b)]) [0..<length (anchor_positions plan)]))"

definition response_selection :: "opd_plan \<Rightarrow> int list list \<Rightarrow> nat \<Rightarrow> response_pos list" where
  "response_selection plan input_ids bs =
     concat (map (\<lambda>off.
       map (\<lambda>(b, j). let row = nat (row_starts plan ! b ! j + (int off - 1)) in
          \<lparr>rs_batch = b, rs_draft = j * bs + off, rs_row = row, rs_label = input_ids ! b ! (row + 1), rs_offset = off\<rparr>)
        (filter (\<lambda>(b, j). row_starts plan ! b ! j + (int off - 1) + 1 < valid_seq_lens plan ! b)
          (active_blocks plan off))) [1..<bs])"

record response_out =
  ro_log_probs :: "real list list"
  ro_teacher :: "real list list option"
  ro_loss_mask :: "real list list"
  ro_offsets :: "nat list list"
  ro_entropy :: "real list list option"

definition zeros_like :: "'a list list \<Rightarrow> 'b \<Rightarrow> 'b list list" where
  "zeros_like t z = map (map (\<lambda>_. z)) t"

definition no_response :: "bool \<Rightarrow> bool \<Rightarrow> int list list \<Rightarrow> response_out" where
  "no_response use_teacher entropy input_ids = \<lparr>ro_log_probs = zeros_like input_ids 0,
     ro_teacher = (if use_teacher then Some (zeros_like input_ids 0) else None),
     ro_loss_mask = zeros_like input_ids 0, ro_offsets = zeros_like input_ids 0,
     ro_entropy = (if entropy then Some (zeros_like input_ids 0) else None)\<rparr>"

definition scatter_opt :: "'a list list option \<Rightarrow> (nat \<times> nat) list \<Rightarrow> 'a list \<Rightarrow> 'a list list option res" where
  "scatter_opt t ws vs = (case t of None \<Rightarrow> Inr None | Some t' \<Rightarrow> rbind (scatter t' ws vs) (\<lambda>x. Inr (Some x)))"

definition response_pass ::
  "'h list list \<Rightarrow> 'h list list \<Rightarrow> ('h \<Rightarrow> real list) \<Rightarrow> opd_plan \<Rightarrow> int list list \<Rightarrow> nat \<Rightarrow> nat \<Rightarrow> response_out
     \<Rightarrow> response_out res" where
  "response_pass draft_hidden target_lm_hidden lm plan input_ids bs chunk_size z =
     (let sel = response_selection plan input_ids bs;
          cells = map (\<lambda>p. (rs_batch p, rs_row p)) sel; labels = map rs_label sel in
      if sel = [] then Inr z
      else rbind (compute_selected_lm_log_probs draft_hidden lm (map (\<lambda>p. (rs_batch p, rs_draft p)) sel) labels chunk_size) (\<lambda>lps.
        rbind (scatter (ro_log_probs z) cells (map fst lps)) (\<lambda>l.
        rbind (case ro_teacher z of None \<Rightarrow> Inr []
               | Some _ \<Rightarrow> compute_selected_lm_log_probs target_lm_hidden lm cells labels chunk_size) (\<lambda>tl.
        rbind (scatter_opt (ro_teacher z) cells (map fst tl)) (\<lambda>t.
        rbind (scatter (ro_loss_mask z) cells (map (\<lambda>_. 1) sel)) (\<lambda>m.
        rbind (scatter (ro_offsets z) cells (map rs_offset sel)) (\<lambda>of'.
        rbind (scatter_opt (ro_entropy z) cells (map snd lps)) (\<lambda>en.
          Inr \<lparr>ro_log_probs = l, ro_teacher = t, ro_loss_mask = m, ro_offsets = of', ro_entropy = en\<rparr>))))))))"

subsection \<open>Replay mismatch\<close>

record replay_pos =
  rq_batch :: nat
  rq_draft :: nat
  rq_row :: nat
  rq_offset :: int
  rq_accepted :: int

definition replay_positions :: "replay_plan \<Rightarrow> nat \<Rightarrow> replay_pos list" where
  "replay_positions plan bs =
     concat (map (\<lambda>off.
       map (\<lambda>(b, j). \<lparr>rq_batch = b, rq_draft = j * bs + off,
              rq_row = nat (rp_anchor_positions plan ! b ! j + (int off - 1)), rq_offset = int off,
              rq_accepted = rp_accepted_lengths plan ! b ! j\<rparr>)
        (filter (\<lambda>(b, j). rp_block_keep_mask plan ! b ! j \<and> int off \<le> rp_drafted_lengths plan ! b ! j
             \<and> rp_anchor_positions plan ! b ! j + (int off - 1) + 1 < rp_valid_seq_lens plan ! b)
          (concat (map (\<lambda>b. map (\<lambda>j. (b, j)) [0..<length (rp_anchor_positions plan ! b)])
             [0..<length (rp_anchor_positions plan)])))) [1..<bs])"

definition accepted_replay :: "replay_pos \<Rightarrow> bool" where
  "accepted_replay p \<longleftrightarrow> rq_offset p \<le> rq_accepted p"

definition first_rejected_replay :: "replay_pos \<Rightarrow> bool" where
  "first_rejected_replay p \<longleftrightarrow> rq_offset p = rq_accepted p + 1"

definition suffix_replay :: "replay_pos \<Rightarrow> bool" where
  "suffix_replay p \<longleftrightarrow> rq_accepted p + 1 < rq_offset p"

record replay_metrics =
  rm_matched :: "real \<times> real"
  rm_accepted :: "real \<times> real"
  rm_first_rejected :: "real \<times> real"
  rm_suffix :: "real \<times> real"

definition no_replay_metrics :: replay_metrics where
  "no_replay_metrics = \<lparr>rm_matched = (0, 0), rm_accepted = (0, 0), rm_first_rejected = (0, 0), rm_suffix = (0, 0)\<rparr>"

definition replay_group_sums ::
  "('h \<Rightarrow> real list) \<Rightarrow> nat \<Rightarrow> (replay_pos \<times> 'h \<times> 'h) list \<Rightarrow> replay_metrics" where
  "replay_group_sums lm chunk_size states =
     (let group = (\<lambda>P. compute_reverse_kl_sums lm (map snd (filter (\<lambda>st. P (fst st)) states)) chunk_size)
      in \<lparr>rm_matched = group (\<lambda>_. True), rm_accepted = group accepted_replay,
          rm_first_rejected = group first_rejected_replay, rm_suffix = group suffix_replay\<rparr>)"

definition replay_states ::
  "'h list list \<Rightarrow> 'h list list \<Rightarrow> replay_pos list \<Rightarrow> (replay_pos \<times> 'h \<times> 'h) list res" where
  "replay_states replay_hidden target_lm_hidden ps =
     rmap (\<lambda>p. rbind (hidden_at replay_hidden (rq_batch p, rq_draft p)) (\<lambda>q.
       rbind (hidden_at target_lm_hidden (rq_batch p, rq_row p)) (\<lambda>t. Inr (p, q, t)))) ps"

text \<open>The composed student: its attention configuration, draft network (with the target's context
  features fixed), mask token, head and main model.\<close>

record 'h student =
  sd_flex_available :: bool
  sd_is_oom :: "py_exn \<Rightarrow> bool"
  sd_draft :: "'h list list draft_net"
  sd_mask_token :: "int option"
  sd_head :: "('h \<Rightarrow> real list) option"
  sd_head_linear :: bool
  sd_head_trainable :: bool
  sd_main :: "int list \<Rightarrow> 'h list res"
  sd_trainable :: bool

definition draft_forward ::
  "'h student \<Rightarrow> string \<Rightarrow> int list list \<Rightarrow> int list list \<Rightarrow> bool list list \<Rightarrow> nat \<Rightarrow> ('h list list \<times> string) res" where
  "draft_forward sd impl input_ids anchors keep bs =
     run_dflash_draft_forward (sd_flex_available sd) (sd_is_oom sd) (sd_draft sd) impl (sd_mask_token sd)
       input_ids anchors keep bs"

record replay_meta =
  ry_anchors :: "int list list"
  ry_accepted :: "int list list"
  ry_drafted :: "int list list"
  ry_mask :: "bool list list"

definition compute_replay_dis_mismatch ::
  "'h student \<Rightarrow> string \<Rightarrow> ('h \<Rightarrow> real list) \<Rightarrow> int list list \<Rightarrow> int list list option \<Rightarrow> 'h list list \<Rightarrow> int list
     \<Rightarrow> int list \<Rightarrow> replay_meta option \<Rightarrow> nat \<Rightarrow> nat \<Rightarrow> replay_metrics res" where
  "compute_replay_dis_mismatch sd impl lm input_ids am target_lm_hidden ps rs meta bs chunk_size =
     (case meta of
        None \<Rightarrow> Inr no_replay_metrics
      | Some m \<Rightarrow>
          if \<not> (\<exists>r\<in>set (ry_mask m). \<exists>x\<in>set r. x) then Inr no_replay_metrics
          else let plan = build_replay_dis_anchor_plan input_ids am ps rs (ry_anchors m) (ry_accepted m)
                            (ry_drafted m) (ry_mask m) (int bs) in
            if \<not> (\<exists>r\<in>set (rp_block_keep_mask plan). \<exists>x\<in>set r. x) then Inr no_replay_metrics
            else rbind (draft_forward sd impl input_ids (rp_anchor_positions plan) (rp_block_keep_mask plan) bs) (\<lambda>(h, _).
              rbind (replay_states h target_lm_hidden (replay_positions plan bs)) (\<lambda>states.
                Inr (replay_group_sums lm chunk_size states))))"

subsection \<open>The TV objective\<close>

record tv_out =
  to_block_losses :: "real list"
  to_block_mask :: "bool list"
  to_distance_sum :: real
  to_overlap_sum :: real
  to_expected_accept_sum :: real
  to_block_count :: nat
  to_position_count :: nat
  to_branch_position_count :: nat
  to_response :: "response_out option"

definition tv_config :: "int \<Rightarrow> opd_config" where
  "tv_config bs = \<lparr>draft_block_size = bs, response_anchor_stride = 1, random_enabled = False, random_seed = 42,
     include_rejected = True\<rparr>"

definition forward_opd_tv ::
  "(int \<Rightarrow> rng) \<Rightarrow> 'h student \<Rightarrow> string \<Rightarrow> int list list \<Rightarrow> int list list option \<Rightarrow> nat option \<Rightarrow> int list \<Rightarrow> int list
     \<Rightarrow> int list list \<Rightarrow> 'h list list \<Rightarrow> rejected_meta \<Rightarrow> bool \<Rightarrow> bool \<Rightarrow> bool \<Rightarrow> nat \<Rightarrow> nat \<Rightarrow> tv_out res" where
  "forward_opd_tv random_of sd impl input_ids am position_dim ps rs rejects target_lm_hidden rej
     first_token_only use_task_rewards entropy bs chunk_size =
     rbind (build_opd_anchor_plan random_of (tv_config (int bs)) input_ids am ps rs rejects rej) (\<lambda>plan.
     rbind (build_tv_position_plan ps (anchor_positions plan) (segment_lens plan) (block_keep_mask plan)
              (valid_seq_lens plan) (int bs) rej first_token_only) (\<lambda>tv.
     case sd_head sd of
       None \<Rightarrow> Inl RuntimeError
     | Some lm \<Rightarrow>
         let z = no_response False entropy input_ids in
         if tv_positions tv = [] then
           (if \<not> sd_trainable sd then Inl RuntimeError
            else Inr \<lparr>to_block_losses = [0], to_block_mask = [False], to_distance_sum = 0, to_overlap_sum = 0,
                   to_expected_accept_sum = 0, to_block_count = 0, to_position_count = 0,
                   to_branch_position_count = 0, to_response = (if use_task_rewards then Some z else None)\<rparr>)
         else
           rbind (draft_forward sd impl input_ids (anchor_positions plan) (block_keep_mask plan) bs) (\<lambda>(h, _).
           rbind (rmap (\<lambda>p. hidden_at h (tp_batch p, nat (tp_draft p))) (tv_positions tv)) (\<lambda>dh.
           rbind (compute_tv_teacher_branch_hidden (sd_main sd) position_dim input_ids target_lm_hidden tv) (\<lambda>(th, branch_count).
           rbind (compute_full_vocab_tv_from_hidden (sd_head_linear sd) (sd_head_trainable sd) lm dh th chunk_size) (\<lambda>tvs.
           rbind (compute_e2e_tv_block_outputs tvs (map tp_block (tv_positions tv)) (tv_block_count tv)) (\<lambda>outs.
           rbind (if use_task_rewards
                  then rbind (response_pass h target_lm_hidden lm plan input_ids bs chunk_size z) (\<lambda>r. Inr (Some r))
                  else Inr None) (\<lambda>resp.
             Inr \<lparr>to_block_losses = map fst outs, to_block_mask = map (\<lambda>_. True) outs,
               to_distance_sum = sum_list tvs, to_overlap_sum = sum_list (map (\<lambda>t. 1 - t) tvs),
               to_expected_accept_sum = sum_list (map snd outs), to_block_count = tv_block_count tv,
               to_position_count = length (tv_positions tv), to_branch_position_count = branch_count,
               to_response = resp\<rparr>))))))))"

subsection \<open>The log-probability objective\<close>

definition any_kept :: "bool list list \<Rightarrow> bool" where
  "any_kept keep \<longleftrightarrow> (\<exists>r\<in>set keep. \<exists>x\<in>set r. x)"

definition plan_block_stats :: "int list list \<Rightarrow> bool list list \<Rightarrow> nat \<times> nat \<times> nat" where
  "plan_block_stats positions keep =
     (let actual = sum_list (map (\<lambda>r. count_list r True) keep) in
      if any_kept keep
      then (actual, length positions * length (hd positions), fold max (map (\<lambda>r. count_list r True) keep) 0)
      else (actual, 0, actual))"

record opd_out =
  oo_response :: response_out
  oo_rejected :: rejected_logps
  oo_response_lm_tokens :: nat
  oo_rejected_lm_tokens :: nat
  oo_actual_blocks :: nat
  oo_padded_blocks :: nat
  oo_max_blocks :: nat
  oo_draft_q_tokens :: nat
  oo_attn_impl :: string
  oo_plan :: opd_plan
  oo_replay :: "replay_metrics option"

text \<open>The two draft passes: response blocks (with the rejected drafts unless they have a pass of their
  own) and rejected blocks. \<open>ran\<close> says whether the draft network ran at all.\<close>

definition opd_passes ::
  "'h student \<Rightarrow> string \<Rightarrow> ('h \<Rightarrow> real list) \<Rightarrow> int list list \<Rightarrow> int list \<Rightarrow> int list \<Rightarrow> 'h list list \<Rightarrow> rejected_meta
     \<Rightarrow> nat \<Rightarrow> nat \<Rightarrow> nat option \<Rightarrow> bool \<Rightarrow> opd_plan \<Rightarrow> int list list \<times> bool list list \<Rightarrow> response_out
     \<Rightarrow> (response_out \<times> rejected_logps \<times> string \<times> bool) res" where
  "opd_passes sd impl lm input_ids ps rs target_lm_hidden rej bs chunk_size cap split plan rplan z =
     (let none = no_rejected_logps (length input_ids) (rejected_width_of rej);
          collect = (\<lambda>h a k. collect_rejected_draft_log_probs h lm ps rs a k (int bs) chunk_size cap rej) in
      rbind (if any_kept (block_keep_mask plan)
             then rbind (draft_forward sd impl input_ids (anchor_positions plan) (block_keep_mask plan) bs) (\<lambda>(h, impl1).
               rbind (response_pass h target_lm_hidden lm plan input_ids bs chunk_size z) (\<lambda>resp.
               rbind (if split then Inr none else collect h (anchor_positions plan) (block_keep_mask plan)) (\<lambda>rl.
                 Inr (resp, rl, impl1, True))))
             else Inr (z, none, impl, False)) (\<lambda>(resp, rl, impl1, ran).
      if split \<and> any_kept (snd rplan)
      then rbind (draft_forward sd impl1 input_ids (fst rplan) (snd rplan) bs) (\<lambda>(h, impl2).
             rbind (collect h (fst rplan) (snd rplan)) (\<lambda>rl'. Inr (resp, rl', impl2, True)))
      else Inr (resp, rl, impl1, ran)))"

definition forward_opd ::
  "(int \<Rightarrow> rng) \<Rightarrow> 'h student \<Rightarrow> string \<Rightarrow> opd_config \<Rightarrow> int list list \<Rightarrow> int list list option \<Rightarrow> int list \<Rightarrow> int list
     \<Rightarrow> int list list \<Rightarrow> 'h list list \<Rightarrow> rejected_meta \<Rightarrow> bool \<Rightarrow> bool \<Rightarrow> bool \<Rightarrow> replay_meta option \<Rightarrow> nat \<Rightarrow> nat
     \<Rightarrow> nat option \<Rightarrow> opd_out res" where
  "forward_opd random_of sd impl cfg input_ids am ps rs rejects target_lm_hidden rej use_teacher entropy use_replay
     replay bs chunk_size cap =
     (let split = random_enabled cfg in
      rbind (build_opd_anchor_plan random_of (cfg\<lparr>draft_block_size := int bs, include_rejected := \<not> split\<rparr>)
               input_ids am ps rs rejects rej) (\<lambda>plan.
      let rplan = (if split then build_rejected_draft_anchor_plan input_ids ps rs (int bs) cap rej
                   else (map (\<lambda>_. [0]) input_ids, map (\<lambda>_. [False]) input_ids));
          (a1, p1, m1) = plan_block_stats (anchor_positions plan) (block_keep_mask plan);
          (a2, p2, m2) = plan_block_stats (fst rplan) (snd rplan);
          max_blocks = (if split then fold max (map2 (\<lambda>x y. count_list x True + count_list y True)
                          (block_keep_mask plan) (snd rplan)) 0 else max m1 m2) in
      case sd_head sd of
        None \<Rightarrow> Inl RuntimeError
      | Some lm \<Rightarrow>
          rbind (opd_passes sd impl lm input_ids ps rs target_lm_hidden rej bs chunk_size cap split plan rplan
                   (no_response use_teacher entropy input_ids)) (\<lambda>(resp, rl, impl', ran).
          if \<not> ran \<and> \<not> sd_trainable sd then Inl RuntimeError
          else rbind (if use_replay
                 then rbind (compute_replay_dis_mismatch sd impl' lm input_ids am target_lm_hidden ps rs replay bs chunk_size)
                        (\<lambda>m. Inr (Some m))
                 else Inr None) (\<lambda>rm.
            Inr \<lparr>oo_response = resp, oo_rejected = rl,
                 oo_response_lm_tokens = (if any_kept (block_keep_mask plan)
                    then length (response_selection plan input_ids bs) else 0),
                 oo_rejected_lm_tokens = sum_list (map (\<lambda>r. count_list r True) (rl_mask rl)),
                 oo_actual_blocks = a1 + a2, oo_padded_blocks = p1 + p2, oo_max_blocks = max_blocks,
                 oo_draft_q_tokens = (p1 + p2) * bs, oo_attn_impl = impl', oo_plan = plan, oo_replay = rm\<rparr>))))"

subsection \<open>Chunking the head does not change its results\<close>

lemma concat_take_drop: "concat (map (\<lambda>k. take c (drop (k * c) xs)) [0..<m]) = take (m * c) xs"
proof (induction m)
  case (Suc m)
  then show ?case by (simp add: take_add [symmetric] add.commute)
qed simp

lemma chunk_slices:
  assumes "0 < c"
  shows "concat (map (\<lambda>(i, j). slice i j xs) (chunk_ranges (length xs) c)) = xs"
proof -
  have sl: "slice (k * c) (min (k * c + c) (length xs)) xs = take c (drop (k * c) xs)" for k
    by (cases "k * c + c \<le> length xs") (auto simp: slice_def)
  have "length xs \<le> ceil_div (length xs) c * c" using ceil_align_ge [OF assms, of "length xs"] by (simp add: ceil_align_def)
  then show ?thesis by (simp add: chunk_ranges_def comp_def sl concat_take_drop)
qed

lemma rmap_append: "rmap f (xs @ ys) = rbind (rmap f xs) (\<lambda>a. rbind (rmap f ys) (\<lambda>b. Inr (a @ b)))"
  by (induction xs) (auto simp: rbind_def split: sum.splits)

lemma rmap_concat: "rbind (rmap (\<lambda>x. rmap f (g x)) ks) (\<lambda>ys. Inr (concat ys)) = rmap f (concat (map g ks))"
  by (induction ks) (auto simp: rmap_append rbind_def split: sum.splits)

lemma chunked_rmap: "0 < c \<Longrightarrow> chunked c (rmap f) xs = rmap f xs"
  using rmap_concat [of f "\<lambda>(i, j). slice i j xs" "chunk_ranges (length xs) c"] chunk_slices [of c xs]
  by (simp add: chunked_def case_prod_unfold)

lemma fold_kl:
  "fold (\<lambda>(i, j) (s, n). let kl = map (reverse_kl lm) (slice i j pairs) in (s + sum_list kl, n + real (length kl))) ks (s, n)
   = (let kl = map (reverse_kl lm) (concat (map (\<lambda>(i, j). slice i j pairs) ks)) in (s + sum_list kl, n + real (length kl)))"
  by (induction ks arbitrary: s n) (auto simp: Let_def)

lemma reverse_kl_sums_eq:
  "0 < c \<Longrightarrow> compute_reverse_kl_sums lm pairs c = (sum_list (map (reverse_kl lm) pairs), real (length pairs))"
  unfolding compute_reverse_kl_sums_def fold_kl chunk_slices by (simp add: Let_def)

text \<open>The replay metrics are a partition: for every chunk size, summed divergence and number of
  states of the matched trajectory are the sums over accepted, first rejected and suffix positions.\<close>

theorem replay_groups_partition:
  assumes "0 < chunk_size"
  shows "let m = replay_group_sums lm chunk_size states in
    fst (rm_matched m) = fst (rm_accepted m) + fst (rm_first_rejected m) + fst (rm_suffix m)
    \<and> snd (rm_matched m) = snd (rm_accepted m) + snd (rm_first_rejected m) + snd (rm_suffix m)"
proof -
  let ?f = "\<lambda>P. map snd (filter (\<lambda>st. P (fst st)) states)"
  have "sum_list (map g (?f (\<lambda>_. True))) = sum_list (map g (?f accepted_replay))
      + sum_list (map g (?f first_rejected_replay)) + sum_list (map g (?f suffix_replay))" for g :: "'a \<times> 'a \<Rightarrow> real"
    by (induction states) (auto simp: accepted_replay_def first_rejected_replay_def suffix_replay_def)
  from this [of "reverse_kl lm"] this [of "\<lambda>_. 1"] show ?thesis
    by (simp add: replay_group_sums_def Let_def reverse_kl_sums_eq [OF assms] comp_def sum_list_triv)
qed

theorem replay_groups_partition_witness:
  "snd (rm_matched (replay_group_sums (\<lambda>h. [h, 0]) 2
     [(\<lparr>rq_batch = 0, rq_draft = 1, rq_row = 3, rq_offset = 1, rq_accepted = 1\<rparr>, 1, 2),
      (\<lparr>rq_batch = 0, rq_draft = 2, rq_row = 4, rq_offset = 2, rq_accepted = 1\<rparr>, 3, 4),
      (\<lparr>rq_batch = 0, rq_draft = 3, rq_row = 5, rq_offset = 3, rq_accepted = 1\<rparr>, 5, 6)])) = 1 + 1 + 1"
proof -
  let ?s = "[(\<lparr>rq_batch = 0, rq_draft = 1, rq_row = 3, rq_offset = 1, rq_accepted = 1\<rparr>, 1, 2),
      (\<lparr>rq_batch = 0, rq_draft = 2, rq_row = 4, rq_offset = 2, rq_accepted = 1\<rparr>, 3, 4),
      (\<lparr>rq_batch = 0, rq_draft = 3, rq_row = 5, rq_offset = 3, rq_accepted = 1\<rparr>, 5, 6 :: real)]"
  have c: "0 < (2 :: nat)" by simp
  have "snd (rm_accepted (replay_group_sums (\<lambda>h. [h, 0]) 2 ?s)) = 1"
    "snd (rm_first_rejected (replay_group_sums (\<lambda>h. [h, 0]) 2 ?s)) = 1"
    "snd (rm_suffix (replay_group_sums (\<lambda>h. [h, 0]) 2 ?s)) = 1"
    by (simp_all add: replay_group_sums_def Let_def reverse_kl_sums_eq accepted_replay_def first_rejected_replay_def
        suffix_replay_def)
  then show ?thesis using replay_groups_partition [OF c, of "\<lambda>h. [h, 0]" ?s] by (simp add: Let_def)
qed

subsection \<open>Total variation\<close>

lemma softmax_nonneg: "p \<in> set (softmax xs) \<Longrightarrow> 0 \<le> p"
  by (auto simp: softmax_def intro!: divide_nonneg_nonneg sum_list_nonneg)

lemma softmax_sum: "xs \<noteq> [] \<Longrightarrow> sum_list (softmax xs) = 1"
proof -
  assume "xs \<noteq> []"
  then have "0 < (\<Sum>y\<leftarrow>xs. exp y)" by (cases xs) (auto intro!: add_pos_nonneg sum_list_nonneg)
  moreover have "sum_list (softmax xs) = (\<Sum>y\<leftarrow>xs. exp y) / (\<Sum>y\<leftarrow>xs. exp y)"
    unfolding softmax_def by (simp only: divide_inverse sum_list_mult_const)
  ultimately show ?thesis by simp
qed

lemma sum_abs_diff_le:
  fixes ps qs :: "real list"
  assumes "length ps = length qs" "\<forall>p\<in>set ps. 0 \<le> p" "\<forall>q\<in>set qs. 0 \<le> q"
  shows "sum_list (map2 (\<lambda>p q. \<bar>p - q\<bar>) ps qs) \<le> sum_list ps + sum_list qs"
  using assms by (induction ps qs rule: list_induct2) (auto simp: abs_if)

lemma sum_abs_diff_eq_0:
  fixes ps qs :: "real list"
  assumes "length ps = length qs"
  shows "sum_list (map2 (\<lambda>p q. \<bar>p - q\<bar>) ps qs) = 0 \<longleftrightarrow> ps = qs"
proof -
  have nn: "0 \<le> sum_list (map2 (\<lambda>p q. \<bar>p - q\<bar>) xs ys)" for xs ys :: "real list" by (auto intro!: sum_list_nonneg)
  show ?thesis using assms
    by (induction ps qs rule: list_induct2) (use nn in \<open>auto simp: add_nonneg_eq_0_iff\<close>)
qed

lemma tv_row:
  assumes "full_vocab_tv_distance d t = Inr v"
  shows "0 \<le> v" "v \<le> 1" "v = 0 \<longleftrightarrow> softmax d = softmax t"
proof -
  have l: "length d = length t" and v: "v = 1 / 2 * sum_list (map2 (\<lambda>p q. \<bar>p - q\<bar>) (softmax d) (softmax t))"
    using assms by (auto simp: full_vocab_tv_distance_def split: if_splits)
  have sl: "length (softmax d) = length (softmax t)" using l by (simp add: softmax_def)
  have "0 \<le> sum_list (map2 (\<lambda>p q. \<bar>p - q\<bar>) (softmax d) (softmax t))" by (auto intro!: sum_list_nonneg)
  then show "0 \<le> v" using v by simp
  have "v = 0 \<longleftrightarrow> sum_list (map2 (\<lambda>p q. \<bar>p - q\<bar>) (softmax d) (softmax t)) = 0" unfolding v by linarith
  then show "v = 0 \<longleftrightarrow> softmax d = softmax t" unfolding sum_abs_diff_eq_0 [OF sl] .
  show "v \<le> 1"
  proof (cases "d = []")
    case True
    then show ?thesis using v by (simp add: softmax_def)
  next
    case False
    then have "t \<noteq> []" using l by auto
    then show ?thesis
      using sum_abs_diff_le [OF sl] softmax_nonneg softmax_sum [OF False] softmax_sum [of t] v by force
  qed
qed

text \<open>The TV distances of a plan are the rowwise total-variation distances whatever the chunk size;
  each lies between 0 and 1 and is 0 exactly when draft and target give the same distribution.\<close>

theorem tv_distances_sound:
  assumes "compute_full_vocab_tv_from_hidden is_linear trainable lm draft target c = Inr tvs" "0 < c" "i < length draft"
  shows "length tvs = length draft \<and> length target = length draft
    \<and> full_vocab_tv_distance (lm (draft ! i)) (lm (target ! i)) = Inr (tvs ! i)
    \<and> 0 \<le> tvs ! i \<and> tvs ! i \<le> 1 \<and> (tvs ! i = 0 \<longleftrightarrow> softmax (lm (draft ! i)) = softmax (lm (target ! i)))"
proof -
  have l: "length target = length draft" and
    r: "rmap (\<lambda>(d, t). full_vocab_tv_distance (lm d) (lm t)) (zip draft target) = Inr tvs"
    using assms by (auto simp: compute_full_vocab_tv_from_hidden_def chunked_rmap split: if_splits)
  have "full_vocab_tv_distance (lm (draft ! i)) (lm (target ! i)) = Inr (tvs ! i)"
    using rmap_nth [OF r, of i] l assms(3) by simp
  then show ?thesis using tv_row rmap_length [OF r] l by auto
qed

theorem tv_distances_sound_witness:
  "\<exists>tvs. compute_full_vocab_tv_from_hidden True True (\<lambda>h. [h, 0]) [1, 2] [1, 3] 1 = Inr tvs \<and> tvs ! 0 = 0 \<and> tvs ! 1 \<le> 1"
proof -
  have c: "0 < (1 :: nat)" by simp
  obtain tvs where r: "compute_full_vocab_tv_from_hidden True True (\<lambda>h. [h, 0]) [1, 2] [1, 3] 1 = Inr tvs"
    by (simp add: compute_full_vocab_tv_from_hidden_def chunked_rmap full_vocab_tv_distance_def)
  show ?thesis using tv_distances_sound [OF r c, of 0] tv_distances_sound [OF r c, of 1] r by simp
qed

subsection \<open>The rejected offsets of an anchor\<close>

definition offs_ok :: "int \<Rightarrow> by_offset \<Rightarrow> bool" where
  "offs_ok bs offs \<longleftrightarrow> distinct (map fst offs) \<and> (\<forall>off\<in>set (map fst offs). 1 \<le> off \<and> off < bs)
     \<and> (offs \<noteq> [] \<longrightarrow> sort (map fst offs) = [Min (set (map fst offs))..Max (set (map fst offs))])"

definition first_off :: "by_offset \<Rightarrow> int" where
  "first_off offs = Min (set (map fst offs))"

definition range_ok :: "int \<Rightarrow> by_offset \<Rightarrow> bool" where
  "range_ok bs offs \<longleftrightarrow> distinct (map fst offs) \<and> (\<forall>off\<in>set (map fst offs). 1 \<le> off \<and> off < bs)"

definition by_anchor_ok :: "int \<Rightarrow> by_anchor \<Rightarrow> bool" where
  "by_anchor_ok bs m \<longleftrightarrow> distinct (map fst m) \<and> (\<forall>(a, offs)\<in>set m. range_ok bs offs)"

lemma get_offsets_ok: "by_anchor_ok bs m \<Longrightarrow> range_ok bs (get_offsets m a)"
proof (cases "map_of m a")
  case (Some offs)
  assume "by_anchor_ok bs m"
  then show ?thesis using map_of_SomeD [OF Some] Some by (auto simp: by_anchor_ok_def get_offsets_def)
qed (simp add: get_offsets_def range_ok_def)

lemma range_ok_update:
  assumes "range_ok bs offs" "1 \<le> off" "off < bs"
  shows "range_ok bs (AList.update off tok offs)"
proof -
  have "fst ` set (AList.update off tok offs) = insert off (fst ` set offs)"
    using dom_update [of off tok offs] by simp
  then show ?thesis using assms distinct_update [of offs off tok] by (auto simp: range_ok_def)
qed

lemma by_anchor_ok_update:
  assumes "by_anchor_ok bs m" "range_ok bs offs"
  shows "by_anchor_ok bs (AList.update a offs m)"
proof -
  have d: "distinct (map fst m)" using assms(1) by (simp add: by_anchor_ok_def)
  have "range_ok bs o'" if "(x, o') \<in> set (AList.update a offs m)" for x o'
  proof -
    have "map_of (AList.update a offs m) x = Some o'" using that distinct_update [OF d] by (simp add: map_of_is_SomeI)
    then show ?thesis using assms d
      by (auto simp: update_conv by_anchor_ok_def split: if_splits dest!: map_of_SomeD)
  qed
  then show ?thesis using distinct_update [OF d] by (auto simp: by_anchor_ok_def)
qed

lemma add_rejected_ok:
  assumes "add_rejected bs p v m item = Inr m'" "by_anchor_ok bs m"
  shows "by_anchor_ok bs m'"
proof -
  obtain msk off tok ar where it: "item = (msk, off, tok, ar)" by (cases item)
  let ?a = "full_anchor_of p ar"
  have "m' = m \<or> 1 \<le> off \<and> off < bs \<and> m' = AList.update ?a (AList.update off tok (get_offsets m ?a)) m"
    using assms(1) by (auto simp: add_rejected_def it Let_def split: if_splits option.splits)
  then show ?thesis
    using assms(2) by_anchor_ok_update [OF assms(2) range_ok_update [OF get_offsets_ok [OF assms(2)]]] by auto
qed

lemma rejected_rows_ok: "rfold (add_rejected bs p v) [] items = Inr m \<Longrightarrow> by_anchor_ok bs m"
  by (erule rfold_invariant) (auto simp: by_anchor_ok_def [of bs "[]"] intro: add_rejected_ok)

lemma check_suffix_ok:
  assumes "rmap (check_suffix v) m = Inr u" "by_anchor_ok bs m"
  shows "offs_ok bs (get_offsets m a) \<and> (get_offsets m a \<noteq> [] \<longrightarrow> a + first_off (get_offsets m a) \<le> v)"
proof (cases "map_of m a")
  case None
  then show ?thesis by (simp add: get_offsets_def offs_ok_def)
next
  case (Some offs)
  then have in_m: "(a, offs) \<in> set m" by (rule map_of_SomeD)
  then have "\<exists>y. check_suffix v (a, offs) = Inr y" using assms(1)
    by (auto simp: rmap_eq_Inr list_all2_conv_all_nth in_set_conv_nth)
  then have eq: "sort (map fst offs) = [hd (sort (map fst offs))..last (sort (map fst offs))]"
    and row: "a + hd (sort (map fst offs)) \<le> v"
    by (auto simp: check_suffix_def Let_def split: if_splits)
  have r: "range_ok bs offs" using get_offsets_ok [OF assms(2), of a] Some by (simp add: get_offsets_def)
  have "sort (map fst offs) = [Min (set (map fst offs))..Max (set (map fst offs))] \<and> a + first_off offs \<le> v" if "offs \<noteq> []"
  proof -
    let ?s = "sort (map fst offs)"
    have ne: "?s \<noteq> []" using that by (metis length_0_conv length_map length_sort)
    then have le: "hd ?s \<le> last ?s" using eq by (metis upto_Nil2 not_le)
    have "set ?s = {hd ?s..last ?s}" using arg_cong [OF eq, of set] by simp
    then have "Min (set ?s) = hd ?s" "Max (set ?s) = last ?s" using le by (auto intro: Min_eqI Max_eqI)
    then show ?thesis using eq row by (simp add: first_off_def)
  qed
  then show ?thesis using r Some by (auto simp: offs_ok_def range_ok_def get_offsets_def)
qed

lemma hd_sort_Min:
  assumes "offs_ok bs offs" "offs \<noteq> []"
  shows "hd (sort (map fst offs)) = Min (set (map fst offs))" "sort (map fst offs) \<noteq> []"
proof -
  have "Min (set (map fst offs)) \<le> Max (set (map fst offs))" using assms(2) by simp
  then show "hd (sort (map fst offs)) = Min (set (map fst offs))" "sort (map fst offs) \<noteq> []"
    using assms unfolding offs_ok_def by (simp_all add: upto_rec1 del: set_map)
qed

text \<open>The selected offsets are the positions of the block up to the last rejected one, or the segment.\<close>

lemma selected_offsets:
  assumes "offs_ok bs offs" "seg \<le> bs - 1"
  shows "sorted_wrt (<) (selected_offsets_of ft offs seg)"
    "\<forall>off\<in>set (selected_offsets_of ft offs seg). 1 \<le> off \<and> off < bs"
proof -
  let ?s = "sort (map fst offs)"
  show "sorted_wrt (<) (selected_offsets_of ft offs seg)"
  proof (cases "offs = []")
    case False
    have s: "sorted_wrt (<) ?s" using assms(1) by (simp add: offs_ok_def strict_sorted_iff)
    have tk: "sorted_wrt (<) (if ft then take 1 ?s else ?s)" using s by (auto intro: sorted_wrt_take)
    have "\<forall>x\<in>set [1..hd ?s - 1]. \<forall>y\<in>set (if ft then take 1 ?s else ?s). x < y"
    proof (intro ballI)
      fix x y assume "x \<in> set [1..hd ?s - 1]" and y: "y \<in> set (if ft then take 1 ?s else ?s)"
      then have "x < hd ?s" by simp
      moreover have "y \<in> set ?s" using y by (auto split: if_splits dest: in_set_takeD)
      then have "hd ?s \<le> y" using s by (cases ?s) auto
      ultimately show "x < y" by simp
    qed
    with tk have "sorted_wrt (<) ([1..hd ?s - 1] @ (if ft then take 1 ?s else ?s))"
      unfolding sorted_wrt_append by (intro conjI sorted_wrt_upto)
    then show ?thesis using False unfolding selected_offsets_of_def Let_def by simp
  qed (simp add: selected_offsets_of_def)
  show "\<forall>off\<in>set (selected_offsets_of ft offs seg). 1 \<le> off \<and> off < bs"
  proof (cases "offs = []")
    case False
    then have "hd ?s \<in> set ?s" using hd_sort_Min(2) [OF assms(1)] by (intro hd_in_set) auto
    then have "hd ?s \<in> set (map fst offs)" by simp
    then have "hd ?s < bs" using assms(1) by (auto simp: offs_ok_def)
    moreover have "1 \<le> y \<and> y < bs" if "y \<in> set (if ft then take 1 ?s else ?s)" for y
    proof -
      from that have "y \<in> set ?s" by (auto split: if_splits dest: in_set_takeD)
      then show ?thesis using assms(1) by (auto simp: offs_ok_def)
    qed
    ultimately show ?thesis using False by (auto simp: selected_offsets_of_def Let_def simp del: set_sort)
  qed (use assms(2) in \<open>auto simp: selected_offsets_of_def\<close>)
qed

definition mk_pos :: "int \<Rightarrow> nat \<Rightarrow> nat \<Rightarrow> int \<Rightarrow> by_offset \<Rightarrow> nat \<Rightarrow> int \<Rightarrow> tv_pos" where
  "mk_pos bs b j full_anchor offs blk off = \<lparr>tp_batch = b, tp_draft = int j * bs + off,
     tp_row = (if is_later_reject offs off then -1 else full_anchor + off - 1), tp_block = blk, tp_offset = off\<rparr>"

lemma tv_anchor_cases:
  assumes "tv_anchor bs ft rejected valid s (b, j, keep, a, seg) = Inr s'"
    and o: "offs = get_offsets (rejected b) a" and sel: "sel = selected_offsets_of ft offs seg"
    and br: "br = branch_of ft b a offs (length (st_positions s)) sel"
  shows "\<not> keep \<and> s' = s
    \<or> keep \<and> (b, a) \<notin> set (st_seen s) \<and> st_seen s' = st_seen s @ [(b, a)]
      \<and> (if sel = [] then st_positions s' = st_positions s \<and> st_branches s' = st_branches s \<and> st_blocks s' = st_blocks s
         else st_positions s' = st_positions s @ map (mk_pos bs b j a offs (st_blocks s)) sel
           \<and> st_branches s' = st_branches s @ (case br of None \<Rightarrow> [] | Some x \<Rightarrow> [x]) \<and> st_blocks s' = st_blocks s + 1
           \<and> (\<forall>off\<in>set sel. (is_later_reject offs off \<or> a + off - 1 < valid b) \<and> (is_later_reject offs off \<longrightarrow> br \<noteq> None)))"
proof (cases "keep \<and> sel \<noteq> []")
  case True
  let ?f = "\<lambda>off. rbind (tv_position bs (valid b) b j a offs (st_blocks s) off) (\<lambda>p.
      if is_later_reject offs off \<and> br = None then Inl AssertionError else Inr p)"
  from assms(1) True obtain ps where ps: "rmap ?f sel = Inr ps" and n: "(b, a) \<notin> set (st_seen s)"
    and s': "s' = s\<lparr>st_seen := st_seen s @ [(b, a)], st_positions := st_positions s @ ps,
      st_branches := st_branches s @ (case br of None \<Rightarrow> [] | Some x \<Rightarrow> [x]), st_blocks := st_blocks s + 1\<rparr>"
    by (auto simp: tv_anchor_def Let_def o [symmetric] sel [symmetric] br [symmetric] rbind_eq_Inr split: if_splits)
  have f: "q = mk_pos bs b j a offs (st_blocks s) off \<and> (is_later_reject offs off \<or> a + off - 1 < valid b)
      \<and> (is_later_reject offs off \<longrightarrow> br \<noteq> None)" if "?f off = Inr q" for off q
    using that by (auto simp: tv_position_def mk_pos_def Let_def rbind_eq_Inr split: if_splits)
  have "list_all2 (\<lambda>off q. ?f off = Inr q) sel ps" using ps by (simp add: rmap_eq_Inr)
  then have "ps = map (mk_pos bs b j a offs (st_blocks s)) sel \<and> (\<forall>off\<in>set sel. (is_later_reject offs off \<or> a + off - 1 < valid b)
      \<and> (is_later_reject offs off \<longrightarrow> br \<noteq> None))"
    by (induction rule: list_all2_induct) (use f in auto)
  then show ?thesis using s' n True by auto
qed (use assms in \<open>auto simp: tv_anchor_def Let_def split: if_splits\<close>)

subsection \<open>Every speculative position appears once\<close>

definition pos_anchor :: "int list list \<Rightarrow> int \<Rightarrow> tv_pos \<Rightarrow> int" where
  "pos_anchor anchors bs p = anchors ! tp_batch p ! nat (tp_draft p div bs)"

definition pos_offs :: "(nat \<Rightarrow> by_anchor) \<Rightarrow> int list list \<Rightarrow> int \<Rightarrow> tv_pos \<Rightarrow> by_offset" where
  "pos_offs rejected anchors bs p = get_offsets (rejected (tp_batch p)) (pos_anchor anchors bs p)"

definition pos_key :: "tv_pos \<Rightarrow> nat \<times> int" where
  "pos_key p = (tp_batch p, tp_draft p)"

definition pos_ok :: "int \<Rightarrow> (nat \<Rightarrow> by_anchor) \<Rightarrow> (nat \<Rightarrow> int) \<Rightarrow> int list list \<Rightarrow> tv_pos \<Rightarrow> bool" where
  "pos_ok bs rejected valid anchors p \<longleftrightarrow> 1 \<le> tp_offset p \<and> tp_offset p < bs \<and> 0 \<le> tp_draft p
     \<and> tp_draft p mod bs = tp_offset p
     \<and> tp_row p = (if is_later_reject (pos_offs rejected anchors bs p) (tp_offset p) then -1
                   else pos_anchor anchors bs p + tp_offset p - 1)
     \<and> (is_later_reject (pos_offs rejected anchors bs p) (tp_offset p) \<or> tp_row p < valid (tp_batch p))"

definition tv_inv ::
  "int \<Rightarrow> (nat \<Rightarrow> by_anchor) \<Rightarrow> (nat \<Rightarrow> int) \<Rightarrow> int list list \<Rightarrow> (nat \<times> nat) list \<Rightarrow> tv_state \<Rightarrow> bool" where
  "tv_inv bs rejected valid anchors done s \<longleftrightarrow>
     (\<forall>p\<in>set (st_positions s). pos_ok bs rejected valid anchors p \<and> (tp_batch p, nat (tp_draft p div bs)) \<in> set done)
     \<and> distinct (map pos_key (st_positions s)) \<and> tp_block ` set (st_positions s) = {..<st_blocks s}
     \<and> sorted (map tp_block (st_positions s))"

lemma mk_pos_fields:
  assumes "1 \<le> off" "off < bs"
  shows "nat (tp_draft (mk_pos bs b j a offs blk off) div bs) = j" "tp_draft (mk_pos bs b j a offs blk off) mod bs = off"
    "0 \<le> tp_draft (mk_pos bs b j a offs blk off)"
proof -
  have "(int j * bs + off) div bs = int j" "(int j * bs + off) mod bs = off"
    using assms by (simp_all add: div_pos_pos_trivial mod_pos_pos_trivial)
  then show "nat (tp_draft (mk_pos bs b j a offs blk off) div bs) = j" "tp_draft (mk_pos bs b j a offs blk off) mod bs = off"
    by (simp_all add: mk_pos_def)
  show "0 \<le> tp_draft (mk_pos bs b j a offs blk off)" using assms by (simp add: mk_pos_def)
qed

lemma mk_pos_ok:
  assumes "1 \<le> off" "off < bs" "a = anchors ! b ! j" "offs = get_offsets (rejected b) a"
    "is_later_reject offs off \<or> a + off - 1 < valid b"
  shows "pos_ok bs rejected valid anchors (mk_pos bs b j a offs blk off)
    \<and> pos_anchor anchors bs (mk_pos bs b j a offs blk off) = a
    \<and> pos_offs rejected anchors bs (mk_pos bs b j a offs blk off) = offs"
proof -
  let ?p = "mk_pos bs b j a offs blk off"
  note f = mk_pos_fields [OF assms(1,2), of b j a offs blk]
  have b: "tp_batch ?p = b" "tp_offset ?p = off" by (simp_all add: mk_pos_def)
  have a: "pos_anchor anchors bs ?p = a" using f(1) b(1) assms(3) by (simp add: pos_anchor_def)
  have o: "pos_offs rejected anchors bs ?p = offs" using a b(1) assms(4) by (simp add: pos_offs_def)
  have "tp_row ?p = (if is_later_reject offs off then -1 else a + off - 1)" by (simp add: mk_pos_def)
  then show ?thesis unfolding pos_ok_def a o b using f assms(1,2,5) by auto
qed

lemma tv_inv_step:
  assumes inv: "tv_inv bs rejected valid anchors done s"
    and run: "tv_anchor bs ft rejected valid s (b, j, keep, anchors ! b ! j, seg) = Inr s'"
    and new: "(b, j) \<notin> set done" and offs: "offs_ok bs (get_offsets (rejected b) (anchors ! b ! j))" and seg: "seg \<le> bs - 1"
  shows "tv_inv bs rejected valid anchors (done @ [(b, j)]) s'"
proof -
  define a where "a = anchors ! b ! j"
  define o' where "o' = get_offsets (rejected b) a"
  define sel where "sel = selected_offsets_of ft o' seg"
  have ok: "offs_ok bs o'" using offs by (simp add: o'_def a_def)
  note so = selected_offsets [OF ok seg, of ft, folded sel_def]
  have mono: "tv_inv bs rejected valid anchors (done @ [(b, j)]) s" using inv by (auto simp: tv_inv_def)
  let ?mk = "mk_pos bs b j a o' (st_blocks s)"
  from tv_anchor_cases [OF run [folded a_def] o'_def sel_def refl]
  consider "s' = s" | "st_positions s' = st_positions s" "st_blocks s' = st_blocks s"
    | "st_positions s' = st_positions s @ map ?mk sel" "st_blocks s' = st_blocks s + 1" "sel \<noteq> []"
      "\<forall>off\<in>set sel. is_later_reject o' off \<or> a + off - 1 < valid b"
    by (auto split: if_splits)
  then show ?thesis
  proof cases
    case 3
    have mk: "pos_ok bs rejected valid anchors (?mk off) \<and> nat (tp_draft (?mk off) div bs) = j" if "off \<in> set sel" for off
      using that so(2) 3(4) mk_pos_ok [where anchors = anchors and rejected = rejected and valid = valid, OF _ _ a_def o'_def]
        mk_pos_fields(1) by blast
    have key: "pos_key (?mk off) = (b, int j * bs + off)" for off by (simp add: pos_key_def mk_pos_def)
    have dn: "distinct (map pos_key (map ?mk sel))"
      using so(1) by (simp add: comp_def key distinct_map strict_sorted_iff inj_on_def)
    have sep: "pos_key p \<noteq> pos_key (?mk off)" if p: "p \<in> set (st_positions s)" and off: "off \<in> set sel" for p off
    proof
      assume e: "pos_key p = pos_key (?mk off)"
      have "(tp_batch p, nat (tp_draft p div bs)) \<in> set done" using inv p by (auto simp: tv_inv_def)
      moreover have "tp_batch p = b" "tp_draft p = tp_draft (?mk off)" using e by (auto simp: pos_key_def mk_pos_def)
      ultimately show False using new mk [OF off] by simp
    qed
    have bl: "tp_block (?mk off) = st_blocks s" for off by (simp add: mk_pos_def)
    have blocks: "tp_block ` set (st_positions s') = {..<st_blocks s'}"
      using inv 3 bl by (auto simp: tv_inv_def image_Un image_image image_constant_conv lessThan_Suc)
    have "sorted (map tp_block (st_positions s'))"
      using inv 3 bl by (auto simp: tv_inv_def sorted_append comp_def map_replicate_const dest!: equalityD1)
    moreover have "set (map pos_key (st_positions s)) \<inter> set (map pos_key (map ?mk sel)) = {}" using sep by force
    then have "distinct (map pos_key (st_positions s'))" using inv dn 3(1) by (simp add: tv_inv_def)
    moreover have "\<forall>p\<in>set (st_positions s'). pos_ok bs rejected valid anchors p
        \<and> (tp_batch p, nat (tp_draft p div bs)) \<in> set (done @ [(b, j)])"
      using mono mk 3 by (auto simp: tv_inv_def mk_pos_def)
    ultimately show ?thesis using blocks by (simp add: tv_inv_def)
  qed (use mono in \<open>auto simp: tv_inv_def\<close>)
qed

lemma tv_anchors_inv:
  assumes "rfold (tv_anchor bs ft rejected valid) s0 items = Inr s"
    and s0: "s0 = \<lparr>st_positions = [], st_branches = [], st_seen = [], st_blocks = 0\<rparr>"
    and "distinct (map (\<lambda>(b, j, _). (b, j)) items)"
    and "\<forall>(b, j, keep, a, seg)\<in>set items. a = anchors ! b ! j \<and> seg \<le> bs - 1"
    and offs: "\<forall>(b, j, _)\<in>set items. offs_ok bs (get_offsets (rejected b) (anchors ! b ! j))"
  shows "tv_inv bs rejected valid anchors (map (\<lambda>(b, j, _). (b, j)) items) s"
  using assms(1,3,4,5)
proof (induction items arbitrary: s rule: rev_induct)
  case Nil
  then show ?case by (auto simp: tv_inv_def s0)
next
  case (snoc x items)
  obtain b j keep a seg where x: "x = (b, j, keep, a, seg)" by (metis surj_pair)
  from snoc.prems(1) obtain s1 where s1: "rfold (tv_anchor bs ft rejected valid) s0 items = Inr s1"
    and step: "tv_anchor bs ft rejected valid s1 x = Inr s" by (auto simp: rfold_append rbind_eq_Inr)
  have "tv_inv bs rejected valid anchors (map (\<lambda>(b, j, _). (b, j)) items) s1"
    using snoc.prems by (intro snoc.IH [OF s1]) auto
  moreover have "a = anchors ! b ! j" "seg \<le> bs - 1" "offs_ok bs (get_offsets (rejected b) (anchors ! b ! j))"
    "(b, j) \<notin> set (map (\<lambda>(b, j, _). (b, j)) items)" using snoc.prems by (auto simp: x)
  ultimately show ?case using tv_inv_step step unfolding x by auto
qed

lemma distinct_tagged: "distinct xs \<Longrightarrow> \<forall>x\<in>set xs. distinct (f x) \<Longrightarrow> distinct (concat (map (\<lambda>x. map (Pair x) (f x)) xs))"
  by (induction xs) (auto simp: distinct_map inj_on_def)

lemma mem_tagged: "(x, y) \<in> set (concat (map (\<lambda>x. map (Pair x) (f x)) xs)) \<longleftrightarrow> x \<in> set xs \<and> y \<in> set (f x)"
  by auto

lemma plan_anchors_distinct: "distinct (map (\<lambda>(b, j, _). (b, j)) (plan_anchors anchors segs keep))"
proof -
  have "map (\<lambda>(b, j, _). (b, j)) (plan_anchors anchors segs keep)
      = concat (map (\<lambda>b. map (Pair b) [0..<length (anchors ! b)]) [0..<length anchors])"
    by (simp add: plan_anchors_def map_concat comp_def)
  then show ?thesis using distinct_tagged [of "[0..<length anchors]" "\<lambda>b. [0..<length (anchors ! b)]"] by simp
qed

lemma plan_anchors_items:
  assumes "(b, j, k, a, seg) \<in> set (plan_anchors anchors segs keep)"
  shows "b < length anchors" "j < length (anchors ! b)" "a = anchors ! b ! j" "seg = segs ! b ! j" "k = keep ! b ! j"
  using assms by (auto simp: plan_anchors_def)

text \<open>The by-anchor maps of a batch, as the plan computes them.\<close>

definition tv_rejected :: "int list \<Rightarrow> int list \<Rightarrow> int \<Rightarrow> rejected_meta \<Rightarrow> nat \<Rightarrow> by_anchor" where
  "tv_rejected ps valid_lens bs rej b =
     (case rfold (add_rejected bs (ps ! b) (valid_lens ! b)) [] (tv_rejected_items rej b) of Inr m \<Rightarrow> m | Inl _ \<Rightarrow> [])"

definition segs_ok :: "int \<Rightarrow> int list list \<Rightarrow> int list list \<Rightarrow> bool" where
  "segs_ok bs anchors segs \<longleftrightarrow> (\<forall>b<length anchors. \<forall>j<length (anchors ! b). segs ! b ! j \<le> bs - 1)"

lemma tv_plan_state:
  assumes "build_tv_position_plan ps anchors segs keep valid_lens bs rej ft = Inr plan" "length ps = length anchors"
    "segs_ok bs anchors segs"
  obtains s where "tv_inv bs (tv_rejected ps valid_lens bs rej) (\<lambda>b. valid_lens ! b) anchors
      (map (\<lambda>(b, j, _). (b, j)) (plan_anchors anchors segs keep)) s"
    "rfold (tv_anchor bs ft (tv_rejected ps valid_lens bs rej) (\<lambda>b. valid_lens ! b))
      \<lparr>st_positions = [], st_branches = [], st_seen = [], st_blocks = 0\<rparr> (plan_anchors anchors segs keep) = Inr s"
    "plan = \<lparr>tv_positions = st_positions s, tv_branches = st_branches s, tv_block_count = st_blocks s\<rparr>"
    "\<forall>b<length anchors. \<forall>a. offs_ok bs (get_offsets (tv_rejected ps valid_lens bs rej b) a)
      \<and> (get_offsets (tv_rejected ps valid_lens bs rej b) a \<noteq> []
         \<longrightarrow> a + first_off (get_offsets (tv_rejected ps valid_lens bs rej b) a) \<le> valid_lens ! b)"
proof -
  let ?rej = "tv_rejected ps valid_lens bs rej"
  from assms(1) obtain rejected u s where
    r: "rmap (\<lambda>b. rfold (add_rejected bs (ps ! b) (valid_lens ! b)) [] (tv_rejected_items rej b)) [0..<length ps] = Inr rejected"
    and c: "rmap (\<lambda>b. rmap (check_suffix (valid_lens ! b)) (rejected ! b)) [0..<length ps] = Inr u"
    and s: "rfold (tv_anchor bs ft (\<lambda>b. rejected ! b) (\<lambda>b. valid_lens ! b))
      \<lparr>st_positions = [], st_branches = [], st_seen = [], st_blocks = 0\<rparr> (plan_anchors anchors segs keep) = Inr s"
    and plan: "plan = \<lparr>tv_positions = st_positions s, tv_branches = st_branches s, tv_block_count = st_blocks s\<rparr>"
    unfolding build_tv_position_plan_def by (auto simp: rbind_eq_Inr)
  have eq: "rejected ! b = ?rej b" if "b < length anchors" for b
    using rmap_nth [OF r, of b] that assms(2) by (simp add: tv_rejected_def)
  have ok: "offs_ok bs (get_offsets (?rej b) a) \<and> (get_offsets (?rej b) a \<noteq> []
      \<longrightarrow> a + first_off (get_offsets (?rej b) a) \<le> valid_lens ! b)" if b: "b < length anchors" for b a
  proof -
    have "by_anchor_ok bs (?rej b)" using rmap_nth [OF r, of b] b assms(2) rejected_rows_ok by (simp add: tv_rejected_def)
    then show ?thesis using rmap_nth [OF c, of b] b assms(2) check_suffix_ok [of "valid_lens ! b" "?rej b"] by (simp add: eq)
  qed
  have cong: "rfold (tv_anchor bs ft (\<lambda>b. rejected ! b) v) st items = rfold (tv_anchor bs ft ?rej v) st items"
    if "\<forall>x\<in>set items. fst x < length anchors" for v st items
    using that by (induction items arbitrary: st) (auto simp: tv_anchor_def eq intro!: arg_cong2 [where f = rbind])
  have run: "rfold (tv_anchor bs ft ?rej (\<lambda>b. valid_lens ! b))
      \<lparr>st_positions = [], st_branches = [], st_seen = [], st_blocks = 0\<rparr> (plan_anchors anchors segs keep) = Inr s"
    using s cong [of "plan_anchors anchors segs keep"] plan_anchors_items(1) by fastforce
  have "tv_inv bs ?rej (\<lambda>b. valid_lens ! b) anchors (map (\<lambda>(b, j, _). (b, j)) (plan_anchors anchors segs keep)) s"
  proof (rule tv_anchors_inv [OF run refl plan_anchors_distinct])
    show "\<forall>(b, j, k, a, seg)\<in>set (plan_anchors anchors segs keep). a = anchors ! b ! j \<and> seg \<le> bs - 1"
    proof clarify
      fix b j k a seg assume m: "(b, j, k, a, seg) \<in> set (plan_anchors anchors segs keep)"
      show "a = anchors ! b ! j \<and> seg \<le> bs - 1" using plan_anchors_items [OF m] assms(3) by (simp add: segs_ok_def)
    qed
    show "\<forall>(b, j, _)\<in>set (plan_anchors anchors segs keep). offs_ok bs (get_offsets (?rej b) (anchors ! b ! j))"
      using ok by (auto dest: plan_anchors_items(1))
  qed
  then show ?thesis using that run plan ok by blast
qed

subsection \<open>The plan is complete\<close>

text \<open>The speculative length of a block: with rejected drafts, up to the last rejected offset (the first one with first-token filtering);
  otherwise the length of the segment. The rejected offsets of a block are read off the metadata.\<close>

definition block_len :: "bool \<Rightarrow> int set \<Rightarrow> int \<Rightarrow> int" where
  "block_len ft R seg = (if R = {} then seg else if ft then Min R else Max R)"

definition reject_offsets :: "int \<Rightarrow> (bool \<times> int \<times> int \<times> int) list \<Rightarrow> int \<Rightarrow> int set" where
  "reject_offsets p items a = (\<lambda>(m, off, tok, ar). off) ` set (filter (\<lambda>(m, off, tok, ar). m \<and> full_anchor_of p ar = a) items)"

lemma selected_set:
  assumes "offs_ok bs offs"
  shows "set (selected_offsets_of ft offs seg) = {1..block_len ft (set (map fst offs)) seg}"
proof (cases "offs = []")
  case False
  define R lo hi where "R = set (map fst offs)" and "lo = Min R" and "hi = Max R"
  have R: "finite R" "R \<noteq> {}" using False by (simp_all add: R_def)
  have mn: "lo \<in> R" "lo \<le> hi" unfolding lo_def hi_def using Min_in [OF R] Max_ge [OF R(1) Min_in [OF R]] by auto
  then have one: "1 \<le> lo" using assms unfolding offs_ok_def R_def by blast
  have srt: "sort (map fst offs) = [lo..hi]" using assms False unfolding offs_ok_def lo_def hi_def R_def by blast
  have hd: "hd [lo..hi] = lo" "take 1 [lo..hi] = [lo]" using mn(2) by (simp_all add: upto_rec1)
  have "set (selected_offsets_of ft offs seg) = {1..lo - 1} \<union> (if ft then {lo} else {lo..hi})"
    using False unfolding selected_offsets_of_def Let_def srt hd by simp
  also have "\<dots> = {1..if ft then lo else hi}" using one mn(2) by auto
  also have "(if ft then lo else hi) = block_len ft R seg" using R(2) by (simp add: block_len_def lo_def hi_def)
  finally show ?thesis by (simp add: R_def)
qed (simp add: selected_offsets_of_def block_len_def)

lemma tv_keys:
  assumes "rfold (tv_anchor bs ft rejected valid) \<lparr>st_positions = [], st_branches = [], st_seen = [], st_blocks = 0\<rparr> items = Inr s"
  shows "pos_key ` set (st_positions s)
    = (\<Union>(b, j, keep, a, seg)\<in>set items. if keep then (\<lambda>off. (b, int j * bs + off)) ` set (selected_offsets_of ft (get_offsets (rejected b) a) seg) else {})"
  using assms
proof (induction items arbitrary: s rule: rev_induct)
  case (snoc x items)
  obtain b j keep a seg where x: "x = (b, j, keep, a, seg)" by (metis surj_pair)
  from snoc.prems obtain s1 where s1: "rfold (tv_anchor bs ft rejected valid) \<lparr>st_positions = [], st_branches = [], st_seen = [], st_blocks = 0\<rparr> items = Inr s1"
    and step: "tv_anchor bs ft rejected valid s1 (b, j, keep, a, seg) = Inr s" by (auto simp: rfold_append rbind_eq_Inr x)
  let ?sel = "selected_offsets_of ft (get_offsets (rejected b) a) seg"
  have "pos_key ` set (st_positions s) = pos_key ` set (st_positions s1) \<union> (if keep then (\<lambda>off. (b, int j * bs + off)) ` set ?sel else {})"
    using tv_anchor_cases [OF step refl refl refl] by (auto simp: pos_key_def mk_pos_def image_Un image_image split: if_splits)
  then show ?case unfolding snoc.IH [OF s1] x by (simp add: Un_commute)
qed simp

lemma offsets_of_metadata:
  "rfold (add_rejected bs p v) m items = Inr m' \<Longrightarrow> set (map fst (get_offsets m' a)) = set (map fst (get_offsets m a)) \<union> reject_offsets p items a"
proof (induction items arbitrary: m)
  case (Cons x items)
  obtain msk off tok ar where x: "x = (msk, off, tok, ar)" by (metis surj_pair)
  from Cons.prems obtain m1 where m1: "add_rejected bs p v m x = Inr m1" "rfold (add_rejected bs p v) m1 items = Inr m'" by (auto simp: rbind_eq_Inr)
  have upd: "get_offsets (AList.update k (AList.update off tok o') m) a = (if a = k then AList.update off tok o' else get_offsets m a)" for k o'
    by (simp add: get_offsets_def update_conv)
  have "m1 = (if msk then AList.update (full_anchor_of p ar) (AList.update off tok (get_offsets m (full_anchor_of p ar))) m else m)"
    using m1(1) by (auto simp: add_rejected_def x Let_def split: if_splits option.splits)
  then have "set (map fst (get_offsets m1 a)) = set (map fst (get_offsets m a)) \<union> (if msk \<and> full_anchor_of p ar = a then {off} else {})"
    using upd [of "full_anchor_of p ar"] dom_update [of off tok "get_offsets m a"] by (cases msk; cases "full_anchor_of p ar = a") simp_all
  then show ?case unfolding Cons.IH [OF m1(2)] by (auto simp: reject_offsets_def x)
qed (simp add: reject_offsets_def)

lemma tv_rejected_offsets:
  assumes "build_tv_position_plan ps anchors segs keep valid_lens bs rej ft = Inr plan" "b < length ps"
  shows "set (map fst (get_offsets (tv_rejected ps valid_lens bs rej b) a)) = reject_offsets (ps ! b) (tv_rejected_items rej b) a"
proof -
  obtain rejected where "rmap (\<lambda>b. rfold (add_rejected bs (ps ! b) (valid_lens ! b)) [] (tv_rejected_items rej b)) [0..<length ps] = Inr rejected"
    using assms(1) by (auto simp: build_tv_position_plan_def rbind_eq_Inr)
  then have r: "rfold (add_rejected bs (ps ! b) (valid_lens ! b)) [] (tv_rejected_items rej b) = Inr (rejected ! b)"
    using rmap_nth assms(2) by fastforce
  from offsets_of_metadata [OF r, of a] show ?thesis by (simp add: tv_rejected_def r get_offsets_def)
qed

text \<open>The entries of a block share its number, and the entries of different blocks have different numbers.\<close>

lemma tv_block_groups:
  assumes "rfold (tv_anchor bs ft rejected valid) \<lparr>st_positions = [], st_branches = [], st_seen = [], st_blocks = 0\<rparr> items = Inr s"
    and "distinct (map (\<lambda>(b, j, _). (b, j)) items)"
    and "\<forall>(b, j, keep, a, seg)\<in>set items. a = anchors ! b ! j \<and> seg \<le> bs - 1"
    and "\<forall>(b, j, _)\<in>set items. offs_ok bs (get_offsets (rejected b) (anchors ! b ! j))"
  shows "\<forall>p\<in>set (st_positions s). \<forall>q\<in>set (st_positions s). tp_block p = tp_block q
    \<longleftrightarrow> tp_batch p = tp_batch q \<and> nat (tp_draft p div bs) = nat (tp_draft q div bs)"
  using assms
proof (induction items arbitrary: s rule: rev_induct)
  case (snoc x items)
  obtain b j keep a seg where x: "x = (b, j, keep, a, seg)" by (metis surj_pair)
  from snoc.prems(1) obtain s1 where s1: "rfold (tv_anchor bs ft rejected valid) \<lparr>st_positions = [], st_branches = [], st_seen = [], st_blocks = 0\<rparr> items = Inr s1"
    and step: "tv_anchor bs ft rejected valid s1 (b, j, keep, a, seg) = Inr s" by (auto simp: rfold_append rbind_eq_Inr x)
  have d: "distinct (map (\<lambda>(b, j, _). (b, j)) items)" "\<forall>(b, j, keep, a, seg)\<in>set items. a = anchors ! b ! j \<and> seg \<le> bs - 1"
    "\<forall>(b, j, _)\<in>set items. offs_ok bs (get_offsets (rejected b) (anchors ! b ! j))"
    and new: "(b, j) \<notin> set (map (\<lambda>(b, j, _). (b, j)) items)" "a = anchors ! b ! j" "seg \<le> bs - 1" "offs_ok bs (get_offsets (rejected b) a)"
    using snoc.prems(2-4) by (auto simp: x)
  have inv: "tv_inv bs rejected valid anchors (map (\<lambda>(b, j, _). (b, j)) items) s1" by (rule tv_anchors_inv [OF s1 refl d])
  note ih = snoc.IH [OF s1 d]
  define sel where "sel = selected_offsets_of ft (get_offsets (rejected b) a) seg"
  let ?mk = "mk_pos bs b j a (get_offsets (rejected b) a) (st_blocks s1)"
  have old: "tp_block p < st_blocks s1 \<and> (tp_batch p, nat (tp_draft p div bs)) \<noteq> (b, j)" if "p \<in> set (st_positions s1)" for p
    using inv that new(1) by (force simp: tv_inv_def)
  have mk: "tp_block (?mk off) = st_blocks s1 \<and> tp_batch (?mk off) = b \<and> nat (tp_draft (?mk off) div bs) = j" if "off \<in> set sel" for off
  proof -
    have "1 \<le> off" "off < bs" using selected_offsets(2) [OF new(4,3), of ft] that by (simp_all add: sel_def)
    from mk_pos_fields(1) [OF this] show ?thesis by (simp add: mk_pos_def)
  qed
  from tv_anchor_cases [OF step refl sel_def refl]
  consider "st_positions s = st_positions s1" | "st_positions s = st_positions s1 @ map ?mk sel" by (auto split: if_splits)
  then show ?case
  proof cases
    case 2
    have "tp_block p = tp_block q \<longleftrightarrow> tp_batch p = tp_batch q \<and> nat (tp_draft p div bs) = nat (tp_draft q div bs)"
      if "p \<in> set (st_positions s1) \<union> ?mk ` set sel" "q \<in> set (st_positions s1) \<union> ?mk ` set sel" for p q
      using that
    proof (elim UnE)
      assume "p \<in> set (st_positions s1)" "q \<in> set (st_positions s1)"
      then show ?thesis using ih by blast
    next
      assume "p \<in> set (st_positions s1)" "q \<in> ?mk ` set sel"
      then show ?thesis using old [of p] mk by auto
    next
      assume "p \<in> ?mk ` set sel" "q \<in> set (st_positions s1)"
      then show ?thesis using old [of q] mk by auto
    next
      assume "p \<in> ?mk ` set sel" "q \<in> ?mk ` set sel"
      then show ?thesis using mk by auto
    qed
    then show ?thesis using 2 by simp
  qed (use ih in simp)
qed simp

text \<open>C15 A TV plan lists every speculative position of every kept block exactly once and nothing else: the sample and draft indices
  of its entries are pairwise different, and they are those of the offsets from 1 up to the length of each kept block, which is the last
  (with first-token filtering, the first) rejected offset of its anchor in the metadata, or the segment length when it has none. Each
  draft index lies inside the rows of its sample, each entry predicts an offset of its anchor and, when it is scored on
  the target trajectory, points to a row inside the sequence; two entries share a block number exactly when they belong to the same
  block; and block numbers run without gaps from 0, so the block losses are always defined.\<close>

theorem tv_plan_positions:
  assumes "build_tv_position_plan ps anchors segs keep valid_lens bs rej ft = Inr plan" "length ps = length anchors"
    "segs_ok bs anchors segs"
  shows "distinct (map pos_key (tv_positions plan))
    \<and> pos_key ` set (tv_positions plan) = {(b, int j * bs + off) | b j off. b < length anchors \<and> j < length (anchors ! b) \<and> keep ! b ! j
        \<and> 1 \<le> off \<and> off \<le> block_len ft (reject_offsets (ps ! b) (tv_rejected_items rej b) (anchors ! b ! j)) (segs ! b ! j)}
    \<and> (\<forall>p\<in>set (tv_positions plan). pos_ok bs (tv_rejected ps valid_lens bs rej) (\<lambda>b. valid_lens ! b) anchors p
        \<and> tp_draft p < int (length (anchors ! tp_batch p)) * bs)
    \<and> (\<forall>p\<in>set (tv_positions plan). \<forall>q\<in>set (tv_positions plan). tp_block p = tp_block q
        \<longleftrightarrow> tp_batch p = tp_batch q \<and> nat (tp_draft p div bs) = nat (tp_draft q div bs))
    \<and> sorted (map tp_block (tv_positions plan))
    \<and> (length tvs = length (tv_positions plan) \<longrightarrow>
        (\<exists>outs. compute_e2e_tv_block_outputs tvs (map tp_block (tv_positions plan)) (tv_block_count plan) = Inr outs))"
proof -
  let ?rej = "tv_rejected ps valid_lens bs rej" and ?items = "plan_anchors anchors segs keep"
  obtain s where inv: "tv_inv bs ?rej (\<lambda>b. valid_lens ! b) anchors (map (\<lambda>(b, j, _). (b, j)) ?items) s"
    and run: "rfold (tv_anchor bs ft ?rej (\<lambda>b. valid_lens ! b)) \<lparr>st_positions = [], st_branches = [], st_seen = [], st_blocks = 0\<rparr> ?items = Inr s"
    and plan: "plan = \<lparr>tv_positions = st_positions s, tv_branches = st_branches s, tv_block_count = st_blocks s\<rparr>"
    and ok: "\<forall>b<length anchors. \<forall>a. offs_ok bs (get_offsets (?rej b) a) \<and> (get_offsets (?rej b) a \<noteq> []
         \<longrightarrow> a + first_off (get_offsets (?rej b) a) \<le> valid_lens ! b)"
    by (rule tv_plan_state [OF assms])
  have item: "(b, j, True, a, seg) \<in> set ?items \<longleftrightarrow> b < length anchors \<and> j < length (anchors ! b) \<and> keep ! b ! j \<and> a = anchors ! b ! j \<and> seg = segs ! b ! j"
    for b j a seg by (force simp: plan_anchors_def)
  have sel: "set (selected_offsets_of ft (get_offsets (?rej b) a) seg) = {1..block_len ft (reject_offsets (ps ! b) (tv_rejected_items rej b) a) seg}"
    if "b < length anchors" for b a seg
    using selected_set ok that tv_rejected_offsets [OF assms(1), of b a] assms(2) by metis
  have keys: "pos_key ` set (st_positions s) = {(b, int j * bs + off) | b j off. b < length anchors \<and> j < length (anchors ! b) \<and> keep ! b ! j
        \<and> 1 \<le> off \<and> off \<le> block_len ft (reject_offsets (ps ! b) (tv_rejected_items rej b) (anchors ! b ! j)) (segs ! b ! j)}"
  proof (intro equalityI subsetI)
    fix k assume "k \<in> pos_key ` set (st_positions s)"
    then obtain b j a seg off where "(b, j, True, a, seg) \<in> set ?items" "off \<in> set (selected_offsets_of ft (get_offsets (?rej b) a) seg)"
      "k = (b, int j * bs + off)" unfolding tv_keys [OF run] by (auto split: if_splits)
    then show "k \<in> {(b, int j * bs + off) | b j off. b < length anchors \<and> j < length (anchors ! b) \<and> keep ! b ! j
        \<and> 1 \<le> off \<and> off \<le> block_len ft (reject_offsets (ps ! b) (tv_rejected_items rej b) (anchors ! b ! j)) (segs ! b ! j)}"
      unfolding item using sel by auto
  next
    fix k assume "k \<in> {(b, int j * bs + off) | b j off. b < length anchors \<and> j < length (anchors ! b) \<and> keep ! b ! j
        \<and> 1 \<le> off \<and> off \<le> block_len ft (reject_offsets (ps ! b) (tv_rejected_items rej b) (anchors ! b ! j)) (segs ! b ! j)}"
    then obtain b j off where k: "k = (b, int j * bs + off)" "b < length anchors" "j < length (anchors ! b)" "keep ! b ! j"
      "off \<in> set (selected_offsets_of ft (get_offsets (?rej b) (anchors ! b ! j)) (segs ! b ! j))" using sel by auto
    have "(b, j, True, anchors ! b ! j, segs ! b ! j) \<in> set ?items" using k(2-4) by (simp add: item)
    then show "k \<in> pos_key ` set (st_positions s)" unfolding tv_keys [OF run] k(1) using k(5) by (intro UN_I) auto
  qed
  have items: "\<forall>(b, j, k, a, seg)\<in>set ?items. a = anchors ! b ! j \<and> seg \<le> bs - 1"
    "\<forall>(b, j, _)\<in>set ?items. offs_ok bs (get_offsets (?rej b) (anchors ! b ! j))"
    using assms(3) ok by (auto simp: plan_anchors_def segs_ok_def)
  note groups = tv_block_groups [OF run plan_anchors_distinct items]
  have bound: "tp_draft p < int (length (anchors ! tp_batch p)) * bs" if p: "p \<in> set (st_positions s)" for p
  proof -
    have m: "tp_draft p mod bs = tp_offset p" "tp_offset p < bs" "1 \<le> tp_offset p" "0 \<le> tp_draft p"
      "(tp_batch p, nat (tp_draft p div bs)) \<in> set (map (\<lambda>(b, j, _). (b, j)) ?items)" using inv p by (auto simp: tv_inv_def pos_ok_def)
    then have "nat (tp_draft p div bs) < length (anchors ! tp_batch p)" by (auto simp: plan_anchors_def)
    then have "tp_draft p div bs < int (length (anchors ! tp_batch p))" using m by (simp add: nat_less_iff pos_imp_zdiv_nonneg_iff)
    then have "tp_draft p div bs + 1 \<le> int (length (anchors ! tp_batch p))" by simp
    then have "(tp_draft p div bs + 1) * bs \<le> int (length (anchors ! tp_batch p)) * bs" using m(2,3) by (intro mult_right_mono) simp_all
    moreover have "tp_draft p = tp_draft p div bs * bs + tp_draft p mod bs" by simp
    ultimately show ?thesis using m(1,2) by (simp add: distrib_right)
  qed
  have "\<exists>outs. compute_e2e_tv_block_outputs tvs (map tp_block (tv_positions plan)) (tv_block_count plan) = Inr outs"
    if l: "length tvs = length (tv_positions plan)"
    unfolding compute_e2e_tv_block_outputs_def
  proof (rule rmap_total)
    fix k assume "k \<in> set [0..<tv_block_count plan]"
    then have "k \<in> tp_block ` set (tv_positions plan)" using inv by (simp add: plan tv_inv_def)
    then obtain i where i: "i < length (tv_positions plan)" "tp_block (tv_positions plan ! i) = k"
      by (metis imageE in_set_conv_nth)
    let ?m = "map (\<lambda>i. i = k) (map tp_block (tv_positions plan))"
    have "length (select ?m tvs) = count_list ?m True" using l by (simp add: length_select)
    moreover have "?m ! i = True" "i < length ?m" using i by simp_all
    then have "True \<in> set ?m" by (metis nth_mem)
    then have "count_list ?m True \<noteq> 0" by (simp only: count_list_0_iff not_not)
    ultimately have "select ?m tvs \<noteq> []" by auto
    then show "\<exists>y. e2e_block (select ?m tvs) = Inr y" by (simp add: e2e_block_def Let_def)
  qed
  then show ?thesis using inv keys bound groups by (simp add: plan tv_inv_def)
qed

definition example_rejected :: rejected_meta where
  "example_rejected = \<lparr>rd_anchors = Some [[0, 0]], rd_offsets = Some [[2, 3]], rd_tokens = Some [[8, 9]],
     rd_teacher = Some [[0, 0]], rd_mask = Some [[True, True]]\<rparr>"

lemma example_tv_plan:
  "build_tv_position_plan [3] [[2, 3]] [[1, 2]] [[True, True]] [8] 4 example_rejected False = Inr
     \<lparr>tv_positions = [\<lparr>tp_batch = 0, tp_draft = 1, tp_row = 2, tp_block = 0, tp_offset = 1\<rparr>,
        \<lparr>tp_batch = 0, tp_draft = 5, tp_row = 3, tp_block = 1, tp_offset = 1\<rparr>,
        \<lparr>tp_batch = 0, tp_draft = 6, tp_row = 4, tp_block = 1, tp_offset = 2\<rparr>,
        \<lparr>tp_batch = 0, tp_draft = 7, tp_row = -1, tp_block = 1, tp_offset = 3\<rparr>],
      tv_branches = [\<lparr>br_sample = 0, br_anchor = 3, br_first = 2, br_tokens = [8, 9], br_flat = [3], br_suffix = [1]\<rparr>],
      tv_block_count = 2\<rparr>"
  by code_simp

theorem tv_plan_positions_witness:
  "\<exists>plan outs. build_tv_position_plan [3] [[2, 3]] [[1, 2]] [[True, True]] [8] 4 example_rejected False = Inr plan
     \<and> distinct (map pos_key (tv_positions plan))
     \<and> compute_e2e_tv_block_outputs [0, 0, 1, 1] (map tp_block (tv_positions plan)) (tv_block_count plan) = Inr outs"
proof -
  have sg: "segs_ok 4 [[2, 3]] [[1, 2]]" by (simp add: segs_ok_def less_Suc_eq nth_Cons')
  show ?thesis using tv_plan_positions [OF example_tv_plan _ sg, of "[0, 0, 1, 1]"] example_tv_plan by auto
qed

subsection \<open>The teacher sees the context the draft saw\<close>

definition rejected_tokens :: "by_offset \<Rightarrow> int list" where
  "rejected_tokens offs = map (\<lambda>off. the (map_of offs off)) (sort (map fst offs))"

text \<open>What precedes the predicted token: the trajectory up to the first rejected position, then the
  rejected tokens before it.\<close>

definition teacher_context :: "int list \<Rightarrow> int \<Rightarrow> by_offset \<Rightarrow> int \<Rightarrow> int list" where
  "teacher_context ids full_anchor offs off =
     (if is_later_reject offs off
      then take (nat (full_anchor + first_off offs)) ids @ take (nat (off - first_off offs)) (rejected_tokens offs)
      else take (nat (full_anchor + off)) ids)"

definition branch_entry :: "(nat \<Rightarrow> by_anchor) \<Rightarrow> int list list \<Rightarrow> int \<Rightarrow> tv_pos list \<Rightarrow> branch_spec \<Rightarrow> nat \<times> int \<Rightarrow> bool" where
  "branch_entry rejected anchors bs ps br w \<longleftrightarrow>
     (case w of (i, sfx) \<Rightarrow> i < length ps \<and>
        (let p = ps ! i; offs = pos_offs rejected anchors bs p in
         is_later_reject offs (tp_offset p) \<and> br_sample br = tp_batch p \<and> br_anchor br = pos_anchor anchors bs p
         \<and> br_first br = first_off offs \<and> br_tokens br = rejected_tokens offs \<and> sfx = tp_offset p - first_off offs))"

definition branch_inv :: "(nat \<Rightarrow> by_anchor) \<Rightarrow> int list list \<Rightarrow> int \<Rightarrow> tv_pos list \<Rightarrow> branch_spec list \<Rightarrow> bool" where
  "branch_inv rejected anchors bs ps brs \<longleftrightarrow>
     (\<forall>br\<in>set brs. length (br_flat br) = length (br_suffix br)
        \<and> (\<forall>w\<in>set (zip (br_flat br) (br_suffix br)). branch_entry rejected anchors bs ps br w))
     \<and> (\<forall>i<length ps. is_later_reject (pos_offs rejected anchors bs (ps ! i)) (tp_offset (ps ! i))
        \<longrightarrow> (\<exists>br\<in>set brs. i \<in> set (br_flat br)))"

lemma branch_entry_append: "branch_entry rejected anchors bs ps br w \<Longrightarrow> branch_entry rejected anchors bs (ps @ qs) br w"
  by (auto simp: branch_entry_def Let_def nth_append)

lemma branch_of_entries:
  assumes "branch_of ft b a offs n sel = Some br" "offs_ok bs offs"
  shows "length (br_flat br) = length (br_suffix br)" "br_sample br = b" "br_anchor br = a"
    "br_first br = first_off offs" "br_tokens br = rejected_tokens offs"
    "set (zip (br_flat br) (br_suffix br)) = {(n + k, sel ! k - first_off offs) | k. k < length sel \<and> is_later_reject offs (sel ! k)}"
proof -
  let ?later = "filter (\<lambda>(k, off). is_later_reject offs off) (zip [0..<length sel] sel)"
  have ne: "offs \<noteq> []" using assms(1) by (auto simp: branch_of_def Let_def split: if_splits)
  note hd = hd_sort_Min(1) [OF assms(2) ne, folded first_off_def]
  have br: "br = \<lparr>br_sample = b, br_anchor = a, br_first = first_off offs, br_tokens = rejected_tokens offs,
      br_flat = map (\<lambda>(k, _). n + k) ?later, br_suffix = map (\<lambda>(_, off). off - first_off offs) ?later\<rparr>"
    using assms(1) by (auto simp: branch_of_def Let_def hd rejected_tokens_def split: if_splits)
  then show "length (br_flat br) = length (br_suffix br)" "br_sample br = b" "br_anchor br = a"
    "br_first br = first_off offs" "br_tokens br = rejected_tokens offs" by simp_all
  have "zip (map (\<lambda>(k, _). n + k) xs) (map (\<lambda>(_, off). off - first_off offs) xs)
      = map (\<lambda>(k, off). (n + k, off - first_off offs)) xs" for xs :: "(nat \<times> int) list" by (induction xs) auto
  then show "set (zip (br_flat br) (br_suffix br))
      = {(n + k, sel ! k - first_off offs) | k. k < length sel \<and> is_later_reject offs (sel ! k)}"
    unfolding br by (auto simp: set_zip image_iff) force
qed

lemma branch_inv_step:
  assumes inv: "branch_inv rejected anchors bs (st_positions s) (st_branches s)"
    and run: "tv_anchor bs ft rejected valid s (b, j, keep, anchors ! b ! j, seg) = Inr s'"
    and offs: "offs_ok bs (get_offsets (rejected b) (anchors ! b ! j))" and seg: "seg \<le> bs - 1"
  shows "branch_inv rejected anchors bs (st_positions s') (st_branches s')"
proof -
  define a where "a = anchors ! b ! j"
  define o' where "o' = get_offsets (rejected b) a"
  define sel where "sel = selected_offsets_of ft o' seg"
  define br where "br = branch_of ft b a o' (length (st_positions s)) sel"
  have ok: "offs_ok bs o'" using offs by (simp add: o'_def a_def)
  note so = selected_offsets(2) [OF ok seg, of ft, folded sel_def]
  let ?mk = "mk_pos bs b j a o' (st_blocks s)" and ?n = "length (st_positions s)"
  from tv_anchor_cases [OF run [folded a_def] o'_def sel_def br_def]
  consider "st_positions s' = st_positions s" "st_branches s' = st_branches s"
    | "st_positions s' = st_positions s @ map ?mk sel"
      "st_branches s' = st_branches s @ (case br of None \<Rightarrow> [] | Some x \<Rightarrow> [x])"
      "\<forall>off\<in>set sel. (is_later_reject o' off \<or> a + off - 1 < valid b) \<and> (is_later_reject o' off \<longrightarrow> br \<noteq> None)"
    by (auto split: if_splits)
  then show ?thesis
  proof cases
    case 2
    have mk: "pos_anchor anchors bs (?mk off) = a \<and> pos_offs rejected anchors bs (?mk off) = o'
        \<and> tp_batch (?mk off) = b \<and> tp_offset (?mk off) = off" if "off \<in> set sel" for off
      using that so 2(3) mk_pos_ok [where anchors = anchors and rejected = rejected and valid = valid, OF _ _ a_def o'_def]
      by (auto simp: mk_pos_def)
    have new: "branch_entry rejected anchors bs (st_positions s') x w"
      if "br = Some x" "w \<in> set (zip (br_flat x) (br_suffix x))" for x w
      using that(2) branch_of_entries [OF that(1) [unfolded br_def] ok] mk [OF nth_mem]
      by (auto simp: branch_entry_def 2(1) nth_append Let_def)
    have old: "branch_entry rejected anchors bs (st_positions s') x w"
      if "x \<in> set (st_branches s)" "w \<in> set (zip (br_flat x) (br_suffix x))" for x w
      using inv that branch_entry_append unfolding branch_inv_def 2(1) by blast
    have len: "length (br_flat x) = length (br_suffix x)" if "x \<in> set (st_branches s')" for x
      using that inv branch_of_entries(1) [OF _ ok] by (auto simp: 2(2) br_def branch_inv_def split: option.splits)
    have cover: "\<exists>x\<in>set (st_branches s'). i \<in> set (br_flat x)"
      if i: "i < length (st_positions s')" "is_later_reject (pos_offs rejected anchors bs (st_positions s' ! i)) (tp_offset (st_positions s' ! i))" for i
    proof (cases "i < ?n")
      case True
      then show ?thesis using i inv by (auto simp: branch_inv_def 2(1,2) nth_append)
    next
      case False
      then have k: "i - ?n < length sel" "st_positions s' ! i = ?mk (sel ! (i - ?n))"
        using i(1) by (auto simp: 2(1) nth_append)
      have later: "is_later_reject o' (sel ! (i - ?n))" using i(2) k(2) mk [OF nth_mem [OF k(1)]] by simp
      then obtain x where x: "br = Some x" using 2(3) k(1) by (meson nth_mem not_None_eq)
      have "(?n + (i - ?n), sel ! (i - ?n) - first_off o') \<in> set (zip (br_flat x) (br_suffix x))"
        using branch_of_entries(6) [OF x [unfolded br_def] ok] later k(1) by blast
      then have "i \<in> set (br_flat x)" using False by (auto dest: set_zip_leftD)
      then show ?thesis using x 2(2) by auto
    qed
    show ?thesis using new old len cover unfolding branch_inv_def by (auto simp: 2(2) split: option.splits)
  qed (use inv in simp)
qed

lemma tv_anchors_branch_inv:
  assumes "rfold (tv_anchor bs ft rejected valid) s0 items = Inr s" "st_positions s0 = []" "st_branches s0 = []"
    and "\<forall>(b, j, keep, a, seg)\<in>set items. a = anchors ! b ! j \<and> seg \<le> bs - 1"
    and "\<forall>(b, j, _)\<in>set items. offs_ok bs (get_offsets (rejected b) (anchors ! b ! j))"
  shows "branch_inv rejected anchors bs (st_positions s) (st_branches s)"
proof (rule rfold_invariant [OF assms(1), where I = "\<lambda>s. branch_inv rejected anchors bs (st_positions s) (st_branches s)"])
  show "branch_inv rejected anchors bs (st_positions s0) (st_branches s0)" using assms(2,3) by (simp add: branch_inv_def)
  fix u x v assume x: "x \<in> set items" and inv: "branch_inv rejected anchors bs (st_positions u) (st_branches u)"
    and step: "tv_anchor bs ft rejected valid u x = Inr v"
  obtain b j keep a seg where e: "x = (b, j, keep, a, seg)" by (metis surj_pair)
  show "branch_inv rejected anchors bs (st_positions v) (st_branches v)"
    using x inv step assms(4,5) branch_inv_step [of rejected anchors bs u ft valid b j keep seg v] unfolding e by fastforce
qed

definition causal :: "(int list \<Rightarrow> 'h) \<Rightarrow> int list \<Rightarrow> 'h list" where
  "causal H ids = map (\<lambda>i. H (take (i + 1) ids)) [0..<length ids]"

lemma nth_causal: "i < length ids \<Longrightarrow> causal H ids ! i = H (take (i + 1) ids)"
  by (simp add: causal_def)

lemma length_causal [simp]: "length (causal H ids) = length ids"
  by (simp add: causal_def)

lemma is_later_bounds:
  assumes "offs_ok bs offs" "is_later_reject offs off"
  shows "first_off offs < off" "nat (off - first_off offs) < length (rejected_tokens offs)" "1 \<le> first_off offs"
proof -
  have ne: "offs \<noteq> []" and m: "first_off offs < off" "off \<in> set (map fst offs)"
    using assms(2) by (simp_all add: is_later_reject_def first_off_def)
  show "first_off offs < off" by fact
  have "off \<le> Max (set (map fst offs))" using m(2) by (intro Max_ge) auto
  moreover have "length (rejected_tokens offs) = nat (Max (set (map fst offs)) - first_off offs + 1)"
    using assms(1) ne unfolding rejected_tokens_def offs_ok_def first_off_def length_map by simp
  ultimately show "nat (off - first_off offs) < length (rejected_tokens offs)" using m(1) by simp
  have "first_off offs \<in> set (map fst offs)" unfolding first_off_def using ne by (intro Min_in) auto
  then show "1 \<le> first_off offs" using assms(1) by (auto simp: offs_ok_def)
qed

text \<open>Applying a branch puts the right hidden states at its positions and changes nothing else.\<close>

lemma apply_branch_ok:
  assumes main: "\<And>ids. main_net ids = Inr (causal H ids)" and pdim: "pdim = None \<or> pdim = Some 2"
    and ent: "\<forall>w\<in>set (zip (br_flat br) (br_suffix br)). branch_entry rejected anchors bs ps br w"
    and len: "length (br_flat br) = length (br_suffix br)" "length sel = length ps"
    and offs: "\<forall>p\<in>set ps. offs_ok bs (pos_offs rejected anchors bs p)
      \<and> 0 \<le> pos_anchor anchors bs p
      \<and> (pos_offs rejected anchors bs p \<noteq> [] \<longrightarrow> pos_anchor anchors bs p + first_off (pos_offs rejected anchors bs p) \<le> int (length (ids ! tp_batch p)))"
    and val: "\<And>p. val p = H (teacher_context (ids ! tp_batch p) (pos_anchor anchors bs p) (pos_offs rejected anchors bs p) (tp_offset p))"
  shows "\<exists>sel'. apply_branch main_net pdim ids sel br = Inr sel' \<and> length sel' = length ps
    \<and> (\<forall>i<length ps. sel' ! i = (if i \<in> set (br_flat br) then val (ps ! i) else sel ! i))"
proof -
  let ?P = "br_anchor br + br_first br"
  let ?ids = "take (nat ?P) (ids ! br_sample br) @ br_tokens br"
  let ?h = "causal H ?ids"
  have row: "0 \<le> ?P - 1 + sfx \<and> ?P - 1 + sfx < int (length ?h) \<and> ?h ! nat (?P - 1 + sfx) = val (ps ! i) \<and> i < length ps"
    if "(i, sfx) \<in> set (zip (br_flat br) (br_suffix br))" for i sfx
  proof -
    let ?p = "ps ! i"
    let ?o = "pos_offs rejected anchors bs ?p" and ?a = "pos_anchor anchors bs ?p"
    from ent that have e: "i < length ps" "is_later_reject ?o (tp_offset ?p)" "br_sample br = tp_batch ?p" "br_anchor br = ?a"
      "br_first br = first_off ?o" "br_tokens br = rejected_tokens ?o" "sfx = tp_offset ?p - first_off ?o"
      by (auto simp: branch_entry_def Let_def)
    have ne: "?o \<noteq> []" using e(2) by (auto simp: is_later_reject_def)
    have of': "offs_ok bs ?o" "0 \<le> ?a" "?a + first_off ?o \<le> int (length (ids ! tp_batch ?p))"
      using offs nth_mem [OF e(1)] ne by auto
    note lb = is_later_bounds [OF of'(1) e(2)]
    have P: "1 \<le> ?P" "nat ?P \<le> length (ids ! br_sample br)" using e of' lb by auto
    have lids: "int (length ?ids) = ?P + int (length (rejected_tokens ?o))" using P e(6) by simp
    have sfx: "0 \<le> sfx" "sfx < int (length (rejected_tokens ?o))" using lb e(7) by auto
    have tk: "take (nat (?P - 1 + sfx) + 1) ?ids = take (nat ?P) (ids ! br_sample br) @ take (nat sfx) (rejected_tokens ?o)"
      using P sfx e(6) by (auto simp: nat_add_distrib nat_diff_distrib min_def)
    have "nat (?P - 1 + sfx) < length ?ids" using lids P sfx by linarith
    then have "?h ! nat (?P - 1 + sfx) = H (take (nat (?P - 1 + sfx) + 1) ?ids)" by (rule nth_causal)
    also have "\<dots> = val ?p" unfolding tk val teacher_context_def using e by simp
    finally show ?thesis using lids P sfx e(1) by (simp del: length_append)
  qed
  have fold: "\<exists>sel'. rfold (assign_row ?h) sel ws = Inr sel' \<and> length sel' = length ps
      \<and> (\<forall>i<length ps. sel' ! i = (if i \<in> fst ` set ws then val (ps ! i) else sel ! i))"
    if "\<forall>(i, r)\<in>set ws. 0 \<le> r \<and> r < int (length ?h) \<and> ?h ! nat r = val (ps ! i) \<and> i < length ps" "length sel = length ps"
    for ws sel using that
  proof (induction ws arbitrary: sel)
    case (Cons w ws)
    obtain i r where w: "w = (i, r)" by (cases w)
    have "assign_row ?h sel w = Inr (sel[i := val (ps ! i)])" using Cons.prems by (auto simp: assign_row_def w)
    with Cons.IH [of "sel[i := val (ps ! i)]"] Cons.prems show ?case by (fastforce simp: w nth_list_update)
  qed simp
  have fl: "fst ` set (zip (br_flat br) (map (\<lambda>sfx. ?P - 1 + sfx) (br_suffix br))) = set (br_flat br)"
    using len(1) by (metis length_map map_fst_zip set_map)
  have "\<forall>(i, r)\<in>set (zip (br_flat br) (map (\<lambda>sfx. ?P - 1 + sfx) (br_suffix br))).
      0 \<le> r \<and> r < int (length ?h) \<and> ?h ! nat r = val (ps ! i) \<and> i < length ps"
    using row by (auto simp: zip_map2)
  from fold [OF this len(2)] show ?thesis unfolding fl apply_branch_def Let_def using pdim main by auto
qed

text \<open>The side conditions on a position that the two steps of the reconstruction need.\<close>

definition pos_side ::
  "int \<Rightarrow> (nat \<Rightarrow> by_anchor) \<Rightarrow> (nat \<Rightarrow> int) \<Rightarrow> int list list \<Rightarrow> int list list \<Rightarrow> tv_pos \<Rightarrow> bool" where
  "pos_side bs rejected valid anchors ids p \<longleftrightarrow> pos_ok bs rejected valid anchors p \<and> 0 \<le> pos_anchor anchors bs p
     \<and> tp_batch p < length ids \<and> valid (tp_batch p) \<le> int (length (ids ! tp_batch p))
     \<and> offs_ok bs (pos_offs rejected anchors bs p)
     \<and> (pos_offs rejected anchors bs p \<noteq> [] \<longrightarrow> pos_anchor anchors bs p + first_off (pos_offs rejected anchors bs p)
         \<le> int (length (ids ! tp_batch p)))"

lemma initial_hidden:
  assumes "pos_side bs rejected valid anchors ids p"
  shows "\<exists>h. hidden_at (map (causal H) ids) (tp_batch p, nat (max 0 (tp_row p))) = Inr h
    \<and> (\<not> is_later_reject (pos_offs rejected anchors bs p) (tp_offset p) \<longrightarrow>
        h = H (teacher_context (ids ! tp_batch p) (pos_anchor anchors bs p) (pos_offs rejected anchors bs p) (tp_offset p)))"
proof -
  let ?o = "pos_offs rejected anchors bs p" and ?a = "pos_anchor anchors bs p" and ?ids = "ids ! tp_batch p"
  have b: "tp_batch p < length ids" "0 \<le> ?a" and po: "pos_ok bs rejected valid anchors p"
    using assms by (simp_all add: pos_side_def)
  show ?thesis
  proof (cases "is_later_reject ?o (tp_offset p)")
    case True
    then have "?o \<noteq> []" by (auto simp: is_later_reject_def)
    then have "?a + first_off ?o \<le> int (length ?ids)" "1 \<le> first_off ?o"
      using assms is_later_bounds(3) [OF _ True, of bs] by (auto simp: pos_side_def)
    then have "0 < length ?ids" using b(2) by linarith
    moreover have "tp_row p = -1" using po True by (simp add: pos_ok_def)
    ultimately show ?thesis using b True by (simp add: hidden_at_def)
  next
    case False
    then have r: "tp_row p = ?a + tp_offset p - 1" "tp_row p < int (length ?ids)" "1 \<le> tp_offset p"
      using po assms by (auto simp: pos_ok_def pos_side_def)
    then have n: "nat (tp_row p) + 1 = nat (?a + tp_offset p)" "nat (max 0 (tp_row p)) = nat (tp_row p)" "nat (tp_row p) < length ?ids"
      using b(2) by linarith+
    show ?thesis unfolding n(2) using b(1) n(3) nth_causal [OF n(3), of H] False
      by (simp add: hidden_at_def teacher_context_def n(1) [symmetric])
  qed
qed

lemma apply_branches_ok:
  assumes main: "\<And>ids. main_net ids = Inr (causal H ids)" and pdim: "pdim = None \<or> pdim = Some 2"
    and ent: "\<forall>br\<in>set brs. length (br_flat br) = length (br_suffix br)
      \<and> (\<forall>w\<in>set (zip (br_flat br) (br_suffix br)). branch_entry rejected anchors bs ps br w)"
    and side: "\<forall>p\<in>set ps. pos_side bs rejected valid anchors ids p"
    and val: "\<And>p. val p = H (teacher_context (ids ! tp_batch p) (pos_anchor anchors bs p) (pos_offs rejected anchors bs p) (tp_offset p))"
    and len: "length sel = length ps"
  shows "\<exists>sel'. rfold (apply_branch main_net pdim ids) sel brs = Inr sel' \<and> length sel' = length ps
    \<and> (\<forall>i<length ps. sel' ! i = (if \<exists>br\<in>set brs. i \<in> set (br_flat br) then val (ps ! i) else sel ! i))"
  using ent len
proof (induction brs arbitrary: sel)
  case (Cons br brs)
  have "\<forall>w\<in>set (zip (br_flat br) (br_suffix br)). branch_entry rejected anchors bs ps br w"
    "length (br_flat br) = length (br_suffix br)" using Cons.prems(1) by auto
  from apply_branch_ok [OF main pdim this Cons.prems(2) _ val] side
  obtain s1 where s1: "apply_branch main_net pdim ids sel br = Inr s1" "length s1 = length ps"
    "\<forall>i<length ps. s1 ! i = (if i \<in> set (br_flat br) then val (ps ! i) else sel ! i)"
    unfolding pos_side_def by blast
  from Cons.IH [OF _ s1(2)] Cons.prems(1) s1 show ?case by fastforce
qed simp

definition anchors_nonneg :: "int list list \<Rightarrow> bool" where
  "anchors_nonneg anchors \<longleftrightarrow> (\<forall>b<length anchors. \<forall>j<length (anchors ! b). 0 \<le> anchors ! b ! j)"

text \<open>C7 Exact TV compares the draft with the teacher on the very context the draft was drafted in: if
  the main model is causal (its hidden state at a position is a function \<open>H\<close> of the tokens up to it),
  the teacher hidden state of every planned position is \<open>H\<close> of the rollout prefix, continued with the
  rejected draft tokens for positions behind the first rejection; and the reconstruction never
  fails.\<close>

theorem tv_teacher_context:
  assumes plan: "build_tv_position_plan ps anchors segs keep valid_lens bs rej ft = Inr plan" "length ps = length anchors"
    "segs_ok bs anchors segs" "anchors_nonneg anchors"
    and ids: "length input_ids = length anchors" "\<forall>b<length anchors. valid_lens ! b \<le> int (length (input_ids ! b))"
    and main: "\<And>ids. main_net ids = Inr (causal H ids)" and pdim: "pdim = None \<or> pdim = Some 2"
  shows "\<exists>sel n. compute_tv_teacher_branch_hidden main_net pdim input_ids (map (causal H) input_ids) plan = Inr (sel, n)
    \<and> sel = map (\<lambda>p. H (teacher_context (input_ids ! tp_batch p) (pos_anchor anchors bs p)
          (pos_offs (tv_rejected ps valid_lens bs rej) anchors bs p) (tp_offset p))) (tv_positions plan)"
proof (cases "tv_positions plan = []")
  case True
  then show ?thesis by (simp add: compute_tv_teacher_branch_hidden_def)
next
  case False
  let ?rej = "tv_rejected ps valid_lens bs rej" and ?pos = "tv_positions plan"
  let ?val = "\<lambda>p. H (teacher_context (input_ids ! tp_batch p) (pos_anchor anchors bs p)
      (pos_offs ?rej anchors bs p) (tp_offset p))"
  obtain s where inv: "tv_inv bs ?rej (\<lambda>b. valid_lens ! b) anchors
      (map (\<lambda>(b, j, _). (b, j)) (plan_anchors anchors segs keep)) s"
    and run: "rfold (tv_anchor bs ft ?rej (\<lambda>b. valid_lens ! b))
      \<lparr>st_positions = [], st_branches = [], st_seen = [], st_blocks = 0\<rparr> (plan_anchors anchors segs keep) = Inr s"
    and pl: "plan = \<lparr>tv_positions = st_positions s, tv_branches = st_branches s, tv_block_count = st_blocks s\<rparr>"
    and ok: "\<forall>b<length anchors. \<forall>a. offs_ok bs (get_offsets (?rej b) a)
      \<and> (get_offsets (?rej b) a \<noteq> [] \<longrightarrow> a + first_off (get_offsets (?rej b) a) \<le> valid_lens ! b)"
    using tv_plan_state [OF plan(1,2,3)] by metis
  have pos: "pos_ok bs ?rej (\<lambda>b. valid_lens ! b) anchors p \<and> tp_batch p < length anchors \<and> 0 \<le> pos_anchor anchors bs p"
    if "p \<in> set ?pos" for p
  proof -
    from that inv have "pos_ok bs ?rej (\<lambda>b. valid_lens ! b) anchors p"
      "(tp_batch p, nat (tp_draft p div bs)) \<in> set (map (\<lambda>(b, j, _). (b, j)) (plan_anchors anchors segs keep))"
      by (auto simp: tv_inv_def pl)
    then obtain k a seg where "(tp_batch p, nat (tp_draft p div bs), k, a, seg) \<in> set (plan_anchors anchors segs keep)"
      "pos_ok bs ?rej (\<lambda>b. valid_lens ! b) anchors p" by auto
    then show ?thesis using plan_anchors_items(1,2) plan(4) by (auto simp: anchors_nonneg_def pos_anchor_def)
  qed
  have br: "branch_inv ?rej anchors bs ?pos (tv_branches plan)"
  proof -
    have items: "a = anchors ! b ! j \<and> seg \<le> bs - 1" "offs_ok bs (get_offsets (?rej b) (anchors ! b ! j))"
      if "(b, j, k, a, seg) \<in> set (plan_anchors anchors segs keep)" for b j k a seg
      using plan_anchors_items [OF that] plan(3) ok by (auto simp: segs_ok_def)
    have "branch_inv ?rej anchors bs (st_positions s) (st_branches s)"
      by (rule tv_anchors_branch_inv [OF run]) (use items in auto)
    then show ?thesis by (simp add: pl)
  qed
  have side: "\<forall>p\<in>set ?pos. pos_side bs ?rej (\<lambda>b. valid_lens ! b) anchors input_ids p"
  proof
    fix p assume "p \<in> set ?pos"
    note q = pos [OF this]
    then have "valid_lens ! tp_batch p \<le> int (length (input_ids ! tp_batch p))" using ids(2) by blast
    moreover have "offs_ok bs (pos_offs ?rej anchors bs p) \<and> (pos_offs ?rej anchors bs p \<noteq> []
        \<longrightarrow> pos_anchor anchors bs p + first_off (pos_offs ?rej anchors bs p) \<le> valid_lens ! tp_batch p)"
      using ok q unfolding pos_offs_def by blast
    ultimately show "pos_side bs ?rej (\<lambda>b. valid_lens ! b) anchors input_ids p"
      unfolding pos_side_def using q ids(1) by auto
  qed
  define pick where "pick p = hidden_at (map (causal H) input_ids) (tp_batch p, nat (max 0 (tp_row p)))" for p :: tv_pos
  have init: "\<exists>h. pick p = Inr h \<and> (\<not> is_later_reject (pos_offs ?rej anchors bs p) (tp_offset p) \<longrightarrow> h = ?val p)"
    if "p \<in> set ?pos" for p using initial_hidden [of bs ?rej "\<lambda>b. valid_lens ! b" anchors input_ids p H] side that
    unfolding pick_def by blast
  then obtain sel0 where sel0: "rmap pick ?pos = Inr sel0" using rmap_total [of ?pos pick] by blast
  then have l0: "length sel0 = length ?pos" by (rule rmap_length)
  have v0: "sel0 ! i = ?val (?pos ! i)"
    if "i < length ?pos" "\<not> is_later_reject (pos_offs ?rej anchors bs (?pos ! i)) (tp_offset (?pos ! i))" for i
    using init [OF nth_mem [OF that(1)]] rmap_nth [OF sel0 that(1)] that(2) by auto
  obtain sel where sel: "rfold (apply_branch main_net pdim input_ids) sel0 (tv_branches plan) = Inr sel" "length sel = length ?pos"
    "\<forall>i<length ?pos. sel ! i = (if \<exists>br\<in>set (tv_branches plan). i \<in> set (br_flat br) then ?val (?pos ! i) else sel0 ! i)"
    using apply_branches_ok [OF main pdim _ side refl l0] br unfolding branch_inv_def by blast
  have "sel = map ?val ?pos" using sel(2,3) v0 br by (intro nth_equalityI) (auto simp: branch_inv_def)
  moreover have "compute_tv_teacher_branch_hidden main_net pdim input_ids (map (causal H) input_ids) plan
      = Inr (sel, sum_list (map (\<lambda>br. length (br_flat br)) (tv_branches plan)))"
    using False sel0 sel(1) unfolding compute_tv_teacher_branch_hidden_def pick_def by simp
  ultimately show ?thesis by blast
qed

theorem tv_teacher_context_witness:
  "\<exists>sel n. compute_tv_teacher_branch_hidden (\<lambda>ids. Inr (causal (\<lambda>xs. xs) ids)) None [[1, 2, 3, 4, 5, 6, 7, 0]]
       (map (causal (\<lambda>xs. xs)) [[1, 2, 3, 4, 5, 6, 7, 0]])
       \<lparr>tv_positions = [\<lparr>tp_batch = 0, tp_draft = 1, tp_row = 2, tp_block = 0, tp_offset = 1\<rparr>,
          \<lparr>tp_batch = 0, tp_draft = 5, tp_row = 3, tp_block = 1, tp_offset = 1\<rparr>,
          \<lparr>tp_batch = 0, tp_draft = 6, tp_row = 4, tp_block = 1, tp_offset = 2\<rparr>,
          \<lparr>tp_batch = 0, tp_draft = 7, tp_row = -1, tp_block = 1, tp_offset = 3\<rparr>],
        tv_branches = [\<lparr>br_sample = 0, br_anchor = 3, br_first = 2, br_tokens = [8, 9], br_flat = [3], br_suffix = [1]\<rparr>],
        tv_block_count = 2\<rparr> = Inr (sel, n)
     \<and> sel ! 2 = [1, 2, 3, 4, 5] \<and> sel ! 3 = [1, 2, 3, 4, 5, 8]"
proof -
  have h: "segs_ok 4 [[2, 3]] [[1, 2]]" "anchors_nonneg [[2, 3]]"
    by (simp_all add: segs_ok_def anchors_nonneg_def less_Suc_eq nth_Cons')
  have r: "tv_rejected [3] [8] 4 example_rejected 0 = [(3, [(2, 8), (3, 9)])]" by code_simp
  have ctx: "teacher_context [1, 2, 3, 4, 5, 6, 7, 0] 3 [(2, 8), (3, 9)] 2 = [1, 2, 3, 4, 5]"
    "teacher_context [1, 2, 3, 4, 5, 6, 7, 0] 3 [(2, 8), (3, 9)] 3 = [1, 2, 3, 4, 5, 8]" by code_simp+
  show ?thesis
    using tv_teacher_context [OF example_tv_plan _ h, of "[[1, 2, 3, 4, 5, 6, 7, 0]]" "\<lambda>ids. Inr (causal (\<lambda>xs. xs) ids)"
        "\<lambda>xs. xs" None] r ctx
    by (auto simp: pos_anchor_def pos_offs_def get_offsets_def)
qed

subsection \<open>The end-to-end loss of a block\<close>

lemma sum_cumprod_real:
  "sum_list (cumprod c xs) = (c :: real) * (\<Sum>k<length xs. \<Prod>j\<le>k. xs ! j)"
proof (induction xs arbitrary: c)
  case (Cons x xs)
  have "(\<Prod>j\<le>Suc k. (x # xs) ! j) = x * (\<Prod>j\<le>k. xs ! j)" for k
    by (simp add: prod.atMost_Suc_shift del: prod.atMost_Suc)
  then have "(\<Sum>k<length (x # xs). \<Prod>j\<le>k. (x # xs) ! j) = x + x * (\<Sum>k<length xs. \<Prod>j\<le>k. xs ! j)"
    unfolding length_Cons sum.lessThan_Suc_shift by (simp add: sum_distrib_left)
  then show ?case using Cons.IH [of "c * x"] by (simp add: algebra_simps)
qed simp

text \<open>C18 The end-to-end TV loss of a block is one minus the normalised expected accept length: with
  acceptance probability \<open>1 - tv\<close> at each position, the expected length is the sum over positions of
  the probability that everything up to there is accepted. The loss lies between 0 and 1 and is 0
  exactly when the draft matches the target at every position of the block.\<close>

theorem e2e_loss_sound:
  assumes "e2e_block tvs = Inr (loss, expected)" "\<forall>tv\<in>set tvs. 0 \<le> tv \<and> tv \<le> 1"
  shows "expected = (\<Sum>k<length tvs. \<Prod>j\<le>k. 1 - tvs ! j) \<and> loss = 1 - expected / real (length tvs)
    \<and> 0 \<le> loss \<and> loss \<le> 1 \<and> (loss = 0 \<longleftrightarrow> (\<forall>tv\<in>set tvs. tv = 0))"
proof -
  let ?n = "length tvs" and ?P = "\<lambda>k. \<Prod>j\<le>k. 1 - tvs ! j"
  have n: "0 < ?n" using assms(1) by (auto simp: e2e_block_def split: if_splits)
  have cl: "map (\<lambda>tv. clamp01 (1 - tv)) tvs = map (\<lambda>tv. 1 - tv) tvs" using assms(2) by (auto simp: clamp01_def)
  have "sum_list (cumprod 1 (map (\<lambda>tv. 1 - tv) tvs)) = (\<Sum>k<?n. ?P k)"
    unfolding sum_cumprod_real by (auto intro!: sum.cong prod.cong)
  then have ex: "expected = (\<Sum>k<?n. ?P k)" and lo: "loss = 1 - expected / real ?n"
    using assms(1) n by (auto simp: e2e_block_def cl Let_def split: if_splits)
  have f: "0 \<le> 1 - tvs ! j \<and> 1 - tvs ! j \<le> 1" if "j < ?n" for j using assms(2) nth_mem [OF that] by auto
  have P: "0 \<le> ?P k \<and> ?P k \<le> 1" if "k < ?n" for k
    using that f by (auto intro!: prod_nonneg prod_le_1)
  have e: "0 \<le> expected" "expected \<le> real ?n"
    using P sum_mono [of "{..<?n}" ?P "\<lambda>_. 1"] unfolding ex by (auto intro!: sum_nonneg)
  have "loss = 0 \<longleftrightarrow> expected = real ?n" using n lo by auto
  also have "\<dots> \<longleftrightarrow> (\<forall>tv\<in>set tvs. tv = 0)"
  proof
    assume "\<forall>tv\<in>set tvs. tv = 0"
    then have "?P k = 1" if "k < ?n" for k using that by (intro prod.neutral) auto
    then show "expected = real ?n" unfolding ex by simp
  next
    assume "expected = real ?n"
    then have "(\<Sum>k<?n. 1 - ?P k) = 0" unfolding ex by (simp add: sum_subtractf)
    then have one: "?P k = 1" if "k < ?n" for k using that P by (subst (asm) sum_nonneg_eq_0_iff) auto
    have "tvs ! k = 0" if k: "k < ?n" for k
    proof (cases k)
      case 0
      then show ?thesis using one [OF k] by simp
    next
      case (Suc m)
      then have "?P m * (1 - tvs ! k) = 1" using one [OF k] by simp
      then show ?thesis using one [of m] Suc k by simp
    qed
    then show "\<forall>tv\<in>set tvs. tv = 0" by (auto simp: in_set_conv_nth)
  qed
  finally show ?thesis using ex lo e n by (auto simp: divide_le_eq_1)
qed

theorem e2e_loss_sound_witness: "\<exists>loss e. e2e_block [1 / 2, 0] = Inr (loss, e) \<and> e = 1 \<and> loss = 1 / 2"
proof -
  obtain l e where r: "e2e_block [1 / 2, 0] = Inr (l, e)" by (simp add: e2e_block_def Let_def)
  then have "e = 1 \<and> l = 1 / 2" using e2e_loss_sound [OF r] by auto
  then show ?thesis using r by blast
qed

subsection \<open>Rejected drafts: planning and collection select the same tokens\<close>

definition cap_take :: "nat option \<Rightarrow> nat \<Rightarrow> 'a list \<Rightarrow> 'a list" where
  "cap_take cap cnt xs = (case cap of None \<Rightarrow> xs | Some c \<Rightarrow> take (c - cnt) xs)"

definition capped :: "nat option \<Rightarrow> nat \<Rightarrow> bool" where
  "capped cap cnt \<longleftrightarrow> cap \<noteq> None \<and> the cap \<le> cnt"

lemma cap_take_simps [simp]: "cap_take cap cnt [] = []" "capped cap cnt \<Longrightarrow> cap_take cap cnt xs = []"
  "\<not> capped cap cnt \<Longrightarrow> cap_take cap cnt (x # xs) = x # cap_take cap (cnt + 1) xs"
  by (auto simp: cap_take_def capped_def take_Cons' split: option.splits)

type_synonym rej_item = "bool \<times> int \<times> int \<times> int"

definition item_anchor :: "int \<Rightarrow> rej_item \<Rightarrow> int" where
  "item_anchor p it = full_anchor_of p (snd (snd (snd it)))"

definition add_new :: "'a list \<Rightarrow> 'a \<Rightarrow> 'a list" where
  "add_new xs x = (if x \<in> set xs then xs else xs @ [x])"

lemma fold_add_new_set: "set (fold (\<lambda>x acc. add_new acc (f x)) xs acc) = set acc \<union> f ` set xs"
  by (induction xs arbitrary: acc) (auto simp: add_new_def)

lemma fold_add_new_distinct: "distinct acc \<Longrightarrow> distinct (fold (\<lambda>x acc. add_new acc (f x)) xs acc)"
  by (induction xs arbitrary: acc) (auto simp: add_new_def)

lemma rejected_anchors_eq:
  "rejected_anchors bs cap p v items cnt acc
     = fold (\<lambda>it acc. add_new acc (item_anchor p it)) (cap_take cap cnt (filter (rejected_item_ok bs p v) items)) acc"
proof (induction items arbitrary: cnt acc)
  case (Cons it items)
  obtain m off tok ar where it: "it = (m, off, tok, ar)" by (metis surj_pair)
  show ?case
    using Cons.IH by (cases "capped cap cnt")
      (auto simp: it rejected_item_ok_def item_anchor_def add_new_def Let_def capped_def)
qed simp

lemma block_index_distinct:
  assumes "distinct A" "k < length A"
  shows "block_index (zip (A @ replicate m 0) (map (\<lambda>_. True) A @ replicate m False)) (A ! k) = Some k"
proof -
  have e: "map (\<lambda>(a, k'). a = A ! k \<and> k') (zip (A @ replicate m 0) (map (\<lambda>_. True) A @ replicate m False))
      = map (\<lambda>a. a = A ! k) A @ replicate m False"
    by (auto intro!: nth_equalityI simp: nth_append)
  have "map (\<lambda>a. a = A ! k) A = map (\<lambda>j. j = k) [0..<length A]"
    using assms by (auto intro!: nth_equalityI simp: nth_eq_iff_index_eq)
  then have "true_indices (map (\<lambda>a. a = A ! k) A) = [k]"
    using assms(2) sorted_true_indices
    by (intro sorted_distinct_set_unique) (auto simp: set_true_indices)
  then have "true_indices (map (\<lambda>a. a = A ! k) A @ replicate m False) = [k]" by (simp add: true_indices_append)
  then show ?thesis unfolding block_index_def e Let_def by simp
qed

lemma block_index_None:
  assumes "a \<notin> set A"
  shows "block_index (zip (A @ replicate m 0) (map (\<lambda>_. True) A @ replicate m False)) a = None"
proof -
  have "map (\<lambda>(x, k). x = a \<and> k) (zip (A @ replicate m 0) (map (\<lambda>_. True) A @ replicate m False))
      = replicate (length A + m) False"
    using assms by (auto intro!: nth_equalityI simp: nth_append split: if_splits)
  then show ?thesis unfolding block_index_def Let_def by simp
qed

definition planned_index :: "int \<Rightarrow> (int \<times> bool) list \<Rightarrow> int \<Rightarrow> nat \<times> rej_item \<Rightarrow> nat \<times> nat \<times> int" where
  "planned_index bs blocks p w = (case w of (i, it) \<Rightarrow>
     (i, the (block_index blocks (item_anchor p it)) * nat bs + nat (fst (snd it)), fst (snd (snd it))))"

lemma collect_items_eq:
  assumes "\<forall>it\<in>set (cap_take cap cnt (filter (rejected_item_ok bs p v) items)). block_index blocks (item_anchor p it) \<noteq> None"
    and "\<forall>it. rejected_item_ok bs p v' it \<and> \<not> rejected_item_ok bs p v it \<longrightarrow> block_index blocks (item_anchor p it) = None"
    and "v \<le> v'"
  shows "collect_items bs cap p v' blocks i items cnt = map (planned_index bs blocks p)
    (cap_take cap cnt (filter (\<lambda>w. rejected_item_ok bs p v (snd w)) (zip [i..<i + length items] items)))"
  using assms(1)
proof (induction items arbitrary: i cnt)
  case (Cons it items)
  obtain m off tok ar where it: "it = (m, off, tok, ar)" by (metis surj_pair)
  have up: "[i..<i + length (it # items)] = i # [Suc i..<Suc i + length items]"
    by (simp add: upt_conv_Cons del: upt_Suc)
  consider (bad) "\<not> rejected_item_ok bs p v' it" | (cap) "rejected_item_ok bs p v' it" "capped cap cnt"
    | (out) "rejected_item_ok bs p v' it" "\<not> capped cap cnt" "\<not> rejected_item_ok bs p v it"
    | (ok) "rejected_item_ok bs p v' it" "\<not> capped cap cnt" "rejected_item_ok bs p v it" by blast
  then show ?case
  proof cases
    case bad
    then have n: "\<not> rejected_item_ok bs p v it" using assms(3) by (auto simp: rejected_item_ok_def it)
    have "collect_items bs cap p v' blocks i (it # items) cnt = collect_items bs cap p v' blocks (Suc i) items cnt"
      using bad by (simp add: it rejected_item_ok_def Let_def) argo
    then show ?thesis using Cons.IH [of cnt "Suc i"] Cons.prems n unfolding up by simp
  next
    case cap
    have "collect_items bs cap p v' blocks j xs cnt = []" for j xs
      using cap(2) by (induction xs arbitrary: j) (auto simp: capped_def Let_def)
    then show ?thesis using cap(2) by simp
  next
    case out
    then have "block_index blocks (item_anchor p it) = None" using assms(2) by blast
    then have "collect_items bs cap p v' blocks i (it # items) cnt = collect_items bs cap p v' blocks (Suc i) items cnt"
      by (simp add: it item_anchor_def Let_def)
    then show ?thesis using Cons.IH [of cnt "Suc i"] Cons.prems out(3) unfolding up by simp
  next
    case ok
    have "block_index blocks (item_anchor p it) \<noteq> None" using Cons.prems ok by simp
    then obtain k where k: "block_index blocks (item_anchor p it) = Some k" by blast
    have "collect_items bs cap p v' blocks i (it # items) cnt
        = (i, k * nat bs + nat off, tok) # collect_items bs cap p v' blocks (Suc i) items (cnt + 1)"
      using ok k by (auto simp: it rejected_item_ok_def item_anchor_def Let_def capped_def)
    then show ?thesis using Cons.IH [of "cnt + 1" "Suc i"] Cons.prems ok k unfolding up
      by (simp add: planned_index_def it)
  qed
qed simp

text \<open>C17 With a separate pass for rejected drafts, collecting log-probabilities selects exactly the tokens
  the plan made room for: the first \<open>cap\<close> rejected tokens that are valid, in order, each at its own
  offset of a kept block whose anchor is the token's anchor.\<close>

theorem rejected_pass_selects:
  assumes "b < length input_ids" "rejected_items rej b = Some items"
    and "plan = build_rejected_draft_anchor_plan input_ids ps rs bs cap rej"
    and "sel = collect_items bs cap (ps ! b) (ps ! b + rs ! b) (zip (fst plan ! b) (snd plan ! b)) 0 items 0"
    and "valid = min (ps ! b + rs ! b) (seq_len_of input_ids)"
  shows "map fst sel = cap_take cap 0 (true_indices (map (rejected_item_ok bs (ps ! b) valid) items))
    \<and> (\<forall>(i, d, tok)\<in>set sel. \<exists>k<length (fst plan ! b). snd plan ! b ! k
        \<and> fst plan ! b ! k = item_anchor (ps ! b) (items ! i)
        \<and> d = k * nat bs + nat (fst (snd (items ! i))) \<and> tok = fst (snd (snd (items ! i))))"
proof -
  let ?p = "ps ! b" and ?ok = "rejected_item_ok bs (ps ! b) valid"
  define A where "A = rejected_anchors bs cap ?p valid items 0 []"
  have Aeq: "A = fold (\<lambda>it acc. add_new acc (item_anchor ?p it)) (cap_take cap 0 (filter ?ok items)) []"
    unfolding A_def rejected_anchors_eq ..
  have A: "distinct A" "set A = item_anchor ?p ` set (cap_take cap 0 (filter ?ok items))"
    unfolding Aeq by (simp_all add: fold_add_new_distinct fold_add_new_set)
  have sub: "set (cap_take cap n xs) \<subseteq> set xs" for n and xs :: "'z list"
    by (auto simp: cap_take_def split: option.splits dest: in_set_takeD)
  obtain m where pl: "fst plan ! b = A @ replicate m 0" "snd plan ! b = map (\<lambda>_. True) A @ replicate m False"
    using assms by (simp add: build_rejected_draft_anchor_plan_def Let_def pad_to_def A_def seq_len_of_def)
  let ?blocks = "zip (A @ replicate m 0) (map (\<lambda>_. True) A @ replicate m False)"
  have in_A: "\<exists>k<length A. A ! k = item_anchor ?p it \<and> block_index ?blocks (item_anchor ?p it) = Some k"
    if "it \<in> set (cap_take cap 0 (filter ?ok items))" for it
    using that A block_index_distinct [OF A(1)] by (metis imageI in_set_conv_nth)
  have out: "block_index ?blocks (item_anchor ?p it) = None"
    if "rejected_item_ok bs ?p (?p + rs ! b) it" "\<not> ?ok it" for it
  proof (rule block_index_None)
    have "valid \<le> item_anchor ?p it" using that by (auto simp: rejected_item_ok_def item_anchor_def split: prod.splits)
    moreover have "x < valid" if "x \<in> set A" for x
    proof -
      from that A(2) obtain y where y: "y \<in> set (cap_take cap 0 (filter ?ok items))" "x = item_anchor ?p y" by blast
      then have "?ok y" using sub by fastforce
      then show ?thesis using y(2) by (auto simp: rejected_item_ok_def item_anchor_def split: prod.splits)
    qed
    ultimately show "item_anchor ?p it \<notin> set A" by fastforce
  qed
  let ?zip = "zip [0..<length items] items" and ?W = "cap_take cap 0 (filter (\<lambda>w. ?ok (snd w)) (zip [0..<length items] items))"
  have h: "\<forall>it\<in>set (cap_take cap 0 (filter ?ok items)). block_index ?blocks (item_anchor ?p it) \<noteq> None"
    "\<forall>it. rejected_item_ok bs ?p (?p + rs ! b) it \<and> \<not> ?ok it \<longrightarrow> block_index ?blocks (item_anchor ?p it) = None"
    "valid \<le> ?p + rs ! b"
    using in_A out assms(5) by (metis option.distinct(1), blast, simp)
  have sel: "sel = map (planned_index bs ?blocks ?p) ?W"
    unfolding assms(4) pl using collect_items_eq [OF h, of 0] by simp
  have mc: "map f (cap_take cap n xs) = cap_take cap n (map f xs)" for f :: "'z \<Rightarrow> 'y" and n xs
    by (auto simp: cap_take_def take_map split: option.splits)
  have mf: "map snd (filter (\<lambda>w. ?ok (snd w)) ?zip) = filter ?ok items"
    using filter_map [of ?ok snd ?zip] by (simp add: comp_def)
  have idx: "map fst (filter (\<lambda>w. ?ok (snd w)) ?zip) = true_indices (map ?ok items)"
  proof -
    have z: "?zip = map (\<lambda>i. (i, items ! i)) [0..<length items]" by (auto intro!: nth_equalityI)
    show ?thesis unfolding z true_indices_def by (auto simp: filter_map comp_def intro!: filter_cong)
  qed
  have "map fst sel = map fst ?W" unfolding sel by (auto simp: planned_index_def)
  then have first: "map fst sel = cap_take cap 0 (true_indices (map ?ok items))" by (simp add: mc idx)
  have "\<exists>k<length (fst plan ! b). snd plan ! b ! k \<and> fst plan ! b ! k = item_anchor ?p (items ! i)
        \<and> d = k * nat bs + nat (fst (snd (items ! i))) \<and> tok = fst (snd (snd (items ! i)))"
    if "(i, d, tok) \<in> set sel" for i d tok
  proof -
    from that sel obtain it where w: "(i, it) \<in> set ?W" "(i, d, tok) = planned_index bs ?blocks ?p (i, it)"
      by (auto simp: planned_index_def)
    have "(i, it) \<in> set ?zip" using w(1) sub by fastforce
    then have it: "it = items ! i" by (auto simp: in_set_zip)
    have "snd (i, it) \<in> set (map snd ?W)" using w(1) unfolding set_map by (rule imageI)
    then have "it \<in> set (cap_take cap 0 (filter ?ok items))" unfolding mc mf snd_conv .
    with in_A obtain k where k: "k < length A" "A ! k = item_anchor ?p it" "block_index ?blocks (item_anchor ?p it) = Some k" by blast
    then show ?thesis using w(2) unfolding it pl by (intro exI [of _ k]) (auto simp: planned_index_def nth_append)
  qed
  then show ?thesis using first by blast
qed

theorem rejected_pass_selects_witness:
  "map fst (collect_items 4 (Some 1) 3 8 (zip (fst (build_rejected_draft_anchor_plan [[1, 2, 3, 4, 5, 6, 7, 8]] [3] [5] 4
       (Some 1) example_rejected) ! 0) (snd (build_rejected_draft_anchor_plan [[1, 2, 3, 4, 5, 6, 7, 8]] [3] [5] 4
       (Some 1) example_rejected) ! 0)) 0 [(True, 2, 8, 0), (True, 3, 9, 0)] 0) = [0]"
proof -
  have i: "rejected_items example_rejected 0 = Some [(True, 2, 8, 0), (True, 3, 9, 0)]"
    by (simp add: rejected_items_def example_rejected_def)
  have t: "cap_take (Some 1) 0 (true_indices (map (rejected_item_ok 4 ([3] ! 0) (min ([3] ! 0 + [5] ! 0)
      (seq_len_of [[1, 2, 3, 4, 5, 6, 7, 8]]))) [(True, 2, 8, 0), (True, 3, 9, 0)])) = [0]"
    by code_simp
  show ?thesis
    using rejected_pass_selects [where b = 0 and ps = "[3]" and rs = "[5]" and bs = 4 and cap = "Some 1"
        and input_ids = "[[1, 2, 3, 4, 5, 6, 7, 8]]", OF _ i refl refl refl] unfolding t by simp
qed

subsection \<open>Response tokens are scored once\<close>

definition selection_index :: "opd_plan \<Rightarrow> nat \<Rightarrow> (nat \<times> nat \<times> nat) list" where
  "selection_index plan bs = concat (map (\<lambda>off. map (Pair off)
     (filter (\<lambda>(b, j). row_starts plan ! b ! j + (int off - 1) + 1 < valid_seq_lens plan ! b) (active_blocks plan off))) [1..<bs])"

lemma selection_cells:
  "map (\<lambda>p. (rs_batch p, rs_row p)) (response_selection plan ids bs)
     = map (\<lambda>(off, b, j). (b, nat (row_starts plan ! b ! j + (int off - 1)))) (selection_index plan bs)"
  by (simp add: response_selection_def selection_index_def map_concat comp_def Let_def case_prod_unfold)

lemma distinct_selection_index: "distinct (selection_index plan bs)"
proof -
  have "distinct (active_blocks plan off)" for off
    using distinct_tagged [of "[0..<length (anchor_positions plan)]" "\<lambda>b. [0..<length (anchor_positions plan ! b)]"]
    by (simp add: active_blocks_def)
  then show ?thesis unfolding selection_index_def by (intro distinct_tagged) auto
qed

text \<open>In an assembled plan the kept blocks of a sample are the first ones of its row.\<close>

lemma assembled_row:
  assumes "b < length samples" "plan = assemble_plan v samples"
  shows "row_starts plan = anchor_positions plan" "length (anchor_positions plan) = length samples"
    "valid_seq_lens plan = v"
    "j < length (anchor_positions plan ! b) \<Longrightarrow> block_keep_mask plan ! b ! j \<longleftrightarrow> j < length (sp_blocks (samples ! b))"
    "j < length (sp_blocks (samples ! b)) \<Longrightarrow> j < length (anchor_positions plan ! b)
      \<and> anchor_positions plan ! b ! j = fst (sp_blocks (samples ! b) ! j)
      \<and> segment_lens plan ! b ! j = snd (sp_blocks (samples ! b) ! j)"
  using assms by (auto simp: assemble_plan_def Let_def nth_pad_to pad_to_def nth_append)

lemma mem_selection_index:
  assumes "plan = assemble_plan v samples"
  shows "(off, b, j) \<in> set (selection_index plan bs) \<longleftrightarrow> 1 \<le> off \<and> off < bs \<and> b < length samples
    \<and> j < length (sp_blocks (samples ! b)) \<and> int off \<le> snd (sp_blocks (samples ! b) ! j)
    \<and> fst (sp_blocks (samples ! b) ! j) + int off < v ! b"
proof (cases "b < length samples")
  case True
  note r = assembled_row [OF True assms]
  have "(off, b, j) \<in> set (selection_index plan bs) \<longleftrightarrow> 1 \<le> off \<and> off < bs \<and> j < length (anchor_positions plan ! b)
      \<and> block_keep_mask plan ! b ! j \<and> int off \<le> segment_lens plan ! b ! j \<and> anchor_positions plan ! b ! j + int off < v ! b"
    using True r(1-3) by (auto simp: selection_index_def active_blocks_def mem_tagged simp del: set_concat)
  then show ?thesis using True r(4,5) by auto
next
  case False
  then show ?thesis using assms by (auto simp: selection_index_def active_blocks_def mem_tagged assemble_plan_def Let_def simp del: set_concat)
qed

lemma blocks_ok_rows_distinct:
  assumes "blocks_ok lo n bs xs" "j < length xs" "j' < length xs" "1 \<le> o1" "o1 \<le> snd (xs ! j)" "1 \<le> o2" "o2 \<le> snd (xs ! j')"
    and eq: "fst (xs ! j) + o1 = fst (xs ! j') + o2"
  shows "j = j' \<and> o1 = o2"
proof -
  have sw: "sorted_wrt before xs" using assms(1) by (simp add: blocks_ok_def)
  have "\<not> j < j'" using sorted_wrt_nth_less [OF sw _ assms(3)] assms(4-7) eq by (fastforce simp: before_def)
  moreover have "\<not> j' < j" using sorted_wrt_nth_less [OF sw _ assms(2)] assms(4-7) eq by (fastforce simp: before_def)
  ultimately show ?thesis using eq by auto
qed

text \<open>The response pass scores each response token at most once: no two selected positions write the
  same cell of the log-probability table, every selected row predicts the token after it inside the
  valid part of the sequence, and with the cells as they are, exactly the tokens covered by the
  response blocks of the plan are scored.\<close>

theorem response_rows_once:
  assumes "\<forall>s. rng_ok (random_of s)" "2 \<le> draft_block_size cfg" "draft_block_size cfg = int bs"
    and plan: "build_opd_anchor_plan random_of cfg input_ids am ps rs rejects rej = Inr plan"
  shows "distinct (map (\<lambda>p. (rs_batch p, rs_row p)) (response_selection plan input_ids bs))
    \<and> set (map (\<lambda>p. (rs_batch p, int (rs_row p))) (response_selection plan input_ids bs))
       = {(b, a + k) | b a l k. b < length input_ids \<and> (a, l) \<in> set (response_blocks plan b) \<and> 0 \<le> k \<and> k < l
            \<and> a + k + 1 < valid_seq_lens plan ! b}"
proof -
  let ?v = "valid_seq_lens_of am input_ids"
  obtain samples where pl: "plan = assemble_plan ?v samples" and len: "length samples = length input_ids"
    and sok: "\<forall>b<length input_ids. sample_ok (seq_len_of input_ids) (int bs) (ps ! b) (rs ! b)
      (sp_response_count (samples ! b)) (sp_blocks (samples ! b))"
    using build_opd_anchor_plan_ok [OF assms(1,2), of input_ids am ps rs rejects rej] plan assms(3) by auto
  let ?B = "\<lambda>b. sp_blocks (samples ! b)" and ?k = "\<lambda>b. sp_response_count (samples ! b)"
  note mem = mem_selection_index [OF pl]
  have v: "valid_seq_lens plan = ?v" by (simp add: pl assemble_plan_def Let_def)
  have resp: "response_blocks plan b = take (?k b) (?B b)" if "b < length input_ids" for b
    using sample_ok_response(1) [OF sok [rule_format, OF that]] that kept_blocks_assemble [of b samples ?v] len
    unfolding response_blocks_def pl by simp
  have good: "j < length (response_blocks plan b) \<and> response_blocks plan b ! j = ?B b ! j \<and> 0 \<le> fst (?B b ! j)"
    if "b < length input_ids" "j < length (?B b)" "0 < snd (?B b ! j)" for b j
  proof -
    have ok: "sample_ok (seq_len_of input_ids) (int bs) (ps ! b) (rs ! b) (?k b) (?B b)" using sok that(1) by blast
    have "j < ?k b"
    proof (rule ccontr)
      assume "\<not> j < ?k b"
      then have "?B b ! j \<in> set (drop (?k b) (?B b))" using that(2) nth_mem [of "j - ?k b" "drop (?k b) (?B b)"]
        by simp
      then show False using ok that(3) by (fastforce simp: sample_ok_def)
    qed
    then show ?thesis using resp [OF that(1)] that(2) sample_ok_response(2) [OF ok] nth_mem [OF that(2)] by fastforce
  qed
  let ?cell = "\<lambda>(off, b, j). (b, nat (row_starts plan ! b ! j + (int off - 1)))"
  have rows: "row_starts plan ! b ! j = fst (?B b ! j)" if "b < length samples" "j < length (?B b)" for b j
    using assembled_row [OF that(1) pl] that(2) by simp
  have "inj_on ?cell (set (selection_index plan bs))"
  proof (rule inj_onI)
    fix x y assume xy: "x \<in> set (selection_index plan bs)" "y \<in> set (selection_index plan bs)" "?cell x = ?cell y"
    obtain o1 b1 j1 o2 b2 j2 where eq: "x = (o1, b1, j1)" "y = (o2, b2, j2)" by (metis surj_pair)
    have m: "(o1, b1, j1) \<in> set (selection_index plan bs)" "(o2, b2, j2) \<in> set (selection_index plan bs)"
      and e: "b1 = b2" "nat (row_starts plan ! b1 ! j1 + (int o1 - 1)) = nat (row_starts plan ! b2 ! j2 + (int o2 - 1))"
      using xy unfolding eq by auto
    note q = mem [THEN iffD1, OF m(1)] mem [THEN iffD1, OF m(2)]
    have g: "j1 < length (response_blocks plan b1) \<and> response_blocks plan b1 ! j1 = ?B b1 ! j1 \<and> 0 \<le> fst (?B b1 ! j1)"
      "j2 < length (response_blocks plan b1) \<and> response_blocks plan b1 ! j2 = ?B b1 ! j2 \<and> 0 \<le> fst (?B b1 ! j2)"
      using q good e(1) len by auto
    have "blocks_ok (ps ! b1 - 1) (ps ! b1 + rs ! b1) (int bs) (response_blocks plan b1)"
      using sok resp q(1) len by (simp add: sample_ok_def)
    moreover have "fst (?B b1 ! j1) + int o1 = fst (?B b1 ! j2) + int o2"
      using e g q rows [of b1 j1] rows [of b1 j2] by (simp add: eq_nat_nat_iff)
    ultimately show "x = y" unfolding eq
      using blocks_ok_rows_distinct [of _ _ _ "response_blocks plan b1" j1 j2 "int o1" "int o2"] g q e(1) by auto
  qed
  then have d: "distinct (map (\<lambda>p. (rs_batch p, rs_row p)) (response_selection plan input_ids bs))"
    unfolding selection_cells by (simp add: distinct_map distinct_selection_index)
  have "set (map (\<lambda>p. (rs_batch p, int (rs_row p))) (response_selection plan input_ids bs))
      = (\<lambda>(off, b, j). (b, int (nat (row_starts plan ! b ! j + (int off - 1))))) ` set (selection_index plan bs)"
    using arg_cong [OF selection_cells [of plan input_ids bs], of "\<lambda>xs. (\<lambda>(b, r). (b, int r)) ` set xs"]
    by (simp add: image_image case_prod_unfold)
  also have "\<dots> = {(b, a + k) | b a l k. b < length input_ids \<and> (a, l) \<in> set (response_blocks plan b) \<and> 0 \<le> k \<and> k < l
      \<and> a + k + 1 < valid_seq_lens plan ! b}" (is "?L = ?R")
  proof (rule set_eqI, rule iffI)
    fix x assume "x \<in> ?L"
    then obtain off b j where m: "(off, b, j) \<in> set (selection_index plan bs)"
      and x: "x = (b, int (nat (row_starts plan ! b ! j + (int off - 1))))" by auto
    note q = mem [THEN iffD1, OF m]
    have g: "?B b ! j \<in> set (response_blocks plan b)" "0 \<le> fst (?B b ! j)" using good [of b j] q len nth_mem by fastforce+
    have "x = (b, fst (?B b ! j) + (int off - 1))" using x rows [of b j] q g(2) by simp
    then show "x \<in> ?R" using q g(1) len unfolding v by (cases "?B b ! j") force
  next
    fix x assume "x \<in> ?R"
    then obtain b a l k where x: "x = (b, a + k)" "b < length input_ids" "(a, l) \<in> set (response_blocks plan b)" "0 \<le> k" "k < l"
      "a + k + 1 < ?v ! b" unfolding v by blast
    have l: "l \<le> int bs - 1" "0 \<le> a" using x(3) sok [rule_format, OF x(2)]
      unfolding resp [OF x(2)] by (auto simp: sample_ok_def blocks_ok_def)
    obtain j where j: "j < length (?B b)" "?B b ! j = (a, l)"
      using x(3) unfolding resp [OF x(2)] by (auto simp: in_set_conv_nth)
    have "(nat k + 1, b, j) \<in> set (selection_index plan bs)" unfolding mem using x j l len by auto
    moreover have "row_starts plan ! b ! j + (int (nat k + 1) - 1) = a + k" using rows [of b j] j x len by simp
    ultimately show "x \<in> ?L" using x(1,4) l(2) by force
  qed
  finally show ?thesis using d by blast
qed

theorem response_rows_once_witness:
  "\<exists>plan. build_opd_anchor_plan fixed_rng (plain_config 4) [[1, 2, 3, 4, 5, 6, 7, 8]] None [3] [5] [[1, 3]] no_rejected
       = Inr plan
     \<and> distinct (map (\<lambda>p. (rs_batch p, rs_row p)) (response_selection plan [[1, 2, 3, 4, 5, 6, 7, 8]] 4))"
proof -
  have b: "2 \<le> draft_block_size (plain_config 4)" "draft_block_size (plain_config 4) = int 4" by (simp_all add: plain_config_def)
  obtain plan where r: "build_opd_anchor_plan fixed_rng (plain_config 4) [[1, 2, 3, 4, 5, 6, 7, 8]] None [3] [5] [[1, 3]]
      no_rejected = Inr plan" using build_opd_anchor_plan_ok [OF fixed_rng_ok b(1)] by metis
  show ?thesis using response_rows_once [OF fixed_rng_ok b r] r by blast
qed

end
