(* ===== verification/Rollout_Align.thy ===== *)
theory Rollout_Align
  imports Customized_Info Opd_Anchor
begin

section \<open>From the rollout to the training plan\<close>

text \<open>
  Model of \<^verbatim>\<open>align_dflash_reject_token_mask\<close> (\<^verbatim>\<open>workers/rollout/sglang_rollout/utils.py\<close>)
  and of the part of \<^verbatim>\<open>async_sglang_server.py\<close> that turns the reject mask of a finished
  request into the reject indices the trainer reads.

  The main theorem composes three components: the mask the inference engine accumulates while it
  commits verified blocks (\<open>Customized_Info\<close>), the alignment done by the rollout server, and the
  anchor plan of the student (\<open>Opd_Anchor\<close>). The blocks the student trains on are the blocks
  the engine committed, with one difference at the first block.
\<close>

subsection \<open>Alignment of the reject mask\<close>

text \<open>Truth value of a Python value; an object without length or \<^verbatim>\<open>__bool__\<close> is true.\<close>

fun py_bool :: "pyval \<Rightarrow> bool" where
  "py_bool VNone = False"
| "py_bool (VBool b) = b"
| "py_bool (VInt i) = (i \<noteq> 0)"
| "py_bool (VFloat x) = (x \<noteq> 0)"
| "py_bool (VStr s) = (s \<noteq> [])"
| "py_bool (VList xs) = (xs \<noteq> [])"
| "py_bool (VTuple xs) = (xs \<noteq> [])"
| "py_bool (VIter xs) = True"
| "py_bool (VTensor v) = py_bool v"

text \<open>What a \<^verbatim>\<open>for\<close> loop over a value yields.\<close>

definition iterate :: "pyval \<Rightarrow> pyval list res" where
  "iterate v = (case v of VList xs \<Rightarrow> Inr xs | VTuple xs \<Rightarrow> Inr xs | VIter xs \<Rightarrow> Inr xs
     | VStr s \<Rightarrow> Inr (map (\<lambda>c. VStr [c]) s) | _ \<Rightarrow> Inl TypeError)"

definition raw_mask_values :: "pyval \<Rightarrow> bool list res" where
  "raw_mask_values raw_mask =
     (if raw_mask = VNone then Inr [] else rbind (iterate (tolist raw_mask)) (\<lambda>xs. Inr (map py_bool xs)))"

definition align_dflash_reject_token_mask :: "pyval \<Rightarrow> int \<Rightarrow> bool list res" where
  "align_dflash_reject_token_mask raw_mask response_len =
     (if response_len \<le> 0 then Inr []
      else rbind (raw_mask_values raw_mask) (\<lambda>raw_values.
        let n = nat response_len in
        if length raw_values = n then Inr (take n raw_values)
        else let aligned = take n (False # raw_values) in
          Inr (if length aligned < n then aligned @ replicate (n - length aligned) False else aligned)))"

record reject_fields =
  dflash_reject_token_indices :: "nat list"
  mask_raw_len :: nat
  mask_aligned_len :: nat
  reject_token_count :: nat
  non_reject_token_count :: nat
  empty_reject_token_indices :: nat

text \<open>\<^verbatim>\<open>len(dflash_reject_token_mask)\<close> raises for a value without a length.\<close>

definition py_len :: "pyval \<Rightarrow> nat res" where
  "py_len v = (case v of VList xs \<Rightarrow> Inr (length xs) | VTuple xs \<Rightarrow> Inr (length xs) | VStr s \<Rightarrow> Inr (length s)
     | VTensor (VList xs) \<Rightarrow> Inr (length xs) | _ \<Rightarrow> Inl TypeError)"

definition dflash_reject_fields :: "pyval \<Rightarrow> int list \<Rightarrow> reject_fields option res" where
  "dflash_reject_fields raw_mask token_ids =
     (if raw_mask = VNone then Inr None
      else rbind (align_dflash_reject_token_mask raw_mask (int (length token_ids))) (\<lambda>aligned.
        rbind (py_len raw_mask) (\<lambda>raw_len.
          let indices = true_indices aligned in
          Inr (Some \<lparr>dflash_reject_token_indices = indices, mask_raw_len = raw_len,
            mask_aligned_len = length aligned, reject_token_count = length indices,
            non_reject_token_count = length token_ids - length indices,
            empty_reject_token_indices = (if token_ids \<noteq> [] \<and> indices = [] then 1 else 0)\<rparr>))))"

subsection \<open>Lemmas on the alignment\<close>

lemma align_length:
  assumes "align_dflash_reject_token_mask raw n = Inr ms"
  shows "length ms = nat n"
proof (cases "n \<le> 0")
  case False
  then obtain vs where vs: "raw_mask_values raw = Inr vs"
    using assms by (auto simp: align_dflash_reject_token_mask_def rbind_eq_Inr)
  then show ?thesis using assms False
    by (auto simp: align_dflash_reject_token_mask_def Let_def min_def split: if_splits)
qed (use assms in \<open>simp add: align_dflash_reject_token_mask_def\<close>)

lemma align_bools:
  "0 < n \<Longrightarrow> length bs = nat n \<Longrightarrow> align_dflash_reject_token_mask (VList (map VBool bs)) n = Inr bs"
  by (simp add: align_dflash_reject_token_mask_def raw_mask_values_def tolist_def iterate_def comp_def)

text \<open>A mask without the prefill token, the shape the comment of the function describes.\<close>

lemma align_bools_shifted:
  "length bs + 1 = nat n \<Longrightarrow> align_dflash_reject_token_mask (VList (map VBool bs)) n = Inr (False # bs)"
  by (simp add: align_dflash_reject_token_mask_def raw_mask_values_def tolist_def iterate_def comp_def)

lemma reject_fields_consistent:
  assumes "dflash_reject_fields raw ids = Inr (Some f)"
  shows "mask_aligned_len f = length ids"
    "reject_token_count f + non_reject_token_count f = length ids"
    "\<forall>i\<in>set (dflash_reject_token_indices f). i < length ids"
    "sorted_wrt (<) (dflash_reject_token_indices f)"
proof -
  obtain ms where ms: "align_dflash_reject_token_mask raw (int (length ids)) = Inr ms"
    and f: "dflash_reject_token_indices f = true_indices ms" "mask_aligned_len f = length ms"
      "reject_token_count f = length (true_indices ms)"
      "non_reject_token_count f = length ids - length (true_indices ms)"
    using assms by (auto simp: dflash_reject_fields_def rbind_eq_Inr Let_def split: if_splits)
  have len: "length ms = length ids" using align_length [OF ms] by simp
  have "length (true_indices ms) \<le> length ms"
    unfolding true_indices_def by (metis length_filter_le diff_zero length_upt)
  then show "reject_token_count f + non_reject_token_count f = length ids" using f len by simp
  show "mask_aligned_len f = length ids" using f len by simp
  show "\<forall>i\<in>set (dflash_reject_token_indices f). i < length ids"
    using f len by (auto simp: set_true_indices)
  show "sorted_wrt (<) (dflash_reject_token_indices f)"
    using f sorted_true_indices [of ms] by (simp add: strict_sorted_iff)
qed

subsection \<open>Reject indices are the ends of the committed blocks\<close>

definition block_ends :: "nat list \<Rightarrow> nat list" where
  "block_ends cs = map2 (+) (starts 0 cs) cs"

lemma starts_shift: "starts (k + d) cs = map (\<lambda>s. s + d) (starts k cs)"
  by (rule nth_equalityI) (simp_all add: nth_starts)

lemma true_indices_block_masks:
  assumes "\<forall>b\<in>set blocks. b \<noteq> []"
  shows "true_indices (False # concat (map block_mask blocks)) = block_ends (map length blocks)"
proof -
  have "map Suc (true_indices (concat (map block_mask blocks)))
      = map2 (+) (starts 0 (map length blocks)) (map length blocks)"
    using assms
  proof (induction blocks)
    case (Cons b bs)
    then have pos: "0 < length b" by simp
    have len: "length (block_mask b) = length b" using pos by (simp add: block_mask_def)
    have one: "true_indices (block_mask b) = [length b - 1]"
      by (simp add: block_mask_def true_indices_append)
    have tail: "map2 (+) (starts (length b) (map length bs)) (map length bs)
        = map (\<lambda>x. x + length b) (map2 (+) (starts 0 (map length bs)) (map length bs))"
      using starts_shift [of 0 "length b" "map length bs"]
      by (simp add: zip_map1 comp_def case_prod_unfold add.assoc add.commute)
    have "map (\<lambda>x. Suc (x + length b)) (true_indices (concat (map block_mask bs)))
        = map (\<lambda>x. x + length b) (map Suc (true_indices (concat (map block_mask bs))))" by simp
    also have "\<dots> = map2 (+) (starts (length b) (map length bs)) (map length bs)"
      unfolding tail using Cons by simp
    finally show ?case using pos by (simp add: true_indices_append len one comp_def)
  qed simp
  then show ?thesis using true_indices_append [of "[False]" "concat (map block_mask blocks)"]
    by (simp add: block_ends_def)
qed

lemma nth_block_ends: "i < length cs \<Longrightarrow> block_ends cs ! i = sum_list (take (Suc i) cs)"
  by (simp add: block_ends_def nth_starts take_Suc_conv_app_nth)

lemma length_block_ends [simp]: "length (block_ends cs) = length cs"
  by (simp add: block_ends_def)

lemma block_ends_strict: "\<forall>c\<in>set cs. 0 < c \<Longrightarrow> sorted_wrt (<) (block_ends cs)"
proof (unfold sorted_wrt_iff_nth_less, intro allI impI)
  fix i j assume pos: "\<forall>c\<in>set cs. 0 < c" and ij: "i < j" "j < length (block_ends cs)"
  have "sum_list (take (Suc i) cs) \<le> sum_list (take j cs)" using ij(1) by (intro sum_list_take_mono) simp
  also have "\<dots> < sum_list (take (Suc j) cs)" using ij(2) pos by (simp add: take_Suc_conv_app_nth)
  finally show "block_ends cs ! i < block_ends cs ! j" using ij by (simp add: nth_block_ends)
qed

lemma block_ends_last: "cs \<noteq> [] \<Longrightarrow> last (block_ends cs) = sum_list cs"
  using last_conv_nth [of "block_ends cs"] nth_block_ends [of "length cs - 1" cs]
  by (cases cs) (auto simp: block_ends_def)

lemma block_ends_bound: "e \<in> set (block_ends cs) \<Longrightarrow> e \<le> sum_list cs"
  by (auto simp: in_set_conv_nth nth_block_ends sum_list_take_le)

lemma block_ends_Cons: "block_ends (c # cs) = c # map ((+) c) (block_ends cs)"
  by (rule nth_equalityI) (auto simp: nth_block_ends nth_Cons split: nat.splits)

text \<open>The boundaries the student derives from such indices are the indices themselves: they are
  sorted, inside the response, and the last one is the last response token.\<close>

lemma boundaries_of_exact:
  assumes "sorted_wrt (<) rs" "\<forall>r\<in>set rs. 0 \<le> r" "rs \<noteq> []" "last rs = n - 1"
  shows "boundaries_of n rs = rs"
proof -
  have le: "r \<le> last rs" if "r \<in> set rs" for r
    using that assms(1,3) by (cases rs rule: rev_cases) (auto simp: sorted_wrt_append)
  have "filter (\<lambda>i. 0 \<le> i \<and> i < n) rs = rs"
    using assms(2,4) le by (force intro: filter_True)
  then have "valid_rejects n rs = rs"
    using assms(1) by (simp add: valid_rejects_def strict_sorted_iff sorted_list_of_set_sort_remdups
        sorted_sort_id distinct_remdups_id)
  then show ?thesis using assms(4) by (simp add: boundaries_of_def)
qed

subsection \<open>The student trains on the committed blocks\<close>

text \<open>The blocks of the response plan for a request whose verify steps committed \<open>c\<close>, \<open>cs\<close>
  tokens: the first starts one token before the response, every later one at the last token of
  the block before it, and each holds as many tokens as the engine committed, at most
  \<open>bs - 1\<close>.\<close>

definition training_blocks :: "int \<Rightarrow> int \<Rightarrow> nat list \<Rightarrow> (int \<times> int) list" where
  "training_blocks bs p cs = (case cs of [] \<Rightarrow> [] | c # ds \<Rightarrow>
     (p - 1, min (int c + 1) (bs - 1))
       # map2 (\<lambda>s d. (p + int s, min (int d) (bs - 1))) (starts c ds) ds)"

lemma zip_block_ends:
  "map (\<lambda>(a, e). (p + a, min (e - a) (bs - 1)))
      (zip (-1 # map int (block_ends cs)) (map int (block_ends cs))) = training_blocks bs p cs"
proof (cases cs)
  case (Cons c ds)
  have nx: "(x # xs) ! (Suc i) = xs ! i" for x :: 'z and xs i by simp
  show ?thesis unfolding Cons training_blocks_def block_ends_Cons
    by (rule nth_equalityI)
      (auto simp: nth_Cons nth_block_ends nth_starts take_Suc_conv_app_nth split: nat.splits)
qed (simp add: training_blocks_def block_ends_def)

text \<open>C23 From rollout to training: when the engine has committed the given blocks after the prefill token, the rollout server
  reports as reject indices exactly the ends of the blocks, and the student (without striding or randomised anchors) plans
  one response block per committed block: the first is anchored at the last token of the prompt and holds the prefill token and the
  tokens of the first committed block, every later one is anchored at the last token of the committed block before it
  and holds the tokens of its own, and each is cut to \<open>draft_block_size - 1\<close> tokens.\<close>

theorem rollout_blocks_trained:
  assumes "customized_info r = None" "output_ids r = [t0]" "blocks \<noteq> []" "\<forall>b\<in>set blocks. b \<noteq> []"
    and "\<not> random_enabled cfg" "response_anchor_stride cfg \<le> 1" "1 \<le> p"
  shows "\<exists>f. dflash_reject_fields (VList (mask_of (fold commit_mask blocks r)))
        (output_ids (fold commit_mask blocks r)) = Inr (Some f)
    \<and> dflash_reject_token_indices f = block_ends (map length blocks)
    \<and> (\<forall>L ids b rejected. p + int (length (output_ids (fold commit_mask blocks r))) \<le> L
        \<longrightarrow> (\<exists>sp. opd_sample_plan random_of cfg L ids b p (int (length (output_ids (fold commit_mask blocks r))))
              (map int (dflash_reject_token_indices f)) rejected = Inr sp
            \<and> take (sp_response_count sp) (sp_blocks sp) = training_blocks (draft_block_size cfg) p (map length blocks)))"
proof -
  define r' where "r' = fold commit_mask blocks r"
  define ms where "ms = False # concat (map block_mask blocks)"
  have "mask_of r = []" using assms(1) by (simp add: mask_of_def info_of_def)
  then have mask: "mask_of r' = map VBool ms"
    using mask_of_commits [OF assms(4) _ assms(3), of r] assms(2) by (simp add: r'_def ms_def pad_to_def)
  have out: "length (output_ids r') = Suc (sum_list (map length blocks))"
  proof -
    have "length (output_ids (fold commit_mask bs q)) = length (output_ids q) + sum_list (map length bs)"
      for bs :: "int list list" and q :: "'a req_meta_scheme" by (induction bs arbitrary: q) auto
    then show ?thesis using assms(2) by (simp add: r'_def)
  qed
  have len: "length ms = length (output_ids r')"
    using assms(4) unfolding ms_def out by (induction blocks) (auto simp: block_mask_def)
  have idx: "true_indices ms = block_ends (map length blocks)"
    unfolding ms_def by (rule true_indices_block_masks [OF assms(4)])
  have al: "align_dflash_reject_token_mask (VList (map VBool ms)) (int (length (output_ids r'))) = Inr ms"
    using out len by (intro align_bools) simp_all
  have bo: "boundaries_of (int (length (output_ids r'))) (map int (block_ends (map length blocks)))
      = map int (block_ends (map length blocks))"
  proof (rule boundaries_of_exact)
    have ne: "block_ends (map length blocks) \<noteq> []"
      using assms(3) length_block_ends [of "map length blocks"] by (metis length_0_conv length_map)
    then show "map int (block_ends (map length blocks)) \<noteq> []" by simp
    show "sorted_wrt (<) (map int (block_ends (map length blocks)))"
      using block_ends_strict [of "map length blocks"] assms(4) by (simp add: sorted_wrt_map)
    show "last (map int (block_ends (map length blocks))) = int (length (output_ids r')) - 1"
      using block_ends_last [of "map length blocks"] assms(3) out ne by (simp add: last_map)
  qed auto
  have plan: "\<exists>sp. opd_sample_plan random_of cfg L ids b p (int (length (output_ids r'))) (map int (block_ends (map length blocks))) rejected = Inr sp
      \<and> take (sp_response_count sp) (sp_blocks sp) = training_blocks (draft_block_size cfg) p (map length blocks)"
    if L: "p + int (length (output_ids r')) \<le> L" for L ids b rejected
  proof -
    obtain sp where sp: "opd_sample_plan random_of cfg L ids b p (int (length (output_ids r'))) (map int (block_ends (map length blocks))) rejected = Inr sp"
      using assms(5) by (simp add: opd_sample_plan_def Let_def)
    then show ?thesis using opd_sample_plan_exact [OF assms(5,6,7) L _ sp] out unfolding bo zip_block_ends by simp
  qed
  have "\<exists>f. dflash_reject_fields (VList (mask_of r')) (output_ids r') = Inr (Some f)
      \<and> dflash_reject_token_indices f = block_ends (map length blocks)"
    by (simp add: dflash_reject_fields_def mask al py_len_def Let_def idx)
  with plan show ?thesis unfolding r'_def [symmetric] by metis
qed

theorem rollout_blocks_trained_witness:
  "\<exists>sp. opd_sample_plan fixed_rng (plain_config 4) 10 [1, 2, 3, 4, 5, 6, 7, 8, 9, 10] 0 4 6 [3, 5] None = Inr sp
    \<and> take (sp_response_count sp) (sp_blocks sp) = [(3, 3), (7, 2)]"
proof -
  let ?r = "\<lparr>output_ids = [5], customized_info = None, send_token_offset = 0, finished_len = None\<rparr>"
  have c: "\<not> random_enabled (plain_config 4)" "response_anchor_stride (plain_config 4) \<le> 1" "draft_block_size (plain_config 4) = 4"
    by (simp_all add: plain_config_def)
  have out: "length (output_ids (fold commit_mask [[7, 8, 9], [4, 6]] ?r)) = 6" by simp
  have be: "block_ends (map length [[7, 8, 9], [4, 6 :: int]]) = [3, 5]" by (simp add: block_ends_def)
  from rollout_blocks_trained [of ?r 5 "[[7, 8, 9], [4, 6]]" "plain_config 4" 4 fixed_rng] c out be
  have "\<exists>sp. opd_sample_plan fixed_rng (plain_config 4) 10 [1, 2, 3, 4, 5, 6, 7, 8, 9, 10] 0 4 6 [3, 5] None = Inr sp
      \<and> take (sp_response_count sp) (sp_blocks sp) = training_blocks 4 4 (map length [[7, 8, 9], [4, 6 :: int]])" by fastforce
  then show ?thesis by (simp add: training_blocks_def)
qed

subsection \<open>The first rollout block has two anchors\<close>

text \<open>The engine anchors the drafts of its first verify step at the prefill token, response index 0,
  while the response plan starts the block of the same tokens at index \<open>-1\<close>. A rejected draft
  of that step therefore adds a second block, anchored at the prefill token.\<close>

lemma training_blocks_anchors:
  assumes "\<forall>c\<in>set cs. 0 < c"
  shows "p \<notin> fst ` set (training_blocks bs p cs)"
proof (cases cs)
  case (Cons c ds)
  have "0 < s" if "s \<in> set (starts c ds)" for s
    using that assms Cons by (auto simp: in_set_conv_nth nth_starts)
  then have "0 \<notin> set (starts c ds)" by blast
  then show ?thesis using Cons by (auto simp: training_blocks_def dest: set_zip_leftD)
qed (simp add: training_blocks_def)

lemma first_block_extra_anchor:
  assumes "\<not> random_enabled cfg" "response_anchor_stride cfg \<le> 1" "include_rejected cfg" "1 \<le> p"
    and "\<forall>c\<in>set cs. 0 < c" "cs \<noteq> []" "n = 1 + int (sum_list cs)" "p + n \<le> L"
    and "0 < offset" "offset < draft_block_size cfg"
    and run: "opd_sample_plan random_of cfg L ids b p n (map int (block_ends cs)) (Some [(True, offset, 0)]) = Inr sp"
  shows "sp_blocks sp = training_blocks (draft_block_size cfg) p cs @ [(p, 0)]"
proof -
  have bo: "boundaries_of n (map int (block_ends cs)) = map int (block_ends cs)"
  proof (rule boundaries_of_exact)
    have ne: "block_ends cs \<noteq> []" using assms(6) length_block_ends [of cs] by (metis length_0_conv)
    then show "map int (block_ends cs) \<noteq> []" by simp
    show "last (map int (block_ends cs)) = n - 1"
      using block_ends_last [OF assms(6)] assms(7) ne by (simp add: last_map)
    show "sorted_wrt (<) (map int (block_ends cs))" using block_ends_strict [OF assms(5)] by (simp add: sorted_wrt_map)
  qed auto
  let ?tb = "training_blocks (draft_block_size cfg) p cs"
  have resp: "take (sp_response_count sp) (sp_blocks sp) = ?tb"
    using opd_sample_plan_exact [OF assms(1,2,4,8) _ run] assms(7) unfolding bo zip_block_ends by simp
  obtain resp where "sp_blocks sp = add_rejected_anchor L (draft_block_size cfg) p n (True, offset, 0) resp"
    "sp_response_count sp = length resp"
    using run assms(1,3) by (auto simp: opd_sample_plan_def Let_def)
  moreover have "add_rejected_anchor L (draft_block_size cfg) p n (True, offset, 0) xs
      = (if p \<in> fst ` set xs then xs else xs @ [(p, 0)])" for xs
    using assms(4,7-10) by (simp add: add_rejected_anchor_def full_anchor_of_def)
  ultimately show ?thesis using resp training_blocks_anchors [OF assms(5)] by (auto split: if_splits)
qed

end
