(* ===== verification/Heapq.thy ===== *)
theory Heapq
  imports Prelude
begin

section \<open>The binary heap of the Python library\<close>

text \<open>
  Model of \<^verbatim>\<open>heapq.heappush\<close>, \<^verbatim>\<open>heapq.heappop\<close> and \<^verbatim>\<open>heapq.heapify\<close>, which \<^verbatim>\<open>utils/seqlen_balancing.py\<close>
  uses to pick the states to merge and the radix cache to pick the leaves to evict. A heap is a list; the comparison is a parameter, as the
  library calls the \<^verbatim>\<open>__lt__\<close> of the items. The locale \<open>min_queue\<close> states what a client
  may rely on: pushing adds an item, popping removes an item than which no other is smaller.
\<close>

subsection \<open>Sifting\<close>

text \<open>\<open>siftdown\<close> carries the item \<open>new\<close> from position \<open>pos\<close> towards the root, moving parents down;
  \<open>siftup\<close> walks the hole at \<open>pos\<close> to a leaf along the smaller children, then sifts back.\<close>

fun siftdown :: "('a \<Rightarrow> 'a \<Rightarrow> bool) \<Rightarrow> 'a \<Rightarrow> nat \<Rightarrow> 'a list \<Rightarrow> nat \<Rightarrow> 'a list" where
  "siftdown lt new startpos heap pos =
     (if startpos < pos then
        let parentpos = (pos - 1) div 2; parent = heap ! parentpos in
        if lt new parent then siftdown lt new startpos (heap[pos := parent]) parentpos
        else heap[pos := new]
      else heap[pos := new])"

declare siftdown.simps [simp del]

definition min_child :: "('a \<Rightarrow> 'a \<Rightarrow> bool) \<Rightarrow> 'a list \<Rightarrow> nat \<Rightarrow> nat" where
  "min_child lt heap childpos = (let rightpos = childpos + 1 in
     if rightpos < length heap \<and> \<not> lt (heap ! childpos) (heap ! rightpos) then rightpos else childpos)"

lemma min_child_bounds: "childpos < length heap \<Longrightarrow> childpos \<le> min_child lt heap childpos \<and> min_child lt heap childpos < length heap"
  by (auto simp: min_child_def Let_def)

function siftup :: "('a \<Rightarrow> 'a \<Rightarrow> bool) \<Rightarrow> 'a \<Rightarrow> nat \<Rightarrow> 'a list \<Rightarrow> nat \<Rightarrow> 'a list" where
  "siftup lt new startpos heap pos =
     (let childpos = 2 * pos + 1 in
      if childpos < length heap then
        let c = min_child lt heap childpos in siftup lt new startpos (heap[pos := heap ! c]) c
      else siftdown lt new startpos (heap[pos := new]) pos)"
  by pat_completeness auto
termination
proof (relation "measure (\<lambda>(lt, new, startpos, heap, pos). length heap - pos)")
  fix lt :: "'a \<Rightarrow> 'a \<Rightarrow> bool" and new startpos heap and pos childpos c :: nat
  assume "childpos = 2 * pos + 1" "childpos < length heap" "c = min_child lt heap childpos"
  then have "pos < c" "c < length heap" using min_child_bounds [of childpos heap lt] by auto
  then show "((lt, new, startpos, heap[pos := heap ! c], c), lt, new, startpos, heap, pos)
      \<in> measure (\<lambda>(lt, new, startpos, heap, pos). length heap - pos)" by simp
qed simp

declare siftup.simps [simp del]

definition heappush :: "('a \<Rightarrow> 'a \<Rightarrow> bool) \<Rightarrow> 'a list \<Rightarrow> 'a \<Rightarrow> 'a list" where
  "heappush lt heap item = siftdown lt item 0 (heap @ [item]) (length heap)"

definition heappop :: "('a \<Rightarrow> 'a \<Rightarrow> bool) \<Rightarrow> 'a list \<Rightarrow> ('a \<times> 'a list) res" where
  "heappop lt heap =
     (if heap = [] then Inl IndexError
      else let lastelt = last heap; rest = butlast heap in
        if rest = [] then Inr (lastelt, rest)
        else Inr (hd rest, siftup lt lastelt 0 (rest[0 := lastelt]) 0))"

text \<open>\<^verbatim>\<open>heapify\<close> repairs the positions that have children, from the last to the first.\<close>

definition heapify :: "('a \<Rightarrow> 'a \<Rightarrow> bool) \<Rightarrow> 'a list \<Rightarrow> 'a list" where
  "heapify lt x = fold (\<lambda>i heap. siftup lt (heap ! i) i heap i) (rev [0..<length x div 2]) x"

subsection \<open>The items are kept\<close>

lemma mset_move:
  assumes "i < length xs" "j < length xs" "i \<noteq> j"
  shows "mset (xs[i := xs ! j, j := v]) = mset (xs[i := v])"
proof -
  define ys where "ys = xs[i := v]"
  have "xs[i := xs ! j, j := v] = ys[i := ys ! j, j := ys ! i]"
    using assms by (simp add: ys_def list_eq_iff_nth_eq nth_list_update)
  moreover have "mset (ys[i := ys ! j, j := ys ! i]) = mset ys"
    using assms by (intro mset_swap) (simp_all add: ys_def)
  ultimately show ?thesis by (simp add: ys_def)
qed

lemma mset_siftdown: "pos < length heap \<Longrightarrow> mset (siftdown lt new startpos heap pos) = mset (heap[pos := new])"
proof (induction lt new startpos heap pos rule: siftdown.induct)
  case (1 lt new startpos heap pos)
  let ?p = "(pos - 1) div 2"
  show ?case
  proof (cases "startpos < pos \<and> lt new (heap ! ?p)")
    case True
    then have "?p < pos" by (cases pos) auto
    then have "mset (siftdown lt new startpos (heap[pos := heap ! ?p]) ?p) = mset (heap[pos := heap ! ?p, ?p := new])"
      using 1 True by simp
    also have "\<dots> = mset (heap[pos := new])" using mset_move [of pos heap ?p new] \<open>?p < pos\<close> 1(2) by simp
    finally show ?thesis using True by (simp add: siftdown.simps [of lt new startpos heap pos] Let_def)
  qed (auto simp: siftdown.simps [of lt new startpos heap pos] Let_def)
qed

lemma mset_siftup: "pos < length heap \<Longrightarrow> mset (siftup lt new startpos heap pos) = mset (heap[pos := new])"
proof (induction lt new startpos heap pos rule: siftup.induct)
  case (1 lt new startpos heap pos)
  let ?l = "2 * pos + 1"
  let ?c = "min_child lt heap ?l"
  show ?case
  proof (cases "?l < length heap")
    case True
    then have c: "pos < ?c" "?c < length heap" using min_child_bounds [OF True, of lt] by auto
    have "mset (siftup lt new startpos (heap[pos := heap ! ?c]) ?c) = mset (heap[pos := heap ! ?c, ?c := new])"
      using 1(1) [OF refl True refl] c by simp
    also have "\<dots> = mset (heap[pos := new])" using mset_move [of pos heap ?c new] c by simp
    finally show ?thesis using True by (simp add: siftup.simps [of lt new startpos heap pos] Let_def)
  next
    case False
    then show ?thesis using 1(2) mset_siftdown [of pos "heap[pos := new]" lt new startpos]
      by (simp add: siftup.simps [of lt new startpos heap pos] Let_def)
  qed
qed

lemma mset_heappush: "mset (heappush lt heap x) = add_mset x (mset heap)"
  by (simp add: heappush_def mset_siftdown)

lemma mset_heappop:
  assumes "heappop lt heap = Inr (x, rest)"
  shows "mset heap = add_mset x (mset rest)"
proof -
  have ne: "heap \<noteq> []" using assms by (auto simp: heappop_def)
  then obtain xs l where h: "heap = xs @ [l]" by (cases heap rule: rev_cases) auto
  show ?thesis
  proof (cases xs)
    case Nil
    then show ?thesis using assms by (simp add: h heappop_def)
  next
    case (Cons y ys)
    then show ?thesis using assms mset_siftup [of 0 "l # ys" lt l 0] by (auto simp: h heappop_def)
  qed
qed

lemma mset_heapify: "mset (heapify lt x) = mset x"
proof -
  have kept: "mset (fold (\<lambda>i heap. siftup lt (heap ! i) i heap i) is h) = mset h \<and> length (fold (\<lambda>i heap. siftup lt (heap ! i) i heap i) is h) = length h"
    if "\<forall>i\<in>set is. i < length h" for "is" and h :: "'a list"
    using that
  proof (induction "is" arbitrary: h)
    case (Cons i "is")
    let ?h = "siftup lt (h ! i) i h i"
    have m: "mset ?h = mset h" using Cons.prems mset_siftup [of i h lt "h ! i" i] by simp
    then have "length ?h = length h" by (rule mset_eq_length)
    then show ?case using Cons.IH [of ?h] Cons.prems m by simp
  qed simp
  have "\<forall>i\<in>set (rev [0..<length x div 2]). i < length x" by auto
  from kept [OF this] show ?thesis unfolding heapify_def by blast
qed

lemma length_heappush [simp]: "length (heappush lt heap x) = Suc (length heap)"
  using arg_cong [OF mset_heappush [of lt heap x], of size] by simp

lemma length_heappop: "heappop lt heap = Inr (x, rest) \<Longrightarrow> length heap = Suc (length rest)"
  using arg_cong [OF mset_heappop, of lt heap x rest size] by simp

lemma heappop_total: "heap \<noteq> [] \<Longrightarrow> \<exists>x rest. heappop lt heap = Inr (x, rest)"
  by (simp add: heappop_def Let_def)

subsection \<open>Heap order\<close>

text \<open>What sorting and heaps rely on of a comparison: \<open>\<not> lt y x\<close> is a total preorder.\<close>

definition weak_order :: "('a \<Rightarrow> 'a \<Rightarrow> bool) \<Rightarrow> bool" where
  "weak_order lt \<longleftrightarrow> (\<forall>x y. lt x y \<longrightarrow> \<not> lt y x) \<and> (\<forall>x y z. \<not> lt y x \<longrightarrow> \<not> lt z y \<longrightarrow> \<not> lt z x)"

lemma weak_irr: "weak_order lt \<Longrightarrow> \<not> lt x x"
  unfolding weak_order_def by blast

lemma weak_asym: "weak_order lt \<Longrightarrow> lt x y \<Longrightarrow> \<not> lt y x"
  unfolding weak_order_def by blast

lemma weak_trans: "weak_order lt \<Longrightarrow> \<not> lt b a \<Longrightarrow> \<not> lt c b \<Longrightarrow> \<not> lt c a"
  unfolding weak_order_def by blast

definition parent_of :: "nat \<Rightarrow> nat" where
  "parent_of i = (i - 1) div 2"

lemma parent_less: "0 < i \<Longrightarrow> parent_of i < i"
  by (simp add: parent_of_def)

definition is_heap :: "('a \<Rightarrow> 'a \<Rightarrow> bool) \<Rightarrow> 'a list \<Rightarrow> bool" where
  "is_heap lt h \<longleftrightarrow> (\<forall>i. 0 < i \<longrightarrow> i < length h \<longrightarrow> \<not> lt (h ! i) (h ! parent_of i))"

text \<open>All edges but the one above \<open>pos\<close> are in order, and the children of \<open>pos\<close> are not smaller than
  its parent.\<close>

definition heap_above :: "('a \<Rightarrow> 'a \<Rightarrow> bool) \<Rightarrow> 'a list \<Rightarrow> nat \<Rightarrow> bool" where
  "heap_above lt g pos \<longleftrightarrow>
     (\<forall>i. 0 < i \<longrightarrow> i < length g \<longrightarrow> i \<noteq> pos \<longrightarrow> \<not> lt (g ! i) (g ! parent_of i))
   \<and> (\<forall>i. 0 < i \<longrightarrow> i < length g \<longrightarrow> 0 < pos \<longrightarrow> parent_of i = pos \<longrightarrow> \<not> lt (g ! i) (g ! parent_of pos))"

lemma heap_above_step:
  assumes wo: "weak_order lt" and ha: "heap_above lt (h[pos := new]) pos" and pos: "0 < pos" "pos < length h"
    and up: "lt new (h ! parent_of pos)"
  shows "heap_above lt (h[pos := h ! parent_of pos, parent_of pos := new]) (parent_of pos)"
proof -
  define p where "p = parent_of pos"
  let ?g = "h[pos := new]" and ?g' = "h[pos := h ! p, p := new]"
  have pp: "p < pos" "p < length h" using pos parent_less [of pos] by (simp_all add: p_def)
  have lt_p: "\<not> lt (h ! p) new" using weak_asym [OF wo up] by (simp add: p_def)
  note tr = weak_trans [OF wo]
  have edge: "\<not> lt (?g ! i) (?g ! parent_of i)" if "0 < i" "i < length h" "i \<noteq> pos" for i
    using ha that by (simp add: heap_above_def)
  have below: "\<not> lt (h ! i) (h ! p)" if "0 < i" "i < length h" "parent_of i = pos" for i
  proof -
    have "\<not> lt (?g ! i) (?g ! p)" using ha that pos by (simp add: heap_above_def p_def)
    then show ?thesis using pp that parent_less [of i] by simp
  qed
  have above: "\<not> lt (h ! p) (h ! parent_of p)" if "0 < p"
    using edge [of p] that pp parent_less [of p] by simp
  have sib: "\<not> lt (h ! i) (h ! p)" if "0 < i" "i < length h" "i \<noteq> pos" "parent_of i = p" for i
    using edge [of i] that pp by simp
  have "\<not> lt (?g' ! i) (?g' ! parent_of i)" if i: "0 < i" "i < length h" "i \<noteq> p" for i
  proof -
    consider "i = pos" | "i \<noteq> pos" "parent_of i = pos" | "i \<noteq> pos" "parent_of i = p"
      | "i \<noteq> pos" "parent_of i \<noteq> pos" "parent_of i \<noteq> p" by blast
    then show ?thesis
    proof cases
      case 1 then show ?thesis using lt_p pp pos by (simp add: p_def [symmetric])
    next
      case 2 then show ?thesis using below [of i] i pp pos by simp
    next
      case 3
      have "\<not> lt (h ! i) new" using tr [OF lt_p sib [of i]] 3 i by simp
      then show ?thesis using 3 i pp by simp
    next
      case 4 then show ?thesis using edge [of i] i by simp
    qed
  qed
  moreover have "\<not> lt (?g' ! i) (?g' ! parent_of p)" if i: "0 < i" "i < length h" "0 < p" "parent_of i = p" for i
  proof -
    have ip: "i \<noteq> p" using parent_less [OF i(1)] i(4) by simp
    have pq: "parent_of p \<noteq> pos" "parent_of p \<noteq> p" using pp parent_less [OF i(3)] by auto
    have "\<not> lt (?g' ! i) (h ! parent_of p)"
      using above [OF i(3)] tr [OF above [OF i(3)] sib [of i]] i ip pp pos by (cases "i = pos") simp_all
    then show ?thesis using pq by simp
  qed
  ultimately show ?thesis unfolding heap_above_def p_def by simp
qed

lemma heap_above_root:
  assumes "heap_above lt g pos" "pos = 0 \<or> \<not> lt (g ! pos) (g ! parent_of pos)"
  shows "is_heap lt g"
  using assms by (auto simp: heap_above_def is_heap_def)

lemma siftdown_heap:
  assumes "weak_order lt" "heap_above lt (heap[pos := new]) pos" "pos < length heap"
  shows "is_heap lt (siftdown lt new 0 heap pos)"
  using assms(2,3)
proof (induction pos arbitrary: heap rule: less_induct)
  case (less pos)
  note unfold = siftdown.simps [of lt new 0 heap pos]
  show ?case
  proof (cases "0 < pos \<and> lt new (heap ! parent_of pos)")
    case True
    then have step: "heap_above lt (heap[pos := heap ! parent_of pos, parent_of pos := new]) (parent_of pos)"
      using heap_above_step [OF assms(1) less.prems(1)] less.prems(2) by simp
    have p: "parent_of pos < pos" using True parent_less by simp
    have "siftdown lt new 0 heap pos = siftdown lt new 0 (heap[pos := heap ! parent_of pos]) (parent_of pos)"
      unfolding unfold using True by (simp add: parent_of_def Let_def)
    then show ?thesis using less.IH [OF p step] p less.prems(2) by simp
  next
    case False
    then have "siftdown lt new 0 heap pos = heap[pos := new]"
      unfolding unfold by (auto simp: parent_of_def Let_def)
    moreover have "pos = 0 \<or> \<not> lt (heap[pos := new] ! pos) (heap[pos := new] ! parent_of pos)"
      using False less.prems(2) parent_less [of pos] by auto
    ultimately show ?thesis using heap_above_root [OF less.prems(1)] by simp
  qed
qed

text \<open>With a hole at \<open>pos\<close>: all edges not touching it are in order, and its children are not
  smaller than its parent.\<close>

definition heap_hole :: "('a \<Rightarrow> 'a \<Rightarrow> bool) \<Rightarrow> 'a list \<Rightarrow> nat \<Rightarrow> bool" where
  "heap_hole lt h pos \<longleftrightarrow>
     (\<forall>i. 0 < i \<longrightarrow> i < length h \<longrightarrow> i \<noteq> pos \<longrightarrow> parent_of i \<noteq> pos \<longrightarrow> \<not> lt (h ! i) (h ! parent_of i))
   \<and> (\<forall>i. 0 < i \<longrightarrow> i < length h \<longrightarrow> 0 < pos \<longrightarrow> parent_of i = pos \<longrightarrow> \<not> lt (h ! i) (h ! parent_of pos))"

lemma children: "0 < i \<Longrightarrow> parent_of i = pos \<longleftrightarrow> i = 2 * pos + 1 \<or> i = 2 * pos + 2"
  unfolding parent_of_def by presburger

lemma min_child_least:
  assumes "weak_order lt" "0 < i" "i < length h" "parent_of i = pos"
  shows "\<not> lt (h ! i) (h ! min_child lt h (2 * pos + 1))"
proof -
  note irr = weak_irr [OF assms(1)] and asym = weak_asym [OF assms(1)]
  consider "i = 2 * pos + 1" | "i = 2 * pos + 2" using children [OF assms(2)] assms(4) by blast
  then show ?thesis
  proof cases
    case 1 then show ?thesis using irr by (simp add: min_child_def Let_def)
  next
    case 2 then show ?thesis using irr asym assms(3) by (simp add: min_child_def Let_def)
  qed
qed

lemma heap_hole_step:
  assumes wo: "weak_order lt" and hh: "heap_hole lt h pos" and child: "2 * pos + 1 < length h"
  defines "c \<equiv> min_child lt h (2 * pos + 1)"
  shows "heap_hole lt (h[pos := h ! c]) c"
proof -
  have c: "pos < c" "c < length h" "parent_of c = pos" "0 < c"
    using min_child_bounds [OF child, of lt] children [of c pos] by (auto simp: c_def min_child_def Let_def)
  have old: "\<not> lt (h ! i) (h ! parent_of i)" if "0 < i" "i < length h" "i \<noteq> pos" "parent_of i \<noteq> pos" for i
    using hh that by (simp add: heap_hole_def)
  have below: "\<not> lt (h ! i) (h ! parent_of pos)" if "0 < i" "i < length h" "0 < pos" "parent_of i = pos" for i
    using hh that by (simp add: heap_hole_def)
  have e1: "\<not> lt (h[pos := h ! c] ! i) (h[pos := h ! c] ! parent_of i)"
    if i: "0 < i" "i < length h" "i \<noteq> c" "parent_of i \<noteq> c" for i
  proof -
    consider "i = pos" | "i \<noteq> pos" "parent_of i = pos" | "i \<noteq> pos" "parent_of i \<noteq> pos" by blast
    then show ?thesis
    proof cases
      case 1
      then have "parent_of pos \<noteq> pos" using i(1) parent_less by (metis less_irrefl)
      then show ?thesis using 1 i below [of c] c by simp
    next
      case 2
      have "\<not> lt (h ! i) (h ! c)" unfolding c_def using min_child_least [OF wo i(1,2) 2(2)] .
      then show ?thesis using 2 c i by simp
    next
      case 3 then show ?thesis using old [of i] i by simp
    qed
  qed
  have e2: "\<not> lt (h[pos := h ! c] ! i) (h[pos := h ! c] ! parent_of c)" if i: "0 < i" "i < length h" "parent_of i = c" for i
  proof -
    have "i \<noteq> pos" using i c(1) parent_less [OF i(1)] by simp
    then show ?thesis using old [of i] i c by simp
  qed
  show ?thesis unfolding heap_hole_def using e1 e2 by simp
qed

lemma siftup_heap:
  assumes "weak_order lt" "heap_hole lt heap pos" "pos < length heap"
  shows "is_heap lt (siftup lt new 0 heap pos)"
  using assms(2,3)
proof (induction "length heap - pos" arbitrary: heap pos rule: less_induct)
  case less
  note unfold = siftup.simps [of lt new 0 heap pos]
  show ?case
  proof (cases "2 * pos + 1 < length heap")
    case True
    let ?c = "min_child lt heap (2 * pos + 1)"
    have c: "pos < ?c" "?c < length heap" using min_child_bounds [OF True, of lt] by auto
    have "siftup lt new 0 heap pos = siftup lt new 0 (heap[pos := heap ! ?c]) ?c"
      unfolding unfold using True by (simp add: Let_def)
    then show ?thesis
      using less.hyps [of "heap[pos := heap ! ?c]" ?c] heap_hole_step [OF assms(1) less.prems(1) True] c by simp
  next
    case False
    have leaf: "parent_of i \<noteq> pos" if "0 < i" "i < length heap" for i
      using children [OF that(1)] that(2) False by auto
    have same: "heap[pos := new] ! parent_of i = heap ! parent_of i" if "0 < i" "i < length heap" for i
      using leaf [OF that] by simp
    have "heap_above lt (heap[pos := new]) pos"
      using less.prems leaf same by (simp add: heap_above_def heap_hole_def)
    then have "is_heap lt (siftdown lt new 0 (heap[pos := new]) pos)"
      using siftdown_heap [OF assms(1), of "heap[pos := new]" pos new] less.prems(2) by simp
    then show ?thesis unfolding unfold using False by (simp add: Let_def)
  qed
qed

lemma heap_root_least: "weak_order lt \<Longrightarrow> is_heap lt h \<Longrightarrow> i < length h \<Longrightarrow> \<not> lt (h ! i) (h ! 0)"
proof (induction i rule: less_induct)
  case (less i)
  show ?case
  proof (cases "i = 0")
    case False
    then have "parent_of i < i" by (simp add: parent_less)
    then show ?thesis using weak_trans [OF less.prems(1) less.IH] less.prems False by (simp add: is_heap_def)
  qed (use weak_irr [OF less.prems(1)] in simp)
qed

lemma heappush_heap:
  assumes "weak_order lt" "is_heap lt h"
  shows "is_heap lt (heappush lt h x)"
proof -
  have "heap_above lt (h @ [x]) (length h)"
    unfolding heap_above_def
  proof (intro conjI allI impI)
    fix i assume i: "0 < i" "i < length (h @ [x])" "i \<noteq> length h"
    then show "\<not> lt ((h @ [x]) ! i) ((h @ [x]) ! parent_of i)"
      using assms(2) parent_less [OF i(1)] by (simp add: is_heap_def nth_append)
  next
    fix i assume i: "0 < i" "i < length (h @ [x])" "parent_of i = length h"
    then show "\<not> lt ((h @ [x]) ! i) ((h @ [x]) ! parent_of (length h))" using parent_less [OF i(1)] by simp
  qed
  then show ?thesis using siftdown_heap [OF assms(1), of "h @ [x]" "length h" x] by (simp add: heappush_def)
qed

lemma heappop_heap:
  assumes "weak_order lt" "is_heap lt h" "heappop lt h = Inr (x, rest)"
  shows "is_heap lt rest \<and> (\<forall>y\<in>set h. \<not> lt y x)"
proof -
  have "h \<noteq> []" using assms(3) by (auto simp: heappop_def)
  then obtain b l where h: "h = b @ [l]" by (cases h rule: rev_cases) auto
  have x: "x = h ! 0"
    using assms(3) by (cases b) (auto simp: h heappop_def)
  have least: "\<forall>y\<in>set h. \<not> lt y x"
    using heap_root_least [OF assms(1,2)] x by (auto simp: in_set_conv_nth)
  show ?thesis
  proof (cases "b = []")
    case True
    then show ?thesis using assms(3) least by (auto simp: h heappop_def is_heap_def)
  next
    case False
    have hb: "\<not> lt (b ! i) (b ! parent_of i)" if "0 < i" "i < length b" for i
    proof -
      have "\<not> lt (h ! i) (h ! parent_of i)" using assms(2) that by (simp add: is_heap_def h)
      then show ?thesis using that parent_less [of i] by (simp add: h nth_append)
    qed
    have "b[0 := l] ! i = b ! i" if "0 < i" for i using that by simp
    then have "heap_hole lt (b[0 := l]) 0" using hb by (simp add: heap_hole_def)
    then have "is_heap lt (siftup lt l 0 (b[0 := l]) 0)"
      using siftup_heap [OF assms(1)] False by simp
    then show ?thesis using assms(3) False least by (auto simp: h heappop_def)
  qed
qed

subsection \<open>The interface\<close>

text \<open>What a client of a priority queue relies on. \<open>elems\<close> are the items in the queue, \<open>inv\<close> its
  invariant.\<close>

locale min_queue =
  fixes inv :: "'q \<Rightarrow> bool"
    and elems :: "'q \<Rightarrow> 'a multiset"
    and empty_q :: 'q
    and push :: "'q \<Rightarrow> 'a \<Rightarrow> 'q"
    and pop :: "'q \<Rightarrow> ('a \<times> 'q) res"
    and lt :: "'a \<Rightarrow> 'a \<Rightarrow> bool"
  assumes inv_empty: "inv empty_q" "elems empty_q = {#}"
    and push_inv: "inv q \<Longrightarrow> inv (push q x)"
    and push_elems: "elems (push q x) = add_mset x (elems q)"
    and pop_total: "elems q \<noteq> {#} \<Longrightarrow> \<exists>x q'. pop q = Inr (x, q')"
    and pop_elems: "pop q = Inr (x, q') \<Longrightarrow> elems q = add_mset x (elems q')"
    and pop_least: "inv q \<Longrightarrow> pop q = Inr (x, q') \<Longrightarrow> inv q' \<and> (\<forall>y\<in>#elems q. \<not> lt y x)"
begin

lemma push_all:
  "inv q \<Longrightarrow> inv (fold (\<lambda>x q. push q x) xs q)"
  "elems (fold (\<lambda>x q. push q x) xs q) = elems q + mset xs"
  by (induction xs arbitrary: q) (auto simp: push_inv push_elems)

text \<open>Two successive pops return the two least items: the first is least in the queue, the second
  least among the others.\<close>

lemma pop_two:
  assumes "inv q" "2 \<le> size (elems q)"
  obtains x y q' where "\<exists>q1. pop q = Inr (x, q1) \<and> pop q1 = Inr (y, q')" "inv q'" "elems q = {#x, y#} + elems q'"
    and "\<forall>z\<in>#elems q. \<not> lt z x" "\<forall>z\<in>#add_mset y (elems q'). \<not> lt z y"
proof -
  from assms(2) have "elems q \<noteq> {#}" by auto
  then obtain x q1 where p1: "pop q = Inr (x, q1)" using pop_total by blast
  have e1: "elems q = add_mset x (elems q1)" using pop_elems [OF p1] .
  have i1: "inv q1" "\<forall>z\<in>#elems q. \<not> lt z x" using pop_least [OF assms(1) p1] by auto
  from e1 assms(2) have "elems q1 \<noteq> {#}" by auto
  then obtain y q' where p2: "pop q1 = Inr (y, q')" using pop_total by blast
  show thesis
    using that [of x y q'] p1 p2 i1 e1 pop_elems [OF p2] pop_least [OF i1(1) p2] by auto
qed

end

text \<open>The heap provides the interface for every comparison that is a weak order.\<close>

lemma heap_min_queue:
  assumes "weak_order lt"
  shows "min_queue (is_heap lt) mset [] (heappush lt) (heappop lt) lt"
proof unfold_locales
  show "is_heap lt q' \<and> (\<forall>y\<in>#mset q. \<not> lt y x)" if "is_heap lt q" "heappop lt q = Inr (x, q')" for q x q'
    using heappop_heap [OF assms that] by simp
qed (use assms in \<open>simp_all add: is_heap_def [of _ "[]"] mset_heappush heappush_heap heappop_total mset_heappop\<close>)

end
