(* ===== verification/Seqlen_Balancing.thy ===== *)
theory Seqlen_Balancing
  imports Heapq "HOL-Library.List_Lexorder" "HOL-Library.Product_Lexorder"
begin

section \<open>Balancing sequence lengths over partitions\<close>

text \<open>
  Model of \<^verbatim>\<open>verl/utils/seqlen_balancing.py\<close>: the largest differencing method with its heap of
  states, the greedy alternative, the checks of \<^verbatim>\<open>get_seqlen_balanced_partitions\<close>, the
  division of a batch into micro-batches and its inverse, and the partition that keeps samples of
  one prompt together. Workloads are integers, indices natural numbers. The all-reduce that
  agrees on a number of micro-batches is a parameter.
\<close>

definition calculate_workload :: "int \<Rightarrow> int" where
  "calculate_workload seqlen = 24576 * seqlen + seqlen ^ 2"

subsection \<open>Sets of items\<close>

datatype kk_set = KSet (set_sum: int) (set_items: "(nat \<times> int) list")

definition empty_set :: kk_set where
  "empty_set = KSet 0 []"

definition set_add :: "nat \<Rightarrow> int \<Rightarrow> kk_set \<Rightarrow> kk_set" where
  "set_add idx val s = KSet (set_sum s + val) (set_items s @ [(idx, val)])"

definition set_merge :: "kk_set \<Rightarrow> kk_set \<Rightarrow> kk_set" where
  "set_merge self other = fold (\<lambda>(idx, val). set_add idx val) (set_items other) self"

text \<open>\<^verbatim>\<open>Set.__lt__\<close> compares sums, then numbers of items, then the items lexicographically; it is a
  linear order.\<close>

instantiation kk_set :: linorder
begin

definition less_kk_set :: "kk_set \<Rightarrow> kk_set \<Rightarrow> bool" where
  "less_kk_set self other =
     (if set_sum self \<noteq> set_sum other then set_sum self < set_sum other
      else if length (set_items self) \<noteq> length (set_items other)
        then length (set_items self) < length (set_items other)
      else set_items self < set_items other)"

definition less_eq_kk_set :: "kk_set \<Rightarrow> kk_set \<Rightarrow> bool" where
  "less_eq_kk_set self other \<longleftrightarrow> self < other \<or> self = other"

instance
proof
  fix x y z :: kk_set
  show "x < y \<longleftrightarrow> x \<le> y \<and> \<not> y \<le> x" by (auto simp: less_eq_kk_set_def less_kk_set_def split: if_splits)
  show "x \<le> x" by (simp add: less_eq_kk_set_def)
  show "x \<le> y \<Longrightarrow> y \<le> z \<Longrightarrow> x \<le> z" by (auto simp: less_eq_kk_set_def less_kk_set_def split: if_splits)
  show "x \<le> y \<Longrightarrow> y \<le> x \<Longrightarrow> x = y" by (auto simp: less_eq_kk_set_def less_kk_set_def split: if_splits)
  show "x \<le> y \<or> y \<le> x"
    by (cases x; cases y) (auto simp: less_eq_kk_set_def less_kk_set_def not_less split: if_splits)
qed

end

text \<open>\<^verbatim>\<open>sorted(sets, reverse=True)\<close>: elements that compare equal are equal here, so the stability of
  the sort does not show.\<close>

definition sorted_desc :: "kk_set list \<Rightarrow> kk_set list" where
  "sorted_desc xs = rev (sort xs)"

subsection \<open>States\<close>

type_synonym kk_state = "kk_set list"

definition state_init :: "(nat \<times> int) list \<Rightarrow> nat \<Rightarrow> kk_state res" where
  "state_init items k =
     rbind (require (length items = 1 \<or> length items = k) AssertionError) (\<lambda>_.
     rbind (require (length items \<le> k) IndexError) (\<lambda>_.
       Inr (sorted_desc (map (\<lambda>(idx, seqlen). set_add idx seqlen empty_set) items
              @ replicate (k - length items) empty_set))))"

definition state_merge :: "kk_state \<Rightarrow> kk_state \<Rightarrow> kk_state" where
  "state_merge self other = sorted_desc (map2 set_merge self (rev other))"

definition get_partitions :: "kk_state \<Rightarrow> nat list list" where
  "get_partitions s = map (\<lambda>st. map fst (set_items st)) s"

definition spread :: "kk_state \<Rightarrow> int" where
  "spread s = set_sum (hd s) - set_sum (last s)"

definition state_lt :: "kk_state \<Rightarrow> kk_state \<Rightarrow> bool" where
  "state_lt self other =
     (if spread self \<noteq> spread other then spread self > spread other else hd self > hd other)"

subsection \<open>The largest differencing method\<close>

function kk_loop :: "kk_state list \<Rightarrow> kk_state list res" where
  "kk_loop states_pq =
     (if 1 < length states_pq then
        rbind (heappop state_lt states_pq) (\<lambda>(state0, pq1).
        rbind (heappop state_lt pq1) (\<lambda>(state1, pq2).
          kk_loop (heappush state_lt pq2 (state_merge state0 state1))))
      else Inr states_pq)"
  by pat_completeness auto
termination
  by (relation "measure length") (auto dest!: length_heappop)

declare kk_loop.simps [simp del]

definition initial_states :: "int list \<Rightarrow> nat \<Rightarrow> bool \<Rightarrow> kk_state list res" where
  "initial_states seqlen_list k equal_size =
     (let items = map (\<lambda>(seqlen, i). (i, seqlen)) (sort (zip seqlen_list [0..<length seqlen_list])) in
      if equal_size then
        rbind (require (k \<noteq> 0) ZeroDivisionError) (\<lambda>_.
        rbind (require (length seqlen_list mod k = 0) AssertionError) (\<lambda>_.
          rmap (\<lambda>group. state_init group k) (rows (length items div k) k items)))
      else rmap (\<lambda>item. state_init [item] k) items)"

definition check_equal_sizes :: "int list \<Rightarrow> nat \<Rightarrow> nat list list \<Rightarrow> unit res" where
  "check_equal_sizes seqlen_list k partitions =
     require (\<forall>p\<in>set partitions. length p * k = length seqlen_list) AssertionError"

definition karmarkar_karp :: "int list \<Rightarrow> nat \<Rightarrow> bool \<Rightarrow> nat list list res" where
  "karmarkar_karp seqlen_list k equal_size =
     rbind (initial_states seqlen_list k equal_size) (\<lambda>states.
     rbind (kk_loop (fold (\<lambda>s pq. heappush state_lt pq s) states [])) (\<lambda>pq.
       case pq of [] \<Rightarrow> Inl IndexError
       | final_state # _ \<Rightarrow>
           let partitions = get_partitions final_state in
           rbind (if equal_size then check_equal_sizes seqlen_list k partitions else Inr ())
             (\<lambda>_. Inr partitions)))"

definition check_and_sort_partitions :: "int list \<Rightarrow> nat \<Rightarrow> nat list list \<Rightarrow> nat list list res" where
  "check_and_sort_partitions seqlen_list k partitions =
     rbind (require (length partitions = k) AssertionError) (\<lambda>_.
     rbind (require ([] \<notin> set partitions) AssertionError) (\<lambda>_.
     rbind (require (set (concat partitions) = {0..<length seqlen_list}) AssertionError) (\<lambda>_.
       Inr (map sort partitions))))"

definition get_seqlen_balanced_partitions :: "int list \<Rightarrow> nat \<Rightarrow> bool \<Rightarrow> nat list list res" where
  "get_seqlen_balanced_partitions seqlen_list k equal_size =
     rbind (require (k \<le> length seqlen_list) AssertionError) (\<lambda>_.
     rbind (karmarkar_karp seqlen_list k equal_size) (check_and_sort_partitions seqlen_list k))"

subsection \<open>Greedy assignment\<close>

text \<open>The first index with the smallest sum.\<close>

definition first_min :: "int list \<Rightarrow> nat option" where
  "first_min sums = fold (\<lambda>j m. case m of None \<Rightarrow> Some j | Some i \<Rightarrow> if sums ! j < sums ! i then Some j else Some i)
     [0..<length sums] None"

definition greedy_step :: "nat list list \<times> int list \<Rightarrow> int \<times> nat \<Rightarrow> (nat list list \<times> int list) res" where
  "greedy_step st item = (case (st, item) of ((partitions, sums), (seqlen, i)) \<Rightarrow>
     case first_min sums of None \<Rightarrow> Inl TypeError
     | Some m \<Rightarrow> Inr (partitions[m := partitions ! m @ [i]], sums[m := sums ! m + seqlen]))"

definition greedy_partition :: "int list \<Rightarrow> nat \<Rightarrow> bool \<Rightarrow> nat list list res" where
  "greedy_partition seqlen_list k equal_size =
     (let bias = (if equal_size then sum_list seqlen_list + 1 else 0) in
      rbind (rfold greedy_step (replicate k [], replicate k 0)
               (zip (map (\<lambda>x. x + bias) seqlen_list) [0..<length seqlen_list])) (\<lambda>(partitions, _).
      rbind (if equal_size then check_equal_sizes seqlen_list k partitions else Inr ()) (\<lambda>_. Inr partitions)))"

subsection \<open>Micro-batches\<close>

definition ceildiv :: "int \<Rightarrow> int \<Rightarrow> int res" where
  "ceildiv a b = (if b = 0 then Inl ZeroDivisionError else Inr (- (a div (- b))))"

definition roundup_divisible :: "int \<Rightarrow> int \<Rightarrow> int res" where
  "roundup_divisible a b = (if b = 0 then Inl ZeroDivisionError else Inr ((a + b - 1) div b * b))"

text \<open>The sequence lengths of a batch: jagged rows, or an attention mask of the given width.\<close>

datatype batch_lens = Nested "int list" | Padded nat "int list list"

definition seq_len_effective :: "batch_lens \<Rightarrow> int list" where
  "seq_len_effective b = (case b of Nested lens \<Rightarrow> lens | Padded w attention_mask \<Rightarrow> map sum_list attention_mask)"

definition max_seq_len :: "batch_lens \<Rightarrow> int res" where
  "max_seq_len b = (case b of
     Nested lens \<Rightarrow> if lens = [] then Inl ValueError else Inr (fold max (tl lens) (hd lens))
   | Padded w attention_mask \<Rightarrow> Inr (int w))"

record micro_cfg =
  max_token_len :: int
  dp_sync :: bool
  num_batches_divided_by :: "int option"
  min_num_micro_batch :: "int option"
  use_dynamic_bsz_balance :: bool
  force_group_size :: nat

text \<open>The number of micro-batches; \<open>all_reduce_max\<close> is the maximum over the data-parallel group.\<close>

definition num_micro_batches :: "(int \<Rightarrow> int) \<Rightarrow> micro_cfg \<Rightarrow> nat \<Rightarrow> int \<Rightarrow> int res" where
  "num_micro_batches all_reduce_max cfg num_groups total_seqlen =
     rbind (ceildiv total_seqlen (max_token_len cfg)) (\<lambda>c.
       let n1 = min (int num_groups) c;
           n2 = (case min_num_micro_batch cfg of None \<Rightarrow> n1 | Some m \<Rightarrow> max m n1);
           n3 = (if dp_sync cfg then all_reduce_max n2 else n2)
       in case num_batches_divided_by cfg of None \<Rightarrow> Inr n3 | Some d \<Rightarrow> roundup_divisible n3 d)"

text \<open>\<^verbatim>\<open>xs[::n]\<close>\<close>

definition every :: "nat \<Rightarrow> 'a list \<Rightarrow> 'a list" where
  "every n xs = map ((!) xs) (filter (\<lambda>i. i mod n = 0) [0..<length xs])"

definition partition_key :: "int list \<Rightarrow> nat \<Rightarrow> nat list \<Rightarrow> int \<times> nat" where
  "partition_key workloads group_size p =
     ((\<Sum>i\<leftarrow>every group_size p. workloads ! (i div group_size)), (if p = [] then 0 else hd p))"

text \<open>\<^verbatim>\<open>micro_bsz_idx.sort(key=..., reverse=True)\<close> keeps the order of equal keys; then the smaller
  micro-batches are placed at both ends.\<close>

definition order_micro_batches :: "int list \<Rightarrow> nat \<Rightarrow> nat list list \<Rightarrow> nat list list" where
  "order_micro_batches workloads group_size parts =
     (let desc = rev (sort_key (partition_key workloads group_size) (rev parts))
      in rev (every 2 desc) @ every 2 (drop 1 desc))"

definition group_samples :: "nat \<Rightarrow> nat list \<Rightarrow> nat list" where
  "group_samples group_size groups = concat (map (\<lambda>g. [g * group_size..<g * group_size + group_size]) groups)"

definition rearrange_micro_batches ::
  "(int \<Rightarrow> int) \<Rightarrow> micro_cfg \<Rightarrow> batch_lens \<Rightarrow> 'a list \<Rightarrow> ('a list list \<times> nat list list) res" where
  "rearrange_micro_batches all_reduce_max cfg lens batch =
     rbind (max_seq_len lens) (\<lambda>longest.
     rbind (require (longest \<le> max_token_len cfg) AssertionError) (\<lambda>_.
     let seqlens = seq_len_effective lens; batch_size = length seqlens; fgs = force_group_size cfg in
     rbind (require (fgs \<noteq> 0) ZeroDivisionError) (\<lambda>_.
     rbind (require (batch_size mod fgs = 0) AssertionError) (\<lambda>_.
     let num_groups = batch_size div fgs in
     rbind (num_micro_batches all_reduce_max cfg num_groups (sum_list seqlens)) (\<lambda>n.
     rbind (require (n \<le> int num_groups) AssertionError) (\<lambda>_.
     let per_sample = map calculate_workload seqlens;
         workloads = (if 1 < fgs then map sum_list (rows num_groups fgs per_sample) else per_sample) in
     rbind (get_seqlen_balanced_partitions workloads (nat n) False) (\<lambda>groups.
     let parts = (if 1 < fgs then map (group_samples fgs) groups else groups);
         idx = (if use_dynamic_bsz_balance cfg then order_micro_batches workloads fgs parts else parts)
     in Inr (map (map ((!) batch)) idx, idx))))))))"

definition get_reverse_idx :: "nat list \<Rightarrow> nat list res" where
  "get_reverse_idx idx_map =
     rfold (\<lambda>rev_map (i, idx). rbind (require (idx < length rev_map) IndexError) (\<lambda>_. Inr (rev_map[idx := i])))
       idx_map (zip [0..<length idx_map] idx_map)"

definition restore_dynamic_batch :: "'a list \<Rightarrow> nat list list \<Rightarrow> 'a list res" where
  "restore_dynamic_batch data batch_idx_list =
     (let indices = concat batch_idx_list in
      rbind (require (length indices = length data) AssertionError) (\<lambda>_.
      rbind (get_reverse_idx indices) (\<lambda>revert. Inr (map ((!) data) revert))))"

subsection \<open>Samples of one prompt stay together\<close>

text \<open>The runs of equal \<^verbatim>\<open>uid\<close>s: finished groups, the current uid (\<open>None\<close> before the first sample),
  the indices and the length of the current group.\<close>

type_synonym 'u run_state = "(nat list \<times> int) list \<times> 'u option \<times> nat list \<times> int"

definition group_step :: "'u run_state \<Rightarrow> nat \<times> int \<times> 'u option \<Rightarrow> 'u run_state" where
  "group_step st item = (case (st, item) of ((groups, current_uid, indices, tot), (i, seqlen, uid)) \<Rightarrow>
     if uid \<noteq> current_uid
     then (if indices \<noteq> [] then groups @ [(indices, tot)] else groups, uid, [i], seqlen)
     else (groups, current_uid, indices @ [i], tot + seqlen))"

definition uid_groups :: "int list \<Rightarrow> 'u option list \<Rightarrow> (nat list \<times> int) list" where
  "uid_groups seqlen_list uid_list =
     (case fold (\<lambda>item st. group_step st item) (zip [0..<length seqlen_list] (zip seqlen_list uid_list)) ([], None, [], 0) of
        (groups, _, indices, tot) \<Rightarrow> if indices \<noteq> [] then groups @ [(indices, tot)] else groups)"

definition get_group_balanced_partitions :: "int list \<Rightarrow> 'u option list \<Rightarrow> nat \<Rightarrow> nat list list res" where
  "get_group_balanced_partitions seqlen_list uid_list k =
     rbind (require (length seqlen_list = length uid_list) AssertionError) (\<lambda>_.
     let groups = uid_groups seqlen_list uid_list in
     rbind (require (k \<le> length groups) AssertionError) (\<lambda>_.
     rbind (get_seqlen_balanced_partitions
              (map (\<lambda>(indices, _). \<Sum>i\<leftarrow>indices. calculate_workload (seqlen_list ! i)) groups) k True) (\<lambda>parts.
       Inr (map (\<lambda>gp. sort (concat (map (\<lambda>g. fst (groups ! g)) gp))) parts))))"

subsection \<open>Sets and states\<close>

definition set_ok :: "kk_set \<Rightarrow> bool" where
  "set_ok st \<longleftrightarrow> set_sum st = sum_list (map snd (set_items st))"

lemma fold_set_add:
  "set_items (fold (\<lambda>(idx, val). set_add idx val) xs st) = set_items st @ xs"
  "set_sum (fold (\<lambda>(idx, val). set_add idx val) xs st) = set_sum st + sum_list (map snd xs)"
  by (induction xs arbitrary: st) (auto simp: set_add_def)

lemma set_merge_simps [simp]:
  "set_items (set_merge a b) = set_items a @ set_items b"
  "set_ok b \<Longrightarrow> set_sum (set_merge a b) = set_sum a + set_sum b"
  by (simp_all add: set_merge_def fold_set_add set_ok_def)

lemma set_merge_ok: "set_ok a \<Longrightarrow> set_ok b \<Longrightarrow> set_ok (set_merge a b)"
  by (simp add: set_ok_def)

definition state_items :: "kk_state \<Rightarrow> (nat \<times> int) multiset" where
  "state_items s = mset (concat (map set_items s))"

definition state_ok :: "nat \<Rightarrow> kk_state \<Rightarrow> bool" where
  "state_ok k s \<longleftrightarrow> length s = k \<and> 0 < k \<and> (\<forall>st\<in>set s. set_ok st) \<and> sorted_wrt (\<ge>) s"

lemma mset_concat_cong: "mset xs = mset ys \<Longrightarrow> mset (concat (map f xs)) = mset (concat (map f ys))"
  by (simp add: mset_concat comp_def flip: sum_mset_sum_list)

lemma sorted_desc_props:
  "mset (sorted_desc xs) = mset xs" "set (sorted_desc xs) = set xs" "length (sorted_desc xs) = length xs"
  "sorted_wrt (\<ge>) (sorted_desc xs)"
  by (simp_all add: sorted_desc_def sorted_wrt_rev)

lemma state_items_desc: "state_items (sorted_desc xs) = state_items xs"
  unfolding state_items_def by (rule mset_concat_cong) (simp add: sorted_desc_props)

lemma in_set_map2: "st \<in> set (map2 f xs ys) \<Longrightarrow> \<exists>x\<in>set xs. \<exists>y\<in>set ys. st = f x y"
  by (induction xs ys rule: list_induct2') auto

lemma state_merge_ok:
  assumes "state_ok k a" "state_ok k b"
  shows "state_ok k (state_merge a b)"
proof -
  have "set_ok st" if st: "st \<in> set (map2 set_merge a (rev b))" for st
  proof -
    obtain x y where "st = set_merge x y" "x \<in> set a" "y \<in> set b"
      using in_set_map2 [OF st] by auto
    then show ?thesis using assms by (simp add: state_ok_def set_merge_ok)
  qed
  then show ?thesis using assms by (simp add: state_ok_def state_merge_def sorted_desc_props)
qed

lemma items_map2:
  "length xs = length ys \<Longrightarrow> state_items (map2 set_merge xs ys) = state_items xs + state_items ys"
  by (induction xs ys rule: list_induct2) (auto simp: state_items_def)

lemma state_merge_items:
  assumes "state_ok k a" "state_ok k b"
  shows "state_items (state_merge a b) = state_items a + state_items b"
proof -
  have "state_items (rev b) = state_items b" unfolding state_items_def by (rule mset_concat_cong) simp
  then show ?thesis using assms by (simp add: state_merge_def state_items_desc items_map2 state_ok_def)
qed

subsection \<open>Spreads\<close>

lemma le_sum: "(x :: kk_set) \<le> y \<Longrightarrow> set_sum x \<le> set_sum y"
  by (auto simp: less_eq_kk_set_def less_kk_set_def split: if_splits)

lemma state_sums_desc:
  assumes "state_ok k s" "i \<le> j" "j < k"
  shows "set_sum (s ! j) \<le> set_sum (s ! i)"
proof (cases "i = j")
  case False
  then have "i < j" using assms(2) by simp
  then have "s ! j \<le> s ! i" using assms sorted_wrt_nth_less [of "(\<ge>)" s i j] by (simp add: state_ok_def)
  then show ?thesis by (rule le_sum)
qed simp

lemma spread_nth: "state_ok k s \<Longrightarrow> spread s = set_sum (s ! 0) - set_sum (s ! (k - 1))"
  by (cases s) (auto simp: spread_def state_ok_def last_conv_nth)

lemma spread_bound:
  assumes "state_ok k s" "i < k" "j < k"
  shows "set_sum (s ! i) - set_sum (s ! j) \<le> spread s"
proof -
  have "j \<le> k - 1" "k - 1 < k" using assms(3) by auto
  then show ?thesis using state_sums_desc [OF assms(1), of 0 i] state_sums_desc [OF assms(1), of j "k - 1"]
    assms(2) spread_nth [OF assms(1)] by linarith
qed

lemma spread_attained:
  assumes "state_ok k (sorted_desc xs)"
  shows "\<exists>i<k. \<exists>j<k. spread (sorted_desc xs) = set_sum (xs ! i) - set_sum (xs ! j)"
proof -
  have len: "length xs = k" "0 < k" using assms by (auto simp: state_ok_def sorted_desc_props)
  have "sorted_desc xs ! 0 \<in> set xs" "sorted_desc xs ! (k - 1) \<in> set xs"
    using len sorted_desc_props(2,3) [of xs] by (metis nth_mem diff_less zero_less_one)+
  then obtain i j where "i < k" "j < k" "xs ! i = sorted_desc xs ! 0" "xs ! j = sorted_desc xs ! (k - 1)"
    using len by (metis in_set_conv_nth)
  then show ?thesis using spread_nth [OF assms] by metis
qed

lemma state_merge_spread:
  assumes a: "state_ok k a" and b: "state_ok k b"
  shows "spread (state_merge a b) \<le> max (spread a) (spread b)"
proof -
  let ?c = "map2 set_merge a (rev b)"
  have sum: "set_sum (?c ! i) = set_sum (a ! i) + set_sum (b ! (k - 1 - i))" if "i < k" for i
    using a b that by (simp add: state_ok_def rev_nth)
  have "set_sum (?c ! i) - set_sum (?c ! j) \<le> max (spread a) (spread b)" if ij: "i < k" "j < k" for i j
  proof (cases "i \<le> j")
    case True
    have "set_sum (b ! (k - 1 - i)) \<le> set_sum (b ! (k - 1 - j))"
      using state_sums_desc [OF b, of "k - 1 - j" "k - 1 - i"] True ij by simp
    then show ?thesis using spread_bound [OF a ij] sum ij by simp
  next
    case False
    have "set_sum (a ! i) \<le> set_sum (a ! j)" using state_sums_desc [OF a, of j i] False ij by simp
    moreover have "set_sum (b ! (k - 1 - i)) - set_sum (b ! (k - 1 - j)) \<le> spread b"
      using spread_bound [OF b, of "k - 1 - i" "k - 1 - j"] ij by simp
    ultimately show ?thesis using sum ij by simp
  qed
  then show ?thesis using spread_attained [of k ?c] state_merge_ok [OF a b] by (auto simp: state_merge_def)
qed

subsection \<open>Nonempty sets\<close>

text \<open>With nonnegative values the empty set is the least set, so the nonempty sets of a state come
  first, and merging fills empty sets before it doubles up.\<close>

definition nonneg_state :: "kk_state \<Rightarrow> bool" where
  "nonneg_state s \<longleftrightarrow> (\<forall>(idx, val)\<in>#state_items s. 0 \<le> val)"

definition filled :: "kk_state \<Rightarrow> nat" where
  "filled s = length (filter (\<lambda>st. set_items st \<noteq> []) s)"

lemma nonneg_sum: "nonneg_state s \<Longrightarrow> st \<in> set s \<Longrightarrow> set_ok st \<Longrightarrow> 0 \<le> set_sum st"
  by (fastforce simp: nonneg_state_def state_items_def set_ok_def intro!: sum_list_nonneg)

lemma filled_prefix:
  assumes s: "state_ok k s" "nonneg_state s" and i: "i < k"
  shows "set_items (s ! i) \<noteq> [] \<longleftrightarrow> i < filled s"
proof -
  let ?P = "\<lambda>i. set_items (s ! i) \<noteq> []"
  have down: "?P i" if ij: "i \<le> j" "j < k" "?P j" for i j
  proof (rule ccontr)
    assume e: "\<not> ?P i"
    have ok: "set_ok (s ! i)" "set_ok (s ! j)" "s ! j \<in> set s" using s ij by (auto simp: state_ok_def)
    have "i \<noteq> j" using e ij by auto
    then have "s ! j \<le> s ! i" using s(1) ij sorted_wrt_nth_less [of "(\<ge>)" s i j] by (simp add: state_ok_def)
    moreover have "set_sum (s ! i) = 0" using ok(1) e by (simp add: set_ok_def)
    moreover have "0 \<le> set_sum (s ! j)" using nonneg_sum [OF s(2) ok(3,2)] .
    ultimately show False using e ij(3) by (auto simp: less_eq_kk_set_def less_kk_set_def split: if_splits)
  qed
  define p where "p = card {i. i < k \<and> ?P i}"
  have fp: "filled s = p" using s(1) by (simp add: filled_def length_filter_conv_card p_def state_ok_def)
  have "{i. i < k \<and> ?P i} = {0..<p}"
  proof -
    have "\<exists>m. {i. i < k \<and> ?P i} = {0..<m}"
    proof (cases "{i. i < k \<and> ?P i} = {}")
      case False
      define m where "m = Max {i. i < k \<and> ?P i}"
      have "m \<in> {i. i < k \<and> ?P i}" unfolding m_def using False by (intro Max_in) auto
      moreover have "\<forall>i\<in>{i. i < k \<and> ?P i}. i \<le> m" unfolding m_def by auto
      ultimately have "{i. i < k \<and> ?P i} = {0..<Suc m}" using down by (auto simp: less_Suc_eq_le)
      then show ?thesis ..
    qed (auto intro: exI [of _ 0])
    then obtain m where m: "{i. i < k \<and> ?P i} = {0..<m}" ..
    then show ?thesis by (simp add: p_def)
  qed
  then have "i \<in> {i. i < k \<and> ?P i} \<longleftrightarrow> i \<in> {0..<p}" by (rule arg_cong)
  then show ?thesis using i unfolding fp by simp
qed

lemma filled_le: "state_ok k s \<Longrightarrow> filled s \<le> k"
  by (auto simp: filled_def state_ok_def)

lemma filled_desc: "filled (sorted_desc xs) = filled xs"
  unfolding filled_def by (metis mset_filter size_mset sorted_desc_props(1))

lemma state_merge_filled:
  assumes a: "state_ok k a" "nonneg_state a" and b: "state_ok k b" "nonneg_state b"
  shows "min k (filled a + filled b) \<le> filled (state_merge a b)"
proof -
  let ?c = "map2 set_merge a (rev b)"
  have len: "length a = k" "length b = k" using a(1) b(1) by (auto simp: state_ok_def)
  have ne: "set_items (?c ! i) \<noteq> [] \<longleftrightarrow> i < filled a \<or> k \<le> i + filled b" if "i < k" for i
    using filled_prefix [OF a that] filled_prefix [OF b, of "k - 1 - i"] that len by (auto simp: rev_nth)
  have "filled (state_merge a b) = filled ?c"
    unfolding state_merge_def by (rule filled_desc)
  also have "\<dots> = card {i. i < k \<and> (i < filled a \<or> k \<le> i + filled b)}"
  proof -
    have "{i. i < k \<and> set_items (?c ! i) \<noteq> []} = {i. i < k \<and> (i < filled a \<or> k \<le> i + filled b)}"
      using ne by blast
    moreover have "filled ?c = card {i. i < k \<and> set_items (?c ! i) \<noteq> []}"
      unfolding filled_def length_filter_conv_card using len by simp
    ultimately show ?thesis by (rule trans [rotated, OF arg_cong])
  qed
  also have "\<dots> \<ge> card ({0..<filled a} \<union> {max (filled a) (k - filled b)..<k})"
    using filled_le [OF a(1)] by (intro card_mono) auto
  also have "card ({0..<filled a} \<union> {max (filled a) (k - filled b)..<k})
      = filled a + (k - max (filled a) (k - filled b))"
    by (subst card_Un_disjoint) auto
  finally show ?thesis using filled_le [OF a(1)] filled_le [OF b(1)] by linarith
qed

definition equal_sizes :: "kk_state \<Rightarrow> bool" where
  "equal_sizes s \<longleftrightarrow> (\<exists>m. \<forall>st\<in>set s. length (set_items st) = m)"

lemma state_merge_equal_sizes:
  assumes "equal_sizes a" "equal_sizes b"
  shows "equal_sizes (state_merge a b)"
proof -
  obtain m n where "\<forall>st\<in>set a. length (set_items st) = m" "\<forall>st\<in>set b. length (set_items st) = n"
    using assms by (auto simp: equal_sizes_def)
  then have "\<forall>st\<in>set (map2 set_merge a (rev b)). length (set_items st) = m + n"
  proof (intro ballI)
    fix st assume "\<forall>st\<in>set a. length (set_items st) = m" "\<forall>st\<in>set b. length (set_items st) = n"
      "st \<in> set (map2 set_merge a (rev b))"
    then show "length (set_items st) = m + n" using in_set_map2 [of st set_merge a "rev b"] by auto
  qed
  then show ?thesis by (auto simp: equal_sizes_def state_merge_def sorted_desc_props(2))
qed

subsection \<open>The loop implements the differencing method\<close>

text \<open>The method as a specification: as long as two states are left, the state of largest spread and
  the next one are replaced by their merge.\<close>

inductive ldm :: "kk_state multiset \<Rightarrow> kk_state \<Rightarrow> bool" where
  ldm_done: "ldm {#s#} s"
| ldm_merge: "\<forall>s\<in>#{#a, b#} + N. \<not> state_lt s a \<Longrightarrow> \<forall>s\<in>#add_mset b N. \<not> state_lt s b \<Longrightarrow>
    ldm (add_mset (state_merge a b) N) s \<Longrightarrow> ldm ({#a, b#} + N) s"

lemma state_lt_weak_order: "weak_order state_lt"
  unfolding weak_order_def
proof (intro conjI allI impI)
  fix x y assume "state_lt x y" then show "\<not> state_lt y x" by (auto simp: state_lt_def split: if_splits)
next
  fix x y z assume "\<not> state_lt y x" "\<not> state_lt z y"
  then show "\<not> state_lt z x" by (auto simp: state_lt_def not_less split: if_splits)
qed

interpretation kkq: min_queue "is_heap state_lt" mset "[]" "heappush state_lt" "heappop state_lt" state_lt
  by (rule heap_min_queue [OF state_lt_weak_order])

lemma kk_loop_step:
  assumes "heappop state_lt pq = Inr (a, pq1)" "heappop state_lt pq1 = Inr (b, pq2)"
  shows "kk_loop pq = kk_loop (heappush state_lt pq2 (state_merge a b))"
  using assms length_heappop [OF assms(1)] length_heappop [OF assms(2)]
  by (subst kk_loop.simps) simp

lemma kk_loop_ldm:
  assumes "is_heap state_lt pq" "pq \<noteq> []"
  shows "\<exists>s. kk_loop pq = Inr [s] \<and> ldm (mset pq) s"
  using assms
proof (induction "length pq" arbitrary: pq rule: less_induct)
  case less
  show ?case
  proof (cases "1 < length pq")
    case True
    then have "2 \<le> size (mset pq)" by simp
    from kkq.pop_two [OF less.prems(1) this] obtain a b pq1 pq2 where
      p: "heappop state_lt pq = Inr (a, pq1)" "heappop state_lt pq1 = Inr (b, pq2)" "is_heap state_lt pq2"
        "mset pq = {#a, b#} + mset pq2" "\<forall>s\<in>#mset pq. \<not> state_lt s a" "\<forall>s\<in>#add_mset b (mset pq2). \<not> state_lt s b"
      by metis
    let ?pq' = "heappush state_lt pq2 (state_merge a b)"
    have "length pq = length pq2 + 2" using length_heappop [OF p(1)] length_heappop [OF p(2)] by simp
    then have "length ?pq' < length pq" "?pq' \<noteq> []" by (auto dest: arg_cong [of _ _ length])
    then obtain s where s: "kk_loop ?pq' = Inr [s]" "ldm (mset ?pq') s"
      using less.hyps kkq.push_inv [OF p(3)] by blast
    have "ldm (mset pq) s"
      unfolding p(4) using ldm_merge [OF p(5) [unfolded p(4)] p(6) s(2) [unfolded mset_heappush]] .
    then show ?thesis using s(1) kk_loop_step [OF p(1,2)] by auto
  next
    case False
    then obtain s where "pq = [s]" using less.prems(2) by (cases pq) auto
    then show ?thesis by (simp add: kk_loop.simps ldm_done)
  qed
qed

text \<open>What every run of the method keeps.\<close>

lemma ldm_invariants:
  assumes "ldm M s" "\<forall>t\<in>#M. state_ok k t \<and> nonneg_state t \<and> spread t \<le> B"
  shows "state_ok k s \<and> nonneg_state s \<and> spread s \<le> B \<and> state_items s = (\<Sum>t\<in>#M. state_items t)
    \<and> min k (\<Sum>t\<in>#M. filled t) \<le> filled s"
  using assms
proof (induction rule: ldm.induct)
  case (ldm_merge a b N s)
  have ab: "state_ok k a" "state_ok k b" "nonneg_state a" "nonneg_state b" "spread a \<le> B" "spread b \<le> B"
    using ldm_merge.prems by auto
  note items = state_merge_items [OF ab(1,2)]
  have "nonneg_state (state_merge a b)" using ab(3,4) items by (auto simp: nonneg_state_def)
  moreover have "spread (state_merge a b) \<le> B" using state_merge_spread [OF ab(1,2)] ab(5,6) by linarith
  ultimately have "\<forall>t\<in>#add_mset (state_merge a b) N. state_ok k t \<and> nonneg_state t \<and> spread t \<le> B"
    using ldm_merge.prems state_merge_ok [OF ab(1,2)] by auto
  note ih = ldm_merge.IH [OF this]
  have "min k (filled a + filled b) \<le> filled (state_merge a b)" using state_merge_filled ab by blast
  then have "min k (\<Sum>t\<in>#{#a, b#} + N. filled t) \<le> min k (\<Sum>t\<in>#add_mset (state_merge a b) N. filled t)" by simp
  also have "\<dots> \<le> filled s" using ih by blast
  finally have "min k (\<Sum>t\<in>#{#a, b#} + N. filled t) \<le> filled s" .
  moreover have "state_items s = (\<Sum>t\<in>#{#a, b#} + N. state_items t)" using ih items by (simp add: add.assoc)
  ultimately show ?case using ih by blast
qed auto

lemma ldm_equal_sizes: "ldm M s \<Longrightarrow> \<forall>t\<in>#M. equal_sizes t \<Longrightarrow> equal_sizes s"
  by (induction rule: ldm.induct) (auto simp: state_merge_equal_sizes)

subsection \<open>The states the method starts from\<close>

lemma state_init_props:
  assumes "length g = 1 \<or> length g = k" "0 < k" and vals: "\<forall>(i, v)\<in>set g. 0 \<le> v \<and> v \<le> B" and B: "0 \<le> B"
  shows "\<exists>s. state_init g k = Inr s \<and> state_ok k s \<and> nonneg_state s \<and> spread s \<le> B
    \<and> state_items s = mset g \<and> filled s = length g \<and> (length g = k \<longrightarrow> equal_sizes s)"
proof -
  let ?xs = "map (\<lambda>(idx, seqlen). set_add idx seqlen empty_set) g @ replicate (k - length g) empty_set"
  have le: "length g \<le> k" using assms(1,2) by auto
  have init: "state_init g k = Inr (sorted_desc ?xs)" using assms(1) le by (simp add: state_init_def)
  have sets: "set_ok st \<and> 0 \<le> set_sum st \<and> set_sum st \<le> B" if "st \<in> set ?xs" for st
    using that vals B by (auto simp: set_ok_def set_add_def empty_set_def)
  have ok: "state_ok k (sorted_desc ?xs)"
    using sets le assms(2) by (simp add: state_ok_def sorted_desc_props)
  have items: "state_items ?xs = mset g"
    by (simp add: state_items_def) (induction g, auto simp: set_add_def empty_set_def)
  have "spread (sorted_desc ?xs) \<le> B"
  proof -
    obtain i j where ij: "i < k" "j < k" "spread (sorted_desc ?xs) = set_sum (?xs ! i) - set_sum (?xs ! j)"
      using spread_attained [OF ok] by blast
    have len: "length ?xs = k" using le by simp
    have "?xs ! i \<in> set ?xs" "?xs ! j \<in> set ?xs" using len ij(1,2) by (metis nth_mem)+
    then have "set_sum (?xs ! i) \<le> B" "0 \<le> set_sum (?xs ! j)" using sets by blast+
    then show ?thesis using ij(3) by linarith
  qed
  moreover have "filled ?xs = length g"
    by (simp add: filled_def comp_def case_prod_unfold set_add_def empty_set_def)
  moreover have "equal_sizes (sorted_desc ?xs)" if "length g = k"
    using that by (auto simp: equal_sizes_def sorted_desc_props(2) set_add_def empty_set_def intro!: exI [of _ 1])
  moreover have "nonneg_state (sorted_desc ?xs)"
    using vals by (auto simp: nonneg_state_def state_items_desc items)
  ultimately show ?thesis using init ok items by (auto simp: state_items_desc filled_desc)
qed

definition kk_items :: "int list \<Rightarrow> (nat \<times> int) list" where
  "kk_items xs = map (\<lambda>(seqlen, i). (i, seqlen)) (sort (zip xs [0..<length xs]))"

lemma mset_kk_items: "mset (kk_items xs) = mset (zip [0..<length xs] xs)"
proof -
  have "map (\<lambda>(x, i). (i, x)) (zip xs [0..<length xs]) = zip [0..<length xs] xs"
    by (rule nth_equalityI) simp_all
  then show ?thesis by (metis kk_items_def mset_map mset_sort)
qed

lemma kk_items_simps [simp]: "length (kk_items xs) = length xs" "set (kk_items xs) = set (zip [0..<length xs] xs)"
  using arg_cong [OF mset_kk_items, of size xs] arg_cong [OF mset_kk_items, of set_mset xs] by simp_all

definition start_ok :: "nat \<Rightarrow> int \<Rightarrow> bool \<Rightarrow> (nat \<times> int) list \<Rightarrow> kk_state list \<Rightarrow> bool" where
  "start_ok k B eq items ss \<longleftrightarrow>
     (\<forall>t\<in>set ss. state_ok k t \<and> nonneg_state t \<and> spread t \<le> B \<and> (eq \<longrightarrow> equal_sizes t))
   \<and> (\<Sum>t\<in>#mset ss. state_items t) = mset items \<and> (\<Sum>t\<in>#mset ss. filled t) = length items"

lemma start_groups:
  assumes "\<forall>g\<in>set gs. (length g = 1 \<or> length g = k) \<and> (eq \<longrightarrow> length g = k)" "0 < k" "0 \<le> B"
    and "\<forall>(i, v)\<in>set (concat gs). 0 \<le> v \<and> v \<le> B"
  shows "\<exists>ss. rmap (\<lambda>g. state_init g k) gs = Inr ss \<and> start_ok k B eq (concat gs) ss"
  using assms
proof (induction gs)
  case (Cons g gs)
  then obtain ss where ss: "rmap (\<lambda>g. state_init g k) gs = Inr ss" "start_ok k B eq (concat gs) ss" by auto
  obtain s where "state_init g k = Inr s" "state_ok k s" "nonneg_state s" "spread s \<le> B"
    "state_items s = mset g" "filled s = length g" "eq \<longrightarrow> equal_sizes s"
    using state_init_props [of g k B] Cons.prems by auto
  then show ?case using ss by (auto simp: start_ok_def)
qed (simp add: start_ok_def)

lemma initial_states_ok:
  assumes "0 < k" "\<forall>x\<in>set xs. 0 \<le> x \<and> x \<le> B" "0 \<le> B" "eq \<Longrightarrow> length xs mod k = 0"
  shows "\<exists>ss. initial_states xs k eq = Inr ss \<and> start_ok k B eq (kk_items xs) ss"
proof -
  have vals: "\<forall>(i, v)\<in>set (kk_items xs). 0 \<le> v \<and> v \<le> B"
    using assms(2) by (auto dest: set_zip_rightD)
  show ?thesis
  proof (cases eq)
    case True
    let ?gs = "rows (length xs div k) k (kk_items xs)"
    have len: "length (kk_items xs) = length xs div k * k" using assms(4) [OF True] by auto
    have cc: "concat ?gs = kk_items xs" using concat_rows [OF len] .
    have "\<forall>g\<in>set ?gs. length g = k" using rows_width [OF len] by blast
    then show ?thesis using start_groups [of ?gs k eq B] vals assms True
      unfolding cc initial_states_def kk_items_def [symmetric] by (auto simp: Let_def)
  next
    case False
    let ?gs = "map (\<lambda>item. [item]) (kk_items xs)"
    have cc: "concat ?gs = kk_items xs" by (induction "kk_items xs") auto
    have "rmap (\<lambda>item. state_init [item] k) ys = rmap (\<lambda>g. state_init g k) (map (\<lambda>item. [item]) ys)" for ys
      by (induction ys) auto
    then show ?thesis using start_groups [of ?gs k eq B] vals assms False
      unfolding cc initial_states_def kk_items_def [symmetric] by (auto simp: Let_def)
  qed
qed

subsection \<open>Correctness of the partitions\<close>

lemma kk_result:
  assumes "0 < k" "xs \<noteq> []" "\<forall>x\<in>set xs. 0 \<le> x \<and> x \<le> B" "eq \<Longrightarrow> length xs mod k = 0"
  shows "\<exists>ss s. initial_states xs k eq = Inr ss \<and> ldm (mset ss) s \<and> karmarkar_karp xs k eq = Inr (get_partitions s)
    \<and> state_ok k s \<and> spread s \<le> B \<and> state_items s = mset (zip [0..<length xs] xs) \<and> min k (length xs) \<le> filled s
    \<and> (eq \<longrightarrow> (\<forall>st\<in>set s. length (set_items st) * k = length xs))"
proof -
  have B: "0 \<le> B" using assms(2,3) by (cases xs) auto
  obtain ss where ss: "initial_states xs k eq = Inr ss" "start_ok k B eq (kk_items xs) ss"
    using initial_states_ok [OF assms(1,3) B assms(4)] by blast
  let ?pq = "fold (\<lambda>s pq. heappush state_lt pq s) ss []"
  have ms: "mset ?pq = mset ss" using kkq.push_all(2) [of ss "[]"] by simp
  have "ss \<noteq> []"
  proof
    assume "ss = []"
    then show False using ss(2) assms(2) by (simp add: start_ok_def)
  qed
  then have "?pq \<noteq> []" using ms by (metis mset_zero_iff)
  then obtain s where s: "kk_loop ?pq = Inr [s]" "ldm (mset ss) s"
    using kk_loop_ldm [of ?pq] kkq.push_all(1) [of "[]" ss] kkq.inv_empty ms by auto
  have inv: "state_ok k s" "spread s \<le> B" "state_items s = mset (zip [0..<length xs] xs)" "min k (length xs) \<le> filled s"
    using ldm_invariants [OF s(2), of k B] ss(2) by (auto simp: start_ok_def mset_kk_items)
  have eqs: "\<forall>st\<in>set s. length (set_items st) * k = length xs" if e: eq
  proof -
    have "\<forall>t\<in>#mset ss. equal_sizes t" using ss(2) e by (simp add: start_ok_def)
    then obtain m where m: "\<forall>st\<in>set s. length (set_items st) = m"
      using ldm_equal_sizes [OF s(2)] by (auto simp: equal_sizes_def)
    have "size (state_items s) = length s * m"
      unfolding state_items_def using m by (induction s) auto
    then have "m * k = length xs" using inv(1,3) by (simp add: state_ok_def mult.commute)
    then show ?thesis using m by simp
  qed
  have "karmarkar_karp xs k eq = Inr (get_partitions s)"
    using ss(1) s(1) eqs by (auto simp: karmarkar_karp_def check_equal_sizes_def get_partitions_def Let_def)
  then show ?thesis using ss(1) s(2) inv eqs by blast
qed

lemma partitions_of_state:
  assumes "state_ok k s" "state_items s = mset (zip [0..<n] xs)" "length xs = n" "k \<le> filled s"
  shows "mset (concat (get_partitions s)) = mset [0..<n]" "length (get_partitions s) = k" "[] \<notin> set (get_partitions s)"
    "map (\<lambda>p. \<Sum>i\<leftarrow>p. xs ! i) (get_partitions s) = map set_sum s"
proof -
  have "concat (get_partitions s) = map fst (concat (map set_items s))"
    by (simp add: get_partitions_def map_concat comp_def)
  then have "mset (concat (get_partitions s)) = image_mset fst (mset (zip [0..<n] xs))"
    using assms(2) by (simp add: state_items_def)
  then show "mset (concat (get_partitions s)) = mset [0..<n]" using assms(3) by (simp flip: mset_map)
  show "length (get_partitions s) = k" using assms(1) by (simp add: get_partitions_def state_ok_def)
  have "\<forall>st\<in>set s. set_items st \<noteq> []"
  proof (intro ballI notI)
    fix st assume "st \<in> set s" "set_items st = []"
    then have "filled s < length s" unfolding filled_def by (intro length_filter_less) auto
    then show False using assms(1,4) by (simp add: state_ok_def)
  qed
  then show "[] \<notin> set (get_partitions s)" by (auto simp: get_partitions_def)
  have item: "v = xs ! i" if "st \<in> set s" "(i, v) \<in> set (set_items st)" for st i v
  proof -
    have "(i, v) \<in># state_items s" using that by (auto simp: state_items_def)
    then show ?thesis using assms(2,3) by (auto simp: set_zip)
  qed
  have "(\<Sum>i\<leftarrow>map fst (set_items st). xs ! i) = set_sum st" if st: "st \<in> set s" for st
  proof -
    have "map (\<lambda>i. xs ! i) (map fst (set_items st)) = map snd (set_items st)"
      using item [OF st] by (auto simp: comp_def)
    then have "(\<Sum>i\<leftarrow>map fst (set_items st). xs ! i) = sum_list (map snd (set_items st))" by (rule arg_cong)
    then show ?thesis using assms(1) st by (simp only: state_ok_def set_ok_def)
  qed
  then show "map (\<lambda>p. \<Sum>i\<leftarrow>p. xs ! i) (get_partitions s) = map set_sum s" by (simp add: get_partitions_def)
qed

lemma balanced_result:
  assumes "0 < k" "k \<le> length xs" "\<forall>x\<in>set xs. 0 \<le> x \<and> x \<le> B" "eq \<Longrightarrow> length xs mod k = 0"
  shows "\<exists>s. get_seqlen_balanced_partitions xs k eq = Inr (map sort (get_partitions s))
    \<and> state_ok k s \<and> spread s \<le> B \<and> state_items s = mset (zip [0..<length xs] xs) \<and> k \<le> filled s
    \<and> (eq \<longrightarrow> (\<forall>st\<in>set s. length (set_items st) * k = length xs))"
proof -
  have "xs \<noteq> []" using assms(1,2) by auto
  from kk_result [OF assms(1) this assms(3,4)] assms(2) obtain s where
    s: "karmarkar_karp xs k eq = Inr (get_partitions s)" "state_ok k s" "spread s \<le> B"
      "state_items s = mset (zip [0..<length xs] xs)" "k \<le> filled s"
      "eq \<longrightarrow> (\<forall>st\<in>set s. length (set_items st) * k = length xs)" by auto
  note parts = partitions_of_state [OF s(2,4) refl s(5)]
  have "set (concat (get_partitions s)) = {0..<length xs}"
    using arg_cong [OF parts(1), of set_mset] by simp
  then have "check_and_sort_partitions xs k (get_partitions s) = Inr (map sort (get_partitions s))"
    using parts(2,3) by (simp add: check_and_sort_partitions_def)
  then show ?thesis using s assms(2) by (auto simp: get_seqlen_balanced_partitions_def)
qed

lemma equal_divides: "get_seqlen_balanced_partitions xs k eq = Inr ps \<Longrightarrow> eq \<Longrightarrow> length xs mod k = 0"
  by (auto simp: get_seqlen_balanced_partitions_def karmarkar_karp_def initial_states_def Let_def rbind_eq_Inr)

text \<open>C24 For nonnegative workloads and at least as many items as partitions, the balancing always
  returns: no assertion of it fails. The result has \<open>k\<close> nonempty sorted partitions in which every
  item occurs exactly once, and of equal sizes where that was asked for.\<close>

theorem balanced_partitions_total:
  assumes "0 < k" "k \<le> length xs" "\<forall>x\<in>set xs. 0 \<le> x" "eq \<Longrightarrow> length xs mod k = 0"
  shows "\<exists>ps. get_seqlen_balanced_partitions xs k eq = Inr ps \<and> length ps = k
    \<and> mset (concat ps) = mset [0..<length xs] \<and> (\<forall>p\<in>set ps. p \<noteq> [] \<and> sorted p)
    \<and> (eq \<longrightarrow> (\<forall>p\<in>set ps. length p * k = length xs))"
proof -
  have "\<forall>x\<in>set xs. 0 \<le> x \<and> x \<le> Max (set xs)" using assms(3) by simp
  from balanced_result [OF assms(1,2) this assms(4)] obtain s where
    s: "get_seqlen_balanced_partitions xs k eq = Inr (map sort (get_partitions s))" "state_ok k s"
      "state_items s = mset (zip [0..<length xs] xs)" "k \<le> filled s"
      "eq \<longrightarrow> (\<forall>st\<in>set s. length (set_items st) * k = length xs)" by blast
  note parts = partitions_of_state [OF s(2,3) refl s(4)]
  have "mset (concat (map sort (get_partitions s))) = mset (concat (get_partitions s))"
    by (simp add: mset_concat comp_def)
  moreover have "\<forall>p\<in>set (map sort (get_partitions s)). p \<noteq> [] \<and> sorted p"
    using parts(3) by (auto simp flip: set_empty)
  moreover have "\<forall>p\<in>set (map sort (get_partitions s)). length p * k = length xs" if eq
    using s(5) that by (auto simp: get_partitions_def)
  ultimately show ?thesis using s(1) parts(1,2) by auto
qed

text \<open>C25 The partitions are balanced: the total workloads of any two of them differ by no more than
  the largest workload of a single item.\<close>

theorem balanced_partitions_spread:
  assumes "0 < k" "\<forall>x\<in>set xs. 0 \<le> x" "get_seqlen_balanced_partitions xs k eq = Inr ps" "p \<in> set ps" "q \<in> set ps"
  shows "(\<Sum>i\<leftarrow>p. xs ! i) - (\<Sum>i\<leftarrow>q. xs ! i) \<le> Max (set xs)"
proof -
  have kl: "k \<le> length xs" using assms(3) by (auto simp: get_seqlen_balanced_partitions_def rbind_eq_Inr)
  have em: "eq \<Longrightarrow> length xs mod k = 0" using equal_divides [OF assms(3)] .
  have "\<forall>x\<in>set xs. 0 \<le> x \<and> x \<le> Max (set xs)" using assms(2) by simp
  from balanced_result [OF assms(1) kl this em] obtain s where
    s: "get_seqlen_balanced_partitions xs k eq = Inr (map sort (get_partitions s))" "state_ok k s"
      "spread s \<le> Max (set xs)" "state_items s = mset (zip [0..<length xs] xs)" "k \<le> filled s" by blast
  have ps: "ps = map sort (get_partitions s)" using s(1) assms(3) by simp
  have "(\<Sum>i\<leftarrow>sort r. xs ! i) = (\<Sum>i\<leftarrow>r. xs ! i)" for r
    by (metis mset_map mset_sort sum_mset_sum_list)
  then have sums: "map (\<lambda>r. \<Sum>i\<leftarrow>r. xs ! i) ps = map set_sum s"
    using partitions_of_state(4) [OF s(2,4) refl s(5)] by (simp add: ps comp_def)
  have mem: "\<exists>i<k. (\<Sum>j\<leftarrow>r. xs ! j) = set_sum (s ! i)" if "r \<in> set ps" for r
  proof -
    have "(\<Sum>j\<leftarrow>r. xs ! j) \<in> set (map set_sum s)" unfolding sums [symmetric] using that by auto
    then show ?thesis using s(2) by (auto simp: state_ok_def in_set_conv_nth)
  qed
  then show ?thesis using mem [OF assms(4)] mem [OF assms(5)] spread_bound [OF s(2)] s(3) by fastforce
qed

text \<open>C26 Refinement: with the heap of the Python library the loop performs the largest differencing
  method, merging in every round the two states of largest spread, and returns its result.\<close>

theorem karmarkar_karp_refines:
  assumes "0 < k" "xs \<noteq> []" "\<forall>x\<in>set xs. 0 \<le> x" "eq \<Longrightarrow> length xs mod k = 0"
  shows "\<exists>ss s. initial_states xs k eq = Inr ss \<and> ldm (mset ss) s
    \<and> karmarkar_karp xs k eq = Inr (get_partitions s)"
proof -
  have "\<forall>x\<in>set xs. 0 \<le> x \<and> x \<le> Max (set xs)" using assms(3) by simp
  from kk_result [OF assms(1,2) this assms(4)] show ?thesis by blast
qed

theorem balanced_partitions_total_witness:
  "\<exists>ps. get_seqlen_balanced_partitions [5, 1, 1, 4] 2 True = Inr ps \<and> length ps = 2
    \<and> mset (concat ps) = mset [0..<length [5, 1, 1, 4 :: int]]"
  using balanced_partitions_total [of 2 "[5, 1, 1, 4]" True] by auto

theorem balanced_partitions_spread_witness:
  "(\<Sum>i\<leftarrow>[0, 1]. [5, 1, 1, 4] ! i) - (\<Sum>i\<leftarrow>[2, 3]. [5, 1, 1, 4 :: int] ! i) \<le> 5"
proof -
  have "get_seqlen_balanced_partitions [5, 1, 1, 4] 2 False = Inr [[0, 1], [2, 3]]" by code_simp
  from balanced_partitions_spread [OF _ _ this, of "[0, 1]" "[2, 3]"] show ?thesis by simp
qed

theorem karmarkar_karp_refines_witness:
  "\<exists>ss s. initial_states [5, 1, 1, 4] 2 False = Inr ss \<and> ldm (mset ss) s \<and> karmarkar_karp [5, 1, 1, 4] 2 False = Inr (get_partitions s)"
  using karmarkar_karp_refines [of 2 "[5, 1, 1, 4]" False] by simp

subsection \<open>Micro-batches are a permutation of the batch, and restoring inverts it\<close>

lemma partitions_positive: "get_seqlen_balanced_partitions xs k eq = Inr ps \<Longrightarrow> 0 < k"
proof (rule ccontr)
  assume r: "get_seqlen_balanced_partitions xs k eq = Inr ps" and k: "\<not> 0 < k"
  obtain ss where ss: "initial_states xs k eq = Inr ss" "karmarkar_karp xs k eq \<noteq> Inl IndexError"
    using r by (auto simp: get_seqlen_balanced_partitions_def karmarkar_karp_def rbind_eq_Inr)
  have "\<not> eq" using ss(1) k by (auto simp: initial_states_def Let_def)
  moreover have "xs = []"
  proof (rule ccontr)
    assume "xs \<noteq> []"
    then obtain y ys where "kk_items xs = y # ys" by (cases "kk_items xs") (auto dest: arg_cong [of _ _ length])
    then show False using ss(1) k \<open>\<not> eq\<close>
      by (simp add: initial_states_def state_init_def require_def flip: kk_items_def)
  qed
  ultimately show False using ss(2) by (simp add: karmarkar_karp_def initial_states_def kk_loop.simps)
qed

lemma balanced_perm:
  assumes "\<forall>x\<in>set xs. 0 \<le> x" "get_seqlen_balanced_partitions xs k eq = Inr ps"
  shows "mset (concat ps) = mset [0..<length xs]"
proof -
  have kl: "k \<le> length xs" using assms(2) by (auto simp: get_seqlen_balanced_partitions_def rbind_eq_Inr)
  have bd: "\<forall>x\<in>set xs. 0 \<le> x \<and> x \<le> Max (set xs)" using assms(1) by simp
  obtain s where s: "get_seqlen_balanced_partitions xs k eq = Inr (map sort (get_partitions s))"
    "state_ok k s" "state_items s = mset (zip [0..<length xs] xs)" "k \<le> filled s"
    using balanced_result [OF partitions_positive [OF assms(2)] kl bd equal_divides [OF assms(2)]] by blast
  have "mset (concat (map sort (get_partitions s))) = mset (concat (get_partitions s))"
    by (simp add: mset_concat comp_def)
  then show ?thesis using s(1) assms(2) partitions_of_state(1) [OF s(2,3) refl s(4)] by simp
qed

lemma every_simps [simp]: "every 2 [] = []" "every 2 [x] = [x]" "every 2 (x # y # zs) = x # every 2 zs"
proof -
  have "[0..<Suc (Suc (length zs))] = 0 # 1 # map (Suc \<circ> Suc) [0..<length zs]"
    by (rule nth_equalityI) (auto simp: nth_Cons simp del: upt_Suc split: nat.splits)
  then show "every 2 (x # y # zs) = x # every 2 zs" by (simp add: every_def filter_map comp_def del: upt_Suc)
qed (simp_all add: every_def)

lemma every_split: "mset (every 2 xs) + mset (every 2 (drop 1 xs)) = mset xs"
  by (induction xs rule: induct_list012) (auto simp: add.commute)

lemma order_perm: "mset (order_micro_batches w g parts) = mset parts"
  using every_split [of "rev (sort_key (partition_key w g) (rev parts))"]
  by (simp add: order_micro_batches_def Let_def)

lemma group_samples_perm:
  assumes "mset gs = mset [0..<n]"
  shows "mset (group_samples g gs) = mset [0..<n * g]"
proof -
  have "mset (group_samples g gs) = mset (group_samples g [0..<n])"
    unfolding group_samples_def by (rule mset_concat_cong [OF assms])
  also have "group_samples g [0..<n] = [0..<n * g]"
  proof (induction n)
    case (Suc n)
    have "[0..<n * g + g] = [0..<n * g] @ [n * g..<n * g + g]" by (rule upt_add_eq_append) simp
    then show ?case using Suc by (simp add: group_samples_def add.commute)
  qed (simp add: group_samples_def)
  finally show ?thesis .
qed

lemma concat_group_samples: "concat (map (group_samples g) gss) = group_samples g (concat gss)"
  by (induction gss) (auto simp: group_samples_def)

lemma rearrange_perm:
  assumes "rearrange_micro_batches ar cfg lens batch = Inr (mbs, idx)" "\<forall>l\<in>set (seq_len_effective lens). 0 \<le> l"
  shows "mset (concat idx) = mset [0..<length (seq_len_effective lens)]" "mbs = map (map ((!) batch)) idx"
proof -
  let ?ls = "seq_len_effective lens" and ?g = "force_group_size cfg"
  let ?ps = "map calculate_workload ?ls"
  let ?w = "if 1 < ?g then map sum_list (rows (length ?ls div ?g) ?g ?ps) else ?ps"
  obtain n groups parts where r: "?g \<noteq> 0" "length ?ls mod ?g = 0"
    "get_seqlen_balanced_partitions ?w (nat n) False = Inr groups"
    "parts = (if 1 < ?g then map (group_samples ?g) groups else groups)"
    "idx = (if use_dynamic_bsz_balance cfg then order_micro_batches ?w ?g parts else parts)"
    "mbs = map (map ((!) batch)) idx"
    using assms(1) unfolding rearrange_micro_batches_def Let_def rbind_eq_Inr require_eq_Inr by auto
  show "mbs = map (map ((!) batch)) idx" using r(6) .
  have len: "length ?ps = length ?ls div ?g * ?g" using r(2) by auto
  have nn: "0 \<le> x" if "x \<in> set ?ps" for x using that assms(2) by (auto simp: calculate_workload_def)
  have "\<forall>x\<in>set ?w. 0 \<le> x"
  proof (cases "1 < ?g")
    case True
    have "set r \<subseteq> set ?ps" if "r \<in> set (rows (length ?ls div ?g) ?g ?ps)" for r
      using that concat_rows [OF len] by (metis in_set_conv_decomp concat_append concat.simps(2) set_append sup.coboundedI2 sup_ge1)
    then show ?thesis using True nn by (auto intro!: sum_list_nonneg)
  qed (use nn in auto)
  from balanced_perm [OF this r(3)] have gp: "mset (concat groups) = mset [0..<length ?w]" .
  have "mset (concat parts) = mset [0..<length ?ls]"
  proof (cases "1 < ?g")
    case True
    have "length ?ls div ?g * ?g = length ?ls" using len by simp
    then show ?thesis using True group_samples_perm [OF gp, of ?g] r(4) by (simp add: concat_group_samples)
  next
    case False
    then show ?thesis using gp r(4) by simp
  qed
  moreover have "mset (concat (order_micro_batches ?w ?g parts)) = mset (concat parts)"
    using mset_concat_cong [OF order_perm, of id] by simp
  ultimately show "mset (concat idx) = mset [0..<length ?ls]" using r(5) by simp
qed

lemma reverse_fold:
  assumes "\<forall>(i, x)\<in>set ps. x < length rm"
  shows "rfold (\<lambda>rev_map (i, idx). rbind (require (idx < length rev_map) IndexError) (\<lambda>_. Inr (rev_map[idx := i]))) rm ps
    = Inr (fold (\<lambda>(i, x) rm. rm[x := i]) ps rm)"
  using assms by (induction ps arbitrary: rm) auto

lemma fold_update_nth:
  assumes "distinct (map snd ps)" "(i, x) \<in> set ps" "x < length rm"
  shows "fold (\<lambda>(i, x) rm. rm[x := i]) ps rm ! x = i"
proof -
  have keep: "x \<notin> snd ` set qs \<Longrightarrow> fold (\<lambda>(i, x) rm. rm[x := i]) qs rm ! x = rm ! x" for qs and rm :: "'a list" and x
    by (induction qs arbitrary: rm) auto
  show ?thesis using assms by (induction ps arbitrary: rm) (auto simp: keep)
qed

lemma reverse_idx:
  assumes "mset idx = mset [0..<n]"
  shows "\<exists>r. get_reverse_idx idx = Inr r \<and> length r = n \<and> (\<forall>j<n. r ! (idx ! j) = j)"
proof -
  have len: "length idx = n" using arg_cong [OF assms, of size] by simp
  have d: "distinct idx" and s: "set idx = {0..<n}"
    using assms mset_eq_imp_distinct_iff [OF assms] mset_eq_setD [OF assms] by simp_all
  let ?ps = "zip [0..<length idx] idx"
  let ?r = "fold (\<lambda>(i, x) rm. rm[x := i]) ?ps idx"
  have "get_reverse_idx idx = Inr ?r" unfolding get_reverse_idx_def
    by (rule reverse_fold) (use s len in \<open>auto dest!: set_zip_rightD\<close>)
  moreover have "length (fold (\<lambda>(i, x) rm. rm[x := i]) ps rm) = length rm" for ps and rm :: "nat list"
    by (induction ps arbitrary: rm) auto
  moreover have "?r ! (idx ! j) = j" if "j < n" for j
  proof (rule fold_update_nth)
    show "(j, idx ! j) \<in> set ?ps" using that len by (auto simp: set_zip intro!: exI [of _ j])
    show "idx ! j < length idx" using that len s nth_mem [of j idx] by auto
  qed (use d in simp)
  ultimately show ?thesis using len by auto
qed

text \<open>C27 Splitting a batch into micro-batches and restoring is the identity: whatever is computed for
  the rows of the micro-batches comes back in the order of the batch, however the rows were
  distributed and ordered.\<close>

theorem micro_batches_restore:
  assumes "rearrange_micro_batches all_reduce_max cfg lens batch = Inr (mbs, idx)"
    and "\<forall>l\<in>set (seq_len_effective lens). 0 \<le> l" "length batch = length (seq_len_effective lens)"
  shows "restore_dynamic_batch (concat (map (map f) mbs)) idx = Inr (map f batch)"
proof -
  let ?idx = "concat idx" and ?n = "length batch"
  note p = rearrange_perm [OF assms(1,2), folded assms(3)]
  obtain r where r: "get_reverse_idx ?idx = Inr r" "length r = ?n" "\<forall>j<?n. r ! (?idx ! j) = j"
    using reverse_idx [OF p(1)] by blast
  have data: "concat (map (map f) mbs) = map (\<lambda>i. f (batch ! i)) ?idx"
    by (simp add: p(2) map_concat comp_def)
  have len: "length ?idx = ?n" using arg_cong [OF p(1), of size] by simp
  have "map ((!) (map (\<lambda>i. f (batch ! i)) ?idx)) r = map f batch"
  proof (rule nth_equalityI)
    fix i assume "i < length (map ((!) (map (\<lambda>i. f (batch ! i)) ?idx)) r)"
    then have i: "i < ?n" using r(2) by simp
    then have "i \<in> set ?idx" using mset_eq_setD [OF p(1)] by auto
    then obtain j where j: "j < ?n" "?idx ! j = i" using len by (metis in_set_conv_nth)
    then have "r ! i = j" using r(3) by blast
    then show "map ((!) (map (\<lambda>i. f (batch ! i)) ?idx)) r ! i = map f batch ! i" using i j r(2) len by simp
  qed (simp add: r(2))
  then show ?thesis using r(1) len unfolding restore_dynamic_batch_def data Let_def by simp
qed

definition example_cfg :: micro_cfg where
  "example_cfg = \<lparr>max_token_len = 5, dp_sync = False, num_batches_divided_by = None, min_num_micro_batch = None,
     use_dynamic_bsz_balance = True, force_group_size = 1\<rparr>"

lemma example_micro_batches:
  "rearrange_micro_batches id example_cfg (Nested [3, 3, 3]) [10, 20, 30 :: int] = Inr ([[10, 20], [30]], [[0, 1], [2]])"
  by code_simp

theorem micro_batches_restore_witness:
  "restore_dynamic_batch (concat (map (map ((+) 1)) [[10, 20], [30]])) [[0, 1], [2]] = Inr [11, 21, 31 :: int]"
  using micro_batches_restore [OF example_micro_batches, of "(+) 1"] by (simp add: seq_len_effective_def)

text \<open>The bound on the tokens of a micro-batch is not kept: the number of micro-batches is the total
  divided by the limit, and three sequences of 3 tokens under a limit of 5 give two micro-batches,
  one with 6 tokens.\<close>

lemma micro_batch_exceeds_limit:
  "\<exists>mbs idx. rearrange_micro_batches id example_cfg (Nested [3, 3, 3]) [10, 20, 30 :: int] = Inr (mbs, idx)
    \<and> (\<exists>p\<in>set idx. max_token_len example_cfg < (\<Sum>i\<leftarrow>p. [3, 3, 3] ! i))"
  using example_micro_batches by (auto simp: example_cfg_def)

subsection \<open>Groups of samples\<close>

text \<open>The runs cover the samples in order, and neighbours with the same uid are in one run.\<close>

definition runs_ok :: "'u option list \<Rightarrow> nat \<Rightarrow> nat list list \<Rightarrow> bool" where
  "runs_ok uids m rs \<longleftrightarrow> concat rs = [0..<m] \<and> [] \<notin> set rs
     \<and> (\<forall>i. Suc i < m \<longrightarrow> uids ! i = uids ! Suc i \<longrightarrow> (\<exists>r\<in>set rs. i \<in> set r \<and> Suc i \<in> set r))"

definition run_inv :: "'u option list \<Rightarrow> nat \<Rightarrow> 'u run_state \<Rightarrow> bool" where
  "run_inv uids m st \<longleftrightarrow> (case st of (groups, cur, indices, tot) \<Rightarrow>
     (m = 0 \<longrightarrow> st = ([], None, [], 0)) \<and> (0 < m \<longrightarrow> cur = uids ! (m - 1) \<and> indices \<noteq> [] \<and> last indices = m - 1
       \<and> runs_ok uids m (map fst groups @ [indices])))"

lemma runs_extend:
  assumes "runs_ok uids m (rs @ [ind])" "0 < m" "last ind = m - 1" "ind \<noteq> []"
  shows "runs_ok uids (Suc m) (rs @ [ind @ [m]])"
  unfolding runs_ok_def
proof (intro conjI allI impI)
  show "concat (rs @ [ind @ [m]]) = [0..<Suc m]" "[] \<notin> set (rs @ [ind @ [m]])"
    using assms(1) by (auto simp: runs_ok_def)
  fix i assume i: "Suc i < Suc m" "uids ! i = uids ! Suc i"
  have mi: "m - 1 \<in> set ind" using assms(3,4) last_in_set by metis
  show "\<exists>r\<in>set (rs @ [ind @ [m]]). i \<in> set r \<and> Suc i \<in> set r"
  proof (cases "Suc i < m")
    case True then show ?thesis using assms(1) i by (fastforce simp: runs_ok_def)
  next
    case False
    then have "i = m - 1" "Suc i = m" using i assms(2) by auto
    then show ?thesis using mi by auto
  qed
qed

lemma runs_new:
  assumes "runs_ok uids m rs" "0 < m \<Longrightarrow> uids ! (m - 1) \<noteq> uids ! m"
  shows "runs_ok uids (Suc m) (rs @ [[m]])"
  unfolding runs_ok_def
proof (intro conjI allI impI)
  show "concat (rs @ [[m]]) = [0..<Suc m]" "[] \<notin> set (rs @ [[m]])" using assms(1) by (auto simp: runs_ok_def)
  fix i assume i: "Suc i < Suc m" "uids ! i = uids ! Suc i"
  have "Suc i \<noteq> m" using assms(2) i by auto
  then have "Suc i < m" using i by simp
  then show "\<exists>r\<in>set (rs @ [[m]]). i \<in> set r \<and> Suc i \<in> set r" using assms(1) i by (auto simp: runs_ok_def)
qed

lemma group_step_inv:
  assumes "run_inv uids m st"
  shows "run_inv uids (Suc m) (group_step st (m, x, uids ! m))"
proof -
  obtain groups cur ind tot where st: "st = (groups, cur, ind, tot)" by (cases st)
  have start: "runs_ok uids 0 []" by (simp add: runs_ok_def)
  show ?thesis
  proof (cases "m = 0")
    case True
    then have st0: "st = ([], None, [], 0)" using assms st by (simp add: run_inv_def)
    have "runs_ok uids 1 [[0]]" using runs_new [OF start] by simp
    then show ?thesis using True st0 by (simp add: run_inv_def group_step_def)
  next
    case False
    then have i: "cur = uids ! (m - 1)" "ind \<noteq> []" "last ind = m - 1" "runs_ok uids m (map fst groups @ [ind])"
      using assms st by (auto simp: run_inv_def)
    show ?thesis
      using i False runs_extend [OF i(4) _ i(3,2)] runs_new [OF i(4)]
      by (auto simp: run_inv_def group_step_def st)
  qed
qed

lemma uid_groups_ok:
  assumes "length xs = length uids"
  shows "runs_ok uids (length xs) (map fst (uid_groups xs uids))"
proof -
  have z: "zip [0..<length xs] (zip xs uids) = map (\<lambda>i. (i, xs ! i, uids ! i)) [0..<length xs]"
    using assms by (intro nth_equalityI) auto
  have "run_inv uids m (fold (\<lambda>item st. group_step st item) (map (\<lambda>i. (i, xs ! i, uids ! i)) [0..<m]) ([], None, [], 0))" for m
    by (induction m) (simp_all add: group_step_inv run_inv_def [of _ 0])
  then have inv: "run_inv uids (length xs) (fold (\<lambda>item st. group_step st item) (zip [0..<length xs] (zip xs uids)) ([], None, [], 0))"
    unfolding z .
  obtain g c ind t where f: "fold (\<lambda>item st. group_step st item) (zip [0..<length xs] (zip xs uids)) ([], None, [], 0) = (g, c, ind, t)"
    by (metis prod_cases4)
  have ug: "uid_groups xs uids = (if ind \<noteq> [] then g @ [(ind, t)] else g)" unfolding uid_groups_def f by simp
  show ?thesis
  proof (cases "length xs = 0")
    case True
    then have "g = []" "ind = []" using inv unfolding f by (simp_all add: run_inv_def)
    then show ?thesis using True ug by (simp add: runs_ok_def)
  next
    case False
    then have "ind \<noteq> []" "runs_ok uids (length xs) (map fst g @ [ind])" using inv unfolding f by (simp_all add: run_inv_def)
    then show ?thesis using ug by simp
  qed
qed

lemma run_of_range:
  assumes "runs_ok uids n rs" "i \<le> j" "j < n" "\<forall>l. i \<le> l \<longrightarrow> l \<le> j \<longrightarrow> uids ! l = uids ! i"
  shows "\<exists>r\<in>set rs. i \<in> set r \<and> j \<in> set r"
  using assms(2-4)
proof (induction j rule: dec_induct)
  case base
  have "i \<in> set (concat rs)" using assms(1) base by (simp add: runs_ok_def)
  then show ?case by auto
next
  case (step j)
  have "j < n" using step.prems(1) by simp
  moreover have "\<forall>l. i \<le> l \<longrightarrow> l \<le> j \<longrightarrow> uids ! l = uids ! i" using step.prems(2) le_SucI by blast
  ultimately obtain r where r: "r \<in> set rs" "i \<in> set r" "j \<in> set r" using step.IH by blast
  have "uids ! j = uids ! i" "uids ! Suc j = uids ! i" using step.prems(2) step.hyps(1) le_SucI by blast+
  then have "uids ! j = uids ! Suc j" by simp
  then obtain r' where r': "r' \<in> set rs" "j \<in> set r'" "Suc j \<in> set r'"
    using assms(1) step.prems(1) by (auto simp: runs_ok_def)
  have "distinct (concat rs)" using assms(1) by (simp add: runs_ok_def)
  then have "r = r'" using r r' by (metis disjoint_iff distinct_concat_iff)
  then show ?case using r r' by blast
qed

text \<open>The partition by prompts is a partition of the samples, and samples that follow each other
  with the same uid are never separated.\<close>

theorem group_partitions_keep_uids:
  assumes "get_group_balanced_partitions xs uids k = Inr ps" "\<forall>x\<in>set xs. 0 \<le> x"
  shows "mset (concat ps) = mset [0..<length xs]
    \<and> (\<forall>i j. i \<le> j \<and> j < length xs \<and> (\<forall>l. i \<le> l \<and> l \<le> j \<longrightarrow> uids ! l = uids ! i)
          \<longrightarrow> (\<exists>p\<in>set ps. i \<in> set p \<and> j \<in> set p))"
proof -
  let ?gs = "uid_groups xs uids"
  let ?w = "map (\<lambda>(indices, _). \<Sum>i\<leftarrow>indices. calculate_workload (xs ! i)) ?gs"
  obtain parts where len: "length xs = length uids" and parts: "get_seqlen_balanced_partitions ?w k True = Inr parts"
    and ps: "ps = map (\<lambda>gp. sort (concat (map (\<lambda>g. fst (?gs ! g)) gp))) parts"
    using assms(1) unfolding get_group_balanced_partitions_def Let_def rbind_eq_Inr require_eq_Inr by auto
  have runs: "runs_ok uids (length xs) (map fst ?gs)" using uid_groups_ok [OF len] .
  have inr: "i < length xs" if "g \<in> set ?gs" "i \<in> set (fst g)" for g i
  proof -
    have "i \<in> set (concat (map fst ?gs))" using that by auto
    moreover have "concat (map fst ?gs) = [0..<length xs]" using runs unfolding runs_ok_def by blast
    ultimately show ?thesis by (simp only: set_upt atLeastLessThan_iff)
  qed
  have "\<forall>x\<in>set ?w. 0 \<le> x"
    using assms(2) inr by (fastforce simp: calculate_workload_def intro!: sum_list_nonneg)
  from balanced_perm [OF this parts] have pp: "mset (concat parts) = mset [0..<length ?gs]" by simp
  have "mset (concat (map (\<lambda>gp. sort (concat (map f gp))) gps)) = mset (concat (map f (concat gps)))"
    for f :: "nat \<Rightarrow> nat list" and gps by (induction gps) auto
  then have "mset (concat ps) = mset (concat (map (\<lambda>g. fst (?gs ! g)) (concat parts)))" by (simp add: ps)
  also have "\<dots> = mset (concat (map (\<lambda>g. fst (?gs ! g)) [0..<length ?gs]))" by (rule mset_concat_cong [OF pp])
  also have "map (\<lambda>g. fst (?gs ! g)) [0..<length ?gs] = map fst ?gs" by (rule nth_equalityI) simp_all
  finally have one: "mset (concat ps) = mset [0..<length xs]" using runs by (simp add: runs_ok_def)
  have "\<exists>p\<in>set ps. i \<in> set p \<and> j \<in> set p"
    if ij: "i \<le> j" "j < length xs" "\<forall>l. i \<le> l \<longrightarrow> l \<le> j \<longrightarrow> uids ! l = uids ! i" for i j
  proof -
    obtain g where g: "g < length ?gs" "i \<in> set (fst (?gs ! g))" "j \<in> set (fst (?gs ! g))"
    proof -
      obtain r where "r \<in> set (map fst ?gs)" "i \<in> set r" "j \<in> set r" using run_of_range [OF runs ij] by blast
      moreover from this(1) obtain g where "g < length ?gs" "r = fst (?gs ! g)"
        unfolding in_set_conv_nth by auto
      ultimately show thesis using that by blast
    qed
    have "g \<in> set (concat parts)" using g(1) mset_eq_setD [OF pp] by simp
    then obtain gp where "gp \<in> set parts" "g \<in> set gp" by auto
    then show ?thesis using g(2,3) unfolding ps by auto
  qed
  then show ?thesis using one by blast
qed

theorem group_partitions_keep_uids_witness:
  "\<exists>ps. get_group_balanced_partitions [3, 1, 2, 2] [Some 7, Some 7, Some 9, Some (9 :: nat)] 2 = Inr ps
    \<and> (\<exists>p\<in>set ps. 2 \<in> set p \<and> 3 \<in> set p)"
proof -
  have r: "get_group_balanced_partitions [3, 1, 2, 2] [Some 7, Some 7, Some 9, Some (9 :: nat)] 2 = Inr [[0, 1], [2, 3]]"
    by code_simp
  have "\<forall>l. 2 \<le> l \<and> l \<le> 3 \<longrightarrow> [Some 7, Some 7, Some 9, Some (9 :: nat)] ! l = [Some 7, Some 7, Some 9, Some 9] ! 2"
    by (auto simp: numeral_eq_Suc le_Suc_eq)
  then show ?thesis using group_partitions_keep_uids [OF r] r by auto
qed

subsection \<open>Greedy assignment with equal sizes\<close>

lemma first_min_ok:
  assumes "0 < length sums"
  shows "\<exists>m<length sums. first_min sums = Some m \<and> (\<forall>j<length sums. sums ! m \<le> sums ! j)"
proof -
  let ?f = "\<lambda>j m. case m of None \<Rightarrow> Some j | Some i \<Rightarrow> if sums ! j < sums ! i then Some j else Some i"
  have "\<exists>m<n. fold ?f [0..<n] None = Some m \<and> (\<forall>j<n. sums ! m \<le> sums ! j)" if "0 < n" for n
    using that
  proof (induction n)
    case (Suc n)
    show ?case
    proof (cases "n = 0")
      case False
      then obtain m where m: "m < n" "fold ?f [0..<n] None = Some m" "\<forall>j<n. sums ! m \<le> sums ! j" using Suc.IH by auto
      show ?thesis
      proof (cases "sums ! n < sums ! m")
        case True
        then have "\<forall>j<Suc n. sums ! n \<le> sums ! j" using m(3) by (auto simp: less_Suc_eq intro: less_imp_le order_trans)
        then show ?thesis using m True by auto
      next
        case False
        then have "\<forall>j<Suc n. sums ! m \<le> sums ! j" using m(3) by (auto simp: less_Suc_eq)
        then show ?thesis using m False by auto
      qed
    qed simp
  qed simp
  then show ?thesis using assms by (simp add: first_min_def)
qed

text \<open>Every sum is the bias times the number of items plus a rest below the bias, and the numbers of
  items differ by at most one.\<close>

definition greedy_inv :: "nat \<Rightarrow> int \<Rightarrow> nat \<Rightarrow> int \<Rightarrow> nat list list \<times> int list \<Rightarrow> bool" where
  "greedy_inv k bias m s st \<longleftrightarrow> (case st of (parts, sums) \<Rightarrow> length parts = k \<and> length sums = k
     \<and> mset (concat parts) = mset [0..<m]
     \<and> (\<exists>rs. length rs = k \<and> sum_list rs = s \<and> (\<forall>r\<in>set rs. 0 \<le> r)
          \<and> (\<forall>j<k. sums ! j = bias * int (length (parts ! j)) + rs ! j))
     \<and> (\<forall>i<k. \<forall>j<k. length (parts ! i) \<le> length (parts ! j) + 1))"

lemma member_le_sum: "(\<forall>r\<in>set rs. 0 \<le> r) \<Longrightarrow> j < length rs \<Longrightarrow> rs ! j \<le> sum_list (rs :: int list)"
proof (induction rs arbitrary: j)
  case (Cons r rs)
  have "0 \<le> sum_list rs" using Cons.prems(1) by (intro sum_list_nonneg) simp
  then show ?case using Cons by (cases j) (auto simp: add_increasing)
qed simp

lemma sum_list_upd: "j < length rs \<Longrightarrow> sum_list (rs[j := rs ! j + x]) = sum_list rs + (x :: int)"
  by (induction rs arbitrary: j) (auto split: nat.splits)

lemma mset_concat_upd: "j < length ps \<Longrightarrow> mset (concat (ps[j := ps ! j @ ys])) = mset (concat ps) + mset ys"
  by (induction ps arbitrary: j) (auto split: nat.splits simp: add_ac)

lemma greedy_step_inv:
  assumes "greedy_inv k bias m s st" "0 < k" "0 \<le> x" "s < bias"
  shows "\<exists>st'. greedy_step st (x + bias, m) = Inr st' \<and> greedy_inv k bias (Suc m) (s + x) st'"
proof -
  obtain parts sums where st: "st = (parts, sums)" by (cases st)
  obtain rs where len: "length parts = k" "length sums = k" "length rs = k" and perm: "mset (concat parts) = mset [0..<m]"
    and rs: "sum_list rs = s" "\<forall>r\<in>set rs. 0 \<le> r" and sums: "\<forall>j<k. sums ! j = bias * int (length (parts ! j)) + rs ! j"
    and diff: "\<forall>i<k. \<forall>j<k. length (parts ! i) \<le> length (parts ! j) + 1"
    using assms(1) unfolding st greedy_inv_def by auto
  have "0 < length sums" using len assms(2) by simp
  from first_min_ok [OF this] obtain q where q: "q < k" "first_min sums = Some q" "\<forall>j<k. sums ! q \<le> sums ! j"
    unfolding len by blast
  let ?parts = "parts[q := parts ! q @ [m]]"
  have least: "length (parts ! q) \<le> length (parts ! j)" if j: "j < k" for j
  proof (rule ccontr)
    assume "\<not> ?thesis"
    then have "int (length (parts ! j)) + 1 \<le> int (length (parts ! q))" by simp
    moreover have "0 \<le> bias" using assms(4) rs sum_list_nonneg [of rs] by auto
    ultimately have "bias * (int (length (parts ! j)) + 1) \<le> bias * int (length (parts ! q))"
      by (rule mult_left_mono)
    moreover have "rs ! j < bias" using member_le_sum [OF rs(2), of j] rs(1) j len assms(4) by simp
    moreover have "0 \<le> rs ! q" using rs(2) q(1) len by simp
    ultimately show False using q(3) sums j q(1) by (fastforce simp: algebra_simps)
  qed
  have "greedy_inv k bias (Suc m) (s + x) (?parts, sums[q := sums ! q + (x + bias)])"
    unfolding greedy_inv_def prod.case
  proof (intro conjI exI [of _ "rs[q := rs ! q + x]"] allI impI)
    show "\<forall>r\<in>set (rs[q := rs ! q + x]). 0 \<le> r"
      using rs(2) assms(3) q(1) len by (auto dest!: set_update_subset_insert [THEN subsetD])
    fix j assume "j < k"
    then show "sums[q := sums ! q + (x + bias)] ! j = bias * int (length (?parts ! j)) + rs[q := rs ! q + x] ! j"
      using sums len q(1) by (cases "j = q") (auto simp: algebra_simps)
  next
    fix i j assume "i < k" "j < k"
    then show "length (?parts ! i) \<le> length (?parts ! j) + 1"
      using diff least [of j] len q(1) by (cases "i = q"; cases "j = q") (auto intro: le_SucI)
  qed (use len q(1) perm rs(1) in \<open>simp_all add: mset_concat_upd sum_list_upd\<close>)
  then show ?thesis using q(2) by (simp add: greedy_step_def st)
qed

lemma greedy_fold_inv:
  assumes "greedy_inv k bias m s st" "0 < k" "\<forall>x\<in>set xs. 0 \<le> x" "s + sum_list xs < bias"
  shows "\<exists>st'. rfold greedy_step st (zip (map (\<lambda>x. x + bias) xs) [m..<m + length xs]) = Inr st'
    \<and> greedy_inv k bias (m + length xs) (s + sum_list xs) st'"
  using assms
proof (induction xs arbitrary: m s st)
  case (Cons x xs)
  have "0 \<le> sum_list xs" using Cons.prems(3) by (intro sum_list_nonneg) simp
  then have "s < bias" using Cons.prems(3,4) by simp
  then obtain st1 where st1: "greedy_step st (x + bias, m) = Inr st1" "greedy_inv k bias (Suc m) (s + x) st1"
    using greedy_step_inv [OF Cons.prems(1,2), of x] Cons.prems(3) by (metis list.set_intros(1))
  have "[m..<m + length (x # xs)] = m # [Suc m..<Suc m + length xs]" by (simp add: upt_rec)
  then show ?case using Cons.IH [OF st1(2) Cons.prems(2)] Cons.prems(3,4) st1(1) by (auto simp: add.assoc)
qed simp

lemma equal_counts:
  assumes "\<forall>x\<in>set L. \<forall>y\<in>set L. x \<le> y + 1" "sum_list L = length L * q" "x \<in> set L"
  shows "x = (q :: nat)"
proof -
  have lo: "length L * a < sum_list L" if "\<forall>y\<in>set L. a \<le> y" "x \<in> set L" "a < x" for L :: "nat list" and a x
    using that
  proof (induction L)
    case (Cons z L)
    have "length L * a \<le> sum_list L" using Cons.prems(1) by (induction L) auto
    then show ?case using Cons by (cases "x = z") auto
  qed simp
  have hi: "sum_list L < length L * a" if "\<forall>y\<in>set L. y \<le> a" "x \<in> set L" "x < a" for L :: "nat list" and a x
    using that
  proof (induction L)
    case (Cons z L)
    have "sum_list L \<le> length L * a" using Cons.prems(1) by (induction L) auto
    then show ?case using Cons by (cases "x = z") auto
  qed simp
  have "\<not> q < x" using lo [of L q x] assms by (metis Suc_eq_plus1 less_irrefl less_Suc_eq_le order_less_le_trans)
  moreover have "\<not> x < q" using hi [of L q x] assms by (metis Suc_eq_plus1 Suc_leI le_trans less_irrefl)
  ultimately show ?thesis by simp
qed

text \<open>The greedy assignment with the bias never fails its size check: every partition gets the same
  number of items, and every item is assigned once.\<close>

theorem greedy_equal_sizes:
  assumes "0 < k" "length xs mod k = 0" "\<forall>x\<in>set xs. 0 \<le> x"
  shows "\<exists>ps. greedy_partition xs k True = Inr ps \<and> length ps = k \<and> mset (concat ps) = mset [0..<length xs]
    \<and> (\<forall>p\<in>set ps. length p = length xs div k)"
proof -
  let ?bias = "sum_list xs + 1"
  have "greedy_inv k ?bias 0 0 (replicate k [], replicate k 0)"
    by (auto simp: greedy_inv_def sum_list_replicate intro!: exI [of _ "replicate k 0"])
  from greedy_fold_inv [OF this assms(1,3)] obtain parts sums where
    r: "rfold greedy_step (replicate k [], replicate k 0) (zip (map (\<lambda>x. x + ?bias) xs) [0..<length xs]) = Inr (parts, sums)"
    and inv: "greedy_inv k ?bias (length xs) (sum_list xs) (parts, sums)" by auto
  have p: "length parts = k" "mset (concat parts) = mset [0..<length xs]"
    "\<forall>i<k. \<forall>j<k. length (parts ! i) \<le> length (parts ! j) + 1"
    using inv by (auto simp: greedy_inv_def)
  have sum: "sum_list (map length parts) = length xs"
    using arg_cong [OF p(2), of size] by (simp add: length_concat)
  have d: "length xs = k * (length xs div k)" using assms(2) by auto
  have eq: "length x = length xs div k" if "x \<in> set parts" for x
  proof (rule equal_counts [of "map length parts"])
    show "\<forall>x\<in>set (map length parts). \<forall>y\<in>set (map length parts). x \<le> y + 1"
      using p(1,3) unfolding set_map by (metis (no_types, lifting) imageE in_set_conv_nth)
    show "sum_list (map length parts) = length (map length parts) * (length xs div k)" using sum d p(1) by simp
  qed (use that in simp)
  then have "check_equal_sizes xs k parts = Inr ()" using d by (simp add: check_equal_sizes_def mult.commute)
  then show ?thesis using r p(1,2) eq by (simp add: greedy_partition_def)
qed

theorem greedy_equal_sizes_witness:
  "\<exists>ps. greedy_partition [5, 1, 1, 4] 2 True = Inr ps \<and> length ps = 2 \<and> mset (map length ps) = {#2, 2#}"
proof -
  from greedy_equal_sizes [of 2 "[5, 1, 1, 4]"] obtain ps where
    "greedy_partition [5, 1, 1, 4] 2 True = Inr ps" "length ps = 2" "\<forall>p\<in>set ps. length p = 2" by auto
  then show ?thesis by (auto simp: numeral_2_eq_2 length_Suc_conv)
qed

end
