(* ===== verification/Replay_Distribution.thy ===== *)
theory Replay_Distribution
  imports Prelude Complex_Main
begin

section \<open>Replay statistics of the draft blocks\<close>

text \<open>
  Model of \<^verbatim>\<open>verl/trainer/ppo/replay_distribution.py\<close>: how many drafted tokens were accepted,
  rejected first, or dropped behind the first rejection, at which position blocks were cut, and the
  accumulated divergences between draft and target. The tracker is a record; an update that
  raises keeps what it has already changed, so an update returns the tracker together with the
  result. Writing the JSON files and formatting tables is not modelled.
\<close>

subsection \<open>One block\<close>

record composition =
  accepted :: int
  first_rejected :: int
  post_rejection_suffix :: int

definition replay_block_counts :: "int \<Rightarrow> int \<Rightarrow> composition res" where
  "replay_block_counts accepted_length drafted_length =
     (let r = max accepted_length 0; len = max drafted_length 0 in
      if len < r then Inl ValueError
      else let fr = (if r < len then 1 else 0)
        in Inr \<lparr>accepted = r, first_rejected = fr, post_rejection_suffix = max (len - r - fr) 0\<rparr>)"

text \<open>The bucket of a block: the position of the first rejected draft, or full acceptance.\<close>

datatype bucket = Position int | Full_Accept

definition replay_anchor_bucket :: "int \<Rightarrow> int \<Rightarrow> bucket res" where
  "replay_anchor_bucket accepted_length drafted_length =
     (let r = max accepted_length 0; len = max drafted_length 0 in
      if len < r then Inl ValueError else if r = len then Inr Full_Accept else Inr (Position (r + 1)))"

subsection \<open>Nested metadata\<close>

text \<open>What the non-tensor batch holds: numbers, nested sequences, missing values.\<close>

datatype 'a meta = MNone | MNum 'a | MList "'a meta list" | MTuple "'a meta list" | MArray "'a meta list"

definition to_python :: "'a meta \<Rightarrow> 'a meta" where
  "to_python v = (case v of MArray xs \<Rightarrow> MList xs | _ \<Rightarrow> v)"

definition as_meta_list :: "'a meta \<Rightarrow> 'a meta list" where
  "as_meta_list v = (case to_python v of MNone \<Rightarrow> [] | MList xs \<Rightarrow> xs | MTuple xs \<Rightarrow> xs | w \<Rightarrow> [w])"

fun flatten_item :: "'a meta \<Rightarrow> 'a list" where
  "flatten_item MNone = []"
| "flatten_item (MNum i) = [i]"
| "flatten_item (MList xs) = concat (map flatten_item xs)"
| "flatten_item (MTuple xs) = concat (map flatten_item xs)"
| "flatten_item (MArray xs) = concat (map flatten_item xs)"

definition normalize_nested :: "int meta \<Rightarrow> nat \<Rightarrow> int list list res" where
  "normalize_nested values batch_size =
     (let v = to_python values in
      if v = MNone then Inr (replicate batch_size [])
      else let vs = (case v of MList xs \<Rightarrow> xs | _ \<Rightarrow> [v]);
               vs' = (if batch_size = 1 then [MList vs] else vs)
        in if length vs' \<noteq> batch_size then Inl ValueError else Inr (map flatten_item vs'))"

definition int_of_meta :: "int meta \<Rightarrow> int res" where
  "int_of_meta v = (case v of MNum i \<Rightarrow> Inr i | _ \<Rightarrow> Inl TypeError)"

subsection \<open>The tracker\<close>

type_synonym counts = "(bucket \<times> int) list"

record tracker =
  total_training_steps :: int
  max_anchor_position :: int
  composition_counts :: composition
  anchor_first_half :: counts
  anchor_second_half :: counts
  mismatch_sums :: "(string \<times> real) list"
  mismatch_counts :: "(string \<times> int) list"

definition MISMATCH_GROUPS :: "string list" where
  "MISMATCH_GROUPS = [''matched_target_trajectory'', ''accepted_replay'', ''first_rejected_replay'',
     ''post_rejection_suffix_replay'']"

definition zero_counts :: counts where
  "zero_counts = map (\<lambda>p. (Position (int p), 0)) [1..<17] @ [(Full_Accept, 0)]"

definition new_tracker :: "int \<Rightarrow> int \<Rightarrow> tracker" where
  "new_tracker steps max_anchor = \<lparr>total_training_steps = steps, max_anchor_position = max_anchor,
     composition_counts = \<lparr>accepted = 0, first_rejected = 0, post_rejection_suffix = 0\<rparr>,
     anchor_first_half = zero_counts, anchor_second_half = zero_counts,
     mismatch_sums = map (\<lambda>g. (g, 0)) MISMATCH_GROUPS, mismatch_counts = map (\<lambda>g. (g, 0)) MISMATCH_GROUPS\<rparr>"

definition composition_total :: "composition \<Rightarrow> int" where
  "composition_total c = accepted c + first_rejected c + post_rejection_suffix c"

definition total_replay_token_count :: "tracker \<Rightarrow> int" where
  "total_replay_token_count t = composition_total (composition_counts t)"

text \<open>\<^verbatim>\<open>float(global_step) <= float(total_training_steps) / 2.0\<close>\<close>

definition is_first_half :: "tracker \<Rightarrow> int \<Rightarrow> bool" where
  "is_first_half t global_step \<longleftrightarrow> 2 * global_step \<le> total_training_steps t"

definition add_composition :: "composition \<Rightarrow> composition \<Rightarrow> composition" where
  "add_composition a b = \<lparr>accepted = accepted a + accepted b, first_rejected = first_rejected a + first_rejected b,
     post_rejection_suffix = post_rejection_suffix a + post_rejection_suffix b\<rparr>"

text \<open>\<^verbatim>\<open>counts[bucket] += 1\<close> raises for a bucket that is not a key.\<close>

definition bump_bucket :: "bucket \<Rightarrow> counts \<Rightarrow> counts res" where
  "bump_bucket b cs = (case map_of cs b of None \<Rightarrow> Inl KeyError
     | Some n \<Rightarrow> Inr (map (\<lambda>(k, v). if k = b then (k, n + 1) else (k, v)) cs))"

definition update_block :: "bool \<Rightarrow> int \<times> int \<Rightarrow> tracker \<Rightarrow> tracker \<times> unit res" where
  "update_block first_half lens t = (case lens of (accepted_length, drafted_length) \<Rightarrow>
     if drafted_length \<le> 0 then (t, Inr ())
     else case replay_block_counts accepted_length drafted_length of Inl e \<Rightarrow> (t, Inl e)
     | Inr c \<Rightarrow>
        let t1 = t\<lparr>composition_counts := add_composition (composition_counts t) c\<rparr> in
        (case replay_anchor_bucket accepted_length drafted_length of Inl e \<Rightarrow> (t1, Inl e)
         | Inr b \<Rightarrow>
            if (case b of Full_Accept \<Rightarrow> False | Position p \<Rightarrow> max_anchor_position t1 < p) then (t1, Inl ValueError)
            else if first_half
            then (case bump_bucket b (anchor_first_half t1) of Inl e \<Rightarrow> (t1, Inl e)
                  | Inr cs \<Rightarrow> (t1\<lparr>anchor_first_half := cs\<rparr>, Inr ()))
            else (case bump_bucket b (anchor_second_half t1) of Inl e \<Rightarrow> (t1, Inl e)
                  | Inr cs \<Rightarrow> (t1\<lparr>anchor_second_half := cs\<rparr>, Inr ()))))"

text \<open>A loop whose body may raise: it stops at the first exception and keeps the state reached.\<close>

fun efold :: "('a \<Rightarrow> 's \<Rightarrow> 's \<times> unit res) \<Rightarrow> 'a list \<Rightarrow> 's \<Rightarrow> 's \<times> unit res" where
  "efold f [] s = (s, Inr ())"
| "efold f (x # xs) s = (case f x s of (s', Inr _) \<Rightarrow> efold f xs s' | (s', Inl e) \<Rightarrow> (s', Inl e))"

definition update_sample :: "int meta list \<Rightarrow> nat \<times> int list \<times> int list \<Rightarrow> tracker \<Rightarrow> tracker \<times> unit res" where
  "update_sample global_steps item t = (case item of (sample_idx, sample_r, sample_l) \<Rightarrow>
     if length sample_r \<noteq> length sample_l then (t, Inl ValueError)
     else case int_of_meta (global_steps ! sample_idx) of Inl e \<Rightarrow> (t, Inl e)
     | Inr step \<Rightarrow> efold (update_block (is_first_half t step)) (zip sample_r sample_l) t)"

definition update_rollout ::
  "nat \<Rightarrow> int meta option \<Rightarrow> int meta option \<Rightarrow> int meta option \<Rightarrow> int \<Rightarrow> tracker \<Rightarrow> tracker \<times> unit res" where
  "update_rollout batch_size accepted_meta drafted_meta steps_meta fallback_global_step t =
     (let get = (\<lambda>m. case m of None \<Rightarrow> MNone | Some v \<Rightarrow> v) in
      case normalize_nested (get accepted_meta) batch_size of Inl e \<Rightarrow> (t, Inl e)
      | Inr accepted_lengths \<Rightarrow>
      case normalize_nested (get drafted_meta) batch_size of Inl e \<Rightarrow> (t, Inl e)
      | Inr drafted_lengths \<Rightarrow>
      if accepted_meta = None \<or> drafted_meta = None then (t, Inl RuntimeError)
      else let steps = as_meta_list (get steps_meta);
               global_steps = (if length steps \<noteq> batch_size then replicate batch_size (MNum fallback_global_step) else steps)
        in efold (update_sample global_steps) (zip [0..<batch_size] (zip accepted_lengths drafted_lengths)) t)"

text \<open>\<^verbatim>\<open>metrics\<close> holds the summed value of a metric; a missing metric counts as 0. Python rounds half
  to even.\<close>

definition round_even :: "real \<Rightarrow> int" where
  "round_even x = (let f = floor x; d = x - of_int f in
     if d < 1/2 then f else if 1/2 < d then f + 1 else if even f then f else f + 1)"

definition update_mismatch :: "(string \<Rightarrow> real) \<Rightarrow> (string \<Rightarrow> real) \<Rightarrow> tracker \<Rightarrow> tracker" where
  "update_mismatch sum_kl num_states t = t\<lparr>
     mismatch_sums := map (\<lambda>(g, v). (g, v + sum_kl g)) (mismatch_sums t),
     mismatch_counts := map (\<lambda>(g, n). (g, n + round_even (num_states g))) (mismatch_counts t)\<rparr>"

definition composition_rows :: "tracker \<Rightarrow> (string \<times> int \<times> real) list" where
  "composition_rows t =
     (let total = total_replay_token_count t; c = composition_counts t;
          row = (\<lambda>name n. (name, n, if 0 < total then real_of_int n / real_of_int total else 0))
      in [row ''accepted'' (accepted c), row ''first_rejected'' (first_rejected c),
          row ''post_rejection_suffix'' (post_rejection_suffix c), (''total'', total, if 0 < total then 1 else 0)])"

definition mismatch_rows :: "tracker \<Rightarrow> (string \<times> int \<times> real \<times> real) list" where
  "mismatch_rows t = map2 (\<lambda>(g, n) (_, s). (g, n, s, if 0 < n then s / real_of_int n else 0))
     (mismatch_counts t) (mismatch_sums t)"

definition anchor_rows :: "tracker \<Rightarrow> bool \<Rightarrow> (bucket option \<times> int \<times> real) list res" where
  "anchor_rows t first_half =
     (let counts = (if first_half then anchor_first_half t else anchor_second_half t);
          total = sum_list (map snd counts);
          row = (\<lambda>b. case map_of counts b of None \<Rightarrow> Inl KeyError
                   | Some n \<Rightarrow> Inr (Some b, n, if 0 < total then real_of_int n / real_of_int total else 0))
      in rbind (rmap row (map (\<lambda>p. Position p) [1..max_anchor_position t])) (\<lambda>rows.
         rbind (row Full_Accept) (\<lambda>last_row.
           Inr (rows @ [last_row, (None, total, if 0 < total then 1 else 0)]))))"

subsection \<open>One block adds its drafted tokens\<close>

definition bucket_keys :: "bucket list" where
  "bucket_keys = map (\<lambda>p. Position (int p)) [1..<17] @ [Full_Accept]"

lemma bucket_keys_props: "distinct bucket_keys" "set bucket_keys = insert Full_Accept (Position ` {1..16})"
proof -
  show "distinct bucket_keys" by (auto simp: bucket_keys_def distinct_map inj_on_def)
  have "int ` {1..<17} = {1..16}" by (simp add: image_int_atLeastLessThan) auto
  then show "set bucket_keys = insert Full_Accept (Position ` {1..16})"
    by (simp add: bucket_keys_def image_image flip: image_image [of Position int])
qed

definition tracker_ok :: "tracker \<Rightarrow> bool" where
  "tracker_ok t \<longleftrightarrow> map fst (anchor_first_half t) = bucket_keys \<and> map fst (anchor_second_half t) = bucket_keys"

lemma new_tracker_ok: "tracker_ok (new_tracker steps m)"
  by (simp add: tracker_ok_def new_tracker_def zero_counts_def bucket_keys_def)

definition anchor_total :: "tracker \<Rightarrow> int" where
  "anchor_total t = sum_list (map snd (anchor_first_half t)) + sum_list (map snd (anchor_second_half t))"

text \<open>The blocks the engine reports: no more accepted than drafted, no more drafted than buckets.\<close>

definition block_ok :: "tracker \<Rightarrow> int \<times> int \<Rightarrow> bool" where
  "block_ok t b \<longleftrightarrow> (case b of (a, l) \<Rightarrow> l \<le> 0 \<or> (a \<le> l \<and> l \<le> 16 \<and> l \<le> max_anchor_position t))"

lemma replay_block_counts_total:
  "replay_block_counts a l = Inr c \<Longrightarrow> composition_total c = max l 0 \<and> accepted c = max a 0 \<and> 0 \<le> post_rejection_suffix c
    \<and> first_rejected c = (if max a 0 < max l 0 then 1 else 0)"
  by (auto simp: replay_block_counts_def composition_total_def Let_def split: if_splits)

lemma bump_bucket_ok:
  assumes "map fst cs = bucket_keys" "b \<in> set bucket_keys"
  shows "\<exists>cs'. bump_bucket b cs = Inr cs' \<and> map fst cs' = bucket_keys \<and> sum_list (map snd cs') = sum_list (map snd cs) + 1"
proof -
  have d: "distinct (map fst cs)" "b \<in> fst ` set cs" using assms bucket_keys_props(1) by (simp_all flip: set_map)
  then obtain n where n: "map_of cs b = Some n" by (metis map_of_eq_None_iff not_None_eq)
  have "sum_list (map snd (map (\<lambda>(k, v). if k = b then (k, n + 1) else (k, v)) cs)) = sum_list (map snd cs) + 1"
    using d n
  proof (induction cs)
    case (Cons x cs)
    show ?case
    proof (cases "fst x = b")
      case True
      then have "map (\<lambda>(k, v). if k = b then (k, n + 1) else (k, v)) cs = cs" using Cons.prems(1)
        by (intro map_idI) (auto simp: image_iff)
      then show ?thesis using True Cons.prems(3) by (cases x) simp
    qed (use Cons in \<open>cases x, auto\<close>)
  qed simp
  moreover have "map fst (map (\<lambda>(k, v). if k = b then (k, n + 1) else (k, v)) cs) = map fst cs" by auto
  ultimately show ?thesis using n assms(1) by (simp add: bump_bucket_def)
qed

definition same_frame :: "tracker \<Rightarrow> tracker \<Rightarrow> bool" where
  "same_frame t t' \<longleftrightarrow> total_training_steps t' = total_training_steps t \<and> max_anchor_position t' = max_anchor_position t
     \<and> mismatch_sums t' = mismatch_sums t \<and> mismatch_counts t' = mismatch_counts t \<and> tracker_ok t'"

text \<open>What a block contributes: drafted tokens, accepted tokens, one anchor.\<close>

definition contributes :: "tracker \<Rightarrow> tracker \<Rightarrow> (int \<times> int) list \<Rightarrow> bool" where
  "contributes t t' bs \<longleftrightarrow> same_frame t t'
     \<and> total_replay_token_count t' = total_replay_token_count t + (\<Sum>(a, l)\<leftarrow>bs. max l 0)
     \<and> accepted (composition_counts t') = accepted (composition_counts t) + (\<Sum>(a, l)\<leftarrow>bs. if 0 < l then max a 0 else 0)
     \<and> anchor_total t' = anchor_total t + int (length (filter (\<lambda>(a, l). 0 < l) bs))"

lemma update_block_ok:
  assumes "tracker_ok t" "block_ok t (a, l)"
  shows "\<exists>t'. update_block h (a, l) t = (t', Inr ()) \<and> contributes t t' [(a, l)]"
proof (cases "0 < l")
  case True
  then have al: "a \<le> l" "l \<le> 16" "l \<le> max_anchor_position t" using assms(2) by (auto simp: block_ok_def)
  have "\<exists>c. replay_block_counts a l = Inr c" using True al by (auto simp: replay_block_counts_def Let_def)
  then obtain c where c: "replay_block_counts a l = Inr c" ..
  let ?t1 = "t\<lparr>composition_counts := add_composition (composition_counts t) c\<rparr>"
  obtain b where b: "replay_anchor_bucket a l = Inr b" "b \<in> set bucket_keys" "\<forall>p. b = Position p \<longrightarrow> p \<le> max_anchor_position t"
  proof (cases "max a 0 = l")
    case True
    then show thesis using that [of Full_Accept] al \<open>0 < l\<close>
      by (simp add: replay_anchor_bucket_def Let_def bucket_keys_props(2))
  next
    case False
    then show thesis using that [of "Position (max a 0 + 1)"] al \<open>0 < l\<close>
      by (auto simp: replay_anchor_bucket_def Let_def bucket_keys_props(2))
  qed
  have small: "\<not> (case b of Full_Accept \<Rightarrow> False | Position p \<Rightarrow> max_anchor_position ?t1 < p)"
    using b(3) by (cases b) auto
  note tot = replay_block_counts_total [OF c]
  obtain f where f: "bump_bucket b (anchor_first_half t) = Inr f" "map fst f = bucket_keys"
    "sum_list (map snd f) = sum_list (map snd (anchor_first_half t)) + 1"
    using bump_bucket_ok b(2) assms(1) by (auto simp: tracker_ok_def)
  obtain g where g: "bump_bucket b (anchor_second_half t) = Inr g" "map fst g = bucket_keys"
    "sum_list (map snd g) = sum_list (map snd (anchor_second_half t)) + 1"
    using bump_bucket_ok b(2) assms(1) by (auto simp: tracker_ok_def)
  let ?t' = "if h then ?t1\<lparr>anchor_first_half := f\<rparr> else ?t1\<lparr>anchor_second_half := g\<rparr>"
  have "update_block h (a, l) t = (?t', Inr ())"
    using True c b(1) small f(1) g(1) by (simp add: update_block_def Let_def)
  moreover have "contributes t ?t' [(a, l)]"
    using tot True f(2,3) g(2,3) assms(1)
    by (auto simp: contributes_def same_frame_def tracker_ok_def total_replay_token_count_def composition_total_def
        add_composition_def anchor_total_def)
  ultimately show ?thesis by blast
next
  case False
  then show ?thesis using assms(1)
    by (simp add: update_block_def contributes_def same_frame_def)
qed

lemma contributes_trans:
  assumes "contributes t t1 bs" "contributes t1 t2 bs'"
  shows "contributes t t2 (bs @ bs')"
  using assms unfolding contributes_def same_frame_def by simp

lemma update_blocks_ok:
  assumes "tracker_ok t" "\<forall>b\<in>set bs. block_ok t b"
  shows "\<exists>t'. efold (update_block h) bs t = (t', Inr ()) \<and> contributes t t' bs"
  using assms
proof (induction bs arbitrary: t)
  case (Cons b bs)
  obtain a l where b: "b = (a, l)" by (cases b)
  obtain t1 where t1: "update_block h b t = (t1, Inr ())" "contributes t t1 [b]"
    using update_block_ok [OF Cons.prems(1), of a l h] Cons.prems(2) b by auto
  have "tracker_ok t1" "\<forall>b\<in>set bs. block_ok t1 b"
    using t1(2) Cons.prems(2) by (auto simp: contributes_def same_frame_def block_ok_def)
  then obtain t2 where "efold (update_block h) bs t1 = (t2, Inr ())" "contributes t1 t2 bs" using Cons.IH by blast
  then show ?case using t1 contributes_trans [OF t1(2)] by auto
qed (simp add: contributes_def same_frame_def)

lemma update_samples_ok:
  assumes "tracker_ok t" "\<forall>(i, r, l)\<in>set items. length r = length l \<and> (\<exists>s. steps ! i = MNum s)"
    and "\<forall>(i, r, l)\<in>set items. \<forall>b\<in>set (zip r l). block_ok t b"
  shows "\<exists>t'. efold (update_sample steps) items t = (t', Inr ()) \<and> contributes t t' (concat (map (\<lambda>(i, r, l). zip r l) items))"
  using assms
proof (induction items arbitrary: t)
  case (Cons x items)
  obtain i r l where x: "x = (i, r, l)" by (cases x)
  obtain s where s: "length r = length l" "steps ! i = MNum s" using Cons.prems(2) x by auto
  obtain t1 where t1: "efold (update_block (is_first_half t s)) (zip r l) t = (t1, Inr ())" "contributes t t1 (zip r l)"
    using update_blocks_ok [OF Cons.prems(1), of "zip r l"] Cons.prems(3) x by fastforce
  have u: "update_sample steps x t = (t1, Inr ())" using t1(1) s by (simp add: update_sample_def x int_of_meta_def)
  have "tracker_ok t1" "\<And>b. block_ok t b \<Longrightarrow> block_ok t1 b"
    using t1(2) by (auto simp: contributes_def same_frame_def block_ok_def)
  then obtain t2 where "efold (update_sample steps) items t1 = (t2, Inr ())"
    "contributes t1 t2 (concat (map (\<lambda>(i, r, l). zip r l) items))"
    using Cons.IH [of t1] Cons.prems(2,3) by fastforce
  then show ?case using u contributes_trans [OF t1(2)] by (auto simp: x)
qed (simp add: contributes_def same_frame_def)

text \<open>C28 The replay statistics account for every drafted token: for metadata as the engine reports it
  the update never raises, the token counts grow by exactly the drafted tokens of the batch, the
  accepted count by the accepted ones, and every block with drafts is entered once in the
  histogram of cut positions.\<close>

theorem update_rollout_accounts:
  assumes "tracker_ok t" "normalize_nested am n = Inr accs" "normalize_nested dm n = Inr drafts"
    and "map length accs = map length drafts"
    and "\<forall>b\<in>set (concat (map2 zip accs drafts)). block_ok t b"
    and "length (as_meta_list steps) \<noteq> n \<or> (\<forall>s\<in>set (as_meta_list steps). \<exists>k. s = MNum k)"
  shows "\<exists>t'. update_rollout n (Some am) (Some dm) (Some steps) fallback t = (t', Inr ()) \<and> tracker_ok t'
    \<and> total_replay_token_count t' = total_replay_token_count t + (\<Sum>l\<leftarrow>concat drafts. max l 0)
    \<and> anchor_total t' = anchor_total t + int (length (filter (\<lambda>l. 0 < l) (concat drafts)))"
proof -
  have norm_len: "length xs = n" if "normalize_nested m n = Inr xs" for m xs
    using that by (auto simp: normalize_nested_def Let_def split: if_splits)
  have len: "length accs = n" "length drafts = n" using norm_len assms(2,3) by auto
  let ?steps = "if length (as_meta_list steps) \<noteq> n then replicate n (MNum fallback) else as_meta_list steps"
  let ?items = "zip [0..<n] (zip accs drafts)"
  have nth_steps: "\<exists>k. ?steps ! i = MNum k" if "i < n" for i using assms(6) that by auto
  have lens: "length (accs ! i) = length (drafts ! i)" if "i < n" for i
    using arg_cong [OF assms(4), of "\<lambda>xs. xs ! i"] that len by simp
  have zs: "map (\<lambda>(i, r, l). zip r l) ?items = map2 zip accs drafts"
    using len by (intro nth_equalityI) auto
  have i1: "\<forall>(i, r, l)\<in>set ?items. length r = length l \<and> (\<exists>s. ?steps ! i = MNum s)"
    using nth_steps lens len by (auto simp: set_zip)
  have i2: "\<forall>(i, r, l)\<in>set ?items. \<forall>b\<in>set (zip r l). block_ok t b"
    using assms(5) unfolding zs [symmetric] by fastforce
  obtain t' where t': "efold (update_sample ?steps) ?items t = (t', Inr ())"
    "contributes t t' (concat (map2 zip accs drafts))"
    using update_samples_ok [OF assms(1) i1 i2] unfolding zs by blast
  have "map (map snd) (map2 zip accs drafts) = drafts"
    by (rule nth_equalityI) (use len lens in simp_all)
  then have snds: "map snd (concat (map2 zip accs drafts)) = concat drafts" by (simp add: map_concat)
  have sums: "(\<Sum>(a, l)\<leftarrow>bs. max l 0) = (\<Sum>l\<leftarrow>map snd bs. max l 0)"
    "length (filter (\<lambda>(a, l). 0 < l) bs) = length (filter (\<lambda>l. 0 < l) (map snd bs))" for bs :: "(int \<times> int) list"
    by (induction bs) auto
  have "update_rollout n (Some am) (Some dm) (Some steps) fallback t = (t', Inr ())"
    using t'(1) assms(2,3) by (simp add: update_rollout_def Let_def)
  then show ?thesis using t'(2) unfolding contributes_def sums snds same_frame_def by blast
qed

theorem update_rollout_accounts_witness:
  "\<exists>t'. update_rollout 2 (Some (MList [MList [MNum 2, MNum 3], MList [MNum 0]])) (Some (MList [MList [MNum 3, MNum 3], MList [MNum 3]]))
       (Some MNone) 1 (new_tracker 10 16) = (t', Inr ())
     \<and> total_replay_token_count t' = 9 \<and> anchor_total t' = 3"
proof -
  have n: "normalize_nested (MList [MList [MNum 2, MNum 3], MList [MNum 0]]) 2 = Inr [[2, 3], [0]]"
    "normalize_nested (MList [MList [MNum 3, MNum 3], MList [MNum 3]]) 2 = Inr [[3, 3], [3]]"
    by (simp_all add: normalize_nested_def to_python_def)
  have z: "total_replay_token_count (new_tracker 10 16) = 0" "anchor_total (new_tracker 10 16) = 0" by code_simp+
  have m: "max_anchor_position (new_tracker 10 16) = 16" by (simp add: new_tracker_def)
  show ?thesis
    using update_rollout_accounts [OF new_tracker_ok n, of 10 16 MNone 1] z
    by (auto simp: block_ok_def m as_meta_list_def to_python_def)
qed

subsection \<open>Reports\<close>

text \<open>A configured \<^verbatim>\<open>max_anchor_position\<close> above 16 has no buckets: the report raises.\<close>

lemma rmap_raises:
  assumes "f x = Inl e" "x \<in> set xs" "\<And>y e'. f y = Inl e' \<Longrightarrow> e' = e"
  shows "rmap f xs = Inl e"
  using assms(2)
proof (induction xs)
  case (Cons y ys)
  show ?case
  proof (cases "f y")
    case (Inl e')
    then show ?thesis using assms(3) by simp
  next
    case (Inr v)
    then show ?thesis using Cons assms(1) by auto
  qed
qed simp

lemma anchor_rows_key_error:
  assumes "tracker_ok t" "16 < max_anchor_position t"
  shows "anchor_rows t h = Inl KeyError"
proof -
  let ?cs = "if h then anchor_first_half t else anchor_second_half t"
  let ?row = "\<lambda>b. case map_of ?cs b of None \<Rightarrow> Inl KeyError
     | Some n \<Rightarrow> Inr (Some b, n, if 0 < sum_list (map snd ?cs) then real_of_int n / real_of_int (sum_list (map snd ?cs)) else 0)"
  have "fst ` set ?cs = set bucket_keys" using assms(1) by (simp add: tracker_ok_def flip: set_map)
  then have "Position 17 \<notin> fst ` set ?cs" by (auto simp: bucket_keys_props(2))
  then have "map_of ?cs (Position 17) = None" by (simp add: map_of_eq_None_iff)
  then have none: "?row (Position 17) = Inl KeyError" by simp
  have "rmap ?row (map (\<lambda>p. Position p) [1..max_anchor_position t]) = Inl KeyError"
    by (rule rmap_raises [where f = ?row, OF none]) (use assms(2) in \<open>auto split: option.splits\<close>)
  then show ?thesis by (simp add: anchor_rows_def Let_def)
qed

end
