(* ===== verification/Opd_Inputs.thy ===== *)
theory Opd_Inputs
  imports Replay_Distribution Opd_Tv
begin

section \<open>Inputs of the student and global counts\<close>

text \<open>
  Model of the DFLASH part of \<^verbatim>\<open>workers/engine/fsdp/transformer_impl.py\<close>: the normalisation of the
  metadata that travels with a batch, the filter that keeps the first rejected token of a block,
  the padded tensors the student receives, the compaction of padded sequences, and the counts
  that are summed over all ranks and used as denominators of the losses.

  Raw metadata are values of \<open>'a meta\<close> (\<open>Replay_Distribution\<close>), jagged tensors and lists of
  Python lists alike are lists of rows. A NonTensorData wrapper around a value is transparent.
\<close>

subsection \<open>Normalisation of metadata\<close>

definition int_value :: "int meta \<Rightarrow> int res" where
  "int_value v = (case v of MNum i \<Rightarrow> Inr i | MArray [MNum i] \<Rightarrow> Inr i | _ \<Rightarrow> Inl TypeError)"

definition is_seq :: "'a meta \<Rightarrow> bool" where
  "is_seq v = (case v of MList _ \<Rightarrow> True | MTuple _ \<Rightarrow> True | _ \<Rightarrow> False)"

definition seq_items :: "'a meta \<Rightarrow> 'a meta list" where
  "seq_items v = (case v of MList xs \<Rightarrow> xs | MTuple xs \<Rightarrow> xs | _ \<Rightarrow> [])"

definition normalize_dflash_reject_indices :: "int meta \<Rightarrow> nat \<Rightarrow> int list list res" where
  "normalize_dflash_reject_indices raw batch_size =
     (if raw = MNone then Inr []
      else let r = to_python raw;
               wrap = (batch_size = 1 \<and> (\<not> is_seq r \<or> (seq_items r \<noteq> [] \<and> list_all (\<lambda>x. \<not> is_seq x) (seq_items r))));
               outer = (if wrap then MList [r] else r)
        in if \<not> is_seq outer then Inl TypeError
           else rmap (\<lambda>item. case item of
                MNone \<Rightarrow> Inr []
              | MNum i \<Rightarrow> Inr [i]
              | MList xs \<Rightarrow> rmap int_value xs
              | MTuple xs \<Rightarrow> rmap int_value xs
              | MArray xs \<Rightarrow> rmap int_value xs) (seq_items outer))"

definition normalize_dflash_rejected_draft_values :: "'a meta \<Rightarrow> nat \<Rightarrow> 'a list list res" where
  "normalize_dflash_rejected_draft_values raw batch_size =
     (if raw = MNone then Inr (replicate batch_size [])
      else let v = to_python raw in
        if batch_size = 1 then Inr [flatten_item v]
        else if is_seq v then Inr (map flatten_item (seq_items v)) else Inl TypeError)"

subsection \<open>The first rejected token of every block\<close>

text \<open>A metadata item: its index in the sample, anchor, offset, token and, where given, the log-probability
  of the teacher. The dictionary keeps the order in which anchors were first entered.\<close>

record draft_item =
  it_index :: nat
  it_anchor :: int
  it_offset :: int
  it_token :: int
  it_teacher :: "real option"

definition select_by_anchor :: "draft_item \<Rightarrow> (int \<times> draft_item) list \<Rightarrow> (int \<times> draft_item) list" where
  "select_by_anchor it selected =
     (if it_token it < 0 \<or> it_offset it \<le> 0 then selected
      else case map_of selected (it_anchor it) of
          None \<Rightarrow> AList.update (it_anchor it) it selected
        | Some cur \<Rightarrow> if it_offset it < it_offset cur then AList.update (it_anchor it) it selected else selected)"

definition first_token_items :: "draft_item list \<Rightarrow> draft_item list" where
  "first_token_items items = sort_key it_index (map snd (fold select_by_anchor items []))"

definition row_or_empty :: "'a list list \<Rightarrow> nat \<Rightarrow> 'a list" where
  "row_or_empty tbl i = (if i < length tbl then tbl ! i else [])"

definition sample_items :: "int list \<Rightarrow> int list \<Rightarrow> int list \<Rightarrow> real list option \<Rightarrow> draft_item list" where
  "sample_items anchors offsets token_ids teacher =
     map (\<lambda>i. \<lparr>it_index = i, it_anchor = anchors ! i, it_offset = offsets ! i, it_token = token_ids ! i,
                 it_teacher = map_option (\<lambda>t. t ! i) teacher\<rparr>) [0..<length token_ids]"

definition filter_sample ::
  "int list \<Rightarrow> int list \<Rightarrow> int list \<Rightarrow> real list option \<Rightarrow> draft_item list res" where
  "filter_sample anchors offsets token_ids teacher =
     rbind (require (length anchors = length token_ids \<and> length offsets = length token_ids
              \<and> (case teacher of None \<Rightarrow> True | Some t \<Rightarrow> length t = length token_ids)) ValueError)
       (\<lambda>_. Inr (first_token_items (sample_items anchors offsets token_ids teacher)))"

text \<open>The result in the order of the return statement of the code: anchors, offsets, tokens, teacher.\<close>

type_synonym draft_lists = "int list list \<times> int list list \<times> int list list \<times> real list list option"

definition filter_dflash_rejected_draft_first_tokens ::
  "int list list \<Rightarrow> int list list \<Rightarrow> int list list \<Rightarrow> real list list option \<Rightarrow> draft_lists res" where
  "filter_dflash_rejected_draft_first_tokens anchors offsets token_ids teacher_logprobs =
     rbind (rmap (\<lambda>i. filter_sample (row_or_empty anchors i) (row_or_empty offsets i) (token_ids ! i)
              (map_option (\<lambda>t. row_or_empty t i) teacher_logprobs)) [0..<length token_ids]) (\<lambda>kept.
       Inr (map (map it_anchor) kept, map (map it_offset) kept, map (map it_token) kept,
            (case teacher_logprobs of None \<Rightarrow> None | Some _ \<Rightarrow> Some (map (map (\<lambda>it. the (it_teacher it))) kept))))"

subsection \<open>Counts for the global batch\<close>

text \<open>As written, the filtered lists are unpacked in the order token ids, offsets, anchors although they are
  returned in the order anchors, offsets, token ids: \<^verbatim>\<open>token_ids, _, _, _ = ...\<close> binds the anchors.\<close>

definition count_dflash_rejected_draft_tokens ::
  "int meta \<Rightarrow> nat \<Rightarrow> nat option \<Rightarrow> int meta \<Rightarrow> int meta \<Rightarrow> bool \<Rightarrow> nat res" where
  "count_dflash_rejected_draft_tokens raw_token_ids batch_size cap raw_anchors raw_offsets first_token_only =
     rbind (normalize_dflash_rejected_draft_values raw_token_ids batch_size) (\<lambda>token_ids0.
     rbind (require (length token_ids0 = batch_size) ValueError) (\<lambda>_.
     rbind (if first_token_only
            then rbind (normalize_dflash_rejected_draft_values raw_anchors batch_size) (\<lambda>anchors.
                 rbind (normalize_dflash_rejected_draft_values raw_offsets batch_size) (\<lambda>offsets.
                 rbind (filter_dflash_rejected_draft_first_tokens anchors offsets token_ids0 None)
                   (\<lambda>(first, _). Inr first)))
            else Inr token_ids0) (\<lambda>token_ids.
     Inr (sum_list (map (\<lambda>row. let valid = length (filter (\<lambda>t. 0 \<le> t) row)
            in case cap of None \<Rightarrow> valid | Some m \<Rightarrow> min valid m) token_ids)))))"

fun position_weights :: "real \<Rightarrow> nat option \<Rightarrow> (int \<times> int) list \<Rightarrow> nat \<Rightarrow> real" where
  "position_weights decay cap [] selected = 0"
| "position_weights decay cap ((token_id, offset) # items) selected =
     (if token_id < 0 \<or> offset \<le> 0 then position_weights decay cap items selected
      else if (case cap of None \<Rightarrow> False | Some m \<Rightarrow> m \<le> selected) then 0
      else decay ^ nat (max (offset - 1) 0) + position_weights decay cap items (selected + 1))"

definition sum_dflash_rejected_draft_position_weights ::
  "int meta \<Rightarrow> int meta \<Rightarrow> nat \<Rightarrow> nat option \<Rightarrow> real \<Rightarrow> int meta \<Rightarrow> bool \<Rightarrow> real res" where
  "sum_dflash_rejected_draft_position_weights raw_token_ids raw_offsets batch_size cap decay raw_anchors first_token_only =
     rbind (require (0 < decay \<and> decay \<le> 1) ValueError) (\<lambda>_.
     rbind (normalize_dflash_rejected_draft_values raw_token_ids batch_size) (\<lambda>token_ids0.
     rbind (normalize_dflash_rejected_draft_values raw_offsets batch_size) (\<lambda>offsets0.
     rbind (require (length token_ids0 = batch_size \<and> length offsets0 = batch_size) ValueError) (\<lambda>_.
     rbind (if first_token_only
            then rbind (normalize_dflash_rejected_draft_values raw_anchors batch_size) (\<lambda>anchors.
                 rbind (filter_dflash_rejected_draft_first_tokens anchors offsets0 token_ids0 None)
                   (\<lambda>(first, second, _). Inr (first, second)))
            else Inr (token_ids0, offsets0)) (\<lambda>(token_ids, offsets).
     rbind (rmap (\<lambda>(ts, fs). if length ts \<noteq> length fs then Inl ValueError
              else Inr (position_weights decay cap (zip ts fs) 0)) (zip token_ids offsets)) (\<lambda>ws.
     Inr (sum_list ws)))))))"

text \<open>The tensors a batch may hold: jagged rows or a rectangle.\<close>

datatype seq_tensor = Jagged "int list list" | Dense "int list list"

definition tv_response_lengths :: "nat \<Rightarrow> seq_tensor option \<Rightarrow> seq_tensor option \<Rightarrow> int list res" where
  "tv_response_lengths batch_size response_mask responses =
     (case response_mask of
        Some (Jagged rs) \<Rightarrow> Inr (map (int \<circ> length) rs)
      | Some (Dense rs) \<Rightarrow> Inr (map sum_list rs)
      | None \<Rightarrow> (case responses of
            Some (Jagged rs) \<Rightarrow> Inr (map (int \<circ> length) rs)
          | Some (Dense rs) \<Rightarrow> Inr (replicate batch_size (case rs of [] \<Rightarrow> 0 | r # _ \<Rightarrow> int (length r)))
          | None \<Rightarrow> Inl ValueError))"

definition tv_block_anchors :: "int \<Rightarrow> int list \<Rightarrow> (int \<times> int \<times> int) list \<Rightarrow> int list" where
  "tv_block_anchors response_len raw items =
     (let rejects = valid_rejects response_len raw;
          boundaries = (if rejects \<noteq> [] \<and> last rejects < response_len - 1 then rejects @ [response_len - 1] else rejects);
          response = map fst (filter (\<lambda>(anchor, boundary). anchor < boundary) (zip (-1 # boundaries) boundaries));
          rejected = map fst (filter (\<lambda>(anchor, offset, token_id). 0 \<le> token_id \<and> 0 < offset \<and> -1 \<le> anchor \<and> anchor < response_len) items)
      in remdups (response @ rejected))"

definition nth_row :: "'a list \<Rightarrow> nat \<Rightarrow> 'a res" where
  "nth_row xs i = (if i < length xs then Inr (xs ! i) else Inl IndexError)"

definition tv_sample_count ::
  "int list \<Rightarrow> int list list \<Rightarrow> int list list \<Rightarrow> int list list \<Rightarrow> int list list \<Rightarrow> nat \<Rightarrow> nat res" where
  "tv_sample_count response_lengths rejects anchors offsets token_ids i =
     rbind (nth_row response_lengths i) (\<lambda>n. rbind (nth_row rejects i) (\<lambda>raw.
     rbind (nth_row anchors i) (\<lambda>as. rbind (nth_row offsets i) (\<lambda>fs. rbind (nth_row token_ids i) (\<lambda>ts.
     rbind (require (length as = length fs \<and> length fs = length ts) ValueError) (\<lambda>_.
       Inr (length (tv_block_anchors n raw (zip as (zip fs ts))))))))))"

definition count_dflash_tv_blocks ::
  "nat \<Rightarrow> seq_tensor option \<Rightarrow> seq_tensor option \<Rightarrow> int meta \<Rightarrow> int meta \<Rightarrow> int meta \<Rightarrow> int meta \<Rightarrow> nat res" where
  "count_dflash_tv_blocks batch_size response_mask responses raw_rejects raw_anchors raw_offsets raw_token_ids =
     rbind (tv_response_lengths batch_size response_mask responses) (\<lambda>response_lengths.
     rbind (normalize_dflash_reject_indices raw_rejects batch_size) (\<lambda>rejects0.
     let rejects = (if rejects0 = [] then replicate batch_size [] else rejects0) in
     rbind (normalize_dflash_rejected_draft_values raw_anchors batch_size) (\<lambda>anchors.
     rbind (normalize_dflash_rejected_draft_values raw_offsets batch_size) (\<lambda>offsets.
     rbind (normalize_dflash_rejected_draft_values raw_token_ids batch_size) (\<lambda>token_ids.
     rbind (rmap (tv_sample_count response_lengths rejects anchors offsets token_ids) [0..<batch_size])
       (\<lambda>counts. Inr (sum_list counts)))))))"

subsection \<open>Tensors of rejected drafts and replayed blocks\<close>

definition width_of :: "'a list list \<Rightarrow> nat" where
  "width_of tbl = max (fold max (map length tbl) 0) 1"

definition pad_rows :: "nat \<Rightarrow> 'a \<Rightarrow> 'a list list \<Rightarrow> 'a list list" where
  "pad_rows w d tbl = map (pad_to w d) tbl"

definition same_lengths :: "'a list list \<Rightarrow> 'b list list \<Rightarrow> bool" where
  "same_lengths xs ys \<longleftrightarrow> map length xs = map length ys"

definition rejected_tensors :: "int list list \<Rightarrow> int list list \<Rightarrow> int list list \<Rightarrow> real list list \<Rightarrow> rejected_meta" where
  "rejected_tensors anchors offsets token_ids teacher =
     (let w = width_of anchors in
      \<lparr>rd_anchors = Some (pad_rows w (-2) anchors), rd_offsets = Some (pad_rows w (-1) offsets),
       rd_tokens = Some (pad_rows w (-1) token_ids), rd_teacher = Some (pad_rows w 0 teacher),
       rd_mask = Some (pad_rows w False (map (map (\<lambda>_. True)) anchors))\<rparr>)"

definition build_dflash_rejected_draft_tensors ::
  "int meta \<Rightarrow> int meta \<Rightarrow> int meta \<Rightarrow> real meta \<Rightarrow> nat \<Rightarrow> bool \<Rightarrow> bool \<Rightarrow> rejected_meta res" where
  "build_dflash_rejected_draft_tensors raw_anchors raw_offsets raw_token_ids raw_teacher batch_size first_token_only use_tv_loss =
     rbind (normalize_dflash_rejected_draft_values raw_anchors batch_size) (\<lambda>anchors0.
     rbind (normalize_dflash_rejected_draft_values raw_offsets batch_size) (\<lambda>offsets0.
     rbind (normalize_dflash_rejected_draft_values raw_token_ids batch_size) (\<lambda>token_ids0.
     rbind (normalize_dflash_rejected_draft_values raw_teacher batch_size) (\<lambda>teacher0.
     rbind (if first_token_only \<and> \<not> use_tv_loss
            then rbind (filter_dflash_rejected_draft_first_tokens anchors0 offsets0 token_ids0 (Some teacher0))
                   (\<lambda>(a, f, t, lp). Inr (a, f, t, the lp))
            else Inr (anchors0, offsets0, token_ids0, teacher0)) (\<lambda>(anchors, offsets, token_ids, teacher).
     rbind (require (length anchors = batch_size \<and> length offsets = batch_size \<and> length token_ids = batch_size
              \<and> length teacher = batch_size) ValueError) (\<lambda>_.
     rbind (require (same_lengths anchors offsets \<and> same_lengths anchors token_ids \<and> same_lengths anchors teacher) ValueError)
       (\<lambda>_. Inr (rejected_tensors anchors offsets token_ids teacher))))))))"

definition build_dflash_replay_block_tensors ::
  "int meta \<Rightarrow> int meta \<Rightarrow> int meta \<Rightarrow> nat \<Rightarrow> replay_meta res" where
  "build_dflash_replay_block_tensors raw_anchors raw_accepted raw_drafted batch_size =
     rbind (normalize_dflash_rejected_draft_values raw_anchors batch_size) (\<lambda>anchors.
     rbind (normalize_dflash_rejected_draft_values raw_accepted batch_size) (\<lambda>accs.
     rbind (normalize_dflash_rejected_draft_values raw_drafted batch_size) (\<lambda>drafts.
     rbind (rmap (\<lambda>i. rbind (nth_row anchors i) (\<lambda>a. rbind (nth_row accs i) (\<lambda>c. rbind (nth_row drafts i) (\<lambda>d.
              require (length a = length c \<and> length c = length d) ValueError)))) [0..<batch_size]) (\<lambda>_.
     let w = width_of anchors in
     Inr \<lparr>ry_anchors = pad_rows w (-2) (take batch_size anchors), ry_accepted = pad_rows w 0 (take batch_size accs),
          ry_drafted = pad_rows w 0 (take batch_size drafts),
          ry_mask = pad_rows w False (map (map (\<lambda>_. True)) (take batch_size anchors))\<rparr>))))"

subsection \<open>Padding and compaction of sequences\<close>

definition nested_to_padded_tensor_no_kernel :: "seq_tensor \<Rightarrow> int \<Rightarrow> nat \<Rightarrow> nat \<Rightarrow> int list list res" where
  "nested_to_padded_tensor_no_kernel t padding b w =
     (case t of
        Dense tbl \<Rightarrow> Inr (map (\<lambda>i. map (\<lambda>j. if i < length tbl \<and> j < length (tbl ! i) then tbl ! i ! j else padding) [0..<w]) [0..<b])
      | Jagged parts \<Rightarrow>
          if parts = [] then Inl ValueError
          else if b < length parts then Inl IndexError
          else if \<exists>p\<in>set parts. w < length p then Inl RuntimeError
          else Inr (pad_rows w padding parts @ replicate (b - length parts) (replicate w padding)))"

definition tensor_width :: "int list list \<Rightarrow> nat" where
  "tensor_width tbl = (case tbl of [] \<Rightarrow> 0 | r # _ \<Rightarrow> length r)"

definition count_true :: "bool list \<Rightarrow> int" where
  "count_true ms = int (length (filter id ms))"

text \<open>Attention masks are 0/1, here booleans.\<close>

definition compute_composed_dflash_lengths :: "bool list list \<Rightarrow> seq_tensor \<Rightarrow> seq_tensor \<Rightarrow> (int list \<times> int list) res" where
  "compute_composed_dflash_lengths attention_mask prompts responses =
     (let prompt_lengths = (case prompts of Jagged rs \<Rightarrow> map (int \<circ> length) rs
            | Dense rs \<Rightarrow> map (\<lambda>m. count_true (take (tensor_width rs) m)) attention_mask) in
      case responses of
        Jagged rs \<Rightarrow> Inr (prompt_lengths, map (int \<circ> length) rs)
      | Dense rs \<Rightarrow>
          rbind (case prompts of Dense ps \<Rightarrow> Inr (tensor_width ps)
                 | Jagged _ \<Rightarrow> if prompt_lengths = [] then Inl RuntimeError else Inr (nat (fold max prompt_lengths 0))) (\<lambda>pw.
            Inr (prompt_lengths, map (\<lambda>m. count_true (slice pw (pw + tensor_width rs) m)) attention_mask)))"

definition compact_padded_composed_dflash_inputs ::
  "int list list \<Rightarrow> bool list list \<Rightarrow> int list list \<Rightarrow> int \<Rightarrow> (int list list \<times> int list list \<times> int list list) res" where
  "compact_padded_composed_dflash_inputs input_ids attention_mask position_ids pad_token_id =
     (if attention_mask = [] then Inl RuntimeError
      else let lens = map (\<lambda>m. length (filter id m)) attention_mask; w = fold max lens 0 in
        Inr (map2 (\<lambda>m ids. pad_to w pad_token_id (select m ids)) attention_mask input_ids,
             map (\<lambda>n. map (\<lambda>j. if j < n then 1 else 0) [0..<w]) lens,
             map2 (\<lambda>m pos. pad_to w 0 (select m pos)) attention_mask position_ids))"

record opd_batch =
  mb_batch_size :: nat
  mb_input_ids :: seq_tensor
  mb_position_ids :: seq_tensor
  mb_attention_mask :: "bool list list"
  mb_prompts :: seq_tensor
  mb_responses :: seq_tensor
  mb_pad_token_id :: int
  mb_reject_indices :: "int meta"
  mb_rejected_anchors :: "int meta"
  mb_rejected_offsets :: "int meta"
  mb_rejected_token_ids :: "int meta"
  mb_rejected_teacher :: "real meta"
  mb_replay_anchors :: "int meta"
  mb_replay_accepted :: "int meta"
  mb_replay_drafted :: "int meta"
  mb_first_token_only :: bool
  mb_use_tv_loss :: bool
  mb_use_replay_dis :: bool

record opd_inputs =
  oi_input_ids :: "int list list"
  oi_attention_mask :: "int list list"
  oi_position_ids :: "int list list"
  oi_prompt_lengths :: "int list"
  oi_response_lengths :: "int list"
  oi_reject_indices :: "int list list"
  oi_rejected :: rejected_meta
  oi_replay :: "replay_meta option"

text \<open>The sequences of a micro-batch as the student reads them: jagged rows are padded on the right,
  padded rows with gaps are compacted, full rows pass unchanged.\<close>

definition composed_sequences ::
  "opd_batch \<Rightarrow> (nat \<times> int list list \<times> int list list \<times> int list list) res" where
  "composed_sequences mb =
     (case mb_input_ids mb of
        Jagged ids \<Rightarrow>
          (let b = mb_batch_size mb; w = fold max (map length ids) 0 in
           rbind (require (ids \<noteq> []) RuntimeError) (\<lambda>_.
           rbind (nested_to_padded_tensor_no_kernel (Jagged ids) (mb_pad_token_id mb) b w) (\<lambda>padded.
           rbind (nested_to_padded_tensor_no_kernel (mb_position_ids mb) 0 b w) (\<lambda>positions.
             Inr (b, padded, map (\<lambda>r. map (\<lambda>j. if j < length r then 1 else 0) [0..<w]) ids, positions)))))
      | Dense ids \<Rightarrow>
          (let am = mb_attention_mask mb; pos = (case mb_position_ids mb of Jagged ps \<Rightarrow> ps | Dense ps \<Rightarrow> ps) in
           if \<forall>r\<in>set am. \<forall>x\<in>set r. x then Inr (length ids, ids, map (map of_bool) am, pos)
           else rbind (compact_padded_composed_dflash_inputs ids am pos (mb_pad_token_id mb))
                  (\<lambda>(c, m, q). Inr (length ids, c, m, q))))"

definition prepare_composed_dflash_inputs :: "opd_batch \<Rightarrow> opd_inputs res" where
  "prepare_composed_dflash_inputs mb =
     rbind (compute_composed_dflash_lengths (mb_attention_mask mb) (mb_prompts mb) (mb_responses mb)) (\<lambda>(ps, rs).
     rbind (composed_sequences mb) (\<lambda>(b, ids, am, pos).
     rbind (normalize_dflash_reject_indices (mb_reject_indices mb) b) (\<lambda>rejects.
     rbind (require (length rejects = b) ValueError) (\<lambda>_.
     rbind (build_dflash_rejected_draft_tensors (mb_rejected_anchors mb) (mb_rejected_offsets mb) (mb_rejected_token_ids mb)
              (mb_rejected_teacher mb) b (mb_first_token_only mb) (mb_use_tv_loss mb)) (\<lambda>rej.
     rbind (if mb_use_replay_dis mb
            then rbind (build_dflash_replay_block_tensors (mb_replay_anchors mb) (mb_replay_accepted mb) (mb_replay_drafted mb) b)
                   (\<lambda>r. Inr (Some r))
            else Inr None) (\<lambda>replay.
       Inr \<lparr>oi_input_ids = ids, oi_attention_mask = am, oi_position_ids = pos, oi_prompt_lengths = ps,
            oi_response_lengths = rs, oi_reject_indices = pad_rows (width_of rejects) (-1) rejects,
            oi_rejected = rej, oi_replay = replay\<rparr>))))))"

subsection \<open>The filter keeps the smallest offset of every anchor\<close>

definition item_valid :: "draft_item \<Rightarrow> bool" where
  "item_valid it \<longleftrightarrow> 0 \<le> it_token it \<and> 0 < it_offset it"

text \<open>\<open>it\<close> comes before every other valid item of its anchor: it has the smallest offset, and the
  smallest index among the items with that offset.\<close>

definition first_of_anchor :: "draft_item list \<Rightarrow> draft_item \<Rightarrow> bool" where
  "first_of_anchor items it \<longleftrightarrow> it \<in> set items \<and> item_valid it
     \<and> (\<forall>x\<in>set items. item_valid x \<and> it_anchor x = it_anchor it
          \<longrightarrow> it_offset it < it_offset x \<or> (it_offset it = it_offset x \<and> it_index it \<le> it_index x))"

definition selection_inv :: "draft_item list \<Rightarrow> (int \<times> draft_item) list \<Rightarrow> bool" where
  "selection_inv items sel \<longleftrightarrow> distinct (map fst sel)
     \<and> (\<forall>(a, it)\<in>set sel. first_of_anchor items it \<and> it_anchor it = a)
     \<and> (\<forall>x\<in>set items. item_valid x \<longrightarrow> it_anchor x \<in> fst ` set sel)"

lemma first_of_anchor_unique:
  assumes "first_of_anchor items x" "first_of_anchor items y" "it_anchor x = it_anchor y" "distinct (map it_index items)"
  shows "x = y"
proof -
  have "it_index x = it_index y" using assms(1-3) by (force simp: first_of_anchor_def)
  then show ?thesis using assms(1,2,4) by (auto simp: first_of_anchor_def distinct_map dest: inj_onD)
qed

lemma first_of_anchor_snoc:
  assumes "first_of_anchor items x" "\<not> item_valid it \<or> it_anchor it \<noteq> it_anchor x
      \<or> it_offset x < it_offset it \<or> (it_offset x = it_offset it \<and> it_index x \<le> it_index it)"
  shows "first_of_anchor (items @ [it]) x"
  using assms by (auto simp: first_of_anchor_def)

lemma set_alist_update: "distinct (map fst sel) \<Longrightarrow> y \<in> set (AList.update k v sel) \<Longrightarrow> y = (k, v) \<or> (y \<in> set sel \<and> fst y \<noteq> k)"
  by (induction sel) (auto split: if_splits)

lemma selection_step:
  assumes inv: "selection_inv items sel" and new: "\<forall>x\<in>set items. it_index x < it_index it"
  shows "selection_inv (items @ [it]) (select_by_anchor it sel)"
proof -
  have d: "distinct (map fst sel)" and m: "\<And>a x. (a, x) \<in> set sel \<Longrightarrow> first_of_anchor items x \<and> it_anchor x = a"
    and k: "\<And>x. x \<in> set items \<Longrightarrow> item_valid x \<Longrightarrow> it_anchor x \<in> fst ` set sel"
    using inv by (auto simp: selection_inv_def)
  have keep: ?thesis if "select_by_anchor it sel = sel" "\<And>a x. (a, x) \<in> set sel \<Longrightarrow> first_of_anchor (items @ [it]) x"
    "item_valid it \<Longrightarrow> it_anchor it \<in> fst ` set sel"
    unfolding selection_inv_def that(1) using that(2,3) d m k by auto
  have upd: ?thesis if "select_by_anchor it sel = AList.update (it_anchor it) it sel" "first_of_anchor (items @ [it]) it"
    unfolding selection_inv_def that(1)
  proof (intro conjI ballI)
    show "distinct (map fst (AList.update (it_anchor it) it sel))" using d by (rule distinct_update)
    fix y assume y: "y \<in> set (AList.update (it_anchor it) it sel)"
    obtain a x where ax: "y = (a, x)" by (cases y)
    have "(a = it_anchor it \<and> x = it) \<or> ((a, x) \<in> set sel \<and> a \<noteq> it_anchor it)" using set_alist_update [OF d y] ax by auto
    then have "first_of_anchor (items @ [it]) x \<and> it_anchor x = a"
      using that(2) m [of a x] first_of_anchor_snoc [of items x it] by auto
    then show "case y of (a, x) \<Rightarrow> first_of_anchor (items @ [it]) x \<and> it_anchor x = a" by (simp add: ax)
  next
    fix x assume "x \<in> set (items @ [it])"
    then show "item_valid x \<longrightarrow> it_anchor x \<in> fst ` set (AList.update (it_anchor it) it sel)"
      using k by (auto simp: dom_update)
  qed
  show ?thesis
  proof (cases "item_valid it")
    case False
    then show ?thesis using keep m first_of_anchor_snoc by (auto simp: select_by_anchor_def item_valid_def)
  next
    case valid: True
    note sel = select_by_anchor_def [of it sel]
    have nv: "\<not> (it_token it < 0 \<or> it_offset it \<le> 0)" using valid by (simp add: item_valid_def)
    show ?thesis
    proof (cases "map_of sel (it_anchor it)")
      case None
      then have "it_anchor it \<notin> fst ` set sel" by (simp add: map_of_eq_None_iff)
      then have "\<forall>x\<in>set items. item_valid x \<longrightarrow> it_anchor x \<noteq> it_anchor it" using k by metis
      then have "first_of_anchor (items @ [it]) it" using valid by (auto simp: first_of_anchor_def)
      then show ?thesis using upd None nv by (simp add: sel)
    next
      case (Some cur)
      then have cur: "first_of_anchor items cur" "it_anchor cur = it_anchor it" "it_anchor it \<in> fst ` set sel"
        using m [OF map_of_SomeD [OF Some]] map_of_SomeD [OF Some] by (simp, simp, force)
      show ?thesis
      proof (cases "it_offset it < it_offset cur")
        case True
        then have "first_of_anchor (items @ [it]) it" using valid cur by (fastforce simp: first_of_anchor_def)
        then show ?thesis using upd Some nv True by (simp add: sel)
      next
        case False
        have "it_index cur < it_index it" using cur(1) new by (auto simp: first_of_anchor_def)
        have first: "first_of_anchor (items @ [it]) x" if ax: "(a, x) \<in> set sel" for a x
        proof (cases "a = it_anchor it")
          case True
          have "x = cur" using True ax Some d by (metis map_of_is_SomeI option.inject)
          moreover have "it_offset cur < it_offset it \<or> (it_offset cur = it_offset it \<and> it_index cur \<le> it_index it)"
            using False \<open>it_index cur < it_index it\<close> by linarith
          ultimately show ?thesis using first_of_anchor_snoc [OF cur(1)] by blast
        next
          case False
          then show ?thesis using first_of_anchor_snoc m [OF ax] by auto
        qed
        have "select_by_anchor it sel = sel" using Some nv False by (simp add: sel)
        from keep [OF this first cur(3)] show ?thesis .
      qed
    qed
  qed
qed

lemma selection_fold:
  "sorted_wrt (<) (map it_index items) \<Longrightarrow> selection_inv items (fold select_by_anchor items [])"
proof (induction items rule: rev_induct)
  case (snoc it items)
  then show ?case using selection_step [of items "fold select_by_anchor items []" it]
    by (auto simp: sorted_wrt_append)
qed (simp add: selection_inv_def)

lemma first_token_items_set:
  assumes "sorted_wrt (<) (map it_index items)"
  shows "set (first_token_items items) = {it. first_of_anchor items it}" "distinct (map it_anchor (first_token_items items))"
    "sorted_wrt (<) (map it_index (first_token_items items))"
proof -
  let ?sel = "fold select_by_anchor items []"
  have di: "distinct (map it_index items)" using assms by (simp add: strict_sorted_iff)
  note inv = selection_fold [OF assms, unfolded selection_inv_def]
  show set: "set (first_token_items items) = {it. first_of_anchor items it}"
  proof (intro equalityI subsetI)
    fix it assume "it \<in> set (first_token_items items)"
    then show "it \<in> {it. first_of_anchor items it}" using inv by (auto simp: first_token_items_def)
  next
    fix it assume "it \<in> {it. first_of_anchor items it}"
    then have it: "first_of_anchor items it" by simp
    then obtain x where x: "(it_anchor it, x) \<in> set ?sel" using inv by (auto simp: first_of_anchor_def)
    then have "x = it" using inv first_of_anchor_unique [OF _ it _ di, of x] by auto
    then show "it \<in> set (first_token_items items)" using x by (force simp: first_token_items_def)
  qed
  have "map it_anchor (map snd ?sel) = map fst ?sel" using inv by auto
  then have da: "distinct (map it_anchor (map snd ?sel))" using inv by metis
  then have "distinct (map snd ?sel)" using distinct_map by blast
  then have dd: "distinct (first_token_items items)" by (simp add: first_token_items_def)
  have sub: "set (first_token_items items) \<subseteq> set items" using set by (auto simp: first_of_anchor_def)
  show "distinct (map it_anchor (first_token_items items))"
    unfolding distinct_map using dd set first_of_anchor_unique [OF _ _ _ di] by (auto intro!: inj_onI)
  have "inj_on it_index (set (first_token_items items))" using di sub by (auto simp: distinct_map intro: inj_on_subset)
  then have "distinct (map it_index (first_token_items items))" using dd by (simp add: distinct_map)
  moreover have "sorted (map it_index (first_token_items items))" by (simp add: first_token_items_def)
  ultimately show "sorted_wrt (<) (map it_index (first_token_items items))" by (simp add: strict_sorted_iff)
qed

text \<open>Filtering for first tokens keeps of every block exactly one rejected draft: the valid item with
  the smallest offset of its anchor, in the order of the metadata, together with its token and teacher
  log-probability.\<close>

theorem first_token_filter_spec:
  assumes "filter_sample anchors offsets token_ids teacher = Inr kept"
  shows "set kept = {it. first_of_anchor (sample_items anchors offsets token_ids teacher) it}
    \<and> distinct (map it_anchor kept) \<and> sorted_wrt (<) (map it_index kept)"
proof -
  have "map it_index (sample_items anchors offsets token_ids teacher) = [0..<length token_ids]"
    by (simp add: sample_items_def comp_def)
  then have s: "sorted_wrt (<) (map it_index (sample_items anchors offsets token_ids teacher))" by simp
  have "kept = first_token_items (sample_items anchors offsets token_ids teacher)"
    using assms by (auto simp: filter_sample_def rbind_eq_Inr)
  then show ?thesis using first_token_items_set [OF s] by simp
qed

theorem first_token_filter_spec_witness:
  "\<exists>kept. filter_sample [0, 0, 4] [3, 2, 1] [7, 8, 9] None = Inr kept \<and> map it_index kept = [1, 2]
    \<and> distinct (map it_anchor kept)"
proof -
  have r: "filter_sample [0, 0, 4] [3, 2, 1] [7, 8, 9] None = Inr
     [\<lparr>it_index = 1, it_anchor = 0, it_offset = 2, it_token = 8, it_teacher = None\<rparr>,
      \<lparr>it_index = 2, it_anchor = 4, it_offset = 1, it_token = 9, it_teacher = None\<rparr>]" by code_simp
  from first_token_filter_spec [OF r] show ?thesis using r by simp
qed

subsection \<open>The filtered lists are unpacked in the wrong order\<close>

text \<open>The anchors of the blocks with a valid rejected draft, of which the filter keeps one item each.\<close>

definition rejected_block_anchors :: "int list \<Rightarrow> int list \<Rightarrow> int list \<Rightarrow> int set" where
  "rejected_block_anchors anchors offsets token_ids = fst ` set (filter (\<lambda>(a, off, t). 0 \<le> t \<and> 0 < off) (zip anchors (zip offsets token_ids)))"

definition capped_anchors :: "nat option \<Rightarrow> nat \<Rightarrow> nat" where
  "capped_anchors cap n = (case cap of None \<Rightarrow> n | Some m \<Rightarrow> min n m)"

lemma first_of_anchor_exists:
  assumes "x \<in> set items" "item_valid x"
  shows "\<exists>it. first_of_anchor items it \<and> it_anchor it = it_anchor x"
proof -
  let ?S = "{y \<in> set items. item_valid y \<and> it_anchor y = it_anchor x}"
  define mn where "mn = Min (it_offset ` ?S)"
  have "mn \<in> it_offset ` ?S" unfolding mn_def using assms by (intro Min_in) auto
  then obtain y where y: "y \<in> ?S" "it_offset y = mn" by auto
  let ?T = "{y \<in> ?S. it_offset y = mn}"
  have "Min (it_index ` ?T) \<in> it_index ` ?T" using y by (intro Min_in) auto
  then obtain z where z: "z \<in> ?T" "it_index z = Min (it_index ` ?T)" by auto
  have "mn \<le> it_offset w" if "w \<in> ?S" for w unfolding mn_def using that by (intro Min_le) auto
  moreover have "it_index z \<le> it_index w" if "w \<in> ?T" for w unfolding z(2) using that by (intro Min_le) auto
  ultimately have "first_of_anchor items z" using z(1) by (force simp: first_of_anchor_def)
  then show ?thesis using z(1) by auto
qed

lemma filter_sample_anchors:
  assumes "length anchors = length token_ids" "length offsets = length token_ids"
  shows "\<exists>kept. filter_sample anchors offsets token_ids None = Inr kept \<and> distinct (map it_anchor kept)
    \<and> it_anchor ` set kept = rejected_block_anchors anchors offsets token_ids \<and> list_all (\<lambda>it. 0 \<le> it_token it) kept"
proof -
  let ?items = "sample_items anchors offsets token_ids None"
  have "map it_index ?items = [0..<length token_ids]" by (simp add: sample_items_def comp_def)
  then have s: "sorted_wrt (<) (map it_index ?items)" by simp
  have f: "filter_sample anchors offsets token_ids None = Inr (first_token_items ?items)" using assms by (simp add: filter_sample_def)
  have z: "zip anchors (zip offsets token_ids) = map (\<lambda>it. (it_anchor it, it_offset it, it_token it)) ?items"
    using assms by (intro nth_equalityI) (auto simp: sample_items_def)
  have "it_anchor ` {it. first_of_anchor ?items it} = it_anchor ` {it \<in> set ?items. item_valid it}"
  proof (intro equalityI subsetI)
    fix a assume "a \<in> it_anchor ` {it. first_of_anchor ?items it}"
    then show "a \<in> it_anchor ` {it \<in> set ?items. item_valid it}" by (auto simp: first_of_anchor_def)
  next
    fix a assume "a \<in> it_anchor ` {it \<in> set ?items. item_valid it}"
    then obtain x where x: "x \<in> set ?items" "item_valid x" "a = it_anchor x" by auto
    obtain it where "first_of_anchor ?items it" "it_anchor it = it_anchor x" using first_of_anchor_exists [OF x(1,2)] by blast
    then show "a \<in> it_anchor ` {it. first_of_anchor ?items it}" unfolding x(3) by (auto intro: image_eqI [of _ _ it])
  qed
  also have "\<dots> = rejected_block_anchors anchors offsets token_ids"
    unfolding rejected_block_anchors_def z by (force simp: item_valid_def image_iff)
  finally show ?thesis using first_token_items_set [OF s] f by (auto simp: list_all_iff first_of_anchor_def item_valid_def)
qed

lemma filtered_rows:
  assumes "map length anchors = map length token_ids" "map length offsets = map length token_ids"
  shows "\<exists>kept :: draft_item list list. filter_dflash_rejected_draft_first_tokens anchors offsets token_ids None
      = Inr (map (map it_anchor) kept, map (map it_offset) kept, map (map it_token) kept, None) \<and> length kept = length token_ids
    \<and> (\<forall>i<length token_ids. distinct (map it_anchor (kept ! i))
        \<and> it_anchor ` set (kept ! i) = rejected_block_anchors (anchors ! i) (offsets ! i) (token_ids ! i) \<and> list_all (\<lambda>it. 0 \<le> it_token it) (kept ! i))"
proof -
  have n: "length anchors = length token_ids" "length offsets = length token_ids" using assms by (metis length_map)+
  have row: "row_or_empty anchors i = anchors ! i" "row_or_empty offsets i = offsets ! i"
    "length (anchors ! i) = length (token_ids ! i)" "length (offsets ! i) = length (token_ids ! i)" if "i < length token_ids" for i
    using that assms n by (auto simp: row_or_empty_def list_eq_iff_nth_eq)
  have "\<exists>k. filter_sample (row_or_empty anchors i) (row_or_empty offsets i) (token_ids ! i) None = Inr k
      \<and> distinct (map it_anchor k) \<and> it_anchor ` set k = rejected_block_anchors (anchors ! i) (offsets ! i) (token_ids ! i)
      \<and> list_all (\<lambda>it. 0 \<le> it_token it) k" if "i < length token_ids" for i
    unfolding row(1,2) [OF that] by (rule filter_sample_anchors [OF row(3,4) [OF that]])
  then obtain K where K: "\<And>i. i < length token_ids \<Longrightarrow> filter_sample (row_or_empty anchors i) (row_or_empty offsets i) (token_ids ! i) None = Inr (K i)
      \<and> distinct (map it_anchor (K i)) \<and> it_anchor ` set (K i) = rejected_block_anchors (anchors ! i) (offsets ! i) (token_ids ! i)
      \<and> list_all (\<lambda>it. 0 \<le> it_token it) (K i)"
    by metis
  have "rmap (\<lambda>i. filter_sample (row_or_empty anchors i) (row_or_empty offsets i) (token_ids ! i) None) [0..<length token_ids] = Inr (map K [0..<length token_ids])"
    by (rule rmap_Inr) (simp add: K)
  then have "filter_dflash_rejected_draft_first_tokens anchors offsets token_ids None
      = Inr (map (map it_anchor) (map K [0..<length token_ids]), map (map it_offset) (map K [0..<length token_ids]), map (map it_token) (map K [0..<length token_ids]), None)"
    by (simp add: filter_dflash_rejected_draft_first_tokens_def)
  then show ?thesis by (intro exI [of _ "map K [0..<length token_ids]"] conjI) (simp_all add: K)
qed

text \<open>C29 What the global count of rejected drafts returns with first-token filtering, for all metadata with rows of equal lengths: in
  every sample, the number of blocks with a valid rejected draft whose anchor is not negative, up to the cap, although the filter keeps one
  valid token of every such block. The blocks anchored before the response (anchor \<open>-1\<close>) are not counted, because the anchors are
  bound to the name of the tokens.\<close>

theorem first_token_count_skips_prompt_blocks:
  assumes "normalize_dflash_rejected_draft_values raw_token_ids batch_size = Inr token_ids" "length token_ids = batch_size"
    and "normalize_dflash_rejected_draft_values raw_anchors batch_size = Inr anchors" "map length anchors = map length token_ids"
    and "normalize_dflash_rejected_draft_values raw_offsets batch_size = Inr offsets" "map length offsets = map length token_ids"
  shows "count_dflash_rejected_draft_tokens raw_token_ids batch_size cap raw_anchors raw_offsets True
      = Inr (sum_list (map (\<lambda>i. capped_anchors cap (card {a \<in> rejected_block_anchors (anchors ! i) (offsets ! i) (token_ids ! i). 0 \<le> a})) [0..<batch_size]))
    \<and> (\<exists>as os ts. filter_dflash_rejected_draft_first_tokens anchors offsets token_ids None = Inr (as, os, ts, None)
        \<and> map (\<lambda>row. length (filter (\<lambda>t. 0 \<le> t) row)) ts
          = map (\<lambda>i. card (rejected_block_anchors (anchors ! i) (offsets ! i) (token_ids ! i))) [0..<batch_size])"
proof -
  obtain kept :: "draft_item list list" where f: "filter_dflash_rejected_draft_first_tokens anchors offsets token_ids None
      = Inr (map (map it_anchor) kept, map (map it_offset) kept, map (map it_token) kept, None)" and n: "length kept = length token_ids"
    and k: "\<And>i. i < length token_ids \<Longrightarrow> distinct (map it_anchor (kept ! i))
        \<and> it_anchor ` set (kept ! i) = rejected_block_anchors (anchors ! i) (offsets ! i) (token_ids ! i) \<and> list_all (\<lambda>it. 0 \<le> it_token it) (kept ! i)"
    using filtered_rows [OF assms(4,6)] by blast
  have a: "length (filter (\<lambda>t. 0 \<le> t) (map it_anchor (kept ! i))) = card {a \<in> rejected_block_anchors (anchors ! i) (offsets ! i) (token_ids ! i). 0 \<le> a}"
    if "i < batch_size" for i
  proof -
    have "length (filter (\<lambda>t. 0 \<le> t) (map it_anchor (kept ! i))) = card (set (filter (\<lambda>t. 0 \<le> t) (map it_anchor (kept ! i))))"
      using k [of i] that assms(2) by (intro distinct_card [symmetric] distinct_filter) simp
    also have "set (filter (\<lambda>t. 0 \<le> t) (map it_anchor (kept ! i))) = {a \<in> rejected_block_anchors (anchors ! i) (offsets ! i) (token_ids ! i). 0 \<le> a}"
      using k [of i] that assms(2) by auto
    finally show ?thesis .
  qed
  have t: "length (filter (\<lambda>t. 0 \<le> t) (map it_token (kept ! i))) = card (rejected_block_anchors (anchors ! i) (offsets ! i) (token_ids ! i))"
    if "i < batch_size" for i
  proof -
    have "filter (\<lambda>t. 0 \<le> t) (map it_token (kept ! i)) = map it_token (kept ! i)" using k [of i] that assms(2) by (simp add: list_all_iff)
    moreover have "length (map it_anchor (kept ! i)) = card (set (map it_anchor (kept ! i)))"
      using k [of i] that assms(2) by (intro distinct_card [symmetric]) simp
    ultimately show ?thesis using k [of i] that assms(2) by simp
  qed
  have "count_dflash_rejected_draft_tokens raw_token_ids batch_size cap raw_anchors raw_offsets True
      = Inr (sum_list (map (\<lambda>row. capped_anchors cap (length (filter (\<lambda>t. 0 \<le> t) row))) (map (map it_anchor) kept)))"
    using assms(1-3,5) f by (simp add: count_dflash_rejected_draft_tokens_def capped_anchors_def Let_def require_def)
  moreover have "map (\<lambda>row. capped_anchors cap (length (filter (\<lambda>t. 0 \<le> t) row))) (map (map it_anchor) kept)
      = map (\<lambda>i. capped_anchors cap (card {a \<in> rejected_block_anchors (anchors ! i) (offsets ! i) (token_ids ! i). 0 \<le> a})) [0..<batch_size]"
    using n assms(2) a by (intro nth_equalityI) simp_all
  moreover have "map (\<lambda>row. length (filter (\<lambda>t. 0 \<le> t) row)) (map (map it_token) kept)
      = map (\<lambda>i. card (rejected_block_anchors (anchors ! i) (offsets ! i) (token_ids ! i))) [0..<batch_size]"
    using n assms(2) t by (intro nth_equalityI) simp_all
  ultimately show ?thesis using f by simp
qed

theorem first_token_count_skips_prompt_blocks_witness:
  "count_dflash_rejected_draft_tokens (MList [MList [MNum 7, MNum 9], MList []]) 2 None (MList [MList [MNum (-1), MNum 4], MList []])
      (MList [MList [MNum 1, MNum 2], MList []]) True = Inr 1
    \<and> (\<exists>as os ts. filter_dflash_rejected_draft_first_tokens [[-1, 4], []] [[1, 2], []] [[7, 9], []] None = Inr (as, os, ts, None)
        \<and> map (\<lambda>row. length (filter (\<lambda>t. 0 \<le> t) row)) ts = [2, 0])"
proof -
  have n: "normalize_dflash_rejected_draft_values (MList [MList [MNum 7, MNum 9], MList []]) 2 = Inr [[7, 9 :: int], []]"
    "normalize_dflash_rejected_draft_values (MList [MList [MNum (-1), MNum 4], MList []]) 2 = Inr [[-1, 4 :: int], []]"
    "normalize_dflash_rejected_draft_values (MList [MList [MNum 1, MNum 2], MList []]) 2 = Inr [[1, 2 :: int], []]" by code_simp+
  have l: "[0..<2] = [0, 1 :: nat]" by code_simp
  have b: "rejected_block_anchors [-1, 4] [1, 2] [7, 9] = {-1, 4}" "rejected_block_anchors [] [] [] = {}"
    "{a. (a = -1 \<or> a = 4) \<and> 0 \<le> a} = {4 :: int}" by (auto simp: rejected_block_anchors_def)
  show ?thesis using first_token_count_skips_prompt_blocks [OF n(1) _ n(2) _ n(3), of None] by (simp add: l b capped_anchors_def numeral_2_eq_2)
qed

subsection \<open>Padded tensors\<close>

lemma fold_max_ge: "x \<in> set xs \<Longrightarrow> x \<le> fold max xs (m :: nat)"
proof (induction xs arbitrary: m)
  case (Cons y ys)
  have mono: "m' \<le> fold max ys m'" for m'
  proof (induction ys arbitrary: m')
    case (Cons z zs)
    show ?case using Cons [of "max z m'"] by simp
  qed simp
  show ?case
  proof (cases "x = y")
    case True
    then show ?thesis using mono [of "max y m"] by simp
  next
    case False
    then show ?thesis using Cons by simp
  qed
qed simp

lemma width_of_ge: "r \<in> set tbl \<Longrightarrow> length r \<le> width_of tbl"
  using fold_max_ge [of "length r" "map length tbl" 0] by (auto simp: width_of_def)

lemma same_lengths_nth:
  assumes "same_lengths xs ys" "i < length xs"
  shows "length (ys ! i) = length (xs ! i)"
proof -
  have e: "map length xs = map length ys" using assms(1) by (simp add: same_lengths_def)
  then have "length ys = length xs" using map_eq_imp_length_eq by metis
  then show ?thesis using arg_cong [OF e, of "\<lambda>l. l ! i"] assms(2) by simp
qed

lemma select_padded:
  assumes "length r = length a" "length a \<le> w"
  shows "select (pad_to w False (map (\<lambda>_. True) a)) (pad_to w d r) = r"
proof -
  have "map (\<lambda>_. True) a = replicate (length r) True" using assms(1) by (simp add: map_replicate_const)
  then show ?thesis using assms select_True [of r]
    by (simp add: pad_to_def select_append select_False del: replicate_append_same)
qed

text \<open>Round trip of the rejected drafts: whenever the tensors are built, reading a row through its mask
  gives back the anchors, offsets, tokens and teacher log-probabilities of the sample, and all rows
  have the same width.\<close>

theorem rejected_tensors_roundtrip:
  assumes "build_dflash_rejected_draft_tensors ra rf rt rl n ft tv = Inr rej" "\<not> ft \<or> tv"
  shows "\<exists>a f t l A F T L M. normalize_dflash_rejected_draft_values ra n = Inr a \<and> normalize_dflash_rejected_draft_values rf n = Inr f
    \<and> normalize_dflash_rejected_draft_values rt n = Inr t \<and> normalize_dflash_rejected_draft_values rl n = Inr l
    \<and> rej = \<lparr>rd_anchors = Some A, rd_offsets = Some F, rd_tokens = Some T, rd_teacher = Some L, rd_mask = Some M\<rparr>
    \<and> length M = n \<and> (\<forall>r\<in>set M. length r = width_of a)
    \<and> (\<forall>i<n. select (M ! i) (A ! i) = a ! i \<and> select (M ! i) (F ! i) = f ! i
         \<and> select (M ! i) (T ! i) = t ! i \<and> select (M ! i) (L ! i) = l ! i)"
proof -
  obtain a f t l where nrm: "normalize_dflash_rejected_draft_values ra n = Inr a" "normalize_dflash_rejected_draft_values rf n = Inr f"
    "normalize_dflash_rejected_draft_values rt n = Inr t" "normalize_dflash_rejected_draft_values rl n = Inr l"
    and len: "length a = n" "length f = n" "length t = n" "length l = n"
    and same: "same_lengths a f" "same_lengths a t" "same_lengths a l" and rej: "rej = rejected_tensors a f t l"
    using assms unfolding build_dflash_rejected_draft_tensors_def by (auto simp: rbind_eq_Inr)
  let ?w = "width_of a"
  have row: "select (pad_rows ?w False (map (map (\<lambda>_. True)) a) ! i) (pad_rows ?w d x ! i) = x ! i"
    if "i < n" "same_lengths a x" "length x = n" for i d and x :: "'z list list"
    using that len(1) same_lengths_nth [OF that(2)] width_of_ge [of "a ! i" a]
    by (simp add: pad_rows_def select_padded)
  have "same_lengths a a" by (simp add: same_lengths_def)
  note rows = row [OF _ this len(1)] row [OF _ same(1) len(2)] row [OF _ same(2) len(3)] row [OF _ same(3) len(4)]
  have "\<forall>r\<in>set (pad_rows ?w False (map (map (\<lambda>_. True)) a)). length r = ?w"
    using width_of_ge [of _ a] by (auto simp: pad_rows_def max_def dest: le_antisym)
  then show ?thesis using nrm len rej rows by (auto simp: rejected_tensors_def Let_def pad_rows_def [of _ _ "map _ _"])
qed

theorem rejected_tensors_roundtrip_witness:
  "\<exists>A M. rd_anchors (rejected_tensors [[0, 3], [5]] [[1, 2], [1]] [[7, 8], [9]] [[0, 0], [0]]) = Some A
    \<and> rd_mask (rejected_tensors [[0, 3], [5]] [[1, 2], [1]] [[7, 8], [9]] [[0, 0], [0]]) = Some M
    \<and> select (M ! 1) (A ! 1) = [5]"
proof -
  let ?ra = "MList [MList [MNum 0, MNum 3], MNum (5 :: int)]" and ?rf = "MList [MList [MNum 1, MNum 2], MNum (1 :: int)]"
  let ?rt = "MList [MList [MNum 7, MNum 8], MNum (9 :: int)]" and ?rl = "MList [MList [MNum 0, MNum 0], MNum (0 :: real)]"
  have b: "build_dflash_rejected_draft_tensors ?ra ?rf ?rt ?rl 2 False False
      = Inr (rejected_tensors [[0, 3], [5]] [[1, 2], [1]] [[7, 8], [9]] [[0, 0], [0]])"
    by (simp add: build_dflash_rejected_draft_tensors_def normalize_dflash_rejected_draft_values_def to_python_def
        is_seq_def seq_items_def same_lengths_def)
  have a: "normalize_dflash_rejected_draft_values ?ra 2 = Inr [[0, 3], [5]]"
    by (simp add: normalize_dflash_rejected_draft_values_def to_python_def is_seq_def seq_items_def)
  from rejected_tensors_roundtrip [OF b] obtain a' A F T L M where
    r: "normalize_dflash_rejected_draft_values ?ra 2 = Inr a'"
      "rejected_tensors [[0, 3], [5]] [[1, 2], [1]] [[7, 8], [9]] [[0, 0], [0]]
        = \<lparr>rd_anchors = Some A, rd_offsets = Some F, rd_tokens = Some T, rd_teacher = Some L, rd_mask = Some M\<rparr>"
      "\<forall>i<2. select (M ! i) (A ! i) = a' ! i" by blast
  have "a' = [[0, 3], [5]]" using r(1) a by simp
  then have "select (M ! 1) (A ! 1) = [5]" using r(3) by simp
  then show ?thesis unfolding r(2) by simp
qed

subsection \<open>Compaction keeps prompt and response\<close>

lemma length_select_true: "length m = length xs \<Longrightarrow> length (select m xs) = length (filter id m)"
  by (induction m xs rule: list_induct2) auto

text \<open>Compacting padded rows moves the prompt tokens to the front and the response tokens right behind
  them: the prompt and response lengths the student is given delimit exactly these tokens, the new
  attention mask covers exactly them, and the rest of the row is padding.\<close>

theorem compact_inputs_layout:
  assumes "compact_padded_composed_dflash_inputs ids am pos pad = Inr (C, M, Q)"
    and "compute_composed_dflash_lengths am (Dense P) (Dense R) = Inr (ps, rs)"
    and "b < length am" "length ids = length am" "length (ids ! b) = length (am ! b)"
    and "length (am ! b) = tensor_width P + tensor_width R"
  shows "take (nat (ps ! b)) (C ! b) = select (take (tensor_width P) (am ! b)) (take (tensor_width P) (ids ! b))
    \<and> slice (nat (ps ! b)) (nat (ps ! b + rs ! b)) (C ! b) = select (drop (tensor_width P) (am ! b)) (drop (tensor_width P) (ids ! b))
    \<and> (\<forall>x\<in>set (drop (nat (ps ! b + rs ! b)) (C ! b)). x = pad)
    \<and> sum_list (M ! b) = ps ! b + rs ! b"
proof -
  let ?m = "am ! b" and ?x = "ids ! b" and ?pw = "tensor_width P"
  let ?w = "fold max (map (\<lambda>m. length (filter id m)) am) 0"
  have C: "C ! b = pad_to ?w pad (select ?m ?x)"
    and M: "M ! b = map (\<lambda>j. if j < length (filter id ?m) then 1 else 0) [0..<?w]"
    using assms(1,3,4) by (auto simp: compact_padded_composed_dflash_inputs_def Let_def split: if_splits)
  have lens: "ps ! b = int (length (filter id (take ?pw ?m)))" "rs ! b = int (length (filter id (drop ?pw ?m)))"
    using assms(2,3,6) by (auto simp: compute_composed_dflash_lengths_def Let_def count_true_def slice_def)
  have sp: "select ?m ?x = select (take ?pw ?m) (take ?pw ?x) @ select (drop ?pw ?m) (drop ?pw ?x)"
    using select_append [of "take ?pw ?m" "take ?pw ?x" "drop ?pw ?m" "drop ?pw ?x"] assms(5) by simp
  have l: "length (select (take ?pw ?m) (take ?pw ?x)) = nat (ps ! b)"
    "length (select (drop ?pw ?m) (drop ?pw ?x)) = nat (rs ! b)"
    unfolding lens using assms(5) by (simp_all add: length_select_true)
  have nn: "nat (ps ! b + rs ! b) = nat (ps ! b) + nat (rs ! b)" using lens by simp
  have tot: "length (filter id ?m) = nat (ps ! b + rs ! b)"
    using lens filter_append [of id "take ?pw ?m" "drop ?pw ?m"] by (metis append_take_drop_id length_append nat_int of_nat_add)
  have "length (filter id ?m) \<le> ?w" using assms(3) by (intro fold_max_ge) simp
  then have "sum_list (M ! b) = int (length (filter id ?m))"
  proof -
    assume le: "length (filter id ?m) \<le> ?w"
    have "M ! b = replicate (length (filter id ?m)) 1 @ replicate (?w - length (filter id ?m)) 0"
      unfolding M using le by (intro nth_equalityI) (auto simp: nth_append)
    then show ?thesis by (simp add: sum_list_replicate)
  qed
  moreover have "int (length (filter id ?m)) = ps ! b + rs ! b" using tot lens by simp
  ultimately show ?thesis unfolding C sp pad_to_def slice_def nn using l by (auto simp: nn)
qed

theorem compact_inputs_layout_witness:
  "take 2 [5, 6, 7, 8] = [5, 6 :: int] \<and> slice 2 4 [5, 6, 7, 8] = [7, 8 :: int]"
proof -
  have c: "compact_padded_composed_dflash_inputs [[0, 5, 6, 7, 8, 0], [1, 2, 3, 4, 0, 0]]
      [[False, True, True, True, True, False], [True, True, True, True, False, False]]
      [[0, 0, 1, 2, 3, 0], [0, 1, 2, 3, 0, 0]] 0
     = Inr ([[5, 6, 7, 8], [1, 2, 3, 4]], [[1, 1, 1, 1], [1, 1, 1, 1]], [[0, 1, 2, 3], [0, 1, 2, 3]])" by code_simp
  have l: "compute_composed_dflash_lengths [[False, True, True, True, True, False], [True, True, True, True, False, False]]
      (Dense [[0, 5, 6], [1, 2, 3]]) (Dense [[7, 8, 0], [4, 0, 0]]) = Inr ([2, 3], [2, 1])" by code_simp
  from compact_inputs_layout [OF c l, of 0] show ?thesis by (simp add: tensor_width_def slice_def)
qed

end
