(* ===== verification/Radix_Tree.thy ===== *)
theory Radix_Tree
  imports Heapq "HOL-Library.AList" "HOL-Library.Sublist"
begin

section \<open>The radix tree of the prefix cache\<close>

text \<open>
  Model of \<^verbatim>\<open>srt/mem_cache/radix_cache.py\<close> and \<^verbatim>\<open>srt/mem_cache/evict_policy.py\<close>: keys, nodes, matching,
  insertion, splitting, lock counters and eviction. Nodes are mutable and refer to each other (children,
  parent), and requests keep references to them, so the model has a store: a node is its number
  \<^verbatim>\<open>TreeNode.id\<close>, and \<open>nodes\<close> maps the numbers given out so far to the fields of the node. A node that is
  evicted stays in the store without being reachable from the root.

  The clock (\<^verbatim>\<open>time.monotonic\<close>) and the order in which a Python set is enumerated are parameters. Block
  events (\<^verbatim>\<open>enable_kv_cache_events\<close>, off by default) and the fields of the host tier are not modelled; without
  a host tier \<^verbatim>\<open>node.value\<close> is never \<^verbatim>\<open>None\<close> after a node is built, so \<^verbatim>\<open>node.evicted\<close> is false.
\<close>

subsection \<open>Keys\<close>

datatype tok = Tok int | Bigram int int

record radix_key =
  token_ids :: "tok list"
  extra_key :: "string option"
  is_bigram :: bool

abbreviation key_len :: "radix_key \<Rightarrow> nat" where
  "key_len k \<equiv> length (token_ids k)"

text \<open>Slices of a key: \<^verbatim>\<open>key[:n]\<close> and \<^verbatim>\<open>key[n:]\<close>. The flag \<^verbatim>\<open>is_bigram\<close> is not passed on.\<close>

definition key_take :: "nat \<Rightarrow> radix_key \<Rightarrow> radix_key" where
  "key_take n k = \<lparr>token_ids = take n (token_ids k), extra_key = extra_key k, is_bigram = False\<rparr>"

definition key_drop :: "nat \<Rightarrow> radix_key \<Rightarrow> radix_key" where
  "key_drop n k = \<lparr>token_ids = drop n (token_ids k), extra_key = extra_key k, is_bigram = False\<rparr>"

definition is_pair :: "tok \<Rightarrow> bool" where
  "is_pair t = (case t of Bigram _ _ \<Rightarrow> True | Tok _ \<Rightarrow> False)"

definition pair_of :: "tok \<Rightarrow> tok \<Rightarrow> tok" where
  "pair_of a b = (case (a, b) of (Tok x, Tok y) \<Rightarrow> Bigram x y | _ \<Rightarrow> a)"

definition convert_to_bigram_key :: "tok list \<Rightarrow> tok list" where
  "convert_to_bigram_key tokens =
     (if tokens \<noteq> [] \<and> is_pair (hd tokens) then tokens
      else if length tokens < 2 then []
      else map (\<lambda>i. pair_of (tokens ! i) (tokens ! (i + 1))) [0..<length tokens - 1])"

definition maybe_bigram_convert :: "bool \<Rightarrow> radix_key \<Rightarrow> int list option \<Rightarrow> radix_key \<times> int list option" where
  "maybe_bigram_convert is_eagle key val =
     (if is_eagle \<and> \<not> is_bigram key
      then let key' = key\<lparr>token_ids := convert_to_bigram_key (token_ids key), is_bigram := True\<rparr>
           in (key', map_option (take (key_len key')) val)
      else (key, val))"

definition page_align_keys :: "'a list \<Rightarrow> nat \<Rightarrow> 'a list" where
  "page_align_keys key ps = (if ps = 1 then key else take (length key div ps * ps) key)"

definition key_match_page_size1 :: "radix_key \<Rightarrow> radix_key \<Rightarrow> nat res" where
  "key_match_page_size1 key0 key1 =
     (if extra_key key0 \<noteq> extra_key key1 then Inl ValueError
      else Inr (length (takeWhile (\<lambda>(a, b). a = b) (zip (token_ids key0) (token_ids key1)))))"

text \<open>The loop over pages. Its index \<open>i\<close> grows by the page size, so it ends when that is positive.\<close>

function paged_match_from :: "nat \<Rightarrow> 'a list \<Rightarrow> 'a list \<Rightarrow> nat \<Rightarrow> nat" where
  "paged_match_from ps ts0 ts1 i =
     (if i < min (length ts0) (length ts1) \<and> 0 < ps \<and> slice i (i + ps) ts0 = slice i (i + ps) ts1
      then paged_match_from ps ts0 ts1 (i + ps) else i)"
  by pat_completeness auto
termination
  by (relation "measure (\<lambda>(ps, ts0, ts1, i). length ts0 - i)") auto

declare paged_match_from.simps [simp del]

definition key_match_paged :: "nat \<Rightarrow> radix_key \<Rightarrow> radix_key \<Rightarrow> nat res" where
  "key_match_paged ps key0 key1 =
     (if extra_key key0 \<noteq> extra_key key1 then Inl ValueError
      else Inr (paged_match_from ps (token_ids key0) (token_ids key1) 0))"

text \<open>\<^verbatim>\<open>get_child_key\<close>; its callers only pass keys that are not empty.\<close>

type_synonym child_key = "string option \<times> tok list"

definition get_child_key :: "nat \<Rightarrow> radix_key \<Rightarrow> child_key" where
  "get_child_key ps key = (extra_key key, take ps (token_ids key))"

subsection \<open>Nodes and the cache\<close>

record tree_node =
  children :: "(child_key \<times> nat) list"
  parent :: "nat option"
  node_key :: radix_key
  node_value :: "int list"
  lock_ref :: int
  last_access_time :: int
  creation_time :: int
  hit_count :: nat
  node_priority :: int

datatype eviction_policy = LRU | LFU | FIFO | MRU | FILO | Priority | SLRU

record cache_config =
  disable :: bool
  cache_page_size :: nat
  is_eagle :: bool
  disable_finished_insert :: bool
  strategy :: eviction_policy
  clock :: "nat \<Rightarrow> int"
  list_of :: "nat set \<Rightarrow> nat list"

record radix_cache =
  nodes :: "nat \<Rightarrow> tree_node"
  counter :: nat
  root_node :: nat
  evictable_size :: int
  protected_size :: int
  evictable_leaves :: "nat set"
  ticks :: nat

definition upd_node :: "nat \<Rightarrow> (tree_node \<Rightarrow> tree_node) \<Rightarrow> radix_cache \<Rightarrow> radix_cache" where
  "upd_node i f s = s\<lparr>nodes := (nodes s)(i := f (nodes s i))\<rparr>"

text \<open>\<^verbatim>\<open>time.monotonic()\<close>: the next reading of the clock.\<close>

definition read_clock :: "cache_config \<Rightarrow> radix_cache \<Rightarrow> int \<times> radix_cache" where
  "read_clock cf s = (clock cf (ticks s), s\<lparr>ticks := ticks s + 1\<rparr>)"

text \<open>\<^verbatim>\<open>TreeNode(priority=p)\<close>, which reads the clock twice. The key and the value it leaves \<^verbatim>\<open>None\<close> are empty here;
  every caller sets them.\<close>

definition new_node :: "cache_config \<Rightarrow> int \<Rightarrow> radix_cache \<Rightarrow> nat \<times> radix_cache" where
  "new_node cf p s =
     (let (t1, s1) = read_clock cf s; (t2, s2) = read_clock cf s1; i = counter s2 in
      (i, s2\<lparr>nodes := (nodes s2)(i := \<lparr>children = [], parent = None,
           node_key = \<lparr>token_ids = [], extra_key = None, is_bigram = False\<rparr>, node_value = [], lock_ref = 0,
           last_access_time = t1, creation_time = t2, hit_count = 0, node_priority = p\<rparr>), counter := i + 1\<rparr>))"

definition maxsize :: int where
  "maxsize = 2 ^ 63 - 1"

definition reset :: "cache_config \<Rightarrow> radix_cache \<Rightarrow> radix_cache" where
  "reset cf s =
     (let (r, s1) = new_node cf (- maxsize) s;
          s2 = upd_node r (\<lambda>n. n\<lparr>lock_ref := 1\<rparr>) s1
      in s2\<lparr>root_node := r, evictable_size := 0, protected_size := 0, evictable_leaves := {}\<rparr>)"

definition blank_node :: tree_node where
  "blank_node = \<lparr>children = [], parent = None, node_key = \<lparr>token_ids = [], extra_key = None, is_bigram = False\<rparr>,
     node_value = [], lock_ref = 0, last_access_time = 0, creation_time = 0, hit_count = 0, node_priority = 0\<rparr>"

definition radix_init :: "cache_config \<Rightarrow> radix_cache" where
  "radix_init cf = reset cf \<lparr>nodes = (\<lambda>_. blank_node), counter = 0, root_node = 0, evictable_size = 0,
     protected_size = 0, evictable_leaves = {}, ticks = 0\<rparr>"

definition key_match_fn :: "cache_config \<Rightarrow> radix_key \<Rightarrow> radix_key \<Rightarrow> nat res" where
  "key_match_fn cf = (if cache_page_size cf = 1 then key_match_page_size1 else key_match_paged (cache_page_size cf))"

abbreviation child_key_fn :: "cache_config \<Rightarrow> radix_key \<Rightarrow> child_key" where
  "child_key_fn cf \<equiv> get_child_key (cache_page_size cf)"

subsection \<open>Splitting, matching, inserting\<close>

text \<open>\<^verbatim>\<open>node not in evictable_leaves\<close> guards in the code only avoid removing or adding twice.\<close>

definition update_leaf_status :: "nat \<Rightarrow> radix_cache \<Rightarrow> radix_cache" where
  "update_leaf_status i s =
     (if 0 < lock_ref (nodes s i) then s\<lparr>evictable_leaves := evictable_leaves s - {i}\<rparr>
      else if children (nodes s i) \<noteq> [] then s\<lparr>evictable_leaves := evictable_leaves s - {i}\<rparr>
      else s\<lparr>evictable_leaves := insert i (evictable_leaves s)\<rparr>)"

definition split_node :: "cache_config \<Rightarrow> radix_key \<Rightarrow> nat \<Rightarrow> nat \<Rightarrow> radix_cache \<Rightarrow> (nat \<times> radix_cache) res" where
  "split_node cf key child split_len s =
     (let c = nodes s child; (n, s1) = new_node cf (node_priority c) s;
          s2 = upd_node n (\<lambda>x. x\<lparr>hit_count := hit_count c, children := [(child_key_fn cf (key_drop split_len key), child)],
                  parent := parent c, lock_ref := lock_ref c, node_key := key_take split_len (node_key c),
                  node_value := take split_len (node_value c)\<rparr>) s1;
          s3 = upd_node child (\<lambda>x. x\<lparr>parent := Some n, node_key := key_drop split_len (node_key x),
                  node_value := drop split_len (node_value x)\<rparr>) s2
      in case parent c of
           None \<Rightarrow> Inl AttributeError
         | Some p \<Rightarrow> Inr (n, upd_node p (\<lambda>x. x\<lparr>children := AList.update (child_key_fn cf key) n (children x)\<rparr>) s3))"

fun match_loop :: "cache_config \<Rightarrow> int \<Rightarrow> nat \<Rightarrow> nat \<Rightarrow> radix_key \<Rightarrow> int list list \<Rightarrow> radix_cache
    \<Rightarrow> (int list list \<times> nat \<times> radix_cache) res" where
  "match_loop cf now 0 node key vals s = Inl OutOfFuel"
| "match_loop cf now (Suc fuel) node key vals s =
     (if key_len key = 0 then Inr (vals, node, s)
      else case map_of (children (nodes s node)) (child_key_fn cf key) of
        None \<Rightarrow> Inr (vals, node, s)
      | Some child \<Rightarrow>
          let s1 = upd_node child (\<lambda>x. x\<lparr>last_access_time := now\<rparr>) s; c = nodes s1 child in
          rbind (key_match_fn cf (node_key c) key) (\<lambda>prefix_len.
            if prefix_len < key_len (node_key c)
            then rbind (split_node cf (node_key c) child prefix_len s1) (\<lambda>(n, s2).
                   Inr (vals @ [node_value (nodes s2 n)], n, s2))
            else match_loop cf now fuel child (key_drop prefix_len key) (vals @ [node_value c]) s1))"

definition match_prefix_helper :: "cache_config \<Rightarrow> nat \<Rightarrow> radix_key \<Rightarrow> radix_cache
    \<Rightarrow> (int list list \<times> nat \<times> radix_cache) res" where
  "match_prefix_helper cf node key s =
     (let (now, s1) = read_clock cf s;
          s2 = upd_node node (\<lambda>x. x\<lparr>last_access_time := now\<rparr>) s1
      in match_loop cf now (Suc (key_len key)) node key [] s2)"

definition match_prefix :: "cache_config \<Rightarrow> radix_key \<Rightarrow> radix_cache \<Rightarrow> (int list \<times> nat \<times> radix_cache) res" where
  "match_prefix cf key0 s =
     (let (key, _) = maybe_bigram_convert (is_eagle cf) key0 None in
      if disable cf \<or> key_len key = 0 then Inr ([], root_node s, s)
      else let key' = (if cache_page_size cf \<noteq> 1
                       then key_take (key_len key div cache_page_size cf * cache_page_size cf) key else key) in
        if key_len key' = 0 then Inr ([], root_node s, s)
        else rbind (match_prefix_helper cf (root_node s) key' s) (\<lambda>(vals, last_node, s').
          Inr (concat vals, last_node, s')))"

definition inc_hit_count :: "bool \<Rightarrow> tree_node \<Rightarrow> tree_node" where
  "inc_hit_count chunked n = (if chunked then n else n\<lparr>hit_count := hit_count n + 1\<rparr>)"

text \<open>One round of the loop touches the child, matches it and either splits it or goes on below it.\<close>

fun insert_loop :: "cache_config \<Rightarrow> int \<Rightarrow> int \<Rightarrow> bool \<Rightarrow> nat \<Rightarrow> nat \<Rightarrow> radix_key \<Rightarrow> int list \<Rightarrow> nat \<Rightarrow> radix_cache
    \<Rightarrow> (nat \<times> radix_key \<times> int list \<times> nat \<times> radix_cache) res" where
  "insert_loop cf now prio chunked 0 node key val total_len s = Inl OutOfFuel"
| "insert_loop cf now prio chunked (Suc fuel) node key val total_len s =
     (if key_len key = 0 then Inr (node, key, val, total_len, s)
      else case map_of (children (nodes s node)) (child_key_fn cf key) of
        None \<Rightarrow> Inr (node, key, val, total_len, s)
      | Some child \<Rightarrow>
          let s1 = upd_node child (\<lambda>x. x\<lparr>last_access_time := now\<rparr>) s; c = nodes s1 child in
          rbind (key_match_fn cf (node_key c) key) (\<lambda>prefix_len.
            rbind (if prefix_len < key_len (node_key c) then split_node cf (node_key c) child prefix_len s1
                   else Inr (child, s1)) (\<lambda>(n, s2).
              insert_loop cf now prio chunked fuel n (key_drop prefix_len key) (drop prefix_len val)
                (total_len + prefix_len)
                (upd_node n (\<lambda>x. inc_hit_count chunked (x\<lparr>node_priority := max (node_priority x) prio\<rparr>)) s2))))"

definition add_leaf :: "cache_config \<Rightarrow> int \<Rightarrow> bool \<Rightarrow> nat \<Rightarrow> radix_key \<Rightarrow> int list \<Rightarrow> radix_cache \<Rightarrow> radix_cache" where
  "add_leaf cf prio chunked node key val s =
     (let (n, s1) = new_node cf prio s;
          s2 = upd_node n (\<lambda>x. inc_hit_count chunked (x\<lparr>parent := Some node, node_key := key, node_value := val\<rparr>)) s1;
          s3 = upd_node node (\<lambda>x. x\<lparr>children := AList.update (child_key_fn cf key) n (children x)\<rparr>) s2;
          s4 = s3\<lparr>evictable_size := evictable_size s3 + int (key_len key)\<rparr>
      in update_leaf_status n (update_leaf_status node s4))"

definition insert_helper :: "cache_config \<Rightarrow> nat \<Rightarrow> radix_key \<Rightarrow> int list \<Rightarrow> int \<Rightarrow> bool \<Rightarrow> radix_cache
    \<Rightarrow> (nat \<times> radix_cache) res" where
  "insert_helper cf node key val prio chunked s =
     (let (now, s1) = read_clock cf s;
          s2 = upd_node node (\<lambda>x. x\<lparr>last_access_time := now, node_priority := max (node_priority x) prio\<rparr>) s1
      in if key_len key = 0 then Inr (0, s2)
         else rbind (insert_loop cf now prio chunked (Suc (key_len key)) node key val 0 s2)
           (\<lambda>(node', key', val', total_len, s3).
              Inr (total_len, if key_len key' = 0 then s3 else add_leaf cf prio chunked node' key' val' s3)))"

text \<open>\<^verbatim>\<open>RadixCache.insert\<close> with a given value; without one the code stores the token ids themselves, which only
  the simulation mode uses.\<close>

definition radix_insert :: "cache_config \<Rightarrow> radix_key \<Rightarrow> int list \<Rightarrow> int \<Rightarrow> bool \<Rightarrow> radix_cache \<Rightarrow> (nat \<times> radix_cache) res" where
  "radix_insert cf key0 val0 prio chunked s =
     (if disable cf then Inr (0, s)
      else case maybe_bigram_convert (is_eagle cf) key0 (Some val0) of
        (key, val) \<Rightarrow> insert_helper cf (root_node s) key (case val of None \<Rightarrow> [] | Some v \<Rightarrow> v) prio chunked s)"

subsection \<open>Lock counters\<close>

text \<open>The loops from a node to the root. \<open>fuel\<close> bounds the length of the chain of parents; the number of nodes
  ever created is enough.\<close>

fun inc_lock_loop :: "nat \<Rightarrow> nat option \<Rightarrow> int \<Rightarrow> radix_cache \<Rightarrow> (int \<times> radix_cache) res" where
  "inc_lock_loop 0 node delta s = Inl OutOfFuel"
| "inc_lock_loop (Suc fuel) node delta s =
     (case node of
        None \<Rightarrow> Inl AttributeError
      | Some i \<Rightarrow>
          if i = root_node s then Inr (delta, s)
          else let x = nodes s i; n = int (key_len (node_key x));
                   (delta', s1) = (if lock_ref x = 0
                      then (delta - n, s\<lparr>evictable_size := evictable_size s - n, protected_size := protected_size s + n\<rparr>)
                      else (delta, s));
                   s2 = update_leaf_status i (upd_node i (\<lambda>y. y\<lparr>lock_ref := lock_ref y + 1\<rparr>) s1)
               in inc_lock_loop fuel (parent x) delta' s2)"

definition inc_lock_ref :: "cache_config \<Rightarrow> nat \<Rightarrow> radix_cache \<Rightarrow> (int \<times> radix_cache) res" where
  "inc_lock_ref cf node s = (if disable cf then Inr (0, s) else inc_lock_loop (Suc (counter s)) (Some node) 0 s)"

fun dec_lock_loop :: "nat \<Rightarrow> nat option \<Rightarrow> int \<Rightarrow> radix_cache \<Rightarrow> (int \<times> radix_cache) res" where
  "dec_lock_loop 0 node delta s = Inl OutOfFuel"
| "dec_lock_loop (Suc fuel) node delta s =
     (case node of
        None \<Rightarrow> Inl AttributeError
      | Some i \<Rightarrow>
          if i = root_node s then Inr (delta, s)
          else let x = nodes s i; n = int (key_len (node_key x));
                   (delta', s1) = (if lock_ref x = 1
                      then (delta + n, s\<lparr>evictable_size := evictable_size s + n, protected_size := protected_size s - n\<rparr>)
                      else (delta, s));
                   s2 = update_leaf_status i (upd_node i (\<lambda>y. y\<lparr>lock_ref := lock_ref y - 1\<rparr>) s1)
               in if parent x = None then Inl AssertionError
                  else dec_lock_loop fuel (parent x) delta' s2)"

definition dec_lock_ref :: "cache_config \<Rightarrow> nat \<Rightarrow> radix_cache \<Rightarrow> (int \<times> radix_cache) res" where
  "dec_lock_ref cf node s = (if disable cf then Inr (0, s) else dec_lock_loop (Suc (counter s)) (Some node) 0 s)"

subsection \<open>Eviction\<close>

text \<open>The priority of a node as the tuple its strategy returns; a number is a tuple of one component.\<close>

definition get_priority :: "eviction_policy \<Rightarrow> tree_node \<Rightarrow> int list" where
  "get_priority pol n = (case pol of
       LRU \<Rightarrow> [last_access_time n]
     | LFU \<Rightarrow> [int (hit_count n), last_access_time n]
     | FIFO \<Rightarrow> [creation_time n]
     | MRU \<Rightarrow> [- last_access_time n]
     | FILO \<Rightarrow> [- creation_time n]
     | Priority \<Rightarrow> [node_priority n, last_access_time n]
     | SLRU \<Rightarrow> [if 2 \<le> hit_count n then 1 else 0, last_access_time n])"

fun tuple_lt :: "int list \<Rightarrow> int list \<Rightarrow> bool" where
  "tuple_lt [] ys = (ys \<noteq> [])"
| "tuple_lt (x # xs) [] = False"
| "tuple_lt (x # xs) (y # ys) = (if x = y then tuple_lt xs ys else x < y)"

text \<open>Heap entries \<^verbatim>\<open>(priority, node)\<close> as Python compares them: equal priorities are decided by \<^verbatim>\<open>TreeNode.__lt__\<close>,
  the access times. Eviction never changes them, so they are those of the state \<open>h\<close> it starts in.\<close>

type_synonym evict_entry = "int list \<times> nat"

definition entry_lt :: "(nat \<Rightarrow> tree_node) \<Rightarrow> evict_entry \<Rightarrow> evict_entry \<Rightarrow> bool" where
  "entry_lt h a b =
     (if fst a \<noteq> fst b then tuple_lt (fst a) (fst b)
      else snd a \<noteq> snd b \<and> last_access_time (h (snd a)) < last_access_time (h (snd b)))"

definition delete_leaf :: "cache_config \<Rightarrow> nat \<Rightarrow> radix_cache \<Rightarrow> radix_cache res" where
  "delete_leaf cf i s =
     (let x = nodes s i; ck = child_key_fn cf (node_key x) in
      case parent x of
        None \<Rightarrow> Inl AttributeError
      | Some p \<Rightarrow>
          let v = map_of (children (nodes s p)) ck;
              s1 = upd_node p (\<lambda>y. y\<lparr>children := AList.delete ck (children y)\<rparr>) s in
          if v \<noteq> Some i then Inl AssertionError
          else Inr (update_leaf_status p (s1\<lparr>evictable_size := evictable_size s1 - int (key_len (node_key x)),
                 evictable_leaves := evictable_leaves s1 - {i}\<rparr>)))"

text \<open>The loop of \<^verbatim>\<open>evict\<close>. It returns the values given to the allocator in the order they are freed.\<close>

fun evict_loop :: "cache_config \<Rightarrow> (nat \<Rightarrow> tree_node) \<Rightarrow> nat \<Rightarrow> nat \<Rightarrow> nat \<Rightarrow> evict_entry list \<Rightarrow> int list list \<Rightarrow> radix_cache
    \<Rightarrow> (int list list \<times> nat \<times> radix_cache) res" where
  "evict_loop cf h 0 num_tokens num_evicted heap freed s = Inl OutOfFuel"
| "evict_loop cf h (Suc fuel) num_tokens num_evicted heap freed s =
     (if \<not> (num_evicted < num_tokens \<and> heap \<noteq> []) then Inr (freed, num_evicted, s)
      else rbind (heappop (entry_lt h) heap) (\<lambda>((_, x), heap1).
        let v = node_value (nodes s x) in
        rbind (delete_leaf cf x s) (\<lambda>s1.
        case parent (nodes s1 x) of None \<Rightarrow> Inl AttributeError
        | Some p \<Rightarrow>
            let heap2 = (if children (nodes s1 p) = [] \<and> lock_ref (nodes s1 p) = 0
                         then heappush (entry_lt h) heap1 (get_priority (strategy cf) (nodes s1 p), p) else heap1)
            in evict_loop cf h fuel num_tokens (num_evicted + length v) heap2 (freed @ [v]) s1)))"

definition evict :: "cache_config \<Rightarrow> nat \<Rightarrow> radix_cache \<Rightarrow> (int list list \<times> nat \<times> radix_cache) res" where
  "evict cf num_tokens s =
     (if disable cf then Inr ([], 0, s)
      else let leaves = list_of cf (evictable_leaves s);
               heap = heapify (entry_lt (nodes s)) (map (\<lambda>i. (get_priority (strategy cf) (nodes s i), i)) leaves)
           in evict_loop cf (nodes s) (Suc (counter s)) num_tokens 0 heap [] s)"

text \<open>\<^verbatim>\<open>_total_size_helper\<close>: a stack of nodes still to be counted.\<close>

fun total_size_loop :: "nat \<Rightarrow> nat list \<Rightarrow> nat \<Rightarrow> radix_cache \<Rightarrow> nat res" where
  "total_size_loop 0 stack n s = Inl OutOfFuel"
| "total_size_loop (Suc fuel) stack n s =
     (if stack = [] then Inr n
      else let x = last stack in
        total_size_loop fuel (butlast stack @ map snd (children (nodes s x))) (n + length (node_value (nodes s x))) s)"

definition total_size :: "radix_cache \<Rightarrow> nat res" where
  "total_size s = total_size_loop (Suc (counter s)) [root_node s] 0 s"

end
