(* ===== verification/Radix_Inv.thy ===== *)
theory Radix_Inv
  imports Radix_Tree
begin

section \<open>The invariant of the radix tree\<close>

text \<open>
  The nodes reachable from the root form a tree whose edges carry page-aligned keys. \<open>L\<close> is the set of
  reachable nodes, \<open>P i\<close> and \<open>V i\<close> are the tokens and the KV slots on the way from the root to node \<open>i\<close>, and \<open>H i\<close> counts
  the locks requests hold on \<open>i\<close>. \<open>shape\<close> says how these fit to parents, children, keys and values; \<open>acct\<close> is the
  bookkeeping: a lock counter is the number of locks held at the node or below it, the two size counters are the
  tokens in unlocked and in locked nodes, and the evictable leaves are the unlocked nodes without children.
\<close>

subsection \<open>Association lists\<close>

lemma map_of_update: "map_of (AList.update k v al) = (map_of al)(k \<mapsto> v)"
  by (rule update_conv')

lemma map_of_delete: "map_of (AList.delete k al) = (map_of al)(k := None)"
  by (rule delete_conv')

lemma sum_update:
  "map_of al k = Some c \<Longrightarrow> sum_list (map (\<lambda>e. f (snd e)) (AList.update k c' al)) + f c
    = sum_list (map (\<lambda>e. f (snd e)) al) + (f c' :: int)"
  by (induction al) (auto split: if_splits)

lemma sum_update_new:
  "map_of al k = None \<Longrightarrow> sum_list (map (\<lambda>e. f (snd e)) (AList.update k c' al)) = sum_list (map (\<lambda>e. f (snd e)) al) + (f c' :: int)"
  by (induction al) (auto split: if_splits)

lemma sum_delete:
  "distinct (map fst al) \<Longrightarrow> map_of al k = Some c
    \<Longrightarrow> sum_list (map (\<lambda>e. f (snd e)) al) = f c + sum_list (map (\<lambda>e. (f (snd e)) :: int) (AList.delete k al))"
proof (induction al)
  case (Cons e al)
  show ?case
  proof (cases "fst e = k")
    case True
    then have "k \<notin> fst ` set al" using Cons.prems(1) by auto
    then have "AList.delete k al = al" by (rule delete_id)
    then show ?thesis using True Cons.prems(2) by (cases e) (auto simp: AList.delete_simps)
  qed (use Cons in \<open>cases e; auto simp: AList.delete_simps\<close>)
qed simp

subsection \<open>Shape\<close>

abbreviation toks :: "(nat \<Rightarrow> tree_node) \<Rightarrow> nat \<Rightarrow> tok list" where
  "toks h i \<equiv> token_ids (node_key (h i))"

abbreviation extra :: "(nat \<Rightarrow> tree_node) \<Rightarrow> nat \<Rightarrow> string option" where
  "extra h i \<equiv> extra_key (node_key (h i))"

definition attached :: "nat \<Rightarrow> nat \<Rightarrow> nat set \<Rightarrow> (nat \<Rightarrow> tok list) \<Rightarrow> (nat \<Rightarrow> int list) \<Rightarrow> (nat \<Rightarrow> tree_node) \<Rightarrow> nat \<Rightarrow> nat \<Rightarrow> bool" where
  "attached ps r L P V h i p \<longleftrightarrow> p \<in> L \<and> parent (h i) = Some p
     \<and> map_of (children (h p)) (get_child_key ps (node_key (h i))) = Some i
     \<and> P i = P p @ toks h i \<and> V i = V p @ node_value (h i) \<and> (p = r \<or> extra h p = extra h i)
     \<and> toks h i \<noteq> [] \<and> ps dvd length (toks h i) \<and> length (node_value (h i)) = length (toks h i)"

definition kids_ok :: "nat \<Rightarrow> nat \<Rightarrow> nat set \<Rightarrow> (nat \<Rightarrow> tree_node) \<Rightarrow> nat \<Rightarrow> bool" where
  "kids_ok ps r L h p \<longleftrightarrow> distinct (map fst (children (h p)))
     \<and> (\<forall>ck c. map_of (children (h p)) ck = Some c
          \<longrightarrow> c \<in> L \<and> c \<noteq> r \<and> parent (h c) = Some p \<and> ck = get_child_key ps (node_key (h c)))"

definition shape :: "nat \<Rightarrow> nat \<Rightarrow> nat set \<Rightarrow> (nat \<Rightarrow> tok list) \<Rightarrow> (nat \<Rightarrow> int list) \<Rightarrow> (nat \<Rightarrow> tree_node) \<Rightarrow> bool" where
  "shape ps r L P V h \<longleftrightarrow> 0 < ps \<and> finite L \<and> r \<in> L \<and> P r = [] \<and> V r = [] \<and> parent (h r) = None
     \<and> node_value (h r) = []
     \<and> (\<forall>i\<in>L. i \<noteq> r \<longrightarrow> (\<exists>p. attached ps r L P V h i p)) \<and> (\<forall>p\<in>L. kids_ok ps r L h p)"

lemma shape_cong:
  assumes "\<And>i. children (h' i) = children (h i) \<and> parent (h' i) = parent (h i) \<and> node_key (h' i) = node_key (h i)
      \<and> node_value (h' i) = node_value (h i)"
  shows "shape ps r L P V h' \<longleftrightarrow> shape ps r L P V h"
  using assms by (simp add: shape_def attached_def kids_ok_def)

lemma shape_attached: "shape ps r L P V h \<Longrightarrow> i \<in> L \<Longrightarrow> i \<noteq> r \<Longrightarrow> \<exists>p. attached ps r L P V h i p"
  by (simp add: shape_def)

lemma shape_kids: "shape ps r L P V h \<Longrightarrow> p \<in> L \<Longrightarrow> kids_ok ps r L h p"
  by (simp add: shape_def)

lemma shape_child:
  assumes "shape ps r L P V h" "p \<in> L" "map_of (children (h p)) ck = Some c"
  shows "c \<in> L \<and> c \<noteq> r \<and> attached ps r L P V h c p \<and> ck = get_child_key ps (node_key (h c))"
proof -
  have k: "c \<in> L" "c \<noteq> r" "parent (h c) = Some p" "ck = get_child_key ps (node_key (h c))"
    using shape_kids [OF assms(1,2)] assms(3) unfolding kids_ok_def by blast+
  then show ?thesis using shape_attached [OF assms(1) k(1,2)] by (auto simp: attached_def)
qed

lemma attached_longer:
  assumes "attached ps r L P V h i p"
  shows "length (P p) + ps \<le> length (P i)"
proof -
  have "ps dvd length (toks h i)" "0 < length (toks h i)" using assms by (auto simp: attached_def)
  then have "ps \<le> length (toks h i)" by (rule dvd_imp_le)
  then show ?thesis using assms by (simp add: attached_def)
qed

text \<open>Ancestors: the chain of parents.\<close>

definition anc :: "(nat \<Rightarrow> tree_node) \<Rightarrow> nat \<Rightarrow> nat \<Rightarrow> bool" where
  "anc h = (\<lambda>p i. parent (h i) = Some p)\<^sup>*\<^sup>*"

lemma anc_refl [simp]: "anc h i i"
  by (simp add: anc_def)

lemma anc_step: "anc h i p \<Longrightarrow> parent (h j) = Some p \<Longrightarrow> anc h i j"
  unfolding anc_def by (rule rtranclp.rtrancl_into_rtrancl)

lemma anc_below: "anc h i j \<Longrightarrow> i \<noteq> j \<Longrightarrow> \<exists>t. parent (h t) = Some i \<and> anc h t j"
  unfolding anc_def by (auto elim: converse_rtranclpE)

lemma anc_above: "anc h i j \<Longrightarrow> i \<noteq> j \<Longrightarrow> \<exists>p. parent (h j) = Some p \<and> anc h i p"
  unfolding anc_def by (auto elim: rtranclp.cases)

lemma shape_up_induct [consumes 2, case_names root step]:
  assumes "shape ps r L P V h" "j \<in> L" "Q r"
    and "\<And>j p. j \<in> L \<Longrightarrow> j \<noteq> r \<Longrightarrow> attached ps r L P V h j p \<Longrightarrow> p \<in> L \<Longrightarrow> Q p \<Longrightarrow> Q j"
  shows "Q j"
  using assms(2)
proof (induction "length (P j)" arbitrary: j rule: less_induct)
  case less
  show ?case
  proof (cases "j = r")
    case False
    then obtain p where p: "attached ps r L P V h j p" using shape_attached assms(1) less.prems by blast
    have "length (P p) < length (P j)" using attached_longer [OF p] assms(1) by (simp add: shape_def)
    then show ?thesis using less.hyps [of p] p assms(4) [OF less.prems False p] by (auto simp: attached_def)
  qed (use assms(3) in simp)
qed

lemma anc_facts:
  assumes s: "shape ps r L P V h" and "j \<in> L" "anc h i j"
  shows "i \<in> L \<and> prefix (P i) (P j) \<and> prefix (V i) (V j) \<and> (i = r \<or> extra h i = extra h j)"
  using s assms(2,3)
proof (induction rule: shape_up_induct)
  case root
  then have "i = r" using anc_above [of h i r] s by (auto simp: shape_def)
  then show ?case using s by (simp add: shape_def)
next
  case (step j p)
  show ?case
  proof (cases "i = j")
    case False
    then have "anc h i p" using anc_above [OF step.prems False] step.hyps(3) by (auto simp: attached_def)
    then have "i \<in> L \<and> prefix (P i) (P p) \<and> prefix (V i) (V p) \<and> (i = r \<or> extra h i = extra h p)" by (rule step.IH)
    moreover have "p \<noteq> r" if "i \<noteq> r"
      using that \<open>anc h i p\<close> anc_above [of h i r] s by (auto simp: shape_def)
    ultimately show ?thesis using step.hyps(3) by (auto simp: attached_def)
  qed (use step in simp)
qed

lemma root_anc: "shape ps r L P V h \<Longrightarrow> j \<in> L \<Longrightarrow> anc h r j"
  by (induction rule: shape_up_induct) (auto simp: attached_def intro: anc_step)

lemma length_V:
  assumes "shape ps r L P V h" "j \<in> L"
  shows "length (V j) = length (P j)"
  using assms
proof (induction rule: shape_up_induct)
  case root
  then show ?case using assms by (simp add: shape_def)
qed (simp add: attached_def)

lemma dvd_P:
  assumes "shape ps r L P V h" "j \<in> L"
  shows "ps dvd length (P j)"
  using assms
proof (induction rule: shape_up_induct)
  case root
  then show ?case using assms by (simp add: shape_def)
qed (simp add: attached_def)

text \<open>A child key identifies the way down: a node whose path agrees with that of \<open>i\<close> up to the first page of the edge
  to \<open>i\<close> lies below \<open>i\<close>.\<close>

lemma child_on_way:
  assumes s: "shape ps r L P V h" and p: "p \<in> L" "anc h p j" "p \<noteq> j" and j: "j \<in> L" "j \<noteq> r"
  shows "\<exists>c. map_of (children (h p)) (extra h j, take ps (drop (length (P p)) (P j))) = Some c \<and> anc h c j \<and> c \<in> L \<and> c \<noteq> r"
proof -
  obtain t where t: "parent (h t) = Some p" "anc h t j" using anc_below [OF p(2,3)] by blast
  have tl: "t \<in> L" "prefix (P t) (P j)" and ex: "t = r \<or> extra h t = extra h j" using anc_facts [OF s j(1) t(2)] by auto
  have "t \<noteq> r" using t(1) s by (auto simp: shape_def)
  then obtain q where q: "attached ps r L P V h t q" using shape_attached [OF s tl(1)] by blast
  then have "q = p" using t(1) by (simp add: attached_def)
  note at = q [unfolded this]
  have l: "length (P p) + ps \<le> length (P t)" by (rule attached_longer [OF at])
  have "take ps (drop (length (P p)) (P j)) = take ps (toks h t)"
  proof -
    obtain zs where "P j = P t @ zs" using tl(2) by (auto simp: prefix_def)
    then show ?thesis using at l by (simp add: attached_def)
  qed
  then have "(extra h j, take ps (drop (length (P p)) (P j))) = get_child_key ps (node_key (h t))"
    using ex \<open>t \<noteq> r\<close> by (simp add: get_child_key_def)
  then show ?thesis using at t(2) tl(1) \<open>t \<noteq> r\<close> by (auto simp: attached_def)
qed

lemma unique_descent:
  assumes s: "shape ps r L P V h" and "i \<in> L"
    and "j \<in> L" "j \<noteq> r" "i \<noteq> r \<Longrightarrow> extra h i = extra h j" "prefix (P i) (P j)"
  shows "anc h i j"
  using s assms(2,5,6)
proof (induction rule: shape_up_induct)
  case root
  show ?case by (rule root_anc [OF s assms(3)])
next
  case (step i p)
  have at: "attached ps r L P V h i p" by (rule step.hyps(3))
  have "prefix (P p) (P i)" using at by (auto simp: attached_def)
  then have pp: "prefix (P p) (P j)" using step.prems(2) by (rule prefix_order.trans)
  have "extra h p = extra h j" if "p \<noteq> r" using that at step.prems(1) step.hyps(2) by (auto simp: attached_def)
  then have "anc h p j" using step.IH pp by blast
  have l: "length (P p) + ps \<le> length (P i)" by (rule attached_longer [OF at])
  moreover have "length (P i) \<le> length (P j)" using step.prems(2) by (rule prefix_length_le)
  moreover have "0 < ps" using s by (simp add: shape_def)
  ultimately have "p \<noteq> j" by auto
  obtain c where c: "map_of (children (h p)) (extra h j, take ps (drop (length (P p)) (P j))) = Some c" "anc h c j"
    using child_on_way [OF s step.hyps(4) \<open>anc h p j\<close> \<open>p \<noteq> j\<close> assms(3,4)] by blast
  obtain zs where zs: "P j = P i @ zs" using step.prems(2) by (auto simp: prefix_def)
  have "get_child_key ps (node_key (h i)) = (extra h j, take ps (drop (length (P p)) (P j)))"
    using at zs l step.prems(1) [OF step.hyps(2)] by (simp add: get_child_key_def attached_def)
  then have "c = i" using at c(1) by (simp add: attached_def)
  then show ?case using c(2) by simp
qed

text \<open>A path that continues behind node \<open>p\<close> continues in the child of its next page.\<close>

lemma descend:
  assumes s: "shape ps r L P V h" and p: "p \<in> L" "p \<noteq> r \<Longrightarrow> extra h p = extra h j" "prefix (P p) (P j)"
    and j: "j \<in> L" "j \<noteq> r" "length (P p) < length (P j)"
  shows "\<exists>c. map_of (children (h p)) (extra h j, take ps (drop (length (P p)) (P j))) = Some c \<and> anc h c j \<and> c \<in> L \<and> c \<noteq> r"
  using child_on_way [OF s p(1) unique_descent [OF s p(1) j(1,2) p(2,3)] _ j(1,2)] j(3) by blast

subsection \<open>Bookkeeping\<close>

definition lock_sum :: "(nat \<Rightarrow> tree_node) \<Rightarrow> nat \<Rightarrow> int" where
  "lock_sum h i = sum_list (map (\<lambda>e. lock_ref (h (snd e))) (children (h i)))"

definition free_tokens :: "(nat \<Rightarrow> tree_node) \<Rightarrow> nat \<Rightarrow> int" where
  "free_tokens h i = (if lock_ref (h i) = 0 then int (length (toks h i)) else 0)"

definition held_tokens :: "(nat \<Rightarrow> tree_node) \<Rightarrow> nat \<Rightarrow> int" where
  "held_tokens h i = (if lock_ref (h i) = 0 then 0 else int (length (toks h i)))"

definition lock_ok :: "(nat \<Rightarrow> nat) \<Rightarrow> (nat \<Rightarrow> tree_node) \<Rightarrow> nat \<Rightarrow> bool" where
  "lock_ok H h i \<longleftrightarrow> 0 \<le> lock_ref (h i) \<and> lock_ref (h i) = int (H i) + lock_sum h i"

definition free_leaf :: "(nat \<Rightarrow> tree_node) \<Rightarrow> nat \<Rightarrow> bool" where
  "free_leaf h i \<longleftrightarrow> lock_ref (h i) = 0 \<and> children (h i) = []"

definition acct :: "nat set \<Rightarrow> (nat \<Rightarrow> nat) \<Rightarrow> radix_cache \<Rightarrow> bool" where
  "acct L H s \<longleftrightarrow> (let r = root_node s; h = nodes s in
     L \<subseteq> {..<counter s} \<and> (\<forall>i. i \<notin> L \<longrightarrow> H i = 0) \<and> 0 < lock_ref (h r)
     \<and> (\<forall>i\<in>L. i \<noteq> r \<longrightarrow> lock_ok H h i)
     \<and> evictable_size s = sum (free_tokens h) (L - {r}) \<and> protected_size s = sum (held_tokens h) (L - {r})
     \<and> evictable_leaves s = {i \<in> L. i \<noteq> r \<and> free_leaf h i})"

definition tree_inv :: "cache_config \<Rightarrow> nat set \<Rightarrow> (nat \<Rightarrow> tok list) \<Rightarrow> (nat \<Rightarrow> int list) \<Rightarrow> (nat \<Rightarrow> nat) \<Rightarrow> radix_cache \<Rightarrow> bool" where
  "tree_inv cf L P V H s \<longleftrightarrow> shape (cache_page_size cf) (root_node s) L P V (nodes s) \<and> acct L H s"

lemmas acct_parts = acct_def Let_def

lemma acctI:
  assumes "L \<subseteq> {..<counter s}" "\<And>i. i \<notin> L \<Longrightarrow> H i = 0" "0 < lock_ref (nodes s (root_node s))"
    and "\<And>i. i \<in> L \<Longrightarrow> i \<noteq> root_node s \<Longrightarrow> lock_ok H (nodes s) i"
    and "evictable_size s = sum (free_tokens (nodes s)) (L - {root_node s})"
    and "protected_size s = sum (held_tokens (nodes s)) (L - {root_node s})"
    and "evictable_leaves s = {i \<in> L. i \<noteq> root_node s \<and> free_leaf (nodes s) i}"
  shows "acct L H s"
  unfolding acct_parts using assms by blast

lemma acctD:
  assumes "acct L H s"
  shows "L \<subseteq> {..<counter s}" "i \<notin> L \<Longrightarrow> H i = 0" "0 < lock_ref (nodes s (root_node s))"
    and "i \<in> L \<Longrightarrow> i \<noteq> root_node s \<Longrightarrow> lock_ok H (nodes s) i"
    and "evictable_size s = sum (free_tokens (nodes s)) (L - {root_node s})"
    and "protected_size s = sum (held_tokens (nodes s)) (L - {root_node s})"
    and "evictable_leaves s = {i \<in> L. i \<noteq> root_node s \<and> free_leaf (nodes s) i}"
  using assms unfolding acct_parts by blast+

lemma tree_invI: "shape (cache_page_size cf) (root_node s) L P V (nodes s) \<Longrightarrow> acct L H s \<Longrightarrow> tree_inv cf L P V H s"
  by (simp add: tree_inv_def)

lemma tree_inv_shape: "tree_inv cf L P V H s \<Longrightarrow> shape (cache_page_size cf) (root_node s) L P V (nodes s)"
  by (simp add: tree_inv_def)

lemma tree_inv_acct: "tree_inv cf L P V H s \<Longrightarrow> acct L H s"
  by (simp add: tree_inv_def)

lemma tree_inv_fresh: "tree_inv cf L P V H s \<Longrightarrow> counter s \<notin> L"
  by (auto simp: tree_inv_def acct_parts)

lemma tree_inv_root: "tree_inv cf L P V H s \<Longrightarrow> root_node s \<in> L"
  by (simp add: tree_inv_def shape_def)

text \<open>Writing access times, priorities and hit counts does not concern the invariant.\<close>

definition same_node :: "tree_node \<Rightarrow> tree_node \<Rightarrow> bool" where
  "same_node x y \<longleftrightarrow> children x = children y \<and> parent x = parent y \<and> node_key x = node_key y
     \<and> node_value x = node_value y \<and> lock_ref x = lock_ref y"

definition same_tree :: "radix_cache \<Rightarrow> radix_cache \<Rightarrow> bool" where
  "same_tree s s' \<longleftrightarrow> (\<forall>i. same_node (nodes s' i) (nodes s i)) \<and> counter s' = counter s \<and> root_node s' = root_node s
     \<and> evictable_size s' = evictable_size s \<and> protected_size s' = protected_size s \<and> evictable_leaves s' = evictable_leaves s"

lemma same_tree_touch:
  assumes "\<And>x. same_node (f x) x"
  shows "same_tree s (upd_node i f s)"
  using assms by (simp add: same_tree_def upd_node_def same_node_def)

lemma same_tree_clock: "same_tree s (snd (read_clock cf s))"
  by (simp add: same_tree_def read_clock_def same_node_def)

lemma same_tree_trans: "same_tree s t \<Longrightarrow> same_tree t u \<Longrightarrow> same_tree s u"
  by (simp add: same_tree_def same_node_def)

lemma same_tree_inv:
  assumes "same_tree s s'" "tree_inv cf L P V H s"
  shows "tree_inv cf L P V H s'"
proof (rule tree_invI)
  have e: "\<And>i. same_node (nodes s' i) (nodes s i)" "root_node s' = root_node s" "counter s' = counter s"
    "evictable_size s' = evictable_size s" "protected_size s' = protected_size s" "evictable_leaves s' = evictable_leaves s"
    using assms(1) by (auto simp: same_tree_def)
  show "shape (cache_page_size cf) (root_node s') L P V (nodes s')"
    using tree_inv_shape [OF assms(2)] e(1) unfolding e(2)
    by (subst shape_cong [of "nodes s'" "nodes s"]) (auto simp: same_node_def)
  have l: "lock_ok H (nodes s') i = lock_ok H (nodes s) i" "free_tokens (nodes s') i = free_tokens (nodes s) i"
    "held_tokens (nodes s') i = held_tokens (nodes s) i" "free_leaf (nodes s') i = free_leaf (nodes s) i" for i
    using e(1) by (simp_all add: lock_ok_def lock_sum_def free_tokens_def held_tokens_def free_leaf_def same_node_def)
  then have "free_tokens (nodes s') = free_tokens (nodes s)" "held_tokens (nodes s') = held_tokens (nodes s)" by auto
  then show "acct L H s'" using tree_inv_acct [OF assms(2)] e l unfolding acct_parts by (simp add: same_node_def)
qed

lemma touch_inv:
  assumes "tree_inv cf L P V H s" "\<And>x. same_node (f x) x"
  shows "tree_inv cf L P V H (upd_node i f s)"
  using same_tree_inv [OF same_tree_touch assms(1)] assms(2) by blast

text \<open>The KV slots held by the tree.\<close>

definition tree_slots :: "nat set \<Rightarrow> (nat \<Rightarrow> tree_node) \<Rightarrow> int multiset" where
  "tree_slots L h = (\<Sum>i\<in>L. mset (node_value (h i)))"

subsection \<open>Splitting a node\<close>

text \<open>The nodes after splitting \<open>c\<close>, a child of \<open>p\<close>, at \<open>k\<close>; \<open>n\<close> is the new node, \<open>x\<close> its fields that do not concern the tree.\<close>

definition split_nodes :: "nat \<Rightarrow> nat \<Rightarrow> nat \<Rightarrow> nat \<Rightarrow> nat \<Rightarrow> tree_node \<Rightarrow> (nat \<Rightarrow> tree_node) \<Rightarrow> nat \<Rightarrow> tree_node" where
  "split_nodes ps n c p k x h =
     h(n := x\<lparr>children := [(get_child_key ps (key_drop k (node_key (h c))), c)], parent := Some p,
              lock_ref := lock_ref (h c), node_key := key_take k (node_key (h c)), node_value := take k (node_value (h c))\<rparr>,
       c := (h c)\<lparr>parent := Some n, node_key := key_drop k (node_key (h c)), node_value := drop k (node_value (h c))\<rparr>,
       p := (h p)\<lparr>children := AList.update (get_child_key ps (node_key (h c))) n (children (h p))\<rparr>)"

lemma split_node_eq:
  assumes "parent (nodes s c) = Some p" "c < counter s" "p < counter s" "p \<noteq> c"
  shows "\<exists>x t. split_node cf (node_key (nodes s c)) c k s =
    Inr (counter s, s\<lparr>nodes := split_nodes (cache_page_size cf) (counter s) c p k x (nodes s), counter := counter s + 1, ticks := t\<rparr>)"
proof -
  define x where "x = (let b = (snd (new_node cf (node_priority (nodes s c)) s)) in
      (nodes b (counter s))\<lparr>hit_count := hit_count (nodes s c)\<rparr>)"
  have "split_node cf (node_key (nodes s c)) c k s =
    Inr (counter s, s\<lparr>nodes := split_nodes (cache_page_size cf) (counter s) c p k x (nodes s), counter := counter s + 1, ticks := ticks s + 2\<rparr>)"
    using assms by (simp add: split_node_def new_node_def read_clock_def upd_node_def split_nodes_def x_def fun_eq_iff Let_def)
  then show ?thesis by blast
qed

lemma split_nodes_simps:
  assumes "n \<noteq> c" "n \<noteq> p" "p \<noteq> c"
  shows "children (split_nodes ps n c p k x h i) = (if i = n then [(get_child_key ps (key_drop k (node_key (h c))), c)]
      else if i = p then AList.update (get_child_key ps (node_key (h c))) n (children (h p)) else children (h i))"
    and "parent (split_nodes ps n c p k x h i) = (if i = n then Some p else if i = c then Some n else parent (h i))"
    and "node_key (split_nodes ps n c p k x h i) = (if i = n then key_take k (node_key (h c))
      else if i = c then key_drop k (node_key (h c)) else node_key (h i))"
    and "node_value (split_nodes ps n c p k x h i) = (if i = n then take k (node_value (h c))
      else if i = c then drop k (node_value (h c)) else node_value (h i))"
    and "lock_ref (split_nodes ps n c p k x h i) = (if i = n then lock_ref (h c) else lock_ref (h i))"
  using assms by (auto simp: split_nodes_def)

lemma split_shape:
  assumes s: "shape ps r L P V h" and c: "c \<in> L" "c \<noteq> r" "attached ps r L P V h c p"
    and k: "0 < k" "k < length (toks h c)" "ps dvd k" and n: "n \<notin> L"
  shows "shape ps r (insert n L) (P(n := P p @ take k (toks h c))) (V(n := V p @ take k (node_value (h c)))) (split_nodes ps n c p k x h)"
    (is "shape ps r ?L ?P ?V ?h")
proof -
  have p: "p \<in> L" and ne: "n \<noteq> c" "n \<noteq> p" "n \<noteq> r" using c n s by (auto simp: attached_def shape_def)
  have pc: "p \<noteq> c" using attached_longer [OF c(3)] s by (auto simp: shape_def)
  note sp = split_nodes_simps [OF ne(1,2) pc]
  have psk: "ps \<le> k" using k(1,3) by (simp add: dvd_imp_le)
  have ckn: "get_child_key ps (key_take k (node_key (h c))) = get_child_key ps (node_key (h c))"
    using psk by (simp add: get_child_key_def key_take_def min_def)
  have mp: "map_of (children (?h p)) = (map_of (children (h p)))(get_child_key ps (node_key (h c)) \<mapsto> n)"
    using ne by (simp add: sp map_of_update)
  have cp: "map_of (children (h p)) (get_child_key ps (node_key (h c))) = Some c" using c(3) by (simp add: attached_def)
  have at: "\<exists>q. attached ps r ?L ?P ?V ?h i q" if i: "i \<in> ?L" "i \<noteq> r" for i
  proof -
    consider "i = n" | "i = c" | "i \<in> L" "i \<noteq> c" "i \<noteq> n" using i by auto
    then show ?thesis
    proof cases
      case 1
      have "attached ps r ?L ?P ?V ?h n p"
        using c(3) p ne pc k mp ckn unfolding attached_def sp by (auto simp: key_take_def)
      then show ?thesis using 1 by blast
    next
      case 2
      have "ps dvd length (toks h c) - k" using c(3) k(3) by (simp add: attached_def dvd_diff_nat)
      then have "attached ps r ?L ?P ?V ?h c n"
        using c(3) ne pc k unfolding attached_def sp by (auto simp: key_take_def key_drop_def)
      then show ?thesis using 2 by blast
    next
      case 3
      obtain q where q: "attached ps r L P V h i q" using shape_attached [OF s 3(1) i(2)] by blast
      have "map_of (children (?h q)) (get_child_key ps (node_key (h i))) = Some i"
      proof (cases "q = p")
        case True
        have "get_child_key ps (node_key (h i)) \<noteq> get_child_key ps (node_key (h c))"
          using q cp 3(2) True by (auto simp: attached_def)
        then show ?thesis using q mp True by (simp add: attached_def)
      next
        case False
        moreover have "q \<noteq> n" using q n by (auto simp: attached_def)
        ultimately show ?thesis using q by (simp add: sp attached_def)
      qed
      moreover have "q \<noteq> n" "q \<in> L" using q n by (auto simp: attached_def)
      ultimately have "attached ps r ?L ?P ?V ?h i q"
        using q 3 pc ne unfolding attached_def sp by (auto simp: key_drop_def)
      then show ?thesis by blast
    qed
  qed
  have kid: "kids_ok ps r ?L ?h q" if q: "q \<in> ?L" for q
  proof -
    consider "q = n" | "q = p" | "q \<in> L" "q \<noteq> p" "q \<noteq> n" using q by auto
    then show ?thesis
    proof cases
      case 1
      then show ?thesis using c ne unfolding kids_ok_def sp by auto
    next
      case 2
      have ko: "kids_ok ps r L h p" by (rule shape_kids [OF s p])
      then have "distinct (map fst (children (?h p)))" using ne by (simp add: sp kids_ok_def distinct_update)
      moreover have "d \<in> ?L \<and> d \<noteq> r \<and> parent (?h d) = Some p \<and> ck = get_child_key ps (node_key (?h d))"
        if d: "map_of (children (?h p)) ck = Some d" for ck d
      proof (cases "ck = get_child_key ps (node_key (h c))")
        case True
        then have "d = n" using d mp by simp
        then show ?thesis using True ne ckn by (simp add: sp)
      next
        case False
        then have md: "map_of (children (h p)) ck = Some d" using d mp by simp
        then have dd: "d \<in> L" "d \<noteq> r" "parent (h d) = Some p" "ck = get_child_key ps (node_key (h d))"
          using ko unfolding kids_ok_def by blast+
        then show ?thesis using False n by (auto simp: sp)
      qed
      ultimately show ?thesis using 2 by (simp add: kids_ok_def)
    next
      case 3
      have ko: "kids_ok ps r L h q" by (rule shape_kids [OF s 3(1)])
      have ch: "children (?h q) = children (h q)" using 3 by (simp add: sp)
      have "d \<in> ?L \<and> d \<noteq> r \<and> parent (?h d) = Some q \<and> ck = get_child_key ps (node_key (?h d))"
        if "map_of (children (h q)) ck = Some d" for ck d
      proof -
        have dd: "d \<in> L" "d \<noteq> r" "parent (h d) = Some q" "ck = get_child_key ps (node_key (h d))"
          using ko that unfolding kids_ok_def by blast+
        then have "d \<noteq> c" using 3(2) c(3) by (auto simp: attached_def)
        then show ?thesis using dd n by (auto simp: sp)
      qed
      then show ?thesis using ko ch by (simp add: kids_ok_def)
    qed
  qed
  have "parent (?h r) = None" "node_value (?h r) = []" using s c ne by (simp_all add: sp shape_def)
  moreover have "0 < ps" "finite ?L" "r \<in> ?L" "?P r = []" "?V r = []" using s ne by (auto simp: shape_def)
  ultimately show ?thesis unfolding shape_def using at kid by blast
qed

lemma kid_in: "shape ps r L P V h \<Longrightarrow> p \<in> L \<Longrightarrow> e \<in> set (children (h p)) \<Longrightarrow> snd e \<in> L"
  using shape_kids [of ps r L P V h p] by (cases e) (auto simp: kids_ok_def)

lemma lock_sum_same:
  assumes "children (h' i) = children (h i)" "\<And>e. e \<in> set (children (h i)) \<Longrightarrow> lock_ref (h' (snd e)) = lock_ref (h (snd e))"
  shows "lock_sum h' i = lock_sum h i"
  using assms by (auto simp: lock_sum_def intro!: arg_cong [of _ _ sum_list])

lemma sum_split_node:
  fixes f g :: "nat \<Rightarrow> int"
  assumes "finite A" "c \<in> A" "n \<notin> A" "g n + g c = f c" "\<And>i. i \<in> A \<Longrightarrow> i \<noteq> c \<Longrightarrow> g i = f i"
  shows "sum g (insert n A) = sum f A"
proof -
  have "sum g A = g c + sum g (A - {c})" "sum f A = f c + sum f (A - {c})" using assms(1,2) by (simp_all add: sum.remove)
  moreover have "sum g (A - {c}) = sum f (A - {c})" using assms(5) by (intro sum.cong) auto
  ultimately show ?thesis using assms(1,3,4) by simp
qed

lemma update_nonempty [simp]: "AList.update k v al \<noteq> []"
  by (cases al) (auto split: prod.splits)

lemma split_acct:
  assumes inv: "tree_inv cf L P V H s" and c: "c \<in> L" "c \<noteq> root_node s" "attached ps (root_node s) L P V (nodes s) c p"
    and k: "0 < k" "k < length (toks (nodes s) c)" and ps: "ps = cache_page_size cf"
  shows "acct (insert (counter s) L) H
    (s\<lparr>nodes := split_nodes ps (counter s) c p k x (nodes s), counter := counter s + 1, ticks := t\<rparr>)"
proof -
  let ?r = "root_node s" and ?n = "counter s" and ?h = "nodes s" and ?L = "insert (counter s) L"
  define h' where "h' = split_nodes ps ?n c p k x ?h"
  have s: "shape ps ?r L P V ?h" and a: "acct L H s" using inv ps by (simp_all add: tree_inv_def)
  have nL: "?n \<notin> L" by (rule tree_inv_fresh [OF inv])
  have p: "p \<in> L" and ne: "?n \<noteq> c" "?n \<noteq> p" "?n \<noteq> ?r" using c nL s by (auto simp: attached_def shape_def)
  have pc: "p \<noteq> c" using attached_longer [OF c(3)] s by (auto simp: shape_def)
  note sp = split_nodes_simps [OF ne(1,2) pc, of ps k x ?h, folded h'_def]
  have lk: "lock_ref (h' j) = lock_ref (?h j)" if "j \<in> L" for j using that nL sp(5) by auto
  have cp: "map_of (children (?h p)) (get_child_key ps (node_key (?h c))) = Some c" using c(3) by (simp add: attached_def)
  have "lock_ok H h' i" if i: "i \<in> ?L" "i \<noteq> ?r" for i
  proof -
    have old: "lock_ok H ?h j" if "j \<in> L" "j \<noteq> ?r" for j using a that by (simp add: acct_parts)
    consider "i = ?n" | "i = p" | "i \<in> L" "i \<noteq> p" "i \<noteq> ?n" using i by auto
    then show ?thesis
    proof cases
      case 1
      have "lock_sum h' ?n = lock_ref (?h c)" using ne(1) by (simp add: lock_sum_def sp)
      moreover have "H ?n = 0" using a nL by (simp add: acct_parts)
      ultimately show ?thesis using 1 old [OF c(1,2)] sp(5) [of ?n] by (simp add: lock_ok_def)
    next
      case 2
      have "lock_sum h' p + lock_ref (h' c) = sum_list (map (\<lambda>e. lock_ref (h' (snd e))) (children (?h p))) + lock_ref (h' ?n)"
        using sum_update [OF cp, of "\<lambda>j. lock_ref (h' j)" ?n] ne(2) sp(1) [of p] by (simp add: lock_sum_def)
      moreover have "sum_list (map (\<lambda>e. lock_ref (h' (snd e))) (children (?h p))) = lock_sum ?h p"
        unfolding lock_sum_def using lk kid_in [OF s p] by (intro arg_cong [of _ _ sum_list]) auto
      ultimately have "lock_sum h' p = lock_sum ?h p" using sp(5) [of ?n] sp(5) [of c] ne(1) by simp
      then show ?thesis using 2 old [OF p] i(2) lk [OF p] by (simp add: lock_ok_def)
    next
      case 3
      have "lock_sum h' i = lock_sum ?h i"
        using sp(1) [of i] 3 lk kid_in [OF s 3(1)] by (intro lock_sum_same) auto
      then show ?thesis using old [OF 3(1) i(2)] lk [OF 3(1)] by (simp add: lock_ok_def)
    qed
  qed
  moreover have sets: "?L - {?r} = insert ?n (L - {?r})" using ne(3) by auto
  have fin: "finite (L - {?r})" "c \<in> L - {?r}" "?n \<notin> L - {?r}" using s c nL by (auto simp: shape_def)
  have tk: "toks h' i = (if i = ?n then take k (toks ?h c) else if i = c then drop k (toks ?h c) else toks ?h i)" for i
    using sp(3) [of i] by (simp add: key_take_def key_drop_def)
  have "sum (free_tokens h') (?L - {?r}) = sum (free_tokens ?h) (L - {?r})" unfolding sets
    by (rule sum_split_node [OF fin]) (use k ne nL in \<open>auto simp: free_tokens_def tk sp(5)\<close>)
  moreover have "sum (held_tokens h') (?L - {?r}) = sum (held_tokens ?h) (L - {?r})" unfolding sets
    by (rule sum_split_node [OF fin]) (use k ne nL in \<open>auto simp: held_tokens_def tk sp(5)\<close>)
  moreover have "{i \<in> ?L. i \<noteq> ?r \<and> free_leaf h' i} = {i \<in> L. i \<noteq> ?r \<and> free_leaf ?h i}"
  proof -
    have "\<not> free_leaf h' ?n" "\<not> free_leaf h' p" "\<not> free_leaf ?h p"
      using sp(1) [of ?n] sp(1) [of p] ne cp by (auto simp: free_leaf_def)
    moreover have "free_leaf h' i = free_leaf ?h i" if "i \<in> L" "i \<noteq> p" for i
      using that sp(1) [of i] lk [OF that(1)] nL by (auto simp: free_leaf_def)
    ultimately show ?thesis by blast
  qed
  moreover have "0 < lock_ref (h' ?r)" "?L \<subseteq> {..<?n + 1}" "\<forall>i. i \<notin> ?L \<longrightarrow> H i = 0"
    using a lk [of ?r] s by (auto simp: acct_parts shape_def)
  ultimately show ?thesis using a unfolding acct_parts h'_def [symmetric] by simp
qed

lemma split_slots:
  assumes "finite L" "c \<in> L" "n \<notin> L" "n \<noteq> p" "p \<noteq> c"
  shows "tree_slots (insert n L) (split_nodes ps n c p k x h) = tree_slots L h"
proof -
  let ?h = "split_nodes ps n c p k x h"
  have v: "node_value (?h i) = (if i = n then take k (node_value (h c)) else if i = c then drop k (node_value (h c)) else node_value (h i))" for i
    using assms by (intro split_nodes_simps(4)) auto
  have "(\<Sum>i\<in>L. mset (node_value (?h i))) = mset (drop k (node_value (h c))) + (\<Sum>i\<in>L - {c}. mset (node_value (?h i)))"
    using sum.remove [OF assms(1,2), of "\<lambda>i. mset (node_value (?h i))"] assms(2,3) v by auto
  also have "(\<Sum>i\<in>L - {c}. mset (node_value (?h i))) = (\<Sum>i\<in>L - {c}. mset (node_value (h i)))"
    using assms(3) v by (intro sum.cong) auto
  finally have a: "(\<Sum>i\<in>L. mset (node_value (?h i))) = mset (drop k (node_value (h c))) + (\<Sum>i\<in>L - {c}. mset (node_value (h i)))" .
  have "(\<Sum>i\<in>insert n L. mset (node_value (?h i))) = mset (take k (node_value (h c))) + (\<Sum>i\<in>L. mset (node_value (?h i)))"
    using assms(1,3) v by simp
  also have "\<dots> = mset (take k (node_value (h c)) @ drop k (node_value (h c))) + (\<Sum>i\<in>L - {c}. mset (node_value (h i)))"
    unfolding a by (simp only: mset_append add.assoc)
  also have "\<dots> = (\<Sum>i\<in>L. mset (node_value (h i)))"
    using sum.remove [OF assms(1,2), of "\<lambda>i. mset (node_value (h i))"] by simp
  finally show ?thesis by (simp add: tree_slots_def)
qed

text \<open>What the walks down the tree use of a split.\<close>

lemma split_inv:
  assumes inv: "tree_inv cf L P V H s" and c: "c \<in> L" "c \<noteq> root_node s" "attached (cache_page_size cf) (root_node s) L P V (nodes s) c p"
    and k: "0 < k" "k < length (toks (nodes s) c)" "cache_page_size cf dvd k"
  obtains s' where "split_node cf (node_key (nodes s c)) c k s = Inr (counter s, s')"
    and "tree_inv cf (insert (counter s) L) (P(counter s := P p @ take k (toks (nodes s) c)))
          (V(counter s := V p @ take k (node_value (nodes s c)))) H s'"
    and "root_node s' = root_node s" "counter s' = counter s + 1"
    and "extra (nodes s') (counter s) = extra (nodes s) c" "\<And>i. i \<in> L \<Longrightarrow> extra (nodes s') i = extra (nodes s) i"
    and "node_value (nodes s' (counter s)) = take k (node_value (nodes s c))"
    and "tree_slots (insert (counter s) L) (nodes s') = tree_slots L (nodes s)"
proof -
  let ?n = "counter s" and ?ps = "cache_page_size cf"
  have s: "shape ?ps (root_node s) L P V (nodes s)" using inv by (rule tree_inv_shape)
  have nL: "?n \<notin> L" by (rule tree_inv_fresh [OF inv])
  have p: "p \<in> L" "parent (nodes s c) = Some p" using c(3) by (auto simp: attached_def)
  have pc: "p \<noteq> c" using attached_longer [OF c(3)] s by (auto simp: shape_def)
  have "c < counter s" "p < counter s" using inv c(1) p by (auto simp: tree_inv_def acct_parts)
  then obtain x t where eq: "split_node cf (node_key (nodes s c)) c k s =
      Inr (?n, s\<lparr>nodes := split_nodes ?ps ?n c p k x (nodes s), counter := ?n + 1, ticks := t\<rparr>)"
    using split_node_eq [OF p(2) _ _ pc] by blast
  let ?s = "s\<lparr>nodes := split_nodes ?ps ?n c p k x (nodes s), counter := ?n + 1, ticks := t\<rparr>"
  have "tree_inv cf (insert ?n L) (P(?n := P p @ take k (toks (nodes s) c))) (V(?n := V p @ take k (node_value (nodes s c)))) H ?s"
    using split_shape [OF s c k nL] split_acct [OF inv c k(1,2) refl] by (intro tree_invI) simp_all
  moreover have "?n \<noteq> c" "?n \<noteq> p" using nL c p by auto
  then have "extra (nodes ?s) ?n = extra (nodes s) c" "extra (nodes ?s) i = extra (nodes s) i" if "i \<in> L" for i
    using split_nodes_simps(3) [OF _ _ pc, of ?n] that nL by (auto simp: key_take_def key_drop_def)
  moreover have "node_value (nodes ?s ?n) = take k (node_value (nodes s c))"
    using split_nodes_simps(4) [OF \<open>?n \<noteq> c\<close> \<open>?n \<noteq> p\<close> pc] by simp
  moreover have "extra (nodes ?s) ?n = extra (nodes s) c"
    using split_nodes_simps(3) [OF \<open>?n \<noteq> c\<close> \<open>?n \<noteq> p\<close> pc] by (simp add: key_take_def)
  moreover have "tree_slots (insert ?n L) (nodes ?s) = tree_slots L (nodes s)"
    using split_slots [of L c ?n p ?ps k x "nodes s"] s c(1) nL \<open>?n \<noteq> p\<close> pc by (simp add: shape_def)
  ultimately show thesis using that [OF eq] by simp
qed

subsection \<open>Adding and removing a leaf\<close>

lemma add_shape:
  assumes s: "shape ps r L P V h" and p: "p \<in> L" "p = r \<or> extra h p = extra_key key"
    and key: "token_ids key \<noteq> []" "ps dvd key_len key" "length val = key_len key"
    and new: "map_of (children (h p)) (get_child_key ps key) = None" and n: "n \<notin> L"
    and hn: "children (h' n) = []" "parent (h' n) = Some p" "node_key (h' n) = key" "node_value (h' n) = val"
    and hp: "children (h' p) = AList.update (get_child_key ps key) n (children (h p))"
    and ho: "\<And>i. i \<in> L \<Longrightarrow> i \<noteq> p \<Longrightarrow> children (h' i) = children (h i)"
    and hk: "\<And>i. i \<in> L \<Longrightarrow> parent (h' i) = parent (h i) \<and> node_key (h' i) = node_key (h i) \<and> node_value (h' i) = node_value (h i)"
  shows "shape ps r (insert n L) (P(n := P p @ token_ids key)) (V(n := V p @ val)) h'" (is "shape ps r ?L ?P ?V h'")
proof -
  have ne: "n \<noteq> p" "n \<noteq> r" "r \<in> L" using p n s by (auto simp: shape_def)
  have mp: "map_of (children (h' p)) = (map_of (children (h p)))(get_child_key ps key \<mapsto> n)" by (simp add: hp map_of_update)
  have at: "\<exists>q. attached ps r ?L ?P ?V h' i q" if i: "i \<in> ?L" "i \<noteq> r" for i
  proof (cases "i = n")
    case True
    have "attached ps r ?L ?P ?V h' n p"
      using p ne key mp hn hk [OF p(1)] unfolding attached_def by auto
    then show ?thesis using True by blast
  next
    case False
    then have iL: "i \<in> L" using i by simp
    obtain q where q: "attached ps r L P V h i q" using shape_attached [OF s iL i(2)] by blast
    have qL: "q \<in> L" using q by (simp add: attached_def)
    have "map_of (children (h' q)) (get_child_key ps (node_key (h i))) = Some i"
    proof (cases "q = p")
      case True
      have "get_child_key ps (node_key (h i)) \<noteq> get_child_key ps key" using q new True by (auto simp: attached_def)
      then show ?thesis using q mp True by (simp add: attached_def)
    qed (use q ho [OF qL] in \<open>simp add: attached_def\<close>)
    then have "attached ps r ?L ?P ?V h' i q"
      using q hk [OF iL] hk [OF qL] False n qL unfolding attached_def by auto
    then show ?thesis by blast
  qed
  have kid: "kids_ok ps r ?L h' q" if q: "q \<in> ?L" for q
  proof (cases "q = n")
    case True
    then show ?thesis using hn by (simp add: kids_ok_def)
  next
    case False
    then have qL: "q \<in> L" using q by simp
    have ko: "kids_ok ps r L h q" by (rule shape_kids [OF s qL])
    have d: "distinct (map fst (children (h' q)))" using ko hp ho [OF qL] by (cases "q = p") (simp_all add: kids_ok_def distinct_update)
    have "d \<in> ?L \<and> d \<noteq> r \<and> parent (h' d) = Some q \<and> ck = get_child_key ps (node_key (h' d))"
      if md: "map_of (children (h' q)) ck = Some d" for ck d
    proof (cases "q = p \<and> ck = get_child_key ps key")
      case True
      then have "d = n" using md mp by simp
      then show ?thesis using True ne hn by simp
    next
      case False
      then have "map_of (children (h q)) ck = Some d" using md mp ho [OF qL] by (cases "q = p") auto
      then have dd: "d \<in> L" "d \<noteq> r" "parent (h d) = Some q" "ck = get_child_key ps (node_key (h d))"
        using ko unfolding kids_ok_def by blast+
      then show ?thesis using hk [OF dd(1)] by simp
    qed
    then show ?thesis using d by (simp add: kids_ok_def)
  qed
  have "parent (h' r) = None" "node_value (h' r) = []" using s hk [OF ne(3)] by (simp_all add: shape_def)
  moreover have "0 < ps" "finite ?L" "r \<in> ?L" "?P r = []" "?V r = []" using s ne by (auto simp: shape_def)
  ultimately show ?thesis unfolding shape_def using at kid by blast
qed

lemma delete_shape:
  assumes s: "shape ps r L P V h" and c: "c \<in> L" "c \<noteq> r" "attached ps r L P V h c p" "children (h c) = []"
    and hp: "children (h' p) = AList.delete (get_child_key ps (node_key (h c))) (children (h p))"
    and ho: "\<And>i. i \<noteq> p \<Longrightarrow> children (h' i) = children (h i)"
    and hk: "\<And>i. parent (h' i) = parent (h i) \<and> node_key (h' i) = node_key (h i) \<and> node_value (h' i) = node_value (h i)"
  shows "shape ps r (L - {c}) P V h'" (is "shape ps r ?L P V h'")
proof -
  have mp: "map_of (children (h' p)) = (map_of (children (h p)))(get_child_key ps (node_key (h c)) := None)"
    by (simp add: hp map_of_delete)
  have cp: "map_of (children (h p)) (get_child_key ps (node_key (h c))) = Some c" using c(3) by (simp add: attached_def)
  have at: "\<exists>q. attached ps r ?L P V h' i q" if i: "i \<in> ?L" "i \<noteq> r" for i
  proof -
    have iL: "i \<in> L" "i \<noteq> c" using i by auto
    obtain q where q: "attached ps r L P V h i q" using shape_attached [OF s iL(1) i(2)] by blast
    then have m: "map_of (children (h q)) (get_child_key ps (node_key (h i))) = Some i" and "q \<in> L" by (auto simp: attached_def)
    then have "q \<noteq> c" using c(4) by auto
    have "get_child_key ps (node_key (h i)) \<noteq> get_child_key ps (node_key (h c))" if "q = p" using m cp iL(2) that by auto
    then have "map_of (children (h' q)) (get_child_key ps (node_key (h i))) = Some i"
      using m mp ho [of q] by (cases "q = p") auto
    then have "attached ps r ?L P V h' i q" using q hk \<open>q \<noteq> c\<close> unfolding attached_def by auto
    then show ?thesis by blast
  qed
  have kid: "kids_ok ps r ?L h' q" if q: "q \<in> ?L" for q
  proof -
    have qL: "q \<in> L" using q by simp
    have ko: "kids_ok ps r L h q" by (rule shape_kids [OF s qL])
    have d: "distinct (map fst (children (h' q)))" using ko hp ho [of q] by (cases "q = p") (simp_all add: kids_ok_def distinct_delete)
    have "d \<in> ?L \<and> d \<noteq> r \<and> parent (h' d) = Some q \<and> ck = get_child_key ps (node_key (h' d))"
      if md: "map_of (children (h' q)) ck = Some d" for ck d
    proof -
      have old: "map_of (children (h q)) ck = Some d" using md mp ho [of q] by (cases "q = p") (auto split: if_splits)
      then have dd: "d \<in> L" "d \<noteq> r" "parent (h d) = Some q" "ck = get_child_key ps (node_key (h d))"
        using ko unfolding kids_ok_def by blast+
      have "d \<noteq> c"
      proof
        assume "d = c"
        then have "q = p" using dd(3) c(3) by (simp add: attached_def)
        then show False using md mp dd(4) \<open>d = c\<close> by simp
      qed
      then show ?thesis using dd hk by simp
    qed
    then show ?thesis using d by (simp add: kids_ok_def)
  qed
  have "parent (h' r) = None" "node_value (h' r) = []" using s hk by (simp_all add: shape_def)
  moreover have "0 < ps" "finite ?L" "r \<in> ?L" "P r = []" "V r = []" using s c by (auto simp: shape_def)
  ultimately show ?thesis unfolding shape_def using at kid by blast
qed

text \<open>\<^verbatim>\<open>_update_leaf_status\<close> decides the membership of one node.\<close>

lemma update_leaf_status_eq:
  "0 \<le> lock_ref (nodes s i) \<Longrightarrow> update_leaf_status i s
    = s\<lparr>evictable_leaves := (if free_leaf (nodes s) i then insert i (evictable_leaves s) else evictable_leaves s - {i})\<rparr>"
  by (auto simp: update_leaf_status_def free_leaf_def)

lemma add_leaf_inv:
  assumes inv: "tree_inv cf L P V H s" and p: "p \<in> L" "p = root_node s \<or> extra (nodes s) p = extra_key key"
    and key: "token_ids key \<noteq> []" "cache_page_size cf dvd key_len key" "length val = key_len key"
    and new: "map_of (children (nodes s p)) (get_child_key (cache_page_size cf) key) = None"
  shows "tree_inv cf (insert (counter s) L) (P(counter s := P p @ token_ids key)) (V(counter s := V p @ val)) H
      (add_leaf cf prio chunked p key val s)"
    and "root_node (add_leaf cf prio chunked p key val s) = root_node s"
    and "extra (nodes (add_leaf cf prio chunked p key val s)) (counter s) = extra_key key"
    and "i \<in> L \<Longrightarrow> extra (nodes (add_leaf cf prio chunked p key val s)) i = extra (nodes s) i"
    and "tree_slots (insert (counter s) L) (nodes (add_leaf cf prio chunked p key val s)) = tree_slots L (nodes s) + mset val"
proof -
  let ?ps = "cache_page_size cf" and ?n = "counter s" and ?r = "root_node s" and ?h = "nodes s"
  have s: "shape ?ps ?r L P V ?h" and a: "acct L H s" using inv by (simp_all add: tree_inv_def)
  have nL: "?n \<notin> L" by (rule tree_inv_fresh [OF inv])
  have ne: "?n \<noteq> p" "?n \<noteq> ?r" using p nL s by (auto simp: shape_def)
  define s4 where "s4 = (let (n, s1) = new_node cf prio s;
          s2 = upd_node n (\<lambda>x. inc_hit_count chunked (x\<lparr>parent := Some p, node_key := key, node_value := val\<rparr>)) s1;
          s3 = upd_node p (\<lambda>x. x\<lparr>children := AList.update (child_key_fn cf key) n (children x)\<rparr>) s2
      in s3\<lparr>evictable_size := evictable_size s3 + int (key_len key)\<rparr>)"
  define h' where "h' = nodes s4"
  have al: "add_leaf cf prio chunked p key val s = update_leaf_status ?n (update_leaf_status p s4)"
    by (simp add: add_leaf_def s4_def new_node_def read_clock_def upd_node_def Let_def)
  have fields: "root_node s4 = ?r" "counter s4 = ?n + 1" "evictable_size s4 = evictable_size s + int (key_len key)"
    "protected_size s4 = protected_size s" "evictable_leaves s4 = evictable_leaves s"
    by (simp_all add: s4_def new_node_def read_clock_def upd_node_def Let_def)
  have hn: "children (h' ?n) = []" "parent (h' ?n) = Some p" "node_key (h' ?n) = key" "node_value (h' ?n) = val" "lock_ref (h' ?n) = 0"
    and hp: "children (h' p) = AList.update (get_child_key ?ps key) ?n (children (?h p))"
    and ho: "\<And>i. i \<noteq> ?n \<Longrightarrow> i \<noteq> p \<Longrightarrow> children (h' i) = children (?h i)"
    and hk: "\<And>i. i \<noteq> ?n \<Longrightarrow> parent (h' i) = parent (?h i) \<and> node_key (h' i) = node_key (?h i) \<and> node_value (h' i) = node_value (?h i)
        \<and> lock_ref (h' i) = lock_ref (?h i)"
    using ne by (auto simp: h'_def s4_def new_node_def read_clock_def upd_node_def Let_def inc_hit_count_def)
  have inL: "i \<noteq> ?n" if "i \<in> L" for i using that nL by auto
  have shp: "shape ?ps ?r (insert ?n L) (P(?n := P p @ token_ids key)) (V(?n := V p @ val)) h'"
    by (rule add_shape [OF s p key new nL hn(1-4) hp]) (use ho hk inL in auto)
  have lk: "lock_ref (h' i) = lock_ref (?h i)" if "i \<in> L" for i using hk [OF inL [OF that]] by simp
  have old: "lock_ok H ?h i" if "i \<in> L" "i \<noteq> ?r" for i using a that by (simp add: acct_parts)
  have ls: "lock_sum h' i = lock_sum ?h i" if i: "i \<in> L" for i
  proof (cases "i = p")
    case True
    have "lock_sum h' p = sum_list (map (\<lambda>e. lock_ref (h' (snd e))) (children (?h p))) + lock_ref (h' ?n)"
      using sum_update_new [OF new, of "\<lambda>j. lock_ref (h' j)" ?n] by (simp add: lock_sum_def hp)
    moreover have "sum_list (map (\<lambda>e. lock_ref (h' (snd e))) (children (?h p))) = lock_sum ?h p"
      unfolding lock_sum_def using lk kid_in [OF s p(1)] by (intro arg_cong [of _ _ sum_list]) auto
    ultimately show ?thesis using True hn(5) by simp
  next
    case False
    then show ?thesis using ho [OF inL [OF i] False] lk kid_in [OF s i] by (intro lock_sum_same) auto
  qed
  have "H ?n = 0" using a nL by (simp add: acct_parts)
  then have "lock_ok H h' ?n" by (simp add: lock_ok_def lock_sum_def hn)
  then have lo: "lock_ok H h' i" if "i \<in> insert ?n L" "i \<noteq> ?r" for i
    using that old [of i] lk [of i] ls [of i] by (auto simp: lock_ok_def)
  have nn: "0 \<le> lock_ref (h' p)" using old [OF p(1)] lk [OF p(1)] a p(1) by (cases "p = ?r") (auto simp: lock_ok_def acct_parts)
  have fp: "\<not> free_leaf h' p" "free_leaf h' ?n" using hp hn by (simp_all add: free_leaf_def)
  let ?s = "add_leaf cf prio chunked p key val s"
  have eq: "?s = s4\<lparr>evictable_leaves := insert ?n (evictable_leaves s - {p})\<rparr>"
  proof -
    have "update_leaf_status p s4 = s4\<lparr>evictable_leaves := evictable_leaves s - {p}\<rparr>"
      using update_leaf_status_eq [of s4 p] nn fp fields by (simp add: h'_def)
    then show ?thesis unfolding al using update_leaf_status_eq [of "s4\<lparr>evictable_leaves := evictable_leaves s - {p}\<rparr>" ?n] fp hn(5)
      by (simp add: h'_def)
  qed
  have sets: "insert ?n L - {?r} = insert ?n (L - {?r})" "finite (L - {?r})" "?n \<notin> L - {?r}"
    using ne s nL by (auto simp: shape_def)
  have ft: "free_tokens h' i = free_tokens ?h i" "held_tokens h' i = held_tokens ?h i" if "i \<in> L" for i
    using hk [OF inL [OF that]] by (simp_all add: free_tokens_def held_tokens_def)
  have sz: "sum (free_tokens h') (insert ?n L - {?r}) = sum (free_tokens ?h) (L - {?r}) + int (key_len key)"
    "sum (held_tokens h') (insert ?n L - {?r}) = sum (held_tokens ?h) (L - {?r})"
    unfolding sets(1) using sets(2,3) ft hn by (simp_all add: free_tokens_def [of _ ?n] held_tokens_def [of _ ?n])
  have lv: "{i \<in> insert ?n L. i \<noteq> ?r \<and> free_leaf h' i} = insert ?n (evictable_leaves s - {p})"
  proof -
    have "free_leaf h' i = free_leaf ?h i" if "i \<in> L" "i \<noteq> p" for i
      using ho [OF inL [OF that(1)] that(2)] lk [OF that(1)] by (simp add: free_leaf_def)
    then show ?thesis using fp ne a by (auto simp: acct_parts)
  qed
  have "acct (insert ?n L) H ?s"
  proof (rule acctI)
    have e: "nodes ?s = h'" "root_node ?s = ?r" "counter ?s = ?n + 1" by (simp_all add: eq h'_def fields)
    show "insert ?n L \<subseteq> {..<counter ?s}" using acctD(1) [OF a] e by auto
    show "H i = 0" if "i \<notin> insert ?n L" for i using acctD(2) [OF a] that by blast
    show "0 < lock_ref (nodes ?s (root_node ?s))" using acctD(3) [OF a] lk [of ?r] s e by (simp add: shape_def)
    show "lock_ok H (nodes ?s) i" if "i \<in> insert ?n L" "i \<noteq> root_node ?s" for i using lo that e by simp
    show "evictable_size ?s = sum (free_tokens (nodes ?s)) (insert ?n L - {root_node ?s})"
      unfolding e sz(1) by (simp add: eq fields acctD(5) [OF a])
    show "protected_size ?s = sum (held_tokens (nodes ?s)) (insert ?n L - {root_node ?s})"
      unfolding e sz(2) by (simp add: eq fields acctD(6) [OF a])
    show "evictable_leaves ?s = {i \<in> insert ?n L. i \<noteq> root_node ?s \<and> free_leaf (nodes ?s) i}"
      unfolding e lv by (simp add: eq)
  qed
  then show "tree_inv cf (insert ?n L) (P(?n := P p @ token_ids key)) (V(?n := V p @ val)) H ?s"
    by (intro tree_invI) (use shp fields in \<open>simp_all add: eq h'_def\<close>)
  show "root_node ?s = ?r" by (simp add: eq fields)
  show "extra (nodes ?s) ?n = extra_key key" using hn by (simp add: eq h'_def)
  show "extra (nodes ?s) i = extra ?h i" if "i \<in> L" using hk [OF inL [OF that]] by (simp add: eq h'_def)
  have "(\<Sum>i\<in>L. mset (node_value (h' i))) = (\<Sum>i\<in>L. mset (node_value (?h i)))" using hk inL by (intro sum.cong) auto
  then show "tree_slots (insert ?n L) (nodes ?s) = tree_slots L ?h + mset val"
    using sets nL hn(4) s by (simp add: tree_slots_def eq h'_def [symmetric] shape_def)
qed

text \<open>Removing an evictable leaf. Only the children of its parent change.\<close>

lemma delete_leaf_inv:
  assumes inv: "tree_inv cf L P V H s" and c: "c \<in> L" "c \<noteq> root_node s" "free_leaf (nodes s) c"
  obtains p s' where "attached (cache_page_size cf) (root_node s) L P V (nodes s) c p" "delete_leaf cf c s = Inr s'"
    and "tree_inv cf (L - {c}) P V H s'" "root_node s' = root_node s" "counter s' = counter s"
    and "\<And>i. children (nodes s' i) = (if i = p then AList.delete (child_key_fn cf (node_key (nodes s c))) (children (nodes s p)) else children (nodes s i))"
    and "\<And>i. nodes s' i = (nodes s i)\<lparr>children := children (nodes s' i)\<rparr>"
proof -
  let ?ps = "cache_page_size cf" and ?r = "root_node s" and ?h = "nodes s"
  have s: "shape ?ps ?r L P V ?h" and a: "acct L H s" using inv by (simp_all add: tree_inv_def)
  obtain p where at: "attached ?ps ?r L P V ?h c p" using shape_attached [OF s c(1,2)] by blast
  have p: "p \<in> L" "parent (?h c) = Some p" and cp: "map_of (children (?h p)) (get_child_key ?ps (node_key (?h c))) = Some c"
    using at by (auto simp: attached_def)
  have pc: "p \<noteq> c" using attached_longer [OF at] s by (auto simp: shape_def)
  let ?ck = "get_child_key ?ps (node_key (?h c))"
  define h' where "h' = ?h(p := (?h p)\<lparr>children := AList.delete ?ck (children (?h p))\<rparr>)"
  define s1 where "s1 = s\<lparr>nodes := h', evictable_size := evictable_size s - int (length (toks ?h c)),
      evictable_leaves := evictable_leaves s - {c}\<rparr>"
  define s' where "s' = update_leaf_status p s1"
  have del: "delete_leaf cf c s = Inr s'"
    using p cp by (simp add: delete_leaf_def s'_def s1_def h'_def upd_node_def Let_def)
  have h'i: "\<And>i. children (h' i) = (if i = p then AList.delete ?ck (children (?h p)) else children (?h i))"
    "\<And>i. h' i = (?h i)\<lparr>children := children (h' i)\<rparr>" by (simp_all add: h'_def)
  have other: "parent (h' i) = parent (?h i) \<and> node_key (h' i) = node_key (?h i) \<and> node_value (h' i) = node_value (?h i)
    \<and> lock_ref (h' i) = lock_ref (?h i)" for i by (simp add: h'_def)
  have old: "lock_ok H ?h i" if "i \<in> L" "i \<noteq> ?r" for i using acctD(4) [OF a that] .
  have lc: "lock_ref (?h c) = 0" "children (?h c) = []" using c(3) by (auto simp: free_leaf_def)
  have Hc: "H c = 0" using old [OF c(1,2)] lc by (simp add: lock_ok_def lock_sum_def)
  have ls: "lock_sum h' i = lock_sum ?h i" if i: "i \<in> L" for i
  proof (cases "i = p")
    case True
    have "distinct (map fst (children (?h p)))" using shape_kids [OF s p(1)] by (simp add: kids_ok_def)
    from sum_delete [OF this cp, of "\<lambda>j. lock_ref (?h j)"] have "lock_sum ?h p = sum_list (map (\<lambda>e. lock_ref (?h (snd e))) (AList.delete ?ck (children (?h p))))"
      using lc by (simp add: lock_sum_def)
    then show ?thesis using True h'i(1) [of p] other by (simp add: lock_sum_def)
  qed (use h'i(1) [of i] other in \<open>simp add: lock_sum_def\<close>)
  have nn: "0 \<le> lock_ref (h' p)" using old [OF p(1)] acctD(3) [OF a] other by (cases "p = ?r") (auto simp: lock_ok_def)
  have s1f: "nodes s1 = h'" "root_node s1 = ?r" "counter s1 = counter s" "protected_size s1 = protected_size s"
    "evictable_size s1 = evictable_size s - int (length (toks ?h c))" "evictable_leaves s1 = evictable_leaves s - {c}"
    by (simp_all add: s1_def)
  have s'f: "nodes s' = h'" "root_node s' = ?r" "counter s' = counter s" "protected_size s' = protected_size s"
    "evictable_size s' = evictable_size s - int (length (toks ?h c))"
    "evictable_leaves s' = (if free_leaf h' p then insert p (evictable_leaves s - {c}) else evictable_leaves s - {c} - {p})"
    using update_leaf_status_eq [of s1 p] nn s1f by (auto simp: s'_def)
  have shp: "shape ?ps ?r (L - {c}) P V h'"
    by (rule delete_shape [OF s c(1,2) at lc(2)]) (use h'i other in auto)
  have fin: "finite (L - {?r})" "c \<in> L - {?r}" "L - {c} - {?r} = L - {?r} - {c}" using s c by (auto simp: shape_def)
  have ft: "free_tokens h' = free_tokens ?h" "held_tokens h' = held_tokens ?h" using other by (auto simp: free_tokens_def held_tokens_def)
  have "acct (L - {c}) H s'"
  proof (rule acctI)
    show "L - {c} \<subseteq> {..<counter s'}" using acctD(1) [OF a] s'f by auto
    show "H i = 0" if "i \<notin> L - {c}" for i using acctD(2) [OF a] that Hc by blast
    show "0 < lock_ref (nodes s' (root_node s'))" using acctD(3) [OF a] other s'f by simp
    show "lock_ok H (nodes s') i" if "i \<in> L - {c}" "i \<noteq> root_node s'" for i
      using that old [of i] ls [of i] other s'f by (auto simp: lock_ok_def)
    show "evictable_size s' = sum (free_tokens (nodes s')) (L - {c} - {root_node s'})"
      unfolding s'f ft fin(3) using acctD(5) [OF a] sum.remove [OF fin(1,2), of "free_tokens ?h"] lc by (simp add: free_tokens_def [of _ c])
    show "protected_size s' = sum (held_tokens (nodes s')) (L - {c} - {root_node s'})"
      unfolding s'f ft fin(3) using acctD(6) [OF a] sum.remove [OF fin(1,2), of "held_tokens ?h"] lc by (simp add: held_tokens_def [of _ c])
    have fl: "free_leaf h' i = free_leaf ?h i" if "i \<noteq> p" for i using h'i(1) [of i] other that by (simp add: free_leaf_def)
    have fr: "\<not> free_leaf h' ?r" using acctD(3) [OF a] other by (simp add: free_leaf_def)
    show "evictable_leaves s' = {i \<in> L - {c}. i \<noteq> root_node s' \<and> free_leaf (nodes s') i}"
    proof (cases "free_leaf h' p")
      case True
      then have "p \<noteq> ?r" using fr by auto
      then show ?thesis unfolding s'f acctD(7) [OF a] using True p(1) pc fl by (intro set_eqI, rename_tac x, case_tac "x = p") auto
    next
      case False
      then show ?thesis unfolding s'f acctD(7) [OF a] using False fl by (intro set_eqI, rename_tac x, case_tac "x = p") auto
    qed
  qed
  then have "tree_inv cf (L - {c}) P V H s'" using shp s'f by (intro tree_invI) simp_all
  then show thesis using that [OF at del _ s'f(2,3)] h'i s'f(1) by simp
qed

end
