(* ===== verification/Radix_Walk.thy ===== *)
theory Radix_Walk
  imports Radix_Inv
begin

section \<open>Walking down the radix tree\<close>

text \<open>
  Matching and insertion walk from the root along the pages of a key. The walk ends at the end of the longest
  cached prefix; the splits on the way do not change what is cached.
\<close>

subsection \<open>Matching two keys\<close>

definition page_match :: "nat \<Rightarrow> 'a list \<Rightarrow> 'a list \<Rightarrow> nat \<Rightarrow> bool" where
  "page_match ps t0 t1 k \<longleftrightarrow> ps dvd k \<and> k \<le> length t0 \<and> k \<le> length t1 \<and> take k t0 = take k t1
     \<and> (k < length t0 \<longrightarrow> k < length t1 \<longrightarrow> take ps (drop k t0) \<noteq> take ps (drop k t1))"

lemma takeWhile_zip_eq:
  "take (length (takeWhile (\<lambda>(a, b). a = b) (zip t0 t1))) t0 = take (length (takeWhile (\<lambda>(a, b). a = b) (zip t0 t1))) t1"
proof (induction t0 arbitrary: t1)
  case (Cons x xs)
  then show ?case by (cases t1) auto
qed simp

lemma takeWhile_zip_stop:
  "length (takeWhile (\<lambda>(a, b). a = b) (zip t0 t1)) = k \<Longrightarrow> k < length t0 \<Longrightarrow> k < length t1
    \<Longrightarrow> take (Suc 0) (drop k t0) \<noteq> take (Suc 0) (drop k t1)"
proof (induction t0 arbitrary: t1 k)
  case (Cons x xs)
  then show ?case by (cases t1; cases k) (auto split: if_splits)
qed simp

lemma page_match_1: "page_match 1 t0 t1 (length (takeWhile (\<lambda>(a, b). a = b) (zip t0 t1)))"
  using takeWhile_zip_eq [of t0 t1] takeWhile_zip_stop [of t0 t1, OF refl]
    length_takeWhile_le [of "\<lambda>(a, b). a = b" "zip t0 t1"]
  by (simp add: page_match_def)

lemma paged_match_from_spec:
  assumes "0 < ps" "ps dvd length t0" "ps dvd length t1" "ps dvd i" "i \<le> length t0" "i \<le> length t1" "take i t0 = take i t1"
  shows "page_match ps t0 t1 (paged_match_from ps t0 t1 i)"
  using assms
proof (induction ps t0 t1 i rule: paged_match_from.induct)
  case (1 ps t0 t1 i)
  show ?case
  proof (cases "i < min (length t0) (length t1) \<and> 0 < ps \<and> slice i (i + ps) t0 = slice i (i + ps) t1")
    case True
    have step: "i + ps \<le> length t" if "ps dvd length t" "i < length t" for t :: "'a list"
    proof -
      have "ps dvd length t - i" "0 < length t - i" using that 1(5) by simp_all
      then have "ps \<le> length t - i" by (rule dvd_imp_le)
      then show ?thesis using that(2) by simp
    qed
    have "i + ps \<le> length t0" "i + ps \<le> length t1" using step True 1(3,4) by auto
    moreover have "take (i + ps) t0 = take (i + ps) t1" using True 1(8) by (simp add: slice_def take_add)
    moreover have "ps dvd i + ps" using 1(5) by simp
    ultimately have "page_match ps t0 t1 (paged_match_from ps t0 t1 (i + ps))" using 1(1) [OF True] 1(2-4) by blast
    then show ?thesis using True by (subst paged_match_from.simps) simp
  next
    case False
    then have e: "paged_match_from ps t0 t1 i = i" by (subst paged_match_from.simps) auto
    show ?thesis unfolding e page_match_def using False 1(2-8) by (auto simp: slice_def)
  qed
qed

lemma key_match_spec:
  assumes "0 < cache_page_size cf" "extra_key k0 = extra_key k1" "cache_page_size cf dvd key_len k0" "cache_page_size cf dvd key_len k1"
  shows "\<exists>k. key_match_fn cf k0 k1 = Inr k \<and> page_match (cache_page_size cf) (token_ids k0) (token_ids k1) k"
proof (cases "cache_page_size cf = 1")
  case True
  then show ?thesis using assms(2) page_match_1 [of "token_ids k0" "token_ids k1"]
    by (auto simp: key_match_fn_def key_match_page_size1_def)
next
  case False
  then show ?thesis using assms paged_match_from_spec [OF assms(1,3,4), of 0]
    by (simp add: key_match_fn_def key_match_paged_def)
qed

subsection \<open>What is cached\<close>

text \<open>The slots \<open>vs\<close> of a prefix \<open>ts\<close> in the name space \<open>x\<close> (the extra key).\<close>

definition cached :: "nat set \<Rightarrow> (nat \<Rightarrow> tok list) \<Rightarrow> (nat \<Rightarrow> int list) \<Rightarrow> radix_cache \<Rightarrow> string option \<Rightarrow> tok list \<Rightarrow> int list \<Rightarrow> bool" where
  "cached L P V s x ts vs \<longleftrightarrow> (\<exists>j\<in>L. j \<noteq> root_node s \<and> extra (nodes s) j = x \<and> prefix ts (P j) \<and> vs = take (length ts) (V j))"

text \<open>Splitting adds nodes on paths that are there already.\<close>

definition grown :: "nat set \<Rightarrow> (nat \<Rightarrow> tok list) \<Rightarrow> (nat \<Rightarrow> int list) \<Rightarrow> radix_cache
    \<Rightarrow> nat set \<Rightarrow> (nat \<Rightarrow> tok list) \<Rightarrow> (nat \<Rightarrow> int list) \<Rightarrow> radix_cache \<Rightarrow> bool" where
  "grown L P V s L' P' V' s' \<longleftrightarrow> root_node s' = root_node s \<and> tree_slots L' (nodes s') = tree_slots L (nodes s)
     \<and> (\<forall>i\<in>L. i \<in> L' \<and> P' i = P i \<and> V' i = V i \<and> extra (nodes s') i = extra (nodes s) i)
     \<and> (\<forall>j\<in>L'. j \<noteq> root_node s \<longrightarrow> (\<exists>i\<in>L. i \<noteq> root_node s \<and> extra (nodes s) i = extra (nodes s') j
          \<and> prefix (P' j) (P i) \<and> prefix (V' j) (V i)))"

lemma grown_refl [simp]: "grown L P V s L P V s"
  by (auto simp: grown_def)

lemma grown_same:
  assumes "same_tree s s'"
  shows "grown L P V s L P V s'"
  using assms by (auto simp: grown_def same_tree_def same_node_def tree_slots_def)

lemma grown_trans:
  assumes a: "grown L P V s L1 P1 V1 s1" and b: "grown L1 P1 V1 s1 L2 P2 V2 s2"
  shows "grown L P V s L2 P2 V2 s2"
  unfolding grown_def
proof (intro conjI ballI impI)
  fix j assume "j \<in> L2" "j \<noteq> root_node s"
  then obtain i where i: "i \<in> L1" "i \<noteq> root_node s" "extra (nodes s1) i = extra (nodes s2) j" "prefix (P2 j) (P1 i)" "prefix (V2 j) (V1 i)"
    using a b unfolding grown_def by metis
  then obtain i0 where "i0 \<in> L" "i0 \<noteq> root_node s" "extra (nodes s) i0 = extra (nodes s1) i" "prefix (P1 i) (P i0)" "prefix (V1 i) (V i0)"
    using a unfolding grown_def by metis
  then show "\<exists>i\<in>L. i \<noteq> root_node s \<and> extra (nodes s) i = extra (nodes s2) j \<and> prefix (P2 j) (P i) \<and> prefix (V2 j) (V i)"
    using i prefix_order.trans by metis
qed (use a b in \<open>simp_all add: grown_def\<close>)

lemma grown_cached:
  assumes g: "grown L P V s L' P' V' s'" and inv: "tree_inv cf L P V H s" "tree_inv cf L' P' V' H s'"
  shows "cached L' P' V' s' x ts vs \<longleftrightarrow> cached L P V s x ts vs"
proof
  assume "cached L P V s x ts vs"
  then show "cached L' P' V' s' x ts vs" using g unfolding cached_def grown_def by metis
next
  assume "cached L' P' V' s' x ts vs"
  then obtain j where j: "j \<in> L'" "j \<noteq> root_node s" "extra (nodes s') j = x" "prefix ts (P' j)" "vs = take (length ts) (V' j)"
    using g by (auto simp: cached_def grown_def)
  then obtain i where i: "i \<in> L" "i \<noteq> root_node s" "extra (nodes s) i = x" "prefix (P' j) (P i)" "prefix (V' j) (V i)"
    using g unfolding grown_def by metis
  have "length ts \<le> length (V' j)" using prefix_length_le [OF j(4)] length_V [OF tree_inv_shape [OF inv(2)] j(1)] by simp
  then have "vs = take (length ts) (V i)" using i(5) j(5) by (auto simp: prefix_def)
  then show "cached L P V s x ts vs" using i prefix_order.trans [OF j(4) i(4)] unfolding cached_def by blast
qed

subsection \<open>One round of a walk\<close>

lemma dvd_nonempty_ge: "ps dvd length xs \<Longrightarrow> xs \<noteq> [] \<Longrightarrow> ps \<le> length xs"
  by (simp add: dvd_imp_le)

lemma walk_child:
  assumes inv: "tree_inv cf L P V H s" and node: "node \<in> L"
    and key: "token_ids key \<noteq> []" "cache_page_size cf dvd key_len key"
    and c: "map_of (children (nodes s node)) (child_key_fn cf key) = Some c"
  shows "\<exists>k. key_match_fn cf (node_key (nodes s c)) key = Inr k \<and> 0 < k
      \<and> page_match (cache_page_size cf) (toks (nodes s) c) (token_ids key) k
      \<and> c \<in> L \<and> c \<noteq> root_node s \<and> attached (cache_page_size cf) (root_node s) L P V (nodes s) c node
      \<and> extra (nodes s) c = extra_key key"
proof -
  let ?ps = "cache_page_size cf"
  have s: "shape ?ps (root_node s) L P V (nodes s)" by (rule tree_inv_shape [OF inv])
  have ps: "0 < ?ps" using s by (simp add: shape_def)
  have ch: "c \<in> L" "c \<noteq> root_node s" "attached ?ps (root_node s) L P V (nodes s) c node"
    and ck: "child_key_fn cf key = get_child_key ?ps (node_key (nodes s c))" using shape_child [OF s node c] by auto
  have ex: "extra (nodes s) c = extra_key key" and pg: "take ?ps (toks (nodes s) c) = take ?ps (token_ids key)"
    using ck by (auto simp: get_child_key_def)
  have tc: "toks (nodes s) c \<noteq> []" "?ps dvd length (toks (nodes s) c)" using ch(3) by (auto simp: attached_def)
  obtain k where k: "key_match_fn cf (node_key (nodes s c)) key = Inr k" "page_match ?ps (toks (nodes s) c) (token_ids key) k"
    using key_match_spec [OF ps ex tc(2) key(2)] by blast
  have "0 < k"
  proof (rule ccontr)
    assume "\<not> 0 < k"
    then show False using k(2) pg tc(1) key(1) by (simp add: page_match_def)
  qed
  then show ?thesis using k ch ex by blast
qed

text \<open>Nothing longer is cached when the walk stops: at a missing child, or inside an edge.\<close>

lemma take_page_prefix:
  assumes "prefix (p @ take (k + ps) t) q" "k + ps \<le> length t"
  shows "take ps (drop (length p + k) q) = take ps (drop k t)"
proof -
  obtain zs where "q = p @ take (k + ps) t @ zs" using assms(1) by (auto simp: prefix_def)
  then show ?thesis using assms(2) by (simp add: drop_take)
qed

lemma stop_missing:
  assumes inv: "tree_inv cf L P V H s" and node: "node \<in> L" "node = root_node s \<or> extra (nodes s) node = extra_key key"
    and key: "token_ids key \<noteq> []" "cache_page_size cf dvd key_len key"
    and none: "map_of (children (nodes s node)) (child_key_fn cf key) = None"
    and j: "j \<in> L" "j \<noteq> root_node s" "extra (nodes s) j = extra_key key"
  shows "\<not> prefix (P node @ take (cache_page_size cf) (token_ids key)) (P j)"
proof
  let ?ps = "cache_page_size cf"
  assume p: "prefix (P node @ take ?ps (token_ids key)) (P j)"
  have s: "shape ?ps (root_node s) L P V (nodes s)" by (rule tree_inv_shape [OF inv])
  have ps: "0 < ?ps" "?ps \<le> key_len key" using s dvd_nonempty_ge [OF key(2,1)] by (simp_all add: shape_def)
  have "prefix (P node) (P j)" using append_prefixD [OF p] .
  moreover have "length (P node) < length (P j)" using prefix_length_le [OF p] ps by simp
  ultimately obtain c where "map_of (children (nodes s node)) (extra (nodes s) j, take ?ps (drop (length (P node)) (P j))) = Some c"
    using descend [OF s node(1) _ _ j(1,2)] node(2) j(3) by auto
  moreover have "take ?ps (drop (length (P node)) (P j)) = take ?ps (token_ids key)"
    using take_page_prefix [of "P node" 0 ?ps "token_ids key" "P j"] p ps(2) by simp
  ultimately show False using none j(3) by (simp add: get_child_key_def)
qed

lemma stop_inside:
  assumes inv: "tree_inv cf L P V H s" and node: "node \<in> L" "node = root_node s \<or> extra (nodes s) node = extra_key key"
    and key: "token_ids key \<noteq> []" "cache_page_size cf dvd key_len key"
    and c: "map_of (children (nodes s node)) (child_key_fn cf key) = Some c" "c \<in> L" "c \<noteq> root_node s"
      "attached (cache_page_size cf) (root_node s) L P V (nodes s) c node"
    and k: "page_match (cache_page_size cf) (toks (nodes s) c) (token_ids key) k" "k < length (toks (nodes s) c)" "k < key_len key" "0 < k"
    and j: "j \<in> L" "j \<noteq> root_node s" "extra (nodes s) j = extra_key key"
  shows "\<not> prefix (P node @ take (k + cache_page_size cf) (token_ids key)) (P j)"
proof
  let ?ps = "cache_page_size cf"
  assume p: "prefix (P node @ take (k + ?ps) (token_ids key)) (P j)"
  have s: "shape ?ps (root_node s) L P V (nodes s)" by (rule tree_inv_shape [OF inv])
  have tc: "?ps dvd length (toks (nodes s) c)" using c(4) by (simp add: attached_def)
  have kd: "?ps dvd k" using k(1) by (simp add: page_match_def)
  have fit: "k + ?ps \<le> n" if "?ps dvd n" "k < n" for n
    using dvd_imp_le [of ?ps "n - k"] that kd by simp
  have l: "k + ?ps \<le> key_len key" "k + ?ps \<le> length (toks (nodes s) c)" using fit key(2) tc k(2,3) by auto
  have "?ps \<le> k + ?ps" by simp
  then have "take ?ps (take (k + ?ps) (token_ids key)) = take ?ps (token_ids key)" by (simp add: min_def)
  then have "prefix (P node @ take ?ps (token_ids key)) (P node @ take (k + ?ps) (token_ids key))"
    by (metis prefix_def append_take_drop_id append.assoc)
  then have p0: "prefix (P node @ take ?ps (token_ids key)) (P j)" using p by (rule prefix_order.trans)
  have ps: "0 < ?ps" using s by (simp add: shape_def)
  have "prefix (P node) (P j)" using append_prefixD [OF p] .
  moreover have "length (P node) < length (P j)" using prefix_length_le [OF p] ps l k(4) by simp
  ultimately obtain d where d: "map_of (children (nodes s node)) (extra (nodes s) j, take ?ps (drop (length (P node)) (P j))) = Some d"
      "anc (nodes s) d j" using descend [OF s node(1) _ _ j(1,2)] node(2) j(3) by auto
  have "take ?ps (drop (length (P node)) (P j)) = take ?ps (token_ids key)"
    using take_page_prefix [of "P node" 0 ?ps "token_ids key" "P j"] p0 l(1) by simp
  then have "d = c" using d(1) c(1) j(3) by (simp add: get_child_key_def)
  then have pc: "prefix (P c) (P j)" using anc_facts [OF s j(1) d(2)] by simp
  have "prefix (P node @ take (k + ?ps) (toks (nodes s) c)) (P c)" using c(4) by (simp add: attached_def take_is_prefix)
  then have "prefix (P node @ take (k + ?ps) (toks (nodes s) c)) (P j)" using pc by (rule prefix_order.trans)
  then have "take ?ps (drop k (toks (nodes s) c)) = take ?ps (drop k (token_ids key))"
    using take_page_prefix [OF _ l(2)] take_page_prefix [OF p l(1)] by metis
  then show False using k(1-3) by (simp add: page_match_def)
qed

subsection \<open>The walk of \<open>match_prefix\<close>\<close>

text \<open>The outcome of a walk from \<open>node\<close> along \<open>key\<close>: it reached \<open>m\<close>, having found the slots \<open>vs\<close>.\<close>

definition walked :: "cache_config \<Rightarrow> nat set \<Rightarrow> (nat \<Rightarrow> tok list) \<Rightarrow> (nat \<Rightarrow> int list) \<Rightarrow> (nat \<Rightarrow> nat) \<Rightarrow> radix_cache
    \<Rightarrow> nat \<Rightarrow> radix_key \<Rightarrow> int list \<Rightarrow> nat \<Rightarrow> nat set \<Rightarrow> (nat \<Rightarrow> tok list) \<Rightarrow> (nat \<Rightarrow> int list) \<Rightarrow> radix_cache \<Rightarrow> bool" where
  "walked cf L P V H s node key vs m L' P' V' s' \<longleftrightarrow> tree_inv cf L' P' V' H s' \<and> grown L P V s L' P' V' s' \<and> m \<in> L'
     \<and> (m = root_node s \<or> extra (nodes s') m = extra_key key)
     \<and> cache_page_size cf dvd length vs \<and> length vs \<le> key_len key
     \<and> P' m = P node @ take (length vs) (token_ids key) \<and> V' m = V node @ vs"

definition longest :: "cache_config \<Rightarrow> nat set \<Rightarrow> (nat \<Rightarrow> tok list) \<Rightarrow> radix_cache \<Rightarrow> nat \<Rightarrow> radix_key \<Rightarrow> nat \<Rightarrow> bool" where
  "longest cf L P s node key n \<longleftrightarrow> (n < key_len key \<longrightarrow> (\<forall>j\<in>L. j \<noteq> root_node s \<longrightarrow> extra (nodes s) j = extra_key key
     \<longrightarrow> \<not> prefix (P node @ take (n + cache_page_size cf) (token_ids key)) (P j)))"

lemma walked_here:
  assumes "tree_inv cf L P V H s" "node \<in> L" "node = root_node s \<or> extra (nodes s) node = extra_key key"
  shows "walked cf L P V H s node key [] node L P V s"
  using assms by (auto simp: walked_def)

text \<open>Going on below a child whose whole key matches, or below the new node of a split.\<close>

lemma walked_below:
  assumes first: "walked cf L P V H s node key us m L1 P1 V1 s1" and n: "length us \<le> key_len key"
    and next_w: "walked cf L1 P1 V1 H s1 m (key_drop (length us) key) vs m' L2 P2 V2 s2"
  shows "walked cf L P V H s node key (us @ vs) m' L2 P2 V2 s2"
proof -
  have r: "root_node s1 = root_node s" using first by (simp add: walked_def grown_def)
  have "take (length us) (token_ids key) @ take (length vs) (drop (length us) (token_ids key)) = take (length (us @ vs)) (token_ids key)"
    by (simp add: take_add)
  then show ?thesis using first next_w n r grown_trans [of L P V s L1 P1 V1 s1 L2 P2 V2 s2]
    unfolding walked_def by (auto simp: key_drop_def)
qed

lemma longest_below:
  assumes w: "walked cf L P V H s node key us m L1 P1 V1 s1"
    and l: "longest cf L1 P1 s1 m (key_drop (length us) key) n"
  shows "longest cf L P s node key (length us + n)"
  unfolding longest_def
proof (intro impI ballI)
  fix j assume n: "length us + n < key_len key" and j: "j \<in> L" "j \<noteq> root_node s" "extra (nodes s) j = extra_key key"
  have g: "j \<in> L1" "P1 j = P j" "extra (nodes s1) j = extra (nodes s) j" "root_node s1 = root_node s"
    and pm: "P1 m = P node @ take (length us) (token_ids key)"
    using w j by (auto simp: walked_def grown_def)
  have n': "n < key_len key - length us" using n by simp
  have "\<not> prefix (P1 m @ take (n + cache_page_size cf) (drop (length us) (token_ids key))) (P1 j)"
    using l n' j(2,3) g(1,3,4) by (simp add: longest_def key_drop_def)
  then show "\<not> prefix (P node @ take (length us + n + cache_page_size cf) (token_ids key)) (P j)"
    using pm g(2) by (simp add: take_add add.assoc)
qed

lemma walked_child:
  assumes "tree_inv cf L P V H s" "c \<in> L" "attached (cache_page_size cf) (root_node s) L P V (nodes s) c node"
    and "extra (nodes s) c = extra_key key" "toks (nodes s) c = take (length (toks (nodes s) c)) (token_ids key)"
    "length (toks (nodes s) c) \<le> key_len key"
  shows "walked cf L P V H s node key (node_value (nodes s c)) c L P V s"
  using assms by (auto simp: walked_def attached_def)

lemma walked_touch:
  assumes "same_tree s s1" "walked cf L P V H s1 node key vs m L' P' V' s'"
  shows "walked cf L P V H s node key vs m L' P' V' s'"
  using assms(2) grown_trans [OF grown_same [OF assms(1)], of L P V L' P' V' s'] assms(1)
  unfolding walked_def by (auto simp: same_tree_def)

lemma longest_touch: "same_tree s s1 \<Longrightarrow> longest cf L P s1 node key n \<longleftrightarrow> longest cf L P s node key n"
  by (simp add: longest_def same_tree_def same_node_def)

text \<open>A round that ends inside the edge to \<open>c\<close> splits it.\<close>

lemma walked_split:
  assumes inv: "tree_inv cf L P V H s" and c: "c \<in> L" "c \<noteq> root_node s" "attached (cache_page_size cf) (root_node s) L P V (nodes s) c node"
    and key: "extra (nodes s) c = extra_key key"
    and k: "page_match (cache_page_size cf) (toks (nodes s) c) (token_ids key) k" "0 < k" "k < length (toks (nodes s) c)"
  obtains L' P' V' s' where "split_node cf (node_key (nodes s c)) c k s = Inr (counter s, s')"
    and "walked cf L P V H s node key (take k (node_value (nodes s c))) (counter s) L' P' V' s'"
    and "node_value (nodes s' (counter s)) = take k (node_value (nodes s c))"
proof -
  let ?n = "counter s" and ?ps = "cache_page_size cf"
  let ?P = "P(?n := P node @ take k (toks (nodes s) c))" and ?V = "V(?n := V node @ take k (node_value (nodes s c)))"
  have kd: "?ps dvd k" "k \<le> key_len key" "take k (toks (nodes s) c) = take k (token_ids key)" using k(1) by (auto simp: page_match_def)
  obtain s' where s': "split_node cf (node_key (nodes s c)) c k s = Inr (?n, s')" "tree_inv cf (insert ?n L) ?P ?V H s'"
    "root_node s' = root_node s" "extra (nodes s') ?n = extra (nodes s) c" "\<And>i. i \<in> L \<Longrightarrow> extra (nodes s') i = extra (nodes s) i"
    "node_value (nodes s' ?n) = take k (node_value (nodes s c))" "tree_slots (insert ?n L) (nodes s') = tree_slots L (nodes s)"
    using split_inv [OF inv c k(2,3) kd(1)] by metis
  have nL: "?n \<notin> L" by (rule tree_inv_fresh [OF inv])
  have at: "P c = P node @ toks (nodes s) c" "V c = V node @ node_value (nodes s c)" "length (node_value (nodes s c)) = length (toks (nodes s) c)"
    using c(3) by (auto simp: attached_def)
  have "grown L P V s (insert ?n L) ?P ?V s'"
    unfolding grown_def
  proof (intro conjI ballI impI)
    show "\<exists>i\<in>L. i \<noteq> root_node s \<and> extra (nodes s) i = extra (nodes s') j \<and> prefix (?P j) (P i) \<and> prefix (?V j) (V i)"
      if j: "j \<in> insert ?n L" "j \<noteq> root_node s" for j
    proof (cases "j = ?n")
      case True
      have "prefix (?P ?n) (P c)" "prefix (?V ?n) (V c)" using at by (simp_all add: take_is_prefix)
      then show ?thesis using c(1,2) s'(4) True by auto
    next
      case False
      then show ?thesis using j s'(5) by auto
    qed
  qed (use nL s' in auto)
  then have "walked cf L P V H s node key (take k (node_value (nodes s c))) ?n (insert ?n L) ?P ?V s'"
    using s' kd at(3) k(3) key by (auto simp: walked_def)
  then show thesis using that s'(1,6) by blast
qed

lemma match_loop_spec:
  assumes "tree_inv cf L P V H s" "node \<in> L" "node = root_node s \<or> extra (nodes s) node = extra_key key"
    and "cache_page_size cf dvd key_len key" "key_len key < fuel"
  shows "\<exists>vals' vs m L' P' V' s'. match_loop cf now fuel node key vals s = Inr (vals', m, s') \<and> concat vals' = concat vals @ vs
    \<and> walked cf L P V H s node key vs m L' P' V' s' \<and> longest cf L P s node key (length vs)"
  using assms
proof (induction fuel arbitrary: node key vals s)
  case (Suc fuel)
  note inv = Suc.prems(1) and node = Suc.prems(2,3) and al = Suc.prems(4)
  show ?case
  proof (cases "token_ids key = []")
    case True
    then show ?thesis using walked_here [OF inv node] by (auto simp: longest_def)
  next
    case ne: False
    show ?thesis
    proof (cases "map_of (children (nodes s node)) (child_key_fn cf key)")
      case None
      have "longest cf L P s node key 0" using stop_missing [OF inv node ne al None] by (simp add: longest_def)
      then show ?thesis using None ne walked_here [OF inv node] by auto
    next
      case (Some c)
      define s1 where "s1 = upd_node c (\<lambda>x. x\<lparr>last_access_time := now\<rparr>) s"
      have same: "same_tree s s1" unfolding s1_def by (rule same_tree_touch) (simp add: same_node_def)
      have inv1: "tree_inv cf L P V H s1" by (rule same_tree_inv [OF same inv])
      have node1: "node = root_node s1 \<or> extra (nodes s1) node = extra_key key"
        and Some1: "map_of (children (nodes s1 node)) (child_key_fn cf key) = Some c"
        using same node(2) Some by (auto simp: same_tree_def same_node_def)
      obtain k where k: "key_match_fn cf (node_key (nodes s1 c)) key = Inr k" "0 < k"
          "page_match (cache_page_size cf) (toks (nodes s1) c) (token_ids key) k"
        and c: "c \<in> L" "c \<noteq> root_node s1" "attached (cache_page_size cf) (root_node s1) L P V (nodes s1) c node"
        and ex: "extra (nodes s1) c = extra_key key"
        using walk_child [OF inv1 node(1) ne al Some1] by blast
      have kl: "k \<le> length (toks (nodes s1) c)" "k \<le> key_len key" "cache_page_size cf dvd k" using k(3) by (auto simp: page_match_def)
      have vl: "length (node_value (nodes s1 c)) = length (toks (nodes s1) c)" using c(3) by (simp add: attached_def)
      show ?thesis
      proof (cases "k < length (toks (nodes s1) c)")
        case True
        obtain L' P' V' s' where sp: "split_node cf (node_key (nodes s1 c)) c k s1 = Inr (counter s1, s')"
          and w: "walked cf L P V H s1 node key (take k (node_value (nodes s1 c))) (counter s1) L' P' V' s'"
          and v: "node_value (nodes s' (counter s1)) = take k (node_value (nodes s1 c))"
          using walked_split [OF inv1 c ex k(3,2) True] by metis
        have "longest cf L P s1 node key k"
          using stop_inside [OF inv1 node(1) node1 ne al Some1 c k(3) True] k(2) by (auto simp: longest_def)
        then have "longest cf L P s node key (length (take k (node_value (nodes s1 c))))"
          using longest_touch [OF same] vl True by simp
        moreover have "match_loop cf now (Suc fuel) node key vals s = Inr (vals @ [take k (node_value (nodes s1 c))], counter s1, s')"
          using ne Some k(1) True sp v by (simp add: s1_def [symmetric] Let_def)
        ultimately show ?thesis using walked_touch [OF same w] by (intro exI conjI) (assumption | simp)+
      next
        case False
        then have kc: "k = length (toks (nodes s1) c)" using kl(1) by simp
        have tc: "toks (nodes s1) c = take (length (toks (nodes s1) c)) (token_ids key)" using k(3) kc by (simp add: page_match_def)
        have w: "walked cf L P V H s1 node key (node_value (nodes s1 c)) c L P V s1"
          using walked_child [OF inv1 c(1,3) ex tc] kl(2) kc by simp
        have "cache_page_size cf dvd key_len (key_drop k key)" using al kl(3) by (simp add: key_drop_def dvd_diff_nat)
        moreover have "key_len (key_drop k key) < fuel" using Suc.prems(5) k(2) ne by (cases "token_ids key") (auto simp: key_drop_def)
        moreover have "extra (nodes s1) c = extra_key (key_drop k key)" using ex by (simp add: key_drop_def)
        ultimately obtain vals' vs m L' P' V' s' where
          rest: "match_loop cf now fuel c (key_drop k key) (vals @ [node_value (nodes s1 c)]) s1 = Inr (vals', m, s')"
            "concat vals' = concat (vals @ [node_value (nodes s1 c)]) @ vs"
          and w2: "walked cf L P V H s1 c (key_drop k key) vs m L' P' V' s'" and lg: "longest cf L P s1 c (key_drop k key) (length vs)"
          using Suc.IH [OF inv1 c(1)] by blast
        have k': "k = length (node_value (nodes s1 c))" using kc vl by simp
        have "walked cf L P V H s1 node key (node_value (nodes s1 c) @ vs) m L' P' V' s'"
          using walked_below [OF w] w2 kl(2) k' by simp
        moreover have "longest cf L P s1 node key (length (node_value (nodes s1 c) @ vs))"
          using longest_below [OF w] lg k' by simp
        moreover have "match_loop cf now (Suc fuel) node key vals s = Inr (vals', m, s')"
          using ne Some k(1) False rest(1) by (simp add: s1_def [symmetric] Let_def)
        ultimately show ?thesis using walked_touch [OF same] longest_touch [OF same] rest(2)
          by (intro exI [of _ vals'] exI [of _ "node_value (nodes s1 c) @ vs"] exI conjI) (assumption | simp)+
      qed
    qed
  qed
qed simp

subsection \<open>The walk of \<open>insert\<close>\<close>

lemma walked_key_cong:
  assumes "token_ids key' = token_ids key" "extra_key key' = extra_key key"
  shows "walked cf L P V H s node key' = walked cf L P V H s node key" "longest cf L P s node key' = longest cf L P s node key"
  using assms by (auto simp: walked_def longest_def fun_eq_iff)

lemma insert_loop_spec:
  assumes "tree_inv cf L P V H s" "node \<in> L" "node = root_node s \<or> extra (nodes s) node = extra_key key"
    and "cache_page_size cf dvd key_len key" "key_len key < fuel"
  shows "\<exists>vs m key' L' P' V' s'. insert_loop cf now prio chunked fuel node key val n s
      = Inr (m, key', drop (length vs) val, n + length vs, s')
    \<and> token_ids key' = drop (length vs) (token_ids key) \<and> extra_key key' = extra_key key
    \<and> walked cf L P V H s node key vs m L' P' V' s' \<and> longest cf L P s node key (length vs)
    \<and> (token_ids key' \<noteq> [] \<longrightarrow> map_of (children (nodes s' m)) (child_key_fn cf key') = None)"
  using assms
proof (induction fuel arbitrary: node key val n s L P V)
  case (Suc fuel)
  note inv = Suc.prems(1) and node = Suc.prems(2,3) and al = Suc.prems(4)
  show ?case
  proof (cases "token_ids key = []")
    case True
    then show ?thesis using walked_here [OF inv node]
      by (intro exI [of _ "[]"] exI [of _ node] exI [of _ key] exI [of _ L] exI [of _ P] exI [of _ V] exI [of _ s]) (simp add: longest_def)
  next
    case ne: False
    show ?thesis
    proof (cases "map_of (children (nodes s node)) (child_key_fn cf key)")
      case None
      have "longest cf L P s node key 0" using stop_missing [OF inv node ne al None] by (simp add: longest_def)
      then show ?thesis using None ne walked_here [OF inv node]
        by (intro exI [of _ "[]"] exI [of _ node] exI [of _ key] exI [of _ L] exI [of _ P] exI [of _ V] exI [of _ s]) simp
    next
      case (Some c)
      define s1 where "s1 = upd_node c (\<lambda>x. x\<lparr>last_access_time := now\<rparr>) s"
      have same: "same_tree s s1" unfolding s1_def by (rule same_tree_touch) (simp add: same_node_def)
      have inv1: "tree_inv cf L P V H s1" by (rule same_tree_inv [OF same inv])
      have node1: "node = root_node s1 \<or> extra (nodes s1) node = extra_key key"
        and Some1: "map_of (children (nodes s1 node)) (child_key_fn cf key) = Some c"
        using same node(2) Some by (auto simp: same_tree_def same_node_def)
      obtain k where k: "key_match_fn cf (node_key (nodes s1 c)) key = Inr k" "0 < k"
          "page_match (cache_page_size cf) (toks (nodes s1) c) (token_ids key) k"
        and c: "c \<in> L" "c \<noteq> root_node s1" "attached (cache_page_size cf) (root_node s1) L P V (nodes s1) c node"
        and ex: "extra (nodes s1) c = extra_key key"
        using walk_child [OF inv1 node(1) ne al Some1] by blast
      have kl: "k \<le> length (toks (nodes s1) c)" "k \<le> key_len key" "cache_page_size cf dvd k" using k(3) by (auto simp: page_match_def)
      have vl: "length (node_value (nodes s1 c)) = length (toks (nodes s1) c)" using c(3) by (simp add: attached_def)
      let ?us = "take k (node_value (nodes s1 c))"
      have us: "length ?us = k" using kl(1) vl by simp
      obtain m1 L1 P1 V1 s2 where rnd: "(if k < key_len (node_key (nodes s1 c)) then split_node cf (node_key (nodes s1 c)) c k s1
            else Inr (c, s1)) = Inr (m1, s2)" and w: "walked cf L P V H s1 node key ?us m1 L1 P1 V1 s2"
      proof (cases "k < length (toks (nodes s1) c)")
        case True
        then show thesis using that walked_split [OF inv1 c ex k(3,2) True] by metis
      next
        case False
        then have "k = length (toks (nodes s1) c)" using kl(1) by simp
        moreover have "toks (nodes s1) c = take k (token_ids key)" using k(3) calculation by (simp add: page_match_def)
        ultimately have "walked cf L P V H s1 node key ?us c L P V s1" using walked_child [OF inv1 c(1,3) ex] kl(2) vl by simp
        then show thesis using that False by simp
      qed
      define s3 where "s3 = upd_node m1 (\<lambda>x. inc_hit_count chunked (x\<lparr>node_priority := max (node_priority x) prio\<rparr>)) s2"
      have same3: "same_tree s2 s3" unfolding s3_def by (rule same_tree_touch) (simp add: same_node_def inc_hit_count_def)
      have w3: "walked cf L P V H s1 node key ?us m1 L1 P1 V1 s3"
        using w same_tree_inv [OF same3] grown_trans [OF _ grown_same [OF same3]] same3
        unfolding walked_def by (auto simp: same_tree_def same_node_def)
      let ?key = "key_drop k key"
      have "cache_page_size cf dvd key_len ?key" using al kl(3) by (simp add: key_drop_def dvd_diff_nat)
      moreover have "key_len ?key < fuel" using Suc.prems(5) k(2) ne by (cases "token_ids key") (auto simp: key_drop_def)
      moreover have "tree_inv cf L1 P1 V1 H s3" "m1 \<in> L1" "m1 = root_node s3 \<or> extra (nodes s3) m1 = extra_key ?key"
        using w3 by (auto simp: walked_def grown_def key_drop_def)
      ultimately obtain vs m key' L' P' V' s' where
        rest: "insert_loop cf now prio chunked fuel m1 ?key (drop k val) (n + k) s3 = Inr (m, key', drop (length vs) (drop k val), n + k + length vs, s')"
        and key': "token_ids key' = drop (length vs) (token_ids ?key)" "extra_key key' = extra_key ?key"
        and w4: "walked cf L1 P1 V1 H s3 m1 ?key vs m L' P' V' s'" and lg: "longest cf L1 P1 s3 m1 ?key (length vs)"
        and stop: "token_ids key' \<noteq> [] \<longrightarrow> map_of (children (nodes s' m)) (child_key_fn cf key') = None"
        using Suc.IH [of L1 P1 V1 s3 m1 ?key "drop k val" "n + k"] by blast
      have "walked cf L P V H s1 node key (?us @ vs) m L' P' V' s'" using walked_below [OF w3, of vs m L' P' V' s'] w4 us kl(2) by simp
      then have "walked cf L P V H s node key (?us @ vs) m L' P' V' s'" by (rule walked_touch [OF same])
      moreover have "longest cf L P s1 node key (length (?us @ vs))" using longest_below [OF w3, of "length vs"] lg us by simp
      then have "longest cf L P s node key (length (?us @ vs))" using longest_touch [OF same, of cf L P node key] by simp
      moreover have "insert_loop cf now prio chunked (Suc fuel) node key val n s = Inr (m, key', drop (length (?us @ vs)) val, n + length (?us @ vs), s')"
        using ne Some k(1) rnd rest us by (simp add: s1_def [symmetric] s3_def [symmetric] Let_def add.commute add.left_commute)
      moreover have "token_ids key' = drop (length (?us @ vs)) (token_ids key)" "extra_key key' = extra_key key"
        using key' us by (simp_all add: key_drop_def add.commute)
      ultimately show ?thesis using stop
        by (intro exI [of _ "?us @ vs"] exI [of _ m] exI [of _ key'] exI [of _ L'] exI [of _ P'] exI [of _ V'] exI [of _ s'] conjI) assumption+
    qed
  qed
qed simp

end
