(* ===== verification/Radix_Props.thy ===== *)
theory Radix_Props
  imports Radix_Walk
begin

section \<open>Matching and inserting\<close>

text \<open>
  The contents of the cache as a relation: the page-aligned prefixes reachable from the root, in the name
  space of their extra key, with their KV slots. \<open>match_prefix\<close> returns the longest one and changes nothing in
  it; \<open>insert\<close> adds the prefixes of the new key behind the ones already there.
\<close>

subsection \<open>Contents\<close>

inductive path_to :: "radix_cache \<Rightarrow> nat \<Rightarrow> tok list \<Rightarrow> int list \<Rightarrow> bool" for s where
  root: "path_to s (root_node s) [] []"
| child: "path_to s p ts vs \<Longrightarrow> map_of (children (nodes s p)) ck = Some c
    \<Longrightarrow> path_to s c (ts @ token_ids (node_key (nodes s c))) (vs @ node_value (nodes s c))"

definition in_cache :: "cache_config \<Rightarrow> radix_cache \<Rightarrow> string option \<Rightarrow> tok list \<Rightarrow> int list \<Rightarrow> bool" where
  "in_cache cf s x ts vs \<longleftrightarrow> ts \<noteq> [] \<and> cache_page_size cf dvd length ts
     \<and> (\<exists>j tsj vsj. path_to s j tsj vsj \<and> extra_key (node_key (nodes s j)) = x \<and> prefix ts tsj \<and> vs = take (length ts) vsj)"

definition radix_ok :: "cache_config \<Rightarrow> (nat \<Rightarrow> nat) \<Rightarrow> radix_cache \<Rightarrow> bool" where
  "radix_ok cf H s \<longleftrightarrow> (\<exists>L P V. tree_inv cf L P V H s)"

lemma path_to_inv:
  assumes "path_to s j ts vs" "tree_inv cf L P V H s"
  shows "j \<in> L \<and> ts = P j \<and> vs = V j"
  using assms
proof (induction rule: path_to.induct)
  case root
  then show ?case by (auto simp: tree_inv_def shape_def)
next
  case (child p ts vs ck c)
  then show ?case using shape_child [OF tree_inv_shape [OF child.prems], of p ck c] by (auto simp: attached_def)
qed

lemma inv_path_to:
  assumes inv: "tree_inv cf L P V H s" and "j \<in> L"
  shows "path_to s j (P j) (V j)"
  using tree_inv_shape [OF inv] assms(2)
proof (induction rule: shape_up_induct)
  case root
  then show ?case using inv path_to.root [of s] by (simp add: tree_inv_def shape_def)
next
  case (step j p)
  have "map_of (children (nodes s p)) (get_child_key (cache_page_size cf) (node_key (nodes s j))) = Some j"
    "P j = P p @ toks (nodes s) j" "V j = V p @ node_value (nodes s j)" using step.hyps(3) by (auto simp: attached_def)
  then show ?case using path_to.child [OF step.IH] by metis
qed

lemma in_cache_iff:
  assumes "tree_inv cf L P V H s"
  shows "in_cache cf s x ts vs \<longleftrightarrow> ts \<noteq> [] \<and> cache_page_size cf dvd length ts \<and> cached L P V s x ts vs"
proof
  assume "in_cache cf s x ts vs"
  then obtain j tsj vsj where j: "ts \<noteq> []" "cache_page_size cf dvd length ts" "path_to s j tsj vsj" "extra (nodes s) j = x"
    "prefix ts tsj" "vs = take (length ts) vsj" by (auto simp: in_cache_def)
  have jL: "j \<in> L" "tsj = P j" "vsj = V j" using path_to_inv [OF j(3) assms] by auto
  moreover have "j \<noteq> root_node s" using j(1,5) jL tree_inv_shape [OF assms] by (auto simp: shape_def)
  ultimately show "ts \<noteq> [] \<and> cache_page_size cf dvd length ts \<and> cached L P V s x ts vs"
    using j unfolding cached_def by blast
next
  assume "ts \<noteq> [] \<and> cache_page_size cf dvd length ts \<and> cached L P V s x ts vs"
  then show "in_cache cf s x ts vs" using inv_path_to [OF assms] unfolding cached_def in_cache_def by blast
qed

text \<open>A prefix has one list of slots.\<close>

lemma values_agree:
  assumes s: "shape ps r L P V h" and "j \<in> L" and j': "j' \<in> L" "j' \<noteq> r" "ps dvd n"
    and "j \<noteq> r \<Longrightarrow> extra h j = extra h j'" "n \<le> length (P j)" "n \<le> length (P j')" "take n (P j) = take n (P j')"
  shows "take n (V j) = take n (V j')"
  using s assms(2,6-)
proof (induction rule: shape_up_induct)
  case root
  then show ?case using s by (simp add: shape_def)
next
  case (step j p)
  have at: "attached ps r L P V h j p" by (rule step.hyps(3))
  have Pj: "P j = P p @ toks h j" "V j = V p @ node_value (h j)" and ex: "p \<noteq> r \<Longrightarrow> extra h p = extra h j" using at by (auto simp: attached_def)
  have lp: "length (V p) = length (P p)" by (rule length_V [OF s step.hyps(4)])
  show ?case
  proof (cases "n \<le> length (P p)")
    case True
    then have "take n (P p) = take n (P j')" "take n (V j) = take n (V p)" using step.prems(4) Pj lp by simp_all
    then show ?thesis using step.IH step.prems(1,3) step.hyps(2) ex True by auto
  next
    case False
    have "ps dvd length (P p)" by (rule dvd_P [OF s step.hyps(4)])
    then have nn: "length (P p) + ps \<le> n" using False j'(3) dvd_imp_le [of ps "n - length (P p)"] by simp
    have pp: "prefix (P p) (P j')"
    proof -
      have "take (length (P p)) (P j') = take (length (P p)) (take n (P j'))" using nn by (simp add: min_def)
      also have "\<dots> = P p" using step.prems(4) [symmetric] Pj nn by simp
      finally show ?thesis by (metis take_is_prefix)
    qed
    have "extra h p = extra h j'" if "p \<noteq> r" using that ex step.prems(1) step.hyps(2) by simp
    moreover have "0 < ps" using s by (simp add: shape_def)
    ultimately obtain d where d: "map_of (children (h p)) (extra h j', take ps (drop (length (P p)) (P j'))) = Some d" "anc h d j'"
      using descend [OF s step.hyps(4) _ pp j'(1,2)] nn step.prems(3) by auto
    have pg: "take ps (drop (length (P p)) (P j')) = take ps (toks h j)"
    proof -
      have "take ps (drop (length (P p)) (P i)) = take ps (drop (length (P p)) (take n (P i)))" for i using nn by (simp add: drop_take min_def)
      then have "take ps (drop (length (P p)) (P j')) = take ps (drop (length (P p)) (P j))" using step.prems(4) by metis
      then show ?thesis using Pj by simp
    qed
    have "map_of (children (h p)) (get_child_key ps (node_key (h j))) = Some j" using at by (simp add: attached_def)
    then have "d = j" using d(1) pg step.prems(1) [OF step.hyps(2)] by (simp add: get_child_key_def)
    then obtain zs where "V j' = V j @ zs" using anc_facts [OF s j'(1) d(2)] by (auto simp: prefix_def)
    moreover have "n \<le> length (V j)" using step.prems(2) length_V [OF s step.hyps(1)] by simp
    ultimately show ?thesis by simp
  qed
qed

lemma in_cache_unique:
  assumes "radix_ok cf H s" "in_cache cf s x ts vs" "in_cache cf s x ts vs'"
  shows "vs = vs'"
proof -
  obtain L P V where inv: "tree_inv cf L P V H s" using assms(1) by (auto simp: radix_ok_def)
  obtain j j' where j: "j \<in> L" "extra (nodes s) j = x" "prefix ts (P j)" "vs = take (length ts) (V j)"
    and j': "j' \<in> L" "j' \<noteq> root_node s" "extra (nodes s) j' = x" "prefix ts (P j')" "vs' = take (length ts) (V j')"
    and d: "cache_page_size cf dvd length ts"
    using assms(2,3) unfolding in_cache_iff [OF inv] cached_def by blast
  have "take (length ts) (P j) = take (length ts) (P j')" using j(3) j'(4) by (auto simp: prefix_def)
  then show ?thesis using values_agree [OF tree_inv_shape [OF inv] j(1) j'(1,2) d] j j' prefix_length_le by metis
qed

text \<open>Two walks along the same key find the same slots.\<close>

lemma walked_in_cache:
  assumes inv: "tree_inv cf L P V H s" and w: "walked cf L P V H s (root_node s) key vs m L' P' V' s'" and ne: "vs \<noteq> []"
  shows "in_cache cf s (extra_key key) (take (length vs) (token_ids key)) vs"
proof -
  have s: "shape (cache_page_size cf) (root_node s) L P V (nodes s)" by (rule tree_inv_shape [OF inv])
  have inv': "tree_inv cf L' P' V' H s'" and g: "grown L P V s L' P' V' s'" using w by (auto simp: walked_def)
  have root: "P (root_node s) = []" "V (root_node s) = []" using s by (auto simp: shape_def)
  have m: "m \<in> L'" "P' m = take (length vs) (token_ids key)" "V' m = vs" "length vs \<le> key_len key" using w root by (auto simp: walked_def)
  have r': "root_node s' = root_node s" using g by (simp add: grown_def)
  have "P' (root_node s) = []" using tree_inv_shape [OF inv'] r' by (simp add: shape_def)
  then have "m \<noteq> root_node s" using m ne by auto
  then have "cached L' P' V' s' (extra_key key) (P' m) (V' m)"
    using w m r' length_V [OF tree_inv_shape [OF inv'] m(1)] unfolding cached_def walked_def by auto
  then show ?thesis using grown_cached [OF g inv inv'] in_cache_iff [OF inv] m ne w by (auto simp: walked_def)
qed

lemma longest_in_cache:
  assumes inv: "tree_inv cf L P V H s" and l: "longest cf L P s (root_node s) key n" "cache_page_size cf dvd n"
    and c: "in_cache cf s (extra_key key) ts vs" "prefix ts (token_ids key)"
  shows "length ts \<le> n"
proof (rule ccontr)
  let ?ps = "cache_page_size cf"
  assume "\<not> length ts \<le> n"
  then have n: "n < length ts" "n < key_len key" using prefix_length_le [OF c(2)] by simp_all
  obtain j where j: "j \<in> L" "j \<noteq> root_node s" "extra (nodes s) j = extra_key key" "prefix ts (P j)" "?ps dvd length ts"
    using c(1) unfolding in_cache_iff [OF inv] cached_def by blast
  have "n + ?ps \<le> length ts" using n(1) l(2) j(5) dvd_imp_le [of ?ps "length ts - n"] by simp
  then have "take (n + ?ps) (token_ids key) = take (n + ?ps) ts" using c(2) by (auto simp: prefix_def)
  then have "prefix (take (n + ?ps) (token_ids key)) (P j)" using j(4) take_is_prefix prefix_order.trans by metis
  moreover have "P (root_node s) = []" using tree_inv_shape [OF inv] by (simp add: shape_def)
  ultimately show False using l(1) n(2) j unfolding longest_def by auto
qed

lemma walk_unique:
  assumes inv: "tree_inv cf L P V H s"
    and a: "walked cf L P V H s (root_node s) key vs m L1 P1 V1 s1" "longest cf L P s (root_node s) key (length vs)"
    and b: "walked cf L P V H s (root_node s) key us n L2 P2 V2 s2" "longest cf L P s (root_node s) key (length us)"
  shows "vs = us"
proof -
  have d: "cache_page_size cf dvd length vs" "cache_page_size cf dvd length us" using a b by (auto simp: walked_def)
  have "length vs \<le> length us"
  proof (cases "vs = []")
    case False
    from longest_in_cache [OF inv b(2) d(2) walked_in_cache [OF inv a(1) False] take_is_prefix] a(1)
    show ?thesis by (simp add: walked_def)
  qed simp
  moreover have "length us \<le> length vs"
  proof (cases "us = []")
    case False
    from longest_in_cache [OF inv a(2) d(1) walked_in_cache [OF inv b(1) False] take_is_prefix] b(1)
    show ?thesis by (simp add: walked_def)
  qed simp
  ultimately have l: "length vs = length us" by simp
  show ?thesis
  proof (cases "vs = []")
    case False
    then have "us \<noteq> []" using l by auto
    have "radix_ok cf H s" using inv by (auto simp: radix_ok_def)
    from in_cache_unique [OF this walked_in_cache [OF inv a(1) False]] walked_in_cache [OF inv b(1) \<open>us \<noteq> []\<close>]
    show ?thesis using l by simp
  qed (use l in simp)
qed

subsection \<open>Match\<close>

text \<open>The tokens \<^verbatim>\<open>match_prefix\<close> looks up: bigrams if the cache is in EAGLE mode, cut to whole pages.\<close>

definition lookup_tokens :: "cache_config \<Rightarrow> radix_key \<Rightarrow> tok list" where
  "lookup_tokens cf key = page_align_keys (token_ids (fst (maybe_bigram_convert (is_eagle cf) key None))) (cache_page_size cf)"

lemma read_clock_same: "read_clock cf s = (t, s1) \<Longrightarrow> same_tree s s1"
  using same_tree_clock [of s cf] by simp

lemma match_prefix_walk:
  assumes inv: "tree_inv cf L P V H s" and en: "\<not> disable cf"
  shows "\<exists>vs m L' P' V' s'. match_prefix cf key s = Inr (vs, m, s')
    \<and> walked cf L P V H s (root_node s) (key\<lparr>token_ids := lookup_tokens cf key\<rparr>) vs m L' P' V' s'
    \<and> longest cf L P s (root_node s) (key\<lparr>token_ids := lookup_tokens cf key\<rparr>) (length vs)"
proof -
  let ?ps = "cache_page_size cf" and ?r = "root_node s" and ?K = "key\<lparr>token_ids := lookup_tokens cf key\<rparr>"
  define key1 where "key1 = fst (maybe_bigram_convert (is_eagle cf) key None)"
  define key2 where "key2 = (if ?ps \<noteq> 1 then key_take (key_len key1 div ?ps * ?ps) key1 else key1)"
  have ex: "extra_key key1 = extra_key key" by (simp add: key1_def maybe_bigram_convert_def Let_def)
  have k2: "token_ids key2 = token_ids ?K" "extra_key key2 = extra_key ?K"
    using ex by (auto simp: key2_def lookup_tokens_def page_align_keys_def key1_def [symmetric] key_take_def)
  have root: "?r \<in> L" by (rule tree_inv_root [OF inv])
  have nil: "\<exists>vs m L' P' V' s'. Inr ([], ?r, s) = (Inr (vs, m, s') :: (int list \<times> nat \<times> radix_cache) res)
      \<and> walked cf L P V H s ?r ?K vs m L' P' V' s' \<and> longest cf L P s ?r ?K (length vs)" if "lookup_tokens cf key = []"
    using walked_here [OF inv root, of ?K] that by (auto simp: longest_def)
  have mp: "match_prefix cf key s = (if key_len key1 = 0 then Inr ([], ?r, s) else if key_len key2 = 0 then Inr ([], ?r, s)
      else rbind (match_prefix_helper cf ?r key2 s) (\<lambda>(vals, last_node, s'). Inr (concat vals, last_node, s')))"
    using en by (cases "maybe_bigram_convert (is_eagle cf) key None") (simp add: match_prefix_def key1_def key2_def Let_def)
  show ?thesis
  proof (cases "token_ids key2 = []")
    case True
    then have "lookup_tokens cf key = []" using k2 by simp
    moreover have "match_prefix cf key s = Inr ([], ?r, s)" using mp True by simp
    ultimately show ?thesis using nil by simp
  next
    case False
    then have "token_ids key1 \<noteq> []" by (auto simp: key2_def key_take_def split: if_splits)
    obtain now s1 where rc: "read_clock cf s = (now, s1)" by fastforce
    define s2 where "s2 = upd_node ?r (\<lambda>x. x\<lparr>last_access_time := now\<rparr>) s1"
    have same: "same_tree s s2" unfolding s2_def
      by (rule same_tree_trans [OF read_clock_same [OF rc]], rule same_tree_touch) (simp add: same_node_def)
    have inv2: "tree_inv cf L P V H s2" by (rule same_tree_inv [OF same inv])
    have r2: "root_node s2 = ?r" using same by (simp add: same_tree_def)
    have ps: "0 < ?ps" using tree_inv_shape [OF inv] by (simp add: shape_def)
    have dv: "?ps dvd key_len key2" by (simp add: key2_def key_take_def min_absorb2 div_times_less_eq_dividend)
    obtain vals vs m L' P' V' s' where ml: "match_loop cf now (Suc (key_len key2)) ?r key2 [] s2 = Inr (vals, m, s')" "concat vals = vs"
      and w: "walked cf L P V H s2 ?r key2 vs m L' P' V' s'" "longest cf L P s2 ?r key2 (length vs)"
      using match_loop_spec [OF inv2 root _ dv, of "Suc (key_len key2)" now "[]"] r2 by auto
    have "match_prefix cf key s = Inr (vs, m, s')"
      using mp False \<open>token_ids key1 \<noteq> []\<close> ml rc by (simp add: match_prefix_helper_def s2_def [symmetric])
    moreover have "walked cf L P V H s ?r ?K vs m L' P' V' s'" "longest cf L P s ?r ?K (length vs)"
      using walked_touch [OF same w(1)] w(2) longest_touch [OF same] walked_key_cong [OF k2] by auto
    ultimately show ?thesis by blast
  qed
qed

lemma walked_path:
  assumes inv: "tree_inv cf L P V H s" and w: "walked cf L P V H s (root_node s) key vs m L' P' V' s'"
  shows "path_to s' m (take (length vs) (token_ids key)) vs" "radix_ok cf H s'"
    and "in_cache cf s' x ts us \<longleftrightarrow> in_cache cf s x ts us"
proof -
  have inv': "tree_inv cf L' P' V' H s'" and g: "grown L P V s L' P' V' s'" and m: "m \<in> L'" using w by (auto simp: walked_def)
  have root: "P (root_node s) = []" "V (root_node s) = []" using tree_inv_shape [OF inv] by (auto simp: shape_def)
  show "path_to s' m (take (length vs) (token_ids key)) vs"
    using inv_path_to [OF inv' m] w root by (simp add: walked_def)
  show "radix_ok cf H s'" using inv' by (auto simp: radix_ok_def)
  show "in_cache cf s' x ts us \<longleftrightarrow> in_cache cf s x ts us"
    by (simp add: in_cache_iff [OF inv] in_cache_iff [OF inv'] grown_cached [OF g inv inv'])
qed

text \<open>C30 Matching a key always returns: the slots are those of the longest page-aligned prefix of the key that is in
  the cache under the same extra key, the returned node is the end of that prefix, and neither the contents of the
  cache nor its bookkeeping change, even when a node is split.\<close>

theorem match_prefix_longest:
  assumes "radix_ok cf H s" "\<not> disable cf"
  shows "\<exists>idx m s'. match_prefix cf key s = Inr (idx, m, s') \<and> radix_ok cf H s'
    \<and> path_to s' m (take (length idx) (lookup_tokens cf key)) idx
    \<and> (\<forall>x ts vs. in_cache cf s' x ts vs = in_cache cf s x ts vs)
    \<and> (idx = [] \<or> in_cache cf s (extra_key key) (take (length idx) (lookup_tokens cf key)) idx)
    \<and> (\<forall>ts vs. prefix ts (lookup_tokens cf key) \<longrightarrow> in_cache cf s (extra_key key) ts vs \<longrightarrow> length ts \<le> length idx)"
proof -
  obtain L P V where inv: "tree_inv cf L P V H s" using assms(1) by (auto simp: radix_ok_def)
  let ?K = "key\<lparr>token_ids := lookup_tokens cf key\<rparr>"
  obtain vs m L' P' V' s' where eq: "match_prefix cf key s = Inr (vs, m, s')"
    and w: "walked cf L P V H s (root_node s) ?K vs m L' P' V' s'" and l: "longest cf L P s (root_node s) ?K (length vs)"
    using match_prefix_walk [OF inv assms(2)] by blast
  have d: "cache_page_size cf dvd length vs" using w by (simp add: walked_def)
  show ?thesis
    using eq walked_path [OF inv w] walked_in_cache [OF inv w] longest_in_cache [OF inv l d]
    by (intro exI [of _ vs] exI [of _ m] exI [of _ s']) auto
qed

subsection \<open>Insert\<close>

text \<open>Insertion keeps the nodes and their paths.\<close>

definition kept :: "nat set \<Rightarrow> (nat \<Rightarrow> tok list) \<Rightarrow> (nat \<Rightarrow> int list) \<Rightarrow> radix_cache
    \<Rightarrow> nat set \<Rightarrow> (nat \<Rightarrow> tok list) \<Rightarrow> (nat \<Rightarrow> int list) \<Rightarrow> radix_cache \<Rightarrow> bool" where
  "kept L P V s L' P' V' s' \<longleftrightarrow> root_node s' = root_node s
     \<and> (\<forall>i\<in>L. i \<in> L' \<and> P' i = P i \<and> V' i = V i \<and> extra (nodes s') i = extra (nodes s) i)"

lemma walked_kept: "walked cf L P V H s node key vs m L' P' V' s' \<Longrightarrow> kept L P V s L' P' V' s'"
  by (auto simp: walked_def grown_def kept_def)

lemma insert_walk:
  assumes inv: "tree_inv cf L P V H s" and en: "\<not> disable cf" and eg: "is_eagle cf \<longrightarrow> is_bigram key"
    and key: "cache_page_size cf dvd key_len key" "length val = key_len key"
  shows "\<exists>vs m L1 P1 V1 s1 L' P' V' s'. radix_insert cf key val prio chunked s = Inr (length vs, s')
    \<and> walked cf L P V H s (root_node s) key vs m L1 P1 V1 s1 \<and> longest cf L P s (root_node s) key (length vs)
    \<and> tree_inv cf L' P' V' H s' \<and> tree_slots L' (nodes s') = tree_slots L (nodes s) + mset (drop (length vs) val)
    \<and> kept L P V s L' P' V' s'
    \<and> (\<forall>x ts us. cached L' P' V' s' x ts us \<longleftrightarrow> cached L1 P1 V1 s1 x ts us
         \<or> length vs < key_len key \<and> x = extra_key key \<and> prefix ts (token_ids key) \<and> us = take (length ts) (vs @ drop (length vs) val))"
proof -
  let ?r = "root_node s"
  have root: "?r \<in> L" "P ?r = []" "V ?r = []" using tree_inv_shape [OF inv] by (auto simp: shape_def)
  have ri: "radix_insert cf key val prio chunked s = insert_helper cf ?r key val prio chunked s"
    using en eg by (auto simp: radix_insert_def maybe_bigram_convert_def)
  obtain now s0 where rc: "read_clock cf s = (now, s0)" by fastforce
  define s2 where "s2 = upd_node ?r (\<lambda>x. x\<lparr>last_access_time := now, node_priority := max (node_priority x) prio\<rparr>) s0"
  have same: "same_tree s s2" unfolding s2_def
    by (rule same_tree_trans [OF read_clock_same [OF rc]], rule same_tree_touch) (simp add: same_node_def)
  have inv2: "tree_inv cf L P V H s2" by (rule same_tree_inv [OF same inv])
  have r2: "root_node s2 = ?r" using same by (simp add: same_tree_def)
  show ?thesis
  proof (cases "token_ids key = []")
    case True
    have "walked cf L P V H s2 ?r key [] ?r L P V s2" using walked_here [OF inv2 root(1)] r2 by simp
    then have "walked cf L P V H s ?r key [] ?r L P V s2" by (rule walked_touch [OF same])
    moreover have "longest cf L P s ?r key 0" using True by (simp add: longest_def)
    moreover have "radix_insert cf key val prio chunked s = Inr (0, s2)" using True rc ri by (simp add: insert_helper_def s2_def)
    moreover have "tree_slots L (nodes s2) = tree_slots L (nodes s)" using grown_same [OF same] by (simp add: grown_def)
    moreover have "kept L P V s L P V s2" using walked_kept calculation(1) by blast
    ultimately show ?thesis using inv2 True key(2)
      by (intro exI [of _ "[]"] exI [of _ ?r] exI [of _ L] exI [of _ P] exI [of _ V] exI [of _ s2]) auto
  next
    case ne: False
    have start: "?r = root_node s2 \<or> extra (nodes s2) ?r = extra_key key" using r2 by simp
    obtain vs m key' L1 P1 V1 s1 where
      il: "insert_loop cf now prio chunked (Suc (key_len key)) ?r key val 0 s2 = Inr (m, key', drop (length vs) val, length vs, s1)"
      and k': "token_ids key' = drop (length vs) (token_ids key)" "extra_key key' = extra_key key"
      and w2: "walked cf L P V H s2 ?r key vs m L1 P1 V1 s1" "longest cf L P s2 ?r key (length vs)"
      and stop: "token_ids key' \<noteq> [] \<longrightarrow> map_of (children (nodes s1 m)) (child_key_fn cf key') = None"
      using insert_loop_spec [OF inv2 root(1) start key(1) lessI, of now prio chunked val 0, unfolded add_0]
      by (elim exE conjE) (rule that, assumption+)
    have w: "walked cf L P V H s ?r key vs m L1 P1 V1 s1" and lg: "longest cf L P s ?r key (length vs)"
      using walked_touch [OF same w2(1)] w2(2) longest_touch [OF same] by auto
    have inv1: "tree_inv cf L1 P1 V1 H s1" and m: "m \<in> L1" "P1 m = take (length vs) (token_ids key)" "V1 m = vs"
      and r1: "root_node s1 = ?r" and d: "cache_page_size cf dvd length vs" "length vs \<le> key_len key"
      and mx: "m = ?r \<or> extra (nodes s1) m = extra_key key"
      using w root by (auto simp: walked_def grown_def)
    show ?thesis
    proof (cases "token_ids key' = []")
      case True
      then have "key_len key \<le> length vs" using k' by simp
      moreover have "tree_slots L1 (nodes s1) = tree_slots L (nodes s) + mset (drop (length vs) val)"
        using calculation key(2) w by (simp add: walked_def grown_def)
      moreover have "radix_insert cf key val prio chunked s = Inr (length vs, s1)"
        using True ne rc ri il by (simp add: insert_helper_def s2_def [symmetric])
      ultimately show ?thesis using w lg inv1 walked_kept [OF w] by (intro exI conjI) (assumption | simp)+
    next
      case False
      let ?n = "counter s1" and ?val = "drop (length vs) val"
      let ?s = "add_leaf cf prio chunked m key' ?val s1" and ?L = "insert ?n L1"
      let ?P = "P1(?n := P1 m @ token_ids key')" and ?V = "V1(?n := V1 m @ ?val)"
      have k1: "cache_page_size cf dvd key_len key'" "length ?val = key_len key'" using k' key d by (simp_all add: dvd_diff_nat)
      have mx': "m = root_node s1 \<or> extra (nodes s1) m = extra_key key'" using mx r1 k' by simp
      note al = add_leaf_inv [OF inv1 m(1) mx' False k1 stop [rule_format, OF False], where prio = prio and chunked = chunked]
      have Pn: "?P ?n = token_ids key" "?V ?n = vs @ ?val" using m k' by simp_all
      have nL: "?n \<notin> L1" by (rule tree_inv_fresh [OF inv1])
      have "?n \<noteq> root_node s1" using nL tree_inv_root [OF inv1] by auto
      have lt: "length vs < key_len key" using False k' d(2) by (cases "length vs = key_len key") auto
      have "cached ?L ?P ?V ?s x ts us \<longleftrightarrow> cached L1 P1 V1 s1 x ts us
         \<or> x = extra_key key \<and> prefix ts (token_ids key) \<and> us = take (length ts) (vs @ ?val)" for x ts us
      proof -
        have "cached ?L ?P ?V ?s x ts us \<longleftrightarrow> (\<exists>j\<in>L1. j \<noteq> root_node s1 \<and> extra (nodes s1) j = x \<and> prefix ts (P1 j) \<and> us = take (length ts) (V1 j))
            \<or> extra_key key' = x \<and> prefix ts (?P ?n) \<and> us = take (length ts) (?V ?n)"
          unfolding cached_def al(2) using al(3,4) nL \<open>?n \<noteq> root_node s1\<close> by auto
        then show ?thesis unfolding Pn using k'(2) by (auto simp: cached_def)
      qed
      moreover have "radix_insert cf key val prio chunked s = Inr (length vs, ?s)"
        using False ne rc ri il by (simp add: insert_helper_def s2_def [symmetric])
      moreover have "tree_slots ?L (nodes ?s) = tree_slots L (nodes s) + mset ?val"
        using al(5) w by (simp add: walked_def grown_def)
      moreover have "kept L P V s ?L ?P ?V ?s"
        using walked_kept [OF w] al(2,4) nL unfolding kept_def by auto
      ultimately show ?thesis using w lg al(1) lt by (intro exI conjI) (assumption | simp)+
    qed
  qed
qed

text \<open>C11 Insert then match: inserting a key reports the length of its longest cached prefix, keeps the slots of that
  prefix and takes the new slots for the rest, so that a following match returns exactly these; every prefix that was
  cached keeps its slots, and nothing but the new prefixes of the key is added.\<close>

theorem insert_match_roundtrip:
  assumes "radix_ok cf H s" "\<not> disable cf" "is_eagle cf \<longrightarrow> is_bigram key"
    and "cache_page_size cf dvd key_len key" "length val = key_len key"
  shows "\<exists>idx m s1 s2 m' s3. match_prefix cf key s = Inr (idx, m, s1)
    \<and> radix_insert cf key val prio chunked s = Inr (length idx, s2) \<and> radix_ok cf H s2
    \<and> match_prefix cf key s2 = Inr (idx @ drop (length idx) val, m', s3)
    \<and> (\<forall>x ts vs. in_cache cf s2 x ts vs \<longleftrightarrow> in_cache cf s x ts vs
         \<or> x = extra_key key \<and> cache_page_size cf dvd length ts \<and> length idx < length ts \<and> prefix ts (token_ids key)
           \<and> vs = take (length ts) (idx @ drop (length idx) val))"
proof -
  obtain L P V where inv: "tree_inv cf L P V H s" using assms(1) by (auto simp: radix_ok_def)
  let ?r = "root_node s" and ?x = "extra_key key" and ?ps = "cache_page_size cf"
  have lt: "lookup_tokens cf key = token_ids key"
    using assms(3,4) by (auto simp: lookup_tokens_def maybe_bigram_convert_def page_align_keys_def)
  have Kc: "walked cf L P V H s ?r (key\<lparr>token_ids := lookup_tokens cf key\<rparr>) = walked cf L P V H s ?r key"
    "longest cf L P s ?r (key\<lparr>token_ids := lookup_tokens cf key\<rparr>) = longest cf L P s ?r key"
    using walked_key_cong [of "key\<lparr>token_ids := lookup_tokens cf key\<rparr>" key] lt by simp_all
  obtain idx m L0 P0 V0 s1 where m0: "match_prefix cf key s = Inr (idx, m, s1)"
    and wm: "walked cf L P V H s ?r key idx m L0 P0 V0 s1" "longest cf L P s ?r key (length idx)"
    using match_prefix_walk [OF inv assms(2), of key] unfolding Kc by blast
  obtain vs n L1 P1 V1 t1 L' P' V' s2 where ins: "radix_insert cf key val prio chunked s = Inr (length vs, s2)"
    and wi: "walked cf L P V H s ?r key vs n L1 P1 V1 t1" "longest cf L P s ?r key (length vs)" and inv2: "tree_inv cf L' P' V' H s2"
    and c2: "\<forall>x ts us. cached L' P' V' s2 x ts us \<longleftrightarrow> cached L1 P1 V1 t1 x ts us
         \<or> length vs < key_len key \<and> x = ?x \<and> prefix ts (token_ids key) \<and> us = take (length ts) (vs @ drop (length vs) val)"
    using insert_walk [OF inv assms(2-5), of prio chunked] by (elim exE conjE) (rule that, assumption+)
  have e: "vs = idx" by (rule walk_unique [OF inv wi wm])
  have inv1: "tree_inv cf L1 P1 V1 H t1" and g: "grown L P V s L1 P1 V1 t1" using wi by (auto simp: walked_def)
  have d: "?ps dvd length idx" "length idx \<le> key_len key" using wm by (auto simp: walked_def)
  let ?new = "idx @ drop (length idx) val"
  have old: "in_cache cf s ?x ts (take (length ts) ?new)" if "prefix ts (token_ids key)" "ts \<noteq> []" "?ps dvd length ts" "length ts \<le> length idx" for ts
  proof -
    have "idx \<noteq> []" using that by auto
    from walked_in_cache [OF inv wm(1) this] obtain j where j: "j \<in> L" "j \<noteq> ?r" "extra (nodes s) j = ?x"
      "prefix (take (length idx) (token_ids key)) (P j)" "idx = take (length (take (length idx) (token_ids key))) (V j)"
      unfolding in_cache_iff [OF inv] cached_def by blast
    have "prefix ts (take (length idx) (token_ids key))" using that(1,4) by (auto simp: prefix_def)
    then have "prefix ts (P j)" using j(4) by (rule prefix_order.trans)
    moreover have "take (length ts) ?new = take (length ts) (V j)"
    proof -
      have "idx = take (length idx) (V j)" using j(5) d(2) by (simp add: min_absorb2)
      then have "take (length ts) idx = take (length ts) (V j)" using that(4) by (metis min.absorb1 take_take)
      then show ?thesis using that(4) by simp
    qed
    ultimately show ?thesis using j that unfolding in_cache_iff [OF inv] cached_def by blast
  qed
  have ic: "in_cache cf s2 x ts us \<longleftrightarrow> in_cache cf s x ts us
      \<or> x = ?x \<and> ?ps dvd length ts \<and> length idx < length ts \<and> prefix ts (token_ids key) \<and> us = take (length ts) ?new" for x ts us
  proof
    assume a: "in_cache cf s2 x ts us"
    show "in_cache cf s x ts us \<or> x = ?x \<and> ?ps dvd length ts \<and> length idx < length ts \<and> prefix ts (token_ids key) \<and> us = take (length ts) ?new"
    proof (cases "length idx < length ts")
      case True
      then show ?thesis using a c2 e unfolding in_cache_iff [OF inv2] in_cache_iff [OF inv] grown_cached [OF g inv inv1, symmetric] by blast
    next
      case False
      have "cached L P V s x ts us \<or> x = ?x \<and> prefix ts (token_ids key) \<and> us = take (length ts) ?new"
        using a c2 e unfolding in_cache_iff [OF inv2] grown_cached [OF g inv inv1, symmetric] by blast
      then show ?thesis using a old False unfolding in_cache_iff [OF inv2] in_cache_iff [OF inv] by auto
    qed
  next
    assume a: "in_cache cf s x ts us \<or> x = ?x \<and> ?ps dvd length ts \<and> length idx < length ts \<and> prefix ts (token_ids key) \<and> us = take (length ts) ?new"
    have "length idx < key_len key" if "length idx < length ts" "prefix ts (token_ids key)" using that prefix_length_le by fastforce
    then show "in_cache cf s2 x ts us"
      using a c2 e unfolding in_cache_iff [OF inv2] in_cache_iff [OF inv] grown_cached [OF g inv inv1, symmetric] by auto
  qed
  have ok2: "radix_ok cf H s2" using inv2 by (auto simp: radix_ok_def)
  obtain idx' m' L3 P3 V3 s3 where m3: "match_prefix cf key s2 = Inr (idx', m', s3)"
    and w3: "walked cf L' P' V' H s2 (root_node s2) (key\<lparr>token_ids := lookup_tokens cf key\<rparr>) idx' m' L3 P3 V3 s3"
      "longest cf L' P' s2 (root_node s2) (key\<lparr>token_ids := lookup_tokens cf key\<rparr>) (length idx')"
    using match_prefix_walk [OF inv2 assms(2), of key] by blast
  have "idx' = ?new"
  proof (cases "token_ids key = []")
    case True
    then show ?thesis using w3(1) d(2) assms(5) lt by (simp add: walked_def)
  next
    case False
    have ln: "length ?new = key_len key" using d(2) assms(5) by simp
    have full: "in_cache cf s2 ?x (token_ids key) ?new"
      using ic [of ?x "token_ids key" ?new] old [of "token_ids key"] False assms(4) ln d(2) by (cases "length idx < key_len key") auto
    have dv: "?ps dvd length idx'" using w3(1) by (simp add: walked_def)
    have "length idx' = key_len key"
      using longest_in_cache [OF inv2 w3(2) dv, of "token_ids key" ?new] full lt w3(1) by (simp add: walked_def)
    moreover have "idx' \<noteq> []" using calculation False by auto
    ultimately show ?thesis
      using in_cache_unique [OF ok2 full] walked_in_cache [OF inv2 w3(1)] lt by simp
  qed
  then show ?thesis using m0 ins e ok2 m3 ic by blast
qed

subsection \<open>An example\<close>

definition example_config :: cache_config where
  "example_config = \<lparr>disable = False, cache_page_size = 1, is_eagle = False, disable_finished_insert = False,
     strategy = LRU, clock = int, list_of = sorted_list_of_set\<rparr>"

definition example_key :: "int list \<Rightarrow> radix_key" where
  "example_key ts = \<lparr>token_ids = map Tok ts, extra_key = None, is_bigram = False\<rparr>"

text \<open>The cache after inserting the tokens 1, 2, 3 into an empty one.\<close>

definition example_cache :: radix_cache where
  "example_cache = \<lparr>nodes = (\<lambda>_. blank_node)
      (Suc 0 := \<lparr>children = [], parent = Some 0, node_key = example_key [1, 2, 3], node_value = [11, 12, 13], lock_ref = 0,
         last_access_time = 3, creation_time = 4, hit_count = 1, node_priority = 0\<rparr>,
       0 := \<lparr>children = [((None, [Tok 1]), Suc 0)], parent = None, node_key = example_key [], node_value = [], lock_ref = 1,
         last_access_time = 2, creation_time = 1, hit_count = 0, node_priority = max (- maxsize) 0\<rparr>),
     counter = 2, root_node = 0, evictable_size = 3, protected_size = 0, evictable_leaves = {1}, ticks = 5\<rparr>"

lemmas radix_run = radix_insert_def maybe_bigram_convert_def insert_helper_def read_clock_def upd_node_def Let_def new_node_def
  reset_def radix_init_def add_leaf_def inc_hit_count_def update_leaf_status_def get_child_key_def key_drop_def key_take_def
  key_match_fn_def key_match_page_size1_def split_node_def match_prefix_def match_prefix_helper_def
  example_config_def example_key_def example_cache_def

lemma example_init_ok: "tree_inv example_config {0} (\<lambda>_. []) (\<lambda>_. []) (\<lambda>_. 0) (radix_init example_config)"
proof (rule tree_invI)
  show "shape (cache_page_size example_config) (root_node (radix_init example_config)) {0} (\<lambda>_. []) (\<lambda>_. []) (nodes (radix_init example_config))"
    by (auto simp: shape_def radix_init_def reset_def new_node_def read_clock_def upd_node_def Let_def kids_ok_def example_config_def)
  show "acct {0} (\<lambda>_. 0) (radix_init example_config)"
    by (rule acctI) (auto simp: radix_init_def reset_def new_node_def read_clock_def upd_node_def Let_def)
qed

lemma example_cache_ok:
  "radix_insert example_config (example_key [1, 2, 3]) [11, 12, 13] 0 False (radix_init example_config) = Inr (0, example_cache)"
  "radix_ok example_config (\<lambda>_. 0) example_cache"
proof -
  have c: "\<not> disable example_config" "is_eagle example_config \<longrightarrow> is_bigram (example_key [1, 2, 3])"
    "cache_page_size example_config dvd key_len (example_key [1, 2, 3])" "length [11, 12, 13 :: int] = key_len (example_key [1, 2, 3])"
    by (simp_all add: example_config_def example_key_def)
  show r: "radix_insert example_config (example_key [1, 2, 3]) [11, 12, 13] 0 False (radix_init example_config) = Inr (0, example_cache)"
    by (simp add: radix_run)
  from insert_walk [OF example_init_ok c, of 0 False] show "radix_ok example_config (\<lambda>_. 0) example_cache"
    unfolding r radix_ok_def by auto
qed

theorem match_prefix_longest_witness:
  "\<exists>m s'. match_prefix example_config (example_key [1, 2, 9]) example_cache = Inr ([11, 12], m, s')
    \<and> path_to s' m [Tok 1, Tok 2] [11, 12] \<and> radix_ok example_config (\<lambda>_. 0) s'"
proof -
  have d: "\<not> disable example_config" by (simp add: example_config_def)
  have v: "fst (projr (match_prefix example_config (example_key [1, 2, 9]) example_cache)) = [11, 12]" by (simp add: radix_run)
  have l: "lookup_tokens example_config (example_key [1, 2, 9]) = [Tok 1, Tok 2, Tok 9]"
    by (simp add: lookup_tokens_def page_align_keys_def radix_run)
  obtain idx m s' where r: "match_prefix example_config (example_key [1, 2, 9]) example_cache = Inr (idx, m, s')"
      "radix_ok example_config (\<lambda>_. 0) s'" "path_to s' m (take (length idx) [Tok 1, Tok 2, Tok 9]) idx"
    using match_prefix_longest [OF example_cache_ok(2) d, of "example_key [1, 2, 9]"] unfolding l by blast
  have "idx = [11, 12]" using v unfolding r(1) by simp
  then show ?thesis using r by auto
qed

theorem insert_match_roundtrip_witness:
  "\<exists>s2 m s3. radix_insert example_config (example_key [1, 2, 4]) [21, 22, 24] 0 False example_cache = Inr (2, s2)
    \<and> match_prefix example_config (example_key [1, 2, 4]) s2 = Inr ([11, 12, 24], m, s3)"
proof -
  have c: "\<not> disable example_config" "is_eagle example_config \<longrightarrow> is_bigram (example_key [1, 2, 4])"
    "cache_page_size example_config dvd key_len (example_key [1, 2, 4])" "length [21, 22, 24 :: int] = key_len (example_key [1, 2, 4])"
    by (simp_all add: example_config_def example_key_def)
  have v: "fst (projr (match_prefix example_config (example_key [1, 2, 4]) example_cache)) = [11, 12]" by (simp add: radix_run)
  obtain idx m s1 s2 m' s3 where r: "match_prefix example_config (example_key [1, 2, 4]) example_cache = Inr (idx, m, s1)"
      "radix_insert example_config (example_key [1, 2, 4]) [21, 22, 24] 0 False example_cache = Inr (length idx, s2)"
      "match_prefix example_config (example_key [1, 2, 4]) s2 = Inr (idx @ drop (length idx) [21, 22, 24], m', s3)"
    using insert_match_roundtrip [OF example_cache_ok(2) c, of 0 False] by blast
  have "idx = [11, 12]" using v unfolding r(1) by simp
  then show ?thesis using r(2,3) by auto
qed

end
