(* ===== verification/Radix_Evict.thy ===== *)
theory Radix_Evict
  imports Radix_Props
begin

section \<open>Locks and eviction\<close>

text \<open>
  \<open>inc_lock_ref\<close> and \<open>dec_lock_ref\<close> change the lock counters on the way from a node to the root. Half-way the
  counter of the node still to be visited is off by one, so the bookkeeping is stated with a pending node.
  \<open>evict\<close> removes unlocked leaves until enough tokens are freed or none is left.
\<close>

subsection \<open>One step of a lock loop\<close>

definition acct_pend :: "nat \<Rightarrow> int \<Rightarrow> nat set \<Rightarrow> (nat \<Rightarrow> nat) \<Rightarrow> radix_cache \<Rightarrow> bool" where
  "acct_pend p d L H s \<longleftrightarrow> L \<subseteq> {..<counter s} \<and> (\<forall>i. i \<notin> L \<longrightarrow> H i = 0) \<and> 0 < lock_ref (nodes s (root_node s))
     \<and> (\<forall>i\<in>L. i \<noteq> root_node s \<longrightarrow> 0 \<le> lock_ref (nodes s i)
          \<and> lock_ref (nodes s i) + (if i = p then d else 0) = int (H i) + lock_sum (nodes s) i)
     \<and> evictable_size s = sum (free_tokens (nodes s)) (L - {root_node s})
     \<and> protected_size s = sum (held_tokens (nodes s)) (L - {root_node s})
     \<and> evictable_leaves s = {i \<in> L. i \<noteq> root_node s \<and> free_leaf (nodes s) i}"

lemma acct_pend_root: "acct_pend (root_node s) d L H s \<longleftrightarrow> acct L H s"
  by (auto simp: acct_pend_def acct_parts lock_ok_def)

lemma acct_pend_start:
  assumes "acct L H s" "i \<in> L" "int (H' i) = int (H i) + d" "\<And>j. j \<noteq> i \<Longrightarrow> H' j = H j"
  shows "acct_pend i d L H' s"
proof -
  have "H' j = 0" if "j \<notin> L" for j using that assms(2,4) acctD(2) [OF assms(1) that] by (cases "j = i") auto
  moreover have "0 \<le> lock_ref (nodes s j) \<and> lock_ref (nodes s j) + (if j = i then d else 0) = int (H' j) + lock_sum (nodes s) j"
    if "j \<in> L" "j \<noteq> root_node s" for j
    using acctD(4) [OF assms(1) that] assms(3,4) by (auto simp: lock_ok_def)
  ultimately show ?thesis using acctD(1,3,5,6,7) [OF assms(1)] unfolding acct_pend_def by blast
qed

text \<open>Both loops do the same to a node, with \<open>d\<close> being \<open>1\<close> or \<open>-1\<close>.\<close>

definition bump_lock :: "int \<Rightarrow> nat \<Rightarrow> radix_cache \<Rightarrow> radix_cache" where
  "bump_lock d i s = (let h' = (nodes s)(i := (nodes s i)\<lparr>lock_ref := lock_ref (nodes s i) + d\<rparr>) in
     update_leaf_status i (s\<lparr>evictable_size := evictable_size s + (free_tokens h' i - free_tokens (nodes s) i),
       protected_size := protected_size s + (held_tokens h' i - held_tokens (nodes s) i), nodes := h'\<rparr>))"

lemma inc_lock_step:
  assumes "0 \<le> lock_ref (nodes s i)" "i \<noteq> root_node s"
  shows "inc_lock_loop (Suc fuel) (Some i) delta s
    = inc_lock_loop fuel (parent (nodes s i)) (delta + (evictable_size (bump_lock 1 i s) - evictable_size s)) (bump_lock 1 i s)"
  using assms by (auto simp: bump_lock_def Let_def free_tokens_def held_tokens_def upd_node_def update_leaf_status_def)

lemma dec_lock_step:
  assumes "1 \<le> lock_ref (nodes s i)" "i \<noteq> root_node s" "parent (nodes s i) \<noteq> None"
  shows "dec_lock_loop (Suc fuel) (Some i) delta s
    = dec_lock_loop fuel (parent (nodes s i)) (delta + (evictable_size (bump_lock (-1) i s) - evictable_size s)) (bump_lock (-1) i s)"
  using assms by (auto simp: bump_lock_def Let_def free_tokens_def held_tokens_def upd_node_def update_leaf_status_def)

lemma bump_lock_fields:
  assumes "0 \<le> lock_ref (nodes s i) + d"
  shows "nodes (bump_lock d i s) = (nodes s)(i := (nodes s i)\<lparr>lock_ref := lock_ref (nodes s i) + d\<rparr>)"
    and "root_node (bump_lock d i s) = root_node s" "counter (bump_lock d i s) = counter s"
    and "evictable_leaves (bump_lock d i s) = (if free_leaf (nodes (bump_lock d i s)) i then insert i (evictable_leaves s) else evictable_leaves s - {i})"
    and "evictable_size (bump_lock d i s) = evictable_size s + (free_tokens (nodes (bump_lock d i s)) i - free_tokens (nodes s) i)"
    and "protected_size (bump_lock d i s) = protected_size s + (held_tokens (nodes (bump_lock d i s)) i - held_tokens (nodes s) i)"
  using assms by (simp_all add: bump_lock_def Let_def update_leaf_status_eq)

lemma sum_one_changed:
  fixes f g :: "nat \<Rightarrow> int"
  assumes "finite A" "c \<in> A" "\<And>i. i \<noteq> c \<Longrightarrow> g i = f i"
  shows "sum g A = sum f A + (g c - f c)"
proof -
  have "sum g (A - {c}) = sum f (A - {c})" using assms(3) by (intro sum.cong) auto
  then show ?thesis using assms(1,2) by (simp add: sum.remove)
qed

lemma lock_sum_bump:
  assumes s: "shape ps r L P V h" and p: "p \<in> L" and i: "i \<in> L" "i \<noteq> r" "attached ps r L P V h i q"
  shows "lock_sum (h(i := (h i)\<lparr>lock_ref := lock_ref (h i) + d\<rparr>)) p = lock_sum h p + (if p = q then d else 0)"
proof -
  let ?h = "h(i := (h i)\<lparr>lock_ref := lock_ref (h i) + d\<rparr>)"
  have ko: "kids_ok ps r L h p" by (rule shape_kids [OF s p])
  have ch: "children (?h p) = children (h p)" by simp
  show ?thesis
  proof (cases "p = q")
    case False
    have "snd e \<noteq> i" if "e \<in> set (children (h p))" for e
    proof
      assume "snd e = i"
      then have "(fst e, i) \<in> set (children (h p))" using that by (metis prod.collapse)
      then have "map_of (children (h p)) (fst e) = Some i" using ko map_of_is_SomeI unfolding kids_ok_def by metis
      then have "parent (h i) = Some p" using ko unfolding kids_ok_def by blast
      then show False using i(3) False by (simp add: attached_def)
    qed
    then have "lock_sum ?h p = lock_sum h p" using ch by (intro lock_sum_same) auto
    then show ?thesis using False by simp
  next
    case True
    let ?ck = "get_child_key ps (node_key (h i))"
    have mi: "map_of (children (h p)) ?ck = Some i" and dst: "distinct (map fst (children (h p)))"
      using i(3) True ko by (auto simp: attached_def kids_ok_def)
    have oth: "snd e \<noteq> i" if e: "e \<in> set (AList.delete ?ck (children (h p)))" for e
    proof
      assume "snd e = i"
      have "distinct (map fst (AList.delete ?ck (children (h p))))" using dst by (rule distinct_delete)
      moreover have "(fst e, i) \<in> set (AList.delete ?ck (children (h p)))" using e \<open>snd e = i\<close> by (metis prod.collapse)
      ultimately have m: "map_of (AList.delete ?ck (children (h p))) (fst e) = Some i" by (rule map_of_is_SomeI)
      then have "fst e \<noteq> ?ck" "map_of (children (h p)) (fst e) = Some i" by (auto simp: map_of_delete split: if_splits)
      then show False using ko unfolding kids_ok_def by blast
    qed
    have "sum_list (map (\<lambda>e. lock_ref (?h (snd e))) (AList.delete ?ck (children (h p))))
        = sum_list (map (\<lambda>e. lock_ref (h (snd e))) (AList.delete ?ck (children (h p))))"
      using oth by (intro arg_cong [of _ _ sum_list] map_cong) auto
    then show ?thesis
      using sum_delete [OF dst mi, of "\<lambda>j. lock_ref (?h j)"] sum_delete [OF dst mi, of "\<lambda>j. lock_ref (h j)"] True
      unfolding lock_sum_def ch by simp
  qed
qed

lemma bump_lock_inv:
  assumes s: "shape ps (root_node s) L P V (nodes s)" and a: "acct_pend i d L H s" and i: "i \<in> L" "i \<noteq> root_node s"
    and at: "attached ps (root_node s) L P V (nodes s) i p" and nn: "0 \<le> lock_ref (nodes s i) + d"
  shows "shape ps (root_node s) L P V (nodes (bump_lock d i s))" "acct_pend p d L H (bump_lock d i s)"
proof -
  note b = bump_lock_fields [OF nn]
  let ?h = "nodes s" and ?r = "root_node s"
  define h' where "h' = ?h(i := (?h i)\<lparr>lock_ref := lock_ref (?h i) + d\<rparr>)"
  note bf1 = b(1) [folded h'_def]
  note bf = b(2-6) [unfolded bf1]
  have same: "children (h' j) = children (?h j) \<and> parent (h' j) = parent (?h j) \<and> node_key (h' j) = node_key (?h j) \<and> node_value (h' j) = node_value (?h j)" for j
    by (simp add: h'_def)
  show "shape ps ?r L P V (nodes (bump_lock d i s))"
    unfolding bf1 by (subst shape_cong [of h' ?h]) (use s same in auto)
  have pi: "p \<noteq> i" using attached_longer [OF at] s by (auto simp: shape_def)
  have lr: "lock_ref (h' j) = lock_ref (?h j) + (if j = i then d else 0)" for j by (simp add: h'_def)
  have oth: "free_tokens h' j = free_tokens ?h j" "held_tokens h' j = held_tokens ?h j" "free_leaf h' j = free_leaf ?h j" if "j \<noteq> i" for j
    using that by (simp_all add: h'_def free_tokens_def held_tokens_def free_leaf_def)
  have fin: "finite (L - {?r})" "i \<in> L - {?r}" using s i by (auto simp: shape_def)
  have ok: "0 \<le> lock_ref (h' j) \<and> lock_ref (h' j) + (if j = p then d else 0) = int (H j) + lock_sum h' j" if j: "j \<in> L" "j \<noteq> ?r" for j
  proof -
    have "0 \<le> lock_ref (?h j)" "lock_ref (?h j) + (if j = i then d else 0) = int (H j) + lock_sum ?h j"
      using a j unfolding acct_pend_def by blast+
    moreover have "lock_sum h' j = lock_sum ?h j + (if j = p then d else 0)"
      unfolding h'_def by (rule lock_sum_bump [OF s j(1) i at])
    ultimately show ?thesis using lr [of j] nn pi by (cases "j = i"; cases "j = p") simp_all
  qed
  have ev: "evictable_size s = sum (free_tokens ?h) (L - {?r})" "protected_size s = sum (held_tokens ?h) (L - {?r})"
    "evictable_leaves s = {j \<in> L. j \<noteq> ?r \<and> free_leaf ?h j}" "L \<subseteq> {..<counter s}" "\<forall>j. j \<notin> L \<longrightarrow> H j = 0" "0 < lock_ref (?h ?r)"
    using a unfolding acct_pend_def by blast+
  have "{j \<in> L. j \<noteq> ?r \<and> free_leaf h' j} = (if free_leaf h' i then insert i (evictable_leaves s) else evictable_leaves s - {i})"
    unfolding ev(3) using i oth(3) by (intro set_eqI, rename_tac x, case_tac "x = i") auto
  moreover have "0 < lock_ref (h' ?r)" using ev(6) i(2) by (simp add: h'_def)
  ultimately show "acct_pend p d L H (bump_lock d i s)"
    unfolding acct_pend_def bf1 bf using ok ev(1,2,4,5) sum_one_changed [OF fin oth(1)] sum_one_changed [OF fin oth(2)] by simp
qed

subsection \<open>The lock loops\<close>

text \<open>Only lock counters differ.\<close>

definition locks_only :: "radix_cache \<Rightarrow> radix_cache \<Rightarrow> bool" where
  "locks_only s s' \<longleftrightarrow> root_node s' = root_node s \<and> counter s' = counter s
     \<and> (\<forall>j. nodes s' j = (nodes s j)\<lparr>lock_ref := lock_ref (nodes s' j)\<rparr>)"

lemma locks_only_refl [simp]: "locks_only s s"
  by (simp add: locks_only_def)

lemma locks_only_trans:
  assumes "locks_only s t" "locks_only t u"
  shows "locks_only s u"
proof -
  have "nodes u j = (nodes s j)\<lparr>lock_ref := lock_ref (nodes u j)\<rparr>" for j
  proof -
    obtain x y where "nodes t j = (nodes s j)\<lparr>lock_ref := x\<rparr>" "nodes u j = (nodes t j)\<lparr>lock_ref := y\<rparr>"
      using assms unfolding locks_only_def by metis
    then show ?thesis by simp
  qed
  then show ?thesis using assms by (simp add: locks_only_def)
qed

lemma locks_only_bump: "0 \<le> lock_ref (nodes s i) + d \<Longrightarrow> locks_only s (bump_lock d i s)"
  by (simp add: locks_only_def bump_lock_fields)

definition rank :: "nat set \<Rightarrow> (nat \<Rightarrow> tok list) \<Rightarrow> nat \<Rightarrow> nat" where
  "rank L P i = card {j \<in> L. length (P j) < length (P i)}"

lemma rank_parent:
  assumes "shape ps r L P V h" "attached ps r L P V h i p"
  shows "rank L P p < rank L P i"
proof -
  have l: "length (P p) < length (P i)" using attached_longer [OF assms(2)] assms(1) by (simp add: shape_def)
  have "p \<in> L" using assms(2) by (simp add: attached_def)
  then have "{j \<in> L. length (P j) < length (P p)} \<subset> {j \<in> L. length (P j) < length (P i)}" using l by auto
  then show ?thesis using assms(1) unfolding rank_def shape_def by (intro psubset_card_mono) auto
qed

lemma rank_bound:
  assumes "tree_inv cf L P V H s"
  shows "rank L P i < Suc (counter s)"
proof -
  have "{j \<in> L. length (P j) < length (P i)} \<subseteq> {..<counter s}" using tree_inv_acct [OF assms] by (auto simp: acct_parts)
  then have "card {j \<in> L. length (P j) < length (P i)} \<le> card {..<counter s}" by (intro card_mono) simp_all
  then show ?thesis by (simp add: rank_def)
qed

lemma kids_nonneg:
  assumes "shape ps (root_node s) L P V (nodes s)" "acct_pend q d L H s" "p \<in> L"
  shows "0 \<le> lock_sum (nodes s) p"
proof -
  have "0 \<le> lock_ref (nodes s (snd e))" if e: "e \<in> set (children (nodes s p))" for e
  proof -
    have ko: "kids_ok ps (root_node s) L (nodes s) p" by (rule shape_kids [OF assms(1,3)])
    then have "map_of (children (nodes s p)) (fst e) = Some (snd e)" using e unfolding kids_ok_def by (simp add: map_of_is_SomeI)
    then have "snd e \<in> L" "snd e \<noteq> root_node s" using ko unfolding kids_ok_def by blast+
    then show ?thesis using assms(2) unfolding acct_pend_def by blast
  qed
  then show ?thesis unfolding lock_sum_def by (intro sum_list_nonneg) auto
qed

lemma lock_loops:
  assumes "shape (cache_page_size cf) (root_node s) L P V (nodes s)" "acct_pend i d L H s" "i \<in> L" "rank L P i < fuel"
    and "d = 1 \<and> loop = inc_lock_loop \<or> d = -1 \<and> loop = dec_lock_loop"
  shows "\<exists>s'. loop fuel (Some i) delta s = Inr (delta + (evictable_size s' - evictable_size s), s')
    \<and> tree_inv cf L P V H s' \<and> locks_only s s'"
  using assms(1-4)
proof (induction fuel arbitrary: i delta s)
  case (Suc fuel)
  note sh = Suc.prems(1) and ap = Suc.prems(2) and i = Suc.prems(3)
  show ?case
  proof (cases "i = root_node s")
    case True
    have "acct L H s" using ap acct_pend_root [of s d] True by simp
    moreover have "loop (Suc fuel) (Some i) delta s = Inr (delta, s)" using assms(5) True by auto
    ultimately show ?thesis using sh by (intro exI [of _ s]) (simp add: tree_inv_def)
  next
    case False
    obtain p where at: "attached (cache_page_size cf) (root_node s) L P V (nodes s) i p" using shape_attached [OF sh i False] by blast
    have p: "p \<in> L" "parent (nodes s i) = Some p" using at by (auto simp: attached_def)
    have lk: "0 \<le> lock_ref (nodes s i)" "lock_ref (nodes s i) + d = int (H i) + lock_sum (nodes s) i"
      using ap i False unfolding acct_pend_def by force+
    have nn: "0 \<le> lock_ref (nodes s i) + d" using lk(2) kids_nonneg [OF sh ap i] by simp
    let ?s = "bump_lock d i s"
    note bi = bump_lock_inv [OF sh ap i False at nn]
    have r: "root_node ?s = root_node s" using bump_lock_fields(2) [OF nn] .
    have step: "loop (Suc fuel) (Some i) delta s = loop fuel (Some p) (delta + (evictable_size ?s - evictable_size s)) ?s"
      using assms(5)
    proof (elim disjE conjE)
      assume "d = 1" "loop = inc_lock_loop"
      then show ?thesis using inc_lock_step [OF lk(1) False] p(2) by (simp del: inc_lock_loop.simps)
    next
      assume "d = -1" "loop = dec_lock_loop"
      then show ?thesis using dec_lock_step [of s i, OF _ False] p(2) nn by (simp del: dec_lock_loop.simps)
    qed
    have "rank L P p < fuel" using rank_parent [OF sh at] Suc.prems(4) by simp
    from Suc.IH [OF _ bi(2) p(1) this, of "delta + (evictable_size ?s - evictable_size s)"] bi(1) r
    obtain s' where "loop fuel (Some p) (delta + (evictable_size ?s - evictable_size s)) ?s
        = Inr (delta + (evictable_size ?s - evictable_size s) + (evictable_size s' - evictable_size ?s), s')"
      "tree_inv cf L P V H s'" "locks_only ?s s'" by auto
    then show ?thesis using step locks_only_trans [OF locks_only_bump [OF nn]] by (intro exI [of _ s']) simp
  qed
qed simp

lemma inc_lock_inv:
  assumes inv: "tree_inv cf L P V H s" and i: "i \<in> L" and en: "\<not> disable cf"
  shows "\<exists>s'. inc_lock_ref cf i s = Inr (evictable_size s' - evictable_size s, s')
    \<and> tree_inv cf L P V (H(i := H i + 1)) s' \<and> locks_only s s'"
proof -
  have "acct_pend i 1 L (H(i := H i + 1)) s" by (rule acct_pend_start [OF tree_inv_acct [OF inv] i]) simp_all
  from lock_loops [OF tree_inv_shape [OF inv] this i rank_bound [OF inv], of inc_lock_loop 0] show ?thesis
    using en by (simp add: inc_lock_ref_def del: inc_lock_loop.simps)
qed

lemma dec_lock_inv:
  assumes inv: "tree_inv cf L P V H s" and i: "i \<in> L" "0 < H i" and en: "\<not> disable cf"
  shows "\<exists>s'. dec_lock_ref cf i s = Inr (evictable_size s' - evictable_size s, s')
    \<and> tree_inv cf L P V (H(i := H i - 1)) s' \<and> locks_only s s'"
proof -
  have "acct_pend i (-1) L (H(i := H i - 1)) s" by (rule acct_pend_start [OF tree_inv_acct [OF inv] i(1)]) (use i(2) in simp_all)
  from lock_loops [OF tree_inv_shape [OF inv] this i(1) rank_bound [OF inv], of dec_lock_loop 0] show ?thesis
    using en by (simp add: dec_lock_ref_def del: dec_lock_loop.simps)
qed

subsection \<open>Eviction\<close>

text \<open>A tree with unlocked tokens has an unlocked leaf: the children of an unlocked node are unlocked.\<close>

lemma no_leaf_no_tokens:
  assumes inv: "tree_inv cf L P V H s" and none: "evictable_leaves s = {}"
  shows "evictable_size s = 0"
proof (rule ccontr)
  let ?r = "root_node s" and ?h = "nodes s"
  have s: "shape (cache_page_size cf) ?r L P V ?h" and a: "acct L H s" using inv by (simp_all add: tree_inv_def)
  let ?U = "{i \<in> L. i \<noteq> ?r \<and> lock_ref (?h i) = 0}"
  assume "evictable_size s \<noteq> 0"
  then have "sum (free_tokens ?h) (L - {?r}) \<noteq> 0" using acctD(5) [OF a] by simp
  then obtain i where "i \<in> L - {?r}" "free_tokens ?h i \<noteq> 0" by (metis sum.neutral)
  then have U: "?U \<noteq> {}" "finite ?U" using s by (auto simp: free_tokens_def shape_def split: if_splits)
  have "Max ((\<lambda>j. length (P j)) ` ?U) \<in> (\<lambda>j. length (P j)) ` ?U" using U by (intro Max_in) auto
  then obtain i where i: "i \<in> ?U" and im: "length (P i) = Max ((\<lambda>j. length (P j)) ` ?U)" by auto
  have mx: "\<forall>j\<in>?U. length (P j) \<le> length (P i)" unfolding im using U(2) by (intro ballI Max_ge) auto
  show False
  proof (cases "children (?h i)")
    case Nil
    then have "i \<in> evictable_leaves s" using i unfolding acctD(7) [OF a] by (simp add: free_leaf_def)
    then show False using none by simp
  next
    case (Cons e es)
    have ko: "kids_ok (cache_page_size cf) ?r L ?h i" using shape_kids [OF s] i by simp
    then have mp: "map_of (children (?h i)) (fst e) = Some (snd e)" using Cons unfolding kids_ok_def by (simp add: map_of_is_SomeI)
    then have c: "snd e \<in> L" "snd e \<noteq> ?r" "attached (cache_page_size cf) ?r L P V ?h (snd e) i" using shape_child [OF s _ mp] i by auto
    have "acct_pend ?r 0 L H s" using a acct_pend_root [of s 0] by simp
    then have "0 \<le> lock_sum ?h i" using kids_nonneg [OF s] i by blast
    moreover have "lock_sum ?h i = - int (H i)" using i acctD(4) [OF a, of i] by (simp add: lock_ok_def)
    ultimately have z: "lock_sum ?h i = 0" by simp
    have nn: "\<forall>x\<in>set (map (\<lambda>e. lock_ref (?h (snd e))) (children (?h i))). 0 \<le> x"
    proof -
      have "0 \<le> lock_ref (?h (snd f))" if "f \<in> set (children (?h i))" for f
      proof -
        have "map_of (children (?h i)) (fst f) = Some (snd f)" using that ko unfolding kids_ok_def by (simp add: map_of_is_SomeI)
        then show ?thesis using shape_child [OF s, of i "fst f" "snd f"] i acctD(4) [OF a, of "snd f"] by (auto simp: lock_ok_def)
      qed
      then show ?thesis by auto
    qed
    have "lock_ref (?h (snd e)) = 0"
    proof -
      have "0 \<le> sum_list (map (\<lambda>e. lock_ref (?h (snd e))) es)" using nn Cons by (intro sum_list_nonneg) auto
      then show ?thesis using z nn Cons by (simp add: lock_sum_def)
    qed
    then have "snd e \<in> ?U" using c by simp
    then have "length (P (snd e)) \<le> length (P i)" using mx by blast
    then show False using attached_longer [OF c(3)] s by (simp add: shape_def)
  qed
qed

text \<open>What eviction leaves behind: fewer nodes, the others as they were up to their children.\<close>

definition pruned :: "nat set \<Rightarrow> radix_cache \<Rightarrow> nat set \<Rightarrow> radix_cache \<Rightarrow> bool" where
  "pruned L s L' s' \<longleftrightarrow> L' \<subseteq> L \<and> root_node s' = root_node s \<and> counter s' = counter s \<and> protected_size s' = protected_size s
     \<and> (\<forall>i. nodes s' i = (nodes s i)\<lparr>children := children (nodes s' i)\<rparr>)
     \<and> (\<forall>i\<in>L - L'. lock_ref (nodes s i) = 0)"

lemma evict_loop_spec:
  assumes "tree_inv cf L P V H s" "mset (map snd heap) = mset_set (evictable_leaves s)" "card L \<le> fuel"
  shows "\<exists>freed' s' L'. evict_loop cf h fuel n k heap freed s = Inr (freed @ freed', k + length (concat freed'), s')
    \<and> tree_inv cf L' P V H s' \<and> pruned L s L' s' \<and> evictable_size s' = evictable_size s - int (length (concat freed'))
    \<and> tree_slots L (nodes s) = tree_slots L' (nodes s') + mset (concat freed')
    \<and> (n \<le> k + length (concat freed') \<or> evictable_leaves s' = {})"
  using assms
proof (induction fuel arbitrary: L heap s k freed)
  case 0
  then have "L = {}" using tree_inv_shape [OF 0(1)] by (auto simp: shape_def)
  then show ?case using tree_inv_root [OF 0(1)] by simp
next
  case (Suc fuel)
  note inv = Suc.prems(1) and hp = Suc.prems(2)
  let ?r = "root_node s"
  have sh: "shape (cache_page_size cf) ?r L P V (nodes s)" and a: "acct L H s" using inv by (simp_all add: tree_inv_def)
  have finL: "finite L" using sh by (simp add: shape_def)
  have finE: "finite (evictable_leaves s)" using finL unfolding acctD(7) [OF a] by simp
  show ?case
  proof (cases "k < n \<and> heap \<noteq> []")
    case False
    have "n \<le> k \<or> evictable_leaves s = {}"
      using False hp finE by (auto simp: mset_set_empty_iff)
    then show ?thesis using False inv by (intro exI [of _ "[]"] exI [of _ s] exI [of _ L]) (auto simp: pruned_def)
  next
    case True
    obtain pr x heap1 where pop: "heappop (entry_lt h) heap = Inr ((pr, x), heap1)" using heappop_total [of heap "entry_lt h"] True by auto
    have mh: "mset (map snd heap) = add_mset x (mset (map snd heap1))"
      using mset_heappop [OF pop] by (metis image_mset_add_mset mset_map snd_conv)
    then have xin: "x \<in># mset_set (evictable_leaves s)" using hp by (metis union_single_eq_member)
    then have xe: "x \<in> evictable_leaves s" using finE by simp
    then have x: "x \<in> L" "x \<noteq> ?r" "free_leaf (nodes s) x" unfolding acctD(7) [OF a] by auto
    obtain p s1 where at: "attached (cache_page_size cf) ?r L P V (nodes s) x p" and del: "delete_leaf cf x s = Inr s1"
      and inv1: "tree_inv cf (L - {x}) P V H s1" and r1: "root_node s1 = ?r" "counter s1 = counter s"
      and ch: "\<And>i. children (nodes s1 i) = (if i = p then AList.delete (child_key_fn cf (node_key (nodes s x))) (children (nodes s p)) else children (nodes s i))"
      and nd: "\<And>i. nodes s1 i = (nodes s i)\<lparr>children := children (nodes s1 i)\<rparr>"
      using delete_leaf_inv [OF inv x] by metis
    have a1: "acct (L - {x}) H s1" using inv1 by (rule tree_inv_acct)
    have fl: "parent (nodes s1 i) = parent (nodes s i) \<and> node_key (nodes s1 i) = node_key (nodes s i) \<and> node_value (nodes s1 i) = node_value (nodes s i)
        \<and> lock_ref (nodes s1 i) = lock_ref (nodes s i)" for i by (subst (1 2 3 4) nd) simp
    have p: "p \<in> L" "parent (nodes s1 x) = Some p" "p \<noteq> x"
      using at fl attached_longer [OF at] sh by (auto simp: attached_def shape_def)
    let ?v = "node_value (nodes s x)"
    have vl: "length ?v = length (toks (nodes s) x)" using at by (simp add: attached_def)
    let ?push = "children (nodes s1 p) = [] \<and> lock_ref (nodes s1 p) = 0"
    define heap2 where "heap2 = (if ?push then heappush (entry_lt h) heap1 (get_priority (strategy cf) (nodes s1 p), p) else heap1)"
    have nr: "p \<noteq> ?r" if "lock_ref (nodes s1 p) = 0" using that acctD(3) [OF a1] r1 by auto
    have ev: "evictable_leaves s1 = (if ?push then insert p (evictable_leaves s - {x}) else evictable_leaves s - {x})"
      and pnot: "p \<notin> evictable_leaves s"
    proof -
      have "map_of (children (nodes s p)) (child_key_fn cf (node_key (nodes s x))) = Some x" using at by (simp add: attached_def)
      then show pn: "p \<notin> evictable_leaves s" unfolding acctD(7) [OF a] by (auto simp: free_leaf_def)
      have "free_leaf (nodes s1) i = free_leaf (nodes s) i" if "i \<noteq> p" for i using that ch [of i] fl [of i] by (simp add: free_leaf_def)
      then show "evictable_leaves s1 = (if ?push then insert p (evictable_leaves s - {x}) else evictable_leaves s - {x})"
        using pn nr p(1,3) unfolding acctD(7) [OF a] acctD(7) [OF a1] r1
        by (intro set_eqI, rename_tac i, case_tac "i = p") (auto simp: free_leaf_def)
    qed
    have "mset (map snd heap1) = mset_set (evictable_leaves s - {x})" using mh hp xe finE
      by (simp add: mset_set_Diff) (metis add_mset_remove_trivial)
    then have hp2: "mset (map snd heap2) = mset_set (evictable_leaves s1)"
      using ev pnot finE mset_heappush [of "entry_lt h" heap1] by (auto simp: heap2_def)
    have card: "card (L - {x}) \<le> fuel" using Suc.prems(3) x(1) finL by (simp add: card_Diff_singleton)
    from Suc.IH [OF inv1 hp2 card, of "k + length ?v" "freed @ [?v]"]
    obtain freed' s' L' where ih: "evict_loop cf h fuel n (k + length ?v) heap2 (freed @ [?v]) s1
          = Inr ((freed @ [?v]) @ freed', k + length ?v + length (concat freed'), s')"
      "tree_inv cf L' P V H s'" "pruned (L - {x}) s1 L' s'" "evictable_size s' = evictable_size s1 - int (length (concat freed'))"
      "tree_slots (L - {x}) (nodes s1) = tree_slots L' (nodes s') + mset (concat freed')"
      "n \<le> k + length ?v + length (concat freed') \<or> evictable_leaves s' = {}" by blast
    have lx: "lock_ref (nodes s x) = 0" using x(3) by (simp add: free_leaf_def)
    have sz: "evictable_size s1 = evictable_size s - int (length ?v)" "protected_size s1 = protected_size s"
    proof -
      have ft: "free_tokens (nodes s1) = free_tokens (nodes s)" "held_tokens (nodes s1) = held_tokens (nodes s)"
        using fl by (auto simp: free_tokens_def held_tokens_def)
      have e: "L - {x} - {?r} = L - {?r} - {x}" by auto
      have "sum f (L - {?r}) = f x + sum f (L - {?r} - {x})" for f :: "nat \<Rightarrow> int"
        using sum.remove [of "L - {?r}" x f] finL x by simp
      then show "evictable_size s1 = evictable_size s - int (length ?v)" "protected_size s1 = protected_size s"
        unfolding acctD(5) [OF a1] acctD(5) [OF a] acctD(6) [OF a1] acctD(6) [OF a] r1 ft e
        using lx vl by (simp_all add: free_tokens_def [of _ x] held_tokens_def [of _ x])
    qed
    have slots: "tree_slots L (nodes s) = mset ?v + tree_slots (L - {x}) (nodes s1)"
      using sum.remove [OF finL x(1), of "\<lambda>i. mset (node_value (nodes s i))"] fl by (simp add: tree_slots_def)
    have "evict_loop cf h (Suc fuel) n k heap freed s = Inr (freed @ (?v # freed'), k + length (concat (?v # freed')), s')"
      using True pop del p(2) ih(1) by (simp add: heap2_def Let_def add.assoc)
    moreover have "pruned L s L' s'"
    proof -
      have "nodes s' i = (nodes s i)\<lparr>children := children (nodes s' i)\<rparr>" for i
      proof -
        have "nodes s' i = (nodes s1 i)\<lparr>children := children (nodes s' i)\<rparr>" using ih(3) unfolding pruned_def by blast
        then show ?thesis using nd [of i] by (metis tree_node.surjective tree_node.update_convs(1) tree_node.select_convs(1))
      qed
      then show ?thesis using ih(3) r1 sz(2) lx fl unfolding pruned_def by auto
    qed
    ultimately show ?thesis using ih sz(1) slots
      by (intro exI [of _ "?v # freed'"] exI [of _ s'] exI [of _ L']) (auto simp: add.assoc union_ac)
  qed
qed

subsection \<open>What eviction guarantees\<close>

definition live :: "radix_cache \<Rightarrow> nat set" where
  "live s = {j. \<exists>ts vs. path_to s j ts vs}"

definition cached_slots :: "radix_cache \<Rightarrow> int multiset" where
  "cached_slots s = tree_slots (live s) (nodes s)"

text \<open>\<^verbatim>\<open>list(s)\<close> of a Python set: every element once, in some order.\<close>

definition enumerates :: "(nat set \<Rightarrow> nat list) \<Rightarrow> bool" where
  "enumerates f \<longleftrightarrow> (\<forall>A. finite A \<longrightarrow> distinct (f A) \<and> set (f A) = A)"

lemma live_eq:
  assumes "tree_inv cf L P V H s"
  shows "live s = L"
  unfolding live_def using path_to_inv [OF _ assms] inv_path_to [OF assms] by blast

lemma evict_spec:
  assumes inv: "tree_inv cf L P V H s" and en: "\<not> disable cf" "enumerates (list_of cf)"
  shows "\<exists>freed s' L'. evict cf n s = Inr (freed, length (concat freed), s') \<and> tree_inv cf L' P V H s' \<and> pruned L s L' s'
    \<and> evictable_size s' = evictable_size s - int (length (concat freed))
    \<and> tree_slots L (nodes s) = tree_slots L' (nodes s') + mset (concat freed)
    \<and> (n \<le> length (concat freed) \<or> evictable_leaves s' = {})"
proof -
  let ?ids = "list_of cf (evictable_leaves s)"
  let ?entries = "map (\<lambda>i. (get_priority (strategy cf) (nodes s i), i)) ?ids"
  have finL: "finite L" using tree_inv_shape [OF inv] by (simp add: shape_def)
  then have fin: "finite (evictable_leaves s)" unfolding acctD(7) [OF tree_inv_acct [OF inv]] by simp
  then have "mset ?ids = mset_set (evictable_leaves s)" using en(2) mset_set_set [of ?ids] by (simp add: enumerates_def)
  moreover have "mset (map snd (heapify (entry_lt (nodes s)) ?entries)) = mset (map snd ?entries)"
    by (simp only: mset_map mset_heapify)
  moreover have "map snd ?entries = ?ids" by (simp add: comp_def)
  ultimately have hp: "mset (map snd (heapify (entry_lt (nodes s)) ?entries)) = mset_set (evictable_leaves s)" by metis
  have "card L \<le> card {..<counter s}" using acctD(1) [OF tree_inv_acct [OF inv]] by (intro card_mono) auto
  then have "card L \<le> Suc (counter s)" by simp
  from evict_loop_spec [OF inv hp this, of "nodes s" n 0 "[]"] show ?thesis
    using en(1) by (simp add: evict_def Let_def del: evict_loop.simps)
qed

lemma held_locked:
  assumes "tree_inv cf L P V H s" "j \<in> L" "j \<noteq> root_node s" "0 < H j"
  shows "0 < lock_ref (nodes s j)"
proof -
  have a: "acct_pend (root_node s) 0 L H s" using tree_inv_acct [OF assms(1)] acct_pend_root [of s 0] by simp
  have "0 \<le> lock_sum (nodes s) j" by (rule kids_nonneg [OF tree_inv_shape [OF assms(1)] a assms(2)])
  then show ?thesis using acctD(4) [OF tree_inv_acct [OF assms(1)] assms(2,3)] assms(4) by (simp add: lock_ok_def)
qed

lemma sizes_nonneg:
  assumes "tree_inv cf L P V H s"
  shows "0 \<le> evictable_size s" "0 \<le> protected_size s"
  unfolding acctD(5,6) [OF tree_inv_acct [OF assms]]
  by (auto intro!: sum_nonneg simp: free_tokens_def held_tokens_def split: if_splits)

text \<open>C31 Eviction always returns and frees what was asked for, or everything that is not locked: at least the minimum
  of the requested number and the evictable size. The freed slots are exactly the slots that leave the tree, the size
  counters follow, prefixes on which a lock is held stay cached with their slots, and nothing is added to the cache.\<close>

theorem evict_frees_enough:
  assumes "radix_ok cf H s" "\<not> disable cf" "enumerates (list_of cf)"
  shows "\<exists>freed s'. evict cf n s = Inr (freed, length (concat freed), s') \<and> radix_ok cf H s'
    \<and> min (int n) (evictable_size s) \<le> int (length (concat freed))
    \<and> evictable_size s' = evictable_size s - int (length (concat freed)) \<and> protected_size s' = protected_size s
    \<and> cached_slots s = cached_slots s' + mset (concat freed)
    \<and> (\<forall>j ts vs. 0 < H j \<longrightarrow> path_to s j ts vs \<longrightarrow> path_to s' j ts vs)
    \<and> (\<forall>x ts vs. in_cache cf s' x ts vs \<longrightarrow> in_cache cf s x ts vs)"
proof -
  obtain L P V where inv: "tree_inv cf L P V H s" using assms(1) by (auto simp: radix_ok_def)
  obtain freed s' L' where ev: "evict cf n s = Inr (freed, length (concat freed), s')" "tree_inv cf L' P V H s'" and pr: "pruned L s L' s'"
    and sz: "evictable_size s' = evictable_size s - int (length (concat freed))"
    and sl: "tree_slots L (nodes s) = tree_slots L' (nodes s') + mset (concat freed)"
    and dn: "n \<le> length (concat freed) \<or> evictable_leaves s' = {}"
    using evict_spec [OF inv assms(2,3)] by blast
  have "min (int n) (evictable_size s) \<le> int (length (concat freed))"
    using dn
  proof
    assume "evictable_leaves s' = {}"
    then show ?thesis using no_leaf_no_tokens [OF ev(2)] sz by simp
  qed simp
  moreover have "path_to s' j ts vs" if "0 < H j" "path_to s j ts vs" for j ts vs
  proof -
    have j: "j \<in> L" "ts = P j" "vs = V j" using path_to_inv [OF that(2) inv] by auto
    have "j \<in> L'"
    proof (rule ccontr)
      assume "j \<notin> L'"
      then have "lock_ref (nodes s j) = 0" "j \<noteq> root_node s" using j(1) pr tree_inv_root [OF ev(2)] by (auto simp: pruned_def)
      then show False using held_locked [OF inv j(1) _ that(1)] by simp
    qed
    then show ?thesis using inv_path_to [OF ev(2)] j by simp
  qed
  moreover have "in_cache cf s x ts vs" if "in_cache cf s' x ts vs" for x ts vs
  proof -
    have "node_key (nodes s' i) = node_key (nodes s i)" for i using pr unfolding pruned_def by (metis tree_node.surjective tree_node.update_convs(1) tree_node.select_convs(3))
    then have "cached L P V s x ts vs" if "cached L' P V s' x ts vs" using that pr unfolding cached_def pruned_def by auto
    then show ?thesis using that in_cache_iff [OF inv] in_cache_iff [OF ev(2)] by blast
  qed
  moreover have "radix_ok cf H s'" "protected_size s' = protected_size s" "cached_slots s = cached_slots s' + mset (concat freed)"
    using ev(2) pr sl live_eq [OF inv] live_eq [OF ev(2)] by (auto simp: radix_ok_def pruned_def cached_slots_def)
  ultimately show ?thesis using ev(1) sz by blast
qed

subsection \<open>Histories of the cache\<close>

lemma reset_inv:
  assumes "0 < cache_page_size cf"
  shows "tree_inv cf {counter s} (\<lambda>_. []) (\<lambda>_. []) (\<lambda>_. 0) (reset cf s)"
proof (rule tree_invI)
  show "shape (cache_page_size cf) (root_node (reset cf s)) {counter s} (\<lambda>_. []) (\<lambda>_. []) (nodes (reset cf s))"
    using assms by (auto simp: shape_def reset_def new_node_def read_clock_def upd_node_def Let_def kids_ok_def)
  show "acct {counter s} (\<lambda>_. 0) (reset cf s)"
    by (rule acctI) (auto simp: reset_def new_node_def read_clock_def upd_node_def Let_def)
qed

text \<open>A history: requests match, insert, lock nodes of the tree, release locks they hold, and the allocator asks for
  eviction, in any order. \<open>H\<close> counts the locks held.\<close>

inductive radix_reach :: "cache_config \<Rightarrow> (nat \<Rightarrow> nat) \<Rightarrow> radix_cache \<Rightarrow> bool" for cf where
  init: "radix_reach cf (\<lambda>_. 0) (radix_init cf)"
| reset: "radix_reach cf H s \<Longrightarrow> radix_reach cf (\<lambda>_. 0) (reset cf s)"
| matched: "radix_reach cf H s \<Longrightarrow> match_prefix cf key s = Inr (idx, m, s') \<Longrightarrow> radix_reach cf H s'"
| inserted: "radix_reach cf H s \<Longrightarrow> radix_insert cf key val prio chunked s = Inr (n, s')
    \<Longrightarrow> is_eagle cf \<longrightarrow> is_bigram key \<Longrightarrow> cache_page_size cf dvd length (token_ids key) \<Longrightarrow> length val = length (token_ids key)
    \<Longrightarrow> radix_reach cf H s'"
| locked: "radix_reach cf H s \<Longrightarrow> i \<in> live s \<Longrightarrow> inc_lock_ref cf i s = Inr (d, s') \<Longrightarrow> radix_reach cf (H(i := H i + 1)) s'"
| unlocked: "radix_reach cf H s \<Longrightarrow> 0 < H i \<Longrightarrow> dec_lock_ref cf i s = Inr (d, s') \<Longrightarrow> radix_reach cf (H(i := H i - 1)) s'"
| evicted: "radix_reach cf H s \<Longrightarrow> evict cf n s = Inr (freed, k, s') \<Longrightarrow> radix_reach cf H s'"

lemma held_live:
  assumes "tree_inv cf L P V H s" "0 < H i"
  shows "i \<in> L"
  using acctD(2) [OF tree_inv_acct [OF assms(1)], of i] assms(2) by (cases "i \<in> L") auto

lemma radix_reach_ok:
  assumes "radix_reach cf H s" "0 < cache_page_size cf" "\<not> disable cf" "enumerates (list_of cf)"
  shows "radix_ok cf H s"
  using assms(1)
proof (induction rule: radix_reach.induct)
  case init
  then show ?case using reset_inv [OF assms(2)] unfolding radix_ok_def radix_init_def by blast
next
  case (reset H s)
  then show ?case using reset_inv [OF assms(2)] unfolding radix_ok_def by blast
next
  case (matched H s key idx m s')
  obtain L P V where inv: "tree_inv cf L P V H s" using matched.IH by (auto simp: radix_ok_def)
  show ?case using match_prefix_walk [OF inv assms(3), of key] matched.hyps(2) by (auto simp: radix_ok_def walked_def)
next
  case (inserted H s key val prio chunked n s')
  obtain L P V where inv: "tree_inv cf L P V H s" using inserted.IH by (auto simp: radix_ok_def)
  show ?case using insert_walk [OF inv assms(3) inserted.hyps(3-5), of prio chunked] inserted.hyps(2) by (auto simp: radix_ok_def)
next
  case (locked H s i d s')
  obtain L P V where inv: "tree_inv cf L P V H s" using locked.IH by (auto simp: radix_ok_def)
  have "i \<in> L" using locked.hyps(2) live_eq [OF inv] by simp
  then show ?case using inc_lock_inv [OF inv _ assms(3)] locked.hyps(3) unfolding radix_ok_def by force
next
  case (unlocked H s i d s')
  obtain L P V where inv: "tree_inv cf L P V H s" using unlocked.IH by (auto simp: radix_ok_def)
  have "i \<in> L" by (rule held_live [OF inv unlocked.hyps(2)])
  then show ?case using dec_lock_inv [OF inv _ unlocked.hyps(2) assms(3)] unlocked.hyps(3) unfolding radix_ok_def by force
next
  case (evicted H s n freed k s')
  obtain L P V where inv: "tree_inv cf L P V H s" using evicted.IH by (auto simp: radix_ok_def)
  show ?case using evict_spec [OF inv assms(3,4), of n] evicted.hyps(2) unfolding radix_ok_def by force
qed

subsection \<open>The total size\<close>

text \<open>The traversal with a stack: \<open>U\<close> are the nodes still to be counted, those below the nodes on the stack.\<close>

lemma total_size_loop_spec:
  assumes inv: "tree_inv cf L P V H s"
  shows "U = {j \<in> L. \<exists>i\<in>set stack. anc (nodes s) i j} \<Longrightarrow> distinct stack \<Longrightarrow> set stack \<subseteq> L
    \<Longrightarrow> (\<And>i j. i \<in> set stack \<Longrightarrow> j \<in> set stack \<Longrightarrow> anc (nodes s) i j \<Longrightarrow> i = j) \<Longrightarrow> card U < fuel
    \<Longrightarrow> total_size_loop fuel stack n s = Inr (n + (\<Sum>i\<in>U. length (node_value (nodes s i))))"
proof (induction fuel arbitrary: stack U n)
  case (Suc fuel)
  let ?r = "root_node s" and ?h = "nodes s"
  have sh: "shape (cache_page_size cf) ?r L P V ?h" by (rule tree_inv_shape [OF inv])
  have finU: "finite U" using sh unfolding Suc.prems(1) by (simp add: shape_def)
  show ?case
  proof (cases stack rule: rev_cases)
    case Nil
    then show ?thesis using Suc.prems(1) by simp
  next
    case (snoc st x)
    have x: "x \<in> L" "x \<in> U" using Suc.prems(1,3) snoc by auto
    let ?kids = "map snd (children (?h x))" and ?U = "U - {x}"
    have ko: "kids_ok (cache_page_size cf) ?r L ?h x" by (rule shape_kids [OF sh x(1)])
    have kid: "c \<in> L \<and> parent (?h c) = Some x \<and> map_of (children (?h x)) (get_child_key (cache_page_size cf) (node_key (?h c))) = Some c"
      if ck: "c \<in> set ?kids" for c
    proof -
      obtain e where e: "e \<in> set (children (?h x))" "c = snd e" using ck by (metis imageE list.set_map)
      then have m: "map_of (children (?h x)) (fst e) = Some c" using ko unfolding kids_ok_def by (simp add: map_of_is_SomeI)
      then show ?thesis using shape_child [OF sh x(1) m] by (auto simp: attached_def)
    qed
    have kids: "c \<in> set ?kids \<longleftrightarrow> c \<in> L \<and> parent (?h c) = Some x" for c
    proof
      assume c: "c \<in> L \<and> parent (?h c) = Some x"
      then have "c \<noteq> ?r" using sh by (auto simp: shape_def)
      then obtain q where "attached (cache_page_size cf) ?r L P V ?h c q" using shape_attached [OF sh] c by blast
      then have "map_of (children (?h x)) (get_child_key (cache_page_size cf) (node_key (?h c))) = Some c" using c by (simp add: attached_def)
      then show "c \<in> set ?kids" using map_of_SomeD by (metis imageI list.set_map snd_conv)
    qed (use kid in blast)
    have dk: "distinct ?kids"
    proof -
      have inj: "inj_on snd (set (children (?h x)))"
      proof (rule inj_onI)
        fix a b assume ab: "a \<in> set (children (?h x))" "b \<in> set (children (?h x))" "snd a = snd b"
        have "fst e = get_child_key (cache_page_size cf) (node_key (?h (snd e)))" if "e \<in> set (children (?h x))" for e
        proof -
          have "map_of (children (?h x)) (fst e) = Some (snd e)" using ko that unfolding kids_ok_def by (simp add: map_of_is_SomeI)
          then show ?thesis using shape_child [OF sh x(1)] by blast
        qed
        then have "fst a = fst b" using ab by metis
        then show "a = b" using ab(3) by (rule prod_eqI)
      qed
      moreover have "distinct (children (?h x))" using ko distinct_map [of fst] unfolding kids_ok_def by blast
      ultimately show ?thesis by (simp add: distinct_map)
    qed
    have nx: "\<not> anc ?h c x" if cp: "parent (?h c) = Some x" "c \<in> L" for c
    proof
      assume "anc ?h c x"
      then have pf: "prefix (P c) (P x)" using anc_facts [OF sh x(1)] by blast
      have "c \<noteq> ?r" using cp(1) sh by (auto simp: shape_def)
      then obtain q where q: "attached (cache_page_size cf) ?r L P V ?h c q" using shape_attached [OF sh cp(2)] by blast
      have "q = x" "0 < cache_page_size cf" using q cp(1) sh by (simp_all add: attached_def shape_def)
      then have "length (P x) < length (P c)" using attached_longer [OF q] by simp
      then show False using prefix_length_le [OF pf] by simp
    qed
    have anti: "i = x" if "i \<in> set stack" "anc ?h i x \<or> anc ?h x i" for i using Suc.prems(4) that snoc by auto
    have up: "anc ?h i c \<Longrightarrow> i \<noteq> c \<Longrightarrow> anc ?h i x" if "parent (?h c) = Some x" for i c using anc_above [of ?h i c] that by auto
    have up2: "anc ?h x j" if "parent (?h c) = Some x" "anc ?h c j" for c j
      using that unfolding anc_def by (meson converse_rtranclp_into_rtranclp)
    have U': "?U = {j \<in> L. \<exists>i\<in>set (st @ ?kids). anc ?h i j}"
    proof (rule set_eqI)
      fix j
      show "j \<in> ?U \<longleftrightarrow> j \<in> {j \<in> L. \<exists>i\<in>set (st @ ?kids). anc ?h i j}"
      proof
        assume "j \<in> ?U"
        then have j: "j \<in> L" "j \<noteq> x" "\<exists>i\<in>set stack. anc ?h i j" unfolding Suc.prems(1) by auto
        then consider i where "i \<in> set st" "anc ?h i j" | "anc ?h x j" using snoc by auto
        then show "j \<in> {j \<in> L. \<exists>i\<in>set (st @ ?kids). anc ?h i j}"
        proof cases
          case 2
          then obtain t where t: "parent (?h t) = Some x" "anc ?h t j" using anc_below j(2) by metis
          then have "t \<in> L" using anc_facts [OF sh j(1) t(2)] by blast
          then show ?thesis using j(1) t kids by auto
        qed (use j in auto)
      next
        assume "j \<in> {j \<in> L. \<exists>i\<in>set (st @ ?kids). anc ?h i j}"
        then obtain i where i: "j \<in> L" "i \<in> set (st @ ?kids)" "anc ?h i j" by auto
        show "j \<in> ?U"
        proof (cases "i \<in> set st")
          case True
          then have "j \<noteq> x" using anti [of i] i(3) Suc.prems(2) snoc by auto
          then show ?thesis using i True snoc unfolding Suc.prems(1) by auto
        next
          case False
          then have k: "i \<in> L" "parent (?h i) = Some x" using i(2) kids by auto
          then have "j \<noteq> x" "anc ?h x j" using nx i(3) up2 by auto
          then show ?thesis using i(1) snoc unfolding Suc.prems(1) by auto
        qed
      qed
    qed
    have d': "distinct (st @ ?kids)"
      using Suc.prems(2) snoc dk anti kids anc_step [OF anc_refl, of ?h _ x] by auto
    have sub: "set (st @ ?kids) \<subseteq> L" using Suc.prems(3) snoc kids by auto
    have anti': "i = j" if "i \<in> set (st @ ?kids)" "j \<in> set (st @ ?kids)" "anc ?h i j" for i j
    proof (cases "i = j")
      case False
      show ?thesis
      proof (cases "j \<in> set st")
        case True
        show ?thesis
        proof (cases "i \<in> set st")
          case True
          then show ?thesis using Suc.prems(4) [of i j] that \<open>j \<in> set st\<close> snoc by simp
        next
          case False
          then have "anc ?h x j" using that kids up2 by auto
          then show ?thesis using anti [of j] True Suc.prems(2) snoc by auto
        qed
      next
        case jk: False
        then have "anc ?h i x" using that kids up False by auto
        then show ?thesis using anti [of i] nx [of i] that(1) kids Suc.prems(2) snoc by auto
      qed
    qed simp
    have "card ?U < fuel" using card_Diff1_less [OF finU x(2)] Suc.prems(5) by simp
    note ih = Suc.IH [OF U' d' sub anti' this, of "n + length (node_value (?h x))"]
    have "total_size_loop (Suc fuel) stack n s = total_size_loop fuel (st @ ?kids) (n + length (node_value (?h x))) s"
      unfolding snoc by (simp add: Let_def)
    also have "\<dots> = Inr (n + length (node_value (?h x)) + (\<Sum>i\<in>?U. length (node_value (?h i))))" by (rule ih)
    also have "\<dots> = Inr (n + (\<Sum>i\<in>U. length (node_value (?h i))))"
      using sum.remove [OF finU x(2), of "\<lambda>i. length (node_value (?h i))"] by (simp only: add.assoc)
    finally show ?thesis .
  qed
qed simp

lemma total_size_eq:
  assumes inv: "tree_inv cf L P V H s"
  shows "total_size s = Inr (nat (evictable_size s + protected_size s))"
proof -
  let ?r = "root_node s" and ?h = "nodes s"
  have sh: "shape (cache_page_size cf) ?r L P V ?h" and a: "acct L H s" using inv by (simp_all add: tree_inv_def)
  have fin: "finite L" "?r \<in> L" "node_value (?h ?r) = []" using sh by (auto simp: shape_def)
  have U: "L = {j \<in> L. \<exists>i\<in>set [?r]. anc ?h i j}" using root_anc [OF sh] by auto
  have "card L \<le> card {..<counter s}" using acctD(1) [OF a] by (intro card_mono) auto
  then have c: "card L < Suc (counter s)" by simp
  have t: "total_size s = Inr (\<Sum>i\<in>L. length (node_value (?h i)))"
    unfolding total_size_def using total_size_loop_spec [OF inv U _ _ _ c, of 0] fin(2) by simp
  have "(\<Sum>i\<in>L. length (node_value (?h i))) = (\<Sum>i\<in>L - {?r}. length (node_value (?h i)))"
    using fin by (simp add: sum.remove)
  also have "\<dots> = (\<Sum>i\<in>L - {?r}. length (toks ?h i))"
    using shape_attached [OF sh] by (intro sum.cong) (auto simp: attached_def)
  finally have e: "int (\<Sum>i\<in>L. length (node_value (?h i))) = (\<Sum>i\<in>L - {?r}. int (length (toks ?h i)))" by simp
  have "free_tokens ?h i + held_tokens ?h i = int (length (toks ?h i))" for i by (simp add: free_tokens_def held_tokens_def)
  then have "evictable_size s + protected_size s = (\<Sum>i\<in>L - {?r}. int (length (toks ?h i)))"
    unfolding acctD(5,6) [OF a] by (simp add: sum.distrib [symmetric])
  then show ?thesis using t e by (metis nat_int)
qed

lemma lock_up:
  assumes inv: "tree_inv cf L P V H s" and at: "attached (cache_page_size cf) (root_node s) L P V (nodes s) j p"
    and p: "p \<noteq> root_node s" and j: "0 < lock_ref (nodes s j)"
  shows "0 < lock_ref (nodes s p)"
proof -
  let ?h = "nodes s" and ?ck = "get_child_key (cache_page_size cf) (node_key (nodes s j))"
  have sh: "shape (cache_page_size cf) (root_node s) L P V ?h" and a: "acct L H s" using inv by (simp_all add: tree_inv_def)
  have pL: "p \<in> L" and mj: "map_of (children (?h p)) ?ck = Some j" using at by (auto simp: attached_def)
  have ko: "kids_ok (cache_page_size cf) (root_node s) L ?h p" by (rule shape_kids [OF sh pL])
  have "lock_ref (?h j) \<le> lock_sum ?h p" unfolding lock_sum_def
  proof (rule member_le_sum_list)
    show "lock_ref (?h j) \<in> set (map (\<lambda>e. lock_ref (?h (snd e))) (children (?h p)))"
      using imageI [OF map_of_SomeD [OF mj], of "\<lambda>e. lock_ref (?h (snd e))"] by (simp only: list.set_map snd_conv)
    show "0 \<le> x" if x: "x \<in> set (map (\<lambda>e. lock_ref (?h (snd e))) (children (?h p)))" for x
    proof -
      obtain e where e: "x = lock_ref (?h (snd e))" "e \<in> set (children (?h p))" using x unfolding list.set_map by (rule imageE)
      then have m: "map_of (children (?h p)) (fst e) = Some (snd e)" using ko unfolding kids_ok_def by (simp add: map_of_is_SomeI)
      then show ?thesis using shape_child [OF sh pL m] acctD(4) [OF a, of "snd e"] e(1) by (simp add: lock_ok_def)
    qed
  qed
  then show ?thesis using acctD(4) [OF a pL p] j by (simp add: lock_ok_def)
qed

lemma locked_path:
  assumes inv: "tree_inv cf L P V H s" and "j \<in> L" "anc (nodes s) i j" "i \<noteq> root_node s" "0 < lock_ref (nodes s j)"
  shows "0 < lock_ref (nodes s i)"
  using tree_inv_shape [OF inv] assms(2,3,5)
proof (induction rule: shape_up_induct)
  case root
  then have "i = root_node s" using anc_above [of "nodes s" i "root_node s"] tree_inv_shape [OF inv] by (auto simp: shape_def)
  then show ?case using assms(4) by simp
next
  case (step j p)
  show ?case
  proof (cases "i = j")
    case False
    then have ap: "anc (nodes s) i p" using anc_above [OF step.prems(1)] step.hyps(3) by (auto simp: attached_def)
    have "p \<noteq> root_node s" using ap assms(4) anc_above [of "nodes s" i "root_node s"] tree_inv_shape [OF inv] by (auto simp: shape_def)
    then show ?thesis using step.IH [OF ap] lock_up [OF inv step.hyps(3) _ step.prems(2)] by simp
  qed (use step.prems in simp)
qed

lemma anc_linear:
  assumes s: "shape ps r L P V h" and "k \<in> L" "anc h a k" "anc h b k"
  shows "anc h a b \<or> anc h b a"
  using s assms(2-4)
proof (induction rule: shape_up_induct)
  case root
  then have "a = r" "b = r" using anc_above [of h a r] anc_above [of h b r] s by (auto simp: shape_def)
  then show ?case by simp
next
  case (step k p)
  have "parent (h k) = Some p" using step.hyps(3) by (simp add: attached_def)
  then show ?case using step anc_above [of h a k] anc_above [of h b k] by (cases "a = k"; cases "b = k") auto
qed

definition subtree :: "(nat \<Rightarrow> tree_node) \<Rightarrow> nat set \<Rightarrow> nat \<Rightarrow> nat set" where
  "subtree h L i = {k \<in> L. anc h i k}"

lemma not_below_child:
  assumes s: "shape ps r L P V h" and i: "i \<in> L" and c: "c \<in> snd ` set (children (h i))"
  shows "c \<in> L" "c \<noteq> r" "parent (h c) = Some i" "\<not> anc h c i"
proof -
  have ko: "kids_ok ps r L h i" by (rule shape_kids [OF s i])
  obtain ck where "map_of (children (h i)) ck = Some c" using c ko unfolding kids_ok_def by (force simp: map_of_is_SomeI)
  then show cl: "c \<in> L" "c \<noteq> r" and pc: "parent (h c) = Some i" using ko unfolding kids_ok_def by blast+
  obtain p where p: "attached ps r L P V h c p" using shape_attached [OF s cl] by blast
  then have "p = i" using pc by (simp add: attached_def)
  then have "length (P i) < length (P c)" using attached_longer [OF p] s by (simp add: shape_def)
  then show "\<not> anc h c i" using anc_facts [OF s i, of c] prefix_length_le [of "P c" "P i"] by auto
qed

lemma subtree_split:
  assumes s: "shape ps r L P V h" and i: "i \<in> L"
  shows "subtree h L i = insert i (\<Union>c\<in>snd ` set (children (h i)). subtree h L c)"
proof (intro equalityI subsetI)
  fix k assume "k \<in> subtree h L i"
  then have k: "k \<in> L" "anc h i k" by (simp_all add: subtree_def)
  show "k \<in> insert i (\<Union>c\<in>snd ` set (children (h i)). subtree h L c)"
  proof (cases "k = i")
    case False
    then have "k \<noteq> r" using anc_above [OF k(2)] s by (auto simp: shape_def)
    then obtain ck c where "map_of (children (h i)) ck = Some c" "anc h c k" using child_on_way [OF s i k(2) _ k(1)] False by blast
    then show ?thesis using k(1) map_of_SomeD by (force simp: subtree_def)
  qed simp
next
  fix k assume "k \<in> insert i (\<Union>c\<in>snd ` set (children (h i)). subtree h L c)"
  then consider "k = i" | c where "c \<in> snd ` set (children (h i))" "k \<in> L" "anc h c k" by (auto simp: subtree_def)
  then show "k \<in> subtree h L i"
  proof cases
    case 2
    have "anc h i c" by (rule anc_step [of h i i, OF anc_refl not_below_child(3) [OF s i 2(1)]])
    then have "anc h i k" using 2(3) unfolding anc_def by (rule rtranclp_trans)
    then show ?thesis using 2(2) by (simp add: subtree_def)
  qed (use i in \<open>simp add: subtree_def\<close>)
qed

lemma distinct_kids:
  assumes "shape ps r L P V h" "i \<in> L"
  shows "distinct (map snd (children (h i)))"
proof -
  have ko: "kids_ok ps r L h i" by (rule shape_kids [OF assms])
  have "fst e = get_child_key ps (node_key (h (snd e)))" if "e \<in> set (children (h i))" for e
  proof -
    have "map_of (children (h i)) (fst e) = Some (snd e)" using that ko unfolding kids_ok_def by (intro map_of_is_SomeI) simp_all
    then show ?thesis using ko unfolding kids_ok_def by blast
  qed
  then have "inj_on snd (set (children (h i)))" by (intro inj_onI prod_eqI) metis+
  moreover have "distinct (children (h i))" using ko unfolding kids_ok_def by (simp add: distinct_map)
  ultimately show ?thesis by (simp add: distinct_map)
qed

text \<open>The lock counter of a node is the number of locks held below it.\<close>

lemma lock_counter:
  assumes inv: "tree_inv cf L P V H s" and "i \<in> L" "i \<noteq> root_node s"
  shows "lock_ref (nodes s i) = (\<Sum>k\<in>subtree (nodes s) L i. int (H k))"
  using assms(2,3)
proof (induction "card (subtree (nodes s) L i)" arbitrary: i rule: less_induct)
  case less
  let ?h = "nodes s" and ?C = "snd ` set (children (nodes s i))"
  have sh: "shape (cache_page_size cf) (root_node s) L P V ?h" and a: "acct L H s" using inv by (simp_all add: tree_inv_def)
  have fin: "finite (subtree ?h L j)" for j using sh by (simp add: subtree_def shape_def)
  note kid = not_below_child [OF sh less.prems(1)]
  note split = subtree_split [OF sh less.prems(1)]
  have out: "i \<notin> subtree ?h L c" if "c \<in> ?C" for c using kid(4) [OF that] by (simp add: subtree_def)
  have dis: "subtree ?h L c \<inter> subtree ?h L d = {}" if cd: "c \<in> ?C" "d \<in> ?C" "c \<noteq> d" for c d
  proof (rule ccontr)
    assume "subtree ?h L c \<inter> subtree ?h L d \<noteq> {}"
    then obtain k where "k \<in> L" "anc ?h c k" "anc ?h d k" by (auto simp: subtree_def)
    then have "anc ?h c d \<or> anc ?h d c" by (rule anc_linear [OF sh])
    then show False using anc_above [of ?h c d] anc_above [of ?h d c] kid(3,4) cd by auto
  qed
  have ih: "lock_ref (?h c) = (\<Sum>k\<in>subtree ?h L c. int (H k))" if c: "c \<in> ?C" for c
  proof (rule less.hyps [OF _ kid(1,2) [OF c]])
    have "subtree ?h L c \<subset> subtree ?h L i" using split out [OF c] c by auto
    then show "card (subtree ?h L c) < card (subtree ?h L i)" by (rule psubset_card_mono [OF fin])
  qed
  have "lock_sum ?h i = sum_list (map (\<lambda>c. lock_ref (?h c)) (map snd (children (?h i))))" by (simp add: lock_sum_def comp_def)
  also have "\<dots> = (\<Sum>c\<in>?C. lock_ref (?h c))" using sum_list_distinct_conv_sum_set [OF distinct_kids [OF sh less.prems(1)]] by simp
  also have "\<dots> = (\<Sum>c\<in>?C. \<Sum>k\<in>subtree ?h L c. int (H k))" by (rule sum.cong [OF refl ih])
  also have "\<dots> = (\<Sum>k\<in>(\<Union>c\<in>?C. subtree ?h L c). int (H k))" using fin dis by (intro sum.UNION_disjoint [symmetric]) auto
  finally have "lock_sum ?h i = (\<Sum>k\<in>(\<Union>c\<in>?C. subtree ?h L c). int (H k))" .
  moreover have "lock_ref (?h i) = int (H i) + lock_sum ?h i" using acctD(4) [OF a less.prems] by (simp add: lock_ok_def)
  moreover have "i \<notin> (\<Union>c\<in>?C. subtree ?h L c)" using out by auto
  ultimately show ?case unfolding split using fin by simp
qed

text \<open>C32 After any history of the cache, in which \<open>H\<close> counts the locks requests hold on each node: the lock counter of every node is
  exactly the number of locks held on it and on the nodes below it; the evictable size is the number of tokens in nodes with counter
  zero, the protected size the number of tokens in the others, and together they are the tokens of the tree; the nodes
  offered for eviction are exactly the nodes without children and with counter zero; and when there is none,
  there are no evictable tokens.\<close>

theorem radix_bookkeeping:
  assumes "radix_reach cf H s" "0 < cache_page_size cf" "\<not> disable cf" "enumerates (list_of cf)"
  shows "(\<forall>i\<in>live s. i \<noteq> root_node s \<longrightarrow> lock_ref (nodes s i) = (\<Sum>k\<in>{k \<in> live s. anc (nodes s) i k}. int (H k)))
    \<and> evictable_size s = (\<Sum>i\<in>{i \<in> live s - {root_node s}. lock_ref (nodes s i) = 0}. int (length (toks (nodes s) i)))
    \<and> protected_size s = (\<Sum>i\<in>{i \<in> live s - {root_node s}. lock_ref (nodes s i) \<noteq> 0}. int (length (toks (nodes s) i)))
    \<and> total_size s = Inr (nat (evictable_size s + protected_size s)) \<and> 0 \<le> evictable_size s \<and> 0 \<le> protected_size s
    \<and> evictable_leaves s = {i \<in> live s. i \<noteq> root_node s \<and> lock_ref (nodes s i) = 0 \<and> children (nodes s i) = []}
    \<and> (\<forall>k i. 0 < H k \<longrightarrow> anc (nodes s) i k \<longrightarrow> i \<noteq> root_node s \<longrightarrow> 0 < lock_ref (nodes s i))
    \<and> (evictable_leaves s = {} \<longrightarrow> evictable_size s = 0)"
proof -
  obtain L P V where inv: "tree_inv cf L P V H s" using radix_reach_ok [OF assms] by (auto simp: radix_ok_def)
  have sh: "shape (cache_page_size cf) (root_node s) L P V (nodes s)" and a: "acct L H s" using inv by (simp_all add: tree_inv_def)
  have l: "live s = L" by (rule live_eq [OF inv])
  have fin: "finite (L - {root_node s})" using sh by (simp add: shape_def)
  have "0 < lock_ref (nodes s i)" if k: "0 < H k" "anc (nodes s) i k" "i \<noteq> root_node s" for i k
  proof -
    have "k \<in> L" by (rule held_live [OF inv k(1)])
    moreover have "k \<noteq> root_node s" using k(2,3) anc_above [of "nodes s" i "root_node s"] sh by (auto simp: shape_def)
    ultimately show ?thesis using locked_path [OF inv _ k(2,3)] held_locked [OF inv _ _ k(1)] by blast
  qed
  moreover have "evictable_size s = (\<Sum>i\<in>{i \<in> L - {root_node s}. lock_ref (nodes s i) = 0}. int (length (toks (nodes s) i)))"
    unfolding acctD(5) [OF a] sum.inter_filter [OF fin] by (rule sum.cong) (simp_all add: free_tokens_def)
  moreover have "protected_size s = (\<Sum>i\<in>{i \<in> L - {root_node s}. lock_ref (nodes s i) \<noteq> 0}. int (length (toks (nodes s) i)))"
    unfolding acctD(6) [OF a] sum.inter_filter [OF fin] by (rule sum.cong) (simp_all add: held_tokens_def)
  moreover have "lock_ref (nodes s i) = (\<Sum>k\<in>{k \<in> L. anc (nodes s) i k}. int (H k))" if "i \<in> L" "i \<noteq> root_node s" for i
    using lock_counter [OF inv that] by (simp add: subtree_def)
  ultimately show ?thesis unfolding l
    using total_size_eq [OF inv] sizes_nonneg [OF inv] acctD(7) [OF a, unfolded free_leaf_def] no_leaf_no_tokens [OF inv] by blast
qed

subsection \<open>The example\<close>

lemma example_enumerates: "enumerates (list_of example_config)" "\<not> disable example_config" "0 < cache_page_size example_config"
  by (simp_all add: enumerates_def example_config_def)

theorem evict_frees_enough_witness:
  "\<exists>freed s'. evict example_config 2 example_cache = Inr (freed, length (concat freed), s') \<and> 2 \<le> int (length (concat freed))
    \<and> cached_slots example_cache = cached_slots s' + mset (concat freed)"
proof -
  have "evictable_size example_cache = 3" by (simp add: example_cache_def)
  with evict_frees_enough [OF example_cache_ok(2) example_enumerates(2,1), of 2] show ?thesis by auto
qed

theorem radix_bookkeeping_witness:
  "total_size example_cache = Inr 3
    \<and> (\<Sum>i\<in>{i \<in> live example_cache - {root_node example_cache}. lock_ref (nodes example_cache i) = 0}. int (length (toks (nodes example_cache) i))) = 3
    \<and> evictable_leaves example_cache = {i \<in> live example_cache. i \<noteq> root_node example_cache
       \<and> lock_ref (nodes example_cache i) = 0 \<and> children (nodes example_cache i) = []}"
proof -
  have "radix_reach example_config (\<lambda>_. 0) example_cache"
    by (rule radix_reach.inserted [OF radix_reach.init example_cache_ok(1)]) (simp_all add: example_config_def example_key_def)
  moreover have "evictable_size example_cache = 3" "protected_size example_cache = 0" by (simp_all add: example_cache_def)
  ultimately show ?thesis using radix_bookkeeping [OF _ example_enumerates(3,2,1), of "\<lambda>_. 0" example_cache] by simp
qed

end
