(* ===== verification/Radix_Cache.thy ===== *)
theory Radix_Cache
  imports Radix_Evict Kv_Manager
begin

section \<open>Requests and the prefix cache\<close>

text \<open>
  The operations of \<^verbatim>\<open>RadixCache\<close> that move KV slots between requests, the tree and the allocator
  (\<^verbatim>\<open>cache_finished_req\<close>, \<^verbatim>\<open>cache_unfinished_req\<close>, \<^verbatim>\<open>evict\<close> with the allocator), the lookup a request does when it
  is scheduled (\<^verbatim>\<open>Req.init_next_round_input\<close>), and \<^verbatim>\<open>ChunkCache\<close> (\<^verbatim>\<open>mem_cache/chunk_cache.py\<close>), which stands in when the radix
  cache is off. Both caches provide the operations \<open>cache_ops\<close> the allocation helpers of \<^verbatim>\<open>Kv_Manager\<close> call.

  The locale \<open>prefix_cache\<close> states what these helpers rely on: no slot appears or disappears when a cache evicts.
\<close>

subsection \<open>Freeing slots\<close>

definition kv_free :: "kv_alloc \<Rightarrow> int list \<Rightarrow> kv_alloc res" where
  "kv_free a idx = (if 1 < page_size a then paged_free a idx else Inr (token_free a idx))"

text \<open>\<^verbatim>\<open>RadixCache.evict\<close> frees a value when its leaf is popped; the tree does not read the allocator, so the frees are
  done here after the loop, in the same order.\<close>

definition radix_evict :: "cache_config \<Rightarrow> radix_cache \<Rightarrow> kv_alloc \<Rightarrow> nat \<Rightarrow> (radix_cache \<times> kv_alloc) res" where
  "radix_evict cf c a num_tokens =
     rbind (evict cf num_tokens c) (\<lambda>(freed, _, c'). rbind (rfold kv_free a freed) (\<lambda>a'. Inr (c', a')))"

subsection \<open>Finished and unfinished requests\<close>

definition cache_key :: "cache_config \<Rightarrow> req \<Rightarrow> int list \<Rightarrow> radix_key" where
  "cache_key cf r tokens =
     (let ts = map Tok tokens; keys = (if is_eagle cf then convert_to_bigram_key ts else ts)
      in \<lparr>token_ids = page_align_keys keys (cache_page_size cf), extra_key = req_extra_key r, is_bigram = is_eagle cf\<rparr>)"

definition priority_of :: "req \<Rightarrow> int" where
  "priority_of r = (case req_priority r of None \<Rightarrow> 0 | Some p \<Rightarrow> p)"

text \<open>\<^verbatim>\<open>req_to_token[req.req_pool_idx, :n]\<close>; the callers make sure that the request has a slot.\<close>

definition kv_row :: "req_pool \<Rightarrow> req \<Rightarrow> nat \<Rightarrow> int list res" where
  "kv_row p r n =
     (case req_pool_idx r of
        None \<Rightarrow> Inl AssertionError
      | Some i \<Rightarrow> if length (req_to_token p) \<le> i then Inl IndexError else Inr (take n (req_to_token p ! i)))"

definition dec_lock_opt :: "cache_config \<Rightarrow> nat option \<Rightarrow> radix_cache \<Rightarrow> radix_cache res" where
  "dec_lock_opt cf node c =
     (if disable cf then Inr c
      else case node of None \<Rightarrow> Inl AttributeError | Some i \<Rightarrow> rbind (dec_lock_ref cf i c) (\<lambda>(_, c'). Inr c'))"

text \<open>A finished request leaves its aligned slots to the tree or to the allocator.\<close>

definition insert_or_free ::
  "cache_config \<Rightarrow> radix_cache mem_state \<Rightarrow> req \<Rightarrow> bool \<Rightarrow> radix_key \<Rightarrow> int list \<Rightarrow> (radix_cache \<times> kv_alloc) res" where
  "insert_or_free cf m r is_insert key kv_indices =
     (if is_insert
      then rbind (radix_insert cf key (take (key_len key) kv_indices) (priority_of r) False (cache m)) (\<lambda>(new_prefix_len, c1).
           rbind (kv_free (kv m) (slice (cache_protected_len r) new_prefix_len kv_indices)) (\<lambda>a1. Inr (c1, a1)))
      else rbind (kv_free (kv m) (slice (cache_protected_len r) (key_len key) kv_indices)) (\<lambda>a1. Inr (cache m, a1)))"

definition cache_finished_req ::
  "cache_config \<Rightarrow> radix_cache mem_state \<Rightarrow> req \<Rightarrow> bool \<Rightarrow> (radix_cache mem_state \<times> req) res" where
  "cache_finished_req cf m r is_insert0 =
     (let is_insert = (is_insert0 \<and> \<not> disable_finished_insert cf) in
      rbind (pop_committed_kv_cache r) (\<lambda>(r1, kv_committed_len).
      if disable cf
      then rbind (kv_row (pool m) r1 kv_committed_len) (\<lambda>kv_indices.
           rbind (kv_free (kv m) kv_indices) (\<lambda>a. Inr (m\<lparr>kv := a\<rparr>, r1)))
      else
        let tokens = take kv_committed_len (origin_input_ids r1 @ output_ids r1); key = cache_key cf r1 tokens in
        rbind (kv_row (pool m) r1 (length tokens)) (\<lambda>kv_indices.
        rbind (insert_or_free cf m r1 is_insert key kv_indices) (\<lambda>(c1, a1).
        rbind (kv_free a1 (drop (key_len key) kv_indices)) (\<lambda>a2.
        rbind (dec_lock_opt cf (last_node r1) c1) (\<lambda>c2. Inr (m\<lparr>cache := c2, kv := a2\<rparr>, r1)))))))"

definition cache_unfinished_req ::
  "cache_config \<Rightarrow> radix_cache mem_state \<Rightarrow> req \<Rightarrow> bool \<Rightarrow> (radix_cache mem_state \<times> req) res" where
  "cache_unfinished_req cf m r chunked =
     (if disable cf then Inr (m, r)
      else
        let key = cache_key cf r (fill_ids r); n = key_len key in
        rbind (kv_row (pool m) r (length (fill_ids r))) (\<lambda>kv_indices.
        rbind (radix_insert cf key (take n kv_indices) (priority_of r) chunked (cache m)) (\<lambda>(new_prefix_len, c1).
        rbind (kv_free (kv m) (slice (cache_protected_len r) new_prefix_len kv_indices)) (\<lambda>a1.
        rbind (match_prefix cf key c1) (\<lambda>(new_indices, new_last_node, c2).
        if length new_indices \<noteq> n then Inl AssertionError
        else rbind (pool_write (pool m) (the (req_pool_idx r)) (cache_protected_len r) (length new_indices)
               (drop (cache_protected_len r) new_indices)) (\<lambda>p1.
        rbind (dec_lock_opt cf (last_node r) c2) (\<lambda>c3.
        rbind (inc_lock_ref cf new_last_node c3) (\<lambda>(_, c4).
        Inr (m\<lparr>cache := c4, kv := a1, pool := p1\<rparr>,
             r\<lparr>cache_protected_len := length new_indices,
               prefix_indices := (if length new_indices < length kv_indices
                  then new_indices @ drop (length new_indices) kv_indices else new_indices),
               last_node := Some new_last_node\<rparr>)))))))))"

subsection \<open>Scheduling a request\<close>

definition set_extend_input_len :: "req \<Rightarrow> nat \<Rightarrow> req" where
  "set_extend_input_len r n =
     (let start = (if logprob_start_len r = -1 then int (length (fill_ids r)) - 1
                   else max (logprob_start_len r) (int (length (prefix_indices r))))
      in r\<lparr>extend_input_len := n, extend_logprob_start_len := min (start - int (length (prefix_indices r))) (int n)\<rparr>)"

text \<open>\<^verbatim>\<open>init_next_round_input\<close> for a request that is neither a diffusion nor a multimodal one. The last token is
  never looked up.\<close>

definition init_next_round_input :: "cache_config \<Rightarrow> radix_cache option \<Rightarrow> req \<Rightarrow> (radix_cache option \<times> req) res" where
  "init_next_round_input cf tree r =
     (let r1 = r\<lparr>fill_ids := origin_input_ids r @ output_ids r\<rparr>;
          max0 = int (length (fill_ids r1)) - 1;
          max1 = (if return_logprob r1 \<and> 0 \<le> logprob_start_len r1 then min max0 (logprob_start_len r1) else max0);
          tokens = take (nat (max max1 0)) (fill_ids r1)
      in rbind (case tree of
           None \<Rightarrow> Inr (None, r1)
         | Some c \<Rightarrow> rbind (match_prefix cf \<lparr>token_ids = map Tok tokens, extra_key = req_extra_key r1, is_bigram = False\<rparr> c)
             (\<lambda>(idx, node, c'). Inr (Some c', r1\<lparr>prefix_indices := idx, last_node := Some node, cache_protected_len := length idx\<rparr>)))
         (\<lambda>(tree', r2). Inr (tree', set_extend_input_len r2 (length (fill_ids r2) - length (prefix_indices r2)))))"

subsection \<open>The cache without prefixes\<close>

definition chunk_finished_req :: "unit mem_state \<Rightarrow> req \<Rightarrow> bool \<Rightarrow> (unit mem_state \<times> req) res" where
  "chunk_finished_req m r is_insert =
     rbind (pop_committed_kv_cache r) (\<lambda>(r1, kv_committed_len).
     rbind (kv_row (pool m) r1 kv_committed_len) (\<lambda>kv_indices.
     rbind (kv_free (kv m) kv_indices) (\<lambda>a. Inr (m\<lparr>kv := a\<rparr>, r1))))"

definition chunk_unfinished_req :: "unit mem_state \<Rightarrow> req \<Rightarrow> req res" where
  "chunk_unfinished_req m r =
     rbind (kv_row (pool m) r (length (fill_ids r))) (\<lambda>kv_indices. Inr (r\<lparr>prefix_indices := kv_indices\<rparr>))"

definition radix_ops :: "cache_config \<Rightarrow> radix_cache cache_ops" where
  "radix_ops cf = \<lparr>cache_evict = radix_evict cf, is_chunk_cache = False, cache_finished = cache_finished_req cf\<rparr>"

definition chunk_ops :: "unit cache_ops" where
  "chunk_ops = \<lparr>cache_evict = (\<lambda>c a n. Inr (c, a)), is_chunk_cache = True, cache_finished = chunk_finished_req\<rparr>"

subsection \<open>What allocation relies on\<close>

text \<open>The token allocator outside a free group; without sorting it never defers a release.\<close>

definition alloc_ready :: "kv_alloc \<Rightarrow> bool" where
  "alloc_ready a \<longleftrightarrow> page_size a = 1 \<and> is_not_in_free_group a \<and> (\<not> need_sort a \<longrightarrow> release_pages a = [])"

lemma kv_free_ready:
  assumes "alloc_ready a"
  shows "\<exists>a'. kv_free a xs = Inr a' \<and> alloc_ready a' \<and> avail a' = avail a + mset xs"
  using assms by (auto simp: kv_free_def token_free_def alloc_ready_def avail_def)

lemma rfold_free_ready:
  "alloc_ready a \<Longrightarrow> \<exists>a'. rfold kv_free a xss = Inr a' \<and> alloc_ready a' \<and> avail a' = avail a + mset (concat xss)"
proof (induction xss arbitrary: a)
  case (Cons xs xss)
  obtain a1 where a1: "kv_free a xs = Inr a1" "alloc_ready a1" "avail a1 = avail a + mset xs" using kv_free_ready [OF Cons.prems] by blast
  from Cons.IH [OF a1(2)] obtain a' where "rfold kv_free a1 xss = Inr a'" "alloc_ready a'" "avail a' = avail a1 + mset (concat xss)" by blast
  then show ?case using a1 by (intro exI [of _ a']) simp
qed simp

lemma available_avail: "alloc_ready a \<Longrightarrow> available_size a = size (avail a)"
  by (simp add: alloc_ready_def available_size_def avail_def)

lemma token_alloc_ready:
  assumes "alloc_ready a" "n \<le> size (avail a)"
  shows "\<exists>a' xs. token_alloc a n = (a', Some xs) \<and> length xs = n \<and> alloc_ready a' \<and> mset xs + avail a' = avail a"
proof -
  have "\<exists>a' xs. token_alloc a n = (a', Some xs) \<and> alloc_ready a'"
    using assms by (auto simp: token_alloc_def Let_def alloc_ready_def avail_def merge_and_sort_free_def)
  then show ?thesis using token_alloc_Some(1,2) by blast
qed

locale prefix_cache =
  fixes ops :: "'c cache_ops"
    and inv :: "'c \<Rightarrow> bool"
    and slots :: "'c \<Rightarrow> int multiset"
    and evictable :: "'c \<Rightarrow> nat"
  assumes evict_ok: "inv c \<Longrightarrow> alloc_ready a \<Longrightarrow> \<exists>c' a'. cache_evict ops c a n = Inr (c', a') \<and> inv c' \<and> alloc_ready a'
      \<and> avail a' + slots c' = avail a + slots c \<and> size (avail a) + min n (evictable c) \<le> size (avail a')"
    and chunk: "is_chunk_cache ops \<Longrightarrow> evictable c = 0"
begin

text \<open>Evicting first makes room for every request that fits into the free and the evictable slots together.\<close>

lemma evict_makes_room:
  assumes "inv (cache m)" "alloc_ready (kv m)" "n \<le> available_size (kv m) + evictable (cache m)"
  shows "\<exists>m1. evict_from_tree_cache ops m n = Inr m1 \<and> inv (cache m1) \<and> alloc_ready (kv m1) \<and> n \<le> size (avail (kv m1))
    \<and> avail (kv m1) + slots (cache m1) = avail (kv m) + slots (cache m) \<and> pool m1 = pool m"
proof (cases "\<not> is_chunk_cache ops \<and> available_size (kv m) < n")
  case True
  obtain c' a' where e: "cache_evict ops (cache m) (kv m) n = Inr (c', a')" "inv c'" "alloc_ready a'"
    "avail a' + slots c' = avail (kv m) + slots (cache m)" "size (avail (kv m)) + min n (evictable (cache m)) \<le> size (avail a')"
    using evict_ok [OF assms(1,2)] by blast
  have "n \<le> size (avail a')" using e(5) assms(3) available_avail [OF assms(2)] by linarith
  then show ?thesis using True e by (intro exI [of _ "m\<lparr>cache := c', kv := a'\<rparr>"]) (simp add: evict_from_tree_cache_def)
next
  case False
  then have "evict_from_tree_cache ops m n = Inr m" by (auto simp: evict_from_tree_cache_def)
  moreover have "n \<le> size (avail (kv m))" using False assms(3) chunk [of "cache m"] available_avail [OF assms(2)] by auto
  ultimately show ?thesis using assms by auto
qed

lemma alloc_succeeds:
  assumes "inv (cache m)" "alloc_ready (kv m)" "n \<le> available_size (kv m) + evictable (cache m)"
  shows "\<exists>m' locs. alloc_token_slots ops m n = Inr (m', locs) \<and> length locs = n \<and> inv (cache m') \<and> alloc_ready (kv m')
    \<and> mset locs + avail (kv m') + slots (cache m') = avail (kv m) + slots (cache m) \<and> pool m' = pool m"
proof -
  obtain m1 where m1: "evict_from_tree_cache ops m n = Inr m1" "inv (cache m1)" "alloc_ready (kv m1)" "n \<le> size (avail (kv m1))"
    "avail (kv m1) + slots (cache m1) = avail (kv m) + slots (cache m)" "pool m1 = pool m" using evict_makes_room [OF assms] by blast
  obtain a' xs where al: "token_alloc (kv m1) n = (a', Some xs)" "length xs = n" "alloc_ready a'" "mset xs + avail a' = avail (kv m1)"
    using token_alloc_ready [OF m1(3,4)] by blast
  then show ?thesis using m1 by (intro exI [of _ "m1\<lparr>kv := a'\<rparr>"] exI [of _ xs]) (simp add: alloc_token_slots_def)
qed

end

text \<open>Both caches provide the interface.\<close>

definition radix_ready :: "cache_config \<Rightarrow> (nat \<Rightarrow> nat) \<Rightarrow> radix_cache \<Rightarrow> bool" where
  "radix_ready cf H c \<longleftrightarrow> radix_ok cf H c \<and> \<not> disable cf \<and> enumerates (list_of cf)"

lemma evict_slots:
  assumes "radix_ready cf H c"
  shows "\<exists>freed c'. evict cf n c = Inr (freed, length (concat freed), c') \<and> radix_ready cf H c'
    \<and> cached_slots c = cached_slots c' + mset (concat freed)
    \<and> min n (nat (evictable_size c)) \<le> length (concat freed)"
proof -
  obtain L P V where inv: "tree_inv cf L P V H c" and en: "\<not> disable cf" "enumerates (list_of cf)"
    using assms by (auto simp: radix_ready_def radix_ok_def)
  obtain freed s' L' where ev: "evict cf n c = Inr (freed, length (concat freed), s')" "tree_inv cf L' P V H s'"
    and sz: "evictable_size s' = evictable_size c - int (length (concat freed))"
    and sl: "tree_slots L (nodes c) = tree_slots L' (nodes s') + mset (concat freed)"
    and dn: "n \<le> length (concat freed) \<or> evictable_leaves s' = {}"
    using evict_spec [OF inv en] by blast
  have "min n (nat (evictable_size c)) \<le> length (concat freed)"
    using dn
  proof
    assume "evictable_leaves s' = {}"
    then show ?thesis using no_leaf_no_tokens [OF ev(2)] sz by simp
  qed simp
  moreover have "radix_ready cf H s'" "cached_slots c = cached_slots s' + mset (concat freed)"
    using ev(2) en sl live_eq [OF inv] live_eq [OF ev(2)] by (auto simp: radix_ready_def radix_ok_def cached_slots_def)
  ultimately show ?thesis using ev(1) by blast
qed

interpretation rx: prefix_cache "radix_ops cf" "radix_ready cf H" cached_slots "\<lambda>c. nat (evictable_size c)" for cf H
proof unfold_locales
  fix c a n assume c: "radix_ready cf H c" and a: "alloc_ready a"
  obtain freed c' where e: "evict cf n c = Inr (freed, length (concat freed), c')" "radix_ready cf H c'"
    "cached_slots c = cached_slots c' + mset (concat freed)" "min n (nat (evictable_size c)) \<le> length (concat freed)"
    using evict_slots [OF c] by blast
  obtain a' where f: "rfold kv_free a freed = Inr a'" "alloc_ready a'" "avail a' = avail a + mset (concat freed)"
    using rfold_free_ready [OF a] by blast
  have "size (avail a') = size (avail a) + length (concat freed)" using f(3) by simp
  then show "\<exists>c' a'. cache_evict (radix_ops cf) c a n = Inr (c', a') \<and> radix_ready cf H c' \<and> alloc_ready a'
      \<and> avail a' + cached_slots c' = avail a + cached_slots c \<and> size (avail a) + min n (nat (evictable_size c)) \<le> size (avail a')"
    using e f by (intro exI [of _ c'] exI [of _ a']) (simp add: radix_ops_def radix_evict_def)
qed (simp add: radix_ops_def)

interpretation cx: prefix_cache chunk_ops "\<lambda>_. True" "\<lambda>_. {#}" "\<lambda>_. 0"
  by unfold_locales (simp_all add: chunk_ops_def)

text \<open>C12 Allocating KV slots with the radix cache succeeds whenever the free slots and the tokens of unlocked prefixes
  together suffice: unlocked prefixes are evicted as needed, the allocated slots are new, and the slots that are
  free, cached or handed out are exactly those that were free or cached before.\<close>

theorem radix_alloc_succeeds:
  assumes "radix_ok cf H (cache m)" "\<not> disable cf" "enumerates (list_of cf)" "alloc_ready (kv m)"
    and "n \<le> available_size (kv m) + nat (evictable_size (cache m))"
  shows "\<exists>m' locs. alloc_token_slots (radix_ops cf) m n = Inr (m', locs) \<and> length locs = n \<and> radix_ok cf H (cache m')
    \<and> mset locs + avail (kv m') + cached_slots (cache m') = avail (kv m) + cached_slots (cache m) \<and> pool m' = pool m"
  using rx.alloc_succeeds [of cf H m n] assms by (simp add: radix_ready_def) blast

subsection \<open>The slots of a request\<close>

text \<open>A running request holds a lock on the node that ends the first \<open>n\<close> tokens of its key, and its first \<open>n\<close> slots are
  those of the tree.\<close>

definition holds :: "(nat \<Rightarrow> nat) \<Rightarrow> radix_cache \<Rightarrow> radix_key \<Rightarrow> nat \<Rightarrow> nat option \<Rightarrow> int list \<Rightarrow> bool" where
  "holds H c key n node row \<longleftrightarrow> (\<exists>i. node = Some i \<and> 0 < H i \<and> n \<le> key_len key \<and> path_to c i (take n (token_ids key)) (take n row)
     \<and> (n = 0 \<or> extra_key (node_key (nodes c i)) = extra_key key))"

lemma page_align_dvd: "0 < ps \<Longrightarrow> ps dvd length (page_align_keys xs ps)"
  by (simp add: page_align_keys_def min_absorb2 div_times_less_eq_dividend)

lemma page_align_le: "length (page_align_keys xs ps) \<le> length xs"
  by (simp add: page_align_keys_def)

lemma bigram_le: "length (convert_to_bigram_key xs) \<le> length xs"
  by (simp add: convert_to_bigram_key_def)

lemma cache_key_facts:
  assumes "0 < cache_page_size cf"
  shows "cache_page_size cf dvd key_len (cache_key cf r ts)" "key_len (cache_key cf r ts) \<le> length ts"
    and "is_eagle cf \<longrightarrow> is_bigram (cache_key cf r ts)" "extra_key (cache_key cf r ts) = req_extra_key r"
proof -
  show "cache_page_size cf dvd key_len (cache_key cf r ts)" 
    using page_align_dvd [OF assms, of "map Tok ts"] page_align_dvd [OF assms, of "convert_to_bigram_key (map Tok ts)"]
    by (simp add: cache_key_def Let_def)
  show "key_len (cache_key cf r ts) \<le> length ts"
    using page_align_le order_trans [OF page_align_le bigram_le, of "map Tok ts"] page_align_le [of "map Tok ts"]
    by (auto simp: cache_key_def Let_def)
qed (simp_all add: cache_key_def Let_def)

lemma radix_ok_page: "radix_ok cf H c \<Longrightarrow> 0 < cache_page_size cf"
  by (auto simp: radix_ok_def tree_inv_def shape_def)

text \<open>Inserting the key of a request whose protected prefix is in the tree.\<close>

lemma insert_held:
  assumes ok: "radix_ok cf H c" and en: "\<not> disable cf" and eg: "is_eagle cf \<longrightarrow> is_bigram key"
    and key: "cache_page_size cf dvd key_len key" "length val = key_len key" and h: "holds H c key n node row"
  shows "\<exists>p c'. radix_insert cf key val prio chunked c = Inr (p, c') \<and> radix_ok cf H c' \<and> n \<le> p \<and> p \<le> key_len key
    \<and> cached_slots c' = cached_slots c + mset (drop p val) \<and> holds H c' key n node row
    \<and> (\<forall>j ts vs. path_to c j ts vs \<longrightarrow> path_to c' j ts vs)
    \<and> (token_ids key \<noteq> [] \<longrightarrow> (\<exists>us. in_cache cf c' (extra_key key) (token_ids key) us))"
proof -
  obtain L P V where inv: "tree_inv cf L P V H c" using ok by (auto simp: radix_ok_def)
  obtain i where i: "node = Some i" "0 < H i" "n \<le> key_len key" "path_to c i (take n (token_ids key)) (take n row)"
    "n = 0 \<or> extra (nodes c) i = extra_key key" using h by (auto simp: holds_def)
  obtain vs m L1 P1 V1 s1 L' P' V' c' where ins: "radix_insert cf key val prio chunked c = Inr (length vs, c')"
    and w: "walked cf L P V H c (root_node c) key vs m L1 P1 V1 s1" and lg: "longest cf L P c (root_node c) key (length vs)"
    and inv': "tree_inv cf L' P' V' H c'" and sl: "tree_slots L' (nodes c') = tree_slots L (nodes c) + mset (drop (length vs) val)"
    and kp: "kept L P V c L' P' V' c'"
    and cd: "\<forall>x ts us. cached L' P' V' c' x ts us \<longleftrightarrow> cached L1 P1 V1 s1 x ts us
         \<or> length vs < key_len key \<and> x = extra_key key \<and> prefix ts (token_ids key) \<and> us = take (length ts) (vs @ drop (length vs) val)"
    using insert_walk [OF inv en eg key, of prio chunked] by (elim exE conjE) (rule that, assumption+)
  have iL: "i \<in> L" "take n (token_ids key) = P i" "take n row = V i" using path_to_inv [OF i(4) inv] by auto
  have "n \<le> length vs"
  proof (cases "n = 0")
    case False
    have "take n (token_ids key) \<noteq> []" "length (take n (token_ids key)) = n" using False i(3) by auto
    moreover have "cache_page_size cf dvd length (take n (token_ids key))" using dvd_P [OF tree_inv_shape [OF inv] iL(1)] iL(2) by simp
    ultimately have ic: "in_cache cf c (extra_key key) (take n (token_ids key)) (take n row)"
      using i(4,5) False unfolding in_cache_def
      by (intro conjI exI [of _ i] exI [of _ "take n (token_ids key)"] exI [of _ "take n row"]) simp_all
    have "cache_page_size cf dvd length vs" using w by (simp add: walked_def)
    from longest_in_cache [OF inv lg this ic take_is_prefix] show ?thesis using i(3) by simp
  qed simp
  moreover have paths: "path_to c' j ts us" if "path_to c j ts us" for j ts us
    using path_to_inv [OF that inv] kp inv_path_to [OF inv', of j] unfolding kept_def by auto
  moreover have "holds H c' key n node row"
    using i paths [OF i(4)] kp iL(1) unfolding holds_def kept_def by auto
  moreover have lv: "length vs \<le> key_len key" using w by (simp add: walked_def)
  moreover have "\<exists>us. in_cache cf c' (extra_key key) (token_ids key) us" if ne: "token_ids key \<noteq> []"
  proof (cases "length vs < key_len key")
    case True
    then show ?thesis using cd key(1) ne unfolding in_cache_iff [OF inv'] by blast
  next
    case False
    then have e: "length vs = key_len key" using lv by simp
    then have "vs \<noteq> []" using ne by auto
    then have "in_cache cf c (extra_key key) (token_ids key) vs" using walked_in_cache [OF inv w] e by simp
    then have "in_cache cf s1 (extra_key key) (token_ids key) vs" using walked_path(3) [OF inv w] by simp
    moreover have "tree_inv cf L1 P1 V1 H s1" using w by (simp add: walked_def)
    ultimately show ?thesis using cd unfolding in_cache_iff [OF inv'] by (auto simp: in_cache_iff)
  qed
  ultimately show ?thesis using ins inv' sl live_eq [OF inv] live_eq [OF inv'] by (auto simp: radix_ok_def cached_slots_def)
qed

lemma dec_lock_opt_ok:
  assumes ok: "radix_ok cf H c" and en: "\<not> disable cf" and h: "holds H c key n (Some i) row"
  shows "\<exists>c'. dec_lock_opt cf (Some i) c = Inr c' \<and> radix_ok cf (H(i := H i - 1)) c' \<and> cached_slots c' = cached_slots c
    \<and> (\<forall>j ts vs. path_to c' j ts vs \<longleftrightarrow> path_to c j ts vs) \<and> (\<forall>j. node_key (nodes c' j) = node_key (nodes c j))"
proof -
  obtain L P V where inv: "tree_inv cf L P V H c" using ok by (auto simp: radix_ok_def)
  have i: "0 < H i" "i \<in> L" using h path_to_inv [OF _ inv] by (auto simp: holds_def)
  obtain c' where c': "dec_lock_ref cf i c = Inr (evictable_size c' - evictable_size c, c')" "tree_inv cf L P V (H(i := H i - 1)) c'" "locks_only c c'"
    using dec_lock_inv [OF inv i(2,1) en] by blast
  have nv: "node_value (nodes c' j) = node_value (nodes c j)" "node_key (nodes c' j) = node_key (nodes c j)" for j
    using c'(3) unfolding locks_only_def by (metis tree_node.select_convs tree_node.surjective tree_node.update_convs(5))+
  have "path_to c' j ts vs \<longleftrightarrow> path_to c j ts vs" for j ts vs
    using path_to_inv [OF _ inv] path_to_inv [OF _ c'(2)] inv_path_to [OF inv] inv_path_to [OF c'(2)] by blast
  moreover have "cached_slots c' = cached_slots c" using live_eq [OF inv] live_eq [OF c'(2)] nv by (simp add: cached_slots_def tree_slots_def)
  ultimately show ?thesis using c' en nv by (auto simp: dec_lock_opt_def radix_ok_def)
qed

lemma mset_slices:
  assumes "n \<le> p" "p \<le> k" "k \<le> length xs"
  shows "mset (slice n p xs) + mset (drop p (take k xs)) + mset (drop k xs) = mset (drop n xs)"
proof -
  have "drop n xs = slice n p xs @ drop p (take k xs) @ drop k xs"
  proof -
    have "drop n xs = take (p - n) (drop n xs) @ drop p xs" using assms append_take_drop_id [of "p - n" "drop n xs"] by (simp add: add.commute)
    moreover have "drop p xs = take (k - p) (drop p xs) @ drop k xs" using assms append_take_drop_id [of "k - p" "drop p xs"] by (simp add: add.commute)
    ultimately show ?thesis by (simp add: slice_def drop_take)
  qed
  then show ?thesis by (metis add.assoc mset_append)
qed

text \<open>C33 A finished request gives back every slot it owned. Its committed tokens are inserted into the tree (unless
  this is switched off); the slots behind its protected prefix end up in the tree or in the free list, each once, its
  lock is released, and prefixes cached before stay cached.\<close>

theorem finished_req_conserves_slots:
  assumes "radix_ok cf H (cache m)" "\<not> disable cf" "alloc_ready (kv m)"
    and "\<not> kv_committed_freed r" "req_pool_idx r = Some k" "k < length (req_to_token (pool m))"
    and "kv_committed_len r \<le> length (req_to_token (pool m) ! k)" "kv_committed_len r \<le> length (origin_input_ids r @ output_ids r)"
    and "last_node r = Some i"
    and "holds H (cache m) (cache_key cf r (take (kv_committed_len r) (origin_input_ids r @ output_ids r)))
      (cache_protected_len r) (last_node r) (req_to_token (pool m) ! k)"
  shows "\<exists>m'. cache_finished_req cf m r is_insert = Inr (m', r\<lparr>kv_committed_freed := True\<rparr>)
    \<and> radix_ok cf (H(i := H i - 1)) (cache m') \<and> alloc_ready (kv m') \<and> pool m' = pool m
    \<and> avail (kv m') + cached_slots (cache m') = avail (kv m) + cached_slots (cache m)
        + mset (slice (cache_protected_len r) (kv_committed_len r) (req_to_token (pool m) ! k))
    \<and> (\<forall>j ts vs. path_to (cache m) j ts vs \<longrightarrow> path_to (cache m') j ts vs)"
proof -
  let ?r = "r\<lparr>kv_committed_freed := True\<rparr>" and ?n = "kv_committed_len r" and ?row = "req_to_token (pool m) ! k"
  let ?pl = "cache_protected_len r" and ?kv = "take ?n ?row"
  define tk where "tk = take ?n (origin_input_ids r @ output_ids r)"
  let ?key = "cache_key cf r tk"
  have ps: "0 < cache_page_size cf" by (rule radix_ok_page [OF assms(1)])
  have lt: "length tk = ?n" using assms(8) by (simp add: tk_def)
  have mn: "min (length (origin_input_ids r) + length (output_ids r)) ?n = ?n" using assms(8) by simp
  note kf = cache_key_facts [OF ps, of r tk]
  have kr: "cache_key cf ?r tk = ?key" "priority_of ?r = priority_of r" by (simp_all add: cache_key_def priority_of_def)
  have kn: "key_len ?key \<le> ?n" using kf(2) lt by simp
  have row: "kv_row (pool m) ?r ?n = Inr ?kv" using assms(5,6) by (simp add: kv_row_def)
  have lk: "length ?kv = ?n" using assms(7) by simp
  have h: "holds H (cache m) ?key ?pl (Some i) ?row" using assms(9,10) by (simp add: tk_def)
  have pk: "?pl \<le> key_len ?key" using h by (simp add: holds_def)
  let ?ins = "is_insert \<and> \<not> disable_finished_insert cf"
  obtain c1 a1 q where mid: "insert_or_free cf m ?r ?ins ?key ?kv = Inr (c1, a1)"
    and c1: "radix_ok cf H c1" "holds H c1 ?key ?pl (Some i) ?row" "\<forall>j ts vs. path_to (cache m) j ts vs \<longrightarrow> path_to c1 j ts vs"
    and a1: "alloc_ready a1" "avail a1 = avail (kv m) + mset (slice ?pl q ?kv)"
    and q: "?pl \<le> q" "q \<le> key_len ?key" "cached_slots c1 = cached_slots (cache m) + mset (drop q (take (key_len ?key) ?kv))"
  proof (cases ?ins)
    case True
    have vl: "length (take (key_len ?key) ?kv) = key_len ?key" using kn lk by simp
    obtain p c' where p: "radix_insert cf ?key (take (key_len ?key) ?kv) (priority_of r) False (cache m) = Inr (p, c')" "radix_ok cf H c'"
      "?pl \<le> p" "p \<le> key_len ?key" "cached_slots c' = cached_slots (cache m) + mset (drop p (take (key_len ?key) ?kv))"
      "holds H c' ?key ?pl (Some i) ?row" "\<forall>j ts vs. path_to (cache m) j ts vs \<longrightarrow> path_to c' j ts vs"
      using insert_held [OF assms(1,2) kf(3,1) vl h] by blast
    obtain a' where "kv_free (kv m) (slice ?pl p ?kv) = Inr a'" "alloc_ready a'" "avail a' = avail (kv m) + mset (slice ?pl p ?kv)"
      using kv_free_ready [OF assms(3)] by blast
    then show thesis using that [of c' a' p] p True kr by (simp add: insert_or_free_def)
  next
    case False
    obtain a' where "kv_free (kv m) (slice ?pl (key_len ?key) ?kv) = Inr a'" "alloc_ready a'" "avail a' = avail (kv m) + mset (slice ?pl (key_len ?key) ?kv)"
      using kv_free_ready [OF assms(3)] by blast
    then show thesis using that [of "cache m" a' "key_len ?key"] assms(1) h pk False by (auto simp: insert_or_free_def)
  qed
  obtain a2 where a2: "kv_free a1 (drop (key_len ?key) ?kv) = Inr a2" "alloc_ready a2" "avail a2 = avail a1 + mset (drop (key_len ?key) ?kv)"
    using kv_free_ready [OF a1(1)] by blast
  obtain c2 where c2: "dec_lock_opt cf (Some i) c1 = Inr c2" "radix_ok cf (H(i := H i - 1)) c2" "cached_slots c2 = cached_slots c1"
    "\<forall>j ts vs. path_to c2 j ts vs \<longleftrightarrow> path_to c1 j ts vs" using dec_lock_opt_ok [OF c1(1) assms(2) c1(2)] by blast
  have run: "cache_finished_req cf m r is_insert = Inr (m\<lparr>cache := c2, kv := a2\<rparr>, ?r)"
    using assms(2,4,9) row kr lt mid a2(1) c2(1) mn unfolding cache_finished_req_def pop_committed_kv_cache_def Let_def
    by (simp add: tk_def [symmetric] del: take_append)
  have "mset (slice ?pl q ?kv) + mset (drop q (take (key_len ?key) ?kv)) + mset (drop (key_len ?key) ?kv) = mset (drop ?pl ?kv)"
    by (rule mset_slices [OF q(1,2)]) (use kn lk in simp)
  moreover have "drop ?pl ?kv = slice ?pl ?n ?row" by (simp add: slice_def drop_take)
  ultimately have "avail a2 + cached_slots c2 = avail (kv m) + cached_slots (cache m) + mset (slice ?pl ?n ?row)"
    using a2(3) a1(2) c2(3) q(3) by (simp add: ac_simps)
  then show ?thesis using run c2 c1(3) a2(2) by (intro exI [of _ "m\<lparr>cache := c2, kv := a2\<rparr>"]) auto
qed

lemma inc_lock_ok:
  assumes ok: "radix_ok cf H c" and en: "\<not> disable cf" and j: "path_to c j ts vs"
  shows "\<exists>d c'. inc_lock_ref cf j c = Inr (d, c') \<and> radix_ok cf (H(j := H j + 1)) c' \<and> cached_slots c' = cached_slots c
    \<and> (\<forall>j ts vs. path_to c' j ts vs \<longleftrightarrow> path_to c j ts vs) \<and> (\<forall>j. node_key (nodes c' j) = node_key (nodes c j))"
proof -
  obtain L P V where inv: "tree_inv cf L P V H c" using ok by (auto simp: radix_ok_def)
  have jL: "j \<in> L" using path_to_inv [OF j inv] by blast
  obtain c' where c': "inc_lock_ref cf j c = Inr (evictable_size c' - evictable_size c, c')" "tree_inv cf L P V (H(j := H j + 1)) c'" "locks_only c c'"
    using inc_lock_inv [OF inv jL en] by blast
  have nv: "node_value (nodes c' j) = node_value (nodes c j)" "node_key (nodes c' j) = node_key (nodes c j)" for j
    using c'(3) unfolding locks_only_def by (metis tree_node.select_convs tree_node.surjective tree_node.update_convs(5))+
  have "path_to c' j ts vs \<longleftrightarrow> path_to c j ts vs" for j ts vs
    using path_to_inv [OF _ inv] path_to_inv [OF _ c'(2)] inv_path_to [OF inv] inv_path_to [OF c'(2)] by blast
  moreover have "cached_slots c' = cached_slots c" using live_eq [OF inv] live_eq [OF c'(2)] nv by (simp add: cached_slots_def tree_slots_def)
  ultimately show ?thesis using c' nv by (auto simp: radix_ok_def)
qed

text \<open>Matching the key right after its insertion returns all of it.\<close>

lemma match_full:
  assumes ok: "radix_ok cf H c" and en: "\<not> disable cf" and eg: "is_eagle cf \<longrightarrow> is_bigram key"
    and key: "cache_page_size cf dvd key_len key" "token_ids key \<noteq> [] \<longrightarrow> (\<exists>us. in_cache cf c (extra_key key) (token_ids key) us)"
    and h: "holds H c key n (Some i) row"
  shows "\<exists>idx j c'. match_prefix cf key c = Inr (idx, j, c') \<and> radix_ok cf H c' \<and> length idx = key_len key
    \<and> path_to c' j (token_ids key) idx \<and> (token_ids key = [] \<or> extra_key (node_key (nodes c' j)) = extra_key key)
    \<and> take n idx = take n row \<and> holds H c' key n (Some i) row \<and> cached_slots c' = cached_slots c
    \<and> (\<forall>j ts vs. path_to c j ts vs \<longrightarrow> path_to c' j ts vs)"
proof -
  obtain L P V where inv: "tree_inv cf L P V H c" using ok by (auto simp: radix_ok_def)
  let ?K = "key\<lparr>token_ids := lookup_tokens cf key\<rparr>"
  have lt: "lookup_tokens cf key = token_ids key"
    using eg key(1) by (auto simp: lookup_tokens_def maybe_bigram_convert_def page_align_keys_def)
  obtain vs m L' P' V' c' where eq: "match_prefix cf key c = Inr (vs, m, c')"
    and w: "walked cf L P V H c (root_node c) ?K vs m L' P' V' c'" and l: "longest cf L P c (root_node c) ?K (length vs)"
    using match_prefix_walk [OF inv en, of key] by blast
  have inv': "tree_inv cf L' P' V' H c'" and g: "grown L P V c L' P' V' c'" using w by (auto simp: walked_def)
  have d: "cache_page_size cf dvd length vs" "length vs \<le> key_len key" using w lt by (auto simp: walked_def)
  have len: "length vs = key_len key"
  proof (cases "token_ids key = []")
    case False
    then obtain us where "in_cache cf c (extra_key ?K) (token_ids key) us" using key(2) by auto
    from longest_in_cache [OF inv l d(1) this] show ?thesis using d(2) lt by simp
  qed (use d in simp)
  have pt: "path_to c' m (token_ids key) vs" using walked_path(1) [OF inv w] len lt by simp
  have mex: "token_ids key = [] \<or> extra (nodes c') m = extra_key key"
  proof (cases "m = root_node c")
    case True
    then have "P' m = []" using tree_inv_shape [OF inv'] g by (simp add: grown_def shape_def)
    then show ?thesis using path_to_inv [OF pt inv'] by simp
  qed (use w in \<open>simp add: walked_def\<close>)
  have kp: "kept L P V c L' P' V' c'" by (rule walked_kept [OF w])
  have paths: "path_to c' j ts us" if "path_to c j ts us" for j ts us
    using path_to_inv [OF that inv] kp inv_path_to [OF inv', of j] unfolding kept_def by auto
  have i: "0 < H i" "n \<le> key_len key" "path_to c i (take n (token_ids key)) (take n row)" "n = 0 \<or> extra (nodes c) i = extra_key key"
    using h by (auto simp: holds_def)
  have iL: "i \<in> L" "P i = take n (token_ids key)" "V i = take n row" using path_to_inv [OF i(3) inv] by auto
  have h': "holds H c' key n (Some i) row" using i paths [OF i(3)] kp iL(1) unfolding holds_def kept_def by auto
  have "take n vs = take n row"
  proof (cases "n = 0")
    case False
    have ne: "token_ids key \<noteq> []" using False i(2) by auto
    have mL: "m \<in> L'" "P' m = token_ids key" "V' m = vs" using path_to_inv [OF pt inv'] by auto
    have iL': "i \<in> L'" "P' i = take n (token_ids key)" "V' i = take n row" "extra (nodes c') i = extra_key key"
      using kp iL i(4) False by (auto simp: kept_def)
    have mr: "m \<noteq> root_node c'" using mL(2) ne tree_inv_shape [OF inv'] by (auto simp: shape_def)
    have dn: "cache_page_size cf dvd n" using dvd_P [OF tree_inv_shape [OF inv'] iL'(1)] iL'(2) i(2) by simp
    have "take n (V' i) = take n (V' m)"
      by (rule values_agree [OF tree_inv_shape [OF inv'] iL'(1) mL(1) mr dn]) (use iL' mL mex ne i(2) in auto)
    then show ?thesis using iL' mL by simp
  qed simp
  moreover have "cached_slots c' = cached_slots c" using g live_eq [OF inv] live_eq [OF inv'] by (simp add: cached_slots_def grown_def)
  ultimately show ?thesis using eq inv' len pt mex h' paths
    by (intro exI [of _ vs] exI [of _ m] exI [of _ c']) (auto simp: radix_ok_def)
qed

lemma store_tail:
  assumes "a \<le> length xs" "length xs \<le> length row" "take a row = take a xs"
  shows "store a (drop a xs) row = xs @ drop (length xs) row"
proof (rule nth_equalityI)
  fix i assume "i < length (store a (drop a xs) row)"
  then have i: "i < length row" by simp
  have "row ! i = xs ! i" if "i < a" using nth_take [OF that, of row] nth_take [OF that, of xs] assms(3) by metis
  then show "store a (drop a xs) row ! i = (xs @ drop (length xs) row) ! i"
    using i assms(1,2) by (auto simp: store_def nth_append)
qed (use assms in simp)

text \<open>C34 After a chunk of a request is cached, the request shares the tree's slots: its whole page-aligned prefix is
  locked at the node that ends it, its row of the slot table and its prefix indices name the slots of the tree, its
  duplicates are freed, and the slots that were owned by the request now belong to the tree or to the free list.\<close>

theorem unfinished_req_shares_prefix:
  assumes "radix_ok cf H (cache m)" "\<not> disable cf" "alloc_ready (kv m)"
    and "req_pool_idx r = Some k" "k < length (req_to_token (pool m))" "length (fill_ids r) \<le> length (req_to_token (pool m) ! k)"
    and "last_node r = Some i"
    and "holds H (cache m) (cache_key cf r (fill_ids r)) (cache_protected_len r) (last_node r) (req_to_token (pool m) ! k)"
  shows "\<exists>m' r' j idx. cache_unfinished_req cf m r chunked = Inr (m', r') \<and> length idx = key_len (cache_key cf r (fill_ids r))
    \<and> last_node r' = Some j \<and> cache_protected_len r' = length idx
    \<and> radix_ok cf (H(i := H i - 1, j := (H(i := H i - 1)) j + 1)) (cache m')
    \<and> path_to (cache m') j (token_ids (cache_key cf r (fill_ids r))) idx
    \<and> pool m' = (pool m)\<lparr>req_to_token := (req_to_token (pool m))[k := idx @ drop (length idx) (req_to_token (pool m) ! k)]\<rparr>
    \<and> prefix_indices r' = idx @ drop (length idx) (take (length (fill_ids r)) (req_to_token (pool m) ! k))
    \<and> avail (kv m') + cached_slots (cache m') = avail (kv m) + cached_slots (cache m)
        + mset (slice (cache_protected_len r) (length idx) (req_to_token (pool m) ! k))"
proof -
  let ?row = "req_to_token (pool m) ! k" and ?pl = "cache_protected_len r" and ?key = "cache_key cf r (fill_ids r)"
  let ?kv = "take (length (fill_ids r)) ?row" and ?n = "key_len ?key"
  have ps: "0 < cache_page_size cf" by (rule radix_ok_page [OF assms(1)])
  note kf = cache_key_facts [OF ps, of r "fill_ids r"]
  have row: "kv_row (pool m) r (length (fill_ids r)) = Inr ?kv" using assms(4,5) by (simp add: kv_row_def)
  have lk: "length ?kv = length (fill_ids r)" using assms(6) by simp
  have h: "holds H (cache m) ?key ?pl (Some i) ?row" using assms(7,8) by simp
  have pk: "?pl \<le> ?n" using h by (simp add: holds_def)
  have vl: "length (take ?n ?kv) = ?n" using kf(2) lk by simp
  obtain p c1 where c1: "radix_insert cf ?key (take ?n ?kv) (priority_of r) chunked (cache m) = Inr (p, c1)" "radix_ok cf H c1"
    and p: "?pl \<le> p" "p \<le> ?n" "cached_slots c1 = cached_slots (cache m) + mset (drop p (take ?n ?kv))"
    and h1: "holds H c1 ?key ?pl (Some i) ?row"
    and full: "token_ids ?key \<noteq> [] \<longrightarrow> (\<exists>us. in_cache cf c1 (extra_key ?key) (token_ids ?key) us)"
    using insert_held [OF assms(1,2) kf(3,1) vl h, of "priority_of r" chunked] by blast
  obtain a1 where a1: "kv_free (kv m) (slice ?pl p ?kv) = Inr a1" "avail a1 = avail (kv m) + mset (slice ?pl p ?kv)"
    using kv_free_ready [OF assms(3)] by blast
  obtain idx j c2 where m2: "match_prefix cf ?key c1 = Inr (idx, j, c2)" "radix_ok cf H c2" "length idx = ?n"
      "path_to c2 j (token_ids ?key) idx" "take ?pl idx = take ?pl ?row" "holds H c2 ?key ?pl (Some i) ?row" "cached_slots c2 = cached_slots c1"
    using match_full [OF c1(2) assms(2) kf(3,1) full h1] by blast
  have il: "length idx \<le> length ?row" using m2(3) kf(2) assms(6) by simp
  have st: "store ?pl (drop ?pl idx) ?row = idx @ drop (length idx) ?row"
    using store_tail [of ?pl idx ?row] m2(3,5) pk il by simp
  let ?pool = "(pool m)\<lparr>req_to_token := (req_to_token (pool m))[k := idx @ drop (length idx) ?row]\<rparr>"
  have pw: "pool_write (pool m) k ?pl (length idx) (drop ?pl idx) = Inr ?pool"
    using assms(5) il m2(3) pk st by (simp add: pool_write_def Let_def min_absorb1)
  let ?H = "H(i := H i - 1)"
  obtain c3 where c3: "dec_lock_opt cf (Some i) c2 = Inr c3" "radix_ok cf ?H c3" "cached_slots c3 = cached_slots c2"
    "\<forall>j ts vs. path_to c3 j ts vs \<longleftrightarrow> path_to c2 j ts vs" using dec_lock_opt_ok [OF m2(2) assms(2) m2(6)] by blast
  have p3: "path_to c3 j (token_ids ?key) idx" using c3(4) m2(4) by simp
  obtain dd c4 where c4: "inc_lock_ref cf j c3 = Inr (dd, c4)" "radix_ok cf (?H(j := ?H j + 1)) c4" "cached_slots c4 = cached_slots c3"
    "\<forall>j ts vs. path_to c4 j ts vs \<longleftrightarrow> path_to c3 j ts vs" using inc_lock_ok [OF c3(2) assms(2) p3] by blast
  let ?r = "r\<lparr>cache_protected_len := length idx, prefix_indices := (if length idx < length ?kv then idx @ drop (length idx) ?kv else idx),
      last_node := Some j\<rparr>"
  have run: "cache_unfinished_req cf m r chunked = Inr (m\<lparr>cache := c4, kv := a1, pool := ?pool\<rparr>, ?r)"
    using assms(2,4,7) row c1(1) a1(1) m2(1,3) pw c3(1) c4(1) by (simp add: cache_unfinished_req_def Let_def)
  have "mset (slice ?pl p ?kv) + mset (drop p (take ?n ?kv)) = mset (slice ?pl (length idx) ?row)"
  proof -
    have "mset (slice ?pl p (take ?n ?kv)) + mset (drop p (take ?n (take ?n ?kv))) + mset (drop ?n (take ?n ?kv)) = mset (drop ?pl (take ?n ?kv))"
      by (rule mset_slices [OF p(1,2)]) (use vl in simp)
    moreover have "slice ?pl p (take ?n ?kv) = slice ?pl p ?kv" using p by (simp add: slice_def drop_take min_def)
    moreover have "drop ?pl (take ?n ?kv) = slice ?pl (length idx) ?row" using m2(3) kf(2) by (simp add: slice_def drop_take min_def)
    ultimately show ?thesis by simp
  qed
  then have "avail a1 + cached_slots c4 = avail (kv m) + cached_slots (cache m) + mset (slice ?pl (length idx) ?row)"
    using a1(2) c4(3) c3(3) m2(7) p(3) by (simp add: ac_simps)
  moreover have "path_to c4 j (token_ids ?key) idx" using c4(4) p3 by simp
  moreover have "prefix_indices ?r = idx @ drop (length idx) ?kv" using lk by (cases "length idx < length ?kv") (simp_all add: not_less)
  ultimately show ?thesis using run c4(2) m2(3)
    by (intro exI [of _ "m\<lparr>cache := c4, kv := a1, pool := ?pool\<rparr>"] exI [of _ ?r] exI [of _ j] exI [of _ idx]) simp
qed

subsection \<open>Scheduling\<close>

text \<open>A scheduled request looks up all its tokens but the last one: the prefix it takes over is cached at its last
  node, at least one token is left to compute, and locking the node makes the request hold the prefix.\<close>

theorem scheduled_req_holds_prefix:
  assumes "radix_ok cf H c" "\<not> disable cf" "\<not> is_eagle cf" "origin_input_ids r @ output_ids r \<noteq> []"
  shows "\<exists>c' r' i. init_next_round_input cf (Some c) r = Inr (Some c', r') \<and> radix_ok cf H c' \<and> last_node r' = Some i
    \<and> fill_ids r' = origin_input_ids r @ output_ids r \<and> cache_protected_len r' = length (prefix_indices r')
    \<and> 1 \<le> extend_input_len r' \<and> length (prefix_indices r') + extend_input_len r' = length (fill_ids r')
    \<and> holds (H(i := H i + 1)) c' (cache_key cf r' (fill_ids r')) (cache_protected_len r') (Some i) (prefix_indices r')"
proof -
  obtain L P V where inv: "tree_inv cf L P V H c" using assms(1) by (auto simp: radix_ok_def)
  have ps: "0 < cache_page_size cf" by (rule radix_ok_page [OF assms(1)])
  define fi where "fi = origin_input_ids r @ output_ids r"
  define mx where "mx = (let m0 = int (length fi) - 1 in if return_logprob r \<and> 0 \<le> logprob_start_len r then min m0 (logprob_start_len r) else m0)"
  define tk where "tk = take (nat (max mx 0)) fi"
  have fp: "0 < length fi" using assms(4) by (simp add: fi_def)
  have "(if b then min x y else x) \<le> x" for b and x y :: int by simp
  then have "mx \<le> int (length fi) - 1" unfolding mx_def Let_def .
  then have "nat (max mx 0) < length fi" using fp by linarith
  then have lt: "length tk < length fi" by (simp add: tk_def)
  let ?key = "\<lparr>token_ids = map Tok tk, extra_key = req_extra_key r, is_bigram = False\<rparr>"
  have lk: "lookup_tokens cf ?key = page_align_keys (map Tok tk) (cache_page_size cf)"
    using assms(3) by (simp add: lookup_tokens_def maybe_bigram_convert_def)
  let ?K = "?key\<lparr>token_ids := lookup_tokens cf ?key\<rparr>"
  obtain vs m L' P' V' c' where eq: "match_prefix cf ?key c = Inr (vs, m, c')"
    and w: "walked cf L P V H c (root_node c) ?K vs m L' P' V' c'"
    using match_prefix_walk [OF inv assms(2), of ?key] by blast
  have vl: "length vs \<le> length (lookup_tokens cf ?key)" using w by (simp add: walked_def)
  then have vl': "length vs \<le> length tk" using lk page_align_le [of "map Tok tk" "cache_page_size cf"] by simp
  have d: "cache_page_size cf dvd length vs" using w by (simp add: walked_def)
  define r2 where "r2 = r\<lparr>fill_ids := fi, prefix_indices := vs, last_node := Some m, cache_protected_len := length vs\<rparr>"
  let ?r = "set_extend_input_len r2 (length fi - length vs)"
  have run: "init_next_round_input cf (Some c) r = Inr (Some c', ?r)"
    using eq unfolding init_next_round_input_def Let_def
    by (simp add: fi_def [symmetric] tk_def [unfolded mx_def Let_def, symmetric] r2_def cong del: if_weak_cong split del: if_split)
  have f: "fill_ids ?r = fi" "prefix_indices ?r = vs" "last_node ?r = Some m" "cache_protected_len ?r = length vs"
    "extend_input_len ?r = length fi - length vs" "req_extra_key ?r = req_extra_key r"
    by (simp_all add: set_extend_input_len_def r2_def Let_def)
  let ?ck = "cache_key cf ?r fi"
  have ck: "token_ids ?ck = page_align_keys (map Tok fi) (cache_page_size cf)" "extra_key ?ck = req_extra_key r"
    using assms(3) f(6) by (simp_all add: cache_key_def Let_def)
  have fitk: "take (length tk) fi = tk" unfolding tk_def by (metis length_take take_all_iff take_take linear min.absorb1 min.absorb2)
  have vk: "length vs \<le> key_len ?ck" "take (length vs) (token_ids ?ck) = take (length vs) (lookup_tokens cf ?key)"
  proof -
    have "length vs \<le> length fi div cache_page_size cf * cache_page_size cf"
    proof -
      obtain q where q: "length vs = q * cache_page_size cf" using d by (metis dvd_def mult.commute)
      then have "q \<le> length fi div cache_page_size cf" using vl' lt ps by (metis less_eq_div_iff_mult_less_eq order.strict_implies_order order_trans)
      then show ?thesis using q by simp
    qed
    then show kl: "length vs \<le> key_len ?ck" unfolding ck(1) using vl' lt by (simp add: page_align_keys_def)
    have "take (length vs) (page_align_keys xs (cache_page_size cf)) = take (length vs) xs"
      if "length vs \<le> length (page_align_keys xs (cache_page_size cf))" for xs :: "tok list"
      using that by (auto simp: page_align_keys_def min_def split: if_splits)
    then have "take (length vs) (token_ids ?ck) = take (length vs) (map Tok fi)"
      "take (length vs) (lookup_tokens cf ?key) = take (length vs) (map Tok tk)" using kl vl unfolding ck(1) lk by blast+
    moreover have "take (length vs) (map Tok tk) = take (length vs) (map Tok fi)"
      using vl' fitk by (metis min.absorb1 take_map take_take)
    ultimately show "take (length vs) (token_ids ?ck) = take (length vs) (lookup_tokens cf ?key)" by simp
  qed
  have pt: "path_to c' m (take (length vs) (token_ids ?ck)) vs" using walked_path(1) [OF inv w] vk(2) by simp
  have inv': "tree_inv cf L' P' V' H c'" using w by (simp add: walked_def)
  have "vs = [] \<or> extra_key (node_key (nodes c' m)) = req_extra_key r"
  proof (cases "m = root_node c")
    case True
    then have "V' m = []" using tree_inv_shape [OF inv'] w by (simp add: walked_def grown_def shape_def)
    then show ?thesis using path_to_inv [OF pt inv'] by simp
  qed (use w in \<open>simp add: walked_def\<close>)
  then have "holds (H(m := H m + 1)) c' ?ck (length vs) (Some m) vs" using pt vk(1) ck(2) by (simp add: holds_def)
  then show ?thesis using run f inv' lt vl' unfolding fi_def [symmetric]
    by (intro exI [of _ c'] exI [of _ ?r] exI [of _ m]) (auto simp: radix_ok_def)
qed

subsection \<open>The example\<close>

definition example_mem :: "radix_cache mem_state" where
  "example_mem = \<lparr>cache = example_cache, kv = (token_init 30 False)\<lparr>free_pages := [1, 2]\<rparr>,
     pool = \<lparr>req_to_token = [[21, 22, 24, 25, 0]], max_context_len = 5, free_slots = []\<rparr>\<rparr>"

definition running_req :: req where
  "running_req = (example_req [1, 2] [4, 5])\<lparr>last_node := Some 0, fill_ids := [1, 2, 4, 5]\<rparr>"

lemma example_locked: "radix_ok example_config ((\<lambda>_. 0)(0 := 0 + 1)) example_cache"
proof -
  obtain L P V where inv: "tree_inv example_config L P V (\<lambda>_. 0) example_cache" using example_cache_ok(2) by (auto simp: radix_ok_def)
  have r: "root_node example_cache = 0" by (simp add: example_cache_def)
  have "inc_lock_ref example_config 0 example_cache = Inr (0, example_cache)" using r by (simp add: inc_lock_ref_def example_config_def)
  then show ?thesis using inc_lock_inv [OF inv _ example_enumerates(2), of 0] tree_inv_root [OF inv] r by (auto simp: radix_ok_def)
qed

lemma example_mem_facts:
  "cache example_mem = example_cache" "alloc_ready (kv example_mem)" "req_pool_idx running_req = Some 0"
  "req_to_token (pool example_mem) = [[21, 22, 24, 25, 0]]" "last_node running_req = Some 0" "cache_protected_len running_req = 0"
  "kv_committed_len running_req = 4" "origin_input_ids running_req @ output_ids running_req = [1, 2, 4, 5]"
  "fill_ids running_req = [1, 2, 4, 5]" "\<not> kv_committed_freed running_req"
  by (simp_all add: example_mem_def alloc_ready_def token_init_def token_clear_def running_req_def example_req_def)

lemma example_holds: "holds ((\<lambda>_. 0)(0 := 0 + 1)) example_cache key 0 (Some 0) row"
  using path_to.root [of example_cache] by (simp add: holds_def example_cache_def)

theorem radix_alloc_succeeds_witness:
  "\<exists>m' locs. alloc_token_slots (radix_ops example_config) example_mem 4 = Inr (m', locs) \<and> length locs = 4
    \<and> mset locs + avail (kv m') + cached_slots (cache m') = avail (kv example_mem) + cached_slots example_cache"
proof -
  have "4 \<le> available_size (kv example_mem) + nat (evictable_size (cache example_mem))"
    by (simp add: example_mem_def available_size_def token_init_def token_clear_def example_cache_def)
  then show ?thesis
    using radix_alloc_succeeds [of example_config "\<lambda>_. 0" example_mem 4] example_cache_ok(2) example_enumerates example_mem_facts(1,2) by auto
qed

theorem finished_req_conserves_slots_witness:
  "\<exists>m'. cache_finished_req example_config example_mem running_req True = Inr (m', running_req\<lparr>kv_committed_freed := True\<rparr>)
    \<and> avail (kv m') + cached_slots (cache m') = avail (kv example_mem) + cached_slots example_cache + {#21, 22, 24, 25#}"
  using finished_req_conserves_slots [of example_config "(\<lambda>_. 0)(0 := 0 + 1)" example_mem running_req 0 0 True]
    example_locked example_enumerates example_mem_facts example_holds by (simp add: slice_def) blast

theorem unfinished_req_shares_prefix_witness:
  "\<exists>m' r' j idx. cache_unfinished_req example_config example_mem running_req True = Inr (m', r') \<and> length idx = 4
    \<and> last_node r' = Some j \<and> path_to (cache m') j (map Tok [1, 2, 4, 5]) idx"
proof -
  have k: "token_ids (cache_key example_config running_req [1, 2, 4, 5]) = map Tok [1, 2, 4, 5]"
    by (simp add: cache_key_def example_config_def page_align_keys_def)
  have h: "radix_ok example_config ((\<lambda>_. 0)(0 := 0 + 1)) (cache example_mem)" "0 < length (req_to_token (pool example_mem))"
    "length (fill_ids running_req) \<le> length (req_to_token (pool example_mem) ! 0)"
    "holds ((\<lambda>_. 0)(0 := 0 + 1)) (cache example_mem) (cache_key example_config running_req (fill_ids running_req))
       (cache_protected_len running_req) (last_node running_req) (req_to_token (pool example_mem) ! 0)"
    unfolding example_mem_facts using example_locked example_holds by simp_all
  obtain m' r' j idx where "cache_unfinished_req example_config example_mem running_req True = Inr (m', r')"
      "length idx = key_len (cache_key example_config running_req (fill_ids running_req))" "last_node r' = Some j"
      "path_to (cache m') j (token_ids (cache_key example_config running_req (fill_ids running_req))) idx"
    using unfinished_req_shares_prefix [OF h(1) example_enumerates(2) example_mem_facts(2,3) h(2,3) example_mem_facts(5) h(4), of True] by blast
  then show ?thesis unfolding example_mem_facts(9) k by (intro exI [of _ m'] exI [of _ r'] exI [of _ j] exI [of _ idx]) simp
qed

theorem scheduled_req_holds_prefix_witness:
  "\<exists>c' r' i. init_next_round_input example_config (Some example_cache) running_req = Inr (Some c', r') \<and> last_node r' = Some i
    \<and> fill_ids r' = [1, 2, 4, 5] \<and> 1 \<le> extend_input_len r'"
proof -
  have "\<not> is_eagle example_config" by (simp add: example_config_def)
  then show ?thesis
    using scheduled_req_holds_prefix [of example_config "\<lambda>_. 0" example_cache running_req] example_cache_ok(2) example_enumerates(2)
      example_mem_facts(8) by auto
qed

end
