(* ===== verification/Agg_Loss.thy ===== *)
theory Agg_Loss
  imports Opd_Inputs "HOL-Library.AList"
begin

section \<open>Aggregation of token losses\<close>

text \<open>
  The parts of verl every loss of the trainer goes through: the response slice of a model output
  (\<^verbatim>\<open>workers/utils/padding.py\<close>), sums under a mask (\<^verbatim>\<open>utils/torch_functional.py\<close>), the aggregation of a loss matrix,
  the KL estimators and the clipped policy loss (\<^verbatim>\<open>trainer/ppo/core_algos.py\<close>), and \<^verbatim>\<open>ppo_loss\<close>
  (\<^verbatim>\<open>workers/utils/losses.py\<close>).

  Losses are reals; only their values are modelled, so \<^verbatim>\<open>detach\<close> is the identity. A Python dictionary is an
  association list, changed by \<open>AList.update\<close>, which keeps the position of a key. The laws show that the loss of a
  global batch does not depend on how the batch is cut into micro-batches and spread over the ranks.
\<close>

subsection \<open>Masked sums\<close>

type_synonym mat = "real list list"

definition fdiv :: "real \<Rightarrow> real \<Rightarrow> real res" where
  "fdiv x y = (if y = 0 then Inl NonFinite else Inr (x / y))"

definition clamp :: "real \<Rightarrow> real \<Rightarrow> real \<Rightarrow> real" where
  "clamp lo hi x = min (max x lo) hi"

definition mean_eps :: real where
  "mean_eps = 1 / 10 ^ 8"

definition count_mask :: "bool list \<Rightarrow> real" where
  "count_mask ms = real (length (filter id ms))"

definition masked_sum :: "real list \<Rightarrow> bool list \<Rightarrow> real" where
  "masked_sum xs ms = sum_list (map2 (\<lambda>x m. if m then x else 0) xs ms)"

definition masked_sum_mat :: "mat \<Rightarrow> bool list list \<Rightarrow> real" where
  "masked_sum_mat xss mss = sum_list (map2 masked_sum xss mss)"

definition count_mask_mat :: "bool list list \<Rightarrow> real" where
  "count_mask_mat mss = sum_list (map count_mask mss)"

definition masked_mean :: "mat \<Rightarrow> bool list list \<Rightarrow> real" where
  "masked_mean xss mss = masked_sum_mat xss mss / (count_mask_mat mss + mean_eps)"

definition same_shape :: "'a list list \<Rightarrow> 'b list list \<Rightarrow> bool" where
  "same_shape xss yss \<longleftrightarrow> map length xss = map length yss"

text \<open>An elementwise operation; operands of different shapes raise (broadcasting of unit dimensions is not used).\<close>

definition elementwise :: "('a \<Rightarrow> 'b \<Rightarrow> 'c) \<Rightarrow> 'a list list \<Rightarrow> 'b list list \<Rightarrow> 'c list list res" where
  "elementwise f xss yss = (if same_shape xss yss then Inr (map2 (map2 f) xss yss) else Inl RuntimeError)"

subsection \<open>Aggregation\<close>

text \<open>The global count when it is given; otherwise the local one, which is only allowed on a single rank.\<close>

definition global_count :: "real \<Rightarrow> real option \<Rightarrow> real \<Rightarrow> real res" where
  "global_count dp_size given local =
     (case given of Some n \<Rightarrow> Inr n | None \<Rightarrow> if 1 < dp_size then Inl ValueError else Inr local)"

definition row_width :: "'a list list \<Rightarrow> real" where
  "row_width mss = (case mss of [] \<Rightarrow> 0 | m # _ \<Rightarrow> real (length m))"

definition row_kept :: "bool list \<Rightarrow> bool" where
  "row_kept ms \<longleftrightarrow> 0 < count_mask ms"

definition agg_loss ::
  "mat \<Rightarrow> bool list list \<Rightarrow> string \<Rightarrow> real \<Rightarrow> real option \<Rightarrow> real option \<Rightarrow> real option \<Rightarrow> real res" where
  "agg_loss loss_mat loss_mask loss_agg_mode dp_size batch_num_tokens global_batch_size loss_scale_factor =
     (if loss_agg_mode = ''token-mean'' then
        rbind (global_count dp_size batch_num_tokens (count_mask_mat loss_mask)) (\<lambda>n.
        rbind (require (same_shape loss_mat loss_mask) RuntimeError) (\<lambda>_.
        rbind (fdiv (masked_sum_mat loss_mat loss_mask) n) (\<lambda>x. Inr (x * dp_size))))
      else if loss_agg_mode \<in> {''seq-mean-token-sum'', ''seq-mean-token-sum-norm''} then
        let seq_losses = map2 masked_sum loss_mat loss_mask; seq_mask = map row_kept loss_mask in
        rbind (require (same_shape loss_mat loss_mask) RuntimeError) (\<lambda>_.
        rbind (global_count dp_size global_batch_size (count_mask seq_mask)) (\<lambda>n.
        rbind (fdiv (masked_sum seq_losses seq_mask) n) (\<lambda>x.
        if loss_agg_mode = ''seq-mean-token-sum-norm''
        then fdiv (x * dp_size) (case loss_scale_factor of None \<Rightarrow> row_width loss_mask | Some s \<Rightarrow> s)
        else Inr (x * dp_size))))
      else if loss_agg_mode = ''seq-mean-token-mean'' then
        let seq_losses = map2 (\<lambda>xs ms. masked_sum xs ms / (count_mask ms + mean_eps)) loss_mat loss_mask;
            seq_mask = map row_kept loss_mask in
        rbind (require (same_shape loss_mat loss_mask) RuntimeError) (\<lambda>_.
        rbind (global_count dp_size global_batch_size (count_mask seq_mask)) (\<lambda>n.
        rbind (fdiv (masked_sum seq_losses seq_mask) n) (\<lambda>x. Inr (x * dp_size))))
      else Inl ValueError)"

text \<open>The calls \<^verbatim>\<open>agg_loss(..., **info)\<close>: an unexpected keyword raises \<^verbatim>\<open>TypeError\<close>, and so does a \<^verbatim>\<open>dp_size\<close> that is
  \<^verbatim>\<open>None\<close>.\<close>

type_synonym batch_info = "(string \<times> real option) list"

definition AGG_LOSS_KEYS :: "string list" where
  "AGG_LOSS_KEYS = [''dp_size'', ''batch_num_tokens'', ''global_batch_size'', ''loss_scale_factor'']"

definition info_get :: "batch_info \<Rightarrow> string \<Rightarrow> real option" where
  "info_get info k = (case map_of info k of None \<Rightarrow> None | Some v \<Rightarrow> v)"

definition agg_loss_kw :: "mat \<Rightarrow> bool list list \<Rightarrow> string \<Rightarrow> batch_info \<Rightarrow> real res" where
  "agg_loss_kw loss_mat loss_mask loss_agg_mode info =
     (if \<not> list_all (\<lambda>(k, _). k \<in> set AGG_LOSS_KEYS) info then Inl TypeError
      else case (case map_of info ''dp_size'' of None \<Rightarrow> Some 1 | Some d \<Rightarrow> d) of
          None \<Rightarrow> Inl TypeError
        | Some d \<Rightarrow> agg_loss loss_mat loss_mask loss_agg_mode d (info_get info ''batch_num_tokens'')
             (info_get info ''global_batch_size'') (info_get info ''loss_scale_factor''))"

subsection \<open>KL estimators\<close>

definition kl_penalty_forward :: "real \<Rightarrow> real \<Rightarrow> string \<Rightarrow> real res" where
  "kl_penalty_forward logprob ref_logprob mode =
     (if mode \<in> {''kl'', ''k1''} then Inr (logprob - ref_logprob)
      else if mode = ''abs'' then Inr \<bar>logprob - ref_logprob\<bar>
      else if mode \<in> {''mse'', ''k2''} then Inr ((logprob - ref_logprob)\<^sup>2 / 2)
      else if mode \<in> {''low_var_kl'', ''k3''} then
        let kl = clamp (-20) 20 (ref_logprob - logprob); kld = exp kl - kl - 1 in Inr (clamp (-10) 10 kld)
      else Inl NotImplementedError)"

definition kl_penalty :: "real \<Rightarrow> real \<Rightarrow> string \<Rightarrow> real res" where
  "kl_penalty logprob ref_logprob mode =
     (let plus = (mode \<noteq> [] \<and> last mode = CHR ''+''); base = (if plus then butlast mode else mode) in
      rbind (kl_penalty_forward logprob ref_logprob base) (\<lambda>forward_score.
      if \<not> plus \<or> mode \<in> {''mse'', ''k2''} then Inr forward_score
      else let backward_score = (logprob - ref_logprob)\<^sup>2 / 2 in Inr (backward_score - backward_score + forward_score)))"

definition kl_penalty_mat :: "mat \<Rightarrow> mat \<Rightarrow> string \<Rightarrow> mat res" where
  "kl_penalty_mat logprob ref_logprob mode =
     rbind (elementwise Pair logprob ref_logprob) (\<lambda>ps. rmap (rmap (\<lambda>(x, y). kl_penalty x y mode)) ps)"

subsection \<open>The response part of a model output\<close>

record loss_data =
  ld_prompts :: seq_tensor
  ld_responses :: seq_tensor
  ld_attention_mask :: "bool list list"
  ld_max_response_len :: int
  ld_response_mask :: "bool list list"
  ld_info :: batch_info
  ld_old_log_probs :: mat
  ld_advantages :: mat
  ld_rollout_is_weights :: "mat option"
  ld_ref_log_prob :: "mat option"
  ld_teacher_logprobs :: "real list option"

text \<open>\<^verbatim>\<open>to_padded_tensor\<close>; the rows of a tensor that is not nested have equal lengths and stay as they are.\<close>

definition to_padded :: "'a \<Rightarrow> 'a list list \<Rightarrow> 'a list list" where
  "to_padded z rs = map (pad_to (fold max (map length rs) 0) z) rs"

definition response_layout :: "loss_data \<Rightarrow> (nat list \<times> nat list \<times> nat) res" where
  "response_layout d =
     (case (ld_prompts d, ld_responses d) of
        (Jagged ps, Jagged rs) \<Rightarrow>
          if 0 \<le> ld_max_response_len d then Inr (map length ps, map length rs, nat (ld_max_response_len d))
          else if rs = [] then Inl RuntimeError
          else Inr (map length ps, map length rs, fold max (map length rs) 0)
      | (Dense ps, Dense rs) \<Rightarrow>
          let w = tensor_width ps in
          Inr (map (\<lambda>m. length (filter id (take w m))) (ld_attention_mask d),
               map (\<lambda>m. length (filter id (drop w m))) (ld_attention_mask d), tensor_width rs)
      | _ \<Rightarrow> Inl AttributeError)"

text \<open>\<^verbatim>\<open>F.pad\<close> with a negative size cuts.\<close>

definition fit_row :: "nat \<Rightarrow> 'a \<Rightarrow> 'a list \<Rightarrow> 'a list" where
  "fit_row n z xs = take n xs @ replicate (n - length xs) z"

fun response_rows :: "'a \<Rightarrow> 'a list \<Rightarrow> nat \<Rightarrow> nat \<Rightarrow> (nat \<times> nat) list \<Rightarrow> 'a list list" where
  "response_rows z values n offset [] = []"
| "response_rows z values n offset ((p, r) # rest) =
     (let seq_offset = offset + (p + r)
      in fit_row n z (slice (seq_offset - r - 1) (seq_offset - 1) values) # response_rows z values n seq_offset rest)"

definition no_padding_2_padding :: "'a \<Rightarrow> 'a list \<Rightarrow> loss_data \<Rightarrow> 'a list list res" where
  "no_padding_2_padding z values d =
     rbind (response_layout d) (\<lambda>(prompt_lens, response_lens, max_response_len).
       if length prompt_lens \<noteq> length response_lens then Inl RuntimeError
       else if prompt_lens = [] then Inl IndexError
       else if sum_list prompt_lens + sum_list response_lens \<noteq> length values then Inl AssertionError
       else if 0 \<in> set prompt_lens then Inl AssertionError
       else Inr (response_rows z values max_response_len 0 (zip prompt_lens response_lens)))"

subsection \<open>The clipped policy loss\<close>

text \<open>Metrics are recorded with the way they are aggregated over micro-batches; plain numbers are \<open>Agg_Raw\<close>.\<close>

datatype aggregation = Agg_Mean | Agg_Sum | Agg_Min | Agg_Max | Agg_Raw

type_synonym metrics = "(string \<times> aggregation \<times> real) list"

definition set_metric :: "string \<Rightarrow> aggregation \<Rightarrow> real \<Rightarrow> metrics \<Rightarrow> metrics" where
  "set_metric k agg v ms = AList.update k (agg, v) ms"

definition update_metrics :: "metrics \<Rightarrow> metrics \<Rightarrow> metrics" where
  "update_metrics ms new = fold (\<lambda>(k, v). AList.update k v) new ms"

record clip_config =
  clip_ratio :: real
  clip_ratio_low :: "real option"
  clip_ratio_high :: "real option"
  clip_ratio_c :: real

definition or_else :: "'a option \<Rightarrow> 'a \<Rightarrow> 'a" where
  "or_else x d = (case x of None \<Rightarrow> d | Some y \<Rightarrow> y)"

text \<open>What the tensor code computes for one token: the loss, the negated KL, and whether each clip is active.\<close>

definition clip_token :: "clip_config \<Rightarrow> real \<Rightarrow> real \<Rightarrow> real \<Rightarrow> real \<times> real \<times> bool \<times> bool" where
  "clip_token cc old_log_prob log_prob advantage =
     (let negative_approx_kl = clamp (-20) 20 (log_prob - old_log_prob); ratio = exp negative_approx_kl;
          pg_losses1 = - advantage * ratio;
          pg_losses2 = - advantage * clamp (1 - or_else (clip_ratio_low cc) (clip_ratio cc))
                          (1 + or_else (clip_ratio_high cc) (clip_ratio cc)) ratio;
          clip_pg_losses1 = max pg_losses1 pg_losses2;
          pg_losses3 = - advantage * clip_ratio_c cc;
          clip_pg_losses2 = min pg_losses3 clip_pg_losses1
      in (if advantage < 0 then clip_pg_losses2 else clip_pg_losses1, negative_approx_kl,
          pg_losses1 < pg_losses2, pg_losses3 < clip_pg_losses1 \<and> advantage < 0))"

definition mat_map :: "('a \<Rightarrow> 'b) \<Rightarrow> 'a list list \<Rightarrow> 'b list list" where
  "mat_map f = map (map f)"

definition compute_policy_loss_vanilla ::
  "clip_config \<Rightarrow> batch_info \<Rightarrow> mat \<Rightarrow> mat \<Rightarrow> mat \<Rightarrow> bool list list \<Rightarrow> string \<Rightarrow> mat option \<Rightarrow> (real \<times> metrics) res" where
  "compute_policy_loss_vanilla cc info old_log_prob log_prob advantages response_mask loss_agg_mode rollout_is_weights =
     rbind (require (1 < clip_ratio_c cc) AssertionError) (\<lambda>_.
     rbind (elementwise Pair old_log_prob log_prob) (\<lambda>lps.
     rbind (elementwise (\<lambda>(old, lp) adv. clip_token cc old lp adv) lps advantages) (\<lambda>toks.
     rbind (require (same_shape toks response_mask) RuntimeError) (\<lambda>_.
     let pg_losses = mat_map fst toks;
         ppo_kl = masked_mean (mat_map (\<lambda>(_, k, _, _). - k) toks) response_mask;
         pg_clipfrac = masked_mean (mat_map (\<lambda>(_, _, c, _). of_bool c) toks) response_mask;
         pg_clipfrac_lower = masked_mean (mat_map (\<lambda>(_, _, _, c). of_bool c) toks) response_mask in
     rbind (case rollout_is_weights of None \<Rightarrow> Inr pg_losses | Some w \<Rightarrow> elementwise (*) pg_losses w) (\<lambda>weighted.
     rbind (agg_loss_kw weighted response_mask loss_agg_mode info) (\<lambda>pg_loss.
     Inr (pg_loss, [(''actor/pg_clipfrac'', Agg_Raw, pg_clipfrac), (''actor/ppo_kl'', Agg_Raw, ppo_kl),
                    (''actor/pg_clipfrac_lower'', Agg_Raw, pg_clipfrac_lower)])))))))"

subsection \<open>The other policy losses\<close>

record actor_config =
  loss_agg_mode :: string
  loss_scale_factor :: "real option"
  actor_policy_loss :: string
  actor_clip :: clip_config
  tau_pos :: real
  tau_neg :: real
  entropy_coeff :: real
  use_kl_loss :: bool
  kl_loss_type :: string
  kl_loss_coef :: real
  global_batch_info :: batch_info

text \<open>A policy loss reads the old and new log-probabilities, the advantages, the mask, the aggregation mode and the importance weights
  of the rollout. Most of them compute a number per token, weigh it and aggregate it with \<^verbatim>\<open>agg_loss\<close>. The temperatures of \<^verbatim>\<open>sapo\<close> are
  positive.\<close>

type_synonym policy_loss_fn = "actor_config \<Rightarrow> mat \<Rightarrow> mat \<Rightarrow> mat \<Rightarrow> bool list list \<Rightarrow> string \<Rightarrow> mat option \<Rightarrow> (real \<times> metrics) res"

definition policy_tokens :: "(real \<Rightarrow> real \<Rightarrow> real \<Rightarrow> 'a) \<Rightarrow> mat \<Rightarrow> mat \<Rightarrow> mat \<Rightarrow> bool list list \<Rightarrow> 'a list list res" where
  "policy_tokens f old_log_prob log_prob advantages response_mask =
     rbind (elementwise Pair old_log_prob log_prob) (\<lambda>lps.
     rbind (elementwise (\<lambda>(old, lp) adv. f old lp adv) lps advantages) (\<lambda>toks.
     rbind (require (same_shape toks response_mask) RuntimeError) (\<lambda>_. Inr toks)))"

definition agg_policy_loss :: "batch_info \<Rightarrow> mat \<Rightarrow> bool list list \<Rightarrow> string \<Rightarrow> mat option \<Rightarrow> real res" where
  "agg_policy_loss info pg_losses response_mask mode rollout_is_weights =
     rbind (case rollout_is_weights of None \<Rightarrow> Inr pg_losses | Some w \<Rightarrow> elementwise (*) pg_losses w) (\<lambda>weighted.
     agg_loss_kw weighted response_mask mode info)"

definition pg_metrics :: "real \<Rightarrow> real \<Rightarrow> real \<Rightarrow> metrics" where
  "pg_metrics clipfrac kl clipfrac_lower =
     [(''actor/pg_clipfrac'', Agg_Raw, clipfrac), (''actor/ppo_kl'', Agg_Raw, kl), (''actor/pg_clipfrac_lower'', Agg_Raw, clipfrac_lower)]"

definition clip_low :: "actor_config \<Rightarrow> real" where
  "clip_low config = or_else (clip_ratio_low (actor_clip config)) (clip_ratio (actor_clip config))"

definition clip_high :: "actor_config \<Rightarrow> real" where
  "clip_high config = or_else (clip_ratio_high (actor_clip config)) (clip_ratio (actor_clip config))"

definition clamped_kl :: "real \<Rightarrow> real \<Rightarrow> real" where
  "clamped_kl old_log_prob log_prob = clamp (-20) 20 (log_prob - old_log_prob)"

text \<open>The two DPPO losses differ in the test that keeps a token.\<close>

definition dppo_tv_valid :: "actor_config \<Rightarrow> real \<Rightarrow> real \<Rightarrow> real \<Rightarrow> bool" where
  "dppo_tv_valid config old lp adv =
     (if 0 < adv then exp lp - exp old \<le> clip_high config else - clip_low config \<le> exp lp - exp old)"

definition dppo_kl_valid :: "actor_config \<Rightarrow> real \<Rightarrow> real \<Rightarrow> real \<Rightarrow> bool" where
  "dppo_kl_valid config old lp adv =
     (let p = exp lp; q = exp old;
          binary_kl = q * (old - lp) + (1 - q) * ln ((1 - q + mean_eps) / (1 - p + mean_eps))
      in if 0 < adv then binary_kl \<le> clip_high config \<or> p \<le> q else binary_kl \<le> clip_low config \<or> q \<le> p)"

definition compute_policy_loss_dppo :: "(actor_config \<Rightarrow> real \<Rightarrow> real \<Rightarrow> real \<Rightarrow> bool) \<Rightarrow> policy_loss_fn" where
  "compute_policy_loss_dppo valid config old_log_prob log_prob advantages response_mask mode rollout_is_weights =
     rbind (policy_tokens (\<lambda>old lp adv.
         let ratio = exp (clamped_kl old lp); v = valid config old lp adv; c = clip_ratio_c (actor_clip config)
         in (- adv * min ratio c * lp * of_bool v, clamped_kl old lp, v, c < ratio \<and> v)) old_log_prob log_prob advantages response_mask) (\<lambda>toks.
     rbind (agg_policy_loss (global_batch_info config) (mat_map fst toks) response_mask mode rollout_is_weights) (\<lambda>pg_loss.
     Inr (pg_loss, pg_metrics (masked_mean (mat_map (\<lambda>(_, _, v, _). 1 - of_bool v) toks) response_mask)
       (masked_mean (mat_map (\<lambda>(_, k, _, _). - k) toks) response_mask)
       (masked_mean (mat_map (\<lambda>(_, _, _, c). of_bool c) toks) response_mask))))"

definition compute_policy_loss_gspo :: policy_loss_fn where
  "compute_policy_loss_gspo config old_log_prob log_prob advantages response_mask mode rollout_is_weights =
     rbind (policy_tokens (\<lambda>old lp adv. (lp - old, adv)) old_log_prob log_prob advantages response_mask) (\<lambda>toks.
     let ratios = map2 (\<lambda>row m. exp (min (masked_sum (map fst row) m / max (count_mask m) 1) 10)) toks response_mask;
         losses1 = map2 (\<lambda>row r. map (\<lambda>(_, adv). - adv * r) row) toks ratios;
         losses2 = map2 (\<lambda>row r. map (\<lambda>(_, adv). - adv * clamp (1 - clip_low config) (1 + clip_high config) r) row) toks ratios in
     rbind (agg_policy_loss (global_batch_info config) (map2 (map2 max) losses1 losses2) response_mask ''seq-mean-token-mean'' rollout_is_weights)
       (\<lambda>pg_loss.
     Inr (pg_loss, pg_metrics (masked_mean (map2 (map2 (\<lambda>x y. of_bool (x < y))) losses1 losses2) response_mask)
       (masked_mean (mat_map (\<lambda>(k, _). - k) toks) response_mask) 0)))"

definition compute_policy_loss_sapo :: policy_loss_fn where
  "compute_policy_loss_sapo config old_log_prob log_prob advantages response_mask mode rollout_is_weights =
     rbind (policy_tokens (\<lambda>old lp adv.
         let ratio = exp (clamped_kl old lp); tau = (if 0 < adv then tau_pos config else tau_neg config)
         in (- (1 / (1 + exp (- (tau * (ratio - 1)))) * (4 / tau)) * adv, clamped_kl old lp)) old_log_prob log_prob advantages response_mask) (\<lambda>toks.
     rbind (agg_policy_loss (global_batch_info config) (mat_map fst toks) response_mask ''seq-mean-token-mean'' rollout_is_weights) (\<lambda>pg_loss.
     Inr (pg_loss, pg_metrics 0 (masked_mean (mat_map (\<lambda>(_, k). - k) toks) response_mask) 0)))"

definition compute_policy_loss_gpg :: policy_loss_fn where
  "compute_policy_loss_gpg config old_log_prob log_prob advantages response_mask mode rollout_is_weights =
     rbind (elementwise (\<lambda>lp adv. - lp * adv) log_prob advantages) (\<lambda>pg_losses.
     rbind (agg_policy_loss (global_batch_info config) pg_losses response_mask mode rollout_is_weights) (\<lambda>pg_loss. Inr (pg_loss, [])))"

definition compute_policy_loss_cispo :: policy_loss_fn where
  "compute_policy_loss_cispo config old_log_prob log_prob advantages response_mask mode rollout_is_weights =
     rbind (policy_tokens (\<lambda>old lp adv.
         let ratio = exp (clamped_kl old lp); clipped = clamp (1 - clip_low config) (1 + clip_high config) ratio
         in (- clipped * adv * lp, clamped_kl old lp, ratio \<noteq> clipped)) old_log_prob log_prob advantages response_mask) (\<lambda>toks.
     rbind (agg_policy_loss (global_batch_info config) (mat_map fst toks) response_mask mode rollout_is_weights) (\<lambda>pg_loss.
     Inr (pg_loss, pg_metrics (masked_mean (mat_map (\<lambda>(_, _, c). of_bool c) toks) response_mask)
       (masked_mean (mat_map (\<lambda>(_, k, _). - k) toks) response_mask) 0)))"

text \<open>The geometric mean of a sequence; this loss takes the mean over the sequences itself. Logarithms of weights are defined for
  weights that are not negative.\<close>

definition geo_mean_row :: "actor_config \<Rightarrow> (real \<times> real) list \<Rightarrow> bool list \<Rightarrow> real" where
  "geo_mean_row config row m =
     (let n = count_mask m + mean_eps;
          kl_min = (\<lambda>(k, adv). sgn adv * min (sgn adv * k) (sgn adv * clamp (- clip_low config) (clip_high config) k))
      in - (masked_sum (map snd row) m / n) * exp (masked_sum (map kl_min row) m / n))"

definition compute_policy_loss_geo_mean :: policy_loss_fn where
  "compute_policy_loss_geo_mean config old_log_prob log_prob advantages response_mask mode rollout_is_weights =
     rbind (policy_tokens (\<lambda>old lp adv. (lp - old, adv)) old_log_prob log_prob advantages response_mask) (\<lambda>toks.
     let losses = map2 (geo_mean_row config) toks response_mask;
         clipped = (\<lambda>k. k \<noteq> clamp (- clip_low config) (clip_high config) k) in
     rbind (case rollout_is_weights of
         None \<Rightarrow> Inr losses
       | Some w \<Rightarrow> rbind (require (same_shape w response_mask) RuntimeError) (\<lambda>_.
           Inr (map2 (*) losses (map2 (\<lambda>row m. exp (masked_sum (map (\<lambda>x. ln (x + 1 / 10 ^ 10)) row) m / (count_mask m + mean_eps))) w response_mask))))
       (\<lambda>pg_losses.
     rbind (fdiv (sum_list pg_losses) (real (length pg_losses))) (\<lambda>pg_loss.
     Inr (pg_loss, pg_metrics (masked_mean (mat_map (\<lambda>(k, adv). of_bool (clipped k \<and> 0 < adv)) toks) response_mask)
       (masked_mean (mat_map (\<lambda>(k, _). - k) toks) response_mask)
       (masked_mean (mat_map (\<lambda>(k, adv). of_bool (clipped k \<and> adv < 0)) toks) response_mask)))))"

text \<open>The registry of policy losses is a dictionary any code may add to, and a later registration replaces an earlier one: the losses
  above, and the losses registered besides them (among them \<^verbatim>\<open>clip_cov\<close>, \<^verbatim>\<open>kl_cov\<close> and \<^verbatim>\<open>bypass_mode\<close>), which are a parameter.\<close>

definition get_policy_loss_fn :: "(string \<times> policy_loss_fn) list \<Rightarrow> string \<Rightarrow> policy_loss_fn res" where
  "get_policy_loss_fn others name =
     (case map_of
        (others @ [(''vanilla'', \<lambda>config. compute_policy_loss_vanilla (actor_clip config) (global_batch_info config)),
          (''dppo_tv'', compute_policy_loss_dppo dppo_tv_valid), (''dppo_kl'', compute_policy_loss_dppo dppo_kl_valid),
          (''gspo'', compute_policy_loss_gspo), (''sapo'', compute_policy_loss_sapo), (''gpg'', compute_policy_loss_gpg),
          (''geo_mean'', compute_policy_loss_geo_mean), (''cispo'', compute_policy_loss_cispo)]) name of
        None \<Rightarrow> Inl ValueError
      | Some f \<Rightarrow> Inr f)"

subsection \<open>The PPO loss\<close>

definition data_item :: "batch_info \<Rightarrow> string \<Rightarrow> real option res" where
  "data_item info k = (case map_of info k of None \<Rightarrow> Inl KeyError | Some v \<Rightarrow> Inr v)"

definition from_dict :: "aggregation \<Rightarrow> metrics \<Rightarrow> metrics" where
  "from_dict agg ms = map (\<lambda>(k, _, v). (k, agg, v)) ms"

text \<open>\<^verbatim>\<open>ppo_loss\<close> first writes the batch information into the dictionary of the actor configuration, which keeps the other entries
  it has; the policy loss, the entropy term and the KL term read it from there.\<close>

definition ppo_loss ::
  "(string \<times> policy_loss_fn) list \<Rightarrow> actor_config \<Rightarrow> real list \<Rightarrow> real list option \<Rightarrow> loss_data \<Rightarrow> (real \<times> metrics \<times> batch_info) res" where
  "ppo_loss others config log_probs entropy0 d =
     rbind (no_padding_2_padding 0 log_probs d) (\<lambda>log_prob.
     rbind (case entropy0 of None \<Rightarrow> Inr None | Some e \<Rightarrow> rbind (no_padding_2_padding 0 e d) (\<lambda>x. Inr (Some x))) (\<lambda>entropy.
     rbind (data_item (ld_info d) ''dp_size'') (\<lambda>dp.
     rbind (data_item (ld_info d) ''batch_num_tokens'') (\<lambda>bnt.
     rbind (data_item (ld_info d) ''global_batch_size'') (\<lambda>gbs.
     rbind (case dp of None \<Rightarrow> Inl TypeError | Some x \<Rightarrow> Inr x) (\<lambda>dp_size.
     let info = AList.update ''loss_scale_factor'' (loss_scale_factor config)
           (AList.update ''global_batch_size'' gbs (AList.update ''batch_num_tokens'' bnt
              (AList.update ''dp_size'' dp (global_batch_info config))));
         agg = (if 1 < dp_size \<or> bnt \<noteq> None \<or> gbs \<noteq> None \<or> loss_scale_factor config \<noteq> None then Agg_Sum else Agg_Mean);
         response_mask = to_padded False (ld_response_mask d); mode = loss_agg_mode config in
     rbind (get_policy_loss_fn others (actor_policy_loss config)) (\<lambda>policy_loss_fn.
     rbind (policy_loss_fn (config\<lparr>global_batch_info := info\<rparr>) (to_padded 0 (ld_old_log_probs d)) log_prob
              (to_padded 0 (ld_advantages d)) response_mask mode (map_option (to_padded 0) (ld_rollout_is_weights d))) (\<lambda>(pg_loss, pg).
     let m0 = set_metric ''actor/pg_loss'' agg pg_loss (update_metrics [] (from_dict Agg_Mean pg)) in
     rbind (case entropy of None \<Rightarrow> Inr (pg_loss, m0)
            | Some e \<Rightarrow> rbind (agg_loss_kw e response_mask mode info) (\<lambda>entropy_loss.
                Inr (pg_loss - entropy_coeff config * entropy_loss, set_metric ''actor/entropy_loss'' agg entropy_loss m0))) (\<lambda>(loss1, m1).
     rbind (if \<not> use_kl_loss config then Inr (loss1, m1)
            else rbind (case ld_ref_log_prob d of None \<Rightarrow> Inl KeyError | Some r \<Rightarrow> Inr (to_padded 0 r)) (\<lambda>ref_log_prob.
                 rbind (kl_penalty_mat log_prob ref_log_prob (kl_loss_type config)) (\<lambda>kld.
                 rbind (agg_loss_kw kld response_mask mode info) (\<lambda>kl_loss.
                 Inr (loss1 + kl_loss * kl_loss_coef config,
                      set_metric ''kl_coef'' Agg_Raw (kl_loss_coef config) (set_metric ''kl_loss'' agg kl_loss m1)))))) (\<lambda>(loss2, m2).
     Inr (loss2, m2, info)))))))))))"

section \<open>Laws of aggregation\<close>

subsection \<open>Sums over rows\<close>

lemma count_mask_nonneg [simp]: "0 \<le> count_mask ms"
  by (simp add: count_mask_def)

lemma count_mask_simps [simp]:
  "count_mask [] = 0" "count_mask (m # ms) = of_bool m + count_mask ms" "count_mask (ms @ ns) = count_mask ms + count_mask ns"
  by (simp_all add: count_mask_def)

lemma count_mask_mat_simps [simp]:
  "count_mask_mat [] = 0" "count_mask_mat (m # ms) = count_mask m + count_mask_mat ms"
  "count_mask_mat (ms @ ns) = count_mask_mat ms + count_mask_mat ns"
  by (simp_all add: count_mask_mat_def)

lemma masked_sum_Nil [simp]: "masked_sum [] ms = 0" "masked_sum xs [] = 0"
  by (simp_all add: masked_sum_def)

lemma masked_sum_Cons [simp]: "masked_sum (x # xs) (m # ms) = (if m then x else 0) + masked_sum xs ms"
  by (simp add: masked_sum_def)

lemma masked_sum_select: "length xs = length ms \<Longrightarrow> masked_sum xs ms = sum_list (select ms xs)"
  by (induction xs ms rule: list_induct2) auto

lemma masked_sum_mat_Nil [simp]: "masked_sum_mat [] ms = 0"
  by (simp add: masked_sum_mat_def)

lemma masked_sum_mat_Cons [simp]: "masked_sum_mat (x # xs) (m # ms) = masked_sum x m + masked_sum_mat xs ms"
  by (simp add: masked_sum_mat_def)

lemma same_shape_simps [simp]:
  "same_shape [] []" "same_shape (x # xs) (y # ys) \<longleftrightarrow> length x = length y \<and> same_shape xs ys"
  by (auto simp: same_shape_def)

lemma same_shape_length: "same_shape xs ys \<Longrightarrow> length xs = length ys"
  by (auto simp: same_shape_def dest: map_eq_imp_length_eq)

lemma same_shape_append: "same_shape xs ys \<Longrightarrow> same_shape xs' ys' \<Longrightarrow> same_shape (xs @ xs') (ys @ ys')"
  by (auto simp: same_shape_def)

text \<open>What a mode sums for each row, and what the sum is divided by.\<close>

definition row_term :: "string \<Rightarrow> real list \<Rightarrow> bool list \<Rightarrow> real" where
  "row_term mode xs ms =
     (if mode = ''token-mean'' then masked_sum xs ms
      else if mode = ''seq-mean-token-mean'' then (if row_kept ms then masked_sum xs ms / (count_mask ms + mean_eps) else 0)
      else (if row_kept ms then masked_sum xs ms else 0))"

definition rows_sum :: "string \<Rightarrow> mat \<Rightarrow> bool list list \<Rightarrow> real" where
  "rows_sum mode xss mss = sum_list (map2 (row_term mode) xss mss)"

definition agg_scale :: "string \<Rightarrow> real \<Rightarrow> real \<Rightarrow> real \<Rightarrow> real" where
  "agg_scale mode n b s = (if mode = ''token-mean'' then n else if mode = ''seq-mean-token-sum-norm'' then b * s else b)"

definition agg_modes :: "string set" where
  "agg_modes = {''token-mean'', ''seq-mean-token-sum'', ''seq-mean-token-sum-norm'', ''seq-mean-token-mean''}"

lemma rows_sum_append:
  "same_shape xss mss \<Longrightarrow> rows_sum mode (xss @ yss) (mss @ nss) = rows_sum mode xss mss + rows_sum mode yss nss"
  by (auto simp: rows_sum_def dest: same_shape_length)

lemma masked_sum_map2:
  "length xss = length mss \<Longrightarrow> masked_sum (map2 f xss mss) (map row_kept mss) = sum_list (map2 (\<lambda>xs ms. if row_kept ms then f xs ms else 0) xss mss)"
  by (induction xss mss rule: list_induct2) auto

lemma agg_loss_eq:
  assumes "same_shape xss mss" "mode \<in> agg_modes" "n \<noteq> 0" "b \<noteq> 0" "s \<noteq> 0"
  shows "agg_loss xss mss mode d (Some n) (Some b) (Some s) = Inr (rows_sum mode xss mss / agg_scale mode n b s * d)"
proof -
  have l: "length xss = length mss" using assms(1) by (rule same_shape_length)
  from assms(2) consider "mode = ''token-mean''" | "mode = ''seq-mean-token-sum''" | "mode = ''seq-mean-token-sum-norm''"
    | "mode = ''seq-mean-token-mean''" by (auto simp: agg_modes_def)
  then show ?thesis
  proof cases
    case 1
    then show ?thesis using assms by (simp add: agg_loss_def global_count_def fdiv_def rows_sum_def row_term_def [abs_def]
          masked_sum_mat_def agg_scale_def)
  next
    case 2
    then show ?thesis using assms l by (simp add: agg_loss_def global_count_def fdiv_def rows_sum_def row_term_def [abs_def]
          agg_scale_def masked_sum_map2)
  next
    case 3
    then show ?thesis using assms l by (simp add: agg_loss_def global_count_def fdiv_def rows_sum_def row_term_def [abs_def]
          agg_scale_def masked_sum_map2)
  next
    case 4
    then show ?thesis using assms l by (simp add: agg_loss_def global_count_def fdiv_def rows_sum_def row_term_def [abs_def]
          agg_scale_def masked_sum_map2)
  qed
qed

lemma rows_sum_concat:
  "list_all (\<lambda>(x, m). same_shape x m) mbs \<Longrightarrow> same_shape (concat (map fst mbs)) (concat (map snd mbs))
    \<and> rows_sum mode (concat (map fst mbs)) (concat (map snd mbs)) = sum_list (map (\<lambda>(x, m). rows_sum mode x m) mbs)"
  by (induction mbs) (auto simp: rows_sum_append same_shape_append, auto simp: rows_sum_def)

text \<open>C38 Given the global counts, the losses of the micro-batches of all ranks, averaged over the ranks as the gradients
  are, add up to the loss of the undivided batch on one rank: the loss does not depend on the cut into micro-batches
  nor on the number of ranks, in every aggregation mode.\<close>

theorem agg_loss_partition_invariant:
  assumes "list_all (\<lambda>(x, m). same_shape x m) mbs" "mode \<in> agg_modes" "n \<noteq> 0" "b \<noteq> 0" "s \<noteq> 0" "d \<noteq> 0"
  shows "\<exists>ls total. rmap (\<lambda>(x, m). agg_loss x m mode d (Some n) (Some b) (Some s)) mbs = Inr ls
    \<and> agg_loss (concat (map fst mbs)) (concat (map snd mbs)) mode 1 (Some n) (Some b) (Some s) = Inr total
    \<and> sum_list ls / d = total"
proof -
  let ?c = "agg_scale mode n b s" and ?f = "\<lambda>(x, m). rows_sum mode x m"
  have "rmap (\<lambda>(x, m). agg_loss x m mode d (Some n) (Some b) (Some s)) mbs = Inr (map (\<lambda>p. ?f p / ?c * d) mbs)"
    by (rule rmap_Inr) (use assms agg_loss_eq in \<open>auto simp: list_all_iff split: prod.splits\<close>)
  moreover have "agg_loss (concat (map fst mbs)) (concat (map snd mbs)) mode 1 (Some n) (Some b) (Some s)
      = Inr (sum_list (map ?f mbs) / ?c)"
    using agg_loss_eq [OF _ assms(2-5)] rows_sum_concat [OF assms(1), of mode] by simp
  moreover have "sum_list (map (\<lambda>p. ?f p / ?c * d) mbs) = sum_list (map ?f mbs) / ?c * d"
    by (induction mbs) (simp_all add: add_divide_distrib distrib_right)
  ultimately show ?thesis using assms(6) by simp
qed

theorem agg_loss_partition_invariant_witness:
  "\<exists>ls total. rmap (\<lambda>(x, m). agg_loss x m ''seq-mean-token-mean'' 2 (Some 3) (Some 2) (Some 1))
      [([[1, 2]], [[True, True]]), ([[3, 4]], [[True, False]])] = Inr ls
    \<and> agg_loss [[1, 2], [3, 4]] [[True, True], [True, False]] ''seq-mean-token-mean'' 1 (Some 3) (Some 2) (Some 1) = Inr total
    \<and> sum_list ls / 2 = total"
  using agg_loss_partition_invariant [of "[([[1, 2]], [[True, True]]), ([[3, 4]], [[True, False]])]" "''seq-mean-token-mean''" 3 2 1 2]
  by (simp add: agg_modes_def)

subsection \<open>Response slices\<close>

lemma response_rows_concat:
  assumes "list_all2 (\<lambda>(p, r) vs. length vs = p + r \<and> 0 < p) prs vss"
  shows "response_rows z (pre @ concat vss) n (length pre) prs = map2 (\<lambda>(p, r) vs. fit_row n z (slice (p - 1) (p + r - 1) vs)) prs vss"
  using assms
proof (induction prs vss arbitrary: pre rule: list_all2_induct)
  case (Cons pr prs vs vss)
  obtain p r where pr: "pr = (p, r)" by (cases pr)
  then have l: "length vs = p + r" "0 < p" using Cons.hyps(1) by auto
  have "slice (length pre + (p + r) - r - 1) (length pre + (p + r) - 1) (pre @ vs @ concat vss) = slice (p - 1) (p + r - 1) vs"
    using l by (simp add: slice_def)
  then show ?case using Cons.IH [of "pre @ vs"] l pr by (simp add: Let_def)
qed simp

lemma sequence_lens_sum:
  "list_all2 (\<lambda>(p, r) vs. length vs = p + r \<and> 0 < p) (zip pl rl) vss \<Longrightarrow> length pl = length rl \<Longrightarrow>
    sum_list pl + sum_list rl = length (concat vss)"
proof (induction pl arbitrary: rl vss)
  case (Cons p pl)
  then obtain r rl' v vss' where e: "rl = r # rl'" "vss = v # vss'" by (cases rl; cases vss) auto
  then show ?case using Cons.IH [of rl' vss'] Cons.prems by simp
qed simp

text \<open>The padded slice of a flat model output holds, for the token \<open>j\<close> of the response of sequence \<open>i\<close>, what the model
  returned one position earlier in that sequence, where it predicts the token; behind the response it is zero.\<close>

theorem response_slice_predicts:
  assumes "list_all2 (\<lambda>(p, r) vs. length vs = length p + length r \<and> p \<noteq> []) (zip ps rs) vss" "length ps = length rs" "ps \<noteq> []"
    and "ld_prompts d = Jagged ps" "ld_responses d = Jagged rs" "list_all (\<lambda>r. int (length r) \<le> ld_max_response_len d) rs"
  shows "\<exists>out. no_padding_2_padding z (concat vss) d = Inr out \<and> length out = length ps
    \<and> (\<forall>i<length ps. length (out ! i) = nat (ld_max_response_len d)
         \<and> (\<forall>j<nat (ld_max_response_len d). out ! i ! j = (if j < length (rs ! i) then vss ! i ! (length (ps ! i) + j - 1) else z)))"
proof -
  let ?n = "nat (ld_max_response_len d)" and ?prs = "zip (map length ps) (map length rs)"
  have n0: "0 \<le> ld_max_response_len d" using assms(2,3,6) by (cases rs) auto
  have l: "length vss = length ps" using assms(1,2) by (auto dest: list_all2_lengthD)
  have nth: "length (vss ! i) = length (ps ! i) + length (rs ! i) \<and> ps ! i \<noteq> []" if "i < length ps" for i
    using list_all2_nthD [OF assms(1), of i] that assms(2) by simp
  have two: "list_all2 (\<lambda>(p, r) vs. length vs = p + r \<and> 0 < p) ?prs vss"
    using nth l assms(2) by (simp add: list_all2_conv_all_nth)
  have "sum_list (map length ps) + sum_list (map length rs) = length (concat vss)"
    using sequence_lens_sum [OF two] assms(2) by simp
  moreover have "0 \<notin> set (map length ps)" using nth by (auto simp: in_set_conv_nth)
  ultimately have run: "no_padding_2_padding z (concat vss) d = Inr (response_rows z (concat vss) ?n 0 ?prs)"
    using assms(2-5) n0 by (simp add: no_padding_2_padding_def response_layout_def)
  let ?out = "map2 (\<lambda>(p, r) vs. fit_row ?n z (slice (p - 1) (p + r - 1) vs)) ?prs vss"
  have out: "response_rows z (concat vss) ?n 0 ?prs = ?out" using response_rows_concat [OF two, of z "[]" ?n] by simp
  have row: "length (?out ! i) = ?n \<and> (\<forall>j<?n. ?out ! i ! j = (if j < length (rs ! i) then vss ! i ! (length (ps ! i) + j - 1) else z))"
    if i: "i < length ps" for i
  proof -
    let ?p = "length (ps ! i)" and ?r = "length (rs ! i)"
    have r: "?r \<le> ?n" using assms(2,6) i by (force simp: list_all_length)
    have o: "?out ! i = fit_row ?n z (slice (?p - 1) (?p + ?r - 1) (vss ! i))" using i l assms(2) by simp
    have sl: "length (slice (?p - 1) (?p + ?r - 1) (vss ! i)) = ?r" using nth [OF i] by (simp add: slice_def Suc_leI)
    have "slice (?p - 1) (?p + ?r - 1) (vss ! i) ! j = vss ! i ! (?p + j - 1)" if "j < ?r" for j
    proof -
      have "?p - 1 + j = ?p + j - 1" using nth [OF i] by (cases "ps ! i") auto
      then show ?thesis using nth [OF i] that by (simp add: slice_def)
    qed
    then show ?thesis unfolding o using sl r by (auto simp: fit_row_def nth_append)
  qed
  then show ?thesis using run out l assms(2) by (intro exI [of _ ?out]) simp
qed

theorem response_slice_predicts_witness:
  "\<exists>out. no_padding_2_padding 0 [1, 2, 3, 4, 5] \<lparr>ld_prompts = Jagged [[7], [7, 8]], ld_responses = Jagged [[9], [9]], ld_attention_mask = [],
       ld_max_response_len = 2, ld_response_mask = [], ld_info = [], ld_old_log_probs = [], ld_advantages = [],
       ld_rollout_is_weights = None, ld_ref_log_prob = None, ld_teacher_logprobs = None\<rparr> = Inr out
    \<and> out ! 0 ! 0 = (1 :: int) \<and> out ! 1 ! 0 = 4 \<and> out ! 1 ! 1 = 0"
proof -
  let ?d = "\<lparr>ld_prompts = Jagged [[7], [7, 8]], ld_responses = Jagged [[9], [9]], ld_attention_mask = [],
       ld_max_response_len = 2, ld_response_mask = [], ld_info = [], ld_old_log_probs = [], ld_advantages = [],
       ld_rollout_is_weights = None, ld_ref_log_prob = None, ld_teacher_logprobs = None\<rparr>"
  obtain out where o: "no_padding_2_padding 0 (concat [[1, 2], [3, 4, 5]]) ?d = Inr out"
    and n: "\<forall>i<Suc (Suc 0). length (out ! i) = 2 \<and> (\<forall>j<2. out ! i ! j
         = (if j < length ([[9 :: int], [9]] ! i) then [[1 :: int, 2], [3, 4, 5]] ! i ! (length ([[7 :: int], [7, 8]] ! i) + j - 1) else 0))"
    using response_slice_predicts [of "[[7], [7, 8]]" "[[9], [9]]" "[[1 :: int, 2], [3, 4, 5]]" ?d 0] by auto
  have "out ! 0 ! 0 = 1" "out ! 1 ! 0 = 4" "out ! 1 ! 1 = 0"
    using n [rule_format, of 0, THEN conjunct2, rule_format, of 0] n [rule_format, of 1, THEN conjunct2, rule_format, of 0]
      n [rule_format, of 1, THEN conjunct2, rule_format, of 1] by simp_all
  then show ?thesis using o by simp
qed

subsection \<open>Estimators and clipping\<close>

lemma exp_gt_one_plus: "t \<noteq> 0 \<Longrightarrow> 1 + t < exp (t :: real)"
proof (cases "0 \<le> 1 + t / 2")
  case True
  assume "t \<noteq> 0"
  have "(1 + t / 2)\<^sup>2 = 1 + t + t\<^sup>2 / 4" by (simp add: power2_eq_square algebra_simps)
  then have "1 + t < (1 + t / 2)\<^sup>2" using \<open>t \<noteq> 0\<close> by simp
  also have "\<dots> \<le> (exp (t / 2))\<^sup>2" using True exp_ge_add_one_self [of "t / 2"] by (intro power_mono) auto
  also have "\<dots> = exp t" by (simp add: power2_eq_square flip: exp_add)
  finally show ?thesis .
next
  case False
  then show ?thesis using exp_gt_zero [of t] by linarith
qed

lemma clamp_bounds: "lo \<le> hi \<Longrightarrow> lo \<le> clamp lo hi x \<and> clamp lo hi x \<le> hi"
  by (simp add: clamp_def)

lemma clamp_id: "lo \<le> x \<Longrightarrow> x \<le> hi \<Longrightarrow> clamp lo hi x = x"
  by (simp add: clamp_def)

lemma kl_penalty_values:
  "kl_penalty x y ''kl'' = Inr (x - y)" "kl_penalty x y ''k1'' = Inr (x - y)" "kl_penalty x y ''abs'' = Inr \<bar>x - y\<bar>"
  "kl_penalty x y ''mse'' = Inr ((x - y)\<^sup>2 / 2)" "kl_penalty x y ''k2'' = Inr ((x - y)\<^sup>2 / 2)"
  "kl_penalty x y ''low_var_kl'' = Inr (clamp (-10) 10 (exp (clamp (-20) 20 (y - x)) - clamp (-20) 20 (y - x) - 1))"
  "kl_penalty x y ''k3'' = Inr (clamp (-10) 10 (exp (clamp (-20) 20 (y - x)) - clamp (-20) 20 (y - x) - 1))"
  by (simp_all add: kl_penalty_def kl_penalty_forward_def Let_def)

text \<open>The low-variance estimator is between 0 and 10 and vanishes exactly where the two log-probabilities agree.\<close>

lemma k3_sound:
  assumes "mode \<in> {''low_var_kl'', ''k3''}"
  shows "\<exists>v. kl_penalty x y mode = Inr v \<and> 0 \<le> v \<and> v \<le> 10 \<and> (v = 0 \<longleftrightarrow> x = y)"
proof -
  define kl where "kl = clamp (-20) 20 (y - x)"
  have k0: "kl = 0 \<longleftrightarrow> x = y" by (auto simp: kl_def clamp_def min_def max_def)
  define kld where "kld = exp kl - kl - 1"
  have kld: "0 \<le> kld" "kld = 0 \<longleftrightarrow> kl = 0"
    by (cases "kl = 0"; use exp_gt_one_plus [of kl] in \<open>simp add: kld_def\<close>; linarith)+
  have "kl_penalty x y mode = Inr (clamp (-10) 10 kld)"
    using assms by (elim insertE emptyE) (simp_all only: kl_penalty_values kl_def kld_def)
  moreover have "clamp (-10) 10 kld = min kld 10" using kld(1) by (simp add: clamp_def)
  ultimately show ?thesis using kld k0 by (auto simp: min_def)
qed

text \<open>Every estimator but the signed one is nonnegative and vanishes only for equal log-probabilities.\<close>

lemma kl_penalty_sound:
  assumes "mode \<in> {''abs'', ''mse'', ''k2'', ''low_var_kl'', ''k3''}"
  shows "\<exists>v. kl_penalty x y mode = Inr v \<and> 0 \<le> v \<and> (v = 0 \<longleftrightarrow> x = y)"
proof (cases "mode \<in> {''low_var_kl'', ''k3''}")
  case True
  then show ?thesis using k3_sound by blast
next
  case False
  then have "mode \<in> {''abs'', ''mse'', ''k2''}" using assms by blast
  then have "kl_penalty x y mode = Inr \<bar>x - y\<bar> \<or> kl_penalty x y mode = Inr ((x - y)\<^sup>2 / 2)"
    by (elim insertE emptyE) (simp_all only: kl_penalty_values simp_thms)
  moreover have "0 \<le> (x - y)\<^sup>2 / 2" "(x - y)\<^sup>2 / 2 = 0 \<longleftrightarrow> x = y" "0 \<le> \<bar>x - y\<bar>" "\<bar>x - y\<bar> = 0 \<longleftrightarrow> x = y" by simp_all
  ultimately show ?thesis by blast
qed

lemma kl_penalty_total:
  assumes "mode \<in> {''kl'', ''k1'', ''abs'', ''mse'', ''k2'', ''low_var_kl'', ''k3''}"
  shows "\<exists>v. kl_penalty x y mode = Inr v"
  using assms by (elim insertE emptyE) (simp_all only: kl_penalty_values, blast+)

lemma kl_penalty_mat_total:
  assumes "same_shape xs ys" "mode \<in> {''kl'', ''k1'', ''abs'', ''mse'', ''k2'', ''low_var_kl'', ''k3''}"
  shows "\<exists>out. kl_penalty_mat xs ys mode = Inr out \<and> same_shape out xs"
proof -
  have "\<exists>out. rmap (rmap (\<lambda>(x, y). kl_penalty x y mode)) ps = Inr out" for ps
    by (intro rmap_total) (use kl_penalty_total [OF assms(2)] in auto)
  then obtain out where o: "rmap (rmap (\<lambda>(x, y). kl_penalty x y mode)) (map2 (map2 Pair) xs ys) = Inr out" by blast
  have "same_shape out (map2 (map2 Pair) xs ys)" unfolding same_shape_def
    using o [unfolded rmap_eq_Inr] by (induction rule: list_all2_induct) (auto dest: list_all2_lengthD)
  moreover have "map length (map2 (map2 Pair) xs ys) = map length xs"
    using assms(1) same_shape_length [OF assms(1)] by (auto simp: same_shape_def list_eq_iff_nth_eq)
  ultimately show ?thesis using o assms(1) by (auto simp: kl_penalty_mat_def elementwise_def same_shape_def)
qed

text \<open>The clipped policy loss of a token: inside the trust region it is the plain objective; a positive advantage never
  earns more than the upper clip, and a negative one never costs more than the dual clip.\<close>

theorem clip_token_sound:
  assumes "0 \<le> or_else (clip_ratio_low cc) (clip_ratio cc)" "0 \<le> or_else (clip_ratio_high cc) (clip_ratio cc)" "1 < clip_ratio_c cc"
  shows "case clip_token cc old lp adv of (loss, kl, _) \<Rightarrow>
      (0 \<le> adv \<longrightarrow> - adv * (1 + or_else (clip_ratio_high cc) (clip_ratio cc)) \<le> loss \<and> loss \<le> 0)
    \<and> (adv < 0 \<longrightarrow> 0 \<le> loss \<and> loss \<le> - adv * clip_ratio_c cc)
    \<and> (1 - or_else (clip_ratio_low cc) (clip_ratio cc) \<le> exp kl \<and> exp kl \<le> 1 + or_else (clip_ratio_high cc) (clip_ratio cc)
        \<and> exp kl \<le> clip_ratio_c cc \<longrightarrow> loss = - adv * exp kl)"
proof -
  define lo hi where "lo = or_else (clip_ratio_low cc) (clip_ratio cc)" and "hi = or_else (clip_ratio_high cc) (clip_ratio cc)"
  define k where "k = clamp (-20) 20 (lp - old)"
  define r where "r = exp k"
  define q where "q = clamp (1 - lo) (1 + hi) r"
  have r: "0 < r" by (simp add: r_def)
  have q: "q \<le> 1 + hi" "1 \<le> r \<Longrightarrow> 1 \<le> q" "0 < q"
    using assms(1,2) r by (auto simp: q_def clamp_def lo_def hi_def min_def max_def)
  have ct: "clip_token cc old lp adv = (if adv < 0 then min (- adv * clip_ratio_c cc) (max (- adv * r) (- adv * q)) else max (- adv * r) (- adv * q),
      k, - adv * r < - adv * q, - adv * clip_ratio_c cc < max (- adv * r) (- adv * q) \<and> adv < 0)"
    by (simp add: clip_token_def Let_def k_def r_def q_def lo_def hi_def)
  have pos: "- adv * (1 + hi) \<le> max (- adv * r) (- adv * q) \<and> max (- adv * r) (- adv * q) \<le> 0" if "0 \<le> adv"
  proof -
    have "adv * q \<le> adv * (1 + hi)" using q(1) that by (intro mult_left_mono) auto
    moreover have "0 \<le> adv * r" "0 \<le> adv * q" using that r q(3) by auto
    ultimately show ?thesis by auto
  qed
  have neg: "0 \<le> min (- adv * clip_ratio_c cc) (max (- adv * r) (- adv * q))" if "adv < 0"
    using that r q(3) assms(3) by (auto simp: min_def max_def mult_nonpos_nonneg less_imp_le)
  have eq: "max (- adv * r) (- adv * q) = - adv * r" if "1 - lo \<le> r" "r \<le> 1 + hi" using that by (simp add: q_def clamp_id)
  have eq2: "min (- adv * clip_ratio_c cc) (- adv * r) = - adv * r" if "adv < 0" "r \<le> clip_ratio_c cc"
    using mult_left_mono [OF that(2), of "- adv"] that(1) by (simp add: min_def)
  show ?thesis unfolding ct lo_def [symmetric] hi_def [symmetric] r_def [symmetric] prod.case
  proof (intro conjI impI)
    assume "adv < 0" then show "0 \<le> (if adv < 0 then min (- adv * clip_ratio_c cc) (max (- adv * r) (- adv * q)) else max (- adv * r) (- adv * q))"
      using neg by simp
  next
    assume "1 - lo \<le> r \<and> r \<le> 1 + hi \<and> r \<le> clip_ratio_c cc"
    then show "(if adv < 0 then min (- adv * clip_ratio_c cc) (max (- adv * r) (- adv * q)) else max (- adv * r) (- adv * q)) = - adv * r"
      using eq eq2 by simp
  qed (use pos in auto)
qed

theorem clip_token_sound_witness:
  "case clip_token \<lparr>clip_ratio = 1 / 5, clip_ratio_low = None, clip_ratio_high = Some (1 / 4), clip_ratio_c = 3\<rparr> 0 0 1 of
     (loss, kl, _) \<Rightarrow> - (5 / 4) \<le> loss \<and> loss \<le> 0"
  using clip_token_sound [where cc = "\<lparr>clip_ratio = 1 / 5, clip_ratio_low = None, clip_ratio_high = Some (1 / 4), clip_ratio_c = 3\<rparr>"
      and old = 0 and lp = 0 and adv = 1]
  by (simp add: or_else_def case_prod_beta)

end
