(* ===== verification/Distill_Config.thy ===== *)
theory Distill_Config
  imports Agg_Loss
begin

section \<open>Configuration of the distillation\<close>

text \<open>
  Model of \<^verbatim>\<open>workers/config/distillation.py\<close> (the loss, the teachers and their resource pool), of the registry of loss
  functions in \<^verbatim>\<open>trainer/distillation/losses.py\<close>, and of \<^verbatim>\<open>trainer/distillation/teacher_source.py\<close>, which decides whether
  teacher log-probabilities come from a server or from the main model of the composed student.

  A dataclass is a record and its \<^verbatim>\<open>__post_init__\<close> a function that returns the completed record or raises. Dictionaries
  are association lists in insertion order. Printed warnings are left out. The record \<open>source_view\<close> holds the values
  that \<^verbatim>\<open>teacher_source.py\<close> selects from the configuration tree; the file system is a parameter.
\<close>

subsection \<open>Registered losses\<close>

datatype loss_fn = Forward_kl_topk | Eagle3_native | Reverse_kl_estimator

record loss_settings =
  setting_names :: "string list"
  use_topk :: bool
  use_estimator :: bool

definition settings_post_init :: "loss_settings \<Rightarrow> loss_settings res" where
  "settings_post_init st = (if of_bool (use_topk st) + of_bool (use_estimator st) \<noteq> (1 :: nat) then Inl ValueError else Inr st)"

type_synonym registry = "(string \<times> loss_fn \<times> loss_settings) list"

definition register_distillation_loss :: "loss_fn \<Rightarrow> loss_settings \<Rightarrow> registry \<Rightarrow> registry res" where
  "register_distillation_loss f st0 reg =
     rbind (settings_post_init st0) (\<lambda>st.
     rfold (\<lambda>reg name. if map_of reg name \<noteq> None then Inl ValueError else Inr (reg @ [(name, f, st)])) reg (setting_names st))"

definition EAGLE3_NATIVE :: string where
  "EAGLE3_NATIVE = ''eagle3_native_target_distribution''"

text \<open>The registrations done when the module is imported, in their order.\<close>

definition loss_registry :: "registry res" where
  "loss_registry =
     rbind (register_distillation_loss Forward_kl_topk \<lparr>setting_names = [''forward_kl_topk''], use_topk = True, use_estimator = False\<rparr> []) (\<lambda>r1.
     rbind (register_distillation_loss Eagle3_native \<lparr>setting_names = [EAGLE3_NATIVE], use_topk = False, use_estimator = True\<rparr> r1) (\<lambda>r2.
     register_distillation_loss Reverse_kl_estimator
       \<lparr>setting_names = [''kl'', ''k1'', ''abs'', ''mse'', ''k2'', ''low_var_kl'', ''k3''], use_topk = False, use_estimator = True\<rparr> r2))"

definition get_distillation_loss_fn :: "string \<Rightarrow> loss_fn res" where
  "get_distillation_loss_fn name =
     rbind loss_registry (\<lambda>reg. case map_of reg name of None \<Rightarrow> Inl ValueError | Some (f, _) \<Rightarrow> Inr f)"

definition get_distillation_loss_settings :: "string \<Rightarrow> loss_settings res" where
  "get_distillation_loss_settings name =
     rbind loss_registry (\<lambda>reg. case map_of reg name of None \<Rightarrow> Inl ValueError | Some (_, st) \<Rightarrow> Inr st)"

subsection \<open>The loss\<close>

record loss_config =
  loss_mode :: string
  use_tv_loss :: bool
  lc_topk :: "int option"
  use_task_rewards :: bool
  distillation_loss_coef :: real
  reverse_kl_weight :: real
  forward_kl_weight :: real
  response_stream_weight :: real
  rejected_draft_stream_weight :: real
  rejected_draft_use_reverse_kl :: bool
  rejected_draft_position_decay_enabled :: bool
  rejected_draft_position_decay :: real
  accept_draft_position_decay_enabled :: bool
  rejected_draft_first_token_only :: bool
  loss_max_clamp :: "real option"
  log_prob_min_clamp :: "real option"
  use_policy_gradient :: bool
  policy_loss_mode :: string
  lc_clip :: clip_config
  lc_global_batch_info :: batch_info
  lc_settings :: "loss_settings option"

definition loss_config_post_init :: "loss_config \<Rightarrow> loss_config res" where
  "loss_config_post_init c =
     rbind (get_distillation_loss_settings (if use_tv_loss c then ''k3'' else loss_mode c)) (\<lambda>st.
     if use_tv_loss c \<and> use_policy_gradient c then Inl NotImplementedError
     else if \<not> use_tv_loss c \<and> reverse_kl_weight c < 0 then Inl ValueError
     else if \<not> use_tv_loss c \<and> forward_kl_weight c < 0 then Inl ValueError
     else if \<not> use_tv_loss c \<and> loss_mode c \<noteq> ''forward_kl_topk'' \<and> reverse_kl_weight c = 0 \<and> forward_kl_weight c = 0 then Inl ValueError
     else if \<not> use_tv_loss c \<and> use_policy_gradient c \<and> 0 < forward_kl_weight c then Inl NotImplementedError
     else if policy_loss_mode c \<noteq> ''vanilla'' then Inl NotImplementedError
     else if \<not> use_tv_loss c \<and> \<not> use_policy_gradient c \<and> loss_mode c = ''k1'' \<and> 0 < reverse_kl_weight c then Inl ValueError
     else Inr (c\<lparr>lc_settings := Some st\<rparr>))"

subsection \<open>Teachers\<close>

record inference_config =
  tensor_model_parallel_size :: int
  data_parallel_size :: int
  pipeline_model_parallel_size :: int
  max_model_len :: "int option"
  prompt_length :: int
  response_length :: int
  engine_name :: string
  engine_kwargs :: "(string \<times> (string \<times> int) list) list"

record teacher_config =
  teacher_key :: "string option"
  model_path :: "string option"
  inference :: inference_config
  num_replicas :: "int option"

definition per_replica_world_size :: "teacher_config \<Rightarrow> int" where
  "per_replica_world_size t = tensor_model_parallel_size (inference t) * data_parallel_size (inference t) * pipeline_model_parallel_size (inference t)"

definition world_size :: "teacher_config \<Rightarrow> int res" where
  "world_size t = (case num_replicas t of None \<Rightarrow> Inl TypeError | Some n \<Rightarrow> Inr (n * per_replica_world_size t))"

definition check_configured :: "teacher_config \<Rightarrow> unit res" where
  "check_configured t = require (model_path t \<noteq> None \<and> teacher_key t \<noteq> None \<and> num_replicas t \<noteq> None) ValueError"

definition validate_topk_logprobs :: "teacher_config \<Rightarrow> bool \<Rightarrow> int option \<Rightarrow> teacher_config res" where
  "validate_topk_logprobs t use_topk0 top_k =
     (if \<not> use_topk0 then Inr t
      else case top_k of
          None \<Rightarrow> Inl ValueError
        | Some k \<Rightarrow>
            if engine_name (inference t) = ''vllm'' then
              let kwargs = engine_kwargs (inference t); vllm = or_else (map_of kwargs ''vllm'') [];
                  vllm' = (if map_of vllm ''max_logprobs'' = None then AList.update ''max_logprobs'' k vllm else vllm) in
              if the (map_of vllm' ''max_logprobs'') < k then Inl ValueError
              else Inr (t\<lparr>inference := (inference t)\<lparr>engine_kwargs := AList.update ''vllm'' vllm' kwargs\<rparr>\<rparr>)
            else if engine_name (inference t) = ''sglang'' then Inr t
            else Inl NotImplementedError)"

definition validate_and_prepare_for_distillation :: "teacher_config \<Rightarrow> bool \<Rightarrow> int option \<Rightarrow> teacher_config res" where
  "validate_and_prepare_for_distillation t use_topk0 top_k =
     (let i = inference t; required = prompt_length i + response_length i + 1 in
      if (case max_model_len i of None \<Rightarrow> False | Some m \<Rightarrow> m < required) then Inl ValueError
      else validate_topk_logprobs (t\<lparr>inference := i\<lparr>prompt_length := prompt_length i + response_length i, response_length := 1\<rparr>\<rparr>) use_topk0 top_k)"

record distillation_config =
  enabled :: bool
  teacher_logprob_source :: string
  n_gpus_per_node :: int
  nnodes :: int
  teacher_models :: "(string \<times> teacher_config) list"
  distillation_loss_config :: loss_config

definition pool_size :: "distillation_config \<Rightarrow> int" where
  "pool_size c = n_gpus_per_node c * nnodes c"

text \<open>The single teacher takes the whole pool; with several entries the one named \<^verbatim>\<open>teacher_model\<close> is dropped.\<close>

definition place_teachers :: "distillation_config \<Rightarrow> teacher_config list res" where
  "place_teachers c =
     (case map_of (teacher_models c) ''teacher_model'' of
        None \<Rightarrow> Inl AssertionError
      | Some t \<Rightarrow>
          if length (teacher_models c) = 1 then
            if per_replica_world_size t = 0 then Inl ZeroDivisionError
            else if pool_size c mod per_replica_world_size t \<noteq> 0 then Inl ValueError
            else Inr [t\<lparr>num_replicas := Some (pool_size c div per_replica_world_size t), teacher_key := Some ''default''\<rparr>]
          else Inr (map snd (filter (\<lambda>(k, _). k \<noteq> ''teacher_model'') (teacher_models c))))"

definition add_teacher :: "(string \<times> teacher_config) list \<Rightarrow> teacher_config \<Rightarrow> (string \<times> teacher_config) list res" where
  "add_teacher ts t =
     rbind (check_configured t) (\<lambda>_.
       let k = the (teacher_key t) in if map_of ts k \<noteq> None then Inl ValueError else Inr (ts @ [(k, t)]))"

definition resolve_teacher_models :: "distillation_config \<Rightarrow> (string \<times> teacher_config) list res" where
  "resolve_teacher_models c = rbind (place_teachers c) (rfold add_teacher [])"

definition prepare_teacher ::
  "bool \<Rightarrow> int option \<Rightarrow> (string \<times> teacher_config) list \<times> int \<Rightarrow> string \<times> teacher_config \<Rightarrow> ((string \<times> teacher_config) list \<times> int) res" where
  "prepare_teacher use_topk0 top_k st kt =
     rbind (validate_and_prepare_for_distillation (snd kt) use_topk0 top_k) (\<lambda>t.
     rbind (world_size t) (\<lambda>w. Inr (fst st @ [(fst kt, t)], snd st + w)))"

definition distillation_config_post_init :: "distillation_config \<Rightarrow> distillation_config res" where
  "distillation_config_post_init c =
     (if \<not> enabled c then Inr c
      else if teacher_logprob_source c \<notin> {''auto'', ''server'', ''composed_main''} then Inl ValueError
      else let loss = distillation_loss_config c in
        case lc_settings loss of
          None \<Rightarrow> Inl AttributeError
        | Some st \<Rightarrow>
            if teacher_logprob_source c = ''composed_main'' then
              if use_policy_gradient loss then Inl NotImplementedError
              else if \<not> use_tv_loss loss \<and> use_topk st then Inl NotImplementedError
              else Inr (c\<lparr>teacher_models := []\<rparr>)
            else
              rbind (resolve_teacher_models c) (\<lambda>ts.
              rbind (rfold (prepare_teacher (use_topk st) (lc_topk loss)) ([], 0) ts) (\<lambda>(ts', total).
              if total \<noteq> pool_size c then Inl ValueError else Inr (c\<lparr>teacher_models := ts'\<rparr>))))"

subsection \<open>The source of teacher log-probabilities\<close>

record source_view =
  sv_enabled :: bool
  sv_requested :: string
  sv_composed_student :: bool
  sv_main_model_path :: "string option"
  sv_model_path :: "string option"
  sv_teacher_paths :: "string option list"
  sv_use_policy_gradient :: bool
  sv_use_tv_loss :: bool
  sv_loss_mode :: string

definition SCALAR_DISTILLATION_LOSSES :: "string list" where
  "SCALAR_DISTILLATION_LOSSES = [''kl'', ''k1'', ''abs'', ''mse'', ''k2'', ''low_var_kl'', ''k3'']"

text \<open>\<open>real_path\<close> gives the resolved path of an existing file.\<close>

definition normalize_model_path :: "(string \<Rightarrow> string option) \<Rightarrow> string option \<Rightarrow> string option" where
  "normalize_model_path real_path path =
     (case path of None \<Rightarrow> None
      | Some p \<Rightarrow> Some (case real_path p of Some q \<Rightarrow> q | None \<Rightarrow> rev (dropWhile (\<lambda>c. c = CHR ''/'') (rev p))))"

definition configured_teacher_paths :: "source_view \<Rightarrow> string list" where
  "configured_teacher_paths v = List.map_filter id (sv_teacher_paths v)"

definition validate_composed_main_source :: "source_view \<Rightarrow> unit res" where
  "validate_composed_main_source v =
     (if \<not> sv_composed_student v then Inl ValueError
      else if sv_use_policy_gradient v then Inl NotImplementedError
      else if \<not> sv_use_tv_loss v \<and> sv_loss_mode v \<notin> set SCALAR_DISTILLATION_LOSSES then Inl NotImplementedError
      else Inr ())"

definition same_single_teacher :: "(string \<Rightarrow> string option) \<Rightarrow> source_view \<Rightarrow> bool" where
  "same_single_teacher real_path v =
     (let main = (case sv_main_model_path v of None \<Rightarrow> sv_model_path v | Some p \<Rightarrow> Some p); paths = configured_teacher_paths v in
      length paths \<le> 1 \<and> (paths = [] \<or> normalize_model_path real_path (Some (hd paths)) = normalize_model_path real_path main))"

definition resolve_teacher_logprob_source :: "(string \<Rightarrow> string option) \<Rightarrow> source_view \<Rightarrow> (string \<times> source_view) res" where
  "resolve_teacher_logprob_source real_path v =
     (if \<not> sv_enabled v then Inr (''server'', v)
      else if sv_requested v \<notin> {''auto'', ''server'', ''composed_main''} then Inl ValueError
      else
        let resolved = (if sv_requested v \<noteq> ''auto'' then sv_requested v
              else if \<not> sv_composed_student v then ''server''
              else if same_single_teacher real_path v then ''composed_main'' else ''server'') in
        rbind (if resolved = ''composed_main'' then validate_composed_main_source v else Inr ()) (\<lambda>_.
        Inr (resolved, v\<lparr>sv_requested := resolved\<rparr>)))"

definition requires_external_teacher :: "source_view \<Rightarrow> bool" where
  "requires_external_teacher v \<longleftrightarrow> sv_enabled v \<and> sv_requested v \<noteq> ''composed_main''"

section \<open>Accepted configurations\<close>

lemma loss_registry_value:
  "loss_registry = Inr (
     (''forward_kl_topk'', Forward_kl_topk, \<lparr>setting_names = [''forward_kl_topk''], use_topk = True, use_estimator = False\<rparr>)
     # (EAGLE3_NATIVE, Eagle3_native, \<lparr>setting_names = [EAGLE3_NATIVE], use_topk = False, use_estimator = True\<rparr>)
     # map (\<lambda>n. (n, Reverse_kl_estimator, \<lparr>setting_names = SCALAR_DISTILLATION_LOSSES, use_topk = False, use_estimator = True\<rparr>))
         SCALAR_DISTILLATION_LOSSES)"
  by (simp add: loss_registry_def register_distillation_loss_def settings_post_init_def EAGLE3_NATIVE_def SCALAR_DISTILLATION_LOSSES_def)

lemma settings_scalar:
  "mode \<in> set SCALAR_DISTILLATION_LOSSES \<Longrightarrow> get_distillation_loss_fn mode = Inr Reverse_kl_estimator
    \<and> (\<exists>st. get_distillation_loss_settings mode = Inr st \<and> \<not> use_topk st)"
  unfolding get_distillation_loss_fn_def get_distillation_loss_settings_def loss_registry_value
  by (auto simp: SCALAR_DISTILLATION_LOSSES_def EAGLE3_NATIVE_def)

subsection \<open>Teachers and their pool\<close>

lemma add_teacher_Inr:
  "add_teacher acc t = Inr acc' \<Longrightarrow> \<exists>k. teacher_key t = Some k \<and> k \<notin> fst ` set acc \<and> acc' = acc @ [(k, t)]"
  by (auto simp: rbind_eq_Inr add_teacher_def check_configured_def Let_def map_of_eq_None_iff split: if_splits)

lemma add_teacher_fold:
  assumes "rfold add_teacher acc ts = Inr out" "distinct (map fst acc)" "list_all (\<lambda>(k, t). teacher_key t = Some k) acc"
  shows "distinct (map fst out) \<and> list_all (\<lambda>(k, t). teacher_key t = Some k) out \<and> map snd out = map snd acc @ ts"
  using assms
proof (induction ts arbitrary: acc)
  case (Cons t ts)
  obtain acc' where a: "add_teacher acc t = Inr acc'" "rfold add_teacher acc' ts = Inr out" using Cons.prems(1) by (auto simp: rbind_eq_Inr)
  obtain k where k: "teacher_key t = Some k" "k \<notin> fst ` set acc" "acc' = acc @ [(k, t)]" using add_teacher_Inr [OF a(1)] by blast
  then show ?case using Cons.IH [OF a(2)] Cons.prems(2,3) k by simp
qed simp

text \<open>What preparing a teacher leaves: room for the whole trajectory and one token, and nothing else of its placement.\<close>

definition teacher_ready :: "teacher_config \<Rightarrow> bool" where
  "teacher_ready t \<longleftrightarrow> response_length (inference t) = 1
     \<and> (\<forall>m. max_model_len (inference t) = Some m \<longrightarrow> prompt_length (inference t) + response_length (inference t) \<le> m)"

lemma validate_topk_keeps:
  "validate_topk_logprobs t b k = Inr t' \<Longrightarrow> \<exists>e. t' = t\<lparr>inference := (inference t)\<lparr>engine_kwargs := e\<rparr>\<rparr>"
proof -
  have id: "t = t\<lparr>inference := (inference t)\<lparr>engine_kwargs := engine_kwargs (inference t)\<rparr>\<rparr>" by simp
  assume "validate_topk_logprobs t b k = Inr t'"
  then have "t' = t \<or> (\<exists>e. t' = t\<lparr>inference := (inference t)\<lparr>engine_kwargs := e\<rparr>\<rparr>)"
    unfolding validate_topk_logprobs_def Let_def by (simp only: split: if_splits option.splits) blast+
  then show ?thesis using id by metis
qed

lemma prepared_teacher:
  assumes "validate_and_prepare_for_distillation t b k = Inr t'"
  shows "teacher_ready t' \<and> teacher_key t' = teacher_key t \<and> num_replicas t' = num_replicas t
    \<and> per_replica_world_size t' = per_replica_world_size t
    \<and> prompt_length (inference t') = prompt_length (inference t) + response_length (inference t)"
proof -
  let ?i = "inference t"
  let ?t = "t\<lparr>inference := ?i\<lparr>prompt_length := prompt_length ?i + response_length ?i, response_length := 1\<rparr>\<rparr>"
  have m: "\<forall>m. max_model_len ?i = Some m \<longrightarrow> prompt_length ?i + response_length ?i + 1 \<le> m" and v: "validate_topk_logprobs ?t b k = Inr t'"
    using assms by (auto simp: validate_and_prepare_for_distillation_def Let_def split: if_splits option.splits)
  show ?thesis using validate_topk_keeps [OF v] m by (auto simp: teacher_ready_def per_replica_world_size_def)
qed

lemma prepare_teacher_fold:
  assumes "rfold (prepare_teacher b k) (acc, n) ts = Inr (out, tot)"
  shows "\<exists>new ws. out = acc @ new \<and> map fst new = map fst ts \<and> map (teacher_key \<circ> snd) new = map (teacher_key \<circ> snd) ts
    \<and> list_all (teacher_ready \<circ> snd) new \<and> rmap (world_size \<circ> snd) new = Inr ws \<and> tot = n + sum_list ws"
  using assms
proof (induction ts arbitrary: acc n)
  case (Cons kt ts)
  obtain st where a: "prepare_teacher b k (acc, n) kt = Inr st" "rfold (prepare_teacher b k) st ts = Inr (out, tot)"
    using Cons.prems by (auto simp: rbind_eq_Inr)
  obtain t w where t: "validate_and_prepare_for_distillation (snd kt) b k = Inr t" "world_size t = Inr w" "st = (acc @ [(fst kt, t)], n + w)"
    using a(1) by (auto simp: rbind_eq_Inr prepare_teacher_def)
  have r: "rfold (prepare_teacher b k) (acc @ [(fst kt, t)], n + w) ts = Inr (out, tot)" using a(2) t(3) by simp
  obtain new ws where "out = (acc @ [(fst kt, t)]) @ new" "map fst new = map fst ts" "map (teacher_key \<circ> snd) new = map (teacher_key \<circ> snd) ts"
    "list_all (teacher_ready \<circ> snd) new" "rmap (world_size \<circ> snd) new = Inr ws" "tot = n + w + sum_list ws"
    using Cons.IH [OF r] by blast
  then show ?case using t prepared_teacher [OF t(1)] by (intro exI [of _ "(fst kt, t) # new"] exI [of _ "w # ws"]) (simp add: comp_def)
qed simp

text \<open>An accepted configuration with external teachers has one teacher per key, teachers that fill the resource pool
  exactly, and for every teacher room for a whole trajectory of the student and one generated token.\<close>

theorem accepted_teachers_fill_pool:
  assumes "distillation_config_post_init c = Inr c'" "enabled c" "teacher_logprob_source c \<noteq> ''composed_main''"
  shows "distinct (map fst (teacher_models c')) \<and> list_all (\<lambda>(k, t). teacher_key t = Some k \<and> teacher_ready t) (teacher_models c')
    \<and> (\<exists>ws. rmap (world_size \<circ> snd) (teacher_models c') = Inr ws \<and> sum_list ws = pool_size c)"
proof -
  obtain st where st: "lc_settings (distillation_loss_config c) = Some st"
    using assms by (auto simp: distillation_config_post_init_def Let_def split: if_splits option.splits)
  obtain ts ts' where r: "resolve_teacher_models c = Inr ts"
    and p: "rfold (prepare_teacher (use_topk st) (lc_topk (distillation_loss_config c))) ([], 0) ts = Inr (ts', pool_size c)"
    and c': "teacher_models c' = ts'"
    using assms st by (auto simp: distillation_config_post_init_def Let_def rbind_eq_Inr split: if_splits)
  obtain ps where "rfold add_teacher [] ps = Inr ts" using r by (auto simp: resolve_teacher_models_def rbind_eq_Inr)
  from add_teacher_fold [OF this] have k: "distinct (map fst ts)" "list_all (\<lambda>(k, t). teacher_key t = Some k) ts" by simp_all
  obtain ws where n: "map fst ts' = map fst ts" "map (teacher_key \<circ> snd) ts' = map (teacher_key \<circ> snd) ts" "list_all (teacher_ready \<circ> snd) ts'"
      "rmap (world_size \<circ> snd) ts' = Inr ws" "pool_size c = sum_list ws"
    using prepare_teacher_fold [OF p] by auto
  have l: "length ts' = length ts" using n(1) by (rule map_eq_imp_length_eq)
  have "teacher_key (snd (ts' ! i)) = Some (fst (ts' ! i)) \<and> teacher_ready (snd (ts' ! i))" if "i < length ts'" for i
  proof -
    have "fst (ts' ! i) = fst (ts ! i)" "teacher_key (snd (ts' ! i)) = teacher_key (snd (ts ! i))"
      using arg_cong [OF n(1), of "\<lambda>xs. xs ! i"] arg_cong [OF n(2), of "\<lambda>xs. xs ! i"] that l by simp_all
    then show ?thesis using k(2) n(3) that l by (simp add: list_all_length case_prod_beta)
  qed
  then have "list_all (\<lambda>(k, t). teacher_key t = Some k \<and> teacher_ready t) ts'" by (simp add: list_all_length case_prod_beta)
  then show ?thesis using k(1) n c' by simp
qed

text \<open>A single teacher is spread over the whole pool: whenever its replica size divides the pool and a trajectory fits
  its context, the configuration is accepted and no GPU of the pool is left over.\<close>

theorem single_teacher_fills_pool:
  assumes "enabled c" "teacher_logprob_source c \<in> {''auto'', ''server''}" "teacher_models c = [(''teacher_model'', t)]"
    and "lc_settings (distillation_loss_config c) = Some st" "\<not> use_topk st" "model_path t \<noteq> None"
    and "0 < per_replica_world_size t" "per_replica_world_size t dvd pool_size c"
    and "max_model_len (inference t) = Some m" "prompt_length (inference t) + response_length (inference t) + 1 \<le> m"
  shows "\<exists>c' t'. distillation_config_post_init c = Inr c' \<and> teacher_models c' = [(''default'', t')]
    \<and> world_size t' = Inr (pool_size c) \<and> teacher_ready t'"
proof -
  let ?t = "t\<lparr>num_replicas := Some (pool_size c div per_replica_world_size t), teacher_key := Some ''default''\<rparr>"
  have w: "per_replica_world_size ?t = per_replica_world_size t" "pool_size c div per_replica_world_size t * per_replica_world_size t = pool_size c"
    using assms(7,8) by (simp_all add: per_replica_world_size_def)
  have r: "resolve_teacher_models c = Inr [(''default'', ?t)]"
    using assms(3,6,7,8) by (simp add: resolve_teacher_models_def place_teachers_def add_teacher_def check_configured_def)
  obtain t' where t': "validate_and_prepare_for_distillation ?t (use_topk st) (lc_topk (distillation_loss_config c)) = Inr t'"
    using assms(5,9,10) by (simp add: validate_and_prepare_for_distillation_def validate_topk_logprobs_def Let_def)
  have f: "teacher_ready t'" "world_size t' = Inr (pool_size c)"
    using prepared_teacher [OF t'] w by (simp_all add: world_size_def)
  then have "distillation_config_post_init c = Inr (c\<lparr>teacher_models := [(''default'', t')]\<rparr>)"
    using assms(1,2,4) r t' by (auto simp: distillation_config_post_init_def Let_def prepare_teacher_def)
  then show ?thesis using f by (intro exI [of _ "c\<lparr>teacher_models := [(''default'', t')]\<rparr>"] exI [of _ t']) simp
qed

subsection \<open>Agreement of the two validations\<close>

definition describes :: "source_view \<Rightarrow> distillation_config \<Rightarrow> bool" where
  "describes v c \<longleftrightarrow> sv_enabled v = enabled c \<and> sv_requested v = teacher_logprob_source c
     \<and> sv_use_policy_gradient v = use_policy_gradient (distillation_loss_config c)
     \<and> sv_use_tv_loss v = use_tv_loss (distillation_loss_config c) \<and> sv_loss_mode v = loss_mode (distillation_loss_config c)"

lemma resolve_cases:
  assumes "resolve_teacher_logprob_source fs v = Inr (src, v')"
  shows "src \<in> {''server'', ''composed_main''} \<and> (sv_enabled v \<longrightarrow> v' = v\<lparr>sv_requested := src\<rparr>) \<and> (\<not> sv_enabled v \<longrightarrow> v' = v)
    \<and> (sv_enabled v \<and> src = ''composed_main'' \<longrightarrow> validate_composed_main_source v = Inr ())"
  using assms by (auto simp: resolve_teacher_logprob_source_def Let_def rbind_eq_Inr split: if_splits)

lemma post_init_settings:
  "loss_config_post_init c = Inr c' \<Longrightarrow> \<exists>st. get_distillation_loss_settings (if use_tv_loss c then ''k3'' else loss_mode c) = Inr st
    \<and> c' = c\<lparr>lc_settings := Some st\<rparr>"
  unfolding loss_config_post_init_def by (auto simp only: rbind_eq_Inr split: if_splits)

text \<open>The resolved source is persisted and final: resolving again changes nothing, an external teacher is required
  exactly when the source is not the composed model, and where the composed model is chosen the configuration with that
  source is accepted and has no teacher to start.\<close>

theorem teacher_source_resolved:
  assumes "resolve_teacher_logprob_source fs v = Inr (src, v')" "sv_enabled v"
  shows "src \<in> {''server'', ''composed_main''} \<and> resolve_teacher_logprob_source fs v' = Inr (src, v')
    \<and> (requires_external_teacher v' \<longleftrightarrow> src = ''server'')
    \<and> (\<forall>c loss. describes v' c \<and> src = ''composed_main'' \<and> loss_config_post_init loss = Inr (distillation_loss_config c)
        \<longrightarrow> distillation_config_post_init c = Inr (c\<lparr>teacher_models := []\<rparr>))"
proof -
  note r = resolve_cases [OF assms(1)]
  have v': "v' = v\<lparr>sv_requested := src\<rparr>" using r assms(2) by blast
  have ok: "validate_composed_main_source v = Inr ()" if "src = ''composed_main''" using r assms(2) that by blast
  have again: "resolve_teacher_logprob_source fs v' = Inr (src, v')"
    using r ok assms(2) unfolding v' by (auto simp: resolve_teacher_logprob_source_def Let_def validate_composed_main_source_def split: if_splits)
  have acc: "distillation_config_post_init c = Inr (c\<lparr>teacher_models := []\<rparr>)"
    if d: "describes v' c" "src = ''composed_main''" and l: "loss_config_post_init loss = Inr (distillation_loss_config c)" for c loss
  proof -
    obtain st where st: "get_distillation_loss_settings (if use_tv_loss loss then ''k3'' else loss_mode loss) = Inr st"
        "distillation_loss_config c = loss\<lparr>lc_settings := Some st\<rparr>" using post_init_settings [OF l] by blast
    have v: "enabled c" "teacher_logprob_source c = ''composed_main''" "\<not> use_policy_gradient loss"
        "use_tv_loss loss \<or> loss_mode loss \<in> set SCALAR_DISTILLATION_LOSSES"
      using d ok [OF d(2)] assms(2) st(2) unfolding v' by (auto simp: describes_def validate_composed_main_source_def split: if_splits)
    have "use_tv_loss loss \<or> \<not> use_topk st"
      using v(4) settings_scalar [of "loss_mode loss"] st(1) by auto
    then show ?thesis using v st(2) by (simp add: distillation_config_post_init_def Let_def)
  qed
  have "requires_external_teacher v' \<longleftrightarrow> src = ''server''" using r assms(2) unfolding v' by (auto simp: requires_external_teacher_def)
  then show ?thesis using r again acc by blast
qed

text \<open>The guard against backpropagating the signed estimator names \<^verbatim>\<open>k1\<close> only; its synonym \<^verbatim>\<open>kl\<close> is accepted.\<close>

lemma k1_synonym_accepted:
  assumes "\<not> use_tv_loss c" "\<not> use_policy_gradient c" "reverse_kl_weight c = 1" "forward_kl_weight c = 0" "policy_loss_mode c = ''vanilla''"
  shows "loss_config_post_init (c\<lparr>loss_mode := ''k1''\<rparr>) = Inl ValueError" "\<exists>c'. loss_config_post_init (c\<lparr>loss_mode := ''kl''\<rparr>) = Inr c'"
    "kl_penalty x y ''kl'' = kl_penalty x y ''k1''"
proof -
  obtain st where st: "get_distillation_loss_settings ''k1'' = Inr st" using settings_scalar [of "''k1''"] by (auto simp: SCALAR_DISTILLATION_LOSSES_def)
  obtain st' where st': "get_distillation_loss_settings ''kl'' = Inr st'" using settings_scalar [of "''kl''"] by (auto simp: SCALAR_DISTILLATION_LOSSES_def)
  show "loss_config_post_init (c\<lparr>loss_mode := ''k1''\<rparr>) = Inl ValueError" using assms st by (simp add: loss_config_post_init_def)
  show "\<exists>c'. loss_config_post_init (c\<lparr>loss_mode := ''kl''\<rparr>) = Inr c'" using assms st' by (simp add: loss_config_post_init_def)
  show "kl_penalty x y ''kl'' = kl_penalty x y ''k1''" by (simp only: kl_penalty_values)
qed

subsection \<open>Examples\<close>

definition example_loss_config :: loss_config where
  "example_loss_config = \<lparr>loss_mode = ''k3'', use_tv_loss = False, lc_topk = Some 128, use_task_rewards = True, distillation_loss_coef = 1,
     reverse_kl_weight = 1, forward_kl_weight = 0, response_stream_weight = 1, rejected_draft_stream_weight = 1,
     rejected_draft_use_reverse_kl = False, rejected_draft_position_decay_enabled = True, rejected_draft_position_decay = 9 / 10,
     accept_draft_position_decay_enabled = False, rejected_draft_first_token_only = False, loss_max_clamp = Some 10,
     log_prob_min_clamp = Some (-10), use_policy_gradient = False, policy_loss_mode = ''vanilla'',
     lc_clip = \<lparr>clip_ratio = 1 / 5, clip_ratio_low = Some (1 / 5), clip_ratio_high = Some (1 / 5), clip_ratio_c = 3\<rparr>,
     lc_global_batch_info = [], lc_settings = Some \<lparr>setting_names = SCALAR_DISTILLATION_LOSSES, use_topk = False, use_estimator = True\<rparr>\<rparr>"

definition example_teacher :: teacher_config where
  "example_teacher = \<lparr>teacher_key = None, model_path = Some ''m'', inference = \<lparr>tensor_model_parallel_size = 2, data_parallel_size = 1,
     pipeline_model_parallel_size = 1, max_model_len = Some 100, prompt_length = 40, response_length = 50, engine_name = ''sglang'',
     engine_kwargs = []\<rparr>, num_replicas = Some 0\<rparr>"

definition example_distillation :: distillation_config where
  "example_distillation = \<lparr>enabled = True, teacher_logprob_source = ''server'', n_gpus_per_node = 4, nnodes = 2,
     teacher_models = [(''teacher_model'', example_teacher)], distillation_loss_config = example_loss_config\<rparr>"

theorem single_teacher_fills_pool_witness:
  "\<exists>c' t'. distillation_config_post_init example_distillation = Inr c' \<and> teacher_models c' = [(''default'', t')] \<and> world_size t' = Inr 8"
proof -
  have "pool_size example_distillation = 8" by (simp add: pool_size_def example_distillation_def)
  moreover have "per_replica_world_size example_teacher = 2" by (simp add: per_replica_world_size_def example_teacher_def)
  ultimately show ?thesis
    using single_teacher_fills_pool [of example_distillation example_teacher
        "\<lparr>setting_names = SCALAR_DISTILLATION_LOSSES, use_topk = False, use_estimator = True\<rparr>" 100]
    by (auto simp: example_distillation_def example_teacher_def example_loss_config_def)
qed

lemma example_distillation_run:
  "distillation_config_post_init example_distillation = Inr (example_distillation\<lparr>teacher_models := [(''default'', example_teacher\<lparr>
     teacher_key := Some ''default'', num_replicas := Some 4, inference := (inference example_teacher)\<lparr>prompt_length := 90, response_length := 1\<rparr>\<rparr>)]\<rparr>)"
  by (simp add: distillation_config_post_init_def example_distillation_def example_teacher_def example_loss_config_def
      resolve_teacher_models_def place_teachers_def add_teacher_def check_configured_def prepare_teacher_def world_size_def
      validate_and_prepare_for_distillation_def validate_topk_logprobs_def per_replica_world_size_def pool_size_def)

theorem accepted_teachers_fill_pool_witness:
  "\<exists>c'. distillation_config_post_init example_distillation = Inr c' \<and> distinct (map fst (teacher_models c'))
    \<and> (\<exists>ws. rmap (world_size \<circ> snd) (teacher_models c') = Inr ws \<and> sum_list ws = pool_size example_distillation)"
proof -
  have "enabled example_distillation" "teacher_logprob_source example_distillation \<noteq> ''composed_main''" by (simp_all add: example_distillation_def)
  then show ?thesis using accepted_teachers_fill_pool [OF example_distillation_run] example_distillation_run by blast
qed

theorem teacher_source_resolved_witness:
  "\<exists>v'. resolve_teacher_logprob_source (\<lambda>_. None) \<lparr>sv_enabled = True, sv_requested = ''auto'', sv_composed_student = True,
        sv_main_model_path = Some ''m/'', sv_model_path = None, sv_teacher_paths = [Some ''m''], sv_use_policy_gradient = False,
        sv_use_tv_loss = False, sv_loss_mode = ''k3''\<rparr> = Inr (''composed_main'', v') \<and> \<not> requires_external_teacher v'"
proof -
  let ?v = "\<lparr>sv_enabled = True, sv_requested = ''auto'', sv_composed_student = True,
        sv_main_model_path = Some ''m/'', sv_model_path = None, sv_teacher_paths = [Some ''m''], sv_use_policy_gradient = False,
        sv_use_tv_loss = False, sv_loss_mode = ''k3''\<rparr>"
  have "resolve_teacher_logprob_source (\<lambda>_. None) ?v = Inr (''composed_main'', ?v\<lparr>sv_requested := ''composed_main''\<rparr>)"
    by (simp add: resolve_teacher_logprob_source_def same_single_teacher_def configured_teacher_paths_def map_filter_def
        normalize_model_path_def validate_composed_main_source_def SCALAR_DISTILLATION_LOSSES_def Let_def)
  with teacher_source_resolved [OF this] show ?thesis by auto
qed

end
