(* ===== verification/Distill_Loss.thy ===== *)
theory Distill_Loss
  imports Distill_Config
begin

section \<open>The distillation loss\<close>

text \<open>
  Model of \<^verbatim>\<open>trainer/distillation/losses.py\<close>: the losses of the response tokens and of the rejected draft tokens, their
  position weights, the exact total variation loss, the combination of the streams with the global denominators, and
  \<^verbatim>\<open>distillation_ppo_loss\<close>, which the engine calls for every micro-batch.

  The output of the student is a record of flat tensors, a missing key is \<open>None\<close>, scalar statistics are a dictionary. The
  rejected draft tensors have rank one; as matrices they are a single row. The collective sum over the data parallel
  group is a parameter (\<open>None\<close> without a group).
\<close>

subsection \<open>The output of the student\<close>

record model_output =
  mo_log_probs :: "real list option"
  mo_entropy :: "real list option"
  mo_opd_loss_mask :: "bool list option"
  mo_opd_teacher_log_probs :: "real list option"
  mo_response_offsets :: "real list option"
  mo_rejected_mask :: "bool list option"
  mo_rejected_student :: "real list option"
  mo_rejected_teacher :: "real list option"
  mo_rejected_offsets :: "real list option"
  mo_distillation_losses :: "real list option"
  mo_student_mass :: "real list option"
  mo_teacher_mass :: "real list option"
  mo_eagle3_ce :: "real list option"
  mo_eagle3_scalar_mask :: "bool list option"
  mo_tv_block_losses :: "real list option"
  mo_tv_block_mask :: "bool list option"
  mo_scalars :: "(string \<times> real) list"

definition required :: "py_exn \<Rightarrow> 'a option \<Rightarrow> 'a res" where
  "required e x = (case x of None \<Rightarrow> Inl e | Some v \<Rightarrow> Inr v)"

definition padded_response_mask :: "loss_data \<Rightarrow> bool list list" where
  "padded_response_mask d = to_padded False (ld_response_mask d)"

definition get_effective_distillation_response_mask :: "loss_data \<Rightarrow> model_output \<Rightarrow> bool list list res" where
  "get_effective_distillation_response_mask d mo =
     (let response_mask = padded_response_mask d in
      case mo_opd_loss_mask mo of
        None \<Rightarrow> Inr response_mask
      | Some m \<Rightarrow> rbind (no_padding_2_padding False m d) (\<lambda>opd.
          if same_shape opd response_mask then Inr (map2 (map2 (\<and>)) response_mask opd) else Inl ValueError))"

definition selected :: "mat \<Rightarrow> bool list list \<Rightarrow> real list" where
  "selected xs ms = select (concat ms) (concat xs)"

definition list_mean :: "real list \<Rightarrow> real" where
  "list_mean xs = sum_list xs / real (length xs)"

definition valid_mean :: "mat \<Rightarrow> bool list list \<Rightarrow> real" where
  "valid_mean losses msk = (let vs = selected losses msk in if vs = [] then 0 else list_mean vs)"

definition compute_distillation_loss_range :: "mat \<Rightarrow> bool list list \<Rightarrow> metrics" where
  "compute_distillation_loss_range losses msk =
     (let vs = selected losses msk in
      [(''distillation/loss_min'', Agg_Min, if vs = [] then 0 else fold min (tl vs) (hd vs)),
       (''distillation/loss_max'', Agg_Max, if vs = [] then 0 else fold max (tl vs) (hd vs))])"

definition compute_loss_clamp_fraction :: "mat \<Rightarrow> bool list list \<Rightarrow> real \<Rightarrow> real" where
  "compute_loss_clamp_fraction losses msk limit =
     (let vs = selected losses msk in if vs = [] then 0 else list_mean (map (\<lambda>v. of_bool (limit \<le> \<bar>v\<bar>)) vs))"

subsection \<open>Statistics of the speculative blocks\<close>

definition sum_metric_keys :: "(string \<times> string) list" where
  "sum_metric_keys = map (\<lambda>k. (k, ''distillation/'' @ k)) [''opd_valid_anchor_count'', ''opd_skipped_sample_count'',
     ''opd_empty_reject_sample_count'', ''opd_total_reject_count'', ''opd_sample_count'', ''opd_target_token_count'',
     ''opd_rejected_draft_token_count'']"

definition mean_metric_keys :: "(string \<times> string) list" where
  "mean_metric_keys = map (\<lambda>k. (k, ''distillation/'' @ k)) [''opd_attention_impl_id'', ''opd_profile_teacher_forward_ms'',
     ''opd_profile_draft_forward_ms'', ''opd_profile_lm_head_ms'', ''opd_profile_total_forward_ms'']
     @ [(''eagle3_response_loss_mode_id'', ''eagle3/response_loss_mode_id'')]"

definition copy_metrics :: "aggregation \<Rightarrow> (string \<times> string) list \<Rightarrow> (string \<times> real) list \<Rightarrow> metrics \<Rightarrow> metrics" where
  "copy_metrics agg keys scalars ms =
     fold (\<lambda>(src, dst) ms. case map_of scalars src of None \<Rightarrow> ms | Some v \<Rightarrow> set_metric dst agg v ms) keys ms"

definition ratio_metric :: "string \<Rightarrow> real option \<Rightarrow> real option \<Rightarrow> metrics \<Rightarrow> metrics" where
  "ratio_metric k num den ms =
     (case (num, den) of (Some x, Some y) \<Rightarrow> set_metric k Agg_Mean (if 0 < y then x / max y 1 else 0) ms | _ \<Rightarrow> ms)"

definition skipped_sample_ratio :: "bool list list \<Rightarrow> bool list list \<Rightarrow> real" where
  "skipped_sample_ratio response_mask effective =
     (let sample = map row_kept response_mask; skipped = map2 (\<lambda>s m. s \<and> \<not> row_kept m) sample effective in
      if True \<in> set sample then count_mask skipped / count_mask sample else 0)"

definition compute_opd_distillation_metrics :: "model_output \<Rightarrow> bool list list \<Rightarrow> bool list list \<Rightarrow> metrics" where
  "compute_opd_distillation_metrics mo response_mask effective =
     (if mo_opd_loss_mask mo = None then []
      else
        let total = count_mask_mat response_mask; eff = count_mask_mat effective; sc = mo_scalars mo;
            m0 = set_metric ''distillation/opd_effective_token_count'' Agg_Sum eff [];
            m1 = set_metric ''distillation/opd_effective_token_ratio'' Agg_Mean (if 0 < total then eff / total else 0) m0;
            m2 = set_metric ''distillation/opd_skipped_sample_ratio'' Agg_Mean (skipped_sample_ratio response_mask effective) m1;
            m3 = copy_metrics Agg_Mean mean_metric_keys sc (copy_metrics Agg_Sum sum_metric_keys sc m2);
            m4 = ratio_metric ''eagle3/target_argmax_supported_ratio'' (map_of sc ''eagle3_target_argmax_supported_count'')
                   (map_of sc ''eagle3_target_argmax_total_count'') m3
        in ratio_metric ''eagle3/draft_target_top1_acc'' (map_of sc ''eagle3_draft_target_top1_correct_count'')
             (map_of sc ''eagle3_target_argmax_supported_count'') m4)"

subsection \<open>The stream of rejected draft tokens\<close>

definition get_rejected_draft_distillation_stream :: "model_output \<Rightarrow> (real list \<times> real list \<times> bool list) option res" where
  "get_rejected_draft_distillation_stream mo =
     (case mo_rejected_mask mo of
        None \<Rightarrow> Inr None
      | Some msk \<Rightarrow>
          (case (mo_rejected_student mo, mo_rejected_teacher mo) of
             (Some student, Some teacher) \<Rightarrow>
               if length student \<noteq> length teacher \<or> length student \<noteq> length msk then Inl ValueError
               else if True \<notin> set msk then Inr None
               else Inr (Some (student, teacher, msk))
           | _ \<Rightarrow> Inl RuntimeError))"

definition loss_weight :: "real \<Rightarrow> real res" where
  "loss_weight w = (if w < 0 then Inl ValueError else Inr w)"

definition sampled_kl_loss_mode :: "loss_config \<Rightarrow> string" where
  "sampled_kl_loss_mode lc = (if loss_mode lc = EAGLE3_NATIVE then ''k3'' else loss_mode lc)"

text \<open>\<^verbatim>\<open>torch.finfo(torch.float32).eps\<close> bounds the probabilities away from one.\<close>

definition float_eps :: real where
  "float_eps = 1 / 2 ^ 23"

definition clamp_log_prob :: "real option \<Rightarrow> real \<Rightarrow> real" where
  "clamp_log_prob min_clamp x = min (max x (or_else min_clamp (-80))) (ln (1 - float_eps))"

definition local_bernoulli_forward_kl :: "real option \<Rightarrow> real \<Rightarrow> real \<Rightarrow> real" where
  "local_bernoulli_forward_kl min_clamp student_log_prob teacher_log_prob =
     (let s = clamp_log_prob min_clamp student_log_prob; t = clamp_log_prob min_clamp teacher_log_prob;
          p = exp t; q = exp s
      in p * (t - s) + (1 - p) * (ln (1 - p) - ln (1 - q)))"

definition metric_prefix :: "string \<Rightarrow> string" where
  "metric_prefix stream = (if stream = ''response'' then ''distillation/'' else ''distillation/'' @ stream @ ''_'')"

definition combine_sampled_reverse_forward_losses ::
  "loss_config \<Rightarrow> mat \<Rightarrow> mat \<Rightarrow> bool list list \<Rightarrow> string \<Rightarrow> bool \<Rightarrow> (mat \<times> metrics) res" where
  "combine_sampled_reverse_forward_losses lc student teacher msk stream force_reverse_kl =
     rbind (loss_weight (reverse_kl_weight lc)) (\<lambda>rw.
     rbind (loss_weight (forward_kl_weight lc)) (\<lambda>fw.
     let reverse = kl_penalty_mat student teacher (sampled_kl_loss_mode lc);
         forward = elementwise (local_bernoulli_forward_kl (log_prob_min_clamp lc)) student teacher;
         rname = metric_prefix stream @ ''reverse_kl_loss''; fname = metric_prefix stream @ ''forward_kl_loss'' in
     if force_reverse_kl then rbind reverse (\<lambda>r. Inr (r, [(rname, Agg_Mean, valid_mean r msk)]))
     else if rw = 0 \<and> fw = 0 then Inl ValueError
     else if fw = 0 \<and> rw = 1 then rbind reverse (\<lambda>r. Inr (r, []))
     else if fw = 0 then rbind reverse (\<lambda>r. Inr (mat_map (\<lambda>x. x * rw) r, []))
     else if rw = 0 then rbind forward (\<lambda>f. Inr (mat_map (\<lambda>x. x * fw) f, [(fname, Agg_Mean, valid_mean f msk)]))
     else rbind reverse (\<lambda>r. rbind forward (\<lambda>f.
          rbind (elementwise (\<lambda>x y. x * rw + y * fw) r f) (\<lambda>total.
          Inr (total, [(rname, Agg_Mean, valid_mean r msk), (fname, Agg_Mean, valid_mean f msk)]))))))"

subsection \<open>Position weights\<close>

definition mask_weights :: "bool list list \<Rightarrow> mat" where
  "mask_weights = mat_map of_bool"

definition decay_weight :: "real \<Rightarrow> real \<Rightarrow> bool \<Rightarrow> real" where
  "decay_weight decay offset m = decay powr max (offset - 1) 0 * of_bool m"

definition build_rejected_draft_position_weights :: "loss_config \<Rightarrow> model_output \<Rightarrow> bool list \<Rightarrow> (mat \<times> bool) res" where
  "build_rejected_draft_position_weights lc mo msk =
     (let plain = Inr (mask_weights [msk], False); decay = rejected_draft_position_decay lc in
      if rejected_draft_first_token_only lc then plain
      else if \<not> rejected_draft_position_decay_enabled lc then plain
      else if decay \<le> 0 \<or> 1 < decay then Inl ValueError
      else case mo_rejected_offsets mo of
          None \<Rightarrow> plain
        | Some offsets \<Rightarrow> if length offsets \<noteq> length msk then Inl RuntimeError else Inr ([map2 (decay_weight decay) offsets msk], True))"

definition build_response_position_weights :: "loss_config \<Rightarrow> loss_data \<Rightarrow> model_output \<Rightarrow> bool list list \<Rightarrow> (mat \<times> bool) res" where
  "build_response_position_weights lc d mo effective =
     (let plain = Inr (mask_weights effective, False); decay = rejected_draft_position_decay lc in
      if \<not> accept_draft_position_decay_enabled lc then plain
      else case mo_response_offsets mo of
          None \<Rightarrow> plain
        | Some flat \<Rightarrow> rbind (no_padding_2_padding 0 flat d) (\<lambda>offsets.
            if \<not> same_shape offsets effective then Inl RuntimeError
            else if decay \<le> 0 \<or> 1 < decay then Inl ValueError
            else Inr (map2 (map2 (decay_weight decay)) offsets effective, True)))"

subsection \<open>Registered loss functions\<close>

definition mass_metrics :: "string \<Rightarrow> real list \<Rightarrow> metrics" where
  "mass_metrics name vs =
     [(''distillation/'' @ name, Agg_Raw, if vs = [] then 0 else list_mean vs),
      (''distillation/'' @ name @ ''_min'', Agg_Min, if vs = [] then 0 else fold min (tl vs) (hd vs)),
      (''distillation/'' @ name @ ''_max'', Agg_Max, if vs = [] then 0 else fold max (tl vs) (hd vs))]"

definition compute_forward_kl_topk :: "model_output \<Rightarrow> loss_data \<Rightarrow> (mat \<times> metrics) res" where
  "compute_forward_kl_topk mo d =
     rbind (required KeyError (mo_distillation_losses mo)) (\<lambda>l. rbind (no_padding_2_padding 0 l d) (\<lambda>losses.
     rbind (required KeyError (mo_student_mass mo)) (\<lambda>sm. rbind (no_padding_2_padding 0 sm d) (\<lambda>student_mass.
     rbind (required KeyError (mo_teacher_mass mo)) (\<lambda>tm. rbind (no_padding_2_padding 0 tm d) (\<lambda>teacher_mass.
     rbind (get_effective_distillation_response_mask d mo) (\<lambda>eff.
     if \<not> (same_shape losses student_mass \<and> same_shape student_mass teacher_mass \<and> same_shape teacher_mass eff) then Inl AssertionError
     else
       let sv = selected student_mass eff; tv = selected teacher_mass eff; ms = mass_metrics ''student_mass'' sv @ mass_metrics ''teacher_mass'' tv in
       if sv = [] then Inr (losses, ms) else Inr (mat_map (\<lambda>x. max x 0) losses, ms))))))))"

definition eagle3_scalar_metric :: "model_output \<Rightarrow> loss_data \<Rightarrow> bool list list \<Rightarrow> metrics \<Rightarrow> metrics res" where
  "eagle3_scalar_metric mo d eff ms =
     (case (mo_log_probs mo, ld_teacher_logprobs d) of
        (Some lp, Some tlp) \<Rightarrow>
          rbind (no_padding_2_padding 0 lp d) (\<lambda>scalar. rbind (no_padding_2_padding 0 tlp d) (\<lambda>teacher.
          rbind (case mo_eagle3_scalar_mask mo of None \<Rightarrow> Inr eff | Some m \<Rightarrow> no_padding_2_padding False m d) (\<lambda>sm.
          if same_shape scalar teacher \<and> same_shape teacher sm
          then rbind (kl_penalty_mat scalar teacher ''k3'') (\<lambda>k3.
                 Inr (set_metric ''eagle3/selected_scalar_k3_loss'' Agg_Mean (valid_mean k3 sm) ms))
          else Inr ms)))
      | _ \<Rightarrow> Inr ms)"

definition compute_eagle3_native_target_distribution_loss :: "loss_config \<Rightarrow> model_output \<Rightarrow> loss_data \<Rightarrow> (mat \<times> metrics) res" where
  "compute_eagle3_native_target_distribution_loss lc mo d =
     (if use_policy_gradient lc then Inl NotImplementedError
      else rbind (required RuntimeError (mo_eagle3_ce mo)) (\<lambda>ce. rbind (no_padding_2_padding 0 ce d) (\<lambda>losses.
           rbind (get_effective_distillation_response_mask d mo) (\<lambda>eff.
           if \<not> same_shape losses eff then Inl ValueError
           else rbind (eagle3_scalar_metric mo d eff [(''eagle3/native_ce_loss'', Agg_Mean, valid_mean losses eff)]) (\<lambda>ms.
                Inr (losses, ms))))))"

definition compute_distillation_loss_reverse_kl_estimator :: "loss_config \<Rightarrow> model_output \<Rightarrow> loss_data \<Rightarrow> (mat \<times> metrics) res" where
  "compute_distillation_loss_reverse_kl_estimator lc mo d =
     rbind (required KeyError (mo_log_probs mo)) (\<lambda>lp. rbind (no_padding_2_padding 0 lp d) (\<lambda>student.
     rbind (case mo_opd_teacher_log_probs mo of
              Some t \<Rightarrow> no_padding_2_padding 0 t d
            | None \<Rightarrow> rbind (required RuntimeError (ld_teacher_logprobs d)) (\<lambda>t. no_padding_2_padding 0 t d)) (\<lambda>teacher.
     rbind (get_effective_distillation_response_mask d mo) (\<lambda>eff.
     if \<not> (same_shape teacher student \<and> same_shape student eff) then Inl AssertionError
     else rbind (combine_sampled_reverse_forward_losses lc student teacher eff ''response'' False) (\<lambda>(losses, ms).
          Inr (losses, update_metrics [(''distillation/abs_loss'', Agg_Mean, valid_mean (mat_map abs losses) eff)] ms))))))"

definition run_loss_fn :: "loss_fn \<Rightarrow> loss_config \<Rightarrow> model_output \<Rightarrow> loss_data \<Rightarrow> (mat \<times> metrics) res" where
  "run_loss_fn f lc mo d =
     (case f of Forward_kl_topk \<Rightarrow> compute_forward_kl_topk mo d
      | Eagle3_native \<Rightarrow> compute_eagle3_native_target_distribution_loss lc mo d
      | Reverse_kl_estimator \<Rightarrow> compute_distillation_loss_reverse_kl_estimator lc mo d)"

subsection \<open>The exact total variation loss\<close>

type_synonym dp_group = "(real \<Rightarrow> real) option"

definition global_sum :: "dp_group \<Rightarrow> real \<Rightarrow> real" where
  "global_sum g x = (case g of None \<Rightarrow> x | Some f \<Rightarrow> f x)"

definition dp_of :: "batch_info \<Rightarrow> real res" where
  "dp_of info = (case map_of info ''dp_size'' of None \<Rightarrow> Inr 1 | Some d \<Rightarrow> required TypeError d)"

definition scaled :: "batch_info \<Rightarrow> real \<Rightarrow> real \<Rightarrow> real res" where
  "scaled info x denom = (if denom \<le> 0 then Inr 0 else rbind (dp_of info) (\<lambda>dp. Inr (x / denom * dp)))"

definition exact_tv_distillation_loss :: "batch_info \<Rightarrow> loss_config \<Rightarrow> model_output \<Rightarrow> dp_group \<Rightarrow> (real \<times> metrics) res" where
  "exact_tv_distillation_loss info lc mo g =
     (if use_policy_gradient lc then Inl NotImplementedError
      else case (mo_tv_block_losses mo, mo_tv_block_mask mo) of
          (Some losses, Some msk) \<Rightarrow>
            if length losses \<noteq> length msk then Inl ValueError
            else
              let local_sum = masked_sum losses msk;
                  denom = or_else (info_get info ''opd_tv_global_block_count'') (global_sum g (count_mask msk));
                  stat = (\<lambda>k. required RuntimeError (map_of (mo_scalars mo) k)) in
              rbind (scaled info local_sum denom) (\<lambda>loss.
              rbind (stat ''opd_tv_distance_sum'') (\<lambda>distance. rbind (stat ''opd_tv_overlap_sum'') (\<lambda>overlap.
              rbind (stat ''opd_tv_expected_accept_length_sum'') (\<lambda>expected. rbind (stat ''opd_tv_block_count'') (\<lambda>blocks.
              rbind (stat ''opd_tv_position_count'') (\<lambda>positions. rbind (stat ''opd_tv_teacher_branch_position_count'') (\<lambda>branches.
              rbind (scaled info expected denom) (\<lambda>contribution.
              Inr (loss, [(''distillation/e2e_tv_loss'', Agg_Sum, loss),
                (''distillation/tv_distance'', Agg_Mean, if 0 < positions then distance / max positions 1 else 0),
                (''distillation/tv_overlap'', Agg_Mean, if 0 < positions then overlap / max positions 1 else 0),
                (''distillation/e2e_expected_accept_length'', Agg_Sum, contribution),
                (''distillation/tv_block_count'', Agg_Sum, blocks), (''distillation/tv_position_count'', Agg_Sum, positions),
                (''distillation/tv_teacher_branch_position_count'', Agg_Sum, branches)])))))))))
        | _ \<Rightarrow> Inl NotImplementedError)"

subsection \<open>Combination of the streams\<close>

definition agg_loss_global_batch_info :: "batch_info \<Rightarrow> batch_info" where
  "agg_loss_global_batch_info info = filter (\<lambda>(k, _). k \<in> set AGG_LOSS_KEYS) info"

definition weighted_sum :: "mat \<Rightarrow> mat \<Rightarrow> real" where
  "weighted_sum losses weights = sum_list (map2 (*) (concat losses) (concat weights))"

definition mat_sum :: "mat \<Rightarrow> real" where
  "mat_sum m = sum_list (concat m)"

definition clamp_losses :: "loss_config \<Rightarrow> mat \<Rightarrow> mat" where
  "clamp_losses lc losses = (case loss_max_clamp lc of None \<Rightarrow> losses | Some m \<Rightarrow> mat_map (clamp (- m) m) losses)"

record rejected_stream =
  rs_losses :: mat
  rs_mask :: "bool list list"
  rs_weights :: mat
  rs_decayed :: bool

text \<open>The denominator of the combined loss: the weighted global token counts of both streams.\<close>

definition combined_denominator :: "loss_config \<Rightarrow> batch_info \<Rightarrow> dp_group \<Rightarrow> bool list list \<Rightarrow> mat \<Rightarrow> bool \<Rightarrow> rejected_stream \<Rightarrow> real" where
  "combined_denominator lc info g effective weights decayed rs =
     (let response = (if decayed then global_sum g (mat_sum weights)
            else or_else (info_get info ''batch_num_tokens'') (count_mask_mat effective));
          rejected = or_else (info_get info ''opd_rejected_draft_batch_num_tokens'') (count_mask_mat (rs_mask rs));
          rejected_eff = (case info_get info ''opd_rejected_draft_batch_effective_num_tokens'' of
              Some n \<Rightarrow> n | None \<Rightarrow> if rs_decayed rs then global_sum g (mat_sum (rs_weights rs)) else rejected)
      in response_stream_weight lc * response + rejected_draft_stream_weight lc * rejected_eff)"

definition supervised_loss ::
  "actor_config \<Rightarrow> loss_config \<Rightarrow> dp_group \<Rightarrow> mat \<Rightarrow> bool list list \<Rightarrow> mat \<Rightarrow> bool \<Rightarrow> rejected_stream option \<Rightarrow> (real \<times> metrics) res" where
  "supervised_loss config lc g losses effective weights decayed rej =
     (let info = global_batch_info config in
      case rej of
        None \<Rightarrow>
          if decayed then rbind (scaled info (weighted_sum losses weights) (global_sum g (mat_sum weights))) (\<lambda>l. Inr (l, []))
          else rbind (agg_loss_kw losses effective (loss_agg_mode config) (agg_loss_global_batch_info info)) (\<lambda>l. Inr (l, []))
      | Some rs \<Rightarrow>
          rbind (scaled info (response_stream_weight lc * weighted_sum losses weights
                   + rejected_draft_stream_weight lc * weighted_sum (rs_losses rs) (rs_weights rs))
                 (combined_denominator lc info g effective weights decayed rs)) (\<lambda>l.
          Inr (l, [(''distillation/combined_token_count'', Agg_Sum, count_mask_mat effective + count_mask_mat (rs_mask rs))])))"

text \<open>Configurations with another policy loss are rejected when they are built, so only \<^verbatim>\<open>vanilla\<close> reaches this branch. The
  batch information is written into the dictionary of the loss configuration; every call overwrites the same keys.\<close>

definition policy_gradient_loss ::
  "actor_config \<Rightarrow> loss_config \<Rightarrow> model_output \<Rightarrow> loss_data \<Rightarrow> mat \<Rightarrow> bool list list \<Rightarrow> (real \<times> metrics) res" where
  "policy_gradient_loss config lc mo d losses effective =
     (if policy_loss_mode lc \<noteq> ''vanilla'' then Inl NotImplementedError
      else
        let info = fold (\<lambda>(k, v). AList.update k v) (agg_loss_global_batch_info (global_batch_info config)) (lc_global_batch_info lc) in
        rbind (required KeyError (mo_log_probs mo)) (\<lambda>lp. rbind (no_padding_2_padding 0 lp d) (\<lambda>log_prob.
        rbind (compute_policy_loss_vanilla (lc_clip lc) info (to_padded 0 (ld_old_log_probs d)) log_prob (mat_map uminus losses) effective
                 (loss_agg_mode config) (ld_rollout_is_weights d)) (\<lambda>(l, pg).
        Inr (l, map (\<lambda>(k, v). (''distillation/'' @ drop 6 k, v)) pg)))))"

definition clamp_metrics :: "loss_config \<Rightarrow> bool \<Rightarrow> mat \<Rightarrow> bool list list \<Rightarrow> metrics \<Rightarrow> metrics" where
  "clamp_metrics lc has_rejected losses effective ms =
     (case loss_max_clamp lc of
        None \<Rightarrow> ms
      | Some m \<Rightarrow>
          let f = compute_loss_clamp_fraction losses effective m; ms1 = set_metric ''distillation/loss_clamp_fraction'' Agg_Mean f ms in
          if has_rejected then set_metric ''distillation/non_rejected_token_loss_clamp_fraction'' Agg_Mean f ms1 else ms1)"

text \<open>The losses of the rejected draft tokens with their weights.\<close>

definition rejected_losses ::
  "loss_config \<Rightarrow> model_output \<Rightarrow> real list \<times> real list \<times> bool list \<Rightarrow> metrics \<Rightarrow> (rejected_stream \<times> metrics) res" where
  "rejected_losses lc mo stream ms =
     (case stream of (student, teacher, msk) \<Rightarrow>
      rbind (build_rejected_draft_position_weights lc mo msk) (\<lambda>(weights, decayed).
      rbind (combine_sampled_reverse_forward_losses lc [student] [teacher] [msk] ''rejected_draft'' (rejected_draft_use_reverse_kl lc))
        (\<lambda>(losses0, cms).
      let ms1 = update_metrics ms cms;
          ms2 = (case loss_max_clamp lc of None \<Rightarrow> ms1
                 | Some m \<Rightarrow> set_metric ''distillation/rejected_draft_loss_clamp_fraction'' Agg_Mean (compute_loss_clamp_fraction losses0 [msk] m) ms1);
          losses = clamp_losses lc losses0
      in Inr (\<lparr>rs_losses = losses, rs_mask = [msk], rs_weights = weights, rs_decayed = decayed\<rparr>,
              set_metric ''distillation/rejected_draft_loss'' Agg_Mean (valid_mean losses [msk])
                (set_metric ''distillation/rejected_draft_token_count'' Agg_Sum (count_mask msk) ms2)))))"

definition distillation_loss :: "actor_config \<Rightarrow> loss_config \<Rightarrow> model_output \<Rightarrow> loss_data \<Rightarrow> dp_group \<Rightarrow> (real \<times> metrics) res" where
  "distillation_loss config lc mo d g =
     (if use_tv_loss lc then exact_tv_distillation_loss (global_batch_info config) lc mo g
      else
        rbind (get_rejected_draft_distillation_stream mo) (\<lambda>stream.
        if stream \<noteq> None \<and> loss_mode lc = ''forward_kl_topk'' then Inl NotImplementedError
        else if stream \<noteq> None \<and> use_policy_gradient lc then Inl NotImplementedError
        else
        rbind (get_distillation_loss_fn (loss_mode lc)) (\<lambda>f.
        rbind (run_loss_fn f lc mo d) (\<lambda>(losses0, m0).
        let response_mask = padded_response_mask d in
        rbind (get_effective_distillation_response_mask d mo) (\<lambda>effective.
        let m1 = update_metrics m0 (compute_distillation_loss_range losses0 effective);
            m2 = update_metrics m1 (compute_opd_distillation_metrics mo response_mask effective);
            m3 = clamp_metrics lc (stream \<noteq> None) losses0 effective m2;
            losses = clamp_losses lc losses0 in
        rbind (build_response_position_weights lc d mo effective) (\<lambda>(weights, decayed).
        let m4 = (if stream = None then m3 else set_metric ''distillation/non_rejected_token_loss'' Agg_Mean (valid_mean losses effective) m3) in
        rbind (case stream of None \<Rightarrow> Inr (None, m4) | Some s \<Rightarrow> rbind (rejected_losses lc mo s m4) (\<lambda>(rs, m). Inr (Some rs, m))) (\<lambda>(rej, m5).
        if True \<notin> set (concat effective) \<and> rej = None then
          rbind (case mo_log_probs mo of None \<Rightarrow> Inr [] | Some lp \<Rightarrow> no_padding_2_padding 0 lp d) (\<lambda>_. Inr (0, m5))
        else
        rbind (if use_policy_gradient lc then policy_gradient_loss config lc mo d losses effective
               else supervised_loss config lc g losses effective weights decayed rej) (\<lambda>(l, m6).
        Inr (l, update_metrics m5 m6)))))))))"

subsection \<open>The loss of a micro-batch\<close>

text \<open>\<^verbatim>\<open>distillation_ppo_loss\<close> as the final loss (without logits): the batch information goes into the dictionary of the actor
  configuration first. With task rewards the PPO loss of the same micro-batch is added.\<close>

definition opd_info_keys :: "string list" where
  "opd_info_keys = [''opd_rejected_draft_batch_num_tokens'', ''opd_rejected_draft_batch_effective_num_tokens'', ''opd_tv_global_block_count'']"

definition set_batch_info :: "actor_config \<Rightarrow> loss_data \<Rightarrow> actor_config" where
  "set_batch_info config d =
     (let info = ld_info d; dp = (case map_of info ''dp_size'' of None \<Rightarrow> Some 1 | Some x \<Rightarrow> x);
          g0 = AList.update ''dp_size'' dp (global_batch_info config);
          g1 = AList.update ''batch_num_tokens'' (info_get info ''batch_num_tokens'') g0;
          g2 = AList.update ''global_batch_size'' (info_get info ''global_batch_size'') g1;
          g3 = AList.update ''loss_scale_factor'' (loss_scale_factor config) g2
      in config\<lparr>global_batch_info := fold (\<lambda>k. AList.update k (info_get info k)) opd_info_keys g3\<rparr>)"

definition distillation_ppo_loss ::
  "(string \<times> policy_loss_fn) list \<Rightarrow> actor_config \<Rightarrow> loss_config \<Rightarrow> model_output \<Rightarrow> loss_data \<Rightarrow> dp_group \<Rightarrow> (real \<times> metrics \<times> actor_config) res" where
  "distillation_ppo_loss others config0 lc mo d g =
     (let config = set_batch_info config0 d in
      rbind (distillation_loss config lc mo d g) (\<lambda>(distill_loss, distill_metrics).
      if \<not> use_task_rewards lc
      then Inr (distill_loss, set_metric ''distillation/loss'' Agg_Sum distill_loss distill_metrics, config)
      else
        rbind (required KeyError (mo_log_probs mo)) (\<lambda>lp.
        rbind (ppo_loss others config lp (mo_entropy mo) d) (\<lambda>(policy_loss, policy_metrics, info).
        Inr (policy_loss + distill_loss * distillation_loss_coef lc,
             set_metric ''distillation/loss'' Agg_Sum distill_loss (update_metrics policy_metrics distill_metrics),
             config\<lparr>global_batch_info := info\<rparr>)))))"

section \<open>Laws of the loss\<close>

subsection \<open>The total variation loss of a micro-batch\<close>

definition tv_output_ok :: "model_output \<Rightarrow> bool" where
  "tv_output_ok mo \<longleftrightarrow> (case (mo_tv_block_losses mo, mo_tv_block_mask mo) of (Some l, Some m) \<Rightarrow> length l = length m | _ \<Rightarrow> False)
     \<and> list_all (\<lambda>k. map_of (mo_scalars mo) k \<noteq> None) [''opd_tv_distance_sum'', ''opd_tv_overlap_sum'',
        ''opd_tv_expected_accept_length_sum'', ''opd_tv_block_count'', ''opd_tv_position_count'', ''opd_tv_teacher_branch_position_count'']"

definition tv_blocks :: "model_output \<Rightarrow> real list" where
  "tv_blocks mo = select (the (mo_tv_block_mask mo)) (the (mo_tv_block_losses mo))"

lemma count_mask_select: "length ms = length xs \<Longrightarrow> count_mask ms = real (length (select ms xs))"
  by (induction ms xs rule: list_induct2) auto

lemma tv_loss_value:
  assumes "tv_output_ok mo" "\<not> use_policy_gradient lc" "info_get info ''opd_tv_global_block_count'' = Some n" "0 < n"
    and "map_of info ''dp_size'' = Some (Some dp)"
  shows "\<exists>ms. exact_tv_distillation_loss info lc mo g = Inr (sum_list (tv_blocks mo) / n * dp, ms)"
proof -
  obtain l m where lm: "mo_tv_block_losses mo = Some l" "mo_tv_block_mask mo = Some m" "length l = length m"
    using assms(1) by (auto simp: tv_output_ok_def split: option.splits)
  have "masked_sum l m = sum_list (tv_blocks mo)" using lm by (simp add: masked_sum_select tv_blocks_def)
  moreover obtain a b c d e f where st: "map_of (mo_scalars mo) ''opd_tv_distance_sum'' = Some a" "map_of (mo_scalars mo) ''opd_tv_overlap_sum'' = Some b"
    "map_of (mo_scalars mo) ''opd_tv_expected_accept_length_sum'' = Some c" "map_of (mo_scalars mo) ''opd_tv_block_count'' = Some d"
    "map_of (mo_scalars mo) ''opd_tv_position_count'' = Some e" "map_of (mo_scalars mo) ''opd_tv_teacher_branch_position_count'' = Some f"
    using assms(1) by (auto simp: tv_output_ok_def)
  ultimately show ?thesis using assms(2-5) lm
    by (simp add: exact_tv_distillation_loss_def Let_def or_else_def required_def scaled_def dp_of_def)
qed

subsection \<open>Micro-batches without rejected tokens\<close>

text \<open>A micro-batch without rejected tokens divides by the response tokens only. Two micro-batches with one response token
  each, one of them with a rejected token, all losses equal to one, then have a total above one.\<close>

lemma mixed_micro_batches_exceed_mean:
  fixes config :: actor_config
  assumes "global_batch_info config = [(''dp_size'', Some 1), (''batch_num_tokens'', Some 2), (''opd_rejected_draft_batch_effective_num_tokens'', Some 1)]"
    and "loss_agg_mode config = ''token-mean''" "response_stream_weight lc = 1" "rejected_draft_stream_weight lc = 1"
  shows "\<exists>ms. supervised_loss config lc g [[1]] [[True]] [[1]] False
      (Some \<lparr>rs_losses = [[1]], rs_mask = [[True]], rs_weights = [[1]], rs_decayed = False\<rparr>) = Inr (2 / 3, ms)"
    and "supervised_loss config lc g [[1]] [[True]] [[1]] False None = Inr (1 / 2, [])"
proof -
  show "\<exists>ms. supervised_loss config lc g [[1]] [[True]] [[1]] False
      (Some \<lparr>rs_losses = [[1]], rs_mask = [[True]], rs_weights = [[1]], rs_decayed = False\<rparr>) = Inr (2 / 3, ms)"
    using assms by (simp add: supervised_loss_def Let_def combined_denominator_def scaled_def dp_of_def required_def or_else_def
        info_get_def weighted_sum_def)
  show "supervised_loss config lc g [[1]] [[True]] [[1]] False None = Inr (1 / 2, [])"
    using assms by (simp add: supervised_loss_def Let_def agg_loss_global_batch_info_def AGG_LOSS_KEYS_def agg_loss_kw_def info_get_def
        agg_loss_def global_count_def fdiv_def masked_sum_mat_def)
qed

subsection \<open>Bounds of the token losses\<close>

lemma float_eps_bounds: "0 < float_eps" "float_eps < 1"
  by (simp_all add: float_eps_def)

lemma clamp_log_prob_neg: "clamp_log_prob c x < 0"
  using float_eps_bounds by (simp add: clamp_log_prob_def min_less_iff_disj)

lemma bernoulli_term: "0 < p \<Longrightarrow> 0 < q \<Longrightarrow> p * (ln q - ln p) \<le> q - (p :: real)"
proof -
  assume "0 < p" "0 < q"
  then have "ln q - ln p \<le> q / p - 1" using ln_le_minus_one [of "q / p"] by (simp add: ln_div)
  then have "p * (ln q - ln p) \<le> p * (q / p - 1)" using \<open>0 < p\<close> by (intro mult_left_mono) auto
  also have "\<dots> = q - p" using \<open>0 < p\<close> by (simp add: right_diff_distrib)
  finally show ?thesis .
qed

lemma bernoulli_term_strict: "0 < p \<Longrightarrow> 0 < q \<Longrightarrow> p \<noteq> q \<Longrightarrow> p * (ln q - ln p) < q - (p :: real)"
proof -
  assume pq: "0 < p" "0 < q" "p \<noteq> q"
  have "ln (q / p) \<noteq> q / p - 1" using ln_eq_minus_one [of "q / p"] pq by auto
  then have "ln q - ln p < q / p - 1" using ln_le_minus_one [of "q / p"] pq by (simp add: ln_div)
  then have "p * (ln q - ln p) < p * (q / p - 1)" using pq by (intro mult_strict_left_mono) auto
  also have "\<dots> = q - p" using pq by (simp add: right_diff_distrib)
  finally show ?thesis .
qed

text \<open>The forward KL of a token, taken from the log-probabilities of the sampled token alone, is never negative, and is zero
  exactly when the clamped log-probabilities of student and teacher agree.\<close>

theorem local_forward_kl_sound:
  "0 \<le> local_bernoulli_forward_kl c s t \<and> (local_bernoulli_forward_kl c s t = 0 \<longleftrightarrow> clamp_log_prob c s = clamp_log_prob c t)"
proof -
  define S T where "S = clamp_log_prob c s" and "T = clamp_log_prob c t"
  define p q where "p = exp T" and "q = exp S"
  have pq: "0 < p" "p < 1" "0 < q" "q < 1" using clamp_log_prob_neg by (simp_all add: p_def q_def S_def T_def)
  have eq: "p = q \<longleftrightarrow> S = T" by (auto simp: p_def q_def)
  have v: "local_bernoulli_forward_kl c s t = - (p * (ln q - ln p)) - (1 - p) * (ln (1 - q) - ln (1 - p))"
    by (simp add: local_bernoulli_forward_kl_def Let_def S_def [symmetric] T_def [symmetric] p_def q_def right_diff_distrib)
  have "p * (ln q - ln p) \<le> q - p" "(1 - p) * (ln (1 - q) - ln (1 - p)) \<le> (1 - q) - (1 - p)"
    using bernoulli_term [of p q] bernoulli_term [of "1 - p" "1 - q"] pq by simp_all
  moreover have "p * (ln q - ln p) < q - p" if "p \<noteq> q" using bernoulli_term_strict [of p q] pq that by simp
  ultimately have "0 \<le> local_bernoulli_forward_kl c s t" "p \<noteq> q \<Longrightarrow> 0 < local_bernoulli_forward_kl c s t" unfolding v by linarith+
  moreover have "local_bernoulli_forward_kl c s t = 0" if "p = q" using that unfolding v by simp
  ultimately show ?thesis using eq unfolding S_def T_def by auto
qed

text \<open>The weight of a token at a draft offset: the first drafted token has weight one, later ones less.\<close>

lemma decay_weight_bounds: "0 < decay \<Longrightarrow> decay \<le> 1 \<Longrightarrow> 0 \<le> decay_weight decay offset m \<and> decay_weight decay offset m \<le> of_bool m"
  by (auto simp: decay_weight_def powr_le1)

subsection \<open>The loss is defined on the output of the student\<close>

text \<open>A batch of nested sequences with \<open>n\<close> tokens whose response masks are padded to the largest response.\<close>

definition data_ok :: "loss_data \<Rightarrow> nat \<Rightarrow> bool" where
  "data_ok d n \<longleftrightarrow> (case (ld_prompts d, ld_responses d) of
     (Jagged ps, Jagged rs) \<Rightarrow> length ps = length rs \<and> ps \<noteq> [] \<and> [] \<notin> set ps \<and> 0 \<le> ld_max_response_len d
        \<and> n = sum_list (map length ps) + sum_list (map length rs)
        \<and> map length (padded_response_mask d) = replicate (length ps) (nat (ld_max_response_len d))
     | _ \<Rightarrow> False)"

lemma length_fit_row [simp]: "length (fit_row n z xs) = n"
  by (simp add: fit_row_def)

lemma response_rows_shape: "map length (response_rows z vs n off prs) = replicate (length prs) n"
  by (induction z vs n off prs rule: response_rows.induct) (simp_all add: Let_def)

lemma slice_ok:
  assumes "data_ok d n" "length vs = n"
  shows "\<exists>out. no_padding_2_padding z vs d = Inr out \<and> same_shape out (padded_response_mask d)"
proof -
  obtain ps rs where j: "ld_prompts d = Jagged ps" "ld_responses d = Jagged rs"
    using assms(1) by (auto simp: data_ok_def split: seq_tensor.splits)
  have k: "length ps = length rs" "ps \<noteq> []" "[] \<notin> set ps" "0 \<le> ld_max_response_len d" "n = sum_list (map length ps) + sum_list (map length rs)"
    "map length (padded_response_mask d) = replicate (length ps) (nat (ld_max_response_len d))"
    using assms(1) j by (simp_all add: data_ok_def)
  then show ?thesis using assms(2) j
    by (auto simp: no_padding_2_padding_def response_layout_def same_shape_def response_rows_shape)
qed

definition output_ok :: "loss_config \<Rightarrow> model_output \<Rightarrow> nat \<Rightarrow> bool" where
  "output_ok lc mo n \<longleftrightarrow> (case (mo_log_probs mo, mo_opd_teacher_log_probs mo, mo_opd_loss_mask mo) of
       (Some a, Some b, Some c) \<Rightarrow> length a = n \<and> length b = n \<and> length c = n | _ \<Rightarrow> False)
     \<and> (case mo_response_offsets mo of None \<Rightarrow> True | Some x \<Rightarrow> length x = n)
     \<and> (case (mo_rejected_mask mo, mo_rejected_student mo, mo_rejected_teacher mo, mo_rejected_offsets mo) of
          (None, _) \<Rightarrow> True
        | (Some a, Some b, Some c, Some x) \<Rightarrow> length b = length a \<and> length c = length a \<and> length x = length a | _ \<Rightarrow> False)"

definition weights_ok :: "loss_config \<Rightarrow> bool" where
  "weights_ok lc \<longleftrightarrow> 0 \<le> reverse_kl_weight lc \<and> 0 \<le> forward_kl_weight lc \<and> (reverse_kl_weight lc \<noteq> 0 \<or> forward_kl_weight lc \<noteq> 0)"

text \<open>When the decay of the position weights is consulted, and when it is out of range; the configuration does not check its range.\<close>

definition response_decay_read :: "loss_config \<Rightarrow> model_output \<Rightarrow> bool" where
  "response_decay_read lc mo \<longleftrightarrow> accept_draft_position_decay_enabled lc \<and> mo_response_offsets mo \<noteq> None"

definition rejected_decay_read :: "loss_config \<Rightarrow> bool" where
  "rejected_decay_read lc \<longleftrightarrow> rejected_draft_position_decay_enabled lc \<and> \<not> rejected_draft_first_token_only lc"

definition has_rejected_tokens :: "model_output \<Rightarrow> bool" where
  "has_rejected_tokens mo \<longleftrightarrow> (case mo_rejected_mask mo of None \<Rightarrow> False | Some m \<Rightarrow> True \<in> set m)"

definition decay_out_of_range :: "loss_config \<Rightarrow> bool" where
  "decay_out_of_range lc \<longleftrightarrow> rejected_draft_position_decay lc \<le> 0 \<or> 1 < rejected_draft_position_decay lc"

lemma same_shape_refl [simp]: "same_shape x x"
  by (simp add: same_shape_def)

lemma same_shape_sym: "same_shape x y \<Longrightarrow> same_shape y x"
  by (simp add: same_shape_def)

lemma same_shape_trans: "same_shape x y \<Longrightarrow> same_shape y z \<Longrightarrow> same_shape x z"
  by (simp add: same_shape_def)

lemma same_shape_via: "same_shape x z \<Longrightarrow> same_shape y z \<Longrightarrow> same_shape x y"
  by (simp add: same_shape_def)

lemma map2_shape: "same_shape x y \<Longrightarrow> same_shape (map2 (map2 f) x y) y"
proof -
  assume s: "same_shape x y"
  have "\<forall>i<length y. length (x ! i) = length (y ! i)" using s same_shape_length [OF s] unfolding same_shape_def list_eq_iff_nth_eq by simp
  then show ?thesis using same_shape_length [OF s] unfolding same_shape_def list_eq_iff_nth_eq by simp
qed

lemma mat_map_shape [simp]: "same_shape (mat_map f x) y \<longleftrightarrow> same_shape x y"
  by (simp add: same_shape_def mat_map_def comp_def)

lemma combine_ok:
  assumes "weights_ok lc" "loss_mode lc \<in> set SCALAR_DISTILLATION_LOSSES" "same_shape student teacher"
  shows "\<exists>out ms. combine_sampled_reverse_forward_losses lc student teacher msk stream force = Inr (out, ms) \<and> same_shape out student"
proof -
  have m: "sampled_kl_loss_mode lc \<in> {''kl'', ''k1'', ''abs'', ''mse'', ''k2'', ''low_var_kl'', ''k3''}"
    using assms(2) by (simp add: sampled_kl_loss_mode_def SCALAR_DISTILLATION_LOSSES_def)
  obtain r where r: "kl_penalty_mat student teacher (sampled_kl_loss_mode lc) = Inr r" "same_shape r student"
    using kl_penalty_mat_total [OF assms(3) m] by blast
  define f where "f = map2 (map2 (local_bernoulli_forward_kl (log_prob_min_clamp lc))) student teacher"
  have f: "elementwise (local_bernoulli_forward_kl (log_prob_min_clamp lc)) student teacher = Inr f"
    using assms(3) by (simp add: elementwise_def f_def)
  have fs: "same_shape f teacher" using map2_shape [OF assms(3)] by (simp add: f_def)
  have rf: "same_shape r f" using r(2) assms(3) fs by (auto simp: same_shape_def)
  have t: "same_shape (map2 (map2 g) r f) student" for g :: "real \<Rightarrow> real \<Rightarrow> real"
    using map2_shape [OF rf] fs assms(3) by (auto simp: same_shape_def)
  have fs': "same_shape f student" using fs assms(3) by (simp add: same_shape_def)
  show ?thesis using assms(1) r(2) fs' t rf unfolding combine_sampled_reverse_forward_losses_def Let_def r(1) f
    by (auto simp: weights_ok_def loss_weight_def elementwise_def)
qed

lemma effective_ok:
  assumes "data_ok d n" "mo_opd_loss_mask mo = Some c" "length c = n"
  shows "\<exists>eff. get_effective_distillation_response_mask d mo = Inr eff \<and> same_shape eff (padded_response_mask d)"
proof -
  obtain o' where o': "no_padding_2_padding False c d = Inr o'" "same_shape o' (padded_response_mask d)" using slice_ok [OF assms(1,3)] by blast
  have "same_shape (map2 (map2 (\<and>)) (padded_response_mask d) o') (padded_response_mask d)"
    by (rule same_shape_trans [OF map2_shape [OF same_shape_sym [OF o'(2)]] o'(2)])
  then show ?thesis using assms(2) o' by (simp add: get_effective_distillation_response_mask_def Let_def)
qed

lemma estimator_ok:
  assumes "data_ok d n" "output_ok lc mo n" "weights_ok lc" "loss_mode lc \<in> set SCALAR_DISTILLATION_LOSSES"
  shows "\<exists>losses ms. compute_distillation_loss_reverse_kl_estimator lc mo d = Inr (losses, ms) \<and> same_shape losses (padded_response_mask d)"
proof -
  obtain a b c where mo: "mo_log_probs mo = Some a" "mo_opd_teacher_log_probs mo = Some b" "mo_opd_loss_mask mo = Some c"
    "length a = n" "length b = n" "length c = n" using assms(2) by (auto simp: output_ok_def split: option.splits)
  obtain st te eff where sl: "no_padding_2_padding 0 a d = Inr st" "same_shape st (padded_response_mask d)"
      "no_padding_2_padding 0 b d = Inr te" "same_shape te (padded_response_mask d)"
      "get_effective_distillation_response_mask d mo = Inr eff" "same_shape eff (padded_response_mask d)"
    using slice_ok [OF assms(1) mo(4)] slice_ok [OF assms(1) mo(5)] effective_ok [OF assms(1) mo(3,6)] by blast
  note sh = same_shape_via [OF sl(2,4)] same_shape_via [OF sl(4,2)] same_shape_via [OF sl(2,6)]
  obtain out ms where c: "combine_sampled_reverse_forward_losses lc st te eff ''response'' False = Inr (out, ms)" "same_shape out st"
    using combine_ok [OF assms(3,4) sh(1)] by blast
  then show ?thesis using mo(1,2) sl sh same_shape_trans [OF c(2) sl(2)]
    by (simp add: compute_distillation_loss_reverse_kl_estimator_def required_def)
qed

lemma response_weights_outcome:
  assumes "data_ok d n" "output_ok lc mo n" "same_shape eff (padded_response_mask d)"
  shows "if response_decay_read lc mo \<and> decay_out_of_range lc then build_response_position_weights lc d mo eff = Inl ValueError
    else (\<exists>w dec. build_response_position_weights lc d mo eff = Inr (w, dec))"
proof (cases "mo_response_offsets mo")
  case (Some x)
  then have x: "length x = n" using assms(2) by (simp add: output_ok_def)
  obtain o' where o': "no_padding_2_padding 0 x d = Inr o'" "same_shape o' (padded_response_mask d)" using slice_ok [OF assms(1) x, of 0] by blast
  have "same_shape o' eff" by (rule same_shape_via [OF o'(2) assms(3)])
  then show ?thesis using Some o'(1)
    by (auto simp: build_response_position_weights_def Let_def response_decay_read_def decay_out_of_range_def)
qed (auto simp: build_response_position_weights_def Let_def response_decay_read_def)

lemma stream_ok:
  assumes "output_ok lc mo n"
  shows "\<exists>st. get_rejected_draft_distillation_stream mo = Inr st
    \<and> (\<forall>s t m. st = Some (s, t, m) \<longrightarrow> length s = length t \<and> length s = length m \<and> (\<exists>x. mo_rejected_offsets mo = Some x \<and> length x = length m))
    \<and> (st \<noteq> None \<longleftrightarrow> has_rejected_tokens mo)"
proof (cases "mo_rejected_mask mo")
  case (Some m)
  then obtain s t x where "mo_rejected_student mo = Some s" "mo_rejected_teacher mo = Some t" "mo_rejected_offsets mo = Some x"
    "length s = length m" "length t = length m" "length x = length m" using assms by (auto simp: output_ok_def split: option.splits)
  then show ?thesis using Some by (auto simp: get_rejected_draft_distillation_stream_def has_rejected_tokens_def)
qed (simp add: get_rejected_draft_distillation_stream_def has_rejected_tokens_def)

lemma rejected_losses_outcome:
  assumes "weights_ok lc" "loss_mode lc \<in> set SCALAR_DISTILLATION_LOSSES" "length s = length t" "mo_rejected_offsets mo = Some x" "length x = length m"
  shows "if rejected_decay_read lc \<and> decay_out_of_range lc then rejected_losses lc mo (s, t, m) ms = Inl ValueError
    else (\<exists>rs ms'. rejected_losses lc mo (s, t, m) ms = Inr (rs, ms'))"
proof -
  have w: "if rejected_decay_read lc \<and> decay_out_of_range lc then build_rejected_draft_position_weights lc mo m = Inl ValueError
      else (\<exists>w dec. build_rejected_draft_position_weights lc mo m = Inr (w, dec))"
    using assms(4,5) by (auto simp: build_rejected_draft_position_weights_def Let_def rejected_decay_read_def decay_out_of_range_def)
  have "same_shape [s] [t]" using assms(3) by (simp add: same_shape_def)
  then obtain out cms where "combine_sampled_reverse_forward_losses lc [s] [t] [m] ''rejected_draft'' (rejected_draft_use_reverse_kl lc) = Inr (out, cms)"
    using combine_ok [OF assms(1,2)] by blast
  then show ?thesis using w by (auto simp: rejected_losses_def Let_def)
qed

lemma supervised_ok:
  assumes "loss_agg_mode config = ''token-mean''" "info_get (global_batch_info config) ''batch_num_tokens'' = Some k" "k \<noteq> 0"
    and "map_of (global_batch_info config) ''dp_size'' = Some (Some dp)" "same_shape losses eff"
  shows "\<exists>l ms. supervised_loss config lc g losses eff w dec rej = Inr (l, ms)"
proof -
  let ?i = "agg_loss_global_batch_info (global_batch_info config)"
  have f: "map_of (agg_loss_global_batch_info i) q = (if q \<in> set AGG_LOSS_KEYS then map_of i q else None)" for i q
    unfolding agg_loss_global_batch_info_def by (induction i) auto
  have "map_of ?i ''dp_size'' = Some (Some dp)" "info_get ?i ''batch_num_tokens'' = Some k"
    using f assms(2,4) by (simp_all add: info_get_def AGG_LOSS_KEYS_def)
  moreover have "list_all (\<lambda>(k, _). k \<in> set AGG_LOSS_KEYS) ?i" by (auto simp: agg_loss_global_batch_info_def list_all_iff)
  ultimately have "\<exists>l. agg_loss_kw losses eff (loss_agg_mode config) ?i = Inr l"
    using assms(1,3,5) by (simp add: agg_loss_kw_def agg_loss_def global_count_def fdiv_def)
  then obtain l where "agg_loss_kw losses eff (loss_agg_mode config) ?i = Inr l" by blast
  moreover have "scaled (global_batch_info config) x y = Inr (if y \<le> 0 then 0 else x / y * dp)" for x y
    using assms(4) by (simp add: scaled_def dp_of_def required_def)
  ultimately show ?thesis by (cases rej; cases dec) (simp_all add: supervised_loss_def Let_def)
qed

text \<open>C35 Supervised distillation with a scalar loss and the token mean, under an accepted configuration, on a micro-batch with the tensors
  the composed student returns and a positive global token count: the only check that can fail is the range of the position decay,
  which the configuration accepts unchecked. A loss is returned unless a decay outside the interval from zero (excluded) to one is
  consulted, for response offsets or for rejected draft tokens, and then the loss raises \<^verbatim>\<open>ValueError\<close>.\<close>

theorem supervised_distillation_outcome:
  assumes "loss_config_post_init lc0 = Inr lc" "\<not> use_tv_loss lc" "\<not> use_policy_gradient lc" "loss_mode lc \<in> set SCALAR_DISTILLATION_LOSSES"
    and "data_ok d n" "output_ok lc mo n" "loss_agg_mode config = ''token-mean''"
    and "info_get (global_batch_info config) ''batch_num_tokens'' = Some k" "k \<noteq> 0"
    and "map_of (global_batch_info config) ''dp_size'' = Some (Some dp)"
  shows "if decay_out_of_range lc \<and> (response_decay_read lc mo \<or> rejected_decay_read lc \<and> has_rejected_tokens mo)
    then distillation_loss config lc mo d g = Inl ValueError
    else (\<exists>l ms. distillation_loss config lc mo d g = Inr (l, ms))"
proof -
  have mode: "loss_mode lc \<noteq> ''forward_kl_topk''" using assms(4) by (auto simp: SCALAR_DISTILLATION_LOSSES_def)
  have w: "weights_ok lc" using assms(1-4) mode
    by (auto simp: loss_config_post_init_def weights_ok_def rbind_eq_Inr split: if_splits)
  obtain a c where a: "mo_log_probs mo = Some a" "length a = n" and c: "mo_opd_loss_mask mo = Some c" "length c = n"
    using assms(6) by (auto simp: output_ok_def split: option.splits)
  obtain st where st: "get_rejected_draft_distillation_stream mo = Inr st" "st \<noteq> None \<longleftrightarrow> has_rejected_tokens mo"
    "\<forall>s t m. st = Some (s, t, m) \<longrightarrow> length s = length t \<and> length s = length m \<and> (\<exists>x. mo_rejected_offsets mo = Some x \<and> length x = length m)"
    using stream_ok [OF assms(6)] by blast
  obtain losses m0 where e: "run_loss_fn Reverse_kl_estimator lc mo d = Inr (losses, m0)" "same_shape losses (padded_response_mask d)"
    using estimator_ok [OF assms(5,6) w assms(4)] by (auto simp: run_loss_fn_def)
  obtain eff where eff: "get_effective_distillation_response_mask d mo = Inr eff" "same_shape eff (padded_response_mask d)"
    using effective_ok [OF assms(5) c] by blast
  obtain la where la: "no_padding_2_padding 0 a d = Inr la" using slice_ok [OF assms(5) a(2)] by blast
  have sh: "same_shape (clamp_losses lc losses) eff" using same_shape_via [OF e(2) eff(2)]
    by (simp add: clamp_losses_def split: option.splits)
  have rej: "if rejected_decay_read lc \<and> has_rejected_tokens mo \<and> decay_out_of_range lc
      then (case st of None \<Rightarrow> Inr (None, ms) | Some s \<Rightarrow> rbind (rejected_losses lc mo s ms) (\<lambda>(rs, m). Inr (Some rs, m))) = Inl ValueError
      else (\<exists>rj m'. (case st of None \<Rightarrow> Inr (None, ms) | Some s \<Rightarrow> rbind (rejected_losses lc mo s ms) (\<lambda>(rs, m). Inr (Some rs, m))) = Inr (rj, m'))" for ms
  proof (cases st)
    case (Some q)
    then obtain s t m where q: "st = Some (s, t, m)" by (cases q) auto
    then obtain x where "length s = length t" "mo_rejected_offsets mo = Some x" "length x = length m" using st(3) by blast
    from rejected_losses_outcome [OF w assms(4) this, of ms] show ?thesis using st(2) q by (cases "rejected_decay_read lc \<and> decay_out_of_range lc") auto
  qed (use st(2) in simp)
  obtain L K where LK: "\<And>ws dec rj. supervised_loss config lc g (clamp_losses lc losses) eff ws dec rj = Inr (L ws dec rj, K ws dec rj)"
    using supervised_ok [OF assms(7-10) sh] by metis
  note unfold = distillation_loss_def Let_def st(1) settings_scalar [OF assms(4), THEN conjunct1] rbind_Inr e(1) eff(1) prod.case a(1) option.case la
  note wts = response_weights_outcome [OF assms(5,6) eff(2)]
  show ?thesis
  proof (cases "response_decay_read lc mo \<and> decay_out_of_range lc")
    case True
    then have "build_response_position_weights lc d mo eff = Inl ValueError" using wts by simp
    then show ?thesis using True assms(2,3) mode unfolding unfold by simp
  next
    case False
    then obtain ws dec where ws: "build_response_position_weights lc d mo eff = Inr (ws, dec)" using wts by auto
    show ?thesis
    proof (cases "rejected_decay_read lc \<and> has_rejected_tokens mo \<and> decay_out_of_range lc")
      case True
      then show ?thesis using rej assms(2,3) mode unfolding unfold ws by simp
    next
      case no: False
      then obtain F G where FG: "\<And>ms. (case st of None \<Rightarrow> Inr (None, ms) | Some s \<Rightarrow> rbind (rejected_losses lc mo s ms) (\<lambda>(rs, m). Inr (Some rs, m)))
          = Inr (F ms, G ms)" using rej by metis
      have "\<exists>l ms. distillation_loss config lc mo d g = Inr (l, ms)" using assms(2,3) mode unfolding unfold ws by (simp add: FG LK)
      then show ?thesis using False no by auto
    qed
  qed
qed

subsection \<open>Task rewards\<close>

text \<open>The tensors of the rollout have the shape of the response mask.\<close>

definition policy_data_ok :: "loss_data \<Rightarrow> nat \<Rightarrow> bool" where
  "policy_data_ok d n \<longleftrightarrow> data_ok d n \<and> same_shape (to_padded 0 (ld_old_log_probs d)) (padded_response_mask d)
     \<and> same_shape (to_padded 0 (ld_advantages d)) (padded_response_mask d)
     \<and> (case ld_rollout_is_weights d of None \<Rightarrow> True | Some w \<Rightarrow> same_shape (to_padded 0 w) (padded_response_mask d))
     \<and> list_all (\<lambda>k. map_of (ld_info d) k \<noteq> None) [''batch_num_tokens'', ''global_batch_size'']"

definition AGG_POLICY_LOSSES :: "string list" where
  "AGG_POLICY_LOSSES = [''vanilla'', ''dppo_tv'', ''dppo_kl'', ''gspo'', ''sapo'', ''gpg'', ''cispo'']"

lemma update_keys: "fst ` set (AList.update k v al) = insert k (fst ` set al)"
  by (simp add: dom_update)

lemma set_batch_info_key: "''opd_tv_global_block_count'' \<in> fst ` set (global_batch_info (set_batch_info config d))"
  by (simp add: set_batch_info_def Let_def opd_info_keys_def update_keys)

lemma agg_loss_kw_unexpected: "''opd_tv_global_block_count'' \<in> fst ` set info \<Longrightarrow> agg_loss_kw xs ms mode info = Inl TypeError"
  by (auto simp: agg_loss_kw_def list_all_iff AGG_LOSS_KEYS_def)

lemma same_shape_map2: "same_shape x y \<Longrightarrow> same_shape (map2 (map2 f) x y) x"
  using map2_shape [of x y f] same_shape_sym same_shape_trans by blast

lemma elementwise_shape: "same_shape x y \<Longrightarrow> \<exists>z. elementwise f x y = Inr z \<and> same_shape z x"
  by (simp add: elementwise_def same_shape_map2)

lemma policy_tokens_shape:
  assumes "same_shape old msk" "same_shape lp msk" "same_shape adv msk"
  shows "\<exists>toks. policy_tokens f old lp adv msk = Inr toks \<and> same_shape toks msk"
proof -
  obtain z where z: "elementwise Pair old lp = Inr z" "same_shape z old"
    using elementwise_shape [OF same_shape_via [OF assms(1,2)], of Pair] by blast
  have "same_shape z adv" by (rule same_shape_via [OF same_shape_trans [OF z(2) assms(1)] assms(3)])
  from elementwise_shape [OF this, of "\<lambda>(old, lp) adv. f old lp adv"]
  obtain toks where "elementwise (\<lambda>(old, lp) adv. f old lp adv) z adv = Inr toks" "same_shape toks z" by blast
  moreover from this(2) have "same_shape toks msk" by (rule same_shape_trans [OF _ same_shape_trans [OF z(2) assms(1)]])
  ultimately show ?thesis using z by (simp add: policy_tokens_def require_def)
qed

lemma agg_policy_loss_unexpected:
  assumes "''opd_tv_global_block_count'' \<in> fst ` set info" "same_shape losses msk" "\<forall>x. w = Some x \<longrightarrow> same_shape x msk"
  shows "agg_policy_loss info losses msk mode w = Inl TypeError"
proof (cases w)
  case (Some x)
  then obtain z where "elementwise (*) losses x = Inr z" using elementwise_shape [OF same_shape_via [OF assms(2)]] assms(3) by blast
  then show ?thesis by (simp add: agg_policy_loss_def Some agg_loss_kw_unexpected [OF assms(1)])
qed (simp add: agg_policy_loss_def agg_loss_kw_unexpected [OF assms(1)])

lemma vanilla_alt:
  "1 < clip_ratio_c cc \<Longrightarrow> policy_tokens (clip_token cc) old lp adv msk = Inr toks \<Longrightarrow> agg_policy_loss info (mat_map fst toks) msk mode w = Inl e \<Longrightarrow>
    compute_policy_loss_vanilla cc info old lp adv msk mode w = Inl e"
  unfolding compute_policy_loss_vanilla_def policy_tokens_def agg_policy_loss_def Let_def
  by (cases "elementwise Pair old lp"; cases "case w of None \<Rightarrow> Inr (mat_map fst toks) | Some x \<Rightarrow> elementwise (*) (mat_map fst toks) x")
    (auto simp: rbind_eq_Inr require_def split: if_splits)

lemma map2_row_shape: "length y = length x \<Longrightarrow> (\<And>r c. length (f r c) = length r) \<Longrightarrow> same_shape (map2 f x y) x"
  by (auto simp: same_shape_def list_eq_iff_nth_eq)

lemma gspo_shape:
  assumes "same_shape toks msk"
  shows "same_shape (map2 (map2 g) (map2 (\<lambda>row r. map (F r) row) toks (map2 h toks msk)) (map2 (\<lambda>row r. map (G r) row) toks (map2 h toks msk))) msk"
proof -
  have n: "length (map2 h toks msk) = length toks" using same_shape_length [OF assms] by simp
  have s: "same_shape (map2 (\<lambda>row r. map (F r) row) toks (map2 h toks msk)) toks" for F
    by (rule map2_row_shape [OF n]) simp
  show ?thesis using same_shape_trans [OF same_shape_trans [OF same_shape_map2 [OF same_shape_via [OF s s]] s] assms] .
qed

lemma agg_policy_losses_unexpected:
  assumes "name \<in> set AGG_POLICY_LOSSES" "map_of others name = None" "1 < clip_ratio_c (actor_clip config)"
    and "''opd_tv_global_block_count'' \<in> fst ` set (global_batch_info config)"
    and "same_shape old msk" "same_shape lp msk" "same_shape adv msk" "\<forall>x. w = Some x \<longrightarrow> same_shape x msk"
  shows "\<exists>f. get_policy_loss_fn others name = Inr f \<and> f config old lp adv msk mode w = Inl TypeError"
proof -
  have a: "same_shape losses msk \<Longrightarrow> agg_policy_loss (global_batch_info config) losses msk mode' w = Inl TypeError" for losses mode'
    using agg_policy_loss_unexpected [OF assms(4) _ assms(8)] by blast
  note t = policy_tokens_shape [OF assms(5-7)]
  have tok: "rbind (policy_tokens f old lp adv msk) (\<lambda>toks. rbind (agg_policy_loss (global_batch_info config) (mat_map fst toks) msk mode' w) (K toks)) = Inl TypeError"
    for f :: "real \<Rightarrow> real \<Rightarrow> real \<Rightarrow> real \<times> 'a" and mode' and K :: "(real \<times> 'a) list list \<Rightarrow> real \<Rightarrow> (real \<times> metrics) res"
    using t [of f] by (elim exE conjE) (simp add: a)
  have v: "compute_policy_loss_vanilla (actor_clip config) (global_batch_info config) old lp adv msk mode w = Inl TypeError"
    using t [of "clip_token (actor_clip config)"] vanilla_alt [OF assms(3) _ a] by fastforce
  have d: "compute_policy_loss_dppo valid config old lp adv msk mode w = Inl TypeError" for valid
    unfolding compute_policy_loss_dppo_def by (rule tok)
  have s: "compute_policy_loss_sapo config old lp adv msk mode w = Inl TypeError"
    unfolding compute_policy_loss_sapo_def by (rule tok)
  have c: "compute_policy_loss_cispo config old lp adv msk mode w = Inl TypeError"
    unfolding compute_policy_loss_cispo_def by (rule tok)
  have p: "compute_policy_loss_gpg config old lp adv msk mode w = Inl TypeError"
    unfolding compute_policy_loss_gpg_def
    using elementwise_shape [OF same_shape_via [OF assms(6,7)], of "\<lambda>lp adv. - lp * adv"]
    by (elim exE conjE) (simp add: a same_shape_trans [OF _ assms(6)] del: mult_minus_left)
  obtain toks where toks: "policy_tokens (\<lambda>old lp adv. (lp - old, adv)) old lp adv msk = Inr toks" "same_shape toks msk" using t by blast
  have g: "compute_policy_loss_gspo config old lp adv msk mode w = Inl TypeError"
    unfolding compute_policy_loss_gspo_def toks(1) Let_def rbind_Inr by (subst a) (rule gspo_shape [OF toks(2)], simp)
  show ?thesis using assms(1,2) v d s c p g
    by (auto simp: AGG_POLICY_LOSSES_def get_policy_loss_fn_def map_add_def split: option.splits)
qed

lemma geo_mean_total:
  assumes "same_shape old msk" "same_shape lp msk" "same_shape adv msk" "\<forall>x. w = Some x \<longrightarrow> same_shape x msk" "msk \<noteq> []"
  shows "\<exists>l ms. compute_policy_loss_geo_mean config old lp adv msk mode w = Inr (l, ms)"
proof -
  obtain toks where toks: "policy_tokens (\<lambda>old lp adv. (lp - old, adv)) old lp adv msk = Inr toks" "same_shape toks msk"
    using policy_tokens_shape [OF assms(1-3)] by blast
  have n: "length toks = length msk" "toks \<noteq> []" using same_shape_length [OF toks(2)] assms(5) by auto
  show ?thesis
  proof (cases w)
    case None
    then show ?thesis using n assms(5) by (simp add: compute_policy_loss_geo_mean_def toks(1) Let_def fdiv_def)
  next
    case (Some x)
    then have s: "same_shape x msk" using assms(4) by blast
    moreover have "x \<noteq> []" using same_shape_length [OF s] assms(5) by auto
    ultimately show ?thesis using n assms(5) same_shape_length [OF s]
      by (simp add: compute_policy_loss_geo_mean_def toks(1) Let_def fdiv_def require_def Some)
  qed
qed

lemma ppo_loss_prefix:
  assumes "policy_data_ok d n" "length lp = n" "case ent of None \<Rightarrow> True | Some e \<Rightarrow> length e = n" "map_of (ld_info d) ''dp_size'' = Some (Some dp)"
  shows "\<exists>log_prob entropy bnt gbs. same_shape log_prob (padded_response_mask d) \<and> no_padding_2_padding 0 lp d = Inr log_prob
    \<and> (case ent of None \<Rightarrow> Inr None | Some e \<Rightarrow> rbind (no_padding_2_padding 0 e d) (\<lambda>x. Inr (Some x))) = Inr entropy
    \<and> data_item (ld_info d) ''batch_num_tokens'' = Inr bnt \<and> data_item (ld_info d) ''global_batch_size'' = Inr gbs
    \<and> data_item (ld_info d) ''dp_size'' = Inr (Some dp)"
proof -
  have d: "data_ok d n" using assms(1) by (simp add: policy_data_ok_def)
  obtain log_prob where log_prob: "no_padding_2_padding 0 lp d = Inr log_prob" "same_shape log_prob (padded_response_mask d)"
    using slice_ok [OF d assms(2)] by blast
  have "\<exists>entropy. (case ent of None \<Rightarrow> Inr None | Some e \<Rightarrow> rbind (no_padding_2_padding 0 e d) (\<lambda>x. Inr (Some x))) = Inr entropy"
    using slice_ok [OF d, of _ 0] assms(3) by (cases ent) (simp, fastforce)
  then show ?thesis using log_prob assms(1,4) by (auto simp: policy_data_ok_def data_item_def)
qed

lemma ppo_loss_raises:
  assumes "policy_data_ok d n" "length lp = n" "case ent of None \<Rightarrow> True | Some e \<Rightarrow> length e = n" "map_of (ld_info d) ''dp_size'' = Some (Some dp)"
    and "\<And>info log_prob. fst ` set (global_batch_info config) \<subseteq> fst ` set info \<Longrightarrow> same_shape log_prob (padded_response_mask d) \<Longrightarrow>
      \<exists>f. get_policy_loss_fn others (actor_policy_loss config) = Inr f \<and> f (config\<lparr>global_batch_info := info\<rparr>) (to_padded 0 (ld_old_log_probs d)) log_prob
        (to_padded 0 (ld_advantages d)) (padded_response_mask d) (loss_agg_mode config) (map_option (to_padded 0) (ld_rollout_is_weights d)) = Inl e"
  shows "ppo_loss others config lp ent d = Inl e"
proof -
  obtain log_prob entropy bnt gbs where p: "same_shape log_prob (padded_response_mask d)" "no_padding_2_padding 0 lp d = Inr log_prob"
    "(case ent of None \<Rightarrow> Inr None | Some e \<Rightarrow> rbind (no_padding_2_padding 0 e d) (\<lambda>x. Inr (Some x))) = Inr entropy"
    "data_item (ld_info d) ''batch_num_tokens'' = Inr bnt" "data_item (ld_info d) ''global_batch_size'' = Inr gbs" "data_item (ld_info d) ''dp_size'' = Inr (Some dp)"
    using ppo_loss_prefix [OF assms(1-4)] by blast
  let ?info = "AList.update ''loss_scale_factor'' (loss_scale_factor config) (AList.update ''global_batch_size'' gbs (AList.update ''batch_num_tokens'' bnt
      (AList.update ''dp_size'' (Some dp) (global_batch_info config))))"
  have "fst ` set (global_batch_info config) \<subseteq> fst ` set ?info" by (auto simp: update_keys)
  from assms(5) [OF this p(1)] show ?thesis
    by (elim exE conjE) (simp add: ppo_loss_def p(2-6) Let_def padded_response_mask_def [symmetric])
qed

lemma ppo_loss_plain:
  assumes "policy_data_ok d n" "length lp = n" "map_of (ld_info d) ''dp_size'' = Some (Some dp)" "\<not> use_kl_loss config"
    and "\<And>info log_prob. same_shape log_prob (padded_response_mask d) \<Longrightarrow>
      \<exists>f l ms. get_policy_loss_fn others (actor_policy_loss config) = Inr f \<and> f (config\<lparr>global_batch_info := info\<rparr>) (to_padded 0 (ld_old_log_probs d)) log_prob
        (to_padded 0 (ld_advantages d)) (padded_response_mask d) (loss_agg_mode config) (map_option (to_padded 0) (ld_rollout_is_weights d)) = Inr (l, ms)"
  shows "\<exists>l ms info. ppo_loss others config lp None d = Inr (l, ms, info)"
proof -
  obtain log_prob bnt gbs where p: "same_shape log_prob (padded_response_mask d)" "no_padding_2_padding 0 lp d = Inr log_prob"
    "data_item (ld_info d) ''batch_num_tokens'' = Inr bnt" "data_item (ld_info d) ''global_batch_size'' = Inr gbs" "data_item (ld_info d) ''dp_size'' = Inr (Some dp)"
    using ppo_loss_prefix [OF assms(1,2) _ assms(3), of None] by auto
  let ?info = "AList.update ''loss_scale_factor'' (loss_scale_factor config) (AList.update ''global_batch_size'' gbs (AList.update ''batch_num_tokens'' bnt
      (AList.update ''dp_size'' (Some dp) (global_batch_info config))))"
  from assms(5) [OF p(1), of ?info] show ?thesis
    by (elim exE conjE) (simp add: ppo_loss_def p(2-5) Let_def padded_response_mask_def [symmetric] assms(4))
qed


subsection \<open>Examples\<close>

definition example_actor :: "batch_info \<Rightarrow> actor_config" where
  "example_actor info = \<lparr>loss_agg_mode = ''token-mean'', loss_scale_factor = None, actor_policy_loss = ''vanilla'', actor_clip = lc_clip example_loss_config,
     tau_pos = 1, tau_neg = 1, entropy_coeff = 0,
     use_kl_loss = False, kl_loss_type = ''k3'', kl_loss_coef = 0, global_batch_info = info\<rparr>"

definition example_data :: loss_data where
  "example_data = \<lparr>ld_prompts = Jagged [[7]], ld_responses = Jagged [[8, 9]], ld_attention_mask = [], ld_max_response_len = 2,
     ld_response_mask = [[True, True]], ld_info = [(''dp_size'', Some 1), (''batch_num_tokens'', Some 2), (''global_batch_size'', Some 1)],
     ld_old_log_probs = [[-1, -1]], ld_advantages = [[1, 1]], ld_rollout_is_weights = None, ld_ref_log_prob = None,
     ld_teacher_logprobs = None\<rparr>"

definition example_output :: model_output where
  "example_output = \<lparr>mo_log_probs = Some [-1, -2, 0], mo_entropy = None, mo_opd_loss_mask = Some [True, True, False],
     mo_opd_teacher_log_probs = Some [-1, -1, 0], mo_response_offsets = None, mo_rejected_mask = Some [True], mo_rejected_student = Some [-2],
     mo_rejected_teacher = Some [-3], mo_rejected_offsets = Some [1], mo_distillation_losses = None, mo_student_mass = None,
     mo_teacher_mass = None, mo_eagle3_ce = None, mo_eagle3_scalar_mask = None, mo_tv_block_losses = Some [1, 3], mo_tv_block_mask = Some [True, False],
     mo_scalars = map (\<lambda>k. (k, 1)) [''opd_tv_distance_sum'', ''opd_tv_overlap_sum'', ''opd_tv_expected_accept_length_sum'', ''opd_tv_block_count'',
       ''opd_tv_position_count'', ''opd_tv_teacher_branch_position_count'']\<rparr>"

theorem supervised_distillation_outcome_witness:
  "\<exists>lc l ms. loss_config_post_init example_loss_config = Inr lc
    \<and> distillation_loss (example_actor [(''dp_size'', Some 1), (''batch_num_tokens'', Some 2)]) lc example_output example_data None = Inr (l, ms)"
proof -
  have k3: "''k3'' \<in> set SCALAR_DISTILLATION_LOSSES" by (simp add: SCALAR_DISTILLATION_LOSSES_def)
  obtain st where "get_distillation_loss_settings ''k3'' = Inr st" using settings_scalar [OF k3] by blast
  then have p: "loss_config_post_init example_loss_config = Inr (example_loss_config\<lparr>lc_settings := Some st\<rparr>)"
    by (simp add: loss_config_post_init_def example_loss_config_def)
  have d: "data_ok example_data 3" by (simp add: data_ok_def example_data_def padded_response_mask_def to_padded_def pad_to_def)
  have r: "\<not> decay_out_of_range (example_loss_config\<lparr>lc_settings := Some st\<rparr>)" by (simp add: decay_out_of_range_def example_loss_config_def)
  show ?thesis
    using supervised_distillation_outcome [OF p, where d = example_data and n = 3 and mo = example_output and k = 2 and dp = 1 and g = None
        and config = "example_actor [(''dp_size'', Some 1), (''batch_num_tokens'', Some 2)]"] d k3 p r
    by (simp add: example_loss_config_def output_ok_def example_output_def example_actor_def info_get_def)
qed


end
