(* ===== verification/Train_Step.thy ===== *)
theory Train_Step
  imports Distill_Loss
begin

section \<open>A training step\<close>

text \<open>
  The step of the training engine (\<^verbatim>\<open>workers/engine/fsdp/transformer_impl.py\<close>): the counts that are summed over all ranks
  before the forward passes (\<^verbatim>\<open>_compute_extra_global_batch_info\<close>) and the loop over micro-batches that computes the losses
  (\<^verbatim>\<open>forward_backward_batch\<close>). The central law is that the number of blocks counted from the metadata is the number of
  blocks the forward pass of the composed student returns, so that the total variation loss is a mean over all blocks.

  A collective call is a function of the name its result is stored under and of the value the rank passes; a step of all ranks
  instantiates it by the sum of what the ranks pass. The cut into micro-batches and the forward pass of a micro-batch are inputs;
  back propagation is not modelled.
\<close>

subsection \<open>Counts over all ranks\<close>

record step_meta =
  sm_batch_size :: nat
  sm_response_mask :: "seq_tensor option"
  sm_responses :: "seq_tensor option"
  sm_rejects :: "int meta"
  sm_anchors :: "int meta"
  sm_offsets :: "int meta"
  sm_token_ids :: "int meta"
  sm_use_tv :: bool
  sm_first_token_only :: bool
  sm_decay_enabled :: bool
  sm_decay :: real

definition compute_extra_global_batch_info ::
  "(string \<Rightarrow> real \<Rightarrow> real) \<Rightarrow> bool \<Rightarrow> bool \<Rightarrow> nat option \<Rightarrow> step_meta \<Rightarrow> batch_info res" where
  "compute_extra_global_batch_info all_reduce is_composed is_exact max_tokens_per_sample sm =
     (if \<not> is_composed then Inr []
      else if sm_use_tv sm then
        if \<not> is_exact then Inl NotImplementedError
        else rbind (count_dflash_tv_blocks (sm_batch_size sm) (sm_response_mask sm) (sm_responses sm) (sm_rejects sm) (sm_anchors sm)
                 (sm_offsets sm) (sm_token_ids sm)) (\<lambda>n.
             Inr [(''opd_tv_global_block_count'', Some (all_reduce ''opd_tv_global_block_count'' (real n)))])
      else
        rbind (count_dflash_rejected_draft_tokens (sm_token_ids sm) (sm_batch_size sm) max_tokens_per_sample (sm_anchors sm) (sm_offsets sm)
                 (sm_first_token_only sm)) (\<lambda>n.
        let info = [(''opd_rejected_draft_batch_num_tokens'', Some (all_reduce ''opd_rejected_draft_batch_num_tokens'' (real n)))] in
        if sm_decay_enabled sm \<and> \<not> sm_first_token_only sm \<and> sm_offsets sm \<noteq> MNone then
          rbind (sum_dflash_rejected_draft_position_weights (sm_token_ids sm) (sm_offsets sm) (sm_batch_size sm) max_tokens_per_sample
                   (sm_decay sm) (sm_anchors sm) (sm_first_token_only sm)) (\<lambda>w.
          Inr (info @ [(''opd_rejected_draft_batch_effective_num_tokens'',
            Some (all_reduce ''opd_rejected_draft_batch_effective_num_tokens'' w))]))
        else Inr info))"

text \<open>The information every micro-batch of the batch carries, and the losses of the micro-batches in their order.\<close>

definition step_info :: "(string \<Rightarrow> real \<Rightarrow> real) \<Rightarrow> real \<Rightarrow> bool list list \<Rightarrow> batch_info \<Rightarrow> batch_info \<Rightarrow> batch_info" where
  "step_info all_reduce dp_size loss_mask extra info =
     fold (\<lambda>(k, v). AList.update k v) extra
       (AList.update ''dp_size'' (Some dp_size) (AList.update ''batch_num_tokens'' (Some (all_reduce ''batch_num_tokens'' (count_mask_mat loss_mask))) info))"

definition forward_backward_batch ::
  "(string \<Rightarrow> real \<Rightarrow> real) \<Rightarrow> real \<Rightarrow> batch_info res \<Rightarrow> bool list list \<Rightarrow> (batch_info \<Rightarrow> 'mb \<Rightarrow> real res) \<Rightarrow> batch_info \<Rightarrow> 'mb list
    \<Rightarrow> real list res" where
  "forward_backward_batch all_reduce dp_size extra loss_mask loss_function info micro_batches =
     rbind extra (\<lambda>ex. rmap (loss_function (step_info all_reduce dp_size loss_mask ex info)) micro_batches)"

text \<open>The loss the step calls on a micro-batch: the outputs of the model and the data, which carry the information of the batch.\<close>

definition step_loss ::
  "(string \<times> policy_loss_fn) list \<Rightarrow> actor_config \<Rightarrow> loss_config \<Rightarrow> dp_group \<Rightarrow> batch_info \<Rightarrow> model_output \<times> loss_data \<Rightarrow> real res" where
  "step_loss others config lc g info mb = rbind (distillation_ppo_loss others config lc (fst mb) ((snd mb)\<lparr>ld_info := info\<rparr>) g) (\<lambda>(l, _). Inr l)"

text \<open>What a rank holds in a step: the metadata, the loss mask and the information of its batch, and its micro-batches.\<close>

type_synonym rank_data = "step_meta \<times> bool list list \<times> batch_info \<times> (model_output \<times> loss_data) list"

definition rank_step ::
  "(string \<times> policy_loss_fn) list \<Rightarrow> actor_config \<Rightarrow> loss_config \<Rightarrow> dp_group \<Rightarrow> nat option \<Rightarrow> (string \<Rightarrow> real \<Rightarrow> real) \<Rightarrow> real \<Rightarrow> rank_data
    \<Rightarrow> real list res" where
  "rank_step others config lc g cap all_reduce dp r = (case r of (sm, msk, info, mbs) \<Rightarrow>
     forward_backward_batch all_reduce dp (compute_extra_global_batch_info all_reduce True True cap sm) msk (step_loss others config lc g) info mbs)"

text \<open>What a rank passes to the collective call whose result is stored under a name: the value it would store if the call returned
  its own value. On a rank of a step, a call returns the value passed plus what the other ranks pass.\<close>

definition contribution :: "nat option \<Rightarrow> rank_data \<Rightarrow> string \<Rightarrow> real" where
  "contribution cap r name = (case r of (sm, msk, _, _) \<Rightarrow>
     case compute_extra_global_batch_info (\<lambda>_ x. x) True True cap sm of
       Inl _ \<Rightarrow> 0
     | Inr ex \<Rightarrow> or_else (info_get (step_info (\<lambda>_ x. x) 1 msk ex []) name) 0)"

definition all_reduce_sum :: "nat option \<Rightarrow> rank_data list \<Rightarrow> nat \<Rightarrow> string \<Rightarrow> real \<Rightarrow> real" where
  "all_reduce_sum cap ranks i name x = x + sum_list (map (\<lambda>r. contribution cap r name) (take i ranks @ drop (Suc i) ranks))"

definition training_step ::
  "(string \<times> policy_loss_fn) list \<Rightarrow> actor_config \<Rightarrow> loss_config \<Rightarrow> dp_group \<Rightarrow> nat option \<Rightarrow> rank_data list \<Rightarrow> real list list res" where
  "training_step others config lc g cap ranks =
     rmap (\<lambda>i. rank_step others config lc g cap (all_reduce_sum cap ranks i) (real (length ranks)) (ranks ! i)) [0..<length ranks]"

lemma all_reduce_sum_total:
  assumes "i < length ranks" "contribution cap (ranks ! i) name = x"
  shows "all_reduce_sum cap ranks i name x = sum_list (map (\<lambda>r. contribution cap r name) ranks)"
proof -
  have "ranks = take i ranks @ ranks ! i # drop (Suc i) ranks" by (rule id_take_nth_drop [OF assms(1)])
  then have "map (\<lambda>r. contribution cap r name) ranks = map (\<lambda>r. contribution cap r name) (take i ranks @ ranks ! i # drop (Suc i) ranks)" by (rule arg_cong)
  then show ?thesis using assms(2) by (simp add: all_reduce_sum_def)
qed

text \<open>A step returns when every rank does, and its losses are those of the ranks.\<close>

lemma training_step_losses:
  assumes "\<And>i. i < length ranks \<Longrightarrow>
      \<exists>ls. rank_step others config lc g cap (all_reduce_sum cap ranks i) (real (length ranks)) (ranks ! i) = Inr ls \<and> sum_list ls = S (ranks ! i)"
  shows "\<exists>losses. training_step others config lc g cap ranks = Inr losses \<and> sum_list (map sum_list losses) = sum_list (map S ranks)"
proof -
  obtain F where F: "\<And>i. i < length ranks \<Longrightarrow> rank_step others config lc g cap (all_reduce_sum cap ranks i) (real (length ranks)) (ranks ! i) = Inr (F i)"
    "\<And>i. i < length ranks \<Longrightarrow> sum_list (F i) = S (ranks ! i)" using assms by metis
  have "training_step others config lc g cap ranks = Inr (map F [0..<length ranks])"
    unfolding training_step_def by (rule rmap_Inr) (simp add: F(1))
  moreover have "map sum_list (map F [0..<length ranks]) = map S ranks" by (rule nth_equalityI) (simp_all add: F(2))
  ultimately show ?thesis by auto
qed

section \<open>The counted blocks are the trained blocks\<close>

subsection \<open>Blocks of the position plan\<close>

definition trains :: "bool \<Rightarrow> by_anchor \<Rightarrow> int \<times> int \<Rightarrow> bool" where
  "trains ft rejected block \<longleftrightarrow> selected_offsets_of ft (get_offsets rejected (fst block)) (snd block) \<noteq> []"

lemma tv_anchor_blocks:
  "tv_anchor bs ft rejected valid s (b, j, keep, a, seg) = Inr s' \<Longrightarrow>
    st_blocks s' = st_blocks s + (if keep \<and> trains ft (rejected b) (a, seg) then 1 else 0)"
  by (auto simp: tv_anchor_def trains_def Let_def rbind_eq_Inr split: if_splits)

lemma tv_anchors_blocks:
  "rfold (tv_anchor bs ft rejected valid) s items = Inr s' \<Longrightarrow>
    st_blocks s' = st_blocks s + length (filter (\<lambda>(b, j, keep, a, seg). keep \<and> trains ft (rejected b) (a, seg)) items)"
proof (induction items arbitrary: s)
  case (Cons x items)
  obtain b j keep a seg where x: "x = (b, j, keep, a, seg)" by (metis surj_pair)
  obtain s1 where "tv_anchor bs ft rejected valid s x = Inr s1" "rfold (tv_anchor bs ft rejected valid) s1 items = Inr s'"
    using Cons.prems by (auto simp: rbind_eq_Inr)
  then show ?case using tv_anchor_blocks [of bs ft rejected valid s b j keep a seg s1] Cons.IH [of s1] by (simp add: x)
qed simp

lemma filter_select_zip:
  assumes "length k = n" "length a = n" "length s = n"
  shows "length (filter (\<lambda>j. k ! j \<and> Q (a ! j, s ! j)) [0..<n]) = length (filter Q (select k (zip a s)))"
proof -
  have "zip k (zip a s) = map (\<lambda>j. (k ! j, a ! j, s ! j)) [0..<n]" using assms by (intro nth_equalityI) auto
  then show ?thesis by (simp add: select_def filter_map comp_def conj_commute)
qed

lemma length_filter_concat: "length (filter P (concat (map f xs))) = sum_list (map (\<lambda>x. length (filter P (f x))) xs)"
  by (induction xs) simp_all

lemma plan_anchors_count:
  assumes "\<forall>b<length A. length (K ! b) = length (A ! b) \<and> length (S ! b) = length (A ! b)"
  shows "length (filter (\<lambda>(b, j, keep, a, seg). keep \<and> Q b (a, seg)) (plan_anchors A S K))
    = sum_list (map (\<lambda>b. length (filter (Q b) (select (K ! b) (zip (A ! b) (S ! b))))) [0..<length A])"
proof -
  have "length (filter (\<lambda>(b, j, keep, a, seg). keep \<and> Q b (a, seg)) (map (\<lambda>j. (b, j, K ! b ! j, A ! b ! j, S ! b ! j)) [0..<length (A ! b)]))
      = length (filter (Q b) (select (K ! b) (zip (A ! b) (S ! b))))" if "b < length A" for b
    using filter_select_zip [of "K ! b" "length (A ! b)" "A ! b" "S ! b" "Q b"] assms that by (simp add: filter_map comp_def)
  then show ?thesis unfolding plan_anchors_def length_filter_concat by (intro arg_cong [where f = sum_list] map_cong) simp_all
qed

subsection \<open>Anchors of rejected drafts\<close>

definition masked_anchors :: "int \<Rightarrow> (bool \<times> int \<times> int \<times> int) list \<Rightarrow> int set" where
  "masked_anchors p items = {full_anchor_of p a | off tok a. (True, off, tok, a) \<in> set items}"

lemma masked_anchors_simps:
  "masked_anchors p [] = {}"
  "masked_anchors p ((m, off, tok, a) # items) = (if m then insert (full_anchor_of p a) (masked_anchors p items) else masked_anchors p items)"
  by (auto simp: masked_anchors_def)

lemma add_rejected_keys:
  assumes "add_rejected bs p v m (msk, off, tok, a) = Inr m'" "\<forall>(k, o')\<in>set m. o' \<noteq> []"
  shows "fst ` set m' = fst ` set m \<union> (if msk then {full_anchor_of p a} else {}) \<and> (\<forall>(k, o')\<in>set m'. o' \<noteq> [])
    \<and> (msk \<longrightarrow> 0 \<le> full_anchor_of p a \<and> full_anchor_of p a < v \<and> 0 < off \<and> off < bs \<and> 0 \<le> tok)"
proof (cases msk)
  case True
  have m': "m' = AList.update (full_anchor_of p a) (AList.update off tok (get_offsets m (full_anchor_of p a))) m"
    and g: "0 \<le> full_anchor_of p a" "full_anchor_of p a < v" "0 < off" "off < bs" "0 \<le> tok"
    using assms(1) True by (auto simp: add_rejected_def Let_def split: if_splits option.splits)
  have ne: "AList.update off tok (get_offsets m (full_anchor_of p a)) \<noteq> []" by (simp add: AList.update_nonempty)
  have upd: "set (AList.update k w al) \<subseteq> insert (k, w) (set al)" for k :: int and w :: by_offset and al by (induction al) auto
  have ne': "o' \<noteq> []" if "(k, o') \<in> set m'" for k o'
  proof -
    from that have "(k, o') \<in> insert (full_anchor_of p a, AList.update off tok (get_offsets m (full_anchor_of p a))) (set m)"
      unfolding m' by (rule subsetD [OF upd])
    then show ?thesis
    proof (rule insertE)
      assume "(k, o') = (full_anchor_of p a, AList.update off tok (get_offsets m (full_anchor_of p a)))"
      then have "o' = AList.update off tok (get_offsets m (full_anchor_of p a))" by (rule Pair_inject)
      then show ?thesis using ne by (simp only: not_False_eq_True)
    next
      assume "(k, o') \<in> set m"
      then show ?thesis using bspec [OF assms(2)] by fast
    qed
  qed
  have "\<forall>(k, o')\<in>set m'. o' \<noteq> []" using ne' by fast
  then show ?thesis using True g by (simp add: m' dom_update insert_commute)
next
  case False
  then show ?thesis using assms by (auto simp: add_rejected_def)
qed

lemma rejected_keys:
  assumes "rfold (add_rejected bs p v) m items = Inr m'" "\<forall>(k, o')\<in>set m. o' \<noteq> []"
  shows "fst ` set m' = fst ` set m \<union> masked_anchors p items \<and> (\<forall>(k, o')\<in>set m'. o' \<noteq> [])
    \<and> (\<forall>off tok a. (True, off, tok, a) \<in> set items \<longrightarrow> full_anchor_of p a < v \<and> 0 < off \<and> off < bs \<and> 0 \<le> tok \<and> 0 \<le> full_anchor_of p a)"
  using assms
proof (induction items arbitrary: m)
  case (Cons x items)
  obtain msk off tok a where x: "x = (msk, off, tok, a)" by (metis surj_pair)
  obtain m1 where m1: "add_rejected bs p v m x = Inr m1" "rfold (add_rejected bs p v) m1 items = Inr m'" using Cons.prems by (auto simp: rbind_eq_Inr)
  note k = add_rejected_keys [OF m1(1) [unfolded x] Cons.prems(2)]
  have "\<forall>(k, o')\<in>set m1. o' \<noteq> []" using k by blast
  note ih = Cons.IH [OF m1(2) this]
  show ?case using k ih by (auto simp: x masked_anchors_simps split: if_splits)
qed (simp add: masked_anchors_simps)

lemma get_offsets_nonempty: "\<forall>(k, o')\<in>set m. o' \<noteq> [] \<Longrightarrow> a \<in> fst ` set m \<Longrightarrow> get_offsets m a \<noteq> []"
  by (cases "map_of m a") (auto simp: get_offsets_def map_of_eq_None_iff dest: map_of_SomeD)

lemma added_anchors:
  "fst ` set (fold (add_rejected_anchor L bs p n) items plan) = fst ` set plan
    \<union> {full_anchor_of p a | off a. (True, off, a) \<in> set items \<and> 0 < off \<and> off < bs \<and> 0 \<le> full_anchor_of p a \<and> full_anchor_of p a < min (p + n) L}"
proof (induction items arbitrary: plan)
  case (Cons x items)
  obtain m off a where x: "x = (m, off, a)" by (metis surj_pair)
  have "fst ` set (add_rejected_anchor L bs p n x plan) = fst ` set plan \<union>
      (if m \<and> 0 < off \<and> off < bs \<and> 0 \<le> full_anchor_of p a \<and> full_anchor_of p a < min (p + n) L then {full_anchor_of p a} else {})"
    by (auto simp: add_rejected_anchor_def x Let_def)
  then show ?case using Cons.IH [of "add_rejected_anchor L bs p n x plan"] by (auto simp: x)
qed auto

lemma added_blocks:
  assumes "\<And>off a. (True, off, a) \<in> set items \<Longrightarrow> full_anchor_of p a \<in> S"
  shows "set (fold (add_rejected_anchor L bs p n) items plan) \<subseteq> set plan \<union> S \<times> {0}"
  using assms
proof (induction items arbitrary: plan)
  case (Cons x items)
  obtain m off a where x: "x = (m, off, a)" by (metis surj_pair)
  have "m \<Longrightarrow> full_anchor_of p a \<in> S" using Cons.prems [of off a] by (simp add: x)
  then have "set (add_rejected_anchor L bs p n x plan) \<subseteq> set plan \<union> S \<times> {0}" by (auto simp: add_rejected_anchor_def x Let_def)
  moreover have "set (fold (add_rejected_anchor L bs p n) items (add_rejected_anchor L bs p n x plan))
      \<subseteq> set (add_rejected_anchor L bs p n x plan) \<union> S \<times> {0}"
    by (rule Cons.IH) (rule Cons.prems, rule list.set_intros(2))
  ultimately show ?case unfolding fold_simps by blast
qed simp

subsection \<open>Blocks of a sample\<close>

text \<open>What the plan accepts of the rows of a sample.\<close>

definition sample_rows_ok :: "int \<Rightarrow> int \<Rightarrow> int \<Rightarrow> (bool \<times> int \<times> int \<times> int) list \<Rightarrow> bool" where
  "sample_rows_ok p n bs items \<longleftrightarrow> (\<forall>off tok a. (True, off, tok, a) \<in> set items \<longrightarrow> -1 \<le> a \<and> a < n \<and> 0 < off \<and> off < bs \<and> 0 \<le> tok)"

lemma full_anchor_inj: "-1 \<le> a \<Longrightarrow> -1 \<le> b \<Longrightarrow> full_anchor_of p a = full_anchor_of p b \<Longrightarrow> a = b"
  by (auto simp: full_anchor_of_def split: if_splits)

lemma sample_blocks_set:
  assumes "opd_sample_plan random_of (tv_config bs) L ids b p n raw (Some (map (\<lambda>(m, off, tok, a). (m, off, a)) items)) = Inr sp"
    and "1 \<le> p" "p + n \<le> L" "2 \<le> bs" "sample_rows_ok p n bs items"
  shows "fst ` set (sp_blocks sp) = full_anchor_of p ` (fst ` set (zip (-1 # boundaries_of n raw) (boundaries_of n raw))) \<union> masked_anchors p items
    \<and> (\<forall>(a, l)\<in>set (sp_blocks sp). 0 < l \<or> a \<in> masked_anchors p items)"
proof -
  let ?ps = "zip (-1 # boundaries_of n raw) (boundaries_of n raw)" and ?it = "map (\<lambda>(m, off, tok, a). (m, off, a)) items"
  let ?segs = "map (\<lambda>(a, c). (a, min (c - a) (bs - 1))) ?ps"
  have "boundaries_of n raw = []" if "n \<le> 0" using boundaries_ok(2) [of n raw] that by (cases "boundaries_of n raw") auto
  then have ps: "anchor_pairs 1 n raw = ?ps" using anchors_boundaries_eq [of n raw] by (auto simp: anchor_pairs_def split: prod.splits if_splits)
  have ok: "pairs_ok n ?ps" using anchor_pairs_ok [of n 1 raw] ps by simp
  have segs: "response_segments L bs p ?ps = ?segs" using response_segments_exact [OF ok assms(2,3)] .
  have "\<forall>(a, l)\<in>set ?segs. -1 \<le> a \<and> a < n - 1" using ok by (fastforce simp: pairs_ok_def)
  then have resp: "place_segments L p ?segs = map (\<lambda>(a, l). (p + a, l)) ?segs" by (rule place_segments_exact [OF _ assms(2,3)])
  have sp: "sp_blocks sp = fold (add_rejected_anchor L bs p n) ?it (map (\<lambda>(a, l). (p + a, l)) ?segs)"
    using assms(1) unfolding opd_sample_plan_def Let_def tv_config_def opd_config.simps ps segs simp_thms if_False if_True rbind_Inr option.case resp
    by auto
  have r: "fst ` set (map (\<lambda>(a, l). (p + a, l)) ?segs) = full_anchor_of p ` (fst ` set ?ps)"
    using ok by (force simp: pairs_ok_def full_anchor_of_def image_iff split: if_splits)
  have j: "{full_anchor_of p a | off a. (True, off, a) \<in> set ?it \<and> 0 < off \<and> off < bs \<and> 0 \<le> full_anchor_of p a \<and> full_anchor_of p a < min (p + n) L}
      = masked_anchors p items"
  proof -
    have m: "(True, off, a) \<in> set ?it \<longleftrightarrow> (\<exists>tok. (True, off, tok, a) \<in> set items)" for off a by force
    have "0 \<le> full_anchor_of p a \<and> full_anchor_of p a < min (p + n) L \<and> 0 < off \<and> off < bs" if "(True, off, tok, a) \<in> set items" for off tok a
    proof -
      have "-1 \<le> a \<and> a < n \<and> 0 < off \<and> off < bs" using assms(5) that unfolding sample_rows_ok_def by blast
      then show ?thesis using assms(2,3) by (auto simp: full_anchor_of_def)
    qed
    then show ?thesis unfolding m masked_anchors_def by blast
  qed
  have pos: "\<forall>(a, l)\<in>set (map (\<lambda>(a, l). (p + a, l)) ?segs). 0 < l" using ok assms(4) by (auto simp: pairs_ok_def)
  have "set (sp_blocks sp) \<subseteq> set (map (\<lambda>(a, l). (p + a, l)) ?segs) \<union> masked_anchors p items \<times> {0}"
    unfolding sp by (rule added_blocks) (force simp: masked_anchors_def)
  then show ?thesis using pos unfolding sp added_anchors r j by blast
qed

text \<open>The count of the metadata of a sample and the plan of its blocks agree.\<close>

lemma block_anchors_set:
  assumes "sample_rows_ok p n bs items" "\<forall>f t a. (True, f, t, a) \<in> set items \<longleftrightarrow> (a, f, t) \<in> set its"
  shows "set (tv_block_anchors n raw its) = fst ` set (zip (-1 # boundaries_of n raw) (boundaries_of n raw)) \<union> fst ` set its"
proof -
  let ?ps = "zip (-1 # boundaries_of n raw) (boundaries_of n raw)"
  have "pairs_ok n ?ps" using zip_shifted_ok [OF boundaries_ok(1), of n raw "-1" n] boundaries_ok(2) [of n raw] by fastforce
  then have "filter (\<lambda>(a, c). a < c) ?ps = ?ps" by (intro filter_True) (auto simp: pairs_ok_def)
  moreover have "filter (\<lambda>(a, f, t). 0 \<le> t \<and> 0 < f \<and> -1 \<le> a \<and> a < n) its = its"
  proof (rule filter_True, rule ballI)
    fix x assume x: "x \<in> set its"
    obtain a f t where e: "x = (a, f, t)" by (metis surj_pair)
    then have "(True, f, t, a) \<in> set items" using x assms(2) by blast
    then show "(\<lambda>(a, f, t). 0 \<le> t \<and> 0 < f \<and> -1 \<le> a \<and> a < n) x" using assms(1) unfolding sample_rows_ok_def e by auto
  qed
  ultimately show ?thesis unfolding tv_block_anchors_def Let_def boundaries_of_def [unfolded Let_def, symmetric] by simp
qed

lemma sample_block_count:
  assumes "opd_sample_plan random_of (tv_config bs) L ids b p n raw (Some (map (\<lambda>(m, off, tok, a). (m, off, a)) items)) = Inr sp"
    and "1 \<le> p" "p + n \<le> L" "2 \<le> bs" "sample_rows_ok p n bs items"
    and "\<forall>f t a. (True, f, t, a) \<in> set items \<longleftrightarrow> (a, f, t) \<in> set its" "distinct (map fst (sp_blocks sp))"
  shows "length (sp_blocks sp) = length (tv_block_anchors n raw its)"
proof -
  let ?A = "set (tv_block_anchors n raw its)"
  have ge: "\<forall>a\<in>?A. -1 \<le> a"
  proof -
    have "\<forall>(a, f, t)\<in>set its. -1 \<le> a" using assms(5,6) unfolding sample_rows_ok_def by blast
    moreover have "\<forall>(a, c)\<in>set (zip (-1 # boundaries_of n raw) (boundaries_of n raw)). -1 \<le> a"
      using boundaries_ok(2) [of n raw] by (fastforce dest!: set_zip_leftD)
    ultimately show ?thesis unfolding block_anchors_set [OF assms(5,6)] by auto
  qed
  have "masked_anchors p items = full_anchor_of p ` fst ` set its"
    unfolding masked_anchors_def using assms(6) by force
  then have "fst ` set (sp_blocks sp) = full_anchor_of p ` ?A"
    using sample_blocks_set [OF assms(1-5)] unfolding block_anchors_set [OF assms(5,6)] image_Un by simp
  moreover have "inj_on (full_anchor_of p) ?A" using ge full_anchor_inj by (intro inj_onI) blast
  ultimately have "card (fst ` set (sp_blocks sp)) = card ?A" by (simp add: card_image)
  moreover have "card (fst ` set (sp_blocks sp)) = length (sp_blocks sp)" using distinct_card [OF assms(7)] by simp
  moreover have "card ?A = length (tv_block_anchors n raw its)" by (rule distinct_card) (simp add: tv_block_anchors_def Let_def)
  ultimately show ?thesis by simp
qed

lemma selected_nonempty: "offs \<noteq> [] \<or> 0 < l \<Longrightarrow> selected_offsets_of ft offs l \<noteq> []"
  by (cases "sort (map fst offs)") (auto simp: selected_offsets_of_def Let_def dest!: arg_cong [of _ "[]" length])

lemma sample_blocks_train:
  assumes "opd_sample_plan random_of (tv_config bs) L ids b p n raw (Some (map (\<lambda>(m, off, tok, a). (m, off, a)) items)) = Inr sp"
    and "1 \<le> p" "p + n \<le> L" "2 \<le> bs" "sample_rows_ok p n bs items" "rfold (add_rejected bs p v) [] items = Inr m"
  shows "filter (trains ft m) (sp_blocks sp) = sp_blocks sp"
proof (rule filter_True, rule ballI)
  fix x assume x: "x \<in> set (sp_blocks sp)"
  have k: "fst ` set m = masked_anchors p items" "\<forall>(k, o')\<in>set m. o' \<noteq> []" using rejected_keys [OF assms(6)] by auto
  have "0 < snd x \<or> fst x \<in> masked_anchors p items" using sample_blocks_set [OF assms(1-5)] x by (cases x) auto
  then have "get_offsets m (fst x) \<noteq> [] \<or> 0 < snd x" using get_offsets_nonempty [OF k(2)] unfolding k(1) by blast
  then show "trains ft m x" unfolding trains_def by (rule selected_nonempty)
qed

subsection \<open>Blocks of a batch\<close>

lemma rows_project:
  "length ms = length fs \<Longrightarrow> length fs = length ts \<Longrightarrow> length ts = length as \<Longrightarrow>
    zip ms (zip fs as) = map (\<lambda>(m, off, tok, a). (m, off, a)) (zip ms (zip fs (zip ts as)))"
  by (induction ms fs ts as rule: list_induct4) simp_all

lemma padded_items:
  assumes "length fs = length as" "length ts = length as"
  shows "zip (pad_to w False (map (\<lambda>_. True) as)) (zip (pad_to w x fs) (zip (pad_to w y ts) (pad_to w z as)))
    = zip (map (\<lambda>_. True) as) (zip fs (zip ts as)) @ replicate (w - length as) (False, x, y, z)"
  using assms by (simp add: pad_to_def zip_replicate)

lemma padded_items_set:
  assumes "length fs = length as" "length ts = length as"
  shows "(True, f, t, a) \<in> set (zip (pad_to w False (map (\<lambda>_. True) as)) (zip (pad_to w x fs) (zip (pad_to w y ts) (pad_to w z as))))
    \<longleftrightarrow> (a, f, t) \<in> set (zip as (zip fs ts))"
proof -
  have "(True, f, t, a) \<in> set (zip (map (\<lambda>_. True) as) (zip fs (zip ts as))) \<longleftrightarrow> (a, f, t) \<in> set (zip as (zip fs ts))"
    using assms(1) [symmetric] trans [OF assms(1) assms(2) [symmetric]] by (induction as fs ts rule: list_induct3) auto
  then show ?thesis unfolding padded_items [OF assms] by auto
qed

lemma tensor_rows:
  assumes "same_lengths A F" "same_lengths A T" "b < length A"
  shows "rejected_rows (rejected_tensors A F T P) b = Some (map (\<lambda>(m, off, tok, a). (m, off, a)) (tv_rejected_items (rejected_tensors A F T P) b))"
    "(True, f, t, a) \<in> set (tv_rejected_items (rejected_tensors A F T P) b) \<longleftrightarrow> (a, f, t) \<in> set (zip (A ! b) (zip (F ! b) (T ! b)))"
    "length (F ! b) = length (A ! b)" "length (T ! b) = length (A ! b)" "length F = length A" "length T = length A"
proof -
  show n: "length F = length A" "length T = length A" using assms(1,2) unfolding same_lengths_def by (metis length_map)+
  show l: "length (F ! b) = length (A ! b)" "length (T ! b) = length (A ! b)"
    using arg_cong [OF assms(1) [unfolded same_lengths_def], of "\<lambda>xs. xs ! b"] arg_cong [OF assms(2) [unfolded same_lengths_def], of "\<lambda>xs. xs ! b"]
      assms(3) n by simp_all
  show "rejected_rows (rejected_tensors A F T P) b = Some (map (\<lambda>(m, off, tok, a). (m, off, a)) (tv_rejected_items (rejected_tensors A F T P) b))"
    unfolding rejected_rows_def tv_rejected_items_def using assms(3) n l
    by (simp add: rejected_tensors_def Let_def pad_rows_def) (rule rows_project, simp_all add: pad_to_def)
  show "(True, f, t, a) \<in> set (tv_rejected_items (rejected_tensors A F T P) b) \<longleftrightarrow> (a, f, t) \<in> set (zip (A ! b) (zip (F ! b) (T ! b)))"
    unfolding tv_rejected_items_def using assms(3) n padded_items_set [OF l]
    by (simp add: rejected_tensors_def Let_def pad_rows_def)
qed

lemma tv_plan_of_config:
  "build_opd_anchor_plan random_of (tv_config bs) ids am ps rs rejects rej = build_opd_anchor_plan fixed_rng (tv_config bs) ids am ps rs rejects rej"
  by (simp add: build_opd_anchor_plan_def opd_sample_plan_def tv_config_def)

lemma assembled_segs_ok:
  assumes "\<forall>s\<in>set samples. \<forall>(a, l)\<in>set (sp_blocks s). l \<le> bs - 1" "1 \<le> bs"
  shows "segs_ok bs (anchor_positions (assemble_plan v samples)) (segment_lens (assemble_plan v samples))"
proof -
  have "x \<le> bs - 1" if "s \<in> set samples" "x \<in> set (pad_to w 0 (map snd (sp_blocks s)))" for s x w
    using that assms by (fastforce simp: pad_to_def)
  then show ?thesis by (auto simp: segs_ok_def assemble_plan_def Let_def in_set_conv_nth)
qed

lemma assembled_lengths:
  assumes "b < length samples"
  shows "length (block_keep_mask (assemble_plan v samples) ! b) = length (anchor_positions (assemble_plan v samples) ! b)
    \<and> length (segment_lens (assemble_plan v samples) ! b) = length (anchor_positions (assemble_plan v samples) ! b)"
  using assms by (simp add: assemble_plan_def Let_def pad_to_def)

text \<open>The number of blocks of the position plan is the number of blocks of the samples, once every block trains.\<close>

lemma plan_block_count:
  assumes "build_tv_position_plan ps (anchor_positions plan) (segment_lens plan) (block_keep_mask plan) (valid_seq_lens plan) bs rej ft = Inr tv"
    and "plan = assemble_plan v samples" "length ps = length samples" "\<forall>s\<in>set samples. \<forall>(a, l)\<in>set (sp_blocks s). l \<le> bs - 1" "1 \<le> bs"
    and "\<And>b. b < length samples \<Longrightarrow> filter (trains ft (tv_rejected ps v bs rej b)) (sp_blocks (samples ! b)) = sp_blocks (samples ! b)"
  shows "tv_block_count tv = sum_list (map (length \<circ> sp_blocks) samples)"
proof -
  let ?R = "tv_rejected ps v bs rej" and ?A = "anchor_positions plan" and ?S = "segment_lens plan" and ?K = "block_keep_mask plan"
  have v: "valid_seq_lens plan = v" and n: "length ?A = length samples" by (simp_all add: assms(2) assemble_plan_def Let_def)
  have sg: "segs_ok bs ?A ?S" unfolding assms(2) by (rule assembled_segs_ok [OF assms(4,5)])
  have lp: "length ps = length ?A" using assms(3) n by simp
  obtain s where s: "rfold (tv_anchor bs ft ?R (\<lambda>b. v ! b)) \<lparr>st_positions = [], st_branches = [], st_seen = [], st_blocks = 0\<rparr> (plan_anchors ?A ?S ?K) = Inr s"
    "tv = \<lparr>tv_positions = st_positions s, tv_branches = st_branches s, tv_block_count = st_blocks s\<rparr>"
    by (rule tv_plan_state [OF assms(1) lp sg, unfolded v])
  have "tv_block_count tv = length (filter (\<lambda>(b, j, keep, a, seg). keep \<and> trains ft (?R b) (a, seg)) (plan_anchors ?A ?S ?K))"
    using tv_anchors_blocks [OF s(1)] s(2) by simp
  also have "\<dots> = sum_list (map (\<lambda>b. length (filter (trains ft (?R b)) (kept_blocks plan b))) [0..<length samples])"
    unfolding kept_blocks_def n [symmetric]
    by (rule plan_anchors_count [of ?A ?K ?S "\<lambda>b. trains ft (?R b)"]) (use n assembled_lengths in \<open>auto simp: assms(2)\<close>)
  also have "\<dots> = sum_list (map (\<lambda>b. length (sp_blocks (samples ! b))) [0..<length samples])"
    using assms(6) by (intro arg_cong [where f = sum_list] map_cong) (simp_all add: assms(2) kept_blocks_assemble)
  also have "map (\<lambda>b. length (sp_blocks (samples ! b))) [0..<length samples] = map (length \<circ> sp_blocks) samples"
    by (intro nth_equalityI) simp_all
  finally show ?thesis .
qed

lemma tv_rows_valid:
  assumes "build_tv_position_plan ps anchors segs keep v bs rej ft = Inr tv" "b < length ps"
  shows "rfold (add_rejected bs (ps ! b) (v ! b)) [] (tv_rejected_items rej b) = Inr (tv_rejected ps v bs rej b)"
proof -
  from assms(1) obtain rejected where
    "rmap (\<lambda>b. rfold (add_rejected bs (ps ! b) (v ! b)) [] (tv_rejected_items rej b)) [0..<length ps] = Inr rejected"
    unfolding build_tv_position_plan_def by (auto simp: rbind_eq_Inr)
  from rmap_nth [OF this, of b] show ?thesis using assms(2) by (simp add: tv_rejected_def)
qed

lemma tv_rows_ok:
  assumes "rfold (add_rejected bs p (p + n)) [] items = Inr m" "\<And>f t a. (True, f, t, a) \<in> set items \<Longrightarrow> -1 \<le> a"
  shows "sample_rows_ok p n bs items"
proof -
  have "-1 \<le> a \<and> a < n \<and> 0 < off \<and> off < bs \<and> 0 \<le> tok" if "(True, off, tok, a) \<in> set items" for off tok a
  proof -
    have "full_anchor_of p a < p + n \<and> 0 < off \<and> off < bs \<and> 0 \<le> tok" using rejected_keys [OF assms(1)] that by auto
    then show ?thesis using assms(2) [OF that] by (auto simp: full_anchor_of_def split: if_splits)
  qed
  then show ?thesis unfolding sample_rows_ok_def by blast
qed

definition batch_lengths_ok :: "int list list \<Rightarrow> int list list option \<Rightarrow> int list \<Rightarrow> int list \<Rightarrow> bool" where
  "batch_lengths_ok input_ids am ps rs \<longleftrightarrow> length ps = length input_ids \<and> length rs = length input_ids
     \<and> list_all (\<lambda>b. 1 \<le> ps ! b \<and> ps ! b + rs ! b = valid_seq_lens_of am input_ids ! b \<and> ps ! b + rs ! b \<le> seq_len_of input_ids)
         [0..<length input_ids]"

lemma planned_blocks_counted:
  assumes "build_opd_anchor_plan random_of (tv_config bs) ids am ps rs rejects rej = Inr plan"
    and "build_tv_position_plan ps (anchor_positions plan) (segment_lens plan) (block_keep_mask plan) (valid_seq_lens plan) bs rej ft = Inr tv"
    and "rej = rejected_tensors A F T P" "same_lengths A F" "same_lengths A T" "length A = length ids" "\<forall>r\<in>set A. \<forall>a\<in>set r. -1 \<le> a"
    and "2 \<le> bs" "batch_lengths_ok ids am ps rs"
  shows "tv_block_count tv = sum_list (map (\<lambda>b. length (tv_block_anchors (rs ! b) (rejects ! b) (zip (A ! b) (zip (F ! b) (T ! b))))) [0..<length ids])"
proof -
  let ?v = "valid_seq_lens_of am ids" and ?L = "seq_len_of ids" and ?it = "tv_rejected_items rej"
  have cfg: "draft_block_size (tv_config bs) = bs" by (simp add: tv_config_def)
  obtain samples where plan: "plan = assemble_plan ?v samples" and n: "length samples = length ids"
    and each: "\<And>b. b < length ids \<Longrightarrow> opd_sample_plan fixed_rng (tv_config bs) ?L (ids ! b) b (ps ! b) (rs ! b) (rejects ! b) (rejected_rows rej b) = Inr (samples ! b)
        \<and> sample_ok ?L bs (ps ! b) (rs ! b) (sp_response_count (samples ! b)) (sp_blocks (samples ! b))"
    using build_opd_anchor_plan_ok [OF fixed_rng_ok, of "tv_config bs" ids am ps rs rejects rej] assms(1,8)
    unfolding tv_plan_of_config [of random_of] cfg by auto
  have v: "valid_seq_lens plan = ?v" by (simp add: plan assemble_plan_def Let_def)
  note tv = assms(2) [unfolded v]
  have lens: "length ps = length ids" "length rs = length ids"
    and len: "\<And>b. b < length ids \<Longrightarrow> 1 \<le> ps ! b \<and> ?v ! b = ps ! b + rs ! b \<and> ps ! b + rs ! b \<le> ?L"
    using assms(9) unfolding batch_lengths_ok_def list_all_iff set_upt by (blast, blast, metis atLeastLessThan_iff zero_le)
  have row: "rfold (add_rejected bs (ps ! b) (?v ! b)) [] (?it b) = Inr (tv_rejected ps ?v bs rej b)
      \<and> sample_rows_ok (ps ! b) (rs ! b) bs (?it b)" if b: "b < length ids" for b
  proof -
    have f: "rfold (add_rejected bs (ps ! b) (?v ! b)) [] (?it b) = Inr (tv_rejected ps ?v bs rej b)"
      by (rule tv_rows_valid [OF tv]) (use b lens in simp)
    have "-1 \<le> a" if "(True, f, t, a) \<in> set (?it b)" for f t a
    proof -
      have "(a, f, t) \<in> set (zip (A ! b) (zip (F ! b) (T ! b)))"
        using that tensor_rows(2) [OF assms(4,5), of b f t a P] assms(3,6) b by simp
      then have "a \<in> set (A ! b)" by (rule set_zip_leftD)
      moreover have "A ! b \<in> set A" using assms(6) b by simp
      ultimately show ?thesis using assms(7) by blast
    qed
    then show ?thesis using f tv_rows_ok [of bs "ps ! b" "rs ! b" "?it b"] len [OF b] by auto
  qed
  have plan_row: "opd_sample_plan fixed_rng (tv_config bs) ?L (ids ! b) b (ps ! b) (rs ! b) (rejects ! b)
      (Some (map (\<lambda>(m, off, tok, a). (m, off, a)) (?it b))) = Inr (samples ! b)" if "b < length ids" for b
    using each [OF that] tensor_rows(1) [OF assms(4,5), of b P] assms(3,6) that by simp
  have small: "\<forall>s\<in>set samples. \<forall>(a, l)\<in>set (sp_blocks s). l \<le> bs - 1"
  proof (rule ballI, clarify)
    fix s a l assume "s \<in> set samples" and x: "(a, l) \<in> set (sp_blocks s)"
    then obtain k where k: "sample_ok ?L bs (ps ! k) (rs ! k) (sp_response_count s) (sp_blocks s)" using each n by (metis in_set_conv_nth)
    have "(a, l) \<in> set (take (sp_response_count s) (sp_blocks s)) \<union> set (drop (sp_response_count s) (sp_blocks s))"
      using x by (simp flip: set_append)
    then show "l \<le> bs - 1" using k assms(8) by (auto simp: sample_ok_def blocks_ok_def)
  qed
  have train: "filter (trains ft (tv_rejected ps ?v bs rej b)) (sp_blocks (samples ! b)) = sp_blocks (samples ! b)" if "b < length samples" for b
  proof -
    have b: "b < length ids" using that n by simp
    show ?thesis by (rule sample_blocks_train [OF plan_row [OF b] _ _ assms(8) conjunct2 [OF row [OF b]] conjunct1 [OF row [OF b]]]) (use len [OF b] in blast)+
  qed
  have cnt: "length (sp_blocks (samples ! b)) = length (tv_block_anchors (rs ! b) (rejects ! b) (zip (A ! b) (zip (F ! b) (T ! b))))" if b: "b < length ids" for b
  proof (rule sample_block_count [OF plan_row [OF b] _ _ assms(8)])
    show "\<forall>f t a. (True, f, t, a) \<in> set (?it b) \<longleftrightarrow> (a, f, t) \<in> set (zip (A ! b) (zip (F ! b) (T ! b)))"
      using tensor_rows(2) [OF assms(4,5), of b _ _ _ P] assms(3,6) b by simp
    show "distinct (map fst (sp_blocks (samples ! b)))" using each [OF b] by (simp add: sample_ok_def)
  qed (use row [OF b] len [OF b] in simp_all)
  have "tv_block_count tv = sum_list (map (length \<circ> sp_blocks) samples)"
    by (rule plan_block_count [OF assms(2) plan _ small _ train]) (use n lens assms(8) in simp_all)
  also have "map (length \<circ> sp_blocks) samples = map (\<lambda>b. length (sp_blocks (samples ! b))) [0..<length ids]"
    by (intro nth_equalityI) (simp_all add: n)
  also have "\<dots> = map (\<lambda>b. length (tv_block_anchors (rs ! b) (rejects ! b) (zip (A ! b) (zip (F ! b) (T ! b))))) [0..<length ids]"
    using cnt by simp
  finally show ?thesis .
qed

lemma rmap_nonempty: "rmap f xs = Inr ys \<Longrightarrow> xs \<noteq> [] \<Longrightarrow> 0 < length ys"
  using rmap_length [of f xs ys] by simp

lemma tv_anchor_positions:
  assumes "tv_anchor bs ft rejected valid s x = Inr s'" "st_blocks s \<le> length (st_positions s)"
  shows "st_blocks s' \<le> length (st_positions s')"
proof -
  obtain b j keep a seg where x: "x = (b, j, keep, a, seg)" by (metis surj_pair)
  show ?thesis using assms unfolding x
    by (auto simp: tv_anchor_def Let_def rbind_eq_Inr split: if_splits) (drule (1) rmap_nonempty, linarith)
qed

lemma tv_plan_empty:
  assumes "build_tv_position_plan ps anchors segs keep v bs rej ft = Inr tv" "tv_positions tv = []"
  shows "tv_block_count tv = 0"
proof -
  have r: "st_blocks s' \<le> length (st_positions s')"
    if "rfold (tv_anchor bs ft rejected valid) s items = Inr s'" "st_blocks s \<le> length (st_positions s)" for rejected valid s s' items
    using that by (induction items arbitrary: s) (auto simp: rbind_eq_Inr dest: tv_anchor_positions)
  show ?thesis using assms unfolding build_tv_position_plan_def by (auto simp: rbind_eq_Inr dest!: r)
qed

lemma filter_zip_True: "length (filter fst (zip (map (\<lambda>_. True) xs) (map f xs))) = length xs"
  by (induction xs) simp_all

lemma forward_tv_plan:
  assumes "forward_opd_tv random_of sd impl ids am pd ps rs rejects hidden rej ft rewards entropy bs chunk = Inr out"
  obtains plan tv where "build_opd_anchor_plan random_of (tv_config (int bs)) ids am ps rs rejects rej = Inr plan"
    "build_tv_position_plan ps (anchor_positions plan) (segment_lens plan) (block_keep_mask plan) (valid_seq_lens plan) (int bs) rej ft = Inr tv"
    "to_block_count out = tv_block_count tv" "to_block_count out = length (select (to_block_mask out) (to_block_losses out))"
proof -
  obtain plan tv where p: "build_opd_anchor_plan random_of (tv_config (int bs)) ids am ps rs rejects rej = Inr plan"
    "build_tv_position_plan ps (anchor_positions plan) (segment_lens plan) (block_keep_mask plan) (valid_seq_lens plan) (int bs) rej ft = Inr tv"
    using assms unfolding forward_opd_tv_def by (auto simp: rbind_eq_Inr)
  have "to_block_count out = tv_block_count tv"
    using assms tv_plan_empty [OF p(2)] unfolding forward_opd_tv_def p rbind_Inr
    by (auto simp: Let_def rbind_eq_Inr split: option.splits if_splits)
  moreover have "length (select (to_block_mask out) (to_block_losses out)) = to_block_count out"
    using assms unfolding forward_opd_tv_def p rbind_Inr
    by (auto simp: Let_def rbind_eq_Inr compute_e2e_tv_block_outputs_def select_def filter_zip_True split: option.splits if_splits dest!: rmap_length)
  ultimately show ?thesis using that p by metis
qed

text \<open>C8 The number of blocks counted from the metadata before the forward passes is the number of blocks the total variation
  pass of the composed student returns, for every batch whose prompts are not empty and whose rows hold a prompt and its
  response: the denominator of the loss counts exactly the blocks that contribute to it.\<close>

theorem counted_blocks_are_trained:
  assumes "forward_opd_tv random_of sd impl ids am pd ps rs rejects hidden rej ft rewards entropy bs chunk = Inr out"
    and "build_dflash_rejected_draft_tensors ra rf rt rp (length ids) first True = Inr rej"
    and "normalize_dflash_rejected_draft_values ra (length ids) = Inr anchors" "list_all (list_all (\<lambda>a. -1 \<le> a)) anchors"
    and "normalize_dflash_reject_indices rr (length ids) = Inr rejects" "length rejects = length ids"
    and "tv_response_lengths (length ids) mask_tensor responses = Inr rs" "batch_lengths_ok ids am ps rs" "2 \<le> bs"
  shows "count_dflash_tv_blocks (length ids) mask_tensor responses rr ra rf rt = Inr (to_block_count out)
    \<and> to_block_count out = length (select (to_block_mask out) (to_block_losses out))"
proof -
  obtain F T P where n: "normalize_dflash_rejected_draft_values rf (length ids) = Inr F" "normalize_dflash_rejected_draft_values rt (length ids) = Inr T"
    and rej: "rej = rejected_tensors anchors F T P" and sl: "same_lengths anchors F" "same_lengths anchors T" "length anchors = length ids"
    using assms(2,3) by (auto simp: build_dflash_rejected_draft_tensors_def rbind_eq_Inr require_def split: if_splits)
  obtain plan tv where p: "build_opd_anchor_plan random_of (tv_config (int bs)) ids am ps rs rejects rej = Inr plan"
    "build_tv_position_plan ps (anchor_positions plan) (segment_lens plan) (block_keep_mask plan) (valid_seq_lens plan) (int bs) rej ft = Inr tv"
    "to_block_count out = tv_block_count tv" "to_block_count out = length (select (to_block_mask out) (to_block_losses out))"
    by (rule forward_tv_plan [OF assms(1)])
  let ?c = "\<lambda>b. length (tv_block_anchors (rs ! b) (rejects ! b) (zip (anchors ! b) (zip (F ! b) (T ! b))))"
  have "tv_block_count tv = sum_list (map ?c [0..<length ids])"
    by (rule planned_blocks_counted [OF p(1,2) rej sl]) (use assms(4,8,9) in \<open>simp_all add: list_all_iff\<close>)
  moreover have "rmap (tv_sample_count rs rejects anchors F T) [0..<length ids] = Inr (map ?c [0..<length ids])"
  proof (rule rmap_Inr)
    fix b assume "b \<in> set [0..<length ids]"
    then have b: "b < length ids" by simp
    then show "tv_sample_count rs rejects anchors F T b = Inr (?c b)"
      using tensor_rows(3-6) [OF sl(1,2), of b] sl(3) assms(6,8) by (simp add: tv_sample_count_def nth_row_def batch_lengths_ok_def)
  qed
  moreover have "(if rejects = [] then replicate (length ids) [] else rejects) = rejects" using assms(6) by auto
  ultimately show ?thesis unfolding count_dflash_tv_blocks_def Let_def assms(3,5,7) n rbind_Inr using p(3,4) by simp
qed

definition example_student :: "unit student" where
  "example_student = \<lparr>sd_flex_available = True, sd_is_oom = (\<lambda>_. False), sd_draft = (\<lambda>_ _ _ _. Inr (replicate 1 (replicate 6 ()))),
     sd_mask_token = Some 0, sd_head = Some (\<lambda>_. [0]), sd_head_linear = True, sd_head_trainable = True, sd_main = (\<lambda>ids. Inr (map (\<lambda>_. ()) ids)), sd_trainable = True\<rparr>"

lemma example_plans:
  "build_dflash_rejected_draft_tensors (MList [MNum 1]) (MList [MNum 1]) (MList [MNum 8]) (MList [MNum 0]) 1 False True
    = Inr (rejected_tensors [[1]] [[1]] [[8]] [[0]])"
  "build_opd_anchor_plan fixed_rng (tv_config 3) [[5, 6, 7, 8, 9]] None [2] [3] [[1]] (rejected_tensors [[1]] [[1]] [[8]] [[0]])
    = Inr (assemble_plan [5] [\<lparr>sp_blocks = [(1, 2), (3, 1)], sp_response_count = 2, sp_reject_count = 1, sp_empty_reject = False, sp_skipped = False\<rparr>])"
  "build_tv_position_plan [2] [[1, 3]] [[2, 1]] [[True, True]] [5] 3 (rejected_tensors [[1]] [[1]] [[8]] [[0]]) False
    = Inr \<lparr>tv_positions = [\<lparr>tp_batch = 0, tp_draft = 1, tp_row = 1, tp_block = 0, tp_offset = 1\<rparr>,
        \<lparr>tp_batch = 0, tp_draft = 2, tp_row = 2, tp_block = 0, tp_offset = 2\<rparr>,
        \<lparr>tp_batch = 0, tp_draft = 4, tp_row = 3, tp_block = 1, tp_offset = 1\<rparr>], tv_branches = [], tv_block_count = 2\<rparr>"
  by code_simp+

lemma example_draft: "draft_forward example_student ''sdpa'' [[5, 6, 7, 8, 9]] [[1, 3]] [[True, True]] 3 = Inr ([replicate 6 ()], ''sdpa'')"
  by (simp add: draft_forward_def example_student_def run_dflash_draft_forward_def create_noise_ids_for_anchors_def Let_def)

lemma example_forward:
  "\<exists>out. forward_opd_tv fixed_rng example_student ''sdpa'' [[5, 6, 7, 8, 9]] None None [2] [3] [[1]] [replicate 5 ()]
     (rejected_tensors [[1]] [[1]] [[8]] [[0]]) False False False 3 4 = Inr out"
proof -
  have a: "anchor_positions (assemble_plan v [\<lparr>sp_blocks = [(1, 2), (3, 1)], sp_response_count = 2, sp_reject_count = 1, sp_empty_reject = False, sp_skipped = False\<rparr>]) = [[1, 3]]"
    "segment_lens (assemble_plan v [\<lparr>sp_blocks = [(1, 2), (3, 1)], sp_response_count = 2, sp_reject_count = 1, sp_empty_reject = False, sp_skipped = False\<rparr>]) = [[2, 1]]"
    "block_keep_mask (assemble_plan v [\<lparr>sp_blocks = [(1, 2), (3, 1)], sp_response_count = 2, sp_reject_count = 1, sp_empty_reject = False, sp_skipped = False\<rparr>]) = [[True, True]]"
    "valid_seq_lens (assemble_plan v [\<lparr>sp_blocks = [(1, 2), (3, 1)], sp_response_count = 2, sp_reject_count = 1, sp_empty_reject = False, sp_skipped = False\<rparr>]) = v" for v
    by (simp_all add: assemble_plan_def Let_def pad_to_def)
  have h: "sd_head example_student = Some (\<lambda>_. [0])" by (simp add: example_student_def)
  have c: "chunk_ranges (Suc (Suc (Suc 0))) 4 = [(0, 3)]" "[0..<2] = [0, 1 :: nat]" by code_simp+
  have tv: "compute_full_vocab_tv_from_hidden (sd_head_linear example_student) (sd_head_trainable example_student) (\<lambda>_. [0]) [(), (), ()] [(), (), ()] 4 = Inr [0, 0, 0]"
    by (simp add: compute_full_vocab_tv_from_hidden_def example_student_def chunked_def c(1) slice_def full_vocab_tv_distance_def softmax_def)
  have e: "\<exists>outs. compute_e2e_tv_block_outputs [0, 0, 0] [0, 0, 1] 2 = Inr outs"
    unfolding compute_e2e_tv_block_outputs_def c(2) by (simp add: e2e_block_def Let_def)
  have t: "compute_tv_teacher_branch_hidden main None ids [replicate 5 ()] \<lparr>tv_positions = [\<lparr>tp_batch = 0, tp_draft = 1, tp_row = 1, tp_block = 0, tp_offset = 1\<rparr>,
        \<lparr>tp_batch = 0, tp_draft = 2, tp_row = 2, tp_block = 0, tp_offset = 2\<rparr>,
        \<lparr>tp_batch = 0, tp_draft = 4, tp_row = 3, tp_block = 1, tp_offset = 1\<rparr>], tv_branches = [], tv_block_count = 2\<rparr> = Inr ([(), (), ()], 0)" for main ids
    by (simp add: compute_tv_teacher_branch_hidden_def hidden_at_def)
  show ?thesis unfolding forward_opd_tv_def of_nat_numeral example_plans rbind_Inr a h option.case Let_def example_draft t
    using tv e by (auto simp: hidden_at_def)
qed

theorem counted_blocks_are_trained_witness:
  "\<exists>out. forward_opd_tv fixed_rng example_student ''sdpa'' [[5, 6, 7, 8, 9]] None None [2] [3] [[1]] [replicate 5 ()]
     (rejected_tensors [[1]] [[1]] [[8]] [[0]]) False False False 3 4 = Inr out
    \<and> count_dflash_tv_blocks 1 (Some (Jagged [[1, 1, 1]])) None (MList [MNum 1]) (MList [MNum 1]) (MList [MNum 1]) (MList [MNum 8])
      = Inr (to_block_count out)"
proof -
  obtain out where f: "forward_opd_tv fixed_rng example_student ''sdpa'' [[5, 6, 7, 8, 9]] None None [2] [3] [[1]] [replicate 5 ()]
     (rejected_tensors [[1]] [[1]] [[8]] [[0]]) False False False 3 4 = Inr out" using example_forward by blast
  have n: "normalize_dflash_rejected_draft_values (MList [MNum 1]) 1 = Inr [[1 :: int]]" "normalize_dflash_reject_indices (MList [MNum 1]) 1 = Inr [[1]]"
    "tv_response_lengths 1 (Some (Jagged [[1, 1, 1]])) None = Inr [3]" "batch_lengths_ok [[5, 6, 7, 8, 9]] None [2] [3]" by code_simp+
  from counted_blocks_are_trained [OF f, of "MList [MNum 1]" "MList [MNum 1]" "MList [MNum 8]" "MList [MNum 0]" False "[[1]]" "MList [MNum 1]"
      "Some (Jagged [[1, 1, 1]])" None] f show ?thesis using n example_plans(1) by auto
qed

section \<open>The total variation loss of a step\<close>

lemma step_info_values:
  "info_get (step_info ar dp msk [(''opd_tv_global_block_count'', Some n)] info) ''opd_tv_global_block_count'' = Some n"
  "map_of (step_info ar dp msk [(''opd_tv_global_block_count'', Some n)] info) ''dp_size'' = Some (Some dp)"
  by (simp_all add: step_info_def info_get_def update_conv)

lemma batch_info_values:
  "info_get (ld_info d) ''opd_tv_global_block_count'' = Some n \<Longrightarrow>
    info_get (global_batch_info (set_batch_info config d)) ''opd_tv_global_block_count'' = Some n"
  "map_of (ld_info d) ''dp_size'' = Some (Some dp) \<Longrightarrow> map_of (global_batch_info (set_batch_info config d)) ''dp_size'' = Some (Some dp)"
  by (simp_all add: set_batch_info_def Let_def opd_info_keys_def update_conv info_get_def)

lemma step_loss_tv:
  assumes "use_tv_loss lc" "\<not> use_policy_gradient lc" "\<not> use_task_rewards lc" "tv_output_ok (fst mb)" "0 < n"
  shows "step_loss others config lc g (step_info ar dp msk [(''opd_tv_global_block_count'', Some n)] info) mb = Inr (sum_list (tv_blocks (fst mb)) / n * dp)"
proof -
  let ?info = "step_info ar dp msk [(''opd_tv_global_block_count'', Some n)] info"
  let ?config = "set_batch_info config ((snd mb)\<lparr>ld_info := ?info\<rparr>)"
  have "info_get (global_batch_info ?config) ''opd_tv_global_block_count'' = Some n" by (rule batch_info_values) (simp add: step_info_values)
  moreover have "map_of (global_batch_info ?config) ''dp_size'' = Some (Some dp)" by (rule batch_info_values) (simp add: step_info_values)
  ultimately obtain ms where "exact_tv_distillation_loss (global_batch_info ?config) lc (fst mb) g = Inr (sum_list (tv_blocks (fst mb)) / n * dp, ms)"
    using tv_loss_value [OF assms(4,2) _ assms(5)] by blast
  then show ?thesis using assms(1,3) by (simp add: step_loss_def distillation_ppo_loss_def distillation_loss_def Let_def)
qed

text \<open>The blocks of the outputs of a rank; a rank is consistent when the blocks it counts from the metadata are those its forward passes
  return, which is what the law above shows of the composed student.\<close>

definition rank_blocks :: "rank_data \<Rightarrow> real list" where
  "rank_blocks r = (case r of (_, _, _, mbs) \<Rightarrow> concat (map (tv_blocks \<circ> fst) mbs))"

definition rank_ok :: "rank_data \<Rightarrow> bool" where
  "rank_ok r \<longleftrightarrow> (case r of (sm, _, _, mbs) \<Rightarrow> sm_use_tv sm \<and> list_all (tv_output_ok \<circ> fst) mbs
     \<and> count_dflash_tv_blocks (sm_batch_size sm) (sm_response_mask sm) (sm_responses sm) (sm_rejects sm) (sm_anchors sm) (sm_offsets sm) (sm_token_ids sm)
       = Inr (length (rank_blocks r)))"

lemma rank_counts:
  assumes "rank_ok r" "r = (sm, msk, info, mbs)"
  shows "compute_extra_global_batch_info ar True True cap sm
      = Inr [(''opd_tv_global_block_count'', Some (ar ''opd_tv_global_block_count'' (real (length (rank_blocks r)))))]"
    and "contribution cap r ''opd_tv_global_block_count'' = real (length (rank_blocks r))"
proof -
  show ex: "compute_extra_global_batch_info ar True True cap sm
      = Inr [(''opd_tv_global_block_count'', Some (ar ''opd_tv_global_block_count'' (real (length (rank_blocks r)))))]" for ar
    using assms by (simp add: rank_ok_def compute_extra_global_batch_info_def)
  show "contribution cap r ''opd_tv_global_block_count'' = real (length (rank_blocks r))"
    using ex [of "\<lambda>_ x. x"] by (simp add: contribution_def assms(2) step_info_values or_else_def)
qed

lemma rank_step_losses:
  assumes "use_tv_loss lc" "\<not> use_policy_gradient lc" "\<not> use_task_rewards lc" "rank_ok r"
    and "all_reduce ''opd_tv_global_block_count'' (real (length (rank_blocks r))) = n" "0 < n"
  shows "\<exists>ls. rank_step others config lc g cap all_reduce dp r = Inr ls \<and> sum_list ls = sum_list (rank_blocks r) / n * dp"
proof -
  obtain sm msk info mbs where r: "r = (sm, msk, info, mbs)" by (cases r)
  have ok: "list_all (tv_output_ok \<circ> fst) mbs" using assms(4) by (auto simp: rank_ok_def r)
  have "compute_extra_global_batch_info all_reduce True True cap sm = Inr [(''opd_tv_global_block_count'', Some n)]"
    using rank_counts(1) [OF assms(4) r] by (simp add: assms(5))
  moreover have "rmap (step_loss others config lc g (step_info all_reduce dp msk [(''opd_tv_global_block_count'', Some n)] info)) mbs
      = Inr (map (\<lambda>mb. sum_list (tv_blocks (fst mb)) / n * dp) mbs)"
  proof (rule rmap_Inr, rule step_loss_tv [OF assms(1-3) _ assms(6)])
    show "tv_output_ok (fst mb)" if "mb \<in> set mbs" for mb using ok that by (simp add: list_all_iff)
  qed
  moreover have "sum_list (map (\<lambda>mb. sum_list (tv_blocks (fst mb)) / n * dp) mbs) = sum_list (rank_blocks r) / n * dp"
    unfolding rank_blocks_def r prod.case by (induction mbs) (simp_all add: add_divide_distrib distrib_right)
  ultimately show ?thesis by (simp add: rank_step_def r forward_backward_batch_def)
qed

text \<open>C6 A training step with the exact total variation loss on any number of ranks: when every rank counts as many blocks from its
  metadata as its forward passes return, and there is a block at all, the step returns, and the sum of the losses of all micro-batches
  of all ranks, divided by the number of ranks (gradients are averaged over the ranks), is the mean loss of the blocks of the whole
  step. The count every micro-batch is divided by is the sum of the values the ranks pass to the collective call.\<close>

theorem training_step_is_global_mean:
  assumes "use_tv_loss lc" "\<not> use_policy_gradient lc" "\<not> use_task_rewards lc" "list_all rank_ok ranks" "concat (map rank_blocks ranks) \<noteq> []"
  shows "\<exists>losses. training_step others config lc g cap ranks = Inr losses
    \<and> sum_list (map sum_list losses) / real (length ranks) = list_mean (concat (map rank_blocks ranks))"
proof -
  define n where "n = real (length (concat (map rank_blocks ranks)))"
  let ?dp = "real (length ranks)"
  have pos: "0 < n" using assms(5) unfolding n_def by (simp only: of_nat_0_less_iff length_greater_0_conv not_False_eq_True)
  have ok: "rank_ok r" if "r \<in> set ranks" for r using assms(4) that by (simp add: list_all_iff)
  have c: "contribution cap r ''opd_tv_global_block_count'' = real (length (rank_blocks r))" if "r \<in> set ranks" for r
    using rank_counts(2) [OF ok [OF that]] by (cases r) blast
  have "sum_list (map (\<lambda>r. contribution cap r ''opd_tv_global_block_count'') ranks) = sum_list (map (\<lambda>r. real (length (rank_blocks r))) ranks)"
    by (rule arg_cong [where f = sum_list]) (simp add: c)
  also have "\<dots> = n" unfolding n_def by (induction ranks) simp_all
  finally have total: "sum_list (map (\<lambda>r. contribution cap r ''opd_tv_global_block_count'') ranks) = n" .
  have "\<exists>losses. training_step others config lc g cap ranks = Inr losses
      \<and> sum_list (map sum_list losses) = sum_list (map (\<lambda>r. sum_list (rank_blocks r) / n * ?dp) ranks)"
  proof (rule training_step_losses)
    fix i assume i: "i < length ranks"
    then have "all_reduce_sum cap ranks i ''opd_tv_global_block_count'' (real (length (rank_blocks (ranks ! i)))) = n"
      using all_reduce_sum_total [OF i c] total by simp
    from rank_step_losses [where all_reduce = "all_reduce_sum cap ranks i" and r = "ranks ! i", OF assms(1-3) ok this pos] i show "\<exists>ls. rank_step others config lc g cap (all_reduce_sum cap ranks i) ?dp (ranks ! i) = Inr ls
        \<and> sum_list ls = sum_list (rank_blocks (ranks ! i)) / n * ?dp"
      by simp
  qed
  moreover have "sum_list (map (\<lambda>r. sum_list (rank_blocks r) / c * ?dp) rs) = sum_list (concat (map rank_blocks rs)) / c * ?dp" for c rs
    by (induction rs) (simp_all add: add_divide_distrib distrib_right)
  moreover have "?dp \<noteq> 0" using assms(5) by (cases ranks) auto
  ultimately show ?thesis unfolding list_mean_def n_def [symmetric] by auto
qed

section \<open>The supervised loss of a step\<close>

text \<open>The streams of a micro-batch with rejected draft tokens: the clamped losses of the response tokens with the effective mask, and the
  losses of the rejected tokens with their weights.\<close>

definition micro_streams :: "loss_config \<Rightarrow> model_output \<times> loss_data \<Rightarrow> (mat \<times> bool list list \<times> rejected_stream) res" where
  "micro_streams lc mb =
     rbind (run_loss_fn Reverse_kl_estimator lc (fst mb) (snd mb)) (\<lambda>(losses, _).
     rbind (get_effective_distillation_response_mask (snd mb) (fst mb)) (\<lambda>effective.
     rbind (get_rejected_draft_distillation_stream (fst mb)) (\<lambda>stream.
     rbind (required ValueError stream) (\<lambda>st.
     rbind (rejected_losses lc (fst mb) st []) (\<lambda>(rs, _). Inr (clamp_losses lc losses, effective, rs))))))"

definition streams_of :: "loss_config \<Rightarrow> model_output \<times> loss_data \<Rightarrow> mat \<times> bool list list \<times> rejected_stream" where
  "streams_of lc mb = projr (micro_streams lc mb)"

definition response_loss_sum :: "loss_config \<Rightarrow> model_output \<times> loss_data \<Rightarrow> real" where
  "response_loss_sum lc mb = (case streams_of lc mb of (losses, effective, _) \<Rightarrow> weighted_sum losses (mask_weights effective))"

definition rejected_loss_sum :: "loss_config \<Rightarrow> model_output \<times> loss_data \<Rightarrow> real" where
  "rejected_loss_sum lc mb = (case streams_of lc mb of (_, _, rs) \<Rightarrow> weighted_sum (rs_losses rs) (rs_weights rs))"

definition rejected_weight_sum :: "loss_config \<Rightarrow> model_output \<times> loss_data \<Rightarrow> real" where
  "rejected_weight_sum lc mb = (case streams_of lc mb of (_, _, rs) \<Rightarrow> mat_sum (rs_weights rs))"

lemma layout_info: "response_layout (d\<lparr>ld_info := i\<rparr>) = response_layout d"
  by (cases "ld_prompts d"; cases "ld_responses d") (simp_all add: response_layout_def)

lemma padding_info [simp]:
  "no_padding_2_padding z vs (d\<lparr>ld_info := i\<rparr>) = no_padding_2_padding z vs d"
  "padded_response_mask (d\<lparr>ld_info := i\<rparr>) = padded_response_mask d"
  by (simp_all only: no_padding_2_padding_def layout_info) (simp add: padded_response_mask_def)

lemma effective_info [simp]: "get_effective_distillation_response_mask (d\<lparr>ld_info := i\<rparr>) mo = get_effective_distillation_response_mask d mo"
  by (cases "mo_opd_loss_mask mo") (simp_all add: get_effective_distillation_response_mask_def)

lemma estimator_info [simp]: "run_loss_fn Reverse_kl_estimator lc mo (d\<lparr>ld_info := i\<rparr>) = run_loss_fn Reverse_kl_estimator lc mo d"
  by (cases "mo_opd_teacher_log_probs mo") (simp_all add: run_loss_fn_def compute_distillation_loss_reverse_kl_estimator_def)

lemma rejected_losses_metrics:
  "rejected_losses lc mo st [] = Inr (rs, m0) \<Longrightarrow> \<exists>m. rejected_losses lc mo st ms = Inr (rs, m)"
  by (auto simp: rejected_losses_def Let_def rbind_eq_Inr split: prod.splits)

lemma rejected_losses_decayed:
  "rejected_losses lc mo st ms = Inr (rs, m) \<Longrightarrow> \<not> rejected_decay_read lc \<Longrightarrow> \<not> rs_decayed rs"
  by (auto simp: rejected_losses_def build_rejected_draft_position_weights_def rejected_decay_read_def Let_def rbind_eq_Inr split: prod.splits if_splits)

text \<open>The loss of a micro-batch with rejected tokens, from its streams and the counts of the batch.\<close>

lemma supervised_value:
  assumes "\<not> use_tv_loss lc" "\<not> use_policy_gradient lc" "loss_mode lc \<in> set SCALAR_DISTILLATION_LOSSES" "\<not> accept_draft_position_decay_enabled lc"
    and "isl (micro_streams lc (mo, d)) = False" "info_get (global_batch_info config) ''batch_num_tokens'' = Some n"
    and "(case info_get (global_batch_info config) ''opd_rejected_draft_batch_effective_num_tokens'' of Some x \<Rightarrow> Some x
          | None \<Rightarrow> if rejected_decay_read lc then None else info_get (global_batch_info config) ''opd_rejected_draft_batch_num_tokens'') = Some m"
    and "map_of (global_batch_info config) ''dp_size'' = Some (Some dp)" "0 < response_stream_weight lc * n + rejected_draft_stream_weight lc * m"
  shows "\<exists>ms. distillation_loss config lc mo d g = Inr ((response_stream_weight lc * response_loss_sum lc (mo, d)
      + rejected_draft_stream_weight lc * rejected_loss_sum lc (mo, d)) / (response_stream_weight lc * n + rejected_draft_stream_weight lc * m) * dp, ms)"
proof -
  obtain losses m0 eff st rs m1 where run: "run_loss_fn Reverse_kl_estimator lc mo d = Inr (losses, m0)"
    and eff: "get_effective_distillation_response_mask d mo = Inr eff" and st: "get_rejected_draft_distillation_stream mo = Inr (Some st)"
    and rs: "rejected_losses lc mo st [] = Inr (rs, m1)"
  proof -
    obtain x where "micro_streams lc (mo, d) = Inr x" using assms(5) by (cases "micro_streams lc (mo, d)") simp_all
    then show thesis using that by (auto simp: micro_streams_def rbind_eq_Inr required_def split: option.splits)
  qed
  have so: "streams_of lc (mo, d) = (clamp_losses lc losses, eff, rs)" by (simp add: streams_of_def micro_streams_def run eff st rs required_def)
  have mode: "loss_mode lc \<noteq> ''forward_kl_topk''" using assms(3) by (auto simp: SCALAR_DISTILLATION_LOSSES_def)
  have wts: "build_response_position_weights lc d mo eff = Inr (mask_weights eff, False)" using assms(4) by (simp add: build_response_position_weights_def Let_def)
  have "\<exists>m. rejected_losses lc mo st ms = Inr (rs, m)" for ms by (rule rejected_losses_metrics [OF rs])
  then obtain M where M: "\<And>ms. rejected_losses lc mo st ms = Inr (rs, M ms)" by metis
  have "combined_denominator lc (global_batch_info config) g eff (mask_weights eff) False rs = response_stream_weight lc * n + rejected_draft_stream_weight lc * m"
    using assms(6,7) rejected_losses_decayed [OF rs] by (auto simp: combined_denominator_def Let_def or_else_def split: option.splits if_splits)
  then have "\<exists>ms. supervised_loss config lc g (clamp_losses lc losses) eff (mask_weights eff) False (Some rs) = Inr ((response_stream_weight lc * response_loss_sum lc (mo, d)
      + rejected_draft_stream_weight lc * rejected_loss_sum lc (mo, d)) / (response_stream_weight lc * n + rejected_draft_stream_weight lc * m) * dp, ms)"
    using assms(8,9) by (simp add: supervised_loss_def Let_def scaled_def dp_of_def required_def response_loss_sum_def rejected_loss_sum_def so)
  then show ?thesis
    unfolding distillation_loss_def Let_def st settings_scalar [OF assms(3), THEN conjunct1] rbind_Inr run eff wts prod.case option.case M
    using assms(1,2) mode by auto
qed

text \<open>A rank is consistent when its micro-batches have rejected tokens and defined streams, the flags of the batch are those of the loss, and what it counts
  of rejected tokens (or adds up of their weights, with a decay) from the metadata is the weight of the rejected tokens its forward passes return.\<close>

definition streams_rank_ok :: "loss_config \<Rightarrow> nat option \<Rightarrow> rank_data \<Rightarrow> bool" where
  "streams_rank_ok lc cap r \<longleftrightarrow> (case r of (sm, _, info, mbs) \<Rightarrow>
     \<not> sm_use_tv sm \<and> list_all (\<lambda>mb. \<not> isl (micro_streams lc mb)) mbs
     \<and> info_get info ''opd_rejected_draft_batch_effective_num_tokens'' = None
     \<and> (sm_decay_enabled sm \<and> \<not> sm_first_token_only sm \<and> sm_offsets sm \<noteq> MNone) = rejected_decay_read lc
     \<and> (case count_dflash_rejected_draft_tokens (sm_token_ids sm) (sm_batch_size sm) cap (sm_anchors sm) (sm_offsets sm) (sm_first_token_only sm) of
          Inl _ \<Rightarrow> False
        | Inr k \<Rightarrow> if rejected_decay_read lc
            then sum_dflash_rejected_draft_position_weights (sm_token_ids sm) (sm_offsets sm) (sm_batch_size sm) cap (sm_decay sm) (sm_anchors sm)
                   (sm_first_token_only sm) = Inr (sum_list (map (rejected_weight_sum lc) mbs))
            else real k = sum_list (map (rejected_weight_sum lc) mbs)))"

definition rejected_name :: "loss_config \<Rightarrow> string" where
  "rejected_name lc = (if rejected_decay_read lc then ''opd_rejected_draft_batch_effective_num_tokens'' else ''opd_rejected_draft_batch_num_tokens'')"

lemma streams_rank_info:
  assumes "streams_rank_ok lc cap (sm, msk, info, mbs)"
  shows "\<exists>ex. compute_extra_global_batch_info ar True True cap sm = Inr ex
    \<and> info_get (step_info ar dp msk ex info) ''batch_num_tokens'' = Some (ar ''batch_num_tokens'' (count_mask_mat msk))
    \<and> map_of (step_info ar dp msk ex info) ''dp_size'' = Some (Some dp)
    \<and> info_get (step_info ar dp msk ex info) (rejected_name lc) = Some (ar (rejected_name lc) (sum_list (map (rejected_weight_sum lc) mbs)))
    \<and> (\<not> rejected_decay_read lc \<longrightarrow> info_get (step_info ar dp msk ex info) ''opd_rejected_draft_batch_effective_num_tokens'' = None)"
proof -
  obtain k where k: "count_dflash_rejected_draft_tokens (sm_token_ids sm) (sm_batch_size sm) cap (sm_anchors sm) (sm_offsets sm) (sm_first_token_only sm) = Inr k"
    using assms by (auto simp: streams_rank_ok_def split: sum.splits)
  show ?thesis
  proof (cases "rejected_decay_read lc")
    case True
    then have "compute_extra_global_batch_info ar True True cap sm = Inr [(''opd_rejected_draft_batch_num_tokens'', Some (ar ''opd_rejected_draft_batch_num_tokens'' (real k))),
        (''opd_rejected_draft_batch_effective_num_tokens'', Some (ar ''opd_rejected_draft_batch_effective_num_tokens'' (sum_list (map (rejected_weight_sum lc) mbs))))]"
      using assms k by (auto simp: streams_rank_ok_def compute_extra_global_batch_info_def)
    then show ?thesis using True by (simp add: step_info_def info_get_def update_conv rejected_name_def)
  next
    case False
    then have "compute_extra_global_batch_info ar True True cap sm = Inr [(''opd_rejected_draft_batch_num_tokens'',
        Some (ar ''opd_rejected_draft_batch_num_tokens'' (sum_list (map (rejected_weight_sum lc) mbs))))]"
      using assms k by (auto simp: streams_rank_ok_def compute_extra_global_batch_info_def)
    then show ?thesis using False assms by (simp add: step_info_def info_get_def update_conv rejected_name_def streams_rank_ok_def)
  qed
qed

lemma streams_contribution:
  assumes "streams_rank_ok lc cap r" "r = (sm, msk, info, mbs)"
  shows "contribution cap r ''batch_num_tokens'' = count_mask_mat msk"
    "contribution cap r (rejected_name lc) = sum_list (map (rejected_weight_sum lc) mbs)"
proof -
  have "streams_rank_ok lc cap (sm, msk, [], mbs)" using assms by (simp add: streams_rank_ok_def info_get_def)
  from streams_rank_info [OF this, of "\<lambda>_ x. x" 1]
  show "contribution cap r ''batch_num_tokens'' = count_mask_mat msk"
    "contribution cap r (rejected_name lc) = sum_list (map (rejected_weight_sum lc) mbs)"
    by (auto simp: contribution_def assms(2) or_else_def)
qed

lemma step_config_info:
  "info_get (global_batch_info (set_batch_info config d)) ''batch_num_tokens'' = info_get (ld_info d) ''batch_num_tokens''"
  "info_get (global_batch_info (set_batch_info config d)) ''opd_rejected_draft_batch_num_tokens'' = info_get (ld_info d) ''opd_rejected_draft_batch_num_tokens''"
  "info_get (global_batch_info (set_batch_info config d)) ''opd_rejected_draft_batch_effective_num_tokens''
    = info_get (ld_info d) ''opd_rejected_draft_batch_effective_num_tokens''"
  by (simp_all add: set_batch_info_def Let_def opd_info_keys_def update_conv info_get_def)

lemma step_loss_supervised:
  assumes "\<not> use_tv_loss lc" "\<not> use_policy_gradient lc" "\<not> use_task_rewards lc" "loss_mode lc \<in> set SCALAR_DISTILLATION_LOSSES"
    and "\<not> accept_draft_position_decay_enabled lc" "\<not> isl (micro_streams lc mb)" "info_get info ''batch_num_tokens'' = Some n"
    and "info_get info (rejected_name lc) = Some m" "\<not> rejected_decay_read lc \<longrightarrow> info_get info ''opd_rejected_draft_batch_effective_num_tokens'' = None"
    and "map_of info ''dp_size'' = Some (Some dp)" "0 < response_stream_weight lc * n + rejected_draft_stream_weight lc * m"
  shows "step_loss others config lc g info mb = Inr ((response_stream_weight lc * response_loss_sum lc mb
      + rejected_draft_stream_weight lc * rejected_loss_sum lc mb) / (response_stream_weight lc * n + rejected_draft_stream_weight lc * m) * dp)"
proof -
  let ?d = "(snd mb)\<lparr>ld_info := info\<rparr>" and ?c = "set_batch_info config ((snd mb)\<lparr>ld_info := info\<rparr>)"
  have mb: "micro_streams lc (fst mb, ?d) = micro_streams lc mb" by (simp add: micro_streams_def)
  have same: "response_loss_sum lc (fst mb, ?d) = response_loss_sum lc mb" "rejected_loss_sum lc (fst mb, ?d) = rejected_loss_sum lc mb"
    by (simp_all add: response_loss_sum_def rejected_loss_sum_def streams_of_def mb)
  have dp: "map_of (global_batch_info ?c) ''dp_size'' = Some (Some dp)" by (rule batch_info_values(2)) (simp add: assms(10))
  have "\<exists>ms. distillation_loss ?c lc (fst mb) ?d g = Inr ((response_stream_weight lc * response_loss_sum lc (fst mb, ?d)
      + rejected_draft_stream_weight lc * rejected_loss_sum lc (fst mb, ?d)) / (response_stream_weight lc * n + rejected_draft_stream_weight lc * m) * dp, ms)"
    by (rule supervised_value [OF assms(1,2,4,5) _ _ _ dp assms(11)])
      (use assms(6-9) in \<open>auto simp: mb step_config_info rejected_name_def split: if_splits\<close>)
  then show ?thesis using assms(3) unfolding same by (auto simp: step_loss_def distillation_ppo_loss_def Let_def)
qed

definition loss_tokens :: "rank_data \<Rightarrow> real" where
  "loss_tokens r = (case r of (_, msk, _, _) \<Rightarrow> count_mask_mat msk)"

definition rank_sum :: "(model_output \<times> loss_data \<Rightarrow> real) \<Rightarrow> rank_data \<Rightarrow> real" where
  "rank_sum f r = (case r of (_, _, _, mbs) \<Rightarrow> sum_list (map f mbs))"

lemma streams_rank_step:
  assumes "\<not> use_tv_loss lc" "\<not> use_policy_gradient lc" "\<not> use_task_rewards lc" "loss_mode lc \<in> set SCALAR_DISTILLATION_LOSSES"
    and "\<not> accept_draft_position_decay_enabled lc" "streams_rank_ok lc cap r" "all_reduce ''batch_num_tokens'' (loss_tokens r) = n"
    and "all_reduce (rejected_name lc) (rank_sum (rejected_weight_sum lc) r) = m" "0 < response_stream_weight lc * n + rejected_draft_stream_weight lc * m"
  shows "\<exists>ls. rank_step others config lc g cap all_reduce dp r = Inr ls
    \<and> sum_list ls = (response_stream_weight lc * rank_sum (response_loss_sum lc) r + rejected_draft_stream_weight lc * rank_sum (rejected_loss_sum lc) r)
        / (response_stream_weight lc * n + rejected_draft_stream_weight lc * m) * dp"
proof -
  obtain sm msk info mbs where r: "r = (sm, msk, info, mbs)" by (cases r)
  define D where "D = response_stream_weight lc * n + rejected_draft_stream_weight lc * m"
  obtain ex where ex: "compute_extra_global_batch_info all_reduce True True cap sm = Inr ex"
    "info_get (step_info all_reduce dp msk ex info) ''batch_num_tokens'' = Some n" "map_of (step_info all_reduce dp msk ex info) ''dp_size'' = Some (Some dp)"
    "info_get (step_info all_reduce dp msk ex info) (rejected_name lc) = Some m"
    "\<not> rejected_decay_read lc \<longrightarrow> info_get (step_info all_reduce dp msk ex info) ''opd_rejected_draft_batch_effective_num_tokens'' = None"
    using streams_rank_info [OF assms(6) [unfolded r], of all_reduce dp] assms(7,8) by (auto simp: r loss_tokens_def rank_sum_def)
  have ok: "\<not> isl (micro_streams lc mb)" if "mb \<in> set mbs" for mb using assms(6) that by (simp add: streams_rank_ok_def r list_all_iff)
  have "rmap (step_loss others config lc g (step_info all_reduce dp msk ex info)) mbs = Inr (map (\<lambda>mb. (response_stream_weight lc * response_loss_sum lc mb
      + rejected_draft_stream_weight lc * rejected_loss_sum lc mb) / D * dp) mbs)"
    unfolding D_def by (rule rmap_Inr, rule step_loss_supervised [OF assms(1-5) ok ex(2,4,5,3) assms(9)])
  moreover have "sum_list (map (\<lambda>mb. (a * f mb + b * h mb) / D * dp) xs) = (a * sum_list (map f xs) + b * sum_list (map h xs)) / D * dp"
    for a b and f h :: "model_output \<times> loss_data \<Rightarrow> real" and xs
    by (induction xs) (simp_all add: add_divide_distrib algebra_simps)
  ultimately show ?thesis unfolding D_def [symmetric] using ex(1) by (simp add: rank_step_def r forward_backward_batch_def rank_sum_def)
qed

text \<open>C37 A training step of supervised scalar distillation on any number of ranks, without position decay of the response, when every micro-batch
  holds rejected draft tokens and what each rank counts of them from the metadata is the weight of those its forward passes return: the step
  returns, and the losses of all micro-batches of all ranks, divided by the number of ranks, add up to the weighted mean over the step: the
  weighted sums of the response and rejected token losses, divided by the weighted numbers of the tokens of the loss masks and of the
  rejected tokens of all ranks.\<close>

theorem supervised_step_is_weighted_mean:
  assumes "\<not> use_tv_loss lc" "\<not> use_policy_gradient lc" "\<not> use_task_rewards lc" "loss_mode lc \<in> set SCALAR_DISTILLATION_LOSSES"
    and "\<not> accept_draft_position_decay_enabled lc" "list_all (streams_rank_ok lc cap) ranks"
    and "0 < response_stream_weight lc * sum_list (map loss_tokens ranks)
          + rejected_draft_stream_weight lc * sum_list (map (rank_sum (rejected_weight_sum lc)) ranks)"
  shows "\<exists>losses. training_step others config lc g cap ranks = Inr losses
    \<and> sum_list (map sum_list losses) / real (length ranks)
      = (response_stream_weight lc * sum_list (map (rank_sum (response_loss_sum lc)) ranks)
          + rejected_draft_stream_weight lc * sum_list (map (rank_sum (rejected_loss_sum lc)) ranks))
        / (response_stream_weight lc * sum_list (map loss_tokens ranks)
          + rejected_draft_stream_weight lc * sum_list (map (rank_sum (rejected_weight_sum lc)) ranks))"
proof -
  define n m where "n = sum_list (map loss_tokens ranks)" and "m = sum_list (map (rank_sum (rejected_weight_sum lc)) ranks)"
  define D where "D = response_stream_weight lc * n + rejected_draft_stream_weight lc * m"
  have pos: "0 < response_stream_weight lc * n + rejected_draft_stream_weight lc * m" using assms(7) by (simp add: n_def m_def)
  have ok: "streams_rank_ok lc cap r" if "r \<in> set ranks" for r using assms(6) that by (simp add: list_all_iff)
  have c: "contribution cap r ''batch_num_tokens'' = loss_tokens r" "contribution cap r (rejected_name lc) = rank_sum (rejected_weight_sum lc) r"
    if "r \<in> set ranks" for r using streams_contribution [OF ok [OF that]] by (cases r; simp add: loss_tokens_def rank_sum_def)+
  have total: "sum_list (map (\<lambda>r. contribution cap r ''batch_num_tokens'') ranks) = n" "sum_list (map (\<lambda>r. contribution cap r (rejected_name lc)) ranks) = m"
    unfolding n_def m_def by (rule arg_cong [where f = sum_list], simp add: c)+
  let ?S = "\<lambda>r. (response_stream_weight lc * rank_sum (response_loss_sum lc) r + rejected_draft_stream_weight lc * rank_sum (rejected_loss_sum lc) r)
      / D * real (length ranks)"
  have "\<exists>losses. training_step others config lc g cap ranks = Inr losses \<and> sum_list (map sum_list losses) = sum_list (map ?S ranks)"
  proof (rule training_step_losses)
    fix i assume i: "i < length ranks"
    then have r: "ranks ! i \<in> set ranks" by simp
    have "all_reduce_sum cap ranks i ''batch_num_tokens'' (loss_tokens (ranks ! i)) = n"
      "all_reduce_sum cap ranks i (rejected_name lc) (rank_sum (rejected_weight_sum lc) (ranks ! i)) = m"
      using all_reduce_sum_total [OF i c(1) [OF r]] all_reduce_sum_total [OF i c(2) [OF r]] total by simp_all
    from streams_rank_step [where all_reduce = "all_reduce_sum cap ranks i", OF assms(1-5) ok [OF r] this pos]
    show "\<exists>ls. rank_step others config lc g cap (all_reduce_sum cap ranks i) (real (length ranks)) (ranks ! i) = Inr ls \<and> sum_list ls = ?S (ranks ! i)"
      unfolding D_def .
  qed
  moreover have "sum_list (map (\<lambda>r. (a * f r + b * h r) / D * dp) rs) = (a * sum_list (map f rs) + b * sum_list (map h rs)) / D * dp"
    for a b dp and f h :: "rank_data \<Rightarrow> real" and rs
    by (induction rs) (simp_all add: add_divide_distrib algebra_simps)
  moreover have "ranks \<noteq> []" using assms(7) by auto
  ultimately show ?thesis unfolding n_def [symmetric] m_def [symmetric] D_def [symmetric] by auto
qed

definition example_rank :: rank_data where
  "example_rank = (\<lparr>sm_batch_size = 1, sm_response_mask = Some (Jagged [[1, 1, 1]]), sm_responses = None, sm_rejects = MList [MNum 2], sm_anchors = MNone,
     sm_offsets = MNone, sm_token_ids = MNone, sm_use_tv = True, sm_first_token_only = False, sm_decay_enabled = False, sm_decay = 1\<rparr>,
     [[True]], [], [(example_output, example_data)])"

theorem training_step_is_global_mean_witness:
  "\<exists>losses. training_step [] (example_actor []) (example_loss_config\<lparr>use_tv_loss := True, use_task_rewards := False\<rparr>) None None
      [example_rank, example_rank] = Inr losses \<and> sum_list (map sum_list losses) / 2 = 1"
proof -
  have b: "rank_blocks example_rank = [1]" by (simp add: rank_blocks_def example_rank_def tv_blocks_def example_output_def)
  have "count_dflash_tv_blocks 1 (Some (Jagged [[1, 1, 1]])) None (MList [MNum 2]) MNone MNone MNone = Inr 1" by code_simp
  then have "rank_ok example_rank" using b by (simp add: rank_ok_def example_rank_def tv_output_ok_def example_output_def)
  then have ok: "list_all rank_ok [example_rank, example_rank]" by simp
  have lc: "use_tv_loss (example_loss_config\<lparr>use_tv_loss := True, use_task_rewards := False\<rparr>)"
    "\<not> use_policy_gradient (example_loss_config\<lparr>use_tv_loss := True, use_task_rewards := False\<rparr>)"
    "\<not> use_task_rewards (example_loss_config\<lparr>use_tv_loss := True, use_task_rewards := False\<rparr>)" by (simp_all add: example_loss_config_def)
  have n: "concat (map rank_blocks [example_rank, example_rank]) \<noteq> []"
    and m: "list_mean (concat (map rank_blocks [example_rank, example_rank])) = 1" "real (length [example_rank, example_rank]) = 2"
    using b by (simp_all add: list_mean_def)
  show ?thesis
    using training_step_is_global_mean [OF lc ok n, where config = "example_actor []" and g = None and others = "[]" and cap = None] unfolding m .
qed

definition example_supervised_config :: loss_config where
  "example_supervised_config = example_loss_config\<lparr>use_task_rewards := False\<rparr>"

definition example_supervised_rank :: rank_data where
  "example_supervised_rank = (\<lparr>sm_batch_size = 1, sm_response_mask = None, sm_responses = None, sm_rejects = MNone, sm_anchors = MList [MNum 0],
     sm_offsets = MList [MNum 1], sm_token_ids = MList [MNum 8], sm_use_tv = False, sm_first_token_only = False, sm_decay_enabled = True, sm_decay = 9 / 10\<rparr>,
     [[True, True]], [], [(example_output, example_data)])"

lemma example_streams:
  "\<not> isl (micro_streams example_supervised_config (example_output, example_data))"
  "rejected_weight_sum example_supervised_config (example_output, example_data) = 1"
proof -
  let ?lc = example_supervised_config
  have w: "weights_ok ?lc" and m: "loss_mode ?lc \<in> set SCALAR_DISTILLATION_LOSSES"
    by (simp_all add: weights_ok_def example_supervised_config_def example_loss_config_def SCALAR_DISTILLATION_LOSSES_def)
  have d: "data_ok example_data 3" by (simp add: data_ok_def example_data_def padded_response_mask_def to_padded_def pad_to_def)
  have o': "output_ok ?lc example_output 3" by (simp add: output_ok_def example_output_def)
  obtain losses ms where run: "run_loss_fn Reverse_kl_estimator ?lc example_output example_data = Inr (losses, ms)"
    using estimator_ok [OF d o' w m] by (auto simp: run_loss_fn_def)
  obtain eff where eff: "get_effective_distillation_response_mask example_data example_output = Inr eff"
    using effective_ok [OF d, of example_output "[True, True, False]"] by (auto simp: example_output_def)
  have st: "get_rejected_draft_distillation_stream example_output = Inr (Some ([-2], [-3], [True]))"
    by (simp add: get_rejected_draft_distillation_stream_def example_output_def)
  have "same_shape [[-2]] [[-3 :: real]]" by (simp add: same_shape_def)
  then obtain out cms where "combine_sampled_reverse_forward_losses ?lc [[-2]] [[-3]] [[True]] ''rejected_draft'' (rejected_draft_use_reverse_kl ?lc) = Inr (out, cms)"
    using combine_ok [OF w m] by blast
  then obtain rs m1 where rs: "rejected_losses ?lc example_output ([-2], [-3], [True]) [] = Inr (rs, m1)" "rs_weights rs = [[1]]"
    by (simp add: rejected_losses_def build_rejected_draft_position_weights_def Let_def example_supervised_config_def example_loss_config_def example_output_def
        decay_weight_def)
  have "micro_streams ?lc (example_output, example_data) = Inr (clamp_losses ?lc losses, eff, rs)"
    by (simp add: micro_streams_def run eff st required_def rs(1))
  then show "\<not> isl (micro_streams ?lc (example_output, example_data))" "rejected_weight_sum ?lc (example_output, example_data) = 1"
    by (simp_all add: rejected_weight_sum_def streams_of_def mat_sum_def rs(2))
qed

theorem supervised_step_is_weighted_mean_witness:
  "\<exists>losses. training_step [] (example_actor []) example_supervised_config None None [example_supervised_rank, example_supervised_rank] = Inr losses
    \<and> sum_list (map sum_list losses) / 2 = (2 * response_loss_sum example_supervised_config (example_output, example_data)
        + 2 * rejected_loss_sum example_supervised_config (example_output, example_data)) / 6"
proof -
  let ?lc = example_supervised_config
  have lc: "\<not> use_tv_loss ?lc" "\<not> use_policy_gradient ?lc" "\<not> use_task_rewards ?lc" "loss_mode ?lc \<in> set SCALAR_DISTILLATION_LOSSES"
    "\<not> accept_draft_position_decay_enabled ?lc" "response_stream_weight ?lc = 1" "rejected_draft_stream_weight ?lc = 1" "rejected_decay_read ?lc"
    by (simp_all add: example_supervised_config_def example_loss_config_def SCALAR_DISTILLATION_LOSSES_def rejected_decay_read_def)
  have "count_dflash_rejected_draft_tokens (MList [MNum 8]) 1 None (MList [MNum 0]) (MList [MNum 1]) False = Inr 1" by code_simp
  moreover have "sum_dflash_rejected_draft_position_weights (MList [MNum 8]) (MList [MNum 1]) 1 None (9 / 10) (MList [MNum 0]) False = Inr 1"
  proof -
    have "normalize_dflash_rejected_draft_values (MList [MNum 8]) 1 = Inr [[8 :: int]]" "normalize_dflash_rejected_draft_values (MList [MNum 1]) 1 = Inr [[1 :: int]]"
      by code_simp+
    then show ?thesis by (simp add: sum_dflash_rejected_draft_position_weights_def require_def)
  qed
  ultimately have ok: "list_all (streams_rank_ok ?lc None) [example_supervised_rank, example_supervised_rank]"
    using example_streams lc(8) by (simp add: streams_rank_ok_def example_supervised_rank_def info_get_def)
  have v: "loss_tokens example_supervised_rank = 2" "rank_sum f example_supervised_rank = f (example_output, example_data)" for f
    by (simp_all add: loss_tokens_def rank_sum_def example_supervised_rank_def)
  show ?thesis using supervised_step_is_weighted_mean [OF lc(1-5) ok, of "[]" "example_actor []" None] by (simp add: lc(6,7) v example_streams(2))
qed

end
