(* ===== verification/Dflash_Sample.thy ===== *)
theory Dflash_Sample
  imports Dflash_Info
begin

section \<open>Greedy sampling with a sharded head\<close>

text \<open>
  Model of \<^verbatim>\<open>_greedy_sample_from_vocab_parallel_head\<close> of \<^verbatim>\<open>srt/speculative/dflash_worker.py\<close>, by which the worker picks
  the tokens of a drafted block. Every tensor-parallel rank owns some rows of the weight of the language model head:
  rows of the base vocabulary, padding, and rows of added tokens. A rank computes the maximum over its rows, the maxima
  of all ranks are gathered, and the token of the best rank is taken.

  The product of a hidden state and a row of the weight is a parameter; \<open>lowest\<close> is the least finite number of the type
  of the weight. The cached scratch buffers are not modelled: every slice of them is written before it is read.
\<close>

record shard_indices =
  num_org_elements :: nat
  num_org_elements_padded :: nat
  num_added_elements :: nat
  org_vocab_start_index :: int
  added_vocab_start_index :: int

record 'w lm_head =
  weight :: "'w list"
  shard :: shard_indices

text \<open>\<^verbatim>\<open>torch.max(t, dim=-1)\<close> of one row.\<close>

definition torch_max :: "real list \<Rightarrow> (real \<times> int) res" where
  "torch_max xs = (if xs = [] then Inl IndexError else Inr (xs ! nat (torch_argmax xs), torch_argmax xs))"

text \<open>The best row of one rank for one hidden state: its logit and its index in the local weight, then its token id.\<close>

definition local_max :: "real \<Rightarrow> ('h \<Rightarrow> 'w \<Rightarrow> real) \<Rightarrow> 'w lm_head \<Rightarrow> 'h \<Rightarrow> (real \<times> int) res" where
  "local_max lowest dot head hs =
     (let sh = shard head; base_end = num_org_elements_padded sh in
      rbind (if 0 < num_org_elements sh then torch_max (map (dot hs) (take (num_org_elements sh) (weight head))) else Inr (lowest, 0)) (\<lambda>(m, arg).
      if num_added_elements sh = 0 then Inr (m, arg)
      else rbind (torch_max (map (dot hs) (slice base_end (base_end + num_added_elements sh) (weight head)))) (\<lambda>(am, aarg).
        Inr (if m < am then (am, aarg + int base_end) else (m, arg)))))"

definition global_id :: "shard_indices \<Rightarrow> int \<Rightarrow> int" where
  "global_id sh arg =
     (if num_added_elements sh = 0 then arg + org_vocab_start_index sh
      else if arg < int (num_org_elements sh) then org_vocab_start_index sh + arg
      else added_vocab_start_index sh + (arg - int (num_org_elements_padded sh)))"

definition local_candidate :: "real \<Rightarrow> ('h \<Rightarrow> 'w \<Rightarrow> real) \<Rightarrow> 'w lm_head \<Rightarrow> 'h \<Rightarrow> (real \<times> int) res" where
  "local_candidate lowest dot head hs = rbind (local_max lowest dot head hs) (\<lambda>(m, arg). Inr (m, global_id (shard head) arg))"

text \<open>The fast path of a single rank without added tokens.\<close>

definition fast_chunk :: "('h \<Rightarrow> 'w \<Rightarrow> real) \<Rightarrow> 'w lm_head \<Rightarrow> 'h list \<Rightarrow> int list res" where
  "fast_chunk dot head chunk =
     (if 0 < num_org_elements (shard head)
      then rmap (\<lambda>hs. let logits = map (dot hs) (take (num_org_elements (shard head)) (weight head)) in
             if logits = [] then Inl IndexError else Inr (torch_argmax logits + org_vocab_start_index (shard head))) chunk
      else Inr (map (\<lambda>_. 0) chunk))"

text \<open>The general path on the heads of all ranks: \<^verbatim>\<open>all_gather_into_tensor\<close> stacks the candidates by rank.\<close>

definition select_rank :: "(real \<times> int) list list \<Rightarrow> nat \<Rightarrow> int" where
  "select_rank gathered j = (let best_rank = torch_argmax (map (\<lambda>r. fst (r ! j)) gathered) in snd (gathered ! nat best_rank ! j))"

definition gather_chunk :: "real \<Rightarrow> ('h \<Rightarrow> 'w \<Rightarrow> real) \<Rightarrow> 'w lm_head list \<Rightarrow> 'h list \<Rightarrow> int list res" where
  "gather_chunk lowest dot heads chunk =
     rbind (rmap (\<lambda>head. rmap (local_candidate lowest dot head) chunk) heads) (\<lambda>gathered.
       if length heads = 1 then Inr (map snd (hd gathered))
       else Inr (map (select_rank gathered) [0..<length chunk]))"

definition sample_chunks :: "nat \<Rightarrow> 'h list \<Rightarrow> 'h list list" where
  "sample_chunks c hs = map (\<lambda>k. slice (k * c) (min (length hs) (k * c + c)) hs) [0..<ceil_div (length hs) c]"

definition greedy_sample_from_vocab_parallel_head ::
  "real \<Rightarrow> ('h \<Rightarrow> 'w \<Rightarrow> real) \<Rightarrow> 'w lm_head list \<Rightarrow> nat \<Rightarrow> 'h list \<Rightarrow> int list res" where
  "greedy_sample_from_vocab_parallel_head lowest dot heads chunk_size hidden_states =
     (if hidden_states = [] then Inr []
      else rbind (rmap (\<lambda>chunk.
          case heads of
            [head] \<Rightarrow> if num_added_elements (shard head) = 0 then fast_chunk dot head chunk else gather_chunk lowest dot heads chunk
          | _ \<Rightarrow> gather_chunk lowest dot heads chunk) (sample_chunks chunk_size hidden_states)) (\<lambda>outs. Inr (concat outs)))"

subsection \<open>First maximum of a list\<close>

definition first_max :: "real list \<Rightarrow> nat \<Rightarrow> bool" where
  "first_max xs i \<longleftrightarrow> i < length xs \<and> (\<forall>j<length xs. xs ! j \<le> xs ! i) \<and> (\<forall>j<i. xs ! j < xs ! i)"

lemma first_max_unique: "first_max xs i \<Longrightarrow> first_max xs j \<Longrightarrow> i = j"
  unfolding first_max_def by (metis leD linorder_neqE_nat)

lemma argmax_from_first:
  assumes "first_max xs best" "v = xs ! best"
  shows "first_max (xs @ ys) (argmax_from (length xs) best v ys)"
  using assms
proof (induction ys arbitrary: xs best v)
  case (Cons y ys)
  have len: "length (xs @ [y]) = length xs + 1" by simp
  show ?case
  proof (cases "v < y")
    case True
    have "first_max (xs @ [y]) (length xs)"
      using Cons.prems True by (auto simp: first_max_def nth_append less_Suc_eq intro: le_less_trans less_imp_le)
    from Cons.IH [OF this, of y] show ?thesis using True by (simp add: nth_append)
  next
    case False
    have "first_max (xs @ [y]) best" using Cons.prems False by (auto simp: first_max_def nth_append less_Suc_eq)
    from Cons.IH [OF this, of v] show ?thesis using False Cons.prems by (simp add: nth_append first_max_def)
  qed
qed simp

lemma torch_argmax_first: "xs \<noteq> [] \<Longrightarrow> 0 \<le> torch_argmax xs \<and> first_max xs (nat (torch_argmax xs))"
proof -
  assume "xs \<noteq> []"
  then obtain x ys where xs: "xs = x # ys" by (cases xs) auto
  have "first_max [x] 0" by (simp add: first_max_def)
  from argmax_from_first [OF this, of x ys] show ?thesis by (simp add: xs torch_argmax_def)
qed

lemma torch_argmax_eqI: "first_max xs i \<Longrightarrow> torch_argmax xs = int i"
proof -
  assume i: "first_max xs i"
  then have "xs \<noteq> []" by (auto simp: first_max_def)
  from torch_argmax_first [OF this] first_max_unique [OF i] show ?thesis by fastforce
qed

lemma concat_sample_chunks: "0 < c \<Longrightarrow> concat (sample_chunks c hs) = hs"
proof -
  assume c: "0 < c"
  have r: "concat (rows n c xs) = xs" if "length xs \<le> n * c" for n and xs :: "'a list"
    using that by (induction n arbitrary: xs) auto
  have "sample_chunks c hs = rows (ceil_div (length hs) c) c hs"
    by (rule nth_equalityI) (auto simp: sample_chunks_def nth_rows slice_def min_def)
  then show ?thesis using r [OF ceil_div_bounds(1) [OF c]] by simp
qed

subsection \<open>The best row of a rank\<close>

definition head_ok :: "'w lm_head \<Rightarrow> bool" where
  "head_ok head \<longleftrightarrow> num_org_elements (shard head) \<le> num_org_elements_padded (shard head)
     \<and> num_org_elements_padded (shard head) + num_added_elements (shard head) \<le> length (weight head)"

text \<open>The tokens a rank owns and their rows.\<close>

definition owned :: "'w lm_head \<Rightarrow> (int \<times> 'w) list" where
  "owned head = (let sh = shard head in
     map (\<lambda>j. (org_vocab_start_index sh + int j, weight head ! j)) [0..<num_org_elements sh]
     @ map (\<lambda>j. (added_vocab_start_index sh + int j, weight head ! (num_org_elements_padded sh + j))) [0..<num_added_elements sh])"

definition best_of :: "real \<Rightarrow> ('h \<Rightarrow> 'w \<Rightarrow> real) \<Rightarrow> (int \<times> 'w) list \<Rightarrow> 'h \<Rightarrow> real \<times> int \<Rightarrow> bool" where
  "best_of lowest dot tokens hs c \<longleftrightarrow> (\<forall>(i, w)\<in>set tokens. dot hs w \<le> fst c)
     \<and> (if tokens = [] then fst c = lowest else \<exists>w. (snd c, w) \<in> set tokens \<and> fst c = dot hs w)"

lemma best_ofI:
  assumes "\<And>i v. (i, v) \<in> set tokens \<Longrightarrow> dot hs v \<le> m" "(k, w) \<in> set tokens" "m = dot hs w"
  shows "best_of lowest dot tokens hs (m, k)"
proof -
  have "tokens \<noteq> []" using assms(2) by auto
  then show ?thesis using assms unfolding best_of_def by auto
qed

lemma torch_max_rows:
  assumes "ws \<noteq> []"
  shows "\<exists>i<length ws. torch_max (map (dot hs) ws) = Inr (dot hs (ws ! i), int i) \<and> (\<forall>w\<in>set ws. dot hs w \<le> dot hs (ws ! i))
    \<and> torch_argmax (map (dot hs) ws) = int i"
proof -
  have ne: "map (dot hs) ws \<noteq> []" using assms by simp
  define i where "i = nat (torch_argmax (map (dot hs) ws))"
  have i: "torch_argmax (map (dot hs) ws) = int i" "first_max (map (dot hs) ws) i" using torch_argmax_first [OF ne] by (simp_all add: i_def)
  then have "i < length ws" "\<forall>w\<in>set ws. dot hs w \<le> dot hs (ws ! i)" by (auto simp: first_max_def in_set_conv_nth)
  then show ?thesis using i(1) ne by (intro exI [of _ i]) (simp add: torch_max_def)
qed

lemma local_candidate_best:
  assumes ok: "head_ok head" and low: "\<forall>(i, w)\<in>set (owned head). lowest < dot hs w"
  shows "\<exists>c. local_candidate lowest dot head hs = Inr c \<and> best_of lowest dot (owned head) hs c"
proof -
  let ?sh = "shard head"
  let ?n = "num_org_elements ?sh" and ?p = "num_org_elements_padded ?sh" and ?a = "num_added_elements ?sh"
  let ?B = "take ?n (weight head)" and ?A = "slice ?p (?p + ?a) (weight head)"
  have len: "length ?B = ?n" "length ?A = ?a" using ok by (auto simp: head_ok_def slice_def)
  have nB: "?B ! j = weight head ! j" if "j < ?n" for j using that by simp
  have nA: "?A ! j = weight head ! (?p + j)" if "j < ?a" for j using that ok by (simp add: slice_def head_ok_def)
  have own: "set (owned head) = {(org_vocab_start_index ?sh + int j, ?B ! j) | j. j < ?n} \<union> {(added_vocab_start_index ?sh + int j, ?A ! j) | j. j < ?a}"
    using nB nA by (auto simp: owned_def Let_def)
  have emp: "owned head = [] \<longleftrightarrow> ?n = 0 \<and> ?a = 0" by (simp add: owned_def Let_def)
  obtain m arg where base: "(if 0 < ?n then torch_max (map (dot hs) ?B) else Inr (lowest, 0)) = Inr (m, arg)"
    and bm: "\<forall>w\<in>set ?B. dot hs w \<le> m" and bi: "0 < ?n \<Longrightarrow> \<exists>j<?n. arg = int j \<and> m = dot hs (?B ! j)" and b0: "?n = 0 \<Longrightarrow> m = lowest \<and> arg = 0"
  proof (cases "0 < ?n")
    case True
    then have "?B \<noteq> []" using len(1) by (metis length_0_conv less_irrefl)
    from torch_max_rows [OF this, of dot hs] obtain i where "i < length ?B" "torch_max (map (dot hs) ?B) = Inr (dot hs (?B ! i), int i)"
      "\<forall>w\<in>set ?B. dot hs w \<le> dot hs (?B ! i)" by blast
    note i = this
    show ?thesis
    proof (rule that [of "dot hs (?B ! i)" "int i"])
      show "(if 0 < ?n then torch_max (map (dot hs) ?B) else Inr (lowest, 0)) = Inr (dot hs (?B ! i), int i)" using True i(2) by simp
      show "\<forall>w\<in>set ?B. dot hs w \<le> dot hs (?B ! i)" by (rule i(3))
      have "i < ?n" using i(1) len(1) by simp
      then show "\<exists>j<?n. int i = int j \<and> dot hs (?B ! i) = dot hs (?B ! j)" by blast
      show "dot hs (?B ! i) = lowest \<and> int i = 0" if "?n = 0" using that True by simp
    qed
  next
    case False
    then show ?thesis using that [of lowest 0] by simp
  qed
  have baseB: "dot hs (?B ! j) \<le> m" if "j < ?n" for j using bm that len(1) by (metis nth_mem)
  have ofB: "(org_vocab_start_index ?sh + int j, ?B ! j) \<in> set (owned head)" if "j < ?n" for j using that unfolding own by blast
  have bound: "dot hs v \<le> x" if "(k, v) \<in> set (owned head)" "\<And>j. j < ?n \<Longrightarrow> dot hs (?B ! j) \<le> x" "\<And>j. j < ?a \<Longrightarrow> dot hs (?A ! j) \<le> x" for k v x
    using that(1) unfolding own using that(2,3) by blast
  show ?thesis
  proof (cases "?a = 0")
    case True
    have c: "local_candidate lowest dot head hs = Inr (m, arg + org_vocab_start_index ?sh)"
      using base True by (simp add: local_candidate_def local_max_def global_id_def Let_def)
    have "best_of lowest dot (owned head) hs (m, arg + org_vocab_start_index ?sh)"
    proof (cases "0 < ?n")
      case n: True
      obtain j where j: "j < ?n" "arg = int j" "m = dot hs (?B ! j)" using bi [OF n] by blast
      show ?thesis
      proof (rule best_ofI)
        show "(arg + org_vocab_start_index ?sh, ?B ! j) \<in> set (owned head)" using ofB [OF j(1)] j(2) by (simp add: add.commute)
        show "dot hs v \<le> m" if "(k, v) \<in> set (owned head)" for k v using bound [OF that baseB] True by simp
      qed (rule j(3))
    next
      case False
      then show ?thesis using True b0 emp by (simp add: best_of_def)
    qed
    then show ?thesis using c by blast
  next
    case False
    then have "?A \<noteq> []" using len(2) by (metis length_0_conv)
    from torch_max_rows [OF this, of dot hs] obtain i where i: "i < ?a" "torch_max (map (dot hs) ?A) = Inr (dot hs (?A ! i), int i)"
      "\<forall>w\<in>set ?A. dot hs w \<le> dot hs (?A ! i)" using len(2) by auto
    have A: "dot hs (?A ! j) \<le> dot hs (?A ! i)" if "j < ?a" for j using i(3) that len(2) by (metis nth_mem)
    let ?c = "if m < dot hs (?A ! i) then (dot hs (?A ! i), int i + int ?p) else (m, arg)"
    have run: "local_max lowest dot head hs = Inr ?c" using base i(2) False by (simp add: local_max_def Let_def)
    have c: "local_candidate lowest dot head hs = Inr (fst ?c, global_id ?sh (snd ?c))" by (simp add: local_candidate_def run)
    have "best_of lowest dot (owned head) hs (fst ?c, global_id ?sh (snd ?c))"
    proof (cases "m < dot hs (?A ! i)")
      case True
      have "\<not> int i + int ?p < int ?n" using ok by (simp add: head_ok_def)
      then have g: "global_id ?sh (int i + int ?p) = added_vocab_start_index ?sh + int i" using False by (simp add: global_id_def)
      have "dot hs (?B ! j) \<le> dot hs (?A ! i)" if "j < ?n" for j using baseB [OF that] True by simp
      then have "dot hs v \<le> dot hs (?A ! i)" if "(k, v) \<in> set (owned head)" for k v using bound [OF that _ A] by blast
      moreover have "(added_vocab_start_index ?sh + int i, ?A ! i) \<in> set (owned head)" using i(1) unfolding own by blast
      ultimately have "best_of lowest dot (owned head) hs (dot hs (?A ! i), added_vocab_start_index ?sh + int i)" by (rule best_ofI) simp_all
      then show ?thesis using True by (simp add: g)
    next
      case m: False
      have "(added_vocab_start_index ?sh + int i, ?A ! i) \<in> set (owned head)" using i(1) unfolding own by blast
      then have "lowest < dot hs (?A ! i)" using low by blast
      then have n: "0 < ?n" using b0 m by auto
      obtain j where j: "j < ?n" "arg = int j" "m = dot hs (?B ! j)" using bi [OF n] by blast
      have g: "global_id ?sh arg = org_vocab_start_index ?sh + int j" using False j by (simp add: global_id_def)
      have "dot hs (?A ! k) \<le> m" if "k < ?a" for k using A [OF that] m by simp
      then have "dot hs v \<le> m" if "(k, v) \<in> set (owned head)" for k v using bound [OF that baseB] by blast
      then have "best_of lowest dot (owned head) hs (m, org_vocab_start_index ?sh + int j)" using ofB [OF j(1)] j(3)
        by (intro best_ofI [where w = "?B ! j"])
      then show ?thesis using m by (simp add: g)
    qed
    then show ?thesis using c by blast
  qed
qed

subsection \<open>The token of the best rank\<close>

definition cand_of :: "real \<Rightarrow> ('h \<Rightarrow> 'w \<Rightarrow> real) \<Rightarrow> 'h \<Rightarrow> 'w lm_head \<Rightarrow> real \<times> int" where
  "cand_of lowest dot hs head = projr (local_candidate lowest dot head hs)"

definition best_token :: "real \<Rightarrow> ('h \<Rightarrow> 'w \<Rightarrow> real) \<Rightarrow> 'w lm_head list \<Rightarrow> 'h \<Rightarrow> int" where
  "best_token lowest dot heads hs =
     snd (cand_of lowest dot hs (heads ! nat (torch_argmax (map (fst \<circ> cand_of lowest dot hs) heads))))"

text \<open>What is asked of the heads of all ranks and of the logits of a hidden state.\<close>

definition heads_ok :: "real \<Rightarrow> ('h \<Rightarrow> 'w \<Rightarrow> real) \<Rightarrow> 'w lm_head list \<Rightarrow> 'h \<Rightarrow> bool" where
  "heads_ok lowest dot heads hs \<longleftrightarrow> list_all head_ok heads \<and> concat (map owned heads) \<noteq> []
     \<and> (\<forall>(i, w)\<in>set (concat (map owned heads)). lowest < dot hs w)"

lemma cand_ok:
  assumes "heads_ok lowest dot heads hs" "head \<in> set heads"
  shows "local_candidate lowest dot head hs = Inr (cand_of lowest dot hs head)" "best_of lowest dot (owned head) hs (cand_of lowest dot hs head)"
proof -
  have "\<exists>c. local_candidate lowest dot head hs = Inr c \<and> best_of lowest dot (owned head) hs c"
    using assms by (intro local_candidate_best) (auto simp: heads_ok_def list_all_iff)
  then show "local_candidate lowest dot head hs = Inr (cand_of lowest dot hs head)" "best_of lowest dot (owned head) hs (cand_of lowest dot hs head)"
    by (auto simp: cand_of_def)
qed

lemma gather_chunk_tokens:
  assumes "heads \<noteq> []" "\<forall>hs\<in>set chunk. heads_ok lowest dot heads hs"
  shows "gather_chunk lowest dot heads chunk = Inr (map (best_token lowest dot heads) chunk)"
proof -
  let ?G = "map (\<lambda>head. map (\<lambda>hs. cand_of lowest dot hs head) chunk) heads"
  have g: "rmap (\<lambda>head. rmap (local_candidate lowest dot head) chunk) heads = Inr ?G"
  proof (intro rmap_Inr)
    fix head hs assume "head \<in> set heads" "hs \<in> set chunk"
    then show "local_candidate lowest dot head hs = Inr (cand_of lowest dot hs head)"
      by (intro cand_ok(1) [of lowest dot heads hs head] bspec [OF assms(2)])
  qed
  have sel: "select_rank ?G j = best_token lowest dot heads (chunk ! j)" if j: "j < length chunk" for j
  proof -
    have e: "map (\<lambda>r. fst (r ! j)) ?G = map (fst \<circ> cand_of lowest dot (chunk ! j)) heads" using j by simp
    have "nat (torch_argmax (map (fst \<circ> cand_of lowest dot (chunk ! j)) heads)) < length heads"
      using torch_argmax_first [of "map (fst \<circ> cand_of lowest dot (chunk ! j)) heads"] assms(1) by (simp add: first_max_def)
    then show ?thesis unfolding select_rank_def Let_def e best_token_def using j by simp
  qed
  show ?thesis
  proof (cases "length heads = 1")
    case True
    then obtain head where h: "heads = [head]" by (cases heads) auto
    have "best_token lowest dot heads hs = snd (cand_of lowest dot hs head)" for hs
      by (simp add: best_token_def h torch_argmax_def)
    then show ?thesis unfolding gather_chunk_def g by (simp add: h)
  next
    case False
    have "map (select_rank ?G) [0..<length chunk] = map (best_token lowest dot heads) chunk"
      using sel by (intro nth_equalityI) simp_all
    then show ?thesis using False unfolding gather_chunk_def g by simp
  qed
qed

lemma fast_chunk_tokens:
  assumes "num_added_elements (shard head) = 0" "\<forall>hs\<in>set chunk. heads_ok lowest dot [head] hs" "chunk \<noteq> []"
  shows "fast_chunk dot head chunk = Inr (map (best_token lowest dot [head]) chunk)"
proof -
  let ?n = "num_org_elements (shard head)" and ?B = "take (num_org_elements (shard head)) (weight head)"
  have h: "heads_ok lowest dot [head] hs" if "hs \<in> set chunk" for hs using assms(2) that by blast
  obtain x where x: "heads_ok lowest dot [head] x" using assms(2,3) by (meson h hd_in_set)
  have n: "0 < ?n" "?n \<le> length (weight head)" using x assms(1) by (auto simp: heads_ok_def owned_def Let_def head_ok_def)
  then have ne: "?B \<noteq> []" by auto
  have "(let logits = map (dot hs) ?B in if logits = [] then Inl IndexError else Inr (torch_argmax logits + org_vocab_start_index (shard head)))
      = Inr (best_token lowest dot [head] hs)" if "hs \<in> set chunk" for hs
  proof -
    have "best_token lowest dot [head] hs = snd (cand_of lowest dot hs head)" by (simp add: best_token_def torch_argmax_def)
    moreover have "local_candidate lowest dot head hs = Inr (map (dot hs) ?B ! nat (torch_argmax (map (dot hs) ?B)), torch_argmax (map (dot hs) ?B) + org_vocab_start_index (shard head))"
      using n ne assms(1) by (simp add: local_candidate_def local_max_def Let_def torch_max_def global_id_def)
    ultimately show ?thesis using ne by (simp add: cand_of_def)
  qed
  then show ?thesis unfolding fast_chunk_def using n(1) by (simp add: rmap_Inr)
qed

lemma greedy_sample_tokens:
  assumes "heads \<noteq> []" "\<forall>hs\<in>set hidden. heads_ok lowest dot heads hs" "0 < chunk_size"
  shows "greedy_sample_from_vocab_parallel_head lowest dot heads chunk_size hidden = Inr (map (best_token lowest dot heads) hidden)"
proof -
  let ?f = "\<lambda>chunk. case heads of [head] \<Rightarrow> if num_added_elements (shard head) = 0 then fast_chunk dot head chunk else gather_chunk lowest dot heads chunk
          | _ \<Rightarrow> gather_chunk lowest dot heads chunk"
  have cc: "concat (sample_chunks chunk_size hidden) = hidden" by (rule concat_sample_chunks [OF assms(3)])
  have "?f c = Inr (map (best_token lowest dot heads) c)" if "c \<in> set (sample_chunks chunk_size hidden)" for c
  proof (cases "c = []")
    case True
    have "gather_chunk lowest dot heads [] = Inr []" by (rule gather_chunk_tokens [OF assms(1), of "[]", simplified])
    then show ?thesis using True assms(1) by (auto simp: fast_chunk_def split: list.splits)
  next
    case False
    have sub: "\<forall>hs\<in>set c. heads_ok lowest dot heads hs" using that cc assms(2) by (metis UN_I set_concat)
    show ?thesis using gather_chunk_tokens [OF assms(1) sub] fast_chunk_tokens [OF _ _ False] sub by (auto split: list.splits)
  qed
  then have "rmap ?f (sample_chunks chunk_size hidden) = Inr (map (map (best_token lowest dot heads)) (sample_chunks chunk_size hidden))" by (rule rmap_Inr)
  then show ?thesis unfolding greedy_sample_from_vocab_parallel_head_def by (simp add: map_concat [symmetric] cc)
qed

text \<open>The token of the best rank has the largest logit of the whole vocabulary, base and added tokens alike.\<close>

lemma best_token_maximal:
  assumes "heads_ok lowest dot heads hs"
  shows "\<exists>w. (best_token lowest dot heads hs, w) \<in> set (concat (map owned heads)) \<and> (\<forall>(i, v)\<in>set (concat (map owned heads)). dot hs v \<le> dot hs w)"
proof -
  let ?c = "cand_of lowest dot hs" and ?M = "map (fst \<circ> cand_of lowest dot hs) heads"
  have ne: "heads \<noteq> []" using assms by (auto simp: heads_ok_def)
  define r where "r = nat (torch_argmax ?M)"
  have "first_max ?M r" unfolding r_def using torch_argmax_first [of ?M] ne by simp
  then have r: "r < length heads" "\<And>k. k < length heads \<Longrightarrow> fst (?c (heads ! k)) \<le> fst (?c (heads ! r))" by (auto simp: first_max_def)
  have best: "best_of lowest dot (owned head) hs (?c head)" if "head \<in> set heads" for head using cand_ok(2) [OF assms that] .
  have all: "dot hs v \<le> fst (?c (heads ! r))" if "(i, v) \<in> set (concat (map owned heads))" for i v
  proof -
    from that obtain head where "head \<in> set heads" "(i, v) \<in> set (owned head)" by auto
    then obtain k where k: "k < length heads" "(i, v) \<in> set (owned (heads ! k))" by (metis in_set_conv_nth)
    then have "dot hs v \<le> fst (?c (heads ! k))" using best [OF nth_mem [OF k(1)]] by (auto simp: best_of_def)
    then show ?thesis using r(2) [OF k(1)] by linarith
  qed
  have "owned (heads ! r) \<noteq> []"
  proof
    assume "owned (heads ! r) = []"
    then have low: "fst (?c (heads ! r)) = lowest" using best [OF nth_mem [OF r(1)]] by (simp add: best_of_def)
    obtain i v where "(i, v) \<in> set (concat (map owned heads))" using assms unfolding heads_ok_def by (metis hd_in_set surj_pair)
    then show False using all low assms unfolding heads_ok_def by fastforce
  qed
  then obtain w where w: "(snd (?c (heads ! r)), w) \<in> set (owned (heads ! r))" "fst (?c (heads ! r)) = dot hs w"
    using best [OF nth_mem [OF r(1)]] by (auto simp: best_of_def)
  have "(best_token lowest dot heads hs, w) \<in> set (concat (map owned heads))"
    using w(1) r(1) by (auto simp: best_token_def r_def)
  then show ?thesis using all w(2) by auto
qed

text \<open>C39 The tokens a draft block is filled with are greedy choices of the target's head: for every hidden state the sampled
  token is one the ranks own, and no token of the whole vocabulary, base or added, on any rank, has a larger logit.\<close>

theorem draft_tokens_maximal:
  assumes "heads \<noteq> []" "\<And>hs. hs \<in> set hidden \<Longrightarrow> heads_ok lowest dot heads hs" "0 < chunk_size"
  shows "\<exists>ids. greedy_sample_from_vocab_parallel_head lowest dot heads chunk_size hidden = Inr ids \<and> length ids = length hidden
    \<and> (\<forall>j<length hidden. \<exists>w. (ids ! j, w) \<in> set (concat (map owned heads))
          \<and> (\<forall>(i, v)\<in>set (concat (map owned heads)). dot (hidden ! j) v \<le> dot (hidden ! j) w))"
proof -
  have "greedy_sample_from_vocab_parallel_head lowest dot heads chunk_size hidden = Inr (map (best_token lowest dot heads) hidden)"
    using assms by (intro greedy_sample_tokens) auto
  moreover have "\<exists>w. (map (best_token lowest dot heads) hidden ! j, w) \<in> set (concat (map owned heads))
      \<and> (\<forall>(i, v)\<in>set (concat (map owned heads)). dot (hidden ! j) v \<le> dot (hidden ! j) w)" if "j < length hidden" for j
    using best_token_maximal [OF assms(2) [OF nth_mem [OF that]]] that by simp
  ultimately show ?thesis by (intro exI [of _ "map (best_token lowest dot heads) hidden"]) simp
qed

subsection \<open>Sharding does not change the choice\<close>

text \<open>Ranks that hold consecutive parts of the base vocabulary, and heads without added tokens.\<close>

fun contiguous :: "int \<Rightarrow> 'w lm_head list \<Rightarrow> bool" where
  "contiguous s [] = True"
| "contiguous s (head # heads) \<longleftrightarrow> org_vocab_start_index (shard head) = s \<and> contiguous (s + int (num_org_elements (shard head))) heads"

definition no_added_tokens :: "'w lm_head list \<Rightarrow> bool" where
  "no_added_tokens heads \<longleftrightarrow> list_all (\<lambda>head. num_added_elements (shard head) = 0) heads"

definition base_rows :: "'w lm_head \<Rightarrow> 'w list" where
  "base_rows head = take (num_org_elements (shard head)) (weight head)"

text \<open>No two tokens of a vocabulary share the largest logit.\<close>

definition unique_best :: "('h \<Rightarrow> 'w \<Rightarrow> real) \<Rightarrow> (int \<times> 'w) list \<Rightarrow> 'h \<Rightarrow> bool" where
  "unique_best dot tokens hs \<longleftrightarrow> (\<forall>(i, v)\<in>set tokens. \<forall>(j, w)\<in>set tokens.
     (\<forall>(k, u)\<in>set tokens. dot hs u \<le> dot hs v \<and> dot hs u \<le> dot hs w) \<longrightarrow> i = j)"

lemma contiguous_start:
  assumes "contiguous s heads" "\<forall>head\<in>set heads. length (base_rows head) = num_org_elements (shard head)" "r < length heads"
  shows "org_vocab_start_index (shard (heads ! r)) = s + int (sum_list (map length (take r (map base_rows heads))))"
  using assms
proof (induction heads arbitrary: s r)
  case (Cons head heads)
  then show ?case by (cases r) auto
qed simp

lemma owned_base: "head_ok head \<Longrightarrow> num_added_elements (shard head) = 0 \<Longrightarrow>
    owned head = map (\<lambda>j. (org_vocab_start_index (shard head) + int j, base_rows head ! j)) [0..<length (base_rows head)]"
  by (auto simp: owned_def Let_def base_rows_def head_ok_def)

lemma owned_concat:
  "list_all head_ok heads \<Longrightarrow> contiguous s heads \<Longrightarrow> no_added_tokens heads \<Longrightarrow>
    concat (map owned heads) = map (\<lambda>k. (s + int k, concat (map base_rows heads) ! k)) [0..<length (concat (map base_rows heads))]"
proof (induction heads arbitrary: s)
  case (Cons head heads)
  let ?n = "length (base_rows head)" and ?R = "concat (map base_rows heads)"
  have h: "head_ok head" "num_added_elements (shard head) = 0" "org_vocab_start_index (shard head) = s" "num_org_elements (shard head) = ?n"
    using Cons.prems by (auto simp: no_added_tokens_def head_ok_def base_rows_def)
  have ih: "concat (map owned heads) = map (\<lambda>k. (s + int ?n + int k, ?R ! k)) [0..<length ?R]"
    using Cons.prems h(4) by (intro Cons.IH) (simp_all add: no_added_tokens_def)
  show ?case using owned_base [OF h(1,2)] h(3) ih
    by (intro nth_equalityI) (auto simp: nth_append not_less)
qed simp

lemma concat_index:
  "k < length (concat Ls) \<Longrightarrow> \<exists>r j. r < length Ls \<and> j < length (Ls ! r) \<and> k = sum_list (map length (take r Ls)) + j \<and> concat Ls ! k = Ls ! r ! j"
proof (induction Ls arbitrary: k)
  case (Cons L Ls)
  show ?case
  proof (cases "k < length L")
    case True
    then show ?thesis by (intro exI [of _ 0] exI [of _ k]) (simp add: nth_append)
  next
    case False
    then have "k - length L < length (concat Ls)" using Cons.prems by simp
    from Cons.IH [OF this] obtain r j where "r < length Ls" "j < length (Ls ! r)" "k - length L = sum_list (map length (take r Ls)) + j"
      "concat Ls ! (k - length L) = Ls ! r ! j" by blast
    then show ?thesis using False by (intro exI [of _ "Suc r"] exI [of _ j]) (simp add: nth_append)
  qed
qed simp

lemma concat_nth_index:
  "r < length Ls \<Longrightarrow> j < length (Ls ! r) \<Longrightarrow> sum_list (map length (take r Ls)) + j < length (concat Ls)
    \<and> concat Ls ! (sum_list (map length (take r Ls)) + j) = Ls ! r ! j"
proof (induction Ls arbitrary: r)
  case (Cons L Ls)
  then show ?case by (cases r) (auto simp: nth_append)
qed simp

text \<open>The first maximum of a concatenation: the first part with the largest maximum, at its first maximum.\<close>

lemma first_max_concat:
  assumes r: "first_max Ms r" "length Ms = length Ls" and a: "first_max (Ls ! r) a" "Ms ! r = Ls ! r ! a"
    and up: "\<And>k j. k < length Ls \<Longrightarrow> j < length (Ls ! k) \<Longrightarrow> Ls ! k ! j \<le> Ms ! k"
  shows "first_max (concat Ls) (sum_list (map length (take r Ls)) + a)"
proof -
  let ?i = "sum_list (map length (take r Ls)) + a"
  have b: "r < length Ls" "a < length (Ls ! r)" using r a(1) by (simp_all add: first_max_def)
  have i: "?i < length (concat Ls)" "concat Ls ! ?i = Ms ! r" using concat_nth_index [OF b] a(2) by simp_all
  have le: "concat Ls ! k \<le> Ms ! r" if "k < length (concat Ls)" for k
  proof -
    from concat_index [OF that] obtain r' j where k: "r' < length Ls" "j < length (Ls ! r')" "concat Ls ! k = Ls ! r' ! j" by blast
    then show ?thesis using up [OF k(1,2)] r by (auto simp: first_max_def intro: order_trans)
  qed
  have lt: "concat Ls ! k < Ms ! r" if "k < ?i" for k
  proof -
    have "k < length (concat Ls)" using that i(1) by simp
    from concat_index [OF this] obtain r' j where k: "r' < length Ls" "j < length (Ls ! r')" "k = sum_list (map length (take r' Ls)) + j"
      "concat Ls ! k = Ls ! r' ! j" by blast
    consider "r' < r" | "r' = r" | "r < r'" by linarith
    then show ?thesis
    proof cases
      case 1
      then have "Ms ! r' < Ms ! r" using r by (simp add: first_max_def)
      then show ?thesis using up [OF k(1,2)] k(4) by linarith
    next
      case 2
      then have "j < a" using k(3) that by simp
      then show ?thesis using a 2 k(4) by (simp add: first_max_def)
    next
      case 3
      have "sum_list (map length (take r Ls)) + length (Ls ! r) = sum_list (map length (take (Suc r) Ls))" using b(1) by (simp add: take_Suc_conv_app_nth)
      also have "\<dots> \<le> sum_list (map length (take r' Ls))" using 3 sum_list_take_mono [of "Suc r" r' "map length Ls"] by (simp add: take_map)
      finally show ?thesis using k(3) that b(2) by linarith
    qed
  qed
  show ?thesis unfolding first_max_def i(2) using i(1) le lt by blast
qed

lemma base_candidate:
  assumes "num_added_elements (shard head) = 0"
  shows "cand_of lowest dot hs head = (if 0 < num_org_elements (shard head) \<and> base_rows head \<noteq> []
      then let xs = map (dot hs) (base_rows head) in (xs ! nat (torch_argmax xs), torch_argmax xs + org_vocab_start_index (shard head))
      else if 0 < num_org_elements (shard head) then cand_of lowest dot hs head else (lowest, org_vocab_start_index (shard head)))"
  using assms by (simp add: cand_of_def local_candidate_def local_max_def Let_def torch_max_def global_id_def base_rows_def)

lemma best_token_merged:
  assumes ok: "heads_ok lowest dot heads hs" and con: "contiguous s heads" and na: "no_added_tokens heads"
  shows "best_token lowest dot heads hs = torch_argmax (map (dot hs) (concat (map base_rows heads))) + s"
proof -
  let ?Ls = "map (\<lambda>head. map (dot hs) (base_rows head)) heads" and ?Ms = "map (fst \<circ> cand_of lowest dot hs) heads"
  have len: "length (base_rows head) = num_org_elements (shard head)" if "head \<in> set heads" for head
    using ok that by (auto simp: heads_ok_def head_ok_def list_all_iff base_rows_def)
  have st: "org_vocab_start_index (shard (heads ! r)) = s + int (sum_list (map length (take r (map base_rows heads))))"
    "num_added_elements (shard (heads ! r)) = 0" if "r < length heads" for r
    using contiguous_start [OF con _ that] len na that by (auto simp: no_added_tokens_def list_all_iff)
  have own: "owned (heads ! r) = map (\<lambda>j. (org_vocab_start_index (shard (heads ! r)) + int j, base_rows (heads ! r) ! j)) [0..<length (base_rows (heads ! r))]"
    if "r < length heads" for r
    using st(2) [OF that] len [OF nth_mem [OF that]] by (simp add: owned_def Let_def base_rows_def)
  have ne: "heads \<noteq> []" using ok by (auto simp: heads_ok_def)
  define r where "r = nat (torch_argmax ?Ms)"
  have r: "first_max ?Ms r" unfolding r_def using torch_argmax_first [of ?Ms] ne by simp
  then have rl: "r < length heads" by (simp add: first_max_def)
  let ?h = "heads ! r" and ?xs = "map (dot hs) (base_rows (heads ! r))"
  obtain w where w: "(best_token lowest dot heads hs, w) \<in> set (concat (map owned heads))"
    "\<forall>(i, v)\<in>set (concat (map owned heads)). dot hs v \<le> dot hs w" using best_token_maximal [OF ok] by blast
  have low: "lowest < dot hs w" using ok w(1) unfolding heads_ok_def by blast
  have up: "?Ls ! k ! j \<le> ?Ms ! k" if "k < length ?Ls" "j < length (?Ls ! k)" for k j
  proof -
    have k: "k < length heads" "j < length (base_rows (heads ! k))" using that by simp_all
    have "(org_vocab_start_index (shard (heads ! k)) + int j, base_rows (heads ! k) ! j) \<in> set (owned (heads ! k))" unfolding own [OF k(1)] using k(2) by auto
    then show ?thesis using cand_ok(2) [OF ok nth_mem [OF k(1)]] k by (auto simp: best_of_def)
  qed
  have rne: "base_rows ?h \<noteq> []"
  proof
    assume e: "base_rows ?h = []"
    then have "num_org_elements (shard ?h) = 0" using len [OF nth_mem [OF rl]] by simp
    then have m: "?Ms ! r = lowest" using base_candidate [OF st(2) [OF rl], of lowest dot hs] rl by simp
    from w(1) obtain head where "head \<in> set heads" "(best_token lowest dot heads hs, w) \<in> set (owned head)" by auto
    then obtain k where k: "k < length heads" "(best_token lowest dot heads hs, w) \<in> set (owned (heads ! k))" by (metis in_set_conv_nth)
    then obtain j where "j < length (base_rows (heads ! k))" "w = base_rows (heads ! k) ! j" unfolding own [OF k(1)] by auto
    then have "dot hs w \<le> ?Ms ! k" using up [of k j] k(1) by simp
    also have "\<dots> \<le> ?Ms ! r" using r k(1) unfolding first_max_def length_map by blast
    finally show False using low m by simp
  qed
  then have pos: "0 < num_org_elements (shard ?h)" using len [OF nth_mem [OF rl]] by (metis length_greater_0_conv)
  have c: "cand_of lowest dot hs ?h = (?xs ! nat (torch_argmax ?xs), torch_argmax ?xs + org_vocab_start_index (shard ?h))"
    using base_candidate [OF st(2) [OF rl], of lowest dot hs] pos rne by (simp add: Let_def)
  define a where "a = nat (torch_argmax ?xs)"
  have a: "first_max ?xs a" "torch_argmax ?xs = int a" using torch_argmax_first [of ?xs] rne by (simp_all add: a_def)
  have "first_max (concat ?Ls) (sum_list (map length (take r ?Ls)) + a)"
  proof (rule first_max_concat [OF r])
    show "length ?Ms = length ?Ls" by simp
    show "first_max (?Ls ! r) a" using a(1) rl by simp
    show "?Ms ! r = ?Ls ! r ! a" using c rl by (simp add: a_def)
  qed (rule up)
  moreover have "concat ?Ls = map (dot hs) (concat (map base_rows heads))" by (simp add: map_concat comp_def)
  ultimately have "torch_argmax (map (dot hs) (concat (map base_rows heads))) = int (sum_list (map length (take r ?Ls)) + a)"
    using torch_argmax_eqI by metis
  moreover have "map length (take r ?Ls) = map length (take r (map base_rows heads))" by (simp add: take_map)
  moreover have "best_token lowest dot heads hs = int a + org_vocab_start_index (shard ?h)"
    unfolding best_token_def r_def [symmetric] c using a(2) by simp
  ultimately show ?thesis using st(1) [OF rl] by simp
qed

lemma best_token_unique:
  assumes "heads_ok lowest dot heads hs" "heads_ok lowest dot heads' hs" "set (concat (map owned heads)) = set (concat (map owned heads'))"
    and "unique_best dot (concat (map owned heads)) hs"
  shows "best_token lowest dot heads hs = best_token lowest dot heads' hs"
proof -
  let ?S = "set (concat (map owned heads))"
  obtain v where v: "(best_token lowest dot heads hs, v) \<in> ?S" "\<forall>(k, u)\<in>?S. dot hs u \<le> dot hs v" using best_token_maximal [OF assms(1)] by blast
  obtain w where w: "(best_token lowest dot heads' hs, w) \<in> ?S" "\<forall>(k, u)\<in>?S. dot hs u \<le> dot hs w"
    using best_token_maximal [OF assms(2)] unfolding assms(3) [symmetric] by blast
  have "\<forall>(k, u)\<in>?S. dot hs u \<le> dot hs v \<and> dot hs u \<le> dot hs w" using v(2) w(2) by blast
  then show ?thesis using assms(4) v(1) w(1) unfolding unique_best_def by blast
qed

lemma same_rows:
  assumes "set (map (\<lambda>k. (s + int k, R ! k)) [0..<length R]) = set (map (\<lambda>k. (s + int k, R' ! k)) [0..<length R'])"
  shows "R = R'"
proof (rule nth_equalityI)
  have i: "(s + int k, x) \<in> set (map (\<lambda>k. (s + int k, Q ! k)) [0..<length Q]) \<longleftrightarrow> k < length Q \<and> x = Q ! k" for k x and Q :: "'a list" by auto
  have "k < length R \<longleftrightarrow> k < length R'" for k using i [of k _ R] i [of k _ R'] assms by blast
  then show "length R = length R'" by (meson linorder_neqE_nat order_less_irrefl)
  show "R ! k = R' ! k" if "k < length R" for k using i [of k "R ! k" R] i [of k "R ! k" R'] assms that by blast
qed

text \<open>C14 The drafted tokens do not depend on how the head is sharded: two shardings of the same vocabulary, base and added tokens, over any
  numbers of ranks and with any chunk sizes, give the same tokens for every hidden state for which no two tokens share the largest logit.
  When the ranks hold consecutive parts of the base vocabulary and there are no added tokens, they also agree on ties.\<close>

theorem sharding_keeps_draft_tokens:
  assumes "heads \<noteq> []" "heads' \<noteq> []" "0 < chunk_size" "0 < chunk_size'"
    and "\<And>hs. hs \<in> set hidden \<Longrightarrow> heads_ok lowest dot heads hs" "\<And>hs. hs \<in> set hidden \<Longrightarrow> heads_ok lowest dot heads' hs"
    and "set (concat (map owned heads)) = set (concat (map owned heads'))"
    and "(\<forall>hs\<in>set hidden. unique_best dot (concat (map owned heads)) hs)
      \<or> contiguous s heads \<and> contiguous s heads' \<and> no_added_tokens heads \<and> no_added_tokens heads'"
  shows "greedy_sample_from_vocab_parallel_head lowest dot heads chunk_size hidden
    = greedy_sample_from_vocab_parallel_head lowest dot heads' chunk_size' hidden"
proof -
  have "best_token lowest dot heads hs = best_token lowest dot heads' hs" if hs: "hs \<in> set hidden" for hs
    using assms(8)
  proof (elim disjE conjE)
    assume "\<forall>hs\<in>set hidden. unique_best dot (concat (map owned heads)) hs"
    then show ?thesis using best_token_unique [OF assms(5,6,7)] hs by blast
  next
    assume c: "contiguous s heads" "contiguous s heads'" "no_added_tokens heads" "no_added_tokens heads'"
    have "list_all head_ok heads" "list_all head_ok heads'" using assms(5,6) [OF hs] by (simp_all add: heads_ok_def)
    from owned_concat [OF this(1) c(1,3)] owned_concat [OF this(2) c(2,4)] assms(7)
    have "concat (map base_rows heads) = concat (map base_rows heads')" by (intro same_rows [of s]) metis
    then show ?thesis using best_token_merged [OF assms(5) [OF hs] c(1,3)] best_token_merged [OF assms(6) [OF hs] c(2,4)] by simp
  qed
  then have "map (best_token lowest dot heads) hidden = map (best_token lowest dot heads') hidden" by simp
  moreover have "\<forall>hs\<in>set hidden. heads_ok lowest dot heads hs" "\<forall>hs\<in>set hidden. heads_ok lowest dot heads' hs" using assms(5,6) by blast+
  ultimately show ?thesis using greedy_sample_tokens [OF assms(1) _ assms(3)] greedy_sample_tokens [OF assms(2) _ assms(4)] by metis
qed

subsection \<open>Two ranks\<close>

definition example_heads :: "real lm_head list" where
  "example_heads = [\<lparr>weight = [1, 5, 0], shard = \<lparr>num_org_elements = 2, num_org_elements_padded = 3, num_added_elements = 0,
       org_vocab_start_index = 0, added_vocab_start_index = 4\<rparr>\<rparr>,
     \<lparr>weight = [5, 2], shard = \<lparr>num_org_elements = 2, num_org_elements_padded = 2, num_added_elements = 0,
       org_vocab_start_index = 2, added_vocab_start_index = 4\<rparr>\<rparr>]"

lemma example_heads_ok: "0 < h \<Longrightarrow> heads_ok (-1) (*) example_heads h"
  by (simp add: heads_ok_def example_heads_def head_ok_def owned_def Let_def numeral_2_eq_2)

theorem draft_tokens_maximal_witness:
  "\<exists>ids. greedy_sample_from_vocab_parallel_head (-1) (*) example_heads 1 [1, 2] = Inr ids \<and> length ids = 2"
proof -
  have ne: "example_heads \<noteq> []" by (simp add: example_heads_def)
  have ok: "heads_ok (-1) (*) example_heads hs" if "hs \<in> set [1, 2]" for hs using that by (intro example_heads_ok) auto
  from draft_tokens_maximal [OF ne ok zero_less_one] show ?thesis by fastforce
qed

definition example_single :: "real lm_head" where
  "example_single = \<lparr>weight = [1, 5, 5, 2], shard = \<lparr>num_org_elements = 4, num_org_elements_padded = 4, num_added_elements = 0,
     org_vocab_start_index = 0, added_vocab_start_index = 4\<rparr>\<rparr>"

definition example_added :: "real lm_head list" where
  "example_added = [\<lparr>weight = [1, 5, 0], shard = \<lparr>num_org_elements = 2, num_org_elements_padded = 3, num_added_elements = 0,
       org_vocab_start_index = 0, added_vocab_start_index = 4\<rparr>\<rparr>,
     \<lparr>weight = [5, 2, 7], shard = \<lparr>num_org_elements = 2, num_org_elements_padded = 2, num_added_elements = 1,
       org_vocab_start_index = 2, added_vocab_start_index = 4\<rparr>\<rparr>]"

definition example_added_single :: "real lm_head" where
  "example_added_single = \<lparr>weight = [1, 5, 5, 2, 7], shard = \<lparr>num_org_elements = 4, num_org_elements_padded = 4, num_added_elements = 1,
     org_vocab_start_index = 0, added_vocab_start_index = 4\<rparr>\<rparr>"

lemma example_owned:
  "concat (map owned example_heads) = [(0, 1), (1, 5), (2, 5), (3, 2)]" "owned example_single = [(0, 1), (1, 5), (2, 5), (3, 2)]"
  "concat (map owned example_added) = [(0, 1), (1, 5), (2, 5), (3, 2), (4, 7)]" "owned example_added_single = [(0, 1), (1, 5), (2, 5), (3, 2), (4, 7)]"
  by (simp_all add: owned_def example_heads_def example_single_def example_added_def example_added_single_def Let_def numeral_2_eq_2 upt_rec)

lemma example_shardings_ok:
  "0 < h \<Longrightarrow> heads_ok (-1) (*) [example_single] h" "0 < h \<Longrightarrow> heads_ok (-1) (*) example_added h" "0 < h \<Longrightarrow> heads_ok (-1) (*) [example_added_single] h"
  by (simp_all add: heads_ok_def example_owned) (simp_all add: example_single_def example_added_def example_added_single_def head_ok_def)

theorem sharding_keeps_draft_tokens_witness:
  "greedy_sample_from_vocab_parallel_head (-1) (*) example_heads 1 [1, 2] = greedy_sample_from_vocab_parallel_head (-1) (*) [example_single] 256 [1, 2]
    \<and> greedy_sample_from_vocab_parallel_head (-1) (*) example_added 1 [1, 2]
      = greedy_sample_from_vocab_parallel_head (-1) (*) [example_added_single] 256 [1, 2 :: real]"
proof -
  have ne: "example_heads \<noteq> []" "example_added \<noteq> []" by (simp_all add: example_heads_def example_added_def)
  have c: "contiguous 0 example_heads \<and> contiguous 0 [example_single] \<and> no_added_tokens example_heads \<and> no_added_tokens [example_single]"
    by (simp add: example_heads_def example_single_def no_added_tokens_def)
  have u: "\<forall>hs\<in>set [1, 2 :: real]. unique_best (*) (concat (map owned example_added)) hs" by (simp add: unique_best_def example_owned)
  have h: "hs \<in> set [1, 2] \<Longrightarrow> 0 < hs" for hs :: real by auto
  have "greedy_sample_from_vocab_parallel_head (-1) (*) example_heads 1 [1, 2] = greedy_sample_from_vocab_parallel_head (-1) (*) [example_single] 256 [1, 2]"
    by (rule sharding_keeps_draft_tokens [where s = 0]) (use ne c h example_heads_ok example_shardings_ok in \<open>simp_all add: example_owned\<close>)
  moreover have "greedy_sample_from_vocab_parallel_head (-1) (*) example_added 1 [1, 2] = greedy_sample_from_vocab_parallel_head (-1) (*) [example_added_single] 256 [1, 2 :: real]"
    by (rule sharding_keeps_draft_tokens [where s = 0]) (use ne u h example_shardings_ok in \<open>simp_all add: example_owned\<close>)
  ultimately show ?thesis by blast
qed

end
