(* ===== verification/Fused_Kv.thy ===== *)
theory Fused_Kv
  imports Dflash_Config Kv_Allocator
begin

section \<open>Keys and values of context tokens\<close>

text \<open>
  How the features of committed tokens become keys and values of the draft model: the layer operations of
  \<^verbatim>\<open>srt/models/dflash.py\<close> (\<^verbatim>\<open>kv_proj_only\<close>, \<^verbatim>\<open>apply_k_norm\<close>, \<^verbatim>\<open>apply_k_rope\<close>) with the reference implementations of
  \<^verbatim>\<open>RMSNorm\<close> (\<^verbatim>\<open>srt/layers/layernorm.py\<close>) and of rotary embeddings (\<^verbatim>\<open>srt/layers/rotary_embedding\<close>), and the fused path
  of \<^verbatim>\<open>srt/speculative/triton_ops/fused_kv_materialize.py\<close> with its Triton kernel as a program on flat memory. The
  fused path computes what the layer operations compute.

  Numbers are reals. A read of the kernel outside its buffer yields \<open>oob\<close>, the buffers it allocates hold \<open>garbage\<close>. The
  projection of a quantised layer is a field of the layer.
\<close>

record rotary_embedding =
  rotary_dim :: nat
  is_neox_style :: bool
  rope_base :: real
  cos_sin_cache :: "real list list"

record attn_layer =
  num_kv_heads :: nat
  head_dim :: nat
  q_size :: nat
  qkv_info :: qkv_layer
  qkv_weight :: "real list list"
  qkv_bias :: "real list option"
  qkv_apply :: "real list \<Rightarrow> real list"
  k_norm_weight :: "real list"
  k_norm_eps :: real
  rotary_emb :: rotary_embedding
  k_scale :: "real option"
  v_scale :: "real option"

definition kv_size :: "attn_layer \<Rightarrow> nat" where
  "kv_size l = num_kv_heads l * head_dim l"

subsection \<open>The layer operations\<close>

definition lin_dot :: "real list \<Rightarrow> real list \<Rightarrow> real" where
  "lin_dot w x = sum_list (map2 (*) w x)"

text \<open>\<^verbatim>\<open>F.linear\<close> and \<^verbatim>\<open>split\<close> of one row.\<close>

definition linear_row :: "real list list \<Rightarrow> real list option \<Rightarrow> real list \<Rightarrow> real list" where
  "linear_row W b x = (case b of None \<Rightarrow> map (\<lambda>w. lin_dot w x) W | Some bs \<Rightarrow> map2 (\<lambda>w c. lin_dot w x + c) W bs)"

definition split2 :: "nat \<Rightarrow> nat \<Rightarrow> 'a list \<Rightarrow> ('a list \<times> 'a list) res" where
  "split2 n m xs = (if length xs \<noteq> n + m then Inl RuntimeError else Inr (take n xs, drop n xs))"

definition kv_proj_only :: "attn_layer \<Rightarrow> real list \<Rightarrow> (real list \<times> real list) res" where
  "kv_proj_only l x =
     (if fst (can_dflash_slice_qkv_weight (qkv_info l))
      then let kv_slice = (q_size l, q_size l + 2 * kv_size l);
               W = slice (fst kv_slice) (snd kv_slice) (qkv_weight l);
               b = map_option (slice (fst kv_slice) (snd kv_slice)) (qkv_bias l)
           in split2 (kv_size l) (kv_size l) (linear_row W b x)
      else rbind (split2 (q_size l) (2 * kv_size l) (qkv_apply l x)) (\<lambda>(_, kv). split2 (kv_size l) (kv_size l) kv))"

definition rms_norm :: "real list \<Rightarrow> real \<Rightarrow> real list \<Rightarrow> real list res" where
  "rms_norm w eps x =
     (if length x \<noteq> length w then Inl ValueError
      else let variance = sum_list (map (\<lambda>a. a ^ 2) x) / real (length x) in
        Inr (map2 (\<lambda>a c. a * (1 / sqrt (variance + eps)) * c) x w))"

definition heads_of :: "attn_layer \<Rightarrow> 'a list \<Rightarrow> 'a list list" where
  "heads_of l k = rows (num_kv_heads l) (head_dim l) k"

definition apply_k_norm :: "attn_layer \<Rightarrow> real list \<Rightarrow> real list res" where
  "apply_k_norm l k = rbind (rmap (rms_norm (k_norm_weight l) (k_norm_eps l)) (heads_of l k)) (\<lambda>hs. Inr (concat hs))"

definition chunk2 :: "'a list \<Rightarrow> 'a list \<times> 'a list" where
  "chunk2 xs = (let n = (length xs + 1) div 2 in (take n xs, drop n xs))"

fun interleave :: "'a list \<Rightarrow> 'a list \<Rightarrow> 'a list" where
  "interleave (x # xs) (y # ys) = x # y # interleave xs ys"
| "interleave _ _ = []"

fun evens :: "'a list \<Rightarrow> 'a list" where
  "evens (x # y # xs) = x # evens xs"
| "evens xs = xs"

definition apply_rotary_emb :: "bool \<Rightarrow> real list \<Rightarrow> real list \<Rightarrow> real list \<Rightarrow> real list res" where
  "apply_rotary_emb neox cos_v sin_v x =
     (let (x1, x2) = (if neox then chunk2 x else (evens x, evens (drop 1 x))) in
      if length x1 \<noteq> length x2 \<or> length cos_v \<noteq> length x1 \<or> length sin_v \<noteq> length x1 then Inl RuntimeError
      else let o1 = map2 (-) (map2 (*) x1 cos_v) (map2 (*) x2 sin_v);
               o2 = map2 (+) (map2 (*) x2 cos_v) (map2 (*) x1 sin_v)
           in Inr (if neox then o1 @ o2 else interleave o1 o2))"

definition rope_head :: "rotary_embedding \<Rightarrow> real list \<Rightarrow> real list \<Rightarrow> real list \<Rightarrow> real list res" where
  "rope_head rot cos_v sin_v key =
     rbind (apply_rotary_emb (is_neox_style rot) cos_v sin_v (take (rotary_dim rot) key)) (\<lambda>r. Inr (r @ drop (rotary_dim rot) key))"

definition apply_k_rope :: "attn_layer \<Rightarrow> int \<Rightarrow> real list \<Rightarrow> real list res" where
  "apply_k_rope l pos k =
     (let rot = rotary_emb l in
      if pos < 0 \<or> int (length (cos_sin_cache rot)) \<le> pos then Inl IndexError
      else let (cos_v, sin_v) = chunk2 (cos_sin_cache rot ! nat pos) in
        rbind (rmap (rope_head rot cos_v sin_v) (heads_of l k)) (\<lambda>hs. Inr (concat hs)))"

text \<open>The keys and values of one token in one layer, by heads: the body of \<^verbatim>\<open>_append_target_hidden_sequential\<close>.\<close>

definition layer_kv :: "attn_layer \<Rightarrow> real list \<times> int \<Rightarrow> (real list list \<times> real list list) res" where
  "layer_kv l xp =
     rbind (kv_proj_only l (fst xp)) (\<lambda>(k, v).
     rbind (apply_k_norm l k) (\<lambda>k1.
     rbind (apply_k_rope l (snd xp) k1) (\<lambda>k2. Inr (heads_of l k2, heads_of l v))))"

subsection \<open>The cache of rotary factors\<close>

definition inv_freq :: "rotary_embedding \<Rightarrow> nat \<Rightarrow> real" where
  "inv_freq rot j = 1 / (rope_base rot powr (real (2 * j) / real (rotary_dim rot)))"

definition rope_row :: "rotary_embedding \<Rightarrow> nat \<Rightarrow> real list" where
  "rope_row rot t = (let freqs = map (\<lambda>j. real t * inv_freq rot j) [0..<(rotary_dim rot + 1) div 2] in map cos freqs @ map sin freqs)"

definition compute_cos_sin_cache :: "rotary_embedding \<Rightarrow> nat \<Rightarrow> real list list" where
  "compute_cos_sin_cache rot max_position_embeddings = map (rope_row rot) [0..<max_position_embeddings]"

definition ensure_cos_sin_cache_length :: "nat \<Rightarrow> nat \<Rightarrow> rotary_embedding \<Rightarrow> rotary_embedding" where
  "ensure_cos_sin_cache_length align needed_max_pos rot =
     (let cur_len = length (cos_sin_cache rot) in
      if needed_max_pos < cur_len then rot
      else let new_len = (needed_max_pos + align) div align * align; t_new = [cur_len..<new_len] in
        if t_new = [] then rot
        else rot\<lparr>cos_sin_cache := cos_sin_cache rot @ map (rope_row rot) t_new\<rparr>)"

subsection \<open>The fused kernel\<close>

text \<open>Masked loads and stores of a block of \<open>n\<close> offsets.\<close>

definition tl_load :: "(int \<Rightarrow> real) \<Rightarrow> real list \<Rightarrow> int \<Rightarrow> nat \<Rightarrow> (nat \<Rightarrow> bool) \<Rightarrow> real \<Rightarrow> real list" where
  "tl_load oob buf base n m other =
     map (\<lambda>i. if m i then (let a = base + int i in if 0 \<le> a \<and> a < int (length buf) then buf ! nat a else oob a) else other) [0..<n]"

definition tl_store :: "nat \<Rightarrow> nat \<Rightarrow> (nat \<Rightarrow> bool) \<Rightarrow> real list \<Rightarrow> real list \<Rightarrow> real list" where
  "tl_store base n m vals buf = fold (\<lambda>i b. if m i then b[base + i := vals ! i] else b) [0..<n] buf"

record kernel_dims =
  kd_heads :: nat
  kd_head_dim :: nat
  kd_rotary_dim :: nat
  kd_eps :: real
  kd_block :: nat
  kd_cos_sin_stride :: nat

definition norm_rope_program ::
  "(int \<Rightarrow> real) \<Rightarrow> kernel_dims \<Rightarrow> real list \<Rightarrow> real list \<Rightarrow> real list \<Rightarrow> int list \<Rightarrow> nat \<times> nat \<Rightarrow> real list \<times> real list \<Rightarrow> real list \<times> real list" where
  "norm_rope_program oob kd kvb norm_weight cos_sin positions pid out =
     (let (ctx_id, head_id) = pid; hdim = kd_head_dim kd; size = kd_heads kd * hdim; half = kd_rotary_dim kd div 2; B = kd_block kd;
          position = positions ! ctx_id;
          k_base = int (ctx_id * (2 * size) + head_id * hdim); v_base = int (ctx_id * (2 * size) + size + head_id * hdim);
          write = ctx_id * size + head_id * hdim;
          mask_hd = (\<lambda>i. i < hdim); mask_half = (\<lambda>i. i < half);
          k_raw = tl_load oob kvb k_base B mask_hd 0; v_raw = tl_load oob kvb v_base B mask_hd 0;
          inv_rms = 1 / sqrt (sum_list (map2 (*) k_raw k_raw) / real hdim + kd_eps kd);
          norm_w = tl_load oob norm_weight 0 B mask_hd 1;
          k_normed = map2 (*) (map (\<lambda>a. a * inv_rms) k_raw) norm_w;
          cos_sin_base = position * int (kd_cos_sin_stride kd);
          cos_v = tl_load oob cos_sin cos_sin_base B mask_half 1; sin_v = tl_load oob cos_sin (cos_sin_base + int half) B mask_half 0;
          k_first = map2 (\<lambda>i a. if mask_half i then a else 0) [0..<B] k_normed;
          k_second_raw = tl_load oob kvb (k_base + int half) B mask_half 0;
          norm_w_second = tl_load oob norm_weight (int half) B mask_half 1;
          k_second = map2 (*) (map (\<lambda>a. a * inv_rms) k_second_raw) norm_w_second;
          k_rot_first = map2 (-) (map2 (*) k_first cos_v) (map2 (*) k_second sin_v);
          k_rot_second = map2 (+) (map2 (*) k_second cos_v) (map2 (*) k_first sin_v);
          v_out = tl_store write B mask_hd v_raw (snd out);
          k1 = tl_store write B mask_half k_rot_first (fst out);
          k2 = tl_store (write + half) B mask_half k_rot_second k1;
          k3 = tl_store write B (\<lambda>i. kd_rotary_dim kd \<le> i \<and> i < hdim) k_normed k2
      in (k3, v_out))"

fun next_power_of_2_from :: "nat \<Rightarrow> nat \<Rightarrow> nat \<Rightarrow> nat" where
  "next_power_of_2_from 0 p n = p"
| "next_power_of_2_from (Suc fuel) p n = (if n \<le> p then p else next_power_of_2_from fuel (2 * p) n)"

definition next_power_of_2 :: "nat \<Rightarrow> nat" where
  "next_power_of_2 n = next_power_of_2_from n 1 n"

definition fused_norm_rope ::
  "(int \<Rightarrow> real) \<Rightarrow> (nat \<Rightarrow> real) \<Rightarrow> real list list \<Rightarrow> real list \<Rightarrow> real list list \<Rightarrow> int list \<Rightarrow> nat \<Rightarrow> nat \<Rightarrow> nat \<Rightarrow> real
     \<Rightarrow> (real list list list \<times> real list list list) res" where
  "fused_norm_rope oob garbage kvb norm_weight cs_cache positions heads hdim rd eps =
     (let total_ctx = length kvb in
      if total_ctx = 0 then Inr ([], [])
      else if \<exists>r\<in>set kvb. length r \<noteq> heads * hdim * 2 then Inl ValueError
      else if rd = 0 \<or> hdim < rd \<or> odd rd then Inl ValueError
      else let kd = \<lparr>kd_heads = heads, kd_head_dim = hdim, kd_rotary_dim = rd, kd_eps = eps, kd_block = next_power_of_2 hdim,
                     kd_cos_sin_stride = (case cs_cache of [] \<Rightarrow> 0 | r # _ \<Rightarrow> length r)\<rparr>;
               grid = concat (map (\<lambda>c. map (\<lambda>h. (c, h)) [0..<heads]) [0..<total_ctx]);
               empty = map garbage [0..<total_ctx * (heads * hdim)];
               (k_out, v_out) = fold (norm_rope_program oob kd (concat kvb) norm_weight (concat cs_cache) positions) grid (empty, empty)
           in Inr (map (rows heads hdim) (rows total_ctx (heads * hdim) k_out), map (rows heads hdim) (rows total_ctx (heads * hdim) v_out)))"

subsection \<open>The helper\<close>

record fused_helper =
  fh_heads :: nat
  fh_head_dim :: nat
  fh_rotary_dim :: nat
  fh_rotary :: rotary_embedding
  fh_kv_weights :: "real list list list"
  fh_norm_weights :: "real list list"
  fh_eps :: "real list"

definition helper_layer :: "nat \<Rightarrow> nat \<Rightarrow> nat \<Rightarrow> bool \<Rightarrow> attn_layer \<Rightarrow> real list list res" where
  "helper_layer heads hdim rd neox l =
     (if num_kv_heads l \<noteq> heads then Inl ValueError
      else if head_dim l \<noteq> hdim then Inl ValueError
      else if rotary_dim (rotary_emb l) \<noteq> rd \<or> is_neox_style (rotary_emb l) \<noteq> neox then Inl ValueError
      else Inr (slice (q_size l) (q_size l + 2 * kv_size l) (qkv_weight l)))"

definition new_fused_helper :: "attn_layer list \<Rightarrow> rotary_embedding \<Rightarrow> nat \<Rightarrow> nat \<Rightarrow> fused_helper res" where
  "new_fused_helper layers rot heads hdim =
     (if \<not> is_neox_style rot then Inl NotImplementedError
      else if rotary_dim rot = 0 \<or> hdim < rotary_dim rot then Inl ValueError
      else rbind (rmap (helper_layer heads hdim (rotary_dim rot) (is_neox_style rot)) layers) (\<lambda>ws.
        if \<exists>w\<in>set ws. map length w \<noteq> map length (hd ws) then Inl RuntimeError
        else Inr \<lparr>fh_heads = heads, fh_head_dim = hdim, fh_rotary_dim = rotary_dim rot, fh_rotary = rot, fh_kv_weights = ws,
                  fh_norm_weights = map k_norm_weight layers, fh_eps = map k_norm_eps layers\<rparr>))"

definition isclose_one :: "real \<Rightarrow> bool" where
  "isclose_one x \<longleftrightarrow> \<bar>x - 1\<bar> \<le> 1 / 10 ^ 9 * max \<bar>x\<bar> 1"

definition fused_eligible :: "attn_layer \<Rightarrow> bool" where
  "fused_eligible l \<longleftrightarrow> fst (can_dflash_use_fused_qkv_proj (qkv_info l))
     \<and> (case k_scale l of None \<Rightarrow> True | Some s \<Rightarrow> isclose_one s) \<and> (case v_scale l of None \<Rightarrow> True | Some s \<Rightarrow> isclose_one s)
     \<and> is_neox_style (rotary_emb l)"

text \<open>\<^verbatim>\<open>_init_fused_kv_helper\<close>: every exception disables the fused path.\<close>

definition init_fused_kv_helper :: "attn_layer list \<Rightarrow> fused_helper option" where
  "init_fused_kv_helper layers =
     (case layers of
        [] \<Rightarrow> None
      | first # _ \<Rightarrow>
          if \<not> list_all fused_eligible layers then None
          else case new_fused_helper layers (rotary_emb first) (num_kv_heads first) (head_dim first) of Inl _ \<Rightarrow> None | Inr h \<Rightarrow> Some h)"

text \<open>The loop over layers: what was written before an exception, and the exception.\<close>

type_synonym kv_rows = "real list list list \<times> real list list list"

fun fused_layers :: "(nat \<Rightarrow> kv_rows res) \<Rightarrow> nat list \<Rightarrow> (nat \<times> kv_rows) list \<times> py_exn option" where
  "fused_layers f [] = ([], None)"
| "fused_layers f (i # is) =
     (case f i of Inl e \<Rightarrow> ([], Some e)
      | Inr r \<Rightarrow> (case fused_layers f is of (ws, e) \<Rightarrow> ((i, r) # ws, e)))"

definition materialize ::
  "(int \<Rightarrow> real) \<Rightarrow> (nat \<Rightarrow> real) \<Rightarrow> nat \<Rightarrow> fused_helper \<Rightarrow> real list list \<Rightarrow> int list
     \<Rightarrow> fused_helper \<times> (nat \<times> kv_rows) list \<times> py_exn option" where
  "materialize oob garbage align h ctx_hidden positions =
     (if ctx_hidden = [] then (h, [], None)
      else if length positions \<noteq> length ctx_hidden then (h, [], Some ValueError)
      else let max_position = Max (set positions);
               rot = ensure_cos_sin_cache_length align (nat max_position) (fh_rotary h);
               h' = h\<lparr>fh_rotary := rot\<rparr>
           in if int (length (cos_sin_cache rot)) \<le> max_position then (h', [], Some RuntimeError)
              else let kv_all = map (\<lambda>W. map (\<lambda>x. map (\<lambda>w. lin_dot w x) W) ctx_hidden) (fh_kv_weights h) in
                case fused_layers (\<lambda>i. fused_norm_rope oob garbage (kv_all ! i) (fh_norm_weights h ! i) (cos_sin_cache rot) positions
                       (fh_heads h) (fh_head_dim h) (fh_rotary_dim h) (fh_eps h ! i)) [0..<length (fh_kv_weights h)] of
                  (ws, e) \<Rightarrow> (h', ws, e))"

section \<open>The fused path computes the layer operations\<close>

subsection \<open>Masked stores\<close>

lemma nth_tl_store:
  assumes "base + n \<le> length buf \<or> (\<forall>i<n. m i \<longrightarrow> base + i < length buf)"
  shows "length (tl_store base n m vals buf) = length buf
    \<and> (\<forall>j<length buf. tl_store base n m vals buf ! j = (if base \<le> j \<and> j < base + n \<and> m (j - base) then vals ! (j - base) else buf ! j))"
  using assms
proof (induction n)
  case 0
  then show ?case by (simp add: tl_store_def)
next
  case (Suc n)
  have step: "tl_store base (Suc n) m vals buf = (let b = tl_store base n m vals buf in if m n then b[base + n := vals ! n] else b)"
    by (simp add: tl_store_def Let_def)
  have ih: "length (tl_store base n m vals buf) = length buf"
    "\<And>j. j < length buf \<Longrightarrow> tl_store base n m vals buf ! j = (if base \<le> j \<and> j < base + n \<and> m (j - base) then vals ! (j - base) else buf ! j)"
    using Suc by auto
  have "tl_store base (Suc n) m vals buf ! j = (if base \<le> j \<and> j < base + Suc n \<and> m (j - base) then vals ! (j - base) else buf ! j)"
    if j: "j < length buf" for j
  proof (cases "j = base + n")
    case True
    then show ?thesis unfolding step Let_def using ih(1) ih(2) [OF j] j by simp
  next
    case False
    then show ?thesis unfolding step Let_def using ih(2) [OF j] by (simp add: nth_list_update)
  qed
  then show ?case unfolding step Let_def using ih(1) by simp
qed

lemma store_all: "length xs = length buf \<Longrightarrow> store 0 xs buf = xs"
  by (intro nth_equalityI) (simp_all add: store_def)

lemma fold_store_rows:
  assumes "\<And>p. p < n \<Longrightarrow> length (R p) = d"
  shows "fold (\<lambda>p. store (base + p * d) (R p)) [0..<n] buf = store base (concat (map R [0..<n])) buf"
  using assms
proof (induction n)
  case (Suc n)
  have "length (concat (map R [0..<n])) = n * d" using Suc.prems by (induction n) auto
  then show ?case using Suc.IH [of] Suc.prems store_append [of base "concat (map R [0..<n])" "R n" buf] by simp
qed simp

lemma fold_concat: "fold f (concat xss) s = fold (fold f) xss s"
  by (induction xss arbitrary: s) simp_all

lemma concat_nth_uniform:
  assumes "\<forall>r\<in>set rs. length r = w" "c < length rs" "j < w"
  shows "concat rs ! (c * w + j) = rs ! c ! j \<and> c * w + j < length (concat rs)"
  using assms
proof (induction rs arbitrary: c)
  case (Cons r rs)
  then show ?case by (cases c) (auto simp: nth_append add.assoc)
qed simp

lemma next_power_ge: "n \<le> next_power_of_2 n"
proof -
  have "n \<le> next_power_of_2_from f p n" if "n \<le> p + f" "1 \<le> p" for f p
    using that by (induction f arbitrary: p) auto
  then show ?thesis by (simp add: next_power_of_2_def)
qed

subsection \<open>One program of the kernel\<close>

text \<open>What the kernel computes for one head: normalised keys, rotated on the first \<open>rd\<close> coordinates.\<close>

definition normed :: "real list \<Rightarrow> real \<Rightarrow> real list \<Rightarrow> real list" where
  "normed w eps x = map2 (\<lambda>a c. a * (1 / sqrt (sum_list (map (\<lambda>a. a ^ 2) x) / real (length x) + eps)) * c) x w"

definition rotated :: "nat \<Rightarrow> real list \<Rightarrow> real list \<Rightarrow> real list" where
  "rotated rd cs k = (let half = rd div 2 in
     map (\<lambda>i. if i < half then k ! i * cs ! i - k ! (half + i) * cs ! (half + i)
               else if i < rd then k ! i * cs ! (i - half) + k ! (i - half) * cs ! i
               else k ! i) [0..<length k])"

lemma rope_head_rotated:
  assumes "even (rotary_dim rot)" "rotary_dim rot \<le> length k" "length cs = rotary_dim rot" "is_neox_style rot"
  shows "rope_head rot (fst (chunk2 cs)) (snd (chunk2 cs)) k = Inr (rotated (rotary_dim rot) cs k)"
proof -
  obtain half where h: "rotary_dim rot = 2 * half" using assms(1) by (elim evenE)
  have n: "(2 * half + 1) div 2 = half" by simp
  let ?x1 = "take half k" and ?x2 = "drop half (take (2 * half) k)" and ?c = "take half cs" and ?s = "drop half cs"
  have len: "length ?x1 = half" "length ?x2 = half" "length ?c = half" "length ?s = half" using assms(2,3) h by auto
  have run: "rope_head rot (fst (chunk2 cs)) (snd (chunk2 cs)) k
      = Inr ((map2 (-) (map2 (*) ?x1 ?c) (map2 (*) ?x2 ?s) @ map2 (+) (map2 (*) ?x2 ?c) (map2 (*) ?x1 ?s)) @ drop (2 * half) k)"
    using assms(2-4) h n len by (simp add: rope_head_def apply_rotary_emb_def chunk2_def Let_def min_absorb2 take_take min_absorb1)
  have "(map2 (-) (map2 (*) ?x1 ?c) (map2 (*) ?x2 ?s) @ map2 (+) (map2 (*) ?x2 ?c) (map2 (*) ?x1 ?s)) @ drop (2 * half) k = rotated (2 * half) cs k"
  proof (rule nth_equalityI)
    show "length ((map2 (-) (map2 (*) ?x1 ?c) (map2 (*) ?x2 ?s) @ map2 (+) (map2 (*) ?x2 ?c) (map2 (*) ?x1 ?s)) @ drop (2 * half) k) = length (rotated (2 * half) cs k)"
      using len assms(2) h by (simp add: rotated_def)
  next
    fix i assume "i < length ((map2 (-) (map2 (*) ?x1 ?c) (map2 (*) ?x2 ?s) @ map2 (+) (map2 (*) ?x2 ?c) (map2 (*) ?x1 ?s)) @ drop (2 * half) k)"
    then have i: "i < length k" using len assms(2) h by simp
    consider "i < half" | "half \<le> i" "i < 2 * half" | "2 * half \<le> i" by linarith
    then show "((map2 (-) (map2 (*) ?x1 ?c) (map2 (*) ?x2 ?s) @ map2 (+) (map2 (*) ?x2 ?c) (map2 (*) ?x1 ?s)) @ drop (2 * half) k) ! i = rotated (2 * half) cs k ! i"
      using i len assms(2,3) h by cases (auto simp: rotated_def Let_def nth_append)
  qed
  then show ?thesis using run h by simp
qed

lemma tl_load_eq:
  assumes "\<And>i. i < n \<Longrightarrow> m i \<Longrightarrow> a + i < length buf \<and> buf ! (a + i) = g i" "base = int a"
  shows "tl_load oob buf base n m other = map (\<lambda>i. if m i then g i else other) [0..<n]"
  unfolding tl_load_def Let_def assms(2)
proof (rule map_cong [OF refl])
  fix i assume "i \<in> set [0..<n]"
  then have "m i \<Longrightarrow> a + i < length buf \<and> buf ! (a + i) = g i" using assms(1) by simp
  moreover have "nat (int a + int i) = a + i" by simp
  ultimately show "(if m i then if 0 \<le> int a + int i \<and> int a + int i < int (length buf) then buf ! nat (int a + int i) else oob (int a + int i) else other)
      = (if m i then g i else other)" by auto
qed

text \<open>The three stores of the keys write the whole row of the head, nothing else.\<close>

lemma key_stores:
  assumes "2 * half \<le> d" "d \<le> n" "base + d \<le> length buf" "length k = d"
    and f: "\<And>i. i < half \<Longrightarrow> f ! i = k ! i * cs ! i - k ! (half + i) * cs ! (half + i)"
    and g: "\<And>i. i < half \<Longrightarrow> g ! i = k ! (half + i) * cs ! i + k ! i * cs ! (half + i)"
    and kn: "\<And>i. i < d \<Longrightarrow> kn ! i = k ! i"
  shows "tl_store base n (\<lambda>i. 2 * half \<le> i \<and> i < d) kn (tl_store (base + half) n (\<lambda>i. i < half) g (tl_store base n (\<lambda>i. i < half) f buf))
    = store base (rotated (2 * half) cs k) buf"
proof -
  define b1 where "b1 = tl_store base n (\<lambda>i. i < half) f buf"
  define b2 where "b2 = tl_store (base + half) n (\<lambda>i. i < half) g b1"
  define b3 where "b3 = tl_store base n (\<lambda>i. 2 * half \<le> i \<and> i < d) kn b2"
  have l1: "length b1 = length buf" and s1: "\<And>j. j < length buf \<Longrightarrow> b1 ! j = (if base \<le> j \<and> j < base + n \<and> j - base < half then f ! (j - base) else buf ! j)"
    using nth_tl_store [of base n buf "\<lambda>i. i < half" f] assms(1-3) by (auto simp: b1_def)
  have l2: "length b2 = length buf" and s2: "\<And>j. j < length buf \<Longrightarrow> b2 ! j = (if base + half \<le> j \<and> j < base + half + n \<and> j - (base + half) < half then g ! (j - (base + half)) else b1 ! j)"
    using nth_tl_store [of "base + half" n b1 "\<lambda>i. i < half" g] assms(1-3) l1 by (auto simp: b2_def)
  have l3: "length b3 = length buf" and s3: "\<And>j. j < length buf \<Longrightarrow> b3 ! j = (if base \<le> j \<and> j < base + n \<and> 2 * half \<le> j - base \<and> j - base < d then kn ! (j - base) else b2 ! j)"
    using nth_tl_store [of base n b2 "\<lambda>i. 2 * half \<le> i \<and> i < d" kn] assms(1-3) l2 by (auto simp: b3_def)
  have lr: "length (rotated (2 * half) cs k) = d" using assms(4) by (simp add: rotated_def Let_def)
  have r: "store base (rotated (2 * half) cs k) buf ! j = (if base \<le> j \<and> j < base + d then rotated (2 * half) cs k ! (j - base) else buf ! j)" if "j < length buf" for j
    using that lr by (simp add: store_def)
  have "b3 = store base (rotated (2 * half) cs k) buf"
  proof (rule nth_equalityI)
    show "length b3 = length (store base (rotated (2 * half) cs k) buf)" using l3 by simp
    fix j assume "j < length b3"
    then have j: "j < length buf" using l3 by simp
    have "j < base \<or> (\<exists>i. j = base + d + i) \<or> (\<exists>i<half. j = base + i) \<or> (\<exists>i<half. j = base + (half + i)) \<or> (\<exists>i<d. 2 * half \<le> i \<and> j = base + i)"
    proof (cases "j < base \<or> base + d \<le> j")
      case True
      then show ?thesis by (metis le_Suc_ex)
    next
      case False
      then obtain i where i: "j = base + i" "i < d" by (metis le_add_diff_inverse linorder_not_less nat_add_left_cancel_less)
      show ?thesis
      proof (cases "i < 2 * half")
        case True
        show ?thesis
        proof (cases "i < half")
          case True then show ?thesis using i by blast
        next
          case False
          then obtain i' where "i = half + i'" by (metis le_add_diff_inverse linorder_not_less)
          then have "i' < half \<and> j = base + (half + i')" using True i by simp
          then show ?thesis by blast
        qed
      next
        case False then show ?thesis using i by auto
      qed
    qed
    then show "b3 ! j = store base (rotated (2 * half) cs k) buf ! j"
    proof (elim disjE exE conjE)
      assume "j < base"
      then show ?thesis using s1 [OF j] s2 [OF j] s3 [OF j] r [OF j] by simp
    next
      fix i assume i: "j = base + d + i"
      then have "\<not> j - (base + half) < half" using assms(1) by linarith
      then have "b2 ! j = b1 ! j" using s2 [OF j] by simp
      then show ?thesis using i s1 [OF j] s3 [OF j] r [OF j] assms(1) by simp
    next
      fix i assume "i < half" "j = base + i"
      then show ?thesis using s1 [OF j] s2 [OF j] s3 [OF j] r [OF j] assms(1,2,4) f [of i] by (simp add: rotated_def Let_def)
    next
      fix i assume "i < half" "j = base + (half + i)"
      then show ?thesis using s1 [OF j] s2 [OF j] s3 [OF j] r [OF j] assms(1,2,4) g [of i] by (simp add: rotated_def Let_def)
    next
      fix i assume "i < d" "2 * half \<le> i" "j = base + i"
      then show ?thesis using s3 [OF j] r [OF j] assms(1,2,4) kn [of i] by (simp add: rotated_def Let_def)
    qed
  qed
  then show ?thesis by (simp only: b3_def b2_def b1_def)
qed

lemma sum_padded: "sum_list (map2 (*) (xs @ replicate n 0) (xs @ replicate n 0)) = sum_list (map (\<lambda>a. a ^ 2) xs)" for xs :: "real list"
proof -
  have z: "map2 (*) (replicate n (0::real)) (replicate n 0) = replicate n 0" by (intro nth_equalityI) simp_all
  have "map2 (*) xs xs = map (\<lambda>a. a ^ 2) xs" by (intro nth_equalityI) (simp_all add: power2_eq_square)
  moreover have "sum_list (replicate n (0::real)) = 0" by (induction n) simp_all
  ultimately show ?thesis by (simp add: z)
qed

text \<open>What a program reads and writes: key and value of one head of one token.\<close>

lemma program_result:
  assumes kd: "kd_head_dim kd \<le> kd_block kd" "kd_rotary_dim kd = 2 * half" "2 * half \<le> kd_head_dim kd" "kd_cos_sin_stride kd = 2 * half" "0 < half"
    and K: "\<forall>r\<in>set K. length r = 2 * (kd_heads kd * kd_head_dim kd)" "c < length K" "h < kd_heads kd"
    and w: "length w = kd_head_dim kd" and cs: "\<forall>r\<in>set cc. length r = 2 * half" "positions ! c = int pos" "pos < length cc"
    and buf: "length ko = length K * (kd_heads kd * kd_head_dim kd)" "length vo = length ko"
  shows "norm_rope_program oob kd (concat K) w (concat cc) positions (c, h) (ko, vo)
    = (store (c * (kd_heads kd * kd_head_dim kd) + h * kd_head_dim kd)
         (rotated (2 * half) (cc ! pos) (normed w (kd_eps kd) (rows (kd_heads kd) (kd_head_dim kd) (take (kd_heads kd * kd_head_dim kd) (K ! c)) ! h))) ko,
       store (c * (kd_heads kd * kd_head_dim kd) + h * kd_head_dim kd)
         (rows (kd_heads kd) (kd_head_dim kd) (drop (kd_heads kd * kd_head_dim kd) (K ! c)) ! h) vo)"
proof -
  define H D B where "H = kd_heads kd" and "D = kd_head_dim kd" and "B = kd_block kd"
  define x where "x = rows H D (take (H * D) (K ! c)) ! h"
  define y where "y = rows H D (drop (H * D) (K ! c)) ! h"
  define inv where "inv = 1 / sqrt (sum_list (map (\<lambda>a. a ^ 2) x) / real (length x) + kd_eps kd)"
  have hD: "h * D + D \<le> H * D" using K(3) by (metis H_def Suc_leI add.commute mult_Suc mult_le_mono1)
  have rl: "length (K ! c) = 2 * (H * D)" using K(1,2) by (simp add: H_def D_def)
  have lx: "length x = D" "length y = D"
  proof -
    have m: "min (H * D - h * D) D = D" "min (D * H - h * D) D = D" using hD by (simp_all add: mult.commute)
    show "length x = D" "length y = D" using rl m K(3) by (simp_all add: x_def y_def H_def [symmetric] nth_rows)
  qed
  have xi: "x ! i = K ! c ! (h * D + i)" if "i < D" for i using that rl hD K(3) by (simp add: x_def H_def [symmetric] nth_rows)
  have yi: "y ! i = K ! c ! (H * D + (h * D + i))" if "i < D" for i using that rl hD K(3) by (simp add: y_def H_def [symmetric] nth_rows add.assoc [symmetric] add.commute [of "H * D" "h * D"])
  have flat: "c * (2 * (H * D)) + j < length (concat K) \<and> concat K ! (c * (2 * (H * D)) + j) = K ! c ! j" if "j < 2 * (H * D)" for j
    using concat_nth_uniform [OF K(1,2), of j] that by (simp add: H_def D_def)
  have BD: "D \<le> B" "2 * half \<le> D" using kd by (simp_all add: B_def D_def)
  have kr: "tl_load oob (concat K) (int (c * (2 * (H * D)) + h * D)) B (\<lambda>i. i < D) 0 = map (\<lambda>i. if i < D then x ! i else 0) [0..<B]"
    by (rule tl_load_eq [OF _ refl]) (use flat xi hD in \<open>simp add: add.assoc\<close>)
  have vr: "tl_load oob (concat K) (int (c * (2 * (H * D)) + H * D + h * D)) B (\<lambda>i. i < D) 0 = map (\<lambda>i. if i < D then y ! i else 0) [0..<B]"
  proof (rule tl_load_eq [OF _ refl])
    fix i assume "i < B" and i: "i < D"
    then have "H * D + (h * D + i) < 2 * (H * D)" using hD by linarith
    from flat [OF this] yi [OF i] show "c * (2 * (H * D)) + H * D + h * D + i < length (concat K) \<and> concat K ! (c * (2 * (H * D)) + H * D + h * D + i) = y ! i"
      by (simp add: add.assoc)
  qed
  have k2: "tl_load oob (concat K) (int (c * (2 * (H * D)) + h * D) + int half) B (\<lambda>i. i < half) 0 = map (\<lambda>i. if i < half then x ! (half + i) else 0) [0..<B]"
    by (rule tl_load_eq [where a = "c * (2 * (H * D)) + (h * D + half)"]) (use flat xi hD BD in \<open>simp_all add: add.assoc\<close>)
  have nw: "tl_load oob w 0 B (\<lambda>i. i < D) 1 = map (\<lambda>i. if i < D then w ! i else 1) [0..<B]"
    by (rule tl_load_eq [where a = 0]) (use w D_def in simp_all)
  have nw2: "tl_load oob w (int half) B (\<lambda>i. i < half) 1 = map (\<lambda>i. if i < half then w ! (half + i) else 1) [0..<B]"
    by (rule tl_load_eq [OF _ refl]) (use w D_def BD in simp_all)
  have csf: "pos * (2 * half) + j < length (concat cc) \<and> concat cc ! (pos * (2 * half) + j) = cc ! pos ! j" if "j < 2 * half" for j
    using concat_nth_uniform [OF cs(1,3) that] by simp
  have co: "tl_load oob (concat cc) (int pos * int (2 * half)) B (\<lambda>i. i < half) 1 = map (\<lambda>i. if i < half then cc ! pos ! i else 1) [0..<B]"
    by (rule tl_load_eq [where a = "pos * (2 * half)"]) (use csf in simp_all)
  have si: "tl_load oob (concat cc) (int pos * int (2 * half) + int half) B (\<lambda>i. i < half) 0 = map (\<lambda>i. if i < half then cc ! pos ! (half + i) else 0) [0..<B]"
    by (rule tl_load_eq [where a = "pos * (2 * half) + half"]) (use csf in \<open>simp_all add: add.assoc\<close>)
  have "map (\<lambda>i. if i < D then x ! i else 0) [0..<B] = x @ replicate (B - D) 0"
    using lx BD by (intro nth_equalityI) (auto simp: nth_append)
  then have iv: "1 / sqrt (sum_list (map2 (*) (map (\<lambda>i. if i < D then x ! i else 0) [0..<B]) (map (\<lambda>i. if i < D then x ! i else 0) [0..<B])) / real D + kd_eps kd) = inv"
    by (simp only: sum_padded inv_def lx(1))
  define kn where "kn = normed w (kd_eps kd) x"
  have kni: "length kn = D" "\<And>i. i < D \<Longrightarrow> kn ! i = x ! i * inv * w ! i" using lx w by (simp_all add: kn_def normed_def inv_def D_def)
  let ?f = "map2 (-) (map2 (*) (map2 (\<lambda>i a. if i < half then a else 0) [0..<B] (map2 (*) (map (\<lambda>a. a * inv) (map (\<lambda>i. if i < D then x ! i else 0) [0..<B])) (map (\<lambda>i. if i < D then w ! i else 1) [0..<B])))
        (map (\<lambda>i. if i < half then cc ! pos ! i else 1) [0..<B]))
      (map2 (*) (map2 (*) (map (\<lambda>a. a * inv) (map (\<lambda>i. if i < half then x ! (half + i) else 0) [0..<B])) (map (\<lambda>i. if i < half then w ! (half + i) else 1) [0..<B]))
        (map (\<lambda>i. if i < half then cc ! pos ! (half + i) else 0) [0..<B]))"
  let ?g = "map2 (+) (map2 (*) (map2 (*) (map (\<lambda>a. a * inv) (map (\<lambda>i. if i < half then x ! (half + i) else 0) [0..<B])) (map (\<lambda>i. if i < half then w ! (half + i) else 1) [0..<B]))
        (map (\<lambda>i. if i < half then cc ! pos ! i else 1) [0..<B]))
      (map2 (*) (map2 (\<lambda>i a. if i < half then a else 0) [0..<B] (map2 (*) (map (\<lambda>a. a * inv) (map (\<lambda>i. if i < D then x ! i else 0) [0..<B])) (map (\<lambda>i. if i < D then w ! i else 1) [0..<B])))
        (map (\<lambda>i. if i < half then cc ! pos ! (half + i) else 0) [0..<B]))"
  let ?n = "map2 (*) (map (\<lambda>a. a * inv) (map (\<lambda>i. if i < D then x ! i else 0) [0..<B])) (map (\<lambda>i. if i < D then w ! i else 1) [0..<B])"
  let ?base = "c * (H * D) + h * D"
  have fit: "?base + D \<le> length ko"
  proof -
    have "?base + D \<le> c * (H * D) + H * D" using hD by simp
    also have "\<dots> \<le> length K * (H * D)" using K(2) by (metis Suc_leI add.commute mult_Suc mult_le_mono1)
    finally show ?thesis using buf(1) by (simp add: H_def D_def)
  qed
  have keys: "tl_store ?base B (\<lambda>i. 2 * half \<le> i \<and> i < D) ?n (tl_store (?base + half) B (\<lambda>i. i < half) ?g (tl_store ?base B (\<lambda>i. i < half) ?f ko))
      = store ?base (rotated (2 * half) (cc ! pos) kn) ko"
    by (rule key_stores [OF BD(2,1) fit kni(1)]) (use BD kni(2) in simp_all)
  have vals: "tl_store ?base B (\<lambda>i. i < D) (map (\<lambda>i. if i < D then y ! i else 0) [0..<B]) vo = store ?base y vo"
    using nth_tl_store [of ?base B vo "\<lambda>i. i < D" "map (\<lambda>i. if i < D then y ! i else 0) [0..<B]"] fit buf(2) lx(2) BD
    by (intro nth_equalityI) (auto simp: store_def)
  have dv: "2 * half div 2 = half" by simp
  show ?thesis
    unfolding norm_rope_program_def Let_def prod.case fst_conv snd_conv H_def [symmetric] D_def [symmetric] B_def [symmetric] kd(2,4) cs(2)
      dv x_def [symmetric] y_def [symmetric] kr vr k2 nw nw2 co si iv kn_def [symmetric] keys vals
    by (rule refl)
qed

subsection \<open>The whole grid\<close>

definition key_row :: "nat \<Rightarrow> nat \<Rightarrow> nat \<Rightarrow> real list \<Rightarrow> real \<Rightarrow> real list \<Rightarrow> real list \<Rightarrow> nat \<Rightarrow> real list" where
  "key_row H D rd w eps cs r h = rotated rd cs (normed w eps (rows H D (take (H * D) r) ! h))"

definition val_row :: "nat \<Rightarrow> nat \<Rightarrow> real list \<Rightarrow> nat \<Rightarrow> real list" where
  "val_row H D r h = rows H D (drop (H * D) r) ! h"

lemma row_lengths:
  assumes "length r = 2 * (H * D)" "h < H" "length w = D"
  shows "length (key_row H D rd w eps cs r h) = D" "length (val_row H D r h) = D"
proof -
  have a: "length (rows H D (take (H * D) r) ! h) = D" using rows_width [of "take (H * D) r" H D] assms by (simp add: nth_mem)
  then show "length (key_row H D rd w eps cs r h) = D" using assms(3) by (simp add: key_row_def rotated_def Let_def normed_def)
  show "length (val_row H D r h) = D" using rows_width [of "drop (H * D) r" H D] assms(1,2) by (simp add: val_row_def nth_mem)
qed

text \<open>Programs that each store one block fill the buffer with the concatenation of the blocks.\<close>

lemma grid_stores:
  assumes "\<And>c h. c < T \<Longrightarrow> h < H \<Longrightarrow> length (R c h) = D"
  shows "fold (\<lambda>(c, h). store (c * (H * D) + h * D) (R c h)) (concat (map (\<lambda>c. map (\<lambda>h. (c, h)) [0..<H]) [0..<T])) buf
    = store 0 (concat (map (\<lambda>c. concat (map (R c) [0..<H])) [0..<T])) buf"
proof -
  have inner: "fold (\<lambda>h. store (c * (H * D) + h * D) (R c h)) [0..<H] = store (c * (H * D)) (concat (map (R c) [0..<H]))" if "c < T" for c
    using assms [OF that] by (intro ext fold_store_rows)
  have len: "length (concat (map (R c) [0..<H])) = H * D" if "c < T" for c
  proof -
    have "map (length \<circ> R c) [0..<H] = replicate H D" using assms [OF that] by (intro nth_equalityI) simp_all
    then show ?thesis by (simp add: length_concat sum_list_replicate)
  qed
  have "fold (\<lambda>(c, h). store (c * (H * D) + h * D) (R c h)) (concat (map (\<lambda>c. map (\<lambda>h. (c, h)) [0..<H]) [0..<T])) buf
      = fold (\<lambda>c. store (0 + c * (H * D)) (concat (map (R c) [0..<H]))) [0..<T] buf"
    unfolding fold_concat fold_map comp_def by (rule fold_cong) (use inner in auto)
  also have "\<dots> = store 0 (concat (map (\<lambda>c. concat (map (R c) [0..<H])) [0..<T])) buf" by (rule fold_store_rows) (rule len)
  finally show ?thesis .
qed

lemma fold_pair:
  assumes "\<And>x a b. x \<in> set xs \<Longrightarrow> length a = n \<Longrightarrow> length b = n \<Longrightarrow> f x (a, b) = (g x a, h x b)"
    and "\<And>x a. length (g x a) = length a" "\<And>x b. length (h x b) = length b" "length a = n" "length b = n"
  shows "fold f xs (a, b) = (fold g xs a, fold h xs b)"
  using assms by (induction xs arbitrary: a b) simp_all

lemma fused_norm_rope_rows:
  assumes K: "\<forall>r\<in>set K. length r = 2 * (H * D)" and rd: "even rd" "0 < rd" "rd \<le> D"
    and w: "length w = D" and cs: "\<forall>r\<in>set cc. length r = rd" "length positions = length K" "\<forall>p\<in>set positions. 0 \<le> p \<and> p < int (length cc)"
  shows "fused_norm_rope oob garbage K w cc positions H D rd eps
    = Inr (map (\<lambda>c. map (key_row H D rd w eps (cc ! nat (positions ! c)) (K ! c)) [0..<H]) [0..<length K],
           map (\<lambda>c. map (val_row H D (K ! c)) [0..<H]) [0..<length K])"
proof (cases "K = []")
  case True
  then show ?thesis by (simp add: fused_norm_rope_def)
next
  case False
  obtain half where h: "rd = 2 * half" using rd(1) by (elim evenE)
  define kd where "kd = \<lparr>kd_heads = H, kd_head_dim = D, kd_rotary_dim = rd, kd_eps = eps, kd_block = next_power_of_2 D,
      kd_cos_sin_stride = (case cc of [] \<Rightarrow> 0 | r # _ \<Rightarrow> length r)\<rparr>"
  let ?grid = "concat (map (\<lambda>c. map (\<lambda>h. (c, h)) [0..<H]) [0..<length K])" and ?n = "length K * (H * D)"
  let ?k = "\<lambda>c. key_row H D rd w eps (cc ! nat (positions ! c)) (K ! c)" and ?v = "\<lambda>c. val_row H D (K ! c)"
  obtain p0 where "p0 \<in> set positions" using False cs(2) by (cases positions) auto
  then have ne: "cc \<noteq> []" using cs(3) by fastforce
  then have st: "kd_cos_sin_stride kd = 2 * half" using cs(1) h by (cases cc) (auto simp: kd_def)
  have prog: "norm_rope_program oob kd (concat K) w (concat cc) positions x (a, b)
      = ((case x of (c, h) \<Rightarrow> store (c * (H * D) + h * D) (?k c h)) a, (case x of (c, h) \<Rightarrow> store (c * (H * D) + h * D) (?v c h)) b)"
    if "x \<in> set ?grid" "length a = ?n" "length b = ?n" for x a b
  proof -
    obtain c g where x: "x = (c, g)" by (cases x)
    have cg: "c < length K" "g < H" using that(1) x by auto
    have p: "0 \<le> positions ! c" "positions ! c < int (length cc)" using cs(2,3) cg(1) by (metis nth_mem)+
    then have "positions ! c = int (nat (positions ! c))" "nat (positions ! c) < length cc" by simp_all
    then show ?thesis
      using program_result [of kd half K c g w cc positions "nat (positions ! c)" a b oob] K cg w cs(1) that(2,3) h rd st next_power_ge [of D]
      by (simp add: kd_def x key_row_def val_row_def)
  qed
  have lens: "length (?k c g) = D" "length (?v c g) = D" if "c < length K" "g < H" for c g
    using row_lengths [of "K ! c" H D g w] K that w by simp_all
  have total: "length (concat (map (\<lambda>c. concat (map (F c) [0..<H])) [0..<length K])) = ?n" if "\<And>c g. c < length K \<Longrightarrow> g < H \<Longrightarrow> length (F c g) = D" for F :: "nat \<Rightarrow> nat \<Rightarrow> real list"
  proof -
    have "map (length \<circ> F c) [0..<H] = replicate H D" if "c < length K" for c using \<open>\<And>c g. c < length K \<Longrightarrow> g < H \<Longrightarrow> length (F c g) = D\<close> [OF that] by (intro nth_equalityI) simp_all
    then have "map (length \<circ> (\<lambda>c. concat (map (F c) [0..<H]))) [0..<length K] = replicate (length K) (H * D)"
      by (intro nth_equalityI) (simp_all add: length_concat sum_list_replicate)
    then show ?thesis by (simp add: length_concat sum_list_replicate)
  qed
  have run: "fold (norm_rope_program oob kd (concat K) w (concat cc) positions) ?grid (map garbage [0..<?n], map garbage [0..<?n])
      = (concat (map (\<lambda>c. concat (map (?k c) [0..<H])) [0..<length K]), concat (map (\<lambda>c. concat (map (?v c) [0..<H])) [0..<length K]))"
  proof -
    have "fold (norm_rope_program oob kd (concat K) w (concat cc) positions) ?grid (map garbage [0..<?n], map garbage [0..<?n])
        = (fold (\<lambda>(c, h). store (c * (H * D) + h * D) (?k c h)) ?grid (map garbage [0..<?n]), fold (\<lambda>(c, h). store (c * (H * D) + h * D) (?v c h)) ?grid (map garbage [0..<?n]))"
      by (rule fold_pair [where n = ?n]) (use prog in \<open>auto split: prod.splits\<close>)
    then show ?thesis using grid_stores [of "length K" H ?k D] grid_stores [of "length K" H ?v D] lens total [of ?k] total [of ?v] by (simp add: store_all)
  qed
  have regroup: "map (rows H D) (rows (length K) (H * D) (concat (map (\<lambda>c. concat (map (F c) [0..<H])) [0..<length K]))) = map (\<lambda>c. map (F c) [0..<H]) [0..<length K]"
    if F: "\<And>c g. c < length K \<Longrightarrow> g < H \<Longrightarrow> length (F c g) = D" for F :: "nat \<Rightarrow> nat \<Rightarrow> real list"
  proof -
    have in_row: "length (concat (map (F c) [0..<H])) = H * D" "rows H D (concat (map (F c) [0..<H])) = map (F c) [0..<H]" if "c < length K" for c
    proof -
      have "map (length \<circ> F c) [0..<H] = replicate H D" using F [OF that] by (intro nth_equalityI) simp_all
      then show "length (concat (map (F c) [0..<H])) = H * D" by (simp add: length_concat sum_list_replicate)
      have "rows (length (map (F c) [0..<H])) D (concat (map (F c) [0..<H])) = map (F c) [0..<H]" by (rule rows_concat) (use F [OF that] in auto)
      then show "rows H D (concat (map (F c) [0..<H])) = map (F c) [0..<H]" by simp
    qed
    have "rows (length (map (\<lambda>c. concat (map (F c) [0..<H])) [0..<length K])) (H * D) (concat (map (\<lambda>c. concat (map (F c) [0..<H])) [0..<length K]))
        = map (\<lambda>c. concat (map (F c) [0..<H])) [0..<length K]" by (rule rows_concat) (use in_row(1) in auto)
    then show ?thesis using in_row(2) by simp
  qed
  have bad: "\<not> (\<exists>r\<in>set K. length r \<noteq> H * D * 2)" using K by auto
  show ?thesis unfolding fused_norm_rope_def Let_def kd_def [symmetric] run prod.case using False bad rd regroup [of ?k] regroup [of ?v] lens by simp
qed

subsection \<open>The layer operations on one token\<close>

definition rotary_ok :: "rotary_embedding \<Rightarrow> bool" where
  "rotary_ok rot \<longleftrightarrow> even (rotary_dim rot) \<and> 0 < rotary_dim rot \<and> list_all (\<lambda>r. length r = rotary_dim rot) (cos_sin_cache rot)"

definition layer_ok :: "rotary_embedding \<Rightarrow> attn_layer \<Rightarrow> bool" where
  "layer_ok rot l \<longleftrightarrow> rotary_emb l = rot \<and> q_size l + 2 * kv_size l \<le> length (qkv_weight l) \<and> length (k_norm_weight l) = head_dim l
     \<and> (has_bias (qkv_info l) \<longleftrightarrow> qkv_bias l \<noteq> None)"

definition kv_weight :: "attn_layer \<Rightarrow> real list list" where
  "kv_weight l = slice (q_size l) (q_size l + 2 * kv_size l) (qkv_weight l)"

lemma rms_norm_normed: "length x = length w \<Longrightarrow> rms_norm w eps x = Inr (normed w eps x)"
  unfolding rms_norm_def normed_def Let_def by (simp only: simp_thms if_False)

lemma length_kv_weight: "layer_ok rot l \<Longrightarrow> length (kv_weight l) = 2 * (num_kv_heads l * head_dim l)"
  unfolding layer_ok_def kv_weight_def slice_def kv_size_def by auto

lemma layer_kv_rows:
  fixes x :: "real list"
  assumes l: "layer_ok rot l" "fused_eligible l" and rot: "rotary_ok rot'" "rotary_dim rot' = rotary_dim rot" "is_neox_style rot'" "rotary_dim rot \<le> head_dim l"
    and pos: "0 \<le> p" "p < int (length (cos_sin_cache rot'))"
  defines "r \<equiv> map (\<lambda>w. lin_dot w x) (kv_weight l)"
  shows "layer_kv (l\<lparr>rotary_emb := rot'\<rparr>) (x, p)
    = Inr (map (key_row (num_kv_heads l) (head_dim l) (rotary_dim rot) (k_norm_weight l) (k_norm_eps l) (cos_sin_cache rot' ! nat p) r) [0..<num_kv_heads l],
           map (val_row (num_kv_heads l) (head_dim l) r) [0..<num_kv_heads l])"
proof -
  let ?l = "l\<lparr>rotary_emb := rot'\<rparr>" and ?H = "num_kv_heads l" and ?D = "head_dim l" and ?w = "k_norm_weight l" and ?e = "k_norm_eps l"
  let ?cs = "cos_sin_cache rot' ! nat p" and ?k = "take (num_kv_heads l * head_dim l) r" and ?v = "drop (num_kv_heads l * head_dim l) r"
  have el: "fst (can_dflash_slice_qkv_weight (qkv_info l))" "qkv_bias l = None"
    using l by (auto simp: fused_eligible_def can_dflash_use_fused_qkv_proj_def layer_ok_def Let_def split: prod.splits if_splits)
  have lr: "length r = 2 * (?H * ?D)" using length_kv_weight [OF l(1)] by (simp add: r_def)
  have proj: "kv_proj_only ?l x = Inr (?k, ?v)"
    using el lr by (simp add: kv_proj_only_def Let_def linear_row_def split2_def kv_size_def r_def kv_weight_def)
  have lk: "length ?k = ?H * ?D" "length ?v = ?H * ?D" using lr by simp_all
  have wd: "length y = ?D" if "y \<in> set (rows ?H ?D ?k)" for y using rows_width [OF lk(1) that] .
  have lw: "length ?w = ?D" using l(1) by (simp add: layer_ok_def)
  define n where "n = map (normed ?w ?e) (rows ?H ?D ?k)"
  have norm: "apply_k_norm ?l ?k = Inr (concat n)"
  proof -
    have "rmap (rms_norm ?w ?e) (rows ?H ?D ?k) = Inr n" unfolding n_def
    proof (rule rmap_Inr, rule rms_norm_normed)
      show "length y = length ?w" if "y \<in> set (rows ?H ?D ?k)" for y unfolding lw by (rule wd [OF that])
    qed
    then show ?thesis by (simp add: apply_k_norm_def heads_of_def)
  qed
  have nl: "length y = ?D" if "y \<in> set n" for y using that wd lw by (auto simp: normed_def n_def)
  have "rows (length n) ?D (concat n) = n" by (rule rows_concat) (rule nl)
  then have nr: "rows ?H ?D (concat n) = n" by (simp only: n_def length_map length_rows)
  have csl: "length ?cs = rotary_dim rot'" using rot(1) pos by (simp add: rotary_ok_def list_all_iff nat_less_iff)
  let ?rt = "map (rotated (rotary_dim rot) ?cs) n"
  have rope: "apply_k_rope ?l p (concat n) = Inr (concat ?rt)"
  proof -
    have "rmap (rope_head rot' (fst (chunk2 ?cs)) (snd (chunk2 ?cs))) n = Inr ?rt"
    proof (rule rmap_Inr)
      fix y assume "y \<in> set n"
      then have "rotary_dim rot' \<le> length y" using nl [of y] rot(2,4) by linarith
      then show "rope_head rot' (fst (chunk2 ?cs)) (snd (chunk2 ?cs)) y = Inr (rotated (rotary_dim rot) ?cs y)"
        using rope_head_rotated [of rot' y ?cs] rot(1-3) csl by (simp add: rotary_ok_def)
    qed
    moreover obtain c1 c2 where c: "chunk2 ?cs = (c1, c2)" by (cases "chunk2 ?cs")
    ultimately show ?thesis using pos nr by (simp add: apply_k_rope_def Let_def heads_of_def c)
  qed
  have rtl: "length y = ?D" if "y \<in> set ?rt" for y
  proof -
    from that obtain z where "z \<in> set n" "y = rotated (rotary_dim rot) ?cs z" unfolding set_map by blast
    then show ?thesis using nl by (simp add: rotated_def Let_def)
  qed
  have "rows (length ?rt) ?D (concat ?rt) = ?rt" by (rule rows_concat) (rule rtl)
  then have "rows ?H ?D (concat ?rt) = ?rt" by (simp only: n_def length_map length_rows)
  then have "layer_kv ?l (x, p) = Inr (?rt, rows ?H ?D ?v)" using proj norm rope by (simp add: layer_kv_def heads_of_def)
  moreover have "?rt = map (key_row ?H ?D (rotary_dim rot) ?w ?e ?cs r) [0..<?H]" by (intro nth_equalityI) (simp_all add: key_row_def n_def)
  moreover have "rows ?H ?D ?v = map (val_row ?H ?D r) [0..<?H]" by (intro nth_equalityI) (simp_all add: val_row_def)
  ultimately show ?thesis by simp
qed

subsection \<open>Growing the cache of factors\<close>

lemma ensure_cache:
  fixes m :: nat
  assumes "rotary_ok rot" "0 < align"
  defines "rot' \<equiv> ensure_cos_sin_cache_length align m rot"
  shows "rotary_ok rot'" "rotary_dim rot' = rotary_dim rot" "is_neox_style rot' = is_neox_style rot" "m < length (cos_sin_cache rot')"
    "take (length (cos_sin_cache rot)) (cos_sin_cache rot') = cos_sin_cache rot"
proof -
  have b: "m < (m + align) div align * align"
  proof -
    have "m + align < (m + align) div align * align + align" using assms(2) by (metis add.commute div_mult_mod_eq mod_less_divisor nat_add_left_cancel_less)
    then show ?thesis by simp
  qed
  obtain k where k: "rotary_dim rot = 2 * k" using assms(1) unfolding rotary_ok_def by (elim conjE evenE)
  have row: "length (rope_row rot t) = rotary_dim rot" for t by (simp add: rope_row_def Let_def k)
  show "rotary_ok rot'" "rotary_dim rot' = rotary_dim rot" "is_neox_style rot' = is_neox_style rot" "m < length (cos_sin_cache rot')"
    "take (length (cos_sin_cache rot)) (cos_sin_cache rot') = cos_sin_cache rot"
    using assms(1) b row unfolding rot'_def ensure_cos_sin_cache_length_def rotary_ok_def Let_def by (auto simp: list_all_iff)
qed

lemma fused_layers_Inr: "(\<And>i. i \<in> set is \<Longrightarrow> f i = Inr (g i)) \<Longrightarrow> fused_layers f is = (map (\<lambda>i. (i, g i)) is, None)"
  by (induction "is") simp_all

lemma init_helper_fields:
  assumes "init_fused_kv_helper layers = Some h" "\<forall>l\<in>set layers. layer_ok rot l"
  shows "layers \<noteq> []" "list_all fused_eligible layers" "fh_rotary h = rot" "fh_rotary_dim h = rotary_dim rot" "0 < rotary_dim rot" "is_neox_style rot"
    "rotary_dim rot \<le> fh_head_dim h" "fh_kv_weights h = map kv_weight layers" "fh_norm_weights h = map k_norm_weight layers" "fh_eps h = map k_norm_eps layers"
    "\<And>l. l \<in> set layers \<Longrightarrow> num_kv_heads l = fh_heads h \<and> head_dim l = fh_head_dim h"
proof -
  obtain first rest where ls: "layers = first # rest" using assms(1) by (cases layers) (auto simp: init_fused_kv_helper_def)
  have rf: "rotary_emb first = rot" using assms(2) ls by (simp add: layer_ok_def)
  have el: "list_all fused_eligible layers" and nh: "new_fused_helper layers rot (num_kv_heads first) (head_dim first) = Inr h"
    using assms(1) ls rf by (auto simp: init_fused_kv_helper_def split: if_splits sum.splits)
  obtain ws where ws: "rmap (helper_layer (num_kv_heads first) (head_dim first) (rotary_dim rot) (is_neox_style rot)) layers = Inr ws"
    and hh: "h = \<lparr>fh_heads = num_kv_heads first, fh_head_dim = head_dim first, fh_rotary_dim = rotary_dim rot, fh_rotary = rot, fh_kv_weights = ws,
                  fh_norm_weights = map k_norm_weight layers, fh_eps = map k_norm_eps layers\<rparr>"
    and d: "is_neox_style rot" "0 < rotary_dim rot" "rotary_dim rot \<le> head_dim first"
    using nh by (auto simp: new_fused_helper_def rbind_eq_Inr split: if_splits)
  have hl: "num_kv_heads l = num_kv_heads first \<and> head_dim l = head_dim first \<and> y = kv_weight l"
    if "helper_layer (num_kv_heads first) (head_dim first) (rotary_dim rot) (is_neox_style rot) l = Inr y" for l y
    using that by (auto simp: helper_layer_def kv_weight_def split: if_splits)
  have i: "helper_layer (num_kv_heads first) (head_dim first) (rotary_dim rot) (is_neox_style rot) (layers ! i) = Inr (ws ! i)" if "i < length layers" for i
    using rmap_nth [OF ws that] .
  have "ws = map kv_weight layers" using hl [OF i] rmap_length [OF ws] by (intro nth_equalityI) simp_all
  then show "layers \<noteq> []" "list_all fused_eligible layers" "fh_rotary h = rot" "fh_rotary_dim h = rotary_dim rot" "0 < rotary_dim rot" "is_neox_style rot"
    "rotary_dim rot \<le> fh_head_dim h" "fh_kv_weights h = map kv_weight layers" "fh_norm_weights h = map k_norm_weight layers" "fh_eps h = map k_norm_eps layers"
    using ls el d by (simp_all add: hh)
  show "num_kv_heads l = fh_heads h \<and> head_dim l = fh_head_dim h" if "l \<in> set layers" for l
    using hl [OF i] that by (auto simp: hh in_set_conv_nth)
qed

lemma materialize_layer_kv:
  assumes "init_fused_kv_helper layers = Some h" "\<And>l. l \<in> set layers \<Longrightarrow> layer_ok rot l" "rotary_ok rot" "0 < align"
    and "length positions = length hidden" "hidden \<noteq> []" "\<And>p. p \<in> set positions \<Longrightarrow> 0 \<le> p"
  shows "\<exists>h' ws. materialize oob garbage align h hidden positions = (h', ws, None) \<and> map fst ws = [0..<length layers]
    \<and> take (length (cos_sin_cache rot)) (cos_sin_cache (fh_rotary h')) = cos_sin_cache rot
    \<and> (\<forall>i<length layers. \<forall>c<length hidden. layer_kv ((layers ! i)\<lparr>rotary_emb := fh_rotary h'\<rparr>) (hidden ! c, positions ! c)
         = Inr (fst (snd (ws ! i)) ! c, snd (snd (ws ! i)) ! c))
    \<and> (\<forall>i<length layers. length (fst (snd (ws ! i))) = length hidden \<and> length (snd (snd (ws ! i))) = length hidden)
    \<and> ((\<forall>p\<in>set positions. p < int (length (cos_sin_cache rot))) \<longrightarrow> h' = h)"
proof -
  have lo: "\<forall>l\<in>set layers. layer_ok rot l" using assms(2) by blast
  note f = init_helper_fields [OF assms(1) lo]
  define m where "m = Max (set positions)"
  define rot' where "rot' = ensure_cos_sin_cache_length align (nat m) rot"
  note e = ensure_cache [OF assms(3,4), of "nat m", folded rot'_def]
  have le: "p \<le> m" if "p \<in> set positions" for p using that by (simp add: m_def)
  obtain p0 where "p0 \<in> set positions" using assms(5,6) by (cases positions) auto
  then have "0 \<le> m" using le assms(7) order_trans by blast
  then have cache: "m < int (length (cos_sin_cache rot'))" using e(4) by linarith
  have pos: "0 \<le> p \<and> p < int (length (cos_sin_cache rot'))" if "p \<in> set positions" for p using le [OF that] assms(7) [OF that] cache by linarith
  let ?K = "\<lambda>i. map (\<lambda>x. map (\<lambda>w. lin_dot w x) (kv_weight (layers ! i))) hidden"
  let ?kv = "\<lambda>i. (map (\<lambda>c. map (key_row (fh_heads h) (fh_head_dim h) (rotary_dim rot) (k_norm_weight (layers ! i)) (k_norm_eps (layers ! i))
        (cos_sin_cache rot' ! nat (positions ! c)) (?K i ! c)) [0..<fh_heads h]) [0..<length hidden],
      map (\<lambda>c. map (val_row (fh_heads h) (fh_head_dim h) (?K i ! c)) [0..<fh_heads h]) [0..<length hidden])"
  have rows: "fused_norm_rope oob garbage (?K i) (k_norm_weight (layers ! i)) (cos_sin_cache rot') positions (fh_heads h) (fh_head_dim h) (rotary_dim rot) (k_norm_eps (layers ! i)) = Inr (?kv i)"
    if i: "i < length layers" for i
  proof -
    let ?l = "layers ! i"
    have l: "layer_ok rot ?l" "num_kv_heads ?l = fh_heads h" "head_dim ?l = fh_head_dim h" using lo f(11) i by (metis nth_mem)+
    have len: "\<forall>r\<in>set (?K i). length r = 2 * (fh_heads h * fh_head_dim h)"
      using length_kv_weight [OF l(1)] l(2,3) by auto
    have ev: "even (rotary_dim rot)" using assms(3) by (simp add: rotary_ok_def)
    have "fused_norm_rope oob garbage (?K i) (k_norm_weight ?l) (cos_sin_cache rot') positions (fh_heads h) (fh_head_dim h) (rotary_dim rot) (k_norm_eps ?l)
      = Inr (map (\<lambda>c. map (key_row (fh_heads h) (fh_head_dim h) (rotary_dim rot) (k_norm_weight ?l) (k_norm_eps ?l) (cos_sin_cache rot' ! nat (positions ! c)) (?K i ! c)) [0..<fh_heads h]) [0..<length (?K i)],
           map (\<lambda>c. map (val_row (fh_heads h) (fh_head_dim h) (?K i ! c)) [0..<fh_heads h]) [0..<length (?K i)])"
      by (rule fused_norm_rope_rows [OF len ev f(5,7)]) (use l e(1,2) assms(5) pos in \<open>auto simp: layer_ok_def rotary_ok_def list_all_iff\<close>)
    then show ?thesis by simp
  qed
  define ws where "ws = map (\<lambda>i. (i, ?kv i)) [0..<length layers]"
  have loop: "fused_layers (\<lambda>i. fused_norm_rope oob garbage (map (\<lambda>W. map (\<lambda>x. map (\<lambda>w. lin_dot w x) W) hidden) (map kv_weight layers) ! i) (map k_norm_weight layers ! i)
       (cos_sin_cache rot') positions (fh_heads h) (fh_head_dim h) (rotary_dim rot) (map k_norm_eps layers ! i)) [0..<length layers] = (ws, None)"
    unfolding ws_def by (rule fused_layers_Inr) (use rows in simp)
  have run: "materialize oob garbage align h hidden positions = (h\<lparr>fh_rotary := rot'\<rparr>, ws, None)"
    using assms(5,6) cache loop f(3,4,8,9,10) by (simp add: materialize_def Let_def m_def [symmetric] rot'_def [symmetric])
  have each: "layer_kv ((layers ! i)\<lparr>rotary_emb := rot'\<rparr>) (hidden ! c, positions ! c) = Inr (fst (snd (ws ! i)) ! c, snd (snd (ws ! i)) ! c)"
    if ic: "i < length layers" "c < length hidden" for i c
  proof -
    let ?l = "layers ! i"
    have l: "layer_ok rot ?l" "fused_eligible ?l" "num_kv_heads ?l = fh_heads h" "head_dim ?l = fh_head_dim h"
      using lo f(2,11) ic(1) by (auto simp: list_all_iff)
    have p: "0 \<le> positions ! c" "positions ! c < int (length (cos_sin_cache rot'))" using pos [OF nth_mem, of c] ic(2) assms(5) by simp_all
    have neox: "is_neox_style rot'" "rotary_dim rot \<le> head_dim ?l" using e(3) f(6,7) l(4) by simp_all
    show ?thesis using layer_kv_rows [OF l(1,2) e(1,2) neox p, of "hidden ! c"] ic l(3,4) by (simp add: ws_def)
  qed
  have same: "h\<lparr>fh_rotary := rot'\<rparr> = h" if "\<forall>p\<in>set positions. p < int (length (cos_sin_cache rot))"
  proof -
    have "m \<in> set positions" unfolding m_def using assms(5,6) by (intro Max_in) auto
    then have "nat m < length (cos_sin_cache rot)" using that \<open>0 \<le> m\<close> by (simp add: nat_less_iff)
    then have "rot' = rot" by (simp add: rot'_def ensure_cos_sin_cache_length_def Let_def)
    then show ?thesis using f(3) by simp
  qed
  show ?thesis using run each same e(5) by (intro exI [of _ "h\<lparr>fh_rotary := rot'\<rparr>"] exI [of _ ws]) (simp add: ws_def comp_def)
qed

text \<open>C10 The fused path is the sequential path: whenever the worker enables the helper, it returns without an exception, grows the
  cache of rotary factors as far as needed without changing it, and the keys and values it hands to the pool are, for every layer
  and token, those of the projection, the normalisation and the rotation of that layer.\<close>

theorem fused_kv_equals_sequential:
  assumes "init_fused_kv_helper layers = Some h" "\<And>l. l \<in> set layers \<Longrightarrow> layer_ok rot l" "rotary_ok rot" "0 < align"
    and "length positions = length hidden" "hidden \<noteq> []" "\<And>p. p \<in> set positions \<Longrightarrow> 0 \<le> p"
  shows "\<exists>h' ws. materialize oob garbage align h hidden positions = (h', ws, None) \<and> map fst ws = [0..<length layers]
    \<and> take (length (cos_sin_cache rot)) (cos_sin_cache (fh_rotary h')) = cos_sin_cache rot
    \<and> (\<forall>i<length layers. \<forall>c<length hidden. layer_kv ((layers ! i)\<lparr>rotary_emb := fh_rotary h'\<rparr>) (hidden ! c, positions ! c)
         = Inr (fst (snd (ws ! i)) ! c, snd (snd (ws ! i)) ! c))"
  using materialize_layer_kv [OF assms(1) assms(2) assms(3-6) assms(7)] by blast

definition example_rotary :: rotary_embedding where
  "example_rotary = \<lparr>rotary_dim = 2, is_neox_style = True, rope_base = 10, cos_sin_cache = [[1, 0]]\<rparr>"

definition example_layer :: attn_layer where
  "example_layer = \<lparr>num_kv_heads = 1, head_dim = 2, q_size = 0,
     qkv_info = \<lparr>quant_method_unquantized = True, has_weight = True, has_bias = False\<rparr>, qkv_weight = [[1], [2], [3], [4]], qkv_bias = None,
     qkv_apply = (\<lambda>x. []), k_norm_weight = [1, 1], k_norm_eps = 0, rotary_emb = example_rotary, k_scale = None, v_scale = None\<rparr>"

theorem fused_kv_equals_sequential_witness:
  "\<exists>h h' ws. init_fused_kv_helper [example_layer, example_layer] = Some h \<and> materialize (\<lambda>_. 0) (\<lambda>_. 0) 128 h [[1], [2]] [0, 3] = (h', ws, None)
    \<and> map fst ws = [0, 1] \<and> layer_kv (example_layer\<lparr>rotary_emb := fh_rotary h'\<rparr>) ([2], 3) = Inr (fst (snd (ws ! 1)) ! 1, snd (snd (ws ! 1)) ! 1)"
proof -
  have "fused_eligible example_layer"
    by (simp add: fused_eligible_def example_layer_def can_dflash_use_fused_qkv_proj_def can_dflash_slice_qkv_weight_def example_rotary_def)
  then obtain h where h: "init_fused_kv_helper [example_layer, example_layer] = Some h"
    by (simp add: init_fused_kv_helper_def new_fused_helper_def helper_layer_def example_layer_def example_rotary_def)
  have ok: "layer_ok example_rotary l" if "l \<in> set [example_layer, example_layer]" for l
    using that by (auto simp: layer_ok_def example_layer_def kv_size_def)
  have rot: "rotary_ok example_rotary" by (simp add: rotary_ok_def example_rotary_def)
  have pos: "0 \<le> p" if "p \<in> set [0, 3 :: int]" for p using that by auto
  have sizes: "0 < (128 :: nat)" "length [0, 3 :: int] = length [[1], [2 :: real]]" "[[1], [2 :: real]] \<noteq> []" by simp_all
  from fused_kv_equals_sequential [OF h ok rot sizes pos, of "\<lambda>_. 0" "\<lambda>_. 0"] obtain h' ws where
    m: "materialize (\<lambda>_. 0) (\<lambda>_. 0) 128 h [[1], [2]] [0, 3] = (h', ws, None)" "map fst ws = [0..<length [example_layer, example_layer]]"
    and all: "\<forall>i<length [example_layer, example_layer]. \<forall>c<length [[1], [2 :: real]]. layer_kv (([example_layer, example_layer] ! i)\<lparr>rotary_emb := fh_rotary h'\<rparr>)
        ([[1], [2]] ! c, [0, 3] ! c) = Inr (fst (snd (ws ! i)) ! c, snd (snd (ws ! i)) ! c)"
    by blast
  have order: "map fst ws = [0, 1]" using m(2) by (simp add: upt_rec)
  have last: "layer_kv (example_layer\<lparr>rotary_emb := fh_rotary h'\<rparr>) ([2], 3) = Inr (fst (snd (ws ! 1)) ! 1, snd (snd (ws ! 1)) ! 1)"
    using all [rule_format, of 1 1] by simp
  show ?thesis by (rule exI [of _ h], rule exI [of _ h'], rule exI [of _ ws], intro conjI) (rule h m(1) order last)+
qed

end
