(* ===== verification/Dflash_Kv.thy ===== *)
theory Dflash_Kv
  imports Dflash_Info Fused_Kv
begin

section \<open>The KV cache of the draft model\<close>

text \<open>
  The part of \<^verbatim>\<open>srt/speculative/dflash_worker.py\<close> that keeps the KV cache of the draft model in step with the committed
  tokens: the lookups of slots, the compact window, and \<^verbatim>\<open>_append_target_hidden_to_draft_kv\<close> with its fused and its
  sequential path, on \<^verbatim>\<open>set_kv_buffer\<close> of \<^verbatim>\<open>srt/mem_cache/memory_pool.py\<close>.

  The draft model keeps its own keys and values in the slots of the target model. Without a window it shares the table
  \<^verbatim>\<open>req_to_token\<close> of the target (\<open>draft_pool\<close> is \<open>None\<close>), with a window it has a table of its own. Its layers share one rotary
  embedding, as \<^verbatim>\<open>get_rope\<close> returns the same object for the same arguments. A pool of another number format divides by the
  scales, which are positive, and converts (\<open>kv_cast\<close>).
\<close>

type_synonym kv_entry = "real list list \<times> real list list"

record draft_model =
  layers :: "attn_layer list"
  fc_in_features :: nat
  fc_weight :: "real list list"
  hidden_norm_weight :: "real list"
  hidden_norm_eps :: real

record draft_worker =
  draft_net :: draft_model
  block_size :: nat
  worker_page_size :: nat
  draft_window_size :: "nat option"
  use_fused_kv :: bool
  fused_kv_helper :: "fused_helper option"
  kv_buffer :: "kv_entry list list"
  kv_cast :: "(real \<Rightarrow> real) option"
  draft_pool :: "req_pool option"

record kernel_env =
  float_oob :: "int \<Rightarrow> real"
  float_garbage :: "nat \<Rightarrow> real"
  rope_align :: nat
  table_oob :: "nat \<Rightarrow> int"

subsection \<open>Looking up slots\<close>

definition table_row :: "req_pool \<Rightarrow> nat \<Rightarrow> int list \<Rightarrow> int list res" where
  "table_row p i ps = (if length (req_to_token p) \<le> i then Inl IndexError else rmap (py_index (req_to_token p ! i)) ps)"

definition gather_req_to_token_masked :: "req_pool \<Rightarrow> nat list \<Rightarrow> int list list \<Rightarrow> bool list list \<Rightarrow> int list res" where
  "gather_req_to_token_masked p idx pos2d mask2d =
     (if map length mask2d \<noteq> map length pos2d then Inl RuntimeError
      else if max_context_len p = 0 then (if \<exists>r\<in>set mask2d. True \<in> set r then Inl RuntimeError else Inr [])
      else if length idx \<noteq> length pos2d then Inl IndexError
      else let safe_pos2d = map2 (map2 (\<lambda>x m. if m then x else 0)) pos2d mask2d in
        rbind (rmap (\<lambda>(i, ps). table_row p i ps) (zip idx safe_pos2d)) (\<lambda>vals. Inr (select (concat mask2d) (concat vals))))"

definition gather_req_to_token_segments :: "req_pool \<Rightarrow> nat list \<Rightarrow> int list option \<Rightarrow> nat list \<Rightarrow> int list res" where
  "gather_req_to_token_segments p idx start lengths =
     (if lengths = [] then Inr []
      else let max_len = Max (set lengths) in
      if max_len \<le> 0 then Inr []
      else let offsets = [0..<max_len];
               pos2d = (case start of None \<Rightarrow> map (\<lambda>_. map int offsets) idx | Some st \<Rightarrow> map (\<lambda>s. map (\<lambda>r. s + int r) offsets) st);
               mask2d = map (\<lambda>l. map (\<lambda>r. r < l) offsets) lengths
           in gather_req_to_token_masked p idx pos2d mask2d)"

definition compute_compact_draft_seq_lens :: "draft_worker \<Rightarrow> nat list \<Rightarrow> nat list res" where
  "compute_compact_draft_seq_lens w lens =
     (case draft_window_size w of
        None \<Rightarrow> Inl AssertionError
      | Some n \<Rightarrow> let visible_lens = map (\<lambda>s. min s n) lens in
          if worker_page_size w \<le> 1 then Inr visible_lens
          else Inr (map2 (\<lambda>s v. let visible_start = s - v; aligned_start = visible_start - visible_start mod worker_page_size w in s - aligned_start)
                 lens visible_lens))"

subsection \<open>Writing keys and values\<close>

definition project_row :: "draft_model \<Rightarrow> real list \<Rightarrow> real list res" where
  "project_row dm x =
     (if length x \<noteq> fc_in_features dm then Inl ValueError
      else rms_norm (hidden_norm_weight dm) (hidden_norm_eps dm) (linear_row (fc_weight dm) None x))"

definition project_target_hidden :: "draft_model \<Rightarrow> real list list \<Rightarrow> real list list res" where
  "project_target_hidden dm hs = rmap (project_row dm) hs"

definition scaled_value :: "(real \<Rightarrow> real) option \<Rightarrow> real option \<Rightarrow> real \<Rightarrow> real" where
  "scaled_value cast scale x = (case cast of None \<Rightarrow> x | Some c \<Rightarrow> c (case scale of None \<Rightarrow> x | Some s \<Rightarrow> x / s))"

definition kv_value :: "(real \<Rightarrow> real) option \<Rightarrow> attn_layer \<Rightarrow> kv_entry \<Rightarrow> kv_entry" where
  "kv_value cast l e = (map (map (scaled_value cast (k_scale l))) (fst e), map (map (scaled_value cast (v_scale l))) (snd e))"

text \<open>\<^verbatim>\<open>xs[i] = v\<close>.\<close>

definition py_set :: "'a list \<Rightarrow> int \<Rightarrow> 'a \<Rightarrow> 'a list res" where
  "py_set xs i v =
     (if 0 \<le> i \<and> nat i < length xs then Inr (xs[nat i := v])
      else if i < 0 \<and> - int (length xs) \<le> i then Inr (xs[nat (int (length xs) + i) := v])
      else Inl IndexError)"

definition set_kv_buffer ::
  "(real \<Rightarrow> real) option \<Rightarrow> attn_layer \<Rightarrow> nat \<Rightarrow> int list \<Rightarrow> kv_entry list \<Rightarrow> kv_entry list list \<Rightarrow> kv_entry list list res" where
  "set_kv_buffer cast l layer_id loc kvs buf =
     (if length loc \<noteq> length kvs then Inl RuntimeError
      else if length buf \<le> layer_id then Inl IndexError
      else rbind (rfold (\<lambda>slots (i, e). py_set slots i e) (buf ! layer_id) (zip loc (map (kv_value cast l) kvs)))
        (\<lambda>slots. Inr (buf[layer_id := slots])))"

definition sequential_layer :: "real list list \<Rightarrow> int list \<Rightarrow> int list \<Rightarrow> draft_worker \<Rightarrow> nat \<times> attn_layer \<Rightarrow> draft_worker res" where
  "sequential_layer ctx_hidden ctx_positions ctx_cache_loc w il =
     (case il of (i, l) \<Rightarrow>
        if length ctx_positions \<noteq> length ctx_hidden then Inl RuntimeError
        else rbind (rmap (layer_kv l) (zip ctx_hidden ctx_positions)) (\<lambda>kvs.
             rbind (set_kv_buffer (kv_cast w) l i ctx_cache_loc kvs (kv_buffer w)) (\<lambda>buf. Inr (w\<lparr>kv_buffer := buf\<rparr>))))"

definition append_target_hidden_sequential :: "draft_worker \<Rightarrow> real list list \<Rightarrow> int list \<Rightarrow> int list \<Rightarrow> draft_worker res" where
  "append_target_hidden_sequential w ctx_hidden ctx_positions ctx_cache_loc =
     rfold (sequential_layer ctx_hidden ctx_positions ctx_cache_loc) w (List.enumerate 0 (layers (draft_net w)))"

text \<open>The fused path: the writes before an exception stay, and growing the cache of factors is seen by every layer.\<close>

fun write_layer_kv :: "int list \<Rightarrow> draft_worker \<Rightarrow> (nat \<times> kv_rows) list \<Rightarrow> draft_worker \<times> py_exn option" where
  "write_layer_kv loc w [] = (w, None)"
| "write_layer_kv loc w ((i, ks, vs) # ws) =
     (case set_kv_buffer (kv_cast w) (layers (draft_net w) ! i) i loc (zip ks vs) (kv_buffer w) of
        Inl e \<Rightarrow> (w, Some e)
      | Inr buf \<Rightarrow> write_layer_kv loc (w\<lparr>kv_buffer := buf\<rparr>) ws)"

definition share_rotary :: "rotary_embedding \<Rightarrow> draft_model \<Rightarrow> draft_model" where
  "share_rotary rot dm = dm\<lparr>layers := map (\<lambda>l. l\<lparr>rotary_emb := rot\<rparr>) (layers dm)\<rparr>"

definition append_target_hidden_fused ::
  "kernel_env \<Rightarrow> draft_worker \<Rightarrow> real list list \<Rightarrow> int list \<Rightarrow> int list \<Rightarrow> draft_worker \<times> py_exn option" where
  "append_target_hidden_fused e w ctx_hidden ctx_positions ctx_cache_loc =
     (case fused_kv_helper w of
        None \<Rightarrow> (w, Some AttributeError)
      | Some h \<Rightarrow>
          (case materialize (float_oob e) (float_garbage e) (rope_align e) h ctx_hidden ctx_positions of (h', ws, x) \<Rightarrow>
             (case write_layer_kv ctx_cache_loc (w\<lparr>fused_kv_helper := Some h', draft_net := share_rotary (fh_rotary h') (draft_net w)\<rparr>) ws of
                (w', None) \<Rightarrow> (w', x)
              | (w', Some y) \<Rightarrow> (w', Some y))))"

definition append_context ::
  "kernel_env \<Rightarrow> draft_worker \<Rightarrow> real list list \<Rightarrow> int list \<Rightarrow> int list \<Rightarrow> draft_worker res" where
  "append_context e w ctx_hidden ctx_positions ctx_cache_loc =
     (if use_fused_kv w \<and> fused_kv_helper w \<noteq> None
      then case append_target_hidden_fused e w ctx_hidden ctx_positions ctx_cache_loc of
             (w', None) \<Rightarrow> Inr w'
           | (w', Some x) \<Rightarrow>
               append_target_hidden_sequential (w'\<lparr>use_fused_kv := False, fused_kv_helper := None\<rparr>) ctx_hidden ctx_positions ctx_cache_loc
      else append_target_hidden_sequential w ctx_hidden ctx_positions ctx_cache_loc)"

subsection \<open>Appending the features of committed tokens\<close>

text \<open>The slots and positions of the context tokens: one request, or a batch with a mask. \<open>prefill\<close> says that the
  forward mode of the batch counts as extending, in a prefill and after a verification.\<close>

definition context_slots :: "bool \<Rightarrow> draft_worker \<Rightarrow> 'c batch \<Rightarrow> real list draft_input \<Rightarrow> (int list \<times> int list) res" where
  "context_slots prefill w b d =
     (let ctx_start = map2 (\<lambda>s c. int s - int c) (seq_lens b) (ctx_lens d); p = pool (mem b) in
      if length (reqs b) = 1
      then let r = [0..<length (target_hidden d)]; pos2d = map (\<lambda>s. map (\<lambda>j. s + int j) r) ctx_start in
           if length (req_pool_indices b) \<noteq> length pos2d then Inl IndexError
           else rbind (rmap (\<lambda>(i, ps). table_row p i ps) (zip (req_pool_indices b) pos2d)) (\<lambda>vals. Inr (concat vals, concat pos2d))
      else let max_ctx = (if prefill then Max (set (ctx_lens d)) else block_size w) in
           if max_ctx \<le> 0 then Inl RuntimeError
           else let r = [0..<max_ctx]; pos2d = map (\<lambda>s. map (\<lambda>j. s + int j) r) ctx_start;
                    mask2d = map (\<lambda>c. map (\<lambda>j. j < c) r) (ctx_lens d)
                in rbind (gather_req_to_token_masked p (req_pool_indices b) pos2d mask2d) (\<lambda>locs.
                     Inr (locs, select (concat mask2d) (concat pos2d))))"

definition draft_table :: "draft_worker \<Rightarrow> 'c batch \<Rightarrow> req_pool" where
  "draft_table w b = (case draft_pool w of None \<Rightarrow> pool (mem b) | Some p \<Rightarrow> p)"

definition set_draft_table :: "req_pool \<Rightarrow> draft_worker \<times> 'c batch \<Rightarrow> draft_worker \<times> 'c batch" where
  "set_draft_table p wb = (case wb of (w, b) \<Rightarrow>
     (case draft_pool w of None \<Rightarrow> (w, b\<lparr>mem := (mem b)\<lparr>pool := p\<rparr>\<rparr>) | Some _ \<Rightarrow> (w\<lparr>draft_pool := Some p\<rparr>, b)))"

definition update_draft_table :: "kernel_env \<Rightarrow> draft_worker \<Rightarrow> 'c batch \<Rightarrow> ((draft_worker \<times> 'c batch) \<times> nat list) res" where
  "update_draft_table e w b =
     (if draft_window_size w \<noteq> None
      then rbind (compute_compact_draft_seq_lens w (seq_lens b)) (\<lambda>new_lens.
           let suffix_start = map2 (\<lambda>s n. int s - int n) (seq_lens b) new_lens in
           rbind (gather_req_to_token_segments (pool (mem b)) (req_pool_indices b) (Some suffix_start) new_lens) (\<lambda>suffix_cache_loc.
             Inr (set_draft_table (assign_req_to_token_pool (table_oob e) (draft_table w b) (req_pool_indices b) (map (\<lambda>_. 0) new_lens) new_lens suffix_cache_loc)
                    (w, b), new_lens)))
      else Inr ((w, b), seq_lens b))"

definition append_target_hidden_to_draft_kv ::
  "kernel_env \<Rightarrow> bool \<Rightarrow> draft_worker \<Rightarrow> 'c batch \<Rightarrow> real list draft_input \<Rightarrow> (draft_worker \<times> 'c batch \<times> real list draft_input) res" where
  "append_target_hidden_to_draft_kv e prefill w b d =
     (if length (ctx_lens d) \<noteq> length (reqs b) then Inl RuntimeError
      else if length (draft_seq_lens d) \<noteq> length (reqs b) then Inl RuntimeError
      else if target_hidden d = [] then Inr (w, b, d\<lparr>ctx_lens := map (\<lambda>_. 0) (ctx_lens d)\<rparr>)
      else rbind (context_slots prefill w b d) (\<lambda>(ctx_cache_loc, ctx_positions).
           rbind (project_target_hidden (draft_net w) (target_hidden d)) (\<lambda>ctx_hidden.
           if length ctx_hidden \<noteq> length ctx_cache_loc then Inl RuntimeError
           else rbind (append_context e w ctx_hidden ctx_positions ctx_cache_loc) (\<lambda>w1.
                rbind (update_draft_table e w1 b) (\<lambda>((w2, b2), new_lens).
                Inr (w2, b2, d\<lparr>draft_seq_lens := new_lens, ctx_lens := map (\<lambda>_. 0) (ctx_lens d), target_hidden := []\<rparr>))))))"

text \<open>\<^verbatim>\<open>_append_target_hidden_to_draft_kv_by_loc\<close>: at given slots, with an optional mask of the valid rows.\<close>

definition masked_layer :: "real list list \<Rightarrow> int list \<Rightarrow> int list \<Rightarrow> bool list \<Rightarrow> draft_worker \<Rightarrow> nat \<times> attn_layer \<Rightarrow> draft_worker res" where
  "masked_layer ctx_hidden positions cache_loc mask_valid w il =
     (case il of (i, l) \<Rightarrow>
        rbind (rmap (layer_kv l) (zip ctx_hidden positions)) (\<lambda>kvs.
        let zeroed = map2 (\<lambda>m kv. if m then kv else (map (map (\<lambda>_. 0)) (fst kv), map (map (\<lambda>_. 0)) (snd kv))) mask_valid kvs in
        rbind (set_kv_buffer (kv_cast w) l i cache_loc zeroed (kv_buffer w)) (\<lambda>buf. Inr (w\<lparr>kv_buffer := buf\<rparr>))))"

definition append_target_hidden_to_draft_kv_by_loc ::
  "kernel_env \<Rightarrow> draft_worker \<Rightarrow> real list list option \<Rightarrow> int list \<Rightarrow> int list \<Rightarrow> bool list option \<Rightarrow> draft_worker res" where
  "append_target_hidden_to_draft_kv_by_loc e w hidden cache_loc positions mask_valid =
     (case hidden of
        None \<Rightarrow> Inl RuntimeError
      | Some hs \<Rightarrow>
          if hs = [] then Inr w
          else if length cache_loc \<noteq> length hs then Inl ValueError
          else if length positions \<noteq> length hs then Inl ValueError
          else if mask_valid \<noteq> None \<and> length (the mask_valid) \<noteq> length hs then Inl ValueError
          else rbind (project_target_hidden (draft_net w) hs) (\<lambda>ctx_hidden.
            case mask_valid of
              None \<Rightarrow> append_context e w ctx_hidden positions cache_loc
            | Some ms \<Rightarrow> rfold (masked_layer ctx_hidden positions cache_loc ms) w (List.enumerate 0 (layers (draft_net w)))))"

section \<open>The draft cache follows the target\<close>

subsection \<open>Writes at distinct slots\<close>

lemma py_index_nat [simp]: "n < length xs \<Longrightarrow> py_index xs (int n) = Inr (xs ! n)"
  by (simp add: py_index_def)

lemma table_row_nat:
  assumes "i < length (req_to_token p)" "\<And>n. n \<in> set ns \<Longrightarrow> n < length (req_to_token p ! i)"
  shows "table_row p i (map int ns) = Inr (map (\<lambda>n. req_to_token p ! i ! n) ns)"
proof -
  have "rmap (py_index (req_to_token p ! i)) (map int ns) = Inr (map (\<lambda>x. req_to_token p ! i ! nat x) (map int ns))"
    by (rule rmap_Inr) (use assms(2) in auto)
  then show ?thesis using assms(1) by (simp add: table_row_def comp_def)
qed

lemma rfold_py_set:
  assumes "distinct loc" "\<And>x. x \<in> set loc \<Longrightarrow> 0 \<le> x \<and> nat x < length xs" "length es = length loc"
  shows "\<exists>ys. rfold (\<lambda>slots (i, e). py_set slots i e) xs (zip loc es) = Inr ys \<and> length ys = length xs
    \<and> (\<forall>t<length loc. ys ! nat (loc ! t) = es ! t) \<and> (\<forall>s<length xs. int s \<notin> set loc \<longrightarrow> ys ! s = xs ! s)"
  using assms
proof (induction loc arbitrary: xs es)
  case Nil
  then show ?case by simp
next
  case (Cons x loc)
  then obtain e es' where es: "es = e # es'" by (cases es) auto
  have x: "0 \<le> x" "nat x < length xs" using Cons.prems(2) [of x] by simp_all
  have "distinct loc" "\<And>y. y \<in> set loc \<Longrightarrow> 0 \<le> y \<and> nat y < length (xs[nat x := e])" "length es' = length loc"
    using Cons.prems es by auto
  from Cons.IH [OF this] obtain ys where ys: "rfold (\<lambda>slots (i, e). py_set slots i e) (xs[nat x := e]) (zip loc es') = Inr ys"
    "length ys = length (xs[nat x := e])" "\<forall>t<length loc. ys ! nat (loc ! t) = es' ! t"
    "\<forall>s<length (xs[nat x := e]). int s \<notin> set loc \<longrightarrow> ys ! s = xs[nat x := e] ! s" by blast
  have run: "rfold (\<lambda>slots (i, e). py_set slots i e) xs (zip (x # loc) es) = Inr ys" using x ys(1) es by (simp add: py_set_def)
  have new: "x \<notin> set loc" using Cons.prems(1) by simp
  have "ys ! nat x = e" using ys(4) x new by simp
  then have "\<forall>t<length (x # loc). ys ! nat ((x # loc) ! t) = es ! t" using ys(3) es by (auto simp: less_Suc_eq_0_disj)
  moreover have "\<forall>s<length xs. int s \<notin> set (x # loc) \<longrightarrow> ys ! s = xs ! s" using ys(4) x by (auto simp: nth_list_update)
  ultimately show ?case using run ys(2) by auto
qed

lemma set_kv_buffer_spec:
  assumes "distinct loc" "\<And>x. x \<in> set loc \<Longrightarrow> 0 \<le> x \<and> nat x < length (buf ! i)" "length kvs = length loc" "i < length buf"
  shows "\<exists>slots. set_kv_buffer cast l i loc kvs buf = Inr (buf[i := slots]) \<and> length slots = length (buf ! i)
    \<and> (\<forall>t<length loc. slots ! nat (loc ! t) = kv_value cast l (kvs ! t)) \<and> (\<forall>s<length (buf ! i). int s \<notin> set loc \<longrightarrow> slots ! s = buf ! i ! s)"
  using rfold_py_set [OF assms(1,2), where es = "map (kv_value cast l) kvs"] assms(3,4) by (auto simp: set_kv_buffer_def)

text \<open>The writes of all layers at the same slots.\<close>

definition set_layers :: "(real \<Rightarrow> real) option \<Rightarrow> attn_layer list \<Rightarrow> int list \<Rightarrow> (nat \<Rightarrow> kv_entry list) \<Rightarrow> nat list \<Rightarrow> kv_entry list list \<Rightarrow> kv_entry list list res" where
  "set_layers cast ls loc E is buf = rfold (\<lambda>buf i. set_kv_buffer cast (ls ! i) i loc (E i) buf) buf is"

definition kv_written :: "(real \<Rightarrow> real) option \<Rightarrow> attn_layer list \<Rightarrow> int list \<Rightarrow> (nat \<Rightarrow> kv_entry list) \<Rightarrow> nat \<Rightarrow> kv_entry list list \<Rightarrow> kv_entry list list \<Rightarrow> bool" where
  "kv_written cast ls loc E n buf buf' \<longleftrightarrow> length buf' = length buf
     \<and> (\<forall>i<length buf. length (buf' ! i) = length (buf ! i)
          \<and> (i < n \<longrightarrow> (\<forall>t<length loc. buf' ! i ! nat (loc ! t) = kv_value cast (ls ! i) (E i ! t)))
          \<and> (\<forall>s<length (buf ! i). int s \<notin> set loc \<or> n \<le> i \<longrightarrow> buf' ! i ! s = buf ! i ! s))"

lemma set_layers_spec:
  assumes "distinct loc" "\<And>i x. i < length buf \<Longrightarrow> x \<in> set loc \<Longrightarrow> 0 \<le> x \<and> nat x < length (buf ! i)"
    and "n \<le> length buf" "\<And>i. i < n \<Longrightarrow> length (E i) = length loc"
  shows "\<exists>buf'. set_layers cast ls loc E [0..<n] buf = Inr buf' \<and> kv_written cast ls loc E n buf buf'"
  using assms(3,4)
proof (induction n)
  case 0
  then show ?case by (simp add: set_layers_def kv_written_def)
next
  case (Suc n)
  then obtain b1 where b1: "set_layers cast ls loc E [0..<n] buf = Inr b1" and w1: "kv_written cast ls loc E n buf b1" by auto
  have len: "length b1 = length buf" "length (b1 ! n) = length (buf ! n)" using w1 Suc.prems(1) by (simp_all add: kv_written_def)
  have inb: "0 \<le> x \<and> nat x < length (b1 ! n)" if "x \<in> set loc" for x using assms(2) [OF _ that, of n] Suc.prems(1) len by simp
  from set_kv_buffer_spec [OF assms(1) inb Suc.prems(2) [of n], of cast "ls ! n"] obtain slots where
    s: "set_kv_buffer cast (ls ! n) n loc (E n) b1 = Inr (b1[n := slots])" "length slots = length (b1 ! n)"
      "\<forall>t<length loc. slots ! nat (loc ! t) = kv_value cast (ls ! n) (E n ! t)" "\<forall>s<length (b1 ! n). int s \<notin> set loc \<longrightarrow> slots ! s = b1 ! n ! s"
    using Suc.prems(1) len by auto
  have "set_layers cast ls loc E [0..<Suc n] buf = Inr (b1[n := slots])" using b1 s(1) by (simp add: set_layers_def rfold_append)
  moreover have "kv_written cast ls loc E (Suc n) buf (b1[n := slots])"
    unfolding kv_written_def
  proof (intro conjI allI impI)
    fix i assume i: "i < length buf"
    have c: "i \<noteq> n \<Longrightarrow> b1[n := slots] ! i = b1 ! i" "i = n \<Longrightarrow> b1[n := slots] ! i = slots" using i len by simp_all
    show "length (b1[n := slots] ! i) = length (buf ! i)" using c w1 i s(2) len by (cases "i = n") (simp_all add: kv_written_def)
    show "b1[n := slots] ! i ! nat (loc ! t) = kv_value cast (ls ! i) (E i ! t)" if "i < Suc n" "t < length loc" for t
      using c w1 i s(3) that by (cases "i = n") (simp_all add: kv_written_def)
    show "b1[n := slots] ! i ! r = buf ! i ! r" if "r < length (buf ! i)" "int r \<notin> set loc \<or> Suc n \<le> i" for r
      using c w1 i s(4) that len by (cases "i = n") (auto simp: kv_written_def)
  qed (simp add: len)
  ultimately show ?case by blast
qed

lemma enumerate_nth: "List.enumerate 0 xs = map (\<lambda>i. (i, xs ! i)) [0..<length xs]"
  by (intro nth_equalityI) (simp_all add: nth_enumerate_eq)

lemma sequential_run:
  assumes "\<And>i. i < n \<Longrightarrow> rmap (layer_kv (ls ! i)) (zip hidden positions) = Inr (E i)" "length positions = length hidden"
  shows "rfold (sequential_layer hidden positions loc) w (map (\<lambda>i. (i, ls ! i)) [0..<n])
    = rbind (set_layers (kv_cast w) ls loc E [0..<n] (kv_buffer w)) (\<lambda>buf. Inr (w\<lparr>kv_buffer := buf\<rparr>))"
  using assms(1)
proof (induction n)
  case 0
  then show ?case by (simp add: set_layers_def)
next
  case (Suc n)
  then show ?case using assms(2)
    by (cases "set_layers (kv_cast w) ls loc E [0..<n] (kv_buffer w)") (simp_all add: set_layers_def rfold_append sequential_layer_def rbind_def split: sum.splits)
qed

lemma write_layer_kv_run:
  assumes "set_layers (kv_cast w) (layers (draft_net w)) loc (\<lambda>i. zip (K i) (V i)) is (kv_buffer w) = Inr buf"
  shows "write_layer_kv loc w (map (\<lambda>i. (i, K i, V i)) is) = (w\<lparr>kv_buffer := buf\<rparr>, None)"
  using assms
proof (induction "is" arbitrary: w)
  case Nil
  then show ?case by (simp add: set_layers_def)
next
  case (Cons i "is")
  then obtain b where b: "set_kv_buffer (kv_cast w) (layers (draft_net w) ! i) i loc (zip (K i) (V i)) (kv_buffer w) = Inr b"
    "set_layers (kv_cast w) (layers (draft_net w)) loc (\<lambda>i. zip (K i) (V i)) is b = Inr buf"
    by (auto simp: set_layers_def rbind_eq_Inr)
  then show ?case using Cons.IH [of "w\<lparr>kv_buffer := b\<rparr>"] by simp
qed

subsection \<open>The layer operations succeed on well-shaped layers\<close>

definition layer_shapes :: "rotary_embedding \<Rightarrow> attn_layer \<Rightarrow> bool" where
  "layer_shapes rot l \<longleftrightarrow> layer_ok rot l \<and> rotary_dim rot \<le> head_dim l \<and> (\<forall>bs. qkv_bias l = Some bs \<longrightarrow> q_size l + 2 * kv_size l \<le> length bs)
     \<and> (\<forall>x. length (qkv_apply l x) = q_size l + 2 * kv_size l)"

lemma length_evens: "length (evens xs) = (length xs + 1) div 2"
  by (induction xs rule: evens.induct) auto

lemma kv_proj_only_total:
  assumes "layer_shapes rot l"
  shows "\<exists>k v. kv_proj_only l x = Inr (k, v) \<and> length k = num_kv_heads l * head_dim l"
proof (cases "fst (can_dflash_slice_qkv_weight (qkv_info l))")
  case True
  let ?W = "slice (q_size l) (q_size l + 2 * kv_size l) (qkv_weight l)" and ?b = "map_option (slice (q_size l) (q_size l + 2 * kv_size l)) (qkv_bias l)"
  have "length (linear_row ?W ?b x) = 2 * kv_size l"
    using assms by (cases "qkv_bias l") (auto simp: layer_shapes_def layer_ok_def linear_row_def)
  then show ?thesis using True by (simp add: kv_proj_only_def Let_def split2_def kv_size_def)
next
  case False
  then show ?thesis using assms by (simp add: kv_proj_only_def layer_shapes_def split2_def kv_size_def)
qed

lemma apply_k_norm_total:
  assumes "layer_ok rot l" "length k = num_kv_heads l * head_dim l"
  shows "\<exists>k'. apply_k_norm l k = Inr k' \<and> length k' = num_kv_heads l * head_dim l"
proof -
  let ?hs = "rows (num_kv_heads l) (head_dim l) k" and ?f = "normed (k_norm_weight l) (k_norm_eps l)"
  have w: "length y = head_dim l" if "y \<in> set ?hs" for y using rows_width [OF assms(2) that] .
  have lw: "length (k_norm_weight l) = head_dim l" using assms(1) by (simp add: layer_ok_def)
  have "rmap (rms_norm (k_norm_weight l) (k_norm_eps l)) ?hs = Inr (map ?f ?hs)"
    by (rule rmap_Inr) (simp add: rms_norm_normed w lw)
  moreover have "length (concat (map ?f ?hs)) = num_kv_heads l * head_dim l"
  proof -
    have "map length (map ?f ?hs) = map (\<lambda>_. head_dim l) ?hs" using w lw by (simp add: normed_def)
    then show ?thesis by (simp add: length_concat map_replicate_const sum_list_replicate)
  qed
  ultimately show ?thesis by (simp add: apply_k_norm_def heads_of_def)
qed

lemma rope_head_total:
  assumes "even (rotary_dim rot)" "rotary_dim rot \<le> length k" "length cs = rotary_dim rot"
  shows "\<exists>r. rope_head rot (fst (chunk2 cs)) (snd (chunk2 cs)) k = Inr r"
proof -
  obtain half where h: "rotary_dim rot = 2 * half" using assms(1) by (elim evenE)
  have n: "(2 * half + 1) div 2 = half" by simp
  show ?thesis using assms(2,3) h n
    by (cases "is_neox_style rot") (auto simp: rope_head_def apply_rotary_emb_def chunk2_def Let_def length_evens min_absorb2)
qed

lemma layer_kv_total:
  assumes "layer_shapes rot l" "rotary_ok rot" "0 \<le> p" "p < int (length (cos_sin_cache rot))"
  shows "\<exists>e. layer_kv l (x, p) = Inr e"
proof -
  have l: "layer_ok rot l" "rotary_emb l = rot" "rotary_dim rot \<le> head_dim l" using assms(1) by (simp_all add: layer_shapes_def layer_ok_def)
  obtain k v where k: "kv_proj_only l x = Inr (k, v)" "length k = num_kv_heads l * head_dim l" using kv_proj_only_total [OF assms(1)] by blast
  obtain k1 where k1: "apply_k_norm l k = Inr k1" "length k1 = num_kv_heads l * head_dim l" using apply_k_norm_total [OF l(1) k(2)] by blast
  let ?cs = "cos_sin_cache rot ! nat p"
  have csl: "length ?cs = rotary_dim rot" "even (rotary_dim rot)" using assms(2-4) by (simp_all add: rotary_ok_def list_all_iff nat_less_iff)
  have "\<exists>hs. rmap (rope_head rot (fst (chunk2 ?cs)) (snd (chunk2 ?cs))) (rows (num_kv_heads l) (head_dim l) k1) = Inr hs"
  proof (rule rmap_total)
    fix y assume "y \<in> set (rows (num_kv_heads l) (head_dim l) k1)"
    then have "rotary_dim rot \<le> length y" using rows_width [OF k1(2)] l(3) by simp
    then show "\<exists>r. rope_head rot (fst (chunk2 ?cs)) (snd (chunk2 ?cs)) y = Inr r" by (rule rope_head_total [OF csl(2) _ csl(1)])
  qed
  then obtain hs where hs: "rmap (rope_head rot (fst (chunk2 ?cs)) (snd (chunk2 ?cs))) (rows (num_kv_heads l) (head_dim l) k1) = Inr hs" by blast
  obtain c1 c2 where c: "chunk2 ?cs = (c1, c2)" by (cases "chunk2 ?cs")
  have "apply_k_rope l p k1 = Inr (concat hs)" using hs assms(3,4) l(2) by (simp add: apply_k_rope_def Let_def heads_of_def c)
  then show ?thesis using k(1) k1(1) by (simp add: layer_kv_def)
qed

subsection \<open>Both paths write the keys and values of the layer operations\<close>

text \<open>What the worker keeps: well-shaped layers that share one rotary embedding, a helper made from them if there is one, a buffer of
  \<open>slots\<close> slots per layer, and a table of its own exactly with a window.\<close>

definition worker_ok :: "rotary_embedding \<Rightarrow> nat \<Rightarrow> draft_worker \<Rightarrow> bool" where
  "worker_ok rot slots w \<longleftrightarrow> rotary_ok rot \<and> (\<forall>l\<in>set (layers (draft_net w)). layer_shapes rot l)
     \<and> (\<forall>h. fused_kv_helper w = Some h \<longrightarrow> init_fused_kv_helper (layers (draft_net w)) = Some h)
     \<and> length (hidden_norm_weight (draft_net w)) = length (fc_weight (draft_net w))
     \<and> length (kv_buffer w) = length (layers (draft_net w)) \<and> (\<forall>b\<in>set (kv_buffer w). length b = slots)"

lemma share_rotary_id: "(\<And>l. l \<in> set (layers dm) \<Longrightarrow> rotary_emb l = rot) \<Longrightarrow> share_rotary rot dm = dm"
proof -
  assume a: "\<And>l. l \<in> set (layers dm) \<Longrightarrow> rotary_emb l = rot"
  have "map (\<lambda>l. l\<lparr>rotary_emb := rot\<rparr>) (layers dm) = layers dm" by (rule map_idI) (use a in fastforce)
  then show ?thesis by (simp add: share_rotary_def)
qed

lemma append_context_spec:
  assumes ok: "worker_ok rot slots w" and len: "length positions = length hidden" "length loc = length hidden" "hidden \<noteq> []"
    and pos: "\<And>p. p \<in> set positions \<Longrightarrow> 0 \<le> p \<and> p < int (length (cos_sin_cache rot))"
    and loc: "distinct loc" "\<And>x. x \<in> set loc \<Longrightarrow> 0 \<le> x \<and> nat x < slots" and al: "0 < rope_align e"
  shows "\<exists>buf E. append_context e w hidden positions loc = Inr (w\<lparr>kv_buffer := buf\<rparr>)
    \<and> kv_written (kv_cast w) (layers (draft_net w)) loc E (length (layers (draft_net w))) (kv_buffer w) buf
    \<and> (\<forall>i<length (layers (draft_net w)). \<forall>t<length hidden. layer_kv (layers (draft_net w) ! i) (hidden ! t, positions ! t) = Inr (E i ! t))"
proof -
  let ?ls = "layers (draft_net w)" and ?buf = "kv_buffer w"
  have o: "rotary_ok rot" "\<forall>l\<in>set ?ls. layer_shapes rot l" "length ?buf = length ?ls" "\<forall>b\<in>set ?buf. length b = slots"
    and hlp: "\<And>h. fused_kv_helper w = Some h \<Longrightarrow> init_fused_kv_helper ?ls = Some h"
    using ok by (simp_all add: worker_ok_def)
  have inb: "0 \<le> x \<and> nat x < length (?buf ! i)" if "i < length ?buf" "x \<in> set loc" for i x using loc(2) [OF that(2)] o(4) that(1) by simp
  have wr: "\<exists>buf. set_layers (kv_cast w) ?ls loc E [0..<length ?ls] ?buf = Inr buf \<and> kv_written (kv_cast w) ?ls loc E (length ?ls) ?buf buf"
    if "\<And>i. i < length ?ls \<Longrightarrow> length (E i) = length hidden" for E
    by (rule set_layers_spec [OF loc(1) inb]) (use o(3) that len(2) in simp_all)
  show ?thesis
  proof (cases "use_fused_kv w \<and> fused_kv_helper w \<noteq> None")
    case True
    then obtain h where h: "fused_kv_helper w = Some h" by blast
    have lok: "layer_ok rot l" if "l \<in> set ?ls" for l using o(2) that by (simp add: layer_shapes_def)
    have rl: "rotary_emb l = rot" if "l \<in> set ?ls" for l using lok [OF that] by (simp add: layer_ok_def)
    have p0: "0 \<le> p" if "p \<in> set positions" for p using pos [OF that] by simp
    from materialize_layer_kv [OF hlp [OF h] lok o(1) al len(1) len(3) p0, of "float_oob e" "float_garbage e"]
    obtain h' ws where m: "materialize (float_oob e) (float_garbage e) (rope_align e) h hidden positions = (h', ws, None)" "map fst ws = [0..<length ?ls]"
      and each: "\<forall>i<length ?ls. \<forall>c<length hidden. layer_kv ((?ls ! i)\<lparr>rotary_emb := fh_rotary h'\<rparr>) (hidden ! c, positions ! c) = Inr (fst (snd (ws ! i)) ! c, snd (snd (ws ! i)) ! c)"
      and wl: "\<forall>i<length ?ls. length (fst (snd (ws ! i))) = length hidden \<and> length (snd (snd (ws ! i))) = length hidden"
      and same: "(\<forall>p\<in>set positions. p < int (length (cos_sin_cache rot))) \<longrightarrow> h' = h" by blast
    have hh: "h' = h" using same pos by blast
    have fr: "fh_rotary h = rot" using init_helper_fields(3) [OF hlp [OF h]] lok by blast
    have lw: "length ws = length ?ls" using m(2) by (metis length_map length_upt minus_nat.diff_0)
    have ws: "ws = map (\<lambda>i. (i, fst (snd (ws ! i)), snd (snd (ws ! i)))) [0..<length ?ls]"
    proof (rule nth_equalityI)
      fix i assume i: "i < length ws"
      then have "fst (ws ! i) = i" using m(2) lw by (metis add_0 nth_map nth_upt)
      then show "ws ! i = map (\<lambda>i. (i, fst (snd (ws ! i)), snd (snd (ws ! i)))) [0..<length ?ls] ! i" using i lw by (simp add: prod_eq_iff)
    qed (simp add: lw)
    let ?E = "\<lambda>i. zip (fst (snd (ws ! i))) (snd (snd (ws ! i)))"
    obtain buf where b: "set_layers (kv_cast w) ?ls loc ?E [0..<length ?ls] ?buf = Inr buf" "kv_written (kv_cast w) ?ls loc ?E (length ?ls) ?buf buf"
      using wr [of ?E] wl by auto
    have w': "w\<lparr>fused_kv_helper := Some h', draft_net := share_rotary (fh_rotary h') (draft_net w)\<rparr> = w"
      using hh fr h share_rotary_id [of "draft_net w", OF rl] by simp
    have "write_layer_kv loc w ws = (w\<lparr>kv_buffer := buf\<rparr>, None)" by (subst ws) (rule write_layer_kv_run [OF b(1)])
    then have "append_context e w hidden positions loc = Inr (w\<lparr>kv_buffer := buf\<rparr>)"
      using True h m(1) w' by (simp add: append_context_def append_target_hidden_fused_def)
    moreover have "layer_kv (?ls ! i) (hidden ! t, positions ! t) = Inr (?E i ! t)" if "i < length ?ls" "t < length hidden" for i t
    proof -
      have "(?ls ! i)\<lparr>rotary_emb := fh_rotary h'\<rparr> = ?ls ! i" using rl [OF nth_mem [OF that(1)]] hh fr by simp
      moreover have "?E i ! t = (fst (snd (ws ! i)) ! t, snd (snd (ws ! i)) ! t)" using wl that by simp
      ultimately show ?thesis using each [rule_format, OF that] by simp
    qed
    ultimately show ?thesis using b(2) by blast
  next
    case False
    have "\<exists>kvs. rmap (layer_kv (?ls ! i)) (zip hidden positions) = Inr kvs" if "i < length ?ls" for i
    proof (rule rmap_total)
      fix xp assume "xp \<in> set (zip hidden positions)"
      moreover obtain x p where xp: "xp = (x, p)" by (cases xp)
      ultimately have "p \<in> set positions" by (auto dest: set_zip_rightD)
      then show "\<exists>y. layer_kv (?ls ! i) xp = Inr y" unfolding xp using layer_kv_total [OF _ o(1)] pos o(2) that by simp
    qed
    then obtain E where E: "\<And>i. i < length ?ls \<Longrightarrow> rmap (layer_kv (?ls ! i)) (zip hidden positions) = Inr (E i)" by metis
    have lE: "length (E i) = length hidden" if "i < length ?ls" for i using rmap_length [OF E [OF that]] len(1) by simp
    obtain buf where b: "set_layers (kv_cast w) ?ls loc E [0..<length ?ls] ?buf = Inr buf" "kv_written (kv_cast w) ?ls loc E (length ?ls) ?buf buf"
      using wr [of E] lE by blast
    have "append_context e w hidden positions loc = Inr (w\<lparr>kv_buffer := buf\<rparr>)"
      unfolding append_context_def if_not_P [OF False] append_target_hidden_sequential_def enumerate_nth
      using sequential_run [OF E len(1), of "length ?ls" loc w] b(1) by simp
    moreover have "layer_kv (?ls ! i) (hidden ! t, positions ! t) = Inr (E i ! t)" if "i < length ?ls" "t < length hidden" for i t
      using rmap_nth [OF E [OF that(1)], of t] that len(1) by simp
    ultimately show ?thesis using b(2) by blast
  qed
qed

subsection \<open>Slots and positions of the context tokens\<close>

definition slots_of :: "req_pool \<Rightarrow> nat list \<Rightarrow> nat list \<Rightarrow> nat list \<Rightarrow> int list list" where
  "slots_of p idx st lens = map (\<lambda>i. slice (st ! i) (st ! i + lens ! i) (req_to_token p ! (idx ! i))) [0..<length idx]"

definition positions_of :: "nat list \<Rightarrow> nat list \<Rightarrow> int list list" where
  "positions_of st lens = map (\<lambda>i. map int [st ! i..<st ! i + lens ! i]) [0..<length st]"

definition table_ok :: "req_pool \<Rightarrow> nat list \<Rightarrow> nat list \<Rightarrow> nat list \<Rightarrow> bool" where
  "table_ok p idx st lens \<longleftrightarrow> uniform (max_context_len p) (req_to_token p) \<and> 0 < max_context_len p \<and> length st = length idx \<and> length lens = length idx
     \<and> (\<forall>i<length idx. idx ! i < length (req_to_token p) \<and> st ! i + lens ! i \<le> max_context_len p)"

lemma table_okD:
  assumes "table_ok p idx st lens"
  shows "length st = length idx" "length lens = length idx" "0 < max_context_len p"
    "\<And>i. i < length idx \<Longrightarrow> idx ! i < length (req_to_token p)" "\<And>i. i < length idx \<Longrightarrow> st ! i + lens ! i \<le> length (req_to_token p ! (idx ! i))"
    "\<And>i. i < length idx \<Longrightarrow> length (req_to_token p ! (idx ! i)) = max_context_len p"
  using assms by (auto simp: table_ok_def uniform_def)

lemma select_prefix_rows:
  assumes "length vals = length lens" "\<And>r. r \<in> set vals \<Longrightarrow> length r = m"
  shows "select (concat (map (\<lambda>c. map (\<lambda>j. j < c) [0..<m]) lens)) (concat vals) = concat (map2 take lens vals)"
proof -
  have r: "rows (length lens) m (concat vals) = vals" using rows_concat [of vals m] assms by simp
  have "map length vals = replicate (length lens) m" by (intro nth_equalityI) (use assms in simp_all)
  then have "length (concat vals) = length lens * m" by (simp add: length_concat sum_list_replicate)
  from kept_slots [OF this] show ?thesis by (simp only: r)
qed

lemma take_row: "s + c \<le> length xs \<Longrightarrow> c \<le> m \<Longrightarrow> take c (map (\<lambda>j. xs ! (if j < c then s + j else 0)) [0..<m]) = slice s (s + c) xs"
  by (intro nth_equalityI) (simp_all add: nth_slice)

lemma gather_masked_spec:
  assumes ok: "table_ok p idx st lens" and m: "\<And>i. i < length idx \<Longrightarrow> lens ! i \<le> m"
  shows "gather_req_to_token_masked p idx (map (\<lambda>s. map (\<lambda>j. s + int j) [0..<m]) (map int st)) (map (\<lambda>c. map (\<lambda>j. j < c) [0..<m]) lens)
    = Inr (concat (slots_of p idx st lens))"
proof -
  note d = table_okD [OF ok]
  let ?n = "length idx" and ?row = "\<lambda>i. req_to_token p ! (idx ! i)"
  let ?pos = "map (\<lambda>s. map (\<lambda>j. s + int j) [0..<m]) (map int st)" and ?mask = "map (\<lambda>c. map (\<lambda>j. j < c) [0..<m]) lens"
  let ?ns = "\<lambda>i. map (\<lambda>j. if j < lens ! i then st ! i + j else 0) [0..<m]"
  let ?vals = "map (\<lambda>i. map (\<lambda>j. ?row i ! (if j < lens ! i then st ! i + j else 0)) [0..<m]) [0..<?n]"
  have safe: "zip idx (map2 (map2 (\<lambda>x b. if b then x else 0)) ?pos ?mask) = map (\<lambda>i. (idx ! i, map int (?ns i))) [0..<?n]"
    using d(1,2) by (intro nth_equalityI) (auto intro!: nth_equalityI)
  have row: "table_row p (idx ! i) (map int (?ns i)) = Inr (map (\<lambda>j. ?row i ! (if j < lens ! i then st ! i + j else 0)) [0..<m])" if i: "i < ?n" for i
    using d(5) [OF i] by (subst table_row_nat [OF d(4) [OF i]]) (use d(3) d(6) [OF i] in \<open>auto simp: comp_def\<close>)
  have run: "rmap (\<lambda>(i, ps). table_row p i ps) (map (\<lambda>i. (idx ! i, map int (?ns i))) [0..<?n]) = Inr ?vals"
  proof -
    have "list_all2 (\<lambda>x y. (\<lambda>(i, ps). table_row p i ps) x = Inr y) (map (\<lambda>i. (idx ! i, map int (?ns i))) [0..<?n]) ?vals"
      unfolding list_all2_map1 list_all2_map2 by (rule list.rel_refl_strong) (use row in simp)
    then show ?thesis by (simp add: rmap_eq_Inr)
  qed
  have "concat (map2 take lens ?vals) = concat (slots_of p idx st lens)"
  proof (rule arg_cong [of _ _ concat], rule nth_equalityI)
    fix i assume "i < length (map2 take lens ?vals)"
    then have i: "i < ?n" using d(2) by simp
    then show "map2 take lens ?vals ! i = slots_of p idx st lens ! i" using take_row [OF d(5) [OF i] m [OF i]] d(2) by (simp add: slots_of_def cong: if_cong)
  qed (use d(2) in \<open>simp add: slots_of_def\<close>)
  moreover have "select (concat ?mask) (concat ?vals) = concat (map2 take lens ?vals)" by (rule select_prefix_rows) (use d(2) in auto)
  ultimately have sel: "select (concat ?mask) (concat ?vals) = concat (slots_of p idx st lens)" by simp
  have shapes: "map length ?mask = map length ?pos" "length idx = length ?pos" using d(1,2) by (auto intro!: nth_equalityI)
  show ?thesis unfolding gather_req_to_token_masked_def Let_def safe run using shapes d(3) sel by simp
qed

lemma masked_positions:
  assumes "length lens = length st" "\<And>i. i < length st \<Longrightarrow> lens ! i \<le> m"
  shows "select (concat (map (\<lambda>c. map (\<lambda>j. j < c) [0..<m]) lens)) (concat (map (\<lambda>s. map (\<lambda>j. s + int j) [0..<m]) (map int st))) = concat (positions_of st lens)"
proof -
  let ?vals = "map (\<lambda>s. map (\<lambda>j. s + int j) [0..<m]) (map int st)"
  have "select (concat (map (\<lambda>c. map (\<lambda>j. j < c) [0..<m]) lens)) (concat ?vals) = concat (map2 take lens ?vals)" by (rule select_prefix_rows) (use assms in auto)
  moreover have "map2 take lens ?vals = positions_of st lens"
    by (rule nth_equalityI) (use assms in \<open>auto simp: positions_of_def take_map intro!: nth_equalityI\<close>)
  ultimately show ?thesis by simp
qed

lemma length_slots_of: "table_ok p idx st lens \<Longrightarrow> map length (slots_of p idx st lens) = lens"
proof (rule nth_equalityI)
  assume ok: "table_ok p idx st lens"
  show "length (map length (slots_of p idx st lens)) = length lens" using table_okD(2) [OF ok] by (simp add: slots_of_def)
  fix i assume "i < length (map length (slots_of p idx st lens))"
  then have i: "i < length idx" by (simp add: slots_of_def)
  then show "map length (slots_of p idx st lens) ! i = lens ! i" using table_okD(5) [OF ok i] by (simp add: slots_of_def)
qed

lemma length_positions_of: "length lens = length st \<Longrightarrow> map length (positions_of st lens) = lens"
  by (intro nth_equalityI) (auto simp: positions_of_def)

lemma nth_concat_segment:
  assumes "i < length xss" "j < length (xss ! i)"
  shows "concat xss ! (sum_list (take i (map length xss)) + j) = xss ! i ! j \<and> sum_list (take i (map length xss)) + j < length (concat xss)"
  using assms
proof (induction xss arbitrary: i)
  case (Cons x xss)
  then show ?case by (cases i) (auto simp: nth_append add.assoc)
qed simp

lemma concat_segment_ex:
  assumes "t < length (concat xss)"
  shows "\<exists>i j. i < length xss \<and> j < length (xss ! i) \<and> t = sum_list (take i (map length xss)) + j"
  using assms
proof (induction xss arbitrary: t)
  case (Cons x xss)
  show ?case
  proof (cases "t < length x")
    case True
    then show ?thesis by (intro exI [of _ 0] exI [of _ t]) simp
  next
    case False
    then have "t - length x < length (concat xss)" using Cons.prems by simp
    from Cons.IH [OF this] obtain i j where "i < length xss" "j < length (xss ! i)" "t - length x = sum_list (take i (map length xss)) + j" by blast
    then show ?thesis using False by (intro exI [of _ "Suc i"] exI [of _ j]) simp
  qed
qed simp

text \<open>A batch and its draft state as the worker passes them to the append: \<open>st\<close> are the positions before the context.\<close>

definition append_shapes :: "bool \<Rightarrow> draft_worker \<Rightarrow> 'c batch \<Rightarrow> real list draft_input \<Rightarrow> nat list \<Rightarrow> bool" where
  "append_shapes prefill w b d st \<longleftrightarrow> table_ok (pool (mem b)) (req_pool_indices b) st (ctx_lens d) \<and> seq_lens b = map2 (+) st (ctx_lens d)
     \<and> length (reqs b) = length (req_pool_indices b) \<and> length (draft_seq_lens d) = length (reqs b)
     \<and> length (target_hidden d) = sum_list (ctx_lens d) \<and> (prefill \<or> (\<forall>c\<in>set (ctx_lens d). c \<le> block_size w))
     \<and> (\<forall>x\<in>set (target_hidden d). length x = fc_in_features (draft_net w))"

lemma context_slots_spec:
  assumes ok: "append_shapes prefill w b d st" and ne: "target_hidden d \<noteq> []"
  shows "context_slots prefill w b d = Inr (concat (slots_of (pool (mem b)) (req_pool_indices b) st (ctx_lens d)), concat (positions_of st (ctx_lens d)))"
proof -
  let ?p = "pool (mem b)" and ?idx = "req_pool_indices b" and ?lens = "ctx_lens d"
  have t: "table_ok ?p ?idx st ?lens" and s: "seq_lens b = map2 (+) st ?lens" and bs: "length (reqs b) = length ?idx"
    and th: "length (target_hidden d) = sum_list ?lens" and bl: "prefill \<or> (\<forall>c\<in>set ?lens. c \<le> block_size w)"
    using ok by (simp_all add: append_shapes_def)
  note dd = table_okD [OF t]
  have start: "map2 (\<lambda>s c. int s - int c) (seq_lens b) ?lens = map int st" unfolding s using dd(1,2) by (intro nth_equalityI) simp_all
  show ?thesis
  proof (cases "length (reqs b) = 1")
    case True
    then obtain i0 s0 c0 where one: "?idx = [i0]" "st = [s0]" "?lens = [c0]" using bs dd(1,2) by (metis One_nat_def length_0_conv length_Suc_conv)
    have c: "length (target_hidden d) = c0" using th one by simp
    have r: "map (\<lambda>j. int s0 + int j) [0..<c0] = map int [s0..<s0 + c0]" by (intro nth_equalityI) simp_all
    have "table_row ?p i0 (map int [s0..<s0 + c0]) = Inr (map (\<lambda>n. req_to_token ?p ! i0 ! n) [s0..<s0 + c0])"
      by (rule table_row_nat) (use dd(4,5) [of 0] one in auto)
    moreover have "map (\<lambda>n. req_to_token ?p ! i0 ! n) [s0..<s0 + c0] = slice s0 (s0 + c0) (req_to_token ?p ! i0)"
      using dd(5) [of 0] one by (intro nth_equalityI) (simp_all add: nth_slice)
    ultimately show ?thesis unfolding context_slots_def Let_def start using True one c by (simp add: r slots_of_def positions_of_def)
  next
    case False
    let ?m = "if prefill then Max (set ?lens) else block_size w"
    have "0 < sum_list ?lens" using th ne by (metis length_greater_0_conv)
    then obtain c where c: "c \<in> set ?lens" "0 < c" by (metis gr_zeroI not_gr0 sum_list_eq_0_iff)
    have m: "x \<le> ?m" if "x \<in> set ?lens" for x using bl that by auto
    have pos: "\<not> ?m \<le> 0" using m [OF c(1)] c(2) by linarith
    have mi: "?lens ! i \<le> ?m" if "i < length ?idx" for i using m that dd(2) by (metis nth_mem)
    have g: "gather_req_to_token_masked ?p ?idx (map (\<lambda>s. map (\<lambda>j. s + int j) [0..<?m]) (map int st)) (map (\<lambda>c. map (\<lambda>j. j < c) [0..<?m]) ?lens)
        = Inr (concat (slots_of ?p ?idx st ?lens))" by (rule gather_masked_spec [OF t]) (rule mi)
    have q: "select (concat (map (\<lambda>c. map (\<lambda>j. j < c) [0..<?m]) ?lens)) (concat (map (\<lambda>s. map (\<lambda>j. s + int j) [0..<?m]) (map int st))) = concat (positions_of st ?lens)"
      by (rule masked_positions) (use dd(1,2) mi in simp_all)
    show ?thesis unfolding context_slots_def Let_def start if_not_P [OF False] if_not_P [OF pos] g q by simp
  qed
qed

subsection \<open>The compact window\<close>

lemma gather_segments_spec:
  assumes ok: "table_ok p idx st lens"
  shows "gather_req_to_token_segments p idx (Some (map int st)) lens = Inr (concat (slots_of p idx st lens))"
proof (cases "lens = [] \<or> Max (set lens) \<le> 0")
  case True
  then have "x = 0" if "x \<in> set lens" for x using that Max_ge [of "set lens" x] by fastforce
  then have "map length (slots_of p idx st lens) = map (\<lambda>_. 0) lens" using length_slots_of [OF ok] by (simp add: map_idI)
  then have "length (concat (slots_of p idx st lens)) = 0" by (simp add: length_concat)
  then show ?thesis using True by (auto simp: gather_req_to_token_segments_def Let_def)
next
  case False
  let ?m = "Max (set lens)"
  have "lens ! i \<le> ?m" if "i < length idx" for i using that table_okD(2) [OF ok] by simp
  from gather_masked_spec [OF ok this] show ?thesis using False by (simp add: gather_req_to_token_segments_def Let_def)
qed

definition compact_len :: "nat \<Rightarrow> nat \<Rightarrow> nat \<Rightarrow> nat" where
  "compact_len page n s = (if page \<le> 1 then min s n else s - ((s - n) - (s - n) mod page))"

lemma compute_compact_lens: "draft_window_size w = Some n \<Longrightarrow> compute_compact_draft_seq_lens w lens = Inr (map (compact_len (worker_page_size w) n) lens)"
proof -
  assume a: "draft_window_size w = Some n"
  have m: "s - min s n = s - n" for s by (simp add: min_def)
  have z: "map2 f lens (map g lens) = map (\<lambda>s. f s (g s)) lens" for f :: "nat \<Rightarrow> nat \<Rightarrow> nat" and g by (induction lens) simp_all
  show ?thesis unfolding compute_compact_draft_seq_lens_def a Let_def compact_len_def option.case z m by (simp only: if_distrib [of Inr] if_distrib [of "\<lambda>f. map f lens"] split: if_splits) simp
qed

lemma compact_len_props:
  "compact_len page n s \<le> s" "min s n \<le> compact_len page n s" "compact_len page n s < n + max 1 page" "page dvd s - compact_len page n s \<or> page \<le> 1"
proof -
  let ?r = "(s - n) mod page"
  have r: "?r \<le> s - n" by simp
  show "compact_len page n s \<le> s" by (simp add: compact_len_def)
  show "min s n \<le> compact_len page n s" using r by (auto simp: compact_len_def)
  show "compact_len page n s < n + max 1 page"
  proof (cases "page \<le> 1")
    case False
    then have "?r < page" by simp
    then have "s - (s - n - ?r) < n + page" by linarith
    then show ?thesis using False by (simp add: compact_len_def)
  qed (simp add: compact_len_def)
  show "page dvd s - compact_len page n s \<or> page \<le> 1"
  proof (cases "page \<le> 1")
    case False
    have "s - (s - (s - n - ?r)) = s - n - ?r" by simp
    moreover have "page dvd s - n - ?r" by (rule dvd_minus_mod)
    ultimately show ?thesis using False by (simp add: compact_len_def)
  qed simp
qed

definition new_draft_lens :: "draft_worker \<Rightarrow> nat list \<Rightarrow> nat list" where
  "new_draft_lens w lens = (case draft_window_size w of None \<Rightarrow> lens | Some n \<Rightarrow> map (compact_len (worker_page_size w) n) lens)"

definition window_ok :: "draft_worker \<Rightarrow> nat list \<Rightarrow> nat list \<Rightarrow> bool" where
  "window_ok w idx lens \<longleftrightarrow> (draft_window_size w = None) = (draft_pool w = None)
     \<and> (\<forall>p. draft_pool w = Some p \<longrightarrow> table_ok p idx (map (\<lambda>_. 0) lens) (new_draft_lens w lens) \<and> distinct idx)"

definition windows_of :: "'c batch \<Rightarrow> nat list \<Rightarrow> int list list" where
  "windows_of b new = map (\<lambda>i. slice (seq_lens b ! i - new ! i) (seq_lens b ! i) (req_to_token (pool (mem b)) ! (req_pool_indices b ! i))) [0..<length (req_pool_indices b)]"

lemma segment_concat:
  assumes "map length xss = lens" "i < length lens"
  shows "segment (map (\<lambda>_. 0) lens) lens (concat xss) i = xss ! i"
proof -
  have z: "map2 (-) lens (map (\<lambda>_. 0) lens) = lens" by (intro nth_equalityI) simp_all
  have "split_by lens (concat xss) = xss" using split_by_concat [of xss] assms(1) by simp
  then show ?thesis using assms split_by_nth [of i lens "concat xss"] by (simp add: segment_def z)
qed

lemma update_draft_table_spec:
  fixes b :: "'c batch"
  assumes tab: "table_ok (pool (mem b)) (req_pool_indices b) (map (\<lambda>_. 0) (seq_lens b)) (seq_lens b)" and win: "window_ok w (req_pool_indices b) (seq_lens b)"
  shows "\<exists>p. update_draft_table e w b = Inr ((w\<lparr>draft_pool := p\<rparr>, b), new_draft_lens w (seq_lens b)) \<and> (p = None) = (draft_pool w = None)
    \<and> (\<forall>q. p = Some q \<longrightarrow> (\<forall>i<length (req_pool_indices b). take (new_draft_lens w (seq_lens b) ! i) (req_to_token q ! (req_pool_indices b ! i))
          = windows_of b (new_draft_lens w (seq_lens b)) ! i))"
proof (cases "draft_window_size w")
  case None
  then have "draft_pool w = None" using win by (simp add: window_ok_def)
  then show ?thesis using None by (intro exI [of _ None]) (simp add: update_draft_table_def new_draft_lens_def)
next
  case (Some n)
  then obtain q where q: "draft_pool w = Some q" using win by (auto simp: window_ok_def)
  let ?idx = "req_pool_indices b" and ?s = "seq_lens b" and ?p = "pool (mem b)"
  define new where "new = new_draft_lens w ?s"
  note d = table_okD [OF tab]
  have new: "new = map (compact_len (worker_page_size w) n) ?s" using Some by (simp add: new_def new_draft_lens_def)
  have ln: "length new = length ?idx" using new d(2) by simp
  have le: "new ! i \<le> ?s ! i" if "i < length ?idx" for i using new compact_len_props(1) that d(2) by simp
  define st where "st = map2 (-) ?s new"
  have suf: "map2 (\<lambda>s n. int s - int n) ?s new = map int st" unfolding st_def using le ln d(2) by (intro nth_equalityI) (simp_all add: of_nat_diff)
  have ts: "table_ok ?p ?idx st new"
    using tab le ln d(2) by (auto simp: table_ok_def st_def)
  have sl: "slots_of ?p ?idx st new = windows_of b new"
    using le ln d(2) by (auto simp: slots_of_def windows_of_def st_def intro!: nth_equalityI)
  have wl: "map length (windows_of b new) = new" using length_slots_of [OF ts] sl by simp
  have tq: "table_ok q ?idx (map (\<lambda>_. 0) ?s) new" "distinct ?idx" using win q by (simp_all add: window_ok_def new_def)
  have z: "map2 (-) new (map (\<lambda>_. 0) new) = new" by (intro nth_equalityI) simp_all
  have rg: "ranges_ok q ?idx (map (\<lambda>_. 0) new) new (concat (windows_of b new))"
    using tq ln d(2) wl z by (auto simp: ranges_ok_def table_ok_def length_concat)
  let ?q' = "assign_req_to_token_pool (table_oob e) q ?idx (map (\<lambda>_. 0) new) new (concat (windows_of b new))"
  have "take (new ! i) (req_to_token ?q' ! (?idx ! i)) = windows_of b new ! i" if i: "i < length ?idx" for i
  proof -
    have row: "req_to_token ?q' ! (?idx ! i) = store 0 (windows_of b new ! i) (req_to_token q ! (?idx ! i))"
      using assign_req_to_token_pool_spec [OF rg, of "table_oob e"] segment_concat [OF wl] i ln by simp
    have "length (windows_of b new ! i) = new ! i" using wl i ln by (metis nth_map length_map)
    moreover have "new ! i \<le> length (req_to_token q ! (?idx ! i))" using table_okD(5) [OF tq(1) i] i d(2) by simp
    ultimately show ?thesis unfolding row by (intro nth_equalityI) (auto simp: store_def)
  qed
  moreover have "update_draft_table e w b = Inr ((w\<lparr>draft_pool := Some ?q'\<rparr>, b), new)"
    using Some q compute_compact_lens [OF Some] gather_segments_spec [OF ts] suf
    by (simp add: update_draft_table_def Let_def new [symmetric] sl set_draft_table_def draft_table_def)
  ultimately show ?thesis using q unfolding new_def [symmetric] by (intro exI [of _ "Some ?q'"]) simp
qed

subsection \<open>The draft cache stays in step with the committed tokens\<close>

text \<open>A slot of a layer holds the keys and values of the feature \<open>x\<close> at position \<open>p\<close>; the cache is coherent when this is so for the first
  \<open>lens ! i\<close> positions of every request, whose features are \<open>hist i\<close>.\<close>

definition holds_kv :: "draft_worker \<Rightarrow> nat \<Rightarrow> int \<Rightarrow> real list \<Rightarrow> nat \<Rightarrow> bool" where
  "holds_kv w li slot x p \<longleftrightarrow> (\<exists>y e. project_row (draft_net w) x = Inr y \<and> layer_kv (layers (draft_net w) ! li) (y, int p) = Inr e
     \<and> kv_buffer w ! li ! nat slot = kv_value (kv_cast w) (layers (draft_net w) ! li) e)"

definition draft_kv_coherent :: "draft_worker \<Rightarrow> req_pool \<Rightarrow> nat list \<Rightarrow> nat list \<Rightarrow> (nat \<Rightarrow> nat \<Rightarrow> real list) \<Rightarrow> bool" where
  "draft_kv_coherent w p idx lens hist \<longleftrightarrow> (\<forall>i<length idx. \<forall>q<lens ! i. \<forall>li<length (layers (draft_net w)).
     holds_kv w li (req_to_token p ! (idx ! i) ! q) (hist i q) q)"

text \<open>The slots of the new tokens are distinct slots of the buffer and hold no older token of the batch.\<close>

definition fresh_slots :: "nat \<Rightarrow> req_pool \<Rightarrow> nat list \<Rightarrow> nat list \<Rightarrow> nat list \<Rightarrow> bool" where
  "fresh_slots slots p idx st lens \<longleftrightarrow> distinct (concat (slots_of p idx st lens)) \<and> (\<forall>x\<in>set (concat (slots_of p idx st lens)). 0 \<le> x \<and> nat x < slots)
     \<and> (\<forall>i<length idx. \<forall>q<st ! i. 0 \<le> req_to_token p ! (idx ! i) ! q \<and> nat (req_to_token p ! (idx ! i) ! q) < slots
          \<and> req_to_token p ! (idx ! i) ! q \<notin> set (concat (slots_of p idx st lens)))"

definition append_ready :: "bool \<Rightarrow> rotary_embedding \<Rightarrow> nat \<Rightarrow> draft_worker \<Rightarrow> 'c batch \<Rightarrow> real list draft_input \<Rightarrow> nat list \<Rightarrow> bool" where
  "append_ready prefill rot slots w b d st \<longleftrightarrow> worker_ok rot slots w \<and> append_shapes prefill w b d st \<and> window_ok w (req_pool_indices b) (seq_lens b)
     \<and> fresh_slots slots (pool (mem b)) (req_pool_indices b) st (ctx_lens d) \<and> (\<forall>s\<in>set (seq_lens b). s \<le> length (cos_sin_cache rot))"

lemma kv_written_nth:
  assumes "kv_written cast ls loc E n buf buf'" "i < length buf" "i < n" "t < length loc"
  shows "buf' ! i ! nat (loc ! t) = kv_value cast (ls ! i) (E i ! t)"
  using assms by (simp add: kv_written_def)

lemma project_row_total:
  assumes "worker_ok rot slots w" "length x = fc_in_features (draft_net w)"
  shows "\<exists>y. project_row (draft_net w) x = Inr y"
  using assms by (simp add: worker_ok_def project_row_def linear_row_def rms_norm_def Let_def)

lemma append_run:
  fixes b :: "'c batch"
  assumes ready: "append_ready prefill rot slots w b d st" and al: "0 < rope_align e" and ne: "target_hidden d \<noteq> []"
  shows "\<exists>buf E hid q. append_target_hidden_to_draft_kv e prefill w b d
      = Inr (w\<lparr>kv_buffer := buf, draft_pool := q\<rparr>, b, d\<lparr>draft_seq_lens := new_draft_lens w (seq_lens b), ctx_lens := map (\<lambda>_. 0) (ctx_lens d), target_hidden := []\<rparr>)
    \<and> kv_written (kv_cast w) (layers (draft_net w)) (concat (slots_of (pool (mem b)) (req_pool_indices b) st (ctx_lens d))) E (length (layers (draft_net w))) (kv_buffer w) buf
    \<and> (\<forall>t<length (target_hidden d). project_row (draft_net w) (target_hidden d ! t) = Inr (hid ! t))
    \<and> (\<forall>i<length (layers (draft_net w)). \<forall>t<length (target_hidden d). layer_kv (layers (draft_net w) ! i) (hid ! t, concat (positions_of st (ctx_lens d)) ! t) = Inr (E i ! t))
    \<and> (q = None) = (draft_pool w = None)
    \<and> (\<forall>p. q = Some p \<longrightarrow> (\<forall>i<length (req_pool_indices b). take (new_draft_lens w (seq_lens b) ! i) (req_to_token p ! (req_pool_indices b ! i))
          = windows_of b (new_draft_lens w (seq_lens b)) ! i))"
proof -
  let ?idx = "req_pool_indices b" and ?ln = "ctx_lens d" and ?p = "pool (mem b)"
  let ?loc = "concat (slots_of ?p ?idx st ?ln)" and ?pos = "concat (positions_of st ?ln)"
  have ok: "worker_ok rot slots w" and sh: "append_shapes prefill w b d st" and win: "window_ok w ?idx (seq_lens b)"
    and fr: "fresh_slots slots ?p ?idx st ?ln" and cs: "\<And>s. s \<in> set (seq_lens b) \<Longrightarrow> s \<le> length (cos_sin_cache rot)"
    using ready by (auto simp: append_ready_def)
  have t: "table_ok ?p ?idx st ?ln" and sq: "seq_lens b = map2 (+) st ?ln" and lens: "length (reqs b) = length ?idx" "length (draft_seq_lens d) = length (reqs b)"
    "length (target_hidden d) = sum_list ?ln" and wid: "\<And>x. x \<in> set (target_hidden d) \<Longrightarrow> length x = fc_in_features (draft_net w)"
    using sh by (auto simp: append_shapes_def)
  note dd = table_okD [OF t]
  have "\<exists>hid. rmap (project_row (draft_net w)) (target_hidden d) = Inr hid" by (rule rmap_total) (rule project_row_total [OF ok wid])
  then obtain hid where hid: "rmap (project_row (draft_net w)) (target_hidden d) = Inr hid" by blast
  have lh: "length hid = sum_list ?ln" using rmap_length [OF hid] lens(3) by simp
  have ll: "length ?loc = sum_list ?ln" "length ?pos = sum_list ?ln"
    using length_slots_of [OF t] length_positions_of [of ?ln st] dd(1,2) by (simp_all add: length_concat)
  have pos: "0 \<le> x \<and> x < int (length (cos_sin_cache rot))" if "x \<in> set ?pos" for x
  proof -
    from that obtain i n where n: "i < length st" "x = int n" "n < st ! i + ?ln ! i" by (auto simp: positions_of_def)
    have "st ! i + ?ln ! i \<in> set (seq_lens b)" using nth_mem [of i "seq_lens b"] n(1) dd(1,2) by (simp add: sq)
    then show ?thesis using cs n(2,3) by fastforce
  qed
  have loc: "distinct ?loc" "\<And>x. x \<in> set ?loc \<Longrightarrow> 0 \<le> x \<and> nat x < slots" using fr by (auto simp: fresh_slots_def)
  have hne: "hid \<noteq> []" using rmap_length [OF hid] ne by auto
  have eq: "length ?pos = length hid" "length ?loc = length hid" using ll lh by simp_all
  obtain buf E where app: "append_context e w hid ?pos ?loc = Inr (w\<lparr>kv_buffer := buf\<rparr>)"
    and wrt: "kv_written (kv_cast w) (layers (draft_net w)) ?loc E (length (layers (draft_net w))) (kv_buffer w) buf"
    and each: "\<forall>i<length (layers (draft_net w)). \<forall>t<length hid. layer_kv (layers (draft_net w) ! i) (hid ! t, ?pos ! t) = Inr (E i ! t)"
    using append_context_spec [OF ok eq hne pos loc al] by blast
  have ts: "table_ok ?p ?idx (map (\<lambda>_. 0) (seq_lens b)) (seq_lens b)" using t dd(1,2) unfolding sq by (auto simp: table_ok_def)
  have win': "window_ok (w\<lparr>kv_buffer := buf\<rparr>) ?idx (seq_lens b)" using win by (simp add: window_ok_def new_draft_lens_def cong: option.case_cong)
  have nl: "new_draft_lens (w\<lparr>kv_buffer := buf\<rparr>) = new_draft_lens w" by (simp add: new_draft_lens_def fun_eq_iff cong: option.case_cong)
  obtain q where upd: "update_draft_table e (w\<lparr>kv_buffer := buf\<rparr>) b = Inr ((w\<lparr>kv_buffer := buf, draft_pool := q\<rparr>, b), new_draft_lens w (seq_lens b))"
    and qw: "(q = None) = (draft_pool w = None)"
    and rows: "\<forall>p. q = Some p \<longrightarrow> (\<forall>i<length ?idx. take (new_draft_lens w (seq_lens b) ! i) (req_to_token p ! (?idx ! i)) = windows_of b (new_draft_lens w (seq_lens b)) ! i)"
    using update_draft_table_spec [OF ts win', of e] unfolding nl by auto
  have run: "append_target_hidden_to_draft_kv e prefill w b d
      = Inr (w\<lparr>kv_buffer := buf, draft_pool := q\<rparr>, b, d\<lparr>draft_seq_lens := new_draft_lens w (seq_lens b), ctx_lens := map (\<lambda>_. 0) ?ln, target_hidden := []\<rparr>)"
    using context_slots_spec [OF sh ne] ne hid app upd lens dd(2) lh ll by (simp add: append_target_hidden_to_draft_kv_def project_target_hidden_def)
  have pr: "\<forall>t<length (target_hidden d). project_row (draft_net w) (target_hidden d ! t) = Inr (hid ! t)" using rmap_nth [OF hid] by blast
  have "length hid = length (target_hidden d)" using rmap_length [OF hid] .
  then show ?thesis using run wrt pr each qw rows by metis
qed

lemma coherent_after_write:
  fixes b :: "'c batch"
  assumes ready: "append_ready prefill rot slots w b d st"
    and wr: "kv_written (kv_cast w) (layers (draft_net w)) (concat (slots_of (pool (mem b)) (req_pool_indices b) st (ctx_lens d))) E (length (layers (draft_net w))) (kv_buffer w) buf"
    and pr: "\<And>t. t < length (target_hidden d) \<Longrightarrow> project_row (draft_net w) (target_hidden d ! t) = Inr (hid ! t)"
    and each: "\<And>i t. i < length (layers (draft_net w)) \<Longrightarrow> t < length (target_hidden d) \<Longrightarrow> layer_kv (layers (draft_net w) ! i) (hid ! t, concat (positions_of st (ctx_lens d)) ! t) = Inr (E i ! t)"
    and hist: "\<And>i j. i < length (req_pool_indices b) \<Longrightarrow> j < ctx_lens d ! i \<Longrightarrow> features d ! i ! j = hist i (st ! i + j)"
    and coh: "draft_kv_coherent w (pool (mem b)) (req_pool_indices b) st hist"
  shows "draft_kv_coherent (w\<lparr>kv_buffer := buf, draft_pool := q\<rparr>) (pool (mem b)) (req_pool_indices b) (seq_lens b) hist"
  unfolding draft_kv_coherent_def
proof (intro allI impI)
  let ?idx = "req_pool_indices b" and ?ln = "ctx_lens d" and ?p = "pool (mem b)" and ?ls = "layers (draft_net w)"
  let ?loc = "concat (slots_of ?p ?idx st ?ln)"
  fix i r li assume i: "i < length ?idx" and r: "r < seq_lens b ! i" and li0: "li < length (layers (draft_net (w\<lparr>kv_buffer := buf, draft_pool := q\<rparr>)))"
  have ok: "worker_ok rot slots w" and sh: "append_shapes prefill w b d st" and fr: "fresh_slots slots ?p ?idx st ?ln"
    using ready by (auto simp: append_ready_def)
  have t: "table_ok ?p ?idx st ?ln" and sq: "seq_lens b = map2 (+) st ?ln" and th: "length (target_hidden d) = sum_list ?ln"
    using sh by (auto simp: append_shapes_def)
  note dd = table_okD [OF t]
  have li: "li < length ?ls" using li0 by simp
  have lb: "li < length (kv_buffer w)" "length (kv_buffer w ! li) = slots" using ok li by (auto simp: worker_ok_def)
  let ?slot = "req_to_token ?p ! (?idx ! i) ! r"
  show "holds_kv (w\<lparr>kv_buffer := buf, draft_pool := q\<rparr>) li ?slot (hist i r) r"
  proof (cases "r < st ! i")
    case True
    then have f: "0 \<le> ?slot" "nat ?slot < slots" "?slot \<notin> set ?loc" using fr i by (auto simp: fresh_slots_def)
    then have "buf ! li ! nat ?slot = kv_buffer w ! li ! nat ?slot" using wr lb by (simp add: kv_written_def)
    then show ?thesis using coh i True li by (auto simp: draft_kv_coherent_def holds_kv_def)
  next
    case False
    then obtain j where j: "r = st ! i + j" by (metis le_add_diff_inverse linorder_not_less)
    then have jl: "j < ?ln ! i" using r i dd(1,2) by (simp add: sq)
    define u where "u = sum_list (take i ?ln) + j"
    have sl: "map length (slots_of ?p ?idx st ?ln) = ?ln" "length (slots_of ?p ?idx st ?ln) = length ?idx" using length_slots_of [OF t] by (simp_all add: slots_of_def)
    have si: "length (slots_of ?p ?idx st ?ln ! i) = ?ln ! i" using sl i by (metis nth_map)
    have slot: "?loc ! u = ?slot" "u < length ?loc"
      using nth_concat_segment [of i "slots_of ?p ?idx st ?ln" j] si sl i jl j dd(5) [OF i] by (simp_all add: u_def slots_of_def nth_slice)
    have pl: "map length (positions_of st ?ln) = ?ln" by (rule length_positions_of) (simp add: dd(1,2))
    have pn: "length (positions_of st ?ln) = length ?idx" by (simp add: positions_of_def dd(1))
    have "length (positions_of st ?ln ! i) = ?ln ! i" using pl pn i by (metis nth_map)
    then have pos: "concat (positions_of st ?ln) ! u = int r"
      using nth_concat_segment [of i "positions_of st ?ln" j] pl pn i jl j dd(1) by (simp add: u_def positions_of_def)
    have ul: "u < length (target_hidden d)" using slot(2) sl(1) th by (simp add: length_concat)
    have feat: "target_hidden d ! u = hist i r"
      using hist [OF i jl] split_by_nth [of i ?ln "target_hidden d"] i jl dd(2) ul j by (simp add: features_def u_def)
    have "buf ! li ! nat ?slot = kv_value (kv_cast w) (?ls ! li) (E li ! u)" using kv_written_nth [OF wr lb(1) li slot(2)] slot(1) by simp
    then show ?thesis unfolding holds_kv_def using pr [OF ul] each [OF li ul] feat pos by (intro exI [of _ "hid ! u"] exI [of _ "E li ! u"]) simp
  qed
qed

lemma append_coherent:
  fixes b :: "'c batch"
  assumes ready: "append_ready prefill rot slots w b d st" and al: "0 < rope_align e" and ne: "target_hidden d \<noteq> []"
    and hist: "\<forall>i<length (req_pool_indices b). \<forall>j<ctx_lens d ! i. features d ! i ! j = hist i (st ! i + j)"
    and coh: "draft_kv_coherent w (pool (mem b)) (req_pool_indices b) st hist"
  shows "\<exists>buf q. append_target_hidden_to_draft_kv e prefill w b d
      = Inr (w\<lparr>kv_buffer := buf, draft_pool := q\<rparr>, b, d\<lparr>draft_seq_lens := new_draft_lens w (seq_lens b), ctx_lens := map (\<lambda>_. 0) (ctx_lens d), target_hidden := []\<rparr>)
    \<and> map length buf = map length (kv_buffer w) \<and> (q = None) = (draft_pool w = None)
    \<and> draft_kv_coherent (w\<lparr>kv_buffer := buf, draft_pool := q\<rparr>) (pool (mem b)) (req_pool_indices b) (seq_lens b) hist"
proof -
  from append_run [OF ready al ne] obtain buf E hid q where
    run: "append_target_hidden_to_draft_kv e prefill w b d
      = Inr (w\<lparr>kv_buffer := buf, draft_pool := q\<rparr>, b, d\<lparr>draft_seq_lens := new_draft_lens w (seq_lens b), ctx_lens := map (\<lambda>_. 0) (ctx_lens d), target_hidden := []\<rparr>)"
    and wrt: "kv_written (kv_cast w) (layers (draft_net w)) (concat (slots_of (pool (mem b)) (req_pool_indices b) st (ctx_lens d))) E (length (layers (draft_net w))) (kv_buffer w) buf"
    and pr: "\<forall>t<length (target_hidden d). project_row (draft_net w) (target_hidden d ! t) = Inr (hid ! t)"
    and each: "\<forall>i<length (layers (draft_net w)). \<forall>t<length (target_hidden d). layer_kv (layers (draft_net w) ! i) (hid ! t, concat (positions_of st (ctx_lens d)) ! t) = Inr (E i ! t)"
    and q: "(q = None) = (draft_pool w = None)"
    by (elim exE conjE) (rule that)
  have "draft_kv_coherent (w\<lparr>kv_buffer := buf, draft_pool := q\<rparr>) (pool (mem b)) (req_pool_indices b) (seq_lens b) hist"
    by (rule coherent_after_write [OF ready wrt _ _ _ coh]) (use pr each hist in blast)+
  moreover have "map length buf = map length (kv_buffer w)" using wrt by (intro nth_equalityI) (simp_all add: kv_written_def)
  ultimately show ?thesis using run q by (intro exI [of _ buf] exI [of _ q]) simp
qed

text \<open>C4 The draft cache follows the target: appending the features of newly committed tokens, by the fused or the sequential path, for one
  request or a batch, in a prefill or a decode step, succeeds and extends the cache from the positions before the context to the whole
  sequence. Afterwards every layer holds, in the slot of every committed position of every request, the keys and values of that position's
  feature, and the pending context is empty.\<close>

theorem append_keeps_draft_kv_coherent:
  fixes b :: "'c batch"
  assumes ready: "append_ready prefill rot slots w b d st" and al: "0 < rope_align e"
    and hist: "\<And>i j. i < length (req_pool_indices b) \<Longrightarrow> j < ctx_lens d ! i \<Longrightarrow> features d ! i ! j = hist i (st ! i + j)"
    and coh: "draft_kv_coherent w (pool (mem b)) (req_pool_indices b) st hist"
  shows "\<exists>w' d'. append_target_hidden_to_draft_kv e prefill w b d = Inr (w', b, d') \<and> draft_kv_coherent w' (pool (mem b)) (req_pool_indices b) (seq_lens b) hist
    \<and> target_hidden d' = [] \<and> ctx_lens d' = replicate (length (reqs b)) 0 \<and> verified_id d' = verified_id d"
proof (cases "target_hidden d = []")
  case True
  have sh: "append_shapes prefill w b d st" using ready by (simp add: append_ready_def)
  then have "sum_list (ctx_lens d) = 0" and len: "length (ctx_lens d) = length (reqs b)" "length (draft_seq_lens d) = length (reqs b)" "length st = length (reqs b)"
    and sq: "seq_lens b = map2 (+) st (ctx_lens d)" using True by (auto simp: append_shapes_def table_ok_def)
  then have "ctx_lens d ! i = 0" if "i < length (reqs b)" for i using that by (metis nth_mem sum_list_eq_0_iff)
  then have "seq_lens b = st" using len sq by (intro nth_equalityI) simp_all
  then show ?thesis using True len coh by (simp add: append_target_hidden_to_draft_kv_def map_replicate_const)
next
  case False
  have len: "length (ctx_lens d) = length (reqs b)" using ready by (simp add: append_ready_def append_shapes_def table_ok_def)
  have "\<forall>i<length (req_pool_indices b). \<forall>j<ctx_lens d ! i. features d ! i ! j = hist i (st ! i + j)" using hist by blast
  from append_coherent [OF ready al False this coh] show ?thesis using len by (auto simp: map_replicate_const)
qed

text \<open>C40 With a draft window the private table of the draft model shows, after every append, the end of each sequence: at least the window,
  less than one page more, starting at a page boundary, in the slots of the target.\<close>

theorem draft_window_is_aligned_suffix:
  fixes b :: "'c batch"
  assumes ready: "append_ready prefill rot slots w b d st" and al: "0 < rope_align e" and win: "draft_window_size w = Some n" and ne: "target_hidden d \<noteq> []"
    and i: "i < length (req_pool_indices b)"
  shows "\<exists>w' d' p k. append_target_hidden_to_draft_kv e prefill w b d = Inr (w', b, d') \<and> draft_pool w' = Some p \<and> draft_seq_lens d' ! i = k
    \<and> k \<le> seq_lens b ! i \<and> min (seq_lens b ! i) n \<le> k \<and> k < n + max 1 (worker_page_size w)
    \<and> (1 < worker_page_size w \<longrightarrow> worker_page_size w dvd seq_lens b ! i - k)
    \<and> take k (req_to_token p ! (req_pool_indices b ! i)) = slice (seq_lens b ! i - k) (seq_lens b ! i) (req_to_token (pool (mem b)) ! (req_pool_indices b ! i))"
proof -
  from append_run [OF ready al ne] obtain buf q where
    run: "append_target_hidden_to_draft_kv e prefill w b d
      = Inr (w\<lparr>kv_buffer := buf, draft_pool := q\<rparr>, b, d\<lparr>draft_seq_lens := new_draft_lens w (seq_lens b), ctx_lens := map (\<lambda>_. 0) (ctx_lens d), target_hidden := []\<rparr>)"
    and q: "(q = None) = (draft_pool w = None)"
    and rows: "\<forall>p. q = Some p \<longrightarrow> (\<forall>i<length (req_pool_indices b). take (new_draft_lens w (seq_lens b) ! i) (req_to_token p ! (req_pool_indices b ! i))
          = windows_of b (new_draft_lens w (seq_lens b)) ! i)"
    by (elim exE conjE) (rule that)
  have "draft_pool w \<noteq> None" using ready win by (auto simp: append_ready_def window_ok_def)
  then obtain p where p: "q = Some p" using q by (cases q) simp_all
  have sl: "i < length (seq_lens b)" using ready i by (simp add: append_ready_def append_shapes_def table_ok_def)
  let ?k = "compact_len (worker_page_size w) n (seq_lens b ! i)"
  have k: "new_draft_lens w (seq_lens b) ! i = ?k" using win sl by (simp add: new_draft_lens_def)
  have row: "take ?k (req_to_token p ! (req_pool_indices b ! i)) = slice (seq_lens b ! i - ?k) (seq_lens b ! i) (req_to_token (pool (mem b)) ! (req_pool_indices b ! i))"
    using rows [rule_format, OF p i] i unfolding k by (simp add: windows_of_def k)
  note c = compact_len_props [where page = "worker_page_size w" and n = n and s = "seq_lens b ! i"]
  show ?thesis
    by (rule exI [of _ "w\<lparr>kv_buffer := buf, draft_pool := q\<rparr>"], rule exI, rule exI [of _ p], rule exI [of _ ?k], intro conjI, rule run)
      (use c row k p in auto)
qed

subsection \<open>A concrete append\<close>

definition example_rope :: rotary_embedding where
  "example_rope = \<lparr>rotary_dim = 2, is_neox_style = True, rope_base = 10, cos_sin_cache = replicate 4 [1, 0]\<rparr>"

definition example_net :: draft_model where
  "example_net = \<lparr>layers = [example_layer\<lparr>rotary_emb := example_rope, qkv_apply := (\<lambda>_. [0, 0, 0, 0])\<rparr>], fc_in_features = 1, fc_weight = [[1]],
     hidden_norm_weight = [1], hidden_norm_eps = 0\<rparr>"

definition example_worker :: "nat option \<Rightarrow> draft_worker" where
  "example_worker win = \<lparr>draft_net = example_net, block_size = 2, worker_page_size = 2, draft_window_size = win, use_fused_kv = True,
     fused_kv_helper = init_fused_kv_helper (layers example_net), kv_buffer = [replicate 8 ([], [])], kv_cast = None,
     draft_pool = map_option (\<lambda>_. pool_init 1 8) win\<rparr>"

definition example_kv_batch :: "unit batch" where
  "example_kv_batch = example_batch\<lparr>seq_lens := [4], mem := (mem example_batch)\<lparr>pool := \<lparr>req_to_token = [[3, 5, 6, 1, 0, 0, 0, 0]], max_context_len = 8, free_slots = []\<rparr>\<rparr>\<rparr>"

definition example_ctx :: "real list draft_input" where
  "example_ctx = \<lparr>verified_id = [7], target_hidden = [[1], [2], [3], [4]], ctx_lens = [4], draft_seq_lens = [0]\<rparr>"

definition example_kernels :: kernel_env where
  "example_kernels = \<lparr>float_oob = (\<lambda>_. 0), float_garbage = (\<lambda>_. 0), rope_align = 128, table_oob = (\<lambda>_. 0)\<rparr>"

lemma example_shapes:
  "worker_ok example_rope 8 (example_worker win)" "window_ok (example_worker win) [0] [4]"
  "append_shapes True (example_worker win) example_kv_batch example_ctx [0]" "fresh_slots 8 (pool (mem example_kv_batch)) [0] [0] [4]"
proof -
  show "worker_ok example_rope 8 (example_worker win)"
    by (auto simp: worker_ok_def example_worker_def example_net_def rotary_ok_def example_rope_def list_all_iff layer_shapes_def layer_ok_def example_layer_def kv_size_def)
  show "window_ok (example_worker win) [0] [4]"
    using compact_len_props(1) [of 2 "the win" 4] by (cases win) (auto simp: window_ok_def example_worker_def table_ok_def uniform_def pool_init_def new_draft_lens_def)
  show "append_shapes True (example_worker win) example_kv_batch example_ctx [0]"
    by (simp add: append_shapes_def table_ok_def example_kv_batch_def example_batch_def example_ctx_def uniform_def example_worker_def example_net_def)
  show "fresh_slots 8 (pool (mem example_kv_batch)) [0] [0] [4]"
    by (simp add: fresh_slots_def slots_of_def slice_def example_kv_batch_def)
qed

lemma example_append_ready: "append_ready True example_rope 8 (example_worker win) example_kv_batch example_ctx [0]"
  using example_shapes(1-3) [of win] example_shapes(4) by (simp add: append_ready_def example_kv_batch_def example_batch_def example_ctx_def example_rope_def)

theorem append_keeps_draft_kv_coherent_witness:
  "\<exists>w' d'. append_target_hidden_to_draft_kv example_kernels True (example_worker None) example_kv_batch example_ctx = Inr (w', example_kv_batch, d')
    \<and> draft_kv_coherent w' (pool (mem example_kv_batch)) [0] [4] (\<lambda>i p. [[1], [2], [3], [4]] ! p) \<and> target_hidden d' = []"
proof -
  have f: "features example_ctx ! i ! j = [[1], [2], [3], [4]] ! ([0] ! i + j)" if "i < length (req_pool_indices example_kv_batch)" "j < ctx_lens example_ctx ! i" for i j
    using that by (simp add: features_def split_by_def example_ctx_def example_kv_batch_def example_batch_def)
  have c: "draft_kv_coherent (example_worker None) (pool (mem example_kv_batch)) (req_pool_indices example_kv_batch) [0] (\<lambda>i p. [[1], [2], [3], [4]] ! p)"
    by (simp add: draft_kv_coherent_def example_kv_batch_def example_batch_def)
  have a: "0 < rope_align example_kernels" by (simp add: example_kernels_def)
  show ?thesis using append_keeps_draft_kv_coherent [OF example_append_ready a f c] by (auto simp: example_kv_batch_def example_batch_def)
qed

theorem draft_window_is_aligned_suffix_witness:
  "\<exists>w' d' p. append_target_hidden_to_draft_kv example_kernels True (example_worker (Some 1)) example_kv_batch example_ctx = Inr (w', example_kv_batch, d')
    \<and> draft_pool w' = Some p \<and> draft_seq_lens d' ! 0 = 2 \<and> take 2 (req_to_token p ! 0) = [6, 1]"
proof -
  have h: "0 < rope_align example_kernels" "draft_window_size (example_worker (Some 1)) = Some 1" "target_hidden example_ctx \<noteq> []"
    "0 < length (req_pool_indices example_kv_batch)" and pg: "worker_page_size (example_worker (Some 1)) = 2" and sl: "seq_lens example_kv_batch ! 0 = 4"
    and ix: "req_pool_indices example_kv_batch ! 0 = 0" and row: "req_to_token (pool (mem example_kv_batch)) ! 0 = [3, 5, 6, 1, 0, 0, 0, 0]"
    by (simp_all add: example_kernels_def example_worker_def example_ctx_def example_kv_batch_def example_batch_def)
  from draft_window_is_aligned_suffix [OF example_append_ready h, unfolded pg sl ix row] obtain w' d' p k where
    r: "append_target_hidden_to_draft_kv example_kernels True (example_worker (Some 1)) example_kv_batch example_ctx = Inr (w', example_kv_batch, d')"
      "draft_pool w' = Some p" "draft_seq_lens d' ! 0 = k" "k \<le> 4" "min 4 1 \<le> k" "k < 1 + max 1 2" "1 < (2 :: nat) \<longrightarrow> 2 dvd 4 - k"
      "take k (req_to_token p ! 0) = slice (4 - k) 4 [3, 5, 6, 1, 0, 0, 0, 0]" by blast
  have "k = 1 \<or> k = 2" using r(5,6) by auto
  then have "k = 2" using r(7) by auto
  then show ?thesis using r(1,2,3,8) by (auto simp: slice_def)
qed

end
