(* ===== verification/Dflash_Worker.thy ===== *)
theory Dflash_Worker
  imports Dflash_Sample Dflash_Kv
begin

section \<open>The DFLASH worker\<close>

text \<open>
  The steps of \<^verbatim>\<open>DFlashWorker\<close> (\<^verbatim>\<open>srt/speculative/dflash_worker.py\<close>): which token masks the positions to draft, drafting a block and
  preparing its verification, and \<^verbatim>\<open>forward_batch_generation\<close>, which prefills, or drafts, verifies, commits and brings the draft cache up
  to date.

  The forward passes of the draft model and of the target model are fields of \<open>worker_env\<close>: the draft pass takes the block, its
  positions and slots, the table, the lengths and the KV buffer and returns the new buffer and the hidden states; the target pass takes
  the batch with its verify input and returns logits and hidden states. The table a batch uses and the allocator are part of the batch.
  Exceptions end the step; the allocator is restored before they leave the draft pass. Tracking of Mamba states is modelled as the
  steps handed to the backend. Log messages and the reuse of scratch buffers are not modelled.
\<close>

record hf_tokenizer =
  tk_mask_token :: "string option"
  tk_mask_token_id :: "int option"
  tk_vocab :: "(string \<times> int) list"

text \<open>\<open>add_special\<close> is \<^verbatim>\<open>add_special_tokens\<close> of the tokenizer with the mask token, \<open>convert\<close> is \<^verbatim>\<open>convert_tokens_to_ids\<close>.\<close>

definition resolve_mask_token_id ::
  "(string \<Rightarrow> hf_tokenizer \<Rightarrow> hf_tokenizer) \<Rightarrow> (hf_tokenizer \<Rightarrow> string \<Rightarrow> int option) \<Rightarrow> nat \<Rightarrow> hf_tokenizer option \<Rightarrow> string \<Rightarrow> int option \<Rightarrow> int res" where
  "resolve_mask_token_id add_special convert vsize tok token token_id =
     (if token = [] then Inl ValueError
      else case token_id of
        Some resolved_id \<Rightarrow>
          if int vsize \<le> resolved_id then Inl ValueError
          else (case tok of
              None \<Rightarrow> Inr resolved_id
            | Some t \<Rightarrow> (case map_of (tk_vocab t) token of
                  None \<Rightarrow> Inr resolved_id
                | Some i \<Rightarrow> if i \<noteq> resolved_id then Inl ValueError else Inr resolved_id))
      | None \<Rightarrow>
          (case tok of
             None \<Rightarrow> Inl RuntimeError
           | Some t \<Rightarrow>
               let r0 = (if tk_mask_token t = Some token then tk_mask_token_id t else None);
                   r1 = (if r0 = None then map_of (tk_vocab t) token else r0);
                   r2 = (if r1 = None
                         then let t' = add_special token t in (if tk_mask_token_id t' = None then convert t' token else tk_mask_token_id t')
                         else r1)
               in case r2 of
                    None \<Rightarrow> Inl ValueError
                  | Some i \<Rightarrow> if i < 0 then Inl ValueError else if int vsize \<le> i then Inl ValueError else Inr i))"

subsection \<open>Drafting a block\<close>

record ('c, 'w) worker_env =
  kernels_of :: kernel_env
  verify_env_of :: verify_env
  mask_id :: int
  lm_heads :: "'w lm_head list option"
  head_dot :: "real list \<Rightarrow> 'w \<Rightarrow> real"
  head_lowest :: real
  target_backend :: attn_backend
  draft_forward :: "int list list \<Rightarrow> int list \<Rightarrow> int list \<Rightarrow> req_pool \<Rightarrow> nat list \<Rightarrow> nat list \<Rightarrow> kv_entry list list \<Rightarrow> (kv_entry list list \<times> real list list option) res"
  target_forward :: "verify_input \<Rightarrow> 'c batch \<Rightarrow> matrix \<times> real list list option"

definition alloc_block :: "('c, 'w) worker_env \<Rightarrow> draft_worker \<Rightarrow> 'c batch \<Rightarrow> nat list \<Rightarrow> kv_alloc \<times> int list option res" where
  "alloc_block e w b block_start =
     (let a = kv (mem b); need = length (reqs b) * block_size w in
      if worker_page_size w = 1 then (case token_alloc a need of (a', locs) \<Rightarrow> (a', Inr locs))
      else let block_end = map (\<lambda>s. s + block_size w) block_start; ve = verify_env_of e in
        (case get_last_loc_torch (draft_table w b) (req_pool_indices b) block_start of
           Inl x \<Rightarrow> (a, Inl x)
         | Inr last_loc \<Rightarrow>
             (case paged_alloc_extend (oob_val ve) (garbage_val ve) a block_start block_end last_loc need of
                Inl x \<Rightarrow> (a, Inl x)
              | Inr (a', locs) \<Rightarrow> (a', Inr locs))))"

definition set_kv :: "kv_alloc \<Rightarrow> 'c batch \<Rightarrow> 'c batch" where
  "set_kv a b = b\<lparr>mem := (mem b)\<lparr>kv := a\<rparr>\<rparr>"

text \<open>The \<^verbatim>\<open>try\<close> block: allocate slots for the block, enter them in the table, run the draft model; \<^verbatim>\<open>finally\<close> the allocator is restored.
  The result carries the state even when the outcome is an exception.\<close>

definition draft_block ::
  "('c, 'w) worker_env \<Rightarrow> draft_worker \<Rightarrow> 'c batch \<Rightarrow> nat list \<Rightarrow> int list list \<Rightarrow> draft_worker \<times> 'c batch \<times> real list list option res" where
  "draft_block e w b draft_prefix_lens block_ids =
     (let positions = concat (map (\<lambda>s. map (\<lambda>j. int (s + j)) [0..<block_size w]) (seq_lens b));
          block_end = map (\<lambda>s. s + block_size w) draft_prefix_lens;
          backup = backup_state (kv (mem b));
          restore = (\<lambda>b'. set_kv (restore_state (kv (mem b')) backup) b')
      in case alloc_block e w b draft_prefix_lens of
           (a', Inl x) \<Rightarrow> (w, restore (set_kv a' b), Inl x)
         | (a', Inr None) \<Rightarrow> (w, restore (set_kv a' b), Inl RuntimeError)
         | (a', Inr (Some block_cache_loc)) \<Rightarrow>
             let p' = assign_req_to_token_pool (table_oob (kernels_of e)) (draft_table w b) (req_pool_indices b) draft_prefix_lens block_end block_cache_loc;
                 (w1, b1) = set_draft_table p' (w, set_kv a' b)
             in case draft_forward e block_ids positions block_cache_loc p' (req_pool_indices b) draft_prefix_lens (kv_buffer w1) of
                  Inl x \<Rightarrow> (w1, restore b1, Inl x)
                | Inr (buf, hidden) \<Rightarrow> (w1\<lparr>kv_buffer := buf\<rparr>, restore b1, Inr hidden))"

definition prepare_for_speculative_decoding ::
  "('c, 'w) worker_env \<Rightarrow> 'c cache_ops \<Rightarrow> draft_worker \<Rightarrow> 'c batch \<Rightarrow> real list draft_input
     \<Rightarrow> (draft_worker \<times> 'c batch \<times> real list draft_input \<times> verify_input option) res" where
  "prepare_for_speculative_decoding e ops w b d =
     (if is_idle b then Inr (w, b, d, None)
      else if \<exists>r\<in>set (reqs b). grammar r \<noteq> None then Inl RuntimeError
      else rbind (append_target_hidden_to_draft_kv (kernels_of e) False w b d) (\<lambda>(w1, b1, d1).
        case lm_heads e of
          None \<Rightarrow> Inl RuntimeError
        | Some heads \<Rightarrow>
            let bs = length (reqs b1); n = block_size w1 in
            if n = 0 then Inl IndexError
            else if length (verified_id d1) \<noteq> bs then Inl RuntimeError
            else let block_ids = map (\<lambda>v. v # replicate (n - 1) (mask_id e)) (verified_id d1) in
              (case draft_block e w1 b1 (draft_seq_lens d1) block_ids of
                 (w2, b2, Inl x) \<Rightarrow> Inl x
               | (w2, b2, Inr None) \<Rightarrow> Inl RuntimeError
               | (w2, b2, Inr (Some draft_hidden)) \<Rightarrow>
                   if length draft_hidden \<noteq> bs * n then Inl RuntimeError
                   else rbind (greedy_sample_from_vocab_parallel_head (head_lowest e) (head_dot e) heads 256 (concat (map tl (rows bs n draft_hidden)))) (\<lambda>draft_next.
                     let draft_tokens = map2 (\<lambda>ids nx. hd ids # nx) block_ids (rows bs (n - 1) draft_next);
                         v = \<lparr>draft_token = concat draft_tokens, draft_token_num = n, custom_mask = None\<rparr>
                     in rbind (prepare_for_verify (verify_env_of e) ops v b2 (worker_page_size w2) (snd (resolve_dflash_verify_mask_policy (target_backend e)))) (\<lambda>(v', b3).
                          Inr (w2, b3, d1, Some v'))))))"

subsection \<open>A step of the worker\<close>

definition mamba_steps :: "nat \<Rightarrow> nat list \<Rightarrow> nat list \<Rightarrow> nat list \<Rightarrow> (int \<times> int) list" where
  "mamba_steps interval seq_lens_pre seq_lens_post commits =
     map (\<lambda>(pre, post, c).
        let to_track = (pre div interval \<noteq> post div interval); tracking_point = post div interval * interval;
            to_track_ith = max 0 (int tracking_point - int pre - 1)
        in (int c - 1, if to_track \<and> to_track_ith < int c then to_track_ith else -1)) (zip seq_lens_pre (zip seq_lens_post commits))"

record step_result =
  next_token_ids :: "int list"
  num_accepted_tokens :: nat
  accept_lengths :: "nat list"

definition forward_extend ::
  "('c, 'w) worker_env \<Rightarrow> draft_worker \<Rightarrow> 'c batch \<Rightarrow> int list \<Rightarrow> real list list option \<Rightarrow> nat list option \<Rightarrow> nat list option
     \<Rightarrow> (draft_worker \<times> 'c batch \<times> real list draft_input \<times> step_result) res" where
  "forward_extend e w b next_ids hidden extend_seq_lens extend_prefix_lens =
     (case hidden of
        None \<Rightarrow> Inl RuntimeError
      | Some h \<Rightarrow>
          (case (extend_seq_lens, extend_prefix_lens) of
             (Some ext, Some pre) \<Rightarrow>
               let d = \<lparr>verified_id = next_ids, target_hidden = h, ctx_lens = ext,
                        draft_seq_lens = (if draft_window_size w \<noteq> None then map (\<lambda>_. 0) ext else pre)\<rparr>
               in rbind (append_target_hidden_to_draft_kv (kernels_of e) True w b d) (\<lambda>(w', b', d').
                    Inr (w', b', d', \<lparr>next_token_ids = next_ids, num_accepted_tokens = 0, accept_lengths = []\<rparr>))
           | _ \<Rightarrow> Inl RuntimeError))"

definition forward_decode ::
  "('c, 'w) worker_env \<Rightarrow> 'c cache_ops \<Rightarrow> draft_worker \<Rightarrow> 'c batch \<Rightarrow> real list draft_input \<Rightarrow> (draft_worker \<times> 'c batch \<times> real list draft_input \<times> step_result) res" where
  "forward_decode e ops w b d =
     rbind (prepare_for_speculative_decoding e ops w b d) (\<lambda>(w1, b1, d1, vi).
       case vi of
         None \<Rightarrow> Inl AssertionError
       | Some v \<Rightarrow>
           (case target_forward e v b1 of (logits, hidden) \<Rightarrow>
              rbind (verify (verify_env_of e) v b1 logits hidden (worker_page_size w1)) (\<lambda>(b2, res).
                let d2 = d1\<lparr>verified_id := new_verified_id res, target_hidden := next_target_hidden res, ctx_lens := commit_lens res\<rparr> in
                rbind (append_target_hidden_to_draft_kv (kernels_of e) True w1 b2 d2) (\<lambda>(w3, b3, d3).
                  Inr (w3, b3, d3, \<lparr>next_token_ids = new_verified_id res, num_accepted_tokens = sum_list (accept_length_per_req res),
                                   accept_lengths = accept_length_per_req res\<rparr>)))))"

text \<open>What the target worker returns for a prefill batch.\<close>

record prefill_pass =
  pre_next_ids :: "int list"
  pre_hidden :: "real list list option"
  pre_extend_lens :: "nat list option"
  pre_prefix_lens :: "nat list option"

definition forward_batch_generation ::
  "('c, 'w) worker_env \<Rightarrow> 'c cache_ops \<Rightarrow> prefill_pass option \<Rightarrow> draft_worker \<Rightarrow> 'c batch \<Rightarrow> real list draft_input option
     \<Rightarrow> (draft_worker \<times> 'c batch \<times> real list draft_input \<times> step_result) res" where
  "forward_batch_generation e ops prefill w b spec_info =
     (if \<exists>r\<in>set (reqs b). return_logprob r then Inl RuntimeError
      else case prefill of
        Some pp \<Rightarrow> forward_extend e w b (pre_next_ids pp) (pre_hidden pp) (pre_extend_lens pp) (pre_prefix_lens pp)
      | None \<Rightarrow> (case spec_info of None \<Rightarrow> Inl RuntimeError | Some d \<Rightarrow> forward_decode e ops w b d))"

section \<open>A decode step keeps the draft cache in step\<close>

subsection \<open>Allocator and table\<close>

lemma token_alloc_restore: "token_alloc a n = (a', locs) \<Longrightarrow> restore_state a' (backup_state a) = a"
  by (auto simp: token_alloc_def restore_state_def backup_state_def Let_def merge_and_sort_free_def split: if_splits)

lemma alloc_token_slots_no_evict:
  assumes "page_size (kv m) = 1" "token_alloc (kv m) n = (a', Some locs)"
  shows "alloc_token_slots ops m n = Inr (m\<lparr>kv := a'\<rparr>, locs)"
proof -
  have "size (avail (kv m)) = length locs + size (avail a')" "length locs = n"
    using token_alloc_Some(1,2) [OF assms(2)] by (metis size_mset size_union)+
  then have "n \<le> available_size (kv m)" using assms(1) by (simp add: available_size_def avail_def)
  then show ?thesis using assms(2) by (simp add: alloc_token_slots_def evict_from_tree_cache_def)
qed

lemma segment_rows:
  assumes "map2 (-) en st = map length xss" "length st = length xss" "length en = length xss" "i < length xss"
  shows "segment st en (concat xss) i = xss ! i"
proof -
  have "en ! i - st ! i = length (xss ! i)" using arg_cong [OF assms(1), of "\<lambda>l. l ! i"] assms(2-4) by simp
  then show ?thesis using split_by_nth [of i "map length xss" "concat xss"] split_by_concat [of xss] assms(1,4) by (simp add: segment_def)
qed

text \<open>What an assignment of new slots \<open>xss\<close> behind the positions \<open>st\<close> does to the table.\<close>

definition table_extends :: "req_pool \<Rightarrow> nat list \<Rightarrow> nat list \<Rightarrow> int list list \<Rightarrow> req_pool \<Rightarrow> bool" where
  "table_extends p idx st xss p' \<longleftrightarrow> uniform (max_context_len p) (req_to_token p') \<and> max_context_len p' = max_context_len p \<and> length (req_to_token p') = length (req_to_token p)
     \<and> (\<forall>i<length idx. (\<forall>q<st ! i. req_to_token p' ! (idx ! i) ! q = req_to_token p ! (idx ! i) ! q)
          \<and> slice (st ! i) (st ! i + length (xss ! i)) (req_to_token p' ! (idx ! i)) = xss ! i)"

lemma assign_extends:
  assumes u: "uniform (max_context_len p) (req_to_token p)" "distinct idx" "length st = length idx" "length xss = length idx"
    and r: "\<And>i. i < length idx \<Longrightarrow> idx ! i < length (req_to_token p) \<and> st ! i + length (xss ! i) \<le> max_context_len p"
    and en: "en = map2 (\<lambda>s xs. s + length xs) st xss"
  shows "table_extends p idx st xss (assign_req_to_token_pool oob p idx st en (concat xss))"
proof -
  let ?p' = "assign_req_to_token_pool oob p idx st en (concat xss)"
  have d: "map2 (-) en st = map length xss" unfolding en using u(3,4) by (intro nth_equalityI) simp_all
  have le: "length en = length xss" using en u(3,4) by simp
  have rg: "ranges_ok p idx st en (concat xss)" unfolding ranges_ok_def d using u r by (auto simp: en length_concat)
  note sp = assign_req_to_token_pool_spec [OF rg, of oob]
  have row: "req_to_token ?p' ! (idx ! i) = store (st ! i) (xss ! i) (req_to_token p ! (idx ! i))" if "i < length idx" for i
    using sp segment_rows [OF d _ le] u(3,4) that by simp
  have len: "length (req_to_token ?p') = length (req_to_token p)" "max_context_len ?p' = max_context_len p" by (simp_all add: assign_req_to_token_pool_def)
  have ur: "length (req_to_token p ! k) = max_context_len p" if "k < length (req_to_token p)" for k using u(1) that by (simp add: uniform_def)
  have "length (req_to_token ?p' ! k) = max_context_len p" if k: "k < length (req_to_token p)" for k
  proof (cases "k \<in> set idx")
    case True
    then obtain i where "i < length idx" "k = idx ! i" by (metis in_set_conv_nth)
    then show ?thesis using row ur [OF k] by simp
  next
    case False
    then show ?thesis using sp ur [OF k] k by simp
  qed
  then have "uniform (max_context_len p) (req_to_token ?p')" using len by (auto simp: uniform_def in_set_conv_nth)
  moreover have "req_to_token ?p' ! (idx ! i) ! q = req_to_token p ! (idx ! i) ! q" if "i < length idx" "q < st ! i" for i q
    using row [OF that(1)] that r [OF that(1)] ur [of "idx ! i"] by (simp add: store_def)
  moreover have "slice (st ! i) (st ! i + length (xss ! i)) (req_to_token ?p' ! (idx ! i)) = xss ! i" if "i < length idx" for i
    using row [OF that] r [OF that] ur [of "idx ! i"] by (intro nth_equalityI) (auto simp: store_def nth_slice)
  ultimately show ?thesis using len unfolding table_extends_def by blast
qed

subsection \<open>The state between two steps\<close>

text \<open>
  A batch between two decode steps, with page size 1 and the table shared with the target: the draft cache is coherent for the whole of
  every sequence, no context is pending, the committed slots are not available to the allocator.
\<close>

definition decode_inv :: "rotary_embedding \<Rightarrow> nat \<Rightarrow> draft_worker \<Rightarrow> 'c batch \<Rightarrow> real list draft_input \<Rightarrow> (nat \<Rightarrow> nat \<Rightarrow> real list) \<Rightarrow> bool" where
  "decode_inv rot slots w b d hist \<longleftrightarrow> worker_ok rot slots w \<and> draft_window_size w = None \<and> draft_pool w = None \<and> worker_page_size w = 1 \<and> 0 < block_size w
     \<and> \<not> is_idle b \<and> length (req_pool_indices b) = length (reqs b) \<and> length (seq_lens b) = length (reqs b) \<and> distinct (req_pool_indices b)
     \<and> uniform (max_context_len (pool (mem b))) (req_to_token (pool (mem b)))
     \<and> (\<forall>i<length (reqs b). req_pool_indices b ! i < length (req_to_token (pool (mem b))) \<and> seq_lens b ! i \<le> max_context_len (pool (mem b)))
     \<and> target_hidden d = [] \<and> length (ctx_lens d) = length (reqs b) \<and> draft_seq_lens d = seq_lens b \<and> length (verified_id d) = length (reqs b)
     \<and> token_ok (kv (mem b)) \<and> page_size (kv (mem b)) = 1 \<and> (\<forall>x\<in>#avail (kv (mem b)). 0 \<le> x \<and> nat x < slots)
     \<and> (\<forall>i<length (reqs b). \<forall>q<seq_lens b ! i. let s = req_to_token (pool (mem b)) ! (req_pool_indices b ! i) ! q in
          0 \<le> s \<and> nat s < slots \<and> s \<notin># avail (kv (mem b)))
     \<and> draft_kv_coherent w (pool (mem b)) (req_pool_indices b) (seq_lens b) hist"

text \<open>What a forward pass of the draft model may change: the entries of the slots of its block.\<close>

definition buffer_frame :: "int list \<Rightarrow> kv_entry list list \<Rightarrow> kv_entry list list \<Rightarrow> bool" where
  "buffer_frame locs buf buf' \<longleftrightarrow> map length buf' = map length buf \<and> (\<forall>i<length buf. \<forall>s<length (buf ! i). int s \<notin> set locs \<longrightarrow> buf' ! i ! s = buf ! i ! s)"

text \<open>What a step relies on: room for the block, token ids of the vocabulary, no grammar, and forward passes that return tensors of the
  right shape; the target is decoded greedily.\<close>

definition draft_pass_ok :: "('c, 'w) worker_env \<Rightarrow> 'w lm_head list \<Rightarrow> bool" where
  "draft_pass_ok e heads \<longleftrightarrow> (\<forall>ids pos locs p idx pre buf. \<exists>buf' h. draft_forward e ids pos locs p idx pre buf = Inr (buf', Some h) \<and> length h = length locs
     \<and> (\<forall>x\<in>set h. heads_ok (head_lowest e) (head_dot e) heads x) \<and> buffer_frame locs buf buf')"

definition target_pass_ok :: "('c, 'w) worker_env \<Rightarrow> draft_worker \<Rightarrow> 'c batch \<Rightarrow> nat \<Rightarrow> bool" where
  "target_pass_ok e w b vocab \<longleftrightarrow> (\<forall>v b1. draft_token_num v = block_size w \<longrightarrow> reqs b1 = reqs b \<longrightarrow> batch_sampling_info b1 = batch_sampling_info b \<longrightarrow>
     (\<exists>logits lg h. target_forward e v b1 = (logits, Some h) \<and> adjusted_greedily (verify_env_of e) v b1 logits lg
        \<and> length lg = length (reqs b) * block_size w \<and> (\<forall>row\<in>set lg. length row = vocab)
        \<and> length h = length (reqs b) * block_size w \<and> (\<forall>x\<in>set h. length x = fc_in_features (draft_net w))))"

definition step_ok :: "('c, 'w) worker_env \<Rightarrow> rotary_embedding \<Rightarrow> draft_worker \<Rightarrow> 'c batch \<Rightarrow> real list draft_input \<Rightarrow> nat \<Rightarrow> bool" where
  "step_ok e rot w b d vocab \<longleftrightarrow> reqs b \<noteq> [] \<and> (\<forall>r\<in>set (reqs b). grammar r = None) \<and> 0 < rope_align (kernels_of e)
     \<and> (\<exists>heads. lm_heads e = Some heads \<and> heads \<noteq> [] \<and> (\<forall>(t, x)\<in>set (concat (map owned heads)). 0 \<le> t \<and> t < int vocab) \<and> draft_pass_ok e heads)
     \<and> target_pass_ok e w b vocab \<and> (\<forall>t\<in>set (verified_id d). 0 \<le> t \<and> t < int vocab)
     \<and> snd (token_alloc (kv (mem b)) (length (reqs b) * block_size w)) \<noteq> None
     \<and> (\<forall>s\<in>set (seq_lens b). s + block_size w \<le> max_context_len (pool (mem b)) \<and> s + block_size w \<le> length (cos_sin_cache rot))"

subsection \<open>Drafting and preparing the verification\<close>

lemma table_extends_trans:
  assumes "table_extends p idx st xss p1" "table_extends p1 idx st yss p2"
  shows "table_extends p idx st yss p2"
  using assms by (simp add: table_extends_def)

lemma concat_tl_rows:
  assumes "length h = bs * n" shows "length (concat (map tl (rows bs n h))) = bs * (n - 1)" "set (concat (map tl (rows bs n h))) \<subseteq> set h"
proof -
  have w: "length r = n" if "r \<in> set (rows bs n h)" for r using rows_width [OF assms that] .
  have "map length (map tl (rows bs n h)) = replicate bs (n - 1)" by (rule nth_equalityI) (use w in auto)
  then show "length (concat (map tl (rows bs n h))) = bs * (n - 1)" by (simp add: length_concat sum_list_replicate)
  show "set (concat (map tl (rows bs n h))) \<subseteq> set h"
  proof
    fix x assume "x \<in> set (concat (map tl (rows bs n h)))"
    then obtain r where "r \<in> set (rows bs n h)" "x \<in> set (tl r)" by auto
    moreover from this(2) have "x \<in> set r" by (cases r) simp_all
    ultimately show "x \<in> set h" using concat_rows [OF assms] by (metis UN_I set_concat)
  qed
qed

text \<open>The block of a request: its verified token, then the tokens sampled for the masked positions.\<close>

lemma block_tokens:
  fixes m :: "'a"
  assumes "length vs = bs" "length nx = bs * (n - 1)" "0 < n"
  defines "T \<equiv> map2 (\<lambda>ids t. hd ids # t) (map (\<lambda>v. v # replicate (n - 1) m) vs) (rows bs (n - 1) nx)"
  shows "length (concat T) = bs * n" "set (concat T) \<subseteq> set vs \<union> set nx" "\<And>i. i < bs \<Longrightarrow> rows bs n (concat T) ! i ! 0 = vs ! i"
proof -
  have T: "T = map (\<lambda>i. vs ! i # rows bs (n - 1) nx ! i) [0..<bs]" unfolding T_def using assms(1) by (intro nth_equalityI) simp_all
  have w: "length (rows bs (n - 1) nx ! i) = n - 1" if "i < bs" for i using rows_width [OF assms(2)] that by simp
  have wT: "length r = n" if "r \<in> set T" for r using that w assms(3) by (auto simp: T)
  have lT: "length T = bs" by (simp add: T)
  have "map length T = replicate bs n" by (rule nth_equalityI) (use wT lT in auto)
  then show "length (concat T) = bs * n" by (simp add: length_concat sum_list_replicate)
  have "rows bs n (concat T) = T" using rows_concat [of T n] wT lT by simp
  then show "rows bs n (concat T) ! i ! 0 = vs ! i" if "i < bs" for i using that by (simp add: T)
  have sub: "set (rows bs (n - 1) nx ! i) \<subseteq> set nx" if "i < bs" for i
    using concat_rows [OF assms(2)] that by (metis UN_upper length_rows nth_mem set_concat)
  show "set (concat T) \<subseteq> set vs \<union> set nx" using sub assms(1) by (fastforce simp: T)
qed

lemma decode_table_extends:
  fixes b :: "'c batch"
  assumes inv: "decode_inv rot slots w b d hist" and st: "step_ok e rot w b d vocab" and p: "table_extends (pool (mem b)) (req_pool_indices b) (seq_lens b) xss p"
    and yss: "length yss = length (reqs b)" "\<And>i. i < length (reqs b) \<Longrightarrow> length (yss ! i) \<le> block_size w" and en: "en = map2 (\<lambda>s xs. s + length xs) (seq_lens b) yss"
  shows "table_extends (pool (mem b)) (req_pool_indices b) (seq_lens b) yss (assign_req_to_token_pool oob p (req_pool_indices b) (seq_lens b) en (concat yss))"
proof -
  have i: "distinct (req_pool_indices b)" "length (seq_lens b) = length (req_pool_indices b)" "length (req_pool_indices b) = length (reqs b)"
    "\<And>i. i < length (reqs b) \<Longrightarrow> req_pool_indices b ! i < length (req_to_token (pool (mem b)))"
    using inv by (simp_all add: decode_inv_def)
  have room: "seq_lens b ! i + block_size w \<le> max_context_len (pool (mem b))" if "i < length (reqs b)" for i
    using st that i(2,3) by (simp add: step_ok_def)
  have "table_extends p (req_pool_indices b) (seq_lens b) yss (assign_req_to_token_pool oob p (req_pool_indices b) (seq_lens b) en (concat yss))"
  proof (rule assign_extends [OF _ i(1,2) _ _ en])
    show "uniform (max_context_len p) (req_to_token p)" "length yss = length (req_pool_indices b)" using p yss(1) i(3) by (simp_all add: table_extends_def)
    show "req_pool_indices b ! j < length (req_to_token p) \<and> seq_lens b ! j + length (yss ! j) \<le> max_context_len p" if j: "j < length (req_pool_indices b)" for j
      using p i(4) [of j] room [of j] yss(2) [of j] j i(3) by (simp add: table_extends_def)
  qed
  then show ?thesis by (rule table_extends_trans [OF p])
qed

lemma table_extends_refl:
  fixes b :: "'c batch"
  assumes "decode_inv rot slots w b d hist"
  shows "table_extends (pool (mem b)) (req_pool_indices b) (seq_lens b) (map (\<lambda>_. []) (reqs b)) (pool (mem b))"
  using assms by (simp add: decode_inv_def table_extends_def slice_def)

lemma prepare_run:
  fixes b :: "'c batch"
  assumes inv: "decode_inv rot slots w b d hist" and st: "step_ok e rot w b d vocab"
  shows "\<exists>buf a' locs p v. prepare_for_speculative_decoding e ops w b d
      = Inr (w\<lparr>kv_buffer := buf\<rparr>, b\<lparr>input_ids := draft_token v, out_cache_loc := locs, mem := (mem b)\<lparr>kv := a', pool := p\<rparr>\<rparr>, d\<lparr>ctx_lens := map (\<lambda>_. 0) (ctx_lens d)\<rparr>, Some v)
    \<and> buffer_frame locs (kv_buffer w) buf \<and> token_alloc (kv (mem b)) (length (reqs b) * block_size w) = (a', Some locs)
    \<and> draft_token_num v = block_size w \<and> length (draft_token v) = length (reqs b) * block_size w \<and> (\<forall>t\<in>set (draft_token v). 0 \<le> t \<and> t < int vocab)
    \<and> (\<forall>i<length (reqs b). rows (length (reqs b)) (block_size w) (draft_token v) ! i ! 0 = verified_id d ! i)
    \<and> table_extends (pool (mem b)) (req_pool_indices b) (seq_lens b) (rows (length (reqs b)) (block_size w) locs) p"
proof -
  let ?bs = "length (reqs b)" and ?n = "block_size w" and ?idx = "req_pool_indices b" and ?s = "seq_lens b" and ?a = "kv (mem b)"
  define ends where "ends = map (\<lambda>s. s + ?n) ?s"
  let ?ids = "map (\<lambda>v. v # replicate (?n - 1) (mask_id e)) (verified_id d)"
  have i: "draft_pool w = None" "worker_page_size w = 1" "0 < ?n" "\<not> is_idle b" "length ?idx = ?bs" "length ?s = ?bs" "target_hidden d = []"
    "length (ctx_lens d) = ?bs" "draft_seq_lens d = ?s" "length (verified_id d) = ?bs" "page_size ?a = 1"
    using inv by (simp_all add: decode_inv_def)
  obtain a' locs where al: "token_alloc ?a (?bs * ?n) = (a', Some locs)" using st by (cases "token_alloc ?a (?bs * ?n)") (auto simp: step_ok_def)
  have ll: "length locs = ?bs * ?n" using token_alloc_Some(2) [OF al] .
  obtain heads where hd: "lm_heads e = Some heads" "heads \<noteq> []" "\<forall>(t, x)\<in>set (concat (map owned heads)). 0 \<le> t \<and> t < int vocab" and dp: "draft_pass_ok e heads"
    using st by (auto simp: step_ok_def)
  have gr: "\<not> (\<exists>r\<in>set (reqs b). grammar r \<noteq> None)" and vr: "\<forall>t\<in>set (verified_id d). 0 \<le> t \<and> t < int vocab" using st by (auto simp: step_ok_def)
  let ?L = "rows ?bs ?n locs"
  have cl: "concat ?L = locs" using concat_rows [OF ll] .
  have wL: "length (?L ! j) = ?n" if "j < ?bs" for j using rows_width [OF ll] that by simp
  have en: "ends = map2 (\<lambda>s xs. s + length xs) ?s ?L" unfolding ends_def using wL i(6) by (intro nth_equalityI) simp_all
  define p1 where "p1 = assign_req_to_token_pool (table_oob (kernels_of e)) (pool (mem b)) ?idx ?s ends locs"
  define p2 where "p2 = assign_req_to_token_pool (oob_val (verify_env_of e)) p1 ?idx ?s ends locs"
  have t1: "table_extends (pool (mem b)) ?idx ?s ?L p1" unfolding p1_def
    by (rule decode_table_extends [OF inv st table_extends_refl [OF inv] _ _ en, unfolded cl]) (use wL in simp_all)
  have t2: "table_extends (pool (mem b)) ?idx ?s ?L p2" unfolding p2_def
    by (rule decode_table_extends [OF inv st t1 _ _ en, unfolded cl]) (use wL in simp_all)
  define pos where "pos = concat (map (\<lambda>s. map (\<lambda>j. int (s + j)) [0..<?n]) ?s)"
  obtain buf h where df: "draft_forward e ?ids pos locs p1 ?idx ?s (kv_buffer w) = Inr (buf, Some h)" and lh: "length h = length locs"
    and hk: "\<forall>x\<in>set h. heads_ok (head_lowest e) (head_dot e) heads x" and bf: "buffer_frame locs (kv_buffer w) buf"
    using dp unfolding draft_pass_ok_def by blast
  let ?b2 = "b\<lparr>mem := (mem b)\<lparr>pool := p1\<rparr>\<rparr>"
  have ab: "alloc_block e w b ?s = (a', Inr (Some locs))" using i(2) al by (simp add: alloc_block_def Let_def)
  have dt: "draft_table w b = pool (mem b)" using i(1) by (simp add: draft_table_def)
  have sd: "set_draft_table p1 (w, set_kv a' b) = (w, b\<lparr>mem := (mem b)\<lparr>kv := a', pool := p1\<rparr>\<rparr>)" using i(1) by (simp add: set_draft_table_def set_kv_def)
  have blk: "draft_block e w b ?s ?ids = (w\<lparr>kv_buffer := buf\<rparr>, ?b2, Inr (Some h))"
    unfolding draft_block_def Let_def pos_def [symmetric] ends_def [symmetric] ab prod.case sum.case option.case dt p1_def [symmetric] sd df
    using token_alloc_restore [OF al] by (simp add: set_kv_def)
  define nx where "nx = map (best_token (head_lowest e) (head_dot e) heads) (concat (map tl (rows ?bs ?n h)))"
  note ct = concat_tl_rows [OF lh [unfolded ll]]
  have samp: "greedy_sample_from_vocab_parallel_head (head_lowest e) (head_dot e) heads 256 (concat (map tl (rows ?bs ?n h))) = Inr nx"
    unfolding nx_def by (rule greedy_sample_tokens [OF hd(2)]) (use hk ct(2) in auto)
  have nr: "0 \<le> t \<and> t < int vocab" if "t \<in> set nx" for t
  proof -
    from that obtain x where x: "x \<in> set h" "t = best_token (head_lowest e) (head_dot e) heads x" using ct(2) by (auto simp: nx_def)
    then show ?thesis using best_token_maximal [OF bspec [OF hk x(1)]] hd(3) by auto
  qed
  have ln: "length nx = ?bs * (?n - 1)" using ct(1) by (simp add: nx_def)
  define T where "T = map2 (\<lambda>ids t. hd ids # t) ?ids (rows ?bs (?n - 1) nx)"
  note bt = block_tokens [OF i(10) ln i(3), where m = "mask_id e", folded T_def]
  define cm where "cm = (if \<not> snd (resolve_dflash_verify_mask_policy (target_backend e)) then None else Some (concat (map (\<lambda>pl. causal_rows pl ?n) ?s)))"
  let ?v = "\<lparr>draft_token = concat T, draft_token_num = ?n, custom_mask = None\<rparr>"
  let ?b3 = "b\<lparr>input_ids := concat T, out_cache_loc := locs, mem := (mem b)\<lparr>kv := a', pool := p2\<rparr>\<rparr>"
  have alc: "alloc_token_slots ops (mem ?b2) (?bs * ?n) = Inr ((mem ?b2)\<lparr>kv := a'\<rparr>, locs)" by (rule alloc_token_slots_no_evict) (use i(11) al in simp_all)
  have pv: "prepare_for_verify (verify_env_of e) ops ?v ?b2 1 (snd (resolve_dflash_verify_mask_policy (target_backend e))) = Inr (?v\<lparr>custom_mask := cm\<rparr>, ?b3)"
    using i(3,4) alc bt(1) by (simp add: prepare_for_verify_def Let_def cm_def p2_def [symmetric] ends_def [symmetric])
  have app: "append_target_hidden_to_draft_kv (kernels_of e) False w b d = Inr (w, b, d\<lparr>ctx_lens := map (\<lambda>_. 0) (ctx_lens d)\<rparr>)"
    using i by (simp add: append_target_hidden_to_draft_kv_def)
  have "prepare_for_speculative_decoding e ops w b d = Inr (w\<lparr>kv_buffer := buf\<rparr>, ?b3, d\<lparr>ctx_lens := map (\<lambda>_. 0) (ctx_lens d)\<rparr>, Some (?v\<lparr>custom_mask := cm\<rparr>))"
    unfolding prepare_for_speculative_decoding_def if_not_P [OF i(4)] if_not_P [OF gr] app using i hd(1) blk lh ll samp pv by (simp add: Let_def T_def [symmetric, unfolded One_nat_def])
  moreover have "\<forall>t\<in>set (concat T). 0 \<le> t \<and> t < int vocab" using bt(2) vr nr by blast
  ultimately show ?thesis using bf al bt(1,3) t2
    by (intro exI [of _ buf] exI [of _ a'] exI [of _ locs] exI [of _ p2] exI [of _ "?v\<lparr>custom_mask := cm\<rparr>"]) simp
qed

subsection \<open>The state after the verification\<close>

lemma verify_table:
  assumes "verify e v b logits hidden page = Inr (b', res)" "\<not> is_idle b"
  shows "pool (mem b') = assign_req_to_token_pool (oob_val e) (pool (mem b)) (req_pool_indices b) (seq_lens b) (seq_lens b') (out_cache_loc b')"
    "req_pool_indices b' = req_pool_indices b" "is_idle b' = is_idle b"
  using assms unfolding verify_def Let_def by (auto simp: rbind_eq_Inr split: option.splits)

text \<open>The tokens kept of every block of slots.\<close>

definition kept_rows :: "nat list \<Rightarrow> nat \<Rightarrow> 'a list \<Rightarrow> 'a list list" where
  "kept_rows commits n xs = map2 take commits (rows (length commits) n xs)"

lemma kept_rows_lengths:
  assumes "length xs = length commits * n" "\<And>c. c \<in> set commits \<Longrightarrow> c \<le> n"
  shows "map length (kept_rows commits n xs) = commits" "set (concat (kept_rows commits n xs)) \<subseteq> set xs"
    "\<And>i. i < length commits \<Longrightarrow> kept_rows commits n xs ! i = take (commits ! i) (rows (length commits) n xs ! i)"
proof -
  have w: "length r = n" if "r \<in> set (rows (length commits) n xs)" for r using rows_width [OF assms(1) that] .
  show "map length (kept_rows commits n xs) = commits" unfolding kept_rows_def by (rule nth_equalityI) (use w assms(2) in \<open>auto simp: min_absorb2\<close>)
  show "kept_rows commits n xs ! i = take (commits ! i) (rows (length commits) n xs ! i)" if "i < length commits" for i
    using that by (simp add: kept_rows_def)
  show "set (concat (kept_rows commits n xs)) \<subseteq> set xs"
  proof
    fix x assume "x \<in> set (concat (kept_rows commits n xs))"
    then obtain c r where "(c, r) \<in> set (zip commits (rows (length commits) n xs))" "x \<in> set (take c r)" by (auto simp: kept_rows_def)
    then have "r \<in> set (rows (length commits) n xs)" "x \<in> set r" by (auto dest: set_zip_rightD in_set_takeD)
    then show "x \<in> set xs" using concat_rows [OF assms(1)] by (metis UN_I set_concat)
  qed
qed

lemma verify_slots:
  fixes b :: "'c batch"
  assumes "verify e v b logits (Some h) 1 = Inr (b', res)" "\<not> is_idle b" "length (out_cache_loc b) = length (commit_lens res) * draft_token_num v"
  shows "\<exists>freed. kv (mem b') = token_free (kv (mem b)) freed \<and> out_cache_loc b' = concat (kept_rows (commit_lens res) (draft_token_num v) (out_cache_loc b))
    \<and> mset (out_cache_loc b') + mset freed = mset (out_cache_loc b)
    \<and> next_target_hidden res = concat (kept_rows (commit_lens res) (draft_token_num v) h)
    \<and> length (new_verified_id res) = length (commit_lens res) \<and> length (reqs b') = length (commit_lens res)"
proof (rule verify_unfold [OF assms(1,2)])
  fix lg acc bonus lps outs a' locs h'
  assume h: "Some h = Some h'"
    and fr: "free_uncommitted 1 (draft_token_num v) (seq_lens b) (map (\<lambda>o'. committed (snd o')) outs) (out_cache_loc b) (kv (mem b)) = Inr (a', locs)"
    and cl: "commit_lens res = map (\<lambda>o'. committed (snd o')) outs" and out: "out_cache_loc b' = locs" "kv (mem b') = a'"
    and nt: "next_target_hidden res = hidden_segments (draft_token_num v) (commit_lens res) h'"
    and rq: "reqs b' = map (\<lambda>(r, o'). r\<lparr>kv_committed_len := kv_committed_len r + committed o', kv_allocated_len := kv_committed_len r + committed o'\<rparr>) outs"
    and nv: "new_verified_id res = map (\<lambda>o'. new_verified (snd o')) outs"
  from free_uncommitted_token [OF assms(3), of "seq_lens b" "kv (mem b)"] fr obtain freed where
    f: "a' = token_free (kv (mem b)) freed" "locs = concat (kept_rows (commit_lens res) (draft_token_num v) (out_cache_loc b))" "mset locs + mset freed = mset (out_cache_loc b)"
    unfolding cl kept_rows_def by auto
  moreover have "next_target_hidden res = concat (kept_rows (commit_lens res) (draft_token_num v) h)" using nt h by (simp add: hidden_segments_def kept_rows_def)
  ultimately show ?thesis using out rq nv cl by auto
qed

lemma greedy_commits:
  assumes "greedy_batch_ok e v b logits lg vocab page" "verify e v b logits (Some h) page = Inr (b', res)"
  shows "length (commit_lens res) = length (reqs b)" "\<And>i. i < length (reqs b) \<Longrightarrow> 1 \<le> commit_lens res ! i \<and> commit_lens res ! i \<le> draft_token_num v"
    "seq_lens b' = map2 (+) (seq_lens b) (commit_lens res)"
proof -
  let ?n = "draft_token_num v"
  obtain b2 res2 outs lps where run: "verify e v b logits (Some h) page = Inr (b2, res2)" "length outs = length (reqs b)"
    "commit_lens res2 = map (\<lambda>o'. committed (snd o')) outs" "seq_lens b2 = map2 (+) (seq_lens b) (commit_lens res2)"
    and each: "\<forall>i<length (reqs b). length (block_of v b i) = ?n \<and> length (predictions_of v b lg i) = ?n
         \<and> packed_ok ?n (packed_row (block_of v b i) (predictions_of v b lg i)) (lps ! i)
         \<and> verify_req (detok e) ?n (packed_row (block_of v b i) (predictions_of v b lg i)) (lps ! i) (reqs b ! i) = Inr (outs ! i)"
    using verify_greedy_run [OF assms(1), of h] by blast
  have eq: "b2 = b'" "res2 = res" using run(1) assms(2) by auto
  show "length (commit_lens res) = length (reqs b)" "seq_lens b' = map2 (+) (seq_lens b) (commit_lens res)" using run eq by simp_all
  fix i assume i: "i < length (reqs b)"
  let ?pk = "packed_row (block_of v b i) (predictions_of v b lg i)"
  have po: "packed_ok ?n ?pk (lps ! i)" and vr: "verify_req (detok e) ?n ?pk (lps ! i) (reqs b ! i) = Inr (outs ! i)" using each i by auto
  from verify_req_result [OF po, of "detok e" "reqs b ! i"] vr have "1 \<le> committed (snd (outs ! i))" "committed (snd (outs ! i)) \<le> nat (?pk ! (?n - 1)) + 1" by auto
  moreover have "nat (?pk ! (?n - 1)) + 1 \<le> ?n" using po by (auto simp: packed_ok_def)
  ultimately show "1 \<le> commit_lens res ! i \<and> commit_lens res ! i \<le> ?n" using run(2,3) eq i by simp
qed

subsection \<open>The whole decode step\<close>

text \<open>The features of a request after a step: those of the target's pass for the committed positions.\<close>

definition extend_hist :: "nat list \<Rightarrow> nat \<Rightarrow> real list list \<Rightarrow> (nat \<Rightarrow> nat \<Rightarrow> real list) \<Rightarrow> nat \<Rightarrow> nat \<Rightarrow> real list" where
  "extend_hist lens n h hist i q = (if q < lens ! i then hist i q else rows (length lens) n h ! i ! (q - lens ! i))"

lemma worker_ok_buffer: "worker_ok rot slots w \<Longrightarrow> map length buf = map length (kv_buffer w) \<Longrightarrow> worker_ok rot slots (w\<lparr>kv_buffer := buf\<rparr>)"
proof -
  assume w: "worker_ok rot slots w" and m: "map length buf = map length (kv_buffer w)"
  have "length buf = length (kv_buffer w)" using m by (metis length_map)
  moreover have "length ` set buf = length ` set (kv_buffer w)" using m by (metis set_map)
  moreover have "length x = slots" if "x \<in> set buf" for x
  proof -
    from that calculation(2) obtain y where "y \<in> set (kv_buffer w)" "length x = length y" by (metis imageE image_eqI)
    then show ?thesis using w by (simp add: worker_ok_def)
  qed
  ultimately show ?thesis using w by (simp add: worker_ok_def)
qed

lemma coherent_transfer:
  assumes "draft_kv_coherent w p idx lens hist" "draft_net w' = draft_net w" "kv_cast w' = kv_cast w"
    and "\<And>i q. i < length idx \<Longrightarrow> q < lens ! i \<Longrightarrow> req_to_token p' ! (idx ! i) ! q = req_to_token p ! (idx ! i) ! q"
    and "\<And>i q li. i < length idx \<Longrightarrow> q < lens ! i \<Longrightarrow> li < length (layers (draft_net w)) \<Longrightarrow>
       kv_buffer w' ! li ! nat (req_to_token p ! (idx ! i) ! q) = kv_buffer w ! li ! nat (req_to_token p ! (idx ! i) ! q)"
    and "\<And>i q. i < length idx \<Longrightarrow> q < lens ! i \<Longrightarrow> hist' i q = hist i q"
  shows "draft_kv_coherent w' p' idx lens hist'"
  using assms by (simp add: draft_kv_coherent_def holds_kv_def)

text \<open>The slots the allocator hands out are none of the committed ones, and each is handed out once.\<close>

lemma fresh_block:
  assumes ok: "token_ok a" and al: "token_alloc a n = (a', Some locs)"
  shows "distinct locs" "set locs \<subseteq> set_mset (avail a)" "token_ok a'" "set locs \<inter> set_mset (avail a') = {}"
proof -
  have s: "mset locs + avail a' = avail a" "is_not_in_free_group a'" using token_alloc_Some [OF al] ok by (simp_all add: token_ok_def)
  have sm: "simple_mset (mset locs + avail a')" using ok s(1) by (simp add: token_ok_def)
  show "set locs \<subseteq> set_mset (avail a)" using s(1) by (metis set_mset_mset set_mset_union sup_ge1)
  show "distinct locs" "token_ok a'" "set locs \<inter> set_mset (avail a') = {}"
    using sm s(2) by (simp_all add: token_ok_def simple_mset_union)
qed

text \<open>The slots of a block after the rejected ones were freed.\<close>

lemma freed_block:
  assumes ok: "token_ok a" and al: "token_alloc a n = (a', Some locs)" and ms: "mset kept + mset freed = mset locs"
  shows "token_ok (token_free a' freed)" "set_mset (avail (token_free a' freed)) \<subseteq> set_mset (avail a)" "set kept \<inter> set_mset (avail (token_free a' freed)) = {}"
    "distinct kept" "set kept \<subseteq> set_mset (avail a)" "page_size (token_free a' freed) = page_size a"
proof -
  note fb = fresh_block [OF ok al]
  have g: "is_not_in_free_group a'" using fb(3) by (simp add: token_ok_def)
  have av: "avail (token_free a' freed) = avail a' + mset freed" using token_free_avail(1) [OF g] .
  have all: "mset kept + (avail a' + mset freed) = avail a" using token_alloc_Some(1) [OF al] ms by (simp add: ac_simps)
  have sm: "simple_mset (mset kept + (avail a' + mset freed))" using ok all by (simp add: token_ok_def)
  show "token_ok (token_free a' freed)" using sm g av by (simp add: token_ok_def simple_mset_union token_free_avail(2))
  show "set kept \<inter> set_mset (avail (token_free a' freed)) = {}" "distinct kept" using sm by (simp_all add: av simple_mset_union)
  have "set kept \<union> set_mset (avail (token_free a' freed)) = set_mset (avail a)" using arg_cong [OF all, of set_mset] av by simp
  then show "set_mset (avail (token_free a' freed)) \<subseteq> set_mset (avail a)" "set kept \<subseteq> set_mset (avail a)" by blast+
  show "page_size (token_free a' freed) = page_size a" using al by (auto simp: token_free_def token_alloc_def Let_def split: if_splits)
qed

lemma commit_append:
  fixes b b' :: "'c batch"
  assumes inv: "decode_inv rot slots w b d hist" and st: "step_ok e rot w b d vocab"
    and bf: "buffer_frame locs (kv_buffer w) buf" and al: "token_alloc (kv (mem b)) (length (reqs b) * block_size w) = (a', Some locs)"
    and cs: "length cs = length (reqs b)" "\<And>j. j < length (reqs b) \<Longrightarrow> 1 \<le> cs ! j \<and> cs ! j \<le> block_size w"
    and t2: "table_extends (pool (mem b)) (req_pool_indices b) (seq_lens b) (kept_rows cs (block_size w) locs) (pool (mem b'))"
    and h: "length h = length (reqs b) * block_size w" "\<forall>x\<in>set h. length x = fc_in_features (draft_net w)"
    and b': "req_pool_indices b' = req_pool_indices b" "seq_lens b' = map2 (+) (seq_lens b) cs" "length (reqs b') = length (reqs b)" "\<not> is_idle b'"
      "kv (mem b') = token_free a' freed" "mset (concat (kept_rows cs (block_size w) locs)) + mset freed = mset locs"
    and d2: "ctx_lens d2 = cs" "target_hidden d2 = concat (kept_rows cs (block_size w) h)" "draft_seq_lens d2 = seq_lens b" "length (verified_id d2) = length (reqs b)"
  shows "\<exists>w' d'. append_target_hidden_to_draft_kv (kernels_of e) True (w\<lparr>kv_buffer := buf\<rparr>) b' d2 = Inr (w', b', d') \<and> verified_id d' = verified_id d2
    \<and> decode_inv rot slots w' b' d' (extend_hist (seq_lens b) (block_size w) h hist)"
proof -
  let ?bs = "length (reqs b)" and ?n = "block_size w" and ?idx = "req_pool_indices b" and ?s = "seq_lens b" and ?p = "pool (mem b)" and ?p' = "pool (mem b')"
  let ?K = "kept_rows cs ?n locs" and ?w1 = "w\<lparr>kv_buffer := buf\<rparr>" and ?hist = "extend_hist ?s ?n h hist"
  have i: "worker_ok rot slots w" "draft_window_size w = None" "draft_pool w = None" "worker_page_size w = 1" "0 < ?n" "length ?idx = ?bs" "length ?s = ?bs"
    "distinct ?idx" "token_ok (kv (mem b))" "page_size (kv (mem b)) = 1" using inv by (simp_all add: decode_inv_def)
  have tab: "?idx ! j < length (req_to_token ?p)" if "j < ?bs" for j using inv that by (simp add: decode_inv_def)
  have avr: "0 \<le> x \<and> nat x < slots" if "x \<in># avail (kv (mem b))" for x using inv that by (simp add: decode_inv_def)
  have old: "0 \<le> req_to_token ?p ! (?idx ! j) ! q" "nat (req_to_token ?p ! (?idx ! j) ! q) < slots" "req_to_token ?p ! (?idx ! j) ! q \<notin># avail (kv (mem b))"
    if "j < ?bs" "q < ?s ! j" for j q using inv that by (simp_all add: decode_inv_def Let_def)
  have coh0: "draft_kv_coherent w ?p ?idx ?s hist" using inv by (simp add: decode_inv_def)
  have room: "?s ! j + ?n \<le> max_context_len ?p" "?s ! j + ?n \<le> length (cos_sin_cache rot)" if "j < ?bs" for j using st that i(7) by (simp_all add: step_ok_def)
  have ne: "reqs b \<noteq> []" and ra: "0 < rope_align (kernels_of e)" using st by (simp_all add: step_ok_def)
  have cn: "c \<le> ?n" if "c \<in> set cs" for c using that cs by (auto simp: in_set_conv_nth)
  have lK: "length locs = length cs * ?n" "length h = length cs * ?n" using token_alloc_Some(2) [OF al] h(1) cs(1) by simp_all
  note kr = kept_rows_lengths [OF lK(1) cn] and kh = kept_rows_lengths [OF lK(2) cn]
  note fr = freed_block [OF i(9) al b'(6)] and fb = fresh_block [OF i(9) al]
  have Kl: "length (?K ! j) = cs ! j" "j < length ?K" if "j < ?bs" for j using kr(1) cs(1) that by (metis nth_map length_map)+
  have tx: "uniform (max_context_len ?p') (req_to_token ?p')" "max_context_len ?p' = max_context_len ?p" "length (req_to_token ?p') = length (req_to_token ?p)"
    and pre: "\<And>j q. j < ?bs \<Longrightarrow> q < ?s ! j \<Longrightarrow> req_to_token ?p' ! (?idx ! j) ! q = req_to_token ?p ! (?idx ! j) ! q"
    and new: "\<And>j. j < ?bs \<Longrightarrow> slice (?s ! j) (?s ! j + cs ! j) (req_to_token ?p' ! (?idx ! j)) = ?K ! j"
    using t2 Kl i(6) by (simp_all add: table_extends_def)
  have Kn: "length ?K = ?bs" using kr(1) cs(1) by (metis length_map)
  have slots: "slots_of ?p' ?idx ?s cs = ?K" by (rule nth_equalityI) (use new Kn i(6) in \<open>auto simp: slots_of_def\<close>)
  have "0 < max_context_len ?p" using room(1) [of 0] i(5) ne by (cases "reqs b") auto
  then have tok: "table_ok ?p' ?idx ?s cs" using tx tab room(1) cs i(6,7) by (auto simp: table_ok_def) (meson add_left_mono order_trans)
  have lh: "length (target_hidden d2) = sum_list cs" using kh(1) by (simp add: d2(2) length_concat)
  have shapes: "append_shapes True ?w1 b' d2 ?s"
    unfolding append_shapes_def using tok b' d2 i(6,7) lh kh(2) h(2) cn by (auto simp: d2)
  have K: "set (concat ?K) \<subseteq> set locs" by (rule kr(2))
  have fresh: "fresh_slots slots ?p' ?idx ?s cs"
    unfolding fresh_slots_def slots
  proof (intro conjI ballI allI impI)
    show "distinct (concat ?K)" by (rule fr(4))
    show "0 \<le> x" "nat x < slots" if "x \<in> set (concat ?K)" for x using avr that fr(5) by blast+
    fix j q assume "j < length ?idx" "q < ?s ! j"
    then have jq: "j < ?bs" "q < ?s ! j" using i(6) by simp_all
    show "0 \<le> req_to_token ?p' ! (?idx ! j) ! q" "nat (req_to_token ?p' ! (?idx ! j) ! q) < slots" "req_to_token ?p' ! (?idx ! j) ! q \<notin> set (concat ?K)"
      using old [OF jq] pre [OF jq] fr(5) by auto
  qed
  have ready: "append_ready True rot slots ?w1 b' d2 ?s"
    unfolding append_ready_def b'(1)
  proof (intro conjI shapes ballI)
    show "worker_ok rot slots ?w1" by (rule worker_ok_buffer [OF i(1)]) (use bf in \<open>simp add: buffer_frame_def\<close>)
    show "window_ok ?w1 ?idx (seq_lens b')" using i(2,3) by (simp add: window_ok_def)
    show "fresh_slots slots ?p' ?idx ?s (ctx_lens d2)" using fresh d2(1) by simp
    fix x assume "x \<in> set (seq_lens b')"
    then obtain j where j: "j < ?bs" "x = ?s ! j + cs ! j" using b'(2) cs(1) i(7) by (auto simp: in_set_conv_nth)
    then show "x \<le> length (cos_sin_cache rot)" using room(2) [OF j(1)] cs(2) [OF j(1)] by linarith
  qed
  have "features d2 = kept_rows cs ?n h" using split_by_concat [of "kept_rows cs ?n h"] kh(1) by (simp add: features_def d2)
  then have feat: "\<forall>k<length (req_pool_indices b'). \<forall>j<ctx_lens d2 ! k. features d2 ! k ! j = ?hist k (?s ! k + j)"
    using kh(3) cs(1) i(6,7) b'(1) d2(1) by (simp add: extend_hist_def)
  have coh1: "draft_kv_coherent ?w1 ?p' ?idx ?s ?hist"
  proof (rule coherent_transfer [OF coh0])
    fix k q assume "k < length ?idx" "q < ?s ! k"
    then have kq: "k < ?bs" "q < ?s ! k" using i(6) by simp_all
    show "req_to_token ?p' ! (?idx ! k) ! q = req_to_token ?p ! (?idx ! k) ! q" using pre [OF kq] .
    show "?hist k q = hist k q" using kq(2) by (simp add: extend_hist_def)
    fix li assume "li < length (layers (draft_net w))"
    then have li: "li < length (kv_buffer w)" "length (kv_buffer w ! li) = slots" using i(1) by (auto simp: worker_ok_def)
    have "req_to_token ?p ! (?idx ! k) ! q \<notin> set locs" using old(3) [OF kq] fb(2) by blast
    then show "kv_buffer ?w1 ! li ! nat (req_to_token ?p ! (?idx ! k) ! q) = kv_buffer w ! li ! nat (req_to_token ?p ! (?idx ! k) ! q)"
      using bf li old(1,2) [OF kq] by (simp add: buffer_frame_def)
  qed simp_all
  have "0 < cs ! 0" "0 < length cs" using cs ne by (metis length_greater_0_conv less_le_trans zero_less_one)+
  then have "0 < sum_list cs" by (metis elem_le_sum_list less_le_trans)
  then have ne2: "target_hidden d2 \<noteq> []" using lh by (metis less_irrefl list.size(3))
  have coh1': "draft_kv_coherent ?w1 (pool (mem b')) (req_pool_indices b') ?s ?hist" using coh1 b'(1) by simp
  from append_coherent [OF ready ra ne2 feat coh1'] obtain buf2 q where
    run: "append_target_hidden_to_draft_kv (kernels_of e) True ?w1 b' d2
      = Inr (?w1\<lparr>kv_buffer := buf2, draft_pool := q\<rparr>, b', d2\<lparr>draft_seq_lens := new_draft_lens ?w1 (seq_lens b'), ctx_lens := map (\<lambda>_. 0) (ctx_lens d2), target_hidden := []\<rparr>)"
    and ml: "map length buf2 = map length (kv_buffer ?w1)" and q: "(q = None) = (draft_pool ?w1 = None)"
    and coh2: "draft_kv_coherent (?w1\<lparr>kv_buffer := buf2, draft_pool := q\<rparr>) (pool (mem b')) (req_pool_indices b') (seq_lens b') ?hist" by (elim exE conjE) (rule that)
  let ?w' = "?w1\<lparr>kv_buffer := buf2, draft_pool := q\<rparr>"
  let ?d' = "d2\<lparr>draft_seq_lens := new_draft_lens ?w1 (seq_lens b'), ctx_lens := map (\<lambda>_. 0) (ctx_lens d2), target_hidden := []\<rparr>"
  have qn: "q = None" using q i(3) by simp
  have "worker_ok rot slots ?w1" using ready by (simp add: append_ready_def)
  from worker_ok_buffer [OF this ml] have wk: "worker_ok rot slots ?w'" by (simp add: worker_ok_def)
  have new_slot: "0 \<le> x \<and> nat x < slots \<and> x \<notin># avail (kv (mem b'))" if "j < ?bs" "r < seq_lens b' ! j" "x = req_to_token ?p' ! (?idx ! j) ! r" for j r x
  proof (cases "r < ?s ! j")
    case True
    then show ?thesis using old [OF that(1) True] pre [OF that(1) True] that(3) fr(2) b'(5) by auto
  next
    case False
    then have "r - ?s ! j < cs ! j" using that(1,2) b'(2) cs(1) i(7) by simp
    then have "x = ?K ! j ! (r - ?s ! j)" using new [OF that(1)] nth_slice [of "r - ?s ! j" "?s ! j + cs ! j" "?s ! j" "req_to_token ?p' ! (?idx ! j)"]
        False that(3) table_okD(5) [OF tok, of j] that(1) i(6) by simp
    then have "x \<in> set (?K ! j)" using Kl(1) [OF that(1)] \<open>r - ?s ! j < cs ! j\<close> by simp
    then have "x \<in> set (concat ?K)" using nth_mem [OF Kl(2) [OF that(1)]] by auto
    then have "x \<in># avail (kv (mem b))" "x \<notin># avail (token_free a' freed)" using fr(3,5) by blast+
    then show ?thesis using avr [of x] b'(5) by simp
  qed
  have sl: "seq_lens b' ! j \<le> max_context_len ?p'" if "j < ?bs" for j using table_okD(5,6) [OF tok, of j] that i(6,7) b'(2) cs(1) by simp
  have "decode_inv rot slots ?w' b' ?d' ?hist"
    unfolding decode_inv_def
  proof (intro conjI allI impI ballI)
    show "worker_ok rot slots ?w'" by (rule wk)
    show "draft_kv_coherent ?w' (pool (mem b')) (req_pool_indices b') (seq_lens b') ?hist" by (rule coh2)
    show "uniform (max_context_len (pool (mem b'))) (req_to_token (pool (mem b')))" by (rule tx(1))
    show "0 \<le> x" "nat x < slots" if "x \<in># avail (kv (mem b'))" for x using avr that fr(2) b'(5) by auto
    show "req_pool_indices b' ! j < length (req_to_token (pool (mem b')))" "seq_lens b' ! j \<le> max_context_len (pool (mem b'))" if "j < length (reqs b')" for j
      using that b'(1,3) tx tab sl by simp_all
    show "let s = req_to_token (pool (mem b')) ! (req_pool_indices b' ! j) ! r in 0 \<le> s \<and> nat s < slots \<and> s \<notin># avail (kv (mem b'))"
      if "j < length (reqs b')" "r < seq_lens b' ! j" for j r using new_slot that b'(1,3) by (simp add: Let_def)
    show "draft_seq_lens ?d' = seq_lens b'" using i(2) by (simp add: new_draft_lens_def)
  qed (use i b' cs d2 fr(1,6) qn in simp_all)
  moreover have "verified_id ?d' = verified_id d2" by simp
  ultimately show ?thesis using run by blast
qed

lemma decode_run:
  fixes b :: "'c batch"
  assumes inv: "decode_inv rot slots w b d hist" and st: "step_ok e rot w b d vocab"
  shows "\<exists>w' b1 v logits lg h b' d' res. forward_decode e ops w b d = Inr (w', b', d', \<lparr>next_token_ids = new_verified_id res,
        num_accepted_tokens = sum_list (accept_length_per_req res), accept_lengths = accept_length_per_req res\<rparr>)
    \<and> target_forward e v b1 = (logits, Some h) \<and> verify (verify_env_of e) v b1 logits (Some h) 1 = Inr (b', res)
    \<and> greedy_batch_ok (verify_env_of e) v b1 logits lg vocab 1 \<and> reqs b1 = reqs b \<and> batch_sampling_info b1 = batch_sampling_info b \<and> seq_lens b1 = seq_lens b \<and> draft_token_num v = block_size w
    \<and> (\<forall>i<length (reqs b). block_of v b1 i ! 0 = verified_id d ! i) \<and> verified_id d' = new_verified_id res
    \<and> decode_inv rot slots w' b' d' (extend_hist (seq_lens b) (block_size w) h hist)"
proof -
  let ?bs = "length (reqs b)" and ?n = "block_size w" and ?idx = "req_pool_indices b" and ?s = "seq_lens b" and ?p = "pool (mem b)" and ?ve = "verify_env_of e"
  obtain buf a' locs p v where prep: "prepare_for_speculative_decoding e ops w b d
      = Inr (w\<lparr>kv_buffer := buf\<rparr>, b\<lparr>input_ids := draft_token v, out_cache_loc := locs, mem := (mem b)\<lparr>kv := a', pool := p\<rparr>\<rparr>, d\<lparr>ctx_lens := map (\<lambda>_. 0) (ctx_lens d)\<rparr>, Some v)"
    and bf: "buffer_frame locs (kv_buffer w) buf" and al: "token_alloc (kv (mem b)) (?bs * ?n) = (a', Some locs)"
    and v: "draft_token_num v = ?n" "length (draft_token v) = ?bs * ?n" "\<forall>t\<in>set (draft_token v). 0 \<le> t \<and> t < int vocab"
    and v0: "\<forall>i<?bs. rows ?bs ?n (draft_token v) ! i ! 0 = verified_id d ! i" and tp: "table_extends ?p ?idx ?s (rows ?bs ?n locs) p"
    using prepare_run [OF inv st, of ops] by (elim exE conjE) (rule that)
  define b1 where "b1 = b\<lparr>input_ids := draft_token v, out_cache_loc := locs, mem := (mem b)\<lparr>kv := a', pool := p\<rparr>\<rparr>"
  have f1: "reqs b1 = reqs b" "batch_sampling_info b1 = batch_sampling_info b" "seq_lens b1 = ?s" "req_pool_indices b1 = ?idx" "out_cache_loc b1 = locs"
    "kv (mem b1) = a'" "pool (mem b1) = p" "is_idle b1 = is_idle b" by (simp_all add: b1_def)
  have i: "worker_ok rot slots w" "draft_window_size w = None" "draft_pool w = None" "worker_page_size w = 1" "0 < ?n" "\<not> is_idle b" "length ?idx = ?bs" "length ?s = ?bs"
    "distinct ?idx" "length (ctx_lens d) = ?bs" "token_ok (kv (mem b))" "page_size (kv (mem b)) = 1"
    using inv by (simp_all add: decode_inv_def)
  have tab: "?idx ! j < length (req_to_token ?p)" "?s ! j \<le> max_context_len ?p" if "j < ?bs" for j using inv that by (simp_all add: decode_inv_def)
  have avr: "0 \<le> x \<and> nat x < slots" if "x \<in># avail (kv (mem b))" for x using inv that by (simp add: decode_inv_def)
  have old: "0 \<le> req_to_token ?p ! (?idx ! j) ! q" "nat (req_to_token ?p ! (?idx ! j) ! q) < slots" "req_to_token ?p ! (?idx ! j) ! q \<notin># avail (kv (mem b))"
    if "j < ?bs" "q < ?s ! j" for j q using inv that by (simp_all add: decode_inv_def Let_def)
  have coh0: "draft_kv_coherent w ?p ?idx ?s hist" using inv by (simp add: decode_inv_def)
  have room: "?s ! j + ?n \<le> max_context_len ?p" "?s ! j + ?n \<le> length (cos_sin_cache rot)" if "j < ?bs" for j using st that i(8) by (simp_all add: step_ok_def)
  note fb = fresh_block [OF i(11) al]
  have ll: "length locs = ?bs * ?n" using token_alloc_Some(2) [OF al] .
  obtain logits lg h where tf: "target_forward e v b1 = (logits, Some h)" "adjusted_greedily ?ve v b1 logits lg" "length lg = ?bs * ?n" "\<forall>row\<in>set lg. length row = vocab"
    "length h = ?bs * ?n" and wh: "\<forall>x\<in>set h. length x = fc_in_features (draft_net w)"
    using st v(1) f1(1,2) unfolding step_ok_def target_pass_ok_def by blast
  have ne: "reqs b \<noteq> []" using st by (simp add: step_ok_def)
  have gb: "greedy_batch_ok ?ve v b1 logits lg vocab 1" using f1 i(5,6) tf ne v by (simp add: greedy_batch_ok_def)
  obtain b' res where vf: "verify ?ve v b1 logits (Some h) 1 = Inr (b', res)" using verify_greedy_run [OF gb, of h] by blast
  define cs where "cs = commit_lens res"
  have nid: "\<not> is_idle b1" using i(6) f1(8) by simp
  have cl: "length cs = ?bs" and cb: "\<And>j. j < ?bs \<Longrightarrow> 1 \<le> cs ! j \<and> cs ! j \<le> ?n" and sq: "seq_lens b' = map2 (+) ?s cs"
    using greedy_commits [OF gb vf] f1 v(1) by (simp_all add: cs_def)
  have cn: "c \<le> ?n" if "c \<in> set cs" for c using that cb cl by (auto simp: in_set_conv_nth)
  note vt = verify_table [OF vf nid]
  obtain freed where kf: "kv (mem b') = token_free a' freed" "out_cache_loc b' = concat (kept_rows cs ?n locs)" "mset (concat (kept_rows cs ?n locs)) + mset freed = mset locs"
    and nh: "next_target_hidden res = concat (kept_rows cs ?n h)" and nv: "length (new_verified_id res) = ?bs" "length (reqs b') = ?bs"
    using verify_slots [OF vf nid] f1 v(1) ll cl by (auto simp: cs_def)
  let ?K = "kept_rows cs ?n locs"
  have lK: "length locs = length cs * ?n" "length h = length cs * ?n" using ll tf(5) cl by simp_all
  note kr = kept_rows_lengths [OF lK(1) cn] and kh = kept_rows_lengths [OF lK(2) cn]
  have Kl: "length ?K = ?bs" "length (?K ! j) = cs ! j" if "j < ?bs" for j using kr(1) cl that by (metis length_map, metis nth_map length_map)
  have Kn: "length ?K = ?bs" using kr(1) cl by (metis length_map)
  have t2: "table_extends ?p ?idx ?s ?K (pool (mem b'))"
    unfolding vt(1) f1 kf(2)
    by (rule decode_table_extends [OF inv st tp Kn]) (use Kl(2) cb sq Kn cl i(8) in \<open>auto intro!: nth_equalityI\<close>)
  let ?d2 = "d\<lparr>ctx_lens := cs, verified_id := new_verified_id res, target_hidden := next_target_hidden res\<rparr>"
  have nid': "\<not> is_idle b'" "req_pool_indices b' = ?idx" using vt(2,3) nid f1(4) by simp_all
  have ds: "draft_seq_lens d = ?s" using inv by (simp add: decode_inv_def)
  from commit_append [OF inv st bf al cl cb t2 tf(5) wh nid'(2) sq nv(2) nid'(1) kf(1,3), of ?d2] nh ds nv(1)
  obtain w' d' where app: "append_target_hidden_to_draft_kv (kernels_of e) True (w\<lparr>kv_buffer := buf\<rparr>) b' ?d2 = Inr (w', b', d')"
    and vd: "verified_id d' = new_verified_id res" and inv': "decode_inv rot slots w' b' d' (extend_hist ?s ?n h hist)" by auto
  have d2: "d\<lparr>ctx_lens := map (\<lambda>_. 0) (ctx_lens d), verified_id := new_verified_id res, target_hidden := next_target_hidden res, ctx_lens := commit_lens res\<rparr> = ?d2"
    by (simp add: cs_def)
  have run: "forward_decode e ops w b d = Inr (w', b', d', \<lparr>next_token_ids = new_verified_id res,
        num_accepted_tokens = sum_list (accept_length_per_req res), accept_lengths = accept_length_per_req res\<rparr>)"
    using prep [folded b1_def] tf(1) vf app i(4) d2 by (simp add: forward_decode_def Let_def)
  have "\<forall>i<?bs. block_of v b1 i ! 0 = verified_id d ! i" using v0 v(1) f1(1) by (simp add: block_of_def)
  then show ?thesis using run tf(1) vf gb f1(1-3) v(1) vd inv' by blast
qed

text \<open>C2 A decode step of the worker succeeds and keeps the invariant between steps. Drafting borrows slots and gives them back, the block is
  verified greedily, between one token and a whole block is committed per request, rejected slots return to the allocator, and the draft
  cache again holds the keys and values of every committed position: its features are the old ones and, behind them, those of the target's
  verify pass. The invariant holds again, so this is true of every sequence of steps.\<close>

theorem decode_step_keeps_invariant:
  fixes b :: "'c batch"
  assumes "decode_inv rot slots w b d hist" "step_ok e rot w b d vocab"
  shows "\<exists>w' b' d' r v b1 logits h. forward_decode e ops w b d = Inr (w', b', d', r) \<and> target_forward e v b1 = (logits, Some h)
    \<and> decode_inv rot slots w' b' d' (extend_hist (seq_lens b) (block_size w) h hist) \<and> verified_id d' = next_token_ids r
    \<and> (\<forall>i<length (reqs b). seq_lens b ! i < seq_lens b' ! i \<and> seq_lens b' ! i \<le> seq_lens b ! i + block_size w)"
proof -
  from decode_run [OF assms, of ops] obtain w' b1 v logits lg h b' d' res where
    run: "forward_decode e ops w b d = Inr (w', b', d', \<lparr>next_token_ids = new_verified_id res,
        num_accepted_tokens = sum_list (accept_length_per_req res), accept_lengths = accept_length_per_req res\<rparr>)"
    and tf: "target_forward e v b1 = (logits, Some h)" and vf: "verify (verify_env_of e) v b1 logits (Some h) 1 = Inr (b', res)"
    and gb: "greedy_batch_ok (verify_env_of e) v b1 logits lg vocab 1" and f: "reqs b1 = reqs b" "seq_lens b1 = seq_lens b" "draft_token_num v = block_size w"
    and vd: "verified_id d' = new_verified_id res" and inv: "decode_inv rot slots w' b' d' (extend_hist (seq_lens b) (block_size w) h hist)" by (elim exE conjE) (rule that)
  have len: "length (seq_lens b) = length (reqs b)" using assms(1) by (simp add: decode_inv_def)
  note g = greedy_commits [OF gb vf, unfolded f]
  have "seq_lens b ! i < seq_lens b' ! i \<and> seq_lens b' ! i \<le> seq_lens b ! i + block_size w" if "i < length (reqs b)" for i
    using g(1,3) g(2) [OF that] that len by simp
  then show ?thesis using run tf inv vd by fastforce
qed

text \<open>The target's pass predicts, at every position of the block of request \<open>i\<close>, the token the target produces after the sequence and the
  block up to that position.\<close>

definition target_predicts :: "('c, 'w) worker_env \<Rightarrow> draft_worker \<Rightarrow> 'c batch \<Rightarrow> nat \<Rightarrow> (int list \<Rightarrow> int) \<Rightarrow> bool" where
  "target_predicts e w b i next \<longleftrightarrow> (\<forall>v b1 logits lg h j. target_forward e v b1 = (logits, Some h) \<longrightarrow> adjusted_greedily (verify_env_of e) v b1 logits lg
     \<longrightarrow> reqs b1 = reqs b \<longrightarrow> batch_sampling_info b1 = batch_sampling_info b \<longrightarrow> draft_token_num v = block_size w
     \<longrightarrow> length (draft_token v) = length (reqs b) * block_size w \<longrightarrow> j < block_size w
     \<longrightarrow> predictions_of v b1 lg i ! j = next (full_seq (reqs b ! i) @ slice 1 (j + 1) (block_of v b1 i)))"

text \<open>C1 Speculative decoding is lossless end to end: when the target's pass predicts, after every prefix of a block, the token the target
  would produce next, a decode step of the worker extends every request that goes on by exactly the tokens greedy decoding of the target
  gives, as many as the sequence grew, whatever was drafted; the step ends with the state the next one needs.\<close>

theorem decode_step_lossless:
  fixes b :: "'c batch"
  assumes "decode_inv rot slots w b d hist" "step_ok e rot w b d vocab" and i: "i < length (reqs b)"
    and cur: "verified_id d ! i = last (full_seq (reqs b ! i))" "full_seq (reqs b ! i) \<noteq> []"
    and forward: "target_predicts e w b i next"
  shows "\<exists>w' b' d' r hist'. forward_decode e ops w b d = Inr (w', b', d', r) \<and> decode_inv rot slots w' b' d' hist'
    \<and> seq_lens b ! i < seq_lens b' ! i \<and> verified_id d' ! i = last (full_seq (reqs b' ! i))
    \<and> (\<not> finished (reqs b' ! i) \<longrightarrow> full_seq (reqs b' ! i) = full_seq (reqs b ! i) @ greedy_decode next (full_seq (reqs b ! i)) (seq_lens b' ! i - seq_lens b ! i))"
proof -
  from decode_run [OF assms(1,2), of ops] obtain w' b1 v logits lg h b' d' res where
    run: "forward_decode e ops w b d = Inr (w', b', d', \<lparr>next_token_ids = new_verified_id res,
        num_accepted_tokens = sum_list (accept_length_per_req res), accept_lengths = accept_length_per_req res\<rparr>)"
    and tf: "target_forward e v b1 = (logits, Some h)" and vf: "verify (verify_env_of e) v b1 logits (Some h) 1 = Inr (b', res)"
    and gb: "greedy_batch_ok (verify_env_of e) v b1 logits lg vocab 1" and f: "reqs b1 = reqs b" "batch_sampling_info b1 = batch_sampling_info b" "seq_lens b1 = seq_lens b" "draft_token_num v = block_size w"
    and v0: "\<forall>i<length (reqs b). block_of v b1 i ! 0 = verified_id d ! i"
    and vd: "verified_id d' = new_verified_id res" and inv: "decode_inv rot slots w' b' d' (extend_hist (seq_lens b) (block_size w) h hist)" by (elim exE conjE) (rule that)
  have ag: "adjusted_greedily (verify_env_of e) v b1 logits lg" "length (draft_token v) = length (reqs b) * block_size w" using gb f by (simp_all add: greedy_batch_ok_def)
  have i1: "i < length (reqs b1)" and c1: "block_of v b1 i ! 0 = last (full_seq (reqs b1 ! i))" "full_seq (reqs b1 ! i) \<noteq> []" using i f(1) v0 cur by simp_all
  have fw: "\<forall>j<draft_token_num v. predictions_of v b1 lg i ! j = next (full_seq (reqs b1 ! i) @ slice 1 (j + 1) (block_of v b1 i))"
    using forward tf ag f unfolding target_predicts_def by simp
  from verify_greedy_row [OF gb i1 c1 fw, of h] vf have c: "1 \<le> commit_lens res ! i"
    and go: "\<not> finished (reqs b' ! i) \<longrightarrow> full_seq (reqs b' ! i) = full_seq (reqs b ! i) @ greedy_decode next (full_seq (reqs b ! i)) (commit_lens res ! i)"
    and nv: "new_verified_id res ! i = last (full_seq (reqs b' ! i))" using f(1) by auto
  have "length (seq_lens b) = length (reqs b)" using assms(1) by (simp add: decode_inv_def)
  then have "seq_lens b' ! i = seq_lens b ! i + commit_lens res ! i" using greedy_commits(1,3) [OF gb vf] f i by simp
  then show ?thesis using run inv vd go nv c by fastforce
qed

subsection \<open>The smaller parts of the worker\<close>

text \<open>However the draft pass ends, the allocator is as it was.\<close>

lemma draft_block_restores:
  fixes b :: "'c batch"
  assumes "worker_page_size w = 1"
  shows "kv (mem (fst (snd (draft_block e w b lens ids)))) = kv (mem b)"
proof -
  obtain a' locs where al: "token_alloc (kv (mem b)) (length (reqs b) * block_size w) = (a', locs)" by (metis surj_pair)
  have "alloc_block e w b lens = (a', Inr locs)" using assms al by (simp add: alloc_block_def Let_def)
  then show ?thesis using token_alloc_restore [OF al]
    by (auto simp: draft_block_def Let_def set_kv_def set_draft_table_def split: option.splits sum.splits prod.splits)
qed

text \<open>The mask token is a token of the target's vocabulary; a configured id agrees with the tokenizer.\<close>

lemma resolve_mask_token_id_spec:
  assumes "resolve_mask_token_id add_special convert vsize tok token token_id = Inr i" "\<And>k. token_id = Some k \<Longrightarrow> 0 \<le> k"
  shows "0 \<le> i \<and> i < int vsize \<and> (\<forall>k. token_id = Some k \<longrightarrow> i = k \<and> (\<forall>t. tok = Some t \<longrightarrow> map_of (tk_vocab t) token \<in> {None, Some k}))"
  using assms by (auto simp: resolve_mask_token_id_def Let_def split: if_splits option.splits)

text \<open>A tracked Mamba state is the one after the last token before the new multiple of the interval, and that token was committed.\<close>

lemma mamba_steps_spec:
  assumes "0 < interval" "i < length pre" "length commits = length pre" "mamba_steps interval pre (map2 (+) pre commits) commits ! i = (a, s)" "s \<noteq> -1"
  shows "a = int (commits ! i) - 1 \<and> 0 \<le> s \<and> s \<le> a \<and> int interval dvd int (pre ! i) + s + 1"
proof -
  let ?p = "pre ! i" and ?c = "commits ! i"
  let ?t = "(?p + ?c) div interval * interval"
  have z: "zip pre (zip (map2 (+) pre commits) commits) ! i = (?p, ?p + ?c, ?c)" using assms(2,3) by simp
  have e: "mamba_steps interval pre (map2 (+) pre commits) commits ! i = (int ?c - 1,
      if ?p div interval \<noteq> (?p + ?c) div interval \<and> max 0 (int ?t - int ?p - 1) < int ?c then max 0 (int ?t - int ?p - 1) else -1)"
    using assms(2,3) unfolding mamba_steps_def by (subst nth_map) (simp_all add: z Let_def)
  then have a: "a = int ?c - 1" and c: "?p div interval \<noteq> (?p + ?c) div interval" "max 0 (int ?t - int ?p - 1) < int ?c" and s: "s = max 0 (int ?t - int ?p - 1)"
    using assms(4,5) by (auto split: if_splits)
  have "?p div interval < (?p + ?c) div interval" using c(1) div_le_mono [of ?p "?p + ?c" interval] by linarith
  then have "?p < ?t" using assms(1) by (metis div_less_iff_less_mult)
  then have "int ?p < int ?t" by (simp only: of_nat_less_iff)
  moreover have "int ?p + max 0 (x - int ?p - 1) + 1 = x" if "int ?p < x" for x using that by simp
  ultimately have "int ?p + s + 1 = int ?t" unfolding s by blast
  moreover have "int interval dvd int ?t" by simp
  moreover have "0 \<le> s" "s \<le> a" using a c(2) s by simp_all
  ultimately show ?thesis using a by metis
qed

subsection \<open>A concrete decode step\<close>

definition example_head :: "real lm_head" where
  "example_head = \<lparr>weight = [0, 1, 0], shard = \<lparr>num_org_elements = 3, num_org_elements_padded = 3, num_added_elements = 0, org_vocab_start_index = 0, added_vocab_start_index = 3\<rparr>\<rparr>"

text \<open>A target that continues a sequence by alternating between 0 and 1.\<close>

definition example_next :: "int list \<Rightarrow> int" where
  "example_next xs = (last xs + 1) mod 2"

definition example_target :: "verify_input \<Rightarrow> unit batch \<Rightarrow> matrix \<times> real list list option" where
  "example_target v b = (map (\<lambda>j. if example_next (full_seq (reqs b ! 0) @ slice 1 (j + 1) (draft_token v)) = 0 then [1, 0, 0] else [0, 1, 0]) [0..<2], Some [[1], [2]])"

definition example_worker_env :: "(unit, real) worker_env" where
  "example_worker_env = \<lparr>kernels_of = example_kernels, verify_env_of = example_verify_env, mask_id = 2, lm_heads = Some [example_head],
     head_dot = (\<lambda>_ x. x), head_lowest = -1, target_backend = Backend ''FlashInferAttnBackend'' None,
     draft_forward = (\<lambda>ids pos locs p idx pre buf. Inr (buf, Some (map (\<lambda>_. [0]) locs))), target_forward = example_target\<rparr>"

definition example_ops :: "unit cache_ops" where
  "example_ops = \<lparr>cache_evict = (\<lambda>c a n. Inr (c, a)), is_chunk_cache = True, cache_finished = (\<lambda>m r f. Inr (m, r))\<rparr>"

definition example_entry :: kv_entry where
  "example_entry = projr (layer_kv (layers example_net ! 0) (projr (project_row example_net [1]), 0))"

definition example_decode_worker :: draft_worker where
  "example_decode_worker = (example_worker None)\<lparr>worker_page_size := 1, kv_buffer := [(replicate 8 ([], []))[3 := example_entry]]\<rparr>"

definition example_decode_batch :: "unit batch" where
  "example_decode_batch = example_batch\<lparr>seq_lens := [1], mem := \<lparr>cache = (), kv = (token_init 8 False)\<lparr>free_pages := [1, 2]\<rparr>,
     pool = \<lparr>req_to_token = [[3, 0, 0, 0, 0, 0, 0, 0]], max_context_len = 8, free_slots = []\<rparr>\<rparr>\<rparr>"

definition example_decode_draft :: "real list draft_input" where
  "example_decode_draft = \<lparr>verified_id = [0], target_hidden = [], ctx_lens = [0], draft_seq_lens = [1]\<rparr>"

lemma example_decode_fields:
  "reqs example_decode_batch = [example_req [1] [0]]" "seq_lens example_decode_batch = [1]" "req_pool_indices example_decode_batch = [0]"
  "is_idle example_decode_batch = False" "batch_sampling_info example_decode_batch = None"
  "kv (mem example_decode_batch) = (token_init 8 False)\<lparr>free_pages := [1, 2]\<rparr>"
  "pool (mem example_decode_batch) = \<lparr>req_to_token = [[3, 0, 0, 0, 0, 0, 0, 0]], max_context_len = 8, free_slots = []\<rparr>"
  "draft_net example_decode_worker = example_net" "block_size example_decode_worker = 2" "worker_page_size example_decode_worker = 1"
  "draft_window_size example_decode_worker = None" "draft_pool example_decode_worker = None"
  by (simp_all add: example_decode_batch_def example_batch_def example_decode_worker_def example_worker_def)

lemma example_decode_inv: "decode_inv example_rope 8 example_decode_worker example_decode_batch example_decode_draft (\<lambda>_ _. [1])"
proof -
  let ?w = "example_decode_worker" and ?l = "layers example_net ! 0"
  have w0: "worker_ok example_rope 8 (example_worker None)" by (rule example_shapes(1))
  have "worker_ok example_rope 8 ((example_worker None)\<lparr>kv_buffer := [(replicate 8 ([], []))[3 := example_entry]]\<rparr>)"
    by (rule worker_ok_buffer [OF w0]) (simp add: example_worker_def)
  then have w: "worker_ok example_rope 8 ?w" by (simp add: worker_ok_def example_decode_worker_def)
  have n: "draft_net (example_worker None) = example_net" by (simp add: example_worker_def)
  obtain y where y: "project_row example_net [1] = Inr y" using project_row_total [OF w0, of "[1]"] n by (auto simp: example_net_def)
  have "layer_shapes example_rope ?l" "rotary_ok example_rope" "int 0 < int (length (cos_sin_cache example_rope))"
    using w0 n by (simp_all add: worker_ok_def) (simp_all add: example_net_def example_rope_def)
  then obtain x where x: "layer_kv ?l (y, int 0) = Inr x" using layer_kv_total [of example_rope ?l 0 y] by auto
  have ex: "example_entry = x" using x y by (simp add: example_entry_def)
  have "scaled_value None sc = (\<lambda>v. v)" for sc by (simp add: scaled_value_def fun_eq_iff)
  then have "kv_value None ?l x = x" by (cases x) (simp add: kv_value_def)
  then have hold: "holds_kv ?w 0 3 [1] 0" unfolding holds_kv_def using x y ex
    by (intro exI [of _ y] exI [of _ x]) (simp add: example_decode_fields example_decode_worker_def example_worker_def)
  have one: "length (layers example_net) = 1" by (simp add: example_net_def)
  have coh: "draft_kv_coherent ?w (pool (mem example_decode_batch)) [0] [1] (\<lambda>_ _. [1])"
    using hold one by (simp add: draft_kv_coherent_def example_decode_fields)
  show ?thesis unfolding decode_inv_def using w coh
    by (simp add: example_decode_fields example_decode_draft_def uniform_def token_ok_def token_init_def token_clear_def avail_def simple_mset_def)
qed

lemma example_heads: "heads_ok (-1) (\<lambda>_ x. x) [example_head] hs" "owned example_head = [(0, 0), (1, 1), (2, 0)]"
  by (simp_all add: heads_ok_def head_ok_def owned_def example_head_def Let_def upt_rec numeral_eq_Suc)

lemma example_step_ok: "step_ok example_worker_env example_rope example_decode_worker example_decode_batch example_decode_draft 3"
proof -
  have d: "draft_pass_ok example_worker_env [example_head]"
    using example_heads(1) [where hs = "[0 :: real]"] by (simp add: draft_pass_ok_def example_worker_env_def buffer_frame_def)
  have t: "target_pass_ok example_worker_env example_decode_worker example_decode_batch 3"
    by (simp add: target_pass_ok_def example_worker_env_def example_target_def adjusted_greedily_def example_decode_fields example_net_def) auto
  show ?thesis unfolding step_ok_def using d t example_heads(2)
    by (simp add: example_decode_fields example_worker_env_def example_kernels_def example_decode_draft_def example_req_def token_alloc_def token_init_def token_clear_def example_rope_def)
qed

theorem decode_step_keeps_invariant_witness:
  "\<exists>w' b' d' r h. forward_decode example_worker_env example_ops example_decode_worker example_decode_batch example_decode_draft = Inr (w', b', d', r)
    \<and> decode_inv example_rope 8 w' b' d' (extend_hist [1] 2 h (\<lambda>_ _. [1])) \<and> 1 < seq_lens b' ! 0 \<and> seq_lens b' ! 0 \<le> 3"
proof -
  from decode_step_keeps_invariant [OF example_decode_inv example_step_ok, of example_ops, unfolded example_decode_fields] show ?thesis by fastforce
qed

theorem decode_step_lossless_witness:
  "\<exists>w' b' d' r. forward_decode example_worker_env example_ops example_decode_worker example_decode_batch example_decode_draft = Inr (w', b', d', r)
    \<and> (finished (reqs b' ! 0) \<or> full_seq (reqs b' ! 0) = [1, 0] @ greedy_decode example_next [1, 0] (seq_lens b' ! 0 - 1))"
proof -
  have fs: "full_seq (reqs example_decode_batch ! 0) = [1, 0]" by (simp add: example_decode_fields example_req_def full_seq_def)
  have nx: "example_next xs = 0 \<or> example_next xs = 1" for xs unfolding example_next_def by presburger
  have am: "torch_argmax [1, 0, 0] = 0" "torch_argmax [0, 1, 0] = 1" by (simp_all add: torch_argmax_def)
  have fw: "predictions_of v b1 lg 0 ! j = example_next (full_seq (reqs example_decode_batch ! 0) @ slice 1 (j + 1) (block_of v b1 0))"
    if t: "target_forward example_worker_env v b1 = (logits, Some h)" "adjusted_greedily (verify_env_of example_worker_env) v b1 logits lg" "reqs b1 = reqs example_decode_batch" "batch_sampling_info b1 = batch_sampling_info example_decode_batch"
      "draft_token_num v = block_size example_decode_worker" "length (draft_token v) = length (reqs example_decode_batch) * block_size example_decode_worker"
      "j < block_size example_decode_worker" for v b1 logits lg h j
  proof -
    have len: "length (draft_token v) = 2" "j < 2" "draft_token_num v = 2" and rq: "reqs b1 = [example_req [1] [0]]" using t(3,5,6,7) by (simp_all add: example_decode_fields)
    have lg: "lg = fst (example_target v b1)" using t(1,2,4) by (auto simp: adjusted_greedily_def example_decode_fields example_worker_env_def)
    have blk: "block_of v b1 0 = draft_token v" using len by (simp add: block_of_def rq)
    have pr: "predictions_of v b1 lg 0 = map torch_argmax lg" using len by (simp add: predictions_of_def rq lg example_target_def)
    have "lg ! j = (if example_next ([1, 0] @ slice 1 (j + 1) (draft_token v)) = 0 then [1, 0, 0] else [0, 1, 0])"
      using len(2) by (simp add: lg example_target_def rq full_seq_def example_req_def)
    moreover have "j < length lg" using len(2) by (simp add: lg example_target_def)
    ultimately have "predictions_of v b1 lg 0 ! j = example_next ([1, 0] @ slice 1 (j + 1) (draft_token v))" using nx [of "[1, 0] @ slice 1 (j + 1) (draft_token v)"] am by (auto simp: pr)
    then show ?thesis by (simp only: fs blk)
  qed
  have tp: "target_predicts example_worker_env example_decode_worker example_decode_batch 0 example_next"
    unfolding target_predicts_def by (intro allI impI) (rule fw)
  have c: "0 < length (reqs example_decode_batch)" "verified_id example_decode_draft ! 0 = last (full_seq (reqs example_decode_batch ! 0))" "full_seq (reqs example_decode_batch ! 0) \<noteq> []"
    using fs by (simp_all add: example_decode_fields example_decode_draft_def)
  from decode_step_lossless [OF example_decode_inv example_step_ok c tp, of example_ops] fs show ?thesis by (auto simp: example_decode_fields)
qed

end
