(* ===== verification/Overlap_Future.thy ===== *)
theory Overlap_Future
  imports Dflash_Info
begin

section \<open>Draft state and results that do not exist yet\<close>

text \<open>
  With overlap scheduling the next batch is put together before the previous forward pass has returned. Its inputs are indices into a
  circular buffer, \<^verbatim>\<open>FutureMap\<close> of \<^verbatim>\<open>srt/managers/overlap_utils.py\<close>: a batch takes indices when it is launched, its result is stored there,
  and the indices are resolved when the next batch is launched. This theory models the map and the draft state that carries the
  indices, \<^verbatim>\<open>DFlashDraftInputV2\<close> of \<^verbatim>\<open>srt/speculative/dflash_info_v2.py\<close>, with its filtering and merging.

  A hidden state is an element of type \<open>'h\<close>. Streams and events, which order the writes of the device, are not modelled: operations happen
  one after the other. \<open>future_mem\<close> holds the contents of uninitialised memory.
\<close>

record future_indices =
  indices :: "nat list"
  interval :: "(nat \<times> nat) option"

record 'h draft_input_v2 =
  topk_p :: "real list list"
  topk_index :: "int list list"
  v2_verified_id :: "int list"
  new_seq_lens :: "nat list"
  v2_hidden_states :: "'h list"
  max_top_k :: int
  uniform_top_k_value :: "int option"
  v2_future_indices :: "future_indices option"

definition create_idle_input :: "'h draft_input_v2" where
  "create_idle_input = \<lparr>topk_p = [], topk_index = [], v2_verified_id = [], new_seq_lens = [], v2_hidden_states = [], max_top_k = 1,
     uniform_top_k_value = None, v2_future_indices = None\<rparr>"

definition filter_batch_v2 :: "'h draft_input_v2 \<Rightarrow> nat list \<Rightarrow> 'h draft_input_v2 res" where
  "filter_batch_v2 d new_indices =
     (case v2_future_indices d of
        Some fi \<Rightarrow> rbind (gather (indices fi) new_indices) (\<lambda>is. Inr (d\<lparr>v2_future_indices := Some (fi\<lparr>indices := is\<rparr>)\<rparr>))
      | None \<Rightarrow>
          rbind (gather (topk_p d) new_indices) (\<lambda>tp.
          rbind (gather (topk_index d) new_indices) (\<lambda>ti.
          rbind (gather (v2_verified_id d) new_indices) (\<lambda>vi.
          rbind (gather (new_seq_lens d) new_indices) (\<lambda>ns.
          rbind (gather (v2_hidden_states d) new_indices) (\<lambda>hs.
          Inr (d\<lparr>topk_p := tp, topk_index := ti, v2_verified_id := vi, new_seq_lens := ns, v2_hidden_states := hs\<rparr>)))))))"

definition merge_batch_v2 :: "'h draft_input_v2 \<Rightarrow> 'h draft_input_v2 \<Rightarrow> 'h draft_input_v2 res" where
  "merge_batch_v2 d e =
     (case v2_future_indices d of
        Some fi \<Rightarrow> (case v2_future_indices e of
            None \<Rightarrow> Inl AssertionError
          | Some fj \<Rightarrow> Inr (d\<lparr>v2_future_indices := Some \<lparr>indices = indices fi @ indices fj, interval = None\<rparr>\<rparr>))
      | None \<Rightarrow> Inr (d\<lparr>topk_p := topk_p d @ topk_p e, topk_index := topk_index d @ topk_index e, v2_verified_id := v2_verified_id d @ v2_verified_id e,
                       new_seq_lens := new_seq_lens d @ new_seq_lens e, v2_hidden_states := v2_hidden_states d @ v2_hidden_states e\<rparr>))"

subsection \<open>The map of futures\<close>

record 'h future_bufs =
  topk_p_buf :: "real list list"
  topk_index_buf :: "int list list"
  verified_id_buf :: "int list"
  new_seq_lens_buf :: "nat list"
  hidden_states_buf :: "'h list"

record 'h future_map =
  future_ct :: nat
  future_limit :: nat
  future_buffer_len :: nat
  is_spec :: bool
  needs_hidden :: bool
  token_ids_buf :: "int list"
  spec_bufs :: "'h future_bufs option"

record 'h future_mem =
  g_token :: "nat \<Rightarrow> int"
  g_topk_p :: "nat \<Rightarrow> real list"
  g_topk_index :: "nat \<Rightarrow> int list"
  g_seq_len :: "nat \<Rightarrow> nat"
  g_hidden :: "nat \<Rightarrow> 'h"

text \<open>\<open>chunked\<close> is \<^verbatim>\<open>chunked_prefill_size\<close>, which the scheduler sets to \<^verbatim>\<open>None\<close> unless it is positive.\<close>

definition future_map_init :: "'h future_mem \<Rightarrow> nat \<Rightarrow> nat option \<Rightarrow> nat \<Rightarrow> bool \<Rightarrow> bool \<Rightarrow> 'h future_map" where
  "future_map_init g max_running chunked context_len spec need_hidden =
     (let max_num_chunks = (case chunked of None \<Rightarrow> 0 | Some c \<Rightarrow> if c = 0 then 0 else (context_len + c - 1) div c);
          limit = max_running * (3 + max_num_chunks); n = limit + 2 * max_running
      in \<lparr>future_ct = 0, future_limit = limit, future_buffer_len = n, is_spec = spec, needs_hidden = need_hidden,
          token_ids_buf = (if spec then [] else map (g_token g) [0..<n]), spec_bufs = None\<rparr>)"

definition lazy_init_buf :: "'h future_mem \<Rightarrow> 'h draft_input_v2 \<Rightarrow> 'h future_map \<Rightarrow> 'h future_bufs res" where
  "lazy_init_buf g d fm =
     (if topk_p d = [] \<or> topk_index d = [] \<or> v2_verified_id d = [] \<or> new_seq_lens d = [] \<or> needs_hidden fm \<and> v2_hidden_states d = [] then Inl IndexError
      else let n = future_buffer_len fm in
        Inr \<lparr>topk_p_buf = map (g_topk_p g) [0..<n], topk_index_buf = map (g_topk_index g) [0..<n], verified_id_buf = map (g_token g) [0..<n],
             new_seq_lens_buf = map (g_seq_len g) [0..<n], hidden_states_buf = (if needs_hidden fm then map (g_hidden g) [0..<n] else [])\<rparr>)"

definition alloc_future_indices :: "'h future_map \<Rightarrow> nat \<Rightarrow> ('h future_map \<times> future_indices) res" where
  "alloc_future_indices fm bs =
     (let cur = future_ct fm in
      if future_limit fm = 0 then Inl ZeroDivisionError
      else Inr (fm\<lparr>future_ct := (cur + bs) mod future_limit fm\<rparr>, \<lparr>indices = [cur + 1..<cur + 1 + bs], interval = Some (cur + 1, cur + 1 + bs)\<rparr>))"

text \<open>\<^verbatim>\<open>buf[a:b] = vs\<close>: the slice is cut at the end of the buffer, a single row is broadcast.\<close>

definition slice_assign :: "'a list \<Rightarrow> nat \<times> nat \<Rightarrow> 'a list \<Rightarrow> 'a list res" where
  "slice_assign buf ab vs =
     (case ab of (a, b) \<Rightarrow> let n = min b (length buf) - min a (length buf) in
        if length vs = n then Inr (store a vs buf)
        else if length vs = 1 then Inr (store a (replicate n (vs ! 0)) buf)
        else Inl RuntimeError)"

definition is_empty_slice :: "'h future_map \<Rightarrow> nat \<times> nat \<Rightarrow> bool" where
  "is_empty_slice fm ab = (case ab of (a, b) \<Rightarrow> min b (future_buffer_len fm) \<le> min a (future_buffer_len fm))"

definition store_to_map_for_new_batch :: "'h future_mem \<Rightarrow> 'h future_map \<Rightarrow> nat \<times> nat \<Rightarrow> 'h draft_input_v2 \<Rightarrow> 'h future_map res" where
  "store_to_map_for_new_batch g fm intv d =
     (if is_empty_slice fm intv then Inr fm
      else rbind (case spec_bufs fm of None \<Rightarrow> lazy_init_buf g d fm | Some bs \<Rightarrow> Inr bs) (\<lambda>bs.
        rbind (slice_assign (topk_p_buf bs) intv (topk_p d)) (\<lambda>tp.
        rbind (slice_assign (topk_index_buf bs) intv (topk_index d)) (\<lambda>ti.
        rbind (slice_assign (verified_id_buf bs) intv (v2_verified_id d)) (\<lambda>vi.
        rbind (slice_assign (new_seq_lens_buf bs) intv (new_seq_lens d)) (\<lambda>ns.
        rbind (if needs_hidden fm then slice_assign (hidden_states_buf bs) intv (v2_hidden_states d) else Inr (hidden_states_buf bs)) (\<lambda>hs.
        Inr (fm\<lparr>spec_bufs := Some \<lparr>topk_p_buf = tp, topk_index_buf = ti, verified_id_buf = vi, new_seq_lens_buf = ns, hidden_states_buf = hs\<rparr>\<rparr>))))))))"

text \<open>The result of a batch: token ids without speculation, a draft state with it.\<close>

definition store_to_map :: "'h future_mem \<Rightarrow> 'h future_map \<Rightarrow> nat \<times> nat \<Rightarrow> int list \<Rightarrow> 'h draft_input_v2 \<Rightarrow> 'h future_map res" where
  "store_to_map g fm intv next_ids next_draft =
     (if \<not> is_spec fm then rbind (slice_assign (token_ids_buf fm) intv next_ids) (\<lambda>buf. Inr (fm\<lparr>token_ids_buf := buf\<rparr>))
      else store_to_map_for_new_batch g fm intv next_draft)"

definition resolve_future_token_ids :: "int list \<Rightarrow> int list \<Rightarrow> int list res" where
  "resolve_future_token_ids ids future_map =
     rbind (gather future_map (map (\<lambda>x. nat (max (- x) 0)) ids)) (\<lambda>vals. Inr (map2 (\<lambda>x v. if x < 0 then v else x) ids vals))"

definition resolve_future :: "'h future_map \<Rightarrow> int list \<Rightarrow> 'h draft_input_v2 option \<Rightarrow> (int list \<times> 'h draft_input_v2 option) res" where
  "resolve_future fm ids spec_info =
     (if \<not> is_spec fm then rbind (resolve_future_token_ids ids (token_ids_buf fm)) (\<lambda>xs. Inr (xs, spec_info))
      else case spec_info of
        None \<Rightarrow> Inr (ids, None)
      | Some d \<Rightarrow> (case (v2_future_indices d, spec_bufs fm) of
          (Some fi, Some bs) \<Rightarrow>
            rbind (gather (topk_p_buf bs) (indices fi)) (\<lambda>tp.
            rbind (gather (topk_index_buf bs) (indices fi)) (\<lambda>ti.
            rbind (gather (verified_id_buf bs) (indices fi)) (\<lambda>vi.
            rbind (gather (new_seq_lens_buf bs) (indices fi)) (\<lambda>ns.
            rbind (if needs_hidden fm then gather (hidden_states_buf bs) (indices fi) else Inr (v2_hidden_states d)) (\<lambda>hs.
            Inr (ids, Some (d\<lparr>topk_p := tp, topk_index := ti, v2_verified_id := vi, new_seq_lens := ns, v2_hidden_states := hs\<rparr>)))))))
        | _ \<Rightarrow> Inl AttributeError))"

text \<open>One launched batch as the scheduler handles it (\<^verbatim>\<open>run_batch\<close>): indices are taken, the result is stored.\<close>

definition launch :: "'h future_mem \<Rightarrow> 'h future_map \<Rightarrow> 'h draft_input_v2 \<Rightarrow> 'h future_map res" where
  "launch g fm d = rbind (alloc_future_indices fm (length (v2_verified_id d))) (\<lambda>(fm1, fi).
     store_to_map_for_new_batch g fm1 (the (interval fi)) d)"


section \<open>Futures are resolved to what was stored\<close>

text \<open>A buffer holds the rows \<open>vs\<close> behind the position \<open>a\<close>.\<close>

definition holds_at :: "'a list \<Rightarrow> nat \<Rightarrow> 'a list \<Rightarrow> bool" where
  "holds_at buf a vs \<longleftrightarrow> a + 1 + length vs \<le> length buf \<and> (\<forall>j<length vs. buf ! (a + 1 + j) = vs ! j)"

lemma slice_assign_run: "a + 1 + length vs \<le> length buf \<Longrightarrow> slice_assign buf (a + 1, a + 1 + length vs) vs = Inr (store (a + 1) vs buf)"
  by (simp add: slice_assign_def)

lemma store_holds: "a + 1 + length vs \<le> length buf \<Longrightarrow> holds_at (store (a + 1) vs buf) a vs"
  by (simp add: holds_at_def store_def)

lemma store_keeps: "holds_at buf a us \<Longrightarrow> a + length us \<le> c \<or> c + length vs \<le> a \<Longrightarrow> holds_at (store (c + 1) vs buf) a us"
  by (auto simp: holds_at_def store_def)

lemma gather_holds:
  assumes "holds_at buf a vs" "\<And>k. k \<in> set keep \<Longrightarrow> k < length vs"
  shows "gather buf (map (\<lambda>k. a + 1 + k) keep) = Inr (map ((!) vs) keep)"
  using assms by (fastforce simp: gather_def holds_at_def)

definition draft_shape :: "nat \<Rightarrow> 'h draft_input_v2 \<Rightarrow> bool" where
  "draft_shape n d \<longleftrightarrow> length (topk_p d) = n \<and> length (topk_index d) = n \<and> length (v2_verified_id d) = n \<and> length (new_seq_lens d) = n \<and> length (v2_hidden_states d) = n"

definition bufs_len :: "'h future_map \<Rightarrow> 'h future_bufs \<Rightarrow> bool" where
  "bufs_len fm bs \<longleftrightarrow> length (topk_p_buf bs) = future_buffer_len fm \<and> length (topk_index_buf bs) = future_buffer_len fm
     \<and> length (verified_id_buf bs) = future_buffer_len fm \<and> length (new_seq_lens_buf bs) = future_buffer_len fm
     \<and> (needs_hidden fm \<longrightarrow> length (hidden_states_buf bs) = future_buffer_len fm)"

definition bufs_hold :: "bool \<Rightarrow> 'h future_bufs \<Rightarrow> nat \<Rightarrow> 'h draft_input_v2 \<Rightarrow> bool" where
  "bufs_hold need bs a d \<longleftrightarrow> holds_at (topk_p_buf bs) a (topk_p d) \<and> holds_at (topk_index_buf bs) a (topk_index d)
     \<and> holds_at (verified_id_buf bs) a (v2_verified_id d) \<and> holds_at (new_seq_lens_buf bs) a (new_seq_lens d)
     \<and> (need \<longrightarrow> holds_at (hidden_states_buf bs) a (v2_hidden_states d))"

text \<open>What the map keeps for batches of at most \<open>2 * M\<close> requests.\<close>

definition future_ok :: "nat \<Rightarrow> 'h future_map \<Rightarrow> bool" where
  "future_ok M fm \<longleftrightarrow> is_spec fm \<and> future_ct fm < future_limit fm \<and> future_buffer_len fm = future_limit fm + 2 * M \<and> (\<forall>bs. spec_bufs fm = Some bs \<longrightarrow> bufs_len fm bs)"

lemma store_run:
  fixes fm :: "'h future_map"
  assumes d: "draft_shape n d" "0 < n" and room: "c + 1 + n \<le> future_buffer_len fm" and bl: "\<And>bs. spec_bufs fm = Some bs \<Longrightarrow> bufs_len fm bs"
  shows "\<exists>bs'. store_to_map_for_new_batch g fm (c + 1, c + 1 + n) d = Inr (fm\<lparr>spec_bufs := Some bs'\<rparr>) \<and> bufs_len fm bs' \<and> bufs_hold (needs_hidden fm) bs' c d
    \<and> (\<forall>bs a m e. spec_bufs fm = Some bs \<longrightarrow> draft_shape m e \<longrightarrow> bufs_hold (needs_hidden fm) bs a e \<longrightarrow> a + m \<le> c \<or> c + n \<le> a \<longrightarrow> bufs_hold (needs_hidden fm) bs' a e)"
proof -
  have ne: "topk_p d \<noteq> []" "topk_index d \<noteq> []" "v2_verified_id d \<noteq> []" "new_seq_lens d \<noteq> []" "v2_hidden_states d \<noteq> []"
    using d by (auto simp: draft_shape_def)
  have "\<exists>bs. (case spec_bufs fm of None \<Rightarrow> lazy_init_buf g d fm | Some bs \<Rightarrow> Inr bs) = Inr bs \<and> bufs_len fm bs \<and> (\<forall>bs0. spec_bufs fm = Some bs0 \<longrightarrow> bs0 = bs)"
    using ne bl by (cases "spec_bufs fm") (simp_all add: lazy_init_buf_def bufs_len_def Let_def)
  then obtain bs where b0: "(case spec_bufs fm of None \<Rightarrow> lazy_init_buf g d fm | Some bs \<Rightarrow> Inr bs) = Inr bs" and b: "bufs_len fm bs"
    and same: "\<And>bs0. spec_bufs fm = Some bs0 \<Longrightarrow> bs0 = bs" by blast
  have l: "length (topk_p d) = n" "length (topk_index d) = n" "length (v2_verified_id d) = n" "length (new_seq_lens d) = n" "length (v2_hidden_states d) = n"
    using d(1) by (simp_all add: draft_shape_def)
  have bb: "length (topk_p_buf bs) = future_buffer_len fm" "length (topk_index_buf bs) = future_buffer_len fm" "length (verified_id_buf bs) = future_buffer_len fm"
    "length (new_seq_lens_buf bs) = future_buffer_len fm" "needs_hidden fm \<Longrightarrow> length (hidden_states_buf bs) = future_buffer_len fm"
    using b by (simp_all add: bufs_len_def)
  have sa: "slice_assign buf (c + 1, c + 1 + n) vs = Inr (store (c + 1) vs buf)" if "length buf = future_buffer_len fm" "length vs = n" for buf :: "'b list" and vs
    using slice_assign_run [of c vs buf] that room by simp
  let ?bs' = "\<lparr>topk_p_buf = store (c + 1) (topk_p d) (topk_p_buf bs), topk_index_buf = store (c + 1) (topk_index d) (topk_index_buf bs),
      verified_id_buf = store (c + 1) (v2_verified_id d) (verified_id_buf bs), new_seq_lens_buf = store (c + 1) (new_seq_lens d) (new_seq_lens_buf bs),
      hidden_states_buf = (if needs_hidden fm then store (c + 1) (v2_hidden_states d) (hidden_states_buf bs) else hidden_states_buf bs)\<rparr>"
  have e: "\<not> is_empty_slice fm (c + 1, c + 1 + n)" using room d(2) by (simp add: is_empty_slice_def)
  have hid: "(if needs_hidden fm then slice_assign (hidden_states_buf bs) (c + 1, c + 1 + n) (v2_hidden_states d) else Inr (hidden_states_buf bs))
      = Inr (if needs_hidden fm then store (c + 1) (v2_hidden_states d) (hidden_states_buf bs) else hidden_states_buf bs)"
    using sa [OF bb(5) l(5)] by simp
  have run: "store_to_map_for_new_batch g fm (c + 1, c + 1 + n) d = Inr (fm\<lparr>spec_bufs := Some ?bs'\<rparr>)"
    unfolding store_to_map_for_new_batch_def if_not_P [OF e] b0 rbind_Inr sa [OF bb(1) l(1)] sa [OF bb(2) l(2)] sa [OF bb(3) l(3)] sa [OF bb(4) l(4)] hid by (rule refl)
  have len: "bufs_len fm ?bs'" using bb by (simp add: bufs_len_def)
  have hold: "bufs_hold (needs_hidden fm) ?bs' c d" using bb l room by (simp add: bufs_hold_def store_holds [unfolded Suc_eq_plus1 [symmetric]])
  have keep: "bufs_hold (needs_hidden fm) ?bs' a x" if "spec_bufs fm = Some bs1" "draft_shape m x" "bufs_hold (needs_hidden fm) bs1 a x" "a + m \<le> c \<or> c + n \<le> a" for bs1 a m x
  proof -
    have "bufs_hold (needs_hidden fm) bs a x" using that(1,3) same by blast
    then show ?thesis using that(2,4) l unfolding bufs_hold_def draft_shape_def by (auto intro!: store_keeps [unfolded Suc_eq_plus1 [symmetric]])
  qed
  show ?thesis using run len hold keep by blast
qed

text \<open>An interval taken later does not meet an earlier one while the buffer has not gone round once.\<close>

lemma intervals_apart:
  fixes a u :: nat
  assumes "a < limit" "n \<le> u" "u + m \<le> limit"
  shows "a + n \<le> (a + u) mod limit \<or> (a + u) mod limit + m \<le> a"
proof (cases "a + u < limit")
  case True
  then show ?thesis using assms by simp
next
  case False
  then have "(a + u) mod limit = a + u - limit" using assms by (simp add: mod_if)
  then show ?thesis using assms False by linarith
qed

lemma launch_keeps:
  assumes ok: "future_ok M fm" and d: "draft_shape n d" "n \<le> 2 * M"
  shows "\<exists>fm'. launch g fm d = Inr fm' \<and> future_ok M fm' \<and> future_ct fm' = (future_ct fm + n) mod future_limit fm \<and> future_limit fm' = future_limit fm
    \<and> needs_hidden fm' = needs_hidden fm \<and> (0 < n \<longrightarrow> (\<exists>bs'. spec_bufs fm' = Some bs' \<and> bufs_hold (needs_hidden fm) bs' (future_ct fm) d))
    \<and> (\<forall>bs a m e. spec_bufs fm = Some bs \<longrightarrow> draft_shape m e \<longrightarrow> bufs_hold (needs_hidden fm) bs a e \<longrightarrow> a + m \<le> future_ct fm \<or> future_ct fm + n \<le> a
        \<longrightarrow> (\<exists>bs'. spec_bufs fm' = Some bs' \<and> bufs_hold (needs_hidden fm) bs' a e))"
proof -
  have o: "is_spec fm" "future_ct fm < future_limit fm" "future_buffer_len fm = future_limit fm + 2 * M" "\<And>bs. spec_bufs fm = Some bs \<Longrightarrow> bufs_len fm bs"
    using ok by (simp_all add: future_ok_def)
  let ?fm1 = "fm\<lparr>future_ct := (future_ct fm + n) mod future_limit fm\<rparr>"
  have al: "launch g fm d = store_to_map_for_new_batch g ?fm1 (future_ct fm + 1, future_ct fm + 1 + n) d"
    using o(2) d(1) by (simp add: launch_def alloc_future_indices_def draft_shape_def Let_def)
  have lt: "(future_ct fm + n) mod future_limit fm < future_limit fm" using o(2) by simp
  show ?thesis
  proof (cases "n = 0")
    case True
    then have "launch g fm d = Inr ?fm1" unfolding al by (simp add: store_to_map_for_new_batch_def is_empty_slice_def)
    then show ?thesis using True o lt by (intro exI [of _ ?fm1]) (simp add: future_ok_def bufs_len_def)
  next
    case False
    have room: "future_ct fm + 1 + n \<le> future_buffer_len ?fm1" using o(2,3) d(2) by simp
    have bl: "bufs_len ?fm1 bs" if "spec_bufs ?fm1 = Some bs" for bs using o(4) that by (simp add: bufs_len_def)
    from store_run [OF d(1) _ room bl, of g] False obtain bs' where
      run: "store_to_map_for_new_batch g ?fm1 (future_ct fm + 1, future_ct fm + 1 + n) d = Inr (?fm1\<lparr>spec_bufs := Some bs'\<rparr>)"
      and len: "bufs_len ?fm1 bs'" and hold: "bufs_hold (needs_hidden fm) bs' (future_ct fm) d"
      and keep: "\<forall>bs a m e. spec_bufs fm = Some bs \<longrightarrow> draft_shape m e \<longrightarrow> bufs_hold (needs_hidden fm) bs a e \<longrightarrow> a + m \<le> future_ct fm \<or> future_ct fm + n \<le> a \<longrightarrow> bufs_hold (needs_hidden fm) bs' a e"
      by auto
    have "future_ok M (?fm1\<lparr>spec_bufs := Some bs'\<rparr>)" using o lt len by (simp add: future_ok_def bufs_len_def)
    then show ?thesis using run hold keep unfolding al by (intro exI [of _ "?fm1\<lparr>spec_bufs := Some bs'\<rparr>"]) auto
  qed
qed

lemma launches_keep:
  assumes ok: "future_ok M fm" and ds: "\<And>d. d \<in> set ds \<Longrightarrow> draft_shape (length (v2_verified_id d)) d \<and> length (v2_verified_id d) \<le> 2 * M"
    and e: "draft_shape n e" "spec_bufs fm = Some bs" "bufs_hold (needs_hidden fm) bs a e" and a: "a < future_limit fm" "future_ct fm = (a + u) mod future_limit fm" "n \<le> u"
    and sum: "u + (\<Sum>d\<leftarrow>ds. length (v2_verified_id d)) \<le> future_limit fm"
  shows "\<exists>fm' bs'. rfold (launch g) fm ds = Inr fm' \<and> future_ok M fm' \<and> needs_hidden fm' = needs_hidden fm \<and> spec_bufs fm' = Some bs' \<and> bufs_hold (needs_hidden fm) bs' a e"
  using assms
proof (induction ds arbitrary: fm bs u)
  case Nil
  then show ?case by simp
next
  case (Cons d ds)
  let ?m = "length (v2_verified_id d)"
  have d: "draft_shape ?m d" "?m \<le> 2 * M" using Cons.prems(2) [of d] by simp_all
  have le: "u + ?m \<le> future_limit fm" using Cons.prems(9) by simp
  have ap: "a + n \<le> future_ct fm \<or> future_ct fm + ?m \<le> a" using intervals_apart [OF Cons.prems(6,8) le] Cons.prems(7) by simp
  from launch_keeps [OF Cons.prems(1) d, of g] obtain fm1 where f: "launch g fm d = Inr fm1" "future_ok M fm1" "future_ct fm1 = (future_ct fm + ?m) mod future_limit fm"
    "future_limit fm1 = future_limit fm" "needs_hidden fm1 = needs_hidden fm"
    and keep: "\<forall>bs a m e. spec_bufs fm = Some bs \<longrightarrow> draft_shape m e \<longrightarrow> bufs_hold (needs_hidden fm) bs a e \<longrightarrow> a + m \<le> future_ct fm \<or> future_ct fm + ?m \<le> a
        \<longrightarrow> (\<exists>bs'. spec_bufs fm1 = Some bs' \<and> bufs_hold (needs_hidden fm) bs' a e)" by (elim exE conjE) (rule that)
  from keep [rule_format, OF Cons.prems(4,3,5) ap] obtain bs1 where bs1: "spec_bufs fm1 = Some bs1" "bufs_hold (needs_hidden fm1) bs1 a e"
    by (elim exE conjE) (rule that, simp_all only: f(5))
  have ct: "future_ct fm1 = (a + (u + ?m)) mod future_limit fm1" using f(3,4) Cons.prems(7) by (simp add: mod_add_left_eq add.assoc)
  have "\<exists>fm' bs'. rfold (launch g) fm1 ds = Inr fm' \<and> future_ok M fm' \<and> needs_hidden fm' = needs_hidden fm1 \<and> spec_bufs fm' = Some bs' \<and> bufs_hold (needs_hidden fm1) bs' a e"
    by (rule Cons.IH [OF f(2) _ Cons.prems(3) bs1 _ ct]) (use Cons.prems f(4) in auto)
  then show ?case using f(1,5) by auto
qed


text \<open>Futures resolve to the stored results: a batch takes indices and stores its draft state, further batches are launched, of at most
  \<open>future_limit\<close> requests together with it. Whatever requests of the batch are then kept, resolving the kept indices
  yields exactly their verified tokens, sequence lengths and hidden states. No launch fails, and the map stays well formed.\<close>

theorem future_map_round_trip:
  fixes fm :: "'h future_map"
  assumes ok: "future_ok M fm" and d: "draft_shape n d" "0 < n" "n \<le> 2 * M"
    and ds: "\<forall>x\<in>set ds. draft_shape (length (v2_verified_id x)) x \<and> length (v2_verified_id x) \<le> 2 * M"
    and sum: "n + (\<Sum>x\<leftarrow>ds. length (v2_verified_id x)) \<le> future_limit fm" and keep: "\<forall>k\<in>set keep. k < n"
  shows "\<exists>fm1 fi fm2 fm3 y z. alloc_future_indices fm n = Inr (fm1, fi) \<and> store_to_map_for_new_batch g fm1 (the (interval fi)) d = Inr fm2
    \<and> rfold (launch g) fm2 ds = Inr fm3 \<and> future_ok M fm3
    \<and> filter_batch_v2 (x\<lparr>v2_future_indices := Some fi\<rparr>) keep = Inr y \<and> resolve_future fm3 ids (Some y) = Inr (ids, Some z)
    \<and> v2_verified_id z = map ((!) (v2_verified_id d)) keep \<and> new_seq_lens z = map ((!) (new_seq_lens d)) keep
    \<and> topk_p z = map ((!) (topk_p d)) keep \<and> topk_index z = map ((!) (topk_index d)) keep
    \<and> (needs_hidden fm \<longrightarrow> v2_hidden_states z = map ((!) (v2_hidden_states d)) keep)"
proof -
  let ?a = "future_ct fm" and ?fi = "\<lparr>indices = [future_ct fm + 1..<future_ct fm + 1 + n], interval = Some (future_ct fm + 1, future_ct fm + 1 + n)\<rparr>"
  let ?fm1 = "fm\<lparr>future_ct := (future_ct fm + n) mod future_limit fm\<rparr>"
  have a: "?a < future_limit fm" using ok by (simp add: future_ok_def)
  have al: "alloc_future_indices fm n = Inr (?fm1, ?fi)" using a by (simp add: alloc_future_indices_def Let_def)
  from launch_keeps [OF ok d(1,3), of g] obtain fm2 bs where l: "launch g fm d = Inr fm2" "future_ok M fm2" "future_ct fm2 = (?a + n) mod future_limit fm2"
    "future_limit fm2 = future_limit fm" "needs_hidden fm2 = needs_hidden fm" "spec_bufs fm2 = Some bs" "bufs_hold (needs_hidden fm2) bs ?a d" using d(2) by auto
  have st: "store_to_map_for_new_batch g ?fm1 (the (interval ?fi)) d = Inr fm2"
    using l(1) al d(1) by (simp add: launch_def draft_shape_def)
  have "\<exists>fm' bs'. rfold (launch g) fm2 ds = Inr fm' \<and> future_ok M fm' \<and> needs_hidden fm' = needs_hidden fm2 \<and> spec_bufs fm' = Some bs' \<and> bufs_hold (needs_hidden fm2) bs' ?a d"
    by (rule launches_keep [OF l(2) _ d(1) l(6,7) _ l(3) order_refl]) (use ds a l(4) sum in auto)
  then obtain fm3 bs' where r: "rfold (launch g) fm2 ds = Inr fm3" "future_ok M fm3" "needs_hidden fm3 = needs_hidden fm" "spec_bufs fm3 = Some bs'" "bufs_hold (needs_hidden fm) bs' ?a d"
    using l(5) by auto
  define ks where "ks = map (\<lambda>k. ?a + 1 + k) keep"
  have gi: "gather (indices ?fi) keep = Inr ks"
  proof -
    have "k < length [?a + 1..<?a + 1 + n]" if "k \<in> set keep" for k using keep that by (simp del: upt_Suc)
    moreover have "map ((!) [?a + 1..<?a + 1 + n]) keep = ks" unfolding ks_def by (rule map_cong [OF refl]) (use keep in \<open>simp del: upt_Suc\<close>)
    ultimately show ?thesis by (simp add: gather_def del: upt_Suc)
  qed
  let ?y = "x\<lparr>v2_future_indices := Some (?fi\<lparr>indices := ks\<rparr>)\<rparr>"
  have fl: "filter_batch_v2 (x\<lparr>v2_future_indices := Some ?fi\<rparr>) keep = Inr ?y" using gi by (simp add: filter_batch_v2_def del: upt_Suc)
  have len: "length (topk_p d) = n" "length (topk_index d) = n" "length (v2_verified_id d) = n" "length (new_seq_lens d) = n" "length (v2_hidden_states d) = n"
    using d(1) by (simp_all add: draft_shape_def)
  have h: "holds_at (topk_p_buf bs') ?a (topk_p d)" "holds_at (topk_index_buf bs') ?a (topk_index d)" "holds_at (verified_id_buf bs') ?a (v2_verified_id d)"
    "holds_at (new_seq_lens_buf bs') ?a (new_seq_lens d)" "needs_hidden fm \<Longrightarrow> holds_at (hidden_states_buf bs') ?a (v2_hidden_states d)"
    using r(5) by (simp_all add: bufs_hold_def)
  have gh: "gather buf ks = Inr (map ((!) vs) keep)" if "holds_at buf ?a vs" "length vs = n" for buf vs :: "'z list"
    unfolding ks_def by (rule gather_holds [OF that(1)]) (use keep that(2) in simp)
  define hs where "hs = (if needs_hidden fm then map ((!) (v2_hidden_states d)) keep else v2_hidden_states x)"
  let ?z = "?y\<lparr>topk_p := map ((!) (topk_p d)) keep, topk_index := map ((!) (topk_index d)) keep, v2_verified_id := map ((!) (v2_verified_id d)) keep,
      new_seq_lens := map ((!) (new_seq_lens d)) keep, v2_hidden_states := hs\<rparr>"
  have hs: "(if needs_hidden fm3 then gather (hidden_states_buf bs') ks else Inr (v2_hidden_states x)) = Inr hs"
    using gh [OF h(5) len(5)] r(3) by (simp add: hs_def)
  have sp: "is_spec fm3" using r(2) by (simp add: future_ok_def)
  have "resolve_future fm3 ids (Some ?y) = Inr (ids, Some ?z)"
    unfolding resolve_future_def using sp r(4) gh [OF h(1) len(1)] gh [OF h(2) len(2)] gh [OF h(3) len(3)] gh [OF h(4) len(4)]
    by (simp add: hs del: upt_Suc split del: if_split cong: if_cong)
  then show ?thesis using al st r(1,2) fl
    by (intro exI [of _ ?fm1] exI [of _ ?fi] exI [of _ fm2] exI [of _ fm3] exI [of _ ?y] exI [of _ ?z]) (simp add: hs_def del: upt_Suc)
qed

definition example_mem :: "nat future_mem" where
  "example_mem = \<lparr>g_token = (\<lambda>_. 0), g_topk_p = (\<lambda>_. []), g_topk_index = (\<lambda>_. []), g_seq_len = (\<lambda>_. 0), g_hidden = (\<lambda>_. 0)\<rparr>"

definition example_future :: "nat future_map" where
  "example_future = (future_map_init example_mem 2 None 16 True True)\<lparr>future_ct := 4\<rparr>"

definition example_future_draft :: "int list \<Rightarrow> nat draft_input_v2" where
  "example_future_draft vs = \<lparr>topk_p = map (\<lambda>_. [1]) vs, topk_index = map (\<lambda>_. [0]) vs, v2_verified_id = vs, new_seq_lens = map (\<lambda>_. 3) vs,
     v2_hidden_states = map (\<lambda>_. 0) vs, max_top_k = 1, uniform_top_k_value = None, v2_future_indices = None\<rparr>"

text \<open>Two requests are stored, two batches follow and the buffer wraps; the second request alone is resolved.\<close>

theorem future_map_round_trip_witness:
  "\<exists>fm1 fi fm2 fm3 y z. alloc_future_indices example_future 2 = Inr (fm1, fi)
    \<and> store_to_map_for_new_batch example_mem fm1 (the (interval fi)) (example_future_draft [7, 8]) = Inr fm2
    \<and> rfold (launch example_mem) fm2 [example_future_draft [1, 2], example_future_draft [3, 4]] = Inr fm3
    \<and> filter_batch_v2 ((example_future_draft [])\<lparr>v2_future_indices := Some fi\<rparr>) [1] = Inr y \<and> resolve_future fm3 [] (Some y) = Inr ([], Some z)
    \<and> v2_verified_id z = [8] \<and> new_seq_lens z = [3]"
proof -
  have "future_ok 2 example_future" "future_limit example_future = 6" by (simp_all add: future_ok_def example_future_def future_map_init_def)
  moreover have "draft_shape (length (v2_verified_id (example_future_draft vs))) (example_future_draft vs)" "length (v2_verified_id (example_future_draft vs)) = length vs" for vs
    by (simp_all add: draft_shape_def example_future_draft_def)
  ultimately show ?thesis
    using future_map_round_trip [of 2 example_future 2 "example_future_draft [7, 8]" "[example_future_draft [1, 2], example_future_draft [3, 4]]" "[1]" example_mem "example_future_draft []" "[]"]
    by (fastforce simp: draft_shape_def example_future_draft_def)
qed

end
