(* ===== verification/Spec2Isabelle.thy ===== *)
theory Spec2Isabelle
  imports Customized_Info Kv_Allocator Dflash_Config Dflash_Accept Req_State Kv_Manager Dflash_Info Opd_Tv Rollout_Align Seqlen_Balancing Replay_Distribution Opd_Inputs Radix_Cache Train_Step Dflash_Worker Overlap_Future
begin

text \<open>
  \<^bold>\<open>Draft-OPD.\<close> The repository trains a DFLASH draft model on the trajectories a speculative decoding engine
  produces. Two programs interact:

  \<^item> the inference engine (\<^verbatim>\<open>src/sglang-dflash/python/sglang/srt\<close>) drafts a block of tokens per request,
    verifies it with the target model, commits the accepted tokens, frees the KV slots of the rejected ones and
    records for every block which tokens were accepted, which was rejected first and what was drafted;
  \<^item> the trainer (\<^verbatim>\<open>src/verl/verl\<close>) aligns these records with the responses, cuts the responses into the blocks the
    engine drafted, and trains the student on them with the reverse KL or the exact total variation distance,
    balancing the micro-batches over its ranks and keeping statistics of what was replayed.

  The development models the logic of both sides at the level of the Python code: one theory per component, one
  definition per function, exceptions as values of a sum type, tensors as lists, objects as records or as a store.

  \<^bold>\<open>Inference engine.\<close>

  \<^item> \<^verbatim>\<open>Customized_Info\<close>: \<^verbatim>\<open>managers/customized_info_utils.py\<close> and the slicing of the metadata in
    \<^verbatim>\<open>scheduler_output_processor_mixin.py\<close>. The reject mask marks the block ends; what a client receives in
    chunks is what the verifier appended, when the requests of a message carry the same keys; otherwise the chunks are misrouted.
  \<^item> \<^verbatim>\<open>Kv_Allocator\<close>: \<^verbatim>\<open>mem_cache/allocator.py\<close>, the token and the paged allocator with their Triton kernels as
    programs on flat memory. No slot is lost or handed out twice; the kernels agree with the plain Python version.
  \<^item> \<^verbatim>\<open>Req_State\<close>: the fields of \<^verbatim>\<open>Req\<close> and its finish conditions (\<^verbatim>\<open>managers/schedule_batch.py\<close>).
  \<^item> \<^verbatim>\<open>Kv_Manager\<close>: \<^verbatim>\<open>ReqToTokenPool\<close>, \<^verbatim>\<open>mem_cache/common.py\<close> and the assignment kernels.
  \<^item> \<^verbatim>\<open>Radix_Tree\<close>, \<^verbatim>\<open>Radix_Inv\<close>, \<^verbatim>\<open>Radix_Walk\<close>, \<^verbatim>\<open>Radix_Props\<close>, \<^verbatim>\<open>Radix_Evict\<close>: \<^verbatim>\<open>mem_cache/radix_cache.py\<close>, the
    prefix cache, as a store of nodes. The tree invariant is kept by splitting, adding and removing leaves and by the
    lock loops; matching finds the longest cached prefix, a match after an insert returns what was inserted, and
    eviction frees enough without touching locked prefixes; lock counters and sizes are exactly what the locks held imply.
  \<^item> \<^verbatim>\<open>Radix_Cache\<close>: how requests and the tree share slots (\<^verbatim>\<open>cache_finished_req\<close>, \<^verbatim>\<open>cache_unfinished_req\<close>,
    \<^verbatim>\<open>init_next_round_input\<close>) and \<^verbatim>\<open>mem_cache/chunk_cache.py\<close>. Every slot of a request ends in the tree or with the
    allocator, exactly once, and an allocation the evictable prefixes have room for succeeds.
  \<^item> \<^verbatim>\<open>Dflash_Config\<close>: \<^verbatim>\<open>speculative/dflash_utils.py\<close>, configuration, layer ids and memory sizing.
  \<^item> \<^verbatim>\<open>Dflash_Accept\<close>: the acceptance rules (greedy, sampling, replay) and candidate log-probabilities.
  \<^item> \<^verbatim>\<open>Dflash_Info\<close>: \<^verbatim>\<open>speculative/dflash_info.py\<close>, the draft state of a batch and its verification. A verified batch
    commits exactly the tokens greedy decoding would produce, and every slot is either kept or freed.
  \<^item> \<^verbatim>\<open>Dflash_Sample\<close>: the greedy choice of drafted tokens with a head sharded over ranks. The choice has a maximal logit
    over the whole vocabulary, base and added tokens; shardings of one vocabulary agree on it where the largest logit is unique,
    and on ties too when the ranks hold consecutive parts and there are no added tokens.
  \<^item> \<^verbatim>\<open>Fused_Kv\<close>: the keys and values of context tokens, by the layer operations of \<^verbatim>\<open>models/dflash.py\<close> and by the fused
    kernel of \<^verbatim>\<open>triton_ops/fused_kv_materialize.py\<close>, which computes the same.
  \<^item> \<^verbatim>\<open>Dflash_Kv\<close>: the KV cache of the draft model in \<^verbatim>\<open>speculative/dflash_worker.py\<close>. After every append it holds the keys and
    values of every committed position; with a window the table shows an aligned end of the sequence.
  \<^item> \<^verbatim>\<open>Dflash_Worker\<close>: drafting, preparing, prefill and decode steps of the worker, composed of the theories above. A
    decode step succeeds, keeps the invariant between steps (cache coherent, committed slots not available) and extends
    the requests by the greedy decoding of the target.

  \<^item> \<^verbatim>\<open>Overlap_Future\<close>: \<^verbatim>\<open>managers/overlap_utils.py\<close> and the draft state of \<^verbatim>\<open>speculative/dflash_info_v2.py\<close> for overlap scheduling. The
    indices a batch takes in the circular buffer resolve to its results as long as the batches launched since fit into it.

  \<^bold>\<open>Trainer.\<close>

  \<^item> \<^verbatim>\<open>Rollout_Align\<close>: the reject mask as the rollout worker reports it (\<^verbatim>\<open>workers/rollout/sglang_rollout\<close>), and the training blocks
    the student plans from it.
  \<^item> \<^verbatim>\<open>Opd_Inputs\<close>: the inputs of a composed training step (\<^verbatim>\<open>workers/engine/fsdp/transformer_impl.py\<close>).
  \<^item> \<^verbatim>\<open>Opd_Anchor\<close>, \<^verbatim>\<open>Opd_Tv\<close>: \<^verbatim>\<open>models/transformers/dflash_student.py\<close>, the anchor plans, draft inputs and masks, the
    position plan of the exact total variation loss with its rejected branches, and both training forwards. The
    context the target sees at a position of the plan is the context the draft block saw.
  \<^item> \<^verbatim>\<open>Heapq\<close>, \<^verbatim>\<open>Seqlen_Balancing\<close>: \<^verbatim>\<open>utils/seqlen_balancing.py\<close> with the heap of the Python library.
  \<^item> \<^verbatim>\<open>Replay_Distribution\<close>: \<^verbatim>\<open>trainer/ppo/replay_distribution.py\<close>.
  \<^item> \<^verbatim>\<open>Agg_Loss\<close>, \<^verbatim>\<open>Distill_Config\<close>, \<^verbatim>\<open>Distill_Loss\<close>: loss aggregation and the PPO loss, the distillation configuration, the
    teacher source and the losses of \<^verbatim>\<open>trainer/distillation\<close>. Aggregation with global counts does not depend on the cut into
    micro-batches; under an accepted configuration the supervised scalar loss can only fail at a position decay out of range,
    which the configuration does not check; with task rewards every policy loss aggregated by \<^verbatim>\<open>agg_loss\<close> fails.
  \<^item> \<^verbatim>\<open>Train_Step\<close>: the counts over all ranks, the loop over micro-batches of the engine and the step of all ranks. The blocks
    counted from the metadata are the blocks the student returns; where the counts of all ranks agree with the forward passes, the
    losses of a step, averaged over the ranks, are the mean over all blocks (total variation) or the weighted mean over response and
    rejected tokens (supervised loss, when every micro-batch has rejected tokens).

  \<^bold>\<open>Interfaces.\<close> \<^verbatim>\<open>slot_pool\<close> (allocators), \<^verbatim>\<open>min_queue\<close> (heaps), \<^verbatim>\<open>prefix_cache\<close> (radix and chunk cache) and the other locales state what a client
  relies on; each is interpreted on the model of the code that provides it.

  \<^bold>\<open>Parameters.\<close> Networks (target, draft, language model head), attention back ends, the tokenizer, random
  generators, the clock, the enumeration order of Python sets, the policy losses \<^verbatim>\<open>clip_cov\<close>, \<^verbatim>\<open>kl_cov\<close> and \<^verbatim>\<open>bypass_mode\<close>, uninitialised memory and
  out-of-bounds loads of kernels are arguments of the definitions that use them. Floating point numbers are reals, except times, which are
  only compared and are integers; a division by zero is the error \<^verbatim>\<open>NonFinite\<close>, where torch goes on with an infinite or undefined number.
  A collective call in the engine is a function of the name of its result and of the value passed; a training step of all ranks instantiates it by
  the sum over the ranks.

  \<^bold>\<open>Bounds.\<close> Loops are structural recursions or terminate by a measure. The loops of the radix tree, whose end
  depends on the shape of a mutable tree, take fuel: the length of the key plus one for the walks down, the number
  of nodes ever created plus one for the chains of parents, for eviction and for the traversal. Their lemmas show
  that this is enough: under the tree invariant they return a result, never \<^verbatim>\<open>OutOfFuel\<close>.
  The theorems on decode steps are for page size 1 and a table shared with the target; those on appending hold for every
  page size and for the window too.

  \<^bold>\<open>Not modelled.\<close> Model execution, CUDA and Triton code other than the listed kernels, attention back ends, the
  scheduler loop and its policies, tokenizer and HTTP servers, weight loading and synchronisation, the overlap worker
  (\<^verbatim>\<open>dflash_worker_v2.py\<close>, \<^verbatim>\<open>prepare_for_decode\<close> of \<^verbatim>\<open>dflash_info_v2.py\<close>), other speculative algorithms, sliding-window, Mamba and host-tier caches, KV block events, the optimiser, sharding and checkpoints of
  the training engine, the generic parts of verl, evaluation scripts, benchmarks, tests and vendored code: they
  are input and output, numerical kernels, or not specific to this program.
\<close>

end
